(* ===== verification/Prelude.thy ===== *)
theory Prelude
  imports Main "HOL-Library.Word" "HOL-Library.Monad_Syntax"
begin

unbundle bit_operations_syntax

text \<open>
  What the components share: the names of the C types, memory as byte lists with checked
  access, the counted loops of the sources as combinators with their total-correctness
  rules, and the fact collections.

  Conventions. A value of type \<open>'a option\<close> that stands for a run of C code is \<open>None\<close>
  where the C code has undefined behaviour (an access outside the object), so a theorem of
  the form \<open>f x = Some y\<close> also says that every access of the run is inside its object.
  Errors the code itself reports are ordinary return values.
\<close>

section \<open>C types and error numbers\<close>

type_synonym byte = "8 word"
type_synonym u16 = "16 word"
type_synonym u32 = "32 word"
type_synonym ulong = "64 word"

text \<open>The values of \<open>errno.h\<close> on Linux that the sources test or return.\<close>

definition EINTR :: int where "EINTR = 4"
definition EIO :: int where "EIO = 5"
definition EAGAIN :: int where "EAGAIN = 11"
definition ENOMEM :: int where "ENOMEM = 12"
definition EBUSY :: int where "EBUSY = 16"
definition EINVAL :: int where "EINVAL = 22"
definition ERANGE :: int where "ERANGE = 34"
definition EOVERFLOW :: int where "EOVERFLOW = 75"

lemmas errno_defs =
  EINTR_def EIO_def EAGAIN_def ENOMEM_def EBUSY_def EINVAL_def ERANGE_def EOVERFLOW_def

named_theorems run_simps \<open>equations that run straight-line model code\<close>
named_theorems loop_rules \<open>total-correctness rules of the loop combinators\<close>

section \<open>Checked memory\<close>

definition rd :: "'a list \<Rightarrow> nat \<Rightarrow> 'a option" where
  "rd xs k = (if k < length xs then Some (xs ! k) else None)"

definition wr :: "'a list \<Rightarrow> nat \<Rightarrow> 'a \<Rightarrow> 'a list option" where
  "wr xs k v = (if k < length xs then Some (xs[k := v]) else None)"

text \<open>\<open>memcpy\<close> out of and into an object, and the overlapping copy inside one object.\<close>

definition mem_read :: "'a list \<Rightarrow> nat \<Rightarrow> nat \<Rightarrow> 'a list option" where
  "mem_read xs off n = (if off + n \<le> length xs then Some (take n (drop off xs)) else None)"

definition blit :: "'a list \<Rightarrow> nat \<Rightarrow> 'a list \<Rightarrow> 'a list" where
  "blit xs off bs = take off xs @ bs @ drop (off + length bs) xs"

definition mem_write :: "'a list \<Rightarrow> nat \<Rightarrow> 'a list \<Rightarrow> 'a list option" where
  "mem_write xs off bs =
     (if off + length bs \<le> length xs then Some (blit xs off bs) else None)"

definition mem_move :: "'a list \<Rightarrow> nat \<Rightarrow> nat \<Rightarrow> nat \<Rightarrow> 'a list option" where
  "mem_move xs dst src n = Option.bind (mem_read xs src n) (mem_write xs dst)"

lemma rd_eq [run_simps]: "k < length xs \<Longrightarrow> rd xs k = Some (xs ! k)"
  by (simp add: rd_def)

lemma wr_eq [run_simps]: "k < length xs \<Longrightarrow> wr xs k v = Some (xs[k := v])"
  by (simp add: wr_def)

lemma rd_Some_iff: "rd xs k = Some v \<longleftrightarrow> k < length xs \<and> v = xs ! k"
  by (auto simp: rd_def)

lemma wr_Some_iff: "wr xs k v = Some ys \<longleftrightarrow> k < length xs \<and> ys = xs[k := v]"
  by (auto simp: wr_def)

lemma mem_read_eq [run_simps]:
  "off + n \<le> length xs \<Longrightarrow> mem_read xs off n = Some (take n (drop off xs))"
  by (simp add: mem_read_def)

lemma mem_write_eq [run_simps]:
  "off + length bs \<le> length xs \<Longrightarrow> mem_write xs off bs = Some (blit xs off bs)"
  by (simp add: mem_write_def)

lemma length_blit [simp]: "off + length bs \<le> length xs \<Longrightarrow> length (blit xs off bs) = length xs"
  by (simp add: blit_def)

lemma blit_Nil [simp]: "blit xs off [] = xs"
  by (simp add: blit_def)

lemma blit_append:
  assumes "off + length as + length bs \<le> length xs"
  shows "blit (blit xs off as) (off + length as) bs = blit xs off (as @ bs)"
proof -
  have "as = []" if "length xs \<le> off" using assms that by (cases as) auto
  with assms show ?thesis by (simp add: blit_def min_def ac_simps)
qed

lemma take_blit_below: "n \<le> off \<Longrightarrow> off \<le> length xs \<Longrightarrow> take n (blit xs off bs) = take n xs"
  by (simp add: blit_def min_def)

lemma take_blit:
  "off + length bs \<le> length xs \<Longrightarrow> take (off + length bs) (blit xs off bs) = take off xs @ bs"
  by (simp add: blit_def)

lemma nth_blit_below: "i < off \<Longrightarrow> off \<le> length xs \<Longrightarrow> blit xs off bs ! i = xs ! i"
  by (simp add: blit_def nth_append)

lemma mem_write_length: "mem_write xs off bs = Some ys \<Longrightarrow> length ys = length xs"
  by (auto simp: mem_write_def split: if_splits)

lemma mem_write_None_iff: "mem_write xs off bs = None \<longleftrightarrow> length xs < off + length bs"
  by (auto simp: mem_write_def)

section \<open>Counted loops\<close>

text \<open>\<open>for (k = a; k < b; k++) s = f(k, s);\<close>\<close>

function for_range :: "nat \<Rightarrow> nat \<Rightarrow> (nat \<Rightarrow> 's \<Rightarrow> 's option) \<Rightarrow> 's \<Rightarrow> 's option" where
  "for_range a b f s =
     (if a < b then Option.bind (f a s) (for_range (Suc a) b f) else Some s)"
  by pat_completeness auto
termination
  by (relation "measure (\<lambda>(a, b, f, s). b - a)") auto

declare for_range.simps [simp del]

lemma for_range_done [simp]: "b \<le> a \<Longrightarrow> for_range a b f s = Some s"
  by (simp add: for_range.simps)

lemma for_range_step: "a < b \<Longrightarrow> for_range a b f s = Option.bind (f a s) (for_range (Suc a) b f)"
  by (simp add: for_range.simps)

lemma for_range_rule [loop_rules]:
  assumes "a \<le> b" and "P a s"
    and "\<And>k s. a \<le> k \<Longrightarrow> k < b \<Longrightarrow> P k s \<Longrightarrow> \<exists>s'. f k s = Some s' \<and> P (Suc k) s'"
  shows "\<exists>s'. for_range a b f s = Some s' \<and> P b s'"
  using assms
proof (induction "b - a" arbitrary: a s)
  case 0
  then show ?case by simp
next
  case (Suc n)
  then have "a < b" by simp
  with Suc.prems obtain s' where s': "f a s = Some s'" "P (Suc a) s'" by blast
  have "\<exists>t. for_range (Suc a) b f s' = Some t \<and> P b t"
    by (rule Suc.hyps(1)) (use Suc \<open>a < b\<close> s' in auto)
  with \<open>a < b\<close> s' show ?case by (simp add: for_range_step)
qed

lemma for_range_cong_fold:
  assumes "\<And>k s. a \<le> k \<Longrightarrow> k < b \<Longrightarrow> f k s = Some (g k s)"
  shows "for_range a b f s = Some (fold g [a..<b] s)"
  using assms
proof (induction "b - a" arbitrary: a s)
  case 0
  then show ?case by simp
next
  case (Suc n)
  then have "a < b" by simp
  moreover from this have "[a..<b] = a # [Suc a..<b]" by (rule upt_conv_Cons)
  moreover have "for_range (Suc a) b f (g a s) = Some (fold g [Suc a..<b] (g a s))"
    by (rule Suc.hyps(1)) (use Suc in auto)
  ultimately show ?case using Suc.prems by (simp add: for_range_step)
qed

text \<open>\<open>for (k = a; k < b; k++) if (p(k)) return 1; return 0;\<close>\<close>

function any_range :: "nat \<Rightarrow> nat \<Rightarrow> (nat \<Rightarrow> bool option) \<Rightarrow> bool option" where
  "any_range a b p =
     (if a < b then Option.bind (p a) (\<lambda>hit. if hit then Some True else any_range (Suc a) b p)
      else Some False)"
  by pat_completeness auto
termination
  by (relation "measure (\<lambda>(a, b, p). b - a)") auto

declare any_range.simps [simp del]

lemma any_range_eq [loop_rules]:
  assumes "\<And>k. a \<le> k \<Longrightarrow> k < b \<Longrightarrow> p k = Some (q k)"
  shows "any_range a b p = Some (\<exists>k. a \<le> k \<and> k < b \<and> q k)"
  using assms
proof (induction "b - a" arbitrary: a)
  case 0
  then show ?case by (simp add: any_range.simps)
next
  case (Suc n)
  then have "a < b" by simp
  have "any_range (Suc a) b p = Some (\<exists>k. Suc a \<le> k \<and> k < b \<and> q k)"
    by (rule Suc.hyps(1)) (use Suc in auto)
  moreover have "(\<exists>k. a \<le> k \<and> k < b \<and> q k) \<longleftrightarrow> q a \<or> (\<exists>k. Suc a \<le> k \<and> k < b \<and> q k)"
    using \<open>a < b\<close> by (metis Suc_leD Suc_leI le_neq_implies_less order_refl)
  ultimately show ?case
    using Suc.prems \<open>a < b\<close> by (simp add: any_range.simps [of a])
qed

text \<open>\<open>for (k = n - 1; k >= 0; k--) s = f(k, s);\<close>\<close>

primrec for_down :: "nat \<Rightarrow> (nat \<Rightarrow> 's \<Rightarrow> 's option) \<Rightarrow> 's \<Rightarrow> 's option" where
  "for_down 0 f s = Some s"
| "for_down (Suc n) f s = Option.bind (f n s) (for_down n f)"

lemma for_down_rule [loop_rules]:
  assumes "P n s"
    and "\<And>k s. k < n \<Longrightarrow> P (Suc k) s \<Longrightarrow> \<exists>s'. f k s = Some s' \<and> P k s'"
  shows "\<exists>s'. for_down n f s = Some s' \<and> P 0 s'"
  using assms
proof (induction n arbitrary: s)
  case 0
  then show ?case by simp
next
  case (Suc n)
  from Suc.prems obtain s' where s': "f n s = Some s'" "P n s'" by blast
  have "\<exists>t. for_down n f s' = Some t \<and> P 0 t"
    by (rule Suc.IH) (use Suc.prems s' in auto)
  with s' show ?case by simp
qed

section \<open>Bytes of words\<close>

text \<open>Little-endian 16-bit fields, as the packed structures of \<open>protocol.h\<close> hold them.\<close>

definition le16_bytes :: "u16 \<Rightarrow> byte list" where
  "le16_bytes w = [ucast w, ucast (drop_bit 8 w)]"

definition le16_of :: "byte \<Rightarrow> byte \<Rightarrow> u16" where
  "le16_of lo hi = ucast lo OR push_bit 8 (ucast hi)"

lemma le16_of_bytes [simp]: "le16_of (ucast w) (ucast (drop_bit 8 w)) = w"
proof (rule bit_word_eqI)
  fix n assume "n < LENGTH(16)"
  then show "bit (le16_of (ucast w) (ucast (drop_bit 8 w))) n \<longleftrightarrow> bit w n"
    by (auto simp: le16_of_def bit_simps)
qed

lemma length_le16_bytes [simp]: "length (le16_bytes w) = 2"
  by (simp add: le16_bytes_def)

text \<open>The places of the bits of a byte.\<close>

lemma byte_bits: "n < LENGTH(8) \<Longrightarrow> n \<in> {7, 6, 5, 4, 3, 2, 1, 0 :: nat}"
  by auto

end
