(* ===== verification/CLib.thy ===== *)
theory CLib
  imports Prelude
begin

text \<open>
  What the sources use of the C library: the character classes of the C locale, \<open>snprintf\<close>,
  number output and \<open>strtoll\<close>, C strings inside allocated blocks, \<open>strcmp\<close> and \<open>strncmp\<close>, \<open>malloc\<close>.
\<close>

section \<open>Characters\<close>

definition isspace :: "byte \<Rightarrow> bool" where "isspace c \<longleftrightarrow> c = 32 \<or> 9 \<le> c \<and> c \<le> 13"
definition isdigit :: "byte \<Rightarrow> bool" where "isdigit c \<longleftrightarrow> 48 \<le> c \<and> c \<le> 57"
definition isxdigit :: "byte \<Rightarrow> bool" where "isxdigit c \<longleftrightarrow> isdigit c \<or> 65 \<le> c \<and> c \<le> 70 \<or> 97 \<le> c \<and> c \<le> 102"
definition tolower :: "byte \<Rightarrow> byte" where "tolower c = (if 65 \<le> c \<and> c \<le> 90 then c + 32 else c)"

lemma byte_cases:
  fixes P :: "byte \<Rightarrow> bool"
  assumes "list_all (\<lambda>n. P (of_nat n)) [0..<256]"
  shows "P c"
proof -
  have "unat c < 256" using unsigned_less [of c] by simp
  then have "unat c \<in> set [0..<256]" by simp
  then have "P (of_nat (unat c))" using assms unfolding list_all_iff by blast
  then show ?thesis by simp
qed

section \<open>Output\<close>

text \<open>\<open>snprintf(buf + off, n, \<dots>)\<close> where the format yields \<open>s\<close>.\<close>

definition c_snprintf :: "byte list \<Rightarrow> nat \<Rightarrow> nat \<Rightarrow> byte list \<Rightarrow> (byte list \<times> nat) option" where
  "c_snprintf buf off n s =
     (if n = 0 then Some (buf, length s)
      else do { buf \<leftarrow> mem_write buf off (take (n - 1) s @ [0]); Some (buf, length s) })"

fun hex_rev :: "nat \<Rightarrow> nat \<Rightarrow> byte list" where
  "hex_rev 0 v = []"
| "hex_rev (Suc w) v = (let d = v mod 16 in if d < 10 then 48 + of_nat d else 87 + of_nat d) # hex_rev w (v div 16)"

fun hex_len :: "nat \<Rightarrow> nat" where "hex_len v = (if v < 16 then 1 else Suc (hex_len (v div 16)))"

declare hex_len.simps [simp del]

text \<open>The conversion \<open>%0*lx\<close>: the digits of the value, at least \<open>w\<close> of them.\<close>

definition fmt_hex :: "nat \<Rightarrow> nat \<Rightarrow> byte list" where "fmt_hex w v = rev (hex_rev (max w (hex_len v)) v)"

fun dec :: "nat \<Rightarrow> byte list" where
  "dec v = (if v < 10 then [48 + of_nat v] else dec (v div 10) @ [48 + of_nat (v mod 10)])"

declare dec.simps [simp del]

text \<open>The conversion \<open>%d\<close>.\<close>

definition fmt_int :: "int \<Rightarrow> byte list" where "fmt_int i = (if i < 0 then 45 # dec (nat (- i)) else dec (nat i))"

section \<open>Decimal numbers\<close>

definition dec_num :: "nat \<Rightarrow> byte list \<Rightarrow> nat" where "dec_num a ds = foldl (\<lambda>a c. 10 * a + unat (c - 48)) a ds"

lemma dec_num_simps [simp]: "dec_num a [] = a" "dec_num a (c # ds) = dec_num (10 * a + unat (c - 48)) ds" "dec_num a (ds @ es) = dec_num (dec_num a ds) es"
  by (simp_all add: dec_num_def)

lemma digit_facts:
  assumes "isdigit c"
  shows "\<not> isspace c" "c \<noteq> 0" "c \<noteq> 44" "c \<noteq> 45" "c \<noteq> 10" "unat (c - 48) < 10"
proof -
  have "isdigit c \<longrightarrow> \<not> isspace c \<and> c \<noteq> 0 \<and> c \<noteq> 44 \<and> c \<noteq> 45 \<and> c \<noteq> 10 \<and> unat (c - 48) < 10"
    by (rule byte_cases) code_simp
  then show "\<not> isspace c" "c \<noteq> 0" "c \<noteq> 44" "c \<noteq> 45" "c \<noteq> 10" "unat (c - 48) < 10" using assms by simp_all
qed

lemma digit_char:
  assumes "d < 10"
  shows "isdigit (48 + of_nat d) \<and> unat (48 + of_nat d - 48 :: byte) = d"
proof -
  have "list_all (\<lambda>d. isdigit (48 + of_nat d) \<and> unat (48 + of_nat d - 48 :: byte) = d) [0..<10]" by code_simp
  then show ?thesis using assms by (simp add: list_all_iff)
qed

lemma dec_facts: "list_all isdigit (dec v) \<and> dec v \<noteq> [] \<and> dec_num 0 (dec v) = v"
proof (induction v rule: dec.induct)
  case (1 v)
  show ?case
  proof (cases "v < 10")
    case True
    then show ?thesis using digit_char [of v] by (subst (1 2 3) dec.simps) simp
  next
    case False
    then show ?thesis using 1 digit_char [of "v mod 10"] by (subst (1 2 3) dec.simps) simp
  qed
qed

section \<open>Blocks and the C strings in them\<close>

text \<open>A block of characters, where an uninitialised one is \<open>None\<close>.\<close>

type_synonym block = "byte option list"

definition rdc :: "block \<Rightarrow> nat \<Rightarrow> byte option" where "rdc b p = do { c \<leftarrow> rd b p; c }"
definition wrc :: "block \<Rightarrow> nat \<Rightarrow> byte \<Rightarrow> block option" where "wrc b p c = wr b p (Some c)"

fun cstr :: "block \<Rightarrow> byte list option" where
  "cstr [] = None"
| "cstr (None # b) = None"
| "cstr (Some c # b) = (if c = 0 then Some [] else map_option ((#) c) (cstr b))"

lemma rdc_eq [simp]: "rdc (map Some s) p = rd s p"
  by (simp add: rdc_def rd_def)

lemma rdc_nth: "p < length b \<Longrightarrow> rdc b p = b ! p"
  by (simp add: rdc_def rd_def)

lemma cstr_map: "0 \<notin> set s \<Longrightarrow> cstr (map Some s @ Some 0 # b) = Some s"
  by (induction s) auto

lemma cstr_Some: "cstr b = Some s \<Longrightarrow> \<exists>r. b = map Some s @ Some 0 # r \<and> 0 \<notin> set s"
proof (induction b arbitrary: s rule: cstr.induct)
  case (3 c b)
  show ?case
  proof (cases "c = 0")
    case True
    then show ?thesis using 3(2) by auto
  next
    case False
    then obtain t where t: "cstr b = Some t" "s = c # t" using 3(2) by auto
    then obtain r where "b = map Some t @ Some 0 # r" "0 \<notin> set t" using 3(1) [OF False] by blast
    then show ?thesis using t(2) False by auto
  qed
qed auto

text \<open>\<open>malloc\<close>: whether each call succeeds is a script; where it has run out calls succeed.\<close>

definition malloc :: "bool list \<Rightarrow> bool \<times> bool list" where
  "malloc mal = (case mal of [] \<Rightarrow> (True, []) | ok # mal \<Rightarrow> (ok, mal))"

lemma malloc_Nil [simp]: "malloc [] = (True, [])" by (simp add: malloc_def)

section \<open>\<open>strncmp\<close> and \<open>strtoll\<close>\<close>

text \<open>
  Whether the text read through \<open>g\<close> starts with \<open>s\<close>: \<open>!strncmp(p, s, strlen(s))\<close>, which looks at
  no character behind the first difference.
\<close>

fun starts :: "(nat \<Rightarrow> byte option) \<Rightarrow> nat \<Rightarrow> byte list \<Rightarrow> bool option" where
  "starts g p [] = Some True"
| "starts g p (c # s) = do { d \<leftarrow> g p; if d = c then starts g (Suc p) s else Some False }"

partial_function (option) skip_isspace :: "(nat \<Rightarrow> byte option) \<Rightarrow> nat \<Rightarrow> nat option" where
  "skip_isspace g p = do { c \<leftarrow> g p; if isspace c then skip_isspace g (p + 1) else Some p }"

definition digit_in :: "nat \<Rightarrow> byte \<Rightarrow> nat option" where
  "digit_in base c =
     (let v = (if isdigit c then unat (c - 48)
               else let l = tolower c in if 97 \<le> l \<and> l \<le> 122 then unat (l - 97) + 10 else 36) in
      if v < base then Some v else None)"

partial_function (option) digits :: "(nat \<Rightarrow> byte option) \<Rightarrow> nat \<Rightarrow> nat \<Rightarrow> nat \<Rightarrow> (nat \<times> nat) option" where
  "digits g base p acc = do {
     c \<leftarrow> g p;
     case digit_in base c of None \<Rightarrow> Some (acc, p) | Some d \<Rightarrow> digits g base (p + 1) (base * acc + d) }"

text \<open>Sign, magnitude and end pointer of \<open>strtol\<close> and its kin with base 0.\<close>

definition c_strto :: "(nat \<Rightarrow> byte option) \<Rightarrow> nat \<Rightarrow> (bool \<times> nat \<times> nat) option" where
  "c_strto g p = do {
     q \<leftarrow> skip_isspace g p;
     c \<leftarrow> g q;
     let neg = (c = 45);
     let q = (if c = 45 \<or> c = 43 then q + 1 else q);
     c \<leftarrow> g q;
     if c = 48 then do {
       x \<leftarrow> g (q + 1);
       if tolower x = 120 then do {
         y \<leftarrow> g (q + 2);
         if isxdigit y then do { (v, e) \<leftarrow> digits g 16 (q + 2) 0; Some (neg, v, e) } else Some (neg, 0, q + 1) }
       else do { (v, e) \<leftarrow> digits g 8 q 0; Some (neg, v, e) } }
     else do { (v, e) \<leftarrow> digits g 10 q 0; Some (neg, v, if e = q then p else e) } }"

text \<open>\<open>strtol\<close> and \<open>strtoll\<close> (both 64 bits wide) and \<open>strtoull\<close>, which saturate.\<close>

definition c_strtoll :: "(nat \<Rightarrow> byte option) \<Rightarrow> nat \<Rightarrow> (int \<times> nat) option" where
  "c_strtoll g p = do {
     (neg, v, e) \<leftarrow> c_strto g p;
     Some (if neg then max (- (2 ^ 63)) (- int v) else min (2 ^ 63 - 1) (int v), e) }"

definition c_strtoull :: "(nat \<Rightarrow> byte option) \<Rightarrow> nat \<Rightarrow> (ulong \<times> nat) option" where
  "c_strtoull g p = do {
     (neg, v, e) \<leftarrow> c_strto g p;
     Some (if 2 ^ 64 \<le> v then - 1 else if neg then - of_nat v else of_nat v, e) }"

section \<open>Reading back what was printed\<close>

text \<open>\<open>text_at g p s\<close>: reading through \<open>g\<close> from \<open>p\<close> gives \<open>s\<close>.\<close>

definition text_at :: "(nat \<Rightarrow> byte option) \<Rightarrow> nat \<Rightarrow> byte list \<Rightarrow> bool" where
  "text_at g p s \<longleftrightarrow> (\<forall>i < length s. g (p + i) = Some (s ! i))"

lemma text_at_Nil [simp]: "text_at g p []" by (simp add: text_at_def)

lemma text_at_Cons [simp]: "text_at g p (c # s) \<longleftrightarrow> g p = Some c \<and> text_at g (Suc p) s"
  by (auto simp: text_at_def less_Suc_eq_0_disj)

lemma text_at_append [simp]: "text_at g p (s @ t) \<longleftrightarrow> text_at g p s \<and> text_at g (p + length s) t"
  by (induction s arbitrary: p) auto

lemma text_at_rd: "text_at (rd (a @ s @ b)) (length a) s"
  by (auto simp: text_at_def rd_def nth_append)

lemma starts_text: "text_at g p s \<Longrightarrow> starts g p s = Some True"
  by (induction s arbitrary: p) auto

lemma digit_in_10: "isdigit c \<Longrightarrow> digit_in 10 c = Some (unat (c - 48))"
  using digit_facts(6) by (simp add: digit_in_def)

lemma digit_in_other: "\<not> isdigit c \<Longrightarrow> digit_in 10 c = None"
proof -
  have "\<not> isdigit c \<longrightarrow> digit_in 10 c = None" by (rule byte_cases) code_simp
  then show "\<not> isdigit c \<Longrightarrow> digit_in 10 c = None" by simp
qed

lemma digits_text:
  assumes "list_all isdigit ds" and "text_at g p (ds @ [c])" and "\<not> isdigit c"
  shows "digits g 10 p a = Some (dec_num a ds, p + length ds)"
  using assms
proof (induction ds arbitrary: p a)
  case Nil
  then show ?case by (subst digits.simps) (simp add: digit_in_other)
next
  case (Cons d ds)
  then show ?case by (subst digits.simps) (simp add: digit_in_10)
qed

lemma dec_first: "0 < v \<Longrightarrow> hd (dec v) \<noteq> 48"
proof (induction v rule: dec.induct)
  case (1 v)
  show ?case
  proof (cases "v < 10")
    case True
    have "list_all (\<lambda>d. d = 0 \<or> (48 + of_nat d :: byte) \<noteq> 48) [0..<10]" by code_simp
    then have all: "\<forall>d \<in> set [0..<10]. d = 0 \<or> (48 + of_nat d :: byte) \<noteq> 48" by (simp only: list_all_iff)
    have "v \<in> set [0..<10]" using True by simp
    from bspec [OF all this] have "(48 + of_nat v :: byte) \<noteq> 48" using 1(2) by (elim disjE) (simp_all only: less_irrefl not_False_eq_True)
    moreover have "dec v = [48 + of_nat v]" using True by (subst dec.simps) simp
    ultimately show ?thesis by (simp only: list.sel not_False_eq_True)
  next
    case False
    then have "0 < v div 10" by simp
    then have "hd (dec (v div 10)) \<noteq> 48" using 1(1) False by blast
    moreover have "dec v = dec (v div 10) @ [48 + of_nat (v mod 10)]" using False by (subst dec.simps) simp
    ultimately show ?thesis using dec_facts [of "v div 10"] by (metis hd_append2)
  qed
qed

text \<open>A decimal number, possibly signed, in front of a character that is neither a digit nor an x.\<close>

lemma c_strto_dec:
  assumes t: "text_at g p ((if neg then [45] else []) @ dec v @ [c])" and c: "\<not> isdigit c" "tolower c \<noteq> 120"
  shows "c_strto g p = Some (neg, v, p + (if neg then 1 else 0) + length (dec v))"
proof -
  obtain q where q: "q = p + (if neg then 1 else 0)" by blast
  have tq: "text_at g q (dec v @ [c])" using t q by (cases neg) auto
  obtain d ds where d: "dec v = d # ds" using dec_facts [of v] by (cases "dec v") auto
  have dd: "isdigit d" "list_all isdigit ds" "dec_num 0 (d # ds) = v" using dec_facts [of v] unfolding d by auto
  have gq: "g q = Some d" using tq d by simp
  have sk: "skip_isspace g p = Some p"
  proof (cases neg)
    case True
    have "\<not> isspace 45" by code_simp
    then show ?thesis using t True by (subst skip_isspace.simps) simp
  next
    case False
    then show ?thesis using t digit_facts(1) [OF dd(1)] d by (subst skip_isspace.simps) simp
  qed
  have gp: "g p = Some (if neg then 45 else d)" using t d by (cases neg) auto
  have nd: "d \<noteq> 45" "d \<noteq> 43"
  proof -
    have "isdigit d \<longrightarrow> d \<noteq> 45 \<and> d \<noteq> 43" by (rule byte_cases) code_simp
    then show "d \<noteq> 45" "d \<noteq> 43" using dd(1) by auto
  qed
  have run: "digits g 10 q 0 = Some (v, q + length (dec v))"
    using digits_text [OF _ tq c(1)] dec_facts [of v] by simp
  show ?thesis
  proof (cases "d = 48")
    case True
    then have v: "v = 0" using dec_first [of v] d by auto
    then have ds: "ds = []" using d by (subst (asm) dec.simps) simp
    have g1: "g (Suc q) = Some c" using tq d ds by simp
    have d8: "digit_in 8 48 = Some 0" by code_simp
    have dc: "digit_in 8 c = None"
    proof -
      have "\<not> isdigit c \<longrightarrow> digit_in 8 c = None" by (rule byte_cases) code_simp
      then show ?thesis using c by simp
    qed
    have "digits g 8 q 0 = Some (0, Suc q)"
      by (subst digits.simps, simp add: gq True d8, subst digits.simps) (simp add: g1 dc)
    then show ?thesis using sk gp gq nd True g1 c v q d ds by (cases neg) (simp_all add: c_strto_def)
  next
    case False
    then show ?thesis using sk gp gq nd run d q by (cases neg) (simp_all add: c_strto_def)
  qed
qed

lemma c_strtoll_dec:
  assumes "text_at g p ((if neg then [45] else []) @ dec v @ [c])" and "\<not> isdigit c" and "tolower c \<noteq> 120" and "v < 2 ^ 63"
  shows "c_strtoll g p = Some ((if neg then - int v else int v), p + (if neg then 1 else 0) + length (dec v))"
proof -
  have "int v < 2 ^ 63" using assms(4) by (metis of_nat_less_iff of_nat_numeral of_nat_power)
  then show ?thesis using c_strto_dec [OF assms(1-3)] by (simp add: c_strtoll_def)
qed

lemma c_strtoull_dec:
  assumes "text_at g p (dec v @ [c])" and "\<not> isdigit c" and "tolower c \<noteq> 120" and "v < 2 ^ 64"
  shows "c_strtoull g p = Some (of_nat v, p + length (dec v))"
  using c_strto_dec [of g p False v c] assms by (simp add: c_strtoull_def)

end
