(* ===== verification/RecordData.thy ===== *)
theory RecordData
  imports CLib
begin

text \<open>
  The data of \<open>src/src/record/record.h\<close>: elements, records and the context, with the list and
  bucket operations on records. The lists and hash buckets a record is linked into are those of
  \<open>list.h\<close> (theories \<open>DList\<close> and \<open>HList\<close>); here a list is the HOL list of the records on it, and
  each record remembers which list head and which bucket it is linked under. Taking a record off
  a list it is not on, or linking one that is linked already, is \<open>None\<close>.
\<close>

section \<open>Elements\<close>

datatype ElementType = ELEMENT_CHAR | ELEMENT_UCHAR | ELEMENT_SMALLINT | ELEMENT_SMALLUINT | ELEMENT_INT | ELEMENT_UINT
  | ELEMENT_BIGINT | ELEMENT_BIGUINT | ELEMENT_BINARY | ELEMENT_TEXT | ELEMENT_TYPE_MAX

text \<open>
  The union: eight bytes read as a signed or unsigned number, or a pointer to an allocated block.
  The null pointer is \<open>Bits 0\<close>; the number a block's address gives is not modelled.
\<close>

datatype data = Bits ulong | Ptr block

definition data_null :: "data \<Rightarrow> bool" where "data_null d \<longleftrightarrow> d = Bits 0"

definition data_bigint :: "data \<Rightarrow> int option" where
  "data_bigint d = (case d of Bits w \<Rightarrow> Some (sint w) | Ptr b \<Rightarrow> None)"

definition data_ptr :: "data \<Rightarrow> block option" where
  "data_ptr d = (case d of Bits w \<Rightarrow> None | Ptr b \<Rightarrow> Some b)"

text \<open>A name is the C string in the block \<open>el->name\<close> points to.\<close>

record element =
  el_data :: data
  el_name :: "byte list"
  el_type :: ElementType
  el_size :: int

definition chars :: "string \<Rightarrow> byte list" where "chars s = map of_char s"

section \<open>Records and the context\<close>

type_synonym rid = nat

text \<open>\<open>uid\<close> and \<open>key\<close> point to elements of the record: here their index in \<open>re_data\<close>.\<close>

record rcd =
  re_data :: "element list"
  re_uid :: "nat option"
  re_key :: "nat option"
  re_on :: "nat option"
  re_bucket :: "nat option"

definition RECORD_HASH_SIZE :: nat where "RECORD_HASH_SIZE = 128"
definition RECORD_HASHTABLE_SIZE :: nat where "RECORD_HASHTABLE_SIZE = RECORD_HASH_SIZE * 2"
definition RECORD_HASH_MASK :: nat where "RECORD_HASH_MASK = RECORD_HASH_SIZE - 1"

text \<open>
  \<open>rc_mem\<close> holds the live records, \<open>rc_new\<close> the next address; \<open>rc_lists\<close> gives the list at each
  list head, \<open>RECORDS\<close> being \<open>rctx->records\<close>; \<open>rc_mal\<close> says which calls of \<open>malloc\<close> will succeed.
\<close>

record record_context =
  rc_mem :: "rid \<Rightarrow> rcd option"
  rc_new :: rid
  rc_lists :: "nat \<Rightarrow> rid list"
  rc_uid :: "rid list list"
  rc_title :: "element list"
  rc_mal :: "bool list"

text \<open>
  The members \<open>cn\<close> and \<open>title\<close> as they are in memory: \<open>malloc\<close> leaves both unset, and so are the slots of
  the block of pointers to columns until a column is stored there. The columns that are stored are
  \<open>rc_title\<close>.
\<close>

datatype title_ptr = Title_unset | Title_null | Title_block "element option list"

record titles =
  ti_cn :: "int option"
  ti_ptr :: title_ptr

definition title_slots :: "title_ptr \<Rightarrow> element option list option" where
  "title_slots p = (case p of Title_block slots \<Rightarrow> Some slots | _ \<Rightarrow> None)"

definition RECORDS :: nat where "RECORDS = 0"

definition record_list_del :: "record_context \<Rightarrow> rid \<Rightarrow> record_context option" where
  "record_list_del rctx re = do {
     r \<leftarrow> rc_mem rctx re;
     h \<leftarrow> re_on r;
     Some (rctx\<lparr>rc_mem := (rc_mem rctx)(re \<mapsto> r\<lparr>re_on := None\<rparr>), rc_lists := (rc_lists rctx)(h := remove1 re (rc_lists rctx h))\<rparr>) }"

definition record_list_add_tail :: "record_context \<Rightarrow> rid \<Rightarrow> nat \<Rightarrow> record_context option" where
  "record_list_add_tail rctx re h = do {
     r \<leftarrow> rc_mem rctx re;
     if re_on r \<noteq> None then None
     else Some (rctx\<lparr>rc_mem := (rc_mem rctx)(re \<mapsto> r\<lparr>re_on := Some h\<rparr>), rc_lists := (rc_lists rctx)(h := rc_lists rctx h @ [re])\<rparr>) }"

definition record_hlist_add_head :: "record_context \<Rightarrow> rid \<Rightarrow> nat \<Rightarrow> record_context option" where
  "record_hlist_add_head rctx re k = do {
     r \<leftarrow> rc_mem rctx re;
     b \<leftarrow> rd (rc_uid rctx) k;
     if re_bucket r \<noteq> None then None
     else Some (rctx\<lparr>rc_mem := (rc_mem rctx)(re \<mapsto> r\<lparr>re_bucket := Some k\<rparr>), rc_uid := (rc_uid rctx)[k := re # b]\<rparr>) }"

definition record_hlist_del :: "record_context \<Rightarrow> rid \<Rightarrow> record_context option" where
  "record_hlist_del rctx re = do {
     r \<leftarrow> rc_mem rctx re;
     k \<leftarrow> re_bucket r;
     b \<leftarrow> rd (rc_uid rctx) k;
     Some (rctx\<lparr>rc_mem := (rc_mem rctx)(re \<mapsto> r\<lparr>re_bucket := None\<rparr>), rc_uid := (rc_uid rctx)[k := remove1 re b]\<rparr>) }"

definition free_record :: "record_context \<Rightarrow> rid \<Rightarrow> record_context option" where
  "free_record rctx re = do {
     r \<leftarrow> rc_mem rctx re;
     rctx \<leftarrow> (if re_on r \<noteq> None then record_list_del rctx re else Some rctx);
     rctx \<leftarrow> (if re_bucket r \<noteq> None then record_hlist_del rctx re else Some rctx);
     Some (rctx\<lparr>rc_mem := (rc_mem rctx)(re := None)\<rparr>) }"

section \<open>The links of the records agree with the lists\<close>

definition links_ok :: "record_context \<Rightarrow> bool" where
  "links_ok rctx \<longleftrightarrow>
     (\<forall>h. distinct (rc_lists rctx h) \<and> (\<forall>re. re \<in> set (rc_lists rctx h) \<longleftrightarrow> (\<exists>r. rc_mem rctx re = Some r \<and> re_on r = Some h)))
     \<and> length (rc_uid rctx) = RECORD_HASHTABLE_SIZE
     \<and> (\<forall>k < RECORD_HASHTABLE_SIZE. distinct (rc_uid rctx ! k)
          \<and> (\<forall>re. re \<in> set (rc_uid rctx ! k) \<longleftrightarrow> (\<exists>r. rc_mem rctx re = Some r \<and> re_bucket r = Some k)))
     \<and> (\<forall>re r. rc_mem rctx re = Some r \<longrightarrow> (\<forall>k. re_bucket r = Some k \<longrightarrow> k < RECORD_HASHTABLE_SIZE) \<and> re < rc_new rctx)"

lemma links_ok_list: "links_ok rctx \<Longrightarrow> re \<in> set (rc_lists rctx h) \<Longrightarrow> \<exists>r. rc_mem rctx re = Some r \<and> re_on r = Some h"
  unfolding links_ok_def by blast

lemma links_ok_on: "links_ok rctx \<Longrightarrow> rc_mem rctx re = Some r \<Longrightarrow> re_on r = Some h \<Longrightarrow> re \<in> set (rc_lists rctx h)"
  unfolding links_ok_def by blast

lemma links_ok_distinct: "links_ok rctx \<Longrightarrow> distinct (rc_lists rctx h)"
  unfolding links_ok_def by blast

lemma links_ok_bucket: "links_ok rctx \<Longrightarrow> k < RECORD_HASHTABLE_SIZE \<Longrightarrow> re \<in> set (rc_uid rctx ! k) \<longleftrightarrow> (\<exists>r. rc_mem rctx re = Some r \<and> re_bucket r = Some k)"
  unfolding links_ok_def by blast

lemma links_ok_length: "links_ok rctx \<Longrightarrow> length (rc_uid rctx) = RECORD_HASHTABLE_SIZE"
  unfolding links_ok_def by blast

lemma record_list_del_ok:
  assumes "links_ok rctx" and "rc_mem rctx re = Some r" and "re_on r = Some h"
  shows "\<exists>s. record_list_del rctx re = Some s \<and> links_ok s \<and> s = rctx\<lparr>rc_mem := (rc_mem rctx)(re \<mapsto> r\<lparr>re_on := None\<rparr>),
    rc_lists := (rc_lists rctx)(h := remove1 re (rc_lists rctx h))\<rparr>"
proof -
  have "links_ok (rctx\<lparr>rc_mem := (rc_mem rctx)(re \<mapsto> r\<lparr>re_on := None\<rparr>), rc_lists := (rc_lists rctx)(h := remove1 re (rc_lists rctx h))\<rparr>)"
    using assms unfolding links_ok_def by (auto simp: set_remove1_eq)
  then show ?thesis using assms by (simp add: record_list_del_def)
qed

lemma record_list_add_tail_ok:
  assumes "links_ok rctx" and "rc_mem rctx re = Some r" and "re_on r = None"
  shows "\<exists>s. record_list_add_tail rctx re h = Some s \<and> links_ok s \<and> s = rctx\<lparr>rc_mem := (rc_mem rctx)(re \<mapsto> r\<lparr>re_on := Some h\<rparr>),
    rc_lists := (rc_lists rctx)(h := rc_lists rctx h @ [re])\<rparr>"
proof -
  have "links_ok (rctx\<lparr>rc_mem := (rc_mem rctx)(re \<mapsto> r\<lparr>re_on := Some h\<rparr>), rc_lists := (rc_lists rctx)(h := rc_lists rctx h @ [re])\<rparr>)"
    using assms unfolding links_ok_def by auto
  then show ?thesis using assms by (simp add: record_list_add_tail_def)
qed

lemma record_hlist_add_head_ok:
  assumes "links_ok rctx" and "rc_mem rctx re = Some r" and "re_bucket r = None" and "k < RECORD_HASHTABLE_SIZE"
  shows "\<exists>s. record_hlist_add_head rctx re k = Some s \<and> links_ok s \<and> s = rctx\<lparr>rc_mem := (rc_mem rctx)(re \<mapsto> r\<lparr>re_bucket := Some k\<rparr>),
    rc_uid := (rc_uid rctx)[k := re # (rc_uid rctx ! k)]\<rparr>"
proof -
  have "links_ok (rctx\<lparr>rc_mem := (rc_mem rctx)(re \<mapsto> r\<lparr>re_bucket := Some k\<rparr>), rc_uid := (rc_uid rctx)[k := re # (rc_uid rctx ! k)]\<rparr>)"
    using assms unfolding links_ok_def by (auto simp: nth_list_update)
  then show ?thesis using assms links_ok_length [OF assms(1)] by (simp add: record_hlist_add_head_def rd_eq)
qed

lemma record_hlist_del_ok:
  assumes "links_ok rctx" and "rc_mem rctx re = Some r" and "re_bucket r = Some k"
  shows "\<exists>s. record_hlist_del rctx re = Some s \<and> links_ok s \<and> s = rctx\<lparr>rc_mem := (rc_mem rctx)(re \<mapsto> r\<lparr>re_bucket := None\<rparr>),
    rc_uid := (rc_uid rctx)[k := remove1 re (rc_uid rctx ! k)]\<rparr>"
proof -
  have k: "k < RECORD_HASHTABLE_SIZE" using assms unfolding links_ok_def by blast
  have "links_ok (rctx\<lparr>rc_mem := (rc_mem rctx)(re \<mapsto> r\<lparr>re_bucket := None\<rparr>), rc_uid := (rc_uid rctx)[k := remove1 re (rc_uid rctx ! k)]\<rparr>)"
    using assms unfolding links_ok_def by (auto simp: nth_list_update set_remove1_eq)
  then show ?thesis using assms k links_ok_length [OF assms(1)] by (simp add: record_hlist_del_def rd_eq)
qed

text \<open>Freeing a record takes it off whatever list and bucket it is on.\<close>

lemma filter_not_in: "re \<notin> set xs \<Longrightarrow> filter (\<lambda>x. x \<noteq> re) xs = xs"
  by (simp add: filter_id_conv) blast

lemma remove1_filter: "distinct xs \<Longrightarrow> remove1 re xs = filter (\<lambda>x. x \<noteq> re) xs"
  by (induction xs) (auto simp: filter_not_in)

lemma free_record_ok:
  assumes lk: "links_ok rctx" and r: "rc_mem rctx re = Some r"
  shows "\<exists>s. free_record rctx re = Some s \<and> links_ok s \<and> s = rctx\<lparr>rc_mem := (rc_mem rctx)(re := None),
    rc_lists := (\<lambda>h. filter (\<lambda>x. x \<noteq> re) (rc_lists rctx h)), rc_uid := map (filter (\<lambda>x. x \<noteq> re)) (rc_uid rctx)\<rparr>"
proof -
  let ?t = "rctx\<lparr>rc_mem := (rc_mem rctx)(re := None), rc_lists := (\<lambda>h. filter (\<lambda>x. x \<noteq> re) (rc_lists rctx h)),
    rc_uid := map (filter (\<lambda>x. x \<noteq> re)) (rc_uid rctx)\<rparr>"
  have t: "links_ok ?t" using lk unfolding links_ok_def by auto
  let ?L = "\<lambda>h. filter (\<lambda>x. x \<noteq> re) (rc_lists rctx h)"
  have off: "?L h = rc_lists rctx h" if "re_on r \<noteq> Some h" for h
    by (rule filter_not_in) (use that links_ok_list [OF lk, of re h] r in auto)
  have "\<exists>r'. (if re_on r \<noteq> None then record_list_del rctx re else Some rctx)
      = Some (rctx\<lparr>rc_mem := (rc_mem rctx)(re \<mapsto> r'), rc_lists := ?L\<rparr>) \<and> re_bucket r' = re_bucket r"
  proof (cases "re_on r")
    case None
    have "?L = rc_lists rctx" using off None by (simp add: fun_eq_iff)
    then show ?thesis using None r by (intro exI [of _ r]) (simp add: fun_upd_idem)
  next
    case (Some h)
    have "(rc_lists rctx)(h := remove1 re (rc_lists rctx h)) = ?L"
      using off Some remove1_filter [OF links_ok_distinct [OF lk]] by (auto simp: fun_eq_iff)
    then show ?thesis using Some r by (intro exI [of _ "r\<lparr>re_on := None\<rparr>"]) (simp add: record_list_del_def)
  qed
  then obtain r' where 1: "(if re_on r \<noteq> None then record_list_del rctx re else Some rctx)
      = Some (rctx\<lparr>rc_mem := (rc_mem rctx)(re \<mapsto> r'), rc_lists := ?L\<rparr>)" "re_bucket r' = re_bucket r" by blast
  have up: "(rctx\<lparr>rc_mem := m, rc_lists := l\<rparr>)\<lparr>rc_mem := m'\<rparr> = rctx\<lparr>rc_mem := m', rc_lists := l\<rparr>"
    "(rctx\<lparr>rc_mem := m, rc_lists := l, rc_uid := b\<rparr>)\<lparr>rc_mem := m'\<rparr> = rctx\<lparr>rc_mem := m', rc_lists := l, rc_uid := b\<rparr>"
    "(rctx\<lparr>rc_mem := m, rc_lists := l\<rparr>)\<lparr>rc_mem := m', rc_uid := b\<rparr> = rctx\<lparr>rc_mem := m', rc_lists := l, rc_uid := b\<rparr>" for m l m' b
    by (cases rctx; simp)+
  let ?B = "map (filter (\<lambda>x. x \<noteq> re)) (rc_uid rctx)"
  have len: "length (rc_uid rctx) = RECORD_HASHTABLE_SIZE" by (rule links_ok_length [OF lk])
  have offb: "filter (\<lambda>x. x \<noteq> re) (rc_uid rctx ! k) = rc_uid rctx ! k" if "re_bucket r \<noteq> Some k" "k < RECORD_HASHTABLE_SIZE" for k
    by (rule filter_not_in) (use that links_ok_bucket [OF lk that(2), of re] r in auto)
  show ?thesis
  proof (cases "re_bucket r")
    case None
    have "?B = rc_uid rctx" by (rule nth_equalityI) (use offb None len in auto)
    then have "?t = rctx\<lparr>rc_mem := (rc_mem rctx)(re := None), rc_lists := ?L\<rparr>" by (cases rctx) simp
    moreover have "free_record rctx re = Some (rctx\<lparr>rc_mem := (rc_mem rctx)(re := None), rc_lists := ?L\<rparr>)"
      unfolding free_record_def r Option.bind.simps 1(1) 1(2) [symmetric] up using None 1(2) by (simp add: up)
    ultimately show ?thesis using t by metis
  next
    case (Some k)
    then have k: "k < RECORD_HASHTABLE_SIZE" using lk r unfolding links_ok_def by blast
    have d: "distinct (rc_uid rctx ! k)" using lk k unfolding links_ok_def by blast
    have "(rc_uid rctx)[k := remove1 re (rc_uid rctx ! k)] = ?B"
      by (rule nth_equalityI) (use offb Some len k remove1_filter [OF d] in \<open>auto simp: nth_list_update\<close>)
    then have "free_record rctx re = Some ?t"
      unfolding free_record_def r Option.bind.simps 1(1) using Some 1(2) k len by (simp add: record_hlist_del_def rd_eq up)
    then show ?thesis using t by blast
  qed
qed

end
