(* ===== verification/RecordParse.thy ===== *)
theory RecordParse
  imports RecordData
begin

text \<open>
  \<open>src/src/record/record.c\<close>, first half: reading the table's columns and its records out of a
  mapped database dump. The mapping is a list of bytes, pointers into it are indices; a read at or
  behind its end is \<open>None\<close>. Files are smaller than 2 GiB, so that sizes fit an \<open>int\<close>.
\<close>

section \<open>Lines\<close>

text \<open>\<open>end\<close> is the length of the mapping.\<close>

record io =
  io_buf :: "byte list"
  io_rdptr :: nat

definition EOF :: int where "EOF = - 1"

partial_function (option) read_line_loop :: "byte list \<Rightarrow> nat \<Rightarrow> nat \<Rightarrow> nat \<Rightarrow> block \<Rightarrow> (nat \<times> nat \<times> block) option" where
  "read_line_loop f lim ptr n buf =
     (if ptr < length f \<and> n < lim then do {
        c \<leftarrow> rd f ptr;
        if c = 10 \<or> c = 13 then Some (ptr, n, buf)
        else do { buf \<leftarrow> wrc buf n c; read_line_loop f lim (ptr + 1) (n + 1) buf } }
      else Some (ptr, n, buf))"

definition read_line :: "io \<Rightarrow> block \<Rightarrow> nat \<Rightarrow> (int \<times> io \<times> block) option" where
  "read_line io buf lim =
     (if length (io_buf io) \<le> io_rdptr io then Some (EOF, io, buf)
      else do {
        (ptr, n, buf) \<leftarrow> read_line_loop (io_buf io) (lim - 1) (io_rdptr io) 0 buf;
        buf \<leftarrow> wrc buf n 0;
        Some (int n, io\<lparr>io_rdptr := ptr + 1\<rparr>, buf) })"

partial_function (option) to_eol :: "byte list \<Rightarrow> nat \<Rightarrow> nat option" where
  "to_eol f ptr =
     (if ptr < length f then do { c \<leftarrow> rd f ptr; if c = 10 \<or> c = 13 then Some ptr else to_eol f (ptr + 1) }
      else Some ptr)"

definition skip_to_next_line :: "io \<Rightarrow> io option" where
  "skip_to_next_line io = do { ptr \<leftarrow> to_eol (io_buf io) (io_rdptr io); Some (io\<lparr>io_rdptr := ptr + 1\<rparr>) }"

section \<open>Characters of a line\<close>

partial_function (option) SKIP_UNTIL :: "(nat \<Rightarrow> byte option) \<Rightarrow> nat \<Rightarrow> nat \<Rightarrow> byte \<Rightarrow> nat option" where
  "SKIP_UNTIL g p e skip = do {
     c \<leftarrow> g p;
     if c = skip then Some (p + 1) else if p + 1 < e then SKIP_UNTIL g (p + 1) e skip else Some (p + 1) }"

partial_function (option) SKIP_SPACE :: "(nat \<Rightarrow> byte option) \<Rightarrow> nat \<Rightarrow> nat \<Rightarrow> nat option" where
  "SKIP_SPACE g p e = do {
     c \<leftarrow> g p;
     if c = 32 then if p + 1 < e then SKIP_SPACE g (p + 1) e else Some (p + 1) else Some p }"

definition ALIGN4 :: "int \<Rightarrow> int" where "ALIGN4 n = (n + 3) AND NOT 3"

text \<open>A block of \<open>n\<close> characters; a negative size is a \<open>size_t\<close> no allocation can meet.\<close>

definition malloc_block :: "bool list \<Rightarrow> int \<Rightarrow> block option \<times> bool list" where
  "malloc_block mal n = (let (ok, mal) = malloc mal in (if ok \<and> 0 \<le> n then Some (replicate (nat n) None) else None, mal))"

partial_function (option) name_size :: "(nat \<Rightarrow> byte option) \<Rightarrow> nat \<Rightarrow> nat \<Rightarrow> nat \<Rightarrow> nat option" where
  "name_size g ptr e n =
     (if ptr + n < e then do { c \<leftarrow> g (ptr + n); if c \<noteq> 96 then name_size g ptr e (n + 1) else Some n }
      else Some n)"

partial_function (option) copy_name :: "(nat \<Rightarrow> byte option) \<Rightarrow> nat \<Rightarrow> nat \<Rightarrow> block \<Rightarrow> (nat \<times> nat \<times> block) option" where
  "copy_name g ptr rp b = do {
     c \<leftarrow> g ptr;
     if c \<noteq> 96 then do { b \<leftarrow> wrc b rp c; copy_name g (ptr + 1) (rp + 1) b } else Some (ptr, rp, b) }"

text \<open>The result is the name, if there is one, and the new value of \<open>*p\<close>.\<close>

definition read_table_string :: "bool list \<Rightarrow> (nat \<Rightarrow> byte option) \<Rightarrow> nat \<Rightarrow> nat \<Rightarrow> (block option \<times> nat \<times> bool list) option" where
  "read_table_string mal g p e = do {
     ptr \<leftarrow> SKIP_SPACE g p e;
     if e \<le> ptr then Some (None, p, mal)
     else do {
       c \<leftarrow> g ptr;
       if c \<noteq> 96 then Some (None, p, mal)
       else do {
         let ptr = ptr + 1;
         n \<leftarrow> name_size g ptr e 0;
         if e \<le> ptr then Some (None, p, mal)
         else case malloc_block mal (ALIGN4 (int n + 1)) of
             (None, mal) \<Rightarrow> Some (None, p, mal)
           | (Some result, mal) \<Rightarrow> do {
               (ptr, rp, result) \<leftarrow> copy_name g ptr 0 result;
               result \<leftarrow> wrc result rp 0;
               Some (Some result, ptr + 1, mal) } } } }"

section \<open>The columns\<close>

definition element_types :: "byte list list" where
  "element_types = map chars [''char'', ''char unsigned'', ''smallint'', ''smallint unsigned'', ''int'', ''int unsigned'',
     ''bigint'', ''bigint unsigned'', ''binary'', ''text'']"

definition type_number :: "ElementType list" where
  "type_number = [ELEMENT_CHAR, ELEMENT_UCHAR, ELEMENT_SMALLINT, ELEMENT_SMALLUINT, ELEMENT_INT, ELEMENT_UINT,
     ELEMENT_BIGINT, ELEMENT_BIGUINT, ELEMENT_BINARY, ELEMENT_TEXT, ELEMENT_TYPE_MAX]"

fun find_type :: "(nat \<Rightarrow> byte option) \<Rightarrow> nat \<Rightarrow> nat \<Rightarrow> byte list list \<Rightarrow> (nat \<times> nat) option" where
  "find_type g ptr i [] = Some (i, 0)"
| "find_type g ptr i (s # ts) = do { m \<leftarrow> starts g ptr s; if m then Some (i, length s) else find_type g ptr (Suc i) ts }"

definition to_int :: "int \<Rightarrow> int" where "to_int v = sint (word_of_int v :: u32)"

text \<open>The column's type number and size, from what stands behind its name.\<close>

definition read_type :: "(nat \<Rightarrow> byte option) \<Rightarrow> nat \<Rightarrow> nat \<Rightarrow> (nat \<times> int) option" where
  "read_type g ptr e = do {
     (i, len) \<leftarrow> find_type g ptr 0 element_types;
     if length element_types \<le> i then Some (i, 0)
     else do {
       let ptr = ptr + len;
       c \<leftarrow> g ptr;
       (ptr, n) \<leftarrow> (if c = 40 then do { (v, ptr) \<leftarrow> c_strtoll g (ptr + 1); Some (ptr + 1, to_int v) } else Some (ptr, 0));
       ptr \<leftarrow> SKIP_SPACE g ptr e;
       u \<leftarrow> starts g ptr (chars ''unsigned'');
       Some (if u then i + 1 else i, n) } }"

text \<open>One pass of the second loop over a line in \<open>buf\<close>: the column on it, if any.\<close>

definition read_column :: "bool list \<Rightarrow> block \<Rightarrow> nat \<Rightarrow> (element option \<times> bool list) option" where
  "read_column mal buf e = do {
     (name, ptr, mal) \<leftarrow> read_table_string mal (rdc buf) 0 e;
     case name of
       None \<Rightarrow> Some (None, mal)
     | Some name \<Rightarrow>
         if e \<le> ptr then Some (None, mal)
         else do {
           ptr \<leftarrow> SKIP_SPACE (rdc buf) ptr e;
           (i, n) \<leftarrow> read_type (rdc buf) ptr e;
           if length element_types \<le> i then Some (None, mal)
           else do {
             s \<leftarrow> cstr name;
             Some (Some \<lparr>el_data = Bits 0, el_name = s, el_type = type_number ! i, el_size = n\<rparr>, mal) } } }"

partial_function (option) find_table :: "io \<Rightarrow> block \<Rightarrow> (int \<times> io \<times> block) option" where
  "find_table io buf = do {
     (ret, io, buf) \<leftarrow> read_line io buf 1024;
     if ret < 0 then Some (ret, io, buf)
     else do { m \<leftarrow> starts (rdc buf) 0 (chars ''CREATE TABLE''); if m then Some (0, io, buf) else find_table io buf } }"

text \<open>A block for \<open>cn\<close> columns of which the first are stored.\<close>

definition titles_of :: "nat \<Rightarrow> element list \<Rightarrow> titles" where
  "titles_of cn title = \<lparr>ti_cn = Some (int cn), ti_ptr = Title_block (map Some title @ replicate (cn - length title) None)\<rparr>"

partial_function (option) read_columns :: "io \<Rightarrow> block \<Rightarrow> bool list \<Rightarrow> nat \<Rightarrow> element list \<Rightarrow> (int \<times> io \<times> bool list \<times> titles \<times> element list) option" where
  "read_columns io buf mal cn title = do {
     (ret, io, buf) \<leftarrow> read_line io buf 1024;
     if ret < 0 then Some (0, io, mal, titles_of cn title, title)
     else do {
       c \<leftarrow> rdc buf 0;
       if c = 41 then Some (0, io, mal, titles_of cn title, title)
       else let (ok, mal) = malloc mal in
         if \<not> ok then Some (- 1, io, mal, titles_of cn title, title)
         else do {
           (el, mal) \<leftarrow> read_column mal buf (nat ret);
           case el of
             None \<Rightarrow> read_columns io buf mal cn title
           | Some el \<Rightarrow>
               if cn \<le> length title then
                 let (ok, mal) = malloc mal in
                   if \<not> ok then Some (- ENOMEM, io, mal, \<lparr>ti_cn = Some (int cn + 64), ti_ptr = Title_null\<rparr>, title)
                   else read_columns io buf mal (cn + 64) (title @ [el])
               else read_columns io buf mal cn (title @ [el]) } } }"

definition read_talbe_title :: "io \<Rightarrow> titles \<Rightarrow> record_context \<Rightarrow> (int \<times> io \<times> titles \<times> record_context) option" where
  "read_talbe_title io t rctx =
     (let t = t\<lparr>ti_cn := Some 64\<rparr>; (ok, mal) = malloc (rc_mal rctx) in
      if \<not> ok then Some (- ENOMEM, io, t\<lparr>ti_ptr := Title_null\<rparr>, rctx\<lparr>rc_mal := mal\<rparr>)
      else do {
        (ret, io, buf) \<leftarrow> find_table io (replicate 1024 None);
        if ret < 0 then Some (ret, io, titles_of 64 [], rctx\<lparr>rc_mal := mal\<rparr>)
        else do {
          (ret, io, mal, t, title) \<leftarrow> read_columns io buf mal 64 [];
          let rctx = rctx\<lparr>rc_mal := mal, rc_title := title\<rparr>;
          if ret < 0 then Some (ret, io, t, rctx)
          else if title = [] then Some (- 1, io, t, rctx)
          else Some (0, io, t\<lparr>ti_cn := Some (int (length title))\<rparr>, rctx) } })"

section \<open>The records\<close>

fun copy_elements :: "bool list \<Rightarrow> element list \<Rightarrow> element list \<Rightarrow> nat option \<Rightarrow> (element list \<times> nat option) option \<times> bool list" where
  "copy_elements mal [] els uid = (Some (els, uid), mal)"
| "copy_elements mal (el # title) els uid =
     (let (ok, mal) = malloc mal in
      if \<not> ok then (None, mal)
      else copy_elements mal title (els @ [el]) (if el_name el = chars ''uid'' then Some (length els) else uid))"

definition alloc_record :: "record_context \<Rightarrow> rid option \<times> record_context" where
  "alloc_record rctx =
     (let (re, mal) = malloc (rc_mal rctx); (ptr, mal) = malloc mal in
      if \<not> re \<or> \<not> ptr then (None, rctx\<lparr>rc_mal := mal\<rparr>)
      else case copy_elements mal (rc_title rctx) [] None of
          (None, mal) \<Rightarrow> (None, rctx\<lparr>rc_mal := mal\<rparr>)
        | (Some (els, uid), mal) \<Rightarrow>
            (Some (rc_new rctx), rctx\<lparr>rc_mal := mal, rc_new := Suc (rc_new rctx),
               rc_mem := (rc_mem rctx)(rc_new rctx \<mapsto> \<lparr>re_data = els, re_uid = uid, re_key = None, re_on = None, re_bucket = None\<rparr>)\<rparr>))"

partial_function (option) copy_char :: "byte list \<Rightarrow> nat \<Rightarrow> int \<Rightarrow> block \<Rightarrow> nat \<Rightarrow> (nat \<times> block \<times> nat) option" where
  "copy_char f ptr n b k = do {
     c \<leftarrow> rd f ptr;
     if c \<noteq> 39 \<and> 0 < n then do { b \<leftarrow> wrc b k c; copy_char f (ptr + 1) (n - 1) b (k + 1) } else Some (ptr, b, k) }"

partial_function (option) to_quote :: "byte list \<Rightarrow> nat \<Rightarrow> nat option" where
  "to_quote f ptr = do { c \<leftarrow> rd f ptr; if c \<noteq> 39 then to_quote f (ptr + 1) else Some ptr }"

partial_function (option) text_size :: "byte list \<Rightarrow> nat \<Rightarrow> nat \<Rightarrow> nat option" where
  "text_size f ptr n = do {
     c \<leftarrow> rd f (ptr + n);
     if c \<noteq> 39 \<and> c \<noteq> 0 \<and> ptr < length f then text_size f ptr (n + 1) else Some n }"

definition read_element :: "byte list \<Rightarrow> bool list \<Rightarrow> element \<Rightarrow> nat \<Rightarrow> (int \<times> element \<times> nat \<times> bool list) option" where
  "read_element f mal el p =
     (if el_type el \<noteq> ELEMENT_TEXT \<and> int (length f) \<le> int p + el_size el then Some (- EOF, el, p, mal)
      else case el_type el of
          t \<Rightarrow> if t \<in> {ELEMENT_CHAR, ELEMENT_UCHAR} then
                 (case malloc_block mal (ALIGN4 (el_size el + 1)) of
                    (None, mal) \<Rightarrow> Some (- ENOMEM, el, p, mal)
                  | (Some b, mal) \<Rightarrow> do {
                      (ptr, b, k) \<leftarrow> copy_char f (p + 1) (el_size el) b 0;
                      ptr \<leftarrow> to_quote f ptr;
                      b \<leftarrow> wrc b k 0;
                      Some (0, el\<lparr>el_data := Ptr b\<rparr>, ptr + 2, mal) })
               else if t \<in> {ELEMENT_INT, ELEMENT_SMALLINT, ELEMENT_BIGINT} then do {
                 (v, ptr) \<leftarrow> c_strtoll (rd f) p;
                 Some (0, el\<lparr>el_data := Bits (word_of_int v)\<rparr>, ptr + 1, mal) }
               else if t \<in> {ELEMENT_SMALLUINT, ELEMENT_UINT, ELEMENT_BIGUINT} then do {
                 (v, ptr) \<leftarrow> c_strtoull (rd f) p;
                 Some (0, el\<lparr>el_data := Bits v\<rparr>, ptr + 1, mal) }
               else if t = ELEMENT_TEXT then do {
                 n \<leftarrow> text_size f (p + 1) 0;
                 case malloc_block mal (ALIGN4 (int n + 1)) of
                   (None, mal) \<Rightarrow> Some (- ENOMEM, el, p, mal)
                 | (Some b, mal) \<Rightarrow> do {
                     s \<leftarrow> mem_read f (p + 1) n;
                     b \<leftarrow> mem_write b 0 (map Some s);
                     b \<leftarrow> wrc b n 0;
                     Some (0, el\<lparr>el_data := Ptr b, el_size := int n\<rparr>, p + 1 + n + 2, mal) } }
               else Some (- 1, el, p, mal))"

text \<open>The elements of one record, until one cannot be read.\<close>

fun read_elements :: "byte list \<Rightarrow> bool list \<Rightarrow> element list \<Rightarrow> nat \<Rightarrow> (element list \<times> nat \<times> bool list) option" where
  "read_elements f mal [] p = Some ([], p, mal)"
| "read_elements f mal (el # els) p = do {
     (ret, el, p, mal) \<leftarrow> read_element f mal el p;
     if ret < 0 then Some (el # els, p, mal)
     else do { (els, p, mal) \<leftarrow> read_elements f mal els p; Some (el # els, p, mal) } }"

definition read_record :: "byte list \<Rightarrow> record_context \<Rightarrow> nat \<Rightarrow> (int \<times> nat \<times> record_context) option" where
  "read_record f rctx ptr =
     (case alloc_record rctx of
        (None, rctx) \<Rightarrow> Some (- 1, ptr, rctx)
      | (Some re, rctx) \<Rightarrow> do {
          ptr \<leftarrow> SKIP_UNTIL (rd f) ptr (length f) 40;
          r \<leftarrow> rc_mem rctx re;
          (els, ptr, mal) \<leftarrow> read_elements f (rc_mal rctx) (re_data r) ptr;
          let r = r\<lparr>re_data := els\<rparr>;
          let rctx = rctx\<lparr>rc_mal := mal, rc_mem := (rc_mem rctx)(re \<mapsto> r)\<rparr>;
          rctx \<leftarrow> record_list_add_tail rctx re RECORDS;
          u \<leftarrow> re_uid r;
          el \<leftarrow> rd els u;
          rctx \<leftarrow> (if data_null (el_data el) then free_record rctx re else Some rctx);
          ptr \<leftarrow> SKIP_UNTIL (rd f) ptr (length f) 41;
          Some (0, ptr, rctx) })"

partial_function (option) read_insert :: "byte list \<Rightarrow> record_context \<Rightarrow> nat \<Rightarrow> (int \<times> nat \<times> record_context) option" where
  "read_insert f rctx ptr = do {
     (ret, ptr, rctx) \<leftarrow> read_record f rctx ptr;
     if ret < 0 then Some (ret, ptr, rctx)
     else if ptr < length f then do {
       c \<leftarrow> rd f ptr;
       if c = 44 then read_insert f rctx ptr else Some (0, ptr, rctx) }
     else Some (0, ptr, rctx) }"

partial_function (option) read_all_record :: "io \<Rightarrow> record_context \<Rightarrow> (int \<times> io \<times> record_context) option" where
  "read_all_record io rctx =
     (if length (io_buf io) \<le> io_rdptr io + length (chars ''INSERT INTO '') then Some (0, io, rctx)
      else do {
        m \<leftarrow> starts (rd (io_buf io)) (io_rdptr io) (chars ''INSERT INTO '');
        if \<not> m then do { io \<leftarrow> skip_to_next_line io; read_all_record io rctx }
        else do {
          (ret, ptr, rctx) \<leftarrow> read_insert (io_buf io) rctx (io_rdptr io);
          if ret < 0 then Some (ret, io, rctx)
          else do { io \<leftarrow> skip_to_next_line (io\<lparr>io_rdptr := ptr\<rparr>); read_all_record io rctx } } })"

section \<open>What the loops do\<close>

definition eol :: "byte \<Rightarrow> bool" where "eol c \<longleftrightarrow> c = 10 \<or> c = 13"

definition line_at :: "byte list \<Rightarrow> nat \<Rightarrow> byte list" where
  "line_at f p = takeWhile (\<lambda>c. \<not> eol c) (drop p f)"

lemma drop_nth: "p < length f \<Longrightarrow> drop p f = f ! p # drop (Suc p) f"
  by (simp add: Cons_nth_drop_Suc)

lemma read_line_loop_eq:
  assumes "n \<le> lim" and "lim \<le> length buf"
  shows "read_line_loop f lim p n buf = Some (p + length (takeWhile (\<lambda>c. \<not> eol c) (take (lim - n) (drop p f))),
    n + length (takeWhile (\<lambda>c. \<not> eol c) (take (lim - n) (drop p f))),
    blit buf n (map Some (takeWhile (\<lambda>c. \<not> eol c) (take (lim - n) (drop p f)))))"
  using assms
proof (induction "lim - n" arbitrary: p n buf)
  case 0
  then show ?case by (subst read_line_loop.simps) simp
next
  case (Suc m)
  show ?case
  proof (cases "p < length f")
    case False
    then show ?thesis by (subst read_line_loop.simps) simp
  next
    case True
    have t: "take (lim - n) (drop p f) = f ! p # take (lim - Suc n) (drop (Suc p) f)"
      using True Suc.hyps(2) by (simp add: drop_nth take_Cons' Suc_diff_Suc)
    show ?thesis
    proof (cases "eol (f ! p)")
      case e: True
      then show ?thesis using True Suc.hyps(2) unfolding t
        by (subst read_line_loop.simps) (simp add: rd_eq eol_def)
    next
      case e: False
      let ?w = "takeWhile (\<lambda>c. \<not> eol c) (take (lim - Suc n) (drop (Suc p) f))"
      have n: "n < length buf" "n < lim" using Suc.hyps(2) Suc.prems by auto
      have step: "read_line_loop f lim p n buf = read_line_loop f lim (Suc p) (Suc n) (blit buf n [Some (f ! p)])"
        using True e n by (subst read_line_loop.simps) (simp add: rd_eq eol_def wrc_def wr_eq blit_def upd_conv_take_nth_drop)
      have len: "length ?w \<le> lim - Suc n" by (metis length_take length_takeWhile_le min.bounded_iff)
      have "blit (blit buf n [Some (f ! p)]) (Suc n) (map Some ?w) = blit buf n (map Some (f ! p # ?w))"
        using blit_append [of n "[Some (f ! p)]" "map Some ?w" buf] len n Suc.prems by simp
      then show ?thesis unfolding step t using e Suc.hyps(1) [of "Suc n"  "blit buf n [Some (f ! p)]" "Suc p"] n Suc.hyps(2) Suc.prems by simp
    qed
  qed
qed

lemma read_line_eq:
  assumes "io_rdptr io < length (io_buf io)" and "0 < lim" and "lim \<le> length buf"
    and "line = takeWhile (\<lambda>c. \<not> eol c) (take (lim - 1) (drop (io_rdptr io) (io_buf io)))"
  shows "read_line io buf lim = Some (int (length line), io\<lparr>io_rdptr := io_rdptr io + length line + 1\<rparr>, blit buf 0 (map Some (line @ [0])))"
proof -
  have len: "length line \<le> lim - 1" unfolding assms(4) by (metis length_take length_takeWhile_le min.bounded_iff)
  have "blit (blit buf 0 (map Some line)) (length line) [Some 0] = blit buf 0 (map Some (line @ [0]))"
    using blit_append [of 0 "map Some line" "[Some 0]" buf] len assms(2,3) by simp
  moreover have "wrc (blit buf 0 (map Some line)) (length line) 0 = Some (blit (blit buf 0 (map Some line)) (length line) [Some 0])"
    using len assms(2,3) by (simp add: wrc_def wr_eq blit_def upd_conv_take_nth_drop)
  moreover have "read_line_loop (io_buf io) (lim - 1) (io_rdptr io) 0 buf = Some (io_rdptr io + length line, length line, blit buf 0 (map Some line))"
    using read_line_loop_eq [of 0 "lim - 1" buf "io_buf io" "io_rdptr io"] assms(3,4) by simp
  ultimately show ?thesis using assms(1) by (simp add: read_line_def)
qed

lemma to_eol_eq: "p \<le> length f \<Longrightarrow> to_eol f p = Some (p + length (line_at f p))"
proof (induction "length f - p" arbitrary: p)
  case 0
  then show ?case by (subst to_eol.simps) (simp add: line_at_def)
next
  case (Suc m)
  then have p: "p < length f" by simp
  show ?case
  proof (cases "eol (f ! p)")
    case True
    then show ?thesis using p by (subst to_eol.simps) (simp add: rd_eq eol_def line_at_def drop_nth)
  next
    case False
    have "to_eol f p = to_eol f (Suc p)" using p False by (subst to_eol.simps) (simp add: rd_eq eol_def)
    then show ?thesis using Suc.hyps(1) [of "Suc p"] Suc.hyps(2) p False by (simp add: line_at_def drop_nth)
  qed
qed

lemma SKIP_UNTIL_text:
  assumes "text_at g p (s @ [c])" and "c \<notin> set s" and "p + length s < e"
  shows "SKIP_UNTIL g p e c = Some (p + length s + 1)"
  using assms
proof (induction s arbitrary: p)
  case Nil
  then show ?case by (subst SKIP_UNTIL.simps) simp
next
  case (Cons d s)
  then have "d \<noteq> c" by auto
  then show ?case using Cons by (subst SKIP_UNTIL.simps) simp
qed

lemma SKIP_SPACE_text:
  assumes "text_at g p (replicate n 32 @ [c])" and "c \<noteq> 32" and "p + n < e"
  shows "SKIP_SPACE g p e = Some (p + n)"
  using assms
proof (induction n arbitrary: p)
  case 0
  then show ?case by (subst SKIP_SPACE.simps) simp
next
  case (Suc n)
  then show ?case by (subst SKIP_SPACE.simps) simp
qed

lemma ALIGN4_bounds: "n \<le> ALIGN4 n" "ALIGN4 n \<le> n + 3"
proof -
  have m: "(3 :: int) = mask 2" by (simp add: mask_eq_exp_minus_1)
  have "ALIGN4 n = push_bit 2 (drop_bit 2 (n + 3))"
    unfolding ALIGN4_def m by (rule bit_eqI) (auto simp: bit_simps not_less le_iff_add)
  then have "ALIGN4 n = (n + 3) div 4 * 4" by (simp add: push_bit_eq_mult drop_bit_eq_div)
  then show "n \<le> ALIGN4 n" "ALIGN4 n \<le> n + 3" by presburger+
qed

end
