(* ===== verification/RecordRead.thy ===== *)
theory RecordRead
  imports RecordParse
begin

text \<open>
  \<open>src/src/record/record.c\<close>: what reading a dump yields. Rows written as a dump writes them are
  read back; what is read is well typed whatever the input; and two ways it goes wrong.
\<close>

section \<open>Reading one element back\<close>

text \<open>What a dump writes for a column: a number, or a text in single quotes.\<close>

datatype cell = Num int | Str "byte list"

definition show_cell :: "cell \<Rightarrow> byte list" where
  "show_cell c = (case c of Num v \<Rightarrow> (if v < 0 then [45] else []) @ dec (nat \<bar>v\<bar>) | Str s \<Rightarrow> 39 # s @ [39])"

text \<open>The block a text is read into, and the cells a column can hold.\<close>

definition str_block :: "int \<Rightarrow> byte list \<Rightarrow> block" where
  "str_block n s = map Some s @ Some 0 # replicate (nat (ALIGN4 (n + 1)) - length s - 1) None"

definition cell_ok :: "element \<Rightarrow> cell \<Rightarrow> bool" where
  "cell_ok el c = (case el_type el of
     ELEMENT_CHAR \<Rightarrow> (case c of Str s \<Rightarrow> 39 \<notin> set s \<and> 0 \<notin> set s \<and> int (length s) \<le> el_size el | _ \<Rightarrow> False)
   | ELEMENT_UCHAR \<Rightarrow> (case c of Str s \<Rightarrow> 39 \<notin> set s \<and> 0 \<notin> set s \<and> int (length s) \<le> el_size el | _ \<Rightarrow> False)
   | ELEMENT_TEXT \<Rightarrow> (case c of Str s \<Rightarrow> 39 \<notin> set s \<and> 0 \<notin> set s | _ \<Rightarrow> False)
   | ELEMENT_INT \<Rightarrow> (case c of Num v \<Rightarrow> \<bar>v\<bar> < 2 ^ 63 | _ \<Rightarrow> False)
   | ELEMENT_SMALLINT \<Rightarrow> (case c of Num v \<Rightarrow> \<bar>v\<bar> < 2 ^ 63 | _ \<Rightarrow> False)
   | ELEMENT_BIGINT \<Rightarrow> (case c of Num v \<Rightarrow> \<bar>v\<bar> < 2 ^ 63 | _ \<Rightarrow> False)
   | ELEMENT_SMALLUINT \<Rightarrow> (case c of Num v \<Rightarrow> 0 \<le> v \<and> v < 2 ^ 64 | _ \<Rightarrow> False)
   | ELEMENT_UINT \<Rightarrow> (case c of Num v \<Rightarrow> 0 \<le> v \<and> v < 2 ^ 64 | _ \<Rightarrow> False)
   | ELEMENT_BIGUINT \<Rightarrow> (case c of Num v \<Rightarrow> 0 \<le> v \<and> v < 2 ^ 64 | _ \<Rightarrow> False)
   | _ \<Rightarrow> False)"

definition filled :: "element \<Rightarrow> cell \<Rightarrow> element" where
  "filled el c = (case c of Num v \<Rightarrow> el\<lparr>el_data := Bits (word_of_int v)\<rparr>
   | Str s \<Rightarrow> if el_type el = ELEMENT_TEXT then el\<lparr>el_data := Ptr (str_block (int (length s)) s), el_size := int (length s)\<rparr>
             else el\<lparr>el_data := Ptr (str_block (el_size el) s)\<rparr>)"

lemma copy_char_text:
  assumes "text_at (rd f) p (s @ [39])" and "39 \<notin> set s" and "int (length s) \<le> n" and "k + length s \<le> length b"
  shows "copy_char f p n b k = Some (p + length s, blit b k (map Some s), k + length s)"
  using assms
proof (induction s arbitrary: p n k b)
  case Nil
  then show ?case by (subst copy_char.simps) simp
next
  case (Cons c s)
  have k: "k < length b" using Cons.prems(4) by simp
  have st: "copy_char f p n b k = copy_char f (Suc p) (n - 1) (blit b k [Some c]) (Suc k)"
    using Cons.prems k by (subst copy_char.simps) (simp add: wrc_def wr_eq blit_def upd_conv_take_nth_drop)
  have bl: "blit (blit b k [Some c]) (Suc k) (map Some s) = blit b k (map Some (c # s))"
    using blit_append [of k "[Some c]" "map Some s" b] Cons.prems(4) by simp
  have "copy_char f (Suc p) (n - 1) (blit b k [Some c]) (Suc k) = Some (Suc p + length s, blit (blit b k [Some c]) (Suc k) (map Some s), Suc k + length s)"
    by (rule Cons.IH) (use Cons.prems k in auto)
  then show ?case unfolding st bl by simp
qed

lemma text_size_text:
  assumes "text_at (rd f) (p + n) (s @ [39])" and "39 \<notin> set s" and "0 \<notin> set s"
  shows "text_size f p n = Some (n + length s)"
  using assms
proof (induction s arbitrary: n)
  case Nil
  then show ?case by (subst text_size.simps) simp
next
  case (Cons c s)
  have "p < length f" using Cons.prems(1) by (auto simp: rd_def split: if_splits)
  then show ?case using Cons by (subst text_size.simps) simp
qed

lemma str_block_eq:
  assumes "int (length s) \<le> n"
  shows "blit (replicate (nat (ALIGN4 (n + 1))) None) 0 (map Some s @ [Some 0]) = str_block n s" "length s + 1 \<le> nat (ALIGN4 (n + 1))"
proof -
  show "length s + 1 \<le> nat (ALIGN4 (n + 1))" using assms ALIGN4_bounds(1) [of "n + 1"] by linarith
  then show "blit (replicate (nat (ALIGN4 (n + 1))) None) 0 (map Some s @ [Some 0]) = str_block n s"
    by (simp add: str_block_def blit_def)
qed

lemma cstr_str_block: "0 \<notin> set s \<Longrightarrow> cstr (str_block n s) = Some s"
  by (simp add: str_block_def cstr_map)

lemma blit_end: "length s < length b \<Longrightarrow> wrc (blit b 0 (map Some s)) (length s) 0 = Some (blit b 0 (map Some s @ [Some 0]))"
  using blit_append [of 0 "map Some s" "[Some 0]" b] by (simp add: wrc_def wr_eq blit_def upd_conv_take_nth_drop)

definition sep :: "byte \<Rightarrow> bool" where "sep c \<longleftrightarrow> c = 44 \<or> c = 41"

lemma sep_facts: "sep c \<Longrightarrow> \<not> isdigit c" "sep c \<Longrightarrow> tolower c \<noteq> 120"
  by (auto simp: sep_def) (code_simp)+

lemma read_element_cell:
  assumes ok: "cell_ok el c" and t: "text_at (rd f) p (show_cell c @ [x])" and x: "sep x"
    and room: "el_type el \<noteq> ELEMENT_TEXT \<longrightarrow> int p + el_size el < int (length f)"
  shows "read_element f [] el p = Some (0, filled el c, p + length (show_cell c) + 1, [])"
proof -
  have go: "\<not> (el_type el \<noteq> ELEMENT_TEXT \<and> int (length f) \<le> int p + el_size el)" using room by auto
  consider (chr) s where "el_type el \<in> {ELEMENT_CHAR, ELEMENT_UCHAR}" "c = Str s" "39 \<notin> set s" "0 \<notin> set s" "int (length s) \<le> el_size el"
    | (sgn) v where "el_type el \<in> {ELEMENT_INT, ELEMENT_SMALLINT, ELEMENT_BIGINT}" "c = Num v" "\<bar>v\<bar> < 2 ^ 63"
    | (uns) v where "el_type el \<in> {ELEMENT_SMALLUINT, ELEMENT_UINT, ELEMENT_BIGUINT}" "c = Num v" "0 \<le> v" "v < 2 ^ 64"
    | (tx) s where "el_type el = ELEMENT_TEXT" "c = Str s" "39 \<notin> set s" "0 \<notin> set s"
    using ok unfolding cell_ok_def by (cases "el_type el"; cases c) auto
  then show ?thesis
  proof cases
    case (chr s)
    have ts: "text_at (rd f) (p + 1) (s @ [39])" "text_at (rd f) (p + 1 + length s) [39]" using t chr by (simp_all add: show_cell_def)
    have len: "length s + 1 \<le> nat (ALIGN4 (el_size el + 1))" by (rule str_block_eq(2) [OF chr(5)])
    let ?b = "replicate (nat (ALIGN4 (el_size el + 1))) (None :: byte option)"
    have nn: "0 \<le> ALIGN4 (el_size el + 1)" using len by linarith
    have c1: "copy_char f (p + 1) (el_size el) ?b 0 = Some (p + 1 + length s, blit ?b 0 (map Some s), length s)"
      using copy_char_text [OF ts(1) chr(3,5), of 0 ?b] len by simp
    have c2: "to_quote f (p + 1 + length s) = Some (p + 1 + length s)"
      using ts(2) by (subst to_quote.simps) simp
    have c3: "wrc (blit ?b 0 (map Some s)) (length s) 0 = Some (str_block (el_size el) s)"
      using blit_end [of s ?b] str_block_eq(1) [OF chr(5)] len by simp
    have m: "malloc_block [] (ALIGN4 (el_size el + 1)) = (Some ?b, [])" using nn by (simp add: malloc_block_def)
    have "read_element f [] el p = Some (0, el\<lparr>el_data := Ptr (str_block (el_size el) s)\<rparr>, p + 1 + length s + 2, [])"
      unfolding read_element_def if_not_P [OF go] using chr(1) m c1 c2 c3 by (auto simp: Let_def)
    then show ?thesis using chr(1,2) by (auto simp: filled_def show_cell_def)
  next
    case (sgn v)
    have "c_strtoll (rd f) p = Some (v, p + length (show_cell c))"
      using c_strtoll_dec [of "rd f" p "v < 0" "nat \<bar>v\<bar>" x] t x sgn(2,3) sep_facts
      by (simp add: show_cell_def nat_less_iff add.assoc split: if_splits)
    then show ?thesis using sgn(1,2) go unfolding read_element_def by (auto simp: filled_def)
  next
    case (uns v)
    have "c_strtoull (rd f) p = Some (of_nat (nat v), p + length (show_cell c))"
      using c_strtoull_dec [of "rd f" p "nat v" x] t x uns(2-4) sep_facts
      by (simp add: show_cell_def nat_less_iff)
    moreover have "(of_nat (nat v) :: ulong) = word_of_int v" using uns(3) by (simp add: of_nat_nat)
    ultimately show ?thesis using uns(1,2) go unfolding read_element_def by (auto simp: filled_def)
  next
    case (tx s)
    have ts: "text_at (rd f) (p + 1 + 0) (s @ [39])" using t tx by (simp add: show_cell_def)
    let ?n = "int (length s)" let ?b = "replicate (nat (ALIGN4 (?n + 1))) (None :: byte option)"
    have len: "length s + 1 \<le> nat (ALIGN4 (?n + 1))" by (rule str_block_eq(2)) simp
    have c1: "text_size f (p + 1) 0 = Some (length s)" using text_size_text [OF ts tx(3,4)] by simp
    have bnd: "p + 1 + length s < length f" using ts by (auto simp: rd_def split: if_splits)
    have "mem_read f (p + 1) (length s) = Some s"
    proof -
      have "take (length s) (drop (p + 1) f) = s"
        by (rule nth_equalityI) (use ts bnd in \<open>auto simp: text_at_def rd_def nth_append split: if_splits\<close>)
      then show ?thesis using bnd by (simp add: mem_read_eq)
    qed
    moreover have "mem_write ?b 0 (map Some s) = Some (blit ?b 0 (map Some s))" using len by (simp add: mem_write_eq)
    moreover have "wrc (blit ?b 0 (map Some s)) (length s) 0 = Some (str_block ?n s)"
      using blit_end [of s ?b] str_block_eq(1) [of s ?n] len by simp
    moreover have "malloc_block [] (ALIGN4 (?n + 1)) = (Some ?b, [])" using len by (simp add: malloc_block_def)
    ultimately show ?thesis using tx c1 unfolding read_element_def by (simp add: filled_def show_cell_def)
  qed
qed

fun show_cells :: "cell list \<Rightarrow> byte list" where
  "show_cells [] = []"
| "show_cells [c] = show_cell c"
| "show_cells (c # cs) = show_cell c @ 44 # show_cells cs"

lemma read_elements_cells:
  assumes "list_all2 cell_ok els cs" and "text_at (rd f) p (show_cells cs @ [x])" and "sep x" and "els \<noteq> []"
    and "\<forall>el \<in> set els. el_type el \<noteq> ELEMENT_TEXT \<longrightarrow> int (p + length (show_cells cs)) + el_size el < int (length f)"
  shows "read_elements f [] els p = Some (map2 filled els cs, p + length (show_cells cs) + 1, [])"
  using assms
proof (induction els cs arbitrary: p rule: list_all2_induct)
  case Nil
  then show ?case by simp
next
  case (Cons el els c cs)
  note outer = Cons
  show ?case
  proof (cases cs)
    case Nil
    then have els: "els = []" using outer(2) by simp
    have "read_element f [] el p = Some (0, filled el c, p + length (show_cell c) + 1, [])"
      by (rule read_element_cell [OF outer(1) _ outer(5)]) (use outer(4-7) els Nil in auto)
    then show ?thesis using els Nil by simp
  next
    case (Cons d ds)
    then have ne: "els \<noteq> []" using outer(2) by auto
    have sh: "show_cells (c # cs) = show_cell c @ 44 # show_cells cs" using Cons by simp
    have "read_element f [] el p = Some (0, filled el c, p + length (show_cell c) + 1, [])"
      by (rule read_element_cell [OF outer(1), of f p 44]) (use outer(4-7) sh in \<open>auto simp: sep_def\<close>)
    moreover have "read_elements f [] els (p + length (show_cell c) + 1) = Some (map2 filled els cs, p + length (show_cell c) + 1 + length (show_cells cs) + 1, [])"
      by (rule outer(3)) (use outer(4-7) sh ne in \<open>auto simp: add.assoc\<close>)
    ultimately show ?thesis unfolding sh by simp
  qed
qed

lemma copy_elements_Nil:
  "copy_elements [] title els uid = (Some (els @ title, (case rev (filter (\<lambda>i. el_name (title ! i) = chars ''uid'') [0..<length title]) of
      [] \<Rightarrow> uid | i # _ \<Rightarrow> Some (length els + i))), [])"
proof (induction title arbitrary: els uid)
  case Nil
  then show ?case by simp
next
  case (Cons el title)
  have up: "filter (\<lambda>i. el_name ((el # title) ! i) = chars ''uid'') [0..<length (el # title)]
      = (if el_name el = chars ''uid'' then [0] else []) @ map Suc (filter (\<lambda>i. el_name (title ! i) = chars ''uid'') [0..<length title])"
    by (simp add: upt_conv_Cons map_Suc_upt [symmetric] filter_map o_def del: upt_Suc)
  show ?case unfolding up by (cases "rev (filter (\<lambda>i. el_name (title ! i) = chars ''uid'') [0..<length title])") (auto simp: rev_map [symmetric] Cons.IH)
qed

section \<open>Reading records back\<close>

definition uid_column :: "element list \<Rightarrow> nat option" where
  "uid_column title = (case rev (filter (\<lambda>i. el_name (title ! i) = chars ''uid'') [0..<length title]) of [] \<Rightarrow> None | i # _ \<Rightarrow> Some i)"

definition new_record :: "element list \<Rightarrow> element list \<Rightarrow> rcd" where
  "new_record title els = \<lparr>re_data = els, re_uid = uid_column title, re_key = None, re_on = None, re_bucket = None\<rparr>"

lemma copy_elements_title: "copy_elements [] title [] None = (Some (title, uid_column title), [])"
  unfolding copy_elements_Nil uid_column_def by (simp split: list.split)

lemma alloc_record_eq:
  "rc_mal rctx = [] \<Longrightarrow> alloc_record rctx = (Some (rc_new rctx), rctx\<lparr>rc_mal := [], rc_new := Suc (rc_new rctx),
     rc_mem := (rc_mem rctx)(rc_new rctx \<mapsto> new_record (rc_title rctx) (rc_title rctx))\<rparr>)"
  by (simp add: alloc_record_def copy_elements_title new_record_def)

text \<open>The state after a row has been read.\<close>

definition add_row :: "record_context \<Rightarrow> cell list \<Rightarrow> record_context" where
  "add_row rctx cs = rctx\<lparr>rc_new := Suc (rc_new rctx),
     rc_mem := (rc_mem rctx)(rc_new rctx \<mapsto> (new_record (rc_title rctx) (map2 filled (rc_title rctx) cs))\<lparr>re_on := Some RECORDS\<rparr>),
     rc_lists := (rc_lists rctx)(RECORDS := rc_lists rctx RECORDS @ [rc_new rctx])\<rparr>"

text \<open>A row of the table: cells for all columns, the uid not a null pointer.\<close>

definition row_ok :: "element list \<Rightarrow> cell list \<Rightarrow> bool" where
  "row_ok title cs \<longleftrightarrow> list_all2 cell_ok title cs
     \<and> (\<exists>u. uid_column title = Some u \<and> u < length title \<and> \<not> data_null (el_data (filled (title ! u) (cs ! u))))"

lemma text_at_bound: "text_at (rd f) p s \<Longrightarrow> s \<noteq> [] \<Longrightarrow> p + length s \<le> length f"
  by (auto simp: text_at_def rd_def dest!: spec [of _ "length s - 1"] split: if_splits)

lemma SKIP_UNTIL_file:
  assumes "text_at (rd f) p (s @ [c])" and "c \<notin> set s"
  shows "SKIP_UNTIL (rd f) p (length f) c = Some (p + length s + 1)"
  using SKIP_UNTIL_text [OF assms] text_at_bound [OF assms(1)] by simp

lemma SKIP_UNTIL_none:
  assumes "text_at g p s" and "c \<notin> set s" and "s \<noteq> []" and "p + length s = e"
  shows "SKIP_UNTIL g p e c = Some e"
  using assms
proof (induction s arbitrary: p)
  case (Cons d s)
  then have "d \<noteq> c" by auto
  then show ?case using Cons by (cases s; subst SKIP_UNTIL.simps) simp_all
qed simp

text \<open>Room for the fixed sizes behind position \<open>p\<close>, which \<open>read_element\<close> insists on.\<close>

definition room :: "byte list \<Rightarrow> element list \<Rightarrow> nat \<Rightarrow> bool" where
  "room f title p \<longleftrightarrow> (\<forall>el \<in> set title. el_type el \<noteq> ELEMENT_TEXT \<longrightarrow> int p + el_size el < int (length f))"

lemma room_mono: "room f title p \<Longrightarrow> q \<le> p \<Longrightarrow> room f title q"
  unfolding room_def by fastforce

lemma read_record_row:
  assumes mal: "rc_mal rctx = []" and ok: "row_ok (rc_title rctx) cs"
    and t: "text_at (rd f) p (pre @ 40 # show_cells cs @ x # mid @ [41])" and pre: "40 \<notin> set pre" and mid: "41 \<notin> set mid" and x: "sep x"
    and room: "room f (rc_title rctx) (p + length pre + 1 + length (show_cells cs))"
  shows "read_record f rctx p = Some (0, p + length (pre @ 40 # show_cells cs @ x # mid @ [41]), add_row rctx cs)"
proof -
  let ?T = "rc_title rctx" and ?n = "rc_new rctx"
  obtain u where u: "uid_column ?T = Some u" "u < length ?T" "\<not> data_null (el_data (filled (?T ! u) (cs ! u)))"
    and cells: "list_all2 cell_ok ?T cs" using ok unfolding row_ok_def by blast
  have len: "length ?T = length cs" using cells by (rule list_all2_lengthD)
  have ne: "?T \<noteq> []" using u(2) by auto
  have s1: "SKIP_UNTIL (rd f) p (length f) 40 = Some (p + length pre + 1)"
    by (rule SKIP_UNTIL_file) (use t pre in auto)
  have el: "read_elements f [] ?T (p + length pre + 1) = Some (map2 filled ?T cs, p + length pre + 1 + length (show_cells cs) + 1, [])"
    by (rule read_elements_cells [OF cells _ x ne]) (use t room in \<open>auto simp: room_def\<close>)
  have s2: "SKIP_UNTIL (rd f) (p + length pre + 1 + length (show_cells cs) + 1) (length f) 41
      = Some (p + length pre + 1 + length (show_cells cs) + 1 + length mid + 1)"
    by (rule SKIP_UNTIL_file) (use t mid in \<open>auto simp: add.assoc\<close>)
  have up: "add_row rctx cs = rctx\<lparr>rc_mal := [], rc_new := Suc ?n,
      rc_mem := (rc_mem rctx)(?n \<mapsto> (new_record ?T (map2 filled ?T cs))\<lparr>re_on := Some RECORDS\<rparr>),
      rc_lists := (rc_lists rctx)(RECORDS := rc_lists rctx RECORDS @ [?n])\<rparr>"
    using mal by (cases rctx) (simp add: add_row_def)
  show ?thesis unfolding up
    using s1 el s2 u len ne unfolding read_record_def alloc_record_eq [OF mal]
    by (simp add: new_record_def record_list_add_tail_def rd_eq)
qed

text \<open>
  A statement: rows of cells for the columns of the table. A row either goes on with the text of
  further columns, which are not read, or ends with its last cell.
\<close>

type_synonym row = "cell list \<times> byte list option"

definition row_end :: "byte list option \<Rightarrow> byte list" where
  "row_end t = (case t of None \<Rightarrow> [41] | Some cols \<Rightarrow> 44 # cols @ [41])"

fun rows_text :: "byte list \<Rightarrow> row list \<Rightarrow> byte list" where
  "rows_text pre [] = []"
| "rows_text pre ((cs, t) # rows) = pre @ (40 # show_cells cs @ row_end t) @ rows_text [44] rows"

text \<open>
  The rows that are read: behind a row that ends with its last cell the code goes on to the next
  closing parenthesis, which is that of the row that follows.
\<close>

fun rows_read :: "row list \<Rightarrow> row list" where
  "rows_read [] = []"
| "rows_read ((cs, Some cols) # rows) = (cs, Some cols) # rows_read rows"
| "rows_read ((cs, None) # rows) = (cs, None) # rows_read (tl rows)"

lemma rows_read_open: "\<forall>(cs, t) \<in> set rows. t \<noteq> None \<Longrightarrow> rows_read rows = rows"
  by (induction rows rule: rows_read.induct) auto

lemma rows_read_complete:
  "\<forall>(cs, t) \<in> set rows. t = None \<Longrightarrow> length (rows_read rows) = (length rows + 1) div 2
    \<and> (\<forall>i < length (rows_read rows). rows_read rows ! i = rows ! (2 * i))"
proof (induction rows rule: rows_read.induct)
  case (3 cs rows)
  show ?case
  proof (cases rows)
    case (Cons r2 rest)
    then have "\<forall>(cs, t) \<in> set (tl rows). t = None" using "3.prems" by auto
    note IH = "3.IH" [OF this]
    have "rows_read ((cs, None) # rows) ! i = ((cs, None) # rows) ! (2 * i)" if "i < length (rows_read ((cs, None) # rows))" for i
      using IH that Cons by (cases i) auto
    then show ?thesis using IH Cons by simp
  qed simp
qed auto

definition rows_ok :: "element list \<Rightarrow> row list \<Rightarrow> bool" where
  "rows_ok title rows \<longleftrightarrow> (\<forall>(cs, t) \<in> set rows. row_ok title cs \<and> 41 \<notin> set (butlast (row_end t)))
     \<and> ((\<exists>cs. (cs, None) \<in> set rows) \<longrightarrow> (\<forall>(cs, t) \<in> set rows. 41 \<notin> set (show_cells cs)))"

lemma rows_ok_tail: "rows_ok title (r # rows) \<Longrightarrow> rows_ok title rows"
  by (auto simp: rows_ok_def)

lemma add_row_title [simp]: "rc_title (add_row rctx cs) = rc_title rctx" "rc_mal (add_row rctx cs) = rc_mal rctx" "rc_new (add_row rctx cs) = Suc (rc_new rctx)"
  by (simp_all add: add_row_def)

text \<open>The row at a position, what is behind it, and what \<open>read_record\<close> does with it.\<close>

lemma read_record_last:
  assumes mal: "rc_mal rctx = []" and ok: "row_ok (rc_title rctx) cs"
    and t: "text_at (rd f) p (pre @ 40 # show_cells cs @ 41 # mid)" and pre: "40 \<notin> set pre" and mid: "41 \<notin> set mid" "mid \<noteq> []"
    and e: "p + length (pre @ 40 # show_cells cs @ 41 # mid) = length f"
    and room: "room f (rc_title rctx) (p + length pre + 1 + length (show_cells cs))"
  shows "read_record f rctx p = Some (0, length f, add_row rctx cs)"
proof -
  let ?T = "rc_title rctx" and ?n = "rc_new rctx"
  obtain u where u: "uid_column ?T = Some u" "u < length ?T" "\<not> data_null (el_data (filled (?T ! u) (cs ! u)))"
    and cells: "list_all2 cell_ok ?T cs" using ok unfolding row_ok_def by blast
  have len: "length ?T = length cs" using cells by (rule list_all2_lengthD)
  have ne: "?T \<noteq> []" using u(2) by auto
  have s1: "SKIP_UNTIL (rd f) p (length f) 40 = Some (p + length pre + 1)"
    by (rule SKIP_UNTIL_file) (use t pre in auto)
  have el: "read_elements f [] ?T (p + length pre + 1) = Some (map2 filled ?T cs, p + length pre + 1 + length (show_cells cs) + 1, [])"
    by (rule read_elements_cells [OF cells _ _ ne, of _ _ 41]) (use t room in \<open>auto simp: room_def sep_def\<close>)
  have s2: "SKIP_UNTIL (rd f) (p + length pre + 1 + length (show_cells cs) + 1) (length f) 41 = Some (length f)"
    by (rule SKIP_UNTIL_none [where s = mid]) (use t mid e in \<open>auto simp: add.assoc\<close>)
  have up: "add_row rctx cs = rctx\<lparr>rc_mal := [], rc_new := Suc ?n,
      rc_mem := (rc_mem rctx)(?n \<mapsto> (new_record ?T (map2 filled ?T cs))\<lparr>re_on := Some RECORDS\<rparr>),
      rc_lists := (rc_lists rctx)(RECORDS := rc_lists rctx RECORDS @ [?n])\<rparr>"
    using mal by (cases rctx) (simp add: add_row_def)
  show ?thesis unfolding up
    using s1 el s2 u len ne unfolding read_record_def alloc_record_eq [OF mal]
    by (simp add: new_record_def record_list_add_tail_def rd_eq)
qed

lemma read_insert_rows:
  assumes "rc_mal rctx = []" and "rows \<noteq> []" and "rows_ok (rc_title rctx) rows"
    and "text_at (rd f) p (rows_text pre rows @ rest)" and "p + length (rows_text pre rows @ rest) = length f"
    and "rest \<noteq> []" and "take 1 rest \<noteq> [44]" and "41 \<notin> set rest" and "40 \<notin> set pre"
    and "room f (rc_title rctx) (p + length (rows_text pre rows))"
  shows "\<exists>q. read_insert f rctx p = Some (0, q, fold (\<lambda>r s. add_row s (fst r)) (rows_read rows) rctx)
    \<and> (q = p + length (rows_text pre rows) \<or> q = length f)"
  using assms
proof (induction rows arbitrary: rctx p pre rule: length_induct)
  case (1 rows)
  obtain cs t rows1 where rows: "rows = (cs, t) # rows1" using "1.prems"(2) by (cases rows) auto
  have ok: "row_ok (rc_title rctx) cs" using "1.prems"(3) rows by (auto simp: rows_ok_def)
  have rm: "room f (rc_title rctx) (p + length pre + 1 + length (show_cells cs))"
    by (rule room_mono [OF "1.prems"(10)]) (simp add: rows)
  text \<open>Behind the record the loop is at \<open>q\<close>, in front of the rows \<open>more_rows\<close>.\<close>
  have go: ?case
    if rec: "read_record f rctx p = Some (0, q, add_row rctx cs)" and read: "rows_read rows = (cs, t) # rows_read left_rows"
      and q: "q + length (rows_text [44] left_rows) = p + length (rows_text pre rows)" "text_at (rd f) q (rows_text [44] left_rows @ rest)"
      and sub: "length left_rows < length rows" "rows_ok (rc_title rctx) left_rows" for q left_rows
  proof (cases left_rows)
    case Nil
    have t: "text_at (rd f) q rest" using q(2) Nil by simp
    then obtain c ys where c: "rest = c # ys" "c \<noteq> 44" using "1.prems"(6,7) by (cases rest) auto
    then have "q < length f" "rd f q = Some c" using text_at_bound [OF t] t by auto
    then have "read_insert f rctx p = Some (0, q, add_row rctx cs)" using rec c(2) by (subst read_insert.simps) simp
    then show ?thesis using read q(1) Nil by simp
  next
    case (Cons r2 rows2)
    obtain ys where "rows_text [44] left_rows @ rest = 44 # ys" unfolding Cons by (cases r2) simp
    then have "q < length f" "rd f q = Some 44" using text_at_bound [OF q(2)] q(2) by auto
    moreover have "\<exists>q'. read_insert f (add_row rctx cs) q = Some (0, q', fold (\<lambda>r s. add_row s (fst r)) (rows_read left_rows) (add_row rctx cs))
        \<and> (q' = q + length (rows_text [44] left_rows) \<or> q' = length f)"
      using "1.IH" [rule_format, OF sub(1), of "add_row rctx cs" q "[44]"] "1.prems"(1,5-8,10) sub(2) q Cons by simp
    ultimately show ?thesis using rec read q(1) by (subst read_insert.simps) auto
  qed
  show ?case
  proof (cases t)
    case (Some cols)
    let ?row = "pre @ 40 # show_cells cs @ 44 # cols @ [41]"
    have tx: "text_at (rd f) p (?row @ rows_text [44] rows1 @ rest)" using "1.prems"(4) rows Some by (simp add: row_end_def)
    show ?thesis
    proof (rule go [where left_rows = rows1 and q = "p + length ?row"])
      show "read_record f rctx p = Some (0, p + length ?row, add_row rctx cs)"
      proof (rule read_record_row [OF "1.prems"(1) ok _ "1.prems"(9) _ _ rm])
        show "text_at (rd f) p ?row" using tx unfolding text_at_append by blast
        show "41 \<notin> set cols" using "1.prems"(3) rows Some by (auto simp: rows_ok_def row_end_def butlast_append)
      qed (simp add: sep_def)
      show "text_at (rd f) (p + length ?row) (rows_text [44] rows1 @ rest)" using tx unfolding text_at_append by blast
    qed (use rows Some "1.prems"(3) rows_ok_tail in \<open>auto simp: row_end_def\<close>)
  next
    case None
    note no41 = "1.prems"(3) [unfolded rows_ok_def, THEN conjunct2]
    show ?thesis
    proof (cases rows1)
      case Nil
      have "read_record f rctx p = Some (0, length f, add_row rctx cs)"
        by (rule read_record_last [OF "1.prems"(1) ok _ "1.prems"(9,8,6) _ rm])
          (use "1.prems"(4,5) rows None Nil in \<open>simp_all add: row_end_def\<close>)
      then have "read_insert f rctx p = Some (0, length f, add_row rctx cs)" by (subst read_insert.simps) simp
      then show ?thesis using rows None Nil by simp
    next
      case (Cons r2 rows2)
      obtain cs2 t2 where r2: "r2 = (cs2, t2)" by (cases r2)
      obtain mid where mid: "row_end t2 = mid @ [41]" "mid = butlast (row_end t2)" by (cases t2) (auto simp: row_end_def butlast_append)
      let ?mid = "44 # 40 # show_cells cs2 @ mid"
      let ?row = "pre @ 40 # show_cells cs @ 41 # ?mid @ [41]"
      have m41: "41 \<notin> set ?mid" using "1.prems"(3) no41 rows None Cons r2 mid(2) by (auto simp: rows_ok_def)
      have tx: "text_at (rd f) p (?row @ rows_text [44] rows2 @ rest)"
        using "1.prems"(4) rows None Cons r2 mid(1) by (simp add: row_end_def)
      show ?thesis
      proof (rule go [where left_rows = rows2 and q = "p + length ?row"])
        show "read_record f rctx p = Some (0, p + length ?row, add_row rctx cs)"
        proof (rule read_record_row [OF "1.prems"(1) ok _ "1.prems"(9) m41 _ rm])
          show "text_at (rd f) p ?row" using tx unfolding text_at_append by blast
        qed (simp add: sep_def)
        show "text_at (rd f) (p + length ?row) (rows_text [44] rows2 @ rest)" using tx unfolding text_at_append by blast
        show "rows_ok (rc_title rctx) rows2" using "1.prems"(3) rows Cons by (blast dest: rows_ok_tail)
      qed (use rows None Cons r2 mid(1) in \<open>auto simp: row_end_def\<close>)
    qed
  qed
qed

lemma fold_add_row:
  "rc_lists (fold (\<lambda>r s. add_row s (fst r)) rows rctx) = (rc_lists rctx)(RECORDS := rc_lists rctx RECORDS @ [rc_new rctx..<rc_new rctx + length rows])
   \<and> (\<forall>i < length rows. rc_mem (fold (\<lambda>r s. add_row s (fst r)) rows rctx) (rc_new rctx + i)
        = Some ((new_record (rc_title rctx) (map2 filled (rc_title rctx) (fst (rows ! i))))\<lparr>re_on := Some RECORDS\<rparr>))
   \<and> (\<forall>x. \<not> (rc_new rctx \<le> x \<and> x < rc_new rctx + length rows) \<longrightarrow> rc_mem (fold (\<lambda>r s. add_row s (fst r)) rows rctx) x = rc_mem rctx x)"
proof (induction rows arbitrary: rctx)
  case Nil
  then show ?case by simp
next
  case (Cons r rows)
  let ?s = "add_row rctx (fst r)"
  have up: "[rc_new rctx..<rc_new rctx + length (r # rows)] = rc_new rctx # [Suc (rc_new rctx)..<Suc (rc_new rctx) + length rows]"
    using upt_conv_Cons [of "rc_new rctx" "rc_new rctx + length (r # rows)"] by (simp del: upt_Suc)
  have l: "rc_lists ?s = (rc_lists rctx)(RECORDS := rc_lists rctx RECORDS @ [rc_new rctx])" by (simp add: add_row_def)
  have m: "rc_mem ?s = (rc_mem rctx)(rc_new rctx \<mapsto> (new_record (rc_title rctx) (map2 filled (rc_title rctx) (fst r)))\<lparr>re_on := Some RECORDS\<rparr>)"
    by (simp add: add_row_def)
  show ?case
  proof (intro conjI allI impI)
    show "rc_lists (fold (\<lambda>r s. add_row s (fst r)) (r # rows) rctx) = (rc_lists rctx)(RECORDS := rc_lists rctx RECORDS @ [rc_new rctx..<rc_new rctx + length (r # rows)])"
      unfolding up using Cons [of ?s, THEN conjunct1] l by (simp add: fun_eq_iff del: upt_Suc)
  next
    fix i assume i: "i < length (r # rows)"
    show "rc_mem (fold (\<lambda>r s. add_row s (fst r)) (r # rows) rctx) (rc_new rctx + i)
        = Some ((new_record (rc_title rctx) (map2 filled (rc_title rctx) (fst ((r # rows) ! i))))\<lparr>re_on := Some RECORDS\<rparr>)"
    proof (cases i)
      case 0
      then show ?thesis using Cons [of ?s] m by simp
    next
      case (Suc j)
      then show ?thesis using Cons [of ?s, THEN conjunct2, THEN conjunct1, rule_format, of j] i by simp
    qed
  next
    fix x assume "\<not> (rc_new rctx \<le> x \<and> x < rc_new rctx + length (r # rows))"
    then have x: "x \<noteq> rc_new rctx" "\<not> (Suc (rc_new rctx) \<le> x \<and> x < Suc (rc_new rctx) + length rows)" by auto
    then show "rc_mem (fold (\<lambda>r s. add_row s (fst r)) (r # rows) rctx) x = rc_mem rctx x"
      using Cons [of ?s] m by simp
  qed
qed

lemma line_at_text: "\<not> (\<exists>c \<in> set s. eol c) \<Longrightarrow> eol c \<Longrightarrow> text_at (rd f) p (s @ [c]) \<Longrightarrow> length (line_at f p) = length s"
proof (induction s arbitrary: p)
  case Nil
  then have "p < length f" "f ! p = c" by (auto simp: rd_def split: if_splits)
  then show ?case using Nil by (simp add: line_at_def drop_nth)
next
  case (Cons d s)
  then have "p < length f" "f ! p = d" by (auto simp: rd_def split: if_splits)
  then show ?case using Cons by (simp add: line_at_def drop_nth)
qed

lemma insert_txt: "chars ''INSERT INTO '' = [73, 78, 83, 69, 82, 84, 32, 73, 78, 84, 79, 32]"
  by (simp add: chars_def of_char_def)

lemma read_all_record_done:
  assumes f: "io_buf io = stmt @ 59 # 10 # comment" and q: "q = length stmt \<or> q = length (io_buf io)"
    and comment: "\<forall>c \<in> set comment. \<not> eol c" "take 1 comment \<noteq> [73]"
  shows "\<exists>io1 io'. skip_to_next_line (io\<lparr>io_rdptr := q\<rparr>) = Some io1 \<and> read_all_record io1 s = Some (0, io', s)"
  using q
proof
  let ?f = "io_buf io"
  assume "q = length ?f"
  then have "skip_to_next_line (io\<lparr>io_rdptr := q\<rparr>) = Some (io\<lparr>io_rdptr := length ?f + 1\<rparr>)"
    by (simp add: skip_to_next_line_def to_eol_eq line_at_def)
  moreover have "read_all_record (io\<lparr>io_rdptr := length ?f + 1\<rparr>) s = Some (0, io\<lparr>io_rdptr := length ?f + 1\<rparr>, s)"
    by (subst read_all_record.simps) simp
  ultimately show ?thesis by blast
next
  let ?f = "io_buf io" and ?io = "io\<lparr>io_rdptr := q + 2\<rparr>"
  assume at: "q = length stmt"
  have lf: "length ?f = q + 2 + length comment" using f at by simp
  have tq: "text_at (rd ?f) q [59, 10]" using text_at_rd [of stmt "[59, 10]" comment] f at by simp
  have "length (line_at ?f q) = 1" using line_at_text [of "[59]" 10 ?f q] tq by (simp add: eol_def)
  then have sk: "skip_to_next_line (io\<lparr>io_rdptr := q\<rparr>) = Some ?io"
    using lf by (simp add: skip_to_next_line_def to_eol_eq)
  have "\<exists>io'. read_all_record ?io s = Some (0, io', s)"
  proof (cases "length comment \<le> 12")
    case True
    then show ?thesis using lf by (subst read_all_record.simps) (simp add: insert_txt)
  next
    case False
    obtain c cm where cm: "comment = c # cm" "c \<noteq> 73" using False comment(2) by (cases comment) auto
    have c: "rd ?f (q + 2) = Some c" using f at cm by (simp add: rd_def nth_append)
    have "line_at ?f (q + 2) = comment"
      using f at comment(1) by (simp add: line_at_def takeWhile_eq_all_conv)
    then have sk2: "skip_to_next_line ?io = Some (?io\<lparr>io_rdptr := length ?f + 1\<rparr>)"
      using lf by (simp add: skip_to_next_line_def to_eol_eq)
    have st2: "starts (rd ?f) (q + 2) (chars ''INSERT INTO '') = Some False" using c cm(2) by (simp add: insert_txt)
    have "read_all_record ?io s = read_all_record (?io\<lparr>io_rdptr := length ?f + 1\<rparr>) s"
      using False lf st2 sk2 by (subst read_all_record.simps) (simp add: insert_txt)
    moreover have "read_all_record (?io\<lparr>io_rdptr := length ?f + 1\<rparr>) s = Some (0, ?io\<lparr>io_rdptr := length ?f + 1\<rparr>, s)"
      by (subst read_all_record.simps) simp
    ultimately show ?thesis by metis
  qed
  then show ?thesis using sk by blast
qed

lemma read_all_record_enters:
  assumes f: "io_buf io = before @ rows_text (chars ''INSERT INTO '' @ into) rows @ rest" and p: "io_rdptr io = length before" and "rows \<noteq> []"
  shows "read_all_record io rctx = Option.bind (read_insert (io_buf io) rctx (length before))
      (\<lambda>(ret, ptr, rctx). if ret < 0 then Some (ret, io, rctx)
        else Option.bind (skip_to_next_line (io\<lparr>io_rdptr := ptr\<rparr>)) (\<lambda>io. read_all_record io rctx))"
proof -
  obtain cs e rows' where r: "rows = (cs, e) # rows'" using assms(3) by (metis list.exhaust surj_pair)
  have "text_at (rd (io_buf io)) (length before) (chars ''INSERT INTO '')"
    using text_at_rd [of before "chars ''INSERT INTO ''"] f r by simp
  then have st: "starts (rd (io_buf io)) (io_rdptr io) (chars ''INSERT INTO '') = Some True"
    unfolding p by (rule starts_text)
  have "\<not> length (io_buf io) \<le> io_rdptr io + 12" using f p r by (simp add: insert_txt row_end_def split: option.split)
  then show ?thesis using st p by (subst read_all_record.simps) (simp add: insert_txt)
qed

lemma read_all_record_statement:
  assumes mal: "rc_mal rctx = []" and f: "io_buf io = before @ rows_text (chars ''INSERT INTO '' @ into) rows @ 59 # 10 # comment"
    and p: "io_rdptr io = length before" and rows: "rows \<noteq> []" "rows_ok (rc_title rctx) rows"
    and into: "40 \<notin> set into" and comment: "\<forall>c \<in> set comment. \<not> eol c \<and> c \<noteq> 41" "take 1 comment \<noteq> [73]"
    and room: "\<forall>el \<in> set (rc_title rctx). el_type el \<noteq> ELEMENT_TEXT \<longrightarrow> el_size el < 2 + int (length comment)"
  shows "\<exists>io'. read_all_record io rctx = Some (0, io', fold (\<lambda>r s. add_row s (fst r)) (rows_read rows) rctx)"
proof -
  let ?f = "io_buf io" and ?pre = "chars ''INSERT INTO '' @ into" and ?rest = "59 # 10 # comment"
  let ?s = "fold (\<lambda>r s. add_row s (fst r)) (rows_read rows) rctx"
  have t: "text_at (rd ?f) (length before) (rows_text ?pre rows @ ?rest)"
    using text_at_rd [of before "rows_text ?pre rows @ ?rest" "[]"] f by simp
  have pre40: "40 \<notin> set ?pre" using into by (simp add: insert_txt)
  have "\<exists>q. read_insert ?f rctx (length before) = Some (0, q, ?s) \<and> (q = length before + length (rows_text ?pre rows) \<or> q = length ?f)"
    by (rule read_insert_rows [OF mal rows t _ _ _ _ pre40]) (use room f comment in \<open>auto simp: room_def\<close>)
  then obtain q where ins: "read_insert ?f rctx (length before) = Some (0, q, ?s)" and q: "q = length (before @ rows_text ?pre rows) \<or> q = length ?f" by auto
  obtain io1 io' where "skip_to_next_line (io\<lparr>io_rdptr := q\<rparr>) = Some io1" "read_all_record io1 ?s = Some (0, io', ?s)"
    using read_all_record_done [OF _ q, of comment ?s] f comment by auto
  then show ?thesis unfolding read_all_record_enters [OF f p rows(1)] using ins by simp
qed

section \<open>Types\<close>

definition el_typed :: "element \<Rightarrow> bool" where
  "el_typed el \<longleftrightarrow> (case el_data el of
     Bits w \<Rightarrow> el_type el \<in> {ELEMENT_SMALLINT, ELEMENT_SMALLUINT, ELEMENT_INT, ELEMENT_UINT, ELEMENT_BIGINT, ELEMENT_BIGUINT} \<or> w = 0
   | Ptr b \<Rightarrow> el_type el \<in> {ELEMENT_CHAR, ELEMENT_UCHAR, ELEMENT_TEXT} \<and> (\<exists>s. cstr b = Some s))"

definition record_typed :: "element list \<Rightarrow> rcd \<Rightarrow> bool" where
  "record_typed title r \<longleftrightarrow> map (\<lambda>el. (el_name el, el_type el)) (re_data r) = map (\<lambda>el. (el_name el, el_type el)) title
     \<and> (\<forall>el \<in> set (re_data r). el_typed el) \<and> re_uid r = uid_column title"

definition table_typed :: "record_context \<Rightarrow> bool" where
  "table_typed rctx \<longleftrightarrow> (\<forall>el \<in> set (rc_title rctx). el_typed el) \<and> (\<forall>re r. rc_mem rctx re = Some r \<longrightarrow> record_typed (rc_title rctx) r)"

lemma cstr_any: "\<exists>s'. cstr (map Some s @ Some 0 # b) = Some s'"
  by (induction s) auto

lemma copy_char_result:
  assumes "copy_char f p n b k = Some (p', b', k')"
  shows "\<exists>s. k' = k + length s \<and> (k \<le> length b \<longrightarrow> k' \<le> length b \<and> b' = blit b k (map Some s))"
proof -
  define Q where "Q = (\<lambda>(b :: block) k y. case y of (p' :: nat, b', k') \<Rightarrow> \<exists>s. k' = k + length s \<and> (k \<le> length b \<longrightarrow> k' \<le> length b \<and> b' = blit b k (map Some s)))"
  have "Q b k (p', b', k')"
  proof (rule copy_char.raw_induct [where P = "\<lambda>f p n b k y. Q b k y", OF _ assms])
    fix cc f p n b k y
    assume IH: "\<And>f p n b k y. cc f p n b k = Some y \<Longrightarrow> Q b k y"
      and run: "rd f p \<bind> (\<lambda>c. if c \<noteq> 39 \<and> 0 < n then wrc b k c \<bind> (\<lambda>b. cc f (p + 1) (n - 1) b (k + 1)) else Some (p, b, k)) = Some y"
    obtain c where c: "rd f p = Some c" using run by (cases "rd f p") auto
    show "Q b k y"
    proof (cases "c \<noteq> 39 \<and> 0 < n")
      case False
      then have "y = (p, b, k)" using run c by auto
      then show ?thesis unfolding Q_def by (auto intro!: exI [of _ "[]"])
    next
      case True
      then obtain b1 where b1: "wrc b k c = Some b1" "cc f (p + 1) (n - 1) b1 (k + 1) = Some y" using run c by (cases "wrc b k c") auto
      obtain p2 b2 k2 where y: "y = (p2, b2, k2)" by (cases y)
      obtain s where s: "k2 = k + 1 + length s" "k + 1 \<le> length b1 \<longrightarrow> k2 \<le> length b1 \<and> b2 = blit b1 (k + 1) (map Some s)"
        using IH [OF b1(2)] unfolding Q_def y by auto
      have w: "k < length b" "b1 = blit b k [Some c]" using b1(1) by (auto simp: wrc_def wr_Some_iff blit_def upd_conv_take_nth_drop)
      then have "k2 \<le> length b" using s by simp
      moreover have "b2 = blit b k (map Some (c # s))"
        using blit_append [of k "[Some c]" "map Some s" b] s w \<open>k2 \<le> length b\<close> by simp
      ultimately show ?thesis unfolding Q_def y using s by (auto intro!: exI [of _ "c # s"])
    qed
  qed
  then show ?thesis by (simp add: Q_def)
qed

lemma wrc_end_cstr:
  assumes "wrc (blit b 0 (map Some s)) (length s) 0 = Some b'" and "length s \<le> length b"
  shows "\<exists>t. cstr b' = Some t"
proof -
  have l: "length s < length b" using assms by (auto simp: wrc_def wr_Some_iff)
  then have "b' = map Some s @ Some 0 # drop (length s + 1) b" using assms(1) blit_end [OF l] by (simp add: blit_def)
  then show ?thesis using cstr_any by metis
qed

lemma malloc_block_Some: "malloc_block mal n = (Some b, mal') \<Longrightarrow> b = replicate (nat n) None"
  by (auto simp: malloc_block_def split: prod.splits if_splits)

lemma read_element_char:
  assumes "el_type el \<in> {ELEMENT_CHAR, ELEMENT_UCHAR}" and "read_element f mal el p = Some (ret, el', p', mal')"
  shows "el' = el \<or> (\<exists>b s. el' = el\<lparr>el_data := Ptr b\<rparr> \<and> cstr b = Some s)"
proof (cases "int (length f) \<le> int p + el_size el")
  case True
  then show ?thesis using assms by (auto simp: read_element_def)
next
  case False
  obtain bo mal1 where m: "malloc_block mal (ALIGN4 (el_size el + 1)) = (bo, mal1)" by fastforce
  show ?thesis
  proof (cases bo)
    case None
    then show ?thesis using assms False m by (auto simp: read_element_def Let_def)
  next
    case (Some b)
    obtain p1 b1 k where c1: "copy_char f (p + 1) (el_size el) b 0 = Some (p1, b1, k)"
      using assms False m Some by (cases "copy_char f (p + 1) (el_size el) b 0") (auto simp: read_element_def Let_def)
    obtain s where s: "k = length s" "k \<le> length b" "b1 = blit b 0 (map Some s)" using copy_char_result [OF c1] by auto
    obtain p2 where c2: "to_quote f p1 = Some p2"
      using assms False m Some c1 by (cases "to_quote f p1") (auto simp: read_element_def Let_def)
    obtain b2 where c3: "wrc b1 k 0 = Some b2"
      using assms False m Some c1 c2 by (cases "wrc b1 k 0") (auto simp: read_element_def Let_def)
    have "el' = el\<lparr>el_data := Ptr b2\<rparr>" using assms False m Some c1 c2 c3 by (auto simp: read_element_def Let_def)
    then show ?thesis using wrc_end_cstr [of b s b2] c3 s by auto
  qed
qed

lemma read_element_text:
  assumes "el_type el = ELEMENT_TEXT" and "read_element f mal el p = Some (ret, el', p', mal')"
  shows "el' = el \<or> (\<exists>b s n. el' = el\<lparr>el_data := Ptr b, el_size := n\<rparr> \<and> cstr b = Some s)"
proof -
  obtain n where n: "text_size f (p + 1) 0 = Some n" using assms by (cases "text_size f (p + 1) 0") (auto simp: read_element_def)
  obtain bo mal1 where m: "malloc_block mal (ALIGN4 (int n + 1)) = (bo, mal1)" by fastforce
  show ?thesis
  proof (cases bo)
    case None
    then show ?thesis using assms m n by (auto simp: read_element_def)
  next
    case (Some b)
    obtain s where c1: "mem_read f (p + 1) n = Some s"
      using assms m n Some by (cases "mem_read f (p + 1) n") (auto simp: read_element_def)
    then have ls: "length s = n" by (auto simp: mem_read_def split: if_splits)
    obtain b1 where c2: "mem_write b 0 (map Some s) = Some b1"
      using assms m n Some c1 by (cases "mem_write b 0 (map Some s)") (auto simp: read_element_def)
    then have b1: "b1 = blit b 0 (map Some s)" "length s \<le> length b" by (auto simp: mem_write_def split: if_splits)
    obtain b2 where c3: "wrc b1 n 0 = Some b2"
      using assms m n Some c1 c2 by (cases "wrc b1 n 0") (auto simp: read_element_def)
    have "el' = el\<lparr>el_data := Ptr b2, el_size := int n\<rparr>" using assms m n Some c1 c2 c3 by (auto simp: read_element_def)
    then show ?thesis using wrc_end_cstr [of b s b2] c3 b1 ls by auto
  qed
qed

lemma read_element_typed:
  assumes "read_element f mal el p = Some (ret, el', p', mal')" and "el_typed el"
  shows "el_typed el' \<and> el_name el' = el_name el \<and> el_type el' = el_type el"
proof -
  consider "el_type el \<in> {ELEMENT_CHAR, ELEMENT_UCHAR}" | "el_type el = ELEMENT_TEXT"
    | "el_type el \<in> {ELEMENT_INT, ELEMENT_SMALLINT, ELEMENT_BIGINT}" | "el_type el \<in> {ELEMENT_SMALLUINT, ELEMENT_UINT, ELEMENT_BIGUINT}"
    | "el_type el \<in> {ELEMENT_BINARY, ELEMENT_TYPE_MAX}" by (cases "el_type el") auto
  then show ?thesis
  proof cases
    case 1
    then show ?thesis using read_element_char [OF 1 assms(1)] assms(2) by (auto simp: el_typed_def)
  next
    case 2
    then show ?thesis using read_element_text [OF 2 assms(1)] assms(2) by (auto simp: el_typed_def)
  next
    case 3
    then show ?thesis using assms by (cases "c_strtoll (rd f) p") (auto simp: read_element_def el_typed_def split: if_splits)
  next
    case 4
    then show ?thesis using assms by (cases "c_strtoull (rd f) p") (auto simp: read_element_def el_typed_def split: if_splits)
  next
    case 5
    then show ?thesis using assms by (auto simp: read_element_def split: if_splits)
  qed
qed

lemma read_elements_typed:
  assumes "read_elements f mal els p = Some (els', p', mal')" and "\<forall>el \<in> set els. el_typed el"
  shows "map (\<lambda>el. (el_name el, el_type el)) els' = map (\<lambda>el. (el_name el, el_type el)) els \<and> (\<forall>el \<in> set els'. el_typed el)"
  using assms
proof (induction els arbitrary: mal p els' p' mal')
  case Nil
  then show ?case by auto
next
  case (Cons el els)
  obtain ret el1 p1 mal1 where e: "read_element f mal el p = Some (ret, el1, p1, mal1)"
    using Cons.prems(1) by (cases "read_element f mal el p") auto
  note t = read_element_typed [OF e]
  show ?case
  proof (cases "ret < 0")
    case True
    then show ?thesis using Cons.prems e t by auto
  next
    case False
    then obtain els1 p2 mal2 where "read_elements f mal1 els p1 = Some (els1, p2, mal2)" "els' = el1 # els1"
      using Cons.prems(1) e by (cases "read_elements f mal1 els p1") auto
    then show ?thesis using Cons.IH Cons.prems(2) t by auto
  qed
qed

lemma copy_elements_Some:
  "copy_elements mal title els uid = (Some r, mal') \<Longrightarrow> copy_elements [] title els uid = (Some r, [])"
proof (induction mal title els uid rule: copy_elements.induct)
  case (1 mal els uid)
  then show ?case by simp
next
  case (2 mal el title els uid)
  obtain ok m where m: "malloc mal = (ok, m)" by fastforce
  then show ?case using 2 by (cases ok) simp_all
qed

lemma alloc_record_Some:
  assumes "alloc_record rctx = (Some re, s)"
  shows "re = rc_new rctx \<and> (\<exists>mal. s = rctx\<lparr>rc_mal := mal, rc_new := Suc (rc_new rctx),
     rc_mem := (rc_mem rctx)(rc_new rctx \<mapsto> new_record (rc_title rctx) (rc_title rctx))\<rparr>)"
proof -
  obtain ok mal where m1: "malloc (rc_mal rctx) = (ok, mal)" by fastforce
  obtain ok2 mal2 where m2: "malloc mal = (ok2, mal2)" by fastforce
  obtain r mal3 where c: "copy_elements mal2 (rc_title rctx) [] None = (r, mal3)" by fastforce
  obtain els uid where r: "r = Some (els, uid)" "ok" "ok2" using assms m1 m2 c
    by (cases r) (auto simp: alloc_record_def split: if_splits)
  then have "els = rc_title rctx" "uid = uid_column (rc_title rctx)"
    using copy_elements_Some [of mal2 "rc_title rctx" "[]" None "(els, uid)" mal3] c copy_elements_title by auto
  then show ?thesis using assms m1 m2 c r by (auto simp: alloc_record_def new_record_def)
qed

lemma alloc_record_None: "alloc_record rctx = (None, s) \<Longrightarrow> \<exists>mal. s = rctx\<lparr>rc_mal := mal\<rparr>"
  by (auto simp: alloc_record_def split: prod.splits if_splits option.splits)

definition table_ok :: "record_context \<Rightarrow> bool" where "table_ok rctx \<longleftrightarrow> links_ok rctx \<and> table_typed rctx"

lemma read_record_typed:
  assumes run: "read_record f rctx p = Some (ret, p', s)" and ok: "table_ok rctx"
  shows "table_ok s \<and> rc_title s = rc_title rctx"
proof -
  have lk: "links_ok rctx" and ty: "table_typed rctx" using ok by (auto simp: table_ok_def)
  obtain ro t where a: "alloc_record rctx = (ro, t)" by fastforce
  show ?thesis
  proof (cases ro)
    case None
    then obtain mal where t: "t = rctx\<lparr>rc_mal := mal\<rparr>" using alloc_record_None a by blast
    have "s = t" using run a None by (simp add: read_record_def)
    then show ?thesis using lk ty unfolding t table_ok_def links_ok_def table_typed_def by simp
  next
    case (Some re)
    let ?T = "rc_title rctx" and ?n = "rc_new rctx"
    obtain mal where t: "re = ?n" "t = rctx\<lparr>rc_mal := mal, rc_new := Suc ?n, rc_mem := (rc_mem rctx)(?n \<mapsto> new_record ?T ?T)\<rparr>"
      using alloc_record_Some a Some by blast
    obtain p1 where p1: "SKIP_UNTIL (rd f) p (length f) 40 = Some p1"
      using run a Some by (cases "SKIP_UNTIL (rd f) p (length f) 40") (auto simp: read_record_def)
    obtain els p2 mal2 where els: "read_elements f mal ?T p1 = Some (els, p2, mal2)"
      using run a Some p1 t by (cases "read_elements f mal ?T p1") (auto simp: read_record_def new_record_def)
    define r where "r = new_record ?T els"
    define t1 where "t1 = rctx\<lparr>rc_new := Suc ?n, rc_mal := mal2, rc_mem := (rc_mem rctx)(?n \<mapsto> r)\<rparr>"
    have title: "\<forall>el \<in> set ?T. el_typed el" using ty by (simp add: table_typed_def)
    have rt: "record_typed ?T r" using read_elements_typed [OF els title] by (simp add: r_def new_record_def record_typed_def)
    have lk1: "links_ok t1"
    proof -
      have new: "rc_mem rctx ?n = None" using lk unfolding links_ok_def by (metis less_irrefl not_None_eq)
      show ?thesis using lk new unfolding links_ok_def t1_def r_def new_record_def by (auto simp: less_Suc_eq)
    qed
    have ty1: "table_typed t1" using ty rt by (auto simp: table_typed_def t1_def)
    obtain t2 where t2: "record_list_add_tail t1 ?n RECORDS = Some t2" "links_ok t2"
        "t2 = t1\<lparr>rc_mem := (rc_mem t1)(?n \<mapsto> r\<lparr>re_on := Some RECORDS\<rparr>), rc_lists := (rc_lists t1)(RECORDS := rc_lists t1 RECORDS @ [?n])\<rparr>"
      using record_list_add_tail_ok [OF lk1, of ?n r RECORDS] by (auto simp: t1_def r_def new_record_def)
    have rt2: "record_typed ?T (r\<lparr>re_on := Some RECORDS\<rparr>)" using rt by (simp add: record_typed_def)
    have m2: "rc_mem t2 = (rc_mem rctx)(?n \<mapsto> r\<lparr>re_on := Some RECORDS\<rparr>)" "rc_title t2 = ?T" unfolding t2(3) by (simp_all add: t1_def)
    have ty2: "table_typed t2" using ty rt2 unfolding table_typed_def m2 by simp
    have "read_record f rctx p = do {
        rctx \<leftarrow> record_list_add_tail t1 ?n RECORDS; u \<leftarrow> uid_column ?T; el \<leftarrow> rd els u;
        rctx \<leftarrow> (if data_null (el_data el) then free_record rctx ?n else Some rctx);
        ptr \<leftarrow> SKIP_UNTIL (rd f) p2 (length f) 41; Some (0, ptr, rctx) }"
      using a Some p1 t els by (simp add: read_record_def new_record_def t1_def r_def)
    then have run2: "(do { u \<leftarrow> uid_column ?T; el \<leftarrow> rd els u;
        rctx \<leftarrow> (if data_null (el_data el) then free_record t2 ?n else Some t2);
        ptr \<leftarrow> SKIP_UNTIL (rd f) p2 (length f) 41; Some (0, ptr, rctx) }) = Some (ret, p', s)"
      using run unfolding t2(1) by (simp only: Option.bind.simps)
    obtain u where u: "uid_column ?T = Some u" using run2 by (cases "uid_column ?T") auto
    obtain el where el: "rd els u = Some el" using run2 u by (cases "rd els u") auto
    obtain t3 where t3: "(if data_null (el_data el) then free_record t2 ?n else Some t2) = Some t3"
      using run2 u el by (cases "if data_null (el_data el) then free_record t2 ?n else Some t2") (simp_all only: Option.bind.simps, simp)
    have "s = t3" using run2 unfolding u Option.bind.simps el t3 by (cases "SKIP_UNTIL (rd f) p2 (length f) 41") auto
    moreover have "links_ok t3 \<and> table_typed t3 \<and> rc_title t3 = ?T"
    proof (cases "data_null (el_data el)")
      case True
      have m: "rc_mem t2 ?n = Some (r\<lparr>re_on := Some RECORDS\<rparr>)" using t2(3) by simp
      have fr: "free_record t2 ?n = Some t3" using t3 True by simp
      obtain t4 where t4: "free_record t2 ?n = Some t4" "links_ok t4" "t4 = t2\<lparr>rc_mem := (rc_mem t2)(?n := None),
          rc_lists := (\<lambda>h. filter (\<lambda>x. x \<noteq> ?n) (rc_lists t2 h)), rc_uid := map (filter (\<lambda>x. x \<noteq> ?n)) (rc_uid t2)\<rparr>"
        using free_record_ok [OF t2(2) m] by blast
      have e: "t3 = t4" using fr t4(1) by simp
      have m4: "rc_mem t4 = (rc_mem rctx)(?n := None)" "rc_title t4 = ?T" unfolding t4(3) by (simp_all add: m2)
      have "table_typed t4" using ty unfolding table_typed_def m4 by simp
      then show ?thesis using t4(2) m4(2) unfolding e by simp
    next
      case False
      then show ?thesis using t3 t2(2) ty2 m2(2) by simp
    qed
    ultimately show ?thesis by (simp add: table_ok_def)
  qed
qed

lemma read_insert_typed:
  assumes "read_insert f rctx p = Some y" and "table_ok rctx"
  shows "table_ok (snd (snd y)) \<and> rc_title (snd (snd y)) = rc_title rctx"
proof -
  have "table_ok rctx \<longrightarrow> table_ok (snd (snd y)) \<and> rc_title (snd (snd y)) = rc_title rctx"
  proof (rule read_insert.raw_induct [where P = "\<lambda>f rctx p y. table_ok rctx \<longrightarrow> table_ok (snd (snd y)) \<and> rc_title (snd (snd y)) = rc_title rctx", OF _ assms(1)])
    fix cc f rctx p y
    assume IH: "\<And>f rctx p y. cc f rctx p = Some y \<Longrightarrow> table_ok rctx \<longrightarrow> table_ok (snd (snd y)) \<and> rc_title (snd (snd y)) = rc_title rctx"
      and run: "read_record f rctx p \<bind> (\<lambda>(ret, p, rctx). if ret < 0 then Some (ret, p, rctx) else if p < length f then rd f p \<bind> (\<lambda>c. if c = 44 then cc f rctx p else Some (0, p, rctx)) else Some (0, p, rctx)) = Some y"
    obtain ret p1 s where r: "read_record f rctx p = Some (ret, p1, s)" using run by (cases "read_record f rctx p") auto
    have y: "y = (ret, p1, s) \<or> y = (0, p1, s) \<or> cc f s p1 = Some y"
      using run r by (auto simp: rd_def split: if_splits)
    show "table_ok rctx \<longrightarrow> table_ok (snd (snd y)) \<and> rc_title (snd (snd y)) = rc_title rctx"
      using read_record_typed [OF r] y IH [of f s p1 y] by auto
  qed
  then show ?thesis using assms(2) by blast
qed

lemma read_all_record_typed_aux:
  assumes "read_all_record io rctx = Some y" and "table_ok rctx"
  shows "table_ok (snd (snd y)) \<and> rc_title (snd (snd y)) = rc_title rctx"
proof -
  have "table_ok rctx \<longrightarrow> table_ok (snd (snd y)) \<and> rc_title (snd (snd y)) = rc_title rctx"
  proof (rule read_all_record.raw_induct [where P = "\<lambda>io rctx y. table_ok rctx \<longrightarrow> table_ok (snd (snd y)) \<and> rc_title (snd (snd y)) = rc_title rctx", OF _ assms(1)])
    fix cc io rctx y
    assume IH: "\<And>io rctx y. cc io rctx = Some y \<Longrightarrow> table_ok rctx \<longrightarrow> table_ok (snd (snd y)) \<and> rc_title (snd (snd y)) = rc_title rctx"
      and run: "(if length (io_buf io) \<le> io_rdptr io + length (chars ''INSERT INTO '') then Some (0, io, rctx)
        else starts (rd (io_buf io)) (io_rdptr io) (chars ''INSERT INTO '') \<bind> (\<lambda>m. if \<not> m then skip_to_next_line io \<bind> (\<lambda>io. cc io rctx)
          else read_insert (io_buf io) rctx (io_rdptr io) \<bind> (\<lambda>(ret, ptr, rctx). if ret < 0 then Some (ret, io, rctx)
            else skip_to_next_line (io\<lparr>io_rdptr := ptr\<rparr>) \<bind> (\<lambda>io. cc io rctx)))) = Some y"
    show "table_ok rctx \<longrightarrow> table_ok (snd (snd y)) \<and> rc_title (snd (snd y)) = rc_title rctx"
    proof (cases "length (io_buf io) \<le> io_rdptr io + length (chars ''INSERT INTO '')")
      case True
      then show ?thesis using run by auto
    next
      case False
      then obtain m where m: "starts (rd (io_buf io)) (io_rdptr io) (chars ''INSERT INTO '') = Some m"
        using run by (cases "starts (rd (io_buf io)) (io_rdptr io) (chars ''INSERT INTO '')") auto
      show ?thesis
      proof (cases m)
        case False
        then obtain io1 where "cc io1 rctx = Some y" using run m \<open>\<not> length (io_buf io) \<le> _\<close> by (cases "skip_to_next_line io") auto
        then show ?thesis by (rule IH)
      next
        case True
        then obtain ret p1 s where i: "read_insert (io_buf io) rctx (io_rdptr io) = Some (ret, p1, s)"
          using run m False by (cases "read_insert (io_buf io) rctx (io_rdptr io)") auto
        have "y = (ret, io, s) \<or> (\<exists>io1. cc io1 s = Some y)"
          using run m False True i by (cases "skip_to_next_line (io\<lparr>io_rdptr := p1\<rparr>)") (auto split: if_splits)
        then show ?thesis using read_insert_typed [OF i] IH by fastforce
      qed
    qed
  qed
  then show ?thesis using assms(2) by blast
qed

section \<open>Totality\<close>

text \<open>An allocation that fails stops \<open>read_element\<close> where it was; otherwise it does the same.\<close>

lemma malloc_block_any:
  "malloc_block [] n = (Some b, []) \<Longrightarrow> \<exists>mal'. malloc_block mal n = (Some b, mal') \<or> malloc_block mal n = (None, mal')"
  by (auto simp: malloc_block_def Let_def split: prod.splits if_splits)

lemma read_element_mal:
  assumes "read_element f [] el p = Some (0, el', p', [])"
  shows "\<exists>mal'. read_element f mal el p = Some (0, el', p', mal') \<or> read_element f mal el p = Some (- ENOMEM, el, p, mal')"
proof (cases "el_type el \<in> {ELEMENT_CHAR, ELEMENT_UCHAR, ELEMENT_TEXT}")
  case False
  then show ?thesis using assms unfolding read_element_def by (auto simp: Let_def split: if_splits bind_splits)
next
  case t: True
  have go: "\<not> (el_type el \<noteq> ELEMENT_TEXT \<and> int (length f) \<le> int p + el_size el)"
    using assms by (auto simp: read_element_def EOF_def split: if_splits)
  obtain n b where b: "malloc_block [] n = (Some b, [])"
    and n: "el_type el \<noteq> ELEMENT_TEXT \<longrightarrow> n = ALIGN4 (el_size el + 1)"
      "\<And>k. el_type el = ELEMENT_TEXT \<Longrightarrow> text_size f (p + 1) 0 = Some k \<Longrightarrow> n = ALIGN4 (int k + 1)"
  proof (cases "el_type el = ELEMENT_TEXT")
    case False
    then show thesis
      using assms t go that [of "ALIGN4 (el_size el + 1)"] unfolding read_element_def if_not_P [OF go]
      by (auto simp: malloc_block_def ENOMEM_def Let_def split: if_splits)
  next
    case True
    then show thesis
      using assms t go that unfolding read_element_def if_not_P [OF go]
      by (auto simp: malloc_block_def ENOMEM_def Let_def split: if_splits bind_splits)
  qed
  obtain mal' where mal': "malloc_block mal n = (Some b, mal') \<or> malloc_block mal n = (None, mal')" using malloc_block_any [OF b] by blast
  show ?thesis
  proof (cases "el_type el = ELEMENT_TEXT")
    case False
    then show ?thesis using assms t b n mal' unfolding read_element_def if_not_P [OF go]
      by (elim disjE) (auto split: bind_splits)
  next
    case True
    then obtain k where k: "text_size f (p + 1) 0 = Some k" using assms by (auto simp: read_element_def split: bind_splits)
    show ?thesis using assms True b n(2) [OF True k] k mal' unfolding read_element_def if_not_P [OF go]
      by (elim disjE) (auto split: bind_splits)
  qed
qed

lemma read_elements_mal:
  assumes "list_all2 cell_ok els cs" and "text_at (rd f) p (show_cells cs @ [x])" and "sep x" and "els \<noteq> []"
    and "\<forall>el \<in> set els. el_type el \<noteq> ELEMENT_TEXT \<longrightarrow> int (p + length (show_cells cs)) + el_size el < int (length f)"
  shows "\<exists>els' p' mal'. read_elements f mal els p = Some (els', p', mal') \<and> length els' = length els
    \<and> p \<le> p' \<and> p' \<le> p + length (show_cells cs) + 1"
  using assms
proof (induction els cs arbitrary: p mal rule: list_all2_induct)
  case Nil
  then show ?case by simp
next
  case (Cons el els c cs)
  note outer = Cons
  show ?case
  proof (cases cs)
    case Nil
    then have els: "els = []" using outer(2) by simp
    have "read_element f [] el p = Some (0, filled el c, p + length (show_cell c) + 1, [])"
      by (rule read_element_cell [OF outer(1) _ outer(5)]) (use outer(4-7) els Nil in auto)
    from read_element_mal [OF this, of mal] show ?thesis using els Nil by (auto simp: ENOMEM_def)
  next
    case (Cons d ds)
    then have ne: "els \<noteq> []" using outer(2) by auto
    have sh: "show_cells (c # cs) = show_cell c @ 44 # show_cells cs" using Cons by simp
    have "read_element f [] el p = Some (0, filled el c, p + length (show_cell c) + 1, [])"
      by (rule read_element_cell [OF outer(1), of f p 44]) (use outer(4-7) sh in \<open>auto simp: sep_def\<close>)
    from read_element_mal [OF this, of mal] obtain mal1 where
      "read_element f mal el p = Some (0, filled el c, p + length (show_cell c) + 1, mal1) \<or> read_element f mal el p = Some (- ENOMEM, el, p, mal1)" by blast
    then show ?thesis
    proof
      assume "read_element f mal el p = Some (- ENOMEM, el, p, mal1)"
      then show ?thesis by (simp add: ENOMEM_def)
    next
      assume e: "read_element f mal el p = Some (0, filled el c, p + length (show_cell c) + 1, mal1)"
      have "\<exists>els' p' mal'. read_elements f mal1 els (p + length (show_cell c) + 1) = Some (els', p', mal') \<and> length els' = length els
          \<and> p + length (show_cell c) + 1 \<le> p' \<and> p' \<le> p + length (show_cell c) + 1 + length (show_cells cs) + 1"
        by (rule outer(3)) (use outer(4-7) sh ne in \<open>auto simp: add.assoc\<close>)
      then show ?thesis unfolding sh using e by auto
    qed
  qed
qed

lemma SKIP_UNTIL_from:
  assumes "text_at (rd f) p (s @ [c])" and "c \<notin> set s" and "p \<le> q" and "q \<le> p + length s"
  shows "SKIP_UNTIL (rd f) q (length f) c = Some (p + length s + 1)"
proof -
  let ?k = "q - p"
  have "text_at (rd f) (p + length (take ?k s)) (drop ?k s @ [c])"
    using assms(1) text_at_append [of "rd f" p "take ?k s" "drop ?k s @ [c]", unfolded append_assoc [symmetric] append_take_drop_id] by blast
  then have "text_at (rd f) q (drop ?k s @ [c])" using assms(3,4) by (simp add: min_absorb2)
  moreover have "c \<notin> set (drop ?k s)" using assms(2) by (meson in_set_dropD)
  ultimately show ?thesis using SKIP_UNTIL_file [of f q "drop ?k s" c] assms(3,4) by simp
qed

text \<open>What \<open>read_record\<close> needs to return, whatever is allocated.\<close>

lemma read_record_total:
  assumes ok: "table_ok rctx" and u: "uid_column (rc_title rctx) = Some u"
    and p1: "SKIP_UNTIL (rd f) p (length f) 40 = Some p1"
    and els: "\<And>mal. \<exists>els p2 mal'. read_elements f mal (rc_title rctx) p1 = Some (els, p2, mal') \<and> length els = length (rc_title rctx) \<and> R p2"
    and R: "\<And>p2. R p2 \<Longrightarrow> \<exists>q. SKIP_UNTIL (rd f) p2 (length f) 41 = Some q \<and> Q q"
  shows "\<exists>ret q s. read_record f rctx p = Some (ret, q, s) \<and> table_ok s \<and> rc_title s = rc_title rctx \<and> (ret = - 1 \<or> ret = 0 \<and> Q q)"
proof -
  let ?T = "rc_title rctx" and ?n = "rc_new rctx"
  have ul: "u < length ?T" using u by (auto simp: uid_column_def split: list.splits dest!: arg_cong [of _ _ rev] arg_cong [of _ _ set])
  obtain ro t where a: "alloc_record rctx = (ro, t)" by fastforce
  have "\<exists>ret q s. read_record f rctx p = Some (ret, q, s) \<and> (ret = - 1 \<or> ret = 0 \<and> Q q)"
  proof (cases ro)
    case None
    then show ?thesis using a by (simp add: read_record_def)
  next
    case (Some re)
    obtain mal where t: "re = ?n" "t = rctx\<lparr>rc_mal := mal, rc_new := Suc ?n, rc_mem := (rc_mem rctx)(?n \<mapsto> new_record ?T ?T)\<rparr>"
      using alloc_record_Some a Some by blast
    obtain els p2 mal2 where els: "read_elements f mal ?T p1 = Some (els, p2, mal2)" "length els = length ?T" "R p2" using els by blast
    obtain q where q: "SKIP_UNTIL (rd f) p2 (length f) 41 = Some q" "Q q" using R [OF els(3)] by blast
    define r where "r = new_record ?T els"
    define t1 where "t1 = rctx\<lparr>rc_new := Suc ?n, rc_mal := mal2, rc_mem := (rc_mem rctx)(?n \<mapsto> r)\<rparr>"
    have lk: "links_ok rctx" using ok by (simp add: table_ok_def)
    have new: "rc_mem rctx ?n = None" using lk unfolding links_ok_def by (metis less_irrefl not_None_eq)
    have lk1: "links_ok t1" using lk new unfolding links_ok_def t1_def r_def new_record_def by (auto simp: less_Suc_eq)
    obtain t2 where t2: "record_list_add_tail t1 ?n RECORDS = Some t2" "links_ok t2" "rc_mem t2 ?n = Some (r\<lparr>re_on := Some RECORDS\<rparr>)"
      using record_list_add_tail_ok [OF lk1, of ?n r RECORDS] by (auto simp: t1_def r_def new_record_def)
    obtain t4 where t4: "free_record t2 ?n = Some t4" using free_record_ok [OF t2(2,3)] by blast
    have "read_record f rctx p = do {
        rctx \<leftarrow> record_list_add_tail t1 ?n RECORDS; u \<leftarrow> uid_column ?T; el \<leftarrow> rd els u;
        rctx \<leftarrow> (if data_null (el_data el) then free_record rctx ?n else Some rctx);
        ptr \<leftarrow> SKIP_UNTIL (rd f) p2 (length f) 41; Some (0, ptr, rctx) }"
      using a Some p1 t els(1) by (simp add: read_record_def new_record_def t1_def r_def)
    moreover have "rd els u = Some (els ! u)" using ul els(2) by (simp add: rd_def)
    ultimately show ?thesis using t2(1) u q t4 by (cases "data_null (el_data (els ! u))") simp_all
  qed
  then show ?thesis using read_record_typed [OF _ ok] by blast
qed

text \<open>A row, whatever of it can be stored: it ends behind one of the next two closing parentheses, or at the end.\<close>

definition rows_plain :: "element list \<Rightarrow> row list \<Rightarrow> bool" where
  "rows_plain title rows \<longleftrightarrow> (\<forall>(cs, t) \<in> set rows. row_ok title cs \<and> 41 \<notin> set (show_cells cs) \<and> 41 \<notin> set (butlast (row_end t)))"

lemma row_end_last: "\<exists>m x. row_end t = m @ [41] \<and> m = butlast (row_end t) \<and> sep x \<and> [x] = take 1 (row_end t)"
  by (cases t) (auto simp: row_end_def butlast_append sep_def)

lemma read_record_any:
  assumes ok: "table_ok rctx" and rows: "rows_plain (rc_title rctx) ((cs, t) # rows)"
    and tx: "text_at (rd f) p (rows_text pre ((cs, t) # rows) @ rest)" and e: "p + length (rows_text pre ((cs, t) # rows) @ rest) = length f"
    and rest: "rest \<noteq> []" "41 \<notin> set rest" and pre: "40 \<notin> set pre"
    and room: "room f (rc_title rctx) (p + length (rows_text pre ((cs, t) # rows)))"
  shows "\<exists>ret q s. read_record f rctx p = Some (ret, q, s) \<and> table_ok s \<and> rc_title s = rc_title rctx
    \<and> (ret = - 1 \<or> ret = 0 \<and> (q = length f \<or> (\<exists>left_rows. left_rows \<in> {rows, tl rows}
         \<and> text_at (rd f) q (rows_text [44] left_rows @ rest) \<and> q + length (rows_text [44] left_rows @ rest) = length f)))"
proof -
  let ?T = "rc_title rctx"
  have row: "row_ok ?T cs" "41 \<notin> set (show_cells cs)" "41 \<notin> set (butlast (row_end t))" using rows by (auto simp: rows_plain_def)
  obtain u where u: "uid_column ?T = Some u" "u < length ?T" and cells: "list_all2 cell_ok ?T cs" using row(1) unfolding row_ok_def by blast
  have ne: "?T \<noteq> []" using u(2) by auto
  obtain m x where m: "row_end t = m @ [41]" "m = butlast (row_end t)" "sep x" "[x] = take 1 (row_end t)" using row_end_last by blast
  let ?p = "p + length pre + 1" and ?n = "length (show_cells cs)"
  let ?q = "?p + ?n + length m + 1"
  have tx1: "text_at (rd f) p (pre @ [40])" "text_at (rd f) ?p ((show_cells cs @ m) @ [41])" "text_at (rd f) ?q (rows_text [44] rows @ rest)"
    using tx m(1) by (simp_all add: add.assoc add.left_commute)
  have tx2: "text_at (rd f) ?p (show_cells cs @ [x])"
  proof -
    obtain ys where "row_end t = x # ys" using m(4) by (cases "row_end t") auto
    then show ?thesis using tx by (simp add: add.assoc)
  qed
  have e1: "?q + length (rows_text [44] rows @ rest) = length f" using e m(1) by simp
  have s1: "SKIP_UNTIL (rd f) p (length f) 40 = Some ?p" using SKIP_UNTIL_file [OF tx1(1) pre] by simp
  have rm: "\<forall>el \<in> set ?T. el_type el \<noteq> ELEMENT_TEXT \<longrightarrow> int (?p + ?n) + el_size el < int (length f)"
    using room unfolding room_def by fastforce
  let ?Q = "\<lambda>q. q = length f \<or> (\<exists>left_rows. left_rows \<in> {rows, tl rows}
         \<and> text_at (rd f) q (rows_text [44] left_rows @ rest) \<and> q + length (rows_text [44] left_rows @ rest) = length f)"
  show ?thesis
  proof (rule read_record_total [OF ok u(1) s1, where R = "\<lambda>p2. ?p \<le> p2 \<and> p2 \<le> ?p + ?n + 1" and Q = ?Q])
    show "\<exists>els p2 mal'. read_elements f mal ?T ?p = Some (els, p2, mal') \<and> length els = length ?T \<and> ?p \<le> p2 \<and> p2 \<le> ?p + ?n + 1" for mal
      using read_elements_mal [OF cells tx2 m(3) ne rm] .
    fix p2 assume p2: "?p \<le> p2 \<and> p2 \<le> ?p + ?n + 1"
    show "\<exists>q. SKIP_UNTIL (rd f) p2 (length f) 41 = Some q \<and> ?Q q"
    proof (cases "p2 \<le> ?p + length (show_cells cs @ m)")
      case True
      have "41 \<notin> set (show_cells cs @ m)" using row(2,3) m(2) by simp
      then have "SKIP_UNTIL (rd f) p2 (length f) 41 = Some ?q" using SKIP_UNTIL_from [OF tx1(2)] p2 True by simp
      then show ?thesis using tx1(3) e1 by blast
    next
      case False
      then have at: "p2 = ?q" using p2 by simp
      show ?thesis
      proof (cases rows)
        case Nil
        have "SKIP_UNTIL (rd f) p2 (length f) 41 = Some (length f)"
          by (rule SKIP_UNTIL_none [where s = rest]) (use tx1(3) e1 rest Nil at in simp_all)
        then show ?thesis by blast
      next
        case (Cons r2 rows2)
        obtain cs2 t2 where r2: "r2 = (cs2, t2)" by (cases r2)
        obtain m2 where m2: "row_end t2 = m2 @ [41]" "m2 = butlast (row_end t2)" using row_end_last by blast
        let ?mid = "44 # 40 # show_cells cs2 @ m2"
        have "41 \<notin> set ?mid" using rows Cons r2 m2(2) by (auto simp: rows_plain_def)
        moreover have t2: "text_at (rd f) ?q ((?mid @ [41]) @ rows_text [44] rows2 @ rest)" using tx1(3) Cons r2 m2(1) by simp
        ultimately have "SKIP_UNTIL (rd f) p2 (length f) 41 = Some (?q + length ?mid + 1)"
          using SKIP_UNTIL_file [of f ?q ?mid 41] at unfolding text_at_append by blast
        moreover have "text_at (rd f) (?q + length ?mid + 1) (rows_text [44] (tl rows) @ rest)" 
          using t2 Cons unfolding text_at_append by (simp add: add.assoc)
        moreover have "?q + length ?mid + 1 + length (rows_text [44] (tl rows) @ rest) = length f" using e1 Cons r2 m2(1) by simp
        ultimately show ?thesis by blast
      qed
    qed
  qed
qed

lemma read_insert_any:
  assumes "table_ok rctx" and "rows \<noteq> []" and "rows_plain (rc_title rctx) rows"
    and "text_at (rd f) p (rows_text pre rows @ rest)" and "p + length (rows_text pre rows @ rest) = length f"
    and "rest \<noteq> []" and "take 1 rest \<noteq> [44]" and "41 \<notin> set rest" and "40 \<notin> set pre"
    and "room f (rc_title rctx) (length f - length rest)"
  shows "\<exists>ret q s. read_insert f rctx p = Some (ret, q, s) \<and> table_ok s \<and> rc_title s = rc_title rctx
    \<and> (ret = - 1 \<or> ret = 0 \<and> (q = length f \<or> q + length rest = length f))"
  using assms
proof (induction rows arbitrary: rctx p pre rule: length_induct)
  case (1 rows)
  obtain cs t rows1 where rows: "rows = (cs, t) # rows1" using "1.prems"(2) by (cases rows) auto
  have at: "length f - length rest = p + length (rows_text pre rows)" using "1.prems"(5) by simp
  obtain ret q s where rec: "read_record f rctx p = Some (ret, q, s)" and s: "table_ok s" "rc_title s = rc_title rctx"
    and q: "ret = - 1 \<or> ret = 0 \<and> (q = length f \<or> (\<exists>left_rows. left_rows \<in> {rows1, tl rows1}
         \<and> text_at (rd f) q (rows_text [44] left_rows @ rest) \<and> q + length (rows_text [44] left_rows @ rest) = length f))"
    using read_record_any [OF "1.prems"(1) "1.prems"(3-5,6,8,9,10) [unfolded rows at]] rows by blast
  from q consider (no) "ret = - 1" | (eof) "ret = 0" "q = length f"
    | (go) left_rows where "ret = 0" "left_rows \<in> {rows1, tl rows1}" "text_at (rd f) q (rows_text [44] left_rows @ rest)"
        "q + length (rows_text [44] left_rows @ rest) = length f" by blast
  then show ?case
  proof cases
    case no
    then show ?thesis using rec s by (subst read_insert.simps) simp
  next
    case eof
    then show ?thesis using rec s by (subst read_insert.simps) simp
  next
    case (go left_rows)
    show ?thesis
    proof (cases left_rows)
      case Nil
      then obtain c ys where c: "rest = c # ys" "c \<noteq> 44" using "1.prems"(6,7) by (cases rest) auto
      then have "q < length f" "rd f q = Some c" using text_at_bound [OF go(3)] go(3) Nil by auto
      then show ?thesis using rec s go Nil c(2) by (subst read_insert.simps) simp
    next
      case (Cons r2 rows2)
      obtain ys where "rows_text [44] left_rows @ rest = 44 # ys" unfolding Cons by (cases r2) simp
      then have c: "q < length f" "rd f q = Some 44" using text_at_bound [OF go(3)] go(3) by auto
      have "length left_rows < length rows" "left_rows \<noteq> []" using go(2) rows Cons by (cases rows1; auto)+
      moreover have "rows_plain (rc_title s) left_rows"
        using "1.prems"(3) go(2) rows s(2) by (cases rows1) (auto simp: rows_plain_def)
      ultimately have "\<exists>ret q' s'. read_insert f s q = Some (ret, q', s') \<and> table_ok s' \<and> rc_title s' = rc_title s
          \<and> (ret = - 1 \<or> ret = 0 \<and> (q' = length f \<or> q' + length rest = length f))"
        using "1.IH" [rule_format, of left_rows s q "[44]"] s "1.prems"(6-8,10) go(3,4) by simp
      then show ?thesis using rec s(2) go(1) c by (subst read_insert.simps) simp
    qed
  qed
qed

section \<open>Columns\<close>

lemma name_size_text:
  assumes "text_at g (p + n) s" and "96 \<notin> set s" and "p + n + length s < e \<longrightarrow> g (p + n + length s) = Some 96" and "p + n + length s \<le> e"
  shows "name_size g p e n = Some (n + length s)"
  using assms
proof (induction s arbitrary: n)
  case Nil
  then show ?case by (subst name_size.simps) auto
next
  case (Cons c s)
  have "name_size g p e n = name_size g p e (n + 1)" using Cons.prems by (subst name_size.simps) auto
  then show ?case using Cons by simp
qed

lemma copy_name_text:
  assumes "text_at g p (s @ [96])" and "96 \<notin> set s" and "k + length s \<le> length b"
  shows "copy_name g p k b = Some (p + length s, k + length s, blit b k (map Some s))"
  using assms
proof (induction s arbitrary: p k b)
  case Nil
  then show ?case by (subst copy_name.simps) simp
next
  case (Cons c s)
  have k: "k < length b" using Cons.prems(3) by simp
  have st: "copy_name g p k b = copy_name g (Suc p) (Suc k) (blit b k [Some c])"
    using Cons.prems k by (subst copy_name.simps) (auto simp: wrc_def wr_eq blit_def upd_conv_take_nth_drop)
  have bl: "blit (blit b k [Some c]) (Suc k) (map Some s) = blit b k (map Some (c # s))"
    using blit_append [of k "[Some c]" "map Some s" b] Cons.prems(3) by simp
  have "copy_name g (Suc p) (Suc k) (blit b k [Some c]) = Some (Suc p + length s, Suc k + length s, blit (blit b k [Some c]) (Suc k) (map Some s))"
    by (rule Cons.IH) (use Cons.prems k in auto)
  then show ?case unfolding st bl by simp
qed

lemma copy_name_overflow:
  assumes "\<forall>i < length b - k. g (p + i) \<noteq> Some 96" and "g (p + (length b - k)) \<noteq> Some 96" and "k \<le> length b"
  shows "copy_name g p k b = None"
  using assms
proof (induction "length b - k" arbitrary: p k b)
  case 0
  then show ?case by (subst copy_name.simps) (auto simp: wrc_def wr_def split: bind_splits)
next
  case (Suc n)
  show ?case
  proof (cases "g p")
    case None
    then show ?thesis by (subst copy_name.simps) simp
  next
    case (Some c)
    have c: "c \<noteq> 96" using Suc.prems(1) Suc.hyps(2) Some by (metis add_0_right zero_less_Suc)
    have k: "k < length b" using Suc.hyps(2) by simp
    have "copy_name g (p + 1) (k + 1) (b[k := Some c]) = None"
    proof (rule Suc.hyps(1))
      show "\<forall>i < length (b[k := Some c]) - (k + 1). g (p + 1 + i) \<noteq> Some 96"
      proof (intro allI impI)
        fix i assume "i < length (b[k := Some c]) - (k + 1)"
        then have "Suc i < length b - k" by simp
        from Suc.prems(1) [rule_format, OF this] show "g (p + 1 + i) \<noteq> Some 96" by simp
      qed
      show "g (p + 1 + (length (b[k := Some c]) - (k + 1))) \<noteq> Some 96" using Suc.prems(2) k by (simp add: Suc_diff_Suc)
    qed (use Suc.hyps(2) k in auto)
    then show ?thesis using Some c k by (subst copy_name.simps) (simp add: wrc_def wr_eq)
  qed
qed

lemma read_table_string_name:
  assumes t: "text_at g p (replicate k 32 @ 96 # name @ [96])" and name: "96 \<notin> set name" and e: "p + k + length name + 2 \<le> e"
  shows "read_table_string [] g p e = Some (Some (str_block (int (length name)) name), p + k + length name + 2, [])"
proof -
  have s1: "SKIP_SPACE g p e = Some (p + k)" by (rule SKIP_SPACE_text [where c = 96]) (use t e in auto)
  have s2: "name_size g (p + k + 1) e 0 = Some (0 + length name)" by (rule name_size_text) (use t name e in auto)
  let ?b = "replicate (nat (ALIGN4 (int (length name) + 1))) (None :: byte option)"
  have len: "length name + 1 \<le> nat (ALIGN4 (int (length name) + 1))" by (rule str_block_eq(2)) simp
  have s3: "copy_name g (p + k + 1) 0 ?b = Some (p + k + 1 + length name, length name, blit ?b 0 (map Some name))"
    using copy_name_text [of g "p + k + 1" name 0 ?b] t name len by simp
  have s4: "wrc (blit ?b 0 (map Some name)) (length name) 0 = Some (str_block (int (length name)) name)"
    using blit_end [of name ?b] str_block_eq(1) [of name "int (length name)"] len by simp
  have m: "malloc_block [] (ALIGN4 (int (length name) + 1)) = (Some ?b, [])" using len by (simp add: malloc_block_def)
  have g: "g (p + k) = Some 96" "p + k < e" "p + k + 1 < e" using t e by auto
  show ?thesis using g s2 m s3 s4 unfolding read_table_string_def s1 by simp
qed

text \<open>The sized types, their numbers, and the size and signedness behind them.\<close>

lemma type_texts: "chars ''char'' = [99, 104, 97, 114]" "chars ''smallint'' = [115, 109, 97, 108, 108, 105, 110, 116]"
  "chars ''int'' = [105, 110, 116]" "chars ''bigint'' = [98, 105, 103, 105, 110, 116]"
  "chars ''char unsigned'' = [99, 104, 97, 114, 32, 117, 110, 115, 105, 103, 110, 101, 100]"
  "chars ''smallint unsigned'' = [115, 109, 97, 108, 108, 105, 110, 116, 32, 117, 110, 115, 105, 103, 110, 101, 100]"
  "chars ''int unsigned'' = [105, 110, 116, 32, 117, 110, 115, 105, 103, 110, 101, 100]"
  "chars ''bigint unsigned'' = [98, 105, 103, 105, 110, 116, 32, 117, 110, 115, 105, 103, 110, 101, 100]"
  "chars ''binary'' = [98, 105, 110, 97, 114, 121]" "chars ''text'' = [116, 101, 120, 116]" "chars ''unsigned'' = [117, 110, 115, 105, 103, 110, 101, 100]"
  by (simp_all add: chars_def of_char_def)

definition sized_types :: "(byte list \<times> nat) list" where
  "sized_types = [(chars ''char'', 0), (chars ''smallint'', 2), (chars ''int'', 4), (chars ''bigint'', 6)]"

lemma find_type_sized:
  assumes "(s, i) \<in> set sized_types" and "text_at g p s"
  shows "find_type g p 0 element_types = Some (i, length s)"
  using assms unfolding sized_types_def element_types_def by (auto simp: type_texts)

lemma to_int_small: "n < 2 ^ 31 \<Longrightarrow> to_int (int n) = int n"
proof -
  assume "n < 2 ^ 31"
  then have "int n < 2 ^ 31" by (metis of_nat_less_iff of_nat_numeral of_nat_power)
  then show "to_int (int n) = int n" by (simp add: to_int_def signed_of_nat signed_take_bit_int_eq_self)
qed

lemma read_type_sized:
  assumes s: "(s, i) \<in> set sized_types" and n: "n < 2 ^ 31" and c: "c \<noteq> 32" "c \<noteq> 117"
    and t: "text_at g p (s @ 40 # dec n @ 41 # (if uns then 32 # chars ''unsigned'' else [c]))" and e: "p + length s + length (dec n) + 3 < e"
  shows "read_type g p e = Some (if uns then i + 1 else i, int n)"
proof -
  have i: "\<not> length element_types \<le> i" using s by (auto simp: sized_types_def element_types_def)
  have f: "find_type g p 0 element_types = Some (i, length s)" by (rule find_type_sized [OF s]) (use t in simp)
  have g: "g (p + length s) = Some 40" using t by simp
  have d: "\<not> isdigit 41" "tolower 41 \<noteq> 120" using sep_facts [of 41] by (simp_all add: sep_def)
  have num: "c_strtoll g (p + length s + 1) = Some (int n, p + length s + 1 + length (dec n))"
    using c_strtoll_dec [of g "p + length s + 1" False n 41] t d n by simp
  obtain q where q: "q = p + length s + 1 + length (dec n) + 1" by blast
  have tq: "text_at g q (if uns then 32 # chars ''unsigned'' else [c])" using t q by (cases uns) (simp_all add: ac_simps)
  obtain q' where sp: "SKIP_SPACE g q e = Some q'" and u: "starts g q' (chars ''unsigned'') = Some uns"
  proof (cases uns)
    case True
    have "text_at g q (replicate 1 32 @ [117])" using tq True by (simp add: type_texts)
    then have "SKIP_SPACE g q e = Some (q + 1)" by (rule SKIP_SPACE_text) (use e q in simp_all)
    moreover have "text_at g (q + 1) (chars ''unsigned'')" using tq True by simp
    then have "starts g (q + 1) (chars ''unsigned'') = Some uns" unfolding eqTrueI [OF True] by (rule starts_text)
    ultimately show thesis by (rule that)
  next
    case False
    have gq: "g q = Some c" using tq False by simp
    have "SKIP_SPACE g q e = Some q" using gq c(1) by (subst SKIP_SPACE.simps) simp
    moreover have "starts g q (chars ''unsigned'') = Some uns" using False gq c(2) by (simp add: type_texts)
    ultimately show thesis by (rule that)
  qed
  have "read_type g p e = Some (if uns then i + 1 else i, to_int (int n))"
    using g num i sp u q unfolding read_type_def f by simp
  then show ?thesis using to_int_small [OF n] by simp
qed

section \<open>Properties\<close>

text \<open>
  \<open>read_line\<close> hands out the characters up to the end of the line or as many as the buffer
  holds, terminated, and writes nothing else; it moves the read pointer one character behind what
  it handed out. Where the line is longer than the buffer that character is not an end of line, so
  it is lost.
\<close>

theorem read_line_takes_line:
  assumes "io_rdptr io < length (io_buf io)" and "0 < lim" and "lim \<le> length buf"
  shows "\<exists>line. line = takeWhile (\<lambda>c. c \<noteq> 10 \<and> c \<noteq> 13) (take (lim - 1) (drop (io_rdptr io) (io_buf io)))
    \<and> read_line io buf lim = Some (int (length line), io\<lparr>io_rdptr := io_rdptr io + length line + 1\<rparr>, map Some (line @ [0]) @ drop (length line + 1) buf)"
  using read_line_eq [OF assms refl] by (simp add: eol_def blit_def)

lemma read_line_takes_line_witness:
  "\<exists>line. line = takeWhile (\<lambda>c. c \<noteq> 10 \<and> c \<noteq> 13) (take 3 [97, 98, 99, 100, 10 :: byte])
    \<and> read_line \<lparr>io_buf = [97, 98, 99, 100, 10], io_rdptr = 0\<rparr> [None, None, None, None] 4
       = Some (int (length line), \<lparr>io_buf = [97, 98, 99, 100, 10], io_rdptr = length line + 1\<rparr>, map Some (line @ [0]) @ drop (length line + 1) [None, None, None, None])"
  using read_line_takes_line [of "\<lparr>io_buf = [97, 98, 99, 100, 10], io_rdptr = 0\<rparr>" 4 "[None, None, None, None]"] by simp

text \<open>
  A column of a sized type is read with its name, its type and its size, \<open>unsigned\<close> turning
  the type into the next one.
\<close>

theorem read_column_reads:
  assumes "(s, i) \<in> set sized_types" and "n < 2 ^ 31" and "c \<noteq> 32" and "c \<noteq> 117" and "96 \<notin> set name" and "0 \<notin> set name"
    and "text_at (rdc buf) 0 (replicate k 32 @ 96 # name @ 96 # 32 # s @ 40 # dec n @ 41 # (if uns then 32 # chars ''unsigned'' else [c]))"
    and "k + length name + 3 + length s + length (dec n) + 3 < e"
  shows "read_column [] buf e = Some (Some \<lparr>el_data = Bits 0, el_name = name, el_type = type_number ! (if uns then i + 1 else i), el_size = int n\<rparr>, [])"
proof -
  have nm: "read_table_string [] (rdc buf) 0 e = Some (Some (str_block (int (length name)) name), k + length name + 2, [])"
    using read_table_string_name [of "rdc buf" 0 k name e] assms(5,7,8) by simp
  obtain d ds where d: "s = d # ds" "d \<noteq> 32" using assms(1) unfolding sized_types_def by (auto simp: type_texts)
  obtain q where q: "q = k + length name + 2" by blast
  have tq: "text_at (rdc buf) q (32 # s @ 40 # dec n @ 41 # (if uns then 32 # chars ''unsigned'' else [c]))" using assms(7) q by (simp add: ac_simps)
  have sp: "SKIP_SPACE (rdc buf) q e = Some (q + 1)"
    by (rule SKIP_SPACE_text [where c = d]) (use tq d assms(8) q in auto)
  have ty: "read_type (rdc buf) (q + 1) e = Some (if uns then i + 1 else i, int n)"
    by (rule read_type_sized [OF assms(1-4)]) (use tq assms(8) q in auto)
  have i: "\<not> length element_types \<le> (if uns then i + 1 else i)" using assms(1) by (auto simp: sized_types_def element_types_def)
  show ?thesis unfolding read_column_def nm using assms(8) sp ty i q cstr_str_block [OF assms(6)] by (simp del: One_nat_def)
qed

text \<open>
  A column name with no closing quote makes \<open>read_table_string\<close> write past the block it
  allocated: the size is bounded by the end of the line, the copy is not.
\<close>

theorem unterminated_name_overflows:
  assumes "g p = Some 96" and "e = p + 1 + length s" and "s \<noteq> []" and "text_at g (p + 1) s" and "96 \<notin> set s"
    and "\<forall>i \<le> nat (ALIGN4 (int (length s) + 1)). g (p + 1 + i) \<noteq> Some 96"
  shows "read_table_string [] g p e = None"
proof -
  have s1: "SKIP_SPACE g p e = Some p" using assms(1) by (subst SKIP_SPACE.simps) simp
  have s2: "name_size g (p + 1) e 0 = Some (0 + length s)" by (rule name_size_text) (use assms in auto)
  let ?b = "replicate (nat (ALIGN4 (int (length s) + 1))) (None :: byte option)"
  have len: "length s + 1 \<le> nat (ALIGN4 (int (length s) + 1))" by (rule str_block_eq(2)) simp
  have s3: "copy_name g (p + 1) 0 ?b = None" by (rule copy_name_overflow) (use assms(6) in auto)
  have m: "malloc_block [] (ALIGN4 (int (length s) + 1)) = (Some ?b, [])" using len by (simp add: malloc_block_def)
  show ?thesis unfolding read_table_string_def s1 using assms(1-3) s2 s3 m by simp
qed

text \<open>
  C10. A statement of a dump is read back. Each of its rows gives cells for the columns of the table
  and then either the text of further, unread columns or the closing parenthesis. Then
  \<open>read_all_record\<close> makes one record for each of the rows \<open>rows_read rows\<close>, in their order, appended to
  the list, with every element holding the number or the text the row gives. Where all rows have
  unread columns these are all rows; where none has, so that all columns of the dump are read,
  they are only every second one, the first, the third and so on: the code then passes the closing
  parenthesis with the last cell and looks for the next one, which is that of the next row. The
  cells are read whatever their number and order; assumed are allocations that succeed, no closing
  parenthesis in unread text (nor in a cell, where a row has no unread columns), one
  statement, and a comment line behind it as long as the widest fixed column.
\<close>

theorem read_all_record_reads_rows:
  assumes "rc_mal rctx = []" and "io_buf io = before @ rows_text (chars ''INSERT INTO '' @ into) rows @ 59 # 10 # comment"
    and "io_rdptr io = length before" and "rows \<noteq> []" and "rows_ok (rc_title rctx) rows"
    and "40 \<notin> set into" and "\<forall>c \<in> set comment. \<not> eol c \<and> c \<noteq> 41" and "take 1 comment \<noteq> [73]"
    and "\<forall>el \<in> set (rc_title rctx). el_type el \<noteq> ELEMENT_TEXT \<longrightarrow> el_size el < 2 + int (length comment)"
  shows "(\<exists>io' s. read_all_record io rctx = Some (0, io', s)
      \<and> rc_lists s RECORDS = rc_lists rctx RECORDS @ [rc_new rctx..<rc_new rctx + length (rows_read rows)]
      \<and> (\<forall>i < length (rows_read rows). rc_mem s (rc_new rctx + i) = Some \<lparr>re_data = map2 filled (rc_title rctx) (fst (rows_read rows ! i)),
           re_uid = uid_column (rc_title rctx), re_key = None, re_on = Some RECORDS, re_bucket = None\<rparr>))
    \<and> ((\<forall>(cs, t) \<in> set rows. t \<noteq> None) \<longrightarrow> rows_read rows = rows)
    \<and> ((\<forall>(cs, t) \<in> set rows. t = None) \<longrightarrow> length (rows_read rows) = (length rows + 1) div 2
         \<and> (\<forall>i < length (rows_read rows). rows_read rows ! i = rows ! (2 * i)))"
proof (intro conjI impI)
  let ?r = "rows_read rows"
  let ?s = "fold (\<lambda>r s. add_row s (fst r)) ?r rctx"
  obtain io' where "read_all_record io rctx = Some (0, io', ?s)" using read_all_record_statement [OF assms] by blast
  moreover have "rc_lists ?s RECORDS = rc_lists rctx RECORDS @ [rc_new rctx..<rc_new rctx + length ?r]"
    using fold_add_row [of ?r rctx] by simp
  moreover have "\<forall>i < length ?r. rc_mem ?s (rc_new rctx + i) = Some \<lparr>re_data = map2 filled (rc_title rctx) (fst (?r ! i)),
      re_uid = uid_column (rc_title rctx), re_key = None, re_on = Some RECORDS, re_bucket = None\<rparr>"
    using fold_add_row [of ?r rctx] by (simp add: new_record_def)
  ultimately show "\<exists>io' s. read_all_record io rctx = Some (0, io', s)
      \<and> rc_lists s RECORDS = rc_lists rctx RECORDS @ [rc_new rctx..<rc_new rctx + length ?r]
      \<and> (\<forall>i < length ?r. rc_mem s (rc_new rctx + i) = Some \<lparr>re_data = map2 filled (rc_title rctx) (fst (?r ! i)),
           re_uid = uid_column (rc_title rctx), re_key = None, re_on = Some RECORDS, re_bucket = None\<rparr>)" by blast
qed (use rows_read_open rows_read_complete in blast)+

text \<open>
  Where every column of the table is read, the pointer already is behind the closing
  parenthesis when \<open>read_record\<close> goes looking for it, so it skips the row that follows: of the
  rows of a statement every second one is lost.
\<close>

theorem complete_row_skips_next:
  assumes "rc_mal rctx = []" and "row_ok (rc_title rctx) cs" and "40 \<notin> set pre" and "41 \<notin> set row2"
    and "text_at (rd f) p (pre @ 40 # show_cells cs @ 41 # (44 # 40 # row2) @ [41])"
    and "room f (rc_title rctx) (p + length pre + 1 + length (show_cells cs))"
  shows "\<exists>s. read_record f rctx p = Some (0, p + length (pre @ 40 # show_cells cs @ 41 # (44 # 40 # row2) @ [41]), s)
    \<and> rc_lists s RECORDS = rc_lists rctx RECORDS @ [rc_new rctx]"
proof -
  have "read_record f rctx p = Some (0, p + length (pre @ 40 # show_cells cs @ 41 # (44 # 40 # row2) @ [41]), add_row rctx cs)"
    by (rule read_record_row) (use assms in \<open>auto simp: sep_def\<close>)
  then show ?thesis by (simp add: add_row_def)
qed

text \<open>
  C23. Whichever allocations fail, reading a statement of a dump returns (0, or -1 when a record
  cannot be allocated) and leaves the records well typed: the records in memory have the columns of
  the table, in order; a number column holds a number, a text column a null pointer or a terminated
  string; and the lists agree with the records' links, so that what was read can be listed and freed.
  The statement is of the form of the property on reading rows, with no closing parenthesis inside a cell;
  an input of another form (a quote that is not closed, a table without a column named uid) may make
  the code read past the file or a null pointer, and is not covered.
\<close>

theorem read_all_record_well_typed:
  assumes "links_ok rctx" and "table_typed rctx"
    and "io_buf io = before @ rows_text (chars ''INSERT INTO '' @ into) rows @ 59 # 10 # comment"
    and "io_rdptr io = length before" and "rows \<noteq> []" and "rows_plain (rc_title rctx) rows"
    and "40 \<notin> set into" and "\<forall>c \<in> set comment. \<not> eol c \<and> c \<noteq> 41" and "take 1 comment \<noteq> [73]"
    and "\<forall>el \<in> set (rc_title rctx). el_type el \<noteq> ELEMENT_TEXT \<longrightarrow> el_size el < 2 + int (length comment)"
  shows "\<exists>ret io' s. read_all_record io rctx = Some (ret, io', s) \<and> ret \<in> {0, - 1}
    \<and> links_ok s \<and> table_typed s \<and> rc_title s = rc_title rctx"
proof -
  let ?f = "io_buf io" and ?pre = "chars ''INSERT INTO '' @ into" and ?rest = "59 # 10 # comment"
  have t: "text_at (rd ?f) (length before) (rows_text ?pre rows @ ?rest)"
    using text_at_rd [of before "rows_text ?pre rows @ ?rest" "[]"] assms(3) by simp
  have pre40: "40 \<notin> set ?pre" using assms(7) by (simp add: insert_txt)
  have ok: "table_ok rctx" using assms(1,2) by (simp add: table_ok_def)
  have rm: "room ?f (rc_title rctx) (length ?f - length ?rest)" using assms(3,10) by (auto simp: room_def)
  obtain ret q s where ins: "read_insert ?f rctx (length before) = Some (ret, q, s)" and s: "table_ok s" "rc_title s = rc_title rctx"
    and q: "ret = - 1 \<or> ret = 0 \<and> (q = length ?f \<or> q + length ?rest = length ?f)"
    using read_insert_any [OF ok assms(5,6) t _ _ _ _ pre40 rm] assms(3,8) by auto
  have step: "read_all_record io rctx = (if ret < 0 then Some (ret, io, s)
      else Option.bind (skip_to_next_line (io\<lparr>io_rdptr := q\<rparr>)) (\<lambda>io. read_all_record io s))"
    unfolding read_all_record_enters [OF assms(3-5)] ins by simp
  have "\<exists>ret io'. read_all_record io rctx = Some (ret, io', s) \<and> ret \<in> {0, - 1}"
  proof (cases "ret = - 1")
    case True
    then show ?thesis using step by simp
  next
    case False
    then have "ret = 0" "q = length (before @ rows_text ?pre rows) \<or> q = length ?f" using q assms(3) by auto
    then show ?thesis using step read_all_record_done [of io "before @ rows_text ?pre rows" comment q s] assms(3,8,9) by auto
  qed
  then show ?thesis using s by (auto simp: table_ok_def)
qed

section \<open>Witnesses\<close>

lemma text_at_self: "text_at (rdc (map Some s)) 0 s"
  using text_at_rd [of "[]" s "[]"] by (simp add: text_at_def)

lemma read_column_reads_witness:
  "read_column [] (map Some ([32, 96, 105, 100, 96, 32] @ chars ''int'' @ 40 # dec 20 @ 41 # 32 # chars ''unsigned'')) 100
     = Some (Some \<lparr>el_data = Bits 0, el_name = [105, 100], el_type = ELEMENT_UINT, el_size = 20\<rparr>, [])"
proof -
  let ?t = "[32, 96, 105, 100, 96, 32] @ chars ''int'' @ 40 # dec 20 @ 41 # 32 # chars ''unsigned''"
  have d: "dec 20 = [50, 48]" by code_simp
  have eq: "?t = replicate 1 32 @ 96 # [105, 100] @ 96 # 32 # chars ''int'' @ 40 # dec 20 @ 41 # (if True then 32 # chars ''unsigned'' else [0])" by simp
  have t: "text_at (rdc (map Some ?t)) 0 (replicate 1 32 @ 96 # [105, 100] @ 96 # 32 # chars ''int'' @ 40 # dec 20 @ 41 # (if True then 32 # chars ''unsigned'' else [0]))"
    unfolding eq by (rule text_at_self)
  show ?thesis
    using read_column_reads [of "chars ''int''" 4 20 0 "[105, 100]" "map Some ?t" 1 True 100, OF _ _ _ _ _ _ t]
    by (simp add: sized_types_def type_number_def d type_texts)
qed

lemma unterminated_name_overflows_witness:
  "read_table_string [] (rdc (map Some [96, 97, 98, 0, 44, 44, 44, 44, 0])) 0 3 = None"
proof (rule unterminated_name_overflows [of _ 0 3 "[97, 98]"])
  have a: "nat (ALIGN4 (int (length [97, 98 :: byte]) + 1)) = 4" by code_simp
  show "\<forall>i \<le> nat (ALIGN4 (int (length [97, 98 :: byte]) + 1)). rdc (map Some [96, 97, 98, 0, 44, 44, 44, 44, 0]) (0 + 1 + i) \<noteq> Some 96"
  proof (intro allI impI)
    fix i assume "i \<le> nat (ALIGN4 (int (length [97, 98 :: byte]) + 1))"
    then have "i \<in> set [0..<5]" unfolding a by simp
    moreover have "list_all (\<lambda>i. rdc (map Some [96, 97, 98, 0, 44, 44, 44, 44, 0]) (0 + 1 + i) \<noteq> Some 96) [0..<5]" by code_simp
    ultimately show "rdc (map Some [96, 97, 98, 0, 44, 44, 44, 44, 0]) (0 + 1 + i) \<noteq> Some 96" unfolding list_all_iff by (rule bspec [rotated])
  qed
qed (simp_all add: rdc_def rd_def)

text \<open>A table of a number and a text, and a dump of it.\<close>

definition demo_title :: "element list" where
  "demo_title = [\<lparr>el_data = Bits 0, el_name = chars ''id'', el_type = ELEMENT_BIGINT, el_size = 2\<rparr>,
     \<lparr>el_data = Bits 0, el_name = chars ''uid'', el_type = ELEMENT_TEXT, el_size = 0\<rparr>]"

definition demo_table :: record_context where
  "demo_table = \<lparr>rc_mem = (\<lambda>_. None), rc_new = 0, rc_lists = (\<lambda>_. []), rc_uid = replicate RECORD_HASHTABLE_SIZE [], rc_title = demo_title, rc_mal = []\<rparr>"

definition demo_rows :: "row list" where "demo_rows = [([Num 7, Str [97]], Some [55]), ([Num (- 3), Str [98, 99]], Some [])]"

text \<open>The same table, dumped with its two columns only.\<close>

definition whole_rows :: "row list" where
  "whole_rows = [([Num 7, Str [97]], None), ([Num (- 3), Str [98, 99]], None), ([Num (- 3), Str [98, 99]], None)]"

definition whole_io :: io where
  "whole_io = \<lparr>io_buf = [] @ rows_text (chars ''INSERT INTO '' @ [120]) whole_rows @ 59 # 10 # [45, 45], io_rdptr = 0\<rparr>"

definition demo_io :: io where
  "demo_io = \<lparr>io_buf = [] @ rows_text (chars ''INSERT INTO '' @ [120]) demo_rows @ 59 # 10 # [45, 45], io_rdptr = 0\<rparr>"

lemma demo_row_ok: "row_ok demo_title [Num 7, Str [97]]" "row_ok demo_title [Num (- 3), Str [98, 99]]"
proof -
  have u: "uid_column demo_title = Some 1" by (simp add: uid_column_def demo_title_def chars_def of_char_def)
  show "row_ok demo_title [Num 7, Str [97]]" "row_ok demo_title [Num (- 3), Str [98, 99]]"
    unfolding row_ok_def u by (simp_all add: demo_title_def cell_ok_def filled_def data_null_def)
qed

lemma demo_facts: "rc_mal demo_table = []" "rc_title demo_table = demo_title" "rc_new demo_table = 0" "rc_lists demo_table h = []"
    "io_buf demo_io = [] @ rows_text (chars ''INSERT INTO '' @ [120]) demo_rows @ 59 # 10 # [45, 45]" "io_rdptr demo_io = length ([] :: byte list)"
    "demo_rows \<noteq> []" "rows_ok demo_title demo_rows" "40 \<notin> set [120 :: byte]"
    "\<forall>c \<in> set [45, 45]. \<not> eol c \<and> c \<noteq> 41" "take 1 [45, 45] \<noteq> [73 :: byte]"
    "\<forall>el \<in> set demo_title. el_type el \<noteq> ELEMENT_TEXT \<longrightarrow> el_size el < 2 + int (length [45, 45 :: byte])"
  using demo_row_ok by (simp_all add: demo_table_def demo_io_def demo_rows_def eol_def demo_title_def rows_ok_def row_end_def)

lemma whole_rows_ok: "rows_ok demo_title whole_rows" "rows_read whole_rows = [([Num 7, Str [97]], None), ([Num (- 3), Str [98, 99]], None)]"
proof -
  have "41 \<notin> set (show_cells [Num 7, Str [97]])" "41 \<notin> set (show_cells [Num (- 3), Str [98, 99]])" by code_simp+
  then show "rows_ok demo_title whole_rows" using demo_row_ok by (simp add: rows_ok_def whole_rows_def row_end_def)
qed (simp add: whole_rows_def)

lemma read_all_record_reads_rows_witness:
  "\<exists>io' s io2 s2. read_all_record demo_io demo_table = Some (0, io', s) \<and> rc_lists s RECORDS = [0, 1]
    \<and> rc_mem s 1 = Some \<lparr>re_data = map2 filled demo_title [Num (- 3), Str [98, 99]], re_uid = uid_column demo_title, re_key = None, re_on = Some RECORDS, re_bucket = None\<rparr>
    \<and> read_all_record whole_io demo_table = Some (0, io2, s2) \<and> rc_lists s2 RECORDS = [0, 1] \<and> length whole_rows = 3"
proof -
  have l: "rows_read demo_rows = demo_rows" "length demo_rows = 2" "fst (demo_rows ! 1) = [Num (- 3), Str [98, 99]]"
    by (simp_all add: demo_rows_def)
  have w: "io_buf whole_io = [] @ rows_text (chars ''INSERT INTO '' @ [120]) whole_rows @ 59 # 10 # [45, 45]"
    "io_rdptr whole_io = length ([] :: byte list)" "whole_rows \<noteq> []" "length whole_rows = 3"
    by (simp_all add: whole_io_def whole_rows_def)
  have u: "[0..<0 + 2] = [0, 1 :: nat]" by (simp add: upt_rec)
  note whole = read_all_record_reads_rows [OF demo_facts(1) w(1-3) _ demo_facts(9,10,11), THEN conjunct1]
  obtain io2 s2 where "read_all_record whole_io demo_table = Some (0, io2, s2)"
      "rc_lists s2 RECORDS = rc_lists demo_table RECORDS @ [rc_new demo_table..<rc_new demo_table + length (rows_read whole_rows)]"
    using whole demo_facts(2,12) whole_rows_ok(1) by auto
  moreover note demo = read_all_record_reads_rows [OF demo_facts(1,5,6,7) _ demo_facts(9,10,11), THEN conjunct1]
  obtain io' s where "read_all_record demo_io demo_table = Some (0, io', s)"
      "rc_lists s RECORDS = rc_lists demo_table RECORDS @ [rc_new demo_table..<rc_new demo_table + length demo_rows]"
      "\<forall>i < length demo_rows. rc_mem s (rc_new demo_table + i) = Some \<lparr>re_data = map2 filled (rc_title demo_table) (fst (demo_rows ! i)),
         re_uid = uid_column (rc_title demo_table), re_key = None, re_on = Some RECORDS, re_bucket = None\<rparr>"
    using demo [unfolded l(1)] demo_facts by auto
  ultimately show ?thesis using l demo_facts(2-4) u w(4) whole_rows_ok(2) by auto
qed

lemma complete_row_skips_next_witness:
  "\<exists>s. read_record (40 # show_cells [Num 7, Str [97]] @ 41 # (44 # 40 # [57]) @ [41]) (demo_table\<lparr>rc_title := [\<lparr>el_data = Bits 0, el_name = chars ''id'', el_type = ELEMENT_BIGINT, el_size = 0\<rparr>,
     \<lparr>el_data = Bits 0, el_name = chars ''uid'', el_type = ELEMENT_TEXT, el_size = 0\<rparr>]\<rparr>) 0
     = Some (0, length (40 # show_cells [Num 7, Str [97]] @ 41 # (44 # 40 # [57]) @ [41 :: byte]), s) \<and> rc_lists s RECORDS = [0]"
proof -
  let ?f = "40 # show_cells [Num 7, Str [97]] @ 41 # (44 # 40 # [57]) @ [41 :: byte]"
  let ?T = "[\<lparr>el_data = Bits 0, el_name = chars ''id'', el_type = ELEMENT_BIGINT, el_size = 0\<rparr>,
     \<lparr>el_data = Bits 0, el_name = chars ''uid'', el_type = ELEMENT_TEXT, el_size = 0\<rparr>]"
  let ?t = "demo_table\<lparr>rc_title := ?T\<rparr>"
  have u: "uid_column ?T = Some 1" by (simp add: uid_column_def chars_def of_char_def)
  have ok: "row_ok (rc_title ?t) [Num 7, Str [97]]"
    unfolding row_ok_def by (simp add: u cell_ok_def filled_def data_null_def)
  have tx: "text_at (rd ?f) 0 ([] @ ?f)" using text_at_rd [of "[]" ?f "[]"] by simp
  show ?thesis
    using complete_row_skips_next [OF _ ok _ _ tx] demo_facts(1,3,4) by (simp add: room_def)
qed

lemma demo_table_ok: "links_ok demo_table \<and> table_typed demo_table"
  by (simp add: links_ok_def table_typed_def demo_table_def demo_title_def el_typed_def)

lemma whole_rows_plain: "rows_plain demo_title whole_rows"
proof -
  have "41 \<notin> set (show_cells [Num 7, Str [97]])" "41 \<notin> set (show_cells [Num (- 3), Str [98, 99]])" by code_simp+
  then show ?thesis using demo_row_ok by (simp add: rows_plain_def whole_rows_def row_end_def)
qed

text \<open>The allocation of the text of the first row fails, and that of the second record.\<close>

lemma read_all_record_well_typed_witness:
  "\<exists>ret io' s. read_all_record whole_io (demo_table\<lparr>rc_mal := [True, True, True, True, False, False]\<rparr>) = Some (ret, io', s)
    \<and> ret \<in> {0, - 1} \<and> links_ok s \<and> table_typed s \<and> rc_title s = demo_title"
proof -
  let ?t = "demo_table\<lparr>rc_mal := [True, True, True, True, False, False]\<rparr>"
  have ok: "links_ok ?t" "table_typed ?t" using demo_table_ok by (simp_all add: links_ok_def table_typed_def)
  have w: "io_buf whole_io = [] @ rows_text (chars ''INSERT INTO '' @ [120]) whole_rows @ 59 # 10 # [45, 45]"
    "io_rdptr whole_io = length ([] :: byte list)" "whole_rows \<noteq> []"
    by (simp_all add: whole_io_def whole_rows_def)
  show ?thesis
    using read_all_record_well_typed [OF ok w _ demo_facts(9,10,11)] demo_facts(2,12) whole_rows_plain by simp
qed

end
