(* ===== verification/RecordSort.thy ===== *)
theory RecordSort
  imports Prelude "HOL-Library.Multiset"
begin

text \<open>
  The two sorting functions of \<open>src/src/record/record.c\<close>. The array holds pointers to records; a
  record is any value here and \<open>key\<close> gives the \<open>bigint\<close> of its key element (\<open>CMP_RECORD\<close>).
  Indices are C \<open>int\<close>s; an access outside of the array is \<open>None\<close>. The segments still to be
  split are a list, top of the stack first, of at most \<open>n\<close> entries, the room \<open>quick_sort\<close> allocates.
\<close>

section \<open>Array access by an int\<close>

definition rdi :: "'a list \<Rightarrow> int \<Rightarrow> 'a option" where "rdi a i = (if 0 \<le> i then rd a (nat i) else None)"

definition wri :: "'a list \<Rightarrow> int \<Rightarrow> 'a \<Rightarrow> 'a list option" where
  "wri a i v = (if 0 \<le> i then wr a (nat i) v else None)"

definition swap :: "'a list \<Rightarrow> int \<Rightarrow> int \<Rightarrow> 'a list option" where
  "swap a i j = do { tmp \<leftarrow> rdi a j; x \<leftarrow> rdi a i; a \<leftarrow> wri a j x; wri a i tmp }"

lemma rdi_eq: "0 \<le> i \<Longrightarrow> i < int (length a) \<Longrightarrow> rdi a i = Some (a ! nat i)"
  by (simp add: rdi_def rd_eq)

lemma wri_eq: "0 \<le> i \<Longrightarrow> i < int (length a) \<Longrightarrow> wri a i v = Some (a[nat i := v])"
  by (simp add: wri_def wr_eq)

section \<open>quick_sort\<close>

definition M :: int where "M = 9"

partial_function (option) scan_up :: "('a \<Rightarrow> int) \<Rightarrow> 'a list \<Rightarrow> int \<Rightarrow> 'a \<Rightarrow> int \<Rightarrow> int option" where
  "scan_up key a r k i =
     (if i + 1 < r then do { x \<leftarrow> rdi a (i + 1); if key x < key k then scan_up key a r k (i + 1) else Some (i + 1) }
      else Some (i + 1))"

partial_function (option) scan_down :: "('a \<Rightarrow> int) \<Rightarrow> 'a list \<Rightarrow> int \<Rightarrow> 'a \<Rightarrow> int \<Rightarrow> int option" where
  "scan_down key a l k j =
     (if l < j - 1 then do { x \<leftarrow> rdi a (j - 1); if key k < key x then scan_down key a l k (j - 1) else Some (j - 1) }
      else Some (j - 1))"

partial_function (option) part_loop :: "('a \<Rightarrow> int) \<Rightarrow> 'a list \<Rightarrow> int \<Rightarrow> int \<Rightarrow> 'a \<Rightarrow> int \<Rightarrow> int \<Rightarrow> ('a list \<times> int) option" where
  "part_loop key a l r k i j = do {
     i \<leftarrow> scan_up key a r k i;
     j \<leftarrow> scan_down key a l k j;
     if i < j then do { a \<leftarrow> swap a i j; part_loop key a l r k i j }
     else do { a \<leftarrow> swap a ((l + r) div 2) j; Some (a, j) } }"

definition PUSH :: "nat \<Rightarrow> int \<Rightarrow> int \<Rightarrow> (int \<times> int) list \<Rightarrow> (int \<times> int) list option" where
  "PUSH cap l r stack = (if l < r then if length stack < cap then Some ((l, r) # stack) else None else Some stack)"

definition PULL :: "(int \<times> int) list \<Rightarrow> (int \<times> int \<times> (int \<times> int) list) option" where
  "PULL stack = (case stack of [] \<Rightarrow> None | (l, r) # stack \<Rightarrow> Some (l, r, stack))"

partial_function (option) quick_loop :: "('a \<Rightarrow> int) \<Rightarrow> nat \<Rightarrow> 'a list \<Rightarrow> (int \<times> int) list \<Rightarrow> int \<Rightarrow> int \<Rightarrow> 'a list option" where
  "quick_loop key cap a stack l r =
     (case (if r - l < M then PULL stack else Some (l, r, stack)) of
        None \<Rightarrow> Some a
      | Some (l, r, stack) \<Rightarrow> do {
          k \<leftarrow> rdi a ((l + r) div 2);
          (a, j) \<leftarrow> part_loop key a l r k (l - 1) (r + 1);
          if M < r - j then
            if M < j - l then do { stack \<leftarrow> PUSH cap (j + 1) r stack; quick_loop key cap a stack l (j - 1) }
            else quick_loop key cap a stack (j + 1) r
          else if M < j - l then do { stack \<leftarrow> PUSH cap l (j - 1) stack; quick_loop key cap a stack (j + 1) r }
          else case PULL stack of None \<Rightarrow> Some a | Some (l, r, stack) \<Rightarrow> quick_loop key cap a stack l r })"

partial_function (option) shift_up :: "('a \<Rightarrow> int) \<Rightarrow> 'a list \<Rightarrow> 'a \<Rightarrow> int \<Rightarrow> ('a list \<times> int) option" where
  "shift_up key a k i =
     (if 0 \<le> i then do {
        x \<leftarrow> rdi a i;
        if key x \<le> key k then Some (a, i) else do { a \<leftarrow> wri a (i + 1) x; shift_up key a k (i - 1) } }
      else Some (a, i))"

definition insert_step :: "('a \<Rightarrow> int) \<Rightarrow> nat \<Rightarrow> 'a list \<Rightarrow> 'a list option" where
  "insert_step key j a = do {
     x \<leftarrow> rdi a (int j - 1);
     k \<leftarrow> rdi a (int j);
     if key x \<le> key k then Some a
     else do { (a, i) \<leftarrow> shift_up key a k (int j - 1); wri a (i + 1) k } }"

text \<open>
  The stack that \<open>quick_sort\<close> allocates is taken to be there (the code does not look at the result of
  \<open>malloc\<close>), and the sum of two indices is not taken modulo \<open>2 ^ 32\<close>: an array that a table of
  records fills has fewer than \<open>2 ^ 30\<close> entries.
\<close>

definition quick_sort :: "('a \<Rightarrow> int) \<Rightarrow> 'a list \<Rightarrow> nat \<Rightarrow> 'a list option" where
  "quick_sort key records n = do {
     a \<leftarrow> quick_loop key n records [] 0 (int n - 1);
     for_range 1 n (insert_step key) a }"

section \<open>heap_sort\<close>

partial_function (option) sift_loop :: "('a \<Rightarrow> int) \<Rightarrow> 'a list \<Rightarrow> 'a \<Rightarrow> int \<Rightarrow> int \<Rightarrow> int \<Rightarrow> ('a list \<times> int \<times> int) option" where
  "sift_loop key a k r i j =
     (if j < r then do {
        x \<leftarrow> rdi a j;
        y \<leftarrow> rdi a (j + 1);
        let j = (if key x < key y then j + 1 else j);
        x \<leftarrow> rdi a j;
        if key x \<le> key k then Some (a, i, j)
        else do { a \<leftarrow> wri a i x; sift_loop key a k r j (j * 2) } }
      else Some (a, i, j))"

definition sift :: "('a \<Rightarrow> int) \<Rightarrow> 'a list \<Rightarrow> 'a \<Rightarrow> int \<Rightarrow> int \<Rightarrow> 'a list option" where
  "sift key a k l r = do {
     (a, i, j) \<leftarrow> sift_loop key a k r l (l * 2);
     (a, i) \<leftarrow> (if j = r then do {
                  x \<leftarrow> rdi a j;
                  if key k < key x then do { a \<leftarrow> wri a i x; Some (a, j) } else Some (a, i) }
                else Some (a, i));
     wri a i k }"

partial_function (option) heap_loop :: "('a \<Rightarrow> int) \<Rightarrow> 'a list \<Rightarrow> int \<Rightarrow> int \<Rightarrow> 'a list option" where
  "heap_loop key a l r =
     (if 0 < l then do {
        k \<leftarrow> rdi a (l - 1);
        a \<leftarrow> sift key a k (l - 1) r;
        heap_loop key a (l - 1) r }
      else if 0 < r then do {
        k \<leftarrow> rdi a r;
        x \<leftarrow> rdi a l;
        a \<leftarrow> wri a r x;
        a \<leftarrow> wri a l k;
        a \<leftarrow> sift key a k l (r - 1);
        heap_loop key a l (r - 1) }
      else Some a)"

definition heap_sort :: "('a \<Rightarrow> int) \<Rightarrow> 'a list \<Rightarrow> nat \<Rightarrow> 'a list option" where
  "heap_sort key records n = heap_loop key records ((int n - 1) div 2 + 1) (int n - 1)"

section \<open>The splitting phase\<close>

lemma scan_up_bounds:
  assumes "0 \<le> i + 1" and "r \<le> int (length a)" and "i < r"
  shows "\<exists>i'. scan_up key a r k i = Some i' \<and> i < i' \<and> i' \<le> r"
  using assms(1,3)
proof (induction "nat (r - i)" arbitrary: i rule: less_induct)
  case less
  show ?case
  proof (cases "i + 1 < r \<and> key (a ! nat (i + 1)) < key k")
    case True
    then have "\<exists>i'. scan_up key a r k (i + 1) = Some i' \<and> i + 1 < i' \<and> i' \<le> r"
      by (intro less.hyps) (use less.prems in auto)
    then show ?thesis using True less.prems assms(2) by (subst scan_up.simps) (auto simp: rdi_eq)
  next
    case False
    then show ?thesis using less.prems assms(2) by (subst scan_up.simps) (auto simp: rdi_eq)
  qed
qed

lemma scan_down_bounds:
  assumes "0 \<le> l" and "j \<le> int (length a)" and "l < j"
  shows "\<exists>j'. scan_down key a l k j = Some j' \<and> l \<le> j' \<and> j' < j"
  using assms(2,3)
proof (induction "nat (j - l)" arbitrary: j rule: less_induct)
  case less
  show ?case
  proof (cases "l < j - 1 \<and> key k < key (a ! nat (j - 1))")
    case True
    then have "\<exists>j'. scan_down key a l k (j - 1) = Some j' \<and> l \<le> j' \<and> j' < j - 1"
      by (intro less.hyps) (use less.prems in auto)
    then show ?thesis using True less.prems assms(1) by (subst scan_down.simps) (auto simp: rdi_eq)
  next
    case False
    then show ?thesis using less.prems assms(1) by (subst scan_down.simps) (auto simp: rdi_eq)
  qed
qed

lemma swap_mset:
  assumes "0 \<le> i" "i < int (length a)" "0 \<le> j" "j < int (length a)"
  shows "\<exists>a'. swap a i j = Some a' \<and> mset a' = mset a \<and> length a' = length a"
  using assms mset_swap [of "nat i" a "nat j"] by (simp add: swap_def rdi_eq wri_eq)

lemma part_loop_correct:
  assumes "0 \<le> l" and "l \<le> r" and "r < int (length a)" and "l - 1 \<le> i" and "i < r" and "l < j" and "j \<le> r + 1"
  shows "\<exists>a' j'. part_loop key a l r k i j = Some (a', j') \<and> mset a' = mset a \<and> length a' = length a \<and> l \<le> j' \<and> j' \<le> r"
  using assms(3-7)
proof (induction "nat (j - i + (r - l) + 2)" arbitrary: a i j rule: less_induct)
  case less
  obtain i' where i': "scan_up key a r k i = Some i'" "i < i'" "i' \<le> r"
    using scan_up_bounds [of i r a key k] less.prems assms(1) by auto
  obtain j' where j': "scan_down key a l k j = Some j'" "l \<le> j'" "j' < j"
    using scan_down_bounds [of l j a key k] less.prems assms(1) by auto
  show ?case
  proof (cases "i' < j'")
    case True
    obtain a1 where a1: "swap a i' j' = Some a1" "mset a1 = mset a" "length a1 = length a"
      using swap_mset [of i' a j'] i' j' less.prems assms(1) by auto
    have "\<exists>a' j''. part_loop key a1 l r k i' j' = Some (a', j'') \<and> mset a' = mset a1 \<and> length a' = length a1 \<and> l \<le> j'' \<and> j'' \<le> r"
      by (rule less.hyps) (use True i' j' less.prems a1 in auto)
    then show ?thesis using True i' j' a1 by (subst part_loop.simps) auto
  next
    case False
    have "0 \<le> (l + r) div 2" "(l + r) div 2 < int (length a)" using assms(1,2) less.prems(1) by auto
    then obtain a1 where a1: "swap a ((l + r) div 2) j' = Some a1" "mset a1 = mset a" "length a1 = length a"
      using swap_mset [of "(l + r) div 2" a j'] j' less.prems assms(1) by auto
    then show ?thesis using False i' j' less.prems by (subst part_loop.simps) auto
  qed
qed

text \<open>
  The segments on the stack and the current one take up no more than the array, and every one on
  the stack has more than \<open>M\<close> elements.
\<close>

definition seg :: "int \<times> int \<Rightarrow> nat" where "seg = (\<lambda>(l, r). nat (r - l + 1))"

definition segs_ok :: "nat \<Rightarrow> (int \<times> int) list \<Rightarrow> bool" where
  "segs_ok n stack \<longleftrightarrow> (\<forall>(l, r) \<in> set stack. 0 \<le> l \<and> r < int n \<and> M \<le> r - l)"

lemma segs_count: "segs_ok n stack \<Longrightarrow> 10 * length stack \<le> sum_list (map seg stack)"
  by (induction stack) (auto simp: segs_ok_def seg_def M_def)

lemma quick_loop_correct:
  assumes "length a = n" and "segs_ok n stack" and "0 \<le> l" and "r < int n" and "sum_list (map seg stack) + seg (l, r) \<le> n"
  shows "\<exists>a'. quick_loop key n a stack l r = Some a' \<and> mset a' = mset a"
  using assms
proof (induction "sum_list (map seg stack) + seg (l, r)" arbitrary: a stack l r rule: less_induct)
  case less
  show ?case
  proof (cases "if r - l < M then PULL stack else Some (l, r, stack)")
    case None
    then show ?thesis by (subst quick_loop.simps) simp
  next
    case (Some h)
    obtain l1 r1 st where h: "h = (l1, r1, st)" by (cases h)
    have inv: "segs_ok n st" "0 \<le> l1" "r1 < int n" "M \<le> r1 - l1" "sum_list (map seg st) + seg (l1, r1) \<le> sum_list (map seg stack) + seg (l, r)"
      using Some h less.prems by (auto simp: PULL_def segs_ok_def seg_def split: if_splits list.splits)
    have mid: "0 \<le> (l1 + r1) div 2" "(l1 + r1) div 2 < int n" using inv by (auto simp: M_def)
    then have k: "rdi a ((l1 + r1) div 2) = Some (a ! nat ((l1 + r1) div 2))" using less.prems(1) by (simp add: rdi_eq)
    obtain a' j where p: "part_loop key a l1 r1 (a ! nat ((l1 + r1) div 2)) (l1 - 1) (r1 + 1) = Some (a', j)"
        "mset a' = mset a" "length a' = length a" "l1 \<le> j" "j \<le> r1"
      using part_loop_correct [of l1 r1 a "l1 - 1" "r1 + 1" key "a ! nat ((l1 + r1) div 2)"] inv less.prems(1) by (auto simp: M_def)
    have dec: "seg (l1, j - 1) + seg (j + 1, r1) < seg (l1, r1)" using p(4,5) by (auto simp: seg_def)
    have room: "length st < n"
      using segs_count [OF inv(1)] inv(4,5) less.prems(5) by (auto simp: seg_def M_def)
    have go: "\<exists>a''. quick_loop key n a' st' l' r' = Some a'' \<and> mset a'' = mset a"
      if "segs_ok n st'" "0 \<le> l'" "r' < int n" "sum_list (map seg st') + seg (l', r') < sum_list (map seg st) + seg (l1, r1)" for st' l' r'
      using less.hyps [of st' l' r' a'] that inv(5) less.prems(1,5) p(2,3) by fastforce
    let ?next = "if M < r1 - j then
            if M < j - l1 then do { stack \<leftarrow> PUSH n (j + 1) r1 st; quick_loop key n a' stack l1 (j - 1) }
            else quick_loop key n a' st (j + 1) r1
          else if M < j - l1 then do { stack \<leftarrow> PUSH n l1 (j - 1) st; quick_loop key n a' stack (j + 1) r1 }
          else case PULL st of None \<Rightarrow> Some a' | Some (l, r, stack) \<Rightarrow> quick_loop key n a' stack l r"
    have run: "quick_loop key n a stack l r = ?next"
      by (subst quick_loop.simps) (simp add: Some h k p(1))
    consider "M < r1 - j" "M < j - l1" | "M < r1 - j" "\<not> M < j - l1" | "\<not> M < r1 - j" "M < j - l1" | "\<not> M < r1 - j" "\<not> M < j - l1" by blast
    then show ?thesis
    proof cases
      case 1
      have "PUSH n (j + 1) r1 st = Some ((j + 1, r1) # st)" using 1 room by (simp add: PUSH_def M_def)
      then show ?thesis unfolding run using 1 go [of "(j + 1, r1) # st" l1 "j - 1"] inv p(4,5) dec
        by (simp add: segs_ok_def)
    next
      case 2
      then show ?thesis unfolding run using go [of st "j + 1" r1] inv p(4,5) dec by simp
    next
      case 3
      have "PUSH n l1 (j - 1) st = Some ((l1, j - 1) # st)" using 3 room by (simp add: PUSH_def M_def)
      then show ?thesis unfolding run using 3 go [of "(l1, j - 1) # st" "j + 1" r1] inv p(4,5) dec
        by (simp add: segs_ok_def)
    next
      case 4
      show ?thesis
      proof (cases st)
        case Nil
        then show ?thesis unfolding run using 4 p(2) by (simp add: PULL_def)
      next
        case (Cons q st')
        obtain l2 r2 where q: "q = (l2, r2)" by (cases q)
        have "0 < seg (l1, r1)" using inv(4) by (simp add: seg_def M_def)
        then show ?thesis unfolding run using 4 Cons q go [of st' l2 r2] inv(1) by (simp add: PULL_def segs_ok_def)
      qed
    qed
  qed
qed


section \<open>The final insertion sort\<close>

text \<open>\<open>s\<close> is \<open>a\<close> with the elements between the hole \<open>h\<close> and \<open>j\<close> moved up by one.\<close>

definition shifted :: "'a list \<Rightarrow> nat \<Rightarrow> 'a list \<Rightarrow> nat \<Rightarrow> bool" where
  "shifted a j s h \<longleftrightarrow> h \<le> j \<and> length s = length a \<and> (\<forall>q < h. s ! q = a ! q) \<and> (\<forall>q. h < q \<longrightarrow> q \<le> j \<longrightarrow> s ! q = a ! (q - 1))
    \<and> (\<forall>q. j < q \<longrightarrow> q < length a \<longrightarrow> s ! q = a ! q)"

lemma shifted_step: "shifted a j s (Suc h) \<Longrightarrow> j < length a \<Longrightarrow> shifted a j (s[Suc h := s ! h]) h"
  by (auto simp: shifted_def nth_list_update)

lemma shifted_filled:
  assumes "shifted a j s h" and "j < length a"
  shows "s[h := k] = take h a @ [k] @ take (j - h) (drop h a) @ drop (Suc j) a"
proof (rule nth_equalityI)
  show len: "length (s[h := k]) = length (take h a @ [k] @ take (j - h) (drop h a) @ drop (Suc j) a)"
    using assms by (simp add: shifted_def)
  fix q assume q: "q < length (s[h := k])"
  consider "q < h" | "q = h" | "h < q" "q \<le> j" | "j < q" by linarith
  then show "s[h := k] ! q = (take h a @ [k] @ take (j - h) (drop h a) @ drop (Suc j) a) ! q"
  proof cases
    case 3
    then have "h + (q - Suc h) = q - 1" by simp
    then show ?thesis using 3 assms by (auto simp: shifted_def nth_append)
  next
    case 4
    then have "Suc j + (q - h - Suc (j - h)) = q" using assms by (auto simp: shifted_def)
    then show ?thesis using 4 q assms by (auto simp: shifted_def nth_append)
  qed (use assms q in \<open>auto simp: shifted_def nth_append\<close>)
qed

lemma shift_up_correct:
  assumes "shifted a j s (Suc h)" and "j < length a" and "\<forall>q. Suc h \<le> q \<longrightarrow> q < j \<longrightarrow> key k < key (a ! q)"
  shows "\<exists>s' h'. shift_up key s k (int h) = Some (s', int h' - 1) \<and> shifted a j s' h' \<and> (\<forall>q. h' \<le> q \<longrightarrow> q < j \<longrightarrow> key k < key (a ! q))
    \<and> (h' = 0 \<or> key (a ! (h' - 1)) \<le> key k)"
  using assms(1,3)
proof (induction h arbitrary: s)
  case 0
  have "length s = length a" using 0(1) unfolding shifted_def by blast
  then have "0 < length s" using assms(2) by linarith
  moreover have "s ! 0 = a ! 0" using 0(1) unfolding shifted_def by blast
  ultimately have "0 < length s" "s ! 0 = a ! 0" by blast+
  then have r: "rdi s (int 0) = Some (a ! 0)" by (simp add: rdi_eq)
  show ?case
  proof (cases "key (a ! 0) \<le> key k")
    case True
    then have "shift_up key s k (int 0) = Some (s, int 1 - 1)" using r by (subst shift_up.simps) simp
    then show ?thesis using 0 True by (intro exI [of _ s] exI [of _ 1]) simp
  next
    case False
    then have "wri s (int 0 + 1) (a ! 0) = Some (s[Suc 0 := s ! 0])" using 0 assms(2) by (simp add: wri_eq shifted_def)
    then have "shift_up key s k (int 0) = Some (s[Suc 0 := s ! 0], - 1)"
      using r False by (subst shift_up.simps) (simp add: shift_up.simps [of _ _ _ "- 1"])
    moreover have "\<forall>q. 0 \<le> q \<longrightarrow> q < j \<longrightarrow> key k < key (a ! q)" using 0(2) False by (metis One_nat_def Suc_leI gr0I not_le)
    ultimately show ?thesis using shifted_step [OF 0(1) assms(2)] by (intro exI [of _ "s[Suc 0 := s ! 0]"] exI [of _ 0]) simp
  qed
next
  case (Suc h)
  then have r: "rdi s (int (Suc h)) = Some (a ! Suc h)" using assms(2) by (simp add: rdi_eq shifted_def nat_add_distrib)
  show ?case
  proof (cases "key (a ! Suc h) \<le> key k")
    case True
    then have "shift_up key s k (int (Suc h)) = Some (s, int (Suc (Suc h)) - 1)" using r by (subst shift_up.simps) simp
    then show ?thesis using Suc.prems True by (intro exI [of _ s] exI [of _ "Suc (Suc h)"]) simp
  next
    case False
    have e: "s ! Suc h = a ! Suc h" using Suc.prems by (simp add: shifted_def)
    have w: "wri s (int (Suc h) + 1) (a ! Suc h) = Some (s[Suc (Suc h) := s ! Suc h])"
      using Suc.prems assms(2) e by (simp add: wri_eq shifted_def nat_add_distrib)
    have "shift_up key s k (int (Suc h)) = shift_up key (s[Suc (Suc h) := s ! Suc h]) k (int h)"
      using r w False by (subst shift_up.simps) simp
    moreover have "\<forall>q. Suc h \<le> q \<longrightarrow> q < j \<longrightarrow> key k < key (a ! q)"
      using Suc.prems(2) False by (metis Suc_leI le_neq_implies_less not_le)
    ultimately show ?thesis using Suc.IH [OF shifted_step [OF Suc.prems(1) assms(2)]] by simp
  qed
qed

lemma insert_step_correct:
  assumes "0 < j" and "j < length a" and "sorted (map key (take j a))"
  shows "\<exists>a'. insert_step key j a = Some a' \<and> mset a' = mset a \<and> sorted (map key (take (Suc j) a'))"
proof -
  obtain h where h: "j = Suc h" using assms(1) by (cases j) auto
  have "rdi a (int j) = Some (a ! j)" using assms(2) by (simp add: rdi_eq)
  moreover have "rdi a (int j - 1) = Some (a ! h)" using assms(2) h by (simp add: rdi_eq)
  ultimately have r: "rdi a (int j - 1) = Some (a ! h)" "rdi a (int j) = Some (a ! j)" by simp_all
  show ?thesis
  proof (cases "key (a ! h) \<le> key (a ! j)")
    case True
    have "take j a = take h a @ [a ! h]" using h assms(2) by (simp add: take_Suc_conv_app_nth)
    moreover have "take (Suc j) a = take j a @ [a ! j]" using assms(2) by (simp add: take_Suc_conv_app_nth)
    ultimately have "sorted (map key (take (Suc j) a))" using assms(3) True by (auto simp: sorted_append intro: order_trans)
    then show ?thesis using True r by (simp add: insert_step_def)
  next
    case False
    let ?k = "a ! j"
    have "shifted a j a (Suc h)" using h by (auto simp: shifted_def)
    moreover have "\<forall>q. Suc h \<le> q \<longrightarrow> q < j \<longrightarrow> key ?k < key (a ! q)" using h by simp
    ultimately have "\<exists>s' h'. shift_up key a ?k (int h) = Some (s', int h' - 1) \<and> shifted a j s' h' \<and> (\<forall>q. h' \<le> q \<longrightarrow> q < j \<longrightarrow> key ?k < key (a ! q))
        \<and> (h' = 0 \<or> key (a ! (h' - 1)) \<le> key ?k)" by (rule shift_up_correct [OF _ assms(2)])
    then obtain s h' where sh: "shift_up key a ?k (int h) = Some (s, int h' - 1) \<and> shifted a j s h' \<and> (\<forall>q. h' \<le> q \<longrightarrow> q < j \<longrightarrow> key ?k < key (a ! q))
        \<and> (h' = 0 \<or> key (a ! (h' - 1)) \<le> key ?k)" by (elim exE) (rule that)
    note s = sh [THEN conjunct1] sh [THEN conjunct2, THEN conjunct1] sh [THEN conjunct2, THEN conjunct2, THEN conjunct1]
      sh [THEN conjunct2, THEN conjunct2, THEN conjunct2]
    let ?P = "take h' a" and ?Q = "take (j - h') (drop h' a)"
    have le: "h' \<le> j" "length s = length a" using s(2) by (auto simp: shifted_def)
    have fill: "s[h' := ?k] = ?P @ [?k] @ ?Q @ drop (Suc j) a" by (rule shifted_filled [OF s(2) assms(2)])
    have w: "wri s (int h' - 1 + 1) ?k = Some (s[h' := ?k])" using le assms(2) by (simp add: wri_eq)
    have PQ: "take j a = ?P @ ?Q" using le(1) by (metis le_add_diff_inverse take_add)
    have "a = take j a @ ?k # drop (Suc j) a" using assms(2) by (simp add: id_take_nth_drop)
    then have "mset a = mset ?P + mset ?Q + {#?k#} + mset (drop (Suc j) a)" unfolding PQ by (metis add.assoc mset.simps(2) mset_append union_mset_add_mset_left union_mset_add_mset_right add_mset_add_single)
    then have "mset (s[h' := ?k]) = mset a" unfolding fill by simp
    moreover have "take (Suc j) (s[h' := ?k]) = ?P @ [?k] @ ?Q" unfolding fill using le assms(2) by (simp add: Suc_diff_le)
    moreover have "\<forall>x \<in> set ?Q. key ?k \<le> key x" using s(3) assms(2) le(1)
      by (auto simp: in_set_conv_nth) (metis less_diff_conv le_add2 add.commute less_imp_le)
    moreover have "\<forall>x \<in> set ?P. key x \<le> key ?k"
    proof (cases "h' = 0")
      case False
      then obtain h2 where h2: "h' = Suc h2" by (cases h') auto
      then have "?P = take h2 a @ [a ! h2]" using le assms(2) by (simp add: take_Suc_conv_app_nth)
      then show ?thesis using assms(3) s(4) h2 unfolding PQ by (auto simp: sorted_append)
    qed simp
    ultimately have "mset (s[h' := ?k]) = mset a \<and> sorted (map key (take (Suc j) (s[h' := ?k])))"
      using assms(3) unfolding PQ by (auto simp: sorted_append intro: order_trans)
    then show ?thesis using False r s(1) w h by (simp add: insert_step_def)
  qed
qed

lemma insertion_correct:
  "\<exists>a'. for_range 1 (length a) (insert_step key) a = Some a' \<and> mset a' = mset a \<and> sorted (map key a')"
proof (cases "a = []")
  case False
  then have n: "1 \<le> length a" by (cases a) auto
  have "\<exists>a'. for_range 1 (length a) (insert_step key) a = Some a' \<and> (mset a' = mset a \<and> sorted (map key (take (length a) a')))"
  proof (rule for_range_rule [OF n])
    have "length (take 1 a) \<le> 1" by simp
    then show "mset a = mset a \<and> sorted (map key (take 1 a))" using n by (cases a) auto
    fix k s assume k: "1 \<le> k" "k < length a" "mset s = mset a \<and> sorted (map key (take k s))"
    then have "length s = length a" by (metis mset_eq_length)
    then show "\<exists>s'. insert_step key k s = Some s' \<and> (mset s' = mset a \<and> sorted (map key (take (Suc k) s')))"
      using insert_step_correct [of k s key] k by auto
  qed
  then show ?thesis by (metis mset_eq_length take_all order_refl)
qed simp


section \<open>The heap\<close>

text \<open>
  The children of position \<open>i\<close> are the positions \<open>c > 0\<close> with \<open>c div 2 = i\<close>: two for each \<open>i > 0\<close>
  and only 1 for the root 0. The part of the heap from \<open>l\<close> to \<open>r\<close> is ordered when no child there
  has a larger key than its parent.
\<close>

definition edge_ok :: "('a \<Rightarrow> int) \<Rightarrow> 'a list \<Rightarrow> nat \<Rightarrow> bool" where
  "edge_ok key a c \<longleftrightarrow> key (a ! c) \<le> key (a ! (c div 2))"

definition heap :: "('a \<Rightarrow> int) \<Rightarrow> 'a list \<Rightarrow> nat \<Rightarrow> nat \<Rightarrow> bool" where
  "heap key a l r \<longleftrightarrow> (\<forall>c. 0 < c \<longrightarrow> c \<le> r \<longrightarrow> l \<le> c div 2 \<longrightarrow> edge_ok key a c)"

lemma heap_root: "heap key a 0 r \<Longrightarrow> c \<le> r \<Longrightarrow> key (a ! c) \<le> key (a ! 0)"
proof (induction c rule: less_induct)
  case (less c)
  show ?case
  proof (cases "c = 0")
    case False
    then have "key (a ! c) \<le> key (a ! (c div 2))" using less.prems by (simp add: heap_def edge_ok_def)
    moreover have "key (a ! (c div 2)) \<le> key (a ! 0)" by (rule less.IH) (use False less.prems in auto)
    ultimately show ?thesis by (rule order_trans)
  qed simp
qed

text \<open>
  While the element \<open>k\<close> sinks, its place is the hole \<open>i\<close>; \<open>b\<close> is the array with the hole filled.
  \<open>a0\<close> is the array before.
\<close>

definition same_upto :: "'a list \<Rightarrow> 'a list \<Rightarrow> nat \<Rightarrow> bool" where
  "same_upto a0 b r \<longleftrightarrow> length b = length a0 \<and> mset b = mset a0 \<and> (\<forall>q. r < q \<longrightarrow> b ! q = a0 ! q) \<and> (\<forall>x \<le> r. \<exists>y \<le> r. b ! x = a0 ! y)"

definition sinking :: "('a \<Rightarrow> int) \<Rightarrow> 'a list \<Rightarrow> 'a list \<Rightarrow> nat \<Rightarrow> nat \<Rightarrow> nat \<Rightarrow> bool" where
  "sinking key a0 b l r i \<longleftrightarrow> same_upto a0 b r \<and> l \<le> i \<and> i \<le> r
    \<and> (\<forall>c. 0 < c \<longrightarrow> c \<le> r \<longrightarrow> l \<le> c div 2 \<longrightarrow> c div 2 \<noteq> i \<longrightarrow> edge_ok key b c)
    \<and> (i \<noteq> l \<longrightarrow> l \<le> i div 2 \<and> (\<forall>c. 0 < c \<longrightarrow> c \<le> r \<longrightarrow> c div 2 = i \<longrightarrow> key (b ! c) \<le> key (b ! (i div 2))))"

lemma same_upto_refl: "same_upto a a r"
  by (auto simp: same_upto_def)

lemma same_upto_swap:
  assumes "same_upto a0 b r" and "i \<le> r" and "j \<le> r" and "r < length a0"
  shows "same_upto a0 (b[i := b ! j, j := b ! i]) r"
proof -
  have l: "i < length b" "j < length b" using assms by (auto simp: same_upto_def)
  then have "mset (b[i := b ! j, j := b ! i]) = mset b" by (metis list_update_id list_update_swap mset_swap)
  moreover have "\<exists>y \<le> r. b[i := b ! j, j := b ! i] ! x = a0 ! y" if "x \<le> r" for x
    using assms(1-3) that l by (cases "x = j"; cases "x = i") (auto simp: same_upto_def nth_list_update)
  ultimately show ?thesis using assms by (auto simp: same_upto_def nth_list_update)
qed

lemma sinking_done:
  assumes "sinking key a0 b l r i" and "\<And>c. 0 < c \<Longrightarrow> c \<le> r \<Longrightarrow> c div 2 = i \<Longrightarrow> edge_ok key b c"
  shows "heap key b l r \<and> same_upto a0 b r"
  using assms unfolding sinking_def heap_def by blast

text \<open>The larger child \<open>j\<close> rises into the hole.\<close>

lemma sinking_step:
  assumes s: "sinking key a0 b l r i" and r: "r < length a0" and j: "0 < j" "j \<le> r" "j div 2 = i" "i \<noteq> j"
    and max: "\<And>c. 0 < c \<Longrightarrow> c \<le> r \<Longrightarrow> c div 2 = i \<Longrightarrow> key (b ! c) \<le> key (b ! j)" and up: "key (b ! i) \<le> key (b ! j)"
  shows "sinking key a0 (b[i := b ! j, j := b ! i]) l r j"
proof -
  let ?b = "b[i := b ! j, j := b ! i]"
  have sd: "same_upto a0 b r" "l \<le> i" "i \<le> r"
    and h1: "\<And>c. 0 < c \<Longrightarrow> c \<le> r \<Longrightarrow> l \<le> c div 2 \<Longrightarrow> c div 2 \<noteq> i \<Longrightarrow> edge_ok key b c"
    and h2: "i \<noteq> l \<Longrightarrow> l \<le> i div 2 \<and> (\<forall>c. 0 < c \<longrightarrow> c \<le> r \<longrightarrow> c div 2 = i \<longrightarrow> key (b ! c) \<le> key (b ! (i div 2)))"
    using s unfolding sinking_def by blast+
  have len: "i < length b" "j < length b" using sd(1,3) r j(2) by (auto simp: same_upto_def)
  have at: "?b ! i = b ! j" "?b ! j = b ! i" "\<And>q. q \<noteq> i \<Longrightarrow> q \<noteq> j \<Longrightarrow> ?b ! q = b ! q" using len j(4) by (auto simp: nth_list_update)
  have edges: "edge_ok key ?b c" if c: "0 < c" "c \<le> r" "l \<le> c div 2" "c div 2 \<noteq> j" for c
  proof -
    consider "c = j" | "c div 2 = i" "c \<noteq> j" | "c = i" "c \<noteq> j" "c div 2 \<noteq> i" | "c \<noteq> i" "c \<noteq> j" "c div 2 \<noteq> i" by blast
    then show ?thesis
    proof cases
      case 1
      then show ?thesis using at j(3) up by (simp add: edge_ok_def)
    next
      case 2
      have "c \<noteq> i" using 2 c(1) by auto
      then show ?thesis using 2 at max [OF c(1,2) 2(1)] by (simp add: edge_ok_def)
    next
      case 3
      then have "i \<noteq> l" using c(1,3) by auto
      then have "key (b ! j) \<le> key (b ! (i div 2))" using h2 j by blast
      moreover have "i div 2 \<noteq> i" "i div 2 \<noteq> j" using 3 c by auto
      ultimately show ?thesis using 3 at by (simp add: edge_ok_def)
    next
      case 4
      then show ?thesis using h1 [OF c(1-3)] at c(4) by (simp add: edge_ok_def)
    qed
  qed
  have below: "key (?b ! c) \<le> key (?b ! (j div 2))" if c: "0 < c" "c \<le> r" "c div 2 = j" for c
  proof -
    have "c \<noteq> j" "c \<noteq> i" using c j by auto
    moreover have "edge_ok key b c" using h1 [OF c(1,2)] c(3) j(3,4) sd(2) by auto
    ultimately show ?thesis using at c(3) j(3) by (simp add: edge_ok_def)
  qed
  have "same_upto a0 ?b r" by (rule same_upto_swap [OF sd(1,3) j(2) r])
  moreover have "l \<le> j" using sd(2) j(3) by (metis div_le_dividend le_trans)
  ultimately show ?thesis unfolding sinking_def using edges below sd(2) j(2,3) by blast
qed

text \<open>The loop keeps the hole's element out of the array; \<open>filled\<close> puts it back.\<close>

lemma swap_filled: "i \<noteq> j \<Longrightarrow> i < length a \<Longrightarrow> (a[i := a ! j])[j := k] = (a[i := k])[i := (a[i := k]) ! j, j := (a[i := k]) ! i]"
  by (rule nth_equalityI) (auto simp: nth_list_update)

lemma children: "0 < c \<Longrightarrow> c div 2 = i \<Longrightarrow> c = 2 * i \<or> c = 2 * i + 1" for c i :: nat
  by auto

lemma sift_loop_correct:
  assumes "sinking key a0 (a[i := k]) l r i" and "r < length a0" and "length a = length a0" and "i = 0 \<longrightarrow> a ! 0 = k"
  shows "\<exists>a' i' j'. sift_loop key a k (int r) (int i) (int (2 * i)) = Some (a', int i', int j') \<and> sinking key a0 (a'[i' := k]) l r i'
    \<and> length a' = length a0 \<and> (if j' = r then (key k < key (a' ! j') \<longrightarrow> 0 < i' \<and> j' = 2 * i') \<and> (key (a' ! j') \<le> key k \<longrightarrow>
            (\<forall>c. 0 < c \<longrightarrow> c \<le> r \<longrightarrow> c div 2 = i' \<longrightarrow> key (a' ! c) \<le> key k))
          else \<forall>c. 0 < c \<longrightarrow> c \<le> r \<longrightarrow> c div 2 = i' \<longrightarrow> key (a' ! c) \<le> key k)"
  using assms(1,3,4)
proof (induction "r - i" arbitrary: a i rule: less_induct)
  case less
  have ir: "i \<le> r" using less.prems(1) by (simp add: sinking_def)
  show ?case
  proof (cases "2 * i < r")
    case False
    have "sift_loop key a k (int r) (int i) (int (2 * i)) = Some (a, int i, int (2 * i))"
      using False by (subst sift_loop.simps) simp
    moreover have "if 2 * i = r then (key k < key (a ! (2 * i)) \<longrightarrow> 0 < i \<and> 2 * i = 2 * i) \<and> (key (a ! (2 * i)) \<le> key k \<longrightarrow>
            (\<forall>c. 0 < c \<longrightarrow> c \<le> r \<longrightarrow> c div 2 = i \<longrightarrow> key (a ! c) \<le> key k))
          else \<forall>c. 0 < c \<longrightarrow> c \<le> r \<longrightarrow> c div 2 = i \<longrightarrow> key (a ! c) \<le> key k"
    proof (cases "2 * i = r")
      case True
      have "0 < i" if "key k < key (a ! (2 * i))" using that less.prems(3) by (cases i) auto
      moreover have "key (a ! c) \<le> key k" if "key (a ! (2 * i)) \<le> key k" "0 < c" "c \<le> r" "c div 2 = i" for c
      proof -
        have "c = 2 * i" using children [OF that(2,4)] that(3) True by simp
        then show ?thesis using that(1) by simp
      qed
      ultimately show ?thesis unfolding if_P [OF True] by blast
    next
      case neq: False
      have "\<not> (0 < c \<and> c \<le> r \<and> c div 2 = i)" for c using neq False by auto
      then show ?thesis using neq by auto
    qed
    ultimately show ?thesis using less.prems(1,2) by blast
  next
    case True
    obtain j where j: "j = (if key (a ! (2 * i)) < key (a ! (2 * i + 1)) then 2 * i + 1 else 2 * i)" by blast
    have rd: "rdi a (int (2 * i)) = Some (a ! (2 * i))" "rdi a (int (2 * i) + 1) = Some (a ! (2 * i + 1))" "rdi a (int j) = Some (a ! j)"
      using True assms(2) less.prems(2) j by (auto simp: rdi_eq nat_add_distrib nat_mult_distrib)
    have ij: "(if key (a ! (2 * i)) < key (a ! (2 * i + 1)) then int (2 * i) + 1 else int (2 * i)) = int j" using j by simp
    have jr: "j \<le> r" "j div 2 = i" using True j by auto
    have mx: "key (a ! c) \<le> key (a ! j)" if "0 < c" "c div 2 = i" for c using children [OF that] j by auto
    have nj: "i = 0 \<Longrightarrow> key (a ! j) \<le> key k \<or> i \<noteq> j" using j less.prems(3) by auto
    have nj2: "0 < i \<Longrightarrow> i \<noteq> j" using j by auto
    show ?thesis
    proof (cases "key (a ! j) \<le> key k")
      case stop: True
      have "sift_loop key a k (int r) (int i) (int (2 * i)) = Some (a, int i, int j)"
        using True stop by (subst sift_loop.simps, unfold rd Option.bind.simps Let_def ij) simp
      moreover have "\<forall>c. 0 < c \<longrightarrow> c \<le> r \<longrightarrow> c div 2 = i \<longrightarrow> key (a ! c) \<le> key k" using mx stop order_trans by blast
      moreover have "if J = r then (key k < key (a ! J) \<longrightarrow> 0 < i \<and> J = 2 * i) \<and> (key (a ! J) \<le> key k \<longrightarrow>
            (\<forall>c. 0 < c \<longrightarrow> c \<le> r \<longrightarrow> c div 2 = i \<longrightarrow> key (a ! c) \<le> key k))
          else \<forall>c. 0 < c \<longrightarrow> c \<le> r \<longrightarrow> c div 2 = i \<longrightarrow> key (a ! c) \<le> key k"
        if "\<forall>c. 0 < c \<longrightarrow> c \<le> r \<longrightarrow> c div 2 = i \<longrightarrow> key (a ! c) \<le> key k" "key (a ! J) \<le> key k" for J
      proof -
        have n: "\<not> key k < key (a ! J)" using that(2) by linarith
        show ?thesis using that(1) n by (cases "J = r") (simp_all only: if_True if_False simp_thms, blast)
      qed
      ultimately show ?thesis using less.prems(1,2) stop by blast
    next
      case go: False
      have ne: "i \<noteq> j" "0 < j" using go nj nj2 jr(2) by (cases i; auto)+
      have run: "sift_loop key a k (int r) (int i) (int (2 * i)) = sift_loop key (a[i := a ! j]) k (int r) (int j) (int (2 * j))"
        using True go ir assms(2) less.prems(2) by (subst sift_loop.simps, unfold rd Option.bind.simps Let_def ij) (simp add: wri_eq mult.commute)
      let ?b = "a[i := k]"
      have il: "i < length a" using ir assms(2) less.prems(2) by simp
      have bj: "?b ! j = a ! j" "?b ! i = k" using ne(1) il by simp_all
      have "sinking key a0 (?b[i := ?b ! j, j := ?b ! i]) l r j"
      proof (rule sinking_step [OF less.prems(1) assms(2) ne(2) jr ne(1)])
        fix c assume c: "0 < c" "c \<le> r" "c div 2 = i"
        then have "c \<noteq> i" by auto
        then show "key (?b ! c) \<le> key (?b ! j)" unfolding bj using mx [OF c(1,3)] by simp
      qed (use go bj in simp)
      then have sk: "sinking key a0 ((a[i := a ! j])[j := k]) l r j" unfolding swap_filled [OF ne(1) il] .
      have "i < j" using ne nj2 jr(2) j by (cases i) (auto split: if_splits)
      show ?thesis unfolding run
        by (rule less.hyps) (use \<open>i < j\<close> jr sk less.prems(2) ne in auto)
    qed
  qed
qed

lemma sift_correct:
  assumes "heap key a0 (Suc l) r" and "r < length a0" and "l \<le> r" and "a0 ! l = k"
  shows "\<exists>b. sift key a0 k (int l) (int r) = Some b \<and> heap key b l r \<and> same_upto a0 b r"
proof -
  have id: "a0[l := k] = a0" using assms(4) by auto
  have start: "sinking key a0 (a0[l := k]) l r l"
    unfolding id sinking_def using assms(1,3) same_upto_refl [of a0 r] by (auto simp: heap_def)
  obtain a i j where run: "sift_loop key a0 k (int r) (int l) (int (2 * l)) = Some (a, int i, int j)" and sk: "sinking key a0 (a[i := k]) l r i"
    and len: "length a = length a0" and res: "if j = r then (key k < key (a ! j) \<longrightarrow> 0 < i \<and> j = 2 * i) \<and> (key (a ! j) \<le> key k \<longrightarrow>
            (\<forall>c. 0 < c \<longrightarrow> c \<le> r \<longrightarrow> c div 2 = i \<longrightarrow> key (a ! c) \<le> key k))
          else \<forall>c. 0 < c \<longrightarrow> c \<le> r \<longrightarrow> c div 2 = i \<longrightarrow> key (a ! c) \<le> key k"
    using sift_loop_correct [OF start assms(2)] assms(4) by auto
  have il: "i < length a" using sk assms(2) len by (simp add: sinking_def)
  show ?thesis
  proof (cases "j = r \<and> key k < key (a ! j)")
    case True
    then have ji: "0 < i" "j = 2 * i" using res by auto
    let ?a = "a[i := a ! j]" and ?b = "a[i := k]"
    have ne: "i \<noteq> j" using ji by simp
    have bj: "?b ! j = a ! j" "?b ! i = k" using ne il by simp_all
    have only: "c = j" if "0 < c" "c \<le> r" "c div 2 = i" for c using children [OF that(1,3)] that(2) True ji by auto
    have "sinking key a0 (?b[i := ?b ! j, j := ?b ! i]) l r j"
    proof (rule sinking_step [OF sk assms(2)])
      show "0 < j" "j \<le> r" "j div 2 = i" "i \<noteq> j" using ji True ne by auto
      show "\<And>c. 0 < c \<Longrightarrow> c \<le> r \<Longrightarrow> c div 2 = i \<Longrightarrow> key (?b ! c) \<le> key (?b ! j)" using only by auto
      show "key (?b ! i) \<le> key (?b ! j)" unfolding bj by (rule less_imp_le [OF True [THEN conjunct2]])
    qed
    then have "sinking key a0 (?a[j := k]) l r j" unfolding swap_filled [OF ne il] .
    then have fin: "heap key (?a[j := k]) l r \<and> same_upto a0 (?a[j := k]) r"
      by (rule sinking_done) (use True ji in auto)
    have jr: "j = r" "key k < key (a ! r)" using True by auto
    have "sift key a0 k (int l) (int r) = Some (?a[j := k])"
      using run jr il len assms(2) by (simp add: sift_def mult.commute rdi_eq wri_eq)
    then show ?thesis using fin by blast
  next
    case False
    then have ch: "\<forall>c. 0 < c \<longrightarrow> c \<le> r \<longrightarrow> c div 2 = i \<longrightarrow> key (a ! c) \<le> key k" using res by (auto split: if_splits)
    have fin: "heap key (a[i := k]) l r \<and> same_upto a0 (a[i := k]) r"
    proof (rule sinking_done [OF sk])
      fix c assume c: "0 < c" "c \<le> r" "c div 2 = i"
      then have "c \<noteq> i" by auto
      then show "edge_ok key (a[i := k]) c" using ch c il by (simp add: edge_ok_def)
    qed
    have "sift key a0 k (int l) (int r) = Some (a[i := k])"
      using run False il len assms(2) by (auto simp: sift_def mult.commute rdi_eq wri_eq)
    then show ?thesis using fin by blast
  qed
qed


text \<open>Building the heap, then taking the root out again and again.\<close>

lemma heap_start: "heap key a (Suc (r div 2)) r"
  unfolding heap_def by (metis div_le_mono not_less_eq_eq)

lemma heap_build:
  assumes "heap key a l r" and "r < length a" and "l \<le> Suc r"
  shows "\<exists>b. heap_loop key a (int l) (int r) = heap_loop key b 0 (int r) \<and> heap key b 0 r \<and> length b = length a \<and> mset b = mset a"
  using assms
proof (induction l arbitrary: a)
  case 0
  then show ?case by auto
next
  case (Suc l)
  have l: "l \<le> r" using Suc.prems(3) by simp
  have rd: "rdi a (int (Suc l) - 1) = Some (a ! l)" using l Suc.prems(2) by (simp add: rdi_eq)
  obtain b where b: "sift key a (a ! l) (int l) (int r) = Some b" "heap key b l r" "same_upto a b r"
    using sift_correct [OF Suc.prems(1,2) l refl] by blast
  have run: "heap_loop key a (int (Suc l)) (int r) = heap_loop key b (int l) (int r)"
    using rd b(1) by (subst heap_loop.simps) simp
  have lm: "length b = length a" "mset b = mset a" using b(3) by (auto simp: same_upto_def)
  obtain c where "heap_loop key b (int l) (int r) = heap_loop key c 0 (int r)" "heap key c 0 r" "length c = length b" "mset c = mset b"
    using Suc.IH [OF b(2)] Suc.prems(2,3) lm by auto
  then show ?case unfolding run using lm by metis
qed

definition big_after :: "('a \<Rightarrow> int) \<Rightarrow> 'a list \<Rightarrow> nat \<Rightarrow> bool" where
  "big_after key a r \<longleftrightarrow> (\<forall>x y. x \<le> y \<longrightarrow> r < y \<longrightarrow> y < length a \<longrightarrow> key (a ! x) \<le> key (a ! y))"

lemma big_after_swap:
  assumes "heap key a 0 (Suc r)" and "big_after key a (Suc r)" and "Suc r < length a"
  shows "big_after key (a[Suc r := a ! 0, 0 := a ! Suc r]) r"
  unfolding big_after_def
proof (intro allI impI)
  fix x y let ?b = "a[Suc r := a ! 0, 0 := a ! Suc r]"
  assume xy: "x \<le> y" "r < y" "y < length ?b"
  have l: "0 < length a" using assms(3) by (rule less_trans [OF zero_less_Suc])
  have root: "key (a ! c) \<le> key (a ! 0)" if "c \<le> Suc r" for c using heap_root [OF assms(1) that] .
  show "key (?b ! x) \<le> key (?b ! y)"
  proof (cases "y = Suc r")
    case True
    then show ?thesis using xy root l assms(3) by (auto simp: nth_list_update)
  next
    case False
    have big: "key (a ! z) \<le> key (a ! y)" if "z \<le> y" for z using assms(2) that xy False by (simp add: big_after_def)
    have y: "?b ! y = a ! y" using False xy by (simp add: nth_list_update)
    show ?thesis unfolding y using big [of x] big [of 0] big [of "Suc r"] xy False l assms(3) by (auto simp: nth_list_update)
  qed
qed

lemma big_after_same:
  assumes "big_after key a r" and "same_upto a b r" and "r < length a"
  shows "big_after key b r"
  unfolding big_after_def
proof (intro allI impI)
  fix x y assume xy: "x \<le> y" "r < y" "y < length b"
  have e: "length b = length a" "b ! y = a ! y" using assms(2) xy by (auto simp: same_upto_def)
  have big: "key (a ! z) \<le> key (a ! y)" if "z \<le> y" for z using assms(1) that xy e by (simp add: big_after_def)
  show "key (b ! x) \<le> key (b ! y)"
  proof (cases "x \<le> r")
    case True
    then obtain z where "z \<le> r" "b ! x = a ! z" using assms(2) by (auto simp: same_upto_def)
    then show ?thesis using big [of z] xy e by simp
  next
    case False
    then show ?thesis using big [of x] xy e assms(2) by (simp add: same_upto_def)
  qed
qed

lemma heap_drain:
  assumes "heap key a 0 r" and "r < length a" and "big_after key a r"
  shows "\<exists>b. heap_loop key a 0 (int r) = Some b \<and> mset b = mset a \<and> sorted (map key b)"
  using assms
proof (induction r arbitrary: a)
  case 0
  have "key (a ! x) \<le> key (a ! y)" if "x \<le> y" "y < length a" for x y
    using 0(3) that by (cases "y = 0") (auto simp: big_after_def)
  then have "sorted (map key a)" by (auto simp: sorted_iff_nth_mono)
  then show ?case by (subst heap_loop.simps) simp
next
  case (Suc r)
  let ?s = "a[Suc r := a ! 0, 0 := a ! Suc r]"
  have l: "0 < length a" "a \<noteq> []" using Suc.prems(2) by auto
  have rd: "rdi a (int (Suc r)) = Some (a ! Suc r)" "rdi a 0 = Some (a ! 0)" using Suc.prems(2) l by (simp_all add: rdi_eq del: of_nat_Suc)
  have w: "wri a (int (Suc r)) (a ! 0) = Some (a[Suc r := a ! 0])" "wri (a[Suc r := a ! 0]) 0 (a ! Suc r) = Some ?s"
    using Suc.prems(2) l by (simp_all add: wri_eq del: of_nat_Suc)
  have ms: "mset ?s = mset a" using Suc.prems(2) l mset_swap [of 0 a "Suc r"] by (simp add: list_update_swap)
  have h1: "heap key ?s (Suc 0) r"
    using Suc.prems(1,2) by (auto simp: heap_def edge_ok_def nth_list_update)
  obtain b where b: "sift key ?s (a ! Suc r) (int 0) (int r) = Some b" "heap key b 0 r" "same_upto ?s b r"
    using sift_correct [OF h1, of "a ! Suc r"] Suc.prems(2) l by auto
  have lb: "length b = length a" "mset b = mset a" using b(3) ms by (auto simp: same_upto_def)
  have big: "big_after key b r"
    by (rule big_after_same [OF big_after_swap [OF Suc.prems(1,3,2)] b(3)]) (use Suc.prems(2) in simp)
  have "heap_loop key a 0 (int (Suc r)) = heap_loop key b 0 (int r)"
    using rd w b(1) by (subst heap_loop.simps) simp
  moreover have "\<exists>c. heap_loop key b 0 (int r) = Some c \<and> mset c = mset b \<and> sorted (map key c)"
    using Suc.IH [OF b(2) _ big] Suc.prems(2) lb by simp
  ultimately show ?case using lb by simp
qed

lemma quick_sort_correct: "\<exists>a. quick_sort key records (length records) = Some a \<and> mset a = mset records \<and> sorted (map key a)"
proof -
  have "\<exists>a. quick_loop key (length records) records [] 0 (int (length records) - 1) = Some a \<and> mset a = mset records"
    by (rule quick_loop_correct) (auto simp: segs_ok_def seg_def)
  then obtain a where a: "quick_loop key (length records) records [] 0 (int (length records) - 1) = Some a" "mset a = mset records" by blast
  then have "length a = length records" by (metis mset_eq_length)
  then show ?thesis using a insertion_correct [of a key] by (simp add: quick_sort_def)
qed

section \<open>Properties\<close>

text \<open>
  C20. \<open>quick_sort\<close> returns, stays inside the array and the stack it allocated, and leaves the
  records in ascending order of their keys. The splitting phase only has to permute the records,
  and does no more for some inputs: where the middle record has been moved, the element put in its
  place is not the one the segments are split at; the insertion sort at the end sorts whatever it is
  given.
\<close>

theorem quick_sort_sorts: "\<exists>a. quick_sort key records (length records) = Some a \<and> mset a = mset records \<and> sorted (map key a)"
  by (rule quick_sort_correct)

text \<open>
  \<open>heap_sort\<close> returns and leaves the records in ascending order of their keys, although it
  keeps its heap from position 0 with the children of \<open>i\<close> at \<open>2 * i\<close> and \<open>2 * i + 1\<close>, so that the
  root is its own first child.
\<close>

theorem heap_sort_sorts: "\<exists>a. heap_sort key records (length records) = Some a \<and> mset a = mset records \<and> sorted (map key a)"
proof (cases "length records")
  case 0
  then show ?thesis by (simp add: heap_sort_def heap_loop.simps)
next
  case (Suc r)
  have run: "heap_sort key records (length records) = heap_loop key records (int (Suc (r div 2))) (int r)"
    unfolding heap_sort_def Suc by (simp add: zdiv_int add.commute)
  obtain b where b: "heap_loop key records (int (Suc (r div 2))) (int r) = heap_loop key b 0 (int r)" "heap key b 0 r"
      "length b = length records" "mset b = mset records"
    using heap_build [OF heap_start, of r records key] Suc by auto
  have "big_after key b r" using b(3) Suc by (simp add: big_after_def)
  then obtain c where "heap_loop key b 0 (int r) = Some c" "mset c = mset b" "sorted (map key c)"
    using heap_drain [OF b(2)] b(3) Suc by auto
  then show ?thesis using b unfolding run by simp
qed

end
