(* ===== verification/RecordTable.thy ===== *)
theory RecordTable
  imports RecordData RecordSort
begin

text \<open>
  \<open>src/src/record/record.c\<close>, second half: the hash table of the records by their uid and searching
  it, sorting and filtering a list of records. Traversals with the safe macros take the list as it
  is when they start; their bodies only unlink the record they are at.
\<close>

section \<open>The table\<close>

definition FOUND :: nat where "FOUND = 1"

definition get_uid :: "record_context \<Rightarrow> rid \<Rightarrow> block option" where
  "get_uid rctx re = do { r \<leftarrow> rc_mem rctx re; u \<leftarrow> re_uid r; el \<leftarrow> rd (re_data r) u; data_ptr (el_data el) }"

definition hashfn :: "block \<Rightarrow> nat option" where
  "hashfn uid = do { a \<leftarrow> rdc uid 14; b \<leftarrow> rdc uid 15; Some (unat ((scast a XOR scast b :: u32) AND of_nat RECORD_HASH_MASK)) }"

definition is_same_uid :: "record_context \<Rightarrow> nat \<Rightarrow> block \<Rightarrow> bool \<Rightarrow> bool option" where
  "is_same_uid rctx k uid ret_if_empty = do {
     b \<leftarrow> rd (rc_uid rctx) k;
     case b of
       [] \<Rightarrow> Some ret_if_empty
     | n # _ \<Rightarrow> do { u \<leftarrow> get_uid rctx n; s \<leftarrow> cstr uid; t \<leftarrow> cstr u; Some (s = t) } }"

text \<open>\<open>for (i = \<dots>) if (is_same_uid(heads + i, \<dots>)) break;\<close>\<close>

fun find_same :: "record_context \<Rightarrow> block \<Rightarrow> bool \<Rightarrow> nat list \<Rightarrow> nat option option" where
  "find_same rctx uid e [] = Some None"
| "find_same rctx uid e (k # ks) = do { m \<leftarrow> is_same_uid rctx k uid e; if m then Some (Some k) else find_same rctx uid e ks }"

fun move_to :: "nat \<Rightarrow> rid list \<Rightarrow> record_context \<Rightarrow> record_context option" where
  "move_to head [] rctx = Some rctx"
| "move_to head (re # res) rctx = do {
     rctx \<leftarrow> record_list_del rctx re;
     rctx \<leftarrow> record_list_add_tail rctx re head;
     move_to head res rctx }"

definition search_uid :: "record_context \<Rightarrow> block \<Rightarrow> nat \<Rightarrow> record_context option" where
  "search_uid rctx uid head = do {
     key \<leftarrow> hashfn uid;
     m \<leftarrow> is_same_uid rctx key uid False;
     if m then do { b \<leftarrow> rd (rc_uid rctx) key; move_to head b rctx }
     else do {
       let key = key + RECORD_HASH_SIZE;
       m \<leftarrow> is_same_uid rctx key uid False;
       if m then do { b \<leftarrow> rd (rc_uid rctx) key; move_to head b rctx }
       else do {
         found \<leftarrow> find_same rctx uid False [0..<RECORD_HASHTABLE_SIZE];
         case found of None \<Rightarrow> Some rctx | Some key \<Rightarrow> do { b \<leftarrow> rd (rc_uid rctx) key; move_to head b rctx } } } }"

definition make_step :: "record_context \<Rightarrow> rid \<Rightarrow> record_context option" where
  "make_step rctx re = do {
     uid \<leftarrow> get_uid rctx re;
     key \<leftarrow> hashfn uid;
     m \<leftarrow> is_same_uid rctx key uid True;
     if m then record_hlist_add_head rctx re key
     else do {
       m \<leftarrow> is_same_uid rctx (key + RECORD_HASH_SIZE) uid True;
       if m then record_hlist_add_head rctx re (key + RECORD_HASH_SIZE)
       else do {
         i \<leftarrow> find_same rctx uid True [RECORD_HASH_SIZE..<RECORD_HASHTABLE_SIZE];
         case i of
           Some i \<Rightarrow> record_hlist_add_head rctx re i
         | None \<Rightarrow> do {
             i \<leftarrow> find_same rctx uid True [0..<RECORD_HASH_SIZE];
             case i of
               Some i \<Rightarrow> record_hlist_add_head rctx re i
             | None \<Rightarrow> let i = RECORD_HASH_SIZE in if i = RECORD_HASHTABLE_SIZE then free_record rctx re else Some rctx } } } }"

fun each_record :: "(record_context \<Rightarrow> rid \<Rightarrow> record_context option) \<Rightarrow> rid list \<Rightarrow> record_context \<Rightarrow> record_context option" where
  "each_record f [] rctx = Some rctx"
| "each_record f (re # res) rctx = do { rctx \<leftarrow> f rctx re; each_record f res rctx }"

definition make_uid_hashtable :: "record_context \<Rightarrow> record_context option" where
  "make_uid_hashtable rctx = each_record make_step (rc_lists rctx RECORDS) rctx"

definition scan_table :: "(record_context \<Rightarrow> rid \<Rightarrow> record_context option) \<Rightarrow> record_context \<Rightarrow> record_context option" where
  "scan_table action rctx = for_range 0 RECORD_HASHTABLE_SIZE
     (\<lambda>i rctx. do { b \<leftarrow> rd (rc_uid rctx) i; each_record action b rctx }) rctx"

section \<open>Looking at elements\<close>

fun find_el :: "byte list \<Rightarrow> element list \<Rightarrow> element option" where
  "find_el name [] = None"
| "find_el name (el # els) = (if el_name el = name then Some el else find_el name els)"

definition default_search_action :: "nat \<Rightarrow> record_context \<Rightarrow> rid \<Rightarrow> record_context option" where
  "default_search_action head rctx re = do {
     r \<leftarrow> rc_mem rctx re;
     case find_el (chars ''command'') (re_data r) of
       None \<Rightarrow> Some rctx
     | Some el \<Rightarrow> do {
         v \<leftarrow> data_bigint (el_data el);
         if v = 2 then do { rctx \<leftarrow> record_list_del rctx re; record_list_add_tail rctx re head } else Some rctx } }"

partial_function (option) strchr :: "block \<Rightarrow> nat \<Rightarrow> byte \<Rightarrow> nat option option" where
  "strchr b p c = do { d \<leftarrow> rdc b p; if d = c then Some (Some p) else if d = 0 then Some None else strchr b (p + 1) c }"

definition is_hbp :: "element list \<Rightarrow> bool option" where
  "is_hbp els = do {
     hbp \<leftarrow> (case find_el (chars ''command'') els of
        None \<Rightarrow> Some False
      | Some el \<Rightarrow> do { v \<leftarrow> data_bigint (el_data el); Some (v = 2) });
     if \<not> hbp then Some False
     else case find_el (chars ''ext_data'') els of
        None \<Rightarrow> Some False
      | Some el \<Rightarrow>
          if data_null (el_data el) then Some False
          else do {
            b \<leftarrow> data_ptr (el_data el);
            if el_size el < int (length (chars ''<P2P><D2R_HB><uid>'')) then Some False
            else do {
              ptr \<leftarrow> strchr b (length (chars ''<P2P><D2R_HB><uid>'')) 62;
              case ptr of
                None \<Rightarrow> Some False
              | Some ptr \<Rightarrow> do { m \<leftarrow> starts (rdc b) (ptr + 1) (chars ''<sid_list>''); Some (\<not> m) } } } }"

definition exclude_none_HBP :: "record_context \<Rightarrow> rid \<Rightarrow> (int \<times> record_context) option" where
  "exclude_none_HBP rctx re = do {
     r \<leftarrow> rc_mem rctx re;
     hbp \<leftarrow> is_hbp (re_data r);
     rctx \<leftarrow> (if hbp then Some rctx else free_record rctx re);
     Some (0, rctx) }"

definition filter_record :: "nat \<Rightarrow> nat option \<Rightarrow> (record_context \<Rightarrow> rid \<Rightarrow> (int \<times> record_context) option) \<Rightarrow> record_context \<Rightarrow> (int \<times> record_context) option" where
  "filter_record head dest filt rctx = do {
     rctx \<leftarrow> each_record (\<lambda>rctx re. do {
       (ret, rctx) \<leftarrow> filt rctx re;
       case (ret \<noteq> 0, dest) of
         (True, Some d) \<Rightarrow> do { rctx \<leftarrow> record_list_del rctx re; record_list_add_tail rctx re d }
       | _ \<Rightarrow> Some rctx }) (rc_lists rctx head) rctx;
     Some (0, rctx) }"

section \<open>Sorting a list\<close>

fun find_column :: "byte list \<Rightarrow> nat \<Rightarrow> element list \<Rightarrow> nat option" where
  "find_column name i [] = None"
| "find_column name i (el # els) = (if el_name el = name then Some i else find_column name (Suc i) els)"

fun set_keys :: "byte list \<Rightarrow> nat option \<Rightarrow> rid list \<Rightarrow> record_context \<Rightarrow> (int \<times> record_context) option" where
  "set_keys name key [] rctx = Some (0, rctx)"
| "set_keys name key (re # res) rctx = do {
     r \<leftarrow> rc_mem rctx re;
     case (case key of Some k \<Rightarrow> Some k | None \<Rightarrow> find_column name 0 (re_data r)) of
       None \<Rightarrow> Some (- EINVAL, rctx)
     | Some k \<Rightarrow> do {
         el \<leftarrow> rd (re_data r) k;
         set_keys name (Some k) res (rctx\<lparr>rc_mem := (rc_mem rctx)(re \<mapsto> r\<lparr>re_key := Some k\<rparr>)\<rparr>) } }"

definition key_of :: "record_context \<Rightarrow> rid \<Rightarrow> int option" where
  "key_of rctx re = do { r \<leftarrow> rc_mem rctx re; k \<leftarrow> re_key r; el \<leftarrow> rd (re_data r) k; data_bigint (el_data el) }"

definition sort_record_by :: "nat \<Rightarrow> byte list \<Rightarrow> record_context \<Rightarrow> (int \<times> record_context) option" where
  "sort_record_by head name rctx = do {
     (ret, rctx) \<leftarrow> set_keys name None (rc_lists rctx head) rctx;
     let records = rc_lists rctx head;
     if ret < 0 then Some (ret, rctx)
     else if records = [] then Some (0, rctx)
     else let (ok, mal) = malloc (rc_mal rctx); rctx = rctx\<lparr>rc_mal := mal\<rparr> in
       if \<not> ok then Some (- ENOMEM, rctx)
       else do {
         rctx \<leftarrow> each_record record_list_del records rctx;
         if \<forall>re \<in> set records. key_of rctx re \<noteq> None then do {
           records \<leftarrow> quick_sort (\<lambda>re. the (key_of rctx re)) records (length records);
           rctx \<leftarrow> each_record (\<lambda>rctx re. record_list_add_tail rctx re head) records rctx;
           Some (0, rctx) }
         else None } }"

section \<open>The context, and one query\<close>

text \<open>Neither \<open>cn\<close> nor \<open>title\<close> of the new context is set.\<close>

definition alloc_record_context :: "bool list \<Rightarrow> (titles \<times> record_context) option" where
  "alloc_record_context mal =
     (let (ok, mal) = malloc mal in
      if \<not> ok then None
      else let (ok, mal) = malloc mal in
        if \<not> ok then None
        else Some (\<lparr>ti_cn = None, ti_ptr = Title_unset\<rparr>,
          \<lparr>rc_mem = (\<lambda>_. None), rc_new = 0, rc_lists = (\<lambda>_. []), rc_uid = replicate RECORD_HASHTABLE_SIZE [], rc_title = [], rc_mal = mal\<rparr>))"

text \<open>
  The second loop of \<open>free_record_context\<close> frees the first \<open>cn\<close> slots of the block. Undefined are: a \<open>cn\<close>
  that was never set, a \<open>title\<close> that is null or was never set (where a slot is read, or it is itself
  freed), a slot behind the block, and one that was never set.
\<close>

fun free_slots :: "nat \<Rightarrow> element option list \<Rightarrow> unit option" where
  "free_slots 0 slots = Some ()"
| "free_slots (Suc n) [] = None"
| "free_slots (Suc n) (None # slots) = None"
| "free_slots (Suc n) (Some el # slots) = free_slots n slots"

definition free_titles :: "titles \<Rightarrow> unit option" where
  "free_titles t = do {
     cn \<leftarrow> ti_cn t;
     _ \<leftarrow> (if 0 < cn then do { slots \<leftarrow> title_slots (ti_ptr t); free_slots (nat cn) slots } else Some ());
     if ti_ptr t = Title_unset then None else Some () }"

definition free_record_context :: "titles \<Rightarrow> record_context \<Rightarrow> record_context option" where
  "free_record_context t rctx = do {
     rctx \<leftarrow> scan_table free_record rctx;
     _ \<leftarrow> free_titles t;
     Some (rctx\<lparr>rc_title := [], rc_uid := []\<rparr>) }"

text \<open>
  A pass of the loop of \<open>main\<close>: the line loses its line end, the records found are sorted by date
  and dumped (the result here), and go back to the records.
\<close>

definition query :: "record_context \<Rightarrow> block \<Rightarrow> (rid list \<times> record_context) option" where
  "query rctx buf = do {
     s \<leftarrow> cstr buf;
     if s = [] then None
     else do {
       let buf = (if last s = 10 then buf[length s - 1 := Some 0] else buf);
       let rctx = rctx\<lparr>rc_lists := (rc_lists rctx)(FOUND := [])\<rparr>;
       rctx \<leftarrow> search_uid rctx buf FOUND;
       if rc_lists rctx FOUND = [] then Some ([], rctx)
       else do {
         (ret, rctx) \<leftarrow> sort_record_by FOUND (chars ''date'') rctx;
         let dumped = rc_lists rctx FOUND;
         rctx \<leftarrow> move_to RECORDS dumped rctx;
         Some (dumped, rctx) } } }"

section \<open>Uids\<close>

definition uid_str :: "record_context \<Rightarrow> rid \<Rightarrow> byte list option" where
  "uid_str rctx re = do { b \<leftarrow> get_uid rctx re; cstr b }"

text \<open>Every record has a uid of at least fifteen characters, those the hash looks at included.\<close>

definition records_ok :: "record_context \<Rightarrow> bool" where
  "records_ok rctx \<longleftrightarrow> (\<forall>re r. rc_mem rctx re = Some r \<longrightarrow> (\<exists>s. uid_str rctx re = Some s \<and> 15 \<le> length s))"

definition hash_of :: "byte list \<Rightarrow> nat" where
  "hash_of s = unat ((scast ((s @ [0]) ! 14) XOR scast ((s @ [0]) ! 15) :: u32) AND of_nat RECORD_HASH_MASK)"

lemma hashfn_str:
  assumes "cstr b = Some s" and "15 \<le> length s"
  shows "hashfn b = Some (hash_of s)"
proof -
  obtain r where b: "b = map Some s @ Some 0 # r" using cstr_Some [OF assms(1)] by blast
  have "rdc b 14 = Some ((s @ [0]) ! 14)" "rdc b 15 = Some ((s @ [0]) ! 15)"
    using assms(2) unfolding b by (auto simp: rdc_nth nth_append)
  then show ?thesis by (simp add: hashfn_def hash_of_def)
qed

lemma hash_of_less: "hash_of s < RECORD_HASH_SIZE"
proof -
  have m: "(of_nat RECORD_HASH_MASK :: u32) = mask 7" by (simp add: RECORD_HASH_MASK_def RECORD_HASH_SIZE_def mask_eq_exp_minus_1)
  have "unat (w AND mask 7) < 2 ^ 7" for w :: u32
    unfolding take_bit_eq_mask [symmetric] unsigned_take_bit_eq by (rule take_bit_nat_less_exp)
  then show ?thesis unfolding hash_of_def m by (simp add: RECORD_HASH_SIZE_def)
qed

text \<open>The uid of a bucket is that of its first record.\<close>

definition head_str :: "record_context \<Rightarrow> nat \<Rightarrow> byte list option" where
  "head_str rctx k = (case rc_uid rctx ! k of [] \<Rightarrow> None | n # _ \<Rightarrow> uid_str rctx n)"

lemma head_str_Some:
  assumes "links_ok rctx" and "records_ok rctx" and "k < RECORD_HASHTABLE_SIZE" and "rc_uid rctx ! k = n # ns"
  shows "\<exists>s. head_str rctx k = Some s \<and> uid_str rctx n = Some s"
proof -
  have "n \<in> set (rc_uid rctx ! k)" using assms(4) by simp
  then obtain r where "rc_mem rctx n = Some r" using links_ok_bucket [OF assms(1,3)] by blast
  then show ?thesis using assms(2,4) by (auto simp: records_ok_def head_str_def)
qed

lemma head_str_None:
  assumes "links_ok rctx" and "records_ok rctx" and "k < RECORD_HASHTABLE_SIZE"
  shows "head_str rctx k = None \<longleftrightarrow> rc_uid rctx ! k = []"
  using head_str_Some [OF assms] by (cases "rc_uid rctx ! k") (auto simp: head_str_def)

definition fits :: "record_context \<Rightarrow> byte list \<Rightarrow> bool \<Rightarrow> nat \<Rightarrow> bool" where
  "fits rctx s e k = (case head_str rctx k of None \<Rightarrow> e | Some t \<Rightarrow> s = t)"

lemma is_same_uid_eq:
  assumes "links_ok rctx" and "records_ok rctx" and "k < RECORD_HASHTABLE_SIZE" and "cstr uid = Some s"
  shows "is_same_uid rctx k uid e = Some (fits rctx s e k)"
proof (cases "rc_uid rctx ! k")
  case Nil
  then show ?thesis using links_ok_length [OF assms(1)] assms(3) by (simp add: is_same_uid_def rd_eq fits_def head_str_def)
next
  case (Cons n ns)
  obtain t where t: "head_str rctx k = Some t" "uid_str rctx n = Some t" using head_str_Some [OF assms(1-3) Cons] by blast
  obtain u where u: "get_uid rctx n = Some u" "cstr u = Some t" using t(2) unfolding uid_str_def by (cases "get_uid rctx n") auto
  show ?thesis using Cons links_ok_length [OF assms(1)] assms(3,4) t u by (simp add: is_same_uid_def rd_eq fits_def)
qed

lemma find_same_eq:
  assumes "links_ok rctx" and "records_ok rctx" and "cstr uid = Some s" and "\<forall>k \<in> set ks. k < RECORD_HASHTABLE_SIZE"
  shows "find_same rctx uid e ks = Some (find (fits rctx s e) ks)"
  using assms(4) by (induction ks) (simp_all add: is_same_uid_eq [OF assms(1,2) _ assms(3)])

section \<open>Where a record goes, and is found\<close>

text \<open>The buckets in the order \<open>make_uid_hashtable\<close> and \<open>search_uid\<close> try them.\<close>

definition probe :: "nat \<Rightarrow> nat list" where
  "probe h = [h, h + RECORD_HASH_SIZE] @ [RECORD_HASH_SIZE..<RECORD_HASHTABLE_SIZE] @ [0..<RECORD_HASH_SIZE]"

definition search_order :: "nat \<Rightarrow> nat list" where
  "search_order h = [h, h + RECORD_HASH_SIZE] @ [0..<RECORD_HASHTABLE_SIZE]"

lemma table_sizes: "RECORD_HASHTABLE_SIZE = RECORD_HASH_SIZE + RECORD_HASH_SIZE" "RECORD_HASH_SIZE \<noteq> RECORD_HASHTABLE_SIZE"
  by (simp_all add: RECORD_HASHTABLE_SIZE_def RECORD_HASH_SIZE_def)

lemma set_probe: "h < RECORD_HASH_SIZE \<Longrightarrow> set (probe h) = {0..<RECORD_HASHTABLE_SIZE}"
  by (auto simp: probe_def table_sizes)

lemma set_search_order: "h < RECORD_HASH_SIZE \<Longrightarrow> set (search_order h) = {0..<RECORD_HASHTABLE_SIZE}"
  by (auto simp: search_order_def table_sizes)

lemma find_append: "find f (as @ bs) = (case find f as of Some k \<Rightarrow> Some k | None \<Rightarrow> find f bs)"
  by (induction as) auto

lemma make_step_eq:
  assumes lk: "links_ok rctx" and ok: "records_ok rctx" and s: "uid_str rctx re = Some s" "15 \<le> length s"
  shows "make_step rctx re = (case find (fits rctx s True) (probe (hash_of s)) of Some k \<Rightarrow> record_hlist_add_head rctx re k | None \<Rightarrow> Some rctx)"
proof -
  obtain u where u: "get_uid rctx re = Some u" "cstr u = Some s" using s(1) unfolding uid_str_def by (cases "get_uid rctx re") auto
  have h: "hashfn u = Some (hash_of s)" by (rule hashfn_str [OF u(2) s(2)])
  note b = hash_of_less [of s]
  have same: "is_same_uid rctx (hash_of s) u True = Some (fits rctx s True (hash_of s))"
      "is_same_uid rctx (hash_of s + RECORD_HASH_SIZE) u True = Some (fits rctx s True (hash_of s + RECORD_HASH_SIZE))"
    by (rule is_same_uid_eq [OF lk ok _ u(2)]; use b in \<open>simp add: table_sizes\<close>)+
  have f: "find_same rctx u True [RECORD_HASH_SIZE..<RECORD_HASHTABLE_SIZE] = Some (find (fits rctx s True) [RECORD_HASH_SIZE..<RECORD_HASHTABLE_SIZE])"
      "find_same rctx u True [0..<RECORD_HASH_SIZE] = Some (find (fits rctx s True) [0..<RECORD_HASH_SIZE])"
    by (rule find_same_eq [OF lk ok u(2)]; simp add: table_sizes)+
  show ?thesis
    unfolding make_step_def u(1) h Option.bind.simps same f
    by (simp add: probe_def find_append table_sizes(2) Let_def split: option.splits)
qed

lemma search_uid_eq:
  assumes lk: "links_ok rctx" and ok: "records_ok rctx" and s: "cstr uid = Some s" "15 \<le> length s"
  shows "search_uid rctx uid head = (case find (fits rctx s False) (search_order (hash_of s)) of
    Some k \<Rightarrow> do { b \<leftarrow> rd (rc_uid rctx) k; move_to head b rctx } | None \<Rightarrow> Some rctx)"
proof -
  have h: "hashfn uid = Some (hash_of s)" by (rule hashfn_str [OF s])
  note b = hash_of_less [of s]
  have same: "is_same_uid rctx (hash_of s) uid False = Some (fits rctx s False (hash_of s))"
      "is_same_uid rctx (hash_of s + RECORD_HASH_SIZE) uid False = Some (fits rctx s False (hash_of s + RECORD_HASH_SIZE))"
    by (rule is_same_uid_eq [OF lk ok _ s(1)]; use b in \<open>simp add: table_sizes\<close>)+
  have f: "find_same rctx uid False [0..<RECORD_HASHTABLE_SIZE] = Some (find (fits rctx s False) [0..<RECORD_HASHTABLE_SIZE])"
    by (rule find_same_eq [OF lk ok s(1)]) simp
  show ?thesis
    unfolding search_uid_def h Option.bind.simps same f Let_def
    by (simp add: search_order_def find_append split: option.splits)
qed

section \<open>The table's invariant\<close>

text \<open>
  All records of a bucket have one uid, and the buckets tried before it for that uid are taken by
  other uids; so no two buckets have the same uid.
\<close>

definition table_inv :: "record_context \<Rightarrow> bool" where
  "table_inv rctx \<longleftrightarrow> (\<forall>k < RECORD_HASHTABLE_SIZE. (\<forall>re \<in> set (rc_uid rctx ! k). uid_str rctx re = head_str rctx k)
     \<and> (\<forall>s. head_str rctx k = Some s \<longrightarrow> (\<forall>i \<in> set (takeWhile (\<lambda>i. i \<noteq> k) (probe (hash_of s))). rc_uid rctx ! i \<noteq> [] \<and> head_str rctx i \<noteq> Some s)))"

lemma before_or_after:
  "j \<in> set xs \<Longrightarrow> k \<in> set xs \<Longrightarrow> j \<noteq> k \<Longrightarrow> j \<in> set (takeWhile (\<lambda>i. i \<noteq> k) xs) \<or> k \<in> set (takeWhile (\<lambda>i. i \<noteq> j) xs)"
  by (induction xs) auto

lemma find_hit: "find P xs = Some k \<Longrightarrow> P k \<and> k \<in> set xs"
  by (induction xs) (auto split: if_splits)

lemma find_before: "find P xs = Some k \<Longrightarrow> i \<in> set (takeWhile (\<lambda>i. i \<noteq> k) xs) \<Longrightarrow> \<not> P i"
  by (induction xs) (auto split: if_splits)

lemma table_inv_unique:
  assumes "table_inv rctx" and "j < RECORD_HASHTABLE_SIZE" and "k < RECORD_HASHTABLE_SIZE" and "head_str rctx j = Some s" and "head_str rctx k = Some s"
  shows "j = k"
proof (rule ccontr)
  assume "j \<noteq> k"
  moreover have "j \<in> set (probe (hash_of s))" "k \<in> set (probe (hash_of s))" using assms(2,3) set_probe [OF hash_of_less] by auto
  ultimately show False using before_or_after [of j "probe (hash_of s)" k] assms unfolding table_inv_def by blast
qed

text \<open>Operations on the links leave the contents of the records alone.\<close>

definition same_data :: "record_context \<Rightarrow> record_context \<Rightarrow> bool" where
  "same_data s t \<longleftrightarrow> (\<forall>re. map_option (\<lambda>r. (re_data r, re_uid r)) (rc_mem s re) = map_option (\<lambda>r. (re_data r, re_uid r)) (rc_mem t re))"

lemma same_data_uid: "same_data s t \<Longrightarrow> uid_str s = uid_str t"
proof
  fix re assume "same_data s t"
  then have "map_option (\<lambda>r. (re_data r, re_uid r)) (rc_mem s re) = map_option (\<lambda>r. (re_data r, re_uid r)) (rc_mem t re)"
    unfolding same_data_def by blast
  then show "uid_str s re = uid_str t re"
    by (cases "rc_mem s re"; cases "rc_mem t re") (auto simp: uid_str_def get_uid_def)
qed

lemma same_data_records: "same_data s t \<Longrightarrow> records_ok s \<Longrightarrow> records_ok t"
  unfolding records_ok_def
proof (intro allI impI)
  fix re r assume sd: "same_data s t" and ok: "\<forall>re r. rc_mem s re = Some r \<longrightarrow> (\<exists>x. uid_str s re = Some x \<and> 15 \<le> length x)" and r: "rc_mem t re = Some r"
  have "map_option (\<lambda>r. (re_data r, re_uid r)) (rc_mem s re) = map_option (\<lambda>r. (re_data r, re_uid r)) (rc_mem t re)"
    using sd unfolding same_data_def by blast
  then obtain r' where "rc_mem s re = Some r'" using r by (cases "rc_mem s re") auto
  then show "\<exists>x. uid_str t re = Some x \<and> 15 \<le> length x" using ok same_data_uid [OF sd] by simp
qed

lemma same_data_refl [simp]: "same_data s s" by (simp add: same_data_def)
lemma same_data_trans: "same_data s t \<Longrightarrow> same_data t u \<Longrightarrow> same_data s u" by (simp add: same_data_def)

text \<open>What a step of \<open>make_uid_hashtable\<close> keeps: lists, contents and list links; the table only grows.\<close>

definition grown :: "record_context \<Rightarrow> record_context \<Rightarrow> bool" where
  "grown s t \<longleftrightarrow> same_data s t \<and> rc_lists t = rc_lists s
     \<and> (\<forall>re. map_option re_on (rc_mem t re) = map_option re_on (rc_mem s re))
     \<and> (\<forall>k < RECORD_HASHTABLE_SIZE. set (rc_uid s ! k) \<subseteq> set (rc_uid t ! k) \<and> (\<forall>x. head_str s k = Some x \<longrightarrow> head_str t k = Some x))"

lemma grown_refl [simp]: "grown s s" by (simp add: grown_def)
lemma grown_trans: "grown s t \<Longrightarrow> grown t u \<Longrightarrow> grown s u"
  unfolding grown_def using same_data_trans by fastforce

definition placed :: "record_context \<Rightarrow> rid \<Rightarrow> bool" where
  "placed rctx re \<longleftrightarrow> (\<exists>k < RECORD_HASHTABLE_SIZE. re \<in> set (rc_uid rctx ! k))
     \<or> (\<forall>k < RECORD_HASHTABLE_SIZE. rc_uid rctx ! k \<noteq> [] \<and> head_str rctx k \<noteq> uid_str rctx re)"

lemma make_step_ok:
  assumes lk: "links_ok rctx" and ok: "records_ok rctx" and inv: "table_inv rctx" and r: "rc_mem rctx re = Some r" "re_bucket r = None"
  shows "\<exists>t. make_step rctx re = Some t \<and> links_ok t \<and> table_inv t \<and> grown rctx t \<and> placed t re
    \<and> (\<forall>x. x \<noteq> re \<longrightarrow> rc_mem t x = rc_mem rctx x)"
proof -
  obtain s where s: "uid_str rctx re = Some s" "15 \<le> length s" using ok r(1) unfolding records_ok_def by blast
  note pr = set_probe [OF hash_of_less, of s]
  show ?thesis
  proof (cases "find (fits rctx s True) (probe (hash_of s))")
    case None
    then have no: "\<not> fits rctx s True k" if "k < RECORD_HASHTABLE_SIZE" for k using that pr unfolding find_None_iff by auto
    have "rc_uid rctx ! k \<noteq> [] \<and> head_str rctx k \<noteq> uid_str rctx re" if "k < RECORD_HASHTABLE_SIZE" for k
      using no [OF that] s(1) head_str_None [OF lk ok that] by (auto simp: fits_def)
    then have "placed rctx re" unfolding placed_def by blast
    then show ?thesis using make_step_eq [OF lk ok s] None lk inv by simp
  next
    case (Some k)
    then have k: "k < RECORD_HASHTABLE_SIZE" "fits rctx s True k" using find_hit [OF Some] pr by auto
    have before: "\<not> fits rctx s True i" if "i \<in> set (takeWhile (\<lambda>i. i \<noteq> k) (probe (hash_of s)))" for i
      by (rule find_before [OF Some that])
    have len: "length (rc_uid rctx) = RECORD_HASHTABLE_SIZE" by (rule links_ok_length [OF lk])
    obtain t where t: "record_hlist_add_head rctx re k = Some t" "links_ok t" "t = rctx\<lparr>rc_mem := (rc_mem rctx)(re \<mapsto> r\<lparr>re_bucket := Some k\<rparr>),
        rc_uid := (rc_uid rctx)[k := re # (rc_uid rctx ! k)]\<rparr>" using record_hlist_add_head_ok [OF lk r k(1)] by blast
    have sd: "same_data rctx t" unfolding t(3) same_data_def using r by auto
    note us = same_data_uid [OF sd, symmetric]
    have ub: "rc_uid t = (rc_uid rctx)[k := re # (rc_uid rctx ! k)]" unfolding t(3) by simp
    have hk: "head_str t k = Some s" using k(1) len s(1) by (simp add: head_str_def ub us)
    have ho: "head_str t j = head_str rctx j" if "j \<noteq> k" for j using that by (simp add: head_str_def ub us split: list.split)
    have hk0: "head_str rctx k = None \<or> head_str rctx k = Some s" using k(2) by (auto simp: fits_def split: option.splits)
    have gr: "grown rctx t"
      unfolding grown_def
    proof (intro conjI allI impI)
      show "same_data rctx t" by (rule sd)
      show "rc_lists t = rc_lists rctx" unfolding t(3) by simp
      show "map_option re_on (rc_mem t x) = map_option re_on (rc_mem rctx x)" for x unfolding t(3) using r by simp
      show "set (rc_uid rctx ! j) \<subseteq> set (rc_uid t ! j)" if "j < RECORD_HASHTABLE_SIZE" for j
        using that len by (cases "j = k") (auto simp: ub)
      show "head_str t j = Some x" if "head_str rctx j = Some x" for j x
        using that ho hk hk0 by (cases "j = k") auto
    qed
    have inv': "table_inv t" unfolding table_inv_def
    proof (intro allI impI conjI ballI)
      fix j x assume j: "j < RECORD_HASHTABLE_SIZE" and x: "x \<in> set (rc_uid t ! j)"
      show "uid_str t x = head_str t j"
      proof (cases "j = k")
        case True
        then have "x = re \<or> x \<in> set (rc_uid rctx ! k)" using x k(1) len by (simp add: ub)
        moreover have "uid_str rctx x = Some s" if "x \<in> set (rc_uid rctx ! k)"
        proof -
          have "rc_uid rctx ! k \<noteq> []" using that by auto
          then have "head_str rctx k = Some s" using hk0 head_str_None [OF lk ok k(1)] by auto
          then show ?thesis using inv k(1) that unfolding table_inv_def by metis
        qed
        ultimately show ?thesis using True hk s(1) by (auto simp: us)
      next
        case False
        then show ?thesis using x j inv ho [OF False] by (simp add: ub us table_inv_def)
      qed
    next
      fix j u i assume j: "j < RECORD_HASHTABLE_SIZE" and u: "head_str t j = Some u" and i: "i \<in> set (takeWhile (\<lambda>i. i \<noteq> j) (probe (hash_of u)))"
      have il: "i < RECORD_HASHTABLE_SIZE" using i set_takeWhileD set_probe [OF hash_of_less, of u] by fastforce
      have ij: "i \<noteq> j" using i set_takeWhileD by fastforce
      have "rc_uid rctx ! i \<noteq> [] \<and> head_str rctx i \<noteq> Some u"
      proof (cases "head_str rctx j = Some u")
        case True
        then show ?thesis using inv j i unfolding table_inv_def by blast
      next
        case False
        then have jk: "j = k" using u ho by metis
        then have "u = s" using u hk by simp
        then have "\<not> fits rctx s True i" using before i jk by simp
        then show ?thesis using \<open>u = s\<close> head_str_None [OF lk ok il] by (auto simp: fits_def split: option.splits)
      qed
      moreover have "head_str t i = head_str rctx i" if "rc_uid rctx ! i \<noteq> []"
        using that ho hk hk0 head_str_None [OF lk ok k(1)] by (cases "i = k") auto
      ultimately show "rc_uid t ! i \<noteq> []" "head_str t i \<noteq> Some u"
        using il k(1) len by (auto simp: ub nth_list_update)
    qed
    have pl: "placed t re" unfolding placed_def using k(1) len by (auto simp: ub)
    show ?thesis using make_step_eq [OF lk ok s] Some t(1,2) gr inv' pl t(3) by auto
  qed
qed

lemma placed_grown:
  assumes "placed s re" and "grown s t" and "links_ok s" and "records_ok s" and "links_ok t"
  shows "placed t re"
proof -
  have us: "uid_str t = uid_str s" using assms(2) same_data_uid unfolding grown_def by metis
  have "rc_uid t ! k \<noteq> [] \<and> head_str t k \<noteq> uid_str t re"
    if k: "k < RECORD_HASHTABLE_SIZE" and h: "rc_uid s ! k \<noteq> [] \<and> head_str s k \<noteq> uid_str s re" for k
  proof -
    obtain x where "head_str s k = Some x" using h head_str_None [OF assms(3,4) k] by auto
    moreover have "set (rc_uid s ! k) \<subseteq> set (rc_uid t ! k)" using assms(2) k unfolding grown_def by blast
    ultimately show ?thesis using k h assms(2) us unfolding grown_def by fastforce
  qed
  then show ?thesis using assms(1,2) unfolding placed_def grown_def by (metis subsetD)
qed

lemma make_loop_ok:
  assumes "links_ok rctx" and "records_ok rctx" and "table_inv rctx" and "distinct res"
    and "\<forall>re \<in> set res. \<exists>r. rc_mem rctx re = Some r \<and> re_bucket r = None"
  shows "\<exists>t. each_record make_step res rctx = Some t \<and> links_ok t \<and> table_inv t \<and> grown rctx t \<and> (\<forall>re \<in> set res. placed t re)"
  using assms
proof (induction res arbitrary: rctx)
  case Nil
  then show ?case by auto
next
  case (Cons re res)
  obtain r where r: "rc_mem rctx re = Some r" "re_bucket r = None" using Cons.prems(5) by auto
  obtain t where t: "make_step rctx re = Some t" "links_ok t" "table_inv t" "grown rctx t" "placed t re" "\<forall>x. x \<noteq> re \<longrightarrow> rc_mem t x = rc_mem rctx x"
    using make_step_ok [OF Cons.prems(1-3) r] by blast
  have ok: "records_ok t" by (rule same_data_records [OF _ Cons.prems(2)]) (use t(4) in \<open>simp add: grown_def\<close>)
  obtain u where u: "each_record make_step res t = Some u" "links_ok u" "table_inv u" "grown t u" "\<forall>re \<in> set res. placed u re"
    using Cons.IH [OF t(2) ok t(3)] Cons.prems(4,5) t(6) by fastforce
  then show ?case using t placed_grown [OF t(5) u(4) t(2) ok u(2)] grown_trans [OF t(4) u(4)] by auto
qed

end
