(* ===== verification/RecordQuery.thy ===== *)
theory RecordQuery
  imports RecordTable
begin

text \<open>
  \<open>src/src/record/record.c\<close>: what the table, the searches, the sorted lists, the filter and a query
  achieve, over the links and the contents of the records.
\<close>

section \<open>Moving records between lists\<close>

text \<open>The records are the same but for the list they are linked on.\<close>

definition same_but_on :: "record_context \<Rightarrow> record_context \<Rightarrow> bool" where
  "same_but_on s t \<longleftrightarrow> (\<forall>re. map_option (\<lambda>r. r\<lparr>re_on := None\<rparr>) (rc_mem s re) = map_option (\<lambda>r. r\<lparr>re_on := None\<rparr>) (rc_mem t re))
     \<and> rc_uid s = rc_uid t \<and> rc_title s = rc_title t \<and> rc_mal s = rc_mal t"

lemma same_but_on_refl [simp]: "same_but_on s s" by (simp add: same_but_on_def)
lemma same_but_on_trans: "same_but_on s t \<Longrightarrow> same_but_on t u \<Longrightarrow> same_but_on s u" by (simp add: same_but_on_def)

lemma same_but_on_mem:
  assumes "same_but_on s t" and "rc_mem s re = Some r"
  shows "\<exists>r'. rc_mem t re = Some r' \<and> re_data r' = re_data r \<and> re_uid r' = re_uid r \<and> re_key r' = re_key r \<and> re_bucket r' = re_bucket r"
proof -
  have "map_option (\<lambda>r. r\<lparr>re_on := None\<rparr>) (rc_mem t re) = Some (r\<lparr>re_on := None\<rparr>)"
    using assms unfolding same_but_on_def by (metis option.simps(9))
  then obtain r' where r': "rc_mem t re = Some r'" "r'\<lparr>re_on := None\<rparr> = r\<lparr>re_on := None\<rparr>" by (cases "rc_mem t re") auto
  then show ?thesis by (cases r; cases r') auto
qed

lemma same_but_on_sym: "same_but_on s t \<Longrightarrow> same_but_on t s" by (simp add: same_but_on_def)

lemma same_but_on_None: "same_but_on s t \<Longrightarrow> rc_mem s re = None \<Longrightarrow> rc_mem t re = None"
  using same_but_on_mem [OF same_but_on_sym] by (metis not_None_eq)

lemma same_but_on_data: "same_but_on s t \<Longrightarrow> same_data s t"
  unfolding same_data_def
proof
  fix re assume "same_but_on s t"
  then show "map_option (\<lambda>r. (re_data r, re_uid r)) (rc_mem s re) = map_option (\<lambda>r. (re_data r, re_uid r)) (rc_mem t re)"
    using same_but_on_mem [of s t re] same_but_on_None [of s t re] by (cases "rc_mem s re") auto
qed

lemma same_but_on_key: "same_but_on s t \<Longrightarrow> key_of s re = key_of t re"
  using same_but_on_mem [of s t re] same_but_on_None [of s t re] by (cases "rc_mem s re") (auto simp: key_of_def)

lemma same_but_on_upd: "rc_mem s re = Some r \<Longrightarrow> same_but_on s (s\<lparr>rc_mem := (rc_mem s)(re \<mapsto> r\<lparr>re_on := x\<rparr>), rc_lists := l\<rparr>)"
  by (simp add: same_but_on_def)

lemma del_all_ok:
  assumes "links_ok rctx" and "distinct res" and "\<forall>re \<in> set res. \<exists>r. rc_mem rctx re = Some r \<and> re_on r = Some h"
  shows "\<exists>t. each_record record_list_del res rctx = Some t \<and> links_ok t \<and> same_but_on rctx t
    \<and> rc_lists t = (rc_lists rctx)(h := filter (\<lambda>x. x \<notin> set res) (rc_lists rctx h))
    \<and> (\<forall>re r. rc_mem t re = Some r \<longrightarrow> re \<in> set res \<longrightarrow> re_on r = None)
    \<and> (\<forall>re. re \<notin> set res \<longrightarrow> rc_mem t re = rc_mem rctx re)"
  using assms
proof (induction res arbitrary: rctx)
  case Nil
  then show ?case by (auto simp: fun_upd_idem)
next
  case (Cons re res)
  obtain r where r: "rc_mem rctx re = Some r" "re_on r = Some h" using Cons.prems(3) by auto
  obtain s where s: "record_list_del rctx re = Some s" "links_ok s" "s = rctx\<lparr>rc_mem := (rc_mem rctx)(re \<mapsto> r\<lparr>re_on := None\<rparr>),
    rc_lists := (rc_lists rctx)(h := remove1 re (rc_lists rctx h))\<rparr>" using record_list_del_ok [OF Cons.prems(1) r] by blast
  have sm: "rc_mem s = (rc_mem rctx)(re \<mapsto> r\<lparr>re_on := None\<rparr>)" "rc_lists s = (rc_lists rctx)(h := remove1 re (rc_lists rctx h))" by (simp_all add: s(3))
  have st: "same_but_on rctx s" unfolding s(3) by (rule same_but_on_upd [OF r(1)])
  obtain t where t: "each_record record_list_del res s = Some t" "links_ok t" "same_but_on s t"
      "rc_lists t = (rc_lists s)(h := filter (\<lambda>x. x \<notin> set res) (rc_lists s h))"
      "\<forall>re r. rc_mem t re = Some r \<longrightarrow> re \<in> set res \<longrightarrow> re_on r = None" "\<forall>re. re \<notin> set res \<longrightarrow> rc_mem t re = rc_mem s re"
    using Cons.IH [OF s(2)] Cons.prems(2,3) sm(1) by fastforce
  have "filter (\<lambda>x. x \<notin> set res) (remove1 re (rc_lists rctx h)) = filter (\<lambda>x. x \<notin> set (re # res)) (rc_lists rctx h)"
    unfolding remove1_filter [OF links_ok_distinct [OF Cons.prems(1)]] by (simp add: conj_commute)
  then have "rc_lists t = (rc_lists rctx)(h := filter (\<lambda>x. x \<notin> set (re # res)) (rc_lists rctx h))"
    unfolding t(4) sm(2) by simp
  moreover have "re_on r' = None" if "rc_mem t x = Some r'" "x \<in> set (re # res)" for x r'
    using that t(5,6) sm(1) Cons.prems(2) by auto
  moreover have "\<forall>x. x \<notin> set (re # res) \<longrightarrow> rc_mem t x = rc_mem rctx x" using t(6) sm(1) by simp
  ultimately show ?case using s(1) t(1,2) same_but_on_trans [OF st t(3)] by auto
qed

lemma add_all_ok:
  assumes "links_ok rctx" and "distinct res" and "\<forall>re \<in> set res. \<exists>r. rc_mem rctx re = Some r \<and> re_on r = None"
  shows "\<exists>t. each_record (\<lambda>rctx re. record_list_add_tail rctx re h) res rctx = Some t \<and> links_ok t \<and> same_but_on rctx t
    \<and> rc_lists t = (rc_lists rctx)(h := rc_lists rctx h @ res)"
  using assms
proof (induction res arbitrary: rctx)
  case Nil
  then show ?case by (auto simp: fun_upd_idem)
next
  case (Cons re res)
  obtain r where r: "rc_mem rctx re = Some r" "re_on r = None" using Cons.prems(3) by auto
  obtain s where s: "record_list_add_tail rctx re h = Some s" "links_ok s" "s = rctx\<lparr>rc_mem := (rc_mem rctx)(re \<mapsto> r\<lparr>re_on := Some h\<rparr>),
    rc_lists := (rc_lists rctx)(h := rc_lists rctx h @ [re])\<rparr>" using record_list_add_tail_ok [OF Cons.prems(1) r] by blast
  have sm: "rc_mem s = (rc_mem rctx)(re \<mapsto> r\<lparr>re_on := Some h\<rparr>)" "rc_lists s = (rc_lists rctx)(h := rc_lists rctx h @ [re])" by (simp_all add: s(3))
  have st: "same_but_on rctx s" unfolding s(3) by (rule same_but_on_upd [OF r(1)])
  obtain t where t: "each_record (\<lambda>rctx re. record_list_add_tail rctx re h) res s = Some t" "links_ok t" "same_but_on s t"
      "rc_lists t = (rc_lists s)(h := rc_lists s h @ res)"
    using Cons.IH [OF s(2)] Cons.prems(2,3) sm(1) by fastforce
  have "each_record (\<lambda>rctx re. record_list_add_tail rctx re h) (re # res) rctx = Some t" using s(1) t(1) by simp
  moreover have "rc_lists t = (rc_lists rctx)(h := rc_lists rctx h @ re # res)" unfolding t(4) sm(2) by simp
  ultimately show ?case using t(2) same_but_on_trans [OF st t(3)] by blast
qed

lemma move_to_ok:
  assumes "links_ok rctx" and "distinct res" and "\<forall>re \<in> set res. \<exists>r. rc_mem rctx re = Some r \<and> re_on r = Some h" and "h \<noteq> head"
  shows "\<exists>t. move_to head res rctx = Some t \<and> links_ok t \<and> same_but_on rctx t
    \<and> rc_lists t = (rc_lists rctx)(h := filter (\<lambda>x. x \<notin> set res) (rc_lists rctx h), head := rc_lists rctx head @ res)"
  using assms(1-3)
proof (induction res arbitrary: rctx)
  case Nil
  then show ?case by (auto simp: fun_upd_idem)
next
  case (Cons re res)
  obtain r where r: "rc_mem rctx re = Some r" "re_on r = Some h" using Cons.prems(3) by auto
  obtain s where s: "record_list_del rctx re = Some s" "links_ok s" "s = rctx\<lparr>rc_mem := (rc_mem rctx)(re \<mapsto> r\<lparr>re_on := None\<rparr>),
    rc_lists := (rc_lists rctx)(h := remove1 re (rc_lists rctx h))\<rparr>" using record_list_del_ok [OF Cons.prems(1) r] by blast
  have sm: "rc_mem s re = Some (r\<lparr>re_on := None\<rparr>)" by (simp add: s(3))
  obtain u where u: "record_list_add_tail s re head = Some u" "links_ok u" "u = s\<lparr>rc_mem := (rc_mem s)(re \<mapsto> r\<lparr>re_on := None\<rparr>\<lparr>re_on := Some head\<rparr>),
    rc_lists := (rc_lists s)(head := rc_lists s head @ [re])\<rparr>" using record_list_add_tail_ok [OF s(2) sm, of head] by auto
  have um: "rc_mem u = (rc_mem rctx)(re \<mapsto> r\<lparr>re_on := Some head\<rparr>)"
      "rc_lists u = (rc_lists rctx)(h := remove1 re (rc_lists rctx h), head := rc_lists rctx head @ [re])"
    using assms(4) by (simp_all add: u(3) s(3))
  have su: "same_but_on rctx u" unfolding same_but_on_def um(1) using r(1) by (simp add: u(3) s(3))
  obtain t where t: "move_to head res u = Some t" "links_ok t" "same_but_on u t"
      "rc_lists t = (rc_lists u)(h := filter (\<lambda>x. x \<notin> set res) (rc_lists u h), head := rc_lists u head @ res)"
    using Cons.IH [OF u(2)] Cons.prems(2,3) um(1) by fastforce
  have "filter (\<lambda>x. x \<notin> set res) (remove1 re (rc_lists rctx h)) = filter (\<lambda>x. x \<notin> set (re # res)) (rc_lists rctx h)"
    unfolding remove1_filter [OF links_ok_distinct [OF Cons.prems(1)]] by (simp add: conj_commute)
  then have "rc_lists t = (rc_lists rctx)(h := filter (\<lambda>x. x \<notin> set (re # res)) (rc_lists rctx h), head := rc_lists rctx head @ (re # res))"
    unfolding t(4) um(2) using assms(4) by (simp add: fun_upd_twist)
  moreover have "move_to head (re # res) rctx = Some t" using s(1) u(1) t(1) by simp
  ultimately show ?case using t(2) same_but_on_trans [OF su t(3)] by blast
qed

section \<open>Searching\<close>

text \<open>The records of the table with a uid, in the order of their bucket.\<close>

definition bucket_of :: "record_context \<Rightarrow> byte list \<Rightarrow> rid list" where
  "bucket_of rctx s = (case find (\<lambda>k. head_str rctx k = Some s) [0..<RECORD_HASHTABLE_SIZE] of None \<Rightarrow> [] | Some k \<Rightarrow> rc_uid rctx ! k)"

lemma bucket_of_at:
  assumes "table_inv rctx" and "k < RECORD_HASHTABLE_SIZE" and "head_str rctx k = Some s"
  shows "bucket_of rctx s = rc_uid rctx ! k"
proof (cases "find (\<lambda>k. head_str rctx k = Some s) [0..<RECORD_HASHTABLE_SIZE]")
  case None
  then show ?thesis using assms(2,3) by (auto simp: find_None_iff)
next
  case (Some j)
  then have "j < RECORD_HASHTABLE_SIZE" "head_str rctx j = Some s" using find_hit [OF Some] by auto
  then have "j = k" using table_inv_unique [OF assms(1) _ assms(2) _ assms(3)] by blast
  then show ?thesis using Some by (simp add: bucket_of_def)
qed

lemma set_bucket_of:
  assumes "links_ok rctx" and "records_ok rctx" and "table_inv rctx"
  shows "set (bucket_of rctx s) = {re. uid_str rctx re = Some s \<and> (\<exists>k < RECORD_HASHTABLE_SIZE. re \<in> set (rc_uid rctx ! k))}"
proof -
  have same: "uid_str rctx re = head_str rctx k" if "k < RECORD_HASHTABLE_SIZE" "re \<in> set (rc_uid rctx ! k)" for re k
    using assms(3) that unfolding table_inv_def by blast
  show ?thesis
  proof (cases "\<exists>k < RECORD_HASHTABLE_SIZE. head_str rctx k = Some s")
    case True
    then obtain k where k: "k < RECORD_HASHTABLE_SIZE" "head_str rctx k = Some s" by blast
    show ?thesis unfolding bucket_of_at [OF assms(3) k]
    proof (intro set_eqI iffI)
      fix re assume "re \<in> set (rc_uid rctx ! k)"
      then show "re \<in> {re. uid_str rctx re = Some s \<and> (\<exists>k < RECORD_HASHTABLE_SIZE. re \<in> set (rc_uid rctx ! k))}" using same [OF k(1)] k by auto
    next
      fix re assume "re \<in> {re. uid_str rctx re = Some s \<and> (\<exists>k < RECORD_HASHTABLE_SIZE. re \<in> set (rc_uid rctx ! k))}"
      then obtain j where j: "uid_str rctx re = Some s" "j < RECORD_HASHTABLE_SIZE" "re \<in> set (rc_uid rctx ! j)" by blast
      then have "head_str rctx j = Some s" using same [OF j(2,3)] by simp
      then have "j = k" by (rule table_inv_unique [OF assms(3) j(2) k(1) _ k(2)])
      then show "re \<in> set (rc_uid rctx ! k)" using j(3) by simp
    qed
  next
    case False
    then have "bucket_of rctx s = []" using find_hit [of "\<lambda>k. head_str rctx k = Some s"]
      by (auto simp: bucket_of_def split: option.splits dest: find_hit)
    then show ?thesis using same False by fastforce
  qed
qed

text \<open>Every record of the table is on the list of records.\<close>

definition table_listed :: "record_context \<Rightarrow> bool" where
  "table_listed rctx \<longleftrightarrow> (\<forall>re r. rc_mem rctx re = Some r \<longrightarrow> re_bucket r \<noteq> None \<longrightarrow> re_on r = Some RECORDS)"

lemma search_uid_ok:
  assumes lk: "links_ok rctx" and ok: "records_ok rctx" and inv: "table_inv rctx" and on: "table_listed rctx"
    and s: "cstr uid = Some s" "15 \<le> length s"
  shows "\<exists>t. search_uid rctx uid FOUND = Some t \<and> links_ok t \<and> same_but_on rctx t
    \<and> rc_lists t = (rc_lists rctx)(RECORDS := filter (\<lambda>x. x \<notin> set (bucket_of rctx s)) (rc_lists rctx RECORDS), FOUND := rc_lists rctx FOUND @ bucket_of rctx s)"
proof (cases "find (fits rctx s False) (search_order (hash_of s))")
  case None
  have "head_str rctx k \<noteq> Some s" if "k < RECORD_HASHTABLE_SIZE" for k
    using None that set_search_order [OF hash_of_less, of s] unfolding find_None_iff fits_def by auto
  then have "bucket_of rctx s = []" by (auto simp: bucket_of_def split: option.splits dest: find_hit)
  then show ?thesis using search_uid_eq [OF lk ok s] None lk by (simp add: fun_upd_idem)
next
  case (Some k)
  then have k: "k < RECORD_HASHTABLE_SIZE" "fits rctx s False k" using find_hit [OF Some] set_search_order [OF hash_of_less, of s] by auto
  then have "head_str rctx k = Some s" by (auto simp: fits_def split: option.splits)
  then have b: "bucket_of rctx s = rc_uid rctx ! k" by (rule bucket_of_at [OF inv k(1)])
  have all: "\<forall>re \<in> set (rc_uid rctx ! k). \<exists>r. rc_mem rctx re = Some r \<and> re_on r = Some RECORDS"
    using links_ok_bucket [OF lk k(1)] on unfolding table_listed_def by blast
  have d: "distinct (rc_uid rctx ! k)" using lk k(1) unfolding links_ok_def by blast
  have ne: "RECORDS \<noteq> FOUND" by (simp add: RECORDS_def FOUND_def)
  show ?thesis
    using move_to_ok [OF lk d all ne] search_uid_eq [OF lk ok s, of FOUND] Some k(1) links_ok_length [OF lk] b by (simp add: rd_eq)
qed

section \<open>Sorting\<close>

definition column_val :: "byte list \<Rightarrow> record_context \<Rightarrow> rid \<Rightarrow> int option" where
  "column_val name rctx re = do { r \<leftarrow> rc_mem rctx re; k \<leftarrow> find_column name 0 (re_data r); el \<leftarrow> rd (re_data r) k; data_bigint (el_data el) }"

text \<open>The records have the columns of the table, among them a number column of that name.\<close>

definition has_column :: "byte list \<Rightarrow> byte list list \<Rightarrow> record_context \<Rightarrow> rid \<Rightarrow> bool" where
  "has_column name names rctx re \<longleftrightarrow> (\<exists>r. rc_mem rctx re = Some r \<and> map el_name (re_data r) = names) \<and> column_val name rctx re \<noteq> None"

lemma find_column_names: "map el_name els = map el_name els' \<Longrightarrow> find_column name i els = find_column name i els'"
proof (induction els arbitrary: els' i)
  case (Cons el els)
  then show ?case by (cases els') auto
qed simp

lemma same_data_column: "same_data s t \<Longrightarrow> column_val name s re = column_val name t re \<and> has_column name names s re = has_column name names t re"
proof -
  assume "same_data s t"
  then have "map_option (\<lambda>r. (re_data r, re_uid r)) (rc_mem s re) = map_option (\<lambda>r. (re_data r, re_uid r)) (rc_mem t re)"
    unfolding same_data_def by blast
  then show ?thesis
    by (cases "rc_mem s re"; cases "rc_mem t re") (auto simp: column_val_def has_column_def)
qed

text \<open>\<open>set_keys\<close> changes the keys only, to the column of that name.\<close>

definition keyed :: "record_context \<Rightarrow> record_context \<Rightarrow> bool" where
  "keyed s t \<longleftrightarrow> (\<exists>m. t = s\<lparr>rc_mem := m\<rparr>
     \<and> (\<forall>re. map_option (\<lambda>r. r\<lparr>re_key := None\<rparr>) (m re) = map_option (\<lambda>r. r\<lparr>re_key := None\<rparr>) (rc_mem s re)))"

lemma keyed_trans:
  assumes "keyed s t" and "keyed t u"
  shows "keyed s u"
proof -
  obtain m where m: "t = s\<lparr>rc_mem := m\<rparr>" "\<forall>re. map_option (\<lambda>r. r\<lparr>re_key := None\<rparr>) (m re) = map_option (\<lambda>r. r\<lparr>re_key := None\<rparr>) (rc_mem s re)"
    using assms(1) unfolding keyed_def by blast
  obtain m' where m': "u = t\<lparr>rc_mem := m'\<rparr>" "\<forall>re. map_option (\<lambda>r. r\<lparr>re_key := None\<rparr>) (m' re) = map_option (\<lambda>r. r\<lparr>re_key := None\<rparr>) (rc_mem t re)"
    using assms(2) unfolding keyed_def by blast
  have "u = s\<lparr>rc_mem := m'\<rparr>" using m(1) m'(1) by simp
  moreover have "\<forall>re. map_option (\<lambda>r. r\<lparr>re_key := None\<rparr>) (m' re) = map_option (\<lambda>r. r\<lparr>re_key := None\<rparr>) (rc_mem s re)"
    using m'(2) m unfolding m(1) by simp
  ultimately show ?thesis unfolding keyed_def by blast
qed

lemma keyed_mem:
  assumes "keyed s t"
  shows "map_option (\<lambda>r. (re_data r, re_uid r, re_on r, re_bucket r)) (rc_mem t re) = map_option (\<lambda>r. (re_data r, re_uid r, re_on r, re_bucket r)) (rc_mem s re)"
proof -
  have "map_option (\<lambda>r. r\<lparr>re_key := None\<rparr>) (rc_mem t re) = map_option (\<lambda>r. r\<lparr>re_key := None\<rparr>) (rc_mem s re)"
    using assms unfolding keyed_def by auto
  then have "map_option ((\<lambda>r. (re_data r, re_uid r, re_on r, re_bucket r)) \<circ> (\<lambda>r. r\<lparr>re_key := None\<rparr>)) (rc_mem t re)
      = map_option ((\<lambda>r. (re_data r, re_uid r, re_on r, re_bucket r)) \<circ> (\<lambda>r. r\<lparr>re_key := None\<rparr>)) (rc_mem s re)"
    by (metis option.map_comp)
  then show ?thesis by (simp add: o_def)
qed

lemma keyed_fields: "keyed s t \<Longrightarrow> rc_lists t = rc_lists s \<and> rc_uid t = rc_uid s \<and> rc_mal t = rc_mal s \<and> rc_new t = rc_new s \<and> rc_title t = rc_title s"
  unfolding keyed_def by auto

lemma keyed_Some:
  assumes "keyed s t"
  shows "(\<exists>r. rc_mem t re = Some r \<and> P (re_data r) (re_uid r) (re_on r) (re_bucket r)) \<longleftrightarrow> (\<exists>r. rc_mem s re = Some r \<and> P (re_data r) (re_uid r) (re_on r) (re_bucket r))"
  using keyed_mem [OF assms, of re] by (cases "rc_mem s re"; cases "rc_mem t re") auto

lemma keyed_links:
  assumes "keyed s t" and "links_ok s"
  shows "links_ok t"
proof -
  note f = keyed_fields [OF assms(1)]
  have "(\<exists>r. rc_mem t re = Some r \<and> re_on r = h) \<longleftrightarrow> (\<exists>r. rc_mem s re = Some r \<and> re_on r = h)"
      "(\<exists>r. rc_mem t re = Some r \<and> re_bucket r = k) \<longleftrightarrow> (\<exists>r. rc_mem s re = Some r \<and> re_bucket r = k)" for re h k
    using keyed_Some [OF assms(1), of re "\<lambda>_ _ x _. x = h"] keyed_Some [OF assms(1), of re "\<lambda>_ _ _ x. x = k"] by auto
  moreover have "(\<forall>k. re_bucket r = Some k \<longrightarrow> k < RECORD_HASHTABLE_SIZE) \<and> re < rc_new t" if r: "rc_mem t re = Some r" for re r
  proof -
    obtain r' where "rc_mem s re = Some r'" "re_bucket r' = re_bucket r"
      using keyed_Some [OF assms(1), of re "\<lambda>_ _ _ x. x = re_bucket r"] r by auto
    then show ?thesis using assms(2) f unfolding links_ok_def by metis
  qed
  ultimately show ?thesis using assms(2) f unfolding links_ok_def by auto
qed

lemma keyed_data: "keyed s t \<Longrightarrow> same_data s t"
  unfolding same_data_def
proof
  fix re assume "keyed s t"
  from keyed_mem [OF this, of re] show "map_option (\<lambda>r. (re_data r, re_uid r)) (rc_mem s re) = map_option (\<lambda>r. (re_data r, re_uid r)) (rc_mem t re)"
    by (cases "rc_mem s re"; cases "rc_mem t re") auto
qed

lemma set_keys_ok:
  assumes "\<forall>re \<in> set res. has_column name names rctx re" and "\<forall>k. key = Some k \<longrightarrow> (\<forall>els. map el_name els = names \<longrightarrow> find_column name 0 els = Some k)" and "distinct res"
  shows "\<exists>t. set_keys name key res rctx = Some (0, t) \<and> keyed rctx t \<and> (\<forall>re \<in> set res. key_of t re = column_val name rctx re)
    \<and> (\<forall>re. re \<notin> set res \<longrightarrow> rc_mem t re = rc_mem rctx re)"
  using assms
proof (induction res arbitrary: key rctx)
  case Nil
  have "keyed rctx rctx" unfolding keyed_def by (rule exI [of _ "rc_mem rctx"]) simp
  then show ?case by simp
next
  case (Cons re res)
  obtain r where r: "rc_mem rctx re = Some r" "map el_name (re_data r) = names" and v: "column_val name rctx re \<noteq> None"
    using Cons.prems(1) by (auto simp: has_column_def)
  obtain k where k: "find_column name 0 (re_data r) = Some k" using v r by (auto simp: column_val_def split: bind_splits)
  obtain el where el: "rd (re_data r) k = Some el" using v r k by (auto simp: column_val_def split: bind_splits)
  let ?s = "rctx\<lparr>rc_mem := (rc_mem rctx)(re \<mapsto> r\<lparr>re_key := Some k\<rparr>)\<rparr>"
  have key: "(case key of Some k \<Rightarrow> Some k | None \<Rightarrow> find_column name 0 (re_data r)) = Some k"
    using Cons.prems(2) r(2) k by (cases key) auto
  have ks: "keyed rctx ?s" unfolding keyed_def using r(1) by (auto simp: fun_eq_iff)
  note sd = keyed_data [OF ks]
  have "\<forall>x \<in> set res. has_column name names ?s x" using Cons.prems(1) same_data_column [OF sd] by simp
  moreover have "\<forall>j. Some k = Some j \<longrightarrow> (\<forall>els. map el_name els = names \<longrightarrow> find_column name 0 els = Some j)"
    using find_column_names k r(2) by metis
  ultimately obtain t where t: "set_keys name (Some k) res ?s = Some (0, t)" "keyed ?s t" "\<forall>x \<in> set res. key_of t x = column_val name ?s x"
      "\<forall>x. x \<notin> set res \<longrightarrow> rc_mem t x = rc_mem ?s x"
    using Cons.IH [of ?s "Some k"] Cons.prems(3) by auto
  have "key_of t re = column_val name rctx re" using t(4) Cons.prems(3) r(1) k by (simp add: key_of_def column_val_def)
  then have "\<forall>x \<in> set (re # res). key_of t x = column_val name rctx x" using t(3) same_data_column [OF sd] by simp
  moreover have "set_keys name key (re # res) rctx = Some (0, t)" using r(1) key el t(1) by simp
  ultimately show ?case using keyed_trans [OF ks t(2)] t(4) by auto
qed

lemma sort_record_by_ok:
  assumes lk: "links_ok rctx" and mal: "rc_mal rctx = []" and cols: "\<forall>re \<in> set (rc_lists rctx head). has_column name names rctx re"
  shows "\<exists>t recs. sort_record_by head name rctx = Some (0, t) \<and> links_ok t \<and> same_data rctx t \<and> rc_uid t = rc_uid rctx \<and> rc_mal t = []
    \<and> rc_lists t = (rc_lists rctx)(head := recs) \<and> mset recs = mset (rc_lists rctx head) \<and> sorted (map (\<lambda>re. the (column_val name rctx re)) recs)"
proof -
  let ?L = "rc_lists rctx head"
  have d: "distinct ?L" by (rule links_ok_distinct [OF lk])
  obtain s where s: "set_keys name None ?L rctx = Some (0, s)" "keyed rctx s" "\<forall>re \<in> set ?L. key_of s re = column_val name rctx re"
    using set_keys_ok [OF cols _ d, of None] by auto
  note f = keyed_fields [OF s(2)]
  have ls: "links_ok s" by (rule keyed_links [OF s(2) lk])
  show ?thesis
  proof (cases "?L = []")
    case True
    then have "sort_record_by head name rctx = Some (0, s)" using s(1) f by (simp add: sort_record_by_def)
    moreover have "rc_lists s = (rc_lists rctx)(head := [])" using f True by (simp add: fun_upd_idem)
    ultimately show ?thesis using ls keyed_data [OF s(2)] f mal True by (intro exI [of _ s] exI [of _ "[]"]) simp
  next
    case ne: False
    have on: "\<forall>re \<in> set ?L. \<exists>r. rc_mem s re = Some r \<and> re_on r = Some head" using links_ok_list [OF ls, of _ head] f by simp
    obtain u where u: "each_record record_list_del ?L s = Some u" "links_ok u" "same_but_on s u" "rc_lists u = (rc_lists s)(head := filter (\<lambda>x. x \<notin> set ?L) (rc_lists s head))"
        "\<forall>re r. rc_mem u re = Some r \<longrightarrow> re \<in> set ?L \<longrightarrow> re_on r = None"
      using del_all_ok [OF ls d on] by blast
    have ku: "key_of u re = column_val name rctx re" if "re \<in> set ?L" for re using same_but_on_key [OF u(3), of re] s(3) that by simp
    let ?key = "\<lambda>re. the (key_of u re)"
    obtain recs where q: "quick_sort ?key ?L (length ?L) = Some recs" "mset recs = mset ?L" "sorted (map ?key recs)"
      using quick_sort_correct [of ?key ?L] by blast
    have st: "set recs = set ?L" using q(2) by (metis mset_eq_setD)
    have dr: "distinct recs" using q(2) d by (metis mset_eq_imp_distinct_iff)
    have ru: "\<forall>re \<in> set recs. \<exists>r. rc_mem u re = Some r \<and> re_on r = None"
    proof
      fix re assume "re \<in> set recs"
      then have re: "re \<in> set ?L" using st by simp
      then obtain r where "rc_mem s re = Some r" using on by blast
      then obtain r' where "rc_mem u re = Some r'" using same_but_on_mem [OF u(3)] by blast
      then show "\<exists>r. rc_mem u re = Some r \<and> re_on r = None" using u(5) re by blast
    qed
    obtain t where t: "each_record (\<lambda>rctx re. record_list_add_tail rctx re head) recs u = Some t" "links_ok t" "same_but_on u t"
        "rc_lists t = (rc_lists u)(head := rc_lists u head @ recs)"
      using add_all_ok [OF u(2) dr ru] by blast
    have "rc_lists u head = []" using u(4) f by simp
    then have lt: "rc_lists t = (rc_lists rctx)(head := recs)" using t(4) u(4) f by simp
    have keys: "\<forall>re \<in> set ?L. key_of u re \<noteq> None" using ku cols by (simp add: has_column_def)
    have id: "s\<lparr>rc_mal := []\<rparr> = s" using f mal by (cases s) simp
    have "sort_record_by head name rctx = Some (0, t)"
      unfolding sort_record_by_def s(1) Option.bind.simps using ne f mal u(1) keys q(1) t(1) by (simp add: Let_def id)
    moreover have "same_data rctx t"
      by (rule same_data_trans [OF keyed_data [OF s(2)]], rule same_but_on_data, rule same_but_on_trans [OF u(3) t(3)])
    moreover have "rc_uid t = rc_uid rctx" "rc_mal t = []" using u(3) t(3) f mal unfolding same_but_on_def by simp_all
    moreover have "sorted (map (\<lambda>re. the (column_val name rctx re)) recs)"
    proof -
      have "map (\<lambda>re. the (column_val name rctx re)) recs = map ?key recs" using ku st by simp
      then show ?thesis using q(3) by (simp only:)
    qed
    ultimately show ?thesis using t(2) lt q(2) by blast
  qed
qed

section \<open>Filtering and freeing\<close>

lemma free_filter:
  assumes "links_ok rctx" and "distinct res" and "\<forall>re \<in> set res. \<exists>r. rc_mem rctx re = Some r \<and> keep (re_data r) \<noteq> None"
  shows "\<exists>t. each_record (\<lambda>rctx re. do { r \<leftarrow> rc_mem rctx re; b \<leftarrow> keep (re_data r); if b then Some rctx else free_record rctx re }) res rctx = Some t \<and> links_ok t
    \<and> (let gone = {re \<in> set res. \<exists>r. rc_mem rctx re = Some r \<and> keep (re_data r) = Some False} in
        rc_mem t = (\<lambda>re. if re \<in> gone then None else rc_mem rctx re) \<and> rc_lists t = (\<lambda>h. filter (\<lambda>x. x \<notin> gone) (rc_lists rctx h))
        \<and> rc_uid t = map (filter (\<lambda>x. x \<notin> gone)) (rc_uid rctx))"
  using assms
proof (induction res arbitrary: rctx)
  case Nil
  have "map (filter (\<lambda>x. x \<notin> {})) (rc_uid rctx) = rc_uid rctx" by (rule map_idI) simp
  then show ?case using Nil by simp
next
  case (Cons re res)
  obtain r b where r: "rc_mem rctx re = Some r" "keep (re_data r) = Some b" using Cons.prems(3) by auto
  show ?case
  proof (cases b)
    case True
    have "{x \<in> set (re # res). \<exists>r. rc_mem rctx x = Some r \<and> keep (re_data r) = Some False} = {x \<in> set res. \<exists>r. rc_mem rctx x = Some r \<and> keep (re_data r) = Some False}"
      using r True by auto
    then show ?thesis using Cons.IH [OF Cons.prems(1)] Cons.prems(2,3) r True by simp
  next
    case False
    obtain s where s: "free_record rctx re = Some s" "links_ok s" "s = rctx\<lparr>rc_mem := (rc_mem rctx)(re := None),
      rc_lists := (\<lambda>h. filter (\<lambda>x. x \<noteq> re) (rc_lists rctx h)), rc_uid := map (filter (\<lambda>x. x \<noteq> re)) (rc_uid rctx)\<rparr>"
      using free_record_ok [OF Cons.prems(1) r(1)] by blast
    define gone where "gone = {x \<in> set res. \<exists>r. rc_mem s x = Some r \<and> keep (re_data r) = Some False}"
    have d: "distinct res" using Cons.prems(2) by simp
    have 1: "\<forall>x \<in> set res. \<exists>r. rc_mem s x = Some r \<and> keep (re_data r) \<noteq> None"
      using Cons.prems(2,3) unfolding s(3) by auto
    obtain t where t: "each_record (\<lambda>rctx re. do { r \<leftarrow> rc_mem rctx re; b \<leftarrow> keep (re_data r); if b then Some rctx else free_record rctx re }) res s = Some t"
        "links_ok t" "rc_mem t = (\<lambda>re. if re \<in> gone then None else rc_mem s re)" "rc_lists t = (\<lambda>h. filter (\<lambda>x. x \<notin> gone) (rc_lists s h))"
        "rc_uid t = map (filter (\<lambda>x. x \<notin> gone)) (rc_uid s)"
      using Cons.IH [OF s(2) d 1, unfolded Let_def gone_def [symmetric]] by blast
    have g: "{x \<in> set (re # res). \<exists>r. rc_mem rctx x = Some r \<and> keep (re_data r) = Some False} = insert re gone"
      unfolding gone_def s(3) using r False Cons.prems(2) by auto
    have "each_record (\<lambda>rctx re. do { r \<leftarrow> rc_mem rctx re; b \<leftarrow> keep (re_data r); if b then Some rctx else free_record rctx re }) (re # res) rctx = Some t"
      using r False s(1) t(1) by simp
    moreover have "rc_mem t = (\<lambda>x. if x \<in> insert re gone then None else rc_mem rctx x)" unfolding t(3) s(3) by auto
    moreover have "rc_lists t = (\<lambda>h. filter (\<lambda>x. x \<notin> insert re gone) (rc_lists rctx h))" unfolding t(4) s(3) by (simp add: conj_commute)
    moreover have "rc_uid t = map (filter (\<lambda>x. x \<notin> insert re gone)) (rc_uid rctx)" unfolding t(5) s(3) by (simp add: conj_commute)
    ultimately show ?thesis unfolding g Let_def using t(2) by blast
  qed
qed

lemma free_each:
  assumes "links_ok rctx" and "distinct res" and "\<forall>re \<in> set res. rc_mem rctx re \<noteq> None"
  shows "\<exists>t. each_record free_record res rctx = Some t \<and> links_ok t \<and> rc_mem t = (\<lambda>re. if re \<in> set res then None else rc_mem rctx re)
    \<and> rc_uid t = map (filter (\<lambda>x. x \<notin> set res)) (rc_uid rctx)"
proof -
  have f: "(\<lambda>rctx re. do { r \<leftarrow> rc_mem rctx re; b \<leftarrow> Some False; if b then Some rctx else free_record rctx re }) = free_record"
    by (auto simp: fun_eq_iff free_record_def split: bind_splits)
  have g: "{re \<in> set res. \<exists>r. rc_mem rctx re = Some r} = set res" using assms(3) by auto
  show ?thesis using free_filter [OF assms(1,2), of "\<lambda>_. Some False"] assms(3) unfolding f by (auto simp: g Let_def)
qed

lemma filter_exclude:
  "filter_record head None exclude_none_HBP rctx = do {
     t \<leftarrow> each_record (\<lambda>rctx re. do { r \<leftarrow> rc_mem rctx re; b \<leftarrow> is_hbp (re_data r); if b then Some rctx else free_record rctx re }) (rc_lists rctx head) rctx;
     Some (0, t) }"
proof -
  have "(\<lambda>rctx re. do { (ret, rctx) \<leftarrow> exclude_none_HBP rctx re;
       case (ret \<noteq> 0, None) of (True, Some d) \<Rightarrow> do { rctx \<leftarrow> record_list_del rctx re; record_list_add_tail rctx re d } | _ \<Rightarrow> Some rctx })
     = (\<lambda>rctx re. do { r \<leftarrow> rc_mem rctx re; b \<leftarrow> is_hbp (re_data r); if b then Some rctx else free_record rctx re })"
    by (auto simp: fun_eq_iff exclude_none_HBP_def split: bind_splits)
  then show ?thesis unfolding filter_record_def by simp
qed

lemma free_record_context_ok:
  assumes "links_ok rctx" and "free_titles ti = Some ()"
  shows "\<exists>t. free_record_context ti rctx = Some t
    \<and> rc_mem t = (\<lambda>re. if \<exists>k < RECORD_HASHTABLE_SIZE. re \<in> set (rc_uid rctx ! k) then None else rc_mem rctx re)"
proof -
  have once: "j = k" if "re \<in> set (rc_uid rctx ! j)" "re \<in> set (rc_uid rctx ! k)" "j < RECORD_HASHTABLE_SIZE" "k < RECORD_HASHTABLE_SIZE" for re j k
    using that links_ok_bucket [OF assms(1)] by (metis option.inject)
  define P where "P k s \<longleftrightarrow> links_ok s \<and> rc_mem s = (\<lambda>re. if \<exists>j < k. re \<in> set (rc_uid rctx ! j) then None else rc_mem rctx re)
    \<and> (\<forall>j < RECORD_HASHTABLE_SIZE. k \<le> j \<longrightarrow> rc_uid s ! j = rc_uid rctx ! j)" for k s
  have "\<exists>t. scan_table free_record rctx = Some t \<and> P RECORD_HASHTABLE_SIZE t"
    unfolding scan_table_def
  proof (rule for_range_rule)
    show "P 0 rctx" using assms(1) by (simp add: P_def)
  next
    fix k s assume k: "k < RECORD_HASHTABLE_SIZE" and p: "P k s"
    have ls: "links_ok s" and m: "rc_mem s = (\<lambda>re. if \<exists>j < k. re \<in> set (rc_uid rctx ! j) then None else rc_mem rctx re)"
      and b: "\<forall>j < RECORD_HASHTABLE_SIZE. k \<le> j \<longrightarrow> rc_uid s ! j = rc_uid rctx ! j" using p unfolding P_def by blast+
    have bk: "rc_uid s ! k = rc_uid rctx ! k" using b k by simp
    have d: "distinct (rc_uid s ! k)" using ls k unfolding links_ok_def by blast
    have mem: "\<forall>re \<in> set (rc_uid s ! k). rc_mem s re \<noteq> None" using links_ok_bucket [OF ls k] by auto
    obtain t where t: "each_record free_record (rc_uid s ! k) s = Some t" "links_ok t" "rc_mem t = (\<lambda>re. if re \<in> set (rc_uid s ! k) then None else rc_mem s re)"
        "rc_uid t = map (filter (\<lambda>x. x \<notin> set (rc_uid s ! k))) (rc_uid s)" using free_each [OF ls d mem] by blast
    have "P (Suc k) t" unfolding P_def
    proof (intro conjI allI impI)
      show "links_ok t" by (rule t(2))
      show "rc_mem t = (\<lambda>re. if \<exists>j < Suc k. re \<in> set (rc_uid rctx ! j) then None else rc_mem rctx re)"
        unfolding t(3) m bk by (auto simp: fun_eq_iff less_Suc_eq)
    next
      fix j assume j: "j < RECORD_HASHTABLE_SIZE" "Suc k \<le> j"
      have "filter (\<lambda>x. x \<notin> set (rc_uid rctx ! k)) (rc_uid rctx ! j) = rc_uid rctx ! j"
      proof (rule filter_True, rule ballI)
        fix x assume "x \<in> set (rc_uid rctx ! j)"
        then show "x \<notin> set (rc_uid rctx ! k)" using once [of x j k] j k by auto
      qed
      then show "rc_uid t ! j = rc_uid rctx ! j" unfolding t(4) bk using b j links_ok_length [OF ls] by simp
    qed
    then show "\<exists>t. do { b \<leftarrow> rd (rc_uid s) k; each_record free_record b s } = Some t \<and> P (Suc k) t"
      using t(1) k links_ok_length [OF ls] by (simp add: rd_eq)
  qed simp
  then obtain t where t: "scan_table free_record rctx = Some t" "P RECORD_HASHTABLE_SIZE t" by blast
  then show ?thesis using assms(2) by (simp add: free_record_context_def P_def)
qed

section \<open>Properties\<close>

text \<open>
  C9. The hash table: \<open>make_uid_hashtable\<close> returns and leaves a table in which the records of a
  bucket share one uid and no two buckets have the same, contents and lists untouched; and every
  record of the list is in the table, unless all buckets have been taken by other uids.
\<close>

theorem make_uid_hashtable_builds:
  assumes "links_ok rctx" and "records_ok rctx" and "\<forall>k < RECORD_HASHTABLE_SIZE. rc_uid rctx ! k = []"
  shows "\<exists>t. make_uid_hashtable rctx = Some t \<and> links_ok t \<and> table_inv t \<and> same_data rctx t \<and> rc_lists t = rc_lists rctx
    \<and> (\<forall>j k s. j < RECORD_HASHTABLE_SIZE \<longrightarrow> k < RECORD_HASHTABLE_SIZE \<longrightarrow> head_str t j = Some s \<longrightarrow> head_str t k = Some s \<longrightarrow> j = k)
    \<and> (\<forall>re \<in> set (rc_lists rctx RECORDS). (\<exists>k < RECORD_HASHTABLE_SIZE. re \<in> set (rc_uid t ! k) \<and> head_str t k = uid_str t re)
         \<or> (\<forall>k < RECORD_HASHTABLE_SIZE. rc_uid t ! k \<noteq> [] \<and> head_str t k \<noteq> uid_str t re))"
proof -
  let ?L = "rc_lists rctx RECORDS"
  have inv: "table_inv rctx" using assms(3) by (simp add: table_inv_def head_str_def)
  have none: "\<forall>re \<in> set ?L. \<exists>r. rc_mem rctx re = Some r \<and> re_bucket r = None"
  proof
    fix re assume "re \<in> set ?L"
    then obtain r where r: "rc_mem rctx re = Some r" using links_ok_list [OF assms(1)] by blast
    have "re_bucket r \<noteq> Some k" for k
    proof
      assume "re_bucket r = Some k"
      then have "k < RECORD_HASHTABLE_SIZE" "re \<in> set (rc_uid rctx ! k)" using assms(1) r unfolding links_ok_def by blast+
      then show False using assms(3) by simp
    qed
    then show "\<exists>r. rc_mem rctx re = Some r \<and> re_bucket r = None" using r by (metis not_None_eq)
  qed
  obtain t where t: "each_record make_step ?L rctx = Some t" "links_ok t" "table_inv t" "grown rctx t" "\<forall>re \<in> set ?L. placed t re"
    using make_loop_ok [OF assms(1,2) inv links_ok_distinct [OF assms(1)] none] by blast
  have "(\<exists>k < RECORD_HASHTABLE_SIZE. re \<in> set (rc_uid t ! k) \<and> head_str t k = uid_str t re)
      \<or> (\<forall>k < RECORD_HASHTABLE_SIZE. rc_uid t ! k \<noteq> [] \<and> head_str t k \<noteq> uid_str t re)" if "re \<in> set ?L" for re
    using t(3,5) that unfolding placed_def table_inv_def by metis
  moreover have "j = k" if "j < RECORD_HASHTABLE_SIZE" "k < RECORD_HASHTABLE_SIZE" "head_str t j = Some s" "head_str t k = Some s" for j k s
    by (rule table_inv_unique [OF t(3) that])
  ultimately show ?thesis using t unfolding make_uid_hashtable_def grown_def by blast
qed

text \<open>
  When all buckets are taken, a record with a new uid is dropped without a word: the message
  and the release of the record are never reached, because the loop before them stops at half the
  size they test for.
\<close>

theorem full_table_drops_silently:
  assumes "links_ok rctx" and "records_ok rctx" and "uid_str rctx re = Some s" and "15 \<le> length s"
    and "\<forall>k < RECORD_HASHTABLE_SIZE. rc_uid rctx ! k \<noteq> [] \<and> head_str rctx k \<noteq> Some s"
  shows "make_step rctx re = Some rctx"
proof -
  have "\<not> fits rctx s True k" if "k < RECORD_HASHTABLE_SIZE" for k
    using assms(5) that head_str_None [OF assms(1,2) that] by (auto simp: fits_def split: option.splits)
  then have "find (fits rctx s True) (probe (hash_of s)) = None"
    using set_probe [OF hash_of_less, of s] by (auto simp: find_None_iff)
  then show ?thesis using make_step_eq [OF assms(1-4)] by simp
qed

text \<open>
  A search moves exactly the records of the table that have the uid to the result list, and
  leaves the others where they were.
\<close>

theorem search_uid_finds:
  assumes "links_ok rctx" and "records_ok rctx" and "table_inv rctx" and "table_listed rctx" and "rc_lists rctx FOUND = []"
    and "cstr uid = Some s" and "15 \<le> length s"
  shows "\<exists>t. search_uid rctx uid FOUND = Some t \<and> links_ok t
    \<and> set (rc_lists t FOUND) = {re. uid_str rctx re = Some s \<and> (\<exists>k < RECORD_HASHTABLE_SIZE. re \<in> set (rc_uid rctx ! k))}
    \<and> rc_lists t RECORDS = filter (\<lambda>re. re \<notin> set (rc_lists t FOUND)) (rc_lists rctx RECORDS)"
proof -
  have ne: "RECORDS \<noteq> FOUND" by (simp add: RECORDS_def FOUND_def)
  show ?thesis
    using search_uid_ok [OF assms(1-4,6,7)] set_bucket_of [OF assms(1-3), of s] assms(5) ne by auto
qed

text \<open>\<open>sort_record_by\<close> sorts the list by the column, and touches no other list.\<close>

theorem sort_record_by_sorts:
  assumes "links_ok rctx" and "rc_mal rctx = []" and "\<forall>re \<in> set (rc_lists rctx head). has_column name names rctx re"
  shows "\<exists>t recs. sort_record_by head name rctx = Some (0, t) \<and> links_ok t \<and> rc_lists t = (rc_lists rctx)(head := recs)
    \<and> mset recs = mset (rc_lists rctx head) \<and> sorted (map (\<lambda>re. the (column_val name rctx re)) recs)"
  using sort_record_by_ok [OF assms] by blast

text \<open>
  Filtering with \<open>exclude_none_HBP\<close> keeps the heartbeat records of the list, in their order,
  and frees the others, whatever table and lists they are in.
\<close>

theorem filter_keeps_heartbeats:
  assumes "links_ok rctx" and "\<forall>re \<in> set (rc_lists rctx RECORDS). \<exists>r. rc_mem rctx re = Some r \<and> is_hbp (re_data r) \<noteq> None"
  shows "\<exists>t. filter_record RECORDS None exclude_none_HBP rctx = Some (0, t) \<and> links_ok t
    \<and> rc_lists t RECORDS = filter (\<lambda>re. \<exists>r. rc_mem rctx re = Some r \<and> is_hbp (re_data r) = Some True) (rc_lists rctx RECORDS)
    \<and> (\<forall>re \<in> set (rc_lists rctx RECORDS). re \<notin> set (rc_lists t RECORDS) \<longrightarrow> rc_mem t re = None)"
proof -
  let ?L = "rc_lists rctx RECORDS"
  let ?gone = "{re \<in> set ?L. \<exists>r. rc_mem rctx re = Some r \<and> is_hbp (re_data r) = Some False}"
  obtain t where t: "each_record (\<lambda>rctx re. do { r \<leftarrow> rc_mem rctx re; b \<leftarrow> is_hbp (re_data r); if b then Some rctx else free_record rctx re }) ?L rctx = Some t"
      "links_ok t" "rc_mem t = (\<lambda>re. if re \<in> ?gone then None else rc_mem rctx re)" "rc_lists t = (\<lambda>h. filter (\<lambda>x. x \<notin> ?gone) (rc_lists rctx h))"
    using free_filter [OF assms(1) links_ok_distinct [OF assms(1)] assms(2)] unfolding Let_def by blast
  have k: "re \<notin> ?gone \<longleftrightarrow> (\<exists>r. rc_mem rctx re = Some r \<and> is_hbp (re_data r) = Some True)" if "re \<in> set ?L" for re
    using assms(2) that by auto
  have "rc_lists t RECORDS = filter (\<lambda>re. \<exists>r. rc_mem rctx re = Some r \<and> is_hbp (re_data r) = Some True) ?L"
    unfolding t(4) by (rule filter_cong) (use k in auto)
  moreover have "rc_mem t re = None" if "re \<in> set ?L" "re \<notin> set (rc_lists t RECORDS)" for re
    using that unfolding t(3,4) by auto
  ultimately show ?thesis using t(1,2) filter_exclude [of RECORDS rctx] by auto
qed

text \<open>
  \<open>free_record_context\<close> frees the records of the table, and only those: a record that the full
  table dropped stays allocated.
\<close>

theorem free_record_context_frees_table:
  assumes "links_ok rctx" and "free_titles ti = Some ()"
  shows "\<exists>t. free_record_context ti rctx = Some t \<and> (\<forall>re. rc_mem t re =
    (if \<exists>k < RECORD_HASHTABLE_SIZE. re \<in> set (rc_uid rctx ! k) then None else rc_mem rctx re))"
  using free_record_context_ok [OF assms] by auto

text \<open>
  C8. A query for a uid dumps exactly the records of the table that have it, each once, sorted by
  date, and puts them back behind the other records.
\<close>

theorem query_dumps_sorted_matches:
  assumes "links_ok rctx" and "records_ok rctx" and "table_inv rctx" and "table_listed rctx" and "rc_lists rctx FOUND = []" and "rc_mal rctx = []"
    and "\<forall>re r. rc_mem rctx re = Some r \<longrightarrow> has_column (chars ''date'') names rctx re"
    and "cstr buf = Some (s @ [10])" and "15 \<le> length s"
  shows "\<exists>dumped t. query rctx buf = Some (dumped, t) \<and> distinct dumped
    \<and> set dumped = {re. uid_str rctx re = Some s \<and> (\<exists>k < RECORD_HASHTABLE_SIZE. re \<in> set (rc_uid rctx ! k))}
    \<and> sorted (map (\<lambda>re. the (column_val (chars ''date'') rctx re)) dumped)
    \<and> links_ok t \<and> rc_lists t FOUND = [] \<and> mset (rc_lists t RECORDS) = mset (rc_lists rctx RECORDS)"
proof -
  have ne: "RECORDS \<noteq> FOUND" by (simp add: RECORDS_def FOUND_def)
  obtain b where b: "buf = map Some (s @ [10]) @ Some 0 # b" "0 \<notin> set (s @ [10])" using cstr_Some [OF assms(8)] by blast
  let ?buf = "buf[length s := Some 0]"
  have bs: "cstr ?buf = Some s" using b by (simp add: list_update_append cstr_map)
  have rc: "rctx\<lparr>rc_lists := (rc_lists rctx)(FOUND := [])\<rparr> = rctx" using assms(5) by (cases rctx) (simp add: fun_upd_idem)
  obtain t where t: "search_uid rctx ?buf FOUND = Some t" "links_ok t" "same_but_on rctx t"
      "rc_lists t = (rc_lists rctx)(RECORDS := filter (\<lambda>x. x \<notin> set (bucket_of rctx s)) (rc_lists rctx RECORDS), FOUND := bucket_of rctx s)"
    using search_uid_ok [OF assms(1-4) bs assms(9)] assms(5) by auto
  note sb = set_bucket_of [OF assms(1-3), of s]
  have start: "query rctx buf = do { rctx \<leftarrow> Some t;
       if rc_lists rctx FOUND = [] then Some ([], rctx)
       else do {
         (ret, rctx) \<leftarrow> sort_record_by FOUND (chars ''date'') rctx;
         let dumped = rc_lists rctx FOUND;
         rctx \<leftarrow> move_to RECORDS dumped rctx;
         Some (dumped, rctx) } }"
    unfolding query_def assms(8) Option.bind.simps using t(1) by (simp add: rc)
  show ?thesis
  proof (cases "bucket_of rctx s = []")
    case True
    then have "rc_lists t FOUND = []" using t(4) by simp
    then have "query rctx buf = Some ([], t)" unfolding start by simp
    then show ?thesis using t(2,4) True sb ne by auto
  next
    case False
    have d1: "same_data rctx t" by (rule same_but_on_data [OF t(3)])
    have cols: "\<forall>re \<in> set (rc_lists t FOUND). has_column (chars ''date'') names t re"
    proof
      fix re assume "re \<in> set (rc_lists t FOUND)"
      then obtain r where "rc_mem t re = Some r" using links_ok_list [OF t(2)] by blast
      then obtain r' where "rc_mem rctx re = Some r'" using same_but_on_mem [OF same_but_on_sym [OF t(3)]] by blast
      then show "has_column (chars ''date'') names t re" using assms(7) same_data_column [OF d1] by blast
    qed
    have mt: "rc_mal t = []" using t(3) assms(6) by (simp add: same_but_on_def)
    obtain u recs where u: "sort_record_by FOUND (chars ''date'') t = Some (0, u)" "links_ok u" "rc_lists u = (rc_lists t)(FOUND := recs)"
        "mset recs = mset (rc_lists t FOUND)" "sorted (map (\<lambda>re. the (column_val (chars ''date'') t re)) recs)"
      using sort_record_by_ok [OF t(2) mt cols] by blast
    have fu: "rc_lists u FOUND = recs" using u(3) by simp
    have on: "\<forall>re \<in> set recs. \<exists>r. rc_mem u re = Some r \<and> re_on r = Some FOUND" using links_ok_list [OF u(2), of _ FOUND] fu by simp
    have dr: "distinct recs" using links_ok_distinct [OF u(2), of FOUND] fu by simp
    obtain v where v: "move_to RECORDS recs u = Some v" "links_ok v"
        "rc_lists v = (rc_lists u)(FOUND := filter (\<lambda>x. x \<notin> set recs) (rc_lists u FOUND), RECORDS := rc_lists u RECORDS @ recs)"
      using move_to_ok [OF u(2) dr on ne [symmetric]] by blast
    have run: "query rctx buf = Some (recs, v)"
      unfolding start using False t(4) u(1) fu v(1) by (simp add: Let_def)
    have mr: "mset recs = mset (bucket_of rctx s)" using u(4) t(4) by simp
    have st: "set recs = set (bucket_of rctx s)" by (rule mset_eq_setD [OF mr])
    have sub: "set (bucket_of rctx s) \<subseteq> set (rc_lists rctx RECORDS)"
    proof
      fix re assume "re \<in> set (bucket_of rctx s)"
      then obtain k where "k < RECORD_HASHTABLE_SIZE" "re \<in> set (rc_uid rctx ! k)" unfolding sb by blast
      then obtain r where "rc_mem rctx re = Some r" "re_bucket r = Some k" using links_ok_bucket [OF assms(1)] by blast
      then show "re \<in> set (rc_lists rctx RECORDS)" using assms(4) links_ok_on [OF assms(1)] unfolding table_listed_def by blast
    qed
    have db: "distinct (bucket_of rctx s)" using mr dr by (metis mset_eq_imp_distinct_iff)
    have "mset (filter (\<lambda>x. x \<notin> set (bucket_of rctx s)) (rc_lists rctx RECORDS)) + mset (bucket_of rctx s) = mset (rc_lists rctx RECORDS)"
    proof -
      have "mset (filter (\<lambda>x. x \<in> set (bucket_of rctx s)) (rc_lists rctx RECORDS)) = mset (bucket_of rctx s)"
        by (rule set_eq_iff_mset_eq_distinct [THEN iffD1]) (use sub db links_ok_distinct [OF assms(1)] in auto)
      then show ?thesis by (metis mset_filter multiset_partition union_commute)
    qed
    then have "mset (rc_lists v RECORDS) = mset (rc_lists rctx RECORDS)" using v(3) u(3) t(4) ne mr by simp
    moreover have "rc_lists v FOUND = []" using v(3) ne fu by simp
    moreover have "sorted (map (\<lambda>re. the (column_val (chars ''date'') rctx re)) recs)" using u(5) same_data_column [OF d1] by simp
    ultimately show ?thesis using run dr st sb v(2) by blast
  qed
qed

section \<open>Witnesses\<close>

definition demo_uid :: "byte list" where "demo_uid = replicate 15 97"

definition demo_record :: "nat option \<Rightarrow> nat option \<Rightarrow> byte \<Rightarrow> rcd" where
  "demo_record h k c = \<lparr>re_data = [\<lparr>el_data = Ptr (map Some (replicate 15 c) @ [Some 0]), el_name = chars ''uid'', el_type = ELEMENT_TEXT, el_size = 15\<rparr>,
     \<lparr>el_data = Bits 5, el_name = chars ''date'', el_type = ELEMENT_BIGUINT, el_size = 20\<rparr>], re_uid = Some 0, re_key = None, re_on = h, re_bucket = k\<rparr>"

text \<open>One record on the list, outside of the table and in it; and a full table.\<close>

definition demo_listed :: record_context where
  "demo_listed = \<lparr>rc_mem = [0 \<mapsto> demo_record (Some RECORDS) None 97], rc_new = 1, rc_lists = (\<lambda>_. [])(RECORDS := [0]),
     rc_uid = replicate RECORD_HASHTABLE_SIZE [], rc_title = [], rc_mal = []\<rparr>"

definition demo_hashed :: record_context where
  "demo_hashed = \<lparr>rc_mem = [0 \<mapsto> demo_record (Some RECORDS) (Some (hash_of demo_uid)) 97], rc_new = 1, rc_lists = (\<lambda>_. [])(RECORDS := [0]),
     rc_uid = (replicate RECORD_HASHTABLE_SIZE [])[hash_of demo_uid := [0]], rc_title = [], rc_mal = []\<rparr>"

definition demo_full :: record_context where
  "demo_full = \<lparr>rc_mem = (\<lambda>re. if re < RECORD_HASHTABLE_SIZE then Some (demo_record None (Some re) 97)
       else if re = RECORD_HASHTABLE_SIZE then Some (demo_record None None 98) else None),
     rc_new = RECORD_HASHTABLE_SIZE + 1, rc_lists = (\<lambda>_. []), rc_uid = map (\<lambda>k. [k]) [0..<RECORD_HASHTABLE_SIZE], rc_title = [], rc_mal = []\<rparr>"

lemma demo_record_uid:
  assumes "rc_mem rctx re = Some (demo_record h k c)" and "c \<noteq> 0"
  shows "uid_str rctx re = Some (replicate 15 c)"
proof -
  have "cstr (map Some (replicate 15 c) @ Some 0 # []) = Some (replicate 15 c)" by (rule cstr_map) (use assms(2) in auto)
  then show ?thesis using assms(1) by (simp add: uid_str_def get_uid_def demo_record_def rd_def data_ptr_def)
qed

lemma demo_hash: "hash_of demo_uid < RECORD_HASHTABLE_SIZE" "length demo_uid = 15" "0 \<notin> set demo_uid"
  using hash_of_less [of demo_uid] by (simp_all add: table_sizes demo_uid_def)

lemma demo_listed_ok: "links_ok demo_listed \<and> records_ok demo_listed"
proof -
  have "records_ok demo_listed" unfolding records_ok_def
    using demo_record_uid [of demo_listed 0 "Some RECORDS" None 97] by (auto simp: demo_listed_def split: if_splits)
  then show ?thesis by (auto simp: links_ok_def demo_listed_def demo_record_def split: if_splits)
qed

lemma demo_hashed_uid: "uid_str demo_hashed 0 = Some demo_uid"
  using demo_record_uid [of demo_hashed 0 _ _ 97] by (simp add: demo_hashed_def demo_uid_def)

lemma demo_head: "k < RECORD_HASHTABLE_SIZE \<Longrightarrow> head_str demo_hashed k = (if k = hash_of demo_uid then Some demo_uid else None)"
  using demo_hashed_uid demo_hash(1) by (auto simp: head_str_def demo_hashed_def nth_list_update)

lemma demo_hashed_ok: "links_ok demo_hashed \<and> records_ok demo_hashed \<and> table_inv demo_hashed \<and> table_listed demo_hashed"
proof (intro conjI)
  show "records_ok demo_hashed" unfolding records_ok_def
    using demo_hashed_uid demo_hash(2) by (auto simp: demo_hashed_def split: if_splits)
  show "links_ok demo_hashed" using demo_hash(1) by (auto simp: links_ok_def demo_hashed_def demo_record_def nth_list_update split: if_splits)
  show "table_listed demo_hashed" by (auto simp: table_listed_def demo_hashed_def demo_record_def split: if_splits)
  have "takeWhile (\<lambda>i. i \<noteq> hash_of demo_uid) (probe (hash_of demo_uid)) = []" by (simp add: probe_def)
  moreover have "re = 0" "k = hash_of demo_uid" if "k < RECORD_HASHTABLE_SIZE" "re \<in> set (rc_uid demo_hashed ! k)" for re k
    using that demo_hash(1) by (auto simp: demo_hashed_def nth_list_update split: if_splits)
  ultimately show "table_inv demo_hashed" unfolding table_inv_def using demo_head demo_hashed_uid by (auto split: if_splits)
qed

lemma make_uid_hashtable_builds_witness: "\<exists>t. make_uid_hashtable demo_listed = Some t \<and> table_inv t"
  using make_uid_hashtable_builds [of demo_listed] demo_listed_ok by (auto simp: demo_listed_def)

lemma full_table_drops_silently_witness: "make_step demo_full RECORD_HASHTABLE_SIZE = Some demo_full"
proof (rule full_table_drops_silently)
  have u: "uid_str demo_full re = Some (replicate 15 97)" if "re < RECORD_HASHTABLE_SIZE" for re
    by (rule demo_record_uid [where h = None and k = "Some re"]) (use that in \<open>simp_all add: demo_full_def\<close>)
  show v: "uid_str demo_full RECORD_HASHTABLE_SIZE = Some (replicate 15 98)"
    by (rule demo_record_uid [where h = None and k = None]) (simp_all add: demo_full_def)
  show "records_ok demo_full" unfolding records_ok_def using u v by (auto simp: demo_full_def split: if_splits)
  show "links_ok demo_full" by (auto simp: links_ok_def demo_full_def demo_record_def split: if_splits)
  show "\<forall>k < RECORD_HASHTABLE_SIZE. rc_uid demo_full ! k \<noteq> [] \<and> head_str demo_full k \<noteq> Some (replicate 15 98)"
    using u by (simp add: demo_full_def head_str_def)
qed simp

lemma search_uid_finds_witness:
  "\<exists>t. search_uid demo_hashed (map Some (demo_uid @ [0])) FOUND = Some t \<and> set (rc_lists t FOUND) = {0} \<and> rc_lists t RECORDS = []"
proof -
  have c: "cstr (map Some (demo_uid @ [0])) = Some demo_uid" using cstr_map [OF demo_hash(3), of "[]"] by simp
  have "{re. uid_str demo_hashed re = Some demo_uid \<and> (\<exists>k < RECORD_HASHTABLE_SIZE. re \<in> set (rc_uid demo_hashed ! k))} = {0}"
    using demo_hashed_uid demo_hash(1) by (auto simp: demo_hashed_def nth_list_update split: if_splits)
  moreover have "rc_lists demo_hashed FOUND = []" "rc_lists demo_hashed RECORDS = [0]" by (simp_all add: demo_hashed_def FOUND_def RECORDS_def)
  ultimately show ?thesis using search_uid_finds [of demo_hashed "map Some (demo_uid @ [0])" demo_uid] demo_hashed_ok c demo_hash(2) by auto
qed

lemma demo_column: "has_column (chars ''date'') [chars ''uid'', chars ''date''] demo_hashed 0"
proof -
  have "chars ''uid'' \<noteq> chars ''date''" by (simp add: chars_def)
  then show ?thesis
    by (simp add: has_column_def column_val_def demo_hashed_def demo_record_def rd_def data_bigint_def)
qed

lemma sort_record_by_sorts_witness:
  "\<exists>t. sort_record_by RECORDS (chars ''date'') demo_hashed = Some (0, t) \<and> mset (rc_lists t RECORDS) = {#0#}"
proof -
  have "rc_lists demo_hashed RECORDS = [0]" "rc_mal demo_hashed = []" by (simp_all add: demo_hashed_def)
  then show ?thesis
    using sort_record_by_sorts [of demo_hashed RECORDS "chars ''date''" "[chars ''uid'', chars ''date'']"] demo_hashed_ok demo_column by auto
qed

lemma filter_keeps_heartbeats_witness:
  "\<exists>t. filter_record RECORDS None exclude_none_HBP demo_hashed = Some (0, t) \<and> rc_lists t RECORDS = [] \<and> rc_mem t 0 = None"
proof -
  have l: "rc_lists demo_hashed RECORDS = [0]" by (simp add: demo_hashed_def)
  have n: "chars ''command'' \<noteq> chars ''uid''" "chars ''command'' \<noteq> chars ''date''" by (simp_all add: chars_def)
  have h: "rc_mem demo_hashed 0 = Some (demo_record (Some RECORDS) (Some (hash_of demo_uid)) 97)" by (simp add: demo_hashed_def)
  have f: "is_hbp (re_data (demo_record (Some RECORDS) (Some (hash_of demo_uid)) 97)) = Some False"
    using n by (simp add: demo_record_def is_hbp_def)
  have d: "\<forall>re \<in> set (rc_lists demo_hashed RECORDS). \<exists>r. rc_mem demo_hashed re = Some r \<and> is_hbp (re_data r) \<noteq> None"
    unfolding l using h f by (metis empty_iff insert_iff list.simps(15) empty_set option.distinct(1))
  show ?thesis using filter_keeps_heartbeats [OF _ d] demo_hashed_ok l h f by auto
qed

lemma free_record_context_frees_table_witness:
  "\<exists>t. free_record_context \<lparr>ti_cn = Some 0, ti_ptr = Title_null\<rparr> demo_hashed = Some t \<and> rc_mem t 0 = None"
proof -
  have "\<exists>k < RECORD_HASHTABLE_SIZE. 0 \<in> set (rc_uid demo_hashed ! k)"
    using demo_hash(1) by (intro exI [of _ "hash_of demo_uid"]) (simp add: demo_hashed_def)
  then show ?thesis using free_record_context_frees_table [of demo_hashed "\<lparr>ti_cn = Some 0, ti_ptr = Title_null\<rparr>"] demo_hashed_ok by (auto simp: free_titles_def)
qed

lemma query_dumps_sorted_matches_witness:
  "\<exists>dumped t. query demo_hashed (map Some (demo_uid @ [10, 0])) = Some (dumped, t) \<and> set dumped = {0}"
proof -
  have c: "cstr (map Some (demo_uid @ [10, 0])) = Some (demo_uid @ [10])"
    using cstr_map [of "demo_uid @ [10]" "[]"] demo_hash(3) by simp
  have "{re. uid_str demo_hashed re = Some demo_uid \<and> (\<exists>k < RECORD_HASHTABLE_SIZE. re \<in> set (rc_uid demo_hashed ! k))} = {0}"
    using demo_hashed_uid demo_hash(1) by (auto simp: demo_hashed_def nth_list_update split: if_splits)
  moreover have "rc_lists demo_hashed FOUND = []" "rc_mal demo_hashed = []" by (simp_all add: demo_hashed_def FOUND_def RECORDS_def)
  moreover have "\<forall>re r. rc_mem demo_hashed re = Some r \<longrightarrow> has_column (chars ''date'') [chars ''uid'', chars ''date''] demo_hashed re"
  proof (intro allI impI)
    fix re r assume "rc_mem demo_hashed re = Some r"
    then have "re = 0" by (auto simp: demo_hashed_def split: if_splits)
    then show "has_column (chars ''date'') [chars ''uid'', chars ''date''] demo_hashed re" using demo_column by simp
  qed
  ultimately show ?thesis
    using query_dumps_sorted_matches [of demo_hashed "[chars ''uid'', chars ''date'']" "map Some (demo_uid @ [10, 0])" demo_uid] demo_hashed_ok c demo_hash(2) by auto
qed

end
