(* ===== verification/RecordDump.thy ===== *)
theory RecordDump
  imports RecordRead RecordQuery
begin

text \<open>
  \<open>src/src/record/record.c\<close>: printing a record into a buffer of 1024 characters, and mapping the
  dump file. The calls of the system are given by their results.
\<close>

section \<open>The file\<close>

text \<open>What \<open>open\<close>, \<open>lseek\<close> and \<open>mmap\<close> yield; \<open>None\<close> is \<open>MAP_FAILED\<close>.\<close>

record file_env =
  fe_open :: int
  fe_size :: int
  fe_mmap :: "byte list option"

record mapped =
  mp_io :: io
  mp_fd :: int
  mp_filesize :: int

text \<open>The result, and the descriptors that are open afterwards.\<close>

definition init_io_context :: "bool list \<Rightarrow> file_env \<Rightarrow> mapped option \<times> int list" where
  "init_io_context mal env =
     (let (ok, mal) = malloc mal; fd = fe_open env in
      if \<not> ok then (None, [])
      else if fd < 0 then (None, [])
      else if fe_size env < 0 then (None, [])
      else case fe_mmap env of
          None \<Rightarrow> (None, [])
        | Some buf \<Rightarrow> (Some \<lparr>mp_io = \<lparr>io_buf = buf, io_rdptr = 0\<rparr>, mp_fd = fd, mp_filesize = fe_size env\<rparr>, [fd]))"

definition free_mapped_io :: "mapped option \<Rightarrow> int list \<Rightarrow> int list" where
  "free_mapped_io io fds = (case io of None \<Rightarrow> fds | Some m \<Rightarrow> remove1 (mp_fd m) fds)"

section \<open>Printing\<close>

text \<open>\<open>gmtime_r\<close> for a time from 1970 on, and \<open>%0*d\<close>.\<close>

record tm =
  tm_year :: nat
  tm_mon :: nat
  tm_mday :: nat
  tm_hour :: nat
  tm_min :: nat
  tm_sec :: nat

definition gmtime :: "nat \<Rightarrow> tm" where
  "gmtime t =
     (let z = t div 86400 + 719468; s = t mod 86400;
          era = z div 146097; doe = z mod 146097;
          yoe = (doe - doe div 1460 + doe div 36524 - doe div 146096) div 365;
          doy = doe - (365 * yoe + yoe div 4 - yoe div 100);
          mp = (5 * doy + 2) div 153;
          m = (if mp < 10 then mp + 2 else mp - 10) in
      \<lparr>tm_year = yoe + era * 400 + (if m < 2 then 1 else 0) - 1900, tm_mon = m, tm_mday = doy - (153 * mp + 2) div 5 + 1,
        tm_hour = s div 3600, tm_min = s mod 3600 div 60, tm_sec = s mod 60\<rparr>)"

definition fmt_d :: "nat \<Rightarrow> nat \<Rightarrow> byte list" where "fmt_d w v = replicate (w - length (dec v)) 48 @ dec v"

definition fmt_date :: "tm \<Rightarrow> byte list" where
  "fmt_date c = fmt_d 4 (tm_year c + 1900) @ [45] @ fmt_d 2 (tm_mon c + 1) @ [45] @ fmt_d 2 (tm_mday c) @ [32]
     @ fmt_d 2 (tm_hour c) @ [58] @ fmt_d 2 (tm_min c) @ [58] @ fmt_d 2 (tm_sec c)"

text \<open>What is printed for an element: a text, or nothing for the types without a case.\<close>

definition data_biguint :: "data \<Rightarrow> ulong option" where
  "data_biguint d = (case d of Bits w \<Rightarrow> Some w | Ptr b \<Rightarrow> None)"

definition el_text :: "element \<Rightarrow> byte list option option" where
  "el_text el = (let t = el_type el in
     if t \<in> {ELEMENT_SMALLINT, ELEMENT_INT, ELEMENT_BIGINT} then do { v \<leftarrow> data_bigint (el_data el); Some (Some (fmt_int v @ [32, 32])) }
     else if t = ELEMENT_BIGUINT \<and> el_name el = chars ''date'' then do {
       w \<leftarrow> data_biguint (el_data el);
       Some (Some (fmt_date (gmtime (unat w div 1000)) @ [32, 32])) }
     else if t \<in> {ELEMENT_BIGUINT, ELEMENT_SMALLUINT, ELEMENT_UINT} then do { w \<leftarrow> data_biguint (el_data el); Some (Some (dec (unat w) @ [32, 32])) }
     else if t \<in> {ELEMENT_CHAR, ELEMENT_UCHAR, ELEMENT_TEXT} then do {
       b \<leftarrow> data_ptr (el_data el);
       s \<leftarrow> cstr b;
       Some (Some (s @ [32, 32])) }
     else Some None)"

text \<open>The size handed to \<open>snprintf\<close> is \<open>sizeof(buf) - len\<close>, a \<open>size_t\<close>.\<close>

definition dump_element :: "byte list \<times> nat \<Rightarrow> element \<Rightarrow> (byte list \<times> nat) option" where
  "dump_element = (\<lambda>(buf, len) el. do {
     s \<leftarrow> el_text el;
     case s of
       None \<Rightarrow> Some (buf, len)
     | Some s \<Rightarrow> do { (buf, k) \<leftarrow> c_snprintf buf len (unat (of_nat 1024 - of_nat len :: ulong)) s; Some (buf, len + k) } })"

fun dump_elements :: "element list \<Rightarrow> byte list \<times> nat \<Rightarrow> (byte list \<times> nat) option" where
  "dump_elements [] st = Some st"
| "dump_elements (el # els) st = do { st \<leftarrow> dump_element st el; dump_elements els st }"

text \<open>\<open>printf("%s\n", buf)\<close> prints the buffer up to its terminator.\<close>

definition dump_record :: "byte list \<Rightarrow> rcd \<Rightarrow> byte list option" where
  "dump_record buf re = do {
     (buf, len) \<leftarrow> dump_elements (re_data re) (buf, 0);
     if 0 \<in> set buf then Some (takeWhile (\<lambda>c. c \<noteq> 0) buf @ [10]) else None }"

fun dump_records :: "byte list \<Rightarrow> record_context \<Rightarrow> rid list \<Rightarrow> byte list option" where
  "dump_records buf rctx [] = Some []"
| "dump_records buf rctx (re # res) = do {
     r \<leftarrow> rc_mem rctx re;
     s \<leftarrow> dump_record buf r;
     t \<leftarrow> dump_records buf rctx res;
     Some (s @ t) }"

text \<open>
  The first part of \<open>main\<close>: the table, or \<open>Some None\<close> where it gives up with a message. On the error
  path the context is freed, as far as there is one.
\<close>

definition load_table :: "bool list \<Rightarrow> file_env \<Rightarrow> (titles \<times> record_context) option option" where
  "load_table mal env =
     (case (fst (init_io_context mal env), alloc_record_context (tl mal)) of
        (Some m, Some (t, rctx)) \<Rightarrow> do {
          (ret, io, t, rctx) \<leftarrow> read_talbe_title (mp_io m) t rctx;
          if ret < 0 then do { _ \<leftarrow> free_record_context t rctx; Some None }
          else do {
            (_, io, rctx) \<leftarrow> read_all_record io rctx;
            (_, rctx) \<leftarrow> sort_record_by RECORDS (chars ''date'') rctx;
            (_, rctx) \<leftarrow> filter_record RECORDS None exclude_none_HBP rctx;
            rctx \<leftarrow> make_uid_hashtable rctx;
            Some (Some (t, rctx)) } }
      | (None, Some (t, rctx)) \<Rightarrow> do { _ \<leftarrow> free_record_context t rctx; Some None }
      | (_, None) \<Rightarrow> Some None)"

text \<open>The program: the table, then a query for each line of the input, whose matches are printed.\<close>

fun run_queries :: "byte list \<Rightarrow> record_context \<Rightarrow> block list \<Rightarrow> (byte list \<times> record_context) option" where
  "run_queries buf rctx [] = Some ([], rctx)"
| "run_queries buf rctx (line # ls) = do {
     (dumped, rctx) \<leftarrow> query rctx line;
     out \<leftarrow> dump_records buf rctx dumped;
     (rest, rctx) \<leftarrow> run_queries buf rctx ls;
     Some (out @ rest, rctx) }"

definition record_main :: "bool list \<Rightarrow> file_env \<Rightarrow> byte list \<Rightarrow> block list \<Rightarrow> (bool \<times> byte list) option" where
  "record_main mal env buf lines = do {
     t \<leftarrow> load_table mal env;
     case t of
       None \<Rightarrow> Some (False, [])
     | Some (t, rctx) \<Rightarrow> do {
         (out, rctx) \<leftarrow> run_queries buf rctx lines;
         _ \<leftarrow> free_record_context t rctx;
         Some (True, out) } }"

definition line_text :: "element list \<Rightarrow> byte list" where
  "line_text els = concat (map (\<lambda>el. case el_text el of Some (Some s) \<Rightarrow> s | _ \<Rightarrow> []) els)"

lemma line_text_Cons: "line_text (el # els) = (case el_text el of Some (Some s) \<Rightarrow> s | _ \<Rightarrow> []) @ line_text els"
  by (simp add: line_text_def)

lemma size_left: "len \<le> 1024 \<Longrightarrow> unat (of_nat 1024 - of_nat len :: ulong) = 1024 - len"
proof -
  assume l: "len \<le> 1024"
  then have "(of_nat 1024 - of_nat len :: ulong) = of_nat (1024 - len)" by (simp add: of_nat_diff)
  moreover have "(1024 - len) < 2 ^ 64" by (rule le_less_trans [of _ 1024]) simp_all
  ultimately show ?thesis by (simp add: unsigned_of_nat take_bit_nat_eq_self)
qed

lemma dump_elements_fits:
  assumes "\<forall>el \<in> set els. el_text el \<noteq> None" and "length buf = 1024" and "take len buf = s" and "length s = len" and "len + length (line_text els) < 1024"
    and "line_text els = [] \<longrightarrow> buf ! len = 0 \<or> len = 0"
  shows "\<exists>b. dump_elements els (buf, len) = Some (b, len + length (line_text els)) \<and> length b = 1024 \<and> take (len + length (line_text els)) b = s @ line_text els
    \<and> (b ! (len + length (line_text els)) = 0 \<or> len + length (line_text els) = 0)"
  using assms
proof (induction els arbitrary: buf len s)
  case Nil
  then show ?case by (auto simp: line_text_def)
next
  case (Cons el els)
  obtain x where x: "el_text el = Some x" using Cons.prems(1) by auto
  show ?case
  proof (cases x)
    case None
    then show ?thesis using Cons.IH [of buf len s] Cons.prems x by (simp add: dump_element_def line_text_Cons)
  next
    case (Some y)
    let ?b = "blit buf len (y @ [0])"
    have room: "len + length y < 1024" using Cons.prems(5) x Some by (simp add: line_text_Cons)
    have "take (1024 - len - 1) y = y" using room by simp
    moreover have "1024 - len \<noteq> 0" using room by linarith
    ultimately have "c_snprintf buf len (1024 - len) y = Some (?b, length y)"
      using room Cons.prems(2) by (simp add: c_snprintf_def mem_write_eq)
    then have st: "dump_element (buf, len) el = Some (?b, len + length y)"
      using x Some size_left [of len] room by (simp add: dump_element_def)
    have b: "length ?b = 1024" "take (len + length y) ?b = s @ y" "?b ! (len + length y) = 0"
      using room Cons.prems(2-4) take_blit [of len y buf]
      by (auto simp: blit_def nth_append min_def)
    have "\<exists>b'. dump_elements els (?b, len + length y) = Some (b', len + length y + length (line_text els)) \<and> length b' = 1024
        \<and> take (len + length y + length (line_text els)) b' = (s @ y) @ line_text els \<and> (b' ! (len + length y + length (line_text els)) = 0 \<or> len + length y + length (line_text els) = 0)"
      by (rule Cons.IH) (use Cons.prems b x Some in \<open>auto simp: line_text_Cons\<close>)
    then show ?thesis using st x Some by (simp add: line_text_Cons add.assoc)
  qed
qed

section \<open>Freeing the columns\<close>

lemma free_slots_ok: "free_slots (length title) (map Some title @ rest) = Some ()"
  by (induction title) simp_all

lemma free_slots_unset: "length title < n \<Longrightarrow> free_slots n (map Some title @ replicate k None) = None"
proof (induction title arbitrary: n)
  case Nil
  then show ?case by (cases n; cases k) simp_all
next
  case (Cons el title)
  then show ?case by (cases n) simp_all
qed

text \<open>What \<open>read_columns\<close> leaves: a block whose first slots are the columns, or, without memory, a null pointer.\<close>

definition columns_left :: "int \<Rightarrow> titles \<Rightarrow> element list \<Rightarrow> bool" where
  "columns_left ret t title \<longleftrightarrow> (ret = 0 \<or> ret = - 1) \<and> (\<exists>cn. 64 \<le> cn \<and> length title \<le> cn \<and> t = titles_of cn title)
     \<or> ret = - ENOMEM \<and> (\<exists>cn. 64 \<le> cn \<and> t = \<lparr>ti_cn = Some cn, ti_ptr = Title_null\<rparr>)"

lemma read_columns_left:
  assumes "read_columns io buf mal cn title = Some (ret, io', mal', t, title')" and "64 \<le> cn" and "length title \<le> cn"
  shows "columns_left ret t title'"
proof -
  have "64 \<le> cn \<and> length title \<le> cn \<longrightarrow> (case (ret, io', mal', t, title') of (ret, io, mal, t, title) \<Rightarrow> columns_left ret t title)"
  proof (rule read_columns.raw_induct [where P = "\<lambda>io buf mal cn title y. 64 \<le> cn \<and> length title \<le> cn \<longrightarrow>
      (case y of (ret, io, mal, t, title) \<Rightarrow> columns_left ret t title)", OF _ assms(1)])
    fix go io buf mal cn title and y :: "int \<times> io \<times> bool list \<times> titles \<times> element list"
    assume go: "\<And>io buf mal cn title y. go io buf mal cn title = Some y \<Longrightarrow> 64 \<le> cn \<and> length title \<le> cn \<longrightarrow>
        (case y of (ret, io, mal, t, title) \<Rightarrow> columns_left ret t title)"
      and run: "do {
     (ret, io, buf) \<leftarrow> read_line io buf 1024;
     if ret < 0 then Some (0, io, mal, titles_of cn title, title)
     else do {
       c \<leftarrow> rdc buf 0;
       if c = 41 then Some (0, io, mal, titles_of cn title, title)
       else let (ok, mal) = malloc mal in
         if \<not> ok then Some (- 1, io, mal, titles_of cn title, title)
         else do {
           (el, mal) \<leftarrow> read_column mal buf (nat ret);
           case el of
             None \<Rightarrow> go io buf mal cn title
           | Some el \<Rightarrow>
               if cn \<le> length title then
                 let (ok, mal) = malloc mal in
                   if \<not> ok then Some (- ENOMEM, io, mal, \<lparr>ti_cn = Some (int cn + 64), ti_ptr = Title_null\<rparr>, title)
                   else go io buf mal (cn + 64) (title @ [el])
               else go io buf mal cn (title @ [el]) } } } = Some y"
    show "64 \<le> cn \<and> length title \<le> cn \<longrightarrow> (case y of (ret, io, mal, t, title) \<Rightarrow> columns_left ret t title)"
    proof
      assume cn: "64 \<le> cn \<and> length title \<le> cn"
      have stop: "columns_left r (titles_of cn title) title" if "r = 0 \<or> r = - 1" for r
        using cn that unfolding columns_left_def by blast
      have null: "columns_left (- ENOMEM) \<lparr>ti_cn = Some (int cn + 64), ti_ptr = Title_null\<rparr> title"
        using cn unfolding columns_left_def by auto
      from run consider "\<exists>io mal. y = (0, io, mal, titles_of cn title, title)" | "\<exists>io mal. y = (- 1, io, mal, titles_of cn title, title)"
        | "\<exists>io mal. y = (- ENOMEM, io, mal, \<lparr>ti_cn = Some (int cn + 64), ti_ptr = Title_null\<rparr>, title)"
        | "\<exists>io buf mal. go io buf mal cn title = Some y" | "\<exists>io buf mal el. go io buf mal (cn + 64) (title @ [el]) = Some y"
        | "\<exists>io buf mal el. length title < cn \<and> go io buf mal cn (title @ [el]) = Some y"
        by (auto simp: Let_def not_le split: Option.bind_splits if_splits prod.splits option.splits) blast+
      then show "case y of (ret, io, mal, t, title) \<Rightarrow> columns_left ret t title"
      proof cases
        case 4
        then show ?thesis using go cn by blast
      next
        case 5
        then obtain io' buf' mal' el where g: "go io' buf' mal' (cn + 64) (title @ [el]) = Some y" by blast
        show ?thesis using go [OF g] cn by simp
      next
        case 6
        then obtain io' buf' mal' el where g: "length title < cn" "go io' buf' mal' cn (title @ [el]) = Some y" by blast
        show ?thesis using go [OF g(2)] g(1) cn by simp
      qed (use stop null in auto)
    qed
  qed
  then show ?thesis using assms(2,3) by simp
qed

text \<open>
  The columns can be freed after they were read. After a failure they cannot, but for the case that
  \<open>calloc\<close> fails when exactly as many columns are stored as the block has room for.
\<close>

lemma read_talbe_title_frees:
  assumes "read_talbe_title io t0 rctx = Some (ret, io', t, rctx')" and "rc_title rctx = []"
  shows "ret = 0 \<Longrightarrow> free_titles t = Some ()"
    and "ret < 0 \<Longrightarrow> free_titles t = (if ret = - 1 \<and> ti_cn t = Some (int (length (rc_title rctx'))) \<and> rc_title rctx' \<noteq> [] then Some () else None)"
proof -
  obtain ok mal where m: "malloc (rc_mal rctx) = (ok, mal)" by fastforce
  consider (nomem) "ret = - ENOMEM" "t = t0\<lparr>ti_cn := Some 64, ti_ptr := Title_null\<rparr>"
    | (notable) "ret < 0" "t = titles_of 64 []" "rc_title rctx' = []"
    | (cols) buf io1 r mal1 title t1 where "read_columns io1 buf mal 64 [] = Some (r, io', mal1, t1, title)" "rctx' = rctx\<lparr>rc_mal := mal1, rc_title := title\<rparr>"
        "if r < 0 then ret = r \<and> t = t1 else if title = [] then ret = - 1 \<and> t = t1 else ret = 0 \<and> t = t1\<lparr>ti_cn := Some (int (length title))\<rparr>"
    using assms(1) assms(2) unfolding read_talbe_title_def m by (auto simp: Let_def split: Option.bind_splits if_splits)
  note left_cases = this
  have block: "free_titles (titles_of cn title) = (if cn = length title then Some () else None)" if "64 \<le> cn" "length title \<le> cn" for cn title
    using that free_slots_ok [of title "[]"] free_slots_unset [of title cn "cn - length title"]
    by (auto simp: free_titles_def titles_of_def title_slots_def)
  have null: "free_titles (x\<lparr>ti_cn := Some cn, ti_ptr := Title_null\<rparr>) = None" "free_titles \<lparr>ti_cn = Some cn, ti_ptr = Title_null\<rparr> = None" if "64 \<le> cn" for cn x
    using that by (simp_all add: free_titles_def title_slots_def)
  have done_ok: "free_titles ((titles_of cn title)\<lparr>ti_cn := Some (int (length title))\<rparr>) = Some ()" for cn title
    using free_slots_ok [of title "replicate (cn - length title) None"] by (simp add: free_titles_def titles_of_def title_slots_def)
  show "free_titles t = Some ()" if "ret = 0"
    using left_cases
  proof cases
    case (cols buf io1 r mal1 title t1)
    have "columns_left r t1 title" using read_columns_left [OF cols(1)] by simp
    then show ?thesis using cols(3) that done_ok by (auto simp: columns_left_def ENOMEM_def split: if_splits)
  qed (use that in \<open>simp_all add: ENOMEM_def\<close>)
  show "free_titles t = (if ret = - 1 \<and> ti_cn t = Some (int (length (rc_title rctx'))) \<and> rc_title rctx' \<noteq> [] then Some () else None)" if "ret < 0"
    using left_cases
  proof cases
    case nomem
    then show ?thesis using null(1) [of 64 t0] by (simp add: ENOMEM_def)
  next
    case notable
    then show ?thesis using block [of 64 "[]"] by (simp add: titles_of_def)
  next
    case (cols buf io1 r mal1 title t1)
    have l: "columns_left r t1 title" using read_columns_left [OF cols(1)] by simp
    have t: "t = t1" "r \<le> 0" "ret = (if r < 0 then r else - 1)" "rc_title rctx' = title" "r < 0 \<or> title = []"
      using cols(2,3) that l by (auto simp: columns_left_def ENOMEM_def split: if_splits)
    from l consider cn where "r = 0 \<or> r = - 1" "64 \<le> cn" "length title \<le> cn" "t1 = titles_of cn title"
      | cn where "r = - ENOMEM" "64 \<le> cn" "t1 = \<lparr>ti_cn = Some cn, ti_ptr = Title_null\<rparr>" unfolding columns_left_def by blast
    then show ?thesis
    proof cases
      case 1
      have "ti_cn t = Some (int cn)" using t(1) 1(4) by (simp add: titles_of_def)
      then show ?thesis using 1 t block [OF 1(2,3)] by auto
    next
      case 2
      then show ?thesis using t null(2) [OF 2(2)] by (simp add: ENOMEM_def)
    qed
  qed
qed

lemma read_talbe_title_links:
  "read_talbe_title io t rctx = Some (ret, io', t', rctx') \<Longrightarrow> links_ok rctx \<Longrightarrow> links_ok rctx'"
  by (auto simp: read_talbe_title_def Let_def links_ok_def split: Option.bind_splits if_splits prod.splits)

section \<open>Properties\<close>

text \<open>
  A record whose text fits the buffer is printed with the texts of its elements in order.
\<close>

theorem dump_record_prints:
  assumes "\<forall>el \<in> set (re_data re). el_text el \<noteq> None" and "length buf = 1024" and "length (line_text (re_data re)) < 1024"
    and "0 \<notin> set (line_text (re_data re))" and "line_text (re_data re) \<noteq> []"
  shows "dump_record buf re = Some (line_text (re_data re) @ [10])"
proof -
  let ?l = "line_text (re_data re)"
  obtain b where b: "dump_elements (re_data re) (buf, 0) = Some (b, length ?l)" "length b = 1024" "take (length ?l) b = ?l" "b ! length ?l = 0"
    using dump_elements_fits [of "re_data re" buf 0 "[]"] assms by auto
  have "drop (length ?l) b = 0 # drop (Suc (length ?l)) b" using b(2,4) assms(3) by (metis Cons_nth_drop_Suc)
  then have e: "b = ?l @ 0 # drop (Suc (length ?l)) b" using b(3) by (metis append_take_drop_id)
  have "takeWhile (\<lambda>c. c \<noteq> 0) (?l @ 0 # drop (Suc (length ?l)) b) = ?l"
    by (subst takeWhile_append2) (use assms(4) in auto)
  moreover have "0 \<in> set (?l @ 0 # drop (Suc (length ?l)) b)" by simp
  ultimately have "0 \<in> set b \<and> takeWhile (\<lambda>c. c \<noteq> 0) b = ?l" unfolding e [symmetric] by (rule conjI [rotated])
  then show ?thesis using b(1) by (simp add: dump_record_def)
qed

text \<open>
  Once the text of the elements so far is longer than the buffer, the size left wraps around
  and the next element is written behind the buffer.
\<close>

theorem dump_record_overflows:
  assumes "length buf = 1024" and "1024 < len" and "len < 2 ^ 32" and "el_text el = Some (Some s)"
  shows "dump_elements (el # els) (buf, len) = None"
proof -
  have "(of_nat 1024 - of_nat len :: ulong) \<noteq> 0"
  proof
    assume "(of_nat 1024 - of_nat len :: ulong) = 0"
    then have "unat (of_nat 1024 :: ulong) = unat (of_nat len :: ulong)" by simp
    moreover have "len < 2 ^ 64" using assms(3) by simp
    ultimately show False using assms(2) by (simp add: unsigned_of_nat take_bit_nat_eq_self)
  qed
  then have "unat (of_nat 1024 - of_nat len :: ulong) \<noteq> 0" by (simp add: unat_eq_zero)
  then show ?thesis using assms(1,2,4) by (simp add: dump_element_def c_snprintf_def mem_write_def)
qed

text \<open>
  C40. The program does not survive a file that it cannot use. Where the file cannot be opened, measured or
  mapped, \<open>free_record_context\<close> reads \<open>cn\<close> and \<open>title\<close> of a context in which neither was ever set; with \<open>cn\<close> 0
  and \<open>title\<close> null in the new context the same call would return. Where the columns of the table cannot
  be read, it reads the slots of the block of columns that were never set, or a null \<open>title\<close>; only where \<open>calloc\<close> fails
  just when the block is full does the program end as it means to.
\<close>

theorem illegal_file_crashes:
  assumes "alloc_record_context (tl mal) = Some (t0, rctx)" and "init_io_context mal env = (m, fds)"
  shows "(m = None \<longrightarrow> record_main mal env buf lines = None \<and> free_record_context \<lparr>ti_cn = Some 0, ti_ptr = Title_null\<rparr> rctx \<noteq> None)
    \<and> (m = Some mp \<and> read_talbe_title (mp_io mp) t0 rctx = Some (ret, io, t, rctx') \<and> ret < 0 \<longrightarrow>
        record_main mal env buf lines =
          (if ret = - 1 \<and> ti_cn t = Some (int (length (rc_title rctx'))) \<and> rc_title rctx' \<noteq> [] then Some (False, []) else None))"
proof (intro conjI impI)
  have r: "t0 = \<lparr>ti_cn = None, ti_ptr = Title_unset\<rparr>" "links_ok rctx" "rc_title rctx = []"
    using assms(1) by (auto simp: alloc_record_context_def Let_def links_ok_def split: prod.splits if_splits)
  {
    assume "m = None"
    moreover have "free_record_context t0 rctx = None" unfolding r(1) free_record_context_def free_titles_def by (simp split: Option.bind_splits)
    ultimately show "record_main mal env buf lines = None" using assms by (simp add: record_main_def load_table_def)
  }
  show "free_record_context \<lparr>ti_cn = Some 0, ti_ptr = Title_null\<rparr> rctx \<noteq> None"
    using free_record_context_ok [OF r(2), of "\<lparr>ti_cn = Some 0, ti_ptr = Title_null\<rparr>"] by (auto simp: free_titles_def)
  assume h: "m = Some mp \<and> read_talbe_title (mp_io mp) t0 rctx = Some (ret, io, t, rctx') \<and> ret < 0"
  then have rt: "read_talbe_title (mp_io mp) t0 rctx = Some (ret, io, t, rctx')" "ret < 0" by simp_all
  have lk: "links_ok rctx'" using rt(1) r(2) read_talbe_title_links by blast
  show "record_main mal env buf lines =
      (if ret = - 1 \<and> ti_cn t = Some (int (length (rc_title rctx'))) \<and> rc_title rctx' \<noteq> [] then Some (False, []) else None)"
  proof (cases "free_titles t")
    case None
    then have "free_record_context t rctx' = None" by (simp add: free_record_context_def split: Option.bind_splits)
    then show ?thesis using None read_talbe_title_frees(2) [OF rt(1) r(3) rt(2)] h assms by (simp add: record_main_def load_table_def split: if_splits)
  next
    case (Some u)
    then obtain s where "free_record_context t rctx' = Some s" using free_record_context_ok [OF lk, of t] by auto
    then show ?thesis using Some read_talbe_title_frees(2) [OF rt(1) r(3) rt(2)] h assms by (simp add: record_main_def load_table_def split: if_splits)
  qed
qed

section \<open>Witnesses\<close>

definition demo_el :: element where
  "demo_el = \<lparr>el_data = Bits 7, el_name = [105], el_type = ELEMENT_INT, el_size = 0\<rparr>"

lemma demo_el_text: "el_text demo_el = Some (Some [55, 32, 32])"
proof -
  have "fmt_int 7 = [55]" by code_simp
  then show ?thesis by (simp add: el_text_def demo_el_def data_bigint_def)
qed

lemma dump_record_prints_witness:
  "dump_record (replicate 1024 0) \<lparr>re_data = [demo_el], re_uid = None, re_key = None, re_on = None, re_bucket = None\<rparr> = Some [55, 32, 32, 10]"
  using dump_record_prints [of "\<lparr>re_data = [demo_el], re_uid = None, re_key = None, re_on = None, re_bucket = None\<rparr>" "replicate 1024 0"]
  by (simp add: line_text_def demo_el_text)

lemma dump_record_overflows_witness: "dump_elements [demo_el] (replicate 1024 0, 1025) = None"
  using dump_record_overflows [of "replicate 1024 0" 1025 demo_el "[55, 32, 32]" "[]"] demo_el_text by simp

theorem illegal_file_crashes_witness:
  "record_main [] \<lparr>fe_open = - 1, fe_size = 0, fe_mmap = None\<rparr> (replicate 1024 0) [] = None"
proof -
  obtain p where "alloc_record_context (tl []) = Some p" by (simp add: alloc_record_context_def)
  then obtain t rctx where a: "alloc_record_context (tl []) = Some (t, rctx)" by (cases p) simp
  have i: "init_io_context [] \<lparr>fe_open = - 1, fe_size = 0, fe_mmap = None\<rparr> = (None, [])" by (simp add: init_io_context_def)
  show ?thesis using illegal_file_crashes [OF a i] by blast
qed

end
