(* ===== verification/Crc8.thy ===== *)
theory Crc8
  imports Prelude
begin

text \<open>
  \<open>src/src/crc8.c\<close>: the table-driven CRC-8 that protects the packet header. The table is
  shown to be the one of the polynomial \<open>x^8 + x^2 + x + 1\<close> (0x07), processed most
  significant bit first, so the loop is the bit-serial CRC; each table step is a
  permutation, so one altered byte always changes the checksum.
\<close>

section \<open>The table and the loop\<close>

definition crc8_table :: "byte list" where
  "crc8_table = [0, 7, 14, 9, 28, 27, 18, 21, 56, 63, 54, 49, 36, 35, 42, 45, 112, 119, 126,
    121, 108, 107, 98, 101, 72, 79, 70, 65, 84, 83, 90, 93, 224, 231, 238, 233, 252, 251, 242,
    245, 216, 223, 214, 209, 196, 195, 202, 205, 144, 151, 158, 153, 140, 139, 130, 133, 168,
    175, 166, 161, 180, 179, 186, 189, 199, 192, 201, 206, 219, 220, 213, 210, 255, 248, 241,
    246, 227, 228, 237, 234, 183, 176, 185, 190, 171, 172, 165, 162, 143, 136, 129, 134, 147,
    148, 157, 154, 39, 32, 41, 46, 59, 60, 53, 50, 31, 24, 17, 22, 3, 4, 13, 10, 87, 80, 89,
    94, 75, 76, 69, 66, 111, 104, 97, 102, 115, 116, 125, 122, 137, 142, 135, 128, 149, 146,
    155, 156, 177, 182, 191, 184, 173, 170, 163, 164, 249, 254, 247, 240, 229, 226, 235, 236,
    193, 198, 207, 200, 221, 218, 211, 212, 105, 110, 103, 96, 117, 114, 123, 124, 81, 86, 95,
    88, 77, 74, 67, 68, 25, 30, 23, 16, 5, 2, 11, 12, 33, 38, 47, 40, 61, 58, 51, 52, 78, 73,
    64, 71, 82, 85, 92, 91, 118, 113, 120, 127, 106, 109, 100, 99, 62, 57, 48, 55, 34, 37, 44,
    43, 6, 1, 8, 15, 26, 29, 20, 19, 174, 169, 160, 167, 178, 181, 188, 187, 150, 145, 152,
    159, 138, 141, 132, 131, 222, 217, 208, 215, 194, 197, 204, 203, 230, 225, 232, 239, 250,
    253, 244, 243]"

definition crc8_step :: "byte \<Rightarrow> byte \<Rightarrow> byte" where
  "crc8_step crc b = crc8_table ! unat (crc XOR b)"

text \<open>\<open>calc_crc8(buf, len)\<close>: \<open>None\<close> where the loop would read outside the buffer.\<close>

definition calc_crc8 :: "byte list \<Rightarrow> nat \<Rightarrow> byte option" where
  "calc_crc8 buf len =
     for_range 0 len (\<lambda>i crc. Option.bind (rd buf i) (\<lambda>b. Some (crc8_step crc b))) 0"

section \<open>The bit-serial reference\<close>

definition crc8_shift :: "byte \<Rightarrow> byte" where
  "crc8_shift x = (if bit x 7 then push_bit 1 x XOR 7 else push_bit 1 x)"

definition crc8_bitwise :: "byte \<Rightarrow> byte" where
  "crc8_bitwise x = (crc8_shift ^^ 8) x"

definition crc8_ref :: "byte list \<Rightarrow> byte" where
  "crc8_ref bs = fold (\<lambda>b crc. crc8_bitwise (crc XOR b)) bs 0"

lemma length_crc8_table [simp]: "length crc8_table = 256"
  by (simp add: crc8_table_def)

lemma crc8_bitwise_unfold:
  "crc8_bitwise x = crc8_shift (crc8_shift (crc8_shift (crc8_shift
     (crc8_shift (crc8_shift (crc8_shift (crc8_shift x)))))))"
  by (simp add: crc8_bitwise_def numeral_eq_Suc)

lemma crc8_table_bitwise_list: "map crc8_bitwise (map word_of_nat [0..<256]) = crc8_table"
proof -
  have "[0..<256] = 0 # 1 # [2..<256]" by (simp add: upt_rec)
  then show ?thesis
    by (simp add: crc8_bitwise_unfold crc8_shift_def crc8_table_def upt_rec_numeral)
qed

lemma crc8_table_bitwise: "crc8_table ! unat x = crc8_bitwise x"
proof -
  have "unat x < 256" using unsigned_less [of x] by simp
  then have "map crc8_bitwise (map word_of_nat [0..<256]) ! unat x = crc8_bitwise x" by simp
  then show ?thesis by (simp only: crc8_table_bitwise_list)
qed

lemma crc8_step_bitwise: "crc8_step crc b = crc8_bitwise (crc XOR b)"
  by (simp add: crc8_step_def crc8_table_bitwise)

section \<open>Linearity and injectivity of a step\<close>

lemma bit_crc8_poly: "bit (7::byte) n \<longleftrightarrow> n < 3"
proof -
  have "(7::byte) = mask 3" by (simp add: mask_eq_exp_minus_1)
  then show ?thesis by (auto simp only: bit_mask_iff possible_bit_word) simp
qed

lemma bit_crc8_shift:
  "bit (crc8_shift x) n \<longleftrightarrow>
     n < 8 \<and> ((0 < n \<and> bit x (n - 1)) \<noteq> (bit x 7 \<and> n < 3))"
  by (auto simp only: crc8_shift_def bit_push_bit_iff bit_xor_iff bit_crc8_poly possible_bit_word
      split: if_splits) auto

lemma crc8_shift_xor: "crc8_shift (x XOR y) = crc8_shift x XOR crc8_shift y"
  by (rule bit_word_eqI) (auto simp: bit_crc8_shift bit_xor_iff)

lemma crc8_shift_0: "crc8_shift z = 0 \<Longrightarrow> z = 0"
proof (rule bit_word_eqI)
  fix n assume z: "crc8_shift z = 0" and n: "n < LENGTH(8)"
  have nz: "\<not> bit (crc8_shift z) m" for m using z by simp
  have top: "\<not> bit z 7" using nz [of 0] by (simp add: bit_crc8_shift)
  show "bit z n \<longleftrightarrow> bit (0::byte) n"
    using nz [of "Suc n"] top n by (cases "n = 7") (auto simp: bit_crc8_shift)
qed

lemma inj_crc8_shift: "crc8_shift x = crc8_shift y \<longleftrightarrow> x = y"
proof
  assume "crc8_shift x = crc8_shift y"
  then have "crc8_shift (x XOR y) = 0" by (simp add: crc8_shift_xor)
  then have "x XOR y = 0" by (rule crc8_shift_0)
  then show "x = y" by (metis xor.right_neutral xor.assoc xor_self_eq)
qed simp

lemma inj_crc8_step:
  "crc8_step c a = crc8_step c b \<longleftrightarrow> a = b"
  "crc8_step c a = crc8_step d a \<longleftrightarrow> c = d"
proof -
  have "x XOR a = x XOR b \<longleftrightarrow> a = b" for x a b :: byte
    by (auto simp: bit_eq_iff bit_xor_iff)
  moreover have "a XOR x = b XOR x \<longleftrightarrow> a = b" for x a b :: byte
    by (auto simp: bit_eq_iff bit_xor_iff)
  ultimately show
    "crc8_step c a = crc8_step c b \<longleftrightarrow> a = b"
    "crc8_step c a = crc8_step d a \<longleftrightarrow> c = d"
    by (simp_all add: crc8_step_bitwise crc8_bitwise_unfold inj_crc8_shift)
qed

section \<open>The loop\<close>

lemma calc_crc8_fold:
  assumes "len \<le> length buf"
  shows "calc_crc8 buf len = Some (fold (\<lambda>b crc. crc8_step crc b) (take len buf) 0)"
proof -
  have "calc_crc8 buf len = Some (fold (\<lambda>i crc. crc8_step crc (buf ! i)) [0..<len] 0)"
    unfolding calc_crc8_def
    by (rule for_range_cong_fold) (use assms in \<open>simp add: run_simps\<close>)
  also have "fold (\<lambda>i crc. crc8_step crc (buf ! i)) [0..<len] 0
      = fold (\<lambda>b crc. crc8_step crc b) (map ((!) buf) [0..<len]) 0"
    by (simp add: fold_map comp_def)
  also have "map ((!) buf) [0..<len] = take len buf"
    by (rule nth_equalityI) (use assms in auto)
  finally show ?thesis .
qed

lemma fold_crc8_step_inj:
  "fold (\<lambda>b crc. crc8_step crc b) bs c = fold (\<lambda>b crc. crc8_step crc b) bs d \<longleftrightarrow> c = d"
  by (induction bs arbitrary: c d) (auto simp: inj_crc8_step)

lemma fold_crc8_step_update:
  assumes "i < length bs" and "b \<noteq> bs ! i"
  shows "fold (\<lambda>b crc. crc8_step crc b) (bs[i := b]) c
    \<noteq> fold (\<lambda>b crc. crc8_step crc b) bs c"
proof -
  have "bs = take i bs @ bs ! i # drop (Suc i) bs"
    using assms(1) by (rule id_take_nth_drop)
  then have old: "fold (\<lambda>b crc. crc8_step crc b) bs c = fold (\<lambda>b crc. crc8_step crc b)
      (take i bs @ bs ! i # drop (Suc i) bs) c"
    by (rule arg_cong)
  have "bs[i := b] = take i bs @ b # drop (Suc i) bs"
    using assms(1) by (rule upd_conv_take_nth_drop)
  with assms(2) show ?thesis
    unfolding old by (simp add: fold_crc8_step_inj inj_crc8_step)
qed

lemma crc8_ref_fold: "crc8_ref bs = fold (\<lambda>b crc. crc8_step crc b) bs 0"
  by (simp add: crc8_ref_def crc8_step_bitwise)

text \<open>
  C32. On every buffer that holds at least \<open>len\<close> bytes, the table-driven \<open>calc_crc8\<close>
  stays inside the buffer and returns the bit-serial CRC-8 (polynomial 0x07, initial value 0,
  no reflection) of the first \<open>len\<close> bytes.
\<close>

theorem calc_crc8_bit_serial:
  assumes "len \<le> length buf"
  shows "calc_crc8 buf len = Some (crc8_ref (take len buf))"
  using assms by (simp add: calc_crc8_fold crc8_ref_fold)

theorem calc_crc8_bit_serial_witness:
  "3 \<le> length [64, 36, 1 :: byte] \<and> calc_crc8 [64, 36, 1] 3 = Some (crc8_ref (take 3 [64, 36, 1]))"
  using calc_crc8_bit_serial [of 3 "[64, 36, 1]"] by simp

text \<open>
  Altering any one byte among the first \<open>len\<close> of a buffer always changes the value
  \<open>calc_crc8\<close> returns, so a header with one corrupted byte never passes with the old
  checksum.
\<close>

theorem calc_crc8_detects_byte_change:
  assumes "len \<le> length buf" and "i < len" and "b \<noteq> buf ! i"
  shows "calc_crc8 (buf[i := b]) len \<noteq> calc_crc8 buf len"
proof -
  have "take len (buf[i := b]) = (take len buf)[i := b]"
    by (simp add: take_update_swap)
  then show ?thesis
    using assms fold_crc8_step_update [of i "take len buf" b 0] by (simp add: calc_crc8_fold)
qed

theorem calc_crc8_detects_byte_change_witness:
  "calc_crc8 ([64, 36, 1 :: byte][1 := 37]) 3 \<noteq> calc_crc8 [64, 36, 1] 3"
  using calc_crc8_detects_byte_change [of 3 "[64, 36, 1]" 1 37] by simp

end
