(* ===== verification/SocketIO.thy ===== *)
theory SocketIO
  imports Prelude
begin

text \<open>
  \<open>src/src/io.c\<close> and \<open>io.h\<close>: the byte channel the packet layer reads and writes through,
  an object of three function pointers, and its implementation on a non-blocking socket.

  The kernel is an explicit environment: the calls of \<open>recv\<close> and \<open>send\<close> consume a script
  of what the network does. The contract the packet layer relies on is the locale
  \<open>io_reader\<close>; \<open>read_socket\<close> over any script is shown to satisfy it.
\<close>

section \<open>recv and read\_socket\<close>

datatype recv_ev = RData "byte list" | REof | RErr int

datatype recv_ret = Got "byte list" | RecvErr int

text \<open>
  \<open>recv(fd, buf, len, 0)\<close> on a stream socket: at most \<open>len\<close> bytes of the data at the front,
  the rest stays; an empty queue reports \<open>EAGAIN\<close>; after the peer's shutdown it returns 0
  for ever.
\<close>

fun recv :: "recv_ev list \<Rightarrow> nat \<Rightarrow> recv_ret \<times> recv_ev list" where
  "recv evs 0 = (Got [], evs)"
| "recv [] (Suc n) = (RecvErr EAGAIN, [])"
| "recv (RData [] # evs) (Suc n) = recv evs (Suc n)"
| "recv (RData (b # bs) # evs) (Suc n) =
     (Got (b # take n bs), if length bs \<le> n then evs else RData (drop n bs) # evs)"
| "recv (REof # evs) (Suc n) = (Got [], REof # evs)"
| "recv (RErr e # evs) (Suc n) = (RecvErr e, evs)"

definition read_socket :: "recv_ev list \<Rightarrow> nat \<Rightarrow> int \<times> byte list \<times> recv_ev list" where
  "read_socket evs len =
     (case recv evs len of
        (RecvErr e, evs') \<Rightarrow>
          if e \<noteq> EAGAIN \<and> e \<noteq> EINTR then (-1, [], evs') else (0, [], evs')
      | (Got bs, evs') \<Rightarrow>
          if bs = [] then (-1, [], evs') else (int (length bs), bs, evs'))"

text \<open>The bytes a script will still deliver before the end or a fatal error.\<close>

fun incoming :: "recv_ev list \<Rightarrow> byte list" where
  "incoming [] = []"
| "incoming (RData bs # evs) = bs @ incoming evs"
| "incoming (REof # evs) = []"
| "incoming (RErr e # evs) = (if e = EAGAIN \<or> e = EINTR then incoming evs else [])"

section \<open>The contract of a channel's read function\<close>

locale io_reader =
  fixes rdf :: "'s \<Rightarrow> nat \<Rightarrow> int \<times> byte list \<times> 's"
    and strm :: "'s \<Rightarrow> byte list"
  assumes data: "\<lbrakk>rdf s n = (ret, bs, s'); 0 < n; 0 < ret\<rbrakk>
      \<Longrightarrow> length bs = nat ret \<and> length bs \<le> n \<and> strm s = bs @ strm s'"
    and idle: "\<lbrakk>rdf s n = (0, bs, s'); 0 < n\<rbrakk> \<Longrightarrow> strm s' = strm s"

lemma recv_got:
  "recv evs n = (Got bs, evs') \<Longrightarrow> bs \<noteq> []
   \<Longrightarrow> length bs \<le> n \<and> incoming evs = bs @ incoming evs'"
  by (induction evs n rule: recv.induct) (auto split: if_splits)

lemma recv_again:
  "recv evs n = (RecvErr e, evs') \<Longrightarrow> e = EAGAIN \<or> e = EINTR \<Longrightarrow> incoming evs' = incoming evs"
  by (induction evs n rule: recv.induct) (auto split: if_splits)

interpretation sock: io_reader read_socket incoming
proof unfold_locales
  fix s n ret bs and s' :: "recv_ev list"
  assume "read_socket s n = (ret, bs, s')" and "0 < n" and "0 < ret"
  then show "length bs = nat ret \<and> length bs \<le> n \<and> incoming s = bs @ incoming s'"
    by (auto simp: read_socket_def split: prod.splits recv_ret.splits if_splits dest: recv_got)
next
  fix s n bs and s' :: "recv_ev list"
  assume "read_socket s n = (0, bs, s')" and "0 < n"
  then show "incoming s' = incoming s"
    by (auto simp: read_socket_def split: prod.splits recv_ret.splits if_splits dest: recv_again)
qed

section \<open>send and write\_socket\<close>

datatype send_ev = SAccept nat | SErr int

text \<open>What the socket will do with the next \<open>send\<close> calls, and the bytes it has taken.\<close>

record sock_out =
  script :: "send_ev list"
  wire :: "byte list"

text \<open>
  The loop of \<open>write_socket(ctx, buf, len)\<close>, with \<open>left\<close> bytes to go. \<open>None\<close> when the
  script ends first: the loop is then still waiting in \<open>send\<close>.
\<close>

fun write_loop :: "send_ev list \<Rightarrow> byte list \<Rightarrow> byte list \<Rightarrow> int \<Rightarrow> int \<Rightarrow> (int \<times> sock_out) option"
where
  "write_loop evs out buf len left =
     (if left \<le> 0 then Some (len, \<lparr>script = evs, wire = out\<rparr>)
      else case evs of
        [] \<Rightarrow> None
      | SErr e # evs' \<Rightarrow>
          if e = EINTR then write_loop evs' out buf len left
          else Some (-1, \<lparr>script = evs', wire = out\<rparr>)
      | SAccept n # evs' \<Rightarrow>
          let k = min n (nat left)
          in write_loop evs' (out @ take k (drop (nat (len - left)) buf)) buf len (left - int k))"

declare write_loop.simps [simp del]

lemma write_loop_eqs [run_simps]:
  "left \<le> 0 \<Longrightarrow> write_loop evs out buf len left = Some (len, \<lparr>script = evs, wire = out\<rparr>)"
  "0 < left \<Longrightarrow> write_loop [] out buf len left = None"
  "0 < left \<Longrightarrow> write_loop (SErr e # evs) out buf len left =
     (if e = EINTR then write_loop evs out buf len left
      else Some (-1, \<lparr>script = evs, wire = out\<rparr>))"
  "0 < left \<Longrightarrow> write_loop (SAccept n # evs) out buf len left =
     write_loop evs (out @ take (min n (nat left)) (drop (nat (len - left)) buf)) buf len
       (left - int (min n (nat left)))"
  by (simp_all add: write_loop.simps [of _ _ _ _ left] Let_def)

definition write_socket :: "sock_out \<Rightarrow> byte list \<Rightarrow> int \<Rightarrow> (int \<times> sock_out) option" where
  "write_socket st buf len = write_loop (script st) (wire st) buf len len"

lemma write_loop_result:
  assumes "write_loop evs out buf len left = Some (ret, st)"
    and "0 \<le> left" and "left \<le> len" and "nat len \<le> length buf"
  shows "(ret = len \<and> wire st = out @ take (nat left) (drop (nat (len - left)) buf))
    \<or> (ret = -1 \<and> (\<exists>k < nat left. wire st = out @ take k (drop (nat (len - left)) buf)))"
  using assms
proof (induction evs out buf len left rule: write_loop.induct)
  case (1 evs out buf len left)
  show ?case
  proof (cases "left \<le> 0")
    case True
    with 1 show ?thesis by (auto simp: run_simps)
  next
    case False
    then obtain e evs' where evs: "evs = e # evs'"
      using "1.prems" by (cases evs) (auto simp: run_simps)
    show ?thesis
    proof (cases e)
      case (SErr c)
      show ?thesis
      proof (cases "c = EINTR")
        case True
        then have "write_loop evs' out buf len left = Some (ret, st)"
          using "1.prems"(1) False evs SErr
          by (simp add: run_simps)
        from "1.IH"(2) [OF False evs SErr True this "1.prems"(2-4)] show ?thesis .
      next
        case c: False
        then have "ret = -1" "wire st = out"
          using "1.prems" False evs SErr by (auto simp: run_simps)
        moreover have "0 < nat left" using False by simp
        ultimately show ?thesis by (metis append_Nil2 take0)
      qed
    next
      case (SAccept n)
      define k where "k = min n (nat left)"
      have k: "int k \<le> left" using False by (auto simp: k_def)
      define out' where "out' = out @ take k (drop (nat (len - left)) buf)"
      have run: "write_loop evs' out' buf len (left - int k) = Some (ret, st)"
        using "1.prems" False evs SAccept
        by (simp add: run_simps k_def out'_def)
      have IH: "(ret = len \<and> wire st = out' @ take (nat (left - int k)) (drop (nat (len - (left - int k))) buf))
        \<or> (ret = -1 \<and> (\<exists>j < nat (left - int k). wire st = out' @ take j (drop (nat (len - (left - int k))) buf)))"
        unfolding out'_def
        by (rule "1.IH"(1) [OF False evs SAccept k_def run [unfolded out'_def]])
          (use "1.prems" k in auto)
      have glue: "out' @ take j (drop (nat (len - (left - int k))) buf)
          = out @ take (k + j) (drop (nat (len - left)) buf)" for j
      proof -
        have "nat (len - (left - int k)) = k + nat (len - left)"
          using "1.prems" by (simp add: nat_add_distrib algebra_simps)
        then show ?thesis by (simp add: out'_def take_add)
      qed
      have "k + nat (left - int k) = nat left" using k by simp
      with IH show ?thesis unfolding glue
        by (metis (no_types, lifting) add_less_cancel_left)
    qed
  qed
qed

text \<open>
  \<open>write_socket\<close> on a buffer of at least \<open>len \<ge> 0\<close> bytes: when it returns, it either
  returns \<open>len\<close> and exactly those bytes went out, in order, whatever the sizes the kernel
  accepted and however often it was interrupted, or it returns -1 and what went out is a
  strict prefix of them.
\<close>

theorem write_socket_all_or_prefix:
  assumes "write_socket st buf len = Some (ret, st')" and "0 \<le> len" and "nat len \<le> length buf"
  shows "(ret = len \<and> wire st' = wire st @ take (nat len) buf)
    \<or> (ret = -1 \<and> (\<exists>k < nat len. wire st' = wire st @ take k buf))"
  using write_loop_result [of "script st" "wire st" buf len len ret st'] assms
  by (simp add: write_socket_def)

theorem write_socket_all_or_prefix_witness:
  "write_socket \<lparr>script = [SAccept 1, SErr EINTR, SAccept 5], wire = []\<rparr> [1, 2, 3] 3
     = Some (3, \<lparr>script = [], wire = [1, 2, 3]\<rparr>) \<and> wire \<lparr>script = [], wire = [1, 2, 3 :: byte]\<rparr> = [] @ take 3 [1, 2, 3]"
proof -
  have run: "write_socket \<lparr>script = [SAccept 1, SErr EINTR, SAccept 5], wire = []\<rparr> [1, 2, 3] 3
     = Some (3, \<lparr>script = [], wire = [1, 2, 3]\<rparr>)"
    by (simp add: write_socket_def write_loop.simps EINTR_def)
  then show ?thesis using write_socket_all_or_prefix [OF run] by simp
qed

text \<open>
  The loop ends: once the kernel has accepted enough, whatever the interruptions.
\<close>

fun accepts :: "send_ev list \<Rightarrow> nat" where
  "accepts [] = 0"
| "accepts (SAccept n # evs) = n + accepts evs"
| "accepts (SErr e # evs) = accepts evs"

lemma write_loop_returns:
  assumes "\<forall>e. SErr e \<in> set evs \<longrightarrow> e = EINTR" and "nat left \<le> accepts evs"
  shows "\<exists>st. write_loop evs out buf len left = Some (len, st)"
  using assms
proof (induction evs arbitrary: out left)
  case Nil
  then show ?case by (simp add: run_simps)
next
  case (Cons e evs)
  show ?case
  proof (cases "0 < left")
    case True
    with Cons show ?thesis by (cases e) (auto simp: run_simps min_def)
  qed (simp add: run_simps)
qed

text \<open>
  \<open>write_socket\<close> returns \<open>len\<close> whenever the kernel reports no error but interruptions
  and the sizes it accepts add up to at least \<open>len\<close>.
\<close>

theorem write_socket_returns:
  assumes "\<forall>e. SErr e \<in> set (script st) \<longrightarrow> e = EINTR" and "nat len \<le> accepts (script st)"
  shows "\<exists>st'. write_socket st buf len = Some (len, st')"
  using write_loop_returns [OF assms] by (simp add: write_socket_def)

theorem write_socket_returns_witness:
  "\<exists>st'. write_socket \<lparr>script = [SErr EINTR, SAccept 2, SAccept 1], wire = []\<rparr> [1, 2, 3] 3
     = Some (3, st')"
  by (rule write_socket_returns) simp_all

section \<open>The channel object\<close>

definition IO_TYPE_SOCKET :: int where "IO_TYPE_SOCKET = 1"
definition IO_TYPE_FILE :: int where "IO_TYPE_FILE = 2"

text \<open>
  \<open>struct io_context\<close>. \<open>malloc\<close> does not clear the object, so a function pointer that
  \<open>fd_to_io_context\<close> does not set is \<open>Indeterminate\<close>; another creator of channels may
  store a null pointer.
\<close>

datatype io_fn = Read_socket | Write_socket | Free_io_context

datatype fn_slot = Indeterminate | Null_fn | Fn io_fn

record io_context =
  io_fd :: int
  io_read :: fn_slot
  io_write :: fn_slot
  io_close :: fn_slot

text \<open>
  \<open>fd_to_io_context(fd, io_type)\<close>: \<open>alloc_ok\<close> is the outcome of \<open>malloc\<close>, \<open>nonblock\<close>
  the set of descriptors with \<open>O_NONBLOCK\<close>. \<open>None\<close> is the null pointer.
\<close>

definition fd_to_io_context ::
  "bool \<Rightarrow> int set \<Rightarrow> int \<Rightarrow> int \<Rightarrow> io_context option \<times> int set" where
  "fd_to_io_context alloc_ok nonblock fd io_type =
     (if \<not> alloc_ok then (None, nonblock)
      else
        let c = \<lparr>io_fd = fd, io_read = Indeterminate, io_write = Indeterminate,
                 io_close = Indeterminate\<rparr>;
            c = (if io_type = IO_TYPE_SOCKET
                 then c\<lparr>io_read := Fn Read_socket, io_write := Fn Write_socket\<rparr> else c)
        in (Some (c\<lparr>io_close := Fn Free_io_context\<rparr>), insert fd nonblock))"

text \<open>\<open>free_io_context\<close>: the descriptor is closed and the object freed.\<close>

definition free_io_context :: "int set \<Rightarrow> io_context \<Rightarrow> int set" where
  "free_io_context open_fds ioc = open_fds - {io_fd ioc}"

end
