(* ===== verification/Packet.thy ===== *)
theory Packet
  imports Crc8 SocketIO
begin

text \<open>
  \<open>src/src/packet.c\<close>, \<open>packet.h\<close> and \<open>protocol.h\<close>: framing of the packet stream. A
  context caches what the channel delivered (a buffer of 16 packets), assembles one packet
  object from it, resynchronises on the magic \<open>@$\<close> and checks the header's CRC.

  The specification is \<open>deframe\<close>, a parser over the whole byte stream; the code is shown to
  implement it for every way the channel fragments the stream.
\<close>

section \<open>Packets\<close>

definition RCPACKET_MAXPAYLOADSIZE :: nat where "RCPACKET_MAXPAYLOADSIZE = 1024 + 256"
definition RCPACKET_HEAD_LEN :: nat where "RCPACKET_HEAD_LEN = 12"

text \<open>\<open>sizeof(struct DwPacket)\<close> and the size of the cache.\<close>

definition sizeof_DwPacket :: nat where
  "sizeof_DwPacket = RCPACKET_HEAD_LEN + RCPACKET_MAXPAYLOADSIZE"
definition sizeof_cache :: nat where "sizeof_cache = sizeof_DwPacket * 16"

lemmas packet_sizes [simp] = RCPACKET_MAXPAYLOADSIZE_def RCPACKET_HEAD_LEN_def
  sizeof_DwPacket_def sizeof_cache_def

definition RCCOMMAND_GET_MACHINEINFO :: int where "RCCOMMAND_GET_MACHINEINFO = 0"
definition RCCOMMAND_START_RECOVERY :: int where
  "RCCOMMAND_START_RECOVERY = RCCOMMAND_GET_MACHINEINFO + 1"
definition RCCOMMAND_END_RECOVERY :: int where
  "RCCOMMAND_END_RECOVERY = RCCOMMAND_GET_MACHINEINFO + 2"
definition RCCOMMAND_REQUEST_NEWFILE :: int where "RCCOMMAND_REQUEST_NEWFILE = 16"
definition RCCOMMAND_TRANS_FILEDATA :: int where
  "RCCOMMAND_TRANS_FILEDATA = RCCOMMAND_REQUEST_NEWFILE + 1"
definition RCCOMMAND_FILEDATA_MD5 :: int where
  "RCCOMMAND_FILEDATA_MD5 = RCCOMMAND_REQUEST_NEWFILE + 2"
definition RCCOMMAND_END_TRANSFILE :: int where
  "RCCOMMAND_END_TRANSFILE = RCCOMMAND_REQUEST_NEWFILE + 3"

text \<open>The packed little-endian fields of a packet object, addressed by their offsets.\<close>

definition get16 :: "byte list \<Rightarrow> nat \<Rightarrow> u16" where
  "get16 dp off = le16_of (dp ! off) (dp ! (off + 1))"

definition put16 :: "byte list \<Rightarrow> nat \<Rightarrow> u16 \<Rightarrow> byte list" where
  "put16 dp off w = dp[off := ucast w, off + 1 := ucast (drop_bit 8 w)]"

definition off_seq :: nat where "off_seq = 2"
definition off_flags :: nat where "off_flags = 4"
definition off_cmd :: nat where "off_cmd = 6"
definition off_len :: nat where "off_len = 8"
definition off_crc :: nat where "off_crc = 10"
definition off_payload :: nat where "off_payload = 12"

lemmas packet_offsets [simp] =
  off_seq_def off_flags_def off_cmd_def off_len_def off_crc_def off_payload_def

definition dp_len :: "byte list \<Rightarrow> nat" where "dp_len dp = unat (get16 dp off_len)"

definition dp_cmd :: "byte list \<Rightarrow> int" where "dp_cmd dp = uint (get16 dp off_cmd)"

definition has_magic :: "byte list \<Rightarrow> nat \<Rightarrow> bool" where
  "has_magic buf i \<longleftrightarrow> buf ! i = 0x40 \<and> buf ! (i + 1) = 0x24"

section \<open>The context\<close>

text \<open>
  \<open>struct DwPacketContext\<close>: the pointers \<open>buf\<close> and \<open>pos\<close> are offsets from \<open>start\<close>
  into the cache \<open>cmem\<close>, whose length is \<open>end - start\<close>; \<open>rxdp\<close> and \<open>txdp\<close> are the bytes of
  the two packet objects, \<open>rxlen\<close> is \<open>ctx->len\<close>.
\<close>

record dw_ctx =
  cmem :: "byte list"
  cbuf :: nat
  cpos :: nat
  rxdp :: "byte list"
  txdp :: "byte list"
  rxlen :: nat

text \<open>
  \<open>dw_init_packet\<close>. The four \<open>malloc\<close>s succeed or not; their contents are indeterminate
  (the arguments). The result is the null pointer when an allocation fails or the channel has
  no read or write function; reading a slot of a null channel or a slot that was never set is
  undefined.
\<close>

datatype init_result = Null_pointer | Fresh dw_ctx

definition dw_init_packet ::
  "bool \<times> bool \<times> bool \<times> bool \<Rightarrow> byte list \<Rightarrow> byte list \<Rightarrow> byte list
   \<Rightarrow> io_context option \<Rightarrow> init_result option" where
  "dw_init_packet allocs buf dp txd ioc =
     (case allocs of (a_ctx, a_buf, a_dp, a_tx) \<Rightarrow>
        if \<not> a_ctx \<or> \<not> a_buf \<or> \<not> a_dp \<or> \<not> a_tx then Some Null_pointer
        else case ioc of
          None \<Rightarrow> None
        | Some c \<Rightarrow>
            if io_read c = Indeterminate then None
            else if io_read c = Null_fn then Some Null_pointer
            else if io_write c = Indeterminate then None
            else if io_write c = Null_fn then Some Null_pointer
            else Some (Fresh \<lparr>cmem = buf, cbuf = 0, cpos = 0, rxdp = dp, txdp = txd,
                              rxlen = 0\<rparr>))"

text \<open>
  \<open>dw_free_packet\<close> closes the channel through its slot and frees the four blocks; what is left is
  the set of open descriptors. A slot that was never set is undefined.
\<close>

definition dw_free_packet :: "io_context \<Rightarrow> int set \<Rightarrow> int set option" where
  "dw_free_packet ioc open_fds = (case io_close ioc of Fn Free_io_context \<Rightarrow> Some (free_io_context open_fds ioc) | _ \<Rightarrow> None)"

lemma dw_free_packet_closes: "fd_to_io_context True nb fd ty = (Some ioc, nb') \<Longrightarrow> dw_free_packet ioc fds = Some (fds - {fd})"
  by (auto simp: fd_to_io_context_def dw_free_packet_def free_io_context_def Let_def split: if_splits)

section \<open>read\_cached\<close>

definition copy_cached :: "dw_ctx \<Rightarrow> nat \<Rightarrow> nat \<Rightarrow> dw_ctx option" where
  "copy_cached ctx dst n = do {
     bs \<leftarrow> mem_read (cmem ctx) (cbuf ctx) n;
     dp \<leftarrow> mem_write (rxdp ctx) dst bs;
     Some (ctx\<lparr>rxdp := dp, cbuf := cbuf ctx + n\<rparr>) }"

text \<open>
  \<open>read_cached(ctx, ioc, buf, len)\<close> with \<open>buf = (char *)dp + base\<close> and \<open>left\<close> bytes to
  go: the loop at the label \<open>retry\<close>. \<open>None\<close> when a copy leaves the packet object or the cache.
\<close>

function read_cached ::
  "('s \<Rightarrow> nat \<Rightarrow> int \<times> byte list \<times> 's) \<Rightarrow> dw_ctx \<Rightarrow> 's \<Rightarrow> nat \<Rightarrow> nat \<Rightarrow> nat
   \<Rightarrow> (int \<times> dw_ctx \<times> 's) option" where
  "read_cached rdf ctx s base len left =
     (let offset = len - left; cached = cpos ctx - cbuf ctx in
      if left \<le> cached then
        Option.bind (copy_cached ctx (base + offset) left) (\<lambda>ctx. Some (int len, ctx, s))
      else
        Option.bind
          (if 0 < cached then copy_cached ctx (base + offset) cached else Some ctx)
          (\<lambda>ctx1.
            let left1 = left - cached;
                ctx2 = (if cbuf ctx1 = length (cmem ctx1) then ctx1\<lparr>cbuf := 0, cpos := 0\<rparr>
                        else ctx1)
            in case rdf s (length (cmem ctx2) - cpos ctx2) of (ret, bs, s') \<Rightarrow>
              if ret < 0 then Some (ret, ctx2, s')
              else if ret = 0 then Some (int (len - left1), ctx2, s')
              else Option.bind (mem_write (cmem ctx2) (cpos ctx2) bs)
                (\<lambda>m. read_cached rdf (ctx2\<lparr>cmem := m, cpos := cpos ctx2 + nat ret\<rparr>) s'
                       base len left1)))"
  by pat_completeness auto
termination
  by (relation "measures [\<lambda>(rdf, ctx, s, base, len, left). left,
                          \<lambda>(rdf, ctx, s, base, len, left). cbuf ctx + 1 - cpos ctx]")
    (auto simp: copy_cached_def split: if_splits option.splits bind_splits)

declare read_cached.simps [simp del]

section \<open>dw\_get\_packet\<close>

text \<open>
  The header check compares plain \<open>char\<close>s with \<open>int\<close>s: \<open>crc\<close> and the buffer's bytes are
  promoted (with or without sign, as the platform's \<open>char\<close> is) before \<open>~\<close> and \<open>!=\<close>.
\<close>

definition plain_char :: "bool \<Rightarrow> byte \<Rightarrow> int" where
  "plain_char is_signed b = (if is_signed then sint b else uint b)"

definition header_crc_ok :: "bool \<Rightarrow> byte \<Rightarrow> byte \<Rightarrow> byte \<Rightarrow> bool" where
  "header_crc_ok is_signed crc c0 c1 \<longleftrightarrow>
     \<not> (plain_char is_signed crc \<noteq> plain_char is_signed c0
        \<or> plain_char is_signed c1 \<noteq> NOT (plain_char is_signed crc))"

text \<open>The \<open>do ... while\<close> that looks for the magic inside the header.\<close>

function resync_scan :: "byte list \<Rightarrow> nat \<Rightarrow> nat \<Rightarrow> nat" where
  "resync_scan buf len ptr =
     (let p = ptr + 1 in
      if len - 2 < p then p
      else if \<not> has_magic buf p then resync_scan buf len p
      else p)"
  by pat_completeness auto
termination
  by (relation "measure (\<lambda>(buf, len, ptr). len - ptr)") auto

declare resync_scan.simps [simp del]

datatype 's gp_step =
    Goto_retry dw_ctx 's
  | Return int "byte list option" dw_ctx 's

text \<open>What one pass does with the packet object once a read has added to it.\<close>

definition examine :: "dw_ctx \<Rightarrow> 's \<Rightarrow> 's gp_step option" where
  "examine ctx s =
     (let len = rxlen ctx; buf = rxdp ctx in
      if len < RCPACKET_HEAD_LEN then Some (Return 0 None ctx s)
      else if len = RCPACKET_HEAD_LEN then
        if \<not> has_magic buf 0 then
          let ptr = resync_scan buf len 0 in do {
            buf' \<leftarrow> mem_move buf 0 ptr (len - ptr);
            Some (Goto_retry (ctx\<lparr>rxlen := len - ptr, rxdp := buf'\<rparr>) s) }
        else do {
          crc \<leftarrow> calc_crc8 buf (len - 2);
          if \<not> header_crc_ok True crc (buf ! (len - 2)) (buf ! (len - 1)) then do {
            buf' \<leftarrow> mem_move buf 0 2 (len - 2);
            Some (Goto_retry (ctx\<lparr>rxlen := len - 2, rxdp := buf'\<rparr>) s) }
          else if dp_len buf = 0
            then Some (Return (int len) (Some buf) (ctx\<lparr>rxlen := 0\<rparr>) s)
          else Some (Goto_retry ctx s) }
      else if len < RCPACKET_HEAD_LEN + dp_len buf then Some (Goto_retry ctx s)
      else Some (Return (int len) (Some buf) (ctx\<lparr>rxlen := 0\<rparr>) s))"

text \<open>One pass from the label \<open>retry\<close> of \<open>dw_get_packet\<close> to the next \<open>goto\<close> or return.\<close>

definition get_packet_step ::
  "('s \<Rightarrow> nat \<Rightarrow> int \<times> byte list \<times> 's) \<Rightarrow> dw_ctx \<Rightarrow> 's \<Rightarrow> 's gp_step option" where
  "get_packet_step rdf ctx s =
     (let want = (if RCPACKET_HEAD_LEN \<le> rxlen ctx
                  then dp_len (rxdp ctx) + RCPACKET_HEAD_LEN - rxlen ctx
                  else RCPACKET_HEAD_LEN - rxlen ctx)
      in do {
        (ret, ctx1, s1) \<leftarrow> read_cached rdf ctx s (rxlen ctx) want want;
        if ret < 0 then Some (Return ret None ctx1 s1)
        else if ret = 0 then Some (Return 0 None ctx1 s1)
        else examine (ctx1\<lparr>rxlen := rxlen ctx1 + nat ret\<rparr>) s1 })"

text \<open>
  \<open>dw_get_packet(ctx, packet)\<close>: the loop, with fuel. \<open>Undefined\<close> is a pass that left an
  object; \<open>More_fuel\<close> never happens with fuel above the number of bytes still to come
  (lemma \<open>get_packet_correct\<close> below).
\<close>

datatype 's gp_result =
    Returned int "byte list option" dw_ctx 's
  | Undefined
  | More_fuel

fun dw_get_packet ::
  "('s \<Rightarrow> nat \<Rightarrow> int \<times> byte list \<times> 's) \<Rightarrow> nat \<Rightarrow> dw_ctx \<Rightarrow> 's \<Rightarrow> 's gp_result" where
  "dw_get_packet rdf 0 ctx s = More_fuel"
| "dw_get_packet rdf (Suc fuel) ctx s =
     (case get_packet_step rdf ctx s of
        None \<Rightarrow> Undefined
      | Some (Return ret p ctx' s') \<Rightarrow> Returned ret p ctx' s'
      | Some (Goto_retry ctx' s') \<Rightarrow> dw_get_packet rdf fuel ctx' s')"

section \<open>dw\_write\_command\_data\<close>

definition dw_write_command_data ::
  "('w \<Rightarrow> byte list \<Rightarrow> int \<Rightarrow> (int \<times> 'w) option) \<Rightarrow> dw_ctx \<Rightarrow> 'w \<Rightarrow> int \<Rightarrow> byte list option
   \<Rightarrow> int \<Rightarrow> (int \<times> dw_ctx \<times> 'w) option" where
  "dw_write_command_data wrf ctx w cmd data len =
     (if int RCPACKET_MAXPAYLOADSIZE < len then Some (-1, ctx, w)
      else do {
        let dp = (txdp ctx)[0 := 0x40, 1 := 0x24];
        let dp = put16 dp off_flags 0;
        let dp = put16 dp off_cmd (word_of_int (cmd AND 0xffff));
        let dp = put16 dp off_len (word_of_int len);
        let dp = put16 dp off_seq (get16 dp off_seq + 1);
        crc \<leftarrow> calc_crc8 dp (RCPACKET_HEAD_LEN - 2);
        let dp = dp[off_crc := crc];
        let dp = dp[off_crc + 1 := NOT (dp ! off_crc)];
        dp \<leftarrow> (case data of
                 Some d \<Rightarrow> if 0 < len then Option.bind (mem_read d 0 (nat len)) (mem_write dp off_payload)
                          else Some dp
               | None \<Rightarrow> Some dp);
        (ret, w') \<leftarrow> wrf w dp (int RCPACKET_HEAD_LEN + len);
        Some (ret, ctx\<lparr>txdp := dp\<rparr>, w') })"

section \<open>The cache\<close>

definition cached :: "dw_ctx \<Rightarrow> byte list" where
  "cached ctx = take (cpos ctx - cbuf ctx) (drop (cbuf ctx) (cmem ctx))"

definition ctx_geometry :: "dw_ctx \<Rightarrow> bool" where
  "ctx_geometry ctx \<longleftrightarrow> length (cmem ctx) = sizeof_cache \<and> length (rxdp ctx) = sizeof_DwPacket
     \<and> length (txdp ctx) = sizeof_DwPacket \<and> cbuf ctx \<le> cpos ctx \<and> cpos ctx \<le> length (cmem ctx)"

lemma length_cached: "ctx_geometry ctx \<Longrightarrow> length (cached ctx) = cpos ctx - cbuf ctx"
  by (auto simp: cached_def ctx_geometry_def)

lemma copy_cached_eq:
  assumes "ctx_geometry ctx" and "n \<le> cpos ctx - cbuf ctx" and "dst + n \<le> length (rxdp ctx)"
  shows "copy_cached ctx dst n
    = Some (ctx\<lparr>rxdp := blit (rxdp ctx) dst (take n (cached ctx)), cbuf := cbuf ctx + n\<rparr>)"
proof -
  have "mem_read (cmem ctx) (cbuf ctx) n = Some (take n (cached ctx))"
    using assms unfolding ctx_geometry_def
    by (elim conjE) (simp add: mem_read_def cached_def)
  moreover have "length (take n (cached ctx)) = n"
    using assms by (simp add: length_cached)
  ultimately show ?thesis using assms(3) by (simp add: copy_cached_def run_simps)
qed

lemma cached_advance:
  "n \<le> cpos ctx - cbuf ctx \<Longrightarrow> cached (ctx\<lparr>rxdp := d, cbuf := cbuf ctx + n\<rparr>) = drop n (cached ctx)"
  by (simp add: cached_def drop_take add.commute)

lemma cached_fill:
  assumes "cbuf ctx \<le> cpos ctx" and "cpos ctx + length bs \<le> length (cmem ctx)"
  shows "cached (ctx\<lparr>cmem := blit (cmem ctx) (cpos ctx) bs, cpos := cpos ctx + length bs\<rparr>)
    = cached ctx @ bs"
  using assms by (simp add: cached_def blit_def drop_take)

text \<open>
  The successful calls of a channel's read function that lead from one state of the channel to
  another, and the call after them that reports \<open>ret\<close>.
\<close>

inductive pulls :: "('s \<Rightarrow> nat \<Rightarrow> int \<times> byte list \<times> 's) \<Rightarrow> 's \<Rightarrow> 's \<Rightarrow> bool"
  for rdf where
    pulls_none: "pulls rdf s s"
  | pulls_read: "\<lbrakk>0 < n; rdf s n = (ret, bs, s1); 0 \<le> ret; pulls rdf s1 s'\<rbrakk> \<Longrightarrow> pulls rdf s s'"

definition reads_until ::
  "('s \<Rightarrow> nat \<Rightarrow> int \<times> byte list \<times> 's) \<Rightarrow> 's \<Rightarrow> 's \<Rightarrow> int \<Rightarrow> 's \<Rightarrow> bool" where
  "reads_until rdf s s0 ret s' \<longleftrightarrow> pulls rdf s s0 \<and> (\<exists>n bs. 0 < n \<and> rdf s0 n = (ret, bs, s'))"

lemma pulls_trans: "pulls rdf s s1 \<Longrightarrow> pulls rdf s1 s2 \<Longrightarrow> pulls rdf s s2"
  by (induction rule: pulls.induct) (auto intro: pulls.intros)

lemma reads_until_now: "0 < n \<Longrightarrow> rdf s n = (ret, bs, s') \<Longrightarrow> reads_until rdf s s ret s'"
  by (auto simp: reads_until_def intro: pulls_none)

lemma reads_until_pulls: "pulls rdf s s1 \<Longrightarrow> reads_until rdf s1 s0 ret s' \<Longrightarrow> reads_until rdf s s0 ret s'"
  by (auto simp: reads_until_def intro: pulls_trans)

lemma reads_until_idle: "reads_until rdf s s0 0 s' \<Longrightarrow> pulls rdf s s'"
  unfolding reads_until_def by (elim conjE exE, rule pulls_trans) (auto intro: pulls.intros)

context io_reader begin

lemma read_cached_correct:
  assumes "f = rdf" and "ctx_geometry ctx" and "0 < left" and "left \<le> len"
    and "base + len \<le> length (rxdp ctx)"
  shows "\<exists>ret ctx' s'. read_cached f ctx s base len left = Some (ret, ctx', s')
    \<and> ctx_geometry ctx' \<and> txdp ctx' = txdp ctx \<and> rxlen ctx' = rxlen ctx
    \<and> (ret < 0 \<and> (\<exists>w s0. cached ctx @ strm s = w @ strm s0 \<and> length w < left \<and> reads_until rdf s s0 ret s')
       \<or> (\<exists>k. ret = int (len - left + k) \<and> k \<le> left
          \<and> k \<le> length (cached ctx @ strm s)
          \<and> rxdp ctx' = blit (rxdp ctx) (base + (len - left)) (take k (cached ctx @ strm s))
          \<and> cached ctx' @ strm s' = drop k (cached ctx @ strm s)
          \<and> pulls rdf s s'
          \<and> (k < left \<longrightarrow> cached ctx' = [] \<and> (\<exists>s0. reads_until rdf s s0 0 s'))))"
  using assms
proof (induction f ctx s base len left rule: read_cached.induct)
  case (1 f ctx s base len left)
  let ?A = "cached ctx @ strm s" and ?dst = "base + (len - left)"
  define c where "c = cpos ctx - cbuf ctx"
  have lc: "length (cached ctx) = c" using "1.prems" by (simp add: length_cached c_def)
  show ?case
  proof (cases "left \<le> c")
    case True
    define ctx' where "ctx' = ctx\<lparr>rxdp := blit (rxdp ctx) ?dst (take left (cached ctx)),
      cbuf := cbuf ctx + left\<rparr>"
    have copy: "copy_cached ctx ?dst left = Some ctx'"
      unfolding ctx'_def using "1.prems" True by (intro copy_cached_eq) (auto simp: c_def)
    then have "read_cached f ctx s base len left = Some (int len, ctx', s)"
      using True by (simp add: read_cached.simps [of f ctx] c_def)
    moreover have "ctx_geometry ctx'"
      using "1.prems" True by (auto simp: ctx_geometry_def c_def lc ctx'_def)
    moreover have "cached ctx' = drop left (cached ctx)"
      unfolding ctx'_def using True by (intro cached_advance) (simp add: c_def)
    moreover have "txdp ctx' = txdp ctx" "rxlen ctx' = rxlen ctx"
      "rxdp ctx' = blit (rxdp ctx) ?dst (take left ?A)"
      using True by (simp_all add: ctx'_def lc)
    ultimately show ?thesis
      using True "1.prems" lc
      by (intro exI [of _ "int len"] exI [of _ ctx'] exI [of _ s] conjI disjI2 exI [of _ left])
        (simp_all add: pulls_none)
  next
    case False
    define ctx1 where "ctx1 = ctx\<lparr>rxdp := blit (rxdp ctx) ?dst (cached ctx), cbuf := cbuf ctx + c\<rparr>"
    have copy1: "(if 0 < c then copy_cached ctx ?dst c else Some ctx) = Some ctx1"
      unfolding ctx1_def using "1.prems" False copy_cached_eq [of ctx c ?dst] lc
      by (auto simp: c_def)
    have geo1: "ctx_geometry ctx1" and empty1: "cached ctx1 = []" and "cbuf ctx1 = cpos ctx1"
      using "1.prems" False lc
      by (auto simp: ctx_geometry_def ctx1_def cached_def c_def)
    define ctx2 where "ctx2 = (if cbuf ctx1 = length (cmem ctx1) then ctx1\<lparr>cbuf := 0, cpos := 0\<rparr> else ctx1)"
    have geo2: "ctx_geometry ctx2" and empty2: "cached ctx2 = []" 
      and room: "cpos ctx2 < length (cmem ctx2)" and at2: "cbuf ctx2 = cpos ctx2" 
      and rx2: "rxdp ctx2 = blit (rxdp ctx) ?dst (cached ctx)"
      and keep2: "txdp ctx2 = txdp ctx" "rxlen ctx2 = rxlen ctx"
      using geo1 empty1 \<open>cbuf ctx1 = cpos ctx1\<close>
      by (auto simp: ctx2_def ctx_geometry_def cached_def ctx1_def)
    obtain ret bs s' where rd: "rdf s (length (cmem ctx2) - cpos ctx2) = (ret, bs, s')"
      by (metis prod_cases3)
    define ctx3 where "ctx3 = ctx2\<lparr>cmem := blit (cmem ctx2) (cpos ctx2) bs, cpos := cpos ctx2 + nat ret\<rparr>"
    have run: "read_cached f ctx s base len left =
        (if ret < 0 then Some (ret, ctx2, s')
         else if ret = 0 then Some (int (len - (left - c)), ctx2, s')
         else Option.bind (mem_write (cmem ctx2) (cpos ctx2) bs)
           (\<lambda>m. read_cached f (ctx2\<lparr>cmem := m, cpos := cpos ctx2 + nat ret\<rparr>) s' base len (left - c)))"
      using False [unfolded c_def] copy1 [unfolded c_def] rd "1.prems"(1)
      unfolding read_cached.simps [of f ctx] c_def Let_def
      by (simp only: if_False Option.bind_lunit ctx2_def [symmetric] prod.case)
    have rd': "(ret, bs, s') = f s (length (cmem ctx2) - cpos ctx2)"
      using rd "1.prems"(1) by simp
    have now: "reads_until rdf s s ret s'"
      by (rule reads_until_now) (rule zero_less_diff [THEN iffD2, OF room], rule rd)
    consider "ret < 0" | "ret = 0" | "0 < ret" by linarith
    then show ?thesis
    proof cases
      case 1
      with run geo2 keep2 now False lc show ?thesis
        by (intro exI [of _ ret] exI [of _ ctx2] exI [of _ s'] conjI disjI1
            exI [of _ "cached ctx"] exI [of _ s]) simp_all
    next
      case 2
      have now0: "reads_until rdf s s 0 s'" using now 2 by simp
      then have "pulls rdf s s'" "\<exists>s0. reads_until rdf s s0 0 s'"
        by (rule reads_until_idle, intro exI)
      moreover have "strm s' = strm s" using idle [of s _ bs s'] rd 2 room by simp
      ultimately show ?thesis using 2 run geo2 keep2 rx2 empty2 False "1.prems" lc
        by (intro exI [of _ "int (len - left + c)"] exI [of _ ctx2] exI [of _ s'] conjI disjI2
            exI [of _ c]) simp_all
    next
      case 3
      from data [OF rd _ 3] room have lbs: "length bs = nat ret"
        and fits: "cpos ctx2 + length bs \<le> length (cmem ctx2)" and strm: "strm s = bs @ strm s'"
        by auto
      have geo3: "ctx_geometry ctx3" and rx3: "rxdp ctx3 = rxdp ctx2"
        and keep3: "txdp ctx3 = txdp ctx" "rxlen ctx3 = rxlen ctx"
        using geo2 fits lbs keep2 by (auto simp: ctx3_def ctx_geometry_def)
      have c3: "cached ctx3 = bs"
        using cached_fill [of ctx2 bs] fits at2 empty2 lbs by (simp add: ctx3_def)
      have lrx: "length (rxdp ctx3) = length (rxdp ctx)"
        using geo3 "1.prems" by (simp add: ctx_geometry_def)
      have run3: "read_cached f ctx s base len left = read_cached f ctx3 s' base len (left - c)"
        using run 3 fits by (simp add: run_simps ctx3_def)
      have "\<exists>r ctx' s''. read_cached f ctx3 s' base len (left - c) = Some (r, ctx', s'')
        \<and> ctx_geometry ctx' \<and> txdp ctx' = txdp ctx3 \<and> rxlen ctx' = rxlen ctx3
        \<and> (r < 0 \<and> (\<exists>w s0. cached ctx3 @ strm s' = w @ strm s0 \<and> length w < left - c \<and> reads_until rdf s' s0 r s'')
           \<or> (\<exists>k. r = int (len - (left - c) + k) \<and> k \<le> left - c
              \<and> k \<le> length (cached ctx3 @ strm s')
              \<and> rxdp ctx' = blit (rxdp ctx3) (base + (len - (left - c))) (take k (cached ctx3 @ strm s'))
              \<and> cached ctx' @ strm s'' = drop k (cached ctx3 @ strm s')
              \<and> pulls rdf s' s''
              \<and> (k < left - c \<longrightarrow> cached ctx' = [] \<and> (\<exists>s0. reads_until rdf s' s0 0 s''))))"
        unfolding ctx3_def lbs [symmetric]
        by (rule "1.IH" [OF refl c_def False copy1 refl ctx2_def rd' refl, unfolded lbs [symmetric]])
          (use "1.prems" False 3 fits geo3 lrx in
            \<open>simp_all add: run_simps ctx3_def lbs [symmetric]\<close>)
      then obtain r ctx' s'' where r: "read_cached f ctx3 s' base len (left - c) = Some (r, ctx', s'')"
        and r_keep: "ctx_geometry ctx'" "txdp ctx' = txdp ctx" "rxlen ctx' = rxlen ctx"
        and r_post: "r < 0 \<and> (\<exists>w s0. bs @ strm s' = w @ strm s0 \<and> length w < left - c \<and> reads_until rdf s' s0 r s'')
           \<or> (\<exists>k. r = int (len - (left - c) + k) \<and> k \<le> left - c
              \<and> k \<le> length (bs @ strm s')
              \<and> rxdp ctx' = blit (rxdp ctx2) (base + (len - (left - c))) (take k (bs @ strm s'))
              \<and> cached ctx' @ strm s'' = drop k (bs @ strm s')
              \<and> pulls rdf s' s''
              \<and> (k < left - c \<longrightarrow> cached ctx' = [] \<and> (\<exists>s0. reads_until rdf s' s0 0 s'')))"
        unfolding keep3 c3 rx3 by (elim exE conjE) simp
      have one: "pulls rdf s s'"
        by (rule pulls_read) (rule zero_less_diff [THEN iffD2, OF room], rule rd, use 3 in simp, rule pulls_none)
      from r_post consider (err) w s0 where "r < 0" "bs @ strm s' = w @ strm s0" "length w < left - c" "reads_until rdf s' s0 r s''"
        | (got) k where "r = int (len - (left - c) + k)" "k \<le> left - c"
          "k \<le> length (bs @ strm s')"
          "rxdp ctx' = blit (rxdp ctx2) (base + (len - (left - c))) (take k (bs @ strm s'))"
          "cached ctx' @ strm s'' = drop k (bs @ strm s')" "pulls rdf s' s''"
          "k < left - c \<longrightarrow> cached ctx' = [] \<and> (\<exists>s0. reads_until rdf s' s0 0 s'')"
        by (elim disjE conjE exE) 
      then show ?thesis
      proof cases
        case err
        have "cached ctx @ strm s = (cached ctx @ w) @ strm s0" "length (cached ctx @ w) < left"
          using err(2,3) strm lc by simp_all
        with run3 r r_keep err reads_until_pulls [OF one err(4)] show ?thesis
          by (intro exI [of _ r] exI [of _ ctx'] exI [of _ s''] conjI disjI1 exI [of _ "cached ctx @ w"] exI [of _ s0]) simp_all
      next
        case k: (got k)
        have dst: "base + (len - (left - c)) = ?dst + length (cached ctx)"
          using "1.prems" False lc by simp
        have "rxdp ctx' = blit (rxdp ctx) ?dst (cached ctx @ take k (bs @ strm s'))"
          unfolding k(4) rx2 dst by (rule blit_append) (use "1.prems" False lc k(2) in simp)
        then have "rxdp ctx' = blit (rxdp ctx) ?dst (take (c + k) ?A)"
          using lc strm by simp
        moreover have "cached ctx' @ strm s'' = drop (c + k) ?A" using k(5) lc strm by simp
        moreover have "c + k < left \<longrightarrow> cached ctx' = [] \<and> (\<exists>s0. reads_until rdf s s0 0 s'')"
          using k(7) reads_until_pulls [OF one] by auto
        ultimately show ?thesis
          using run3 r r_keep k(1-3) pulls_trans [OF one k(6)] lc False "1.prems" strm
          by (intro exI [of _ r] exI [of _ ctx'] exI [of _ s''] conjI disjI2 exI [of _ "c + k"])
            simp_all
      qed
    qed
  qed
qed

end

section \<open>The stream specification\<close>

text \<open>
  A header is good when its magic is in place and its two check bytes are the CRC of the ten
  bytes before them and its complement.
\<close>

definition good_header :: "byte list \<Rightarrow> bool" where
  "good_header bs \<longleftrightarrow> has_magic bs 0 \<and> bs ! 10 = crc8_ref (take 10 bs) \<and> bs ! 11 = NOT (bs ! 10)"

datatype frame =
    Frame "byte list" "byte list" \<comment> \<open>the first packet and what follows it\<close>
  | More "byte list" \<comment> \<open>no complete packet: what is kept\<close>
  | Oversize "byte list" \<comment> \<open>a good header announces more payload than a packet holds\<close>

function deframe :: "byte list \<Rightarrow> frame" where
  "deframe bs =
     (if length bs < 2 then More bs
      else if \<not> has_magic bs 0 then deframe (drop 1 bs)
      else if length bs < RCPACKET_HEAD_LEN then More bs
      else if \<not> good_header bs then deframe (drop 2 bs)
      else let n = RCPACKET_HEAD_LEN + dp_len bs in
        if sizeof_DwPacket < n then Oversize bs
        else if length bs < n then More bs
        else Frame (take n bs) (drop n bs))"
  by pat_completeness auto
termination
  by (relation "measure length") auto

declare deframe.simps [simp del]

lemma deframe_skip:
  "2 \<le> length bs \<Longrightarrow> \<not> has_magic bs 0 \<Longrightarrow> deframe bs = deframe (drop 1 bs)"
  by (simp add: deframe.simps [of bs])

lemma good_header_magic: "good_header bs \<Longrightarrow> has_magic bs 0"
  by (simp add: good_header_def)

lemma deframe_oversize:
  assumes "good_header bs" and "RCPACKET_HEAD_LEN \<le> length bs"
    and "sizeof_DwPacket < RCPACKET_HEAD_LEN + dp_len bs"
  shows "deframe bs = Oversize bs"
  using assms good_header_magic [OF assms(1)] by (simp add: deframe.simps [of bs])

lemma has_magic_drop: "n + i + 1 < length bs \<Longrightarrow> has_magic (drop n bs) i \<longleftrightarrow> has_magic bs (n + i)"
  by (simp add: has_magic_def)

lemma has_magic_take: "i + 1 < n \<Longrightarrow> has_magic (take n bs) i \<longleftrightarrow> has_magic bs i"
  by (simp add: has_magic_def)

lemma deframe_skips:
  assumes "n < length bs" and "\<And>i. i < n \<Longrightarrow> \<not> has_magic bs i"
  shows "deframe bs = deframe (drop n bs)"
  using assms
proof (induction n)
  case (Suc n)
  then have "deframe bs = deframe (drop n bs)" by simp
  also have "\<dots> = deframe (drop 1 (drop n bs))"
    using Suc.prems has_magic_drop [of n 0 bs] by (intro deframe_skip) auto
  finally show ?case by simp
qed simp

lemma resync_scan_spec:
  assumes "2 \<le> len" and "ptr + 1 < len"
  shows "ptr < resync_scan buf len ptr \<and> resync_scan buf len ptr \<le> len - 1
    \<and> (\<forall>i. ptr < i \<and> i < resync_scan buf len ptr \<longrightarrow> \<not> has_magic buf i)"
  using assms
proof (induction buf len ptr rule: resync_scan.induct)
  case (1 buf len ptr)
  show ?case
  proof (cases "len - 2 < ptr + 1 \<or> has_magic buf (ptr + 1)")
    case True
    then have "resync_scan buf len ptr = ptr + 1" by (subst resync_scan.simps) (auto simp: Let_def)
    with "1.prems" show ?thesis by auto
  next
    case False
    then have eq: "resync_scan buf len ptr = resync_scan buf len (ptr + 1)"
      by (subst resync_scan.simps) (auto simp: Let_def)
    have "ptr + 1 < resync_scan buf len (ptr + 1) \<and> resync_scan buf len (ptr + 1) \<le> len - 1
      \<and> (\<forall>i. ptr + 1 < i \<and> i < resync_scan buf len (ptr + 1) \<longrightarrow> \<not> has_magic buf i)"
      by (rule "1.IH") (use False "1.prems" in auto)
    with False show ?thesis unfolding eq by (metis Suc_eq_plus1 Suc_lessD less_antisym not_less_eq)
  qed
qed

lemma sint_NOT: "sint (NOT w) = NOT (sint w)" for w :: byte
  by (rule bit_eqI) (auto simp: bit_sint_iff bit_simps min_def dest: bit_imp_le_length)

lemma header_crc_ok_signed: "header_crc_ok True crc c0 c1 \<longleftrightarrow> c0 = crc \<and> c1 = NOT crc"
  by (auto simp: header_crc_ok_def plain_char_def sint_NOT [symmetric] dest: signed_word_eqI)

lemma header_crc_ok_unsigned: "\<not> header_crc_ok False crc c0 c1"
proof -
  have "uint c1 \<noteq> NOT (uint crc)"
    using uint_ge_0 [of crc] uint_ge_0 [of c1] unfolding not_int_def by linarith
  then show ?thesis by (simp add: header_crc_ok_def plain_char_def)
qed

lemma take_append_nth: "i < n \<Longrightarrow> n \<le> length xs \<Longrightarrow> (take n xs @ ys) ! i = xs ! i"
  by (simp add: nth_append)

lemma good_header_prefix:
  assumes "RCPACKET_HEAD_LEN \<le> n" and "n \<le> length xs"
  shows "good_header (take n xs @ ys) = good_header xs"
    and "dp_len (take n xs @ ys) = dp_len xs"
  using assms by (simp_all add: good_header_def has_magic_def dp_len_def get16_def take_append_nth min_def)

lemma has_magic_prefix:
  "i + 1 < n \<Longrightarrow> n \<le> length xs \<Longrightarrow> has_magic (take n xs @ ys) i = has_magic xs i"
  by (simp add: has_magic_def take_append_nth)

section \<open>One pass of dw\_get\_packet against the stream\<close>

definition frames :: "dw_ctx \<Rightarrow> byte list \<Rightarrow> byte list" where
  "frames ctx rest = take (rxlen ctx) (rxdp ctx) @ cached ctx @ rest"

definition rx_inv :: "dw_ctx \<Rightarrow> bool" where
  "rx_inv ctx \<longleftrightarrow> ctx_geometry ctx \<and> (rxlen ctx < RCPACKET_HEAD_LEN \<or>
     good_header (rxdp ctx) \<and> rxlen ctx < RCPACKET_HEAD_LEN + dp_len (rxdp ctx)
     \<and> rxlen ctx \<le> sizeof_DwPacket)"

lemma cached_rx [simp]: "cached (ctx\<lparr>rxlen := n\<rparr>) = cached ctx"
  "cached (ctx\<lparr>rxlen := n, rxdp := d\<rparr>) = cached ctx"
  by (simp_all add: cached_def)

lemma geometry_rx [simp]: "ctx_geometry (ctx\<lparr>rxlen := n\<rparr>) = ctx_geometry ctx"
  "ctx_geometry ctx \<Longrightarrow> length d = length (rxdp ctx) \<Longrightarrow> ctx_geometry (ctx\<lparr>rxlen := n, rxdp := d\<rparr>)"
  by (simp_all add: ctx_geometry_def)

lemma mem_move_down:
  assumes "ptr \<le> len" and "len \<le> length buf"
  shows "mem_move buf 0 ptr (len - ptr) = Some (blit buf 0 (take (len - ptr) (drop ptr buf)))"
  using assms by (simp add: mem_move_def run_simps)

lemma mem_move_view:
  assumes "ptr \<le> len" and "len \<le> length buf"
  shows "take (len - ptr) (blit buf 0 (take (len - ptr) (drop ptr buf))) = drop ptr (take len buf)"
  using assms by (simp add: blit_def drop_take)

text \<open>The four ways a pass ends, against the specification.\<close>

definition pass_ok :: "byte list \<Rightarrow> ('s \<Rightarrow> byte list) \<Rightarrow> 's gp_step \<Rightarrow> bool" where
  "pass_ok F strm r \<longleftrightarrow>
     (case r of
        Goto_retry ctx' s' \<Rightarrow> rx_inv ctx' \<and> deframe F = deframe (frames ctx' (strm s'))
      | Return ret p ctx' s' \<Rightarrow>
          ret < 0 \<and> p = None
          \<or> ret = 0 \<and> p = None \<and> rx_inv ctx' \<and> F = frames ctx' (strm s')
          \<or> 0 < ret \<and> rx_inv ctx' \<and> rxlen ctx' = 0
             \<and> (\<exists>dp. p = Some dp \<and> length dp = sizeof_DwPacket \<and> nat ret = RCPACKET_HEAD_LEN + dp_len dp
                 \<and> deframe F = Frame (take (nat ret) dp) (frames ctx' (strm s'))))"

lemma examine_ok:
  assumes geo: "ctx_geometry ctx"
    and "rxlen ctx \<le> RCPACKET_HEAD_LEN \<or> good_header (rxdp ctx) \<and> rxlen ctx \<le> RCPACKET_HEAD_LEN + dp_len (rxdp ctx) "
    and fit: "rxlen ctx \<le> sizeof_DwPacket"
    and F: "F = frames ctx (strm s)"
    and no: "\<And>bs. deframe F \<noteq> Oversize bs"
  shows "\<exists>r. examine ctx s = Some r \<and> pass_ok F strm r"
proof -
  let ?buf = "rxdp ctx" and ?len = "rxlen ctx"
  have lbuf: "length ?buf = sizeof_DwPacket" using geo by (simp add: ctx_geometry_def)
  have len: "?len \<le> length ?buf" using lbuf fit by simp
  have pre: "good_header F = good_header ?buf" "dp_len F = dp_len ?buf" if "RCPACKET_HEAD_LEN \<le> ?len"
    unfolding F frames_def using good_header_prefix [OF that len] by simp_all
  have magic: "has_magic F i = has_magic ?buf i" if "i + 1 < ?len" for i
    unfolding F frames_def using has_magic_prefix [OF that len] by simp
  have lF: "?len \<le> length F" using len unfolding F frames_def by simp
  consider (short) "?len < RCPACKET_HEAD_LEN"
    | (nomagic) "?len = RCPACKET_HEAD_LEN" "\<not> has_magic ?buf 0"
    | (bad) "?len = RCPACKET_HEAD_LEN" "has_magic ?buf 0" "\<not> good_header ?buf"
    | (good) "RCPACKET_HEAD_LEN \<le> ?len" "good_header ?buf" "?len \<le> RCPACKET_HEAD_LEN + dp_len ?buf"
    using assms(2) by fastforce
  then show ?thesis
  proof cases
    case short
    then have "examine ctx s = Some (Return 0 None ctx s)" by (simp add: examine_def)
    moreover have "rx_inv ctx" using geo short by (simp add: rx_inv_def)
    ultimately show ?thesis using F by (simp add: pass_ok_def)
  next
    case nomagic
    define ptr where "ptr = resync_scan ?buf ?len 0"
    have scan: "0 < ptr" "ptr < ?len" "\<And>i. 0 < i \<Longrightarrow> i < ptr \<Longrightarrow> \<not> has_magic ?buf i"
      using resync_scan_spec [of ?len 0 ?buf] nomagic(1) unfolding ptr_def [symmetric] by simp_all
    have ptr: "0 < ptr" "ptr < ?len" "\<And>i. i < ptr \<Longrightarrow> \<not> has_magic ?buf i"
      using scan nomagic(2) by (blast, blast, metis not_gr_zero)
    let ?ctx = "ctx\<lparr>rxlen := ?len - ptr, rxdp := blit ?buf 0 (take (?len - ptr) (drop ptr ?buf))\<rparr>"
    have run: "examine ctx s = Some (Goto_retry ?ctx s)"
      using nomagic ptr(2) len mem_move_down [of ptr ?len ?buf] ptr_def
      by (simp add: examine_def Let_def)
    have "rx_inv ?ctx"
      using geo nomagic ptr len by (simp add: rx_inv_def)
    moreover have "deframe F = deframe (drop ptr F)"
    proof (rule deframe_skips)
      show "ptr < length F" using ptr(2) lF by simp
      show "\<not> has_magic F i" if "i < ptr" for i
        using magic [of i] ptr(2) ptr(3) [OF that] that by simp
    qed
    moreover have "drop ptr F = frames ?ctx (strm s)"
      using ptr len mem_move_view [of ptr ?len ?buf] by (simp add: F frames_def)
    ultimately show ?thesis using run by (simp add: pass_ok_def)
  next
    case bad
    let ?ctx = "ctx\<lparr>rxlen := ?len - 2, rxdp := blit ?buf 0 (take (?len - 2) (drop 2 ?buf))\<rparr>"
    have crc: "calc_crc8 ?buf (?len - 2) = Some (crc8_ref (take 10 ?buf))"
      using calc_crc8_fold [of "?len - 2" ?buf] bad len by (simp add: crc8_ref_fold)
    have run: "examine ctx s = Some (Goto_retry ?ctx s)"
      using bad crc len mem_move_down [of 2 ?len ?buf]
      by (auto simp: examine_def good_header_def header_crc_ok_signed Let_def)
    have "rx_inv ?ctx" using geo bad len by (simp add: rx_inv_def)
    moreover have "deframe F = deframe (drop 2 F)"
      using bad magic [of 0] pre lF by (simp add: deframe.simps [of F])
    moreover have "drop 2 F = frames ?ctx (strm s)"
      using bad len mem_move_view [of 2 ?len ?buf] by (simp add: F frames_def)
    ultimately show ?thesis using run by (simp add: pass_ok_def)
  next
    case good
    let ?n = "RCPACKET_HEAD_LEN + dp_len ?buf"
    have m0: "has_magic F 0" "has_magic ?buf 0" using good magic [of 0] by (auto simp: good_header_def)
    have n: "?n \<le> sizeof_DwPacket"
      using no deframe_oversize [of F] good pre lF by (metis not_less order_trans)
    have crc: "calc_crc8 ?buf 10 = Some (crc8_ref (take 10 ?buf))"
      using calc_crc8_fold [of "10" ?buf] lbuf by (simp add: crc8_ref_fold)
    show ?thesis
    proof (cases "?len = ?n")
      case True
      have "deframe F = Frame (take ?n F) (drop ?n F)"
        using good m0 pre lF n True by (simp add: deframe.simps [of F] Let_def)
      moreover have "take ?n F = take ?n ?buf" "drop ?n F = frames (ctx\<lparr>rxlen := 0\<rparr>) (strm s)"
        using True len by (simp_all add: F frames_def)
      moreover have "examine ctx s = Some (Return (int ?n) (Some ?buf) (ctx\<lparr>rxlen := 0\<rparr>) s)"
        using True good m0 crc
        by (cases "dp_len ?buf = 0") (simp_all add: examine_def header_crc_ok_signed good_header_def Let_def)
      moreover have "rx_inv (ctx\<lparr>rxlen := 0\<rparr>)" using geo by (simp add: rx_inv_def)
      ultimately show ?thesis using lbuf by (simp add: pass_ok_def nat_add_distrib)
    next
      case False
      then have "examine ctx s = Some (Goto_retry ctx s)"
        using good m0 crc
        by (cases "?len = RCPACKET_HEAD_LEN")
          (simp_all add: examine_def header_crc_ok_signed good_header_def Let_def)
      moreover have "rx_inv ctx" using geo good False fit by (simp add: rx_inv_def)
      ultimately show ?thesis using F by (simp add: pass_ok_def)
    qed
  qed
qed

text \<open>What the packet object holds between passes is not a packet yet.\<close>

lemma deframe_short: "length p < RCPACKET_HEAD_LEN \<Longrightarrow> \<exists>r. deframe p = More r"
  by (induction p rule: deframe.induct) (subst deframe.simps, auto)

lemma deframe_partial:
  assumes "good_header p" and "RCPACKET_HEAD_LEN \<le> length p"
    and "length p < RCPACKET_HEAD_LEN + dp_len p" and "RCPACKET_HEAD_LEN + dp_len p \<le> sizeof_DwPacket"
  shows "deframe p = More p"
  using assms good_header_magic [OF assms(1)] by (simp add: deframe.simps [of p])

lemma deframe_pending:
  assumes inv: "rx_inv ctx" and no: "\<And>bs. deframe (frames ctx xs) \<noteq> Oversize bs"
    and w: "length w < (if RCPACKET_HEAD_LEN \<le> rxlen ctx
        then dp_len (rxdp ctx) + RCPACKET_HEAD_LEN - rxlen ctx else RCPACKET_HEAD_LEN - rxlen ctx)"
  shows "\<exists>r. deframe (take (rxlen ctx) (rxdp ctx) @ w) = More r"
proof -
  have lbuf: "length (rxdp ctx) = sizeof_DwPacket" using inv by (simp add: rx_inv_def ctx_geometry_def)
  show ?thesis
  proof (cases "rxlen ctx < RCPACKET_HEAD_LEN")
    case True
    then show ?thesis using w lbuf by (intro deframe_short) simp
  next
    case False
    let ?p = "take (rxlen ctx) (rxdp ctx) @ w" and ?F = "frames ctx xs"
    have g: "good_header (rxdp ctx)" "RCPACKET_HEAD_LEN \<le> rxlen ctx" "rxlen ctx \<le> length (rxdp ctx)"
      "rxlen ctx < RCPACKET_HEAD_LEN + dp_len (rxdp ctx)"
      using inv lbuf False by (auto simp: rx_inv_def)
    have p: "good_header ?p" "dp_len ?p = dp_len (rxdp ctx)" "length ?p = rxlen ctx + length w"
      using good_header_prefix [OF g(2,3)] g(1,3) by simp_all
    have F: "good_header ?F" "dp_len ?F = dp_len (rxdp ctx)" "RCPACKET_HEAD_LEN \<le> length ?F"
      using good_header_prefix [OF g(2,3)] g by (simp_all add: frames_def)
    then have "RCPACKET_HEAD_LEN + dp_len ?p \<le> sizeof_DwPacket"
      using no deframe_oversize [of ?F] p(2) by (metis not_less)
    then have "deframe ?p = More ?p" using p g(2,4) w by (intro deframe_partial) simp_all
    then show ?thesis ..
  qed
qed

lemma deframe_kept:
  assumes "rx_inv ctx" and "\<And>bs. deframe (frames ctx xs) \<noteq> Oversize bs" and "cached ctx = []"
  shows "\<exists>r. deframe (frames ctx []) = More r"
  using deframe_pending [OF assms(1,2), of "[]"] assms(1,3)
  by (auto simp: frames_def rx_inv_def)

context io_reader begin

definition step_reads :: "byte list \<Rightarrow> 's \<Rightarrow> 's gp_step \<Rightarrow> bool" where
  "step_reads F s r \<longleftrightarrow>
     (case r of
        Goto_retry ctx' s' \<Rightarrow> pulls rdf s s'
      | Return ret p ctx' s' \<Rightarrow>
          ret < 0 \<and> (\<exists>pending s0 k. F = pending @ strm s0 \<and> deframe pending = More k \<and> reads_until rdf s s0 ret s')
          \<or> ret = 0 \<and> cached ctx' = [] \<and> (\<exists>s0. reads_until rdf s s0 0 s')
          \<or> 0 < ret \<and> pulls rdf s s')"

lemma step_ok:
  assumes inv: "rx_inv ctx" and F: "F = frames ctx (strm s)"
    and no: "\<And>bs. deframe F \<noteq> Oversize bs"
  shows "\<exists>r. get_packet_step rdf ctx s = Some r \<and> pass_ok F strm r \<and> step_reads F s r
    \<and> (\<forall>ctx' s'. r = Goto_retry ctx' s' \<longrightarrow>
          length (cached ctx' @ strm s') < length (cached ctx @ strm s))"
proof -
  let ?want = "if RCPACKET_HEAD_LEN \<le> rxlen ctx
    then dp_len (rxdp ctx) + RCPACKET_HEAD_LEN - rxlen ctx else RCPACKET_HEAD_LEN - rxlen ctx"
  let ?A = "cached ctx @ strm s"
  have geo: "ctx_geometry ctx" using inv by (simp add: rx_inv_def)
  then have lbuf: "length (rxdp ctx) = sizeof_DwPacket" by (simp add: ctx_geometry_def)
  have fit: "0 < ?want" "rxlen ctx + ?want \<le> length (rxdp ctx)"
    "rxlen ctx < RCPACKET_HEAD_LEN \<longrightarrow> rxlen ctx + ?want = RCPACKET_HEAD_LEN"
    "RCPACKET_HEAD_LEN \<le> rxlen ctx \<longrightarrow> rxlen ctx + ?want = RCPACKET_HEAD_LEN + dp_len (rxdp ctx)"
  proof -
    show "0 < ?want" using inv by (auto simp: rx_inv_def)
    show "rxlen ctx + ?want \<le> length (rxdp ctx)"
    proof (cases "rxlen ctx < RCPACKET_HEAD_LEN")
      case False
      then have g: "good_header (rxdp ctx)" "RCPACKET_HEAD_LEN \<le> rxlen ctx" "rxlen ctx \<le> length (rxdp ctx)"
        "rxlen ctx < RCPACKET_HEAD_LEN + dp_len (rxdp ctx)"
        using inv lbuf by (auto simp: rx_inv_def)
      then have "good_header F" "dp_len F = dp_len (rxdp ctx)" "RCPACKET_HEAD_LEN \<le> length F"
        using good_header_prefix [OF g(2,3)] by (simp_all add: F frames_def)
      then have "RCPACKET_HEAD_LEN + dp_len (rxdp ctx) \<le> sizeof_DwPacket"
        using no deframe_oversize [of F] g by (metis not_less)
      with g lbuf show ?thesis by simp
    qed (use lbuf in simp)
  qed (use inv in \<open>auto simp: rx_inv_def\<close>)
  obtain ret ctx1 s1 where
    rc: "read_cached rdf ctx s (rxlen ctx) ?want ?want = Some (ret, ctx1, s1)"
    and geo1: "ctx_geometry ctx1" and len1: "rxlen ctx1 = rxlen ctx"
    and post: "ret < 0 \<and> (\<exists>w s0. ?A = w @ strm s0 \<and> length w < ?want \<and> reads_until rdf s s0 ret s1)
      \<or> (\<exists>k. ret = int (?want - ?want + k) \<and> k \<le> ?want \<and> k \<le> length ?A
       \<and> rxdp ctx1 = blit (rxdp ctx) (rxlen ctx + (?want - ?want)) (take k ?A) \<and> cached ctx1 @ strm s1 = drop k ?A
       \<and> pulls rdf s s1 \<and> (k < ?want \<longrightarrow> cached ctx1 = [] \<and> (\<exists>s0. reads_until rdf s s0 0 s1)))"
    using read_cached_correct [OF refl geo fit(1) order_refl fit(2), of s] by (elim exE conjE) 
  have step: "get_packet_step rdf ctx s =
    (if ret < 0 then Some (Return ret None ctx1 s1)
     else if ret = 0 then Some (Return 0 None ctx1 s1)
     else examine (ctx1\<lparr>rxlen := rxlen ctx1 + nat ret\<rparr>) s1)"
    unfolding get_packet_step_def Let_def rc by simp
  from post [unfolded diff_self_eq_0 add_0 add_0_right]
  consider (err) w s0 where "ret < 0" "?A = w @ strm s0" "length w < ?want" "reads_until rdf s s0 ret s1"
    | (got) k where "ret = int k" "k \<le> ?want" "k \<le> length ?A"
      "rxdp ctx1 = blit (rxdp ctx) (rxlen ctx) (take k ?A)" "cached ctx1 @ strm s1 = drop k ?A"
      "pulls rdf s s1" "k < ?want \<longrightarrow> cached ctx1 = [] \<and> (\<exists>s0. reads_until rdf s s0 0 s1)"
    by (elim disjE conjE exE)
  then show ?thesis
  proof cases
    case err
    have "F = (take (rxlen ctx) (rxdp ctx) @ w) @ strm s0" using err(2) by (simp add: F frames_def)
    moreover obtain k where "deframe (take (rxlen ctx) (rxdp ctx) @ w) = More k"
      using deframe_pending [OF inv no [unfolded F] err(3)] by blast
    ultimately have "step_reads F s (Return ret None ctx1 s1)"
      using err(1,4) unfolding step_reads_def by (simp only: gp_step.case) blast
    then show ?thesis using step err(1) by (simp add: pass_ok_def)
  next
    case (got k)
    define ctx2 where "ctx2 = ctx1\<lparr>rxlen := rxlen ctx + k\<rparr>"
    have view: "take (rxlen ctx2) (rxdp ctx2) = take (rxlen ctx) (rxdp ctx) @ take k ?A"
    proof -
      have "length (take k ?A) = k" "rxlen ctx + k \<le> length (rxdp ctx)"
        using got(2,3) fit(2) by (simp_all del: length_append take_append)
      then show ?thesis
        using take_blit [of "rxlen ctx" "take k ?A" "rxdp ctx"] got(4)
        by (simp add: ctx2_def del: length_append take_append)
    qed
    have geo2: "ctx_geometry ctx2" using geo1 by (simp add: ctx2_def)
    have F2: "F = frames ctx2 (strm s1)"
    proof -
      have "frames ctx2 (strm s1) = take (rxlen ctx) (rxdp ctx) @ take k ?A @ drop k ?A"
        using got(5) unfolding frames_def view by (simp add: ctx2_def)
      then show ?thesis unfolding append_take_drop_id by (simp add: F frames_def)
    qed
    have hd2: "good_header (rxdp ctx2) = good_header (rxdp ctx)" "dp_len (rxdp ctx2) = dp_len (rxdp ctx)"
      if "RCPACKET_HEAD_LEN \<le> rxlen ctx"
    proof -
      have "take (rxlen ctx) (rxdp ctx2) = take (rxlen ctx) (rxdp ctx)"
        using got fit(2) by (simp add: ctx2_def take_blit_below)
      moreover have "rxlen ctx \<le> length (rxdp ctx)" "rxlen ctx \<le> length (rxdp ctx2)"
        using fit(2) geo2 lbuf by (auto simp: ctx_geometry_def)
      ultimately show "good_header (rxdp ctx2) = good_header (rxdp ctx)"
        "dp_len (rxdp ctx2) = dp_len (rxdp ctx)"
        using good_header_prefix [OF that, of "rxdp ctx" "[]"] good_header_prefix [OF that, of "rxdp ctx2" "[]"]
        by simp_all
    qed
    have ex: "\<exists>r. examine ctx2 s1 = Some r \<and> pass_ok F strm r"
    proof (rule examine_ok [where ctx = ctx2 and s = s1 and strm = strm and F = F, OF geo2 _ _ F2 no])
      show "rxlen ctx2 \<le> RCPACKET_HEAD_LEN \<or>
        good_header (rxdp ctx2) \<and> rxlen ctx2 \<le> RCPACKET_HEAD_LEN + dp_len (rxdp ctx2)"
        using fit(3,4) got(2) hd2 inv by (cases "rxlen ctx < RCPACKET_HEAD_LEN") (auto simp: ctx2_def rx_inv_def)
      show "rxlen ctx2 \<le> sizeof_DwPacket" using fit(2) got(2) lbuf by (simp add: ctx2_def)
    qed
    show ?thesis
    proof (cases "k = 0")
      case True
      have "rxdp ctx1 = rxdp ctx" using got True by simp
      then have "rx_inv ctx1" using inv geo1 len1 by (simp add: rx_inv_def)
      moreover have "ctx2 = ctx1" using True len1 by (simp add: ctx2_def)
      moreover have "cached ctx1 = []" "\<exists>s0. reads_until rdf s s0 0 s1"
        using got(7) True fit(1) by blast+
      ultimately show ?thesis using step got(1) True F2 by (simp add: pass_ok_def step_reads_def)
    next
      case False
      have shrink: "length (cached ctx' @ strm s') < length ?A"
        if "examine ctx2 s1 = Some (Goto_retry ctx' s')" for ctx' s'
      proof -
        have "cached ctx' = cached ctx1" "s' = s1"
          using that by (auto simp: examine_def Let_def ctx2_def split: if_splits bind_splits)
        then have "cached ctx' @ strm s' = drop k ?A" using got(5) by simp
        then show ?thesis using False got(3) by (metis diff_less length_drop less_le_trans neq0_conv)
      qed
      have "step_reads F s r" if r: "examine ctx2 s1 = Some r" for r
      proof (cases r)
        case (Goto_retry ctx' s')
        then have "s' = s1" using r by (auto simp: examine_def Let_def split: if_splits bind_splits)
        then show ?thesis using Goto_retry got(6) by (simp add: step_reads_def)
      next
        case (Return ret' p ctx' s')
        from r Return consider "ret' = 0" "ctx' = ctx2" "s' = s1" "rxlen ctx2 < RCPACKET_HEAD_LEN" | "0 < ret'" "s' = s1"
          by (auto simp: examine_def Let_def split: if_splits bind_splits)
        then show ?thesis
        proof cases
          case 1
          then have "k < ?want" by (simp add: ctx2_def)
          then show ?thesis using got(7) 1 Return by (simp add: step_reads_def ctx2_def)
        next
          case 2
          then show ?thesis using got(6) Return by (simp add: step_reads_def)
        qed
      qed
      then show ?thesis using ex shrink step got(1) False len1 by (auto simp: ctx2_def)
    qed
  qed
qed

text \<open>The whole loop.\<close>

lemma get_packet_reports:
  assumes "rx_inv ctx" and "\<And>bs. deframe (frames ctx (strm s)) \<noteq> Oversize bs"
    and "length (cached ctx @ strm s) < fuel"
  shows "\<exists>ret p ctx' s'. dw_get_packet rdf fuel ctx s = Returned ret p ctx' s' \<and>
    (ret < 0 \<and> p = None
        \<and> (\<exists>pending s0 k. reads_until rdf s s0 ret s' \<and> deframe pending = More k
             \<and> deframe (frames ctx (strm s)) = deframe (pending @ strm s0))
     \<or> ret = 0 \<and> p = None \<and> rx_inv ctx' \<and> cached ctx' = []
        \<and> (\<exists>s0 k. reads_until rdf s s0 0 s' \<and> deframe (frames ctx' []) = More k)
        \<and> deframe (frames ctx (strm s)) = deframe (frames ctx' (strm s'))
     \<or> 0 < ret \<and> rx_inv ctx' \<and> rxlen ctx' = 0 \<and> pulls rdf s s'
        \<and> (\<exists>dp. p = Some dp \<and> length dp = sizeof_DwPacket \<and> nat ret = RCPACKET_HEAD_LEN + dp_len dp
             \<and> deframe (frames ctx (strm s)) = Frame (take (nat ret) dp) (frames ctx' (strm s'))))"
  using assms
proof (induction fuel arbitrary: ctx s)
  case 0
  then show ?case by simp
next
  case (Suc fuel)
  from step_ok [OF Suc.prems(1) refl Suc.prems(2)] obtain r where
    r: "get_packet_step rdf ctx s = Some r" "pass_ok (frames ctx (strm s)) strm r"
    and reads: "step_reads (frames ctx (strm s)) s r"
    and less: "\<And>ctx' s'. r = Goto_retry ctx' s' \<Longrightarrow>
          length (cached ctx' @ strm s') < length (cached ctx @ strm s)"
    by blast
  show ?case
  proof (cases r)
    case (Goto_retry ctx' s')
    have one: "pulls rdf s s'" using reads Goto_retry by (simp add: step_reads_def)
    have inv: "rx_inv ctx'" and eq: "deframe (frames ctx (strm s)) = deframe (frames ctx' (strm s'))"
      using r(2) Goto_retry by (auto simp: pass_ok_def)
    have less': "length (cached ctx' @ strm s') < fuel"
      using less [OF Goto_retry] Suc.prems(3) by simp
    have no: "deframe (frames ctx' (strm s')) \<noteq> Oversize bs" for bs using Suc.prems(2) eq by simp
    have run: "dw_get_packet rdf (Suc fuel) ctx s = dw_get_packet rdf fuel ctx' s'"
      using r(1) Goto_retry by simp
    show ?thesis
      using Suc.IH [OF inv no less'] reads_until_pulls [OF one] pulls_trans [OF one]
      unfolding run eq by (elim exE conjE disjE) blast+
  next
    case (Return ret p ctx' s')
    have run: "dw_get_packet rdf (Suc fuel) ctx s = Returned ret p ctx' s'"
      using r(1) Return by simp
    from reads Return consider (err) pending s0 k where "ret < 0" "frames ctx (strm s) = pending @ strm s0"
        "deframe pending = More k" "reads_until rdf s s0 ret s'"
      | (idle) "ret = 0" "cached ctx' = []" "\<exists>s0. reads_until rdf s s0 0 s'" | (pos) "0 < ret" "pulls rdf s s'"
      by (auto simp: step_reads_def)
    then show ?thesis
    proof cases
      case err
      moreover have "p = None" using r(2) Return err(1) by (simp add: pass_ok_def)
      ultimately show ?thesis unfolding run by auto
    next
      case idle
      have z: "p = None" "rx_inv ctx'" "frames ctx (strm s) = frames ctx' (strm s')"
        using r(2) Return idle(1) by (simp_all add: pass_ok_def)
      obtain k where "deframe (frames ctx' []) = More k"
        using deframe_kept [OF z(2) _ idle(2)] Suc.prems(2) unfolding z(3) by blast
      then show ?thesis unfolding run using idle z by simp
    next
      case pos
      then show ?thesis unfolding run using r(2) Return by (simp add: pass_ok_def)
    qed
  qed
qed

lemma get_packet_correct:
  assumes "rx_inv ctx" and "\<And>bs. deframe (frames ctx (strm s)) \<noteq> Oversize bs"
    and "length (cached ctx @ strm s) < fuel"
  shows "\<exists>ret p ctx' s'. dw_get_packet rdf fuel ctx s = Returned ret p ctx' s' \<and>
    (ret < 0 \<and> p = None
     \<or> ret = 0 \<and> p = None \<and> rx_inv ctx' \<and> deframe (frames ctx (strm s)) = deframe (frames ctx' (strm s'))
     \<or> 0 < ret \<and> rx_inv ctx' \<and> rxlen ctx' = 0
        \<and> (\<exists>dp. p = Some dp \<and> length dp = sizeof_DwPacket \<and> nat ret = RCPACKET_HEAD_LEN + dp_len dp
             \<and> deframe (frames ctx (strm s)) = Frame (take (nat ret) dp) (frames ctx' (strm s'))))"
  using get_packet_reports [OF assms] by (elim exE conjE disjE) simp_all

end

section \<open>What a sender writes\<close>

lemma length_put16 [simp]: "length (put16 dp off w) = length dp"
  by (simp add: put16_def)

lemma get16_put16:
  "off + 1 < length dp \<Longrightarrow> get16 (put16 dp off w) off = w"
  "off + 1 < length dp \<Longrightarrow> off' + 1 < off \<or> off + 1 < off' \<Longrightarrow> get16 (put16 dp off w) off' = get16 dp off'"
  by (auto simp: get16_def put16_def)

lemma put16_nth: "i \<noteq> off \<Longrightarrow> i \<noteq> off + 1 \<Longrightarrow> put16 dp off w ! i = dp ! i"
  by (simp add: put16_def)

text \<open>The bytes that \<open>dw_write_command_data\<close> lays out.\<close>

definition valid_frame :: "byte list \<Rightarrow> bool" where
  "valid_frame f \<longleftrightarrow> good_header f \<and> length f = RCPACKET_HEAD_LEN + dp_len f
     \<and> length f \<le> sizeof_DwPacket"

lemma deframe_valid:
  assumes "valid_frame f"
  shows "deframe (f @ rest) = Frame f rest"
proof -
  have f: "good_header f" "length f = RCPACKET_HEAD_LEN + dp_len f" "length f \<le> sizeof_DwPacket"
    using assms by (simp_all add: valid_frame_def)
  have "good_header (f @ rest)" "dp_len (f @ rest) = dp_len f"
    using good_header_prefix [of "length f" f rest] f by simp_all
  with f show ?thesis
    using good_header_magic [of "f @ rest"] by (simp add: deframe.simps [of "f @ rest"] Let_def)
qed

lemma build_packet:
  assumes geo: "ctx_geometry ctx" and len: "0 \<le> len" "len \<le> int RCPACKET_MAXPAYLOADSIZE"
    and d: "nat len \<le> length d"
  obtains dp where
    "length dp = sizeof_DwPacket" "valid_frame (take (RCPACKET_HEAD_LEN + nat len) dp)"
    "dp_len dp = nat len" "dp_cmd dp = cmd mod 2 ^ 16" "get16 dp off_seq = get16 (txdp ctx) off_seq + 1"
    "take (nat len) (drop RCPACKET_HEAD_LEN dp) = take (nat len) d"
    "\<And>wrf w. dw_write_command_data wrf ctx w cmd (Some d) len =
       Option.bind (wrf w dp (int RCPACKET_HEAD_LEN + len)) (\<lambda>(ret, w'). Some (ret, ctx\<lparr>txdp := dp\<rparr>, w'))"
proof -
  define dp1 where "dp1 = put16 (put16 (put16 ((txdp ctx)[0 := 0x40, 1 := 0x24]) off_flags 0) off_cmd
    (word_of_int (cmd AND 0xffff))) off_len (word_of_int len)"
  define dp2 where "dp2 = put16 dp1 off_seq (get16 dp1 off_seq + 1)"
  define crc where "crc = crc8_ref (take 10 dp2)"
  define dp3 where "dp3 = dp2[off_crc := crc, off_crc + 1 := NOT crc]"
  define dp where "dp = blit dp3 off_payload (take (nat len) d)"
  have ltx: "length (txdp ctx) = sizeof_DwPacket" using geo by (simp add: ctx_geometry_def)
  have l: "length dp1 = sizeof_DwPacket" "length dp2 = sizeof_DwPacket" "length dp3 = sizeof_DwPacket"
    using ltx by (simp_all add: dp1_def dp2_def dp3_def)
  have room: "off_payload + length (take (nat len) d) \<le> length dp3" using l len d by simp
  have ldp: "length dp = sizeof_DwPacket" using room l(3) unfolding dp_def by (simp del: packet_sizes)
  have hdr: "dp ! i = dp3 ! i" if "i < 12" for i
    unfolding dp_def by (rule nth_blit_below) (use that l in simp_all)
  have m: "dp3 ! 0 = 0x40" "dp3 ! 1 = 0x24"
    using ltx by (simp_all add: dp3_def dp2_def dp1_def put16_nth)
  have same: "dp3 ! i = dp2 ! i" if "i < 10" for i using that by (simp add: dp3_def)
  have lenf: "get16 dp off_len = word_of_int len"
  proof -
    have "get16 dp off_len = get16 dp2 off_len" by (simp add: get16_def hdr same)
    also have "\<dots> = word_of_int len" using l ltx by (simp add: dp2_def dp1_def get16_put16)
    finally show ?thesis .
  qed
  then have dlen: "dp_len dp = nat len"
    using len by (simp add: dp_len_def unsigned_of_int take_bit_int_eq_self nat_less_iff)
  have cmdf: "get16 dp off_cmd = word_of_int (cmd AND 0xffff)"
  proof -
    have "get16 dp off_cmd = get16 dp2 off_cmd" by (simp add: get16_def hdr same)
    also have "\<dots> = word_of_int (cmd AND 0xffff)" using l ltx by (simp add: dp2_def dp1_def get16_put16)
    finally show ?thesis .
  qed
  have "cmd AND 0xffff = take_bit 16 cmd"
    by (simp add: take_bit_eq_mask mask_eq_exp_minus_1)
  then have dcmd: "dp_cmd dp = cmd mod 2 ^ 16"
    unfolding dp_cmd_def cmdf by (simp add: uint_word_of_int_eq take_bit_eq_mod)
  have seq: "get16 dp off_seq = get16 (txdp ctx) off_seq + 1"
  proof -
    have "get16 dp off_seq = get16 dp2 off_seq" by (simp add: get16_def hdr same)
    also have "\<dots> = get16 dp1 off_seq + 1" using l by (simp add: dp2_def get16_put16)
    also have "get16 dp1 off_seq = get16 (txdp ctx) off_seq"
      using ltx by (simp add: dp1_def get16_put16) (simp add: get16_def)
    finally show ?thesis .
  qed
  have t10: "take 10 dp = take 10 dp2"
    by (rule nth_equalityI) (use l ldp hdr same in auto)
  have "good_header dp"
    using m hdr l t10 by (simp add: good_header_def has_magic_def crc_def [symmetric])
      (simp add: dp3_def)
  then have good: "valid_frame (take (RCPACKET_HEAD_LEN + nat len) dp)"
    using good_header_prefix [of "RCPACKET_HEAD_LEN + nat len" dp "[]"] ldp dlen len
    by (simp add: valid_frame_def)
  have payload: "take (nat len) (drop RCPACKET_HEAD_LEN dp) = take (nat len) d"
    using room d l by (simp add: dp_def blit_def)
  have crcv: "calc_crc8 dp2 10 = Some crc"
    using calc_crc8_fold [of 10 dp2] l by (simp add: crc_def crc8_ref_fold)
  have run: "dw_write_command_data wrf ctx w cmd (Some d) len =
       Option.bind (wrf w dp (int RCPACKET_HEAD_LEN + len)) (\<lambda>(ret, w'). Some (ret, ctx\<lparr>txdp := dp\<rparr>, w'))" for wrf w
  proof -
    have pay: "(if 0 < len then Option.bind (mem_read d 0 (nat len)) (mem_write dp3 off_payload) else Some dp3) = Some dp"
      using d room by (auto simp: run_simps dp_def)
    have crc2: "(dp2[off_crc := crc])[off_crc + 1 := NOT ((dp2[off_crc := crc]) ! off_crc)] = dp3"
      using l by (simp add: dp3_def)
    have e: "RCPACKET_HEAD_LEN - 2 = 10" by simp
    show ?thesis
      unfolding dw_write_command_data_def Let_def dp1_def [symmetric] dp2_def [symmetric] e crcv
      using len by (simp only: if_False not_less option.case crc2 pay Option.bind_lunit) simp
  qed
  show thesis by (rule that [OF ldp good dlen dcmd seq payload run])
qed

section \<open>Properties\<close>

text \<open>
  C1. \<open>dw_get_packet\<close> implements \<open>deframe\<close>, whatever the fragmentation, as long as no header of
  the stream with a valid CRC announces more than the 1280 bytes a packet holds. Called on a
  context in any state its own calls leave behind, over a socket that will deliver the bytes
  in any pieces, it returns after at most as many passes as bytes are left. A positive result
  is exactly the first packet of the stream, and what remains is the rest of the stream. It
  returns 0 or a negative result only as the report of its last read from the socket, all
  earlier reads having succeeded, and only when the bytes received up to there hold no complete
  packet (\<open>deframe\<close> asks for more); after 0 the cache is empty, the context keeps
  those bytes and the stream still parses to the same packets.
\<close>

theorem dw_get_packet_refines_deframe:
  assumes "rx_inv ctx" and "\<And>bs. deframe (frames ctx (incoming evs)) \<noteq> Oversize bs"
    and "length (cached ctx @ incoming evs) < fuel"
  shows "\<exists>ret p ctx' evs'. dw_get_packet read_socket fuel ctx evs = Returned ret p ctx' evs' \<and>
    (ret < 0 \<and> p = None
        \<and> (\<exists>pending evs0 k. reads_until read_socket evs evs0 ret evs' \<and> deframe pending = More k
             \<and> deframe (frames ctx (incoming evs)) = deframe (pending @ incoming evs0))
     \<or> ret = 0 \<and> p = None \<and> rx_inv ctx' \<and> cached ctx' = []
        \<and> (\<exists>evs0 k. reads_until read_socket evs evs0 0 evs' \<and> deframe (frames ctx' []) = More k)
        \<and> deframe (frames ctx (incoming evs)) = deframe (frames ctx' (incoming evs'))
     \<or> 0 < ret \<and> rx_inv ctx' \<and> rxlen ctx' = 0 \<and> pulls read_socket evs evs'
        \<and> (\<exists>dp. p = Some dp \<and> length dp = sizeof_DwPacket \<and> nat ret = RCPACKET_HEAD_LEN + dp_len dp
             \<and> deframe (frames ctx (incoming evs))
               = Frame (take (nat ret) dp) (frames ctx' (incoming evs'))))"
  using assms by (rule sock.get_packet_reports)

definition empty_ctx :: dw_ctx where
  "empty_ctx = \<lparr>cmem = replicate sizeof_cache 0, cbuf = 0, cpos = 0,
     rxdp = replicate sizeof_DwPacket 0, txdp = replicate sizeof_DwPacket 0, rxlen = 0\<rparr>"

lemma empty_ctx: "rx_inv empty_ctx" "cached empty_ctx = []" "frames empty_ctx bs = bs"
  by (simp_all add: empty_ctx_def rx_inv_def ctx_geometry_def cached_def frames_def)

theorem dw_get_packet_refines_deframe_witness:
  "\<exists>ret p ctx' evs'. dw_get_packet read_socket 3 empty_ctx [RData [7], RData [8]] = Returned ret p ctx' evs' \<and>
    (ret < 0 \<and> p = None
        \<and> (\<exists>pending evs0 k. reads_until read_socket [RData [7], RData [8]] evs0 ret evs' \<and> deframe pending = More k
             \<and> deframe (frames empty_ctx (incoming [RData [7], RData [8]])) = deframe (pending @ incoming evs0))
     \<or> ret = 0 \<and> p = None \<and> rx_inv ctx' \<and> cached ctx' = []
        \<and> (\<exists>evs0 k. reads_until read_socket [RData [7], RData [8]] evs0 0 evs' \<and> deframe (frames ctx' []) = More k)
        \<and> deframe (frames empty_ctx (incoming [RData [7], RData [8]])) = deframe (frames ctx' (incoming evs'))
     \<or> 0 < ret \<and> rx_inv ctx' \<and> rxlen ctx' = 0 \<and> pulls read_socket [RData [7], RData [8]] evs'
        \<and> (\<exists>dp. p = Some dp \<and> length dp = sizeof_DwPacket \<and> nat ret = RCPACKET_HEAD_LEN + dp_len dp
             \<and> deframe (frames empty_ctx (incoming [RData [7], RData [8]]))
               = Frame (take (nat ret) dp) (frames ctx' (incoming evs'))))"
proof (rule dw_get_packet_refines_deframe)
  show "deframe (frames empty_ctx (incoming [RData [7], RData [8]])) \<noteq> Oversize bs" for bs
    by (simp add: empty_ctx deframe.simps has_magic_def)
qed (simp_all add: empty_ctx)

text \<open>
  C17. Round trip: what \<open>dw_write_command_data\<close> puts on the wire for a command and
  \<open>len \<le> 1280\<close> bytes of data is one packet that \<open>deframe\<close> (and so \<open>dw_get_packet\<close>) recovers in
  front of anything that follows, with the low 16 bits of the command, the length and the data;
  the context keeps its shape and its sequence number advances by one.
\<close>

theorem dw_write_command_data_roundtrip:
  assumes "ctx_geometry ctx" and "0 \<le> len" and "len \<le> int RCPACKET_MAXPAYLOADSIZE"
    and "nat len \<le> length d"
    and "dw_write_command_data write_socket ctx st cmd (Some d) len = Some (ret, ctx', st')"
    and "ret \<noteq> -1"
  shows "\<exists>f. wire st' = wire st @ f \<and> deframe (f @ rest) = Frame f rest
    \<and> ret = int (length f) \<and> dp_len f = nat len \<and> dp_cmd f = cmd mod 2 ^ 16
    \<and> drop RCPACKET_HEAD_LEN f = take (nat len) d
    \<and> ctx_geometry ctx' \<and> get16 (txdp ctx') off_seq = get16 (txdp ctx) off_seq + 1"
proof -
  obtain dp where dp: "length dp = sizeof_DwPacket" "valid_frame (take (RCPACKET_HEAD_LEN + nat len) dp)"
    "dp_len dp = nat len" "dp_cmd dp = cmd mod 2 ^ 16" "get16 dp off_seq = get16 (txdp ctx) off_seq + 1"
    "take (nat len) (drop RCPACKET_HEAD_LEN dp) = take (nat len) d"
    and run: "\<And>wrf (w :: sock_out). dw_write_command_data wrf ctx w cmd (Some d) len =
       Option.bind (wrf w dp (int RCPACKET_HEAD_LEN + len)) (\<lambda>(ret, w'). Some (ret, ctx\<lparr>txdp := dp\<rparr>, w'))"
    by (rule build_packet [OF assms(1-4), of cmd]) blast
  let ?f = "take (RCPACKET_HEAD_LEN + nat len) dp"
  have w: "write_loop (script st) (wire st) dp (int RCPACKET_HEAD_LEN + len) (int RCPACKET_HEAD_LEN + len)
      = Some (ret, st')" and ctx': "ctx' = ctx\<lparr>txdp := dp\<rparr>"
    using assms(5) unfolding run by (auto simp: write_socket_def split: bind_splits)
  have n: "nat (int RCPACKET_HEAD_LEN + len) = RCPACKET_HEAD_LEN + nat len"
    using assms(2) by (simp add: nat_add_distrib)
  have lf: "length ?f = RCPACKET_HEAD_LEN + nat len" using dp(1) assms(2,3) by simp
  have "ret = int RCPACKET_HEAD_LEN + len" "wire st' = wire st @ ?f"
    using write_loop_result [OF w] n dp(1) assms(2,3,6) by auto
  moreover have "deframe (?f @ rest) = Frame ?f rest" using dp(2) by (rule deframe_valid)
  moreover have "dp_len ?f = dp_len dp" "dp_cmd ?f = dp_cmd dp"
    by (simp_all add: dp_len_def dp_cmd_def get16_def)
  moreover have "drop RCPACKET_HEAD_LEN ?f = take (nat len) d" using dp(6) by (simp add: drop_take)
  moreover have "ctx_geometry ctx'" using assms(1) dp(1) by (simp add: ctx' ctx_geometry_def)
  ultimately show ?thesis
    using dp lf assms(2) by (intro exI [of _ ?f]) (simp add: ctx')
qed

lemma write_socket_accepts:
  assumes "0 < len" and "nat len \<le> n" and "nat len \<le> length buf"
  shows "write_socket \<lparr>script = [SAccept n], wire = out\<rparr> buf len
    = Some (len, \<lparr>script = [], wire = out @ take (nat len) buf\<rparr>)"
  using assms
  by (simp add: write_socket_def run_simps min_def)

lemma write_command_accepts:
  assumes "ctx_geometry ctx" and "0 \<le> len" and "len \<le> int RCPACKET_MAXPAYLOADSIZE"
    and "nat len \<le> length d"
  shows "\<exists>ctx' out. dw_write_command_data write_socket ctx \<lparr>script = [SAccept sizeof_DwPacket], wire = []\<rparr>
    cmd (Some d) len = Some (int RCPACKET_HEAD_LEN + len, ctx', \<lparr>script = [], wire = out\<rparr>)"
proof -
  obtain dp where "length dp = sizeof_DwPacket"
    and "\<And>wrf (w :: sock_out). dw_write_command_data wrf ctx w cmd (Some d) len =
       Option.bind (wrf w dp (int RCPACKET_HEAD_LEN + len)) (\<lambda>(ret, w'). Some (ret, ctx\<lparr>txdp := dp\<rparr>, w'))"
    by (rule build_packet [OF assms, of cmd]) blast
  then show ?thesis
    using assms write_socket_accepts [of "int RCPACKET_HEAD_LEN + len" sizeof_DwPacket dp "[]"]
    by (auto simp: nat_add_distrib)
qed

theorem dw_write_command_data_roundtrip_witness:
  "\<exists>ctx' st' f. dw_write_command_data write_socket empty_ctx
     \<lparr>script = [SAccept sizeof_DwPacket], wire = []\<rparr> 0x10011 (Some [1, 2, 3]) 3 = Some (15, ctx', st')
   \<and> wire st' = [] @ f \<and> deframe (f @ [9]) = Frame f [9] \<and> 15 = int (length f) \<and> dp_len f = nat 3
   \<and> dp_cmd f = 0x10011 mod 2 ^ 16 \<and> drop RCPACKET_HEAD_LEN f = take (nat 3) [1, 2, 3]
   \<and> ctx_geometry ctx' \<and> get16 (txdp ctx') off_seq = get16 (txdp empty_ctx) off_seq + 1"
proof -
  have geo: "ctx_geometry empty_ctx" using empty_ctx(1) by (simp add: rx_inv_def)
  obtain ctx' out where run: "dw_write_command_data write_socket empty_ctx
     \<lparr>script = [SAccept sizeof_DwPacket], wire = []\<rparr> 0x10011 (Some [1, 2, 3]) 3
     = Some (15, ctx', \<lparr>script = [], wire = out\<rparr>)"
    using write_command_accepts [OF geo, of 3 "[1, 2, 3]" "0x10011"] by auto
  with dw_write_command_data_roundtrip [OF geo _ _ _ run, of "[9]"] show ?thesis
    by (auto intro!: exI [of _ ctx'] exI [of _ "\<lparr>script = [], wire = out\<rparr>"])
qed

text \<open>
  Resynchronisation: bytes in front of a packet that contain no magic pair (not even one
  that ends in the packet's first byte) are dropped, and the packet behind them is recovered.
\<close>

theorem deframe_resync:
  assumes "valid_frame f" and "\<And>i. i < length g \<Longrightarrow> \<not> has_magic (g @ f) i"
  shows "deframe (g @ f @ rest) = Frame f rest"
proof -
  have "0 < length f" using assms(1) by (auto simp: valid_frame_def)
  have "deframe (g @ f @ rest) = deframe (drop (length g) (g @ f @ rest))"
  proof (rule deframe_skips)
    show "\<not> has_magic (g @ f @ rest) i" if "i < length g" for i
      using assms(2) [OF that] that \<open>0 < length f\<close>
      by (cases "Suc i = length g") (auto simp: has_magic_def nth_append)
  qed (use \<open>0 < length f\<close> in simp)
  then show ?thesis using deframe_valid [OF assms(1)] by simp
qed

definition sample_frame :: "byte list" where
  "sample_frame = (let h = [0x40, 0x24, 1, 0, 0, 0, 17, 0, 2, 0]
     in h @ [crc8_ref h, NOT (crc8_ref h)] @ [5, 6])"

lemma sample_frame_valid: "valid_frame sample_frame"
  by (simp add: valid_frame_def good_header_def has_magic_def dp_len_def get16_def sample_frame_def
      Let_def le16_of_def)

theorem deframe_resync_witness:
  "deframe ([0x24, 0x40, 7] @ sample_frame @ [1]) = Frame sample_frame [1]"
proof (rule deframe_resync [OF sample_frame_valid])
  show "\<not> has_magic ([0x24, 0x40, 7] @ sample_frame) i" if "i < length [0x24, 0x40, 7 :: byte]" for i
  proof -
    have "i = 0 \<or> i = 1 \<or> i = 2" using that by auto
    moreover have "sample_frame ! 0 = 0x40" by (simp add: sample_frame_def Let_def)
    ultimately show ?thesis by (auto simp: has_magic_def)
  qed
qed

text \<open>
  A header with any one of its twelve bytes altered is never delivered: the pass that
  completes it drops at least one byte and goes back to looking for the magic.
\<close>

lemma good_header_corrupt:
  assumes "good_header buf" and "RCPACKET_HEAD_LEN \<le> length buf" and "i < RCPACKET_HEAD_LEN" and "b \<noteq> buf ! i"
  shows "\<not> good_header (buf[i := b])"
proof (cases "i < 10")
  case True
  have "take 10 (buf[i := b]) = (take 10 buf)[i := b]" by (simp add: take_update_swap)
  then have "crc8_ref (take 10 (buf[i := b])) \<noteq> crc8_ref (take 10 buf)"
    using fold_crc8_step_update [of i "take 10 buf" b 0] True assms by (simp add: crc8_ref_fold)
  then show ?thesis using assms True by (auto simp: good_header_def)
next
  case False
  then have "i = 10 \<or> i = 11" using assms(3) by auto
  then show ?thesis using assms
    by (auto simp: good_header_def bit.double_compl dest: arg_cong [where f = "\<lambda>w. NOT w"])
qed

theorem corrupt_header_rejected:
  assumes "ctx_geometry ctx" and "rxlen ctx = RCPACKET_HEAD_LEN" and "good_header hdr"
    and "length hdr = RCPACKET_HEAD_LEN" and "i < RCPACKET_HEAD_LEN" and "b \<noteq> hdr ! i"
    and "take RCPACKET_HEAD_LEN (rxdp ctx) = hdr[i := b]"
  shows "\<exists>ctx'. examine ctx s = Some (Goto_retry ctx' s) \<and> rxlen ctx' < RCPACKET_HEAD_LEN \<and> rx_inv ctx'"
proof -
  have lbuf: "length (rxdp ctx) = sizeof_DwPacket" using assms(1) by (simp add: ctx_geometry_def)
  have "good_header (rxdp ctx) = good_header (hdr[i := b])"
    using good_header_prefix(1) [of RCPACKET_HEAD_LEN "rxdp ctx" "[]"] lbuf assms(7) by simp
  then have bad: "\<not> good_header (rxdp ctx)"
    using good_header_corrupt [of hdr i b] assms by simp
  let ?len = "rxlen ctx" and ?buf = "rxdp ctx"
  have crc: "calc_crc8 ?buf 10 = Some (crc8_ref (take 10 ?buf))"
    using calc_crc8_fold [of "10" ?buf] lbuf by (simp add: crc8_ref_fold)
  show ?thesis
  proof (cases "has_magic ?buf 0")
    case True
    then have "examine ctx s = Some (Goto_retry
      (ctx\<lparr>rxlen := ?len - 2, rxdp := blit ?buf 0 (take (?len - 2) (drop 2 ?buf))\<rparr>) s)"
      using bad crc mem_move_down [of 2 ?len ?buf] lbuf assms(2)
      by (auto simp: examine_def good_header_def header_crc_ok_signed Let_def)
    then show ?thesis using assms(1,2) lbuf by (simp add: rx_inv_def)
  next
    case False
    define ptr where "ptr = resync_scan ?buf ?len 0"
    have ptr: "0 < ptr" "ptr < ?len"
      using resync_scan_spec [of ?len 0 ?buf] assms(2) unfolding ptr_def [symmetric] by simp_all
    have "examine ctx s = Some (Goto_retry
      (ctx\<lparr>rxlen := ?len - ptr, rxdp := blit ?buf 0 (take (?len - ptr) (drop ptr ?buf))\<rparr>) s)"
      using False ptr mem_move_down [of ptr ?len ?buf] lbuf assms(2) ptr_def
      by (simp add: examine_def Let_def)
    then show ?thesis using assms(1,2) lbuf ptr by (simp add: rx_inv_def)
  qed
qed

theorem corrupt_header_rejected_witness:
  "\<exists>ctx'. examine (empty_ctx\<lparr>rxdp := (take 12 sample_frame)[3 := 1] @ replicate 1280 0, rxlen := 12\<rparr>) ()
     = Some (Goto_retry ctx' ()) \<and> rxlen ctx' < RCPACKET_HEAD_LEN \<and> rx_inv ctx'"
proof (rule corrupt_header_rejected [where hdr = "take 12 sample_frame" and i = 3 and b = 1])
  have l: "length sample_frame = 14" by (simp add: sample_frame_def Let_def)
  show "good_header (take 12 sample_frame)"
    using sample_frame_valid good_header_prefix(1) [of 12 sample_frame "[]"] l
    by (simp add: valid_frame_def)
  show "length (take 12 sample_frame) = RCPACKET_HEAD_LEN" using l by simp
  show "ctx_geometry (empty_ctx\<lparr>rxdp := (take 12 sample_frame)[3 := 1] @ replicate 1280 0, rxlen := 12\<rparr>)"
    using l by (simp add: ctx_geometry_def empty_ctx_def)
  show "take RCPACKET_HEAD_LEN (rxdp (empty_ctx\<lparr>rxdp := (take 12 sample_frame)[3 := 1] @ replicate 1280 0,
    rxlen := 12\<rparr>)) = (take 12 sample_frame)[3 := 1]" using l by simp
qed (simp_all add: sample_frame_def Let_def)

lemma oversize_overflows:
  assumes "ctx_geometry ctx" and "rxlen ctx = 0" and "good_header (cached ctx)"
    and "RCPACKET_MAXPAYLOADSIZE < dp_len (cached ctx)"
    and "RCPACKET_HEAD_LEN + dp_len (cached ctx) \<le> length (cached ctx)"
  shows "dw_get_packet read_socket (Suc (Suc fuel)) ctx evs = Undefined"
proof -
  let ?n = "dp_len (cached ctx)"
  have lbuf: "length (rxdp ctx) = sizeof_DwPacket" using assms(1) by (simp add: ctx_geometry_def)
  have lc: "length (cached ctx) = cpos ctx - cbuf ctx" using assms(1) by (rule length_cached)
  define d where "d = blit (rxdp ctx) 0 (take 12 (cached ctx))"
  define ctx1 where "ctx1 = ctx\<lparr>rxdp := d, cbuf := cbuf ctx + 12\<rparr>"
  have copy: "copy_cached ctx 0 12 = Some ctx1"
    unfolding ctx1_def d_def by (rule copy_cached_eq) (use assms lc lbuf in auto)
  have run1: "read_cached read_socket ctx evs 0 12 12 = Some (12, ctx1, evs)"
    using copy assms(5) lc by (simp add: read_cached.simps [of read_socket ctx])
  have d12: "take 12 d = take 12 (cached ctx)"
    using take_blit [of 0 "take 12 (cached ctx)" "rxdp ctx"] assms(5) lbuf by (simp add: d_def)
  have ld: "length d = sizeof_DwPacket" using lbuf assms(5) by (simp add: d_def)
  have hd: "good_header d" "dp_len d = ?n"
    using good_header_prefix [of 12 d "[]"] good_header_prefix [of 12 "cached ctx" "[]"] d12 ld assms(3,5)
    by simp_all
  have crc: "calc_crc8 d 10 = Some (crc8_ref (take 10 d))"
    using calc_crc8_fold [of "10" d] ld by (simp add: crc8_ref_fold)
  let ?ctx2 = "ctx1\<lparr>rxlen := 12\<rparr>"
  have ex: "examine ?ctx2 evs = Some (Goto_retry ?ctx2 evs)"
    using hd crc assms(4) good_header_magic [OF hd(1)]
    by (simp add: examine_def header_crc_ok_signed good_header_def Let_def ctx1_def)
  have step1: "get_packet_step read_socket ctx evs = Some (Goto_retry ?ctx2 evs)"
    using run1 ex assms(2) by (simp add: get_packet_step_def ctx1_def)
  have "copy_cached ?ctx2 12 ?n = None"
    using assms(4) ld
    by (auto simp: copy_cached_def mem_write_def mem_read_def ctx1_def split: bind_splits)
  moreover have enough: "?n \<le> cpos ctx1 - cbuf ctx1" using assms(5) lc by (simp add: ctx1_def)
  ultimately have "read_cached read_socket ?ctx2 evs 12 ?n ?n = None"
    using assms(5) lc enough by (subst read_cached.simps) (simp add: Let_def)
  then have step2: "get_packet_step read_socket ?ctx2 evs = None"
    using hd by (simp add: get_packet_step_def ctx1_def)
  from step1 step2 show ?thesis by simp
qed

text \<open>The first read of a context that holds nothing yet moves what the socket has into the cache.\<close>

lemma read_socket_all: "f \<noteq> [] \<Longrightarrow> length f \<le> n \<Longrightarrow> read_socket [RData f] n = (int (length f), f, [])"
  by (cases f; cases n) (simp_all add: read_socket_def)

lemma fresh_reads:
  assumes geo: "ctx_geometry ctx" and at: "cbuf ctx = 0" "cpos ctx = 0" "rxlen ctx = 0"
    and f: "f \<noteq> []" "length f \<le> sizeof_cache"
  defines "ctx' \<equiv> ctx\<lparr>cmem := blit (cmem ctx) 0 f, cpos := length f\<rparr>"
  shows "dw_get_packet read_socket (Suc n) ctx [RData f] = dw_get_packet read_socket (Suc n) ctx' []"
    and "cached ctx' = f" and "ctx_geometry ctx'" and "rxlen ctx' = 0"
proof -
  have lm: "length (cmem ctx) = sizeof_cache" using geo by (simp add: ctx_geometry_def)
  have rd: "read_socket [RData f] sizeof_cache = (int (length f), f, [])"
    using f by (rule read_socket_all)
  have "read_cached read_socket ctx [RData f] 0 12 12 = read_cached read_socket ctx' [] 0 12 12"
    by (subst read_cached.simps) (use at lm rd f in \<open>simp add: Let_def run_simps ctx'_def\<close>)
  then have "get_packet_step read_socket ctx [RData f] = get_packet_step read_socket ctx' []"
    using at by (simp add: get_packet_step_def ctx'_def)
  then show "dw_get_packet read_socket (Suc n) ctx [RData f] = dw_get_packet read_socket (Suc n) ctx' []"
    by simp
  show "cached ctx' = f" using f lm at by (simp add: cached_def ctx'_def blit_def)
  show "ctx_geometry ctx'" using geo f lm at by (simp add: ctx_geometry_def ctx'_def)
  show "rxlen ctx' = 0" using at by (simp add: ctx'_def)
qed

text \<open>
  The receiver trusts the length field. When the cache already holds a header
  whose check bytes are right but that announces more than 1280 bytes of payload, and those
  bytes, the second pass copies them over the end of the packet object: \<open>dw_get_packet\<close> has
  undefined behaviour (a heap overflow of up to 64 KB chosen by the peer).
\<close>

theorem oversize_header_overflows:
  assumes "ctx_geometry ctx" and "rxlen ctx = 0" and "good_header (cached ctx)"
    and "RCPACKET_MAXPAYLOADSIZE < dp_len (cached ctx)"
    and "RCPACKET_HEAD_LEN + dp_len (cached ctx) \<le> length (cached ctx)"
  shows "dw_get_packet read_socket (Suc (Suc fuel)) ctx evs = Undefined"
  using assms by (rule oversize_overflows)

definition evil_header :: "byte list" where
  "evil_header = (let h = [0x40, 0x24, 1, 0, 0, 0, 17, 0, 1, 5]
     in h @ [crc8_ref h, NOT (crc8_ref h)])"

definition evil_ctx :: dw_ctx where
  "evil_ctx = empty_ctx\<lparr>cmem := evil_header @ replicate 20660 0, cpos := 1293\<rparr>"

lemma evil_ctx_ok:
  "ctx_geometry evil_ctx" "rxlen evil_ctx = 0" "good_header (cached evil_ctx)" "dp_len (cached evil_ctx) = 1281"
  "length (cached evil_ctx) = 1293"
proof -
  have l: "length evil_header = 12" by (simp add: evil_header_def Let_def)
  show geo: "ctx_geometry evil_ctx" using l by (simp add: ctx_geometry_def evil_ctx_def empty_ctx_def)
  show "rxlen evil_ctx = 0" by (simp add: evil_ctx_def empty_ctx_def)
  have c: "cached evil_ctx = take 12 evil_header @ replicate 1281 0"
    using l by (simp add: cached_def evil_ctx_def empty_ctx_def)
  have "good_header evil_header" "dp_len evil_header = 1281"
    by (simp_all add: good_header_def has_magic_def evil_header_def Let_def dp_len_def get16_def le16_of_def)
  then show "good_header (cached evil_ctx)" "dp_len (cached evil_ctx) = 1281"
    unfolding c using good_header_prefix [of 12 evil_header "replicate 1281 0"] l by simp_all
  show "length (cached evil_ctx) = 1293" unfolding c using l by simp
qed

theorem oversize_header_overflows_witness:
  "dw_get_packet read_socket (Suc (Suc 0)) evil_ctx [] = Undefined"
  by (rule oversize_header_overflows) (simp_all add: evil_ctx_ok)

text \<open>
  On a platform whose plain \<open>char\<close> is unsigned (the ARM targets the repository
  builds for) the header comparison \<open>buf[len - 1] != ~crc\<close> is always true, so no
  header whatever passes it; with signed \<open>char\<close> it passes exactly when the two bytes are
  the CRC and its complement.
\<close>

theorem header_crc_ok_platforms:
  "header_crc_ok is_signed crc c0 c1 \<longleftrightarrow> is_signed \<and> c0 = crc \<and> c1 = NOT crc"
  by (cases is_signed) (simp_all add: header_crc_ok_signed header_crc_ok_unsigned)

text \<open>
  \<open>dw_init_packet\<close> on a channel that \<open>fd_to_io_context\<close> made for a socket
  yields, when memory is available, a context in the state the receive loop needs, with nothing
  received yet; without memory it yields the null pointer. On a channel of any other type it reads a
  function pointer that was never set.
\<close>

theorem dw_init_packet_fd_channel:
  assumes "length buf = sizeof_cache" and "length dp = sizeof_DwPacket" and "length txd = sizeof_DwPacket"
    and "fd_to_io_context True nb fd ty = (ioc, nb')"
  shows "dw_init_packet (a, b, c, d) buf dp txd ioc =
     (if \<not> (a \<and> b \<and> c \<and> d) then Some Null_pointer
      else if ty = IO_TYPE_SOCKET then
        Some (Fresh \<lparr>cmem = buf, cbuf = 0, cpos = 0, rxdp = dp, txdp = txd, rxlen = 0\<rparr>)
      else None)
   \<and> (\<forall>ctx. dw_init_packet (a, b, c, d) buf dp txd ioc = Some (Fresh ctx) \<longrightarrow>
        rx_inv ctx \<and> frames ctx rest = rest)"
  using assms
  by (auto simp: dw_init_packet_def fd_to_io_context_def Let_def rx_inv_def ctx_geometry_def
      frames_def cached_def)

theorem dw_init_packet_fd_channel_witness:
  "\<exists>ctx. dw_init_packet (True, True, True, True) (replicate sizeof_cache 0) (replicate sizeof_DwPacket 0)
     (replicate sizeof_DwPacket 0) (fst (fd_to_io_context True {} 5 IO_TYPE_SOCKET)) = Some (Fresh ctx)
     \<and> rx_inv ctx \<and> frames ctx [1] = [1]"
proof -
  have pair: "fd_to_io_context True {} 5 IO_TYPE_SOCKET = (fst (fd_to_io_context True {} 5 IO_TYPE_SOCKET),
    snd (fd_to_io_context True {} 5 IO_TYPE_SOCKET))" by simp
  show ?thesis
    using dw_init_packet_fd_channel [OF _ _ _ pair, of "replicate sizeof_cache 0"
        "replicate sizeof_DwPacket 0" "replicate sizeof_DwPacket 0" True True True True "[1]"]
    by simp
qed

end
