(* ===== verification/Server.thy ===== *)
theory Server
  imports Packet
begin

text \<open>
  \<open>src/src/server/server.c\<close>, \<open>server/main.c\<close> and \<open>socket_open_listen\<close> of \<open>utils.c\<close>: the server's
  event loop over the packet layer. The kernel is explicit: open descriptors, the interest list of
  the epoll descriptor, what each socket will deliver, and the outcome of every call that may fail.
  A batch of events is what one \<open>epoll_wait\<close> returns. \<open>None\<close> is undefined behaviour: a client that
  was freed, a node that is on no list, a null channel, or a packet that overruns its object.
\<close>

section \<open>State\<close>

datatype target = Srv | Cli nat

text \<open>\<open>cl_ioc\<close> is the descriptor of the channel in \<open>dpctx\<close>; both are unset in a fresh object.\<close>

record client =
  cl_fd :: int
  cl_ioc :: int
  cl_ctx :: "dw_ctx option"

record server =
  sv_fd :: int
  sv_mem :: "nat \<Rightarrow> client option"
  sv_new :: nat
  sv_clients :: "nat list"
  sv_log :: "(nat \<times> byte list) list"
  k_open :: "int list"
  k_epoll :: "int \<Rightarrow> target option"
  k_net :: "int \<Rightarrow> recv_ev list"

definition epoll_add :: "bool \<Rightarrow> int \<Rightarrow> target \<Rightarrow> server \<Rightarrow> int \<times> server" where
  "epoll_add ok fd t sv =
     (if ok \<and> fd \<in> set (k_open sv) \<and> k_epoll sv fd = None then (0, sv\<lparr>k_epoll := (k_epoll sv)(fd := Some t)\<rparr>) else (- 1, sv))"

definition epoll_del :: "int \<Rightarrow> server \<Rightarrow> server" where
  "epoll_del fd sv = sv\<lparr>k_epoll := (k_epoll sv)(fd := None)\<rparr>"

text \<open>Closing a descriptor takes it off the interest list, too.\<close>

definition close_fd :: "int \<Rightarrow> server \<Rightarrow> server" where
  "close_fd fd sv = sv\<lparr>k_open := remove1 fd (k_open sv), k_epoll := (k_epoll sv)(fd := None)\<rparr>"

section \<open>Clients\<close>

definition disconnect_client :: "nat \<Rightarrow> server \<Rightarrow> server option" where
  "disconnect_client c sv = do {
     cl \<leftarrow> sv_mem sv c;
     let sv = epoll_del (cl_fd cl) sv;
     ctx \<leftarrow> cl_ctx cl;
     let sv = close_fd (cl_ioc cl) sv;
     if c \<notin> set (sv_clients sv) then None
     else Some (sv\<lparr>sv_clients := remove1 c (sv_clients sv), sv_mem := (sv_mem sv)(c := None)\<rparr>) }"

text \<open>\<open>proc_cmd\<close> returns 1; the second component is the command it reports as unknown.\<close>

definition proc_cmd :: "byte list \<Rightarrow> int \<times> int option" where
  "proc_cmd dp =
     (1, if dp_cmd dp \<in> {RCCOMMAND_REQUEST_NEWFILE, RCCOMMAND_TRANS_FILEDATA, RCCOMMAND_FILEDATA_MD5, RCCOMMAND_END_TRANSFILE}
         then None else Some (dp_cmd dp))"

text \<open>
  The receive loop of \<open>handle_client\<close>: the packets handed to \<open>proc_cmd\<close>, and how it ended. The fuel
  of \<open>dw_get_packet\<close> is enough for the bytes to come.
\<close>

datatype drain = Drained dw_ctx "recv_ev list" "byte list list" | Failed "recv_ev list" "byte list list" | Wild | Out_of_fuel

fun add_packet :: "byte list \<Rightarrow> drain \<Rightarrow> drain" where
  "add_packet p (Drained ctx evs ps) = Drained ctx evs (p # ps)"
| "add_packet p (Failed evs ps) = Failed evs (p # ps)"
| "add_packet p Wild = Wild"
| "add_packet p Out_of_fuel = Out_of_fuel"

fun recv_loop :: "nat \<Rightarrow> dw_ctx \<Rightarrow> recv_ev list \<Rightarrow> drain" where
  "recv_loop 0 ctx evs = Out_of_fuel"
| "recv_loop (Suc n) ctx evs =
     (case dw_get_packet read_socket (Suc (length (cached ctx @ incoming evs))) ctx evs of
        Returned ret p ctx evs \<Rightarrow>
          if ret < 0 then Failed evs []
          else if ret = 0 then Drained ctx evs []
          else (case p of None \<Rightarrow> Wild | Some dp \<Rightarrow> add_packet (take (nat ret) dp) (recv_loop n ctx evs))
      | Undefined \<Rightarrow> Wild
      | More_fuel \<Rightarrow> Out_of_fuel)"

record epev =
  ev_in :: bool
  ev_hup :: bool

definition log_packets :: "nat \<Rightarrow> byte list list \<Rightarrow> server \<Rightarrow> server" where
  "log_packets c ps sv = sv\<lparr>sv_log := sv_log sv @ map (\<lambda>p. (c, p)) ps\<rparr>"

definition handle_client :: "epev \<Rightarrow> nat \<Rightarrow> server \<Rightarrow> (int \<times> server) option" where
  "handle_client ev c sv = do {
     cl \<leftarrow> sv_mem sv c;
     ctx \<leftarrow> cl_ctx cl;
     let evs = k_net sv (cl_ioc cl);
     (gone, sv) \<leftarrow> (if ev_in ev then
         (case recv_loop (Suc (length (frames ctx (incoming evs)))) ctx evs of
            Drained ctx evs ps \<Rightarrow>
              Some (False, log_packets c ps (sv\<lparr>sv_mem := (sv_mem sv)(c \<mapsto> cl\<lparr>cl_ctx := Some ctx\<rparr>), k_net := (k_net sv)(cl_ioc cl := evs)\<rparr>))
          | Failed evs ps \<Rightarrow> do {
              sv \<leftarrow> disconnect_client c (log_packets c ps (sv\<lparr>k_net := (k_net sv)(cl_ioc cl := evs)\<rparr>));
              Some (True, sv) }
          | _ \<Rightarrow> None)
       else Some (False, sv));
     if gone then Some (0, sv)
     else if ev_hup ev then do { sv \<leftarrow> disconnect_client c sv; Some (0, sv) }
     else Some (0, sv) }"

text \<open>The outcomes \<open>new_client\<close> depends on; the three byte lists are the contents of fresh blocks.\<close>

record new_env =
  ne_malloc :: bool
  ne_accept :: int
  ne_ioc :: bool
  ne_allocs :: "bool \<times> bool \<times> bool \<times> bool"
  ne_buf :: "byte list"
  ne_dp :: "byte list"
  ne_txd :: "byte list"
  ne_epoll :: bool
  ne_net :: "recv_ev list"

definition new_client :: "new_env \<Rightarrow> server \<Rightarrow> (int \<times> server) option" where
  "new_client env sv =
     (if \<not> ne_malloc env then Some (- ENOMEM, sv)
      else
        let c = sv_new sv; fd = ne_accept env;
            sv = sv\<lparr>sv_new := Suc c, sv_mem := (sv_mem sv)(c \<mapsto> \<lparr>cl_fd = 0, cl_ioc = 0, cl_ctx = None\<rparr>)\<rparr> in
        if fd < 0 then Some (- 1, sv)
        else do {
          let sv = sv\<lparr>k_open := fd # k_open sv, k_net := (k_net sv)(fd := ne_net env)\<rparr>;
          r \<leftarrow> dw_init_packet (ne_allocs env) (ne_buf env) (ne_dp env) (ne_txd env) (fst (fd_to_io_context (ne_ioc env) {} fd IO_TYPE_SOCKET));
          case r of
            Null_pointer \<Rightarrow> Some (- ENOMEM, close_fd fd sv)
          | Fresh ctx \<Rightarrow> do {
              let sv = sv\<lparr>sv_clients := c # sv_clients sv, sv_mem := (sv_mem sv)(c \<mapsto> \<lparr>cl_fd = fd, cl_ioc = fd, cl_ctx = Some ctx\<rparr>)\<rparr>;
              let (ret, sv) = epoll_add (ne_epoll env) fd (Cli c) sv;
              if ret < 0 then do { sv \<leftarrow> disconnect_client c sv; Some (- 1, sv) }
              else Some (0, sv) } })"

definition handle_server :: "new_env \<Rightarrow> epev \<Rightarrow> server \<Rightarrow> (int \<times> server) option" where
  "handle_server env ev sv = (if ev_in ev then new_client env sv else Some (0, sv))"

section \<open>Start and event loop\<close>

record listen_env =
  le_socket :: int
  le_bind :: bool
  le_listen :: bool

text \<open>The descriptor, or -1, and the descriptors then open.\<close>

definition socket_open_listen :: "listen_env \<Rightarrow> int list \<Rightarrow> int \<times> int list" where
  "socket_open_listen env fds =
     (let fd = le_socket env in
      if fd < 0 then (- 1, fds)
      else
        let fds = fd # fds in
        if \<not> le_bind env then (- 1, remove1 fd fds)
        else if \<not> le_listen env then (- 1, remove1 fd fds)
        else (fd, fds))"

definition init_server :: "bool \<times> bool \<Rightarrow> listen_env \<Rightarrow> bool \<Rightarrow> int list \<Rightarrow> int \<times> server option" where
  "init_server allocs env epoll_ok fds =
     (case allocs of (epctx, mem) \<Rightarrow>
        if \<not> epctx \<or> \<not> mem then (- ENOMEM, None)
        else
          let (fd, fds) = socket_open_listen env fds;
              sv = \<lparr>sv_fd = 0, sv_mem = (\<lambda>_. None), sv_new = 0, sv_clients = [], sv_log = [], k_open = fds, k_epoll = (\<lambda>_. None), k_net = (\<lambda>_. [])\<rparr> in
          if fd < 0 then (- 1, Some sv)
          else
            let (ret, sv) = epoll_add epoll_ok fd Srv sv in
            if ret < 0 then (- 1, Some (close_fd fd sv))
            else (0, Some (sv\<lparr>sv_fd := fd\<rparr>)))"

text \<open>The calls of one batch, in order; each event names the object its pointer leads to.\<close>

type_synonym sv_event = "target \<times> epev \<times> new_env"

definition callback :: "sv_event \<Rightarrow> server \<Rightarrow> server option" where
  "callback e sv =
     (case e of
        (Srv, ev, env) \<Rightarrow> map_option snd (handle_server env ev sv)
      | (Cli c, ev, env) \<Rightarrow> map_option snd (handle_client ev c sv))"

fun run_batch :: "sv_event list \<Rightarrow> server \<Rightarrow> server option" where
  "run_batch [] sv = Some sv"
| "run_batch (e # es) sv = do { sv \<leftarrow> callback e sv; run_batch es sv }"

section \<open>The packets of a stream\<close>

lemma deframe_Frame: "deframe bs = Frame f rest \<Longrightarrow> length rest + length f \<le> length bs \<and> RCPACKET_HEAD_LEN \<le> length f"
proof (induction bs rule: deframe.induct)
  case (1 bs)
  show ?case
  proof (cases "length bs < 2 \<or> (has_magic bs 0 \<and> (length bs < RCPACKET_HEAD_LEN \<or> (good_header bs \<and> length bs < RCPACKET_HEAD_LEN + dp_len bs)))")
    case True
    then show ?thesis using 1(3) by (subst (asm) deframe.simps) (auto split: if_splits simp: Let_def)
  next
    case no: False
    then have l: "\<not> length bs < 2" by blast
    show ?thesis
    proof (cases "has_magic bs 0")
      case False
      then have "deframe (drop 1 bs) = Frame f rest" using 1(3) l by (subst (asm) deframe.simps) simp
      then show ?thesis using 1(1) [OF l False] by auto
    next
      case m: True
      then have h: "\<not> length bs < RCPACKET_HEAD_LEN" using no by blast
      show ?thesis
      proof (cases "good_header bs")
        case False
        then have "deframe (drop 2 bs) = Frame f rest" using 1(3) l m h by (subst (asm) deframe.simps) simp
        then show ?thesis using 1(2) [OF l _ h False] m by auto
      next
        case True
        then show ?thesis using 1(3) l m h no by (subst (asm) deframe.simps) (auto simp: Let_def split: if_splits)
      qed
    qed
  qed
qed

function frames_of :: "byte list \<Rightarrow> byte list list" where
  "frames_of bs = (case deframe bs of Frame f rest \<Rightarrow> f # frames_of rest | _ \<Rightarrow> [])"
  by pat_completeness auto
termination
  by (relation "measure length") (auto dest: deframe_Frame)

declare frames_of.simps [simp del]

text \<open>No header of the stream announces more than a packet object holds.\<close>

function sane :: "byte list \<Rightarrow> bool" where
  "sane bs = (case deframe bs of Frame f rest \<Rightarrow> sane rest | Oversize _ \<Rightarrow> False | More _ \<Rightarrow> True)"
  by pat_completeness auto
termination
  by (relation "measure length") (auto dest: deframe_Frame)

declare sane.simps [simp del]

lemma frames_of_Frame: "deframe bs = Frame f rest \<Longrightarrow> frames_of bs = f # frames_of rest"
  by (simp add: frames_of.simps [of bs])

lemma sane_Frame: "deframe bs = Frame f rest \<Longrightarrow> sane bs = sane rest"
  by (simp add: sane.simps [of bs])

lemma sane_Oversize: "sane bs \<Longrightarrow> deframe bs \<noteq> Oversize x"
  by (auto simp: sane.simps [of bs])

lemma deframe_same: "deframe a = deframe b \<Longrightarrow> frames_of a = frames_of b \<and> sane a = sane b"
  by (simp add: frames_of.simps [of a] frames_of.simps [of b] sane.simps [of a] sane.simps [of b])

text \<open>
  The receive loop returns; the packets it hands on are those of the stream, in order, and what it
  leaves when the socket runs dry holds the rest of them.
\<close>

lemma recv_loop_ok:
  assumes "rx_inv ctx" and "sane (frames ctx (incoming evs))" and "length (frames ctx (incoming evs)) < n"
  shows "(\<exists>ctx' evs' ps. recv_loop n ctx evs = Drained ctx' evs' ps \<and> rx_inv ctx' \<and> sane (frames ctx' (incoming evs'))
      \<and> frames_of (frames ctx (incoming evs)) = ps @ frames_of (frames ctx' (incoming evs')))
    \<or> (\<exists>evs' ps rest. recv_loop n ctx evs = Failed evs' ps \<and> frames_of (frames ctx (incoming evs)) = ps @ rest)"
  using assms
proof (induction n arbitrary: ctx evs)
  case 0
  then show ?case by simp
next
  case (Suc n)
  let ?F = "frames ctx (incoming evs)" and ?g = "Suc (length (cached ctx @ incoming evs))"
  have no: "deframe ?F \<noteq> Oversize bs" for bs by (rule sane_Oversize [OF Suc.prems(2)])
  obtain ret p ctx' evs' where run: "dw_get_packet read_socket ?g ctx evs = Returned ret p ctx' evs'"
    and res: "ret < 0 \<and> p = None
     \<or> ret = 0 \<and> p = None \<and> rx_inv ctx' \<and> deframe ?F = deframe (frames ctx' (incoming evs'))
     \<or> 0 < ret \<and> rx_inv ctx' \<and> rxlen ctx' = 0
        \<and> (\<exists>dp. p = Some dp \<and> length dp = sizeof_DwPacket \<and> nat ret = RCPACKET_HEAD_LEN + dp_len dp
             \<and> deframe ?F = Frame (take (nat ret) dp) (frames ctx' (incoming evs')))"
    using sock.get_packet_correct [OF Suc.prems(1), of evs ?g] no by blast
  from res consider (neg) "ret < 0" | (zero) "ret = 0" "rx_inv ctx'" "deframe ?F = deframe (frames ctx' (incoming evs'))"
    | (pos) dp where "0 < ret" "rx_inv ctx'" "p = Some dp" "deframe ?F = Frame (take (nat ret) dp) (frames ctx' (incoming evs'))" by blast
  then show ?case
  proof cases
    case neg
    then have "recv_loop (Suc n) ctx evs = Failed evs' []" using run by simp
    then show ?thesis by simp
  next
    case zero
    then have "recv_loop (Suc n) ctx evs = Drained ctx' evs' []" using run by simp
    then show ?thesis using zero deframe_same [OF zero(3)] Suc.prems(2) by simp
  next
    case (pos dp)
    let ?p = "take (nat ret) dp"
    have step: "recv_loop (Suc n) ctx evs = add_packet ?p (recv_loop n ctx' evs')" using run pos by simp
    have f: "frames_of ?F = ?p # frames_of (frames ctx' (incoming evs'))" by (rule frames_of_Frame [OF pos(4)])
    have s: "sane (frames ctx' (incoming evs'))" using sane_Frame [OF pos(4)] Suc.prems(2) by simp
    have "length (frames ctx' (incoming evs')) < n" using deframe_Frame [OF pos(4)] Suc.prems(3) by auto
    from Suc.IH [OF pos(2) s this] show ?thesis unfolding step f by auto
  qed
qed

section \<open>The server's invariant\<close>

definition client_at :: "server \<Rightarrow> nat \<Rightarrow> int \<Rightarrow> dw_ctx \<Rightarrow> bool" where
  "client_at sv c fd ctx \<longleftrightarrow> sv_mem sv c = Some \<lparr>cl_fd = fd, cl_ioc = fd, cl_ctx = Some ctx\<rparr>"

text \<open>
  The clients on the list are live, each with its own open descriptor that is registered to it;
  apart from them only the listening descriptor is open or registered.
\<close>

definition server_ok :: "server \<Rightarrow> bool" where
  "server_ok sv \<longleftrightarrow> distinct (sv_clients sv) \<and> distinct (k_open sv)
     \<and> sv_fd sv \<in> set (k_open sv) \<and> k_epoll sv (sv_fd sv) = Some Srv
     \<and> (\<forall>c \<in> set (sv_clients sv). \<exists>fd ctx. client_at sv c fd ctx \<and> rx_inv ctx \<and> fd \<in> set (k_open sv) \<and> k_epoll sv fd = Some (Cli c))
     \<and> (\<forall>fd t. k_epoll sv fd = Some t \<longrightarrow> t = Srv \<and> fd = sv_fd sv \<or> (\<exists>c \<in> set (sv_clients sv). \<exists>ctx. t = Cli c \<and> client_at sv c fd ctx))
     \<and> (\<forall>fd \<in> set (k_open sv). k_epoll sv fd \<noteq> None)
     \<and> (\<forall>c. sv_mem sv c \<noteq> None \<longrightarrow> c < sv_new sv)"

lemma server_okD:
  assumes "server_ok sv"
  shows "distinct (sv_clients sv)" "distinct (k_open sv)" "sv_fd sv \<in> set (k_open sv)" "k_epoll sv (sv_fd sv) = Some Srv"
    "c \<in> set (sv_clients sv) \<Longrightarrow> \<exists>fd ctx. client_at sv c fd ctx \<and> rx_inv ctx \<and> fd \<in> set (k_open sv) \<and> k_epoll sv fd = Some (Cli c)"
    "k_epoll sv fd = Some t \<Longrightarrow> t = Srv \<and> fd = sv_fd sv \<or> (\<exists>c \<in> set (sv_clients sv). \<exists>ctx. t = Cli c \<and> client_at sv c fd ctx)"
    "fd \<in> set (k_open sv) \<Longrightarrow> k_epoll sv fd \<noteq> None" "sv_mem sv c \<noteq> None \<Longrightarrow> c < sv_new sv"
  using assms unfolding server_ok_def by blast+

lemma server_ok_log: "server_ok sv \<Longrightarrow> server_ok (sv\<lparr>sv_log := l, k_net := n\<rparr>)"
  by (simp add: server_ok_def client_at_def)

lemma server_ok_ctx:
  assumes ok: "server_ok sv" and c: "client_at sv c fd ctx0" "rx_inv ctx"
  shows "server_ok (sv\<lparr>sv_mem := (sv_mem sv)(c \<mapsto> \<lparr>cl_fd = fd, cl_ioc = fd, cl_ctx = Some ctx\<rparr>)\<rparr>)"
proof -
  let ?s = "sv\<lparr>sv_mem := (sv_mem sv)(c \<mapsto> \<lparr>cl_fd = fd, cl_ioc = fd, cl_ctx = Some ctx\<rparr>)\<rparr>"
  have at: "(\<exists>x. client_at ?s d f x \<and> rx_inv x) \<longleftrightarrow> (if d = c then f = fd else \<exists>x. client_at sv d f x \<and> rx_inv x)" for d f
    using c by (auto simp: client_at_def)
  have at2: "(\<exists>x. client_at ?s d f x) \<longleftrightarrow> (\<exists>x. client_at sv d f x)" for d f
    using c(1) by (auto simp: client_at_def)
  have lt: "c < sv_new sv" using server_okD(8) [OF ok, of c] c(1) by (simp add: client_at_def)
  have 5: "\<exists>f x. client_at ?s d f x \<and> rx_inv x \<and> f \<in> set (k_open sv) \<and> k_epoll sv f = Some (Cli d)" if d: "d \<in> set (sv_clients sv)" for d
  proof -
    obtain f x where f: "client_at sv d f x" "rx_inv x" "f \<in> set (k_open sv)" "k_epoll sv f = Some (Cli d)" using server_okD(5) [OF ok d] by blast
    have "d = c \<Longrightarrow> f = fd" using f(1) c(1) by (simp add: client_at_def)
    then have "\<exists>x. client_at ?s d f x \<and> rx_inv x" unfolding at using f(1,2) by auto
    then show ?thesis using f(3,4) by blast
  qed
  have 6: "t = Srv \<and> f = sv_fd sv \<or> (\<exists>d \<in> set (sv_clients sv). \<exists>x. t = Cli d \<and> client_at ?s d f x)" if "k_epoll sv f = Some t" for f t
    using server_okD(6) [OF ok that] at2 by blast
  show ?thesis
    unfolding server_ok_def using server_okD(1-4,7,8) [OF ok] 5 6 lt by auto
qed

lemma disconnect_ok:
  assumes ok: "server_ok sv" and c: "c \<in> set (sv_clients sv)"
  shows "\<exists>s fd ctx. client_at sv c fd ctx \<and> disconnect_client c sv = Some s \<and> server_ok s
    \<and> s = sv\<lparr>k_epoll := (k_epoll sv)(fd := None), k_open := remove1 fd (k_open sv), sv_clients := remove1 c (sv_clients sv), sv_mem := (sv_mem sv)(c := None)\<rparr>"
proof -
  obtain fd ctx where fd: "client_at sv c fd ctx" "fd \<in> set (k_open sv)" "k_epoll sv fd = Some (Cli c)" using server_okD(5) [OF ok c] by blast
  let ?s = "sv\<lparr>k_epoll := (k_epoll sv)(fd := None), k_open := remove1 fd (k_open sv), sv_clients := remove1 c (sv_clients sv), sv_mem := (sv_mem sv)(c := None)\<rparr>"
  have run: "disconnect_client c sv = Some ?s"
    using fd(1) c by (simp add: disconnect_client_def client_at_def epoll_del_def close_fd_def)
  have ne: "fd \<noteq> sv_fd sv" using server_okD(4) [OF ok] fd(3) by auto
  have other: "f \<noteq> fd" if "client_at sv d f x" "k_epoll sv f = Some (Cli d)" "d \<noteq> c" for d f x using that fd(3) by auto
  have at: "client_at ?s d f x \<longleftrightarrow> d \<noteq> c \<and> client_at sv d f x" for d f x by (auto simp: client_at_def)
  have d: "distinct (sv_clients sv)" "distinct (k_open sv)" using server_okD(1,2) [OF ok] by blast+
  have st: "set (remove1 c (sv_clients sv)) = set (sv_clients sv) - {c}" "set (remove1 fd (k_open sv)) = set (k_open sv) - {fd}"
    using d by (simp_all add: set_remove1_eq)
  have 5: "\<exists>f x. client_at ?s d f x \<and> rx_inv x \<and> f \<in> set (k_open ?s) \<and> k_epoll ?s f = Some (Cli d)" if h: "d \<in> set (sv_clients ?s)" for d
  proof -
    have h': "d \<in> set (sv_clients sv)" "d \<noteq> c" using h st(1) by auto
    obtain f x where f: "client_at sv d f x" "rx_inv x" "f \<in> set (k_open sv)" "k_epoll sv f = Some (Cli d)" using server_okD(5) [OF ok h'(1)] by blast
    then show ?thesis using other [OF f(1,4) h'(2)] h'(2) at st by auto
  qed
  have 6: "t = Srv \<and> f = sv_fd sv \<or> (\<exists>d \<in> set (sv_clients ?s). \<exists>x. t = Cli d \<and> client_at ?s d f x)" if h: "k_epoll ?s f = Some t" for f t
  proof -
    have h': "k_epoll sv f = Some t" "f \<noteq> fd" using h by (auto split: if_splits)
    have "d \<noteq> c" if "client_at sv d f x" for d x using that fd(1) h'(2) by (auto simp: client_at_def)
    then show ?thesis using server_okD(6) [OF ok h'(1)] at st(1) by auto
  qed
  have "server_ok ?s"
    unfolding server_ok_def using server_okD(3,4,7,8) [OF ok] 5 6 ne d st by (auto simp: distinct_remove1)
  then show ?thesis using run fd(1) by blast
qed

text \<open>
  The packets a callback hands to \<open>proc_cmd\<close> for a client are the first ones of its stream; where
  the client stays and was read from, the stream that is left holds the others.
\<close>

definition handed_on :: "bool \<Rightarrow> nat \<Rightarrow> server \<Rightarrow> server \<Rightarrow> bool" where
  "handed_on inn c sv s \<longleftrightarrow> (\<exists>ps. sv_log s = sv_log sv @ map (\<lambda>p. (c, p)) ps
     \<and> (\<forall>fd ctx. client_at sv c fd ctx \<longrightarrow> (\<exists>rest. frames_of (frames ctx (incoming (k_net sv fd))) = ps @ rest
          \<and> (c \<in> set (sv_clients s) \<longrightarrow> inn \<longrightarrow> (\<exists>ctx'. client_at s c fd ctx' \<and> rest = frames_of (frames ctx' (incoming (k_net s fd))))))))"

lemma handed_onI:
  assumes "client_at sv c fd ctx" and "sv_log s = sv_log sv @ map (\<lambda>p. (c, p)) ps" and "frames_of (frames ctx (incoming (k_net sv fd))) = ps @ rest"
    and "c \<in> set (sv_clients s) \<Longrightarrow> inn \<Longrightarrow> \<exists>ctx'. client_at s c fd ctx' \<and> rest = frames_of (frames ctx' (incoming (k_net s fd)))"
  shows "handed_on inn c sv s"
proof -
  have "f = fd \<and> x = ctx" if "client_at sv c f x" for f x using that assms(1) by (simp add: client_at_def)
  then show ?thesis unfolding handed_on_def using assms(2-4) by blast
qed

text \<open>What every callback keeps, and what it may do to the clients that are there.\<close>

lemma handle_client_ok:
  assumes ok: "server_ok sv" and c: "c \<in> set (sv_clients sv)"
    and sn: "\<And>fd ctx. client_at sv c fd ctx \<Longrightarrow> sane (frames ctx (incoming (k_net sv fd)))"
  shows "\<exists>s. handle_client ev c sv = Some (0, s) \<and> server_ok s \<and> set (sv_clients sv) - {c} \<subseteq> set (sv_clients s)
    \<and> (\<forall>d. d \<noteq> c \<longrightarrow> sv_mem s d = sv_mem sv d) \<and> (\<forall>fd d ctx. d \<noteq> c \<longrightarrow> d \<in> set (sv_clients sv) \<longrightarrow> client_at sv d fd ctx \<longrightarrow> k_net s fd = k_net sv fd)
    \<and> set (k_open s) \<subseteq> set (k_open sv)
    \<and> handed_on (ev_in ev) c sv s"
proof -
  obtain fd ctx where fd: "client_at sv c fd ctx" "rx_inv ctx" "fd \<in> set (k_open sv)" "k_epoll sv fd = Some (Cli c)" using server_okD(5) [OF ok c] by blast
  have disj: "f \<noteq> fd" if h: "client_at sv d f x" "d \<noteq> c" "d \<in> set (sv_clients sv)" for d f x
  proof -
    obtain g y where "client_at sv d g y" "k_epoll sv g = Some (Cli d)" using server_okD(5) [OF ok h(3)] by blast
    then show ?thesis using h(1,2) fd(4) by (auto simp: client_at_def)
  qed
  let ?evs = "k_net sv fd" let ?F = "frames ctx (incoming ?evs)"
  have drop_c: "set (sv_clients sv) - {c} \<subseteq> set (remove1 c (sv_clients sv))" "c \<notin> set (remove1 c (sv_clients sv))"
    using server_okD(1) [OF ok] by (auto simp: set_remove1_eq)
  show ?thesis
  proof (cases "ev_in ev")
    case False
    show ?thesis
    proof (cases "ev_hup ev")
      case True
      obtain s fd' ctx' where s: "client_at sv c fd' ctx'" "disconnect_client c sv = Some s" "server_ok s"
          "s = sv\<lparr>k_epoll := (k_epoll sv)(fd' := None), k_open := remove1 fd' (k_open sv), sv_clients := remove1 c (sv_clients sv), sv_mem := (sv_mem sv)(c := None)\<rparr>"
        using disconnect_ok [OF ok c] by blast
      have "handle_client ev c sv = Some (0, s)" using fd(1) False True s(2) by (simp add: handle_client_def client_at_def)
      moreover have "sv_log s = sv_log sv @ map (\<lambda>p. (c, p)) []" "sv_clients s = remove1 c (sv_clients sv)" "sv_mem s = (sv_mem sv)(c := None)"
          "k_net s = k_net sv" "k_open s = remove1 fd' (k_open sv)" unfolding s(4) by simp_all
      moreover have "handed_on (ev_in ev) c sv s" by (rule handed_onI [OF fd(1), of _ "[]"]) (use calculation False in auto)
      ultimately show ?thesis using s(3) drop_c by (intro exI [of _ s]) (auto dest: subsetD [OF set_remove1_subset])
    next
      case hup: False
      have "handle_client ev c sv = Some (0, sv)" using fd(1) False hup by (simp add: handle_client_def client_at_def)
      moreover have "handed_on (ev_in ev) c sv sv" by (rule handed_onI [OF fd(1), of _ "[]"]) (use False in auto)
      ultimately show ?thesis using ok by (intro exI [of _ sv]) auto
    qed
  next
    case inn: True
    have loop: "(\<exists>ctx' evs' ps. recv_loop (Suc (length ?F)) ctx ?evs = Drained ctx' evs' ps \<and> rx_inv ctx' \<and> sane (frames ctx' (incoming evs'))
        \<and> frames_of ?F = ps @ frames_of (frames ctx' (incoming evs')))
      \<or> (\<exists>evs' ps rest. recv_loop (Suc (length ?F)) ctx ?evs = Failed evs' ps \<and> frames_of ?F = ps @ rest)"
      by (rule recv_loop_ok [OF fd(2) sn [OF fd(1)]]) simp
    then consider (drained) ctx' evs' ps where "recv_loop (Suc (length ?F)) ctx ?evs = Drained ctx' evs' ps" "rx_inv ctx'"
        "frames_of ?F = ps @ frames_of (frames ctx' (incoming evs'))"
      | (failed) evs' ps rest where "recv_loop (Suc (length ?F)) ctx ?evs = Failed evs' ps" "frames_of ?F = ps @ rest" by blast
    then show ?thesis
    proof cases
      case (failed evs' ps rest)
      let ?t = "log_packets c ps (sv\<lparr>k_net := (k_net sv)(fd := evs')\<rparr>)"
      have te: "?t = sv\<lparr>sv_log := sv_log sv @ map (\<lambda>p. (c, p)) ps, k_net := (k_net sv)(fd := evs')\<rparr>" by (cases sv) (simp add: log_packets_def)
      have tok: "server_ok ?t" unfolding te by (rule server_ok_log [OF ok])
      obtain s fd' ctx' where s: "disconnect_client c ?t = Some s" "server_ok s"
          "s = ?t\<lparr>k_epoll := (k_epoll ?t)(fd' := None), k_open := remove1 fd' (k_open ?t), sv_clients := remove1 c (sv_clients ?t), sv_mem := (sv_mem ?t)(c := None)\<rparr>"
        using disconnect_ok [OF tok, of c] c by (auto simp: te)
      have "handle_client ev c sv = Some (0, s)"
        using fd(1) inn failed(1) s(1) by (simp add: handle_client_def client_at_def)
      moreover have "sv_log s = sv_log sv @ map (\<lambda>p. (c, p)) ps" "sv_clients s = remove1 c (sv_clients sv)" "sv_mem s = (sv_mem sv)(c := None)"
          "k_net s = (k_net sv)(fd := evs')" "k_open s = remove1 fd' (k_open sv)" unfolding s(3) te by simp_all
      moreover have "handed_on (ev_in ev) c sv s" by (rule handed_onI [OF fd(1) _ failed(2)]) (use calculation drop_c in auto)
      ultimately show ?thesis using s(2) drop_c disj by (intro exI [of _ s]) (auto dest: subsetD [OF set_remove1_subset])
    next
      case (drained ctx' evs' ps)
      let ?t = "sv\<lparr>sv_mem := (sv_mem sv)(c \<mapsto> \<lparr>cl_fd = fd, cl_ioc = fd, cl_ctx = Some ctx'\<rparr>)\<rparr>"
      let ?u = "?t\<lparr>k_net := (k_net sv)(fd := evs'), sv_log := sv_log sv @ map (\<lambda>p. (c, p)) ps\<rparr>"
      have ue: "?u = ?t\<lparr>sv_log := sv_log sv @ map (\<lambda>p. (c, p)) ps, k_net := (k_net sv)(fd := evs')\<rparr>" by (cases sv) simp
      have uok: "server_ok ?u" unfolding ue by (rule server_ok_log [OF server_ok_ctx [OF ok fd(1) drained(2)]])
      have cu: "client_at ?u c fd ctx'" by (simp add: client_at_def)
      have start: "handle_client ev c sv = (if ev_hup ev then do { sv \<leftarrow> disconnect_client c ?u; Some (0, sv) } else Some (0, ?u))"
        using fd(1) inn drained(1) by (simp add: handle_client_def client_at_def log_packets_def)
      show ?thesis
      proof (cases "ev_hup ev")
        case False
        then have "handle_client ev c sv = Some (0, ?u)" using start by simp
        moreover have "handed_on (ev_in ev) c sv ?u" by (rule handed_onI [OF fd(1) _ drained(3)]) (use cu in auto)
        ultimately show ?thesis using uok disj by (intro exI [of _ ?u]) auto
      next
        case True
        obtain s fd' x where s: "disconnect_client c ?u = Some s" "server_ok s"
            "s = ?u\<lparr>k_epoll := (k_epoll ?u)(fd' := None), k_open := remove1 fd' (k_open ?u), sv_clients := remove1 c (sv_clients ?u), sv_mem := (sv_mem ?u)(c := None)\<rparr>"
          using disconnect_ok [OF uok, of c] c by auto
        have "handle_client ev c sv = Some (0, s)" unfolding start using True s(1) by simp
        moreover have "sv_log s = sv_log sv @ map (\<lambda>p. (c, p)) ps" "sv_clients s = remove1 c (sv_clients sv)" "sv_mem s = (sv_mem sv)(c := None)"
            "k_net s = (k_net sv)(fd := evs')" "k_open s = remove1 fd' (k_open sv)" unfolding s(3) by simp_all
        moreover have "handed_on (ev_in ev) c sv s" by (rule handed_onI [OF fd(1) _ drained(3)]) (use calculation drop_c in auto)
        ultimately show ?thesis using s(2) drop_c disj by (intro exI [of _ s]) (auto dest: subsetD [OF set_remove1_subset])
      qed
    qed
  qed
qed

text \<open>
  What the kernel guarantees a callback: an accepted connection has a new descriptor; a block has
  the size that was asked for. That the channel of a new client can be allocated is assumed.
\<close>

definition env_ok :: "server \<Rightarrow> new_env \<Rightarrow> bool" where
  "env_ok sv env \<longleftrightarrow> length (ne_buf env) = sizeof_cache \<and> length (ne_dp env) = sizeof_DwPacket \<and> length (ne_txd env) = sizeof_DwPacket
     \<and> (ne_accept env < 0 \<or> ne_accept env \<notin> set (k_open sv)) \<and> ne_ioc env"

lemma server_ok_open:
  assumes ok: "server_ok sv" and e: "k_epoll sv fd = Some t"
  shows "fd \<in> set (k_open sv)"
proof -
  consider "fd = sv_fd sv" | c ctx where "c \<in> set (sv_clients sv)" "client_at sv c fd ctx" using server_okD(6) [OF ok e] by blast
  then show ?thesis
  proof cases
    case 1
    then show ?thesis using server_okD(3) [OF ok] by simp
  next
    case (2 c ctx)
    obtain g y where "client_at sv c g y" "g \<in> set (k_open sv)" using server_okD(5) [OF ok 2(1)] by blast
    then show ?thesis using 2(2) by (simp add: client_at_def)
  qed
qed

lemma new_channel:
  assumes "length (ne_buf env) = sizeof_cache" and "length (ne_dp env) = sizeof_DwPacket" and "length (ne_txd env) = sizeof_DwPacket" and "ne_ioc env"
  shows "dw_init_packet (ne_allocs env) (ne_buf env) (ne_dp env) (ne_txd env) (fst (fd_to_io_context (ne_ioc env) {} fd IO_TYPE_SOCKET)) = Some Null_pointer
    \<or> (\<exists>ctx. dw_init_packet (ne_allocs env) (ne_buf env) (ne_dp env) (ne_txd env) (fst (fd_to_io_context (ne_ioc env) {} fd IO_TYPE_SOCKET)) = Some (Fresh ctx) \<and> rx_inv ctx)"
  using assms by (cases "ne_allocs env") (simp add: dw_init_packet_def fd_to_io_context_def Let_def rx_inv_def ctx_geometry_def)

lemma new_client_ok:
  assumes ok: "server_ok sv" and env: "env_ok sv env"
  shows "\<exists>ret s. new_client env sv = Some (ret, s) \<and> server_ok s \<and> set (sv_clients sv) \<subseteq> set (sv_clients s) \<and> sv_log s = sv_log sv
    \<and> (\<forall>d \<in> set (sv_clients sv). sv_mem s d = sv_mem sv d) \<and> (\<forall>fd \<in> set (k_open sv). k_net s fd = k_net sv fd)"
proof -
  let ?c = "sv_new sv" and ?fd = "ne_accept env"
  have new: "sv_mem sv ?c = None" using server_okD(8) [OF ok, of ?c] by (cases "sv_mem sv ?c") auto
  have nc: "?c \<notin> set (sv_clients sv)"
  proof
    assume "?c \<in> set (sv_clients sv)"
    then obtain fd ctx where "client_at sv ?c fd ctx" using server_okD(5) [OF ok] by blast
    then show False using new by (simp add: client_at_def)
  qed
  let ?raw = "sv\<lparr>sv_new := Suc ?c, sv_mem := (sv_mem sv)(?c \<mapsto> \<lparr>cl_fd = 0, cl_ioc = 0, cl_ctx = None\<rparr>)\<rparr>"
  have same: "client_at s d fd ctx \<longleftrightarrow> client_at sv d fd ctx" if "sv_mem s d = sv_mem sv d" for s d fd ctx using that by (simp add: client_at_def)
  have raw: "server_ok (sv\<lparr>sv_new := Suc ?c, sv_mem := m, k_net := n\<rparr>)" if "\<forall>d. d \<noteq> ?c \<longrightarrow> m d = sv_mem sv d" for m n
  proof -
    have cl: "client_at (sv\<lparr>sv_new := Suc ?c, sv_mem := m, k_net := n\<rparr>) d fd ctx \<longleftrightarrow> client_at sv d fd ctx" if "d \<in> set (sv_clients sv)" for d fd ctx
    proof (rule same)
      have "d \<noteq> ?c" using that nc by blast
      then show "sv_mem (sv\<lparr>sv_new := Suc ?c, sv_mem := m, k_net := n\<rparr>) d = sv_mem sv d" using \<open>\<forall>d. d \<noteq> ?c \<longrightarrow> m d = sv_mem sv d\<close> by simp
    qed
    have lt: "m d \<noteq> None \<Longrightarrow> d < Suc ?c" for d using that server_okD(8) [OF ok, of d] by (cases "d = ?c") auto
    show ?thesis unfolding server_ok_def using server_okD(1-7) [OF ok] cl lt by simp
  qed
  show ?thesis
  proof (cases "ne_malloc env")
    case False
    then show ?thesis using ok by (simp add: new_client_def)
  next
    case m: True
    show ?thesis
    proof (cases "?fd < 0")
      case True
      have "?raw = sv\<lparr>sv_new := Suc ?c, sv_mem := (sv_mem sv)(?c \<mapsto> \<lparr>cl_fd = 0, cl_ioc = 0, cl_ctx = None\<rparr>), k_net := k_net sv\<rparr>" by (cases sv) simp
      then have "server_ok ?raw" using raw [of "(sv_mem sv)(?c \<mapsto> \<lparr>cl_fd = 0, cl_ioc = 0, cl_ctx = None\<rparr>)" "k_net sv"] by simp
      moreover have "new_client env sv = Some (- 1, ?raw)" using m True by (simp add: new_client_def Let_def)
      ultimately show ?thesis using nc by (intro exI [of _ "- 1"] exI [of _ ?raw]) auto
    next
      case False
      then have fo: "?fd \<notin> set (k_open sv)" using env by (simp add: env_ok_def)
      have fe: "k_epoll sv ?fd = None" using server_ok_open [OF ok, of ?fd] fo by (cases "k_epoll sv ?fd") auto
      let ?net = "(k_net sv)(?fd := ne_net env)"
      let ?t = "?raw\<lparr>k_open := ?fd # k_open sv, k_net := ?net\<rparr>"
      consider (null) "dw_init_packet (ne_allocs env) (ne_buf env) (ne_dp env) (ne_txd env) (fst (fd_to_io_context (ne_ioc env) {} ?fd IO_TYPE_SOCKET)) = Some Null_pointer"
        | (fresh) ctx where "dw_init_packet (ne_allocs env) (ne_buf env) (ne_dp env) (ne_txd env) (fst (fd_to_io_context (ne_ioc env) {} ?fd IO_TYPE_SOCKET)) = Some (Fresh ctx)" "rx_inv ctx"
        using new_channel env unfolding env_ok_def by blast
      then show ?thesis
      proof cases
        case null
        have st: "close_fd ?fd ?t = sv\<lparr>sv_new := Suc ?c, sv_mem := (sv_mem sv)(?c \<mapsto> \<lparr>cl_fd = 0, cl_ioc = 0, cl_ctx = None\<rparr>), k_net := ?net\<rparr>"
          using fe by (cases sv) (simp add: close_fd_def fun_upd_idem)
        have "new_client env sv = Some (- ENOMEM, close_fd ?fd ?t)" using m False null by (simp add: new_client_def Let_def)
        moreover have "server_ok (close_fd ?fd ?t)" unfolding st by (rule raw) simp
        ultimately show ?thesis using nc fo unfolding st by auto
      next
        case (fresh ctx)
        let ?cl = "\<lparr>cl_fd = ?fd, cl_ioc = ?fd, cl_ctx = Some ctx\<rparr>"
        let ?u = "?t\<lparr>sv_clients := ?c # sv_clients sv, sv_mem := (sv_mem sv)(?c \<mapsto> ?cl)\<rparr>"
        have run: "new_client env sv = (let (ret, s) = epoll_add (ne_epoll env) ?fd (Cli ?c) ?u in
            if ret < 0 then do { s \<leftarrow> disconnect_client ?c s; Some (- 1, s) } else Some (0, s))"
          using m False fresh(1) by (simp add: new_client_def Let_def)
        show ?thesis
        proof (cases "ne_epoll env")
          case True
          let ?s = "?u\<lparr>k_epoll := (k_epoll sv)(?fd := Some (Cli ?c))\<rparr>"
          have "new_client env sv = Some (0, ?s)" using run True fe by (simp add: epoll_add_def)
          moreover have "server_ok ?s"
          proof -
            have cl: "client_at ?s d fd x \<longleftrightarrow> client_at sv d fd x" if "d \<in> set (sv_clients sv)" for d fd x
              by (rule same) (use that nc in auto)
            have me: "client_at ?s ?c ?fd ctx" by (simp add: client_at_def)
            have 5: "\<exists>fd x. client_at ?s d fd x \<and> rx_inv x \<and> fd \<in> set (k_open ?s) \<and> k_epoll ?s fd = Some (Cli d)" if h: "d \<in> set (sv_clients ?s)" for d
            proof (cases "d = ?c")
              case True
              then show ?thesis using me fresh(2) by auto
            next
              case False
              then have d: "d \<in> set (sv_clients sv)" using h by simp
              obtain fd x where f: "client_at sv d fd x" "rx_inv x" "fd \<in> set (k_open sv)" "k_epoll sv fd = Some (Cli d)" using server_okD(5) [OF ok d] by blast
              have "fd \<noteq> ?fd" using fe f(4) by auto
              then show ?thesis using cl [OF d] f by (intro exI [of _ fd] exI [of _ x]) simp
            qed
            have 6: "t = Srv \<and> fd = sv_fd sv \<or> (\<exists>d \<in> set (sv_clients ?s). \<exists>x. t = Cli d \<and> client_at ?s d fd x)" if h: "k_epoll ?s fd = Some t" for fd t
            proof (cases "fd = ?fd")
              case True
              then show ?thesis using h me by auto
            next
              case False
              then have e: "k_epoll sv fd = Some t" using h by simp
              consider "t = Srv" "fd = sv_fd sv" | d x where "d \<in> set (sv_clients sv)" "t = Cli d" "client_at sv d fd x" using server_okD(6) [OF ok e] by blast
              then show ?thesis
              proof cases
                case (2 d x)
                then have "client_at ?s d fd x" using cl by blast
                then show ?thesis using 2(1,2) by auto
              qed simp
            qed
            have ne: "sv_fd sv \<noteq> ?fd" using fo server_okD(3) [OF ok] by auto
            have lt: "sv_mem ?s d \<noteq> None \<Longrightarrow> d < Suc ?c" for d using server_okD(8) [OF ok, of d] by (cases "d = ?c") auto
            show ?thesis unfolding server_ok_def using server_okD(1-4,7) [OF ok] 5 6 lt nc fo ne by auto
          qed
          ultimately show ?thesis using nc fo by auto
        next
          case False
          have st: "disconnect_client ?c ?u = Some (sv\<lparr>sv_new := Suc ?c, sv_mem := (sv_mem sv)(?c := None), k_net := ?net\<rparr>)"
            using fe by (cases sv) (simp add: disconnect_client_def epoll_del_def close_fd_def fun_upd_idem)
          have "new_client env sv = Some (- 1, sv\<lparr>sv_new := Suc ?c, sv_mem := (sv_mem sv)(?c := None), k_net := ?net\<rparr>)"
            using run False st by (simp add: epoll_add_def)
          moreover have "server_ok (sv\<lparr>sv_new := Suc ?c, sv_mem := (sv_mem sv)(?c := None), k_net := ?net\<rparr>)" by (rule raw) simp
          ultimately show ?thesis using nc fo by auto
        qed
      qed
    qed
  qed
qed

lemma run_batch_ok:
  assumes "server_ok sv" and "distinct (map fst es)"
    and "\<forall>(t, ev, env) \<in> set es. t = Srv \<longrightarrow> env_ok sv env"
    and "\<forall>(t, ev, env) \<in> set es. \<forall>c. t = Cli c \<longrightarrow> c \<in> set (sv_clients sv) \<and> (\<forall>fd ctx. client_at sv c fd ctx \<longrightarrow> sane (frames ctx (incoming (k_net sv fd))))"
  shows "\<exists>s. run_batch es sv = Some s \<and> server_ok s"
  using assms
proof (induction es arbitrary: sv)
  case Nil
  then show ?case by simp
next
  case (Cons e es)
  obtain t ev env where e: "e = (t, ev, env)" by (cases e)
  have others: "t' \<noteq> t" if "(t', x) \<in> set es" for t' x using Cons.prems(2) e that by (auto simp: rev_image_eqI)
  obtain s where s: "callback e sv = Some s" "server_ok s" "\<forall>(t, ev, env) \<in> set es. t = Srv \<longrightarrow> env_ok s env"
      "\<forall>(t, ev, env) \<in> set es. \<forall>c. t = Cli c \<longrightarrow> c \<in> set (sv_clients s) \<and> (\<forall>fd ctx. client_at s c fd ctx \<longrightarrow> sane (frames ctx (incoming (k_net s fd))))"
  proof (cases t)
    case Srv
    have no: "(Srv, x) \<notin> set es" for x using others Srv by blast
    show thesis
    proof (cases "ev_in ev")
      case False
      then have "callback e sv = Some sv" using e Srv by (simp add: callback_def handle_server_def)
      then show thesis using that [of sv] Cons.prems by (auto simp: e)
    next
      case True
      obtain ret s where s: "new_client env sv = Some (ret, s)" "server_ok s" "set (sv_clients sv) \<subseteq> set (sv_clients s)"
          "\<forall>d \<in> set (sv_clients sv). sv_mem s d = sv_mem sv d" "\<forall>fd \<in> set (k_open sv). k_net s fd = k_net sv fd"
        using new_client_ok [OF Cons.prems(1), of env] Cons.prems(3) e Srv by auto
      have "c \<in> set (sv_clients s) \<and> (\<forall>fd ctx. client_at s c fd ctx \<longrightarrow> sane (frames ctx (incoming (k_net s fd))))" if "(Cli c, x) \<in> set es" for c x
      proof -
        have c: "c \<in> set (sv_clients sv)" "\<forall>fd ctx. client_at sv c fd ctx \<longrightarrow> sane (frames ctx (incoming (k_net sv fd)))"
          using Cons.prems(4) that by fastforce+
        have at: "client_at s c fd ctx \<longleftrightarrow> client_at sv c fd ctx" for fd ctx using s(4) c(1) by (simp add: client_at_def)
        have "fd \<in> set (k_open sv)" if h: "client_at sv c fd ctx" for fd ctx
          using server_okD(5) [OF Cons.prems(1) c(1)] h by (auto simp: client_at_def)
        then show ?thesis using c s(3,5) at by auto
      qed
      moreover have "callback e sv = Some s" using e Srv True s(1) by (simp add: callback_def handle_server_def)
      ultimately show thesis using that [of s] s(2) no by fastforce
    qed
  next
    case (Cli c)
    have c: "c \<in> set (sv_clients sv)" "\<And>fd ctx. client_at sv c fd ctx \<Longrightarrow> sane (frames ctx (incoming (k_net sv fd)))"
      using Cons.prems(4) e Cli by auto
    obtain s where s: "handle_client ev c sv = Some (0, s)" "server_ok s" "set (sv_clients sv) - {c} \<subseteq> set (sv_clients s)"
        "\<forall>d. d \<noteq> c \<longrightarrow> sv_mem s d = sv_mem sv d" "\<forall>fd d ctx. d \<noteq> c \<longrightarrow> d \<in> set (sv_clients sv) \<longrightarrow> client_at sv d fd ctx \<longrightarrow> k_net s fd = k_net sv fd"
        "set (k_open s) \<subseteq> set (k_open sv)" using handle_client_ok [OF Cons.prems(1) c] by blast
    have "d \<in> set (sv_clients s) \<and> (\<forall>fd ctx. client_at s d fd ctx \<longrightarrow> sane (frames ctx (incoming (k_net s fd))))" if h: "(Cli d, x) \<in> set es" for d x
    proof -
      have dc: "d \<noteq> c" using others [OF h] Cli by auto
      have d: "d \<in> set (sv_clients sv)" "\<forall>fd ctx. client_at sv d fd ctx \<longrightarrow> sane (frames ctx (incoming (k_net sv fd)))"
        using Cons.prems(4) h by fastforce+
      have "client_at s d fd ctx \<longleftrightarrow> client_at sv d fd ctx" for fd ctx using s(4) dc by (simp add: client_at_def)
      moreover have "k_net s fd = k_net sv fd" if "client_at sv d fd ctx" for fd ctx using s(5) [rule_format, OF dc d(1) that] .
      moreover have "d \<in> set (sv_clients s)" using s(3) dc d(1) by auto
      ultimately show ?thesis using d(2) by simp
    qed
    moreover have "env_ok s env'" if h: "(Srv, ev', env') \<in> set es" for ev' env'
      using Cons.prems(3) h s(6) by (fastforce simp: env_ok_def)
    moreover have "callback e sv = Some s" using e Cli s(1) by (simp add: callback_def)
    ultimately show thesis using that [of s] s(2) by fastforce
  qed
  have "distinct (map fst es)" using Cons.prems(2) by simp
  from Cons.IH [OF s(2) this s(3,4)] show ?case using s(1) by simp
qed

section \<open>The event loop as a step relation\<close>

text \<open>
  What is assumed of a batch (a specification, not code). It is what \<open>epoll_wait\<close> may return: at
  most 16 targets on the interest list, each once. And it is outside the two cases in which the
  code is undefined, shown by \<open>new_client_failures\<close> and by the theorem on a hostile client below:
  the channel object of a new client can be allocated (\<open>env_ok\<close>), and no client has sent a header
  that announces more payload than a packet object holds (\<open>sane\<close>).
\<close>

definition batch_ok :: "server \<Rightarrow> sv_event list \<Rightarrow> bool" where
  "batch_ok sv es \<longleftrightarrow> length es \<le> 16 \<and> distinct (map fst es)
     \<and> (\<forall>(t, ev, env) \<in> set es. (\<exists>fd. k_epoll sv fd = Some t) \<and> (t = Srv \<longrightarrow> env_ok sv env)
          \<and> (\<forall>c. t = Cli c \<longrightarrow> (\<forall>fd ctx. client_at sv c fd ctx \<longrightarrow> sane (frames ctx (incoming (k_net sv fd))))))"

inductive server_step :: "server \<Rightarrow> server \<Rightarrow> bool" where
  arrive: "fd \<in> set (k_open sv) \<Longrightarrow> server_step sv (sv\<lparr>k_net := (k_net sv)(fd := k_net sv fd @ evs)\<rparr>)"
| batch: "batch_ok sv es \<Longrightarrow> run_batch es sv = Some sv' \<Longrightarrow> server_step sv sv'"

inductive_cases server_stepE: "server_step sv sv'"

lemma batch_runs:
  assumes ok: "server_ok sv" and b: "batch_ok sv es"
  shows "\<exists>s. run_batch es sv = Some s \<and> server_ok s"
proof (rule run_batch_ok [OF ok])
  show "distinct (map fst es)" "\<forall>(t, ev, env) \<in> set es. t = Srv \<longrightarrow> env_ok sv env" using b unfolding batch_ok_def by auto
  have "c \<in> set (sv_clients sv)" if h: "(Cli c, x) \<in> set es" for c x
  proof -
    obtain fd where "k_epoll sv fd = Some (Cli c)" using b h unfolding batch_ok_def by fastforce
    then show ?thesis using server_okD(6) [OF ok] by blast
  qed
  then show "\<forall>(t, ev, env) \<in> set es. \<forall>c. t = Cli c \<longrightarrow> c \<in> set (sv_clients sv)
      \<and> (\<forall>fd ctx. client_at sv c fd ctx \<longrightarrow> sane (frames ctx (incoming (k_net sv fd))))"
    using b unfolding batch_ok_def by blast
qed

lemma server_step_ok: "server_step sv sv' \<Longrightarrow> server_ok sv \<Longrightarrow> server_ok sv'"
proof (erule server_stepE)
  fix fd evs assume ok: "server_ok sv" and e: "sv' = sv\<lparr>k_net := (k_net sv)(fd := k_net sv fd @ evs)\<rparr>"
  have "sv\<lparr>sv_log := sv_log sv, k_net := n\<rparr> = sv\<lparr>k_net := n\<rparr>" for n by (cases sv) simp
  then show "server_ok sv'" unfolding e using server_ok_log [OF ok, of _ "sv_log sv"] by metis
next
  fix es assume "server_ok sv" "batch_ok sv es" "run_batch es sv = Some sv'"
  then show "server_ok sv'" using batch_runs by fastforce
qed

lemma init_server_ok:
  assumes "init_server allocs env ok [] = (0, Some sv)"
  shows "server_ok sv"
proof -
  obtain fd where fd: "0 \<le> fd" "sv = \<lparr>sv_fd = fd, sv_mem = (\<lambda>_. None), sv_new = 0, sv_clients = [], sv_log = [], k_open = [fd], k_epoll = (\<lambda>_. None)(fd := Some Srv), k_net = (\<lambda>_. [])\<rparr>"
    using assms by (auto simp: init_server_def socket_open_listen_def epoll_add_def Let_def split: prod.splits if_splits)
  show ?thesis unfolding fd(2) by (simp add: server_ok_def)
qed


section \<open>Properties\<close>

text \<open>
  C3. However the server is started, and as long as no client sends a header that announces more
  than the 1280 bytes of a packet and the channel object of every accepted client can be
  allocated (\<open>batch_ok\<close>; both other cases are undefined behaviour of the code): whatever clients
  connect and hang up, whatever else they send in whatever pieces, and in whatever order
  \<open>epoll_wait\<close> reports it, the clients on the list stay live, each with an open descriptor
  of its own, and nothing else is registered; and the next such batch is handled to its end without
  touching a client that is gone, also when an earlier event of the same batch disconnected others.
\<close>

theorem server_invariant:
  assumes "init_server allocs env ok [] = (0, Some sv0)" and "server_step\<^sup>*\<^sup>* sv0 sv"
  shows "server_ok sv \<and> (batch_ok sv es \<longrightarrow> (\<exists>s. run_batch es sv = Some s \<and> server_ok s))"
proof -
  have "server_ok sv" using assms(2) init_server_ok [OF assms(1)] by (induction rule: rtranclp_induct) (auto intro: server_step_ok)
  then show ?thesis using batch_runs by blast
qed

definition start_env :: listen_env where
  "start_env = \<lparr>le_socket = 3, le_bind = True, le_listen = True\<rparr>"

definition start_server :: server where
  "start_server = \<lparr>sv_fd = 3, sv_mem = (\<lambda>_. None), sv_new = 0, sv_clients = [], sv_log = [], k_open = [3], k_epoll = (\<lambda>_. None)(3 := Some Srv), k_net = (\<lambda>_. [])\<rparr>"

definition fresh_env :: "bool \<Rightarrow> bool \<Rightarrow> int \<Rightarrow> new_env" where
  "fresh_env ioc ep fd = \<lparr>ne_malloc = True, ne_accept = fd, ne_ioc = ioc, ne_allocs = (True, True, True, True), ne_buf = replicate sizeof_cache 0,
     ne_dp = replicate sizeof_DwPacket 0, ne_txd = replicate sizeof_DwPacket 0, ne_epoll = ep, ne_net = []\<rparr>"

lemma start_server: "init_server (True, True) start_env True [] = (0, Some start_server)"
  by (simp add: init_server_def socket_open_listen_def start_env_def epoll_add_def start_server_def)

lemma start_server_ok: "server_ok start_server"
  by (rule init_server_ok [OF start_server])

lemma start_batch: "batch_ok start_server [(Srv, \<lparr>ev_in = True, ev_hup = False\<rparr>, fresh_env True True 4)]"
  by (auto simp: batch_ok_def start_server_def env_ok_def fresh_env_def)

theorem server_invariant_witness:
  "server_ok start_server \<and> (\<exists>s. run_batch [(Srv, \<lparr>ev_in = True, ev_hup = False\<rparr>, fresh_env True True 4)] start_server = Some s \<and> server_ok s)"
  using server_invariant [OF start_server, of start_server "[(Srv, \<lparr>ev_in = True, ev_hup = False\<rparr>, fresh_env True True 4)]"] start_batch by simp

lemma new_client_fresh:
  assumes "server_ok sv" and "env_ok sv env" and "ne_malloc env" and "0 \<le> ne_accept env"
    and "ne_allocs env = (True, True, True, True)" and "ne_epoll env" and "ne_net env = []"
  shows "\<exists>s. new_client env sv = Some (0, s)
    \<and> client_at s (sv_new sv) (ne_accept env)
        \<lparr>cmem = ne_buf env, cbuf = 0, cpos = 0, rxdp = ne_dp env, txdp = ne_txd env, rxlen = 0\<rparr>
    \<and> k_epoll s (ne_accept env) = Some (Cli (sv_new sv)) \<and> k_net s (ne_accept env) = []
    \<and> ne_accept env \<in> set (k_open s)"
proof -
  have fo: "ne_accept env \<notin> set (k_open sv)" using assms(2,4) by (simp add: env_ok_def)
  then have fe: "k_epoll sv (ne_accept env) = None"
    using server_ok_open [OF assms(1), of "ne_accept env"] by (cases "k_epoll sv (ne_accept env)") auto
  then show ?thesis
    using assms(2-7) by (simp add: new_client_def dw_init_packet_def fd_to_io_context_def Let_def env_ok_def epoll_add_def client_at_def)
qed

text \<open>
  An accepted connection: the new client goes to the front of the list, registered under its
  descriptor, with a channel that will parse what the peer sends from its first byte; the other
  clients are left as they were.
\<close>

theorem new_client_accepts:
  assumes "server_ok sv" and "env_ok sv env" and "ne_malloc env" and "0 \<le> ne_accept env" and "ne_allocs env = (True, True, True, True)" and "ne_epoll env"
  shows "\<exists>s ctx. new_client env sv = Some (0, s) \<and> server_ok s \<and> sv_clients s = sv_new sv # sv_clients sv
    \<and> client_at s (sv_new sv) (ne_accept env) ctx \<and> k_epoll s (ne_accept env) = Some (Cli (sv_new sv)) \<and> (\<forall>bs. frames ctx bs = bs)
    \<and> (\<forall>c \<in> set (sv_clients sv). sv_mem s c = sv_mem sv c)"
proof -
  have fo: "ne_accept env \<notin> set (k_open sv)" using assms(2,4) by (simp add: env_ok_def)
  then have fe: "k_epoll sv (ne_accept env) = None" using server_ok_open [OF assms(1), of "ne_accept env"] by (cases "k_epoll sv (ne_accept env)") auto
  let ?ctx = "\<lparr>cmem = ne_buf env, cbuf = 0, cpos = 0, rxdp = ne_dp env, txdp = ne_txd env, rxlen = 0\<rparr>"
  let ?s = "sv\<lparr>sv_new := Suc (sv_new sv), k_open := ne_accept env # k_open sv, k_net := (k_net sv)(ne_accept env := ne_net env),
     sv_clients := sv_new sv # sv_clients sv, sv_mem := (sv_mem sv)(sv_new sv \<mapsto> \<lparr>cl_fd = ne_accept env, cl_ioc = ne_accept env, cl_ctx = Some ?ctx\<rparr>),
     k_epoll := (k_epoll sv)(ne_accept env := Some (Cli (sv_new sv)))\<rparr>"
  have run: "new_client env sv = Some (0, ?s)"
    using assms(2-6) fe by (simp add: new_client_def dw_init_packet_def fd_to_io_context_def Let_def env_ok_def epoll_add_def)
  moreover have "server_ok ?s" using new_client_ok [OF assms(1,2)] run by auto
  moreover have "\<forall>c \<in> set (sv_clients sv). sv_mem ?s c = sv_mem sv c" using new_client_ok [OF assms(1,2)] run by auto
  moreover have "client_at ?s (sv_new sv) (ne_accept env) ?ctx" by (simp add: client_at_def)
  moreover have "frames ?ctx bs = bs" for bs by (simp add: frames_def cached_def)
  ultimately show ?thesis by (intro exI [of _ ?s] exI [of _ ?ctx]) simp
qed

theorem new_client_accepts_witness:
  "\<exists>s ctx. new_client (fresh_env True True 4) start_server = Some (0, s) \<and> server_ok s \<and> sv_clients s = [0] \<and> client_at s 0 4 ctx
    \<and> k_epoll s 4 = Some (Cli 0) \<and> (\<forall>bs. frames ctx bs = bs)"
proof -
  have "env_ok start_server (fresh_env True True 4)" by (simp add: env_ok_def start_server_def fresh_env_def)
  from new_client_accepts [OF start_server_ok this] show ?thesis by (simp add: fresh_env_def start_server_def)
qed

text \<open>
  The branches that fail: where \<open>accept\<close> fails the new object stays allocated and is on no list;
  where the channel cannot be allocated \<open>dw_init_packet\<close> dereferences its null pointer.
\<close>

theorem new_client_failures:
  "(ne_malloc env \<and> ne_accept env < 0 \<longrightarrow>
      (\<exists>s. new_client env sv = Some (- 1, s) \<and> sv_mem s (sv_new sv) \<noteq> None \<and> sv_clients s = sv_clients sv))
   \<and> (ne_malloc env \<and> 0 \<le> ne_accept env \<and> ne_allocs env = (True, True, True, True) \<and> \<not> ne_ioc env \<longrightarrow> new_client env sv = None)"
  by (simp add: new_client_def Let_def dw_init_packet_def fd_to_io_context_def)

theorem new_client_failures_witness:
  "(\<exists>s. new_client (fresh_env True True (- 1)) start_server = Some (- 1, s) \<and> sv_mem s 0 \<noteq> None \<and> sv_clients s = [])
   \<and> new_client (fresh_env False True 4) start_server = None"
  using new_client_failures [of "fresh_env True True (- 1)" start_server] new_client_failures [of "fresh_env False True 4" start_server]
  by (simp add: fresh_env_def start_server_def)

text \<open>
  One event of a client: the packets handed to \<open>proc_cmd\<close> are the first packets of the stream
  its peer sends, in order; a client that stays is left with exactly the others. The server
  stays consistent and no other client is touched.
\<close>

theorem handle_client_hands_on:
  assumes "server_ok sv" and "c \<in> set (sv_clients sv)" and "\<And>fd ctx. client_at sv c fd ctx \<Longrightarrow> sane (frames ctx (incoming (k_net sv fd)))"
  shows "\<exists>s. handle_client ev c sv = Some (0, s) \<and> server_ok s \<and> handed_on (ev_in ev) c sv s
    \<and> set (sv_clients sv) - {c} \<subseteq> set (sv_clients s) \<and> (\<forall>d. d \<noteq> c \<longrightarrow> sv_mem s d = sv_mem sv d)"
  using handle_client_ok [OF assms, of ev] by blast

definition one_client :: "dw_ctx \<Rightarrow> recv_ev list \<Rightarrow> server" where
  "one_client ctx evs = start_server\<lparr>sv_new := 1, sv_clients := [0], sv_mem := (\<lambda>_. None)(0 \<mapsto> \<lparr>cl_fd = 4, cl_ioc = 4, cl_ctx = Some ctx\<rparr>),
     k_open := [4, 3], k_epoll := (\<lambda>_. None)(3 := Some Srv, 4 := Some (Cli 0)), k_net := (\<lambda>_. evs)\<rparr>"

lemma one_client_ok: "rx_inv ctx \<Longrightarrow> server_ok (one_client ctx evs)"
  by (auto simp: server_ok_def one_client_def start_server_def client_at_def)

theorem handle_client_hands_on_witness:
  "\<exists>s. handle_client \<lparr>ev_in = True, ev_hup = False\<rparr> 0 (one_client empty_ctx [RData [7]]) = Some (0, s)
    \<and> server_ok s \<and> handed_on True 0 (one_client empty_ctx [RData [7]]) s"
proof -
  have sane: "sane (frames ctx (incoming (k_net (one_client empty_ctx [RData [7]]) fd)))" if "client_at (one_client empty_ctx [RData [7]]) 0 fd ctx" for fd ctx
  proof -
    have "ctx = empty_ctx" using that by (simp add: client_at_def one_client_def)
    then show ?thesis by (simp add: one_client_def empty_ctx sane.simps [of "[_]"] deframe.simps)
  qed
  have "0 \<in> set (sv_clients (one_client empty_ctx [RData [7]]))" by (simp add: one_client_def)
  from handle_client_hands_on [OF one_client_ok [OF empty_ctx(1)] this, of "\<lparr>ev_in = True, ev_hup = False\<rparr>"] sane show ?thesis by auto
qed

text \<open>
  C33. One client can take the server down, whatever state the server has reached: it connects
  (\<open>new_client\<close> succeeds) and sends, as its first bytes, a header with correct check bytes that
  announces more than a packet object holds, and that payload (any bytes \<open>f\<close> of at most the
  size of the cache). Both are steps of the server, the new client is registered, and when
  \<open>epoll_wait\<close> reports it the receive loop ends in the write behind the client's packet
  object (\<open>Wild\<close>, not a lack of fuel), so the callback and any batch that begins with it are undefined.
\<close>

theorem hostile_client_corrupts_server:
  assumes "init_server allocs le ok [] = (0, Some sv0)" and "server_step\<^sup>*\<^sup>* sv0 sv"
    and "env_ok sv env" and "ne_malloc env" and "0 \<le> ne_accept env" and "ne_allocs env = (True, True, True, True)"
    and "ne_epoll env" and "ne_net env = []"
    and "good_header f" and "RCPACKET_MAXPAYLOADSIZE < dp_len f"
    and "RCPACKET_HEAD_LEN + dp_len f \<le> length f" and "length f \<le> sizeof_cache" and "ev_in ev"
  shows "\<exists>sv1 sv2 ctx. new_client env sv = Some (0, sv1) \<and> server_step\<^sup>*\<^sup>* sv0 sv1 \<and> server_step sv1 sv2
    \<and> sv2 = sv1\<lparr>k_net := (k_net sv1)(ne_accept env := [RData f])\<rparr>
    \<and> client_at sv2 (sv_new sv) (ne_accept env) ctx \<and> k_epoll sv2 (ne_accept env) = Some (Cli (sv_new sv))
    \<and> recv_loop (Suc (length (frames ctx (incoming [RData f])))) ctx (k_net sv2 (ne_accept env)) = Wild
    \<and> handle_client ev (sv_new sv) sv2 = None
    \<and> run_batch ((Cli (sv_new sv), ev, env) # es) sv2 = None"
proof -
  have ok: "server_ok sv"
    using assms(2) init_server_ok [OF assms(1)] by (induction rule: rtranclp_induct) (auto intro: server_step_ok)
  let ?fd = "ne_accept env"
  let ?ctx = "\<lparr>cmem = ne_buf env, cbuf = 0, cpos = 0, rxdp = ne_dp env, txdp = ne_txd env, rxlen = 0\<rparr>"
  obtain sv1 where new: "new_client env sv = Some (0, sv1)" and at1: "client_at sv1 (sv_new sv) ?fd ?ctx"
    and reg: "k_epoll sv1 ?fd = Some (Cli (sv_new sv))" and net: "k_net sv1 ?fd = []" and opn: "?fd \<in> set (k_open sv1)"
    using new_client_fresh [OF ok assms(3-8)] by blast
  define sv2 where "sv2 = sv1\<lparr>k_net := (k_net sv1)(?fd := [RData f])\<rparr>"
  have b: "batch_ok sv [(Srv, \<lparr>ev_in = True, ev_hup = False\<rparr>, env)]"
    using assms(3) server_okD(4) [OF ok] by (auto simp: batch_ok_def)
  have "run_batch [(Srv, \<lparr>ev_in = True, ev_hup = False\<rparr>, env)] sv = Some sv1"
    using new by (simp add: callback_def handle_server_def)
  then have "server_step\<^sup>*\<^sup>* sv0 sv1"
    by (rule rtranclp.rtrancl_into_rtrancl [OF assms(2) server_step.batch [OF b]])
  moreover have "server_step sv1 sv2"
    using server_step.arrive [OF opn, of "[RData f]"] net by (simp add: sv2_def)
  moreover have at2: "client_at sv2 (sv_new sv) ?fd ?ctx" "k_epoll sv2 ?fd = Some (Cli (sv_new sv))"
      "k_net sv2 ?fd = [RData f]"
    using at1 reg by (simp_all add: sv2_def client_at_def)
  moreover have wild: "recv_loop (Suc m) ?ctx [RData f] = Wild" for m
  proof -
    have geo: "ctx_geometry ?ctx" using assms(3) by (simp add: env_ok_def ctx_geometry_def)
    have f: "f \<noteq> []" using assms(11) by auto
    obtain n where n: "length (cached ?ctx @ incoming [RData f]) = Suc n"
      using f by (cases f) (simp_all add: cached_def)
    have "dw_get_packet read_socket (Suc (Suc n)) ?ctx [RData f] = Undefined"
      using fresh_reads [OF geo _ _ _ f assms(12)] oversize_overflows assms(9-11) by simp
    then show ?thesis unfolding recv_loop.simps n by simp
  qed
  moreover have h: "handle_client ev (sv_new sv) sv2 = None"
    using wild at2 assms(13) by (simp add: handle_client_def client_at_def del: recv_loop.simps)
  moreover have "run_batch ((Cli (sv_new sv), ev, env) # es) sv2 = None"
    using h by (simp add: callback_def)
  ultimately show ?thesis
    using new sv2_def
    by (intro exI [of _ sv1] exI [of _ sv2] exI [of _ ?ctx]) (simp del: recv_loop.simps run_batch.simps)
qed

definition evil_packet :: "byte list" where
  "evil_packet = evil_header @ replicate 1281 0"

lemma evil_packet_ok: "good_header evil_packet" "dp_len evil_packet = 1281" "length evil_packet = 1293"
proof -
  have l: "length evil_header = 12" by (simp add: evil_header_def Let_def)
  have "good_header evil_header" "dp_len evil_header = 1281"
    by (simp_all add: good_header_def has_magic_def evil_header_def Let_def dp_len_def get16_def le16_of_def)
  then show "good_header evil_packet" "dp_len evil_packet = 1281"
    unfolding evil_packet_def using good_header_prefix [of 12 evil_header "replicate 1281 0"] l by simp_all
  show "length evil_packet = 1293" by (simp add: evil_packet_def l)
qed

theorem hostile_client_corrupts_server_witness:
  "\<exists>sv1 sv2. new_client (fresh_env True True 4) start_server = Some (0, sv1) \<and> server_step\<^sup>*\<^sup>* start_server sv1
    \<and> server_step sv1 sv2 \<and> k_net sv2 4 = [RData evil_packet]
    \<and> handle_client \<lparr>ev_in = True, ev_hup = False\<rparr> 0 sv2 = None"
proof -
  have "env_ok start_server (fresh_env True True 4)" by (simp add: env_ok_def start_server_def fresh_env_def)
  note run = hostile_client_corrupts_server [OF start_server rtranclp.rtrancl_refl this,
      where f = evil_packet and ev = "\<lparr>ev_in = True, ev_hup = False\<rparr>" and es = "[]"]
  have e: "ne_malloc (fresh_env True True 4)" "ne_accept (fresh_env True True 4) = 4" "ne_allocs (fresh_env True True 4) = (True, True, True, True)"
    "ne_epoll (fresh_env True True 4)" "ne_net (fresh_env True True 4) = []" "sv_new start_server = 0"
    by (simp_all add: fresh_env_def start_server_def)
  have "\<exists>sv1 sv2 ctx. new_client (fresh_env True True 4) start_server = Some (0, sv1) \<and> server_step\<^sup>*\<^sup>* start_server sv1
    \<and> server_step sv1 sv2 \<and> sv2 = sv1\<lparr>k_net := (k_net sv1)(4 := [RData evil_packet])\<rparr>
    \<and> client_at sv2 0 4 ctx \<and> k_epoll sv2 4 = Some (Cli 0)
    \<and> recv_loop (Suc (length (frames ctx (incoming [RData evil_packet])))) ctx (k_net sv2 4) = Wild
    \<and> handle_client \<lparr>ev_in = True, ev_hup = False\<rparr> 0 sv2 = None
    \<and> run_batch ((Cli 0, \<lparr>ev_in = True, ev_hup = False\<rparr>, fresh_env True True 4) # []) sv2 = None"
    by (rule run [unfolded e]) (simp_all add: evil_packet_ok e)
  then show ?thesis by (elim exE conjE) (intro exI conjI, assumption, assumption, assumption, simp, assumption)
qed

end
