(* ===== verification/RbTree.thy ===== *)
theory RbTree
  imports Prelude
begin

text \<open>
  \<open>src/src/rbtree.c\<close>, \<open>include/rbtree.h\<close> and \<open>include/rbtree_augmented.h\<close>: red-black trees
  as pointer structures. Pointers are 64-bit words, the colour sits in bit 0 of the word that
  also holds the parent pointer, and every operation is the sequence of loads and stores of the
  source over an explicit heap, undefined where it goes through a pointer to no node.

  The functions come in mirrored halves that differ only in exchanging left and right; the
  model takes the side as an argument (\<open>Lf\<close> is the half written out first in the source).
  The augmented callbacks are arguments too, so what is shown holds for the plain functions
  (dummy callbacks) and for the augmented ones.
\<close>

section \<open>Nodes and the heap\<close>

type_synonym ptr = ulong

datatype side = Lf | Rt

fun other :: "side \<Rightarrow> side" where
  "other Lf = Rt"
| "other Rt = Lf"

lemma other_other [simp]: "other (other d) = d"
  by (cases d) simp_all

lemma other_neq [simp]: "other d \<noteq> d" "d \<noteq> other d"
  by (cases d; simp)+

record rb_node =
  parent_color :: ulong
  rb_right :: ptr
  rb_left :: ptr

fun child_of :: "side \<Rightarrow> rb_node \<Rightarrow> ptr" where
  "child_of Lf n = rb_left n"
| "child_of Rt n = rb_right n"

fun set_child_of :: "side \<Rightarrow> ptr \<Rightarrow> rb_node \<Rightarrow> rb_node" where
  "set_child_of Lf v n = n\<lparr>rb_left := v\<rparr>"
| "set_child_of Rt v n = n\<lparr>rb_right := v\<rparr>"

text \<open>
  A store with one tree: its nodes, the \<open>rb_node\<close> cell of its root, and what the augmented
  callbacks keep.
\<close>

record 'a rbs =
  rheap :: "ptr \<rightharpoonup> rb_node"
  rroot :: ptr
  raug :: 'a

type_synonym 'a rotate = "ptr \<Rightarrow> ptr \<Rightarrow> 'a rbs \<Rightarrow> 'a"

definition RB_RED :: ulong where "RB_RED = 0"
definition RB_BLACK :: ulong where "RB_BLACK = 1"

definition get_child :: "'a rbs \<Rightarrow> ptr \<Rightarrow> side \<Rightarrow> ptr option" where
  "get_child s p d = map_option (child_of d) (rheap s p)"

definition put_child :: "'a rbs \<Rightarrow> ptr \<Rightarrow> side \<Rightarrow> ptr \<Rightarrow> 'a rbs option" where
  "put_child s p d v = map_option (\<lambda>n. s\<lparr>rheap := (rheap s)(p \<mapsto> set_child_of d v n)\<rparr>) (rheap s p)"

definition get_pc :: "'a rbs \<Rightarrow> ptr \<Rightarrow> ulong option" where
  "get_pc s p = map_option parent_color (rheap s p)"

definition put_pc :: "'a rbs \<Rightarrow> ptr \<Rightarrow> ulong \<Rightarrow> 'a rbs option" where
  "put_pc s p v = map_option (\<lambda>n. s\<lparr>rheap := (rheap s)(p \<mapsto> n\<lparr>parent_color := v\<rparr>)\<rparr>) (rheap s p)"

definition rb_parent_pc :: "ulong \<Rightarrow> ptr" where "rb_parent_pc pc = pc AND NOT 3"
definition rb_color_pc :: "ulong \<Rightarrow> ulong" where "rb_color_pc pc = pc AND 1"

definition rb_parent :: "'a rbs \<Rightarrow> ptr \<Rightarrow> ptr option" where
  "rb_parent s p = map_option rb_parent_pc (get_pc s p)"

definition rb_red_parent :: "'a rbs \<Rightarrow> ptr \<Rightarrow> ptr option" where
  "rb_red_parent s p = get_pc s p"

definition rb_is_red :: "'a rbs \<Rightarrow> ptr \<Rightarrow> bool option" where
  "rb_is_red s p = map_option (\<lambda>pc. \<not> rb_color_pc pc \<noteq> 0) (get_pc s p)"

definition rb_is_black :: "'a rbs \<Rightarrow> ptr \<Rightarrow> bool option" where
  "rb_is_black s p = map_option (\<lambda>pc. rb_color_pc pc \<noteq> 0) (get_pc s p)"

definition RB_EMPTY_ROOT :: "'a rbs \<Rightarrow> bool" where "RB_EMPTY_ROOT s \<longleftrightarrow> rroot s = 0"

definition RB_EMPTY_NODE :: "'a rbs \<Rightarrow> ptr \<Rightarrow> bool option" where
  "RB_EMPTY_NODE s p = map_option (\<lambda>pc. pc = p) (get_pc s p)"

definition RB_CLEAR_NODE :: "'a rbs \<Rightarrow> ptr \<Rightarrow> 'a rbs option" where
  "RB_CLEAR_NODE s p = put_pc s p p"

definition rb_set_black :: "'a rbs \<Rightarrow> ptr \<Rightarrow> 'a rbs option" where
  "rb_set_black s rb = do { pc \<leftarrow> get_pc s rb; put_pc s rb (pc OR RB_BLACK) }"

definition rb_set_parent :: "'a rbs \<Rightarrow> ptr \<Rightarrow> ptr \<Rightarrow> 'a rbs option" where
  "rb_set_parent s rb p = do { pc \<leftarrow> get_pc s rb; put_pc s rb (rb_color_pc pc OR p) }"

definition rb_set_parent_color :: "'a rbs \<Rightarrow> ptr \<Rightarrow> ptr \<Rightarrow> ulong \<Rightarrow> 'a rbs option" where
  "rb_set_parent_color s rb p color = put_pc s rb (p OR color)"

definition rb_change_child :: "'a rbs \<Rightarrow> ptr \<Rightarrow> ptr \<Rightarrow> ptr \<Rightarrow> 'a rbs option" where
  "rb_change_child s old new parent =
     (if parent \<noteq> 0 then do {
        l \<leftarrow> get_child s parent Lf;
        if l = old then put_child s parent Lf new else put_child s parent Rt new }
      else Some (s\<lparr>rroot := new\<rparr>))"

definition rb_link_node :: "'a rbs \<Rightarrow> ptr \<Rightarrow> ptr \<Rightarrow> side option \<Rightarrow> 'a rbs option" where
  "rb_link_node s node parent link = do {
     s \<leftarrow> put_pc s node parent;
     s \<leftarrow> put_child s node Rt 0;
     s \<leftarrow> put_child s node Lf 0;
     case link of None \<Rightarrow> Some (s\<lparr>rroot := node\<rparr>) | Some d \<Rightarrow> put_child s parent d node }"

definition call_rotate :: "'a rotate \<Rightarrow> 'a rbs \<Rightarrow> ptr \<Rightarrow> ptr \<Rightarrow> 'a rbs" where
  "call_rotate rot s old new = s\<lparr>raug := rot old new s\<rparr>"

definition rb_rotate_set_parents :: "'a rbs \<Rightarrow> ptr \<Rightarrow> ptr \<Rightarrow> ulong \<Rightarrow> 'a rbs option" where
  "rb_rotate_set_parents s old new color = do {
     parent \<leftarrow> rb_parent s old;
     pc \<leftarrow> get_pc s old;
     s \<leftarrow> put_pc s new pc;
     s \<leftarrow> rb_set_parent_color s old new color;
     rb_change_child s old new parent }"

section \<open>Insertion\<close>

datatype 'a ins_step =
    Ins_continue "'a rbs" ptr ptr
  | Ins_break "'a rbs"

text \<open>\<open>if(p) rb_set_parent_color(p, parent, color)\<close>\<close>

definition set_if :: "'a rbs \<Rightarrow> ptr \<Rightarrow> ptr \<Rightarrow> ulong \<Rightarrow> 'a rbs option" where
  "set_if s p parent color = (if p \<noteq> 0 then rb_set_parent_color s p parent color else Some s)"

text \<open>\<open>if(p) rb_set_parent(p, parent)\<close>\<close>

definition set_parent_if :: "'a rbs \<Rightarrow> ptr \<Rightarrow> ptr \<Rightarrow> 'a rbs option" where
  "set_parent_if s p parent = (if p \<noteq> 0 then rb_set_parent s p parent else Some s)"

text \<open>Case 2, the rotation at \<open>parent\<close>; it yields the new \<open>parent\<close> and \<open>tmp\<close>.\<close>

definition rb_insert_case2 :: "'a rotate \<Rightarrow> side \<Rightarrow> 'a rbs \<Rightarrow> ptr \<Rightarrow> ptr \<Rightarrow> ('a rbs \<times> ptr \<times> ptr) option" where
  "rb_insert_case2 rot d s node parent = do {
     tmp \<leftarrow> get_child s node d;
     s \<leftarrow> put_child s parent (other d) tmp;
     s \<leftarrow> put_child s node d parent;
     s \<leftarrow> set_if s tmp parent RB_BLACK;
     s \<leftarrow> rb_set_parent_color s parent node RB_RED;
     let s = call_rotate rot s parent node;
     tmp \<leftarrow> get_child s node (other d);
     Some (s, node, tmp) }"

definition rb_insert_case3 :: "'a rotate \<Rightarrow> side \<Rightarrow> 'a rbs \<Rightarrow> ptr \<Rightarrow> ptr \<Rightarrow> ptr \<Rightarrow> 'a rbs option" where
  "rb_insert_case3 rot d s parent gparent tmp = do {
     s \<leftarrow> put_child s gparent d tmp;
     s \<leftarrow> put_child s parent (other d) gparent;
     s \<leftarrow> set_if s tmp gparent RB_BLACK;
     s \<leftarrow> rb_rotate_set_parents s gparent parent RB_RED;
     Some (call_rotate rot s gparent parent) }"

text \<open>
  The body for a red parent that is the child on side \<open>d\<close> of \<open>gparent\<close>; \<open>tmp\<close> is the uncle.
\<close>

definition rb_insert_side :: "'a rotate \<Rightarrow> side \<Rightarrow> 'a rbs \<Rightarrow> ptr \<Rightarrow> ptr \<Rightarrow> ptr \<Rightarrow> 'a ins_step option" where
  "rb_insert_side rot d s node parent gparent = do {
     tmp \<leftarrow> get_child s gparent (other d);
     red \<leftarrow> (if tmp \<noteq> 0 then rb_is_red s tmp else Some False);
     if red then do {
       s \<leftarrow> rb_set_parent_color s tmp gparent RB_BLACK;
       s \<leftarrow> rb_set_parent_color s parent gparent RB_BLACK;
       parent \<leftarrow> rb_parent s gparent;
       s \<leftarrow> rb_set_parent_color s gparent parent RB_RED;
       Some (Ins_continue s gparent parent) }
     else do {
       tmp \<leftarrow> get_child s parent (other d);
       (s, parent, tmp) \<leftarrow> (if node = tmp then rb_insert_case2 rot d s node parent
                            else Some (s, parent, tmp));
       s \<leftarrow> rb_insert_case3 rot d s parent gparent tmp;
       Some (Ins_break s) } }"

partial_function (option) rb_insert_loop ::
  "'a rotate \<Rightarrow> 'a rbs \<Rightarrow> ptr \<Rightarrow> ptr \<Rightarrow> 'a rbs option" where
  "rb_insert_loop rot s node parent =
     (if parent = 0 then rb_set_parent_color s node 0 RB_BLACK
      else do {
        b \<leftarrow> rb_is_black s parent;
        if b then Some s
        else do {
          gparent \<leftarrow> rb_red_parent s parent;
          tmp \<leftarrow> get_child s gparent Rt;
          r \<leftarrow> rb_insert_side rot (if parent \<noteq> tmp then Lf else Rt) s node parent gparent;
          case r of
            Ins_break s \<Rightarrow> Some s
          | Ins_continue s node parent \<Rightarrow> rb_insert_loop rot s node parent } })"

definition rb_insert_augmented :: "'a rotate \<Rightarrow> 'a rbs \<Rightarrow> ptr \<Rightarrow> 'a rbs option" where
  "rb_insert_augmented rot s node = do {
     parent \<leftarrow> rb_red_parent s node;
     rb_insert_loop rot s node parent }"

definition dummy_rotate :: "'a rotate" where "dummy_rotate old new s = raug s"

definition rb_insert_color :: "'a rbs \<Rightarrow> ptr \<Rightarrow> 'a rbs option" where
  "rb_insert_color s node = rb_insert_augmented dummy_rotate s node"

section \<open>Rebalancing after an erase\<close>

datatype 'a del_step =
    Del_continue "'a rbs" ptr ptr
  | Del_break "'a rbs"

text \<open>\<open>!p || rb_is_black(p)\<close>\<close>

definition null_or_black :: "'a rbs \<Rightarrow> ptr \<Rightarrow> bool option" where
  "null_or_black s p = (if p = 0 then Some True else rb_is_black s p)"

text \<open>Case 1: a red sibling is rotated up; the result is the new sibling.\<close>

definition rb_erase_case1 :: "'a rotate \<Rightarrow> side \<Rightarrow> 'a rbs \<Rightarrow> ptr \<Rightarrow> ptr \<Rightarrow> ('a rbs \<times> ptr) option" where
  "rb_erase_case1 rot d s parent sibling = do {
     tmp1 \<leftarrow> get_child s sibling d;
     s \<leftarrow> put_child s parent (other d) tmp1;
     s \<leftarrow> put_child s sibling d parent;
     s \<leftarrow> rb_set_parent_color s tmp1 parent RB_BLACK;
     s \<leftarrow> rb_rotate_set_parents s parent sibling RB_RED;
     Some (call_rotate rot s parent sibling, tmp1) }"

text \<open>Case 2: the sibling turns red.\<close>

definition rb_erase_case2 :: "'a rbs \<Rightarrow> ptr \<Rightarrow> ptr \<Rightarrow> 'a del_step option" where
  "rb_erase_case2 s parent sibling = do {
     s \<leftarrow> rb_set_parent_color s sibling parent RB_RED;
     r \<leftarrow> rb_is_red s parent;
     if r then do { s \<leftarrow> rb_set_black s parent; Some (Del_break s) }
     else do {
       up \<leftarrow> rb_parent s parent;
       if up \<noteq> 0 then Some (Del_continue s parent up) else Some (Del_break s) } }"

text \<open>Case 3: the near nephew \<open>tmp2\<close> is rotated up over the sibling.\<close>

definition rb_erase_case3 :: "'a rotate \<Rightarrow> side \<Rightarrow> 'a rbs \<Rightarrow> ptr \<Rightarrow> ptr \<Rightarrow> ptr \<Rightarrow> 'a rbs option" where
  "rb_erase_case3 rot d s parent sibling tmp2 = do {
     tmp1 \<leftarrow> get_child s tmp2 (other d);
     s \<leftarrow> put_child s sibling d tmp1;
     s \<leftarrow> put_child s tmp2 (other d) sibling;
     s \<leftarrow> put_child s parent (other d) tmp2;
     s \<leftarrow> set_if s tmp1 sibling RB_BLACK;
     Some (call_rotate rot s sibling tmp2) }"

text \<open>Case 4: the sibling is rotated up over the parent.\<close>

definition rb_erase_case4 :: "'a rotate \<Rightarrow> side \<Rightarrow> 'a rbs \<Rightarrow> ptr \<Rightarrow> ptr \<Rightarrow> ptr \<Rightarrow> 'a rbs option" where
  "rb_erase_case4 rot d s parent sibling tmp1 = do {
     tmp2 \<leftarrow> get_child s sibling d;
     s \<leftarrow> put_child s parent (other d) tmp2;
     s \<leftarrow> put_child s sibling d parent;
     s \<leftarrow> rb_set_parent_color s tmp1 sibling RB_BLACK;
     s \<leftarrow> set_parent_if s tmp2 parent;
     s \<leftarrow> rb_rotate_set_parents s parent sibling RB_BLACK;
     Some (call_rotate rot s parent sibling) }"

text \<open>From the test of \<open>tmp1\<close> on, with a black sibling.\<close>

definition rb_erase_black_sibling :: "'a rotate \<Rightarrow> side \<Rightarrow> 'a rbs \<Rightarrow> ptr \<Rightarrow> ptr \<Rightarrow> 'a del_step option" where
  "rb_erase_black_sibling rot d s parent sibling = do {
     tmp1 \<leftarrow> get_child s sibling (other d);
     b1 \<leftarrow> null_or_black s tmp1;
     if b1 then do {
       tmp2 \<leftarrow> get_child s sibling d;
       b2 \<leftarrow> null_or_black s tmp2;
       if b2 then rb_erase_case2 s parent sibling
       else do {
         s \<leftarrow> rb_erase_case3 rot d s parent sibling tmp2;
         s \<leftarrow> rb_erase_case4 rot d s parent tmp2 sibling;
         Some (Del_break s) } }
     else do {
       s \<leftarrow> rb_erase_case4 rot d s parent sibling tmp1;
       Some (Del_break s) } }"

definition rb_erase_side :: "'a rotate \<Rightarrow> side \<Rightarrow> 'a rbs \<Rightarrow> ptr \<Rightarrow> 'a del_step option" where
  "rb_erase_side rot d s parent = do {
     sibling \<leftarrow> get_child s parent (other d);
     red \<leftarrow> rb_is_red s sibling;
     (s, sibling) \<leftarrow> (if red then rb_erase_case1 rot d s parent sibling else Some (s, sibling));
     rb_erase_black_sibling rot d s parent sibling }"

partial_function (option) rb_erase_color_loop ::
  "'a rotate \<Rightarrow> 'a rbs \<Rightarrow> ptr \<Rightarrow> ptr \<Rightarrow> 'a rbs option" where
  "rb_erase_color_loop rot s node parent = do {
     sibling \<leftarrow> get_child s parent Rt;
     r \<leftarrow> rb_erase_side rot (if node \<noteq> sibling then Lf else Rt) s parent;
     case r of
       Del_break s \<Rightarrow> Some s
     | Del_continue s node parent \<Rightarrow> rb_erase_color_loop rot s node parent }"

definition rb_erase_color :: "'a rotate \<Rightarrow> 'a rbs \<Rightarrow> ptr \<Rightarrow> 'a rbs option" where
  "rb_erase_color rot s parent = rb_erase_color_loop rot s 0 parent"

section \<open>Unlinking a node\<close>

record 'a rb_augment_callbacks =
  cb_propagate :: "ptr \<Rightarrow> ptr \<Rightarrow> 'a rbs \<Rightarrow> 'a"
  cb_copy :: "ptr \<Rightarrow> ptr \<Rightarrow> 'a rbs \<Rightarrow> 'a"
  cb_rotate :: "'a rotate"

definition dummy_callbacks :: "'a rb_augment_callbacks" where
  "dummy_callbacks = \<lparr>cb_propagate = (\<lambda>_ _ s. raug s), cb_copy = (\<lambda>_ _ s. raug s), cb_rotate = dummy_rotate\<rparr>"

definition call_propagate :: "'a rb_augment_callbacks \<Rightarrow> 'a rbs \<Rightarrow> ptr \<Rightarrow> ptr \<Rightarrow> 'a rbs" where
  "call_propagate cb s node stop = s\<lparr>raug := cb_propagate cb node stop s\<rparr>"

definition call_copy :: "'a rb_augment_callbacks \<Rightarrow> 'a rbs \<Rightarrow> ptr \<Rightarrow> ptr \<Rightarrow> 'a rbs" where
  "call_copy cb s old new = s\<lparr>raug := cb_copy cb old new s\<rparr>"

text \<open>
  The \<open>do ... while\<close> that looks for the successor under the right child:
  \<open>(parent, successor)\<close> from \<open>successor\<close> and \<open>tmp\<close>.
\<close>

partial_function (option) find_successor :: "'a rbs \<Rightarrow> ptr \<Rightarrow> ptr \<Rightarrow> (ptr \<times> ptr) option" where
  "find_successor s successor tmp = do {
     tmp' \<leftarrow> get_child s tmp Lf;
     if tmp' \<noteq> 0 then find_successor s tmp tmp' else Some (successor, tmp) }"

text \<open>The first part: the successor is found and its right subtree takes its place.\<close>

definition detach_successor :: "'a rb_augment_callbacks \<Rightarrow> 'a rbs \<Rightarrow> ptr \<Rightarrow> ptr
   \<Rightarrow> ('a rbs \<times> ptr \<times> ptr \<times> ptr) option" where
  "detach_successor cb s node child = do {
     tmp \<leftarrow> get_child s child Lf;
     if tmp = 0 then do {
       child2 \<leftarrow> get_child s child Rt;
       Some (call_copy cb s node child, child, child, child2) }
     else do {
       (parent, successor) \<leftarrow> find_successor s child tmp;
       child2 \<leftarrow> get_child s successor Rt;
       s \<leftarrow> put_child s parent Lf child2;
       s \<leftarrow> put_child s successor Rt child;
       s \<leftarrow> rb_set_parent s child successor;
       let s = call_copy cb s node successor;
       Some (call_propagate cb s parent successor, parent, successor, child2) } }"

text \<open>Both children present: the result is the state, the node to rebalance at, and the successor.\<close>

definition rb_erase_two :: "'a rb_augment_callbacks \<Rightarrow> 'a rbs \<Rightarrow> ptr \<Rightarrow> ptr \<Rightarrow> ('a rbs \<times> ptr \<times> ptr) option" where
  "rb_erase_two cb s node child = do {
     (s, parent, successor, child2) \<leftarrow> detach_successor cb s node child;
     tmp \<leftarrow> get_child s node Lf;
     s \<leftarrow> put_child s successor Lf tmp;
     s \<leftarrow> rb_set_parent s tmp successor;
     pc \<leftarrow> get_pc s node;
     s \<leftarrow> rb_change_child s node successor (rb_parent_pc pc);
     if child2 \<noteq> 0 then do {
       s \<leftarrow> put_pc s successor pc;
       s \<leftarrow> rb_set_parent_color s child2 parent RB_BLACK;
       Some (s, 0, successor) }
     else do {
       pc2 \<leftarrow> get_pc s successor;
       s \<leftarrow> put_pc s successor pc;
       Some (s, if rb_color_pc pc2 \<noteq> 0 then parent else 0, successor) } }"

definition rb_erase_node :: "'a rb_augment_callbacks \<Rightarrow> 'a rbs \<Rightarrow> ptr \<Rightarrow> ('a rbs \<times> ptr) option" where
  "rb_erase_node cb s node = do {
     child \<leftarrow> get_child s node Rt;
     tmp \<leftarrow> get_child s node Lf;
     (s, rebalance, tmp) \<leftarrow>
       (if tmp = 0 then do {
          pc \<leftarrow> get_pc s node;
          let parent = rb_parent_pc pc;
          s \<leftarrow> rb_change_child s node child parent;
          if child \<noteq> 0 then do { s \<leftarrow> put_pc s child pc; Some (s, 0, parent) }
          else Some (s, if rb_color_pc pc \<noteq> 0 then parent else 0, parent) }
        else if child = 0 then do {
          pc \<leftarrow> get_pc s node;
          s \<leftarrow> put_pc s tmp pc;
          let parent = rb_parent_pc pc;
          s \<leftarrow> rb_change_child s node tmp parent;
          Some (s, 0, parent) }
        else rb_erase_two cb s node child);
     Some (call_propagate cb s tmp 0, rebalance) }"

definition rb_erase_augmented :: "'a rb_augment_callbacks \<Rightarrow> 'a rbs \<Rightarrow> ptr \<Rightarrow> 'a rbs option" where
  "rb_erase_augmented cb s node = do {
     (s, rebalance) \<leftarrow> rb_erase_node cb s node;
     if rebalance \<noteq> 0 then rb_erase_color (cb_rotate cb) s rebalance else Some s }"

definition rb_erase :: "'a rbs \<Rightarrow> ptr \<Rightarrow> 'a rbs option" where
  "rb_erase s node = rb_erase_augmented dummy_callbacks s node"

section \<open>Traversal and replacement\<close>

text \<open>\<open>while(n->child) n = n->child\<close> and the loop that climbs while it comes from side \<open>d\<close>.\<close>

partial_function (option) descend :: "'a rbs \<Rightarrow> side \<Rightarrow> ptr \<Rightarrow> ptr option" where
  "descend s d n = do { c \<leftarrow> get_child s n d; if c \<noteq> 0 then descend s d c else Some n }"

partial_function (option) climb :: "'a rbs \<Rightarrow> side \<Rightarrow> ptr \<Rightarrow> ptr option" where
  "climb s d node = do {
     parent \<leftarrow> rb_parent s node;
     if parent \<noteq> 0 then do {
       c \<leftarrow> get_child s parent d;
       if node = c then climb s d parent else Some parent }
     else Some parent }"

definition rb_end :: "side \<Rightarrow> 'a rbs \<Rightarrow> ptr option" where
  "rb_end d s = (if rroot s = 0 then Some 0 else descend s d (rroot s))"

definition rb_first :: "'a rbs \<Rightarrow> ptr option" where "rb_first s = rb_end Lf s"
definition rb_last :: "'a rbs \<Rightarrow> ptr option" where "rb_last s = rb_end Rt s"

definition rb_step :: "side \<Rightarrow> 'a rbs \<Rightarrow> ptr \<Rightarrow> ptr option" where
  "rb_step d s node = do {
     e \<leftarrow> RB_EMPTY_NODE s node;
     if e then Some 0
     else do {
       c \<leftarrow> get_child s node d;
       if c \<noteq> 0 then descend s (other d) c else climb s d node } }"

definition rb_next :: "'a rbs \<Rightarrow> ptr \<Rightarrow> ptr option" where "rb_next s node = rb_step Rt s node"
definition rb_prev :: "'a rbs \<Rightarrow> ptr \<Rightarrow> ptr option" where "rb_prev s node = rb_step Lf s node"

definition rb_replace_node :: "'a rbs \<Rightarrow> ptr \<Rightarrow> ptr \<Rightarrow> 'a rbs option" where
  "rb_replace_node s victim new = do {
     parent \<leftarrow> rb_parent s victim;
     s \<leftarrow> rb_change_child s victim new parent;
     l \<leftarrow> get_child s victim Lf;
     s \<leftarrow> set_parent_if s l new;
     r \<leftarrow> get_child s victim Rt;
     s \<leftarrow> set_parent_if s r new;
     n \<leftarrow> rheap s victim;
     if rheap s new = None then None else Some (s\<lparr>rheap := (rheap s)(new \<mapsto> n)\<rparr>) }"

partial_function (option) rb_left_deepest_node :: "'a rbs \<Rightarrow> ptr \<Rightarrow> ptr option" where
  "rb_left_deepest_node s node = do {
     l \<leftarrow> get_child s node Lf;
     if l \<noteq> 0 then rb_left_deepest_node s l
     else do {
       r \<leftarrow> get_child s node Rt;
       if r \<noteq> 0 then rb_left_deepest_node s r else Some node } }"

definition rb_next_postorder :: "'a rbs \<Rightarrow> ptr \<Rightarrow> ptr option" where
  "rb_next_postorder s node =
     (if node = 0 then Some 0
      else do {
        parent \<leftarrow> rb_parent s node;
        if parent \<noteq> 0 then do {
          l \<leftarrow> get_child s parent Lf;
          r \<leftarrow> get_child s parent Rt;
          if node = l \<and> r \<noteq> 0 then rb_left_deepest_node s r else Some parent }
        else Some parent })"

definition rb_first_postorder :: "'a rbs \<Rightarrow> ptr option" where
  "rb_first_postorder s = (if rroot s = 0 then Some 0 else rb_left_deepest_node s (rroot s))"

end
