(* ===== verification/RbTrees.thy ===== *)
theory RbTrees
  imports RbTree
begin

text \<open>
  The trees that the pointer structures of \<open>rbtree.c\<close> stand for: the red-black invariant, trees
  with a hole (a focus and the path above it), and what the two rebalancing loops compute on
  them. Everything here is about ghost data; that the code computes it is shown in the theories
  that follow.
\<close>

section \<open>Trees\<close>

datatype color = Red | Black

lemma color_neq [simp]: "c \<noteq> Red \<longleftrightarrow> c = Black" "c \<noteq> Black \<longleftrightarrow> c = Red"
  by (cases c; simp)+

datatype tree = Tip | Node color tree ptr tree

fun nd :: "side \<Rightarrow> color \<Rightarrow> tree \<Rightarrow> ptr \<Rightarrow> tree \<Rightarrow> tree" where
  "nd Lf c a x b = Node c a x b"
| "nd Rt c a x b = Node c b x a"

fun col :: "tree \<Rightarrow> color" where
  "col Tip = Black"
| "col (Node c l x r) = c"

fun rptr :: "tree \<Rightarrow> ptr" where
  "rptr Tip = 0"
| "rptr (Node c l x r) = x"

fun inorder :: "tree \<Rightarrow> ptr list" where
  "inorder Tip = []"
| "inorder (Node c l x r) = inorder l @ x # inorder r"

definition ptrs :: "tree \<Rightarrow> ptr set" where "ptrs t = set (inorder t)"

fun paint :: "color \<Rightarrow> tree \<Rightarrow> tree" where
  "paint c Tip = Tip"
| "paint c (Node c' l x r) = Node c l x r"

lemma nd_simps [simp]:
  "col (nd d c a x b) = c" "rptr (nd d c a x b) = x" "nd (other d) c a x b = nd d c b x a"
  "nd d c a x b \<noteq> Tip" "paint c' (nd d c a x b) = nd d c' a x b"
  by (cases d; simp)+

lemma nd_inject [simp]: "nd d c a x b = nd d c' a' x' b' \<longleftrightarrow> c = c' \<and> a = a' \<and> x = x' \<and> b = b'"
  by (cases d) auto

lemma nd_cases: obtains "t = Tip" | c a x b where "t = nd d c a x b"
  by (cases t; cases d) (auto intro: that)

lemma inorder_paint [simp]: "inorder (paint c t) = inorder t"
  by (cases t) auto

lemma rptr_paint [simp]: "rptr (paint c t) = rptr t"
  by (cases t) auto

lemma ptrs_simps [simp]:
  "ptrs Tip = {}" "ptrs (Node c l x r) = insert x (ptrs l \<union> ptrs r)"
  "ptrs (nd d c a x b) = insert x (ptrs a \<union> ptrs b)" "ptrs (paint c t) = ptrs t"
  by (cases d; auto simp: ptrs_def)+

section \<open>The red-black invariant\<close>

text \<open>\<open>rbh n t\<close>: the children of a red node are black, and \<open>n\<close> black nodes lie on every path.\<close>

fun rbh :: "nat \<Rightarrow> tree \<Rightarrow> bool" where
  "rbh n Tip \<longleftrightarrow> n = 0"
| "rbh n (Node c l x r) \<longleftrightarrow>
     (case c of
        Red \<Rightarrow> col l = Black \<and> col r = Black \<and> rbh n l \<and> rbh n r
      | Black \<Rightarrow> 0 < n \<and> rbh (n - 1) l \<and> rbh (n - 1) r)"

definition rbt :: "tree \<Rightarrow> bool" where
  "rbt t \<longleftrightarrow> col t = Black \<and> (\<exists>n. rbh n t)"

lemma rbh_nd [simp]:
  "rbh n (nd d Red a x b) \<longleftrightarrow> col a = Black \<and> col b = Black \<and> rbh n a \<and> rbh n b"
  "rbh n (nd d Black a x b) \<longleftrightarrow> 0 < n \<and> rbh (n - 1) a \<and> rbh (n - 1) b"
  by (cases d; auto)+

lemma rbh_paint_black: "rbh n t \<Longrightarrow> col t = Red \<Longrightarrow> rbh (Suc n) (paint Black t)"
  by (cases t) auto

lemma col_paint [simp]: "col (paint Black t) = Black"
  by (cases t) auto

section \<open>Trees with a hole\<close>

text \<open>\<open>Fr d c x t\<close>: the hole is the child on side \<open>d\<close> of a node at \<open>x\<close> whose other child is \<open>t\<close>.\<close>

datatype frame = Fr side color ptr tree

fun plug :: "frame list \<Rightarrow> tree \<Rightarrow> tree" where
  "plug [] t = t"
| "plug (Fr d c x u # fs) t = plug fs (nd d c t x u)"

fun par :: "frame list \<Rightarrow> ptr" where
  "par [] = 0"
| "par (Fr d c x u # fs) = x"

fun fptrs :: "frame list \<Rightarrow> ptr set" where
  "fptrs [] = {}"
| "fptrs (Fr d c x u # fs) = insert x (ptrs u \<union> fptrs fs)"

fun before :: "frame list \<Rightarrow> ptr list" where
  "before [] = []"
| "before (Fr d c x u # fs) = before fs @ (case d of Lf \<Rightarrow> [] | Rt \<Rightarrow> inorder u @ [x])"

fun after :: "frame list \<Rightarrow> ptr list" where
  "after [] = []"
| "after (Fr d c x u # fs) = (case d of Lf \<Rightarrow> x # inorder u | Rt \<Rightarrow> []) @ after fs"

lemma inorder_plug: "inorder (plug fs t) = before fs @ inorder t @ after fs"
proof (induction fs arbitrary: t)
  case (Cons f fs)
  then show ?case by (cases f) (auto split: side.splits)
qed simp

lemma fptrs_before_after: "fptrs fs = set (before fs) \<union> set (after fs)"
proof (induction fs)
  case (Cons f fs)
  obtain d c x u where f: "f = Fr d c x u" by (cases f)
  show ?case using Cons.IH by (cases d) (simp_all add: f ptrs_def Un_ac)
qed simp

lemma ptrs_plug [simp]: "ptrs (plug fs t) = ptrs t \<union> fptrs fs"
  by (auto simp: ptrs_def inorder_plug fptrs_before_after)

lemma plug_append [simp]: "plug (fs @ gs) t = plug gs (plug fs t)"
proof (induction fs arbitrary: t)
  case (Cons f fs)
  then show ?case by (cases f) auto
qed simp

text \<open>No pointer twice; the form in which the pieces of a tree are apart.\<close>

fun apart :: "tree \<Rightarrow> bool" where
  "apart Tip = True"
| "apart (Node c l x r) \<longleftrightarrow> x \<notin> ptrs l \<and> x \<notin> ptrs r \<and> ptrs l \<inter> ptrs r = {} \<and> apart l \<and> apart r"

fun fapart :: "frame list \<Rightarrow> bool" where
  "fapart [] = True"
| "fapart (Fr d c x u # fs) \<longleftrightarrow> x \<notin> ptrs u \<and> x \<notin> fptrs fs \<and> ptrs u \<inter> fptrs fs = {} \<and> apart u \<and> fapart fs"

lemma apart_nd [simp]: "apart (nd d c a x b) \<longleftrightarrow>
    x \<notin> ptrs a \<and> x \<notin> ptrs b \<and> ptrs a \<inter> ptrs b = {} \<and> apart a \<and> apart b"
  by (cases d) auto

lemma apart_paint [simp]: "apart (paint c t) = apart t"
  by (cases t) auto

lemma apart_distinct: "apart t \<longleftrightarrow> distinct (inorder t)"
  by (induction t) (auto simp: ptrs_def)

lemma apart_plug: "apart (plug fs t) \<longleftrightarrow> apart t \<and> fapart fs \<and> ptrs t \<inter> fptrs fs = {}"
proof (induction fs arbitrary: t)
  case (Cons f fs)
  then show ?case by (cases f) auto
qed simp

text \<open>
  A hole that takes a tree of black height \<open>n\<close>. Above the root there is, as it were, a red
  node: what is put there must be black.
\<close>

fun topc :: "frame list \<Rightarrow> color" where
  "topc [] = Red"
| "topc (Fr d c x u # fs) = c"

fun hole :: "nat \<Rightarrow> frame list \<Rightarrow> bool" where
  "hole n [] = True"
| "hole n (Fr d c x u # fs) \<longleftrightarrow> rbh n u \<and>
     (case c of
        Red \<Rightarrow> col u = Black \<and> topc fs = Black \<and> hole n fs
      | Black \<Rightarrow> hole (Suc n) fs)"

lemma rbt_plug:
  "rbt (plug fs t) \<longleftrightarrow> (\<exists>n. hole n fs \<and> rbh n t \<and> (topc fs = Red \<longrightarrow> col t = Black))"
proof (induction fs arbitrary: t)
  case Nil
  then show ?case by (auto simp: rbt_def)
next
  case (Cons f fs)
  obtain d c x u where f: "f = Fr d c x u" by (cases f)
  show ?case
  proof (cases c)
    case Red
    then show ?thesis by (auto simp: f Cons.IH)
  next
    case Black
    have "rbh n (nd d Black t x u) \<longleftrightarrow> (\<exists>m. n = Suc m \<and> rbh m t \<and> rbh m u)" for n
      by (cases n) auto
    then show ?thesis using Black by (auto simp: f Cons.IH)
  qed
qed

section \<open>Insertion: the tree the loop computes\<close>

fun ins_fix :: "frame list \<Rightarrow> tree \<Rightarrow> tree" where
  "ins_fix [] t = paint Black t"
| "ins_fix (Fr d Black x u # fs) t = plug (Fr d Black x u # fs) t"
| "ins_fix (Fr d' Red p s # Fr d c g u # fs) t =
     (if col u = Red then ins_fix fs (nd d Red (nd d' Black t p s) g (paint Black u))
      else plug fs
        (if d' = d then nd d Black t p (nd d Red s g u)
         else case t of
             Tip \<Rightarrow> Tip
           | Node _ l x r \<Rightarrow>
               let a = (if d = Lf then l else r); b = (if d = Lf then r else l)
               in nd d Black (nd d Red s p a) x (nd d Red b g u)))"
| "ins_fix [Fr d Red x u] t = plug [Fr d Red x u] t"

lemma ins_fix_rot2: "d' \<noteq> d \<Longrightarrow> col u \<noteq> Red \<Longrightarrow>
   ins_fix (Fr d' Red p s # Fr d c g u # fs) (nd d c' a x b)
   = plug fs (nd d Black (nd d Red s p a) x (nd d Red b g u))"
  by (cases d) (simp_all add: Let_def)

lemma side_other: "d' \<noteq> d \<Longrightarrow> d' = other d"
  by (cases d; cases d') auto

lemma inorder_nd: "inorder (nd d c a x b) = (case d of Lf \<Rightarrow> inorder a @ x # inorder b | Rt \<Rightarrow> inorder b @ x # inorder a)"
  by (cases d) auto

lemma inorder_ins_fix: "t \<noteq> Tip \<Longrightarrow> inorder (ins_fix fs t) = inorder (plug fs t)"
proof (induction fs t rule: ins_fix.induct)
  case (3 d' p s d c g u fs t)
  consider "col u = Red" | "col u \<noteq> Red" "d' = d" | "col u \<noteq> Red" "d' = other d"
    using side_other by blast
  then show ?case
  proof cases
    case 1
    then show ?thesis using 3 by (simp add: inorder_plug inorder_nd split: side.splits)
  next
    case 2
    then show ?thesis by (simp add: inorder_plug inorder_nd split: side.splits)
  next
    case c3: 3
    obtain c' a x b where t: "t = nd d c' a x b" using "3.prems" by (rule_tac t = t and d = d in nd_cases) auto
    show ?thesis unfolding t ins_fix_rot2 [OF other_neq(1) c3(1), of d, folded c3(2)]
      using c3 by (simp add: inorder_plug inorder_nd split: side.splits)
  qed
qed simp_all

lemma rbt_ins_fix: "hole n fs \<Longrightarrow> rbh n t \<Longrightarrow> col t = Red \<Longrightarrow> rbt (ins_fix fs t)"
proof (induction fs t arbitrary: n rule: ins_fix.induct)
  case (1 t)
  then show ?case using rbh_paint_black by (auto simp: rbt_def)
next
  case (2 d x u fs t)
  then show ?case using rbt_plug [of "Fr d Black x u # fs" t] by auto
next
  case (3 d' p s d c g u fs t)
  have c: "c = Black" using "3.prems" by simp
  consider "col u = Red" | "col u \<noteq> Red" "d' = d" | "col u \<noteq> Red" "d' = other d"
    using side_other by blast
  then show ?case
  proof cases
    case 1
    then show ?thesis using 3 c rbh_paint_black [of n u] by (auto intro!: "3.IH" [of "Suc n"])
  next
    case 2
    have "col u = Black" using 2 by (cases "col u") auto
    with 2 show ?thesis using "3.prems" c by (auto simp: rbt_plug intro!: exI [of _ "Suc n"])
  next
    case c3: 3
    have u: "col u = Black" using c3 by (cases "col u") auto
    obtain c' a x b where t: "t = nd d c' a x b" using "3.prems" by (rule_tac t = t and d = d in nd_cases) auto
    have "c' = Red" using "3.prems"(3) t by simp
    with u show ?thesis unfolding t ins_fix_rot2 [OF other_neq(1) c3(1), of d, folded c3(2)]
      using "3.prems" c t by (auto simp: rbt_plug intro!: exI [of _ "Suc n"])
  qed
qed simp

end
