(* ===== verification/RbHeap.thy ===== *)
theory RbHeap
  imports RbTrees
begin

text \<open>
  When a heap holds a ghost tree: \<open>tree_at\<close> for a whole subtree under a given parent,
  \<open>ctx_at\<close> for the path above a hole, and how single stores change them.
\<close>

section \<open>The word that holds parent and colour\<close>

definition aligned :: "ptr \<Rightarrow> bool" where "aligned p \<longleftrightarrow> p AND 3 = 0"

fun colw :: "color \<Rightarrow> ulong" where
  "colw Red = 0"
| "colw Black = 1"

lemma aligned_0 [simp]: "aligned 0"
  by (simp add: aligned_def)

lemma aligned_bits: "aligned p \<Longrightarrow> \<not> bit p 0 \<and> \<not> bit p 1"
proof -
  assume "aligned p"
  then have "bit (p AND 3) n = False" for n by (simp add: aligned_def)
  from this [of 0] this [of 1] show ?thesis
    by (simp add: bit_and_iff bit_numeral_rec bit_1_iff)
qed

lemma rb_parent_pc_colw [simp]: "aligned p \<Longrightarrow> rb_parent_pc (p OR colw c) = p"
proof -
  assume p: "aligned p"
  have "bit ((p OR colw c) AND NOT 3) n = bit p n" if "n < LENGTH(64)" for n
    using aligned_bits [OF p] that
    by (cases c; cases n; cases "n - 1")
      (auto simp: bit_and_iff bit_or_iff bit_not_iff bit_1_iff bit_numeral_rec)
  then show ?thesis unfolding rb_parent_pc_def by (intro bit_word_eqI) auto
qed

lemma rb_color_pc_colw [simp]: "aligned p \<Longrightarrow> rb_color_pc (p OR colw c) = colw c"
proof -
  assume p: "aligned p"
  have "bit ((p OR colw c) AND 1) n = bit (colw c) n" if "n < LENGTH(64)" for n
    using aligned_bits [OF p] by (cases c; cases n) (auto simp: bit_and_iff bit_or_iff bit_1_iff)
  then show ?thesis unfolding rb_color_pc_def by (intro bit_word_eqI) auto
qed

lemma colw_neq_0 [simp]: "colw c \<noteq> 0 \<longleftrightarrow> c = Black" "colw c = 0 \<longleftrightarrow> c = Red"
  by (cases c; simp)+

lemma colw_or_1 [simp]: "p OR colw c OR 1 = p OR colw Black" "(p OR colw c) OR 1 = p OR colw Black"
  by (cases c; simp add: or.assoc)+

lemma colw_commute [simp]: "colw c OR p = p OR colw c"
  by (rule or.commute)

lemma RB_colw: "RB_RED = colw Red" "RB_BLACK = colw Black"
  by (simp_all add: RB_RED_def RB_BLACK_def)

lemma pc_not_self: "aligned p \<Longrightarrow> aligned x \<Longrightarrow> p \<noteq> x \<Longrightarrow> p OR colw c \<noteq> x"
proof
  assume "aligned p" "aligned x" "p \<noteq> x" "p OR colw c = x"
  then show False
    using aligned_bits [of x] by (cases c) (auto simp: bit_or_iff bit_1_iff)
qed

lemma colw_Red [simp]: "p OR colw Red = p"
  by simp

lemma rb_pc_aligned [simp]: "aligned p \<Longrightarrow> rb_parent_pc p = p" "aligned p \<Longrightarrow> rb_color_pc p = 0"
  using rb_parent_pc_colw [of p Red] rb_color_pc_colw [of p Red] by simp_all

lemma rb_pc_root [simp]: "rb_parent_pc (colw c) = 0" "rb_color_pc (colw c) = colw c"
  using rb_parent_pc_colw [of 0 c] rb_color_pc_colw [of 0 c] by simp_all

declare colw.simps [simp del] RB_colw [simp]

section \<open>Nodes by side\<close>

definition mk :: "ulong \<Rightarrow> side \<Rightarrow> ptr \<Rightarrow> ptr \<Rightarrow> rb_node" where
  "mk pc d a b = \<lparr>parent_color = pc, rb_right = (if d = Lf then b else a), rb_left = (if d = Lf then a else b)\<rparr>"

lemma mk_simps [simp]:
  "parent_color (mk pc d a b) = pc" "child_of d (mk pc d a b) = a" "child_of (other d) (mk pc d a b) = b"
  "set_child_of d v (mk pc d a b) = mk pc d v b" "set_child_of (other d) v (mk pc d a b) = mk pc d a v"
  "(mk pc d a b)\<lparr>parent_color := v\<rparr> = mk v d a b" "mk pc (other d) a b = mk pc d b a"
  "rb_left (mk pc Lf a b) = a" "rb_right (mk pc Lf a b) = b"
  by (cases d; simp add: mk_def)+

lemma mk_Rt: "mk pc Rt a b = mk pc Lf b a"
  by (simp add: mk_def)

lemma mk_eq [simp]: "mk pc d a b = mk pc' d a' b' \<longleftrightarrow> pc = pc' \<and> a = a' \<and> b = b'"
  by (cases d) (auto simp: mk_def)

fun tree_at :: "(ptr \<rightharpoonup> rb_node) \<Rightarrow> ptr \<Rightarrow> tree \<Rightarrow> bool" where
  "tree_at h p Tip = True"
| "tree_at h p (Node c l x r) \<longleftrightarrow> x \<noteq> 0 \<and> aligned x \<and> h x = Some (mk (p OR colw c) Lf (rptr l) (rptr r))
     \<and> tree_at h x l \<and> tree_at h x r"

lemma tree_at_nd [simp]:
  "tree_at h p (nd d c a x b) \<longleftrightarrow> x \<noteq> 0 \<and> aligned x \<and> h x = Some (mk (p OR colw c) d (rptr a) (rptr b))
     \<and> tree_at h x a \<and> tree_at h x b"
  by (cases d) (auto simp: mk_Rt)

fun ctx_at :: "(ptr \<rightharpoonup> rb_node) \<Rightarrow> ptr \<Rightarrow> ptr \<Rightarrow> frame list \<Rightarrow> bool" where
  "ctx_at h root p [] \<longleftrightarrow> root = p"
| "ctx_at h root p (Fr d c x u # fs) \<longleftrightarrow> x \<noteq> 0 \<and> aligned x
     \<and> h x = Some (mk (par fs OR colw c) d p (rptr u)) \<and> tree_at h x u \<and> ctx_at h root x fs"

lemma tree_at_plug: "tree_at h 0 (plug fs t) \<and> rptr (plug fs t) = root
   \<longleftrightarrow> tree_at h (par fs) t \<and> ctx_at h root (rptr t) fs"
proof (induction fs arbitrary: t)
  case (Cons f fs)
  then show ?case by (cases f) auto
qed auto

lemma rptr_ptrs: "t \<noteq> Tip \<Longrightarrow> rptr t \<in> ptrs t"
  by (cases t) auto

lemma tree_at_0: "tree_at h p t \<Longrightarrow> 0 \<notin> ptrs t"
  by (induction t arbitrary: p) auto

lemma tree_at_aligned: "tree_at h p t \<Longrightarrow> x \<in> ptrs t \<Longrightarrow> aligned x"
  by (induction t arbitrary: p) auto

lemma rptr_0: "tree_at h p t \<Longrightarrow> rptr t = 0 \<longleftrightarrow> t = Tip"
  by (cases t) auto

lemma ctx_at_0: "ctx_at h root p fs \<Longrightarrow> 0 \<notin> fptrs fs"
  by (induction h root p fs rule: ctx_at.induct) (auto dest: tree_at_0)

lemma ctx_at_par: "ctx_at h root p fs \<Longrightarrow> aligned (par fs)"
  by (cases "(h, root, p, fs)" rule: ctx_at.cases) auto

lemma par_0: "ctx_at h root p fs \<Longrightarrow> par fs = 0 \<longleftrightarrow> fs = []"
  by (cases "(h, root, p, fs)" rule: ctx_at.cases) auto

lemma par_fptrs: "fs \<noteq> [] \<Longrightarrow> par fs \<in> fptrs fs"
  by (cases fs rule: par.cases) auto

text \<open>A store elsewhere does not matter.\<close>

lemma tree_at_upd [simp]: "x \<notin> ptrs t \<Longrightarrow> tree_at (h(x \<mapsto> n)) p t = tree_at h p t"
  by (induction t arbitrary: p) auto

lemma tree_at_cong: "(\<And>x. x \<in> ptrs t \<Longrightarrow> h' x = h x) \<Longrightarrow> tree_at h' p t = tree_at h p t"
  by (induction t arbitrary: p) auto

lemma ctx_at_upd [simp]: "x \<notin> fptrs fs \<Longrightarrow> ctx_at (h(x \<mapsto> n)) root p fs = ctx_at h root p fs"
  by (induction h root p fs rule: ctx_at.induct) auto

lemma ctx_at_cong: "(\<And>x. x \<in> fptrs fs \<Longrightarrow> h' x = h x) \<Longrightarrow> ctx_at h' root p fs = ctx_at h root p fs"
proof (induction h root p fs rule: ctx_at.induct)
  case (2 h root p d c x u fs)
  then show ?case using tree_at_cong [of u h' h x] by auto
qed simp

lemma tree_at_heap: "tree_at h p t \<Longrightarrow> x \<in> ptrs t \<Longrightarrow> h x \<noteq> None"
  by (induction t arbitrary: p) auto

lemma ctx_at_heap: "ctx_at h root p fs \<Longrightarrow> x \<in> fptrs fs \<Longrightarrow> h x \<noteq> None"
  by (induction h root p fs rule: ctx_at.induct) (auto dest: tree_at_heap)

section \<open>Loads and stores on known nodes\<close>

lemma load_simps [run_simps]:
  "rheap s x = Some n \<Longrightarrow> get_child s x d = Some (child_of d n)"
  "rheap s x = Some n \<Longrightarrow> get_pc s x = Some (parent_color n)"
  "rheap s x = Some n \<Longrightarrow> put_child s x d v = Some (s\<lparr>rheap := (rheap s)(x \<mapsto> set_child_of d v n)\<rparr>)"
  "rheap s x = Some n \<Longrightarrow> put_pc s x v = Some (s\<lparr>rheap := (rheap s)(x \<mapsto> n\<lparr>parent_color := v\<rparr>)\<rparr>)"
  "rheap s x = Some n \<Longrightarrow> rb_parent s x = Some (rb_parent_pc (parent_color n))"
  "rheap s x = Some n \<Longrightarrow> rb_red_parent s x = Some (parent_color n)"
  "rheap s x = Some n \<Longrightarrow> rb_is_red s x = Some (rb_color_pc (parent_color n) = 0)"
  "rheap s x = Some n \<Longrightarrow> rb_is_black s x = Some (rb_color_pc (parent_color n) \<noteq> 0)"
  "rheap s x = Some n \<Longrightarrow> rb_set_parent_color s x p c = Some (s\<lparr>rheap := (rheap s)(x \<mapsto> n\<lparr>parent_color := p OR c\<rparr>)\<rparr>)"
  "rheap s x = Some n \<Longrightarrow> rb_set_parent s x p = Some (s\<lparr>rheap := (rheap s)(x \<mapsto> n\<lparr>parent_color := rb_color_pc (parent_color n) OR p\<rparr>)\<rparr>)"
  "rheap s x = Some n \<Longrightarrow> rb_set_black s x = Some (s\<lparr>rheap := (rheap s)(x \<mapsto> n\<lparr>parent_color := parent_color n OR RB_BLACK\<rparr>)\<rparr>)"
  by (simp_all add: get_child_def get_pc_def put_child_def put_pc_def rb_parent_def rb_red_parent_def
      rb_is_red_def rb_is_black_def rb_set_parent_color_def rb_set_parent_def rb_set_black_def)

lemma rotate_fields [simp]:
  "rheap (call_rotate rot s o' n') = rheap s" "rroot (call_rotate rot s o' n') = rroot s"
  by (simp_all add: call_rotate_def)

text \<open>\<open>__rb_change_child\<close> plugs another pointer into the hole.\<close>

lemma rb_change_child_hole:
  assumes "ctx_at (rheap s) (rroot s) old fs" and "old \<notin> fptrs fs" and "old \<noteq> 0" and "fapart fs"
  obtains s' where "rb_change_child s old new (par fs) = Some s'"
    and "ctx_at (rheap s') (rroot s') new fs"
    and "\<And>y. y \<notin> fptrs fs \<Longrightarrow> rheap s' y = rheap s y" and "dom (rheap s') = dom (rheap s)"
proof (cases fs rule: fapart.cases)
  case 1
  then show ?thesis using assms that [of "s\<lparr>rroot := new\<rparr>"] by (simp add: rb_change_child_def)
next
  case (2 d c x u fs')
  have x: "x \<noteq> 0" "rheap s x = Some (mk (par fs' OR colw c) d old (rptr u))"
    using assms(1) by (simp_all add: 2)
  have "rptr u \<noteq> old" using assms(2,3) by (cases u) (auto simp: 2)
  define s' where "s' = s\<lparr>rheap := (rheap s)(x \<mapsto> mk (par fs' OR colw c) d new (rptr u))\<rparr>"
  have "rb_change_child s old new (par fs) = Some s'"
    using x \<open>rptr u \<noteq> old\<close> by (cases d) (auto simp: rb_change_child_def run_simps 2 s'_def mk_Rt mk_def)
  moreover have "ctx_at (rheap s') (rroot s') new fs"
    using assms(1,4) by (simp add: 2 s'_def)
  ultimately show ?thesis
    by (rule that) (use x in \<open>auto simp: s'_def 2\<close>)
qed

end
