(* ===== verification/RbInsert.thy ===== *)
theory RbInsert
  imports RbHeap
begin

text \<open>
  \<open>__rb_insert\<close> computes \<open>ins_fix\<close>: on a well-formed tree with a new red node linked in at
  the hole it ends, touches no object outside the tree, and leaves the heap holding a red-black
  tree with the nodes in the same order.
\<close>

section \<open>States that hold a tree\<close>

definition holds :: "'a rbs \<Rightarrow> tree \<Rightarrow> bool" where
  "holds s t \<longleftrightarrow> tree_at (rheap s) 0 t \<and> rroot s = rptr t \<and> apart t"

definition keeps :: "ptr set \<Rightarrow> 'a rbs \<Rightarrow> 'a rbs \<Rightarrow> bool" where
  "keeps X s s' \<longleftrightarrow> dom (rheap s') = dom (rheap s) \<and> (\<forall>y. y \<notin> X \<longrightarrow> rheap s' y = rheap s y)"

lemma holds_plug:
  "holds s (plug fs t) \<longleftrightarrow> tree_at (rheap s) (par fs) t \<and> ctx_at (rheap s) (rroot s) (rptr t) fs
     \<and> apart t \<and> fapart fs \<and> ptrs t \<inter> fptrs fs = {}"
  using tree_at_plug [of "rheap s" fs t "rroot s"] by (auto simp: holds_def apart_plug)

lemma keeps_refl [simp]: "keeps X s s"
  by (simp add: keeps_def)

lemma keeps_trans: "keeps X s s' \<Longrightarrow> keeps Y s' s'' \<Longrightarrow> X \<subseteq> Z \<Longrightarrow> Y \<subseteq> Z \<Longrightarrow> keeps Z s s''"
  unfolding keeps_def by (metis subsetD)

text \<open>A subtree moves under another parent.\<close>

definition adopt :: "(ptr \<rightharpoonup> rb_node) \<Rightarrow> ptr \<Rightarrow> tree \<Rightarrow> ptr \<rightharpoonup> rb_node" where
  "adopt h q t = (if t = Tip then h
     else h(rptr t \<mapsto> (the (h (rptr t)))\<lparr>parent_color := q OR colw (col t)\<rparr>))"

lemma adopt_other [simp]: "y \<notin> ptrs t \<Longrightarrow> adopt h q t y = h y"
  by (cases t) (auto simp: adopt_def)

lemma adopt_tree: "tree_at h p t \<Longrightarrow> apart t \<Longrightarrow> tree_at (adopt h q t) q t"
  by (cases t) (auto simp: adopt_def)

lemma adopt_tree_other: "ptrs t \<inter> ptrs u = {} \<Longrightarrow> tree_at (adopt h q t) p u = tree_at h p u"
  by (rule tree_at_cong, rule adopt_other) blast

lemma adopt_ctx: "ptrs t \<inter> fptrs fs = {} \<Longrightarrow> ctx_at (adopt h q t) root p fs = ctx_at h root p fs"
  by (rule ctx_at_cong, rule adopt_other) blast

lemma adopt_dom: "tree_at h p t \<Longrightarrow> dom (adopt h q t) = dom h"
  by (cases t) (auto simp: adopt_def)

lemma adopt_upd: "x \<notin> ptrs t \<Longrightarrow> adopt (h(x \<mapsto> n)) q t = (adopt h q t)(x \<mapsto> n)"
  by (cases t) (auto simp: adopt_def fun_eq_iff)

lemma set_if_adopt:
  assumes "tree_at (rheap s) p t" and "col t = Black"
  shows "set_if s (rptr t) q RB_BLACK = Some (s\<lparr>rheap := adopt (rheap s) q t\<rparr>)"
  using assms by (cases t) (auto simp: set_if_def adopt_def run_simps)

lemma set_parent_adopt:
  assumes "tree_at (rheap s) p t" and "t \<noteq> Tip" and "aligned p"
  shows "rb_set_parent s (rptr t) q = Some (s\<lparr>rheap := adopt (rheap s) q t\<rparr>)"
  using assms by (cases t) (auto simp: adopt_def run_simps)

lemma set_parent_if_adopt:
  assumes "tree_at (rheap s) p t" and "aligned p"
  shows "set_parent_if s (rptr t) q = Some (s\<lparr>rheap := adopt (rheap s) q t\<rparr>)"
  using assms set_parent_adopt [of s p t q]
  by (cases t) (auto simp: set_parent_if_def adopt_def)

lemma set_color_adopt:
  assumes "tree_at (rheap s) p t" and "t \<noteq> Tip"
  shows "rb_set_parent_color s (rptr t) q (colw c) = Some (s\<lparr>rheap := adopt (rheap s) q (paint c t)\<rparr>)"
  using assms by (cases t) (auto simp: adopt_def run_simps)

lemma adopt_paint: "tree_at h p t \<Longrightarrow> apart t \<Longrightarrow> tree_at (adopt h q (paint c t)) q (paint c t)"
  by (cases t) (auto simp: adopt_def)

section \<open>The cases\<close>

lemma keepsI: "dom (rheap s') = dom (rheap s) \<Longrightarrow> (\<And>y. y \<notin> X \<Longrightarrow> rheap s' y = rheap s y) \<Longrightarrow> keeps X s s'"
  by (simp add: keeps_def)

lemma insert_case3:
  fixes s :: "'a rbs"
  defines "h \<equiv> rheap s"
  assumes g: "h g = Some (mk (par fs OR colw Black) d q (rptr u))" and p: "h p = Some (mk pcp d (rptr t) (rptr v))"
    and trees: "tree_at h p t" "tree_at h pv v" "tree_at h g u" and ctx: "ctx_at h (rroot s) g fs"
    and v: "col v = Black" and apart: "apart (nd d c (nd d c' t p v) g u)" "fapart fs"
      "ptrs (nd d c (nd d c' t p v) g u) \<inter> fptrs fs = {}"
    and nz: "g \<noteq> 0" "p \<noteq> 0" "aligned g" "aligned p"
  shows "\<exists>s'. rb_insert_case3 rot d s p g (rptr v) = Some s'
    \<and> tree_at (rheap s') (par fs) (nd d Black t p (nd d Red v g u)) \<and> ctx_at (rheap s') (rroot s') p fs
    \<and> keeps (ptrs (nd d c (nd d c' t p v) g u) \<union> fptrs fs) s s'"
proof -
  have al: "aligned (par fs)" using ctx by (rule ctx_at_par)
  define h1 where "h1 = (adopt h g v)(g \<mapsto> mk (p OR colw Red) d (rptr v) (rptr u), p \<mapsto> mk (par fs OR colw Black) d (rptr t) g)"
  define s1 where "s1 = s\<lparr>rheap := h1\<rparr>"
  have apt: "g \<noteq> p" "g \<notin> ptrs t" "g \<notin> ptrs u" "g \<notin> ptrs v" "p \<notin> ptrs t" "p \<notin> ptrs u" "p \<notin> ptrs v"
    "ptrs v \<inter> ptrs t = {}" "ptrs v \<inter> ptrs u = {}" "g \<notin> fptrs fs" "p \<notin> fptrs fs"
    "ptrs v \<inter> fptrs fs = {}" "ptrs t \<inter> fptrs fs = {}" "ptrs u \<inter> fptrs fs = {}" "apart v"
    using apart by auto
  let ?s0 = "s\<lparr>rheap := h(g \<mapsto> mk (par fs OR colw Black) d (rptr v) (rptr u), p \<mapsto> mk pcp d (rptr t) g)\<rparr>"
  have set: "set_if ?s0 (rptr v) g RB_BLACK
      = Some (?s0\<lparr>rheap := adopt (rheap ?s0) g v\<rparr>)"
    by (rule set_if_adopt [where p = pv]) (use trees apt v in simp_all)
  have run: "rb_insert_case3 rot d s p g (rptr v) = map_option (\<lambda>s. call_rotate rot s g p) (rb_change_child s1 g p (par fs))"
    unfolding rb_insert_case3_def
    using g p apt al set
    by (simp add: run_simps h_def [symmetric] rb_rotate_set_parents_def adopt_upd s1_def h1_def map_conv_bind_option
        comp_def fun_upd_twist)
  have "ctx_at (rheap s1) (rroot s1) g fs"
    using ctx apt by (simp add: s1_def h1_def adopt_ctx)
  then obtain s' where s': "rb_change_child s1 g p (par fs) = Some s'" "ctx_at (rheap s') (rroot s') p fs"
    "\<And>y. y \<notin> fptrs fs \<Longrightarrow> rheap s' y = rheap s1 y" "dom (rheap s') = dom (rheap s1)"
    using rb_change_child_hole [of s1 g fs] apt nz apart(2) by metis
  let ?T = "nd d Black t p (nd d Red v g u)"
  have "tree_at (rheap s1) (par fs) ?T"
    using apt trees nz adopt_tree [OF trees(2), of g]
    by (simp add: s1_def h1_def adopt_tree_other)
  moreover have "tree_at (rheap s') (par fs) ?T = tree_at (rheap s1) (par fs) ?T"
    by (rule tree_at_cong, rule s'(3)) (use apt in \<open>simp, blast\<close>)
  moreover have "dom h1 = dom h"
    using g p adopt_dom [OF trees(2)] by (auto simp: h1_def)
  then have "keeps (ptrs (nd d c (nd d c' t p v) g u) \<union> fptrs fs) s s'"
    using s'(3,4) by (intro keepsI) (auto simp: s1_def h1_def h_def)
  ultimately show ?thesis using run s'(1,2)
    by (intro exI [of _ "call_rotate rot s' g p"]) (simp add: keeps_def)
qed

lemma insert_case2:
  fixes s :: "'a rbs"
  defines "h \<equiv> rheap s"
  assumes p: "h p = Some (mk pcp d (rptr v) x)" and x: "h x = Some (mk pcx d (rptr a) (rptr b))"
    and trees: "tree_at h p v" "tree_at h x a" "tree_at h x b"
    and a: "col a = Black" and apart: "apart (nd d c v p (nd d c' a x b))"
    and nz: "p \<noteq> 0" "aligned p" "x \<noteq> 0" "aligned x"
  shows "\<exists>s'. rb_insert_case2 rot d s x p = Some (s', x, rptr b)
    \<and> rheap s' x = Some (mk pcx d p (rptr b)) \<and> tree_at (rheap s') x (nd d Red v p a) \<and> tree_at (rheap s') x b
    \<and> rroot s' = rroot s \<and> keeps (insert p (insert x (ptrs a))) s s'"
proof -
  define h1 where "h1 = (adopt h p a)(p \<mapsto> mk (x OR colw Red) d (rptr v) (rptr a), x \<mapsto> mk pcx d p (rptr b))"
  define s1 where "s1 = s\<lparr>rheap := h1\<rparr>"
  have apt: "p \<noteq> x" "p \<notin> ptrs v" "p \<notin> ptrs a" "p \<notin> ptrs b" "x \<notin> ptrs v" "x \<notin> ptrs a" "x \<notin> ptrs b"
    "ptrs a \<inter> ptrs b = {}" "ptrs a \<inter> ptrs v = {}" "apart a"
    using apart by auto
  let ?s0 = "s\<lparr>rheap := h(p \<mapsto> mk pcp d (rptr v) (rptr a), x \<mapsto> mk pcx d p (rptr b))\<rparr>"
  have set: "set_if ?s0 (rptr a) p RB_BLACK = Some (?s0\<lparr>rheap := adopt (rheap ?s0) p a\<rparr>)"
    by (rule set_if_adopt [where p = x]) (use trees apt a in simp_all)
  have run: "rb_insert_case2 rot d s x p = Some (call_rotate rot s1 p x, x, rptr b)"
    unfolding rb_insert_case2_def Let_def
    using p x apt set
    by (simp add: run_simps h_def [symmetric] adopt_upd s1_def h1_def fun_upd_twist)
  have "tree_at h1 x (nd d Red v p a)"
    using apt trees nz adopt_tree [OF trees(2), of p] by (simp add: h1_def adopt_tree_other)
  moreover have "tree_at h1 x b" using apt trees by (simp add: h1_def adopt_tree_other)
  moreover have "dom h1 = dom h" using p x adopt_dom [OF trees(2)] by (auto simp: h1_def)
  then have "keeps (insert p (insert x (ptrs a))) s s1"
    by (intro keepsI) (auto simp: s1_def h1_def h_def)
  ultimately show ?thesis
    using run by (intro exI [of _ "call_rotate rot s1 p x"]) (simp add: keeps_def s1_def h1_def)
qed

lemma holds_plugI:
  "tree_at (rheap s) (par fs) t \<Longrightarrow> ctx_at (rheap s) (rroot s) (rptr t) fs \<Longrightarrow> apart t \<Longrightarrow> fapart fs
   \<Longrightarrow> ptrs t \<inter> fptrs fs = {} \<Longrightarrow> holds s (plug fs t)"
  by (simp add: holds_plug)

lemma tree_at_keeps: "keeps X s s' \<Longrightarrow> X \<inter> ptrs t = {} \<Longrightarrow> tree_at (rheap s') p t = tree_at (rheap s) p t"
  unfolding keeps_def by (rule tree_at_cong) blast

lemma ctx_at_keeps: "keeps X s s' \<Longrightarrow> X \<inter> fptrs fs = {} \<Longrightarrow> ctx_at (rheap s') r p fs = ctx_at (rheap s) r p fs"
  unfolding keeps_def by (rule ctx_at_cong) blast

lemma keeps_get: "keeps X s s' \<Longrightarrow> y \<notin> X \<Longrightarrow> rheap s' y = rheap s y"
  by (simp add: keeps_def)

lemma insert_flip:
  assumes "holds s (plug fs (nd d Black (nd d' Red t p v) g u))" and "col u = Red"
  shows "\<exists>s'. rb_insert_side rot d s x p g = Some (Ins_continue s' g (par fs))
    \<and> holds s' (plug fs (nd d Red (nd d' Black t p v) g (paint Black u))) \<and> keeps (ptrs (plug fs (nd d Black (nd d' Red t p v) g u))) s s'"
proof -
  let ?h = "rheap s"
  obtain ul uu ur where u: "u = nd d Red ul uu ur"
    using assms(2) by (rule_tac t = u and d = d in nd_cases) auto
  have H: "tree_at ?h (par fs) (nd d Black (nd d' Red t p v) g u)" and C: "ctx_at ?h (rroot s) g fs"
    and apt: "apart (nd d Black (nd d' Red t p v) g u)" "fapart fs"
    "ptrs (nd d Black (nd d' Red t p v) g u) \<inter> fptrs fs = {}"
    using assms(1) by (auto simp: holds_plug)
  have nodes: "?h g = Some (mk (par fs OR colw Black) d p uu)" "?h p = Some (mk g d' (rptr t) (rptr v))"
    "?h uu = Some (mk g d (rptr ul) (rptr ur))" "uu \<noteq> 0" "aligned (par fs)" "aligned g" "aligned p" "aligned uu" "g \<noteq> 0" "p \<noteq> 0"
    using H ctx_at_par [OF C] by (auto simp: u)
  have ne: "g \<noteq> p" "g \<noteq> uu" "p \<noteq> uu" using apt by (auto simp: u)
  define s' where "s' = s\<lparr>rheap := ?h(uu \<mapsto> mk (g OR colw Black) d (rptr ul) (rptr ur),
    p \<mapsto> mk (g OR colw Black) d' (rptr t) (rptr v), g \<mapsto> mk (par fs) d p uu)\<rparr>"
  have "rb_insert_side rot d s x p g = Some (Ins_continue s' g (par fs))"
    using nodes ne by (simp add: rb_insert_side_def run_simps s'_def)
  moreover have "holds s' (plug fs (nd d Red (nd d' Black t p v) g (paint Black u)))"
    by (rule holds_plugI) (use H C apt nodes ne in \<open>auto simp: s'_def u\<close>)
  moreover have "keeps (ptrs (plug fs (nd d Black (nd d' Red t p v) g u))) s s'"
    using nodes ne by (intro keepsI) (auto simp: s'_def u)
  ultimately show ?thesis by blast
qed

lemma insert_rot1:
  assumes "holds s (plug fs (nd d Black (nd d Red t p v) g u))" and "col u = Black" and "col v = Black" and "t \<noteq> Tip"
  shows "\<exists>s'. rb_insert_side rot d s (rptr t) p g = Some (Ins_break s')
    \<and> holds s' (plug fs (nd d Black t p (nd d Red v g u))) \<and> keeps (ptrs (plug fs (nd d Black (nd d Red t p v) g u))) s s'"
proof -
  let ?h = "rheap s"
  have H: "tree_at ?h (par fs) (nd d Black (nd d Red t p v) g u)" and C: "ctx_at ?h (rroot s) g fs"
    and apt: "apart (nd d Black (nd d Red t p v) g u)" "fapart fs"
    "ptrs (nd d Black (nd d Red t p v) g u) \<inter> fptrs fs = {}"
    using assms(1) by (auto simp: holds_plug)
  obtain s' where s': "rb_insert_case3 rot d s p g (rptr v) = Some s'"
    "tree_at (rheap s') (par fs) (nd d Black t p (nd d Red v g u))" "ctx_at (rheap s') (rroot s') p fs"
    "keeps (ptrs (nd d Black (nd d Red t p v) g u) \<union> fptrs fs) s s'"
    using insert_case3 [where s = s and g = g and fs = fs and d = d and u = u and p = p and t = t and v = v and q = p and pcp = g and pv = p and c = Black and c' = Red and rot = rot] H C apt assms(3) by auto
  have "(if rptr u \<noteq> 0 then rb_is_red s (rptr u) else Some False) = Some False"
    using H assms(2) by (cases u) (auto simp: run_simps)
  moreover have "rptr t \<noteq> rptr v"
    using apt(1) assms(4) tree_at_0 [of ?h p t] tree_at_0 [of ?h p v] H rptr_ptrs [of t] rptr_ptrs [of v]
    by (cases v) auto
  ultimately have "rb_insert_side rot d s (rptr t) p g = Some (Ins_break s')"
    using H s'(1) by (simp add: rb_insert_side_def run_simps)
  moreover have "holds s' (plug fs (nd d Black t p (nd d Red v g u)))"
    by (rule holds_plugI) (use s' apt in auto)
  ultimately show ?thesis using s'(4) by auto
qed

lemma insert_rot2:
  assumes "holds s (plug fs (nd d Black (nd d Red v p (nd d Red a x b)) g u))" and "col u = Black" and "col a = Black"
    and "col b = Black"
  shows "\<exists>s'. rb_insert_side rot d s x p g = Some (Ins_break s')
    \<and> holds s' (plug fs (nd d Black (nd d Red v p a) x (nd d Red b g u)))
    \<and> keeps (ptrs (plug fs (nd d Black (nd d Red v p (nd d Red a x b)) g u))) s s'"
proof -
  let ?h = "rheap s"
  have H: "tree_at ?h (par fs) (nd d Black (nd d Red v p (nd d Red a x b)) g u)" and C: "ctx_at ?h (rroot s) g fs"
    and apt: "apart (nd d Black (nd d Red v p (nd d Red a x b)) g u)" "fapart fs"
    "ptrs (nd d Black (nd d Red v p (nd d Red a x b)) g u) \<inter> fptrs fs = {}"
    using assms(1) by (auto simp: holds_plug)
  obtain s1 where s1: "rb_insert_case2 rot d s x p = Some (s1, x, rptr b)"
    "rheap s1 x = Some (mk p d p (rptr b))" "tree_at (rheap s1) x (nd d Red v p a)" "tree_at (rheap s1) x b"
    "rroot s1 = rroot s" "keeps (insert p (insert x (ptrs a))) s s1"
    using insert_case2 [where s = s and p = p and d = d and v = v and x = x and a = a and b = b and pcp = g and pcx = p and c = Red and c' = Red and rot = rot] H apt assms(3) by auto
  have g1: "rheap s1 g = ?h g" using s1(6) by (rule keeps_get) (use apt in auto)
  have u1: "tree_at (rheap s1) g u = tree_at ?h g u"
    using s1(6) by (rule tree_at_keeps) (use apt in auto)
  have c1: "ctx_at (rheap s1) (rroot s) g fs = ctx_at ?h (rroot s) g fs"
    using s1(6) by (rule ctx_at_keeps) (use apt in auto)
  have "\<exists>s'. rb_insert_case3 rot d s1 x g (rptr b) = Some s'
    \<and> tree_at (rheap s') (par fs) (nd d Black (nd d Red v p a) x (nd d Red b g u)) \<and> ctx_at (rheap s') (rroot s') x fs
    \<and> keeps (ptrs (nd d Black (nd d Red (nd d Red v p a) x b) g u) \<union> fptrs fs) s1 s'"
    by (rule insert_case3 [where q = p and pcp = p and pv = x]) (use s1 g1 u1 c1 H C apt assms(4) in auto)
  then obtain s' where s': "rb_insert_case3 rot d s1 x g (rptr b) = Some s'"
    "tree_at (rheap s') (par fs) (nd d Black (nd d Red v p a) x (nd d Red b g u))" "ctx_at (rheap s') (rroot s') x fs"
    "keeps (ptrs (nd d Black (nd d Red (nd d Red v p a) x b) g u) \<union> fptrs fs) s1 s'" by blast
  have "(if rptr u \<noteq> 0 then rb_is_red s (rptr u) else Some False) = Some False"
    using H assms(2) by (cases u) (auto simp: run_simps)
  then have "rb_insert_side rot d s x p g = Some (Ins_break s')"
    using H s1(1) s'(1) by (simp add: rb_insert_side_def run_simps)
  moreover have "holds s' (plug fs (nd d Black (nd d Red v p a) x (nd d Red b g u)))"
    by (rule holds_plugI) (use s' apt in auto)
  moreover have "keeps (ptrs (plug fs (nd d Black (nd d Red v p (nd d Red a x b)) g u))) s s'"
    using s1(6) s'(4) by (rule keeps_trans) auto
  ultimately show ?thesis by blast
qed

section \<open>The loop\<close>

lemma col_cases: "col t = Red \<or> col t = Black"
  by (cases "col t") auto

lemma rb_insert_loop_correct:
  assumes "holds s (plug fs t)" and "hole n fs" and "rbh n t" and "col t = Red"
  shows "\<exists>s'. rb_insert_loop rot s (rptr t) (par fs) = Some s' \<and> holds s' (ins_fix fs t)
    \<and> keeps (ptrs (plug fs t)) s s'"
  using assms
proof (induction fs t arbitrary: s n rule: ins_fix.induct)
  case (1 t)
  obtain a x b where t: "t = nd Lf Red a x b"
    using "1.prems"(4) by (rule_tac t = t and d = Lf in nd_cases) auto
  define s' where "s' = s\<lparr>rheap := (rheap s)(x \<mapsto> mk (colw Black) Lf (rptr a) (rptr b))\<rparr>"
  have x: "rheap s x = Some (mk 0 Lf (rptr a) (rptr b))" and tr: "tree_at (rheap s) x a" "tree_at (rheap s) x b"
    "x \<notin> ptrs a" "x \<notin> ptrs b" "x \<noteq> 0" "aligned x" "rroot s = x"
    using "1.prems"(1) by (auto simp: holds_def t)
  have "rb_insert_loop rot s (rptr t) (par []) = Some s'"
    using x by (subst rb_insert_loop.simps) (simp add: run_simps t s'_def)
  moreover have "holds s' (ins_fix [] t)"
    using "1.prems"(1) tr by (auto simp: holds_def t s'_def mk_def)
  moreover have "keeps (ptrs (plug [] t)) s s'"
    using x by (intro keepsI) (auto simp: s'_def t)
  ultimately show ?case by blast
next
  case (2 d x u fs t)
  then have "rb_is_black s x = Some True" "x \<noteq> 0"
    using ctx_at_par [of "rheap s" "rroot s" x fs] by (auto simp: holds_plug run_simps)
  then show ?case using "2.prems" by (subst rb_insert_loop.simps) simp
next
  case (3 d' p v d c g u fs t)
  have c: "c = Black" using "3.prems"(2) by simp
  have C: "ctx_at (rheap s) (rroot s) g fs" and T: "tree_at (rheap s) (par fs) (nd d Black (nd d' Red t p v) g u)"
    and apt: "apart (nd d Black (nd d' Red t p v) g u)"
    using "3.prems"(1) by (auto simp: holds_plug c)
  have nodes: "rheap s g = Some (mk (par fs OR colw Black) d p (rptr u))" "rheap s p = Some (mk g d' (rptr t) (rptr v))"
    "p \<noteq> 0" "g \<noteq> 0" "aligned g" "aligned p"
    using T by auto
  have "rptr u \<noteq> p" using apt T rptr_ptrs [of u] by (cases u) auto
  then have side: "(if p \<noteq> child_of Rt (mk (par fs OR colw Black) d p (rptr u)) then Lf else Rt) = d"
    by (cases d) (auto simp: mk_def)
  have loop: "rb_insert_loop rot s (rptr t) (par (Fr d' Red p v # Fr d c g u # fs)) =
     Option.bind (rb_insert_side rot d s (rptr t) p g) (\<lambda>r. case r of Ins_break s \<Rightarrow> Some s
       | Ins_continue s node parent \<Rightarrow> rb_insert_loop rot s node parent)"
    using nodes side by (subst rb_insert_loop.simps) (simp add: run_simps)
  have H: "holds s (plug fs (nd d Black (nd d' Red t p v) g u))" using "3.prems"(1) c by simp
  have v: "col v = Black" using "3.prems"(2) by simp
  show ?case
  proof (cases "col u = Red")
    case True
    from insert_flip [OF H True, of rot "rptr t"] obtain s1 where
      s1: "rb_insert_side rot d s (rptr t) p g = Some (Ins_continue s1 g (par fs))"
      "holds s1 (plug fs (nd d Red (nd d' Black t p v) g (paint Black u)))"
      "keeps (ptrs (plug fs (nd d Black (nd d' Red t p v) g u))) s s1" by blast
    have "\<exists>s'. rb_insert_loop rot s1 (rptr (nd d Red (nd d' Black t p v) g (paint Black u))) (par fs) = Some s'
      \<and> holds s' (ins_fix fs (nd d Red (nd d' Black t p v) g (paint Black u)))
      \<and> keeps (ptrs (plug fs (nd d Red (nd d' Black t p v) g (paint Black u)))) s1 s'"
      by (rule "3.IH" [OF True s1(2), of "Suc n"]) (use "3.prems" c True rbh_paint_black [of n u] in auto)
    then obtain s' where "rb_insert_loop rot s1 g (par fs) = Some s'"
      "holds s' (ins_fix fs (nd d Red (nd d' Black t p v) g (paint Black u)))"
      "keeps (ptrs (plug fs (nd d Red (nd d' Black t p v) g (paint Black u)))) s1 s'" by auto
    moreover from this(3) s1(3) have "keeps (ptrs (plug fs (nd d Black (nd d' Red t p v) g u))) s s'"
      by (rule_tac keeps_trans [where s' = s1]) auto
    ultimately show ?thesis using loop s1(1) True by (simp add: c)
  next
    case False
    then have u: "col u = Black" by simp
    consider "d' = d" | "d' = other d" using side_other by blast
    then show ?thesis
    proof cases
      case 1
      have "t \<noteq> Tip" using "3.prems"(4) by auto
      from insert_rot1 [OF H [unfolded 1] u v this, of rot] loop u show ?thesis by (auto simp: c 1)
    next
      case 2
      obtain a x b where t: "t = nd d Red a x b"
        using "3.prems"(4) by (rule_tac t = t and d = d in nd_cases) auto
      have H2: "holds s (plug fs (nd d Black (nd d Red v p (nd d Red a x b)) g u))"
        using H by (simp add: 2 t)
      have ab: "col a = Black" "col b = Black" using "3.prems"(3) by (simp_all add: t)
      have fix2: "ins_fix (Fr d' Red p v # Fr d c g u # fs) t = plug fs (nd d Black (nd d Red v p a) x (nd d Red b g u))"
        unfolding t by (rule ins_fix_rot2) (use u 2 in simp_all)
      from insert_rot2 [OF H2 u ab, of rot] loop show ?thesis
        unfolding fix2 by (auto simp: c 2 t)
    qed
  qed
next
  case (4 d x u t)
  then show ?case by simp
qed

section \<open>Linking a new node in\<close>

definition link_of :: "frame list \<Rightarrow> side option" where
  "link_of fs = (case fs of [] \<Rightarrow> None | Fr d _ _ _ # _ \<Rightarrow> Some d)"

lemma rb_link_node_correct:
  assumes "holds s (plug fs Tip)" and "x \<notin> fptrs fs" and "x \<noteq> 0" and "aligned x" and "rheap s x \<noteq> None"
  shows "\<exists>s'. rb_link_node s x (par fs) (link_of fs) = Some s' \<and> holds s' (plug fs (Node Red Tip x Tip))
    \<and> keeps (insert x (fptrs fs)) s s'"
proof -
  obtain n where n: "rheap s x = Some n" using assms(5) by auto
  define h1 where "h1 = (rheap s)(x \<mapsto> mk (par fs) Lf 0 0)"
  have node: "n\<lparr>parent_color := q, rb_right := 0, rb_left := 0\<rparr> = mk q Lf 0 0" for q
    by (cases n) (simp add: mk_def)
  have C: "ctx_at (rheap s) (rroot s) 0 fs" "fapart fs" using assms(1) by (simp_all add: holds_plug)
  show ?thesis
  proof (cases fs rule: fapart.cases)
    case 1
    let ?s = "s\<lparr>rheap := h1, rroot := x\<rparr>"
    have "rb_link_node s x (par fs) (link_of fs) = Some ?s"
      using n by (cases n) (simp add: rb_link_node_def run_simps link_of_def 1 h1_def mk_def)
    moreover have "holds ?s (plug fs (Node Red Tip x Tip))"
      using assms by (simp add: holds_def 1 h1_def)
    moreover have "keeps (insert x (fptrs fs)) s ?s"
      using n by (intro keepsI) (auto simp: h1_def)
    ultimately show ?thesis by blast
  next
    case (2 d c p u fs')
    let ?s = "s\<lparr>rheap := h1(p \<mapsto> mk (par fs' OR colw c) d x (rptr u))\<rparr>"
    have p: "rheap s p = Some (mk (par fs' OR colw c) d 0 (rptr u))" "p \<noteq> x"
      using C assms(2) by (auto simp: 2)
    have "rb_link_node s x (par fs) (link_of fs) = Some ?s"
      using n p by (simp add: rb_link_node_def run_simps link_of_def 2 h1_def node)
    moreover have "holds ?s (plug fs (Node Red Tip x Tip))"
      by (rule holds_plugI) (use C assms p in \<open>auto simp: 2 h1_def\<close>)
    moreover have "keeps (insert x (fptrs fs)) s ?s"
      using n p by (intro keepsI) (auto simp: h1_def 2)
    ultimately show ?thesis by blast
  qed
qed

lemma rb_insert_correct:
  assumes "holds s (plug fs Tip)" and "rbt (plug fs Tip)"
    and "x \<notin> fptrs fs" and "x \<noteq> 0" and "aligned x" and "rheap s x \<noteq> None"
  shows "\<exists>s1 s2 t. rb_link_node s x (par fs) (link_of fs) = Some s1
    \<and> rb_insert_augmented rot s1 x = Some s2 \<and> holds s2 t \<and> rbt t
    \<and> inorder t = before fs @ x # after fs \<and> keeps (insert x (fptrs fs)) s s2"
proof -
  obtain s1 where s1: "rb_link_node s x (par fs) (link_of fs) = Some s1"
    "holds s1 (plug fs (Node Red Tip x Tip))" "keeps (insert x (fptrs fs)) s s1"
    using rb_link_node_correct [OF assms(1,3-6)] by blast
  have hole: "hole 0 fs" using assms(2) by (auto simp: rbt_plug)
  from rb_insert_loop_correct [OF s1(2) hole, of rot] obtain s2 where
    s2: "rb_insert_loop rot s1 x (par fs) = Some s2" "holds s2 (ins_fix fs (Node Red Tip x Tip))"
    "keeps (insert x (fptrs fs)) s1 s2" by auto
  have "rb_red_parent s1 x = Some (par fs)"
    using s1(2) by (auto simp: holds_plug run_simps)
  then have "rb_insert_augmented rot s1 x = Some s2" using s2(1) by (simp add: rb_insert_augmented_def)
  moreover have "rbt (ins_fix fs (Node Red Tip x Tip))" using hole by (rule rbt_ins_fix) auto
  moreover have "inorder (ins_fix fs (Node Red Tip x Tip)) = before fs @ x # after fs"
    by (simp add: inorder_ins_fix inorder_plug)
  ultimately show ?thesis using s1 s2 keeps_trans [OF s1(3) s2(3)] by blast
qed

end
