(* ===== verification/RbErase.thy ===== *)
theory RbErase
  imports RbInsert
begin

text \<open>
  \<open>rb_erase\<close>: \<open>____rb_erase_color\<close> computes \<open>del_fix\<close>, the repair of a tree one of whose
  subtrees is one black node short, and \<open>__rb_erase_augmented\<close> unlinks the node so that this
  repair is the right one. The nodes that remain keep their order and the tree is red-black again.
\<close>

section \<open>The tree the repair computes\<close>

text \<open>A black sibling: what becomes of the subtree at the parent.\<close>

definition kid :: "side \<Rightarrow> tree \<Rightarrow> tree" where
  "kid d t = (case t of Tip \<Rightarrow> Tip | Node c l x r \<Rightarrow> if d = Lf then l else r)"

lemma kid_nd [simp]: "kid d (nd d c a x b) = a" "kid (other d) (nd d c a x b) = b"
  by (cases d; simp add: kid_def)+

definition del_black :: "side \<Rightarrow> color \<Rightarrow> tree \<Rightarrow> ptr \<Rightarrow> tree \<Rightarrow> tree" where
  "del_black d c t p sib =
     (let near = kid d sib; far = kid (other d) sib in
      if col far = Red then nd d c (nd d Black t p near) (rptr sib) (paint Black far)
      else if col near = Red then
        nd d c (nd d Black t p (kid d near)) (rptr near) (nd d Black (kid (other d) near) (rptr sib) far)
      else nd d Black t p (paint Red sib))"

definition settled :: "color \<Rightarrow> tree \<Rightarrow> bool" where
  "settled c sib \<longleftrightarrow> c = Red \<or> col (kid Lf sib) = Red \<or> col (kid Rt sib) = Red"

fun del_fix :: "frame list \<Rightarrow> tree \<Rightarrow> tree" where
  "del_fix [] t = t"
| "del_fix (Fr d c p sib # fs) t =
     (if col sib = Red then plug (Fr d Black (rptr sib) (kid (other d) sib) # fs) (del_black d Red t p (kid d sib))
      else if settled c sib then plug fs (del_black d c t p sib)
      else del_fix fs (del_black d c t p sib))"

lemma settled_nd: "settled c (nd d c' a x b) \<longleftrightarrow> c = Red \<or> col a = Red \<or> col b = Red"
  by (cases d) (auto simp: settled_def kid_def)

lemma rbh_Suc: "rbh (Suc n) t \<Longrightarrow> t \<noteq> Tip"
  by auto

lemma del_black_rbh:
  assumes "rbh (Suc n) sib" and "col sib = Black" and "rbh n t" and "col t = Black"
  shows "settled c sib \<Longrightarrow> rbh (if c = Red then Suc n else Suc (Suc n)) (del_black d c t p sib)
      \<and> (c = Black \<longrightarrow> col (del_black d c t p sib) = Black)"
    and "rbh (Suc n) (del_black d c t p sib) \<or> settled c sib"
    and "col (del_black d Black t p sib) = Black"
proof -
  obtain c' near s far where sib: "sib = nd d c' near s far"
    using assms(1) by (rule_tac t = sib and d = d in nd_cases) auto
  have c': "c' = Black" using assms(2) sib by simp
  have nf: "rbh n near" "rbh n far" using assms(1) sib c' by simp_all
  note R = settled_nd c' sib
  consider "col far = Red" | "col far = Black" "col near = Red" | "col far = Black" "col near = Black"
    using col_cases by blast
  note cs = this
  show "settled c sib \<Longrightarrow> rbh (if c = Red then Suc n else Suc (Suc n)) (del_black d c t p sib)
      \<and> (c = Black \<longrightarrow> col (del_black d c t p sib) = Black)"
    using cs
  proof cases
    case 1
    then show ?thesis using assms nf rbh_paint_black [of n far] by (cases c) (auto simp: del_black_def R)
  next
    case 2
    obtain a x b where "near = nd d Red a x b"
      using 2 by (rule_tac t = near and d = d in nd_cases) auto
    then show ?thesis using 2 assms nf by (cases c) (auto simp: del_black_def R)
  next
    case 3
    then show "settled c sib \<Longrightarrow> ?thesis" using assms nf by (cases c) (auto simp: del_black_def R)
  qed
  show "rbh (Suc n) (del_black d c t p sib) \<or> settled c sib"
    using cs assms nf by cases (auto simp: del_black_def R)
  show "col (del_black d Black t p sib) = Black"
    using cs by cases (auto simp: del_black_def R)
qed

lemma inorder_del_black:
  assumes "rbh (Suc n) sib"
  shows "inorder (del_black d c t p sib) = inorder (nd d c t p sib)"
proof -
  obtain c' near s far where sib: "sib = nd d c' near s far"
    using assms(1) by (rule_tac t = sib and d = d in nd_cases) auto
  show ?thesis
  proof (cases "col far = Black \<and> col near = Red")
    case True
    obtain c'' a x b where "near = nd d c'' a x b"
      using True by (rule_tac t = near and d = d in nd_cases) auto
    then show ?thesis using True by (simp add: del_black_def sib inorder_nd split: side.splits)
  next
    case False
    then show ?thesis by (auto simp: del_black_def sib inorder_nd split: side.splits)
  qed
qed

lemma del_fix_correct:
  assumes "hole (Suc n) fs" and "rbh n t" and "col t = Black"
  shows "rbt (del_fix fs t) \<and> inorder (del_fix fs t) = inorder (plug fs t)"
  using assms
proof (induction fs t arbitrary: n rule: del_fix.induct)
  case (1 t)
  then show ?case by (auto simp: rbt_def)
next
  case (2 d c p sib fs t)
  have sib: "rbh (Suc n) sib" using "2.prems"(1) by simp
  show ?case
  proof (cases "col sib = Red")
    case True
    then have c: "c = Black" and fs: "hole (Suc (Suc n)) fs" using "2.prems"(1) by (cases c; simp)+
    obtain near s far where s: "sib = nd d Red near s far"
      using True by (rule_tac t = sib and d = d in nd_cases) auto
    have nf: "rbh (Suc n) near" "rbh (Suc n) far" "col near = Black" "col far = Black"
      using sib s by simp_all
    have M: "rbh (Suc n) (del_black d Red t p near)"
      using del_black_rbh(1) [OF nf(1,3) "2.prems"(2,3), of Red d p] by (simp add: settled_def)
    have fix1: "del_fix (Fr d c p sib # fs) t = plug (Fr d Black s far # fs) (del_black d Red t p near)"
      using True s by simp
    have "rbt (del_fix (Fr d c p sib # fs) t)"
      unfolding fix1 using M nf fs by (auto simp: rbt_plug intro!: exI [of _ "Suc (Suc n)"])
    moreover have "inorder (del_fix (Fr d c p sib # fs) t) = inorder (plug (Fr d c p sib # fs) t)"
      unfolding fix1 using inorder_del_black [OF nf(1), of d Red t p]
      by (simp add: s inorder_plug inorder_nd split: side.splits)
    ultimately show ?thesis by blast
  next
    case False
    then have b: "col sib = Black" by simp
    note D = del_black_rbh [OF sib b "2.prems"(2,3)]
    have ino: "inorder (plug fs (del_black d c t p sib)) = inorder (plug (Fr d c p sib # fs) t)"
      using inorder_del_black [OF sib, of d c t p] by (simp add: inorder_plug)
    show ?thesis
    proof (cases "settled c sib")
      case True
      then have eq: "del_fix (Fr d c p sib # fs) t = plug fs (del_black d c t p sib)" using b by simp
      have "rbt (plug fs (del_black d c t p sib))"
        using D(1) [OF True, of d p] "2.prems"(1)
        by (cases c) (auto simp: rbt_plug)
      then show ?thesis unfolding eq using ino by simp
    next
      case ns: False
      then have c: "c = Black" by (auto simp: settled_def)
      have eq: "del_fix (Fr d c p sib # fs) t = del_fix fs (del_black d c t p sib)" using b ns by simp
      have "rbt (del_fix fs (del_black d c t p sib))
        \<and> inorder (del_fix fs (del_black d c t p sib)) = inorder (plug fs (del_black d c t p sib))"
        by (rule "2.IH" [of "Suc n"]) (use b ns D(2) [of d c p] D(3) [of d p] "2.prems"(1) c in auto)
      then show ?thesis unfolding eq using ino by simp
    qed
  qed
qed

section \<open>The cases on the heap\<close>

lemma erase_case4:
  fixes s :: "'a rbs"
  defines "h \<equiv> rheap s"
  assumes p: "h p = Some (mk (par fs OR colw c) d (rptr t) q)" and x: "h x = Some (mk pcx d (rptr near) (rptr far))"
    and trees: "tree_at h p t" "tree_at h pn near" "tree_at h pf far" and ctx: "ctx_at h (rroot s) p fs"
    and far: "far \<noteq> Tip" and pn: "aligned pn" and apart: "apart (nd d c t p (nd d c' near x far))" "fapart fs"
      "ptrs (nd d c t p (nd d c' near x far)) \<inter> fptrs fs = {}"
    and nz: "p \<noteq> 0" "x \<noteq> 0" "aligned p" "aligned x"
  shows "\<exists>s'. rb_erase_case4 rot d s p x (rptr far) = Some s'
    \<and> tree_at (rheap s') (par fs) (nd d c (nd d Black t p near) x (paint Black far)) \<and> ctx_at (rheap s') (rroot s') x fs
    \<and> keeps (ptrs (nd d c t p (nd d c' near x far)) \<union> fptrs fs) s s'"
proof -
  have al: "aligned (par fs)" using ctx by (rule ctx_at_par)
  have apt: "p \<noteq> x" "p \<notin> ptrs t" "p \<notin> ptrs near" "p \<notin> ptrs far" "x \<notin> ptrs t" "x \<notin> ptrs near" "x \<notin> ptrs far"
    "ptrs far \<inter> ptrs near = {}" "ptrs near \<inter> ptrs far = {}" "ptrs far \<inter> ptrs t = {}" "ptrs near \<inter> ptrs t = {}"
    "p \<notin> fptrs fs" "x \<notin> fptrs fs" "ptrs t \<inter> fptrs fs = {}" "ptrs near \<inter> fptrs fs = {}" "ptrs far \<inter> fptrs fs = {}"
    "apart near" "apart far" "apart t"
    using apart by auto
  define hf where "hf = adopt h x (paint Black far)"
  define h1 where "h1 = (adopt hf p near)(p \<mapsto> mk (x OR colw Black) d (rptr t) (rptr near),
    x \<mapsto> mk (par fs OR colw c) d p (rptr far))"
  define s1 where "s1 = s\<lparr>rheap := h1\<rparr>"
  let ?s0 = "s\<lparr>rheap := h(p \<mapsto> mk (par fs OR colw c) d (rptr t) (rptr near), x \<mapsto> mk pcx d p (rptr far))\<rparr>"
  let ?s2 = "s\<lparr>rheap := hf(p \<mapsto> mk (par fs OR colw c) d (rptr t) (rptr near), x \<mapsto> mk pcx d p (rptr far))\<rparr>"
  have near: "tree_at hf pn near" unfolding hf_def using trees(2) apt by (simp add: adopt_tree_other)
  have set1: "rb_set_parent_color ?s0 (rptr far) x (colw Black) = Some ?s2"
    using set_color_adopt [of ?s0 pf far x Black] trees(3) far apt by (simp add: adopt_upd hf_def)
  have set2: "set_parent_if ?s2 (rptr near) p = Some (?s2\<lparr>rheap := adopt (rheap ?s2) p near\<rparr>)"
    by (rule set_parent_if_adopt [where p = pn]) (use near apt pn in simp_all)
  have run: "rb_erase_case4 rot d s p x (rptr far) = map_option (\<lambda>s. call_rotate rot s p x) (rb_change_child s1 p x (par fs))"
    unfolding rb_erase_case4_def
    using p x apt al set1 set2
    by (simp add: run_simps h_def [symmetric] rb_rotate_set_parents_def adopt_upd s1_def h1_def
        map_conv_bind_option comp_def fun_upd_twist hf_def)
  have "ctx_at (rheap s1) (rroot s1) p fs"
    using ctx apt by (simp add: s1_def h1_def hf_def adopt_ctx)
  then obtain s' where s': "rb_change_child s1 p x (par fs) = Some s'" "ctx_at (rheap s') (rroot s') x fs"
    "\<And>y. y \<notin> fptrs fs \<Longrightarrow> rheap s' y = rheap s1 y" "dom (rheap s') = dom (rheap s1)"
    using rb_change_child_hole [of s1 p fs] apt nz apart(2) by metis
  let ?T = "nd d c (nd d Black t p near) x (paint Black far)"
  have "tree_at (rheap s1) (par fs) ?T"
    using apt trees nz adopt_tree [OF near, of p] adopt_paint [OF trees(3), of x Black]
    by (simp add: s1_def h1_def hf_def adopt_tree_other)
  moreover have "tree_at (rheap s') (par fs) ?T = tree_at (rheap s1) (par fs) ?T"
    by (rule tree_at_cong, rule s'(3)) (use apt in \<open>simp, blast\<close>)
  moreover have "dom hf = dom h"
    using trees(3) by (cases far) (auto simp: hf_def adopt_def)
  then have "dom h1 = dom h"
    using p x adopt_dom [OF near] by (auto simp: h1_def)
  then have "keeps (ptrs (nd d c t p (nd d c' near x far)) \<union> fptrs fs) s s'"
    using s'(3,4) by (intro keepsI) (auto simp: s1_def h1_def hf_def h_def)
  ultimately show ?thesis using run s'(1,2)
    by (intro exI [of _ "call_rotate rot s' p x"]) (simp add: keeps_def)
qed

lemma null_or_black_eq:
  assumes "tree_at (rheap s) p t" and "aligned p"
  shows "null_or_black s (rptr t) = Some (col t = Black)"
  using assms by (cases t) (auto simp: null_or_black_def run_simps)

lemma erase_case3:
  fixes s :: "'a rbs"
  defines "h \<equiv> rheap s"
  assumes p: "h p = Some (mk pcp d (rptr t) x)" and x: "h x = Some (mk pcx d y (rptr far))"
    and y: "h y = Some (mk pcy d (rptr a) (rptr b))"
    and trees: "tree_at h y a" "tree_at h y b" "tree_at h x far" and b: "col b = Black"
    and apart: "apart (nd d c t p (nd d c' (nd d c'' a y b) x far))"
    and nz: "x \<noteq> 0" "aligned x"
  shows "\<exists>s'. rb_erase_case3 rot d s p x y = Some s' \<and> rheap s' p = Some (mk pcp d (rptr t) y)
    \<and> rheap s' y = Some (mk pcy d (rptr a) x) \<and> rheap s' x = Some (mk pcx d (rptr b) (rptr far))
    \<and> tree_at (rheap s') x b \<and> tree_at (rheap s') y a \<and> rroot s' = rroot s
    \<and> keeps (insert p (insert x (insert y (ptrs b)))) s s'"
proof -
  define h1 where "h1 = (adopt h x b)(x \<mapsto> mk pcx d (rptr b) (rptr far), y \<mapsto> mk pcy d (rptr a) x, p \<mapsto> mk pcp d (rptr t) y)"
  define s1 where "s1 = s\<lparr>rheap := h1\<rparr>"
  have apt: "p \<noteq> x" "p \<noteq> y" "x \<noteq> y" "p \<notin> ptrs a" "p \<notin> ptrs b" "p \<notin> ptrs far" "x \<notin> ptrs a" "x \<notin> ptrs b"
    "y \<notin> ptrs a" "y \<notin> ptrs b" "y \<notin> ptrs far" "ptrs b \<inter> ptrs a = {}" "ptrs b \<inter> ptrs far = {}" "apart b"
    using apart by auto
  let ?s0 = "s\<lparr>rheap := h(x \<mapsto> mk pcx d (rptr b) (rptr far), y \<mapsto> mk pcy d (rptr a) x, p \<mapsto> mk pcp d (rptr t) y)\<rparr>"
  have set: "set_if ?s0 (rptr b) x (colw Black) = Some (?s0\<lparr>rheap := adopt (rheap ?s0) x b\<rparr>)"
    unfolding RB_colw [symmetric]
    by (rule set_if_adopt [where p = y]) (use trees apt b in simp_all)
  have run: "rb_erase_case3 rot d s p x y = Some (call_rotate rot s1 x y)"
    unfolding rb_erase_case3_def
    using p x y apt set by (simp add: run_simps h_def [symmetric] adopt_upd s1_def h1_def fun_upd_twist)
  have "tree_at h1 x b" using apt adopt_tree [OF trees(2), of x] by (simp add: h1_def)
  moreover have "tree_at h1 y a" using apt trees by (simp add: h1_def adopt_tree_other)
  moreover have "dom h1 = dom h" using p x y adopt_dom [OF trees(2)] by (auto simp: h1_def)
  then have "keeps (insert p (insert x (insert y (ptrs b)))) s s1"
    by (intro keepsI) (auto simp: s1_def h1_def h_def)
  ultimately show ?thesis
    using run apt by (intro exI [of _ "call_rotate rot s1 x y"]) (simp add: keeps_def s1_def h1_def)
qed

lemma black_sibling_far:
  assumes "holds s (plug (Fr d c p (nd d Black near x far) # fs) t)" and "col far = Red"
  shows "\<exists>s'. rb_erase_black_sibling rot d s p x = Some (Del_break s')
    \<and> holds s' (plug fs (nd d c (nd d Black t p near) x (paint Black far)))
    \<and> keeps (ptrs (plug (Fr d c p (nd d Black near x far) # fs) t)) s s'"
proof -
  let ?h = "rheap s"
  have H: "tree_at ?h (par fs) (nd d c t p (nd d Black near x far))" and C: "ctx_at ?h (rroot s) p fs"
    and apt: "apart (nd d c t p (nd d Black near x far))" "fapart fs"
    "ptrs (nd d c t p (nd d Black near x far)) \<inter> fptrs fs = {}"
    using assms(1) by (auto simp: holds_plug)
  have far: "far \<noteq> Tip" using assms(2) by auto
  obtain s' where s': "rb_erase_case4 rot d s p x (rptr far) = Some s'"
    "tree_at (rheap s') (par fs) (nd d c (nd d Black t p near) x (paint Black far))" "ctx_at (rheap s') (rroot s') x fs"
    "keeps (ptrs (nd d c t p (nd d Black near x far)) \<union> fptrs fs) s s'"
    using erase_case4 [where s = s and p = p and fs = fs and c = c and d = d and t = t and q = x and x = x
        and pcx = "p OR colw Black" and near = near and far = far and pn = x and pf = x and c' = Black and rot = rot]
      H C apt far by auto
  have "null_or_black s (rptr far) = Some False"
    using null_or_black_eq [of s x far] H assms(2) by simp
  then have "rb_erase_black_sibling rot d s p x = Some (Del_break s')"
    using H s'(1) by (simp add: rb_erase_black_sibling_def run_simps)
  moreover have "holds s' (plug fs (nd d c (nd d Black t p near) x (paint Black far)))"
    by (rule holds_plugI) (use s' apt in auto)
  ultimately show ?thesis using s'(4) by auto
qed

lemma black_sibling_near:
  assumes "holds s (plug (Fr d c p (nd d Black (nd d Red a y b) x far) # fs) t)" and "col far = Black" and "col b = Black"
  shows "\<exists>s'. rb_erase_black_sibling rot d s p x = Some (Del_break s')
    \<and> holds s' (plug fs (nd d c (nd d Black t p a) y (nd d Black b x far)))
    \<and> keeps (ptrs (plug (Fr d c p (nd d Black (nd d Red a y b) x far) # fs) t)) s s'"
proof -
  let ?h = "rheap s"
  let ?W = "nd d c t p (nd d Black (nd d Red a y b) x far)"
  have H: "tree_at ?h (par fs) ?W" and C: "ctx_at ?h (rroot s) p fs"
    and apt: "apart ?W" "fapart fs" "ptrs ?W \<inter> fptrs fs = {}"
    using assms(1) by (auto simp: holds_plug)
  obtain s1 where s1: "rb_erase_case3 rot d s p x y = Some s1"
    "rheap s1 p = Some (mk (par fs OR colw c) d (rptr t) y)" "rheap s1 y = Some (mk x d (rptr a) x)"
    "rheap s1 x = Some (mk (p OR colw Black) d (rptr b) (rptr far))"
    "tree_at (rheap s1) x b" "tree_at (rheap s1) y a" "rroot s1 = rroot s"
    "keeps (insert p (insert x (insert y (ptrs b)))) s s1"
    using erase_case3 [where s = s and p = p and pcp = "par fs OR colw c" and d = d and t = t and x = x and
        pcx = "p OR colw Black" and y = y and far = far and pcy = x and a = a and b = b and c = c and c' = Black
        and c'' = Red and rot = rot] H apt assms(3) by auto
  have fr: "tree_at (rheap s1) p t" "tree_at (rheap s1) x far"
    using tree_at_keeps [OF s1(8), of t p] tree_at_keeps [OF s1(8), of far x] H apt by auto
  have c1: "ctx_at (rheap s1) (rroot s) p fs = ctx_at ?h (rroot s) p fs"
    using s1(8) by (rule ctx_at_keeps) (use apt in auto)
  have "\<exists>s'. rb_erase_case4 rot d s1 p y (rptr (nd d Black b x far)) = Some s'
    \<and> tree_at (rheap s') (par fs) (nd d c (nd d Black t p a) y (paint Black (nd d Black b x far)))
    \<and> ctx_at (rheap s') (rroot s') y fs
    \<and> keeps (ptrs (nd d c t p (nd d Red a y (nd d Black b x far))) \<union> fptrs fs) s1 s'"
    by (rule erase_case4 [where q = y and pcx = x and pn = y and pf = p])
      (use s1 fr c1 H C apt in \<open>auto simp: Int_commute\<close>)
  then obtain s' where s': "rb_erase_case4 rot d s1 p y x = Some s'"
    "tree_at (rheap s') (par fs) (nd d c (nd d Black t p a) y (nd d Black b x far))"
    "ctx_at (rheap s') (rroot s') y fs"
    "keeps (ptrs (nd d c t p (nd d Red a y (nd d Black b x far))) \<union> fptrs fs) s1 s'" by auto
  have "null_or_black s (rptr far) = Some True" "null_or_black s y = Some False"
    using null_or_black_eq [of s x far] null_or_black_eq [of s x "nd d Red a y b"] H assms(2) by simp_all
  then have "rb_erase_black_sibling rot d s p x = Some (Del_break s')"
    using H s1(1) s'(1) by (simp add: rb_erase_black_sibling_def run_simps)
  moreover have "holds s' (plug fs (nd d c (nd d Black t p a) y (nd d Black b x far)))"
    by (rule holds_plugI) (use s' apt in auto)
  moreover have "keeps (ptrs (plug (Fr d c p (nd d Black (nd d Red a y b) x far) # fs) t)) s s'"
    using s1(8) s'(4) by (rule keeps_trans) auto
  ultimately show ?thesis by blast
qed

lemma black_sibling_flip:
  assumes "holds s (plug (Fr d c p (nd d Black near x far) # fs) t)" and "col near = Black" and "col far = Black"
  shows "\<exists>s'. rb_erase_black_sibling rot d s p x
        = Some (if c = Black \<and> fs \<noteq> [] then Del_continue s' p (par fs) else Del_break s')
    \<and> holds s' (plug fs (nd d Black t p (nd d Red near x far)))
    \<and> keeps (ptrs (plug (Fr d c p (nd d Black near x far) # fs) t)) s s'"
proof -
  let ?h = "rheap s"
  let ?W = "nd d c t p (nd d Black near x far)"
  have H: "tree_at ?h (par fs) ?W" and C: "ctx_at ?h (rroot s) p fs"
    and apt: "apart ?W" "fapart fs" "ptrs ?W \<inter> fptrs fs = {}"
    using assms(1) by (auto simp: holds_plug)
  have al: "aligned (par fs)" using C by (rule ctx_at_par)
  have nodes: "?h p = Some (mk (par fs OR colw c) d (rptr t) x)" "?h x = Some (mk (p OR colw Black) d (rptr near) (rptr far))"
    "p \<noteq> x" "aligned p" "aligned x" using H apt by auto
  define s' where "s' = s\<lparr>rheap := ?h(x \<mapsto> mk p d (rptr near) (rptr far), p \<mapsto> mk (par fs OR colw Black) d (rptr t) x)\<rparr>"
  have same: "s' = s\<lparr>rheap := ?h(x \<mapsto> mk p d (rptr near) (rptr far))\<rparr>" if "c = Black"
    using that nodes by (simp add: s'_def fun_eq_iff)
  have "null_or_black s (rptr far) = Some True" "null_or_black s (rptr near) = Some True"
    using null_or_black_eq [of s x far] null_or_black_eq [of s x near] H assms(2,3) by simp_all
  then have "rb_erase_black_sibling rot d s p x
        = Some (if c = Black \<and> fs \<noteq> [] then Del_continue s' p (par fs) else Del_break s')"
  proof (cases c)
    case Red
    then show ?thesis using \<open>null_or_black s (rptr far) = _\<close> \<open>null_or_black s (rptr near) = _\<close> nodes al
      by (simp add: rb_erase_black_sibling_def rb_erase_case2_def run_simps s'_def)
  next
    case Black
    then show ?thesis
      unfolding same [OF Black] using \<open>null_or_black s (rptr far) = _\<close> \<open>null_or_black s (rptr near) = _\<close> nodes al par_0 [OF C]
      by (simp add: rb_erase_black_sibling_def rb_erase_case2_def run_simps)
  qed
  moreover have "holds s' (plug fs (nd d Black t p (nd d Red near x far)))"
    by (rule holds_plugI) (use H C apt nodes in \<open>auto simp: s'_def\<close>)
  moreover have "keeps (ptrs (plug (Fr d c p (nd d Black near x far) # fs) t)) s s'"
    using nodes by (intro keepsI) (auto simp: s'_def)
  ultimately show ?thesis by blast
qed

lemma erase_case1_correct:
  assumes "holds s (plug (Fr d Black p (nd d Red near x far) # fs) t)" and "near \<noteq> Tip" and "col near = Black"
  shows "\<exists>s'. rb_erase_case1 rot d s p x = Some (s', rptr near)
    \<and> holds s' (plug (Fr d Red p near # Fr d Black x far # fs) t)
    \<and> keeps (ptrs (plug (Fr d Black p (nd d Red near x far) # fs) t)) s s'"
proof -
  let ?h = "rheap s"
  let ?W = "nd d Black t p (nd d Red near x far)"
  have H: "tree_at ?h (par fs) ?W" and C: "ctx_at ?h (rroot s) p fs"
    and apt: "apart ?W" "fapart fs" "ptrs ?W \<inter> fptrs fs = {}"
    using assms(1) by (auto simp: holds_plug)
  have al: "aligned (par fs)" using C by (rule ctx_at_par)
  have nodes: "?h p = Some (mk (par fs OR colw Black) d (rptr t) x)" "?h x = Some (mk p d (rptr near) (rptr far))"
    "p \<noteq> x" "aligned p" "aligned x" "p \<noteq> 0" "x \<noteq> 0" using H apt by auto
  have dj: "p \<notin> ptrs t" "p \<notin> ptrs near" "p \<notin> ptrs far" "x \<notin> ptrs t" "x \<notin> ptrs near" "x \<notin> ptrs far"
    "ptrs near \<inter> ptrs far = {}" "ptrs near \<inter> ptrs t = {}" "p \<notin> fptrs fs" "x \<notin> fptrs fs" "ptrs near \<inter> fptrs fs = {}"
    "apart near" using apt by auto
  define h1 where "h1 = (adopt ?h p near)(p \<mapsto> mk x d (rptr t) (rptr near), x \<mapsto> mk (par fs OR colw Black) d p (rptr far))"
  define s1 where "s1 = s\<lparr>rheap := h1\<rparr>"
  let ?s0 = "s\<lparr>rheap := ?h(p \<mapsto> mk (par fs OR colw Black) d (rptr t) (rptr near), x \<mapsto> mk p d p (rptr far))\<rparr>"
  have nearb: "paint Black near = near" using assms(3) by (cases near) auto
  have near: "tree_at ?h x near" using H by simp
  have set: "rb_set_parent_color ?s0 (rptr near) p (colw Black) = Some (?s0\<lparr>rheap := adopt (rheap ?s0) p near\<rparr>)"
    using set_color_adopt [of ?s0 x near p Black] near assms(2) dj nearb by simp
  have run: "rb_erase_case1 rot d s p x = map_option (\<lambda>s. (call_rotate rot s p x, rptr near)) (rb_change_child s1 p x (par fs))"
    unfolding rb_erase_case1_def
    using nodes dj al set
    by (simp add: run_simps rb_rotate_set_parents_def adopt_upd s1_def h1_def map_conv_bind_option comp_def fun_upd_twist)
  have "ctx_at (rheap s1) (rroot s1) p fs"
    using C dj by (simp add: s1_def h1_def adopt_ctx)
  then obtain s' where s': "rb_change_child s1 p x (par fs) = Some s'" "ctx_at (rheap s') (rroot s') x fs"
    "\<And>y. y \<notin> fptrs fs \<Longrightarrow> rheap s' y = rheap s1 y" "dom (rheap s') = dom (rheap s1)"
    using rb_change_child_hole [of s1 p fs] dj nodes apt(2) by metis
  let ?T = "nd d Black (nd d Red t p near) x far"
  have "tree_at (rheap s1) (par fs) ?T"
    using dj nodes H adopt_tree [OF near, of p] by (simp add: s1_def h1_def adopt_tree_other)
  moreover have "tree_at (rheap s') (par fs) ?T = tree_at (rheap s1) (par fs) ?T"
    by (rule tree_at_cong, rule s'(3)) (use apt in \<open>simp, blast\<close>)
  ultimately have "holds (call_rotate rot s' p x) (plug fs ?T)"
    by (intro holds_plugI) (use s' apt in auto)
  moreover have "dom h1 = dom ?h" using nodes adopt_dom [OF near] by (auto simp: h1_def)
  then have "keeps (ptrs (plug (Fr d Black p (nd d Red near x far) # fs) t)) s (call_rotate rot s' p x)"
    using s'(3,4) by (intro keepsI) (auto simp: s1_def h1_def)
  ultimately show ?thesis using run s'(1) by simp
qed

section \<open>The loop\<close>

lemma black_sibling_correct:
  assumes "holds s (plug (Fr d c p sib # fs) t)" and "col sib = Black" and "rbh (Suc n) sib"
  shows "\<exists>s'. rb_erase_black_sibling rot d s p (rptr sib)
        = Some (if \<not> settled c sib \<and> fs \<noteq> [] then Del_continue s' p (par fs) else Del_break s')
    \<and> holds s' (plug fs (del_black d c t p sib)) \<and> keeps (ptrs (plug (Fr d c p sib # fs) t)) s s'"
proof -
  obtain c' near x far where sib: "sib = nd d c' near x far"
    using assms(3) by (rule_tac t = sib and d = d in nd_cases) auto
  have c': "c' = Black" using assms(2) sib by simp
  have H: "holds s (plug (Fr d c p (nd d Black near x far) # fs) t)" using assms(1) sib c' by simp
  consider "col far = Red" | "col far = Black" "col near = Red" | "col far = Black" "col near = Black"
    using col_cases by blast
  then show ?thesis
  proof cases
    case 1
    then show ?thesis using black_sibling_far [OF H 1, of rot]
      by (auto simp: sib c' settled_nd del_black_def)
  next
    case 2
    obtain a y b where near: "near = nd d Red a y b"
      using 2 by (rule_tac t = near and d = d in nd_cases) auto
    have "col b = Black" using assms(3) by (simp add: sib c' near)
    then show ?thesis using black_sibling_near [OF H [unfolded near] 2(1), of rot] 2(1)
      by (auto simp: sib c' settled_nd del_black_def near)
  next
    case 3
    then show ?thesis using black_sibling_flip [OF H 3(2,1), of rot]
      by (cases c) (auto simp: sib c' settled_nd del_black_def)
  qed
qed

lemma rb_erase_loop_correct:
  assumes "holds s (plug fs t)" and "hole (Suc n) fs" and "rbh n t" and "col t = Black" and "fs \<noteq> []"
  shows "\<exists>s'. rb_erase_color_loop rot s (rptr t) (par fs) = Some s' \<and> holds s' (del_fix fs t)
    \<and> keeps (ptrs (plug fs t)) s s'"
  using assms
proof (induction fs t arbitrary: s n rule: del_fix.induct)
  case (1 t)
  then show ?case by simp
next
  case (2 d c p sib fs t)
  let ?W = "plug (Fr d c p sib # fs) t"
  have sibn: "rbh (Suc n) sib" using "2.prems"(2) by simp
  have T: "tree_at (rheap s) (par fs) (nd d c t p sib)" and apt: "apart (nd d c t p sib)"
    using "2.prems"(1) by (auto simp: holds_plug)
  have p: "rheap s p = Some (mk (par fs OR colw c) d (rptr t) (rptr sib))" "tree_at (rheap s) p sib" "aligned p"
    using T by auto
  have "sib \<noteq> Tip" using sibn by auto
  then have "rptr sib \<in> ptrs sib" "rptr sib \<noteq> 0" using rptr_ptrs p(2) rptr_0 by auto
  then have "rptr t \<noteq> rptr sib" using apt by (cases t) auto
  then have side: "(if rptr t \<noteq> child_of Rt (mk (par fs OR colw c) d (rptr t) (rptr sib)) then Lf else Rt) = d"
    by (cases d) (auto simp: mk_def)
  have red: "rb_is_red s (rptr sib) = Some (col sib = Red)"
    using p(2,3) \<open>sib \<noteq> Tip\<close> by (cases sib) (auto simp: run_simps)
  have loop: "rb_erase_color_loop rot s (rptr t) (par (Fr d c p sib # fs)) =
     Option.bind (rb_erase_side rot d s p) (\<lambda>r. case r of Del_break s \<Rightarrow> Some s
       | Del_continue s node parent \<Rightarrow> rb_erase_color_loop rot s node parent)"
    using p(1) side by (subst rb_erase_color_loop.simps) (simp add: run_simps)
  show ?case
  proof (cases "col sib = Red")
    case True
    have c: "c = Black" using "2.prems"(2) True by (cases c) simp_all
    obtain near x far where sib: "sib = nd d Red near x far"
      using True by (rule_tac t = sib and d = d in nd_cases) auto
    have near: "near \<noteq> Tip" "col near = Black" "rbh (Suc n) near" using sibn sib by auto
    obtain s1 where s1: "rb_erase_case1 rot d s p x = Some (s1, rptr near)"
      "holds s1 (plug (Fr d Red p near # Fr d Black x far # fs) t)" "keeps (ptrs ?W) s s1"
      using erase_case1_correct [OF "2.prems"(1) [unfolded c sib] near(1,2), of rot] c sib by auto
    obtain s' where s': "rb_erase_black_sibling rot d s1 p (rptr near) = Some (Del_break s')"
      "holds s' (plug (Fr d Black x far # fs) (del_black d Red t p near))"
      "keeps (ptrs (plug (Fr d Red p near # Fr d Black x far # fs) t)) s1 s'"
      using black_sibling_correct [OF s1(2) near(2,3), of rot] by (auto simp: settled_def)
    have "rb_erase_side rot d s p = Some (Del_break s')"
      using p(1) red True s1(1) s'(1) by (simp add: rb_erase_side_def run_simps sib)
    moreover have "keeps (ptrs ?W) s s'"
      using s1(3) s'(3) by (rule keeps_trans) (auto simp: sib)
    ultimately show ?thesis using loop s'(2) by (simp add: sib)
  next
    case False
    then have b: "col sib = Black" by simp
    obtain s1 where s1: "rb_erase_black_sibling rot d s p (rptr sib)
        = Some (if \<not> settled c sib \<and> fs \<noteq> [] then Del_continue s1 p (par fs) else Del_break s1)"
      "holds s1 (plug fs (del_black d c t p sib))" "keeps (ptrs ?W) s s1"
      using black_sibling_correct [OF "2.prems"(1) b sibn, of rot] by blast
    have side_run: "rb_erase_side rot d s p
        = Some (if \<not> settled c sib \<and> fs \<noteq> [] then Del_continue s1 p (par fs) else Del_break s1)"
      using p(1) red b s1(1) by (simp add: rb_erase_side_def run_simps)
    show ?thesis
    proof (cases "\<not> settled c sib \<and> fs \<noteq> []")
      case ns: True
      then have c: "c = Black" by (auto simp: settled_def)
      note D = del_black_rbh [OF sibn b "2.prems"(3,4)]
      have "\<exists>s'. rb_erase_color_loop rot s1 (rptr (del_black d c t p sib)) (par fs) = Some s'
        \<and> holds s' (del_fix fs (del_black d c t p sib)) \<and> keeps (ptrs (plug fs (del_black d c t p sib))) s1 s'"
        by (rule "2.IH" [OF _ _ s1(2), of "Suc n"])
          (use b ns D(2) [of d c p] D(3) [of d p] "2.prems"(2) c in auto)
      then obtain s' where s': "rb_erase_color_loop rot s1 (rptr (del_black d c t p sib)) (par fs) = Some s'"
        "holds s' (del_fix fs (del_black d c t p sib))" "keeps (ptrs (plug fs (del_black d c t p sib))) s1 s'"
        by blast
      have "rptr (del_black d c t p sib) = p"
        using ns by (cases d) (auto simp: del_black_def settled_def Let_def)
      moreover have "ptrs (plug fs (del_black d c t p sib)) = ptrs ?W"
        using inorder_del_black [OF sibn, of d c t p] by (simp add: ptrs_def [of "del_black d c t p sib"])
          (simp add: ptrs_def [symmetric])
      ultimately show ?thesis
        using loop side_run ns s' b keeps_trans [OF s1(3), of "ptrs ?W" s' "ptrs ?W"] by auto
    next
      case st: False
      have "del_fix (Fr d c p sib # fs) t = plug fs (del_black d c t p sib)"
        using b st by auto
      then show ?thesis using loop side_run st s1 by auto
    qed
  qed
qed

end
