(* ===== verification/RbUnlink.thy ===== *)
theory RbUnlink
  imports RbErase
begin

text \<open>
  \<open>__rb_erase_augmented\<close>: unlinking. A node with two children is replaced by its successor,
  the leftmost node under its right child, found along a path of left links.
\<close>

section \<open>Paths inside a subtree\<close>

definition topp :: "ptr \<Rightarrow> frame list \<Rightarrow> ptr" where
  "topp p fs = (if fs = [] then p else case last fs of Fr d c x u \<Rightarrow> x)"

fun seg_at :: "(ptr \<rightharpoonup> rb_node) \<Rightarrow> ptr \<Rightarrow> ptr \<Rightarrow> frame list \<Rightarrow> bool" where
  "seg_at h q p [] = True"
| "seg_at h q p (Fr d c x u # fs) \<longleftrightarrow> x \<noteq> 0 \<and> aligned x
     \<and> h x = Some (mk ((if fs = [] then q else par fs) OR colw c) d p (rptr u)) \<and> tree_at h x u \<and> seg_at h q x fs"

lemma topp_simps [simp]: "topp p [] = p" "topp p (Fr d c x u # fs) = topp x fs"
  "topp p (fs @ [Fr d c x u]) = x"
  by (simp_all add: topp_def)

lemma par_append: "par (fs @ gs) = (if fs = [] then par gs else par fs)"
  by (cases fs rule: par.cases) auto

lemma ctx_at_append: "ctx_at h root p (fs @ gs) \<longleftrightarrow> seg_at h (par gs) p fs \<and> ctx_at h root (topp p fs) gs"
proof (induction fs arbitrary: p)
  case (Cons f fs)
  then show ?case by (cases f) (auto simp: par_append)
qed simp

lemma tree_at_plug_seg:
  "tree_at h q (plug fs t) \<longleftrightarrow> seg_at h q (rptr t) fs \<and> tree_at h (if fs = [] then q else par fs) t"
proof (induction fs arbitrary: t)
  case (Cons f fs)
  then show ?case by (cases f) auto
qed simp

lemma rptr_plug: "rptr (plug fs t) = topp (rptr t) fs"
proof (induction fs arbitrary: t)
  case (Cons f fs)
  then show ?case by (cases f) auto
qed simp

lemma seg_at_append: "seg_at h q p (fs @ gs) \<longleftrightarrow>
    seg_at h (if gs = [] then q else par gs) p fs \<and> seg_at h q (topp p fs) gs"
proof (induction fs arbitrary: p)
  case (Cons f fs)
  then show ?case by (cases f) (auto simp: par_append)
qed simp

lemma seg_at_cong: "(\<And>x. x \<in> fptrs fs \<Longrightarrow> h' x = h x) \<Longrightarrow> seg_at h' q p fs = seg_at h q p fs"
proof (induction h q p fs rule: seg_at.induct)
  case (2 h q p d c x u fs)
  then show ?case using tree_at_cong [of u h' h x] by auto
qed simp

lemma seg_at_upd [simp]: "x \<notin> fptrs fs \<Longrightarrow> seg_at (h(x \<mapsto> n)) q p fs = seg_at h q p fs"
  by (rule seg_at_cong) auto

lemma seg_at_adopt: "ptrs t \<inter> fptrs fs = {} \<Longrightarrow> seg_at (adopt h q' t) q p fs = seg_at h q p fs"
  by (rule seg_at_cong, rule adopt_other) blast

lemma fptrs_append [simp]: "fptrs (fs @ gs) = fptrs fs \<union> fptrs gs"
proof (induction fs)
  case (Cons f fs)
  then show ?case by (cases f) auto
qed simp

lemma fapart_append: "fapart (fs @ gs) \<longleftrightarrow> fapart fs \<and> fapart gs \<and> fptrs fs \<inter> fptrs gs = {}"
proof (induction fs)
  case (Cons f fs)
  then show ?case by (cases f) auto
qed simp

lemma topp_fptrs: "fs \<noteq> [] \<Longrightarrow> topp p fs \<in> fptrs fs"
  by (cases fs rule: rev_cases; cases "last fs") (auto simp: topp_def)

text \<open>Turning the hole to another pointer, and the top to another parent.\<close>

lemma seg_focus:
  assumes "seg_at h q p (Fr d c x u # fs)" and "fapart (Fr d c x u # fs)"
  shows "\<exists>n. h x = Some n \<and> seg_at (h(x \<mapsto> set_child_of d p' n)) q p' (Fr d c x u # fs)"
  using assms by auto

lemma seg_top:
  assumes "seg_at h q p fs" and "fs \<noteq> []" and "fapart fs" and "aligned q"
  shows "\<exists>n. h (topp p fs) = Some n
    \<and> seg_at (h(topp p fs \<mapsto> n\<lparr>parent_color := rb_color_pc (parent_color n) OR q'\<rparr>)) q' p fs"
proof -
  obtain gs d c x u where fs: "fs = gs @ [Fr d c x u]"
    using assms(2) by (metis frame.exhaust rev_exhaust)
  have "x \<notin> fptrs gs" "x \<notin> ptrs u" using assms(3) by (auto simp: fs fapart_append)
  then show ?thesis using assms(1,4) by (auto simp: fs seg_at_append)
qed

section \<open>The successor\<close>

definition all_left :: "frame list \<Rightarrow> bool" where
  "all_left fs \<longleftrightarrow> (\<forall>f \<in> set fs. case f of Fr d c x u \<Rightarrow> d = Lf)"

lemma leftmost: "t \<noteq> Tip \<Longrightarrow> \<exists>fs c x r. t = plug fs (Node c Tip x r) \<and> all_left fs"
proof (induction t)
  case (Node c l x r)
  show ?case
  proof (cases "l = Tip")
    case True
    then show ?thesis by (intro exI [of _ "[]"]) (auto simp: all_left_def)
  next
    case False
    then obtain fs c' x' r' where "l = plug fs (Node c' Tip x' r')" "all_left fs" using Node.IH(1) by blast
    then show ?thesis
      by (intro exI [of _ "fs @ [Fr Lf c x r]"] exI [of _ c'] exI [of _ x'] exI [of _ r'])
        (auto simp: all_left_def)
  qed
qed simp

lemma find_successor_correct:
  assumes "seg_at (rheap s) q y fs" and "fs \<noteq> []" and "all_left fs" and "get_child s y Lf = Some 0" and "y \<noteq> 0"
  shows "\<exists>tmp. get_child s (topp y fs) Lf = Some tmp \<and> tmp \<noteq> 0 \<and> find_successor s (topp y fs) tmp = Some (par fs, y)"
  using assms(1-3)
proof (induction fs arbitrary: q rule: rev_induct)
  case (snoc f gs)
  obtain c x u where f: "f = Fr Lf c x u"
    using snoc.prems(3) by (cases f) (auto simp: all_left_def)
  have x: "rheap s x = Some (mk (q OR colw c) Lf (topp y gs) (rptr u))" "seg_at (rheap s) x y gs"
    using snoc.prems(1) by (auto simp: f seg_at_append)
  show ?case
  proof (cases "gs = []")
    case True
    then show ?thesis using x assms(4,5)
      by (subst find_successor.simps) (simp add: f run_simps)
  next
    case False
    have "all_left gs" using snoc.prems(3) by (simp add: all_left_def)
    with snoc.IH [OF x(2) False] obtain tmp where tmp: "get_child s (topp y gs) Lf = Some tmp" "tmp \<noteq> 0"
      "find_successor s (topp y gs) tmp = Some (par gs, y)" by blast
    have "topp y gs \<noteq> 0" using x(2) False
      by (cases gs rule: rev_cases; cases "last gs") (auto simp: seg_at_append)
    then show ?thesis using x tmp False
      by (subst find_successor.simps) (simp add: f run_simps par_append)
  qed
qed simp

section \<open>A node with two children\<close>

lemma callbacks_fields [simp]:
  "rheap (call_copy cb s a b) = rheap s" "rroot (call_copy cb s a b) = rroot s"
  "rheap (call_propagate cb s a b) = rheap s" "rroot (call_propagate cb s a b) = rroot s"
  by (simp_all add: call_copy_def call_propagate_def)

lemma detach_successor_correct:
  assumes "tree_at (rheap s) q (plug lfs (Node cs Tip y c2))" and "all_left lfs" and "aligned q"
    and "apart (plug lfs (Node cs Tip y c2))"
  shows "\<exists>s'. detach_successor cb s x (topp y lfs) = Some (s', (if lfs = [] then y else par lfs), y, rptr c2)
    \<and> (\<exists>pq. aligned pq \<and> rheap s' y = Some (mk (pq OR colw cs) Lf 0 (topp (rptr c2) lfs)))
    \<and> seg_at (rheap s') y (rptr c2) lfs \<and> tree_at (rheap s') y c2 \<and> rroot s' = rroot s
    \<and> keeps (ptrs (plug lfs (Node cs Tip y c2))) s s'"
proof -
  let ?h = "rheap s"
  have seg: "seg_at ?h q y lfs" and y: "y \<noteq> 0" "aligned y"
    "?h y = Some (mk ((if lfs = [] then q else par lfs) OR colw cs) Lf 0 (rptr c2))" "tree_at ?h y c2"
    using assms(1) by (auto simp: tree_at_plug_seg split: if_splits)
  show ?thesis
  proof (cases lfs rule: rev_cases)
    case Nil
    then show ?thesis using y assms(3)
      by (auto simp: detach_successor_def run_simps keeps_def intro!: exI [of _ q])
  next
    case (snoc gs f0)
    then have ne: "lfs \<noteq> []" by simp
    obtain d0 c0 p0 u0 fs0 where lfs: "lfs = Fr d0 c0 p0 u0 # fs0"
      using ne by (metis neq_Nil_conv frame.exhaust)
    have d0: "d0 = Lf" using assms(2) by (simp add: lfs all_left_def)
    let ?t = "topp y lfs"
    have ap: "y \<notin> fptrs lfs" "y \<notin> ptrs c2" "fptrs lfs \<inter> ptrs c2 = {}" "fapart lfs"
      using assms(4) by (auto simp: apart_plug)
    have t: "?t \<in> fptrs lfs" using ne by (rule topp_fptrs)
    have top2: "topp (rptr c2) lfs = ?t" using ne by (simp add: topp_def)
    have p0: "p0 \<in> fptrs lfs" by (simp add: lfs)
    have "get_child s y Lf = Some 0" using y(3) by (simp add: run_simps)
    then obtain tmp where tmp: "get_child s ?t Lf = Some tmp" "tmp \<noteq> 0"
      "find_successor s ?t tmp = Some (p0, y)"
      using find_successor_correct [OF seg ne assms(2) _ y(1)] by (auto simp: lfs)
    obtain n0 where n0: "?h p0 = Some n0" "seg_at (?h(p0 \<mapsto> set_child_of Lf (rptr c2) n0)) q (rptr c2) lfs"
      using seg_focus [of ?h q y d0 c0 p0 u0 fs0 "rptr c2"] seg ap(4) by (auto simp: lfs d0)
    define h1 where "h1 = ?h(p0 \<mapsto> set_child_of Lf (rptr c2) n0)"
    obtain nt where nt: "h1 ?t = Some nt"
      "seg_at (h1(?t \<mapsto> nt\<lparr>parent_color := rb_color_pc (parent_color nt) OR y\<rparr>)) y (rptr c2) lfs"
      using seg_top [OF n0(2) ne ap(4) assms(3), of y] unfolding top2 h1_def [symmetric] by blast
    define h2 where "h2 = h1(?t \<mapsto> nt\<lparr>parent_color := rb_color_pc (parent_color nt) OR y\<rparr>)"
    define h3 where "h3 = h2(y \<mapsto> mk (par lfs OR colw cs) Lf 0 ?t)"
    have yne: "y \<noteq> p0" "y \<noteq> ?t" using ap(1) t p0 by auto
    let ?s1 = "s\<lparr>rheap := h1\<rparr>"
    let ?s' = "call_propagate cb (call_copy cb (s\<lparr>rheap := h3\<rparr>) x y) p0 y"
    have h3': "h3 = h1(y \<mapsto> mk (par lfs OR colw cs) Lf 0 ?t, ?t \<mapsto> nt\<lparr>parent_color := rb_color_pc (parent_color nt) OR y\<rparr>)"
      using yne by (simp add: h3_def h2_def fun_upd_twist)
    have run: "detach_successor cb s x ?t = Some (?s', p0, y, rptr c2)"
    proof -
      have "put_child s p0 Lf (rptr c2) = Some ?s1"
        using n0(1) by (simp add: run_simps h1_def)
      moreover have "get_child s y Rt = Some (rptr c2)" using y(3) by (simp add: run_simps)
      moreover have "put_child ?s1 y Rt ?t = Some (s\<lparr>rheap := h1(y \<mapsto> mk (par lfs OR colw cs) Lf 0 ?t)\<rparr>)"
        using y(3) yne(1) ne by (simp add: run_simps h1_def mk_def)
      moreover have "rb_set_parent (s\<lparr>rheap := h1(y \<mapsto> mk (par lfs OR colw cs) Lf 0 ?t)\<rparr>) ?t y = Some (s\<lparr>rheap := h3\<rparr>)"
        using nt(1) yne(2) by (simp add: run_simps h3')
      ultimately show ?thesis using tmp by (simp add: detach_successor_def Let_def)
    qed
    have "seg_at h3 y (rptr c2) lfs" using nt(2) ap(1) by (simp add: h3_def h2_def)
    moreover have "tree_at h3 y c2"
    proof -
      have "tree_at h3 y c2 = tree_at ?h y c2"
        by (rule tree_at_cong) (use ap t p0 in \<open>auto simp: h3_def h2_def h1_def\<close>)
      then show ?thesis using y(4) by simp
    qed
    moreover have "dom h3 = dom ?h" using n0(1) nt(1) y(3) by (auto simp: h3_def h2_def h1_def split: if_splits)
    then have "keeps (ptrs (plug lfs (Node cs Tip y c2))) s ?s'"
      using t p0 by (intro keepsI) (auto simp: h3_def h2_def h1_def)
    moreover have "aligned (par lfs)"
      using seg by (simp add: lfs)
    ultimately show ?thesis
      using run ne by (intro exI [of _ ?s']) (auto simp: h3_def top2 lfs intro!: exI [of _ "par lfs"])
  qed
qed

lemma rb_erase_two_correct:
  assumes "holds s (plug fs (Node c l x (plug lfs (Node cs Tip y c2))))" and "l \<noteq> Tip" and "all_left lfs"
  defines "F \<equiv> lfs @ Fr Rt c y l # fs"
  shows "\<exists>s'. rb_erase_two cb s x (topp y lfs)
      = Some (s', if c2 = Tip \<and> cs = Black then par F else 0, y)
    \<and> holds s' (plug F (paint Black c2))
    \<and> keeps (ptrs (plug fs (Node c l x (plug lfs (Node cs Tip y c2))))) s s'"
proof -
  let ?h = "rheap s" and ?r = "plug lfs (Node cs Tip y c2)"
  let ?W = "plug fs (Node c l x ?r)"
  have H: "tree_at ?h (par fs) (Node c l x ?r)" and C: "ctx_at ?h (rroot s) x fs"
    and apt: "apart (Node c l x ?r)" "fapart fs" "ptrs (Node c l x ?r) \<inter> fptrs fs = {}"
    using assms(1) by (auto simp: holds_plug)
  have al: "aligned (par fs)" using C by (rule ctx_at_par)
  have ap: "x \<noteq> y" "x \<notin> ptrs l" "x \<notin> ptrs c2" "x \<notin> fptrs lfs" "x \<notin> fptrs fs" "y \<notin> ptrs l" "y \<notin> ptrs c2"
    "y \<notin> fptrs lfs" "y \<notin> fptrs fs" "ptrs l \<inter> ptrs c2 = {}" "ptrs c2 \<inter> ptrs l = {}" "ptrs l \<inter> fptrs lfs = {}" "ptrs c2 \<inter> fptrs lfs = {}"
    "ptrs l \<inter> fptrs fs = {}" "ptrs c2 \<inter> fptrs fs = {}" "fptrs lfs \<inter> fptrs fs = {}"
    "apart l" "apart c2" "fapart lfs"
    using apt by (auto simp: apart_plug)
  have x: "x \<noteq> 0" "aligned x" "?h x = Some (mk (par fs OR colw c) Lf (rptr l) (rptr ?r))" "tree_at ?h x l" "tree_at ?h x ?r"
    using H by auto
  have y: "y \<noteq> 0" "aligned y" using x(5) by (auto simp: tree_at_plug_seg)
  obtain s1 pq where s1: "detach_successor cb s x (topp y lfs) = Some (s1, (if lfs = [] then y else par lfs), y, rptr c2)"
    "aligned pq" "rheap s1 y = Some (mk (pq OR colw cs) Lf 0 (topp (rptr c2) lfs))"
    "seg_at (rheap s1) y (rptr c2) lfs" "tree_at (rheap s1) y c2" "rroot s1 = rroot s" "keeps (ptrs ?r) s s1"
    using detach_successor_correct [OF x(5) assms(3) x(2), of cb x] apt(1) by auto
  have parF: "par F = (if lfs = [] then y else par lfs)" by (simp add: F_def par_append)
  have alF: "aligned (par F)" using y s1(4) by (cases lfs rule: par.cases) (auto simp: parF)
  have x1: "rheap s1 x = ?h x" using s1(7) by (rule keeps_get) (use ap in auto)
  have l1: "tree_at (rheap s1) x l"
    using tree_at_keeps [OF s1(7), of l x] x(4) ap by auto
  have C1: "ctx_at (rheap s1) (rroot s) x fs"
    using ctx_at_keeps [OF s1(7), of fs "rroot s" x] C apt(3) by auto
  define h2 where "h2 = (adopt (rheap s1) y l)(y \<mapsto> mk (pq OR colw cs) Lf (rptr l) (topp (rptr c2) lfs))"
  define s2 where "s2 = s1\<lparr>rheap := h2\<rparr>"
  have s2h: "rheap s2 = h2" by (simp add: s2_def)
  have run1: "put_child s1 y Lf (rptr l) = Some (s1\<lparr>rheap := (rheap s1)(y \<mapsto> mk (pq OR colw cs) Lf (rptr l) (topp (rptr c2) lfs))\<rparr>)"
    using s1(3) by (simp add: run_simps)
  have run2: "rb_set_parent (s1\<lparr>rheap := (rheap s1)(y \<mapsto> mk (pq OR colw cs) Lf (rptr l) (topp (rptr c2) lfs))\<rparr>) (rptr l) y = Some s2"
    using set_parent_adopt [of "s1\<lparr>rheap := (rheap s1)(y \<mapsto> mk (pq OR colw cs) Lf (rptr l) (topp (rptr c2) lfs))\<rparr>" x l y]
      l1 assms(2) x(2) ap by (simp add: adopt_upd s2_def h2_def)
  have x2: "rheap s2 x = Some (mk (par fs OR colw c) Lf (rptr l) (rptr ?r))"
    using x(3) x1 ap by (simp add: s2_def h2_def)
  have C2: "ctx_at (rheap s2) (rroot s2) x fs"
    using C1 s1(6) ap by (simp add: s2_def h2_def adopt_ctx)
  obtain s3 where s3: "rb_change_child s2 x y (par fs) = Some s3" "ctx_at (rheap s3) (rroot s3) y fs"
    "\<And>z. z \<notin> fptrs fs \<Longrightarrow> rheap s3 z = rheap s2 z" "dom (rheap s3) = dom (rheap s2)"
    using rb_change_child_hole [OF C2 ap(5) x(1) apt(2)] by metis
  have y3: "rheap s3 y = Some (mk (pq OR colw cs) Lf (rptr l) (topp (rptr c2) lfs))"
    using s3(3) [of y] ap by (simp add: s2_def h2_def)
  define h4 where "h4 = (rheap s3)(y \<mapsto> mk (par fs OR colw c) Lf (rptr l) (topp (rptr c2) lfs))"
  define s4 where "s4 = s3\<lparr>rheap := h4\<rparr>"
  have put4: "put_pc s3 y (par fs OR colw c) = Some s4"
    using y3 by (simp add: run_simps s4_def h4_def)
  have c24: "tree_at h4 y c2"
  proof -
    have "tree_at h4 y c2 = tree_at (rheap s3) y c2" using ap by (simp add: h4_def)
    also have "\<dots> = tree_at h2 y c2"
      unfolding s2h [symmetric] by (rule tree_at_cong, rule s3(3)) (use ap in blast)
    also have "\<dots> = tree_at (rheap s1) y c2" using ap by (simp add: h2_def adopt_tree_other)
    finally show ?thesis using s1(5) by simp
  qed
  have l4: "tree_at h4 y l"
  proof -
    have "tree_at h4 y l = tree_at (rheap s3) y l" using ap by (simp add: h4_def)
    also have "\<dots> = tree_at h2 y l"
      unfolding s2h [symmetric] by (rule tree_at_cong, rule s3(3)) (use ap in blast)
    finally show ?thesis using adopt_tree [OF l1 ap(17), of y] ap by (simp add: h2_def)
  qed
  have seg4: "seg_at h4 y (rptr c2) lfs"
  proof -
    have "seg_at h4 y (rptr c2) lfs = seg_at (rheap s3) y (rptr c2) lfs" using ap by (simp add: h4_def)
    also have "\<dots> = seg_at h2 y (rptr c2) lfs"
      unfolding s2h [symmetric] by (rule seg_at_cong, rule s3(3)) (use ap in blast)
    also have "\<dots> = seg_at (rheap s1) y (rptr c2) lfs" using ap by (simp add: h2_def seg_at_adopt)
    finally show ?thesis using s1(4) by simp
  qed
  have ctxF: "ctx_at h4 (rroot s4) (rptr c2) F"
    using seg4 l4 s3(2) y ap by (simp add: F_def ctx_at_append h4_def mk_Rt s4_def)
  have apF: "fapart F" "ptrs c2 \<inter> fptrs F = {}"
    using ap apt(2) by (auto simp: F_def fapart_append)
  have d4: "dom h4 = dom ?h"
    using s1(7) s3(4) y3 s1(3) adopt_dom [OF l1, of y] by (auto simp: h4_def s2_def h2_def keeps_def)
  have keep4: "keeps (ptrs ?W) s s4"
  proof (rule keepsI)
    show "rheap s4 z = rheap s z" if "z \<notin> ptrs ?W" for z
      using that s3(3) [of z] keeps_get [OF s1(7), of z] by (simp add: s4_def h4_def s2_def h2_def)
  qed (use d4 in \<open>simp add: s4_def\<close>)
  show ?thesis
  proof (cases "c2 = Tip")
    case True
    have "rb_erase_two cb s x (topp y lfs) = Some (s4, if cs = Black then par F else 0, y)"
      using s1(1) x(3) x1 run1 run2 x2 s3(1) y3 put4 al True s1(2)
      by (simp add: rb_erase_two_def run_simps parF)
    moreover have "holds s4 (plug F (paint Black c2))"
      using True ctxF apF by (intro holds_plugI) (auto simp: s4_def)
    ultimately show ?thesis using keep4 True by auto
  next
    case False
    define s5 where "s5 = s4\<lparr>rheap := adopt h4 (par F) (paint Black c2)\<rparr>"
    have put5: "rb_set_parent_color s4 (rptr c2) (par F) (colw Black) = Some s5"
      using set_color_adopt [of s4 y c2 "par F" Black] c24 False by (simp add: s4_def s5_def)
    have "rptr c2 \<noteq> 0" using rptr_0 [OF c24] False by simp
    then have "rb_erase_two cb s x (topp y lfs) = Some (s5, 0, y)"
      using s1(1) x(3) x1 run1 run2 x2 s3(1) y3 put4 put5 al
      by (simp add: rb_erase_two_def run_simps parF)
    moreover have "holds s5 (plug F (paint Black c2))"
      using adopt_paint [OF c24 ap(18), of "par F" Black] ctxF apF ap(18)
      by (intro holds_plugI) (auto simp: s5_def s4_def adopt_ctx)
    moreover have "keeps (ptrs ?W) s s5"
    proof (rule keeps_trans [OF keep4, of "ptrs c2"])
      show "keeps (ptrs c2) s4 s5"
      proof (rule keepsI)
        show "dom (rheap s5) = dom (rheap s4)"
          using c24 False by (cases c2) (auto simp: s5_def s4_def adopt_def)
      qed (simp add: s5_def s4_def)
    qed auto
    ultimately show ?thesis using False by auto
  qed
qed

section \<open>A node with at most one child\<close>

lemma rb_erase_node_one:
  assumes "holds s (plug fs (Node c l x r))" and "l = Tip \<or> r = Tip"
  defines "k \<equiv> if l = Tip then r else l"
  shows "\<exists>s'. rb_erase_node cb s x = Some (s', if k = Tip \<and> c = Black then par fs else 0)
    \<and> holds s' (plug fs (paint c k)) \<and> keeps (ptrs (plug fs (Node c l x r))) s s'"
proof -
  let ?h = "rheap s" and ?W = "plug fs (Node c l x r)"
  have H: "tree_at ?h (par fs) (Node c l x r)" and C: "ctx_at ?h (rroot s) x fs"
    and apt: "apart (Node c l x r)" "fapart fs" "ptrs (Node c l x r) \<inter> fptrs fs = {}"
    using assms(1) by (auto simp: holds_plug)
  have al: "aligned (par fs)" using C by (rule ctx_at_par)
  have ap: "x \<notin> ptrs k" "x \<notin> fptrs fs" "ptrs k \<inter> fptrs fs = {}" "apart k"
    using apt by (auto simp: k_def)
  have x: "x \<noteq> 0" "aligned x" "?h x = Some (mk (par fs OR colw c) Lf (rptr l) (rptr r))" "tree_at ?h x k"
    "tree_at ?h x l" "tree_at ?h x r"
    using H by (auto simp: k_def)
  have kk: "rptr k = (if rptr l = 0 then rptr r else rptr l)"
    using rptr_0 [OF x(5)] by (auto simp: k_def)
  show ?thesis
  proof (cases "l = Tip")
    case True
    then have kr: "k = r" by (simp add: k_def)
    obtain s1 where s1: "rb_change_child s x (rptr k) (par fs) = Some s1" "ctx_at (rheap s1) (rroot s1) (rptr k) fs"
      "\<And>z. z \<notin> fptrs fs \<Longrightarrow> rheap s1 z = ?h z" "dom (rheap s1) = dom ?h"
      using rb_change_child_hole [OF C ap(2) x(1) apt(2)] by metis
    have k1: "tree_at (rheap s1) x k"
      using x(4) tree_at_cong [of k "rheap s1" ?h x] s1(3) ap(3) by auto
    show ?thesis
    proof (cases "k = Tip")
      case k: True
      let ?s = "call_propagate cb s1 (par fs) 0"
      have "rb_erase_node cb s x = Some (?s, if c = Black then par fs else 0)"
        using x(3) True k kr s1(1) al by (simp add: rb_erase_node_def run_simps Let_def)
      moreover have "holds ?s (plug fs (paint c k))"
        using s1(2) k apt(2) by (intro holds_plugI) auto
      moreover have "keeps (ptrs ?W) s ?s" using s1(3,4) by (intro keepsI) auto
      ultimately show ?thesis using k by auto
    next
      case k: False
      let ?s1 = "s1\<lparr>rheap := adopt (rheap s1) (par fs) (paint c k)\<rparr>"
      let ?s = "call_propagate cb ?s1 (par fs) 0"
      have put: "put_pc s1 (rptr k) (par fs OR colw c) = Some ?s1"
        using set_color_adopt [OF k1 k, of "par fs" c] by (simp add: rb_set_parent_color_def)
      have "rptr k \<noteq> 0" using rptr_0 [OF x(4)] k by simp
      then have "rb_erase_node cb s x = Some (?s, 0)"
        using x(3) True kr s1(1) al put by (simp add: rb_erase_node_def run_simps Let_def)
      moreover have "holds ?s (plug fs (paint c k))"
        using adopt_paint [OF k1 ap(4), of "par fs" c] s1(2) apt(2) ap
        by (intro holds_plugI) (auto simp: adopt_ctx)
      moreover have "dom (rheap ?s1) = dom (rheap s1)"
        using k1 k by (cases k) (auto simp: adopt_def)
      then have "keeps (ptrs ?W) s ?s" using s1(3,4) kr by (intro keepsI) auto
      ultimately show ?thesis using k by auto
    qed
  next
    case False
    then have r: "r = Tip" and kl: "k = l" using assms(2) by (auto simp: k_def)
    have k: "k \<noteq> Tip" using False kl by simp
    let ?s1 = "s\<lparr>rheap := adopt ?h (par fs) (paint c k)\<rparr>"
    have put: "put_pc s (rptr l) (par fs OR colw c) = Some ?s1"
      using set_color_adopt [OF x(4) k, of "par fs" c] by (simp add: rb_set_parent_color_def kl)
    have "ctx_at (rheap ?s1) (rroot ?s1) x fs" using C ap by (simp add: adopt_ctx)
    then obtain s2 where s2: "rb_change_child ?s1 x (rptr k) (par fs) = Some s2" "ctx_at (rheap s2) (rroot s2) (rptr k) fs"
      "\<And>z. z \<notin> fptrs fs \<Longrightarrow> rheap s2 z = rheap ?s1 z" "dom (rheap s2) = dom (rheap ?s1)"
      using rb_change_child_hole [of ?s1 x fs] ap(2) x(1) apt(2) by metis
    let ?s = "call_propagate cb s2 (par fs) 0"
    have "rptr l \<noteq> 0" using rptr_0 [OF x(5)] False by simp
    then have "rb_erase_node cb s x = Some (?s, 0)"
      using x(3) r s2(1) al put kl by (simp add: rb_erase_node_def run_simps Let_def)
    moreover have "tree_at (rheap s2) (par fs) (paint c k)"
    proof -
      have "tree_at (rheap s2) (par fs) (paint c k) = tree_at (rheap ?s1) (par fs) (paint c k)"
        by (rule tree_at_cong, rule s2(3)) (use ap(3) in \<open>simp, blast\<close>)
      then show ?thesis using adopt_paint [OF x(4) ap(4), of "par fs" c] by simp
    qed
    then have "holds ?s (plug fs (paint c k))"
      using s2(2) apt(2) ap by (intro holds_plugI) auto
    moreover have "dom (rheap ?s1) = dom ?h"
      using x(4) k by (cases k) (auto simp: adopt_def)
    then have "keeps (ptrs ?W) s ?s" using s2(3,4) kl by (intro keepsI) auto
    ultimately show ?thesis using k by auto
  qed
qed

section \<open>The whole erase\<close>

lemma rbt_one_child:
  assumes "rbt (plug fs (Node c l x r))" and "l = Tip \<or> r = Tip"
  defines "k \<equiv> if l = Tip then r else l"
  shows "k \<noteq> Tip \<Longrightarrow> rbt (plug fs (paint Black k)) \<and> c = Black"
    and "k = Tip \<Longrightarrow> c = Red \<Longrightarrow> rbt (plug fs Tip)"
    and "k = Tip \<Longrightarrow> c = Black \<Longrightarrow> hole (Suc 0) fs"
proof -
  obtain n where n: "hole n fs" "rbh n (Node c l x r)" "topc fs = Red \<longrightarrow> c = Black"
    using assms(1) by (auto simp: rbt_plug)
  have kt: "rbh (case c of Red \<Rightarrow> n | Black \<Rightarrow> n - 1) k" "c = Red \<longrightarrow> col k = Black"
    "(case c of Red \<Rightarrow> n | Black \<Rightarrow> n - 1) = 0" "c = Black \<longrightarrow> n = Suc 0"
    using n(2) assms(2) by (auto simp: k_def split: color.splits)
  then have k0: "rbh 0 k" by simp
  show "rbt (plug fs (paint Black k)) \<and> c = Black" if "k \<noteq> Tip"
  proof -
    have "col k = Red" using k0 that by (cases k) (auto split: color.splits)
    then have "c = Black" using kt(2) by (cases c) auto
    with rbh_paint_black [OF k0 \<open>col k = Red\<close>] n kt(4) show ?thesis
      by (auto simp: rbt_plug)
  qed
  show "rbt (plug fs Tip)" if "k = Tip" "c = Red"
    using n kt(3) that by (auto simp: rbt_plug)
  show "hole (Suc 0) fs" if "k = Tip" "c = Black"
    using n kt(4) that by auto
qed

lemma hole_ptr: "hole n (fs @ Fr d c x u # gs) = hole n (fs @ Fr d c y u # gs)"
  and topc_ptr: "topc (fs @ Fr d c x u # gs) = topc (fs @ Fr d c y u # gs)"
proof -
  show t: "topc (fs @ Fr d c x u # gs) = topc (fs @ Fr d c y u # gs)" for fs
    by (cases fs rule: topc.cases) auto
  show "hole n (fs @ Fr d c x u # gs) = hole n (fs @ Fr d c y u # gs)"
  proof (induction fs arbitrary: n)
    case (Cons f fs)
    then show ?case using t by (cases f) (auto split: color.splits)
  qed auto
qed

lemma rb_rebalance:
  assumes "holds s (plug fs Tip)" and "hole (Suc 0) fs"
  shows "\<exists>s' t. (if par fs \<noteq> 0 then rb_erase_color rot s (par fs) else Some s) = Some s' \<and> holds s' t
    \<and> rbt t \<and> inorder t = before fs @ after fs \<and> keeps (fptrs fs) s s'"
proof (cases fs)
  case Nil
  then show ?thesis using assms(1) by (intro exI [of _ s] exI [of _ Tip]) (simp add: rbt_def)
next
  case (Cons f fs')
  then have ne: "fs \<noteq> []" by simp
  have "par fs \<noteq> 0" using assms(1) ne par_0 [of "rheap s" "rroot s" 0 fs] by (auto simp: holds_plug)
  with rb_erase_loop_correct [OF assms(1,2) _ _ ne, of rot] del_fix_correct [OF assms(2), of Tip]
  show ?thesis by (auto simp: rb_erase_color_def inorder_plug)
qed

lemma rb_erase_augmented_correct:
  assumes "holds s (plug fs (Node c l x r))" and "rbt (plug fs (Node c l x r))"
  shows "\<exists>s' t. rb_erase_augmented cb s x = Some s' \<and> holds s' t \<and> rbt t
    \<and> inorder t = before fs @ inorder l @ inorder r @ after fs \<and> keeps (ptrs (plug fs (Node c l x r))) s s'"
proof (cases "l = Tip \<or> r = Tip")
  case True
  define k where "k = (if l = Tip then r else l)"
  obtain s1 where s1: "rb_erase_node cb s x = Some (s1, if k = Tip \<and> c = Black then par fs else 0)"
    "holds s1 (plug fs (paint c k))" "keeps (ptrs (plug fs (Node c l x r))) s s1"
    using rb_erase_node_one [OF assms(1) True, of cb] unfolding k_def by blast
  note R = rbt_one_child [OF assms(2) True, folded k_def]
  have ino: "inorder l @ inorder r = inorder k" using True by (auto simp: k_def)
  show ?thesis
  proof (cases "k = Tip \<and> c = Black")
    case short: True
    then have hl: "holds s1 (plug fs Tip)" and h1: "hole (Suc 0) fs" using s1(2) R(3) by auto
    obtain s2 t where s2: "(if par fs \<noteq> 0 then rb_erase_color (cb_rotate cb) s1 (par fs) else Some s1) = Some s2"
      "holds s2 t" "rbt t" "inorder t = before fs @ after fs" "keeps (fptrs fs) s1 s2"
      using rb_rebalance [OF hl h1] by blast
    have "rb_erase_augmented cb s x = Some s2"
      using s1(1) s2(1) short by (simp add: rb_erase_augmented_def)
    moreover have "keeps (ptrs (plug fs (Node c l x r))) s s2"
      using s1(3) s2(5) by (rule keeps_trans) auto
    ultimately show ?thesis using s2 ino short by auto
  next
    case False
    have "rb_erase_augmented cb s x = Some s1"
      using s1(1) False by (auto simp: rb_erase_augmented_def)
    moreover have "rbt (plug fs (paint c k))"
      using False R(1,2) by (cases "k = Tip") auto
    ultimately show ?thesis using s1 ino by (auto simp: inorder_plug)
  qed
next
  case False
  then obtain lfs cs y c2 where r: "r = plug lfs (Node cs Tip y c2)" "all_left lfs"
    using leftmost [of r] by blast
  let ?F = "lfs @ Fr Rt c y l # fs"
  let ?W = "plug fs (Node c l x r)"
  obtain s1 where s1: "rb_erase_two cb s x (topp y lfs) = Some (s1, if c2 = Tip \<and> cs = Black then par ?F else 0, y)"
    "holds s1 (plug ?F (paint Black c2))" "keeps (ptrs ?W) s s1"
    using rb_erase_two_correct [of s fs c l x lfs cs y c2 cb] assms(1) False r by auto
  have T: "tree_at (rheap s) (par fs) (Node c l x r)" using assms(1) by (simp add: holds_plug)
  have nz: "rptr l \<noteq> 0" "rptr r \<noteq> 0" using T False rptr_0 by auto
  have top: "rptr r = topp y lfs" by (simp add: r rptr_plug)
  let ?s1 = "call_propagate cb s1 y 0"
  have node: "rb_erase_node cb s x = Some (?s1, if c2 = Tip \<and> cs = Black then par ?F else 0)"
    using T nz s1(1) by (simp add: rb_erase_node_def run_simps top)
  have W: "rbt (plug (lfs @ Fr Rt c x l # fs) (Node cs Tip y c2))" using assms(2) by (simp add: r)
  then have W': "rbt (plug ?F (Node cs Tip y c2))"
    unfolding rbt_plug hole_ptr [of _ lfs Rt c x l fs y] topc_ptr [of lfs Rt c x l fs y] .
  note R = rbt_one_child [OF W', simplified]
  have hl: "holds ?s1 (plug ?F (paint Black c2))" using s1(2) by (simp add: holds_def)
  have k1: "keeps (ptrs ?W) s ?s1" using s1(3) by (simp add: keeps_def)
  have ino: "before ?F @ inorder c2 @ after ?F = before fs @ inorder l @ inorder r @ after fs"
  proof -
    have "before (lfs @ gs) = before gs @ before lfs" "after (lfs @ gs) = after lfs @ after gs" for gs
      by (induction lfs rule: before.induct) (auto split: side.splits)
    moreover have "before lfs = []" using r(2)
      by (induction lfs rule: before.induct) (auto simp: all_left_def)
    ultimately show ?thesis by (simp add: r(1) inorder_plug)
  qed
  show ?thesis
  proof (cases "c2 = Tip \<and> cs = Black")
    case short: True
    then have h0: "holds ?s1 (plug ?F Tip)" and h1: "hole (Suc 0) ?F" using hl R(3) by auto
    obtain s2 t where s2: "(if par ?F \<noteq> 0 then rb_erase_color (cb_rotate cb) ?s1 (par ?F) else Some ?s1) = Some s2"
      "holds s2 t" "rbt t" "inorder t = before ?F @ after ?F" "keeps (fptrs ?F) ?s1 s2"
      using rb_rebalance [OF h0 h1] by blast
    have "rb_erase_augmented cb s x = Some s2"
      using node s2(1) short by (simp add: rb_erase_augmented_def)
    moreover have "keeps (ptrs ?W) s s2"
      using k1 s2(5) by (rule keeps_trans) (auto simp: r(1))
    ultimately show ?thesis using s2 ino short by auto
  next
    case ns: False
    have "rb_erase_augmented cb s x = Some ?s1"
      using node ns by (auto simp: rb_erase_augmented_def)
    moreover have "rbt (plug ?F (paint Black c2))"
      using ns R(1,2) by (cases "c2 = Tip") auto
    moreover have "inorder (plug ?F (paint Black c2)) = before fs @ inorder l @ inorder r @ after fs"
      using ino by (simp only: inorder_plug inorder_paint)
    ultimately show ?thesis using hl k1 by blast
  qed
qed

end
