(* ===== verification/RbWalk.thy ===== *)
theory RbWalk
  imports RbUnlink
begin

text \<open>
  Walking a tree (\<open>rb_first\<close>, \<open>rb_next\<close>, their mirrors and the post-order pair), replacing
  a node in place, the height bound, and the properties of the red-black trees.
\<close>

section \<open>In order\<close>

fun edge :: "side \<Rightarrow> ptr list \<Rightarrow> ptr" where
  "edge Lf xs = hd xs"
| "edge Rt xs = last xs"

lemma descend_correct:
  assumes "tree_at (rheap s) p t" and "t \<noteq> Tip"
  shows "descend s d (rptr t) = Some (edge d (inorder t))"
  using assms
proof (induction t arbitrary: p)
  case (Node c l x r)
  have x: "rheap s x = Some (mk (p OR colw c) Lf (rptr l) (rptr r))" and lr: "tree_at (rheap s) x l" "tree_at (rheap s) x r"
    using Node.prems by auto
  show ?case
  proof (cases d)
    case Lf
    then show ?thesis
      using x lr Node.IH(1) [OF lr(1)] rptr_0 [OF lr(1)]
      by (subst descend.simps) (cases "l = Tip"; cases l; simp add: run_simps hd_append)
  next
    case Rt
    then show ?thesis
      using x lr Node.IH(2) [OF lr(2)] rptr_0 [OF lr(2)]
      by (subst descend.simps) (cases "r = Tip"; cases r; simp add: run_simps mk_def)
  qed
qed simp

text \<open>The node after, or before, everything in the hole.\<close>

fun beyond :: "side \<Rightarrow> frame list \<Rightarrow> ptr" where
  "beyond d [] = 0"
| "beyond d (Fr d' c x u # fs) = (if d' = d then beyond d fs else x)"

lemma beyond_eq: "beyond Rt fs = hd (after fs @ [0])" "beyond Lf fs = last (0 # before fs)"
  by (induction fs rule: before.induct) (auto split: side.splits)

lemma climb_correct:
  assumes "holds s (plug fs t)" and "t \<noteq> Tip"
  shows "climb s d (rptr t) = Some (beyond d fs)"
  using assms
proof (induction fs arbitrary: t)
  case Nil
  then show ?case by (subst climb.simps) (cases t; simp add: holds_def run_simps)
next
  case (Cons f fs)
  obtain d' c x u where f: "f = Fr d' c x u" by (cases f)
  have H: "holds s (plug fs (nd d' c t x u))" using Cons.prems(1) by (simp add: f)
  then have T: "tree_at (rheap s) (par fs) (nd d' c t x u)" and apt: "apart (nd d' c t x u)"
    by (auto simp: holds_plug)
  have x: "rheap s x = Some (mk (par fs OR colw c) d' (rptr t) (rptr u))" "x \<noteq> 0" "aligned x" "tree_at (rheap s) x t"
    "tree_at (rheap s) x u"
    using T by auto
  have par: "rb_parent s (rptr t) = Some x" using x(3,4) Cons.prems(2) by (cases t) (auto simp: run_simps)
  have ne: "rptr t \<noteq> rptr u"
  proof
    assume eq: "rptr t = rptr u"
    have "rptr t \<noteq> 0" using rptr_0 [OF x(4)] Cons.prems(2) by simp
    then have "u \<noteq> Tip" using eq by auto
    then show False using rptr_ptrs [OF Cons.prems(2)] rptr_ptrs [of u] eq apt by auto
  qed
  have IH: "climb s d x = Some (beyond d fs)"
    using Cons.IH [OF H] by simp
  show ?case
  proof (cases "d' = d")
    case True
    then show ?thesis using par x IH by (subst climb.simps) (simp add: f run_simps)
  next
    case False
    then have "d = other d'" by (rule side_other [OF not_sym])
    then show ?thesis using par x ne False by (subst climb.simps) (simp add: f run_simps)
  qed
qed

lemma rb_step_correct:
  assumes "holds s (plug fs (nd d c a x b))"
  shows "rb_step d s x = Some (if a = Tip then beyond d fs else edge (other d) (inorder a))"
proof -
  have T: "tree_at (rheap s) (par fs) (nd d c a x b)" and C: "ctx_at (rheap s) (rroot s) x fs"
    and d: "x \<notin> fptrs fs"
    using assms by (auto simp: holds_plug)
  have x: "rheap s x = Some (mk (par fs OR colw c) d (rptr a) (rptr b))" "x \<noteq> 0" "aligned x" "tree_at (rheap s) x a"
    using T by auto
  have "par fs \<noteq> x" using d x(2) par_fptrs [of fs] by (cases "fs = []") auto
  then have "RB_EMPTY_NODE s x = Some False"
    using x(1,3) ctx_at_par [OF C] pc_not_self by (simp add: RB_EMPTY_NODE_def run_simps)
  then show ?thesis
    using x descend_correct [OF x(4), of "other d"] rptr_0 [OF x(4)] climb_correct [OF assms, of d]
    by (simp add: rb_step_def run_simps)
qed

section \<open>Post-order\<close>

fun postorder :: "tree \<Rightarrow> ptr list" where
  "postorder Tip = []"
| "postorder (Node c l x r) = postorder l @ postorder r @ [x]"

fun post_before :: "frame list \<Rightarrow> ptr list" where
  "post_before [] = []"
| "post_before (Fr d c x u # fs) = post_before fs @ (case d of Lf \<Rightarrow> [] | Rt \<Rightarrow> postorder u)"

fun post_after :: "frame list \<Rightarrow> ptr list" where
  "post_after [] = []"
| "post_after (Fr d c x u # fs) = (case d of Lf \<Rightarrow> postorder u | Rt \<Rightarrow> []) @ x # post_after fs"

lemma postorder_plug: "postorder (plug fs t) = post_before fs @ postorder t @ post_after fs"
proof (induction fs arbitrary: t)
  case (Cons f fs)
  obtain d c x u where "f = Fr d c x u" by (cases f)
  then show ?case using Cons.IH by (cases d) simp_all
qed simp

lemma left_deepest_correct:
  assumes "tree_at (rheap s) p t" and "t \<noteq> Tip"
  shows "rb_left_deepest_node s (rptr t) = Some (hd (postorder t))"
  using assms
proof (induction t arbitrary: p)
  case (Node c l x r)
  have x: "rheap s x = Some (mk (p OR colw c) Lf (rptr l) (rptr r))" and lr: "tree_at (rheap s) x l" "tree_at (rheap s) x r"
    using Node.prems by auto
  have ne: "t \<noteq> Tip \<Longrightarrow> postorder t \<noteq> []" for t by (cases t) auto
  show ?case
    using x Node.IH(1) [OF lr(1)] Node.IH(2) [OF lr(2)] rptr_0 [OF lr(1)] rptr_0 [OF lr(2)] ne [of l] ne [of r]
    by (subst rb_left_deepest_node.simps) (cases "l = Tip"; cases "r = Tip"; simp add: run_simps)
qed simp

lemma rb_next_postorder_correct:
  assumes "holds s (plug fs (Node c l x r))"
  shows "rb_next_postorder s x = Some (hd (post_after fs @ [0]))"
proof -
  have T: "tree_at (rheap s) (par fs) (Node c l x r)" and C: "ctx_at (rheap s) (rroot s) x fs"
    and apt: "ptrs (Node c l x r) \<inter> fptrs fs = {}"
    using assms by (auto simp: holds_plug)
  have x: "x \<noteq> 0" "rb_parent s x = Some (par fs)"
    using T ctx_at_par [OF C] by (auto simp: run_simps)
  show ?thesis
  proof (cases fs rule: par.cases)
    case 1
    then show ?thesis using x by (simp add: rb_next_postorder_def)
  next
    case (2 d c' y u fs')
    have y: "rheap s y = Some (mk (par fs' OR colw c') d x (rptr u))" "tree_at (rheap s) y u" "y \<noteq> 0"
      using C by (auto simp: 2)
    have "rptr u \<noteq> x" using apt rptr_ptrs [of u] x(1) by (cases u) (auto simp: 2)
    moreover have "u \<noteq> Tip \<Longrightarrow> postorder u \<noteq> []" by (cases u) auto
    ultimately show ?thesis
      using x y left_deepest_correct [OF y(2)] rptr_0 [OF y(2)]
      by (cases d; cases "u = Tip") (auto simp: rb_next_postorder_def run_simps 2 mk_def)
  qed
qed

section \<open>Replacing a node in place\<close>

lemma rb_replace_node_correct:
  assumes "holds s (plug fs (Node c l x r))" and "y \<notin> ptrs (plug fs (Node c l x r))" and "y \<noteq> 0" and "aligned y"
    and "rheap s y \<noteq> None"
  shows "\<exists>s'. rb_replace_node s x y = Some s' \<and> holds s' (plug fs (Node c l y r))
    \<and> keeps (insert y (ptrs (plug fs (Node c l x r)))) s s'"
proof -
  let ?h = "rheap s"
  have H: "tree_at ?h (par fs) (Node c l x r)" and C: "ctx_at ?h (rroot s) x fs"
    and apt: "apart (Node c l x r)" "fapart fs" "ptrs (Node c l x r) \<inter> fptrs fs = {}"
    using assms(1) by (auto simp: holds_plug)
  have al: "aligned (par fs)" using C by (rule ctx_at_par)
  have ap: "x \<notin> ptrs l" "x \<notin> ptrs r" "ptrs l \<inter> ptrs r = {}" "ptrs r \<inter> ptrs l = {}" "x \<notin> fptrs fs" "ptrs l \<inter> fptrs fs = {}" "ptrs r \<inter> fptrs fs = {}"
    "apart l" "apart r" "y \<noteq> x" "y \<notin> ptrs l" "y \<notin> ptrs r" "y \<notin> fptrs fs"
    using apt assms(2) by auto
  have x: "x \<noteq> 0" "aligned x" "?h x = Some (mk (par fs OR colw c) Lf (rptr l) (rptr r))" "tree_at ?h x l" "tree_at ?h x r"
    using H by auto
  obtain s1 where s1: "rb_change_child s x y (par fs) = Some s1" "ctx_at (rheap s1) (rroot s1) y fs"
    "\<And>z. z \<notin> fptrs fs \<Longrightarrow> rheap s1 z = ?h z" "dom (rheap s1) = dom ?h"
    using rb_change_child_hole [OF C ap(5) x(1) apt(2)] by metis
  have l1: "tree_at (rheap s1) x l"
    using x(4) tree_at_cong [of l "rheap s1" ?h x] s1(3) ap(6) by auto
  have r1: "tree_at (rheap s1) x r"
    using x(5) tree_at_cong [of r "rheap s1" ?h x] s1(3) ap(7) by auto
  have x1: "rheap s1 x = Some (mk (par fs OR colw c) Lf (rptr l) (rptr r))" using s1(3) [OF ap(5)] x(3) by simp
  define h2 where "h2 = adopt (rheap s1) y l"
  define h3 where "h3 = adopt h2 y r"
  have r2: "tree_at h2 x r" using r1 ap by (simp add: h2_def adopt_tree_other)
  have run2: "set_parent_if s1 (rptr l) y = Some (s1\<lparr>rheap := h2\<rparr>)"
    unfolding h2_def by (rule set_parent_if_adopt [OF l1 x(2)])
  have run3: "set_parent_if (s1\<lparr>rheap := h2\<rparr>) (rptr r) y = Some (s1\<lparr>rheap := h3\<rparr>)"
    using set_parent_if_adopt [of "s1\<lparr>rheap := h2\<rparr>" x r y] r2 x(2) by (simp add: h3_def)
  have hx: "h2 x = rheap s1 x" "h3 x = rheap s1 x" using ap by (simp_all add: h2_def h3_def)
  have d3: "dom h3 = dom ?h"
    using s1(4) adopt_dom [OF l1, of y] adopt_dom [OF r2, of y] by (simp add: h2_def h3_def)
  then obtain ny where ny: "h3 y = Some ny" using assms(5) by blast
  define s' where "s' = s1\<lparr>rheap := h3(y \<mapsto> mk (par fs OR colw c) Lf (rptr l) (rptr r))\<rparr>"
  have "rb_parent s x = Some (par fs)" using x(3) al by (simp add: run_simps)
  then have "rb_replace_node s x y = Some s'"
    using s1(1) x1 hx run2 run3 ny by (simp add: rb_replace_node_def run_simps s'_def)
  moreover have "tree_at h3 y l"
    using adopt_tree [OF l1 ap(8), of y] ap by (simp add: h3_def h2_def adopt_tree_other)
  moreover have "tree_at h3 y r" using adopt_tree [OF r2 ap(9), of y] by (simp add: h3_def)
  moreover have "ctx_at h3 (rroot s1) y fs" using s1(2) ap by (simp add: h3_def h2_def adopt_ctx)
  ultimately have "rb_replace_node s x y = Some s'" "holds s' (plug fs (Node c l y r))"
    using ap apt assms(3,4) by (auto intro!: holds_plugI simp: s'_def)
  moreover have "keeps (insert y (ptrs (plug fs (Node c l x r)))) s s'"
    using d3 ny s1(3) by (intro keepsI) (auto simp: s'_def h3_def h2_def)
  ultimately show ?thesis by blast
qed

section \<open>Height\<close>

fun height :: "tree \<Rightarrow> nat" where
  "height Tip = 0"
| "height (Node c l x r) = Suc (max (height l) (height r))"

lemma rbh_height: "rbh n t \<Longrightarrow> height t \<le> 2 * n + (if col t = Red then 1 else 0)"
proof (induction t arbitrary: n)
  case (Node c l x r)
  show ?case
  proof (cases c)
    case Red
    then show ?thesis using Node.prems Node.IH(1) [of n] Node.IH(2) [of n] by auto
  next
    case Black
    then obtain m where "n = Suc m" using Node.prems by (cases n) auto
    then show ?thesis using Black Node.prems Node.IH(1) [of m] Node.IH(2) [of m]
      by (auto split: if_splits)
  qed
qed simp

lemma rbh_size: "rbh n t \<Longrightarrow> 2 ^ n \<le> Suc (length (inorder t))"
proof (induction t arbitrary: n)
  case (Node c l x r)
  show ?case
  proof (cases c)
    case Red
    then show ?thesis using Node.prems Node.IH(1) [of n] by auto
  next
    case Black
    then obtain m where "n = Suc m" using Node.prems by (cases n) auto
    then show ?thesis using Black Node.prems Node.IH(1) [of m] Node.IH(2) [of m] by auto
  qed
qed simp

lemma rbt_height: "rbt t \<Longrightarrow> 2 ^ (height t div 2) \<le> Suc (length (inorder t))"
proof -
  assume "rbt t"
  then obtain n where n: "rbh n t" "col t = Black" by (auto simp: rbt_def)
  then have "height t div 2 \<le> n" using rbh_height [OF n(1)] by simp
  then have "(2 :: nat) ^ (height t div 2) \<le> 2 ^ n" by (rule power_increasing) simp
  with rbh_size [OF n(1)] show ?thesis by linarith
qed

section \<open>Properties\<close>

text \<open>The state holds a red-black tree whose nodes are, in order, \<open>xs\<close>.\<close>

definition rb_tree_with :: "'a rbs \<Rightarrow> ptr list \<Rightarrow> bool" where
  "rb_tree_with s xs \<longleftrightarrow> (\<exists>t. holds s t \<and> rbt t \<and> inorder t = xs)"

text \<open>
  C5. Insertion: linking a fresh node at any leaf position of a red-black tree with
  \<open>rb_link_node\<close> and then calling \<open>rb_insert_color\<close>, or its augmented form with any
  rotate callback, returns; the result is again a red-black tree (root black, no red node with
  a red child, equal black heights), the parent pointers and colours are right, the new node
  stands where it was linked in the order and all others keep theirs, and no object outside
  the tree is written.
\<close>

theorem rb_insert_red_black:
  assumes "holds s (plug fs Tip)" and "rbt (plug fs Tip)"
    and "x \<notin> fptrs fs" and "x \<noteq> 0" and "aligned x" and "rheap s x \<noteq> None"
  shows "\<exists>s1. rb_link_node s x (par fs) (link_of fs) = Some s1
    \<and> (\<exists>s2. rb_insert_color s1 x = Some s2 \<and> rb_tree_with s2 (before fs @ x # after fs)
         \<and> keeps (insert x (fptrs fs)) s s2)
    \<and> (\<exists>s2. rb_insert_augmented rot s1 x = Some s2 \<and> rb_tree_with s2 (before fs @ x # after fs)
         \<and> keeps (insert x (fptrs fs)) s s2)"
  using rb_insert_correct [OF assms, of rot] rb_insert_correct [OF assms, of dummy_rotate]
  unfolding rb_tree_with_def rb_insert_color_def by (metis option.inject)

definition sample_rbs :: "unit rbs" where
  "sample_rbs = \<lparr>rheap = [16 \<mapsto> \<lparr>parent_color = 1, rb_right = 0, rb_left = 8\<rparr>,
     8 \<mapsto> \<lparr>parent_color = 16, rb_right = 0, rb_left = 0\<rparr>,
     4 \<mapsto> \<lparr>parent_color = 0, rb_right = 0, rb_left = 0\<rparr>], rroot = 16, raug = ()\<rparr>"

lemma sample_rbs: "holds sample_rbs (Node Black (Node Red Tip 8 Tip) 16 Tip)"
  "rbt (Node Black (Node Red Tip 8 Tip) 16 Tip)" "rheap sample_rbs 4 \<noteq> None"
  "aligned 4" "aligned 8" "aligned 16"
  by (auto simp: sample_rbs_def holds_def mk_def aligned_def colw.simps rbt_def intro!: exI [of _ 1])

theorem rb_insert_red_black_witness:
  "\<exists>s1. rb_link_node sample_rbs 4 8 (Some Lf) = Some s1
    \<and> (\<exists>s2. rb_insert_color s1 4 = Some s2 \<and> rb_tree_with s2 [4, 8, 16] \<and> keeps {4, 8, 16} sample_rbs s2)"
  using rb_insert_red_black [of sample_rbs "[Fr Lf Red 8 Tip, Fr Lf Black 16 Tip]" 4 dummy_rotate] sample_rbs
  by (auto simp: link_of_def)

text \<open>
  C6. Erasure: \<open>rb_erase\<close>, or \<open>rb_erase_augmented\<close> with any callbacks, of any node of
  a red-black tree returns; the result is a red-black tree with the other nodes in the same
  order, and no object outside the tree is written.
\<close>

theorem rb_erase_red_black:
  assumes "holds s (plug fs (Node c l x r))" and "rbt (plug fs (Node c l x r))"
  shows "(\<exists>s'. rb_erase s x = Some s' \<and> rb_tree_with s' (before fs @ inorder l @ inorder r @ after fs)
        \<and> keeps (ptrs (plug fs (Node c l x r))) s s')
    \<and> (\<exists>s'. rb_erase_augmented cb s x = Some s' \<and> rb_tree_with s' (before fs @ inorder l @ inorder r @ after fs)
        \<and> keeps (ptrs (plug fs (Node c l x r))) s s')"
  using rb_erase_augmented_correct [OF assms, of cb] rb_erase_augmented_correct [OF assms, of dummy_callbacks]
  unfolding rb_tree_with_def rb_erase_def by blast

theorem rb_erase_red_black_witness:
  "\<exists>s'. rb_erase sample_rbs 16 = Some s' \<and> rb_tree_with s' [8] \<and> keeps {8, 16} sample_rbs s'"
  using rb_erase_red_black [of sample_rbs "[]" Black "Node Red Tip 8 Tip" 16 Tip dummy_callbacks] sample_rbs
  by (auto simp: insert_commute)

text \<open>
  In-order walking: \<open>rb_first\<close> and \<open>rb_last\<close> return the ends of the tree (null when
  it is empty); at any node \<open>rb_next\<close> returns the node after it and \<open>rb_prev\<close> the node
  before it, null at the ends.
\<close>

theorem rb_walk_in_order:
  assumes "holds s (plug fs (Node c l x r))"
  shows "rb_first s = Some (hd (inorder (plug fs (Node c l x r))))
    \<and> rb_last s = Some (last (inorder (plug fs (Node c l x r))))
    \<and> rb_next s x = Some (hd (inorder r @ after fs @ [0]))
    \<and> rb_prev s x = Some (last (0 # before fs @ inorder l))
    \<and> (holds s' Tip \<longrightarrow> rb_first s' = Some 0 \<and> rb_last s' = Some 0)"
proof (intro conjI impI)
  let ?T = "plug fs (Node c l x r)"
  have T: "tree_at (rheap s) 0 ?T" "rroot s = rptr ?T" using assms by (auto simp: holds_def)
  have "inorder ?T \<noteq> []" by (simp add: inorder_plug)
  then have ne: "?T \<noteq> Tip" by auto
  show "rb_first s = Some (hd (inorder ?T))" "rb_last s = Some (last (inorder ?T))"
    using T descend_correct [OF T(1) ne, of Lf] descend_correct [OF T(1) ne, of Rt] rptr_0 [OF T(1)] ne
    by (simp_all add: rb_first_def rb_last_def rb_end_def)
  show "rb_next s x = Some (hd (inorder r @ after fs @ [0]))"
    using rb_step_correct [of s fs Rt c r x l] assms beyond_eq(1)
    by (cases r) (simp_all add: rb_next_def hd_append)
  show "rb_prev s x = Some (last (0 # before fs @ inorder l))"
    using rb_step_correct [of s fs Lf c l x r] assms beyond_eq(2)
    by (cases l) (simp_all add: rb_prev_def)
qed (simp_all add: holds_def rb_first_def rb_last_def rb_end_def)

theorem rb_walk_in_order_witness:
  "rb_first sample_rbs = Some 8 \<and> rb_last sample_rbs = Some 16 \<and> rb_next sample_rbs 8 = Some 16
    \<and> rb_prev sample_rbs 8 = Some 0"
  using rb_walk_in_order [of sample_rbs "[Fr Lf Black 16 Tip]" Red Tip 8 Tip sample_rbs] sample_rbs by simp

text \<open>
  Post-order walking: \<open>rb_first_postorder\<close> and \<open>rb_next_postorder\<close> enumerate the
  nodes so that every node comes after both its subtrees, ending in null; a walk may free each
  node once the next one is known.
\<close>

theorem rb_walk_postorder:
  assumes "holds s (plug fs (Node c l x r))"
  shows "postorder (plug fs (Node c l x r)) = post_before fs @ (postorder l @ postorder r @ [x]) @ post_after fs
    \<and> rb_first_postorder s = Some (hd (postorder (plug fs (Node c l x r))))
    \<and> rb_next_postorder s x = Some (hd (post_after fs @ [0])) \<and> rb_next_postorder s 0 = Some 0"
proof (intro conjI)
  let ?T = "plug fs (Node c l x r)"
  have T: "tree_at (rheap s) 0 ?T" "rroot s = rptr ?T" using assms by (auto simp: holds_def)
  have "inorder ?T \<noteq> []" by (simp add: inorder_plug)
  then have ne: "?T \<noteq> Tip" by auto
  show "rb_first_postorder s = Some (hd (postorder ?T))"
    using T left_deepest_correct [OF T(1) ne] rptr_0 [OF T(1)] ne by (simp add: rb_first_postorder_def)
  show "rb_next_postorder s x = Some (hd (post_after fs @ [0]))"
    using assms by (rule rb_next_postorder_correct)
qed (simp_all add: postorder_plug rb_next_postorder_def)

theorem rb_walk_postorder_witness:
  "rb_first_postorder sample_rbs = Some 8 \<and> rb_next_postorder sample_rbs 8 = Some 16"
  using rb_walk_postorder [of sample_rbs "[Fr Lf Black 16 Tip]" Red Tip 8 Tip] sample_rbs by simp

text \<open>
  \<open>rb_replace_node\<close> puts another node in the place of a node without changing the
  shape, the colours or the order of the rest.
\<close>

theorem rb_replace_node_in_place:
  assumes "holds s (plug fs (Node c l x r))" and "y \<notin> ptrs (plug fs (Node c l x r))" and "y \<noteq> 0" and "aligned y"
    and "rheap s y \<noteq> None"
  shows "\<exists>s'. rb_replace_node s x y = Some s' \<and> holds s' (plug fs (Node c l y r))
    \<and> keeps (insert y (ptrs (plug fs (Node c l x r)))) s s'"
  using assms by (rule rb_replace_node_correct)

theorem rb_replace_node_in_place_witness:
  "\<exists>s'. rb_replace_node sample_rbs 8 4 = Some s' \<and> holds s' (Node Black (Node Red Tip 4 Tip) 16 Tip)"
  using rb_replace_node_in_place [of sample_rbs "[Fr Lf Black 16 Tip]" Red Tip 8 Tip 4] sample_rbs by auto

text \<open>
  The height bound the comment in \<open>rbtree.c\<close> promises: in a tree that a state holds as
  red-black, every path from the root has at most \<open>2 log2 (n + 1) + 1\<close> nodes.
\<close>

theorem rb_height_bound:
  assumes "holds s t" and "rbt t"
  shows "2 ^ (height t div 2) \<le> Suc (card (ptrs t))"
proof -
  have "distinct (inorder t)" using assms(1) by (simp add: holds_def apart_distinct)
  then have "card (ptrs t) = length (inorder t)" by (simp add: ptrs_def distinct_card)
  then show ?thesis using rbt_height [OF assms(2)] by simp
qed

theorem rb_height_bound_witness:
  "2 ^ (height (Node Black (Node Red Tip 8 Tip) 16 Tip) div 2) \<le> Suc (card (ptrs (Node Black (Node Red Tip 8 Tip) 16 Tip)))"
  by (rule rb_height_bound [OF sample_rbs(1,2)])

end
