(* ===== verification/TimerQueue.thy ===== *)
theory TimerQueue
  imports RbWalk
begin

text \<open>
  \<open>src/src/timerqueue.c\<close> and \<open>include/timerqueue.h\<close>: a queue of timers ordered by expiry, a
  red-black tree plus a cached pointer to its first node. A \<open>timerqueue_node\<close> starts with its
  \<open>rb_node\<close>, so both have the same address.

  The contract the timers rely on is the locale \<open>timer_queue\<close>: \<open>add\<close> puts a node behind
  all that expire no later, \<open>del\<close> takes it out, \<open>getnext\<close> is a node of least expiry.
\<close>

section \<open>ktime\_t\<close>

datatype ktime = Ktime (tv64: "64 word")

definition ktime_int :: "ktime \<Rightarrow> int" where "ktime_int k = sint (tv64 k)"

instantiation ktime :: linorder
begin

definition less_eq_ktime :: "ktime \<Rightarrow> ktime \<Rightarrow> bool" where
  "less_eq_ktime a b \<longleftrightarrow> ktime_int a \<le> ktime_int b"

definition less_ktime :: "ktime \<Rightarrow> ktime \<Rightarrow> bool" where
  "less_ktime a b \<longleftrightarrow> ktime_int a < ktime_int b"

instance
proof
  fix a b :: ktime
  assume "a \<le> b" "b \<le> a"
  then have "sint (tv64 a) = sint (tv64 b)" by (simp add: less_eq_ktime_def ktime_int_def)
  then have "tv64 a = tv64 b" by (rule signed_word_eqI)
  then show "a = b" by (cases a; cases b) simp
qed (auto simp: less_eq_ktime_def less_ktime_def)

end

section \<open>The queue\<close>

record tqueue =
  tq_head :: "unit rbs"
  tq_next :: ptr
  tq_expires :: "ptr \<rightharpoonup> ktime"

definition timerqueue_getnext :: "tqueue \<Rightarrow> ptr" where "timerqueue_getnext q = tq_next q"

definition timerqueue_init :: "tqueue \<Rightarrow> ptr \<Rightarrow> tqueue option" where
  "timerqueue_init q node = map_option (\<lambda>t. q\<lparr>tq_head := t\<rparr>) (RB_CLEAR_NODE (tq_head q) node)"

definition timerqueue_init_head :: "tqueue \<Rightarrow> tqueue" where
  "timerqueue_init_head q = q\<lparr>tq_head := (tq_head q)\<lparr>rroot := 0\<rparr>, tq_next := 0\<rparr>"

text \<open>
  The descent of \<open>timerqueue_add\<close>: \<open>parent\<close> and the cell \<open>p\<close> points to (the root cell, or a
  side of \<open>parent\<close>), whose content is \<open>cur\<close>.
\<close>

partial_function (option) timerqueue_find ::
  "tqueue \<Rightarrow> ktime \<Rightarrow> ptr \<Rightarrow> side option \<Rightarrow> ptr \<Rightarrow> (ptr \<times> side option) option" where
  "timerqueue_find q e parent link cur =
     (if cur = 0 then Some (parent, link)
      else do {
        e' \<leftarrow> tq_expires q cur;
        let d = (if e < e' then Lf else Rt);
        c \<leftarrow> get_child (tq_head q) cur d;
        timerqueue_find q e cur (Some d) c })"

definition timerqueue_add :: "tqueue \<Rightarrow> ptr \<Rightarrow> tqueue option" where
  "timerqueue_add q node = do {
     e \<leftarrow> tq_expires q node;
     (parent, link) \<leftarrow> timerqueue_find q e 0 None (rroot (tq_head q));
     t \<leftarrow> rb_link_node (tq_head q) node parent link;
     t \<leftarrow> rb_insert_color t node;
     let q = q\<lparr>tq_head := t\<rparr>;
     first \<leftarrow> (if tq_next q = 0 then Some True else do { e' \<leftarrow> tq_expires q (tq_next q); Some (e < e') });
     Some (if first then q\<lparr>tq_next := node\<rparr> else q) }"

definition timerqueue_del :: "tqueue \<Rightarrow> ptr \<Rightarrow> tqueue option" where
  "timerqueue_del q node = do {
     q \<leftarrow> (if tq_next q = node then do { n \<leftarrow> rb_next (tq_head q) node; Some (q\<lparr>tq_next := n\<rparr>) } else Some q);
     t \<leftarrow> rb_erase (tq_head q) node;
     t \<leftarrow> RB_CLEAR_NODE t node;
     Some (q\<lparr>tq_head := t\<rparr>) }"

definition timerqueue_iterate_next :: "tqueue \<Rightarrow> ptr \<Rightarrow> ptr option" where
  "timerqueue_iterate_next q node = (if node = 0 then Some 0 else rb_next (tq_head q) node)"

section \<open>What the queue holds\<close>

definition expiry :: "tqueue \<Rightarrow> ptr \<Rightarrow> ktime" where "expiry q p = the (tq_expires q p)"

definition queue :: "tqueue \<Rightarrow> ptr list \<Rightarrow> bool" where
  "queue q xs \<longleftrightarrow> rb_tree_with (tq_head q) xs \<and> set xs \<subseteq> dom (tq_expires q)
     \<and> sorted (map (expiry q) xs) \<and> tq_next q = hd (xs @ [0])"

text \<open>A place in the order behind every node that expires no later.\<close>

definition enqueue :: "('n \<Rightarrow> 'k :: linorder) \<Rightarrow> 'n \<Rightarrow> 'n list \<Rightarrow> 'n list" where
  "enqueue f x xs = takeWhile (\<lambda>y. f y \<le> f x) xs @ x # dropWhile (\<lambda>y. f y \<le> f x) xs"

text \<open>The node as an object the queue does not hold: allocated, aligned, not null.\<close>

definition loose :: "tqueue \<Rightarrow> ptr \<Rightarrow> bool" where
  "loose q x \<longleftrightarrow> x \<noteq> 0 \<and> aligned x \<and> rheap (tq_head q) x \<noteq> None \<and> tq_expires q x \<noteq> None"

lemma set_enqueue: "set (enqueue f x xs) = insert x (set xs)"
  using arg_cong [OF takeWhile_dropWhile_id [of "\<lambda>y. f y \<le> f x" xs], of set]
  by (auto simp: enqueue_def simp del: takeWhile_dropWhile_id)

lemma sorted_enqueue:
  assumes "sorted (map f xs)"
  shows "sorted (map f (enqueue f x xs))"
proof -
  have "sorted (map f (takeWhile (\<lambda>y. f y \<le> f x) xs @ dropWhile (\<lambda>y. f y \<le> f x) xs))"
    using assms by simp
  then have "sorted (map f (takeWhile (\<lambda>y. f y \<le> f x) xs))" "sorted (map f (dropWhile (\<lambda>y. f y \<le> f x) xs))"
    unfolding map_append sorted_append by blast+
  moreover have "f x \<le> f y" if "y \<in> set (dropWhile (\<lambda>y. f y \<le> f x) xs)" for y
    using assms that by (induction xs) (auto split: if_splits)
  moreover have "f y \<le> f x" if "y \<in> set (takeWhile (\<lambda>y. f y \<le> f x) xs)" for y
    using set_takeWhileD [OF that] by simp
  ultimately show ?thesis
    by (force simp: enqueue_def sorted_append)
qed

lemma split_by_key:
  fixes f :: "'a \<Rightarrow> 'b :: linorder"
  assumes "\<And>y. y \<in> set as \<Longrightarrow> f y \<le> e" and "\<And>y. y \<in> set bs \<Longrightarrow> e < f y"
  shows "takeWhile (\<lambda>y. f y \<le> e) (as @ bs) = as \<and> dropWhile (\<lambda>y. f y \<le> e) (as @ bs) = bs"
proof -
  have "takeWhile (\<lambda>y. f y \<le> e) bs = [] \<and> dropWhile (\<lambda>y. f y \<le> e) bs = bs"
  proof (cases bs)
    case (Cons b bs')
    then have "\<not> f b \<le> e" using assms(2) [of b] by (simp add: not_le)
    then show ?thesis using Cons by simp
  qed simp
  then show ?thesis using assms(1) by simp
qed

lemma timerqueue_find_correct:
  assumes "holds (tq_head q) (plug fs t)" and "ptrs t \<subseteq> dom (tq_expires q)"
    and "sorted (map (expiry q) (inorder t))"
    and "\<And>y. y \<in> set (before fs) \<Longrightarrow> expiry q y \<le> e" and "\<And>y. y \<in> set (after fs) \<Longrightarrow> e < expiry q y"
  shows "\<exists>gs. timerqueue_find q e (par fs) (link_of fs) (rptr t) = Some (par gs, link_of gs)
    \<and> plug gs Tip = plug fs t \<and> (\<forall>y \<in> set (before gs). expiry q y \<le> e) \<and> (\<forall>y \<in> set (after gs). e < expiry q y)"
  using assms
proof (induction t arbitrary: fs)
  case Tip
  then show ?case
    by (intro exI [of _ fs]) (subst timerqueue_find.simps, simp)
next
  case (Node c l x r)
  have T: "tree_at (rheap (tq_head q)) (par fs) (Node c l x r)" using Node.prems(1) by (simp add: holds_plug)
  then have x: "x \<noteq> 0" "rheap (tq_head q) x = Some (mk (par fs OR colw c) Lf (rptr l) (rptr r))" by auto
  obtain ex where ex: "tq_expires q x = Some ex" using Node.prems(2) by auto
  have exx: "expiry q x = ex" by (simp add: expiry_def ex)
  have srt: "sorted (map (expiry q) (inorder l))" "sorted (map (expiry q) (inorder r))"
    "\<And>y. y \<in> ptrs l \<Longrightarrow> expiry q y \<le> ex" "\<And>y. y \<in> ptrs r \<Longrightarrow> ex \<le> expiry q y"
    using Node.prems(3) exx by (auto simp: sorted_append ptrs_def)
  show ?case
  proof (cases "e < ex")
    case True
    have "\<exists>gs. timerqueue_find q e (par (Fr Lf c x r # fs)) (link_of (Fr Lf c x r # fs)) (rptr l) = Some (par gs, link_of gs)
      \<and> plug gs Tip = plug (Fr Lf c x r # fs) l \<and> (\<forall>y \<in> set (before gs). expiry q y \<le> e) \<and> (\<forall>y \<in> set (after gs). e < expiry q y)"
      by (rule Node.IH(1)) (use Node.prems srt True exx in \<open>auto simp: ptrs_def\<close>, use srt(4) True in \<open>force simp: ptrs_def\<close>)
    then show ?thesis
      using x ex True by (subst timerqueue_find.simps) (simp add: run_simps link_of_def)
  next
    case False
    have "\<exists>gs. timerqueue_find q e (par (Fr Rt c x l # fs)) (link_of (Fr Rt c x l # fs)) (rptr r) = Some (par gs, link_of gs)
      \<and> plug gs Tip = plug (Fr Rt c x l # fs) r \<and> (\<forall>y \<in> set (before gs). expiry q y \<le> e) \<and> (\<forall>y \<in> set (after gs). e < expiry q y)"
      by (rule Node.IH(2)) (use Node.prems srt False exx in \<open>auto simp: ptrs_def\<close>, use srt(3) False in \<open>force simp: ptrs_def\<close>)
    then show ?thesis
      using x ex False by (subst timerqueue_find.simps) (simp add: run_simps link_of_def)
  qed
qed

section \<open>Correctness\<close>

lemma timerqueue_add_correct:
  assumes "queue q xs" and "loose q x" and "x \<notin> set xs"
  shows "\<exists>q'. timerqueue_add q x = Some q' \<and> queue q' (enqueue (expiry q) x xs)
    \<and> tq_expires q' = tq_expires q \<and> keeps (insert x (set xs)) (tq_head q) (tq_head q')"
proof -
  obtain t where t: "holds (tq_head q) t" "rbt t" "inorder t = xs"
    using assms(1) by (auto simp: queue_def rb_tree_with_def)
  obtain e where e: "tq_expires q x = Some e" using assms(2) by (auto simp: loose_def)
  have ex: "expiry q x = e" by (simp add: expiry_def e)
  have root: "rroot (tq_head q) = rptr t" using t(1) by (simp add: holds_def)
  have "\<exists>gs. timerqueue_find q e (par []) (link_of []) (rptr t) = Some (par gs, link_of gs)
    \<and> plug gs Tip = plug [] t \<and> (\<forall>y \<in> set (before gs). expiry q y \<le> e) \<and> (\<forall>y \<in> set (after gs). e < expiry q y)"
    by (rule timerqueue_find_correct) (use t assms(1) in \<open>auto simp: queue_def ptrs_def\<close>)
  then obtain gs where gs: "timerqueue_find q e 0 None (rroot (tq_head q)) = Some (par gs, link_of gs)"
    "plug gs Tip = t" "\<And>y. y \<in> set (before gs) \<Longrightarrow> expiry q y \<le> e" "\<And>y. y \<in> set (after gs) \<Longrightarrow> e < expiry q y"
    by (auto simp: link_of_def root)
  have xs: "xs = before gs @ after gs" using t(3) gs(2) inorder_plug [of gs Tip] by simp
  have fresh: "x \<notin> fptrs gs" using assms(3) by (simp add: xs fptrs_before_after)
  obtain s1 s2 t' where ins: "rb_link_node (tq_head q) x (par gs) (link_of gs) = Some s1"
    "rb_insert_color s1 x = Some s2" "holds s2 t'" "rbt t'" "inorder t' = before gs @ x # after gs"
    "keeps (insert x (fptrs gs)) (tq_head q) s2"
    using rb_insert_correct [of "tq_head q" gs x dummy_rotate] t gs(2) fresh assms(2)
    unfolding rb_insert_color_def loose_def by auto
  have enq: "enqueue (expiry q) x xs = before gs @ x # after gs"
    using split_by_key [of "before gs" "expiry q" e "after gs", OF gs(3,4)] by (simp add: enqueue_def ex xs)
  have nxt: "tq_next q = hd (xs @ [0])" using assms(1) by (simp add: queue_def)
  have t0: "0 \<notin> set xs" using tree_at_0 [of "rheap (tq_head q)" 0 t] t by (auto simp: holds_def ptrs_def)
  define first where "first \<longleftrightarrow> before gs = []"
  have tested: "(if tq_next q = 0 then Some True else do { e' \<leftarrow> tq_expires q (tq_next q); Some (e < e') }) = Some first"
  proof (cases xs)
    case Nil
    then show ?thesis using nxt xs by (simp add: first_def)
  next
    case (Cons y ys)
    then obtain ey where ey: "tq_expires q y = Some ey" using assms(1) by (auto simp: queue_def)
    have "y \<noteq> 0" using t0 Cons by auto
    have "(e < ey) = first"
    proof (cases "before gs")
      case Nil
      then have "after gs = y # ys" using xs Cons by simp
      then show ?thesis using gs(4) [of y] Nil ey by (simp add: first_def expiry_def)
    next
      case b: (Cons z zs)
      then have "y = z" using xs Cons by simp
      then show ?thesis using gs(3) [of y] b ey by (simp add: first_def expiry_def not_less)
    qed
    then show ?thesis using nxt Cons ey \<open>y \<noteq> 0\<close> by simp
  qed
  let ?q = "if first then q\<lparr>tq_head := s2, tq_next := x\<rparr> else q\<lparr>tq_head := s2\<rparr>"
  have "timerqueue_add q x = Some ?q"
    using e gs(1) ins(1,2) tested
    by (cases "tq_next q = 0"; cases "tq_expires q (tq_next q)") (auto simp: timerqueue_add_def Let_def)
  moreover have "queue ?q (enqueue (expiry q) x xs)"
  proof -
    have "rb_tree_with s2 (enqueue (expiry q) x xs)"
      using ins unfolding rb_tree_with_def enq by blast
    moreover have "set (enqueue (expiry q) x xs) \<subseteq> dom (tq_expires q)"
      using assms(1) e by (auto simp: set_enqueue queue_def)
    moreover have "sorted (map (expiry q) (enqueue (expiry q) x xs))"
      using assms(1) by (intro sorted_enqueue) (simp add: queue_def)
    moreover have "expiry ?q = expiry q" by (simp add: expiry_def fun_eq_iff)
    moreover have "tq_next ?q = hd (enqueue (expiry q) x xs @ [0])"
      unfolding enq using nxt xs by (cases "before gs") (auto simp: first_def)
    ultimately show ?thesis by (auto simp: queue_def)
  qed
  moreover have "keeps (insert x (set xs)) (tq_head q) s2" using ins(6) by (simp add: xs fptrs_before_after)
  ultimately show ?thesis by (intro exI [of _ ?q]) auto
qed

lemma in_tree_hole: "x \<in> ptrs t \<Longrightarrow> \<exists>fs c l r. t = plug fs (Node c l x r)"
proof (induction t)
  case (Node c l y r)
  consider "x = y" | "x \<in> ptrs l" | "x \<in> ptrs r" using Node.prems by auto
  then show ?case
  proof cases
    case 1
    then show ?thesis by (intro exI [of _ "[]"]) auto
  next
    case 2
    then obtain fs c' l' r' where "l = plug fs (Node c' l' x r')" using Node.IH(1) by blast
    then show ?thesis by (intro exI [of _ "fs @ [Fr Lf c y r]"]) auto
  next
    case 3
    then obtain fs c' l' r' where "r = plug fs (Node c' l' x r')" using Node.IH(2) by blast
    then show ?thesis by (intro exI [of _ "fs @ [Fr Rt c y l]"]) auto
  qed
qed simp

lemma split_list_unique: "us @ x # vs = as @ x # bs \<Longrightarrow> x \<notin> set us \<Longrightarrow> x \<notin> set as \<Longrightarrow> as = us \<and> bs = vs"
proof (induction us arbitrary: as)
  case Nil
  then show ?case by (cases as) auto
next
  case (Cons u us)
  then show ?case by (cases as) auto
qed

lemma queue_hole:
  assumes "queue q (as @ x # bs)"
  shows "\<exists>fs c l r. holds (tq_head q) (plug fs (Node c l x r)) \<and> rbt (plug fs (Node c l x r))
    \<and> as = before fs @ inorder l \<and> bs = inorder r @ after fs"
proof -
  obtain t where t: "holds (tq_head q) t" "rbt t" "inorder t = as @ x # bs"
    using assms by (auto simp: queue_def rb_tree_with_def)
  have dist: "distinct (as @ x # bs)" using t by (metis apart_distinct holds_def)
  obtain fs c l r where w: "t = plug fs (Node c l x r)"
    using in_tree_hole [of x t] t(3) by (auto simp: ptrs_def)
  have eq: "(before fs @ inorder l) @ x # (inorder r @ after fs) = as @ x # bs"
    using t(3) w by (simp add: inorder_plug)
  have "x \<notin> set (before fs @ inorder l)"
    using dist unfolding eq [symmetric] by auto
  moreover have "x \<notin> set as" using dist by simp
  ultimately have split: "as = before fs @ inorder l" "bs = inorder r @ after fs"
    using split_list_unique [OF eq] by blast+
  show ?thesis using t w split by blast
qed

lemma queue_next:
  assumes "queue q (as @ x # bs)"
  shows "rb_next (tq_head q) x = Some (hd (bs @ [0]))"
proof -
  obtain fs c l r where w: "holds (tq_head q) (plug fs (Node c l x r))" "bs = inorder r @ after fs"
    using queue_hole [OF assms] by blast
  show ?thesis
    using rb_step_correct [of "tq_head q" fs Rt c r x l] w beyond_eq(1) [of fs]
    by (cases r) (auto simp: rb_next_def hd_append)
qed

lemma timerqueue_del_correct:
  assumes "queue q (as @ x # bs)"
  shows "\<exists>q'. timerqueue_del q x = Some q' \<and> queue q' (as @ bs) \<and> tq_expires q' = tq_expires q
    \<and> RB_EMPTY_NODE (tq_head q') x = Some True \<and> keeps (set (as @ x # bs)) (tq_head q) (tq_head q') \<and> loose q' x"
proof -
  obtain fs c l r where w: "holds (tq_head q) (plug fs (Node c l x r))" "rbt (plug fs (Node c l x r))"
    and split: "as = before fs @ inorder l" "bs = inorder r @ after fs"
    using queue_hole [OF assms] by blast
  define t where "t = plug fs (Node c l x r)"
  have t: "holds (tq_head q) t" "rbt t" "inorder t = as @ x # bs"
    using w split by (simp_all add: t_def inorder_plug)
  have dist: "distinct (as @ x # bs)" using t by (metis apart_distinct holds_def)
  obtain s' t' where er: "rb_erase (tq_head q) x = Some s'" "holds s' t'" "rbt t'" "inorder t' = as @ bs"
    "keeps (set (as @ x # bs)) (tq_head q) s'"
    using rb_erase_augmented_correct [OF w, of dummy_callbacks] t(3) split
    unfolding rb_erase_def t_def [symmetric] ptrs_def by auto
  have xt: "x \<notin> ptrs t'" using er(4) dist by (auto simp: ptrs_def)
  have xal: "x \<noteq> 0" "aligned x" "rheap (tq_head q) x \<noteq> None"
    using tree_at_0 [of "rheap (tq_head q)" 0 t] tree_at_aligned [of "rheap (tq_head q)" 0 t x]
      tree_at_heap [of "rheap (tq_head q)" 0 t x] t(1,3)
    by (auto simp: holds_def ptrs_def)
  then have "x \<in> dom (rheap s')" using er(5) by (auto simp: keeps_def)
  then obtain n where n: "rheap s' x = Some n" by blast
  define s2 where "s2 = s'\<lparr>rheap := (rheap s')(x \<mapsto> n\<lparr>parent_color := x\<rparr>)\<rparr>"
  have clear: "RB_CLEAR_NODE s' x = Some s2" using n by (simp add: RB_CLEAR_NODE_def run_simps s2_def)
  have h2: "holds s2 t'" using er(2) xt by (simp add: holds_def s2_def)
  define q' where "q' = q\<lparr>tq_next := (if tq_next q = x then hd (bs @ [0]) else tq_next q), tq_head := s2\<rparr>"
  have nextx: "rb_next (tq_head q) x = Some (hd (bs @ [0]))" by (rule queue_next [OF assms])
  have nxt: "tq_next q = hd (as @ [x])" using assms by (cases as) (auto simp: queue_def)
  have nx: "tq_next q = x \<longleftrightarrow> as = []" using nxt dist by (cases as) auto
  have run: "timerqueue_del q x = Some q'"
    using nextx er(1) clear by (auto simp: timerqueue_del_def q'_def)
  have "queue q' (as @ bs)"
    unfolding queue_def
  proof (intro conjI)
    show "rb_tree_with (tq_head q') (as @ bs)"
      using h2 er(3,4) unfolding rb_tree_with_def q'_def by auto
    show "set (as @ bs) \<subseteq> dom (tq_expires q')" using assms by (auto simp: queue_def q'_def)
    have "expiry q' = expiry q" by (simp add: expiry_def q'_def fun_eq_iff)
    then show "sorted (map (expiry q') (as @ bs))" using assms by (auto simp: queue_def sorted_append)
    show "tq_next q' = hd ((as @ bs) @ [0])" using nx nxt by (cases as) (auto simp: q'_def)
  qed
  moreover have "keeps (set (as @ x # bs)) (tq_head q) (tq_head q')"
    using er(5) n by (auto simp: keeps_def q'_def s2_def)
  moreover have "RB_EMPTY_NODE (tq_head q') x = Some True" by (simp add: RB_EMPTY_NODE_def get_pc_def q'_def s2_def)
  moreover have "loose q' x" using xal assms by (auto simp: loose_def q'_def s2_def queue_def)
  ultimately show ?thesis using run by (simp add: q'_def)
qed

section \<open>The contract of a timer queue\<close>

locale timer_queue =
  fixes wf :: "'q \<Rightarrow> 'n list \<Rightarrow> bool" and key :: "'q \<Rightarrow> 'n \<Rightarrow> 'k :: linorder"
    and obj :: "'q \<Rightarrow> 'n \<Rightarrow> bool" and none :: 'n
    and first :: "'q \<Rightarrow> 'n" and add :: "'q \<Rightarrow> 'n \<Rightarrow> 'q option" and del :: "'q \<Rightarrow> 'n \<Rightarrow> 'q option"
    and rekey :: "'q \<Rightarrow> 'n \<Rightarrow> 'k \<Rightarrow> 'q"
  assumes first_law: "wf q xs \<Longrightarrow> first q = hd (xs @ [none])"
    and none_law: "wf q xs \<Longrightarrow> none \<notin> set xs"
    and sorted_law: "wf q xs \<Longrightarrow> sorted (map (key q) xs)"
    and distinct_law: "wf q xs \<Longrightarrow> distinct xs"
    and member_law: "wf q xs \<Longrightarrow> x \<in> set xs \<Longrightarrow> obj q x"
    and add_law: "wf q xs \<Longrightarrow> obj q x \<Longrightarrow> x \<notin> set xs \<Longrightarrow>
      \<exists>q'. add q x = Some q' \<and> wf q' (enqueue (key q) x xs) \<and> key q' = key q \<and> (\<forall>y. obj q y \<longrightarrow> obj q' y)"
    and del_law: "wf q (as @ x # bs) \<Longrightarrow>
      \<exists>q'. del q x = Some q' \<and> wf q' (as @ bs) \<and> key q' = key q \<and> (\<forall>y. obj q y \<longrightarrow> obj q' y)"
    and rekey_law: "wf q xs \<Longrightarrow> obj q x \<Longrightarrow> x \<notin> set xs \<Longrightarrow>
      wf (rekey q x e) xs \<and> key (rekey q x e) = (key q)(x := e) \<and> (\<forall>y. obj q y \<longrightarrow> obj (rekey q x e) y)"
begin

lemma first_none: "wf q xs \<Longrightarrow> first q = none \<longleftrightarrow> xs = []"
  using first_law [of q xs] none_law [of q xs] by (cases xs) auto

lemma first_least: "wf q xs \<Longrightarrow> xs \<noteq> [] \<Longrightarrow> first q \<in> set xs \<and> (\<forall>y \<in> set xs. key q (first q) \<le> key q y)"
  using first_law [of q xs] sorted_law [of q xs] by (cases xs) auto

lemma del_member:
  assumes "wf q xs" and "x \<in> set xs"
  shows "\<exists>q'. del q x = Some q' \<and> wf q' (remove1 x xs) \<and> key q' = key q \<and> (\<forall>y. obj q y \<longrightarrow> obj q' y)"
proof -
  obtain as bs where xs: "xs = as @ x # bs" "x \<notin> set as" using split_list_first [OF assms(2)] by blast
  then have "remove1 x xs = as @ bs" by (simp add: remove1_append)
  then show ?thesis using del_law [of q as x bs] assms(1) xs by simp
qed

lemma not_after_del: "wf q xs \<Longrightarrow> x \<notin> set (remove1 x xs)"
  using distinct_law by simp

lemma requeue:
  assumes "wf q xs" and "obj q x"
  shows "\<exists>q1 q2. (if x \<in> set xs then del q x else Some q) = Some q1 \<and> add (rekey q1 x e) x = Some q2
    \<and> wf q1 (remove1 x xs) \<and> wf q2 (enqueue ((key q)(x := e)) x (remove1 x xs)) \<and> key q2 = (key q)(x := e)
    \<and> (\<forall>y. obj q y \<longrightarrow> obj q2 y)"
proof -
  obtain q1 where q1: "(if x \<in> set xs then del q x else Some q) = Some q1" "wf q1 (remove1 x xs)"
    "key q1 = key q" "\<forall>y. obj q y \<longrightarrow> obj q1 y"
    using del_member [of q xs x] assms by (cases "x \<in> set xs") (auto simp: remove1_idem)
  have x: "x \<notin> set (remove1 x xs)" using assms by (simp add: not_after_del)
  have re: "wf (rekey q1 x e) (remove1 x xs)" "key (rekey q1 x e) = (key q)(x := e)" "\<forall>y. obj q1 y \<longrightarrow> obj (rekey q1 x e) y"
    using rekey_law [of q1 "remove1 x xs" x e] q1 x assms by auto
  show ?thesis
    using add_law [of "rekey q1 x e" "remove1 x xs" x] re q1 x assms by auto
qed

end

definition set_expires :: "tqueue \<Rightarrow> ptr \<Rightarrow> ktime \<Rightarrow> tqueue" where
  "set_expires q x e = q\<lparr>tq_expires := (tq_expires q)(x \<mapsto> e)\<rparr>"

lemma queue_distinct: "queue q xs \<Longrightarrow> distinct xs"
  by (metis queue_def rb_tree_with_def holds_def apart_distinct)

lemma queue_members:
  assumes "queue q xs"
  shows "0 \<notin> set xs" and "x \<in> set xs \<Longrightarrow> loose q x"
proof -
  obtain t where t: "tree_at (rheap (tq_head q)) 0 t" "inorder t = xs"
    using assms by (auto simp: queue_def rb_tree_with_def holds_def)
  show "0 \<notin> set xs" using tree_at_0 [OF t(1)] t(2) by (auto simp: ptrs_def)
  show "loose q x" if x: "x \<in> set xs"
  proof -
    have xt: "x \<in> ptrs t" using x t(2) by (simp add: ptrs_def)
    have "x \<noteq> 0" using tree_at_0 [OF t(1)] xt by metis
    moreover have "aligned x" using tree_at_aligned [OF t(1)] xt by blast
    moreover have "x \<in> dom (rheap (tq_head q))" using tree_at_heap [OF t(1)] xt by auto
    moreover have "x \<in> dom (tq_expires q)" using assms x by (auto simp: queue_def)
    ultimately show ?thesis by (auto simp: loose_def)
  qed
qed

lemma loose_keeps: "keeps X (tq_head q) (tq_head q') \<Longrightarrow> tq_expires q' = tq_expires q \<Longrightarrow> loose q y \<Longrightarrow> loose q' y"
  by (auto simp: keeps_def loose_def)

lemma queue_rekey:
  assumes "queue q xs" and "x \<notin> set xs"
  shows "queue (set_expires q x e) xs"
proof -
  have "map (expiry (set_expires q x e)) xs = map (expiry q) xs"
    using assms(2) by (auto simp: expiry_def set_expires_def)
  then have "sorted (map (expiry (set_expires q x e)) xs)" using assms(1) unfolding queue_def by metis
  then show ?thesis using assms by (auto simp: queue_def set_expires_def)
qed

interpretation tq: timer_queue queue expiry loose 0 timerqueue_getnext timerqueue_add timerqueue_del set_expires
proof
  fix q xs and x :: ptr and as bs :: "ptr list" and e
  show "queue q xs \<Longrightarrow> timerqueue_getnext q = hd (xs @ [0])" by (simp add: queue_def timerqueue_getnext_def)
  show "queue q xs \<Longrightarrow> 0 \<notin> set xs" by (rule queue_members)
  show "queue q xs \<Longrightarrow> sorted (map (expiry q) xs)" by (simp add: queue_def)
  show "queue q xs \<Longrightarrow> distinct xs" by (rule queue_distinct)
  show "queue q xs \<Longrightarrow> x \<in> set xs \<Longrightarrow> loose q x" by (rule queue_members)
  have same: "expiry q' = expiry q" if "tq_expires q' = tq_expires q" for q' :: tqueue
    using that by (simp add: expiry_def fun_eq_iff)
  show "\<exists>q'. timerqueue_add q x = Some q' \<and> queue q' (enqueue (expiry q) x xs) \<and> expiry q' = expiry q
      \<and> (\<forall>y. loose q y \<longrightarrow> loose q' y)" if "queue q xs" "loose q x" "x \<notin> set xs"
    using timerqueue_add_correct [OF that] same loose_keeps by blast
  show "\<exists>q'. timerqueue_del q x = Some q' \<and> queue q' (as @ bs) \<and> expiry q' = expiry q
      \<and> (\<forall>y. loose q y \<longrightarrow> loose q' y)" if "queue q (as @ x # bs)"
    using timerqueue_del_correct [OF that] same loose_keeps by blast
  show "queue (set_expires q x e) xs \<and> expiry (set_expires q x e) = (expiry q)(x := e)
      \<and> (\<forall>y. loose q y \<longrightarrow> loose (set_expires q x e) y)" if "queue q xs" "loose q x" "x \<notin> set xs"
    using that queue_rekey by (auto simp: set_expires_def expiry_def loose_def fun_eq_iff)
qed

section \<open>Properties\<close>

text \<open>
  C21. \<open>timerqueue_add\<close> refines ordered insertion: the queue afterwards is the old one
  with the node behind every node that expires no later, as a valid red-black tree with the
  cached first node, no other node being touched.
\<close>

theorem timerqueue_add_refines_enqueue:
  assumes "queue q xs" and "loose q x" and "x \<notin> set xs"
  shows "\<exists>q'. timerqueue_add q x = Some q' \<and> queue q' (enqueue (expiry q) x xs)
    \<and> tq_expires q' = tq_expires q \<and> keeps (insert x (set xs)) (tq_head q) (tq_head q')"
  using assms by (rule timerqueue_add_correct)

definition sample_queue :: tqueue where
  "sample_queue = \<lparr>tq_head = sample_rbs, tq_next = 8, tq_expires = [8 \<mapsto> Ktime 5, 16 \<mapsto> Ktime 9, 4 \<mapsto> Ktime 5]\<rparr>"

lemma sample_queue: "queue sample_queue [8, 16]" "loose sample_queue 4"
proof -
  have "rb_tree_with sample_rbs [8, 16]"
    unfolding rb_tree_with_def using sample_rbs(1,2) by (intro exI [of _ "Node Black (Node Red Tip 8 Tip) 16 Tip"]) simp
  then show "queue sample_queue [8, 16]"
    by (simp add: queue_def sample_queue_def expiry_def less_eq_ktime_def ktime_int_def)
  show "loose sample_queue 4" using sample_rbs(3) by (simp add: loose_def sample_queue_def aligned_def)
qed

lemma sample_enqueue: "enqueue (expiry sample_queue) 4 [8, 16] = [8, 4, 16]"
  by (simp add: enqueue_def expiry_def sample_queue_def less_eq_ktime_def ktime_int_def)

theorem timerqueue_add_refines_enqueue_witness:
  "\<exists>q'. timerqueue_add sample_queue 4 = Some q' \<and> queue q' [8, 4, 16]"
  using timerqueue_add_refines_enqueue [OF sample_queue] sample_enqueue by auto

text \<open>
  \<open>timerqueue_del\<close> takes exactly the node out, keeps the order and the cached first
  node, and leaves the node marked empty.
\<close>

theorem timerqueue_del_removes:
  assumes "queue q (as @ x # bs)"
  shows "\<exists>q'. timerqueue_del q x = Some q' \<and> queue q' (as @ bs) \<and> tq_expires q' = tq_expires q
    \<and> RB_EMPTY_NODE (tq_head q') x = Some True \<and> keeps (set (as @ x # bs)) (tq_head q) (tq_head q')"
  using timerqueue_del_correct [OF assms] by blast

theorem timerqueue_del_removes_witness:
  "\<exists>q'. timerqueue_del sample_queue 8 = Some q' \<and> queue q' [16]"
  using timerqueue_del_removes [of sample_queue "[]" 8 "[16]"] sample_queue by auto

text \<open>
  \<open>timerqueue_getnext\<close> is a node that expires first, and null exactly for the empty
  queue; \<open>timerqueue_iterate_next\<close> walks the queue in order of expiry.
\<close>

theorem timerqueue_walk_in_expiry_order:
  assumes "queue q xs"
  shows "(timerqueue_getnext q = 0 \<longleftrightarrow> xs = [])
    \<and> (\<forall>y \<in> set xs. timerqueue_getnext q \<in> set xs \<and> expiry q (timerqueue_getnext q) \<le> expiry q y)
    \<and> (\<forall>k < length xs. timerqueue_iterate_next q (xs ! k) = Some ((xs @ [0]) ! Suc k))
    \<and> timerqueue_iterate_next q 0 = Some 0"
proof (intro conjI ballI allI impI)
  show "timerqueue_getnext q = 0 \<longleftrightarrow> xs = []" by (rule tq.first_none [OF assms])
  show "timerqueue_getnext q \<in> set xs" "expiry q (timerqueue_getnext q) \<le> expiry q y" if "y \<in> set xs" for y
  proof -
    have "xs \<noteq> []" using that by auto
    then show "timerqueue_getnext q \<in> set xs" "expiry q (timerqueue_getnext q) \<le> expiry q y"
      using tq.first_least [OF assms] that by auto
  qed
  show "timerqueue_iterate_next q (xs ! k) = Some ((xs @ [0]) ! Suc k)" if k: "k < length xs" for k
  proof -
    have "queue q (take k xs @ xs ! k # drop (Suc k) xs)" using assms k by (simp add: id_take_nth_drop [symmetric])
    then have "rb_next (tq_head q) (xs ! k) = Some (hd (drop (Suc k) xs @ [0]))" by (rule queue_next)
    moreover have "xs ! k \<noteq> 0" using tq.none_law [OF assms] k by (metis nth_mem)
    moreover have "hd (drop (Suc k) xs @ [0]) = (xs @ [0]) ! Suc k"
      using k by (cases "Suc k < length xs") (simp_all add: hd_append hd_drop_conv_nth nth_append)
    ultimately show ?thesis by (simp add: timerqueue_iterate_next_def)
  qed
qed (simp add: timerqueue_iterate_next_def)

theorem timerqueue_walk_in_expiry_order_witness:
  "timerqueue_getnext sample_queue \<noteq> 0 \<and> timerqueue_iterate_next sample_queue 8 = Some 16"
  using timerqueue_walk_in_expiry_order [OF sample_queue(1)] by (auto dest: spec [of _ 0])

end
