(* ===== verification/Timer.thy ===== *)
theory Timer
  imports TimerQueue "HOL-Library.Signed_Division"
begin

text \<open>
  \<open>src/src/timer.c\<close> and \<open>include/timer.h\<close>: timers that call a function when they expire.
  A timer starts with its \<open>timerqueue_node\<close>, so a pointer to one is a pointer to the other.
  The results of \<open>gettimeofday\<close> are a sequence the state carries; what a callback does is a
  function of the state. Signed arithmetic that overflows is undefined.
\<close>

section \<open>State\<close>

definition HRTIMER_STATE_INACTIVE :: u32 where "HRTIMER_STATE_INACTIVE = 0"
definition HRTIMER_STATE_ENQUEUED :: u32 where "HRTIMER_STATE_ENQUEUED = 1"

record timer =
  t_state :: u32
  t_fn :: ulong
  t_p :: ulong

record 'w timers =
  timerlist :: tqueue
  tmem :: "ptr \<rightharpoonup> timer"
  clock :: "nat \<Rightarrow> int \<times> int"
  ticks :: nat
  world :: 'w

type_synonym 'w callback = "ulong \<Rightarrow> ptr \<Rightarrow> 'w timers \<Rightarrow> 'w timers option"

section \<open>Operations\<close>

definition s64 :: "int \<Rightarrow> ulong option" where
  "s64 i = (if - (2 ^ 63) \<le> i \<and> i < 2 ^ 63 then Some (word_of_int i) else None)"

definition get_current_time_us :: "'w timers \<Rightarrow> (ulong \<times> 'w timers) option" where
  "get_current_time_us s = do {
     let (sec, usec) = clock s (ticks s);
     m \<leftarrow> s64 (sec * 1000000);
     us \<leftarrow> s64 (sint m + usec);
     Some (us, s\<lparr>ticks := Suc (ticks s)\<rparr>) }"

definition get_current_time :: "'w timers \<Rightarrow> (ulong \<times> 'w timers) option" where
  "get_current_time s = do {
     (us, s) \<leftarrow> get_current_time_us s;
     Some (word_of_int (sint us sdiv 1000), s) }"

definition timer_get_expires :: "'w timers \<Rightarrow> ptr \<Rightarrow> ulong option" where
  "timer_get_expires s t = map_option tv64 (tq_expires (timerlist s) t)"

definition set_state :: "'w timers \<Rightarrow> ptr \<Rightarrow> u32 \<Rightarrow> 'w timers option" where
  "set_state s t v = do { r \<leftarrow> tmem s t; Some (s\<lparr>tmem := (tmem s)(t \<mapsto> r\<lparr>t_state := v\<rparr>)\<rparr>) }"

definition unqueue :: "'w timers \<Rightarrow> ptr \<Rightarrow> 'w timers option" where
  "unqueue s t = do {
     r \<leftarrow> tmem s t;
     if t_state r = HRTIMER_STATE_ENQUEUED
     then do { q \<leftarrow> timerqueue_del (timerlist s) t; Some (s\<lparr>timerlist := q\<rparr>) }
     else Some s }"

definition stop_timer :: "'w timers \<Rightarrow> ptr \<Rightarrow> 'w timers option" where
  "stop_timer s t = do { s \<leftarrow> unqueue s t; set_state s t HRTIMER_STATE_INACTIVE }"

definition enqueue_at :: "'w timers \<Rightarrow> ptr \<Rightarrow> 32 word \<Rightarrow> 'w timers option" where
  "enqueue_at s t timeout = do {
     (now, s) \<leftarrow> get_current_time s;
     e \<leftarrow> s64 (sint now + sint timeout);
     tq_expires (timerlist s) t;
     q \<leftarrow> timerqueue_add (set_expires (timerlist s) t (Ktime e)) t;
     set_state (s\<lparr>timerlist := q\<rparr>) t HRTIMER_STATE_ENQUEUED }"

definition start_timer :: "'w timers \<Rightarrow> ptr \<Rightarrow> 32 word \<Rightarrow> 'w timers option" where
  "start_timer s t timeout = do { s \<leftarrow> unqueue s t; enqueue_at s t timeout }"

definition update_timer :: "'w timers \<Rightarrow> ptr \<Rightarrow> 32 word \<Rightarrow> 'w timers option" where
  "update_timer s t timeout = do { s \<leftarrow> stop_timer s t; enqueue_at s t timeout }"

definition free_timer :: "'w timers \<Rightarrow> ptr \<Rightarrow> 'w timers option" where
  "free_timer s t = do {
     tmem s t;
     let q = timerlist s;
     Some (s\<lparr>tmem := (tmem s)(t := None),
       timerlist := q\<lparr>tq_expires := (tq_expires q)(t := None), tq_head := (tq_head q)\<lparr>rheap := (rheap (tq_head q))(t := None)\<rparr>\<rparr>\<rparr>) }"

definition del_timer :: "'w timers \<Rightarrow> ptr \<Rightarrow> 'w timers option" where
  "del_timer s t = do { s \<leftarrow> stop_timer s t; free_timer s t }"

text \<open>
  \<open>malloc\<close> either fails (null) or hands out an object the program does not hold, with arbitrary
  contents: its address, its \<open>rb_node\<close>, its \<open>expires\<close> and its own fields.
\<close>

record chunk =
  c_addr :: ptr
  c_node :: rb_node
  c_expires :: ktime
  c_timer :: timer

definition malloc_timer :: "'w timers \<Rightarrow> chunk \<Rightarrow> 'w timers" where
  "malloc_timer s m = (let q = timerlist s in
     s\<lparr>tmem := (tmem s)(c_addr m \<mapsto> c_timer m),
       timerlist := q\<lparr>tq_expires := (tq_expires q)(c_addr m \<mapsto> c_expires m),
         tq_head := (tq_head q)\<lparr>rheap := (rheap (tq_head q))(c_addr m \<mapsto> c_node m)\<rparr>\<rparr>\<rparr>)"

definition add_timer :: "'w timers \<Rightarrow> chunk \<Rightarrow> ulong \<Rightarrow> ulong \<Rightarrow> 32 word \<Rightarrow> (ptr \<times> 'w timers) option" where
  "add_timer s m p fn timeout =
     (if c_addr m = 0 then Some (0, s)
      else do {
        let t = c_addr m;
        let s = malloc_timer s m;
        let s = s\<lparr>tmem := (tmem s)(t \<mapsto> \<lparr>t_state = HRTIMER_STATE_INACTIVE, t_fn = fn, t_p = p\<rparr>)\<rparr>;
        q \<leftarrow> timerqueue_init (timerlist s) t;
        s \<leftarrow> start_timer (s\<lparr>timerlist := q\<rparr>) t timeout;
        Some (t, s) })"

definition run_callback :: "'w callback \<Rightarrow> 'w timers \<Rightarrow> ptr \<Rightarrow> 'w timers option" where
  "run_callback call s pos = do {
     r \<leftarrow> tmem s pos;
     if t_fn r = 0 then Some s else call (t_fn r) pos s }"

partial_function (option) process_loop ::
  "'w callback \<Rightarrow> ptr \<Rightarrow> ulong \<Rightarrow> 'w timers \<Rightarrow> (ptr \<times> ulong \<times> 'w timers) option" where
  "process_loop call pos time s =
     (let node = timerqueue_getnext (timerlist s) in
      if node = 0 then Some (pos, time, s)
      else do {
        (time, s) \<leftarrow> get_current_time s;
        e \<leftarrow> timer_get_expires s node;
        if sint time < sint e then Some (node, time, s)
        else do {
          s \<leftarrow> stop_timer s node;
          s \<leftarrow> run_callback call s node;
          process_loop call node time s } })"

definition process_timer :: "'w callback \<Rightarrow> 'w timers \<Rightarrow> (32 word \<times> 'w timers) option" where
  "process_timer call s = do {
     (pos, time, s) \<leftarrow> process_loop call 0 0 s;
     if pos = 0 then Some (1000, s)
     else do {
       e \<leftarrow> timer_get_expires s pos;
       d \<leftarrow> s64 (sint e - sint time);
       Some (ucast d, s) } }"

section \<open>Invariant\<close>

text \<open>
  \<open>armed s xs\<close>: the queue holds exactly the timers whose state is ENQUEUED, the list \<open>xs\<close>
  in order of expiry, and every live timer is an aligned object.
\<close>

definition armed :: "'w timers \<Rightarrow> ptr list \<Rightarrow> bool" where
  "armed s xs \<longleftrightarrow> queue (timerlist s) xs
     \<and> (\<forall>x. x \<in> set xs \<longleftrightarrow> (\<exists>r. tmem s x = Some r \<and> t_state r = HRTIMER_STATE_ENQUEUED))
     \<and> (\<forall>x \<in> dom (tmem s). loose (timerlist s) x)"

abbreviation expires :: "'w timers \<Rightarrow> ptr \<Rightarrow> ktime" where "expires s \<equiv> expiry (timerlist s)"

definition live :: "'w timers \<Rightarrow> ptr set" where "live s = dom (tmem s)"

definition now_ms :: "'w timers \<Rightarrow> nat \<Rightarrow> int" where
  "now_ms s n = (fst (clock s n) * 1000000 + snd (clock s n)) div 1000"

text \<open>The kernel's clock after the epoch: seconds not negative, microseconds below a million, no overflow.\<close>

definition sane_clock :: "'w timers \<Rightarrow> bool" where
  "sane_clock s \<longleftrightarrow> (\<forall>n. 0 \<le> fst (clock s n) \<and> 0 \<le> snd (clock s n) \<and> snd (clock s n) < 1000000
     \<and> fst (clock s n) < 2 ^ 43 )"

lemma s64_sint: "- (2 ^ 63) \<le> i \<Longrightarrow> i < 2 ^ 63 \<Longrightarrow> \<exists>w. s64 i = Some w \<and> sint w = i"
  by (simp add: s64_def sint_sbintrunc' signed_take_bit_int_eq_self)

lemma s64_word: "s64 i = Some w \<Longrightarrow> w = word_of_int i" by (simp add: s64_def split: if_splits)

lemma get_current_time_correct:
  assumes "sane_clock s"
  shows "\<exists>w. get_current_time s = Some (w, s\<lparr>ticks := Suc (ticks s)\<rparr>) \<and> sint w = now_ms s (ticks s)
    \<and> 0 \<le> now_ms s (ticks s) \<and> now_ms s (ticks s) < 2 ^ 60"
proof -
  obtain a b where c: "clock s (ticks s) = (a, b)" by (cases "clock s (ticks s)")
  have b: "0 \<le> a" "a < 2 ^ 43" "0 \<le> b" "b < 1000000" using assms c unfolding sane_clock_def by (metis fst_conv snd_conv)+
  obtain m where m: "s64 (a * 1000000) = Some m" "sint m = a * 1000000"
    using s64_sint [of "a * 1000000"] b by auto
  obtain us where us: "s64 (a * 1000000 + b) = Some us" "sint us = a * 1000000 + b"
    using s64_sint [of "a * 1000000 + b"] b by auto
  have n: "now_ms s (ticks s) = (a * 1000000 + b) div 1000" by (simp add: now_ms_def c)
  have r: "0 \<le> (a * 1000000 + b) div 1000" "(a * 1000000 + b) div 1000 < 2 ^ 60" using b by auto
  have "(a * 1000000 + b) sdiv 1000 = (a * 1000000 + b) div 1000"
    using b by (simp add: signed_divide_int_def sgn_if)
  moreover have "sint (word_of_int ((a * 1000000 + b) div 1000) :: ulong) = (a * 1000000 + b) div 1000"
    using r by (simp add: sint_sbintrunc' signed_take_bit_int_eq_self)
  ultimately show ?thesis
    using m us n r by (simp add: get_current_time_def get_current_time_us_def c)
qed

lemma unqueue_correct:
  assumes "armed s xs" and "x \<in> live s"
  shows "\<exists>q' r. tmem s x = Some r \<and> unqueue s x = Some (s\<lparr>timerlist := q'\<rparr>) \<and> queue q' (remove1 x xs)
    \<and> expiry q' = expires s \<and> (\<forall>y. loose (timerlist s) y \<longrightarrow> loose q' y)"
proof -
  obtain r where r: "tmem s x = Some r" using assms(2) by (auto simp: live_def)
  have q: "queue (timerlist s) xs" using assms(1) by (simp add: armed_def)
  have mem: "x \<in> set xs \<longleftrightarrow> t_state r = HRTIMER_STATE_ENQUEUED" using assms(1) r by (simp add: armed_def)
  show ?thesis
  proof (cases "x \<in> set xs")
    case True
    obtain q' where "timerqueue_del (timerlist s) x = Some q'" "queue q' (remove1 x xs)" "expiry q' = expires s"
      "\<forall>y. loose (timerlist s) y \<longrightarrow> loose q' y"
      using tq.del_member [OF q True] by blast
    then show ?thesis using r mem True by (intro exI [of _ q'] exI [of _ r]) (simp add: unqueue_def)
  next
    case False
    then show ?thesis
      using r mem q by (intro exI [of _ "timerlist s"] exI [of _ r]) (simp add: unqueue_def remove1_idem)
  qed
qed

lemma armed_intro:
  assumes "armed s xs" and "tmem s x = Some r" and "queue q' ys" and "set ys - {x} = set xs - {x}"
    and "x \<in> set ys \<longleftrightarrow> v = HRTIMER_STATE_ENQUEUED" and "\<And>y. loose (timerlist s) y \<Longrightarrow> loose q' y"
  shows "armed (s\<lparr>timerlist := q', tmem := (tmem s)(x \<mapsto> r\<lparr>t_state := v\<rparr>)\<rparr>) ys"
proof -
  have "y \<in> set ys \<longleftrightarrow> y \<in> set xs" if "y \<noteq> x" for y using assms(4) that by blast
  then have "y \<in> set ys \<longleftrightarrow> (\<exists>r. tmem s y = Some r \<and> t_state r = HRTIMER_STATE_ENQUEUED)" if "y \<noteq> x" for y
    using assms(1) that by (simp add: armed_def)
  moreover have "\<forall>y \<in> dom (tmem s). loose q' y" using assms(1,6) by (simp add: armed_def)
  ultimately show ?thesis using assms(2,3,5) by (auto simp: armed_def)
qed

lemma stop_timer_correct:
  assumes "armed s xs" and "x \<in> live s"
  shows "\<exists>q' r. tmem s x = Some r
    \<and> stop_timer s x = Some (s\<lparr>timerlist := q', tmem := (tmem s)(x \<mapsto> r\<lparr>t_state := HRTIMER_STATE_INACTIVE\<rparr>)\<rparr>)
    \<and> armed (s\<lparr>timerlist := q', tmem := (tmem s)(x \<mapsto> r\<lparr>t_state := HRTIMER_STATE_INACTIVE\<rparr>)\<rparr>) (remove1 x xs)
    \<and> expiry q' = expires s"
proof -
  obtain q' r where u: "tmem s x = Some r" "unqueue s x = Some (s\<lparr>timerlist := q'\<rparr>)" "queue q' (remove1 x xs)"
    "expiry q' = expires s" "\<forall>y. loose (timerlist s) y \<longrightarrow> loose q' y"
    using unqueue_correct [OF assms] by blast
  have d: "distinct xs" using assms(1) tq.distinct_law by (auto simp: armed_def)
  have "armed (s\<lparr>timerlist := q', tmem := (tmem s)(x \<mapsto> r\<lparr>t_state := HRTIMER_STATE_INACTIVE\<rparr>)\<rparr>) (remove1 x xs)"
    by (rule armed_intro [OF assms(1) u(1,3)]) (use u(5) d in \<open>auto simp: HRTIMER_STATE_INACTIVE_def HRTIMER_STATE_ENQUEUED_def\<close>)
  then show ?thesis using u by (intro exI [of _ q'] exI [of _ r]) (simp add: stop_timer_def set_state_def)
qed

lemma enqueue_at_correct:
  assumes "queue (timerlist s) ys" and "x \<notin> set ys" and "loose (timerlist s) x" and "tmem s x = Some r"
    and "sane_clock s" and "ms = now_ms s (ticks s)"
  shows "\<exists>q'. enqueue_at s x timeout = Some (s\<lparr>ticks := Suc (ticks s), timerlist := q',
      tmem := (tmem s)(x \<mapsto> r\<lparr>t_state := HRTIMER_STATE_ENQUEUED\<rparr>)\<rparr>)
    \<and> expiry q' = (expires s)(x := Ktime (word_of_int (ms + sint timeout)))
    \<and> queue q' (enqueue (expiry q') x ys) \<and> (\<forall>y. loose (timerlist s) y \<longrightarrow> loose q' y)"
proof -
  obtain w where w: "get_current_time s = Some (w, s\<lparr>ticks := Suc (ticks s)\<rparr>)" "sint w = ms" "0 \<le> ms" "ms < 2 ^ 60"
    using get_current_time_correct [OF assms(5)] assms(6) by auto
  have t: "- (2 ^ 31) \<le> sint timeout" "sint timeout < 2 ^ 31"
    using sint_range_size [of timeout] by (simp_all add: word_size)
  then have e: "s64 (ms + sint timeout) = Some (word_of_int (ms + sint timeout))" using w by (simp add: s64_def)
  define k where "k = Ktime (word_of_int (ms + sint timeout))"
  let ?q = "set_expires (timerlist s) x k"
  have rk: "queue ?q ys" "expiry ?q = (expires s)(x := k)" "\<forall>y. loose (timerlist s) y \<longrightarrow> loose ?q y"
    using tq.rekey_law [OF assms(1,3,2)] by auto
  obtain q' where q': "timerqueue_add ?q x = Some q'" "queue q' (enqueue (expiry ?q) x ys)" "expiry q' = expiry ?q"
    "\<forall>y. loose ?q y \<longrightarrow> loose q' y"
    using tq.add_law [OF rk(1) _ assms(2)] rk(3) assms(3) by blast
  obtain e0 where e0: "tq_expires (timerlist s) x = Some e0" using assms(3) by (auto simp: loose_def)
  show ?thesis
    using w(1) e q' rk assms(4) e0 w(2)
    by (intro exI [of _ q']) (simp add: enqueue_at_def set_state_def k_def)
qed

lemma start_timer_correct:
  assumes "armed s xs" and "x \<in> live s" and "sane_clock s" and "ms = now_ms s (ticks s)"
  shows "\<exists>s'. start_timer s x timeout = Some s' \<and> update_timer s x timeout = Some s'
    \<and> armed s' (enqueue (expires s') x (remove1 x xs))
    \<and> expires s' = (expires s)(x := Ktime (word_of_int (ms + sint timeout)))
    \<and> live s' = live s \<and> clock s' = clock s \<and> ticks s' = Suc (ticks s) \<and> world s' = world s
    \<and> (\<forall>y. map_option t_fn (tmem s' y) = map_option t_fn (tmem s y))"
proof -
  obtain q r where u: "tmem s x = Some r" "unqueue s x = Some (s\<lparr>timerlist := q\<rparr>)" "queue q (remove1 x xs)"
    "expiry q = expires s" "\<forall>y. loose (timerlist s) y \<longrightarrow> loose q y"
    using unqueue_correct [OF assms(1,2)] by blast
  have d: "distinct xs" using assms(1) tq.distinct_law by (auto simp: armed_def)
  then have x: "x \<notin> set (remove1 x xs)" by simp
  have lx: "loose q x" using assms(1) u(1,5) by (auto simp: armed_def)
  let ?k = "Ktime (word_of_int (ms + sint timeout))"
  let ?s1 = "s\<lparr>timerlist := q\<rparr>" and ?s2 = "s\<lparr>timerlist := q, tmem := (tmem s)(x \<mapsto> r\<lparr>t_state := HRTIMER_STATE_INACTIVE\<rparr>)\<rparr>"
  have sc: "sane_clock ?s1" "sane_clock ?s2" using assms(3) by (simp_all add: sane_clock_def)
  have ms: "ms = now_ms ?s1 (ticks ?s1)" "ms = now_ms ?s2 (ticks ?s2)" using assms(4) by (simp_all add: now_ms_def)
  obtain q1 where q1: "enqueue_at ?s1 x timeout = Some (?s1\<lparr>ticks := Suc (ticks s), timerlist := q1,
      tmem := (tmem s)(x \<mapsto> r\<lparr>t_state := HRTIMER_STATE_ENQUEUED\<rparr>)\<rparr>)"
    "expiry q1 = (expiry q)(x := ?k)" "queue q1 (enqueue (expiry q1) x (remove1 x xs))" "\<forall>y. loose q y \<longrightarrow> loose q1 y"
    using enqueue_at_correct [of ?s1 "remove1 x xs" x r ms timeout] u x lx sc ms by auto
  have q2: "enqueue_at ?s2 x timeout = enqueue_at ?s1 x timeout"
    using u(1) by (simp add: enqueue_at_def get_current_time_def get_current_time_us_def set_state_def Let_def
        split: prod.split Option.bind_split)
  let ?s' = "?s1\<lparr>ticks := Suc (ticks s), timerlist := q1, tmem := (tmem s)(x \<mapsto> r\<lparr>t_state := HRTIMER_STATE_ENQUEUED\<rparr>)\<rparr>"
  have "armed (s\<lparr>timerlist := q1, tmem := (tmem s)(x \<mapsto> r\<lparr>t_state := HRTIMER_STATE_ENQUEUED\<rparr>)\<rparr>) (enqueue (expiry q1) x (remove1 x xs))"
    by (rule armed_intro [OF assms(1) u(1) q1(3)]) (use u(5) q1(4) d in \<open>auto simp: set_enqueue\<close>)
  then have "armed ?s' (enqueue (expiry q1) x (remove1 x xs))" by (simp add: armed_def)
  moreover have "start_timer s x timeout = Some ?s'" using u(2) q1(1) by (simp add: start_timer_def)
  moreover have "update_timer s x timeout = Some ?s'"
    using u(1,2) q1(1) q2 by (simp add: update_timer_def stop_timer_def set_state_def)
  ultimately show ?thesis
    using u(1,4) q1(2) by (intro exI [of _ ?s']) (auto simp: live_def)
qed

text \<open>The queue does not see what happens to objects it does not hold.\<close>

lemma queue_frame:
  assumes "queue q xs" and "\<And>y. y \<in> set xs \<Longrightarrow> rheap (tq_head q') y = rheap (tq_head q) y"
    and "\<And>y. y \<in> set xs \<Longrightarrow> tq_expires q' y = tq_expires q y"
    and "rroot (tq_head q') = rroot (tq_head q)" and "tq_next q' = tq_next q"
  shows "queue q' xs"
proof -
  obtain t where t: "holds (tq_head q) t" "rbt t" "inorder t = xs"
    using assms(1) by (auto simp: queue_def rb_tree_with_def)
  have "tree_at (rheap (tq_head q')) 0 t = tree_at (rheap (tq_head q)) 0 t"
    by (rule tree_at_cong) (use assms(2) t(3) in \<open>simp add: ptrs_def\<close>)
  then have "rb_tree_with (tq_head q') xs"
    using t assms(4) unfolding rb_tree_with_def holds_def by auto
  moreover have "map (expiry q') xs = map (expiry q) xs" using assms(3) by (simp add: expiry_def)
  then have "sorted (map (expiry q') xs)" using assms(1) unfolding queue_def by metis
  moreover have "set xs \<subseteq> dom (tq_expires q')" using assms(1,3) by (auto simp: queue_def dom_def subset_iff)
  ultimately show ?thesis using assms(1,5) by (simp add: queue_def)
qed

text \<open>What \<open>malloc\<close> promises of the object it hands out.\<close>

definition fresh :: "'w timers \<Rightarrow> chunk \<Rightarrow> bool" where
  "fresh s m \<longleftrightarrow> c_addr m \<noteq> 0 \<and> aligned (c_addr m) \<and> tmem s (c_addr m) = None
     \<and> rheap (tq_head (timerlist s)) (c_addr m) = None"

lemma add_timer_correct:
  assumes "armed s xs" and "fresh s m" and "sane_clock s" and "ms = now_ms s (ticks s)"
  shows "\<exists>s'. add_timer s m p fn timeout = Some (c_addr m, s')
    \<and> armed s' (enqueue (expires s') (c_addr m) xs)
    \<and> expires s' = (expires s)(c_addr m := Ktime (word_of_int (ms + sint timeout)))
    \<and> live s' = insert (c_addr m) (live s) \<and> clock s' = clock s \<and> ticks s' = Suc (ticks s) \<and> world s' = world s
    \<and> map_option t_fn (tmem s' (c_addr m)) = Some fn"
proof -
  let ?x = "c_addr m" and ?r = "\<lparr>t_state = HRTIMER_STATE_INACTIVE, t_fn = fn, t_p = p\<rparr>"
  let ?q = "timerlist s"
  let ?q1 = "?q\<lparr>tq_expires := (tq_expires ?q)(?x \<mapsto> c_expires m),
    tq_head := (tq_head ?q)\<lparr>rheap := (rheap (tq_head ?q))(?x \<mapsto> (c_node m)\<lparr>parent_color := ?x\<rparr>)\<rparr>\<rparr>"
  let ?s1 = "s\<lparr>tmem := (tmem s)(?x \<mapsto> ?r), timerlist := ?q1\<rparr>"
  have q: "queue ?q xs" using assms(1) by (simp add: armed_def)
  have x: "?x \<notin> set xs" using queue_members(2) [OF q, of ?x] assms(2) by (auto simp: fresh_def loose_def)
  have q1: "queue ?q1 xs" by (rule queue_frame [OF q]) (use x in auto)
  have "loose ?q1 y" if "loose ?q y \<or> y = ?x" for y
    using that assms(2) by (auto simp: loose_def fresh_def)
  then have armed1: "armed ?s1 xs"
    using assms(1,2) q1 x by (auto simp: armed_def fresh_def HRTIMER_STATE_INACTIVE_def HRTIMER_STATE_ENQUEUED_def)
  have "sane_clock ?s1" "ms = now_ms ?s1 (ticks ?s1)" using assms(3,4) by (simp_all add: sane_clock_def now_ms_def)
  moreover have "?x \<in> live ?s1" by (simp add: live_def)
  ultimately obtain s' where s': "start_timer ?s1 ?x timeout = Some s'"
    "armed s' (enqueue (expires s') ?x (remove1 ?x xs))"
    "expires s' = (expiry ?q1)(?x := Ktime (word_of_int (ms + sint timeout)))"
    "live s' = live ?s1" "clock s' = clock s" "ticks s' = Suc (ticks s)" "world s' = world s"
    "\<forall>y. map_option t_fn (tmem s' y) = map_option t_fn (tmem ?s1 y)"
    using start_timer_correct [of ?s1 xs ?x ms timeout] armed1 by auto
  have "add_timer s m p fn timeout = Some (?x, s')"
    using s'(1) assms(2) by (simp add: add_timer_def malloc_timer_def Let_def timerqueue_init_def RB_CLEAR_NODE_def put_pc_def get_pc_def fresh_def)
  moreover have "expires s' = (expires s)(?x := Ktime (word_of_int (ms + sint timeout)))"
    using s'(3) by (auto simp: expiry_def fun_eq_iff)
  ultimately show ?thesis
    using s' x by (intro exI [of _ s']) (simp add: remove1_idem live_def)
qed

lemma del_timer_correct:
  assumes "armed s xs" and "x \<in> live s"
  shows "\<exists>s'. del_timer s x = Some s' \<and> armed s' (remove1 x xs) \<and> live s' = live s - {x}
    \<and> (\<forall>y. y \<noteq> x \<longrightarrow> expires s' y = expires s y \<and> tmem s' y = tmem s y) \<and> timer_get_expires s' x = None"
proof -
  obtain q r where st: "tmem s x = Some r"
    "stop_timer s x = Some (s\<lparr>timerlist := q, tmem := (tmem s)(x \<mapsto> r\<lparr>t_state := HRTIMER_STATE_INACTIVE\<rparr>)\<rparr>)"
    "armed (s\<lparr>timerlist := q, tmem := (tmem s)(x \<mapsto> r\<lparr>t_state := HRTIMER_STATE_INACTIVE\<rparr>)\<rparr>) (remove1 x xs)"
    "expiry q = expires s"
    using stop_timer_correct [OF assms] by blast
  let ?q = "q\<lparr>tq_expires := (tq_expires q)(x := None), tq_head := (tq_head q)\<lparr>rheap := (rheap (tq_head q))(x := None)\<rparr>\<rparr>"
  let ?s = "s\<lparr>timerlist := ?q, tmem := (tmem s)(x := None)\<rparr>"
  have d: "distinct xs" using assms(1) tq.distinct_law by (auto simp: armed_def)
  have "queue q (remove1 x xs)" using st(3) by (simp add: armed_def)
  then have "queue ?q (remove1 x xs)" by (rule queue_frame) (use d in auto)
  then have "armed ?s (remove1 x xs)"
    using st(3) d by (auto simp: armed_def loose_def)
  moreover have "del_timer s x = Some ?s"
    using st(2) by (simp add: del_timer_def free_timer_def Let_def)
  moreover have "expiry ?q y = expires s y" if "y \<noteq> x" for y
    using that st(4) by (auto simp: expiry_def fun_eq_iff)
  ultimately show ?thesis by (intro exI [of _ ?s]) (auto simp: live_def timer_get_expires_def)
qed

section \<open>Processing expired timers\<close>

definition due :: "int \<Rightarrow> 'w timers \<Rightarrow> ptr list \<Rightarrow> ptr list" where
  "due T s xs = filter (\<lambda>x. ktime_int (expires s x) \<le> T) xs"

text \<open>
  What a callback may do while the clock stays at or below \<open>T\<close>: stop, free or start timers as it
  likes as long as the timers due by \<open>T\<close> that were waiting still are, none becomes due by
  \<open>T\<close>, and its own timer is not freed. It records the timer it was called for.
\<close>

definition lawful_call :: "ptr list callback \<Rightarrow> int \<Rightarrow> bool" where
  "lawful_call call T \<longleftrightarrow> (\<forall>f x s xs. armed s xs \<and> x \<in> live s \<and> x \<notin> set xs \<and> sane_clock s
       \<and> (\<forall>y \<in> insert x (set xs). 0 \<le> ktime_int (expires s y)) \<longrightarrow>
     (\<exists>s' ys. call f x s = Some s' \<and> armed s' ys \<and> due T s' ys = due T s xs
        \<and> (\<forall>y \<in> set (due T s xs). expires s' y = expires s y)
        \<and> 0 \<le> ktime_int (expires s' x) \<and> (\<forall>y \<in> set ys. 0 \<le> ktime_int (expires s' y))
        \<and> (\<forall>y \<in> insert x (set (due T s xs)). map_option t_fn (tmem s' y) = map_option t_fn (tmem s y))
        \<and> clock s' = clock s \<and> ticks s \<le> ticks s' \<and> world s' = world s @ [x]))"

lemma expires_get: "armed s xs \<Longrightarrow> x \<in> live s \<Longrightarrow> timer_get_expires s x = Some (tv64 (expires s x))"
proof -
  assume "armed s xs" "x \<in> live s"
  then have "loose (timerlist s) x" by (auto simp: armed_def live_def)
  then obtain e where "tq_expires (timerlist s) x = Some e" by (auto simp: loose_def)
  then show ?thesis by (simp add: timer_get_expires_def expiry_def)
qed

lemma armed_live: "armed s xs \<Longrightarrow> set xs \<subseteq> live s"
  by (auto simp: armed_def live_def)

lemma armed_first: "armed s xs \<Longrightarrow> timerqueue_getnext (timerlist s) = hd (xs @ [0]) \<and> 0 \<notin> set xs"
  using tq.first_law [of "timerlist s" xs] tq.none_law [of "timerlist s" xs] by (simp add: armed_def)

lemma armed_sorted: "armed s (x # xs) \<Longrightarrow> y \<in> set xs \<Longrightarrow> ktime_int (expires s x) \<le> ktime_int (expires s y)"
  using tq.sorted_law [of "timerlist s" "x # xs"] by (auto simp: armed_def less_eq_ktime_def)

definition read_at :: "'w timers \<Rightarrow> ulong \<Rightarrow> int \<Rightarrow> bool" where
  "read_at s time t0 \<longleftrightarrow> t0 \<le> sint time \<and> 0 \<le> sint time \<and> sint time < 2 ^ 60 \<and> (\<exists>n. sint time = now_ms s n)"

lemma not_due_loop:
  assumes "armed s xs" and "sane_clock s" and "t0 \<le> now_ms s (ticks s)" and "xs \<noteq> []"
    and "now_ms s (ticks s) < ktime_int (expires s (hd xs))"
  shows "\<exists>time'. process_loop call pos time s = Some (hd xs, time', s\<lparr>ticks := Suc (ticks s)\<rparr>)
      \<and> read_at s time' t0 \<and> sint time' = now_ms s (ticks s)"
proof -
  obtain w where w: "get_current_time s = Some (w, s\<lparr>ticks := Suc (ticks s)\<rparr>)" "sint w = now_ms s (ticks s)"
    "0 \<le> sint w" "sint w < 2 ^ 60"
    using get_current_time_correct [OF assms(2)] by auto
  have n: "timerqueue_getnext (timerlist s) = hd xs" "hd xs \<noteq> 0" "hd xs \<in> live s"
    using armed_first [OF assms(1)] armed_live [OF assms(1)] assms(4) by (auto simp: hd_append) (metis hd_in_set)
  have "timer_get_expires (s\<lparr>ticks := Suc (ticks s)\<rparr>) (hd xs) = Some (tv64 (expires s (hd xs)))"
    using expires_get [OF assms(1) n(3)] by (simp add: timer_get_expires_def)
  then show ?thesis
    using w n assms(3,5) by (subst process_loop.simps) (auto simp: ktime_int_def read_at_def)
qed

lemma process_loop_correct:
  assumes "lawful_call call T" and "armed s xs" and "sane_clock s"
    and "\<forall>n \<ge> ticks s. t0 \<le> now_ms s n \<and> now_ms s n \<le> T"
    and "\<forall>y \<in> set (due T s xs). map_option t_fn (tmem s y) \<noteq> Some 0"
    and "\<forall>y \<in> set xs. 0 \<le> ktime_int (expires s y)"
  shows "\<exists>pos' time' s' ys k. process_loop call pos time s = Some (pos', time', s') \<and> armed s' ys
    \<and> clock s' = clock s \<and> k \<le> length (due T s xs) \<and> world s' = world s @ take k (due T s xs) \<and> due T s' ys = drop k (due T s xs)
    \<and> (\<forall>y \<in> set (due T s' ys). t0 < ktime_int (expires s y))
    \<and> (ys \<noteq> [] \<longrightarrow> pos' = hd ys \<and> read_at s time' t0 \<and> sint time' < ktime_int (expires s' pos') \<and> pos' \<in> live s')
    \<and> (ys = [] \<longrightarrow> pos' = pos \<and> time' = time \<and> s' = s \<and> xs = []
         \<or> pos' \<noteq> 0 \<and> pos' \<in> live s' \<and> read_at s time' t0 \<and> 0 \<le> ktime_int (expires s' pos'))"
  using assms(2-)
proof (induction "due T s xs" arbitrary: s xs pos time)
  case Nil
  show ?case
  proof (cases "xs = []")
    case True
    then have "process_loop call pos time s = Some (pos, time, s)"
      using armed_first [OF Nil.prems(1)] by (subst process_loop.simps) simp
    then show ?thesis using Nil True by (intro exI [of _ pos] exI [of _ time] exI [of _ s] exI [of _ xs] exI [of _ 0]) (simp add: due_def)
  next
    case False
    have "hd xs \<notin> set (due T s xs)" using Nil.hyps by simp
    then have "T < ktime_int (expires s (hd xs))" using False by (simp add: due_def)
    then have "now_ms s (ticks s) < ktime_int (expires s (hd xs))" using Nil.prems(3) [rule_format, of "ticks s"] by simp
    then obtain w where w: "process_loop call pos time s = Some (hd xs, w, s\<lparr>ticks := Suc (ticks s)\<rparr>)"
      "read_at s w t0" "sint w < ktime_int (expires s (hd xs))"
      using not_due_loop [where ?t0.0 = t0 and call = call and pos = pos and time = time, OF Nil.prems(1,2) _ False] Nil.prems(3) [rule_format, of "ticks s"] by auto
    have "hd xs \<in> live s" using armed_live [OF Nil.prems(1)] False by auto
    then show ?thesis
      using w Nil.prems(1) Nil.hyps False
      by (intro exI [of _ "hd xs"] exI [of _ w] exI [of _ "s\<lparr>ticks := Suc (ticks s)\<rparr>"] exI [of _ xs] exI [of _ 0])
        (simp add: due_def armed_def live_def)
  qed
next
  case (Cons x ds)
  note T = Cons.prems(3) [rule_format, of "ticks s"]
  have xs0: "xs \<noteq> []" using Cons.hyps(2) by (auto simp: due_def)
  define xs' where "xs' = tl xs"
  have hx: "hd xs = x" "xs = x # xs'" "due T s xs' = ds" "ktime_int (expires s x) \<le> T"
  proof -
    obtain z zs where z: "xs = z # zs" using xs0 by (cases xs) auto
    have "ktime_int (expires s z) \<le> T"
    proof (rule ccontr)
      assume "\<not> ktime_int (expires s z) \<le> T"
      then have "due T s xs = []"
        using armed_sorted [of s z zs] Cons.prems(1) z by (force simp: due_def filter_empty_conv)
      then show False using Cons.hyps(2) by simp
    qed
    then show "hd xs = x" "xs = x # xs'" "due T s xs' = ds" "ktime_int (expires s x) \<le> T"
      using Cons.hyps(2) z by (auto simp: due_def xs'_def)
  qed
  have xlive: "x \<in> live s" "x \<noteq> 0" using armed_live [OF Cons.prems(1)] armed_first [OF Cons.prems(1)] hx by auto
  show ?case
  proof (cases "now_ms s (ticks s) < ktime_int (expires s x)")
    case True
    then obtain w where w: "process_loop call pos time s = Some (x, w, s\<lparr>ticks := Suc (ticks s)\<rparr>)"
      "read_at s w t0" "sint w = now_ms s (ticks s)"
      using not_due_loop [where ?t0.0 = t0 and call = call and pos = pos and time = time, OF Cons.prems(1,2) _ xs0] T hx(1) by auto
    have "t0 < ktime_int (expires s y)" if "y \<in> set (due T s xs)" for y
    proof -
      have "y = x \<or> y \<in> set xs'" using that hx(2) by (auto simp: due_def split: if_splits)
      then have "ktime_int (expires s x) \<le> ktime_int (expires s y)"
        using armed_sorted [of s x xs' y] Cons.prems(1) hx(2) by auto
      then show ?thesis using True T by simp
    qed
    then show ?thesis
      using w True Cons.prems(1) xs0 hx(1) xlive
      by (intro exI [of _ x] exI [of _ w] exI [of _ "s\<lparr>ticks := Suc (ticks s)\<rparr>"] exI [of _ xs] exI [of _ 0])
        (simp add: due_def armed_def live_def)
  next
    case False
    obtain w where w: "get_current_time s = Some (w, s\<lparr>ticks := Suc (ticks s)\<rparr>)" "sint w = now_ms s (ticks s)"
      "0 \<le> sint w" "sint w < 2 ^ 60"
      using get_current_time_correct [OF Cons.prems(2)] by auto
    let ?s1 = "s\<lparr>ticks := Suc (ticks s)\<rparr>"
    have a1: "armed ?s1 xs" "x \<in> live ?s1" using Cons.prems(1) xlive by (simp_all add: armed_def live_def)
    obtain q r where st: "tmem ?s1 x = Some r"
      "stop_timer ?s1 x = Some (?s1\<lparr>timerlist := q, tmem := (tmem ?s1)(x \<mapsto> r\<lparr>t_state := HRTIMER_STATE_INACTIVE\<rparr>)\<rparr>)"
      "armed (?s1\<lparr>timerlist := q, tmem := (tmem ?s1)(x \<mapsto> r\<lparr>t_state := HRTIMER_STATE_INACTIVE\<rparr>)\<rparr>) (remove1 x xs)"
      "expiry q = expires ?s1"
      using stop_timer_correct [OF a1] by blast
    define s2 where "s2 = ?s1\<lparr>timerlist := q, tmem := (tmem ?s1)(x \<mapsto> r\<lparr>t_state := HRTIMER_STATE_INACTIVE\<rparr>)\<rparr>"
    have s2: "armed s2 xs'" "expires s2 = expires s" "x \<in> live s2" "sane_clock s2" "clock s2 = clock s" "world s2 = world s"
      "ticks s \<le> ticks s2" "\<And>y. map_option t_fn (tmem s2 y) = map_option t_fn (tmem s y)" "due T s2 xs' = ds"
      using st(1,3,4) hx(2,3) Cons.prems(2) by (auto simp: s2_def live_def sane_clock_def due_def)
    have "distinct xs" using Cons.prems(1) tq.distinct_law by (auto simp: armed_def)
    then have xn: "x \<notin> set xs'" using hx(2) by simp
    have fnx: "map_option t_fn (tmem s x) \<noteq> Some 0" using Cons.prems(4) [rule_format, of x] Cons.hyps(2) by (metis list.set_intros(1))
    then have fn: "t_fn r \<noteq> 0" using st(1) by auto
    have pos0: "\<forall>y \<in> insert x (set xs'). 0 \<le> ktime_int (expires s2 y)" using Cons.prems(5) hx(2) s2(2) by simp
    obtain s3 ys where cb: "call (t_fn r) x s2 = Some s3" "armed s3 ys" "due T s3 ys = ds"
      "\<forall>y \<in> set ds. expires s3 y = expires s2 y" "0 \<le> ktime_int (expires s3 x)"
      "\<forall>y \<in> set ys. 0 \<le> ktime_int (expires s3 y)"
      "\<forall>y \<in> insert x (set ds). map_option t_fn (tmem s3 y) = map_option t_fn (tmem s2 y)"
      "clock s3 = clock s2" "ticks s2 \<le> ticks s3" "world s3 = world s2 @ [x]"
      using assms(1) [unfolded lawful_call_def, rule_format, of s2 xs' x "t_fn r"] s2 xn pos0 by auto
    have run: "process_loop call pos time s = process_loop call x w s3"
    proof -
      have n: "timerqueue_getnext (timerlist s) = x" using armed_first [OF Cons.prems(1)] hx(2) by simp
      have e: "timer_get_expires ?s1 x = Some (tv64 (expires s x))"
        using expires_get [OF Cons.prems(1) xlive(1)] by (simp add: timer_get_expires_def)
      have "run_callback call s2 x = Some s3" using cb(1) fn by (simp add: run_callback_def s2_def)
      moreover have "stop_timer ?s1 x = Some s2" using st(2) by (simp add: s2_def)
      moreover have "\<not> sint w < sint (tv64 (expires s x))" using False w(2) by (simp add: ktime_int_def)
      ultimately show ?thesis
        using n e w(1) xlive(2) by (subst process_loop.simps) simp
    qed
    have p1: "sane_clock s3" using s2(4) cb(8) by (simp add: sane_clock_def)
    have p2: "\<forall>n \<ge> ticks s3. t0 \<le> now_ms s3 n \<and> now_ms s3 n \<le> T"
      using Cons.prems(3) s2(5,7) cb(8,9) by (simp add: now_ms_def)
    have p3: "\<forall>y \<in> set (due T s3 ys). map_option t_fn (tmem s3 y) \<noteq> Some 0"
      using Cons.prems(4) cb(3,7) s2(8) Cons.hyps(2) by (metis insertCI list.set_intros(2))
    have same: "read_at s3 = read_at s" using s2(5) cb(8) by (simp add: read_at_def now_ms_def fun_eq_iff)
    have x3: "x \<in> live s3"
      using cb(7) s2(3) by (auto simp: live_def dom_def)
    have rw: "read_at s w t0" using w T by (auto simp: read_at_def)
    have IH: "\<exists>pos' time' s' zs k. process_loop call x w s3 = Some (pos', time', s') \<and> armed s' zs
      \<and> clock s' = clock s3 \<and> k \<le> length ds \<and> world s' = world s3 @ take k ds \<and> due T s' zs = drop k ds
      \<and> (\<forall>y \<in> set (due T s' zs). t0 < ktime_int (expires s3 y))
      \<and> (zs \<noteq> [] \<longrightarrow> pos' = hd zs \<and> read_at s3 time' t0 \<and> sint time' < ktime_int (expires s' pos') \<and> pos' \<in> live s')
      \<and> (zs = [] \<longrightarrow> pos' = x \<and> time' = w \<and> s' = s3 \<and> ys = []
         \<or> pos' \<noteq> 0 \<and> pos' \<in> live s' \<and> read_at s3 time' t0 \<and> 0 \<le> ktime_int (expires s' pos'))"
      by (rule Cons.hyps(1) [where s = s3 and xs = ys, unfolded cb(3), OF refl cb(2) p1 p2 p3 [unfolded cb(3)] cb(6), unfolded cb(3)])
    obtain pos' time' s' zs k where ih: "process_loop call x w s3 = Some (pos', time', s')" "armed s' zs"
      "clock s' = clock s3" "k \<le> length ds" "world s' = world s3 @ take k ds" "due T s' zs = drop k ds"
      "\<forall>y \<in> set (due T s' zs). t0 < ktime_int (expires s3 y)"
      "zs \<noteq> [] \<longrightarrow> pos' = hd zs \<and> read_at s3 time' t0 \<and> sint time' < ktime_int (expires s' pos') \<and> pos' \<in> live s'"
      "zs = [] \<longrightarrow> pos' = x \<and> time' = w \<and> s' = s3 \<and> ys = []
         \<or> pos' \<noteq> 0 \<and> pos' \<in> live s' \<and> read_at s3 time' t0 \<and> 0 \<le> ktime_int (expires s' pos')"
      using IH by blast
    have "t0 < ktime_int (expires s y)" if "y \<in> set (drop k ds)" for y
    proof -
      have "expires s3 y = expires s y" using cb(4) s2(2) in_set_dropD [OF that] by simp
      moreover have "t0 < ktime_int (expires s3 y)" using ih(7) that unfolding ih(6) by blast
      ultimately show ?thesis by simp
    qed
    then have later: "\<forall>y \<in> set (drop k ds). t0 < ktime_int (expires s y)" by blast
    show ?thesis
    proof (intro exI conjI)
      show "process_loop call pos time s = Some (pos', time', s')" using run ih(1) by simp
      show "armed s' zs" by (rule ih(2))
      show "clock s' = clock s" using ih(3) cb(8) s2(5) by simp
      show "Suc k \<le> length (due T s xs)" using ih(4) Cons.hyps(2) [symmetric] by simp
      show "world s' = world s @ take (Suc k) (due T s xs)"
        using ih(5) cb(10) s2(6) Cons.hyps(2) [symmetric] by simp
      show "due T s' zs = drop (Suc k) (due T s xs)" using ih(6) Cons.hyps(2) [symmetric] by simp
      show "\<forall>y \<in> set (due T s' zs). t0 < ktime_int (expires s y)" using later ih(6) by simp
      show "zs \<noteq> [] \<longrightarrow> pos' = hd zs \<and> read_at s time' t0 \<and> sint time' < ktime_int (expires s' pos') \<and> pos' \<in> live s'"
        by (rule ih(8) [unfolded same])
      show "zs = [] \<longrightarrow> pos' = pos \<and> time' = time \<and> s' = s \<and> xs = []
         \<or> pos' \<noteq> 0 \<and> pos' \<in> live s' \<and> read_at s time' t0 \<and> 0 \<le> ktime_int (expires s' pos')"
      proof (intro impI disjI2)
        assume "zs = []"
        with ih(9) consider "pos' = x" "time' = w" "s' = s3" | "pos' \<noteq> 0" "pos' \<in> live s'" "read_at s3 time' t0" "0 \<le> ktime_int (expires s' pos')"
          by blast
        then show "pos' \<noteq> 0 \<and> pos' \<in> live s' \<and> read_at s time' t0 \<and> 0 \<le> ktime_int (expires s' pos')"
          using xlive(2) x3 rw cb(5) same by cases simp_all
      qed
    qed
  qed
qed

lemma s64_low: "- (2 ^ 63) \<le> i \<Longrightarrow> i < 2 ^ 63 \<Longrightarrow> \<exists>d. s64 i = Some d \<and> (ucast d :: 32 word) = word_of_int i"
  by (simp add: s64_def) (rule bit_word_eqI, simp add: bit_simps)

section \<open>Instances\<close>

definition sample_timers :: "ptr list timers" where
  "sample_timers = \<lparr>timerlist = sample_queue,
     tmem = [8 \<mapsto> \<lparr>t_state = 1, t_fn = 1, t_p = 0\<rparr>, 16 \<mapsto> \<lparr>t_state = 1, t_fn = 1, t_p = 0\<rparr>],
     clock = (\<lambda>n. (0, 7000)), ticks = 0, world = []\<rparr>"

lemma sample_timers: "armed sample_timers [8, 16]" "sane_clock sample_timers" "now_ms sample_timers n = 7"
  "live sample_timers = {8, 16}" "ktime_int (expires sample_timers 8) = 5" "ktime_int (expires sample_timers 16) = 9"
proof -
  have "loose sample_queue 8" "loose sample_queue 16" using queue_members(2) [OF sample_queue(1)] by auto
  then show "armed sample_timers [8, 16]"
    using sample_queue(1) by (auto simp: armed_def sample_timers_def HRTIMER_STATE_ENQUEUED_def)
qed (auto simp: sane_clock_def now_ms_def live_def sample_timers_def expiry_def sample_queue_def ktime_int_def)

definition sample_chunk :: chunk where
  "sample_chunk = \<lparr>c_addr = 32, c_node = \<lparr>parent_color = 7, rb_right = 9, rb_left = 3\<rparr>, c_expires = Ktime 77,
     c_timer = \<lparr>t_state = 5, t_fn = 6, t_p = 7\<rparr>\<rparr>"

lemma sample_fresh: "fresh sample_timers sample_chunk"
  by (simp add: fresh_def sample_chunk_def sample_timers_def sample_queue_def sample_rbs_def aligned_def)

lemma log_call_lawful: "lawful_call (\<lambda>f x s. Some (s\<lparr>world := world s @ [x]\<rparr>)) T"
  unfolding lawful_call_def
proof (intro allI impI)
  fix f x xs and s :: "ptr list timers"
  assume h: "armed s xs \<and> x \<in> live s \<and> x \<notin> set xs \<and> sane_clock s
    \<and> (\<forall>y \<in> insert x (set xs). 0 \<le> ktime_int (expires s y))"
  let ?s = "s\<lparr>world := world s @ [x]\<rparr>"
  show "\<exists>s' ys. Some ?s = Some s' \<and> armed s' ys \<and> due T s' ys = due T s xs
    \<and> (\<forall>y \<in> set (due T s xs). expires s' y = expires s y)
    \<and> 0 \<le> ktime_int (expires s' x) \<and> (\<forall>y \<in> set ys. 0 \<le> ktime_int (expires s' y))
    \<and> (\<forall>y \<in> insert x (set (due T s xs)). map_option t_fn (tmem s' y) = map_option t_fn (tmem s y))
    \<and> clock s' = clock s \<and> ticks s \<le> ticks s' \<and> world s' = world s @ [x]"
    using h by (intro exI [of _ ?s] exI [of _ xs]) (simp add: armed_def due_def)
qed

definition lone_timer :: "ptr list timers" where
  "lone_timer = \<lparr>timerlist = \<lparr>tq_head = \<lparr>rheap = [16 \<mapsto> \<lparr>parent_color = 1, rb_right = 0, rb_left = 0\<rparr>], rroot = 16, raug = ()\<rparr>,
       tq_next = 16, tq_expires = [16 \<mapsto> Ktime 5]\<rparr>,
     tmem = [16 \<mapsto> \<lparr>t_state = 1, t_fn = 1, t_p = 0\<rparr>], clock = (\<lambda>n. (0, 7000)), ticks = 0, world = []\<rparr>"

lemma lone_timer: "armed lone_timer [16]" "sane_clock lone_timer" "now_ms lone_timer n = 7"
  "ktime_int (expires lone_timer 16) = 5" "tmem lone_timer 16 = Some \<lparr>t_state = 1, t_fn = 1, t_p = 0\<rparr>"
proof -
  have "holds (tq_head (timerlist lone_timer)) (Node Black Tip 16 Tip)" "rbt (Node Black Tip 16 Tip)"
    by (auto simp: lone_timer_def holds_def mk_def aligned_def colw.simps rbt_def)
  then have "rb_tree_with (tq_head (timerlist lone_timer)) [16]"
    unfolding rb_tree_with_def by (intro exI [of _ "Node Black Tip 16 Tip"]) simp
  then have q: "queue (timerlist lone_timer) [16]" by (simp add: queue_def lone_timer_def)
  then have "loose (timerlist lone_timer) 16" using queue_members(2) by auto
  then show "armed lone_timer [16]"
    using q by (auto simp: armed_def lone_timer_def HRTIMER_STATE_ENQUEUED_def)
qed (auto simp: sane_clock_def now_ms_def lone_timer_def expiry_def ktime_int_def)

section \<open>Properties\<close>

text \<open>
  \<open>start_timer\<close> and \<open>update_timer\<close> do the same: whatever state the timer was in,
  it ends enqueued at the time read plus the timeout, behind the timers that expire no later,
  once, and no other timer is touched.
\<close>

theorem start_timer_arms_once:
  assumes "armed s xs" and "x \<in> live s" and "sane_clock s"
  shows "update_timer s x timeout = start_timer s x timeout
    \<and> (\<exists>s'. start_timer s x timeout = Some s' \<and> armed s' (enqueue (expires s') x (remove1 x xs))
      \<and> expires s' = (expires s)(x := Ktime (word_of_int (now_ms s (ticks s) + sint timeout)))
      \<and> live s' = live s \<and> ticks s' = Suc (ticks s))"
  using start_timer_correct [OF assms refl, of timeout] by auto

theorem start_timer_arms_once_witness:
  "\<exists>s'. start_timer sample_timers 8 10 = Some s' \<and> armed s' [16, 8]"
proof -
  obtain s' where s': "start_timer sample_timers 8 10 = Some s'" "armed s' (enqueue (expires s') 8 (remove1 8 [8, 16]))"
    "expires s' = (expires sample_timers)(8 := Ktime (word_of_int (now_ms sample_timers (ticks sample_timers) + sint (10 :: 32 word))))"
    using start_timer_arms_once [of sample_timers "[8, 16]" 8 10] sample_timers by auto
  have "expires s' 8 = Ktime 17" "ktime_int (expires s' 16) = 9" using s'(3) sample_timers(3,6) by simp_all
  then have "enqueue (expires s') 8 (remove1 8 [8, 16]) = [16, 8]"
    by (simp add: enqueue_def less_eq_ktime_def ktime_int_def)
  then show ?thesis using s' by auto
qed

text \<open>
  C22. \<open>add_timer\<close> with an object from \<open>malloc\<close> adds one armed timer; \<open>stop_timer\<close>
  disarms, and \<open>del_timer\<close> disarms and frees, whether or not the timer was armed.
\<close>

theorem timer_lifecycle:
  assumes "armed s xs" and "sane_clock s" and "fresh s m" and "x \<in> live s"
  shows "(\<exists>s'. add_timer s m p fn timeout = Some (c_addr m, s') \<and> armed s' (enqueue (expires s') (c_addr m) xs)
      \<and> live s' = insert (c_addr m) (live s))
    \<and> (\<exists>s'. stop_timer s x = Some s' \<and> armed s' (remove1 x xs) \<and> live s' = live s \<and> expires s' = expires s)
    \<and> (\<exists>s'. del_timer s x = Some s' \<and> armed s' (remove1 x xs) \<and> live s' = live s - {x})"
proof (intro conjI)
  show "\<exists>s'. add_timer s m p fn timeout = Some (c_addr m, s') \<and> armed s' (enqueue (expires s') (c_addr m) xs)
      \<and> live s' = insert (c_addr m) (live s)"
    using add_timer_correct [OF assms(1,3,2) refl, of p fn timeout] by auto
  show "\<exists>s'. stop_timer s x = Some s' \<and> armed s' (remove1 x xs) \<and> live s' = live s \<and> expires s' = expires s"
    using stop_timer_correct [OF assms(1,4)] by (auto simp: live_def)
  show "\<exists>s'. del_timer s x = Some s' \<and> armed s' (remove1 x xs) \<and> live s' = live s - {x}"
    using del_timer_correct [OF assms(1,4)] by blast
qed

theorem timer_lifecycle_witness:
  "\<exists>s'. del_timer sample_timers 8 = Some s' \<and> armed s' [16] \<and> live s' = {16}"
proof -
  have "live sample_timers - {8} = {16}" using sample_timers(4) by auto
  then show ?thesis
    using timer_lifecycle [OF sample_timers(1,2) sample_fresh, of 8] sample_timers(4) by auto
qed

text \<open>
  C4. \<open>process_timer\<close> returns, and calls expired timers in order of expiry, each once:
  every timer due when it was entered and none that expires after the last clock reading. When
  timers are left, the result is the time to the first of them, measured at the last clock
  reading, in the low 32 bits; with no timer at all it is 1000.
\<close>

theorem process_timer_fires_due:
  assumes "lawful_call call T" and "armed s xs" and "sane_clock s"
    and "\<forall>n \<ge> ticks s. t0 \<le> now_ms s n \<and> now_ms s n \<le> T"
    and "\<forall>y \<in> set (due T s xs). map_option t_fn (tmem s y) \<noteq> Some 0"
    and "\<forall>y \<in> set xs. 0 \<le> ktime_int (expires s y)"
  shows "\<exists>r s' ys k. process_timer call s = Some (r, s') \<and> armed s' ys \<and> world s' = world s @ take k (due T s xs)
    \<and> due T s' ys = drop k (due T s xs) \<and> set (due t0 s xs) \<subseteq> set (take k (due T s xs))
    \<and> (ys \<noteq> [] \<longrightarrow> (\<exists>n. now_ms s n < ktime_int (expires s' (hd ys))
         \<and> r = word_of_int (ktime_int (expires s' (hd ys)) - now_ms s n)))
    \<and> (xs = [] \<longrightarrow> r = 1000)"
proof -
  obtain pos time s' ys k where loop: "process_loop call 0 0 s = Some (pos, time, s')" "armed s' ys"
    "world s' = world s @ take k (due T s xs)" "due T s' ys = drop k (due T s xs)"
    and later: "\<forall>y \<in> set (due T s' ys). t0 < ktime_int (expires s y)"
    and some: "ys \<noteq> [] \<longrightarrow> pos = hd ys \<and> read_at s time t0 \<and> sint time < ktime_int (expires s' pos) \<and> pos \<in> live s'"
    and none: "ys = [] \<longrightarrow> pos = 0 \<and> time = 0 \<and> s' = s \<and> xs = []
         \<or> pos \<noteq> 0 \<and> pos \<in> live s' \<and> read_at s time t0 \<and> 0 \<le> ktime_int (expires s' pos)"
    using process_loop_correct [where pos = 0 and time = 0, OF assms] by blast
  have empty: "pos = 0" if "xs = []"
    using loop(1) armed_first [OF assms(2)] that by (subst (asm) process_loop.simps) auto
  have sub: "set (due t0 s xs) \<subseteq> set (take k (due T s xs))"
  proof
    fix y assume y: "y \<in> set (due t0 s xs)"
    have "t0 \<le> T" using assms(4) [rule_format, of "ticks s"] by simp
    then have "y \<in> set (due T s xs)" using y by (auto simp: due_def)
    then have "y \<in> set (take k (due T s xs)) \<or> y \<in> set (drop k (due T s xs))"
      by (metis append_take_drop_id Un_iff set_append)
    moreover have "\<forall>z \<in> set (drop k (due T s xs)). t0 < ktime_int (expires s z)" using later loop(4) by simp
    then have "y \<notin> set (drop k (due T s xs))" using y by (auto simp: due_def)
    ultimately show "y \<in> set (take k (due T s xs))" by blast
  qed
  have diff: "\<exists>d. timer_get_expires s' pos = Some (tv64 (expires s' pos))
      \<and> s64 (sint (tv64 (expires s' pos)) - sint time) = Some d
      \<and> (ucast d :: 32 word) = word_of_int (ktime_int (expires s' pos) - sint time)"
    if h: "pos \<in> live s'" "read_at s time t0" "0 \<le> ktime_int (expires s' pos)"
  proof -
    have r: "0 \<le> sint time" "sint time < 2 ^ 60" using h(2) by (simp_all add: read_at_def)
    have "sint (tv64 (expires s' pos)) < 2 ^ 63" using sint_range_size [of "tv64 (expires s' pos)"] by (simp add: word_size)
    then show ?thesis
      using expires_get [OF loop(2) h(1)] s64_low [of "sint (tv64 (expires s' pos)) - sint time"] r h(3)
      by (simp add: ktime_int_def)
  qed
  consider "ys \<noteq> []" | "pos = 0" "ys = []" | "ys = []" "pos \<noteq> 0" by blast
  then show ?thesis
  proof cases
    case 1
    then have p: "pos = hd ys" "read_at s time t0" "sint time < ktime_int (expires s' pos)" "pos \<in> live s'" using some by auto
    moreover from this have "0 \<le> ktime_int (expires s' pos)" by (simp add: read_at_def)
    ultimately obtain d where d: "timer_get_expires s' pos = Some (tv64 (expires s' pos))"
      "s64 (sint (tv64 (expires s' pos)) - sint time) = Some d" "(ucast d :: 32 word) = word_of_int (ktime_int (expires s' pos) - sint time)"
      using diff by blast
    have "pos \<noteq> 0" using p(1) armed_first [OF loop(2)] 1 by (cases ys) auto
    then have "process_timer call s = Some (ucast d, s')" using loop(1) d by (simp add: process_timer_def)
    moreover obtain n where n: "sint time = now_ms s n" using p(2) by (auto simp: read_at_def)
    moreover have "ucast d = (word_of_int (ktime_int (expires s' (hd ys)) - now_ms s n) :: 32 word)"
      using d(3) p(1) n by metis
    ultimately show ?thesis
      using loop(2-4) p(1,3) sub empty \<open>pos \<noteq> 0\<close>
      by (intro exI [of _ "ucast d"] exI [of _ s'] exI [of _ ys] exI [of _ k] conjI impI exI [of _ n]) auto
  next
    case 2
    then have "process_timer call s = Some (1000, s')" using loop(1) by (simp add: process_timer_def)
    then show ?thesis using loop sub 2 by blast
  next
    case 3
    then have p: "read_at s time t0" "pos \<in> live s'" "0 \<le> ktime_int (expires s' pos)" using none by auto
    then obtain d where d: "timer_get_expires s' pos = Some (tv64 (expires s' pos))"
      "s64 (sint (tv64 (expires s' pos)) - sint time) = Some d"
      using diff by blast
    then have "process_timer call s = Some (ucast d, s')" using loop(1) d 3 by (simp add: process_timer_def)
    then show ?thesis using loop sub 3 empty by blast
  qed
qed

theorem process_timer_fires_due_witness:
  "\<exists>r s'. process_timer (\<lambda>f x s. Some (s\<lparr>world := world s @ [x]\<rparr>)) sample_timers = Some (r, s') \<and> world s' = [8]"
proof -
  have d: "due 7 sample_timers [8, 16] = [8]" using sample_timers(5,6) by (simp add: due_def)
  have pos: "\<forall>y \<in> set [8, 16]. 0 \<le> ktime_int (expires sample_timers y)" using sample_timers(5,6) by auto
  have fn: "\<forall>y \<in> set (due 7 sample_timers [8, 16]). map_option t_fn (tmem sample_timers y) \<noteq> Some 0"
    using d by (simp add: sample_timers_def)
  have t: "\<forall>n \<ge> ticks sample_timers. 7 \<le> now_ms sample_timers n \<and> now_ms sample_timers n \<le> 7"
    using sample_timers(3) by simp
  show ?thesis
    using process_timer_fires_due [OF log_call_lawful sample_timers(1,2) t fn pos]
  proof (elim exE conjE)
    fix r s' and k :: nat
    assume p: "process_timer (\<lambda>f x s. Some (s\<lparr>world := world s @ [x]\<rparr>)) sample_timers = Some (r, s')"
      "world s' = world sample_timers @ take k (due 7 sample_timers [8, 16])"
      "set (due 7 sample_timers [8, 16]) \<subseteq> set (take k (due 7 sample_timers [8, 16]))"
    then have "take k [8 :: ptr] = [8]" using d by (cases k) auto
    then have "world s' = [8]" using p(2) d by (simp add: sample_timers_def)
    then show ?thesis using p(1) by blast
  qed
qed

text \<open>
  When the last timer has been called and none is left, \<open>process_timer\<close> returns the time
  by which that timer was late, a number that is not positive, and not the 1000 ms of an empty
  queue (the event loops pass the result to \<open>epoll_wait\<close> as its timeout).
\<close>

theorem process_timer_last_timer:
  assumes "armed s [x]" and "sane_clock s" and "tmem s x = Some r" and "t_fn r \<noteq> 0"
    and "0 \<le> ktime_int (expires s x)" and "ktime_int (expires s x) \<le> now_ms s (ticks s)"
  shows "\<exists>s'. process_timer (\<lambda>f t s. Some s) s = Some (word_of_int (ktime_int (expires s x) - now_ms s (ticks s)), s')
    \<and> armed s' []"
proof -
  have xl: "x \<in> live s" "x \<noteq> 0" using assms(3) armed_first [OF assms(1)] by (auto simp: live_def)
  let ?s1 = "s\<lparr>ticks := Suc (ticks s)\<rparr>"
  obtain w where w: "get_current_time s = Some (w, ?s1)" "sint w = now_ms s (ticks s)" "0 \<le> sint w" "sint w < 2 ^ 60"
    using get_current_time_correct [OF assms(2)] by auto
  have a1: "armed ?s1 [x]" "x \<in> live ?s1" using assms(1) xl by (simp_all add: armed_def live_def)
  obtain s2 where st: "stop_timer ?s1 x = Some s2" "armed s2 []" "expires s2 = expires s" "x \<in> live s2"
    using stop_timer_correct [OF a1] by (auto simp: live_def)
  have e: "timer_get_expires ?s1 x = Some (tv64 (expires s x))" "timer_get_expires s2 x = Some (tv64 (expires s x))"
    using expires_get [OF a1] expires_get [OF st(2,4)] st(3) by simp_all
  obtain r2 where "tmem s2 x = Some r2" using st(4) by (auto simp: live_def)
  then have cb: "run_callback (\<lambda>f t s. Some s) s2 x = Some s2" by (simp add: run_callback_def)
  have "process_loop (\<lambda>f t s. Some s) x w s2 = Some (x, w, s2)"
    using armed_first [OF st(2)] by (subst process_loop.simps) simp
  moreover have "\<not> sint w < sint (tv64 (expires s x))" using assms(6) w(2) by (simp add: ktime_int_def)
  ultimately have "process_loop (\<lambda>f t s. Some s) 0 0 s = Some (x, w, s2)"
    using armed_first [OF assms(1)] w(1) e(1) st(1) cb xl(2) by (subst process_loop.simps) simp
  moreover obtain d where "s64 (sint (tv64 (expires s x)) - sint w) = Some d"
    "(ucast d :: 32 word) = word_of_int (ktime_int (expires s x) - now_ms s (ticks s))"
    using s64_low [of "ktime_int (expires s x) - now_ms s (ticks s)"] w assms(5,6) by (auto simp: ktime_int_def)
  ultimately have "process_timer (\<lambda>f t s. Some s) s = Some (word_of_int (ktime_int (expires s x) - now_ms s (ticks s)), s2)"
    using e(2) xl(2) by (simp add: process_timer_def)
  then show ?thesis using st(2) by blast
qed

theorem process_timer_last_timer_witness:
  "\<exists>s'. process_timer (\<lambda>f t s. Some s) lone_timer = Some (- 2, s') \<and> armed s' []"
  using process_timer_last_timer [OF lone_timer(1,2), of "\<lparr>t_state = 1, t_fn = 1, t_p = 0\<rparr>"] lone_timer(3-5) by auto

end
