(* ===== verification/Client.thy ===== *)
theory Client
  imports Server Timer
begin

text \<open>
  \<open>src/src/client/client.c\<close> and the loop of \<open>client/main.c\<close>: the client that connects to the
  server, over the packet layer and the timers. Its state is the world of the timer queue, so that
  \<open>update_timer\<close> and \<open>process_timer\<close> are those of the timer's theory. \<open>None\<close> is undefined
  behaviour: a null channel, a timer that is no object, a packet that overruns its object.
\<close>

section \<open>State\<close>

definition EALREADY :: int where "EALREADY = 114"
definition EINPROGRESS :: int where "EINPROGRESS = 115"
definition ECONNREFUSED :: int where "ECONNREFUSED = 111"

datatype watch = Wait_out | Wait_in

datatype epoll_fn = Connecting_server | Handle_data

text \<open>
  \<open>cd_callback\<close> is the callback of the one \<open>epoll_context\<close>; \<open>cd_ioc\<close> the descriptor in the channel
  of \<open>dpctx\<close>. The last three fields are the kernel's: open descriptors, the interest list, and what
  each socket will deliver.
\<close>

record dwclient =
  cd_fd :: int
  cd_timer :: ptr
  cd_callback :: "epoll_fn option"
  cd_ctx :: "dw_ctx option"
  cd_ioc :: int
  cd_log :: "byte list list"
  ck_open :: "int list"
  ck_epoll :: "int \<Rightarrow> watch option"
  ck_net :: "int \<Rightarrow> recv_ev list"

type_synonym client_state = "dwclient timers"

definition ck_add :: "bool \<Rightarrow> int \<Rightarrow> watch \<Rightarrow> dwclient \<Rightarrow> int \<times> dwclient" where
  "ck_add ok fd w c =
     (if ok \<and> fd \<in> set (ck_open c) \<and> ck_epoll c fd = None then (0, c\<lparr>ck_epoll := (ck_epoll c)(fd := Some w)\<rparr>) else (- 1, c))"

definition ck_mod :: "bool \<Rightarrow> int \<Rightarrow> watch \<Rightarrow> dwclient \<Rightarrow> int \<times> dwclient" where
  "ck_mod ok fd w c =
     (if ok \<and> fd \<in> set (ck_open c) \<and> ck_epoll c fd \<noteq> None then (0, c\<lparr>ck_epoll := (ck_epoll c)(fd := Some w)\<rparr>) else (- 1, c))"

definition ck_del :: "int \<Rightarrow> dwclient \<Rightarrow> dwclient" where
  "ck_del fd c = c\<lparr>ck_epoll := (ck_epoll c)(fd := None)\<rparr>"

definition ck_close :: "int \<Rightarrow> dwclient \<Rightarrow> dwclient" where
  "ck_close fd c = c\<lparr>ck_open := remove1 fd (ck_open c), ck_epoll := (ck_epoll c)(fd := None)\<rparr>"

section \<open>Operations\<close>

text \<open>What the calls of one callback meet; the three byte lists are the contents of fresh blocks.\<close>

record conn_env =
  ce_socket :: int
  ce_connect :: "int list"
  ce_error :: int
  ce_ioc :: bool
  ce_allocs :: "bool \<times> bool \<times> bool \<times> bool"
  ce_buf :: "byte list"
  ce_dp :: "byte list"
  ce_txd :: "byte list"
  ce_epoll :: bool
  ce_net :: "recv_ev list"

definition disconnect_server :: "client_state \<Rightarrow> client_state option" where
  "disconnect_server s = do {
     let c = ck_del (cd_fd (world s)) (world s);
     ctx \<leftarrow> cd_ctx c;
     let c = ck_close (cd_ioc c) c;
     let c = c\<lparr>cd_fd := 0, cd_ctx := None\<rparr>;
     update_timer (s\<lparr>world := c\<rparr>) (cd_timer c) 200 }"

definition handle_data :: "epev \<Rightarrow> client_state \<Rightarrow> (int \<times> client_state) option" where
  "handle_data ev s = do {
     let c = world s;
     (gone, s) \<leftarrow> (if ev_in ev then do {
         ctx \<leftarrow> cd_ctx c;
         let evs = ck_net c (cd_ioc c);
         case recv_loop (Suc (length (frames ctx (incoming evs)))) ctx evs of
            Drained ctx evs ps \<Rightarrow>
              Some (False, s\<lparr>world := c\<lparr>cd_ctx := Some ctx, cd_log := cd_log c @ ps, ck_net := (ck_net c)(cd_ioc c := evs)\<rparr>\<rparr>)
          | Failed evs ps \<Rightarrow> do {
              s \<leftarrow> disconnect_server (s\<lparr>world := c\<lparr>cd_log := cd_log c @ ps, ck_net := (ck_net c)(cd_ioc c := evs)\<rparr>\<rparr>);
              Some (True, s) }
          | _ \<Rightarrow> None }
       else Some (False, s));
     if gone then Some (0, s)
     else if ev_hup ev then do { s \<leftarrow> disconnect_server s; Some (0, s) }
     else Some (0, s) }"

definition connected_server :: "conn_env \<Rightarrow> dwclient \<Rightarrow> (int \<times> dwclient) option" where
  "connected_server env c = do {
     let fd = cd_fd c;
     r \<leftarrow> dw_init_packet (ce_allocs env) (ce_buf env) (ce_dp env) (ce_txd env) (fst (fd_to_io_context (ce_ioc env) {} fd IO_TYPE_SOCKET));
     case r of
       Null_pointer \<Rightarrow> Some (- ENOMEM, ck_close fd c)
     | Fresh ctx \<Rightarrow>
         let c = c\<lparr>cd_callback := Some Handle_data\<rparr>;
             (ret, c) = ck_mod (ce_epoll env) fd Wait_in c in
         if ret < 0 then Some (- ENOMEM, ck_close fd c)
         else Some (0, c\<lparr>cd_ctx := Some ctx, cd_ioc := fd\<rparr>) }"

record client_ev = epev +
  ev_out :: bool

definition connecting_retry :: "client_state \<Rightarrow> (int \<times> client_state) option" where
  "connecting_retry s = do {
     let c = ck_del (cd_fd (world s)) (world s);
     let c = ck_close (cd_fd c) c;
     s \<leftarrow> update_timer (s\<lparr>world := c\<rparr>) (cd_timer c) 200;
     Some (0, s) }"

definition connecting_server :: "conn_env \<Rightarrow> client_ev \<Rightarrow> client_state \<Rightarrow> (int \<times> client_state) option" where
  "connecting_server env ev s =
     (if ev_out ev then
        if ce_error env = 0 then do { (ret, c) \<leftarrow> connected_server env (world s); Some (ret, s\<lparr>world := c\<rparr>) }
        else connecting_retry s
      else if ev_hup ev then connecting_retry s
      else Some (0, s))"

text \<open>The loop around \<open>connect\<close>: 0 or the error number of the first call that is not interrupted.\<close>

fun connect_loop :: "int list \<Rightarrow> int option" where
  "connect_loop [] = None"
| "connect_loop (e # es) = (if e = EINTR then connect_loop es else Some e)"

definition try_connect_server :: "conn_env \<Rightarrow> dwclient \<Rightarrow> (int \<times> dwclient) option" where
  "try_connect_server env c =
     (let fd = ce_socket env in
      if fd < 0 then Some (- ENOMEM, c)
      else do {
        let c = c\<lparr>ck_open := fd # ck_open c, ck_net := (ck_net c)(fd := ce_net env)\<rparr>;
        e \<leftarrow> connect_loop (ce_connect env);
        let c = c\<lparr>cd_fd := fd\<rparr>;
        if e = EINPROGRESS \<or> e = EAGAIN then
          let c = c\<lparr>cd_callback := Some Connecting_server\<rparr>;
              (ret, c) = ck_add (ce_epoll env) fd Wait_out c in
          if ret < 0 then Some (- ENOMEM, c) else Some (0, c)
        else if e = 0 then connected_server env c
        else Some (0, c) })"

text \<open>The timer's function pointer: 1 stands for \<open>try_connect_server\<close>.\<close>

definition TRY_CONNECT :: ulong where "TRY_CONNECT = 1"

definition client_call :: "conn_env \<Rightarrow> dwclient callback" where
  "client_call env f t s =
     (if f = TRY_CONNECT then do { (ret, c) \<leftarrow> try_connect_server env (world s); Some (s\<lparr>world := c\<rparr>) } else None)"

text \<open>
  \<open>init_client\<close>: \<open>allocs\<close> are the outcomes of the two \<open>malloc\<close>s before it, \<open>m\<close> is what \<open>add_timer\<close>
  gets. The timer's pointer is not tested.
\<close>

definition init_client :: "bool \<times> bool \<Rightarrow> chunk \<Rightarrow> ulong \<Rightarrow> client_state \<Rightarrow> (int \<times> client_state) option" where
  "init_client allocs m p s =
     (case allocs of (epctx, mem) \<Rightarrow>
        if \<not> epctx \<or> \<not> mem then Some (- ENOMEM, s)
        else do {
          let s = s\<lparr>world := (world s)\<lparr>cd_fd := 0, cd_timer := 0, cd_callback := None, cd_ctx := None, cd_ioc := 0\<rparr>\<rparr>;
          (t, s) \<leftarrow> add_timer s m p TRY_CONNECT (60 * 1000);
          Some (0, s\<lparr>world := (world s)\<lparr>cd_timer := t\<rparr>\<rparr>) })"

text \<open>
  One event of the interest list, and one turn of the timers. An event with no callback is reported
  on stdout.
\<close>

definition client_event :: "conn_env \<Rightarrow> client_ev \<Rightarrow> client_state \<Rightarrow> client_state option" where
  "client_event env ev s =
     (case cd_callback (world s) of
        None \<Rightarrow> Some s
      | Some Connecting_server \<Rightarrow> map_option snd (connecting_server env ev s)
      | Some Handle_data \<Rightarrow> map_option snd (handle_data (epev.truncate ev) s))"

definition client_timers :: "conn_env \<Rightarrow> client_state \<Rightarrow> client_state option" where
  "client_timers env s = map_option snd (process_timer (client_call env) s)"

section \<open>Phases\<close>

datatype phase = Idle | Connecting | Connected | Stuck

definition own_timer :: "client_state \<Rightarrow> bool" where
  "own_timer s \<longleftrightarrow> cd_timer (world s) \<in> live s \<and> map_option t_fn (tmem s (cd_timer (world s))) = Some TRY_CONNECT \<and> sane_clock s"

fun in_phase :: "phase \<Rightarrow> client_state \<Rightarrow> bool" where
  "in_phase Idle s \<longleftrightarrow> own_timer s \<and> armed s [cd_timer (world s)] \<and> 0 \<le> ktime_int (expires s (cd_timer (world s)))
     \<and> ck_open (world s) = [] \<and> ck_epoll (world s) = (\<lambda>_. None)"
| "in_phase Connecting s \<longleftrightarrow> own_timer s \<and> armed s [] \<and> cd_callback (world s) = Some Connecting_server
     \<and> ck_open (world s) = [cd_fd (world s)] \<and> ck_epoll (world s) = (\<lambda>_. None)(cd_fd (world s) := Some Wait_out)"
| "in_phase Connected s \<longleftrightarrow> own_timer s \<and> armed s [] \<and> cd_callback (world s) = Some Handle_data
     \<and> ck_open (world s) = [cd_fd (world s)] \<and> ck_epoll (world s) = (\<lambda>_. None)(cd_fd (world s) := Some Wait_in)
     \<and> cd_ioc (world s) = cd_fd (world s) \<and> (\<exists>ctx. cd_ctx (world s) = Some ctx \<and> rx_inv ctx)"
| "in_phase Stuck s \<longleftrightarrow> armed s [] \<and> ck_epoll (world s) = (\<lambda>_. None)"

text \<open>
  The state machine the client runs through; the result of a receive loop is not part of it, so a
  connected client may stay or lose its connection.
\<close>

definition all_allocs :: "conn_env \<Rightarrow> bool" where "all_allocs env \<longleftrightarrow> ce_allocs env = (True, True, True, True)"

definition after_connect :: "conn_env \<Rightarrow> phase" where
  "after_connect env = (if all_allocs env \<and> ce_epoll env then Connected else Stuck)"

definition after_timer :: "conn_env \<Rightarrow> phase" where
  "after_timer env =
     (if ce_socket env < 0 then Stuck
      else if connect_loop (ce_connect env) \<in> {Some EINPROGRESS, Some EAGAIN} \<and> ce_epoll env then Connecting
      else Stuck)"

fun after_event :: "conn_env \<Rightarrow> client_ev \<Rightarrow> phase \<Rightarrow> phase set" where
  "after_event env ev Connecting =
     (if ev_out ev then if ce_error env = 0 then {after_connect env} else {Idle} else if ev_hup ev then {Idle} else {Connecting})"
| "after_event env ev Connected = (if ev_hup ev then {Idle} else if ev_in ev then {Idle, Connected} else {Connected})"
| "after_event env ev Idle = {}"
| "after_event env ev Stuck = {}"

definition due_now :: "client_state \<Rightarrow> bool" where
  "due_now s \<longleftrightarrow> ktime_int (expires s (cd_timer (world s))) \<le> now_ms s (ticks s)"

definition conn_ok :: "conn_env \<Rightarrow> bool" where
  "conn_ok env \<longleftrightarrow> length (ce_buf env) = sizeof_cache \<and> length (ce_dp env) = sizeof_DwPacket \<and> length (ce_txd env) = sizeof_DwPacket
     \<and> ce_ioc env \<and> connect_loop (ce_connect env) \<noteq> None"

section \<open>Steps on the timers\<close>

lemma own_timer_world: "own_timer s \<Longrightarrow> cd_timer c = cd_timer (world s) \<Longrightarrow> own_timer (s\<lparr>world := c\<rparr>)"
  by (simp add: own_timer_def live_def sane_clock_def)

lemma armed_world: "armed (s\<lparr>world := c\<rparr>) xs = armed s xs"
  by (simp add: armed_def)

lemma rearm:
  assumes "own_timer s" and "armed s []"
  shows "\<exists>s'. update_timer s (cd_timer (world s)) 200 = Some s' \<and> own_timer s' \<and> armed s' [cd_timer (world s)] \<and> world s' = world s
    \<and> ktime_int (expires s' (cd_timer (world s))) = now_ms s (ticks s) + 200 \<and> 0 \<le> now_ms s (ticks s)"
proof -
  let ?x = "cd_timer (world s)"
  have x: "?x \<in> live s" "sane_clock s" using assms(1) by (simp_all add: own_timer_def)
  obtain s' where s': "update_timer s ?x 200 = Some s'" "armed s' (enqueue (expires s') ?x (remove1 ?x []))"
    "expires s' = (expires s)(?x := Ktime (word_of_int (now_ms s (ticks s) + sint (200 :: 32 word))))"
    "live s' = live s" "clock s' = clock s" "world s' = world s" "\<forall>y. map_option t_fn (tmem s' y) = map_option t_fn (tmem s y)"
    using start_timer_correct [OF assms(2) x refl, of 200] by blast
  have "0 \<le> now_ms s (ticks s)" "now_ms s (ticks s) < 2 ^ 60" using get_current_time_correct [OF x(2)] by auto
  moreover have "ktime_int (expires s' ?x) = now_ms s (ticks s) + 200"
  proof -
    obtain w where w: "s64 (now_ms s (ticks s) + 200) = Some w" "sint w = now_ms s (ticks s) + 200"
      using s64_sint [of "now_ms s (ticks s) + 200"] calculation by auto
    have "sint (200 :: 32 word) = 200" by simp
    then have "expires s' ?x = Ktime w" using s'(3) s64_word [OF w(1)] by (simp only: fun_upd_same)
    then show ?thesis using w(2) by (simp add: ktime_int_def)
  qed
  moreover have "own_timer s'" using assms(1) s'(4-7) by (simp add: own_timer_def sane_clock_def)
  moreover have "armed s' [?x]" using s'(2) by (simp add: enqueue_def)
  ultimately show ?thesis using s'(1,6) by blast
qed

lemma one_timer_fires:
  assumes "armed s [x]" and "sane_clock s" and "map_option t_fn (tmem s x) = Some f" and "f \<noteq> 0"
    and "0 \<le> ktime_int (expires s x)" and "ktime_int (expires s x) \<le> now_ms s (ticks s)"
  obtains s2 where "armed s2 []" "world s2 = world s" "live s2 = live s" "clock s2 = clock s"
    "\<And>y. map_option t_fn (tmem s2 y) = map_option t_fn (tmem s y)"
    "\<And>call c. call f x s2 = Some (s2\<lparr>world := c\<rparr>) \<Longrightarrow> \<exists>r. process_timer call s = Some (r, s2\<lparr>world := c\<rparr>)"
    "\<And>call. call f x s2 = None \<Longrightarrow> process_timer call s = None"
proof -
  have xl: "x \<in> live s" "x \<noteq> 0" using assms(3) armed_first [OF assms(1)] by (auto simp: live_def)
  let ?s1 = "s\<lparr>ticks := Suc (ticks s)\<rparr>"
  obtain w where w: "get_current_time s = Some (w, ?s1)" "sint w = now_ms s (ticks s)" "0 \<le> sint w" "sint w < 2 ^ 60"
    using get_current_time_correct [OF assms(2)] by auto
  have a1: "armed ?s1 [x]" "x \<in> live ?s1" using assms(1) xl by (simp_all add: armed_def live_def)
  obtain q r where st: "tmem s x = Some r"
    "stop_timer ?s1 x = Some (?s1\<lparr>timerlist := q, tmem := (tmem s)(x \<mapsto> r\<lparr>t_state := HRTIMER_STATE_INACTIVE\<rparr>)\<rparr>)"
    "armed (?s1\<lparr>timerlist := q, tmem := (tmem s)(x \<mapsto> r\<lparr>t_state := HRTIMER_STATE_INACTIVE\<rparr>)\<rparr>) []" "expiry q = expires s"
    using stop_timer_correct [OF a1] by auto
  define s2 where "s2 = ?s1\<lparr>timerlist := q, tmem := (tmem s)(x \<mapsto> r\<lparr>t_state := HRTIMER_STATE_INACTIVE\<rparr>)\<rparr>"
  have l2: "live s2 = live s" using xl(1) by (auto simp: s2_def live_def)
  have a2: "armed s2 []" using st(3) by (simp add: s2_def)
  have f: "t_fn r = f" using assms(3) st(1) by simp
  have e: "timer_get_expires ?s1 x = Some (tv64 (expires s x))" using expires_get [OF a1] by simp
  have e2: "timer_get_expires s2 x = Some (tv64 (expires s x))" using expires_get [OF a2, of x] l2 xl(1) st(4) by (simp add: s2_def)
  have cb: "run_callback call s2 x = call f x s2" for call using assms(4) f by (simp add: run_callback_def s2_def)
  have due: "\<not> sint w < sint (tv64 (expires s x))" using assms(6) w(2) by (simp add: ktime_int_def)
  have loop: "process_loop call 0 0 s = Option.bind (call f x s2) (process_loop call x w)" for call
    using armed_first [OF assms(1)] w(1) e st(2) cb [of call] xl(2) due by (subst process_loop.simps) (simp add: s2_def)
  have last: "process_loop call x w (s2\<lparr>world := c\<rparr>) = Some (x, w, s2\<lparr>world := c\<rparr>)" for call c
    using armed_first [of "s2\<lparr>world := c\<rparr>" "[]"] a2 by (subst process_loop.simps) (simp add: armed_world)
  obtain d where d: "s64 (sint (tv64 (expires s x)) - sint w) = Some d"
    using s64_low [of "ktime_int (expires s x) - now_ms s (ticks s)"] w assms(5,6) by (auto simp: ktime_int_def)
  show thesis
  proof (rule that [of s2])
    show "\<exists>r. process_timer call s = Some (r, s2\<lparr>world := c\<rparr>)" if "call f x s2 = Some (s2\<lparr>world := c\<rparr>)" for call c
    proof -
      have "timer_get_expires (s2\<lparr>world := c\<rparr>) x = Some (tv64 (expires s x))" using e2 by (simp only: timer_get_expires_def) simp
      then show ?thesis using loop [of call] that last d xl(2) by (simp add: process_timer_def)
    qed
    show "process_timer call s = None" if "call f x s2 = None" for call using loop [of call] that by (simp add: process_timer_def)
  qed (use a2 l2 st(1) in \<open>auto simp: s2_def\<close>)
qed


section \<open>The operations run through the phases\<close>

lemma connected_registered:
  assumes "conn_ok env" and "ck_open c = [cd_fd c]" and "ck_epoll c = (\<lambda>_. None)(cd_fd c := Some w)"
  shows "\<exists>r c'. connected_server env c = Some (r, c') \<and> cd_timer c' = cd_timer c \<and> cd_log c' = cd_log c
    \<and> (if all_allocs env \<and> ce_epoll env
       then r = 0 \<and> cd_callback c' = Some Handle_data \<and> cd_fd c' = cd_fd c \<and> cd_ioc c' = cd_fd c \<and> ck_open c' = [cd_fd c]
          \<and> ck_epoll c' = (\<lambda>_. None)(cd_fd c := Some Wait_in) \<and> ck_net c' = ck_net c
          \<and> (\<exists>ctx. cd_ctx c' = Some ctx \<and> rx_inv ctx \<and> (\<forall>bs. frames ctx bs = bs))
       else r < 0 \<and> ck_open c' = [] \<and> ck_epoll c' = (\<lambda>_. None))"
  using assms by (cases "ce_allocs env") (auto simp: connected_server_def conn_ok_def dw_init_packet_def fd_to_io_context_def Let_def all_allocs_def
      ck_mod_def ck_close_def rx_inv_def ctx_geometry_def frames_def cached_def ENOMEM_def)

lemma connected_unregistered:
  assumes "conn_ok env" and "ck_open c = [cd_fd c]" and "ck_epoll c = (\<lambda>_. None)"
  shows "\<exists>c'. connected_server env c = Some (- ENOMEM, c') \<and> cd_timer c' = cd_timer c \<and> ck_open c' = [] \<and> ck_epoll c' = (\<lambda>_. None)"
  using assms by (cases "ce_allocs env") (auto simp: connected_server_def conn_ok_def dw_init_packet_def fd_to_io_context_def Let_def ck_mod_def ck_close_def)

lemma try_connect_ok:
  assumes "conn_ok env" and "ck_open c = []" and "ck_epoll c = (\<lambda>_. None)"
  shows "\<exists>r c'. try_connect_server env c = Some (r, c') \<and> cd_timer c' = cd_timer c
    \<and> (if after_timer env = Connecting
       then cd_callback c' = Some Connecting_server \<and> ck_open c' = [cd_fd c'] \<and> ck_epoll c' = (\<lambda>_. None)(cd_fd c' := Some Wait_out)
       else ck_epoll c' = (\<lambda>_. None))
    \<and> (connect_loop (ce_connect env) = Some 0 \<and> 0 \<le> ce_socket env \<longrightarrow> r = - ENOMEM \<and> ck_open c' = [])
    \<and> (connect_loop (ce_connect env) \<notin> {Some 0, Some EINPROGRESS, Some EAGAIN} \<and> 0 \<le> ce_socket env \<longrightarrow> r = 0 \<and> ck_open c' = [ce_socket env])"
proof -
  obtain e where e: "connect_loop (ce_connect env) = Some e" using assms(1) by (auto simp: conn_ok_def)
  let ?fd = "ce_socket env"
  let ?c = "c\<lparr>ck_open := ?fd # ck_open c, ck_net := (ck_net c)(?fd := ce_net env), cd_fd := ?fd\<rparr>"
  have ne: "EINPROGRESS \<noteq> 0" "EAGAIN \<noteq> 0" by (simp_all add: EINPROGRESS_def EAGAIN_def)
  consider (sock) "?fd < 0" | (prog) "0 \<le> ?fd" "e = EINPROGRESS \<or> e = EAGAIN" | (at_once) "0 \<le> ?fd" "e = 0"
    | (failed) "0 \<le> ?fd" "e \<noteq> EINPROGRESS" "e \<noteq> EAGAIN" "e \<noteq> 0" by linarith
  then show ?thesis
  proof cases
    case sock
    then show ?thesis using assms by (simp add: try_connect_server_def after_timer_def)
  next
    case prog
    then show ?thesis using assms e ne by (auto simp: try_connect_server_def after_timer_def ck_add_def Let_def)
  next
    case at_once
    obtain c' where "connected_server env ?c = Some (- ENOMEM, c')" "cd_timer c' = cd_timer ?c" "ck_open c' = []" "ck_epoll c' = (\<lambda>_. None)"
      using connected_unregistered [of env ?c] assms by auto
    then show ?thesis using at_once e ne assms by (simp add: try_connect_server_def after_timer_def Let_def)
  next
    case failed
    then show ?thesis using assms e by (simp add: try_connect_server_def after_timer_def Let_def)
  qed
qed

lemma idle_fires:
  assumes "in_phase Idle s" and "conn_ok env" and "due_now s"
  shows "\<exists>s2 r c'. client_timers env s = Some (s2\<lparr>world := c'\<rparr>) \<and> own_timer (s2\<lparr>world := c'\<rparr>) \<and> armed s2 []
    \<and> try_connect_server env (world s) = Some (r, c')
    \<and> (if after_timer env = Connecting
       then cd_callback c' = Some Connecting_server \<and> ck_open c' = [cd_fd c'] \<and> ck_epoll c' = (\<lambda>_. None)(cd_fd c' := Some Wait_out)
       else ck_epoll c' = (\<lambda>_. None))"
proof -
  let ?x = "cd_timer (world s)"
  have i: "own_timer s" "armed s [?x]" "0 \<le> ktime_int (expires s ?x)" "ck_open (world s) = []" "ck_epoll (world s) = (\<lambda>_. None)"
    using assms(1) by simp_all
  have o: "map_option t_fn (tmem s ?x) = Some TRY_CONNECT" "sane_clock s" using i(1) by (simp_all add: own_timer_def)
  obtain s2 where s2: "armed s2 []" "world s2 = world s" "live s2 = live s" "clock s2 = clock s"
    "\<And>y. map_option t_fn (tmem s2 y) = map_option t_fn (tmem s y)"
    "\<And>call c. call TRY_CONNECT ?x s2 = Some (s2\<lparr>world := c\<rparr>) \<Longrightarrow> \<exists>r. process_timer call s = Some (r, s2\<lparr>world := c\<rparr>)"
    "\<And>call. call TRY_CONNECT ?x s2 = None \<Longrightarrow> process_timer call s = None"
    by (rule one_timer_fires [OF i(2) o(2,1) _ i(3)]) (use assms(3) in \<open>simp_all add: TRY_CONNECT_def due_now_def\<close>)
  obtain r c' where c': "try_connect_server env (world s) = Some (r, c')" "cd_timer c' = ?x"
      "if after_timer env = Connecting
       then cd_callback c' = Some Connecting_server \<and> ck_open c' = [cd_fd c'] \<and> ck_epoll c' = (\<lambda>_. None)(cd_fd c' := Some Wait_out)
       else ck_epoll c' = (\<lambda>_. None)"
    using try_connect_ok [OF assms(2) i(4,5)] by blast
  have "client_call env TRY_CONNECT ?x s2 = Some (s2\<lparr>world := c'\<rparr>)" using c'(1) s2(2) by (simp add: client_call_def)
  from s2(6) [of "client_call env", OF this] have run: "client_timers env s = Some (s2\<lparr>world := c'\<rparr>)" by (auto simp: client_timers_def)
  moreover have "own_timer (s2\<lparr>world := c'\<rparr>)" using i(1) s2(3-5) c'(2) by (simp add: own_timer_def live_def sane_clock_def)
  ultimately show ?thesis using s2(1) c'(1,3) by blast
qed

text \<open>The timers: an idle client tries to connect when its timer is due; in every other phase nothing happens.\<close>

lemma client_timers_ok:
  assumes "in_phase ph s" and "conn_ok env"
  shows "\<exists>s'. client_timers env s = Some s' \<and> in_phase (if ph = Idle \<and> due_now s then after_timer env else ph) s'"
proof (cases ph)
  case Idle
  let ?x = "cd_timer (world s)"
  have i: "own_timer s" "armed s [?x]" "0 \<le> ktime_int (expires s ?x)" "ck_open (world s) = []" "ck_epoll (world s) = (\<lambda>_. None)"
    using assms(1) Idle by simp_all
  have o: "?x \<in> live s" "map_option t_fn (tmem s ?x) = Some TRY_CONNECT" "sane_clock s" using i(1) by (simp_all add: own_timer_def)
  show ?thesis
  proof (cases "due_now s")
    case True
    obtain s2 c' where run: "client_timers env s = Some (s2\<lparr>world := c'\<rparr>)" and own: "own_timer (s2\<lparr>world := c'\<rparr>)" and s2: "armed s2 []"
      and c': "if after_timer env = Connecting
         then cd_callback c' = Some Connecting_server \<and> ck_open c' = [cd_fd c'] \<and> ck_epoll c' = (\<lambda>_. None)(cd_fd c' := Some Wait_out)
         else ck_epoll c' = (\<lambda>_. None)"
      using idle_fires [OF _ assms(2) True] assms(1) Idle by blast
    have "after_timer env = Connecting \<or> after_timer env = Stuck" by (simp add: after_timer_def)
    then have "in_phase (after_timer env) (s2\<lparr>world := c'\<rparr>)" using c' own s2 by (auto simp: armed_world)
    then show ?thesis using run Idle True by auto
  next
    case False
    obtain time where loop: "process_loop (client_call env) 0 0 s = Some (?x, time, s\<lparr>ticks := Suc (ticks s)\<rparr>)" "sint time = now_ms s (ticks s)"
      using not_due_loop [OF i(2) o(3) order_refl, of "client_call env" 0 0] False by (auto simp: due_now_def)
    have n: "0 \<le> now_ms s (ticks s)" "now_ms s (ticks s) < 2 ^ 60" using get_current_time_correct [OF o(3)] by auto
    have x: "?x \<noteq> 0" using armed_first [OF i(2)] by auto
    have e: "timer_get_expires (s\<lparr>ticks := Suc (ticks s)\<rparr>) ?x = Some (tv64 (expires s ?x))"
      using expires_get [OF i(2) o(1)] by (simp add: timer_get_expires_def)
    have "ktime_int (expires s ?x) < 2 ^ 63" using sint_lt [of "tv64 (expires s ?x)"] by (simp add: ktime_int_def)
    then obtain d where "s64 (sint (tv64 (expires s ?x)) - sint time) = Some d"
      using s64_low [of "ktime_int (expires s ?x) - now_ms s (ticks s)"] n loop(2) i(3) by (auto simp: ktime_int_def)
    then have "client_timers env s = Some (s\<lparr>ticks := Suc (ticks s)\<rparr>)" using loop(1) e x by (simp add: client_timers_def process_timer_def)
    moreover have "in_phase Idle (s\<lparr>ticks := Suc (ticks s)\<rparr>)" using i by (simp add: own_timer_def armed_def live_def sane_clock_def)
    ultimately show ?thesis using Idle False by auto
  qed
next
  have idle: "client_timers env s = Some s" if "armed s []"
    using armed_first [OF that] by (simp add: client_timers_def process_timer_def process_loop.simps [of "client_call env" 0 0 s])
  case Connecting
  then show ?thesis using assms(1) idle by auto
next
  have idle: "client_timers env s = Some s" if "armed s []"
    using armed_first [OF that] by (simp add: client_timers_def process_timer_def process_loop.simps [of "client_call env" 0 0 s])
  case Connected
  then show ?thesis using assms(1) idle by auto
next
  have idle: "client_timers env s = Some s" if "armed s []"
    using armed_first [OF that] by (simp add: client_timers_def process_timer_def process_loop.simps [of "client_call env" 0 0 s])
  case Stuck
  then show ?thesis using assms(1) idle by auto
qed


lemma disconnect_server_ok:
  assumes "in_phase Connected (s\<lparr>world := c0\<rparr>)" and "c0 = world s"
    and "cd_timer c = cd_timer c0" "cd_fd c = cd_fd c0" "cd_ioc c = cd_ioc c0" "cd_ctx c \<noteq> None" "ck_open c = ck_open c0" "ck_epoll c = ck_epoll c0"
  shows "\<exists>s'. disconnect_server (s\<lparr>world := c\<rparr>) = Some s' \<and> in_phase Idle s' \<and> cd_log (world s') = cd_log c
    \<and> ktime_int (expires s' (cd_timer (world s'))) = now_ms s (ticks s) + 200"
proof -
  let ?c = "ck_close (cd_ioc c) (ck_del (cd_fd c) c)\<lparr>cd_fd := 0, cd_ctx := None\<rparr>"
  let ?s = "s\<lparr>world := ?c\<rparr>"
  have h: "own_timer s" "armed s []" "ck_open c = [cd_fd c]" "ck_epoll c = (\<lambda>_. None)(cd_fd c := Some Wait_in)" "cd_ioc c = cd_fd c"
    using assms by (simp_all add: own_timer_def armed_world live_def sane_clock_def)
  have w: "cd_timer ?c = cd_timer (world s)" "ck_open ?c = []" "ck_epoll ?c = (\<lambda>_. None)" "cd_log ?c = cd_log c"
    using h(3-5) assms(2,3) by (simp_all add: ck_close_def ck_del_def)
  obtain s' where s': "update_timer ?s (cd_timer (world ?s)) 200 = Some s'" "own_timer s'" "armed s' [cd_timer (world ?s)]" "world s' = world ?s"
    "ktime_int (expires s' (cd_timer (world ?s))) = now_ms ?s (ticks ?s) + 200" "0 \<le> now_ms ?s (ticks ?s)"
    using rearm [of ?s] own_timer_world [OF h(1) w(1)] h(2) by (auto simp: armed_world)
  have "disconnect_server (s\<lparr>world := c\<rparr>) = Some s'"
    using s'(1) assms(6) by (auto simp: disconnect_server_def ck_del_def ck_close_def)
  moreover have "in_phase Idle s'" using s'(2-6) w(2,3) by simp
  ultimately show ?thesis using s'(4,5) w(4) by (simp add: now_ms_def)
qed

lemma connecting_retry_ok:
  assumes "in_phase Connecting s"
  shows "\<exists>s'. connecting_retry s = Some (0, s') \<and> in_phase Idle s'
    \<and> ktime_int (expires s' (cd_timer (world s'))) = now_ms s (ticks s) + 200"
proof -
  let ?c = "ck_close (cd_fd (world s)) (ck_del (cd_fd (world s)) (world s))"
  let ?s = "s\<lparr>world := ?c\<rparr>"
  have h: "own_timer s" "armed s []" "ck_open (world s) = [cd_fd (world s)]" "ck_epoll (world s) = (\<lambda>_. None)(cd_fd (world s) := Some Wait_out)"
    using assms by simp_all
  have w: "cd_timer ?c = cd_timer (world s)" "ck_open ?c = []" "ck_epoll ?c = (\<lambda>_. None)"
    using h(3,4) by (simp_all add: ck_close_def ck_del_def)
  obtain s' where s': "update_timer ?s (cd_timer (world ?s)) 200 = Some s'" "own_timer s'" "armed s' [cd_timer (world ?s)]" "world s' = world ?s"
    "ktime_int (expires s' (cd_timer (world ?s))) = now_ms ?s (ticks ?s) + 200" "0 \<le> now_ms ?s (ticks ?s)"
    using rearm [of ?s] own_timer_world [OF h(1) w(1)] h(2) by (auto simp: armed_world)
  have "connecting_retry s = Some (0, s')" using s'(1) by (simp add: connecting_retry_def ck_del_def ck_close_def)
  moreover have "in_phase Idle s'" using s'(2-6) w(2,3) by simp
  ultimately show ?thesis using s'(4,5) by (simp add: now_ms_def)
qed

text \<open>
  What one event does: the next phase, and the packets it hands to \<open>proc_cmd\<close>, which are the first
  ones of the server's stream.
\<close>

definition sane_stream :: "client_state \<Rightarrow> bool" where
  "sane_stream s = (case cd_ctx (world s) of None \<Rightarrow> True | Some ctx \<Rightarrow> sane (frames ctx (incoming (ck_net (world s) (cd_ioc (world s))))))"

definition stream_of :: "client_state \<Rightarrow> byte list list" where
  "stream_of s = (case cd_ctx (world s) of None \<Rightarrow> [] | Some ctx \<Rightarrow> frames_of (frames ctx (incoming (ck_net (world s) (cd_ioc (world s))))))"

lemma handle_data_ok:
  assumes "in_phase Connected s" and "sane_stream s"
  shows "\<exists>s' ph' ps rest. handle_data ev s = Some (0, s') \<and> in_phase ph' s' \<and> ph' \<in> (if ev_hup ev then {Idle} else if ev_in ev then {Idle, Connected} else {Connected})
    \<and> cd_log (world s') = cd_log (world s) @ ps \<and> stream_of s = ps @ rest \<and> (ph' = Connected \<longrightarrow> rest = stream_of s')
    \<and> (ph' = Idle \<longrightarrow> ktime_int (expires s' (cd_timer (world s'))) = now_ms s (ticks s) + 200)"
proof -
  obtain ctx where ctx: "cd_ctx (world s) = Some ctx" "rx_inv ctx" using assms(1) by auto
  have ph: "in_phase Connected (s\<lparr>world := world s\<rparr>)" using assms(1) by simp
  let ?c = "world s" let ?fd = "cd_ioc ?c" let ?evs = "ck_net ?c ?fd" let ?F = "frames ctx (incoming ?evs)"
  have st: "stream_of s = frames_of ?F" using ctx(1) by (simp add: stream_of_def)
  have fin: ?thesis if "handle_data ev s = Some (0, s')" "in_phase ph' s'" "ph' \<in> (if ev_hup ev then {Idle} else if ev_in ev then {Idle, Connected} else {Connected})"
      "cd_log (world s') = cd_log (world s) @ ps" "stream_of s = ps @ rest" "ph' = Connected \<longrightarrow> rest = stream_of s'"
      "ph' = Idle \<longrightarrow> ktime_int (expires s' (cd_timer (world s'))) = now_ms s (ticks s) + 200" for s' ph' ps rest
    using that by blast
  show ?thesis
  proof (cases "ev_in ev")
    case False
    show ?thesis
    proof (cases "ev_hup ev")
      case True
      obtain s' where "disconnect_server s = Some s'" "in_phase Idle s'" "cd_log (world s') = cd_log ?c"
        "ktime_int (expires s' (cd_timer (world s'))) = now_ms s (ticks s) + 200"
        using disconnect_server_ok [OF ph refl, of ?c] ctx(1) by auto
      from this False True show ?thesis
          by - (rule fin [of s' Idle "[]" "stream_of s"]; simp add: handle_data_def del: in_phase.simps)
    next
      case hup: False
      from this False assms(1) show ?thesis
          by - (rule fin [of s Connected "[]" "stream_of s"]; simp add: handle_data_def del: in_phase.simps)
    qed
  next
    case inn: True
    have "sane ?F" using assms(2) ctx(1) by (simp add: sane_stream_def)
    from recv_loop_ok [OF ctx(2) this, of "Suc (length ?F)"]
    consider (drained) ctx' evs' ps where "recv_loop (Suc (length ?F)) ctx ?evs = Drained ctx' evs' ps" "rx_inv ctx'"
        "frames_of ?F = ps @ frames_of (frames ctx' (incoming evs'))"
      | (failed) evs' ps rest where "recv_loop (Suc (length ?F)) ctx ?evs = Failed evs' ps" "frames_of ?F = ps @ rest" by blast
    then show ?thesis
    proof cases
      case (failed evs' ps rest)
      let ?d = "?c\<lparr>cd_log := cd_log ?c @ ps, ck_net := (ck_net ?c)(?fd := evs')\<rparr>"
      obtain s' where s': "disconnect_server (s\<lparr>world := ?d\<rparr>) = Some s'" "in_phase Idle s'" "cd_log (world s') = cd_log ?d"
        "ktime_int (expires s' (cd_timer (world s'))) = now_ms s (ticks s) + 200"
        using disconnect_server_ok [OF ph refl, of ?d] ctx(1) by auto
      have "handle_data ev s = Some (0, s')" using inn ctx(1) failed(1) s'(1) by (simp add: handle_data_def Let_def del: recv_loop.simps)
      then show ?thesis using s' st failed(2) inn by (intro exI [of _ s'] exI [of _ Idle] exI [of _ ps] exI [of _ rest]) (simp del: in_phase.simps)
    next
      case (drained ctx' evs' ps)
      let ?d = "?c\<lparr>cd_ctx := Some ctx', cd_log := cd_log ?c @ ps, ck_net := (ck_net ?c)(?fd := evs')\<rparr>"
      let ?s = "s\<lparr>world := ?d\<rparr>"
      have start: "handle_data ev s = (if ev_hup ev then do { s \<leftarrow> disconnect_server ?s; Some (0, s) } else Some (0, ?s))"
        using inn ctx(1) drained(1) by (simp add: handle_data_def Let_def del: recv_loop.simps)
      show ?thesis
      proof (cases "ev_hup ev")
        case False
        have "in_phase Connected ?s" using assms(1) drained(2) own_timer_world [of s ?d] by (simp add: armed_world)
        moreover have "stream_of ?s = frames_of (frames ctx' (incoming evs'))" by (simp add: stream_of_def)
        ultimately show ?thesis using start False st drained(3) inn
          by (intro exI [of _ ?s] exI [of _ Connected] exI [of _ ps] exI [of _ "stream_of ?s"]) (simp del: in_phase.simps)
      next
        case True
        obtain s' where s': "disconnect_server ?s = Some s'" "in_phase Idle s'" "cd_log (world s') = cd_log ?d"
          "ktime_int (expires s' (cd_timer (world s'))) = now_ms s (ticks s) + 200"
          using disconnect_server_ok [OF ph refl, of ?d] by auto
        then show ?thesis using start True st drained(3)
          by (intro exI [of _ s'] exI [of _ Idle] exI [of _ ps] exI [of _ "frames_of (frames ctx' (incoming evs'))"]) (simp del: in_phase.simps)
      qed
    qed
  qed
qed

lemma client_event_ok:
  assumes "in_phase ph s" and "ph \<in> {Connecting, Connected}" and "conn_ok env" and "ph = Connected \<longrightarrow> sane_stream s"
  shows "\<exists>s' ph'. client_event env ev s = Some s' \<and> in_phase ph' s' \<and> ph' \<in> after_event env ev ph"
proof (cases ph)
  case Connecting
  have p: "in_phase Connecting s" using assms(1) Connecting by simp
  have cb: "cd_callback (world s) = Some Connecting_server" using p by simp
  obtain sr where sr: "connecting_retry s = Some (0, sr)" "in_phase Idle sr" using connecting_retry_ok [OF p] by blast
  show ?thesis
  proof (cases "ev_out ev \<and> ce_error env = 0")
    case True
    obtain r c' where c': "connected_server env (world s) = Some (r, c')" "cd_timer c' = cd_timer (world s)"
      "if all_allocs env \<and> ce_epoll env
       then cd_callback c' = Some Handle_data \<and> cd_fd c' = cd_fd (world s) \<and> cd_ioc c' = cd_fd (world s) \<and> ck_open c' = [cd_fd (world s)]
          \<and> ck_epoll c' = (\<lambda>_. None)(cd_fd (world s) := Some Wait_in) \<and> (\<exists>ctx. cd_ctx c' = Some ctx \<and> rx_inv ctx)
       else ck_epoll c' = (\<lambda>_. None)"
      using connected_registered [OF assms(3), of "world s" Wait_out] p by (auto split: if_splits)
    have own: "own_timer (s\<lparr>world := c'\<rparr>)" "armed s []" using p own_timer_world [of s c'] c'(2) by simp_all
    have "client_event env ev s = Some (s\<lparr>world := c'\<rparr>)" using cb True c'(1) by (simp add: client_event_def connecting_server_def)
    moreover have "in_phase (after_connect env) (s\<lparr>world := c'\<rparr>)"
      using c'(3) own by (cases "all_allocs env \<and> ce_epoll env") (auto simp: after_connect_def armed_world)
    ultimately show ?thesis using Connecting True by auto
  next
    case False
    then have "client_event env ev s = (if ev_out ev \<or> ev_hup ev then Some sr else Some s)"
      using cb sr(1) by (auto simp: client_event_def connecting_server_def)
    then show ?thesis using Connecting False sr(2) p by (auto split: if_splits)
  qed
next
  case Connected
  then have "in_phase Connected s" "sane_stream s" using assms(1,4) by simp_all
  from handle_data_ok [OF this, of "epev.truncate ev"] Connected assms(1) show ?thesis
    by (fastforce simp: client_event_def epev.truncate_def)
qed (use assms(2) in simp_all)


lemma init_client_ok:
  assumes "armed s []" and "sane_clock s" and "ck_open (world s) = []" and "ck_epoll (world s) = (\<lambda>_. None)" and "c_addr m \<noteq> 0 \<longrightarrow> fresh s m"
  shows "\<exists>s'. init_client (True, True) m p s = Some (0, s') \<and> in_phase (if c_addr m = 0 then Stuck else Idle) s'
    \<and> (c_addr m \<noteq> 0 \<longrightarrow> ktime_int (expires s' (cd_timer (world s'))) = now_ms s (ticks s) + 60000)"
proof -
  let ?c = "(world s)\<lparr>cd_fd := 0, cd_timer := 0, cd_callback := None, cd_ctx := None, cd_ioc := 0\<rparr>" and ?x = "c_addr m"
  let ?s = "s\<lparr>world := ?c\<rparr>"
  show ?thesis
  proof (cases "?x = 0")
    case True
    then show ?thesis using assms(1,4) by (simp add: init_client_def add_timer_def armed_world)
  next
    case False
    have pre: "armed ?s []" "fresh ?s m" "sane_clock ?s" "now_ms s (ticks s) = now_ms ?s (ticks ?s)"
      using assms False by (simp_all add: armed_world fresh_def sane_clock_def now_ms_def)
    obtain s1 where s1: "add_timer ?s m p TRY_CONNECT 60000 = Some (?x, s1)" "armed s1 (enqueue (expires s1) ?x [])"
      "expires s1 = (expires ?s)(?x := Ktime (word_of_int (now_ms s (ticks s) + sint (60000 :: 32 word))))"
      "live s1 = insert ?x (live ?s)" "clock s1 = clock ?s" "world s1 = world ?s" "map_option t_fn (tmem s1 ?x) = Some TRY_CONNECT"
      using add_timer_correct [OF pre(1-4), of p TRY_CONNECT 60000] by blast
    let ?t = "s1\<lparr>world := (world s1)\<lparr>cd_timer := ?x\<rparr>\<rparr>"
    have run: "init_client (True, True) m p s = Some (0, ?t)" using s1(1) by (simp add: init_client_def)
    have n: "0 \<le> now_ms s (ticks s)" "now_ms s (ticks s) < 2 ^ 60" using get_current_time_correct [OF assms(2)] by auto
    obtain w where w: "s64 (now_ms s (ticks s) + 60000) = Some w" "sint w = now_ms s (ticks s) + 60000"
      using s64_sint [of "now_ms s (ticks s) + 60000"] n by auto
    have "sint (60000 :: 32 word) = 60000" by simp
    then have "expires s1 ?x = Ktime w" using s1(3) s64_word [OF w(1)] by (simp only: fun_upd_same)
    then have e: "ktime_int (expires s1 ?x) = now_ms s (ticks s) + 60000" using w(2) by (simp add: ktime_int_def)
    have "own_timer ?t" using s1(4,5,7) assms(2) by (auto simp: own_timer_def live_def sane_clock_def)
    moreover have "armed s1 [?x]" using s1(2) by (simp add: enqueue_def)
    ultimately have "in_phase Idle ?t" using s1(6) assms(3,4) e n by (simp add: armed_world)
    then show ?thesis using run e False by (intro exI [of _ ?t]) simp
  qed
qed


section \<open>Properties\<close>

text \<open>
  C2. The client implements its state machine. In whatever phase it is, a turn of the timers ends in
  the phase of the machine, and so does an event of its socket: it never uses a channel that is not
  there, it has at most one descriptor registered, and its timer is armed exactly while it is
  waiting to connect. Outside of the machine are only an allocation that fails inside
  \<open>fd_to_io_context\<close> and a server that announces oversized packets.
\<close>

theorem client_refines_phases:
  assumes "in_phase ph s" and "conn_ok env"
  shows "(\<exists>s'. client_timers env s = Some s' \<and> in_phase (if ph = Idle \<and> due_now s then after_timer env else ph) s')
    \<and> (ph \<in> {Connecting, Connected} \<and> (ph = Connected \<longrightarrow> sane_stream s) \<longrightarrow>
        (\<exists>s' ph'. client_event env ev s = Some s' \<and> in_phase ph' s' \<and> ph' \<in> after_event env ev ph))"
  using client_timers_ok [OF assms] client_event_ok [OF assms(1) _ assms(2)] by blast

definition no_client :: dwclient where
  "no_client = \<lparr>cd_fd = 0, cd_timer = 16, cd_callback = None, cd_ctx = None, cd_ioc = 0, cd_log = [], ck_open = [], ck_epoll = (\<lambda>_. None), ck_net = (\<lambda>_. [])\<rparr>"

definition waiting :: client_state where
  "waiting = \<lparr>timerlist = timerlist lone_timer, tmem = tmem lone_timer, clock = (\<lambda>n. (0, 7000)), ticks = 0, world = no_client\<rparr>"

definition unarmed :: "dwclient \<Rightarrow> client_state" where
  "unarmed c = \<lparr>timerlist = \<lparr>tq_head = \<lparr>rheap = [16 \<mapsto> \<lparr>parent_color = 16, rb_right = 0, rb_left = 0\<rparr>], rroot = 0, raug = ()\<rparr>,
       tq_next = 0, tq_expires = [16 \<mapsto> Ktime 5]\<rparr>,
     tmem = [16 \<mapsto> \<lparr>t_state = 0, t_fn = 1, t_p = 0\<rparr>], clock = (\<lambda>n. (0, 7000)), ticks = 0, world = c\<rparr>"



definition lucky :: "int list \<Rightarrow> conn_env" where
  "lucky es = \<lparr>ce_socket = 5, ce_connect = es, ce_error = 0, ce_ioc = True, ce_allocs = (True, True, True, True), ce_buf = replicate sizeof_cache 0,
     ce_dp = replicate sizeof_DwPacket 0, ce_txd = replicate sizeof_DwPacket 0, ce_epoll = True, ce_net = []\<rparr>"

lemma waiting_idle: "in_phase Idle waiting" "due_now waiting"
proof -
  have "armed waiting [16]" using lone_timer(1) by (simp add: armed_def waiting_def)
  then show "in_phase Idle waiting" "due_now waiting"
    by (simp_all add: waiting_def no_client_def own_timer_def live_def lone_timer_def sane_clock_def TRY_CONNECT_def expiry_def ktime_int_def due_now_def now_ms_def)
qed

lemma unarmed_armed: "armed (unarmed c) []"
proof -
  have "queue (timerlist (unarmed c)) []"
    by (auto simp: queue_def unarmed_def rb_tree_with_def holds_def rbt_def intro!: exI [of _ Tip])
  then show ?thesis by (auto simp: armed_def unarmed_def loose_def aligned_def HRTIMER_STATE_ENQUEUED_def)
qed



lemma lucky_ok: "conn_ok (lucky [EINTR, e]) \<longleftrightarrow> e \<noteq> EINTR"
  by (simp add: conn_ok_def lucky_def)

theorem client_refines_phases_witness:
  "\<exists>s'. client_timers (lucky [EINTR, EINPROGRESS]) waiting = Some s' \<and> in_phase Connecting s'"
proof -
  have "conn_ok (lucky [EINTR, EINPROGRESS])" by (simp add: lucky_ok) (simp add: EINTR_def EINPROGRESS_def)
  moreover have "after_timer (lucky [EINTR, EINPROGRESS]) = Connecting" by (simp add: after_timer_def lucky_def) (simp add: EINTR_def EINPROGRESS_def)
  ultimately show ?thesis using client_refines_phases [OF waiting_idle(1), of "lucky [EINTR, EINPROGRESS]"] waiting_idle(2) by auto
qed



text \<open>
  Attempts that end at once are never followed by another. Where \<open>connect\<close> succeeds without
  waiting the client closes the connection, because it changes a registration that is not there;
  where it fails, the socket stays open. No timer is armed and nothing is registered
  after that, so nothing the client ever does again connects it.
\<close>

theorem connect_at_once_is_lost:
  assumes "in_phase Idle s" and "due_now s" and "conn_ok env" and "0 \<le> ce_socket env" and "connect_loop (ce_connect env) \<notin> {Some EINPROGRESS, Some EAGAIN}"
  shows "\<exists>s'. client_timers env s = Some s' \<and> in_phase Stuck s'
    \<and> ck_open (world s') = (if connect_loop (ce_connect env) = Some 0 then [] else [ce_socket env])
    \<and> (\<forall>env'. client_timers env' s' = Some s')"
proof -
  obtain s2 r c' where run: "client_timers env s = Some (s2\<lparr>world := c'\<rparr>)" "armed s2 []" "try_connect_server env (world s) = Some (r, c')"
      "if after_timer env = Connecting
       then cd_callback c' = Some Connecting_server \<and> ck_open c' = [cd_fd c'] \<and> ck_epoll c' = (\<lambda>_. None)(cd_fd c' := Some Wait_out)
       else ck_epoll c' = (\<lambda>_. None)"
    using idle_fires [OF assms(1,3,2)] by blast
  let ?s = "s2\<lparr>world := c'\<rparr>"
  have "after_timer env = Stuck" using assms(5) by (auto simp: after_timer_def)
  then have st: "in_phase Stuck ?s" using run(2,4) by (simp add: armed_world)
  have "client_timers env' ?s = Some ?s" for env'
    using armed_first [of ?s "[]"] st by (simp add: client_timers_def process_timer_def process_loop.simps [of "client_call env'" 0 0 ?s])
  moreover have "ck_open c' = (if connect_loop (ce_connect env) = Some 0 then [] else [ce_socket env])"
    using try_connect_ok [OF assms(3), of "world s"] assms(1,4,5) run(3) by auto
  ultimately show ?thesis using run(1) st by (intro exI [of _ ?s]) simp
qed

theorem connect_at_once_is_lost_witness:
  "(\<exists>s'. client_timers (lucky [0]) waiting = Some s' \<and> in_phase Stuck s' \<and> ck_open (world s') = [])
   \<and> (\<exists>s'. client_timers (lucky [ECONNREFUSED]) waiting = Some s' \<and> in_phase Stuck s' \<and> ck_open (world s') = [5])"
proof -
  have ok: "conn_ok (lucky [0])" "conn_ok (lucky [ECONNREFUSED])" "0 \<le> ce_socket (lucky es)" for es
    by (simp_all add: conn_ok_def lucky_def) (simp_all add: EINTR_def ECONNREFUSED_def)
  have r: "connect_loop (ce_connect (lucky [0])) = Some 0" "connect_loop (ce_connect (lucky [ECONNREFUSED])) = Some ECONNREFUSED"
    by (simp_all add: lucky_def) (simp_all add: EINTR_def ECONNREFUSED_def)
  have n: "connect_loop (ce_connect (lucky [0])) \<notin> {Some EINPROGRESS, Some EAGAIN}" "connect_loop (ce_connect (lucky [ECONNREFUSED])) \<notin> {Some EINPROGRESS, Some EAGAIN}"
    unfolding r by (simp_all add: EINPROGRESS_def EAGAIN_def ECONNREFUSED_def)
  have nz: "ECONNREFUSED \<noteq> 0" by (simp add: ECONNREFUSED_def)
  show ?thesis
    using connect_at_once_is_lost [OF waiting_idle ok(1) ok(3) n(1)] connect_at_once_is_lost [OF waiting_idle ok(2) ok(3) n(2)] r nz
    by (auto simp: lucky_def simp del: in_phase.simps)
qed

text \<open>
  The start: the client is idle with its first attempt a minute away; where \<open>add_timer\<close> finds no
  memory \<open>init_client\<close> still reports success, and the client never connects.
\<close>

theorem init_client_starts:
  assumes "armed s []" and "sane_clock s" and "ck_open (world s) = []" and "ck_epoll (world s) = (\<lambda>_. None)" and "c_addr m \<noteq> 0 \<longrightarrow> fresh s m"
  shows "\<exists>s'. init_client (True, True) m p s = Some (0, s') \<and> in_phase (if c_addr m = 0 then Stuck else Idle) s'
    \<and> (c_addr m \<noteq> 0 \<longrightarrow> ktime_int (expires s' (cd_timer (world s'))) = now_ms s (ticks s) + 60000)"
  using assms by (rule init_client_ok)

theorem init_client_starts_witness:
  "\<exists>s'. init_client (True, True) sample_chunk 0 (unarmed no_client) = Some (0, s') \<and> in_phase Idle s'
    \<and> ktime_int (expires s' (cd_timer (world s'))) = 60007"
proof -
  have "fresh (unarmed no_client) sample_chunk" by (simp add: fresh_def sample_chunk_def unarmed_def aligned_def)
  moreover have "sane_clock (unarmed no_client)" "ck_open (world (unarmed no_client)) = []" "ck_epoll (world (unarmed no_client)) = (\<lambda>_. None)"
      "now_ms (unarmed no_client) (ticks (unarmed no_client)) = 7" "c_addr sample_chunk \<noteq> 0"
    by (simp_all add: sane_clock_def unarmed_def no_client_def now_ms_def sample_chunk_def)
  ultimately show ?thesis using init_client_starts [OF unarmed_armed, of no_client sample_chunk 0] by (simp del: in_phase.simps)
qed

end
