(* ===== verification/MainLoop.thy ===== *)
theory MainLoop
  imports Server Client
begin

text \<open>
  The main loops of \<open>server/main.c\<close> and \<open>client/main.c\<close>: wait for events, call their functions, let
  the timers run, wait again for as long as the timers say. What \<open>epoll_wait\<close> returns is a script;
  \<open>Running\<close> is the state when the script ends, with the delay of the next call.
\<close>

section \<open>The loop\<close>

datatype 'e wait = Wait_error int | Wait_ready 'e

datatype 's run = Exited int 's | Running int 's

fun main_loop :: "('e \<Rightarrow> 's \<Rightarrow> 's option) \<Rightarrow> ('e \<Rightarrow> 's \<Rightarrow> (u32 \<times> 's) option) \<Rightarrow> 'e wait list \<Rightarrow> int \<Rightarrow> 's \<Rightarrow> 's run option" where
  "main_loop dispatch timers [] delay s = Some (Running delay s)"
| "main_loop dispatch timers (Wait_error e # ws) delay s =
     (if e \<noteq> EAGAIN \<and> e \<noteq> EINTR then Some (Exited (- 1) s) else main_loop dispatch timers ws delay s)"
| "main_loop dispatch timers (Wait_ready x # ws) delay s = do {
     s \<leftarrow> dispatch x s;
     (d, s) \<leftarrow> timers x s;
     main_loop dispatch timers ws (sint d) s }"

text \<open>Every entry of a script satisfies a condition in the state in which it comes; errors are those that are retried.\<close>

fun waits_ok :: "('e \<Rightarrow> 's \<Rightarrow> bool) \<Rightarrow> ('e \<Rightarrow> 's \<Rightarrow> 's option) \<Rightarrow> ('e \<Rightarrow> 's \<Rightarrow> (u32 \<times> 's) option) \<Rightarrow> 'e wait list \<Rightarrow> 's \<Rightarrow> bool" where
  "waits_ok ok dispatch timers [] s \<longleftrightarrow> True"
| "waits_ok ok dispatch timers (Wait_error e # ws) s \<longleftrightarrow> (e = EAGAIN \<or> e = EINTR) \<and> waits_ok ok dispatch timers ws s"
| "waits_ok ok dispatch timers (Wait_ready x # ws) s \<longleftrightarrow> ok x s
     \<and> (case dispatch x s of None \<Rightarrow> True | Some s \<Rightarrow> (case timers x s of None \<Rightarrow> True | Some (d, s) \<Rightarrow> waits_ok ok dispatch timers ws s))"

locale event_program =
  fixes dispatch :: "'e \<Rightarrow> 's \<Rightarrow> 's option" and timers :: "'e \<Rightarrow> 's \<Rightarrow> (u32 \<times> 's) option"
    and ok :: "'e \<Rightarrow> 's \<Rightarrow> bool" and inv :: "'s \<Rightarrow> bool"
  assumes dispatch_keeps: "inv s \<Longrightarrow> ok x s \<Longrightarrow> \<exists>s'. dispatch x s = Some s' \<and> inv s'"
    and timers_keep: "inv s \<Longrightarrow> ok x s0 \<Longrightarrow> \<exists>d s'. timers x s = Some (d, s') \<and> inv s'"
begin

lemma loop_keeps:
  assumes "inv s" and "waits_ok ok dispatch timers ws s"
  shows "\<exists>d s'. main_loop dispatch timers ws delay s = Some (Running d s') \<and> inv s'"
  using assms
proof (induction ws arbitrary: delay s)
  case (Cons w ws)
  show ?case
  proof (cases w)
    case (Wait_error e)
    then show ?thesis using Cons by auto
  next
    case (Wait_ready x)
    then obtain s1 where s1: "dispatch x s = Some s1" "inv s1" using dispatch_keeps Cons.prems by auto
    obtain d s2 where s2: "timers x s1 = Some (d, s2)" "inv s2" using timers_keep [OF s1(2), of x s] Cons.prems Wait_ready by auto
    then show ?thesis using Cons.IH [OF s2(2), of "sint d"] Cons.prems(2) Wait_ready s1 by simp
  qed
qed simp

end

section \<open>The server\<close>

text \<open>Between two turns data arrives; the events of a turn and what they meet are those of \<open>Server\<close>. No timer is ever added.\<close>

type_synonym server_turn = "(int \<times> recv_ev list) list \<times> sv_event list"

definition arrive :: "int \<times> recv_ev list \<Rightarrow> server \<Rightarrow> server" where
  "arrive a sv = sv\<lparr>k_net := (k_net sv)(fst a := k_net sv (fst a) @ snd a)\<rparr>"

definition server_dispatch :: "server_turn \<Rightarrow> server timers \<Rightarrow> server timers option" where
  "server_dispatch x s = do { sv \<leftarrow> run_batch (snd x) (fold arrive (fst x) (world s)); Some (s\<lparr>world := sv\<rparr>) }"

definition server_timers :: "server_turn \<Rightarrow> server timers \<Rightarrow> (u32 \<times> server timers) option" where
  "server_timers x s = process_timer (\<lambda>f t s. None) s"

definition server_main :: "bool \<Rightarrow> bool \<times> bool \<Rightarrow> listen_env \<Rightarrow> bool \<Rightarrow> server_turn wait list \<Rightarrow> server timers \<Rightarrow> server timers run option" where
  "server_main epoll_ok allocs env add_ok ws s =
     (if \<not> epoll_ok then Some (Exited (- 1) s)
      else case init_server allocs env add_ok [] of
          (ret, sv) \<Rightarrow>
            let s = (case sv of None \<Rightarrow> s | Some sv \<Rightarrow> s\<lparr>world := sv\<rparr>) in
            if ret < 0 then Some (Exited (- 1) s) else main_loop server_dispatch server_timers ws 100 s)"

text \<open>What is assumed of a turn (a specification, not code): data comes for open descriptors, and \<open>batch_ok\<close>.\<close>

definition turn_ok :: "server_turn \<Rightarrow> server timers \<Rightarrow> bool" where
  "turn_ok x s \<longleftrightarrow> (\<forall>a \<in> set (fst x). fst a \<in> set (k_open (world s))) \<and> batch_ok (fold arrive (fst x) (world s)) (snd x)"

definition serving :: "server timers \<Rightarrow> bool" where
  "serving s \<longleftrightarrow> server_ok (world s) \<and> armed s []"

lemma arrive_ok: "server_ok sv \<Longrightarrow> \<forall>a \<in> set as. fst a \<in> set (k_open sv) \<Longrightarrow> server_ok (fold arrive as sv)"
proof (induction as arbitrary: sv)
  case (Cons a as)
  have "server_step sv (arrive a sv)" unfolding arrive_def by (rule server_step.arrive) (use Cons.prems in simp)
  then have "server_ok (arrive a sv)" using server_step_ok Cons.prems by blast
  moreover have "k_open (arrive a sv) = k_open sv" by (simp add: arrive_def)
  ultimately show ?case using Cons by simp
qed simp

lemma process_timer_idle: "armed s [] \<Longrightarrow> process_timer call s = Some (1000, s)"
  using armed_first [of s "[]"] by (simp add: process_timer_def process_loop.simps)

interpretation server_program: event_program server_dispatch server_timers turn_ok serving
proof
  fix s x assume "serving s" "turn_ok x s"
  then obtain sv where "run_batch (snd x) (fold arrive (fst x) (world s)) = Some sv" "server_ok sv" "armed s []"
    using batch_runs [of "fold arrive (fst x) (world s)" "snd x"] arrive_ok [of "world s" "fst x"] unfolding serving_def turn_ok_def by blast
  then show "\<exists>s'. server_dispatch x s = Some s' \<and> serving s'" by (simp add: server_dispatch_def serving_def armed_def)
next
  fix s x s0 assume "serving s"
  then show "\<exists>d s'. server_timers x s = Some (d, s') \<and> serving s'"
    using process_timer_idle [of s "\<lambda>f t s. None"] by (simp add: server_timers_def serving_def)
qed

section \<open>The client\<close>

text \<open>A turn: what arrives, the event of the socket if there is one, and what the calls of the event and of the timers meet.\<close>

record client_turn =
  ct_arrive :: "recv_ev list"
  ct_event :: "client_ev option"
  ct_env :: conn_env
  ct_timer_env :: conn_env

definition client_arrive :: "recv_ev list \<Rightarrow> client_state \<Rightarrow> client_state" where
  "client_arrive evs s = (let c = world s in s\<lparr>world := c\<lparr>ck_net := (ck_net c)(cd_fd c := ck_net c (cd_fd c) @ evs)\<rparr>\<rparr>)"

definition client_dispatch :: "client_turn \<Rightarrow> client_state \<Rightarrow> client_state option" where
  "client_dispatch x s =
     (let s = client_arrive (ct_arrive x) s in
      case ct_event x of None \<Rightarrow> Some s | Some ev \<Rightarrow> client_event (ct_env x) ev s)"

definition client_process :: "client_turn \<Rightarrow> client_state \<Rightarrow> (u32 \<times> client_state) option" where
  "client_process x s = process_timer (client_call (ct_timer_env x)) s"

text \<open>
  \<open>main\<close> of the client. Not represented: the two calls of \<open>signal\<close>, which only keep the process from
  being ended by a signal, and \<open>init_local_logger\<close> (modelled in \<open>LogClient\<close>), whose result \<open>main\<close>
  ignores and whose state no function of the client reads.
\<close>

definition client_main :: "bool \<Rightarrow> bool \<times> bool \<Rightarrow> chunk \<Rightarrow> ulong \<Rightarrow> client_turn wait list \<Rightarrow> client_state \<Rightarrow> client_state run option" where
  "client_main epoll_ok allocs m p ws s =
     (if \<not> epoll_ok then Some (Exited (- 1) s)
      else do {
        (ret, s) \<leftarrow> init_client allocs m p s;
        if ret < 0 then Some (Exited (- 1) s) else main_loop client_dispatch client_process ws 100 s })"

text \<open>
  What is assumed of a turn (a specification, not code): an event is only reported of a registered
  socket; what a connected server sends has no oversized header; the channel object of a
  connection can be allocated and \<open>connect\<close> is not interrupted for ever (\<open>conn_ok\<close>).
\<close>

definition in_some_phase :: "client_state \<Rightarrow> bool" where "in_some_phase s \<longleftrightarrow> (\<exists>ph. in_phase ph s)"

definition client_turn_ok :: "client_turn \<Rightarrow> client_state \<Rightarrow> bool" where
  "client_turn_ok x s \<longleftrightarrow> conn_ok (ct_env x) \<and> conn_ok (ct_timer_env x)
     \<and> (ct_event x \<noteq> None \<longrightarrow> (\<exists>ph \<in> {Connecting, Connected}. in_phase ph s) \<and> (in_phase Connected s \<longrightarrow> sane_stream (client_arrive (ct_arrive x) s)))"

lemma client_arrive_phase: "in_phase ph s \<Longrightarrow> in_phase ph (client_arrive evs s)"
  by (cases ph) (simp_all add: client_arrive_def Let_def own_timer_def live_def sane_clock_def armed_def)


lemma client_turn_runs:
  assumes "in_some_phase s" and "client_turn_ok x s"
  shows "\<exists>s'. client_dispatch x s = Some s' \<and> in_some_phase s'"
proof (cases "ct_event x")
  case None
  then show ?thesis using assms(1) client_arrive_phase by (auto simp: client_dispatch_def in_some_phase_def Let_def)
next
  case (Some ev)
  then obtain ph where ph: "ph \<in> {Connecting, Connected}" "in_phase ph s" "ph = Connected \<longrightarrow> sane_stream (client_arrive (ct_arrive x) s)"
    and env: "conn_ok (ct_env x)"
    using assms(2) unfolding client_turn_ok_def by blast
  from client_event_ok [OF client_arrive_phase [OF ph(2)] ph(1) env ph(3), of ev] obtain s' ph' where
    "client_event (ct_env x) ev (client_arrive (ct_arrive x) s) = Some s'" "in_phase ph' s'" by blast
  then show ?thesis using Some unfolding client_dispatch_def in_some_phase_def Let_def by auto
qed

interpretation client_program: event_program client_dispatch client_process client_turn_ok in_some_phase
proof
  fix s x assume "in_some_phase s" "client_turn_ok x s"
  then show "\<exists>s'. client_dispatch x s = Some s' \<and> in_some_phase s'" by (rule client_turn_runs)
next
  fix s x s0 assume h: "in_some_phase s" "client_turn_ok x s0"
  then obtain ph where "in_phase ph s" "conn_ok (ct_timer_env x)" by (auto simp: in_some_phase_def client_turn_ok_def)
  from client_timers_ok [OF this] show "\<exists>d s'. client_process x s = Some (d, s') \<and> in_some_phase s'"
    by (auto simp: client_timers_def client_process_def in_some_phase_def)
qed

section \<open>Properties\<close>

text \<open>
  C14. The server as a whole: started, it serves for as long as \<open>epoll_wait\<close> only fails for a signal,
  no client sends a header that announces more than the 1280 bytes of a packet, and the channel
  object of every accepted client can be allocated (\<open>turn_ok\<close> through \<open>batch_ok\<close>; in the other two
  cases the code is undefined). Whatever else arrives and in whatever order it is reported, no turn of the
  loop goes wrong and the server stays consistent.
\<close>

theorem server_main_serves:
  assumes "armed s []" and "init_server allocs env add_ok [] = (0, Some sv)" and "waits_ok turn_ok server_dispatch server_timers ws (s\<lparr>world := sv\<rparr>)"
  shows "\<exists>d s'. server_main True allocs env add_ok ws s = Some (Running d s') \<and> server_ok (world s') \<and> armed s' []"
proof -
  have "serving (s\<lparr>world := sv\<rparr>)" using assms(1) init_server_ok [OF assms(2)] by (simp add: serving_def armed_def)
  from server_program.loop_keeps [OF this assms(3), of 100] show ?thesis using assms(2) by (auto simp: server_main_def serving_def)
qed

definition idle_server :: "server timers" where
  "idle_server = \<lparr>timerlist = timerlist (unarmed no_client), tmem = tmem (unarmed no_client), clock = (\<lambda>n. (0, 0)), ticks = 0, world = start_server\<rparr>"

lemma idle_server_armed: "armed idle_server []"
  using unarmed_armed [of no_client] by (simp add: armed_def idle_server_def no_client_def)

definition demo_accept :: "server_turn wait list" where
  "demo_accept = [Wait_error EINTR, Wait_ready ([], [(Srv, \<lparr>ev_in = True, ev_hup = False\<rparr>, fresh_env True True 4)])]"

theorem server_main_serves_witness:
  "\<exists>d s'. server_main True (True, True) start_env True demo_accept idle_server = Some (Running d s') \<and> server_ok (world s') \<and> armed s' []"
proof (rule server_main_serves [OF idle_server_armed start_server])
  show "waits_ok turn_ok server_dispatch server_timers demo_accept (idle_server\<lparr>world := start_server\<rparr>)"
    using start_batch by (simp add: demo_accept_def turn_ok_def split: option.split)
qed

text \<open>
  C15. The client as a whole: as long as the wait only fails for a signal, the channel object of every
  connection can be allocated and \<open>connect\<close> is not interrupted for ever (\<open>conn_ok\<close>), and no connected
  server sends a header that announces more than the 1280 bytes of a packet (\<open>sane_stream\<close>), it runs on in
  one of its phases and never uses what is not there, whatever else happens to its connections.
\<close>

theorem client_main_runs:
  assumes "armed s []" and "sane_clock s" and "ck_open (world s) = []" and "ck_epoll (world s) = (\<lambda>_. None)" and "c_addr m \<noteq> 0 \<longrightarrow> fresh s m"
    and "init_client (True, True) m p s = Some (0, s0)" and "waits_ok client_turn_ok client_dispatch client_process ws s0"
  shows "\<exists>d s'. client_main True (True, True) m p ws s = Some (Running d s') \<and> in_some_phase s'"
proof -
  obtain s1 ph where "init_client (True, True) m p s = Some (0, s1)" "in_phase ph s1" using init_client_ok [OF assms(1-5), of p] by blast
  then have "in_some_phase s0" using assms(6) unfolding in_some_phase_def by auto
  from client_program.loop_keeps [OF this assms(7), of 100] show ?thesis using assms(6) by (simp add: client_main_def)
qed

theorem client_main_runs_witness:
  "\<exists>d s'. client_main True (True, True) sample_chunk 0 [Wait_error EINTR, Wait_ready \<lparr>ct_arrive = [], ct_event = None, ct_env = lucky [EINPROGRESS], ct_timer_env = lucky [EINPROGRESS]\<rparr>]
     (unarmed no_client) = Some (Running d s') \<and> in_some_phase s'"
proof -
  have f: "c_addr sample_chunk \<noteq> 0 \<longrightarrow> fresh (unarmed no_client) sample_chunk" by (simp add: fresh_def sample_chunk_def unarmed_def aligned_def)
  have c: "sane_clock (unarmed no_client)" "ck_open (world (unarmed no_client)) = []" "ck_epoll (world (unarmed no_client)) = (\<lambda>_. None)" "armed (unarmed no_client) []"
    using unarmed_armed [of no_client] by (simp_all add: sane_clock_def unarmed_def no_client_def)
  obtain s0 where i: "init_client (True, True) sample_chunk 0 (unarmed no_client) = Some (0, s0)" using init_client_ok [OF c(4,1-3) f, of 0] by blast
  have "conn_ok (lucky [EINPROGRESS])" by (simp add: conn_ok_def lucky_def) (simp add: EINTR_def EINPROGRESS_def)
  then have "waits_ok client_turn_ok client_dispatch client_process
      [Wait_error EINTR, Wait_ready \<lparr>ct_arrive = [], ct_event = None, ct_env = lucky [EINPROGRESS], ct_timer_env = lucky [EINPROGRESS]\<rparr>] s0"
    by (simp add: client_turn_ok_def split: option.split)
  from client_main_runs [OF c(4,1-3) f i this] show ?thesis .
qed

end
