(* ===== verification/LogHash.thy ===== *)
theory LogHash
  imports CLib
begin

text \<open>
  \<open>src/src/log/hash.h\<close> and the hash functions of \<open>logd.c\<close>, \<open>file.c\<close> and \<open>socket.c\<close>. A C string is
  the list of its characters; reading behind its terminator is undefined. \<open>char\<close> is signed, and a
  negative value is shifted to the left as GCC does, in 32-bit words.
\<close>

definition lit :: "string \<Rightarrow> byte list" where "lit s = map of_char s"

definition cs_at :: "byte list \<Rightarrow> nat \<Rightarrow> byte option" where
  "cs_at s i = (if i < length s then Some (s ! i) else if i = length s then Some 0 else None)"

section \<open>Multiplicative hashing\<close>

definition GOLDEN_RATIO_PRIME_32 :: ulong where "GOLDEN_RATIO_PRIME_32 = 0x9e370001"
definition GOLDEN_RATIO_PRIME_64 :: ulong where "GOLDEN_RATIO_PRIME_64 = 0x9e37fffffffc0001"

definition hash_64 :: "ulong \<Rightarrow> nat \<Rightarrow> ulong option" where
  "hash_64 val bits =
     (let hash = val; n = hash;
          n = push_bit 18 n; hash = hash - n;
          n = push_bit 33 n; hash = hash - n;
          n = push_bit 3 n; hash = hash + n;
          n = push_bit 3 n; hash = hash - n;
          n = push_bit 4 n; hash = hash + n;
          n = push_bit 2 n; hash = hash + n in
      if 0 < bits \<and> bits \<le> 64 then Some (drop_bit (64 - bits) hash) else None)"

definition hash_32 :: "u32 \<Rightarrow> nat \<Rightarrow> u32 option" where
  "hash_32 val bits =
     (let hash = ucast ((ucast val :: ulong) * GOLDEN_RATIO_PRIME_32) in
      if 0 < bits \<and> bits \<le> 32 then Some (drop_bit (32 - bits) hash) else None)"

definition hash_ptr :: "ulong \<Rightarrow> nat \<Rightarrow> ulong option" where "hash_ptr ptr bits = hash_64 ptr bits"

section \<open>The hash functions of the log daemon\<close>

definition LOG_HTABLE_SIZE_INBITS :: nat where "LOG_HTABLE_SIZE_INBITS = 7"
definition LOG_HTABLE_SIZE :: nat where "LOG_HTABLE_SIZE = 2 ^ LOG_HTABLE_SIZE_INBITS"

definition sx :: "byte \<Rightarrow> u32" where "sx c = scast c"

definition pack4 :: "byte \<Rightarrow> byte \<Rightarrow> byte \<Rightarrow> byte \<Rightarrow> u32" where
  "pack4 a b c d = sx a OR push_bit 8 (sx b) OR push_bit 16 (sx c) OR push_bit 24 (sx d)"

text \<open>\<open>hashfn(p, g)\<close>, the same in the daemon and in its file part.\<close>

definition pg_hash :: "byte list \<Rightarrow> byte list \<Rightarrow> nat option" where
  "pg_hash p g = do {
     p0 \<leftarrow> cs_at p 0; p1 \<leftarrow> cs_at p 1; g0 \<leftarrow> cs_at g 0; g1 \<leftarrow> cs_at g 1;
     h \<leftarrow> hash_32 (pack4 p0 p1 g0 g1) LOG_HTABLE_SIZE_INBITS;
     Some (unat h) }"

text \<open>\<open>hashfilter(p)\<close>, on the characters read through \<open>g\<close> from \<open>p\<close> on.\<close>

definition hashfilter :: "(nat \<Rightarrow> byte option) \<Rightarrow> nat \<Rightarrow> nat option" where
  "hashfilter g p = do {
     p0 \<leftarrow> g p; p1 \<leftarrow> g (p + 1);
     h \<leftarrow> hash_32 (pack4 p0 p1 p0 p1) LOG_HTABLE_SIZE_INBITS;
     Some (unat h) }"

text \<open>\<open>hashfn(name)\<close> of the client side.\<close>

definition RCLOG_DEAFULT_HTABLESIZE :: nat where "RCLOG_DEAFULT_HTABLESIZE = 16"

definition group_hash :: "byte list \<Rightarrow> nat option" where
  "group_hash name = do {
     a \<leftarrow> cs_at name 0; b \<leftarrow> cs_at name 1;
     Some (unat ((sx a XOR sx b) AND (of_nat RCLOG_DEAFULT_HTABLESIZE - 1))) }"

section \<open>Correctness\<close>

lemma hash_64_eq:
  assumes "0 < bits" and "bits \<le> 64"
  shows "hash_64 val bits = Some (drop_bit (64 - bits) (val * GOLDEN_RATIO_PRIME_64))"
proof -
  have "val - push_bit 18 val - push_bit 33 (push_bit 18 val) + push_bit 3 (push_bit 33 (push_bit 18 val))
      - push_bit 3 (push_bit 3 (push_bit 33 (push_bit 18 val))) + push_bit 4 (push_bit 3 (push_bit 3 (push_bit 33 (push_bit 18 val))))
      + push_bit 2 (push_bit 4 (push_bit 3 (push_bit 3 (push_bit 33 (push_bit 18 val))))) = val * GOLDEN_RATIO_PRIME_64"
    unfolding push_bit_push_bit by (simp add: push_bit_eq_mult GOLDEN_RATIO_PRIME_64_def algebra_simps)
  then show ?thesis using assms unfolding hash_64_def Let_def by simp
qed

lemma drop_bit_bound:
  assumes "bits \<le> LENGTH('a)"
  shows "unat (drop_bit (LENGTH('a) - bits) (w :: 'a :: len word)) < 2 ^ bits"
proof -
  have "unat w < 2 ^ LENGTH('a)" by (rule unsigned_less)
  also have "\<dots> = 2 ^ bits * 2 ^ (LENGTH('a) - bits)" using assms by (simp flip: power_add)
  finally have "unat w div 2 ^ (LENGTH('a) - bits) < 2 ^ bits" by (simp add: less_mult_imp_div_less)
  then show ?thesis by (simp only: unat_drop_bit_eq) (simp only: drop_bit_eq_div)
qed

lemma hash_32_eq:
  assumes "0 < bits" and "bits \<le> 32"
  shows "\<exists>h. hash_32 val bits = Some h \<and> h = drop_bit (32 - bits) (val * 0x9e370001) \<and> unat h < 2 ^ bits"
proof -
  let ?P = "2654404609 :: int"
  have u: "uint ((ucast val :: ulong) * GOLDEN_RATIO_PRIME_32) = take_bit 64 (uint val * ?P)"
    by (simp add: GOLDEN_RATIO_PRIME_32_def uint_word_ariths(3) take_bit_eq_mod unsigned_ucast_eq) (simp add: mod_mult_left_eq)
  have "(ucast ((ucast val :: ulong) * GOLDEN_RATIO_PRIME_32) :: u32) = word_of_int (take_bit 64 (uint val * ?P))"
    unfolding u [symmetric] by simp
  also have "\<dots> = word_of_int (uint val * ?P)" by (subst word_of_int_eq_iff) (simp add: take_bit_take_bit)
  also have "\<dots> = val * 0x9e370001" by simp
  finally have "(ucast ((ucast val :: ulong) * GOLDEN_RATIO_PRIME_32) :: u32) = val * 0x9e370001" .
  then show ?thesis using assms drop_bit_bound [of bits "val * 0x9e370001 :: u32"] by (simp add: hash_32_def Let_def)
qed

lemma pg_hash_less: "pg_hash p g = Some k \<Longrightarrow> k < LOG_HTABLE_SIZE"
  using hash_32_eq [of LOG_HTABLE_SIZE_INBITS]
  by (fastforce simp: pg_hash_def LOG_HTABLE_SIZE_def LOG_HTABLE_SIZE_INBITS_def bind_eq_Some_conv)

lemma hashfilter_less: "hashfilter g p = Some k \<Longrightarrow> k < LOG_HTABLE_SIZE"
  using hash_32_eq [of LOG_HTABLE_SIZE_INBITS]
  by (fastforce simp: hashfilter_def LOG_HTABLE_SIZE_def LOG_HTABLE_SIZE_INBITS_def bind_eq_Some_conv)

lemma group_hash_less: "group_hash n = Some k \<Longrightarrow> k < RCLOG_DEAFULT_HTABLESIZE"
proof -
  assume "group_hash n = Some k"
  then obtain w where k: "k = unat ((w :: u32) AND 15)" by (auto simp: group_hash_def RCLOG_DEAFULT_HTABLESIZE_def bind_eq_Some_conv)
  have "w AND 15 \<le> 15" by (simp add: word_and_le1)
  then have "unat (w AND 15) \<le> unat (15 :: u32)" by (simp only: word_le_nat_alt)
  then show ?thesis using k by (simp add: RCLOG_DEAFULT_HTABLESIZE_def)
qed

lemma pg_hash_total:
  assumes "p \<noteq> []" and "g \<noteq> []"
  shows "\<exists>k. pg_hash p g = Some k"
  using assms hash_32_eq [of LOG_HTABLE_SIZE_INBITS]
  by (cases p; cases g) (auto simp: pg_hash_def cs_at_def LOG_HTABLE_SIZE_INBITS_def)

section \<open>Properties\<close>

text \<open>
  The shifts and sums of \<open>hash_64\<close> are the multiplication by the golden-ratio prime that the
  comment describes, and \<open>hash_32\<close> is the one by its 32-bit companion, both cut to the asked number
  of bits; so every key the log programs compute is inside its table.
\<close>

theorem hashes_are_multiplicative:
  assumes "0 < bits"
  shows "(bits \<le> 64 \<longrightarrow> hash_64 v bits = Some (drop_bit (64 - bits) (v * GOLDEN_RATIO_PRIME_64)))
    \<and> (bits \<le> 32 \<longrightarrow> (\<exists>h. hash_32 w bits = Some h \<and> h = drop_bit (32 - bits) (w * 0x9e370001) \<and> unat h < 2 ^ bits))
    \<and> GOLDEN_RATIO_PRIME_64 = 2 ^ 63 + 2 ^ 61 - 2 ^ 57 + 2 ^ 54 - 2 ^ 51 - 2 ^ 18 + 1
    \<and> (pg_hash p g = Some k \<longrightarrow> k < LOG_HTABLE_SIZE) \<and> (hashfilter f q = Some k \<longrightarrow> k < LOG_HTABLE_SIZE)
    \<and> (group_hash n = Some k \<longrightarrow> k < RCLOG_DEAFULT_HTABLESIZE)"
  using hash_64_eq [OF assms, of v] hash_32_eq [OF assms, of w] pg_hash_less hashfilter_less group_hash_less
  by (auto simp: GOLDEN_RATIO_PRIME_64_def)

theorem hashes_are_multiplicative_witness:
  "hash_64 3 7 = Some (drop_bit 57 (3 * GOLDEN_RATIO_PRIME_64)) \<and> (\<exists>k. pg_hash (lit ''dw'') (lit ''g'') = Some k \<and> k < LOG_HTABLE_SIZE)"
proof -
  obtain k where "pg_hash (lit ''dw'') (lit ''g'') = Some k" using pg_hash_total [of "lit ''dw''" "lit ''g''"] by (auto simp: lit_def)
  then show ?thesis using hashes_are_multiplicative [of 7 3 0 "lit ''dw''" "lit ''g''" k] by auto
qed

end
