(* ===== verification/LogFile.thy ===== *)
theory LogFile
  imports LogHash
begin

text \<open>
  \<open>src/src/log/file.c\<close> and \<open>file.h\<close>: the log files of the daemon, one for each program and group, and
  their rotation. The file system is part of the state: names of files, directories, the
  bytes behind an inode, descriptors with their position. Which calls fail is a script; where it
  has run out they succeed. Objects are numbers, hash buckets lists of them. \<open>None\<close> is undefined
  behaviour or a loop that does not end.
\<close>

section \<open>State\<close>

definition LOGFILE_MAXSIZE :: int where "LOGFILE_MAXSIZE = 1024 * 1024"
definition MAX_LOGFILES :: int where "MAX_LOGFILES = 512"
definition MAXLOGS_FOR_ONE :: nat where "MAXLOGS_FOR_ONE = 99"
definition LOGFILE_CLEAN_STEP :: nat where "LOGFILE_CLEAN_STEP = 16"

datatype write_ev = Wrote nat | Write_error int

record fsys =
  f_file :: "byte list \<Rightarrow> nat option"
  f_dirs :: "byte list list"
  f_data :: "nat \<Rightarrow> byte list"
  f_inode :: nat
  f_fds :: "int \<Rightarrow> (nat \<times> nat) option"
  f_nextfd :: int
  f_ok :: "bool list"
  f_writes :: "write_ev list"

record log_file =
  fl_fd :: int
  fl_size :: int
  fl_path :: "byte list"
  fl_group :: "byte list"
  fl_name :: "byte list"
  fl_num :: int
  fl_index :: nat

record logfile_context =
  lc_num :: int
  lc_heads :: "nat \<Rightarrow> nat list"
  lc_mem :: "nat \<Rightarrow> log_file option"
  lc_new :: nat
  lc_fs :: fsys

section \<open>The file system\<close>

definition on_disk :: "fsys \<Rightarrow> byte list \<Rightarrow> bool" where
  "on_disk fs nm \<longleftrightarrow> f_file fs nm \<noteq> None \<or> nm \<in> set (f_dirs fs)"

definition outcome :: "fsys \<Rightarrow> bool \<times> fsys" where
  "outcome fs = (let (ok, l) = malloc (f_ok fs) in (ok, fs\<lparr>f_ok := l\<rparr>))"

definition fs_remove :: "byte list \<Rightarrow> fsys \<Rightarrow> int \<times> fsys" where
  "fs_remove nm fs =
     (let (ok, fs) = outcome fs in
      if \<not> ok then (- 1, fs)
      else if f_file fs nm \<noteq> None then (0, fs\<lparr>f_file := (f_file fs)(nm := None)\<rparr>)
      else if nm \<in> set (f_dirs fs) then (0, fs\<lparr>f_dirs := removeAll nm (f_dirs fs)\<rparr>)
      else (- 1, fs))"

definition fs_rename :: "byte list \<Rightarrow> byte list \<Rightarrow> fsys \<Rightarrow> int \<times> fsys" where
  "fs_rename a b fs =
     (let (ok, fs) = outcome fs in
      case f_file fs a of
        None \<Rightarrow> (- 1, fs)
      | Some i \<Rightarrow> if ok \<and> b \<notin> set (f_dirs fs) then (0, fs\<lparr>f_file := (f_file fs)(a := None, b := Some i)\<rparr>) else (- 1, fs))"

text \<open>\<open>open(nm, O_RDWR | O_CREAT)\<close>; \<open>lseek\<close> moves the position of the descriptor to the end.\<close>

definition fs_open :: "byte list \<Rightarrow> fsys \<Rightarrow> int \<times> fsys" where
  "fs_open nm fs =
     (let (ok, fs) = outcome fs in
      if \<not> ok \<or> nm \<in> set (f_dirs fs) then (- 1, fs)
      else
        let fs = (case f_file fs nm of
            Some i \<Rightarrow> fs
          | None \<Rightarrow> fs\<lparr>f_file := (f_file fs)(nm := Some (f_inode fs)), f_data := (f_data fs)(f_inode fs := []), f_inode := Suc (f_inode fs)\<rparr>);
            fd = f_nextfd fs in
        (fd, fs\<lparr>f_fds := (f_fds fs)(fd := Some (the (f_file fs nm), 0)), f_nextfd := fd + 1\<rparr>))"

definition fs_seek_end :: "int \<Rightarrow> fsys \<Rightarrow> int \<times> fsys" where
  "fs_seek_end fd fs =
     (let (ok, fs) = outcome fs in
      case f_fds fs fd of
        None \<Rightarrow> (- 1, fs)
      | Some (i, pos) \<Rightarrow> if ok then (0, fs\<lparr>f_fds := (f_fds fs)(fd := Some (i, length (f_data fs i)))\<rparr>) else (- 1, fs))"

definition fs_size :: "int \<Rightarrow> fsys \<Rightarrow> int option \<times> fsys" where
  "fs_size fd fs =
     (let (ok, fs) = outcome fs in
      (case f_fds fs fd of None \<Rightarrow> None | Some (i, pos) \<Rightarrow> if ok then Some (int (length (f_data fs i))) else None, fs))"

definition fs_close :: "int \<Rightarrow> fsys \<Rightarrow> fsys" where "fs_close fd fs = fs\<lparr>f_fds := (f_fds fs)(fd := None)\<rparr>"

text \<open>The loop of \<open>write\<close> calls: what is written, whether all of it, and the outcomes left.\<close>

fun write_out :: "write_ev list \<Rightarrow> byte list \<Rightarrow> byte list \<times> bool \<times> write_ev list" where
  "write_out ws [] = ([], True, ws)"
| "write_out [] (b # bs) = (b # bs, True, [])"
| "write_out (Write_error e # ws) (b # bs) = (if e = EINTR then write_out ws (b # bs) else ([], False, ws))"
| "write_out (Wrote n # ws) (b # bs) =
     (let k = min n (length (b # bs)); (w, ok, ws) = write_out ws (drop k (b # bs)) in (take k (b # bs) @ w, ok, ws))"

definition fs_write_all :: "int \<Rightarrow> byte list \<Rightarrow> fsys \<Rightarrow> bool \<times> fsys" where
  "fs_write_all fd buf fs =
     (case f_fds fs fd of
        None \<Rightarrow> (buf = [], fs)
      | Some (i, pos) \<Rightarrow>
          let (w, ok, ws) = write_out (f_writes fs) buf in
          (ok, fs\<lparr>f_data := (f_data fs)(i := blit (f_data fs i) pos w), f_fds := (f_fds fs)(fd := Some (i, pos + length w)), f_writes := ws\<rparr>))"

section \<open>\<open>check_dir\<close>\<close>

text \<open>Each round takes a slash or a character that is none.\<close>

lemma make_dirs_shrinks:
  assumes "(if ptr \<noteq> [] \<and> hd ptr = 47 then tl ptr else ptr) \<noteq> []"
  shows "length (dropWhile (\<lambda>c. c \<noteq> 47) (if ptr \<noteq> [] \<and> hd ptr = 47 then tl ptr else ptr)) < length (ptr :: byte list)"
proof (cases "ptr \<noteq> [] \<and> hd ptr = 47")
  case True
  then show ?thesis using length_dropWhile_le [of "\<lambda>c. c \<noteq> 47" "tl ptr"] by (cases ptr) auto
next
  case False
  then show ?thesis using assms length_dropWhile_le [of "\<lambda>c. c \<noteq> 47" "tl ptr"] by (cases ptr) auto
qed

function make_dirs :: "byte list \<Rightarrow> byte list \<Rightarrow> fsys \<Rightarrow> int \<times> fsys" where
  "make_dirs name ptr fs =
     (let slash = (ptr \<noteq> [] \<and> hd ptr = 47);
          name = (if slash then name @ [47] else name); rest = (if slash then tl ptr else ptr) in
      if rest = [] then (0, fs)
      else
        let name = name @ takeWhile (\<lambda>c. c \<noteq> 47) rest; rest = dropWhile (\<lambda>c. c \<noteq> 47) rest in
        if on_disk fs name then make_dirs name rest fs
        else
          let (ok, fs) = outcome fs in
          if \<not> ok then (- 1, fs) else make_dirs name rest (fs\<lparr>f_dirs := name # f_dirs fs\<rparr>))"
  by pat_completeness auto

termination
  by (relation "measure (\<lambda>(name, ptr, fs). length ptr)") (use make_dirs_shrinks in \<open>auto simp: Let_def\<close>)

declare make_dirs.simps [simp del]

definition check_dir :: "byte list \<Rightarrow> fsys \<Rightarrow> int \<times> fsys" where
  "check_dir path fs =
     (if \<not> on_disk fs path then (if 128 \<le> length path then (- 1, fs) else make_dirs [] path fs)
      else
        let (ok, fs) = outcome fs in
        if \<not> ok then (- 1, fs) else if path \<notin> set (f_dirs fs) then (- 1, fs) else (0, fs))"

section \<open>Rotation\<close>

definition numbered :: "byte list \<Rightarrow> nat \<Rightarrow> byte list" where
  "numbered nm i = take 127 (nm @ [46] @ dec i)"

definition put :: "nat \<Rightarrow> log_file \<Rightarrow> logfile_context \<Rightarrow> logfile_context" where
  "put c f ctx = ctx\<lparr>lc_mem := (lc_mem ctx)(c := Some f)\<rparr>"

text \<open>The object with the most files, the first such in the order of the table; \<open>q\<close> where none has any.\<close>

fun pick :: "logfile_context \<Rightarrow> nat list \<Rightarrow> int \<Rightarrow> nat option \<Rightarrow> nat option option" where
  "pick ctx [] most q = Some q"
| "pick ctx (c # cs) most q = do {
     f \<leftarrow> lc_mem ctx c;
     if fl_num f > most then pick ctx cs (fl_num f) (Some c) else pick ctx cs most q }"

definition all_objects :: "logfile_context \<Rightarrow> nat list" where
  "all_objects ctx = concat (map (lc_heads ctx) [0..<LOG_HTABLE_SIZE])"

partial_function (option) find_old :: "fsys \<Rightarrow> byte list \<Rightarrow> nat \<Rightarrow> byte list option" where
  "find_old fs nm index =
     (let index = (if Suc index > MAXLOGS_FOR_ONE then 1 else Suc index) in
      if on_disk fs (numbered nm index) then Some (numbered nm index) else find_old fs nm index)"

fun clean_times :: "nat \<Rightarrow> nat option \<Rightarrow> logfile_context \<Rightarrow> logfile_context option" where
  "clean_times 0 q ctx = Some ctx"
| "clean_times (Suc n) q ctx = do {
     q \<leftarrow> pick ctx (all_objects ctx) 0 q;
     c \<leftarrow> q;
     f \<leftarrow> lc_mem ctx c;
     filename \<leftarrow> find_old (lc_fs ctx) (fl_name f) (fl_index f + 1);
     let (ret, fs) = fs_remove filename (lc_fs ctx);
     clean_times n q (put c (f\<lparr>fl_num := fl_num f - 1\<rparr>) (ctx\<lparr>lc_fs := fs, lc_num := lc_num ctx - 1\<rparr>)) }"

partial_function (option) clean :: "logfile_context \<Rightarrow> logfile_context option" where
  "clean ctx =
     (if lc_num ctx < MAX_LOGFILES then Some ctx else do { ctx \<leftarrow> clean_times LOGFILE_CLEAN_STEP None ctx; clean ctx })"

text \<open>The steps of \<open>new_file\<close> behind the cleaning: make room, move the full file, open the new one.\<close>

definition drop_old :: "nat \<Rightarrow> logfile_context \<Rightarrow> logfile_context option" where
  "drop_old c ctx = do {
     f \<leftarrow> lc_mem ctx c;
     let filename = numbered (fl_name f) (fl_index f);
     if on_disk (lc_fs ctx) filename then
       let (ret, fs) = fs_remove filename (lc_fs ctx) in
       Some (put c (f\<lparr>fl_num := fl_num f - 1\<rparr>) (ctx\<lparr>lc_fs := fs, lc_num := lc_num ctx - 1\<rparr>))
     else Some ctx }"

definition move_full :: "nat \<Rightarrow> logfile_context \<Rightarrow> (bool \<times> logfile_context) option" where
  "move_full c ctx = do {
     f \<leftarrow> lc_mem ctx c;
     if fl_size f \<ge> LOGFILE_MAXSIZE then
       let (ret, fs) = fs_rename (fl_name f) (numbered (fl_name f) (fl_index f)) (lc_fs ctx) in
       if ret < 0 then Some (False, ctx\<lparr>lc_fs := fs\<rparr>)
       else Some (True, put c (f\<lparr>fl_num := fl_num f + 1\<rparr>) (ctx\<lparr>lc_fs := fs, lc_num := lc_num ctx + 1\<rparr>))
     else Some (True, ctx) }"

definition open_current :: "nat \<Rightarrow> logfile_context \<Rightarrow> (int \<times> logfile_context) option" where
  "open_current c ctx = do {
     f \<leftarrow> lc_mem ctx c;
     let (fd, fs) = fs_open (fl_name f) (lc_fs ctx);
     if fd < 0 then Some (- 1, ctx\<lparr>lc_fs := fs\<rparr>)
     else
       let (ret, fs) = fs_seek_end fd fs in
       if ret < 0 then Some (- 1, ctx\<lparr>lc_fs := fs\<rparr>)
       else
         let f = f\<lparr>fl_index := (if Suc (fl_index f) > MAXLOGS_FOR_ONE then 0 else Suc (fl_index f)), fl_fd := fd\<rparr>;
             (st, fs) = fs_size fd fs in
         case st of
           None \<Rightarrow> Some (- 1, put c f (ctx\<lparr>lc_fs := fs\<rparr>))
         | Some sz \<Rightarrow> Some (fd, put c (f\<lparr>fl_size := sz\<rparr>) (ctx\<lparr>lc_fs := fs\<rparr>)) }"

definition new_file :: "nat \<Rightarrow> logfile_context \<Rightarrow> (int \<times> logfile_context) option" where
  "new_file c ctx = do {
     ctx \<leftarrow> clean ctx;
     ctx \<leftarrow> drop_old c ctx;
     (ok, ctx) \<leftarrow> move_full c ctx;
     if \<not> ok then Some (- 1, ctx) else open_current c ctx }"

definition write_log :: "nat \<Rightarrow> byte list \<Rightarrow> logfile_context \<Rightarrow> (int \<times> logfile_context) option" where
  "write_log c buf ctx = do {
     f \<leftarrow> lc_mem ctx c;
     let (ok, fs) = fs_write_all (fl_fd f) buf (lc_fs ctx);
     if \<not> ok then Some (- 1, ctx\<lparr>lc_fs := fs\<rparr>)
     else
       let f = f\<lparr>fl_size := fl_size f + int (length buf)\<rparr>; ctx = put c f (ctx\<lparr>lc_fs := fs\<rparr>) in
       if fl_size f \<ge> LOGFILE_MAXSIZE then new_file c (ctx\<lparr>lc_fs := fs_close (fl_fd f) fs\<rparr>)
       else Some (0, ctx) }"

section \<open>Opening a log\<close>

text \<open>The first free number below 99, or 99; and how many of the file and its first 99 old ones exist.\<close>

definition get_index :: "byte list \<Rightarrow> fsys \<Rightarrow> nat \<times> int" where
  "get_index filename fs =
     (let old = filter (\<lambda>i. on_disk fs (numbered filename i)) [0..<MAXLOGS_FOR_ONE] in
      (length (takeWhile (\<lambda>i. on_disk fs (numbered filename i)) [0..<MAXLOGS_FOR_ONE]),
       (if on_disk fs filename then 1 else 0) + int (length old)))"

text \<open>\<open>allocs\<close>: the outcome of \<open>malloc\<close>, and whether all three \<open>strdup\<close>s succeed. The null pointer is \<open>None\<close> inside.\<close>

definition new_log :: "bool \<times> bool \<Rightarrow> byte list \<Rightarrow> byte list \<Rightarrow> logfile_context \<Rightarrow> (nat option \<times> logfile_context) option" where
  "new_log allocs pro grp ctx = do {
     key \<leftarrow> pg_hash pro grp;
     let (mem, dups) = allocs;
     let filename = take 127 (pro @ [47] @ grp @ lit ''.log'');
     let c = lc_new ctx;
     if \<not> mem then Some (None, ctx)
     else if \<not> dups then Some (None, ctx\<lparr>lc_new := Suc c\<rparr>)
     else
       let f = \<lparr>fl_fd = 0, fl_size = 0, fl_path = pro, fl_group = grp, fl_name = filename, fl_num = 0, fl_index = 0\<rparr>;
           (ret, fs) = check_dir pro (lc_fs ctx);
           ctx = put c f (ctx\<lparr>lc_new := Suc c, lc_fs := fs\<rparr>) in
       if ret < 0 then Some (None, ctx)
       else do {
         let ctx = ctx\<lparr>lc_heads := (lc_heads ctx)(key := c # lc_heads ctx key)\<rparr>;
         let (index, num) = get_index filename (lc_fs ctx);
         let ctx = put c (f\<lparr>fl_index := index, fl_num := num\<rparr>) (ctx\<lparr>lc_num := lc_num ctx + num\<rparr>);
         (fd, ctx) \<leftarrow> new_file c ctx;
         if fd < 0 then Some (None, ctx) else Some (Some c, ctx) } }"

fun find_log :: "logfile_context \<Rightarrow> byte list \<Rightarrow> byte list \<Rightarrow> nat list \<Rightarrow> nat option option" where
  "find_log ctx pro grp [] = Some None"
| "find_log ctx pro grp (c # cs) = do {
     f \<leftarrow> lc_mem ctx c;
     if grp = fl_group f \<and> pro = fl_path f then Some (Some c) else find_log ctx pro grp cs }"

definition open_logfile :: "bool \<times> bool \<Rightarrow> byte list \<Rightarrow> byte list \<Rightarrow> logfile_context \<Rightarrow> (nat option \<times> logfile_context) option" where
  "open_logfile allocs pro grp ctx = do {
     key \<leftarrow> pg_hash pro grp;
     r \<leftarrow> find_log ctx pro grp (lc_heads ctx key);
     case r of Some c \<Rightarrow> Some (Some c, ctx) | None \<Rightarrow> new_log allocs pro grp ctx }"

section \<open>Start\<close>

definition log_name :: "byte list \<Rightarrow> byte list option" where
  "log_name nm =
     (if 46 \<notin> set nm then None
      else let k = length nm - Suc (length (takeWhile (\<lambda>c. c \<noteq> 46) (rev nm))) in
        if drop k nm = lit ''.log'' then Some (take k nm) else None)"

text \<open>The entries that \<open>readdir\<close> yields, each with the outcomes of the allocations for it.\<close>

fun scan_entries :: "byte list \<Rightarrow> (byte list \<times> bool \<times> bool) list \<Rightarrow> logfile_context \<Rightarrow> logfile_context option" where
  "scan_entries path [] ctx = Some ctx"
| "scan_entries path ((nm, allocs) # es) ctx =
     (if nm = lit ''.'' \<or> nm = lit ''..'' then scan_entries path es ctx
      else case log_name nm of
        None \<Rightarrow> scan_entries path es ctx
      | Some grp \<Rightarrow>
          if 64 \<le> length grp then None
          else do { (r, ctx) \<leftarrow> new_log allocs path grp ctx; scan_entries path es ctx })"

definition scan_subdir :: "bool \<Rightarrow> byte list \<Rightarrow> (byte list \<times> bool \<times> bool) list \<Rightarrow> logfile_context \<Rightarrow> logfile_context option" where
  "scan_subdir opened path es ctx = (if \<not> opened then Some ctx else scan_entries path es ctx)"

record dir_entry =
  d_name :: "byte list"
  d_stat :: bool
  d_isdir :: bool
  d_opened :: bool
  d_entries :: "(byte list \<times> bool \<times> bool) list"

fun init_entries :: "dir_entry list \<Rightarrow> logfile_context \<Rightarrow> (int \<times> logfile_context) option" where
  "init_entries [] ctx = Some (0, ctx)"
| "init_entries (e # es) ctx =
     (if d_name e = lit ''.'' \<or> d_name e = lit ''..'' then init_entries es ctx
      else if \<not> d_stat e then Some (- 1, ctx)
      else if \<not> d_isdir e then init_entries es ctx
      else if 64 \<le> length (d_name e) then None
      else do { ctx \<leftarrow> scan_subdir (d_opened e) (d_name e) (d_entries e) ctx; init_entries es ctx })"

definition init_internal :: "bool \<Rightarrow> bool \<Rightarrow> dir_entry list \<Rightarrow> logfile_context \<Rightarrow> (int \<times> logfile_context) option" where
  "init_internal chdir_ok opened es ctx =
     (if \<not> chdir_ok then Some (- 1, ctx) else if \<not> opened then Some (0, ctx) else init_entries es ctx)"

definition init_logfile :: "bool \<Rightarrow> byte list \<Rightarrow> bool \<Rightarrow> bool \<Rightarrow> dir_entry list \<Rightarrow> fsys \<Rightarrow> (int \<times> logfile_context option) option" where
  "init_logfile allocs path chdir_ok opened es fs =
     (if \<not> allocs then Some (- ENOMEM, None)
      else
        let (ret, fs) = check_dir path fs;
            ctx = \<lparr>lc_num = 0, lc_heads = (\<lambda>_. []), lc_mem = (\<lambda>_. None), lc_new = 0, lc_fs = fs\<rparr> in
        if ret < 0 then Some (- 1, Some ctx)
        else do { (ret, ctx) \<leftarrow> init_internal chdir_ok opened es ctx; Some (ret, Some ctx) })"


section \<open>What a log holds\<close>

definition file_text :: "fsys \<Rightarrow> byte list \<Rightarrow> byte list option" where
  "file_text fs nm = map_option (f_data fs) (f_file fs nm)"

text \<open>A file system in which nothing fails: one name for each inode, and none beyond the next one.\<close>

definition fs_ok :: "fsys \<Rightarrow> bool" where
  "fs_ok fs \<longleftrightarrow> (\<forall>nm i. f_file fs nm = Some i \<longrightarrow> i < f_inode fs \<and> (\<forall>nm'. f_file fs nm' = Some i \<longrightarrow> nm' = nm))
     \<and> 0 \<le> f_nextfd fs \<and> f_ok fs = [] \<and> f_writes fs = []"

text \<open>The object \<open>f\<close> is open on the file of its name, at the end of its text \<open>d\<close>.\<close>

definition logging :: "logfile_context \<Rightarrow> log_file \<Rightarrow> byte list \<Rightarrow> bool" where
  "logging ctx f d \<longleftrightarrow> fs_ok (lc_fs ctx) \<and> length (fl_name f) \<le> 124 \<and> fl_index f \<le> MAXLOGS_FOR_ONE \<and> fl_size f = int (length d)
     \<and> (\<exists>i. f_file (lc_fs ctx) (fl_name f) = Some i \<and> f_fds (lc_fs ctx) (fl_fd f) = Some (i, length d) \<and> f_data (lc_fs ctx) i = d)"

lemma outcome_ok [simp]: "fs_ok fs \<Longrightarrow> outcome fs = (True, fs)"
  by (cases fs) (simp add: outcome_def fs_ok_def)

lemma dec_two: "i < 100 \<Longrightarrow> length (dec i) \<le> 2"
  by (subst dec.simps, subst dec.simps) auto

lemma numbered_new:
  assumes "length nm \<le> 124" and "i \<le> MAXLOGS_FOR_ONE"
  shows "numbered nm i \<noteq> nm" "length (numbered nm i) \<le> 127"
proof -
  have "length (dec i) \<le> 2" using dec_two [of i] assms(2) by (simp add: MAXLOGS_FOR_ONE_def)
  then have "numbered nm i = nm @ [46] @ dec i" using assms(1) by (simp add: numbered_def)
  then show "numbered nm i \<noteq> nm" by simp
qed (simp add: numbered_def)

lemma write_out_all [simp]: "write_out [] buf = (buf, True, [])"
  by (cases buf) simp_all

lemma fs_write_all_ok:
  assumes "fs_ok fs" and "f_fds fs fd = Some (i, length d)" and "f_data fs i = d"
  shows "fs_write_all fd buf fs = (True, fs\<lparr>f_data := (f_data fs)(i := d @ buf), f_fds := (f_fds fs)(fd := Some (i, length (d @ buf)))\<rparr>)"
  using assms by (cases fs) (simp add: fs_write_all_def fs_ok_def blit_def)

lemma fs_ok_upd: "fs_ok (fs\<lparr>f_data := a, f_fds := b\<rparr>) = fs_ok fs" "fs_ok (fs\<lparr>f_fds := b\<rparr>) = fs_ok fs" "fs_ok (fs\<lparr>f_data := a\<rparr>) = fs_ok fs"
  by (simp_all add: fs_ok_def)

lemma clean_idle: "lc_num ctx < MAX_LOGFILES \<Longrightarrow> clean ctx = Some ctx"
  by (simp add: clean.simps)

lemma drop_old_ok:
  assumes "lc_mem ctx c = Some f" and "fs_ok (lc_fs ctx)" and "numbered (fl_name f) (fl_index f) \<notin> set (f_dirs (lc_fs ctx))"
  shows "\<exists>n ctx'. drop_old c ctx = Some ctx' \<and> lc_mem ctx' c = Some (f\<lparr>fl_num := n\<rparr>) \<and> lc_heads ctx' = lc_heads ctx
    \<and> lc_fs ctx' = (lc_fs ctx)\<lparr>f_file := (f_file (lc_fs ctx))(numbered (fl_name f) (fl_index f) := None)\<rparr>"
proof (cases "f_file (lc_fs ctx) (numbered (fl_name f) (fl_index f))")
  case None
  have "lc_fs ctx = (lc_fs ctx)\<lparr>f_file := (f_file (lc_fs ctx))(numbered (fl_name f) (fl_index f) := None)\<rparr>"
    using None by (cases "lc_fs ctx") (simp add: fun_upd_idem)
  moreover have "drop_old c ctx = Some ctx" using assms(1,3) None by (simp add: drop_old_def on_disk_def Let_def)
  moreover have "f = f\<lparr>fl_num := fl_num f\<rparr>" by simp
  ultimately show ?thesis using assms(1) by metis
next
  case (Some i)
  then show ?thesis using assms by (simp add: drop_old_def on_disk_def fs_remove_def put_def Let_def) blast
qed

lemma move_full_ok:
  assumes "lc_mem ctx c = Some f" and "fs_ok (lc_fs ctx)" and "numbered (fl_name f) (fl_index f) \<notin> set (f_dirs (lc_fs ctx))"
    and "LOGFILE_MAXSIZE \<le> fl_size f" and "f_file (lc_fs ctx) (fl_name f) = Some i"
  shows "\<exists>n ctx'. move_full c ctx = Some (True, ctx') \<and> lc_mem ctx' c = Some (f\<lparr>fl_num := n\<rparr>) \<and> lc_heads ctx' = lc_heads ctx
    \<and> lc_fs ctx' = (lc_fs ctx)\<lparr>f_file := (f_file (lc_fs ctx))(fl_name f := None, numbered (fl_name f) (fl_index f) := Some i)\<rparr>"
  using assms by (simp add: move_full_def fs_rename_def put_def Let_def) blast

lemma open_current_ok:
  assumes "lc_mem ctx c = Some f" and "fs_ok (lc_fs ctx)" and "fl_name f \<notin> set (f_dirs (lc_fs ctx))" and "f_file (lc_fs ctx) (fl_name f) = None"
  shows "\<exists>ctx'. open_current c ctx = Some (f_nextfd (lc_fs ctx), ctx') \<and> lc_heads ctx' = lc_heads ctx \<and> lc_num ctx' = lc_num ctx
    \<and> lc_mem ctx' c = Some (f\<lparr>fl_index := (if Suc (fl_index f) > MAXLOGS_FOR_ONE then 0 else Suc (fl_index f)), fl_fd := f_nextfd (lc_fs ctx), fl_size := 0\<rparr>)
    \<and> lc_fs ctx' = (lc_fs ctx)\<lparr>f_file := (f_file (lc_fs ctx))(fl_name f := Some (f_inode (lc_fs ctx))), f_data := (f_data (lc_fs ctx))(f_inode (lc_fs ctx) := []),
        f_inode := Suc (f_inode (lc_fs ctx)), f_fds := (f_fds (lc_fs ctx))(f_nextfd (lc_fs ctx) := Some (f_inode (lc_fs ctx), 0)), f_nextfd := f_nextfd (lc_fs ctx) + 1\<rparr>"
proof -
  have o: "outcome fs = (True, fs)" if "f_ok fs = []" for fs using that by (cases fs) (simp add: outcome_def)
  have e: "f_ok (lc_fs ctx) = []" "0 \<le> f_nextfd (lc_fs ctx)" using assms(2) by (simp_all add: fs_ok_def)
  show ?thesis
    using assms e by (simp add: open_current_def fs_open_def fs_seek_end_def fs_size_def o put_def Let_def)
qed


lemma write_log_ok:
  assumes m: "lc_mem ctx c = Some f" and l: "logging ctx f d" and few: "lc_num ctx < MAX_LOGFILES"
    and nodir: "fl_name f \<notin> set (f_dirs (lc_fs ctx))" "numbered (fl_name f) (fl_index f) \<notin> set (f_dirs (lc_fs ctx))"
  shows "\<exists>ret ctx' f'. write_log c buf ctx = Some (ret, ctx') \<and> 0 \<le> ret \<and> lc_mem ctx' c = Some f' \<and> fl_name f' = fl_name f \<and> lc_heads ctx' = lc_heads ctx
    \<and> (if int (length (d @ buf)) < LOGFILE_MAXSIZE
       then logging ctx' f' (d @ buf) \<and> fl_index f' = fl_index f
         \<and> (\<forall>nm. nm \<noteq> fl_name f \<longrightarrow> file_text (lc_fs ctx') nm = file_text (lc_fs ctx) nm)
       else logging ctx' f' [] \<and> fl_index f' = (if fl_index f = MAXLOGS_FOR_ONE then 0 else Suc (fl_index f))
         \<and> file_text (lc_fs ctx') (numbered (fl_name f) (fl_index f)) = Some (d @ buf)
         \<and> (\<forall>nm. nm \<noteq> fl_name f \<longrightarrow> nm \<noteq> numbered (fl_name f) (fl_index f) \<longrightarrow> file_text (lc_fs ctx') nm = file_text (lc_fs ctx) nm))"
proof -
  let ?fs = "lc_fs ctx" and ?nm = "fl_name f" and ?old = "numbered (fl_name f) (fl_index f)"
  obtain i where ok: "fs_ok ?fs" and nm: "length ?nm \<le> 124" "fl_index f \<le> MAXLOGS_FOR_ONE" and sz: "fl_size f = int (length d)"
    and i: "f_file ?fs ?nm = Some i" "f_fds ?fs (fl_fd f) = Some (i, length d)" "f_data ?fs i = d"
    using l unfolding logging_def by blast
  have ne: "?old \<noteq> ?nm" by (rule numbered_new [OF nm])
  have il: "i < f_inode ?fs" and uniq: "\<And>a. f_file ?fs a = Some i \<Longrightarrow> a = ?nm" using ok i(1) unfolding fs_ok_def by blast+
  let ?fs1 = "?fs\<lparr>f_data := (f_data ?fs)(i := d @ buf), f_fds := (f_fds ?fs)(fl_fd f := Some (i, length (d @ buf)))\<rparr>"
  have wr: "fs_write_all (fl_fd f) buf ?fs = (True, ?fs1)" by (rule fs_write_all_ok [OF ok i(2,3)])
  let ?f1 = "f\<lparr>fl_size := fl_size f + int (length buf)\<rparr>"
  let ?ctx1 = "put c ?f1 (ctx\<lparr>lc_fs := ?fs1\<rparr>)"
  have same: "file_text ?fs1 a = file_text ?fs a" if "a \<noteq> ?nm" for a
    using uniq [of a] that by (cases "f_file ?fs a") (auto simp: file_text_def)
  show ?thesis
  proof (cases "int (length (d @ buf)) < LOGFILE_MAXSIZE")
    case True
    have "write_log c buf ctx = Some (0, ?ctx1)" using m wr sz True by (simp add: write_log_def Let_def)
    moreover have "logging ?ctx1 ?f1 (d @ buf)" using ok nm i sz by (simp add: logging_def put_def fs_ok_upd)
    ultimately show ?thesis using True same by (intro exI [of _ 0] exI [of _ ?ctx1] exI [of _ ?f1]) (simp add: put_def)
  next
    case False
    let ?ctx2 = "?ctx1\<lparr>lc_fs := fs_close (fl_fd f) ?fs1\<rparr>"
    have c2: "lc_mem ?ctx2 c = Some ?f1" "lc_fs ?ctx2 = ?fs1\<lparr>f_fds := (f_fds ?fs1)(fl_fd f := None)\<rparr>" "lc_heads ?ctx2 = lc_heads ctx" "lc_num ?ctx2 = lc_num ctx"
      by (simp_all add: put_def fs_close_def)
    have ok2: "fs_ok (lc_fs ?ctx2)" using ok unfolding c2(2) by (simp add: fs_ok_upd)
    obtain n3 ctx3 where d3: "drop_old c ?ctx2 = Some ctx3" "lc_mem ctx3 c = Some (?f1\<lparr>fl_num := n3\<rparr>)" "lc_heads ctx3 = lc_heads ctx"
      "lc_fs ctx3 = (lc_fs ?ctx2)\<lparr>f_file := (f_file ?fs)(?old := None)\<rparr>"
      using drop_old_ok [OF c2(1) ok2] nodir(2) c2(2,3) by auto
    have ok3: "fs_ok (lc_fs ctx3)" using ok unfolding d3(4) c2(2) by (auto simp: fs_ok_def)
    have "?old \<notin> set (f_dirs (lc_fs ctx3))" "f_file (lc_fs ctx3) ?nm = Some i" using nodir(2) i(1) ne unfolding d3(4) c2(2) by auto
    moreover have "LOGFILE_MAXSIZE \<le> fl_size f + int (length buf)" using False sz by simp
    ultimately obtain n4 ctx4 where d4: "move_full c ctx3 = Some (True, ctx4)" "lc_mem ctx4 c = Some (?f1\<lparr>fl_num := n4\<rparr>)" "lc_heads ctx4 = lc_heads ctx"
      "lc_fs ctx4 = (lc_fs ctx3)\<lparr>f_file := (f_file (lc_fs ctx3))(?nm := None, ?old := Some i)\<rparr>"
      using move_full_ok [OF d3(2) ok3, of i] d3(3) by auto
    have f4: "f_file (lc_fs ctx4) = (f_file ?fs)(?nm := None, ?old := Some i)" unfolding d4(4) d3(4) by (auto simp: fun_eq_iff)
    have s4: "f_data (lc_fs ctx4) = (f_data ?fs)(i := d @ buf)" "f_inode (lc_fs ctx4) = f_inode ?fs" "f_nextfd (lc_fs ctx4) = f_nextfd ?fs"
      "f_dirs (lc_fs ctx4) = f_dirs ?fs" "f_ok (lc_fs ctx4) = f_ok ?fs" "f_writes (lc_fs ctx4) = f_writes ?fs"
      unfolding d4(4) d3(4) c2(2) by simp_all
    have ok4: "fs_ok (lc_fs ctx4)" using ok il uniq unfolding fs_ok_def f4 s4 by auto
    obtain ctx5 where d5: "open_current c ctx4 = Some (f_nextfd ?fs, ctx5)" "lc_heads ctx5 = lc_heads ctx"
      "lc_mem ctx5 c = Some (f\<lparr>fl_size := 0, fl_num := n4, fl_index := (if Suc (fl_index f) > MAXLOGS_FOR_ONE then 0 else Suc (fl_index f)), fl_fd := f_nextfd ?fs\<rparr>)"
      "lc_fs ctx5 = (lc_fs ctx4)\<lparr>f_file := (f_file (lc_fs ctx4))(?nm := Some (f_inode ?fs)), f_data := (f_data (lc_fs ctx4))(f_inode ?fs := []),
        f_inode := Suc (f_inode ?fs), f_fds := (f_fds (lc_fs ctx4))(f_nextfd ?fs := Some (f_inode ?fs, 0)), f_nextfd := f_nextfd ?fs + 1\<rparr>"
      using open_current_ok [OF d4(2) ok4] nodir(1) s4 f4 d4(3) ne by auto
    let ?f5 = "f\<lparr>fl_size := 0, fl_num := n4, fl_index := (if Suc (fl_index f) > MAXLOGS_FOR_ONE then 0 else Suc (fl_index f)), fl_fd := f_nextfd ?fs\<rparr>"
    have "write_log c buf ctx = new_file c ?ctx2" using m wr sz False by (simp add: write_log_def Let_def put_def)
    also have "\<dots> = Some (f_nextfd ?fs, ctx5)" using clean_idle [of ?ctx2] few c2(4) d3(1) d4(1) d5(1) by (simp add: new_file_def)
    finally have run: "write_log c buf ctx = Some (f_nextfd ?fs, ctx5)" .
    have f5: "f_file (lc_fs ctx5) = (f_file ?fs)(?nm := Some (f_inode ?fs), ?old := Some i)" unfolding d5(4) using ne by (auto simp: f4 fun_eq_iff)
    have dt5: "f_data (lc_fs ctx5) = (f_data ?fs)(i := d @ buf, f_inode ?fs := [])" unfolding d5(4) by (simp add: s4)
    have s5: "f_inode (lc_fs ctx5) = Suc (f_inode ?fs)" "f_nextfd (lc_fs ctx5) = f_nextfd ?fs + 1" "f_ok (lc_fs ctx5) = f_ok ?fs" "f_writes (lc_fs ctx5) = f_writes ?fs"
      "f_fds (lc_fs ctx5) (f_nextfd ?fs) = Some (f_inode ?fs, 0)"
      unfolding d5(4) by (simp_all add: s4)
    have fresh: "f_file ?fs a \<noteq> Some (f_inode ?fs)" for a using ok unfolding fs_ok_def by blast
    have ok5: "fs_ok (lc_fs ctx5)" using ok il uniq fresh unfolding fs_ok_def f5 s5 by (auto simp: less_Suc_eq)
    have log5: "logging ctx5 ?f5 []" using ok5 nm f5 dt5 s5(5) ne by (auto simp: logging_def)
    have old5: "file_text (lc_fs ctx5) ?old = Some (d @ buf)" using il by (simp add: file_text_def f5 dt5)
    have other: "file_text (lc_fs ctx5) a = file_text ?fs a" if "a \<noteq> ?nm" "a \<noteq> ?old" for a
      using uniq [of a] fresh [of a] that by (cases "f_file ?fs a") (auto simp: file_text_def f5 dt5)
    show ?thesis
      using run d5(2,3) log5 old5 other ok nm(2) False
      by (intro exI [of _ "f_nextfd ?fs"] exI [of _ ctx5] exI [of _ ?f5]) (auto simp: fs_ok_def)
  qed
qed


section \<open>Opening\<close>

lemma open_current_existing:
  assumes "lc_mem ctx c = Some f" and "fs_ok (lc_fs ctx)" and "fl_name f \<notin> set (f_dirs (lc_fs ctx))" and "f_file (lc_fs ctx) (fl_name f) = Some i"
  shows "\<exists>ctx'. open_current c ctx = Some (f_nextfd (lc_fs ctx), ctx') \<and> lc_heads ctx' = lc_heads ctx
    \<and> lc_mem ctx' c = Some (f\<lparr>fl_index := (if Suc (fl_index f) > MAXLOGS_FOR_ONE then 0 else Suc (fl_index f)), fl_fd := f_nextfd (lc_fs ctx), fl_size := int (length (f_data (lc_fs ctx) i))\<rparr>)
    \<and> lc_fs ctx' = (lc_fs ctx)\<lparr>f_fds := (f_fds (lc_fs ctx))(f_nextfd (lc_fs ctx) := Some (i, length (f_data (lc_fs ctx) i))), f_nextfd := f_nextfd (lc_fs ctx) + 1\<rparr>"
proof -
  have o: "outcome fs = (True, fs)" if "f_ok fs = []" for fs using that by (cases fs) (simp add: outcome_def)
  have e: "f_ok (lc_fs ctx) = []" "0 \<le> f_nextfd (lc_fs ctx)" using assms(2) by (simp_all add: fs_ok_def)
  show ?thesis
    using assms e by (simp add: open_current_def fs_open_def fs_seek_end_def fs_size_def o put_def Let_def)
qed

lemma get_index_bounds:
  assumes "get_index nm fs = (index, num)"
  shows "index \<le> MAXLOGS_FOR_ONE" "num \<le> 100" "index < MAXLOGS_FOR_ONE \<Longrightarrow> \<not> on_disk fs (numbered nm index)"
proof -
  let ?P = "\<lambda>i. on_disk fs (numbered nm i)" and ?xs = "[0..<MAXLOGS_FOR_ONE]"
  have i: "index = length (takeWhile ?P ?xs)" and n: "num = (if on_disk fs nm then 1 else 0) + int (length (filter ?P ?xs))"
    using assms by (simp_all add: get_index_def Let_def)
  show "index \<le> MAXLOGS_FOR_ONE" using length_takeWhile_le [of ?P ?xs] i by simp
  show "num \<le> 100" using length_filter_le [of ?P ?xs] n by (simp add: MAXLOGS_FOR_ONE_def)
  assume h: "index < MAXLOGS_FOR_ONE"
  then have "\<not> ?P (?xs ! index)" using nth_length_takeWhile [of ?P ?xs] i by simp
  then show "\<not> ?P index" using h by simp
qed

lemma find_log_mem: "(\<And>c. c \<in> set cs \<Longrightarrow> lc_mem ctx' c = lc_mem ctx c) \<Longrightarrow> find_log ctx' pro grp cs = find_log ctx pro grp cs"
  by (induction cs) (auto split: Option.bind_splits)

definition log_path :: "byte list \<Rightarrow> byte list \<Rightarrow> byte list" where
  "log_path pro grp = take 127 (pro @ [47] @ grp @ lit ''.log'')"

lemma open_logfile_ok:
  assumes key: "pg_hash pro grp = Some key" and none: "find_log ctx pro grp (lc_heads ctx key) = Some None"
    and ok: "fs_ok (lc_fs ctx)" and dir: "pro \<in> set (f_dirs (lc_fs ctx))" and few: "lc_num ctx + 100 < MAX_LOGFILES"
    and len: "length (log_path pro grp) \<le> 124" and nodir: "log_path pro grp \<notin> set (f_dirs (lc_fs ctx))" "\<And>i. numbered (log_path pro grp) i \<notin> set (f_dirs (lc_fs ctx))"
  shows "\<exists>ctx' f. open_logfile (True, True) pro grp ctx = Some (Some (lc_new ctx), ctx') \<and> lc_mem ctx' (lc_new ctx) = Some f \<and> fl_name f = log_path pro grp
    \<and> logging ctx' f (case file_text (lc_fs ctx) (log_path pro grp) of None \<Rightarrow> [] | Some d \<Rightarrow> d)
    \<and> open_logfile al pro grp ctx' = Some (Some (lc_new ctx), ctx')"
proof -
  let ?c = "lc_new ctx" and ?nm = "log_path pro grp"
  let ?f0 = "\<lparr>fl_fd = 0, fl_size = 0, fl_path = pro, fl_group = grp, fl_name = ?nm, fl_num = 0, fl_index = 0\<rparr>"
  obtain index num where gi: "get_index ?nm (lc_fs ctx) = (index, num)" by (cases "get_index ?nm (lc_fs ctx)")
  let ?f = "?f0\<lparr>fl_index := index, fl_num := num\<rparr>"
  let ?ctx1 = "put ?c ?f0 (ctx\<lparr>lc_new := Suc ?c, lc_fs := lc_fs ctx\<rparr>)"
  define ctx2 where "ctx2 = put ?c ?f ((?ctx1\<lparr>lc_heads := (lc_heads ctx)(key := ?c # lc_heads ctx key)\<rparr>)\<lparr>lc_num := lc_num ctx + num\<rparr>)"
  have cd: "check_dir pro (lc_fs ctx) = (0, lc_fs ctx)" using dir ok by (simp add: check_dir_def on_disk_def)
  have open1: "open_logfile (True, True) pro grp ctx = Option.bind (new_file ?c ctx2) (\<lambda>(fd, ctx). if fd < 0 then Some (None, ctx) else Some (Some ?c, ctx))"
    using key none cd gi by (simp add: open_logfile_def new_log_def Let_def log_path_def put_def ctx2_def)
  have c2: "lc_mem ctx2 ?c = Some ?f" "lc_fs ctx2 = lc_fs ctx" "lc_num ctx2 < MAX_LOGFILES" "lc_heads ctx2 key = ?c # lc_heads ctx key"
    using get_index_bounds(2) [OF gi] few by (simp_all add: put_def ctx2_def)
  have nm: "numbered ?nm index \<noteq> ?nm" by (rule numbered_new(1) [OF len get_index_bounds(1) [OF gi]])
  obtain n3 ctx3 where d3: "drop_old ?c ctx2 = Some ctx3" "lc_mem ctx3 ?c = Some (?f\<lparr>fl_num := n3\<rparr>)" "lc_heads ctx3 = lc_heads ctx2"
    "lc_fs ctx3 = (lc_fs ctx)\<lparr>f_file := (f_file (lc_fs ctx))(numbered ?nm index := None)\<rparr>"
    using drop_old_ok [OF c2(1)] ok nodir(2) by (auto simp: c2(2))
  have d4: "move_full ?c ctx3 = Some (True, ctx3)" using d3(2) by (simp add: move_full_def LOGFILE_MAXSIZE_def)
  have ok3: "fs_ok (lc_fs ctx3)" using ok unfolding d3(4) by (auto simp: fs_ok_def)
  have f3: "f_file (lc_fs ctx3) ?nm = f_file (lc_fs ctx) ?nm" "f_dirs (lc_fs ctx3) = f_dirs (lc_fs ctx)" "f_data (lc_fs ctx3) = f_data (lc_fs ctx)"
    unfolding d3(4) using nm by auto
  have run: "new_file ?c ctx2 = open_current ?c ctx3" using clean_idle [OF c2(3)] d3(1) d4 by (simp add: new_file_def)
  have idx: "(if Suc index > MAXLOGS_FOR_ONE then 0 else Suc index) \<le> MAXLOGS_FOR_ONE" by simp
  have fd: "0 \<le> f_nextfd (lc_fs ctx3)" using ok3 by (simp add: fs_ok_def)
  have fin: ?thesis if "open_current ?c ctx3 = Some (f_nextfd (lc_fs ctx3), ctx')" "lc_heads ctx' = lc_heads ctx3" "lc_mem ctx' ?c = Some f"
      "fl_name f = ?nm" "fl_group f = grp" "fl_path f = pro" "logging ctx' f (case file_text (lc_fs ctx) ?nm of None \<Rightarrow> [] | Some d \<Rightarrow> d)" for ctx' f
  proof -
    have "open_logfile (True, True) pro grp ctx = Some (Some ?c, ctx')" unfolding open1 run that(1) using fd by simp
    moreover have "open_logfile al pro grp ctx' = Some (Some ?c, ctx')" using key that(2-6) d3(3) c2(4) by (simp add: open_logfile_def)
    ultimately show ?thesis using that by blast
  qed
  show ?thesis
  proof (cases "f_file (lc_fs ctx) ?nm")
    case None
    obtain ctx' where o: "open_current ?c ctx3 = Some (f_nextfd (lc_fs ctx3), ctx')" "lc_heads ctx' = lc_heads ctx3"
      "lc_mem ctx' ?c = Some (?f\<lparr>fl_num := n3, fl_index := (if Suc index > MAXLOGS_FOR_ONE then 0 else Suc index), fl_fd := f_nextfd (lc_fs ctx3), fl_size := 0\<rparr>)"
      "lc_fs ctx' = (lc_fs ctx3)\<lparr>f_file := (f_file (lc_fs ctx3))(?nm := Some (f_inode (lc_fs ctx3))), f_data := (f_data (lc_fs ctx3))(f_inode (lc_fs ctx3) := []),
        f_inode := Suc (f_inode (lc_fs ctx3)), f_fds := (f_fds (lc_fs ctx3))(f_nextfd (lc_fs ctx3) := Some (f_inode (lc_fs ctx3), 0)), f_nextfd := f_nextfd (lc_fs ctx3) + 1\<rparr>"
      using open_current_ok [OF d3(2) ok3] nodir(1) f3 None by auto
    have fresh: "f_file (lc_fs ctx3) a \<noteq> Some (f_inode (lc_fs ctx3))" for a using ok3 unfolding fs_ok_def by blast
    have "fs_ok (lc_fs ctx')" using ok3 fresh unfolding o(4) fs_ok_def by (auto simp: less_Suc_eq)
    then have "logging ctx' (?f\<lparr>fl_num := n3, fl_index := (if Suc index > MAXLOGS_FOR_ONE then 0 else Suc index), fl_fd := f_nextfd (lc_fs ctx3), fl_size := 0\<rparr>) []"
      using len idx unfolding logging_def o(4) by auto
    then show ?thesis using fin [OF o(1-3)] None by (simp add: file_text_def)
  next
    case (Some i)
    obtain ctx' where o: "open_current ?c ctx3 = Some (f_nextfd (lc_fs ctx3), ctx')" "lc_heads ctx' = lc_heads ctx3"
      "lc_mem ctx' ?c = Some (?f\<lparr>fl_num := n3, fl_index := (if Suc index > MAXLOGS_FOR_ONE then 0 else Suc index), fl_fd := f_nextfd (lc_fs ctx3),
         fl_size := int (length (f_data (lc_fs ctx3) i))\<rparr>)"
      "lc_fs ctx' = (lc_fs ctx3)\<lparr>f_fds := (f_fds (lc_fs ctx3))(f_nextfd (lc_fs ctx3) := Some (i, length (f_data (lc_fs ctx3) i))), f_nextfd := f_nextfd (lc_fs ctx3) + 1\<rparr>"
      using open_current_existing [OF d3(2) ok3, of i] nodir(1) f3 Some by auto
    have "fs_ok (lc_fs ctx')" using ok3 unfolding o(4) fs_ok_def by auto
    then have "logging ctx' (?f\<lparr>fl_num := n3, fl_index := (if Suc index > MAXLOGS_FOR_ONE then 0 else Suc index), fl_fd := f_nextfd (lc_fs ctx3),
         fl_size := int (length (f_data (lc_fs ctx3) i))\<rparr>) (f_data (lc_fs ctx3) i)"
      using len idx Some f3 unfolding logging_def o(4) by auto
    then show ?thesis using fin [OF o(1-3)] Some f3 by (simp add: file_text_def)
  qed
qed

section \<open>Too many logs\<close>

text \<open>
  The search after \<open>n\<close> rounds of its loop: still searching, at the index it has come to, or the name it
  has found. It ends exactly where some number of rounds finds a name, so that \<open>None\<close> as the value of
  \<open>find_old\<close> is the loop that is running after every number of rounds, and nothing else.
\<close>

fun find_rounds :: "nat \<Rightarrow> fsys \<Rightarrow> byte list \<Rightarrow> nat \<Rightarrow> nat + byte list" where
  "find_rounds 0 fs nm index = Inl index"
| "find_rounds (Suc n) fs nm index =
     (let index = (if Suc index > MAXLOGS_FOR_ONE then 1 else Suc index) in
      if on_disk fs (numbered nm index) then Inr (numbered nm index) else find_rounds n fs nm index)"

lemma find_rounds_old: "find_rounds n fs nm index = Inr r \<Longrightarrow> find_old fs nm index = Some r"
proof (induction n arbitrary: index)
  case (Suc n)
  then show ?case by (subst find_old.simps) (auto simp: Let_def split: if_splits)
qed simp

lemma find_old_rounds: "find_old fs nm index = Some r \<Longrightarrow> \<exists>n. find_rounds n fs nm index = Inr r"
proof (erule find_old.raw_induct [where P = "\<lambda>fs nm index r. \<exists>n. find_rounds n fs nm index = Inr r", rotated])
  fix g fs nm index and r :: "byte list"
  assume ih: "\<And>fs nm index r. g fs nm index = Some r \<Longrightarrow> \<exists>n. find_rounds n fs nm index = Inr r"
    and run: "(let index = (if Suc index > MAXLOGS_FOR_ONE then 1 else Suc index) in
      if on_disk fs (numbered nm index) then Some (numbered nm index) else g fs nm index) = Some r"
  let ?i = "if Suc index > MAXLOGS_FOR_ONE then 1 else Suc index"
  show "\<exists>n. find_rounds n fs nm index = Inr r"
  proof (cases "on_disk fs (numbered nm ?i)")
    case True
    then show ?thesis using run by (intro exI [of _ 1]) (simp add: Let_def)
  next
    case False
    then obtain n where "find_rounds n fs nm ?i = Inr r" using run ih [of fs nm ?i r] by (auto simp: Let_def)
    then show ?thesis using False by (intro exI [of _ "Suc n"]) (simp add: Let_def)
  qed
qed

lemma find_old_None: "find_old fs nm index = None \<longleftrightarrow> (\<forall>n. \<exists>i. find_rounds n fs nm index = Inl i)"
proof
  assume none: "find_old fs nm index = None"
  show "\<forall>n. \<exists>i. find_rounds n fs nm index = Inl i"
  proof
    fix n
    show "\<exists>i. find_rounds n fs nm index = Inl i"
      using find_rounds_old [of n fs nm index] none by (cases "find_rounds n fs nm index") auto
  qed
next
  assume run: "\<forall>n. \<exists>i. find_rounds n fs nm index = Inl i"
  show "find_old fs nm index = None"
  proof (cases "find_old fs nm index")
    case (Some r)
    then obtain n where "find_rounds n fs nm index = Inr r" using find_old_rounds by blast
    then show ?thesis using run by (metis sum.distinct(1))
  qed
qed

lemma find_rounds_searching:
  assumes "\<forall>j \<in> {1..MAXLOGS_FOR_ONE}. \<not> on_disk fs (numbered nm j)"
  shows "\<exists>i. find_rounds n fs nm index = Inl i"
proof (induction n arbitrary: index)
  case (Suc n)
  let ?i = "if Suc index > MAXLOGS_FOR_ONE then 1 else Suc index"
  have "?i \<in> {1..MAXLOGS_FOR_ONE}" by (simp add: MAXLOGS_FOR_ONE_def)
  then show ?case using assms Suc [of ?i] by (simp add: Let_def)
qed simp

lemma find_old_hangs: "\<forall>j \<in> {1..MAXLOGS_FOR_ONE}. \<not> on_disk fs (numbered nm j) \<Longrightarrow> find_old fs nm index = None"
  unfolding find_old_None using find_rounds_searching by blast

lemma pick_live:
  assumes "\<forall>c \<in> set cs. lc_mem ctx c \<noteq> None"
    and "q \<noteq> None \<or> (\<exists>c \<in> set cs. \<exists>f. lc_mem ctx c = Some f \<and> most < fl_num f)"
  shows "\<exists>c. pick ctx cs most q = Some (Some c)"
  using assms
proof (induction cs arbitrary: most q)
  case (Cons d cs)
  then obtain f where f: "lc_mem ctx d = Some f" by auto
  show ?case
  proof (cases "most < fl_num f")
    case True
    then show ?thesis using Cons.IH [of "Some d" "fl_num f"] Cons.prems(1) f by simp
  next
    case False
    then show ?thesis using Cons.IH [of q most] Cons.prems f by auto
  qed
qed auto

lemma pick_from: "pick ctx cs most q = Some r \<Longrightarrow> r = q \<or> (\<exists>c \<in> set cs. r = Some c)"
  by (induction cs arbitrary: most q) (fastforce split: Option.bind_splits if_splits)+

lemma clean_hangs:
  assumes "MAX_LOGFILES \<le> lc_num ctx"
    and "\<forall>c \<in> set (all_objects ctx). \<forall>f. lc_mem ctx c = Some f \<longrightarrow> (\<forall>j \<in> {1..MAXLOGS_FOR_ONE}. \<not> on_disk (lc_fs ctx) (numbered (fl_name f) j))"
  shows "clean ctx = None"
proof -
  have "clean_times (Suc n) None ctx = None" for n
  proof (cases "pick ctx (all_objects ctx) 0 None")
    case (Some q)
    show ?thesis
    proof (cases q)
      case (Some c)
      then have c: "c \<in> set (all_objects ctx)" using pick_from [OF \<open>pick ctx (all_objects ctx) 0 None = Some q\<close>] by auto
      show ?thesis
      proof (cases "lc_mem ctx c")
        case (Some f)
        then have "find_old (lc_fs ctx) (fl_name f) k = None" for k using find_old_hangs assms(2) c by blast
        then show ?thesis using Some \<open>q = Some c\<close> \<open>pick ctx (all_objects ctx) 0 None = Some q\<close> by simp
      qed (simp add: \<open>q = Some c\<close> \<open>pick ctx (all_objects ctx) 0 None = Some q\<close>)
    qed (simp add: \<open>pick ctx (all_objects ctx) 0 None = Some q\<close>)
  qed simp
  then have "clean_times LOGFILE_CLEAN_STEP None ctx = None" by (simp only: LOGFILE_CLEAN_STEP_def eval_nat_numeral)
  then show ?thesis using assms(1) by (subst clean.simps) simp
qed


lemma failed_log_ok:
  assumes key: "pg_hash pro grp = Some key" and none: "find_log ctx pro grp (lc_heads ctx key) = Some None"
    and faults: "f_ok (lc_fs ctx) = [True, False]" and dir: "pro \<in> set (f_dirs (lc_fs ctx))" and few: "lc_num ctx + 100 < MAX_LOGFILES"
    and new: "\<not> on_disk (lc_fs ctx) (numbered (log_path pro grp) 0)"
  shows "\<exists>ctx' f. open_logfile (True, True) pro grp ctx = Some (None, ctx') \<and> lc_mem ctx' (lc_new ctx) = Some f \<and> fl_fd f = 0
    \<and> open_logfile al pro grp ctx' = Some (Some (lc_new ctx), ctx')"
proof -
  let ?c = "lc_new ctx" and ?nm = "log_path pro grp" and ?fs = "(lc_fs ctx)\<lparr>f_ok := [False]\<rparr>"
  let ?f0 = "\<lparr>fl_fd = 0, fl_size = 0, fl_path = pro, fl_group = grp, fl_name = ?nm, fl_num = 0, fl_index = 0\<rparr>"
  obtain index num where gi: "get_index ?nm ?fs = (index, num)" by (cases "get_index ?nm ?fs")
  have same: "on_disk ?fs a = on_disk (lc_fs ctx) a" for a by (simp add: on_disk_def)
  have up: "[0..<MAXLOGS_FOR_ONE] = 0 # [1..<MAXLOGS_FOR_ONE]" by (simp add: MAXLOGS_FOR_ONE_def upt_conv_Cons)
  then have index: "index = 0" using gi new by (simp add: get_index_def Let_def same)
  let ?f = "?f0\<lparr>fl_index := index, fl_num := num\<rparr>"
  define ctx2 where "ctx2 = put ?c ?f (put ?c ?f0 (ctx\<lparr>lc_new := Suc ?c, lc_fs := ?fs\<rparr>)
     \<lparr>lc_heads := (lc_heads ctx)(key := ?c # lc_heads ctx key), lc_num := lc_num ctx + num\<rparr>)"
  have "outcome (lc_fs ctx) = (True, ?fs)" using faults by (simp add: outcome_def malloc_def)
  then have cd: "check_dir pro (lc_fs ctx) = (0, ?fs)" using dir by (simp add: check_dir_def on_disk_def)
  have open1: "open_logfile (True, True) pro grp ctx = Option.bind (new_file ?c ctx2) (\<lambda>(fd, ctx). if fd < 0 then Some (None, ctx) else Some (Some ?c, ctx))"
    using key none cd gi by (simp add: open_logfile_def new_log_def Let_def log_path_def put_def ctx2_def)
  have c2: "lc_mem ctx2 ?c = Some ?f" "lc_fs ctx2 = ?fs" "lc_num ctx2 < MAX_LOGFILES" "lc_heads ctx2 key = ?c # lc_heads ctx key"
    using get_index_bounds(2) [OF gi] few by (simp_all add: put_def ctx2_def)
  have "drop_old ?c ctx2 = Some ctx2" using c2(1,2) new index by (simp add: drop_old_def same Let_def)
  moreover have "move_full ?c ctx2 = Some (True, ctx2)" using c2(1) by (simp add: move_full_def LOGFILE_MAXSIZE_def)
  moreover have "outcome ?fs = (False, ?fs\<lparr>f_ok := []\<rparr>)" by (simp add: outcome_def malloc_def)
  then have "open_current ?c ctx2 = Some (- 1, ctx2\<lparr>lc_fs := ?fs\<lparr>f_ok := []\<rparr>\<rparr>)" using c2(1,2) by (simp add: open_current_def fs_open_def)
  ultimately have "new_file ?c ctx2 = Some (- 1, ctx2\<lparr>lc_fs := ?fs\<lparr>f_ok := []\<rparr>\<rparr>)" using clean_idle [OF c2(3)] by (simp add: new_file_def)
  then have "open_logfile (True, True) pro grp ctx = Some (None, ctx2\<lparr>lc_fs := ?fs\<lparr>f_ok := []\<rparr>\<rparr>)" unfolding open1 by simp
  then show ?thesis using c2 key by (intro exI [of _ "ctx2\<lparr>lc_fs := ?fs\<lparr>f_ok := []\<rparr>\<rparr>"] exI [of _ ?f]) (simp add: open_logfile_def)
qed

section \<open>Properties\<close>

text \<open>
  C18. Writing to a log and its rotation. Below a megabyte the text is put behind what the file holds;
  from there on the whole text is found under the next number and the file of the name is open and
  empty. No other file changes, no byte is lost, and the next number is taken in turn.
\<close>

theorem write_log_rotates:
  assumes "lc_mem ctx c = Some f" and "logging ctx f d" and "lc_num ctx < MAX_LOGFILES"
    and "fl_name f \<notin> set (f_dirs (lc_fs ctx))" and "numbered (fl_name f) (fl_index f) \<notin> set (f_dirs (lc_fs ctx))"
  shows "\<exists>ret ctx' f'. write_log c buf ctx = Some (ret, ctx') \<and> 0 \<le> ret \<and> lc_mem ctx' c = Some f' \<and> fl_name f' = fl_name f \<and> lc_heads ctx' = lc_heads ctx
    \<and> (if int (length (d @ buf)) < LOGFILE_MAXSIZE
       then logging ctx' f' (d @ buf) \<and> fl_index f' = fl_index f
         \<and> (\<forall>nm. nm \<noteq> fl_name f \<longrightarrow> file_text (lc_fs ctx') nm = file_text (lc_fs ctx) nm)
       else logging ctx' f' [] \<and> fl_index f' = (if fl_index f = MAXLOGS_FOR_ONE then 0 else Suc (fl_index f))
         \<and> file_text (lc_fs ctx') (numbered (fl_name f) (fl_index f)) = Some (d @ buf)
         \<and> (\<forall>nm. nm \<noteq> fl_name f \<longrightarrow> nm \<noteq> numbered (fl_name f) (fl_index f) \<longrightarrow> file_text (lc_fs ctx') nm = file_text (lc_fs ctx) nm))"
  using assms by (rule write_log_ok)

definition net_log :: log_file where
  "net_log = \<lparr>fl_fd = 5, fl_size = 1048576, fl_path = lit ''dw'', fl_group = lit ''net'', fl_name = log_path (lit ''dw'') (lit ''net''), fl_num = 1, fl_index = 3\<rparr>"

definition net_fs :: "byte list \<Rightarrow> fsys" where
  "net_fs d = \<lparr>f_file = (\<lambda>_. None)(log_path (lit ''dw'') (lit ''net'') := Some 0), f_dirs = [lit ''dw''], f_data = (\<lambda>_. d), f_inode = 1,
     f_fds = (\<lambda>_. None)(5 := Some (0, length d)), f_nextfd = 6, f_ok = [], f_writes = []\<rparr>"

definition net_ctx :: "byte list \<Rightarrow> logfile_context" where
  "net_ctx d = \<lparr>lc_num = 1, lc_heads = (\<lambda>_. []), lc_mem = (\<lambda>_. None)(0 := Some net_log), lc_new = 1, lc_fs = net_fs d\<rparr>"

lemma net_path: "log_path (lit ''dw'') (lit ''net'') = lit ''dw/net.log''" "lit ''dw/net.log'' \<noteq> lit ''dw''"
  by (simp_all add: log_path_def lit_def)

lemma net_numbered: "numbered (lit ''dw/net.log'') i \<noteq> lit ''dw''"
  by (simp add: numbered_def lit_def)

theorem write_log_rotates_witness:
  "\<exists>ret ctx' f'. write_log 0 [65] (net_ctx (replicate 1048576 120)) = Some (ret, ctx') \<and> 0 \<le> ret \<and> lc_mem ctx' 0 = Some f' \<and> logging ctx' f' [] \<and> fl_index f' = 4
    \<and> file_text (lc_fs ctx') (numbered (lit ''dw/net.log'') 3) = Some (replicate 1048576 120 @ [65])"
proof -
  let ?d = "replicate 1048576 (120 :: byte)"
  have l: "logging (net_ctx ?d) net_log ?d"
    by (auto simp: logging_def net_ctx_def net_log_def net_fs_def fs_ok_def net_path MAXLOGS_FOR_ONE_def) (simp add: lit_def)
  have m: "lc_mem (net_ctx ?d) 0 = Some net_log" "lc_num (net_ctx ?d) < MAX_LOGFILES" "fl_name net_log \<notin> set (f_dirs (lc_fs (net_ctx ?d)))"
    "numbered (fl_name net_log) (fl_index net_log) \<notin> set (f_dirs (lc_fs (net_ctx ?d)))"
    using net_path(2) net_numbered [of 3] by (simp_all add: net_ctx_def net_log_def net_fs_def MAX_LOGFILES_def net_path)
  have f: "fl_name net_log = lit ''dw/net.log''" "fl_index net_log = 3" by (simp_all add: net_log_def net_path)
  have big: "\<not> int (length (?d @ [65])) < LOGFILE_MAXSIZE" by (simp add: LOGFILE_MAXSIZE_def)
  from write_log_rotates [OF m(1) l m(2-4), of "[65]"] show ?thesis
    unfolding f if_not_P [OF big] by (auto simp: MAXLOGS_FOR_ONE_def)
qed

text \<open>
  Opening a log for a program and a group that has none yet: the file is opened at the end of the
  text it already holds, or created empty, and asking again yields the same object.
\<close>

theorem open_logfile_opens:
  assumes "pg_hash pro grp = Some key" and "find_log ctx pro grp (lc_heads ctx key) = Some None" and "fs_ok (lc_fs ctx)"
    and "pro \<in> set (f_dirs (lc_fs ctx))" and "lc_num ctx + 100 < MAX_LOGFILES" and "length (log_path pro grp) \<le> 124"
    and "log_path pro grp \<notin> set (f_dirs (lc_fs ctx))" and "\<And>i. numbered (log_path pro grp) i \<notin> set (f_dirs (lc_fs ctx))"
  shows "\<exists>ctx' f. open_logfile (True, True) pro grp ctx = Some (Some (lc_new ctx), ctx') \<and> lc_mem ctx' (lc_new ctx) = Some f \<and> fl_name f = log_path pro grp
    \<and> logging ctx' f (case file_text (lc_fs ctx) (log_path pro grp) of None \<Rightarrow> [] | Some d \<Rightarrow> d)
    \<and> open_logfile al pro grp ctx' = Some (Some (lc_new ctx), ctx')"
  using assms by (rule open_logfile_ok)

lemma net_start:
  obtains key where "pg_hash (lit ''dw'') (lit ''net'') = Some key" "find_log (net_ctx d) (lit ''dw'') (lit ''net'') (lc_heads (net_ctx d) key) = Some None"
  using pg_hash_total [of "lit ''dw''" "lit ''net''"] by (auto simp: net_ctx_def lit_def)

theorem open_logfile_opens_witness:
  "\<exists>ctx' f. open_logfile (True, True) (lit ''dw'') (lit ''net'') (net_ctx [65]) = Some (Some 1, ctx') \<and> lc_mem ctx' 1 = Some f \<and> logging ctx' f [65]"
proof -
  obtain key where k: "pg_hash (lit ''dw'') (lit ''net'') = Some key" "find_log (net_ctx [65]) (lit ''dw'') (lit ''net'') (lc_heads (net_ctx [65]) key) = Some None"
    by (rule net_start)
  have p: "fs_ok (lc_fs (net_ctx [65]))" "lit ''dw'' \<in> set (f_dirs (lc_fs (net_ctx [65])))" "lc_num (net_ctx [65]) + 100 < MAX_LOGFILES"
    "length (log_path (lit ''dw'') (lit ''net'')) \<le> 124" "log_path (lit ''dw'') (lit ''net'') \<notin> set (f_dirs (lc_fs (net_ctx [65])))"
    "\<And>i. numbered (log_path (lit ''dw'') (lit ''net'')) i \<notin> set (f_dirs (lc_fs (net_ctx [65])))"
    using net_numbered by (auto simp: net_ctx_def net_fs_def fs_ok_def MAX_LOGFILES_def net_path) (simp_all add: lit_def)
  have new: "lc_new (net_ctx [65]) = 1" "file_text (lc_fs (net_ctx [65])) (log_path (lit ''dw'') (lit ''net'')) = Some [65]"
    by (simp_all add: net_ctx_def net_fs_def file_text_def)
  from open_logfile_opens [OF k p, of "(True, True)"] show ?thesis unfolding new option.case by blast
qed

text \<open>
  When a log cannot be opened its object stays in the table with descriptor 0. The request
  fails once; the next one is answered with that object, and the log goes to whatever is
  open as descriptor 0.
\<close>

theorem failed_log_is_reused:
  assumes "pg_hash pro grp = Some key" and "find_log ctx pro grp (lc_heads ctx key) = Some None" and "f_ok (lc_fs ctx) = [True, False]"
    and "pro \<in> set (f_dirs (lc_fs ctx))" and "lc_num ctx + 100 < MAX_LOGFILES" and "\<not> on_disk (lc_fs ctx) (numbered (log_path pro grp) 0)"
  shows "\<exists>ctx' f. open_logfile (True, True) pro grp ctx = Some (None, ctx') \<and> lc_mem ctx' (lc_new ctx) = Some f \<and> fl_fd f = 0
    \<and> open_logfile al pro grp ctx' = Some (Some (lc_new ctx), ctx')"
  using assms by (rule failed_log_ok)

theorem failed_log_is_reused_witness:
  "\<exists>ctx' f. open_logfile (True, True) (lit ''dw'') (lit ''net'') (net_ctx []\<lparr>lc_fs := (net_fs [])\<lparr>f_ok := [True, False]\<rparr>\<rparr>) = Some (None, ctx')
    \<and> lc_mem ctx' 1 = Some f \<and> fl_fd f = 0 \<and> open_logfile (True, True) (lit ''dw'') (lit ''net'') ctx' = Some (Some 1, ctx')"
proof -
  let ?ctx = "net_ctx []\<lparr>lc_fs := (net_fs [])\<lparr>f_ok := [True, False]\<rparr>\<rparr>"
  obtain key where k: "pg_hash (lit ''dw'') (lit ''net'') = Some key" "find_log (net_ctx []) (lit ''dw'') (lit ''net'') (lc_heads (net_ctx []) key) = Some None"
    by (rule net_start)
  have k2: "find_log ?ctx (lit ''dw'') (lit ''net'') (lc_heads ?ctx key) = Some None" by (simp add: net_ctx_def)
  have n0: "numbered (lit ''dw/net.log'') 0 \<noteq> lit ''dw/net.log''" by (rule numbered_new(1)) (simp_all add: lit_def)
  have p: "f_ok (lc_fs ?ctx) = [True, False]" "lit ''dw'' \<in> set (f_dirs (lc_fs ?ctx))" "lc_num ?ctx + 100 < MAX_LOGFILES"
    "\<not> on_disk (lc_fs ?ctx) (numbered (log_path (lit ''dw'') (lit ''net'')) 0)" "lc_new ?ctx = 1"
    using n0 net_numbered [of 0] by (simp_all add: net_ctx_def net_fs_def MAX_LOGFILES_def on_disk_def net_path)
  from failed_log_is_reused [OF k(1) k2 p(1-4), of "(True, True)"] show ?thesis unfolding p(5) by blast
qed

text \<open>
  C34. The cleaning that starts at 512 log files picks the log with the most files, looks for its old
  files from number 1 on, two behind the next number, and does not stop until it finds one. Where no
  log has an old file with a number from 1 to 99 (every group has only its current file, or one old
  file with number 0), and at least one counts a file, a log is picked and the search for its old
  file is still running after every number of rounds: the daemon never returns from the next
  rotation or the next log it opens.
\<close>

theorem cleaning_hangs:
  assumes "MAX_LOGFILES \<le> lc_num ctx"
    and "\<forall>c \<in> set (all_objects ctx). lc_mem ctx c \<noteq> None"
    and "\<exists>c \<in> set (all_objects ctx). \<exists>f. lc_mem ctx c = Some f \<and> 0 < fl_num f"
    and "\<forall>c \<in> set (all_objects ctx). \<forall>f. lc_mem ctx c = Some f \<longrightarrow> (\<forall>j \<in> {1..MAXLOGS_FOR_ONE}. \<not> on_disk (lc_fs ctx) (numbered (fl_name f) j))"
  shows "(\<exists>q f. pick ctx (all_objects ctx) 0 None = Some (Some q) \<and> lc_mem ctx q = Some f
      \<and> (\<forall>n. \<exists>i. find_rounds n (lc_fs ctx) (fl_name f) (fl_index f + 1) = Inl i))
    \<and> new_file c ctx = None"
proof
  obtain q where q: "pick ctx (all_objects ctx) 0 None = Some (Some q)" using pick_live [OF assms(2)] assms(3) by blast
  then have "q \<in> set (all_objects ctx)" using pick_from [OF q] by simp
  then obtain f where "lc_mem ctx q = Some f" "\<forall>j \<in> {1..MAXLOGS_FOR_ONE}. \<not> on_disk (lc_fs ctx) (numbered (fl_name f) j)"
    using assms(2,4) by blast
  then show "\<exists>q f. pick ctx (all_objects ctx) 0 None = Some (Some q) \<and> lc_mem ctx q = Some f
      \<and> (\<forall>n. \<exists>i. find_rounds n (lc_fs ctx) (fl_name f) (fl_index f + 1) = Inl i)"
    using q find_rounds_searching by blast
qed (use clean_hangs [OF assms(1,4)] in \<open>simp add: new_file_def\<close>)

theorem cleaning_hangs_witness:
  "\<exists>q f. pick (net_ctx []\<lparr>lc_num := 512, lc_heads := (\<lambda>_. [])(7 := [0])\<rparr>) (all_objects (net_ctx []\<lparr>lc_num := 512, lc_heads := (\<lambda>_. [])(7 := [0])\<rparr>)) 0 None = Some (Some q)
      \<and> lc_mem (net_ctx []) q = Some f \<and> (\<forall>n. \<exists>i. find_rounds n (net_fs []) (fl_name f) (fl_index f + 1) = Inl i)"
proof -
  let ?ctx = "net_ctx []\<lparr>lc_num := 512, lc_heads := (\<lambda>_. [])(7 := [0])\<rparr>"
  have fs: "lc_fs ?ctx = net_fs []" "lc_mem ?ctx = lc_mem (net_ctx [])" by (simp_all add: net_ctx_def)
  have objs: "set (all_objects ?ctx) = {0}" by (auto simp: all_objects_def LOG_HTABLE_SIZE_def LOG_HTABLE_SIZE_INBITS_def)
  have "\<not> on_disk (net_fs []) (numbered (lit ''dw/net.log'') j)" if "j \<in> {1..MAXLOGS_FOR_ONE}" for j
    using numbered_new(1) [of "lit ''dw/net.log''" j] net_numbered [of j] that by (auto simp: on_disk_def net_fs_def net_path) (simp add: lit_def)
  then have free: "\<forall>c \<in> set (all_objects ?ctx). \<forall>f. lc_mem ?ctx c = Some f \<longrightarrow>
      (\<forall>j \<in> {1..MAXLOGS_FOR_ONE}. \<not> on_disk (lc_fs ?ctx) (numbered (fl_name f) j))"
    by (auto simp: net_ctx_def net_log_def net_path)
  have live: "\<forall>c \<in> set (all_objects ?ctx). lc_mem ?ctx c \<noteq> None"
    "\<exists>c \<in> set (all_objects ?ctx). \<exists>f. lc_mem ?ctx c = Some f \<and> 0 < fl_num f"
    unfolding objs by (simp_all add: net_ctx_def net_log_def)
  have "MAX_LOGFILES \<le> lc_num ?ctx" by (simp add: MAX_LOGFILES_def)
  from cleaning_hangs [OF this live free, THEN conjunct1] show ?thesis unfolding fs .
qed

end
