(* ===== verification/LogFilter.thy ===== *)
theory LogFilter
  imports LogHash
begin

text \<open>
  The filters of \<open>src/src/log/logd.c\<close>: what a watcher asks for (\<open>get_pgl\<close>, \<open>alloc_filter\<close>) and
  what it is sent (\<open>filter_log\<close>). The request is read through a function from positions to
  characters; the lists in the hash tables are HOL lists, first element first. \<open>None\<close> is undefined
  behaviour or a loop that does not end.
\<close>

section \<open>Reading a request\<close>

definition LOGFILTER_MAXSTRLEN :: nat where "LOGFILTER_MAXSTRLEN = 64"

definition levelstr :: "byte list list" where
  "levelstr = map lit [''EMERG'', ''ALERT'', ''CRITICAL'', ''ERROR'', ''WARNING'', ''NOTICE'', ''INFO'', ''DEBUG'']"

definition toupper :: "byte \<Rightarrow> byte" where "toupper c = (if 97 \<le> c \<and> c \<le> 122 then c - 32 else c)"

partial_function (option) str_at :: "(nat \<Rightarrow> byte option) \<Rightarrow> nat \<Rightarrow> byte list option" where
  "str_at g p = do { c \<leftarrow> g p; if c = 0 then Some [] else do { s \<leftarrow> str_at g (p + 1); Some (c # s) } }"

text \<open>One loop of \<open>get_pgl\<close>: what it copied, and where it stopped. From the 64th character on it does not advance.\<close>

partial_function (option) take_part :: "(nat \<Rightarrow> byte option) \<Rightarrow> nat \<Rightarrow> nat \<Rightarrow> byte list \<Rightarrow> (byte list \<times> nat) option" where
  "take_part g p len acc = do {
     c \<leftarrow> g p;
     if c = 0 \<or> c = 47 then Some (acc, p)
     else if Suc len < LOGFILTER_MAXSTRLEN then take_part g (p + 1) (Suc len) (acc @ [c])
     else take_part g p (Suc len) acc }"

definition level_index :: "byte list \<Rightarrow> nat" where
  "level_index s = length (takeWhile (\<lambda>l. s \<noteq> l) levelstr)"

text \<open>The level is copied to 16 bytes, but made upper case over the length of the source.\<close>

definition get_pgl :: "(nat \<Rightarrow> byte option) \<Rightarrow> nat \<Rightarrow> (byte list \<times> byte list \<times> int) option" where
  "get_pgl g src = do {
     (pro, src) \<leftarrow> take_part g src 0 [];
     (grp, src) \<leftarrow> take_part g (src + 1) 0 [];
     s \<leftarrow> str_at g (src + 1);
     if 16 < length s then None
     else Some (pro, grp, int (level_index (map toupper (take 15 s)))) }"

text \<open>\<open>strtol(p, NULL, 10)\<close>.\<close>

definition c_strtol10 :: "(nat \<Rightarrow> byte option) \<Rightarrow> nat \<Rightarrow> int option" where
  "c_strtol10 g p = do {
     q \<leftarrow> skip_isspace g p;
     c \<leftarrow> g q;
     (v, e) \<leftarrow> digits g 10 (if c = 45 \<or> c = 43 then q + 1 else q) 0;
     Some (if c = 45 then max (- (2 ^ 63)) (- int v) else min (2 ^ 63 - 1) (int v)) }"

section \<open>Filters\<close>

record filter_str =
  fs_pro :: "byte list"
  fs_group :: "byte list"
  fs_level :: int

record log_filter =
  lf_all :: int
  lf_exhead :: "nat \<Rightarrow> filter_str list"
  lf_inhead :: "nat \<Rightarrow> filter_str list"

definition covers :: "filter_str \<Rightarrow> byte list \<Rightarrow> int \<Rightarrow> bool" where
  "covers pos grp level \<longleftrightarrow> (fs_group pos = [] \<or> grp = fs_group pos) \<and> level \<le> fs_level pos"

definition filter_log :: "log_filter \<Rightarrow> byte list \<Rightarrow> byte list \<Rightarrow> int \<Rightarrow> int option" where
  "filter_log lf pro grp level = do {
     key \<leftarrow> hashfilter (cs_at pro) 0;
     Some (if lf_all lf \<noteq> 0 then
             (case List.find (\<lambda>pos. pro = fs_pro pos) (lf_exhead lf key) of
                Some pos \<Rightarrow> if covers pos grp level then - 1 else 0
              | None \<Rightarrow> 0)
           else
             (case List.find (\<lambda>pos. pro = fs_pro pos) (lf_inhead lf key) of
                Some pos \<Rightarrow> if covers pos grp level then 0 else - 1
              | None \<Rightarrow> - 1)) }"

text \<open>The body of both the \<open>ex:\<close> and the \<open>in:\<close> branch; the inner \<open>None\<close> is the null pointer returned.\<close>

definition add_rule :: "(nat \<Rightarrow> byte option) \<Rightarrow> nat \<Rightarrow> bool list \<Rightarrow> log_filter \<Rightarrow> (bool list \<times> log_filter) option option" where
  "add_rule g str mal lf =
     (let (ok, mal) = malloc mal in
      if \<not> ok then Some None
      else do {
        (pro, grp, level) \<leftarrow> get_pgl g str;
        key \<leftarrow> hashfilter g str;
        let fstr = \<lparr>fs_pro = pro, fs_group = grp, fs_level = level\<rparr>;
        Some (Some (mal, lf\<lparr>lf_exhead := (lf_exhead lf)(key := fstr # lf_exhead lf key)\<rparr>)) })"

definition one_command :: "(nat \<Rightarrow> byte option) \<Rightarrow> nat \<Rightarrow> byte list \<Rightarrow> bool list \<Rightarrow> log_filter \<Rightarrow> (bool list \<times> log_filter) option option" where
  "one_command g command s mal lf =
     (if 4 < length s \<and> take 4 s = lit ''all='' then do {
        v \<leftarrow> c_strtol10 g (command + 4);
        Some (Some (mal, lf\<lparr>lf_all := sint (word_of_int v :: u32)\<rparr>)) }
      else if 2 < length s \<and> take 3 s = lit ''ex:'' then add_rule g (command + 3) mal lf
      else if 2 < length s \<and> take 3 s = lit ''in:'' then add_rule g (command + 3) mal lf
      else Some (Some (mal, lf)))"

function alloc_loop :: "(nat \<Rightarrow> byte option) \<Rightarrow> nat \<Rightarrow> nat \<Rightarrow> bool list \<Rightarrow> log_filter \<Rightarrow> log_filter option option" where
  "alloc_loop g command endp mal lf =
     (if endp \<le> command then Some (Some lf)
      else do {
        s \<leftarrow> str_at g command;
        r \<leftarrow> one_command g command s mal lf;
        case r of None \<Rightarrow> Some None | Some (mal, lf) \<Rightarrow> alloc_loop g (command + length s + 1) endp mal lf })"
  by pat_completeness auto
termination
  by (relation "measure (\<lambda>(g, p, e, mal, lf). e - p)") auto

declare alloc_loop.simps [simp del]

definition alloc_filter :: "(nat \<Rightarrow> byte option) \<Rightarrow> nat \<Rightarrow> int \<Rightarrow> bool list \<Rightarrow> log_filter option option" where
  "alloc_filter g command len mal =
     (let (a, mal) = malloc mal; (b, mal) = malloc mal; (c, mal) = malloc mal in
      if \<not> a \<or> \<not> b \<or> \<not> c then Some None
      else alloc_loop g command (nat (int command + len)) mal \<lparr>lf_all = 0, lf_exhead = (\<lambda>_. []), lf_inhead = (\<lambda>_. [])\<rparr>)"

section \<open>Requests as texts\<close>

datatype watch_cmd = All nat | Ex "byte list" "byte list" nat | In "byte list" "byte list" nat

definition rule_text :: "byte list \<Rightarrow> byte list \<Rightarrow> nat \<Rightarrow> byte list" where
  "rule_text pro grp l = pro @ [47] @ grp @ [47] @ levelstr ! l"

fun cmd_text :: "watch_cmd \<Rightarrow> byte list" where
  "cmd_text (All n) = lit ''all='' @ dec n"
| "cmd_text (Ex pro grp l) = lit ''ex:'' @ rule_text pro grp l"
| "cmd_text (In pro grp l) = lit ''in:'' @ rule_text pro grp l"

definition name_ok :: "byte list \<Rightarrow> bool" where "name_ok s \<longleftrightarrow> 0 \<notin> set s \<and> 47 \<notin> set s \<and> length s < LOGFILTER_MAXSTRLEN"

fun cmd_ok :: "watch_cmd \<Rightarrow> bool" where
  "cmd_ok (All n) \<longleftrightarrow> n < 2 ^ 31"
| "cmd_ok (Ex pro grp l) \<longleftrightarrow> name_ok pro \<and> 2 \<le> length pro \<and> name_ok grp \<and> l < 8"
| "cmd_ok (In pro grp l) \<longleftrightarrow> name_ok pro \<and> 2 \<le> length pro \<and> name_ok grp \<and> l < 8"

definition request_text :: "watch_cmd list \<Rightarrow> byte list" where
  "request_text cs = concat (map (\<lambda>c. cmd_text c @ [0]) cs)"

text \<open>What a request means to the code: the last \<open>all=\<close>, and the rules, latest first, whichever kind they are.\<close>

fun all_of :: "watch_cmd list \<Rightarrow> int \<Rightarrow> int" where
  "all_of [] a = a"
| "all_of (All n # cs) a = all_of cs (int n)"
| "all_of (c # cs) a = all_of cs a"

fun rule_of :: "watch_cmd \<Rightarrow> filter_str list" where
  "rule_of (All n) = []"
| "rule_of (Ex pro grp l) = [\<lparr>fs_pro = pro, fs_group = grp, fs_level = int l\<rparr>]"
| "rule_of (In pro grp l) = [\<lparr>fs_pro = pro, fs_group = grp, fs_level = int l\<rparr>]"

definition rules_of :: "watch_cmd list \<Rightarrow> filter_str list" where
  "rules_of cs = rev (concat (map rule_of cs))"

definition verdict :: "watch_cmd list \<Rightarrow> byte list \<Rightarrow> byte list \<Rightarrow> int \<Rightarrow> int" where
  "verdict cs pro grp level =
     (if all_of cs 0 = 0 then - 1
      else case List.find (\<lambda>r. pro = fs_pro r) (rules_of cs) of
        Some r \<Rightarrow> if covers r grp level then - 1 else 0
      | None \<Rightarrow> 0)"

section \<open>Reading texts\<close>

lemma str_at_text: "text_at g p (s @ [0]) \<Longrightarrow> 0 \<notin> set s \<Longrightarrow> str_at g p = Some s"
proof (induction s arbitrary: p)
  case Nil
  then show ?case by (simp add: str_at.simps [of g p])
next
  case (Cons c s)
  then show ?case by (subst str_at.simps) simp
qed

lemma take_part_text:
  "text_at g p (s @ [c]) \<Longrightarrow> c = 0 \<or> c = 47 \<Longrightarrow> 0 \<notin> set s \<Longrightarrow> 47 \<notin> set s \<Longrightarrow> len + length s < LOGFILTER_MAXSTRLEN
    \<Longrightarrow> take_part g p len acc = Some (acc @ s, p + length s)"
proof (induction s arbitrary: p len acc)
  case Nil
  then show ?case by (subst take_part.simps) auto
next
  case (Cons d s)
  then show ?case by (subst take_part.simps) simp
qed

lemma take_part_stuck:
  assumes "63 \<le> len" and "g p = Some c" and "c \<noteq> 0" and "c \<noteq> 47"
  shows "take_part g p len acc = None"
proof -
  have "\<not> (63 \<le> len \<and> g p = Some c)" if h: "take_part g p len acc = Some r" for r
  proof (rule take_part.raw_induct [where P = "\<lambda>g p len acc r. \<not> (63 \<le> len \<and> g p = Some c)", OF _ h])
    fix f g p len acc and r :: "byte list \<times> nat"
    assume ih: "\<And>g p len acc r. f g p len acc = Some r \<Longrightarrow> \<not> (63 \<le> len \<and> g p = Some c)"
      and run: "do { c \<leftarrow> g p; if c = 0 \<or> c = 47 then Some (acc, p) else if Suc len < LOGFILTER_MAXSTRLEN then f g (p + 1) (Suc len) (acc @ [c])
        else f g p (Suc len) acc } = Some r"
    show "\<not> (63 \<le> len \<and> g p = Some c)"
    proof
      assume h: "63 \<le> len \<and> g p = Some c"
      then have "f g p (Suc len) acc = Some r" using run assms(3,4) by (simp add: LOGFILTER_MAXSTRLEN_def)
      from ih [OF this] h show False by simp
    qed
  qed
  then show ?thesis using assms(1,2) by (cases "take_part g p len acc") auto
qed

lemma take_part_long:
  "text_at g p s \<Longrightarrow> 0 \<notin> set s \<Longrightarrow> 47 \<notin> set s \<Longrightarrow> LOGFILTER_MAXSTRLEN \<le> len + length s \<Longrightarrow> s \<noteq> [] \<Longrightarrow> take_part g p len acc = None"
proof (induction s arbitrary: p len acc)
  case Nil
  then show ?case by simp
next
  case (Cons c s)
  show ?case
  proof (cases "Suc len < LOGFILTER_MAXSTRLEN")
    case True
    then have "s \<noteq> []" using Cons.prems(4) by auto
    then have "take_part g (p + 1) (Suc len) (acc @ [c]) = None" using Cons by auto
    then show ?thesis using True Cons.prems by (subst take_part.simps) auto
  next
    case False
    then show ?thesis using take_part_stuck [of len g p c acc] Cons.prems by (auto simp: LOGFILTER_MAXSTRLEN_def)
  qed
qed

lemma levels:
  assumes "l < 8"
  shows "0 \<notin> set (levelstr ! l)" "length (levelstr ! l) < 15" "level_index (map toupper (levelstr ! l)) = l"
proof -
  have "list_all (\<lambda>l. 0 \<notin> set (levelstr ! l) \<and> length (levelstr ! l) < 15 \<and> level_index (map toupper (levelstr ! l)) = l) [0..<8]" by code_simp
  then show "0 \<notin> set (levelstr ! l)" "length (levelstr ! l) < 15" "level_index (map toupper (levelstr ! l)) = l"
    using assms by (auto simp: list_all_iff)
qed

lemma get_pgl_text:
  assumes "text_at g p (rule_text pro grp l @ [0])" and "name_ok pro" and "name_ok grp" and "l < 8"
  shows "get_pgl g p = Some (pro, grp, int l)"
proof -
  have t: "text_at g p (pro @ [47])" "text_at g (p + length pro + 1) (grp @ [47])" "text_at g (p + length pro + 1 + length grp + 1) (levelstr ! l @ [0])"
    using assms(1) by (simp_all add: rule_text_def add.assoc)
  have "take_part g p 0 [] = Some (pro, p + length pro)" using take_part_text [OF t(1)] assms(2) by (simp add: name_ok_def)
  moreover have "take_part g (p + length pro + 1) 0 [] = Some (grp, p + length pro + 1 + length grp)"
    using take_part_text [OF t(2)] assms(3) by (simp add: name_ok_def)
  moreover have "str_at g (p + length pro + 1 + length grp + 1) = Some (levelstr ! l)" by (rule str_at_text [OF t(3) levels(1) [OF assms(4)]])
  moreover have "take 15 (levelstr ! l) = levelstr ! l" using levels(2) [OF assms(4)] by simp
  ultimately show ?thesis using levels(2,3) [OF assms(4)] by (simp add: get_pgl_def)
qed


lemma sint32: "0 \<le> i \<Longrightarrow> i < 2 ^ 31 \<Longrightarrow> sint (word_of_int i :: u32) = i"
  by (simp add: sint_sbintrunc' signed_take_bit_int_eq_self)

lemma strtol10_dec:
  assumes "text_at g p (dec n @ [0])" and "n < 2 ^ 31"
  shows "c_strtol10 g p = Some (int n)"
proof -
  obtain d ds where d: "dec n = d # ds" "isdigit d" using dec_facts [of n] by (cases "dec n") auto
  have "\<not> isdigit 0" by code_simp
  then have run: "digits g 10 p 0 = Some (n, p + length (dec n))" using digits_text [OF _ assms(1)] dec_facts [of n] by simp
  have gp: "g p = Some d" using assms(1) d(1) by simp
  have sk: "skip_isspace g p = Some p" using gp digit_facts(1) [OF d(2)] by (subst skip_isspace.simps) simp
  have "isdigit d \<longrightarrow> d \<noteq> 45 \<and> d \<noteq> 43" by (rule byte_cases) code_simp
  then have "d \<noteq> 45" "d \<noteq> 43" using d(2) by auto
  then show ?thesis using sk gp run assms(2) by (simp add: c_strtol10_def)
qed

section \<open>The filter a request makes\<close>

definition key_of :: "byte list \<Rightarrow> nat" where "key_of pro = the (hashfilter (cs_at pro) 0)"

lemma hashfilter_total: "g p = Some a \<Longrightarrow> g (p + 1) = Some b \<Longrightarrow> \<exists>k. hashfilter g p = Some k"
  using hash_32_eq [of LOG_HTABLE_SIZE_INBITS "pack4 a b a b"] by (auto simp: hashfilter_def LOG_HTABLE_SIZE_INBITS_def)

lemma key_of_name:
  assumes "2 \<le> length pro"
  shows "hashfilter (cs_at pro) 0 = Some (key_of pro)" "text_at g p pro \<Longrightarrow> hashfilter g p = Some (key_of pro)"
proof -
  have ne: "0 < length pro" "1 < length pro" using assms by auto
  then have c: "cs_at pro 0 = Some (pro ! 0)" "cs_at pro (0 + 1) = Some (pro ! 1)" by (simp_all only: cs_at_def if_True add_0)
  from hashfilter_total [OF c] show k: "hashfilter (cs_at pro) 0 = Some (key_of pro)" by (auto simp: key_of_def)
  assume t: "text_at g p pro"
  then have all: "\<forall>i < length pro. g (p + i) = Some (pro ! i)" by (simp only: text_at_def)
  from all [rule_format, OF ne(1)] all [rule_format, OF ne(2)] have "g p = Some (pro ! 0)" "g (p + 1) = Some (pro ! 1)" by (simp_all only: add_0_right)
  then have "hashfilter g p = hashfilter (cs_at pro) 0" using c by (simp add: hashfilter_def)
  then show "hashfilter g p = Some (key_of pro)" using k by simp
qed

definition put_rule :: "filter_str \<Rightarrow> log_filter \<Rightarrow> log_filter" where
  "put_rule r lf = lf\<lparr>lf_exhead := (lf_exhead lf)(key_of (fs_pro r) := r # lf_exhead lf (key_of (fs_pro r)))\<rparr>"

fun add_cmd :: "watch_cmd \<Rightarrow> log_filter \<Rightarrow> log_filter" where
  "add_cmd (All n) lf = lf\<lparr>lf_all := int n\<rparr>"
| "add_cmd (Ex pro grp l) lf = put_rule \<lparr>fs_pro = pro, fs_group = grp, fs_level = int l\<rparr> lf"
| "add_cmd (In pro grp l) lf = put_rule \<lparr>fs_pro = pro, fs_group = grp, fs_level = int l\<rparr> lf"

lemma add_rule_text:
  assumes "text_at g p (rule_text pro grp l @ [0])" and "name_ok pro" and "name_ok grp" and "l < 8" and "2 \<le> length pro"
  shows "add_rule g p [] lf = Some (Some ([], put_rule \<lparr>fs_pro = pro, fs_group = grp, fs_level = int l\<rparr> lf))"
proof -
  have "text_at g p pro" using assms(1) by (simp add: rule_text_def)
  then have "hashfilter g p = Some (key_of pro)" by (rule key_of_name(2) [OF assms(5)])
  then show ?thesis using get_pgl_text [OF assms(1-4)] by (simp add: add_rule_def put_rule_def)
qed

lemma lits: "lit ''all='' = [97, 108, 108, 61]" "lit ''ex:'' = [101, 120, 58]" "lit ''in:'' = [105, 110, 58]"
  by (simp_all add: lit_def)

lemma dec_no_zero: "0 \<notin> set (dec n)"
  using dec_facts [of n] digit_facts(2) by (auto simp: list_all_iff)

lemma cmd_text_no_zero: "cmd_ok c \<Longrightarrow> 0 \<notin> set (cmd_text c)"
  using levels(1) dec_no_zero by (cases c) (auto simp: lits rule_text_def name_ok_def)

lemma one_command_text:
  assumes "text_at g p (cmd_text c @ [0])" and "cmd_ok c"
  shows "one_command g p (cmd_text c) [] lf = Some (Some ([], add_cmd c lf))"
proof (cases c)
  case (All n)
  have t: "text_at g (p + 4) (dec n @ [0])" using assms(1) All by (simp add: lits eval_nat_numeral)
  have "dec n \<noteq> []" using dec_facts by blast
  then have "4 < length (cmd_text c) \<and> take 4 (cmd_text c) = lit ''all=''" using All by (simp add: lits)
  moreover have "c_strtol10 g (p + 4) = Some (int n)" using strtol10_dec [OF t] assms(2) All by simp
  moreover have "sint (word_of_int (int n) :: u32) = int n" by (rule sint32) (use assms(2) All in simp_all)
  ultimately show ?thesis using All by (simp add: one_command_def)
next
  case (Ex pro grp l)
  have t: "text_at g (p + 3) (rule_text pro grp l @ [0])" using assms(1) Ex by (simp add: lits eval_nat_numeral)
  have "take 4 (cmd_text c) \<noteq> lit ''all=''" "2 < length (cmd_text c)" "take 3 (cmd_text c) = lit ''ex:''" using Ex by (simp_all add: lits)
  then show ?thesis using add_rule_text [OF t] assms(2) Ex by (simp add: one_command_def)
next
  case (In pro grp l)
  have t: "text_at g (p + 3) (rule_text pro grp l @ [0])" using assms(1) In by (simp add: lits eval_nat_numeral)
  have "take 4 (cmd_text c) \<noteq> lit ''all=''" "2 < length (cmd_text c)" "take 3 (cmd_text c) \<noteq> lit ''ex:''" "take 3 (cmd_text c) = lit ''in:''" using In by (simp_all add: lits)
  then show ?thesis using add_rule_text [OF t] assms(2) In by (simp add: one_command_def)
qed

lemma alloc_loop_text:
  "text_at g p (request_text cs) \<Longrightarrow> \<forall>c \<in> set cs. cmd_ok c \<Longrightarrow> alloc_loop g p (p + length (request_text cs)) [] lf = Some (Some (fold add_cmd cs lf))"
proof (induction cs arbitrary: p lf)
  case Nil
  then show ?case by (simp add: request_text_def alloc_loop.simps)
next
  case (Cons c cs)
  have t: "text_at g p (cmd_text c @ [0])" "text_at g (p + length (cmd_text c) + 1) (request_text cs)"
    using Cons.prems(1) by (simp_all add: request_text_def add.assoc)
  have e: "p + length (request_text (c # cs)) = p + length (cmd_text c) + 1 + length (request_text cs)" by (simp add: request_text_def)
  have s: "str_at g p = Some (cmd_text c)" by (rule str_at_text [OF t(1)]) (use Cons.prems(2) cmd_text_no_zero in simp)
  have o: "one_command g p (cmd_text c) [] lf = Some (Some ([], add_cmd c lf))" by (rule one_command_text [OF t(1)]) (use Cons.prems(2) in simp)
  have "alloc_loop g p (p + length (request_text (c # cs))) [] lf = alloc_loop g (p + length (cmd_text c) + 1) (p + length (request_text (c # cs))) [] (add_cmd c lf)"
    using s o e by (subst alloc_loop.simps) simp
  also have "\<dots> = Some (Some (fold add_cmd cs (add_cmd c lf)))" unfolding e using Cons.IH [OF t(2)] Cons.prems(2) by simp
  finally show ?case by simp
qed

lemma fold_add_cmd:
  "lf_all (fold add_cmd cs lf) = all_of cs (lf_all lf)"
  "lf_inhead (fold add_cmd cs lf) = lf_inhead lf"
  "lf_exhead (fold add_cmd cs lf) k = filter (\<lambda>r. key_of (fs_pro r) = k) (rules_of cs) @ lf_exhead lf k"
proof (induction cs arbitrary: lf)
  case Nil
  { case 1 show ?case by simp } { case 2 show ?case by simp } { case 3 show ?case by (simp add: rules_of_def) }
next
  case (Cons c cs)
  { case 1 show ?case using Cons(1) by (cases c) (simp_all add: put_rule_def) }
  { case 2 show ?case using Cons(2) by (cases c) (simp_all add: put_rule_def) }
  { case 3 show ?case using Cons(3) by (cases c) (auto simp: put_rule_def rules_of_def) }
qed

lemma find_in_bucket: "List.find (\<lambda>r. pro = fs_pro r) (filter (\<lambda>r. key_of (fs_pro r) = key_of pro) rs) = List.find (\<lambda>r. pro = fs_pro r) rs"
  by (induction rs) auto

lemma alloc_filter_text:
  assumes "text_at g p (request_text cs)" and "\<forall>c \<in> set cs. cmd_ok c"
  shows "\<exists>lf. alloc_filter g p (int (length (request_text cs))) [] = Some (Some lf)
    \<and> (\<forall>pro grp level. 2 \<le> length pro \<longrightarrow> filter_log lf pro grp level = Some (verdict cs pro grp level))"
proof -
  let ?z = "\<lparr>lf_all = 0, lf_exhead = (\<lambda>_. []), lf_inhead = (\<lambda>_. [])\<rparr>" and ?n = "length (request_text cs)"
  let ?lf = "fold add_cmd cs ?z"
  have "nat (int p + int ?n) = p + ?n" by simp
  then have "alloc_filter g p (int ?n) [] = Some (Some ?lf)" using alloc_loop_text [OF assms, of ?z] by (simp add: alloc_filter_def)
  moreover have "filter_log ?lf pro grp level = Some (verdict cs pro grp level)" if "2 \<le> length pro" for pro grp level
    using key_of_name(1) [OF that] by (simp add: filter_log_def fold_add_cmd verdict_def find_in_bucket)
  ultimately show ?thesis by blast
qed

section \<open>Properties\<close>

text \<open>
  C19. A watcher's request and the filter made of it: for every program whose name has at least two
  characters, a message passes exactly when \<open>all\<close> was set and the latest rule that names the
  program does not cover its group and level. The \<open>in:\<close> rules are put with the \<open>ex:\<close> rules, so
  they exclude what they should include.
\<close>

theorem watch_request_filters:
  assumes "text_at g p (request_text cs)" and "\<forall>c \<in> set cs. cmd_ok c"
  shows "\<exists>lf. alloc_filter g p (int (length (request_text cs))) [] = Some (Some lf)
    \<and> (\<forall>pro grp level. 2 \<le> length pro \<longrightarrow> filter_log lf pro grp level = Some (verdict cs pro grp level))"
  using assms by (rule alloc_filter_text)

definition demo_request :: "watch_cmd list" where
  "demo_request = [All 1, In (lit ''dw'') (lit ''net'') 6]"

lemma demo_request_ok: "\<forall>c \<in> set demo_request. cmd_ok c"
  by (simp add: demo_request_def lit_def name_ok_def LOGFILTER_MAXSTRLEN_def)

lemma text_at_rd0: "text_at (rd s) 0 s"
  using text_at_rd [of "[]" s "[]"] by simp

theorem watch_request_filters_witness:
  "\<exists>lf. alloc_filter (rd (request_text demo_request)) 0 (int (length (request_text demo_request))) [] = Some (Some lf)
    \<and> filter_log lf (lit ''dw'') (lit ''net'') 3 = Some (- 1) \<and> filter_log lf (lit ''dw'') (lit ''gui'') 3 = Some 0"
proof -
  obtain lf where lf: "alloc_filter (rd (request_text demo_request)) 0 (int (length (request_text demo_request))) [] = Some (Some lf)"
    "\<forall>pro grp level. 2 \<le> length pro \<longrightarrow> filter_log lf pro grp level = Some (verdict demo_request pro grp level)"
    using watch_request_filters [OF text_at_rd0 demo_request_ok] by blast
  have "verdict demo_request (lit ''dw'') (lit ''net'') 3 = - 1" "verdict demo_request (lit ''dw'') (lit ''gui'') 3 = 0"
    by (simp_all add: verdict_def demo_request_def rules_of_def covers_def lit_def)
  then show ?thesis using lf by (simp add: lit_def)
qed

text \<open>
  A request whose program name has 64 characters or more never returns from \<open>get_pgl\<close>: the loop
  stops advancing when the name is full, and with it stops the daemon.
\<close>

theorem long_program_name_hangs:
  assumes "text_at g (command + 3) s" and "0 \<notin> set s" and "47 \<notin> set s" and "LOGFILTER_MAXSTRLEN \<le> length s" and "text_at g command (lit ''ex:'')"
    and "text_at g (command + 3 + length s) [0]" and "3 < len"
  shows "alloc_filter g command len [] = None"
proof -
  have l: "length (lit ''ex:'') = 3" by (simp add: lits)
  have "text_at g command (lit ''ex:'' @ s @ [0])" using assms(1,5,6) by (simp only: text_at_append l simp_thms)
  then have st: "str_at g command = Some (lit ''ex:'' @ s)" using str_at_text [of g command "lit ''ex:'' @ s"] assms(2) by (simp add: lits)
  have "s \<noteq> []" using assms(4) by (auto simp: LOGFILTER_MAXSTRLEN_def)
  then have "take_part g (command + 3) 0 [] = None" using take_part_long [OF assms(1-3), of 0] assms(4) by simp
  then have "add_rule g (command + 3) [] lf = None" for lf by (simp add: add_rule_def get_pgl_def)
  then have "one_command g command (lit ''ex:'' @ s) [] lf = None" for lf by (simp add: one_command_def lits)
  then have "alloc_loop g command e [] lf = None" if "command < e" for e lf
    using st that by (subst alloc_loop.simps) simp
  moreover have "command < nat (int command + len)" using assms(7) by linarith
  ultimately show ?thesis by (simp add: alloc_filter_def)
qed

theorem long_program_name_hangs_witness:
  "alloc_filter (rd (lit ''ex:'' @ replicate 64 120 @ [0])) 0 68 [] = None"
proof (rule long_program_name_hangs)
  show "text_at (rd (lit ''ex:'' @ replicate 64 120 @ [0])) (0 + 3) (replicate 64 120)"
    using text_at_rd [of "lit ''ex:''" "replicate 64 120" "[0]"] by (simp add: lits numeral_3_eq_3)
  show "text_at (rd (lit ''ex:'' @ replicate 64 120 @ [0])) 0 (lit ''ex:'')"
    using text_at_rd [of "[]" "lit ''ex:''" "replicate 64 120 @ [0]"] by (simp add: lits)
  show "text_at (rd (lit ''ex:'' @ replicate 64 120 @ [0])) (0 + 3 + length (replicate 64 (120 :: byte))) [0]"
    using text_at_rd [of "lit ''ex:'' @ replicate 64 120" "[0]" "[]"] by (simp add: lits)
qed (simp_all add: LOGFILTER_MAXSTRLEN_def)

end
