(* ===== verification/LogDaemon.thy ===== *)
theory LogDaemon
  imports LogFile LogFilter
begin

text \<open>
  The rest of \<open>src/src/log/logd.c\<close>: the daemon that receives log packets and watch requests as
  datagrams, writes the log files and passes lines on to the watchers. Clients are numbers; the
  hash table and the list of watchers hold them. What \<open>recvfrom\<close> delivers and which \<open>sendto\<close> and
  \<open>malloc\<close> calls fail are arguments or part of the state. \<open>None\<close> is undefined behaviour or a loop
  that does not end. The watcher's side, which builds a request from its arguments, is here, too.
\<close>

section \<open>State\<close>

definition RCLOG_MAX_PACKET_SIZE :: nat where "RCLOG_MAX_PACKET_SIZE = 1024 + 512"

definition CLIENT_DIR :: "byte list" where "CLIENT_DIR = lit ''/tmp/logd_client/''"

record log_client =
  lk_file :: "nat option"
  lk_filter :: "log_filter option"
  lk_from :: "byte list"

record log_server =
  ls_heads :: "nat \<Rightarrow> nat list"
  ls_uhead :: "nat list"
  ls_mem :: "nat \<Rightarrow> log_client option"
  ls_new :: nat
  ls_files :: logfile_context
  ls_sent :: "(byte list \<times> byte list) list"
  ls_sends :: "write_ev list"

text \<open>What the allocations for one packet do: the client, the log object and its strings, the filter.\<close>

record packet_env =
  pe_client :: bool
  pe_log :: "bool \<times> bool"
  pe_filter :: "bool list"

section \<open>Operations\<close>

definition close_client :: "nat \<Rightarrow> log_server \<Rightarrow> log_server option" where
  "close_client c s = do {
     cl \<leftarrow> ls_mem s c;
     Some (s\<lparr>ls_heads := (\<lambda>k. remove1 c (ls_heads s k)), ls_uhead := remove1 c (ls_uhead s), ls_mem := (ls_mem s)(c := None)\<rparr>) }"

text \<open>Both names go to arrays of 64 characters; the inner \<open>None\<close> is the result -1.\<close>

definition parse_addr :: "byte list \<Rightarrow> (byte list \<times> byte list) option option" where
  "parse_addr path =
     (if length path < length CLIENT_DIR then Some None
      else
        let ptr = drop (length CLIENT_DIR) path;
            program = takeWhile (\<lambda>c. c \<noteq> 47) ptr; ptr = dropWhile (\<lambda>c. c \<noteq> 47) ptr in
        if 64 < length program then None
        else if ptr = [] then Some None
        else if 64 \<le> length program \<or> 64 \<le> length (tl ptr) then None
        else Some (Some (program, tl ptr)))"

fun find_client :: "log_server \<Rightarrow> byte list \<Rightarrow> nat list \<Rightarrow> nat option option" where
  "find_client s path [] = Some None"
| "find_client s path (c # cs) = do {
     cl \<leftarrow> ls_mem s c;
     if lk_from cl = path then Some (Some c) else find_client s path cs }"

text \<open>The loop around \<open>sendto\<close>: the datagrams sent, whether the watcher is to be closed, the outcomes left.\<close>

fun send_out :: "write_ev list \<Rightarrow> byte list \<Rightarrow> byte list list \<times> bool \<times> write_ev list" where
  "send_out ws [] = ([], False, ws)"
| "send_out [] (b # bs) = ([b # bs], False, [])"
| "send_out (Write_error e # ws) (b # bs) =
     (if e = EINTR then send_out ws (b # bs) else if e = EAGAIN then ([], False, ws) else ([], True, ws))"
| "send_out (Wrote n # ws) (b # bs) =
     (let k = min n (length (b # bs)); (ds, gone, ws) = send_out ws (drop k (b # bs)) in (take k (b # bs) # ds, gone, ws))"

definition send_to :: "nat \<Rightarrow> byte list \<Rightarrow> log_server \<Rightarrow> log_server option" where
  "send_to c line s = do {
     cl \<leftarrow> ls_mem s c;
     let (ds, gone, ws) = send_out (ls_sends s) line;
     let s = s\<lparr>ls_sent := ls_sent s @ map (\<lambda>d. (lk_from cl, d)) ds, ls_sends := ws\<rparr>;
     if gone then close_client c s else Some s }"

fun to_watchers :: "nat list \<Rightarrow> byte list \<Rightarrow> byte list \<Rightarrow> int \<Rightarrow> byte list \<Rightarrow> log_server \<Rightarrow> log_server option" where
  "to_watchers [] program grp level line s = Some s"
| "to_watchers (c # cs) program grp level line s = do {
     cl \<leftarrow> ls_mem s c;
     case lk_filter cl of
       None \<Rightarrow> to_watchers cs program grp level line s
     | Some lf \<Rightarrow> do {
         v \<leftarrow> filter_log lf program grp level;
         if v < 0 then to_watchers cs program grp level line s
         else do { s \<leftarrow> send_to c line s; to_watchers cs program grp level line s } } }"

definition le32_of :: "byte list \<Rightarrow> nat \<Rightarrow> int option" where
  "le32_of buf i = do {
     a \<leftarrow> rd buf i; b \<leftarrow> rd buf (i + 1); c \<leftarrow> rd buf (i + 2); d \<leftarrow> rd buf (i + 3);
     Some (sint (ucast a OR push_bit 8 (ucast b) OR push_bit 16 (ucast c) OR push_bit 24 (ucast d) :: u32)) }"

text \<open>Division and remainder of C, which round towards zero.\<close>

definition line_head :: "int \<Rightarrow> byte list \<Rightarrow> byte list \<Rightarrow> byte list \<Rightarrow> byte list" where
  "line_head ms program grp lev =
     (let q = (if ms < 0 then - (- ms div 1000) else ms div 1000) in
      [91] @ fmt_int q @ [46] @ fmt_int (ms - 1000 * q) @ [93, 91] @ program @ [93, 91] @ grp @ [93, 91] @ lev @ [93])"

text \<open>The line made of a log packet, in a buffer of 64 bytes more than a packet.\<close>

definition log_line :: "byte list \<Rightarrow> byte list \<Rightarrow> byte list \<Rightarrow> (int \<times> byte list) option" where
  "log_line program grp buf = do {
     ms \<leftarrow> le32_of buf 4;
     b \<leftarrow> rd buf 3;
     let level = min (unat b) (length levelstr);
     lev \<leftarrow> rd levelstr level;
     let head = line_head ms program grp lev;
     if length buf < 8 then None
     else if RCLOG_MAX_PACKET_SIZE + 64 < length head + (length buf - 8) then None
     else Some (int level, head @ drop 8 buf) }"

definition log_packet_in :: "nat \<Rightarrow> byte list \<Rightarrow> byte list \<Rightarrow> byte list \<Rightarrow> log_server \<Rightarrow> (int \<times> log_server) option" where
  "log_packet_in c program grp buf s = do {
     (level, line) \<leftarrow> log_line program grp buf;
     s \<leftarrow> to_watchers (ls_uhead s) program grp level line s;
     cl \<leftarrow> ls_mem s c;
     file \<leftarrow> lk_file cl;
     (ret, ctx) \<leftarrow> write_log file line (ls_files s);
     let s = s\<lparr>ls_files := ctx\<rparr>;
     s \<leftarrow> (if ret < 0 then close_client c s else Some s);
     Some (0, s) }"

text \<open>The client a packet belongs to, made where there is none: \<open>Inl\<close> is the result of a failed call.\<close>

definition client_of :: "packet_env \<Rightarrow> byte list \<Rightarrow> byte list \<Rightarrow> byte list \<Rightarrow> byte list \<Rightarrow> log_server \<Rightarrow> ((int + nat) \<times> log_server) option" where
  "client_of env path program grp buf s = do {
     key \<leftarrow> pg_hash program grp;
     found \<leftarrow> find_client s path (ls_heads s key);
     kind \<leftarrow> rd buf 2;
     case found of
       Some c \<Rightarrow> Some (Inr c, s)
     | None \<Rightarrow>
         if \<not> pe_client env then Some (Inl (- ENOMEM), s)
         else
           let c = ls_new s; s = s\<lparr>ls_new := Suc c\<rparr> in
           if kind = 76 then do {
             (file, ctx) \<leftarrow> open_logfile (pe_log env) program grp (ls_files s);
             let s = s\<lparr>ls_files := ctx\<rparr>;
             case file of
               None \<Rightarrow> Some (Inl (- 1), s)
             | Some f \<Rightarrow> Some (Inr c, s\<lparr>ls_mem := (ls_mem s)(c := Some \<lparr>lk_file = Some f, lk_filter = None, lk_from = path\<rparr>),
                 ls_heads := (ls_heads s)(key := c # ls_heads s key)\<rparr>) }
           else do {
             lf \<leftarrow> alloc_filter (rd buf) 4 (int (length buf) - 4) (pe_filter env);
             Some (Inr c, s\<lparr>ls_mem := (ls_mem s)(c := Some \<lparr>lk_file = None, lk_filter = lf, lk_from = path\<rparr>), ls_uhead := c # ls_uhead s\<rparr>) } }"

definition parse_packet :: "packet_env \<Rightarrow> byte list \<Rightarrow> byte list \<Rightarrow> log_server \<Rightarrow> (int \<times> log_server) option" where
  "parse_packet env path buf s = do {
     a \<leftarrow> parse_addr path;
     case a of
       None \<Rightarrow> Some (- ENOMEM, s)
     | Some (program, grp) \<Rightarrow> do {
         b0 \<leftarrow> rd buf 0;
         if b0 \<noteq> 36 then Some (- ENOMEM, s)
         else do {
           b1 \<leftarrow> rd buf 1;
           if b1 \<noteq> 35 then Some (- ENOMEM, s)
           else do {
             (c, s) \<leftarrow> client_of env path program grp buf s;
             case c of
               Inl e \<Rightarrow> Some (e, s)
             | Inr c \<Rightarrow> do {
                 kind \<leftarrow> rd buf 2;
                 if kind = 76 then log_packet_in c program grp buf s else Some (0, s) } } } } }"

text \<open>\<open>serverfn\<close>: what \<open>recvfrom\<close> returns until it would block. \<open>True\<close> is \<open>exit_logd\<close>.\<close>

datatype rx = Datagram "byte list" "byte list" packet_env | Rx_error int

fun receive_all :: "rx list \<Rightarrow> log_server \<Rightarrow> (bool \<times> int \<times> log_server) option" where
  "receive_all [] s = Some (False, 0, s)"
| "receive_all (Rx_error e # rs) s = Some (e \<noteq> EAGAIN \<and> e \<noteq> EINTR, 0, s)"
| "receive_all (Datagram path buf env # rs) s =
     (if buf = [] then Some (False, - 1, s)
      else do { (ret, s) \<leftarrow> parse_packet env path (take RCLOG_MAX_PACKET_SIZE buf) s; receive_all rs s })"

definition serverfn :: "bool \<Rightarrow> bool \<Rightarrow> rx list \<Rightarrow> log_server \<Rightarrow> (bool \<times> int \<times> log_server) option" where
  "serverfn inn hup rs s = (if inn then receive_all rs s else if hup then Some (True, 0, s) else Some (False, 0, s))"

section \<open>The watcher's request\<close>

text \<open>
  One option of \<open>main\<close>: \<open>snprintf\<close> into what is left of the buffer, then the pointer goes behind the
  whole text, whether it fitted or not. The state is the bytes written and the pointer.
\<close>

definition put_option :: "byte list \<Rightarrow> byte list \<times> nat \<Rightarrow> (byte list \<times> nat) option" where
  "put_option t st =
     (case st of (buf, p) \<Rightarrow>
        if RCLOG_MAX_PACKET_SIZE < p then None
        else if RCLOG_MAX_PACKET_SIZE = p then Some (buf, p + length t + 1)
        else Some (buf @ take (RCLOG_MAX_PACKET_SIZE - p - 1) t @ [0], p + length t + 1))"

fun watch_options :: "byte list list \<Rightarrow> byte list \<times> nat \<Rightarrow> (byte list \<times> nat) option" where
  "watch_options [] st = Some st"
| "watch_options (a # as) st =
     (if a = lit ''-s'' then watch_options as st
      else if a = lit ''-d'' then (case as of [] \<Rightarrow> Some st | x # as \<Rightarrow> watch_options as st)
      else if a = lit ''-all'' then do { st \<leftarrow> put_option (lit ''all=1'') st; watch_options as st }
      else if a = lit ''-ex'' then
        (case as of [] \<Rightarrow> Some st | x # as \<Rightarrow> do { st \<leftarrow> put_option (lit ''ex:'' @ x) st; watch_options as st })
      else if a = lit ''-in'' then
        (case as of [] \<Rightarrow> Some st | x # as \<Rightarrow> do { st \<leftarrow> put_option (lit ''in:'' @ x) st; watch_options as st })
      else watch_options as st)"

text \<open>The bytes \<open>get_log_runtime\<close> sends; reading behind the block is undefined.\<close>

definition watch_request :: "byte list list \<Rightarrow> byte list option" where
  "watch_request args = do {
     (buf, p) \<leftarrow> watch_options args ([36, 35, 82, 0xf0], 4);
     if RCLOG_MAX_PACKET_SIZE < p then None else Some buf }"


section \<open>Watchers\<close>

lemma filter_log_total: "program \<noteq> [] \<Longrightarrow> \<exists>v. filter_log lf program grp level = Some v"
proof -
  assume "program \<noteq> []"
  then have "\<exists>a b. cs_at program 0 = Some a \<and> cs_at program (0 + 1) = Some b" by (cases program) (auto simp: cs_at_def)
  then obtain k where "hashfilter (cs_at program) 0 = Some k" using hashfilter_total [of "cs_at program" 0] by blast
  then show ?thesis by (simp add: filter_log_def)
qed

text \<open>What a line brings to the watchers of a list: one datagram to each whose filter lets it pass.\<close>

definition passed :: "log_server \<Rightarrow> byte list \<Rightarrow> byte list \<Rightarrow> int \<Rightarrow> byte list \<Rightarrow> nat \<Rightarrow> (byte list \<times> byte list) list" where
  "passed s program grp level line c =
     (case ls_mem s c of
        None \<Rightarrow> []
      | Some cl \<Rightarrow> (case lk_filter cl of None \<Rightarrow> [] | Some lf \<Rightarrow> if filter_log lf program grp level = Some (- 1) then [] else [(lk_from cl, line)]))"

lemma filter_log_values: "filter_log lf program grp level = Some v \<Longrightarrow> v = - 1 \<or> v = 0"
  by (auto simp: filter_log_def bind_eq_Some_conv split: option.splits if_splits)

lemma to_watchers_ok:
  assumes "program \<noteq> []" and "line \<noteq> []" and "ls_sends s = []" and "\<forall>c \<in> set cs. ls_mem s c \<noteq> None"
  shows "to_watchers cs program grp level line s = Some (s\<lparr>ls_sent := ls_sent s @ concat (map (passed s program grp level line) cs)\<rparr>)"
  using assms(3,4)
proof (induction cs arbitrary: s)
  case Nil
  then show ?case by simp
next
  case (Cons c cs)
  obtain cl where cl: "ls_mem s c = Some cl" using Cons.prems(2) by auto
  show ?case
  proof (cases "lk_filter cl")
    case None
    then show ?thesis using Cons cl by (simp add: passed_def)
  next
    case (Some lf)
    obtain v where v: "filter_log lf program grp level = Some v" using filter_log_total [OF assms(1)] by blast
    show ?thesis
    proof (cases "v < 0")
      case True
      then have "v = - 1" using filter_log_values [OF v] by auto
      then show ?thesis using Cons cl Some v by (simp add: passed_def)
    next
      case False
      then have v0: "v = 0" using filter_log_values [OF v] by auto
      let ?s = "s\<lparr>ls_sent := ls_sent s @ [(lk_from cl, line)]\<rparr>"
      have "send_out [] line = ([line], False, [])" using assms(2) by (cases line) simp_all
      then have st: "send_to c line s = Some ?s" using cl Cons.prems(1) by (cases s) (simp add: send_to_def)
      have same: "passed ?s program grp level line = passed s program grp level line" by (simp add: passed_def fun_eq_iff)
      have "to_watchers cs program grp level line ?s = Some (?s\<lparr>ls_sent := ls_sent ?s @ concat (map (passed ?s program grp level line) cs)\<rparr>)"
        by (rule Cons.IH) (use Cons.prems in simp_all)
      then show ?thesis using cl Some v v0 st unfolding same by (simp add: passed_def [of s _ _ _ _ c])
    qed
  qed
qed

section \<open>Packets\<close>

definition client_path :: "byte list \<Rightarrow> byte list \<Rightarrow> byte list" where
  "client_path program grp = CLIENT_DIR @ program @ [47] @ grp"

lemma parse_addr_path: "name_ok program \<Longrightarrow> length grp < 64 \<Longrightarrow> parse_addr (client_path program grp) = Some (Some (program, grp))"
proof -
  assume h: "name_ok program" "length grp < 64"
  then have n: "47 \<notin> set program" "length program < 64" by (simp_all add: name_ok_def LOGFILTER_MAXSTRLEN_def)
  then have "takeWhile (\<lambda>c. c \<noteq> 47) (program @ 47 # grp) = program" "dropWhile (\<lambda>c. c \<noteq> 47) (program @ 47 # grp) = 47 # grp"
    by (simp_all add: takeWhile_append dropWhile_append)
  then show ?thesis using h(2) n(2) by (simp add: parse_addr_def client_path_def Let_def)
qed

lemma log_line_shape:
  assumes "log_line program grp buf = Some (level, line)"
  shows "line \<noteq> []" "8 \<le> length buf"
proof -
  show "8 \<le> length buf" using assms by (auto simp: log_line_def bind_eq_Some_conv Let_def split: if_splits)
  show "line \<noteq> []" using assms by (auto simp: log_line_def bind_eq_Some_conv Let_def line_head_def split: if_splits)
qed

definition known :: "log_server \<Rightarrow> byte list \<Rightarrow> byte list \<Rightarrow> nat \<Rightarrow> nat \<Rightarrow> bool" where
  "known s program grp c file \<longleftrightarrow> (\<exists>key. pg_hash program grp = Some key \<and> find_client s (client_path program grp) (ls_heads s key) = Some (Some c))
     \<and> (\<exists>cl. ls_mem s c = Some cl \<and> lk_file cl = Some file)"

lemma parse_packet_known:
  assumes names: "name_ok program" "program \<noteq> []" "length grp < 64" and kn: "known s program grp c file"
    and buf: "rd buf 0 = Some 36" "rd buf 1 = Some 35" "rd buf 2 = Some 76"
  shows "parse_packet env (client_path program grp) buf s = log_packet_in c program grp buf s"
proof -
  obtain key where "pg_hash program grp = Some key" "find_client s (client_path program grp) (ls_heads s key) = Some (Some c)" using kn by (auto simp: known_def)
  then have "client_of env (client_path program grp) program grp buf s = Some (Inr c, s)" using buf(3) by (simp add: client_of_def)
  then show ?thesis using parse_addr_path [OF names(1,3)] buf by (simp add: parse_packet_def)
qed

lemma log_packet_ok:
  assumes names: "name_ok program" "program \<noteq> []" "length grp < 64" and kn: "known s program grp c file"
    and buf: "rd buf 0 = Some 36" "rd buf 1 = Some 35" "rd buf 2 = Some 76" and line: "log_line program grp buf = Some (level, line)"
    and ws: "ls_sends s = []" "\<forall>u \<in> set (ls_uhead s). ls_mem s u \<noteq> None"
    and f: "lc_mem (ls_files s) file = Some f" "logging (ls_files s) f d" "lc_num (ls_files s) < MAX_LOGFILES"
    and nodir: "fl_name f \<notin> set (f_dirs (lc_fs (ls_files s)))" "numbered (fl_name f) (fl_index f) \<notin> set (f_dirs (lc_fs (ls_files s)))"
  shows "\<exists>s' f'. parse_packet env (client_path program grp) buf s = Some (0, s')
    \<and> ls_sent s' = ls_sent s @ concat (map (passed s program grp level line) (ls_uhead s))
    \<and> ls_mem s' = ls_mem s \<and> ls_heads s' = ls_heads s \<and> ls_uhead s' = ls_uhead s \<and> lc_mem (ls_files s') file = Some f' \<and> fl_name f' = fl_name f
    \<and> (if int (length (d @ line)) < LOGFILE_MAXSIZE then logging (ls_files s') f' (d @ line)
       else logging (ls_files s') f' [] \<and> file_text (lc_fs (ls_files s')) (numbered (fl_name f) (fl_index f)) = Some (d @ line))"
proof -
  obtain cl where cl: "ls_mem s c = Some cl" "lk_file cl = Some file" using kn by (auto simp: known_def)
  let ?t = "s\<lparr>ls_sent := ls_sent s @ concat (map (passed s program grp level line) (ls_uhead s))\<rparr>"
  have w: "to_watchers (ls_uhead s) program grp level line s = Some ?t" by (rule to_watchers_ok [OF names(2) log_line_shape(1) [OF line] ws])
  obtain ret ctx' f' where wr: "write_log file line (ls_files s) = Some (ret, ctx')" "0 \<le> ret" "lc_mem ctx' file = Some f'" "fl_name f' = fl_name f"
    "if int (length (d @ line)) < LOGFILE_MAXSIZE then logging ctx' f' (d @ line)
     else logging ctx' f' [] \<and> file_text (lc_fs ctx') (numbered (fl_name f) (fl_index f)) = Some (d @ line)"
    using write_log_ok [OF f nodir, of line] by (auto split: if_splits)
  have "parse_packet env (client_path program grp) buf s = log_packet_in c program grp buf s" by (rule parse_packet_known [OF names kn buf])
  also have "\<dots> = Some (0, ?t\<lparr>ls_files := ctx'\<rparr>)" using line w cl wr(1,2) by (simp add: log_packet_in_def)
  finally have "parse_packet env (client_path program grp) buf s = Some (0, ?t\<lparr>ls_files := ctx'\<rparr>)" .
  then show ?thesis using wr(3-5) by (intro exI [of _ "?t\<lparr>ls_files := ctx'\<rparr>"] exI [of _ f']) (simp split: if_splits)
qed


section \<open>Requests\<close>

fun args_of :: "watch_cmd \<Rightarrow> byte list list" where
  "args_of (All n) = [lit ''-all'']"
| "args_of (Ex pro grp l) = [lit ''-ex'', rule_text pro grp l]"
| "args_of (In pro grp l) = [lit ''-in'', rule_text pro grp l]"

fun plain :: "watch_cmd \<Rightarrow> bool" where
  "plain (All n) = (n = 1)"
| "plain c = True"

lemma options_distinct:
  "lit ''-all'' \<noteq> lit ''-s''" "lit ''-all'' \<noteq> lit ''-d''" "lit ''-ex'' \<noteq> lit ''-s''" "lit ''-ex'' \<noteq> lit ''-d''" "lit ''-ex'' \<noteq> lit ''-all''"
  "lit ''-in'' \<noteq> lit ''-s''" "lit ''-in'' \<noteq> lit ''-d''" "lit ''-in'' \<noteq> lit ''-all''" "lit ''-in'' \<noteq> lit ''-ex''"
  by (simp_all add: lit_def)

lemma put_option_fits:
  assumes "p + length t + 1 \<le> RCLOG_MAX_PACKET_SIZE"
  shows "put_option t (buf, p) = Some (buf @ t @ [0], p + length t + 1)"
  using assms by (simp add: put_option_def)

lemma watch_options_text:
  assumes "\<forall>c \<in> set cs. plain c" and "length buf + length (request_text cs) \<le> RCLOG_MAX_PACKET_SIZE"
  shows "watch_options (concat (map args_of cs)) (buf, length buf) = Some (buf @ request_text cs, length buf + length (request_text cs))"
  using assms
proof (induction cs arbitrary: buf)
  case Nil
  then show ?case by (simp add: request_text_def)
next
  case (Cons c cs)
  have r: "request_text (c # cs) = cmd_text c @ [0] @ request_text cs" by (simp add: request_text_def)
  have one: "dec 1 = [49]" by (subst dec.simps) simp
  have put: "put_option (cmd_text c) (buf, length buf) = Some (buf @ cmd_text c @ [0], length (buf @ cmd_text c @ [0]))"
    using put_option_fits [of "length buf" "cmd_text c" buf] Cons.prems(2) by (simp add: r)
  have "watch_options (concat (map args_of (c # cs))) (buf, length buf) =
      watch_options (concat (map args_of cs)) (buf @ cmd_text c @ [0], length (buf @ cmd_text c @ [0]))"
  proof (cases c)
    case (All n)
    then have "cmd_text c = lit ''all=1''" using Cons.prems(1) one by (simp add: lit_def)
    then show ?thesis using All put options_distinct by simp
  next
    case (Ex pro grp l)
    then show ?thesis using put options_distinct by simp
  next
    case (In pro grp l)
    then show ?thesis using put options_distinct by simp
  qed
  also have "\<dots> = Some ((buf @ cmd_text c @ [0]) @ request_text cs, length (buf @ cmd_text c @ [0]) + length (request_text cs))"
    by (rule Cons.IH) (use Cons.prems in \<open>simp_all add: r\<close>)
  finally show ?case by (simp add: r)
qed

section \<open>Properties\<close>

text \<open>
  C7. A log packet of a known client: every watcher whose filter lets the message pass, and no
  other, gets the line in one datagram; the line is put behind the text of the client's log, which
  is rotated when it is full; the clients stay as they were.
\<close>

theorem log_packet_is_delivered:
  assumes "name_ok program" and "program \<noteq> []" and "length grp < 64" and "known s program grp c file"
    and "rd buf 0 = Some 36" and "rd buf 1 = Some 35" and "rd buf 2 = Some 76" and "log_line program grp buf = Some (level, line)"
    and "ls_sends s = []" and "\<forall>u \<in> set (ls_uhead s). ls_mem s u \<noteq> None"
    and "lc_mem (ls_files s) file = Some f" and "logging (ls_files s) f d" and "lc_num (ls_files s) < MAX_LOGFILES"
    and "fl_name f \<notin> set (f_dirs (lc_fs (ls_files s)))" and "numbered (fl_name f) (fl_index f) \<notin> set (f_dirs (lc_fs (ls_files s)))"
  shows "\<exists>s' f'. parse_packet env (client_path program grp) buf s = Some (0, s')
    \<and> ls_sent s' = ls_sent s @ concat (map (passed s program grp level line) (ls_uhead s))
    \<and> ls_mem s' = ls_mem s \<and> ls_heads s' = ls_heads s \<and> ls_uhead s' = ls_uhead s \<and> lc_mem (ls_files s') file = Some f' \<and> fl_name f' = fl_name f
    \<and> (if int (length (d @ line)) < LOGFILE_MAXSIZE then logging (ls_files s') f' (d @ line)
       else logging (ls_files s') f' [] \<and> file_text (lc_fs (ls_files s')) (numbered (fl_name f) (fl_index f)) = Some (d @ line))"
  using assms by (rule log_packet_ok)

definition open_filter :: log_filter where "open_filter = \<lparr>lf_all = 1, lf_exhead = (\<lambda>_. []), lf_inhead = (\<lambda>_. [])\<rparr>"

definition demo_server :: log_server where
  "demo_server = \<lparr>ls_heads = (\<lambda>_. [0]), ls_uhead = [1],
     ls_mem = (\<lambda>_. None)(0 := Some \<lparr>lk_file = Some 0, lk_filter = None, lk_from = client_path (lit ''dw'') (lit ''net'')\<rparr>,
       1 := Some \<lparr>lk_file = None, lk_filter = Some open_filter, lk_from = client_path (lit ''logd'') (lit ''watch'')\<rparr>),
     ls_new = 2, ls_files = (net_ctx [65])\<lparr>lc_mem := (\<lambda>_. None)(0 := Some (net_log\<lparr>fl_size := 1\<rparr>))\<rparr>, ls_sent = [], ls_sends = []\<rparr>"

definition demo_packet :: "byte list" where "demo_packet = [36, 35, 76, 6, 0xdc, 5, 0, 0, 104, 105]"

lemma demo_line: "log_line (lit ''dw'') (lit ''net'') demo_packet = Some (6, lit ''[1.500][dw][net][INFO]hi'')"
  by code_simp

lemma demo_known: "known demo_server (lit ''dw'') (lit ''net'') 0 0"
  using pg_hash_total [of "lit ''dw''" "lit ''net''"] by (auto simp: known_def demo_server_def lit_def)

lemma demo_files:
  "logging (ls_files demo_server) (net_log\<lparr>fl_size := 1\<rparr>) [65]" "lc_mem (ls_files demo_server) 0 = Some (net_log\<lparr>fl_size := 1\<rparr>)"
  "lc_num (ls_files demo_server) < MAX_LOGFILES" "fl_name (net_log\<lparr>fl_size := 1\<rparr>) \<notin> set (f_dirs (lc_fs (ls_files demo_server)))"
  "numbered (fl_name (net_log\<lparr>fl_size := 1\<rparr>)) (fl_index (net_log\<lparr>fl_size := 1\<rparr>)) \<notin> set (f_dirs (lc_fs (ls_files demo_server)))"
proof -
  show "logging (ls_files demo_server) (net_log\<lparr>fl_size := 1\<rparr>) [65]"
    by (auto simp: logging_def demo_server_def net_ctx_def net_log_def net_fs_def fs_ok_def net_path MAXLOGS_FOR_ONE_def) (simp add: lit_def)
qed (use net_path(2) net_numbered [of 3] in \<open>simp_all add: demo_server_def net_ctx_def net_log_def net_fs_def MAX_LOGFILES_def net_path\<close>)

theorem log_packet_is_delivered_witness:
  "\<exists>s' f'. parse_packet \<lparr>pe_client = True, pe_log = (True, True), pe_filter = []\<rparr> (client_path (lit ''dw'') (lit ''net'')) demo_packet demo_server = Some (0, s')
    \<and> ls_sent s' = [(client_path (lit ''logd'') (lit ''watch''), lit ''[1.500][dw][net][INFO]hi'')]
    \<and> lc_mem (ls_files s') 0 = Some f' \<and> logging (ls_files s') f' ([65] @ lit ''[1.500][dw][net][INFO]hi'')"
proof -
  let ?line = "lit ''[1.500][dw][net][INFO]hi''"
  have n: "name_ok (lit ''dw'')" "lit ''dw'' \<noteq> []" "length (lit ''net'') < 64" by (simp_all add: lit_def name_ok_def LOGFILTER_MAXSTRLEN_def)
  have b: "rd demo_packet 0 = Some 36" "rd demo_packet 1 = Some 35" "rd demo_packet 2 = Some 76" by (simp_all add: demo_packet_def rd_def)
  have w: "ls_sends demo_server = []" "\<forall>u \<in> set (ls_uhead demo_server). ls_mem demo_server u \<noteq> None" by (simp_all add: demo_server_def)
  obtain v where v: "filter_log open_filter (lit ''dw'') (lit ''net'') 6 = Some v" using filter_log_total [OF n(2)] by blast
  then have v0: "v = 0" by (auto simp: filter_log_def open_filter_def bind_eq_Some_conv)
  have p: "concat (map (passed demo_server (lit ''dw'') (lit ''net'') 6 ?line) (ls_uhead demo_server)) = [(client_path (lit ''logd'') (lit ''watch''), ?line)]"
    using v v0 by (simp add: passed_def demo_server_def)
  have sent: "ls_sent demo_server = []" by (simp add: demo_server_def)
  have small: "int (length ([65] @ ?line)) < LOGFILE_MAXSIZE" by (simp add: lit_def LOGFILE_MAXSIZE_def)
  from log_packet_is_delivered [OF n demo_known b demo_line w demo_files(2,1,3-5), of "\<lparr>pe_client = True, pe_log = (True, True), pe_filter = []\<rparr>"]
  show ?thesis unfolding p sent if_P [OF small] by auto
qed

text \<open>
  From the arguments of a watcher to its filter: what \<open>main\<close> puts into the request is read back by
  the daemon as the same rules, as long as they fit into a packet.
\<close>

theorem watch_request_roundtrip:
  assumes "\<forall>c \<in> set cs. cmd_ok c \<and> plain c" and "4 + length (request_text cs) \<le> RCLOG_MAX_PACKET_SIZE"
  shows "\<exists>buf lf. watch_request (concat (map args_of cs)) = Some buf \<and> take 3 buf = lit ''$#R''
    \<and> alloc_filter (rd buf) 4 (int (length buf) - 4) [] = Some (Some lf)
    \<and> (\<forall>pro grp level. 2 \<le> length pro \<longrightarrow> filter_log lf pro grp level = Some (verdict cs pro grp level))"
proof -
  let ?h = "[36, 35, 82, 0xf0] :: byte list" let ?buf = "?h @ request_text cs"
  have "watch_options (concat (map args_of cs)) (?h, length ?h) = Some (?buf, length ?h + length (request_text cs))"
    by (rule watch_options_text) (use assms in simp_all)
  moreover have "length ?h = 4" by simp
  ultimately have "watch_request (concat (map args_of cs)) = Some ?buf" using assms(2) by (simp only: watch_request_def) simp
  moreover have "text_at (rd ?buf) 4 (request_text cs)" using text_at_rd [of ?h "request_text cs" "[]"] by (simp add: eval_nat_numeral)
  then obtain lf where "alloc_filter (rd ?buf) 4 (int (length (request_text cs))) [] = Some (Some lf)"
    "\<forall>pro grp level. 2 \<le> length pro \<longrightarrow> filter_log lf pro grp level = Some (verdict cs pro grp level)"
    using alloc_filter_text [of "rd ?buf" 4 cs] assms(1) by blast
  moreover have "int (length ?buf) - 4 = int (length (request_text cs))" by simp
  moreover have "take 3 ?buf = lit ''$#R''" by (simp add: lit_def)
  ultimately show ?thesis by metis
qed

theorem watch_request_roundtrip_witness:
  "\<exists>buf lf. watch_request [lit ''-all'', lit ''-in'', lit ''dw/net/INFO''] = Some buf \<and> alloc_filter (rd buf) 4 (int (length buf) - 4) [] = Some (Some lf)
    \<and> filter_log lf (lit ''dw'') (lit ''net'') 3 = Some (- 1)"
proof -
  have c: "\<forall>c \<in> set demo_request. cmd_ok c \<and> plain c" using demo_request_ok by (simp add: demo_request_def)
  have one: "dec 1 = [49]" by (subst dec.simps) simp
  have l: "4 + length (request_text demo_request) \<le> RCLOG_MAX_PACKET_SIZE"
    using one by (simp add: request_text_def demo_request_def rule_text_def levelstr_def lit_def RCLOG_MAX_PACKET_SIZE_def)
  have a: "concat (map args_of demo_request) = [lit ''-all'', lit ''-in'', lit ''dw/net/INFO'']"
    by (simp add: demo_request_def rule_text_def levelstr_def lit_def)
  have v: "verdict demo_request (lit ''dw'') (lit ''net'') 3 = - 1" by (simp add: verdict_def demo_request_def rules_of_def covers_def lit_def)
  have two: "2 \<le> length (lit ''dw'')" by (simp add: lit_def)
  from watch_request_roundtrip [OF c l] show ?thesis unfolding a using v two by metis
qed

text \<open>
  Packets the daemon does not survive: a program name of more than 64 characters in the sender's
  address, and from a known client a packet without its full header or with a level above the last.
\<close>

theorem malformed_packets_crash:
  "(47 \<notin> set program \<and> 64 < length program \<longrightarrow> parse_packet env (CLIENT_DIR @ program @ rest) buf s = None)
   \<and> (name_ok program \<and> program \<noteq> [] \<and> length grp < 64 \<and> known s program grp c file \<and> rd buf 0 = Some 36 \<and> rd buf 1 = Some 35 \<and> rd buf 2 = Some 76
        \<and> (length buf < 8 \<or> 8 \<le> unat (buf ! 3)) \<longrightarrow> parse_packet env (client_path program grp) buf s = None)"
proof (intro conjI impI)
  assume h: "47 \<notin> set program \<and> 64 < length program"
  then have "takeWhile (\<lambda>c. c \<noteq> 47) (program @ rest) = program @ takeWhile (\<lambda>c. c \<noteq> 47) rest" by (simp add: takeWhile_append)
  then show "parse_packet env (CLIENT_DIR @ program @ rest) buf s = None" using h by (simp add: parse_packet_def parse_addr_def Let_def)
next
  assume h: "name_ok program \<and> program \<noteq> [] \<and> length grp < 64 \<and> known s program grp c file \<and> rd buf 0 = Some 36 \<and> rd buf 1 = Some 35 \<and> rd buf 2 = Some 76
        \<and> (length buf < 8 \<or> 8 \<le> unat (buf ! 3))"
  have "length levelstr = 8" by (simp add: levelstr_def)
  then have "log_line program grp buf = None"
    using h by (auto simp: log_line_def le32_of_def Let_def rd_def bind_eq_None_conv)
  moreover have "parse_packet env (client_path program grp) buf s = log_packet_in c program grp buf s"
    by (rule parse_packet_known [of _ _ _ c "file"]) (use h in auto)
  ultimately show "parse_packet env (client_path program grp) buf s = None" by (simp add: log_packet_in_def)
qed

definition no_faults :: packet_env where "no_faults = \<lparr>pe_client = True, pe_log = (True, True), pe_filter = []\<rparr>"

theorem malformed_packets_crash_witness:
  "parse_packet no_faults (CLIENT_DIR @ replicate 65 120 @ [47, 103]) demo_packet demo_server = None
   \<and> parse_packet no_faults (client_path (lit ''dw'') (lit ''net'')) [36, 35, 76, 8, 0, 0, 0, 0, 104] demo_server = None"
proof -
  have n: "name_ok (lit ''dw'')" "lit ''dw'' \<noteq> []" "length (lit ''net'') < 64" by (simp_all add: lit_def name_ok_def LOGFILTER_MAXSTRLEN_def)
  show ?thesis using malformed_packets_crash [of "replicate 65 120" no_faults "[47, 103]" demo_packet demo_server]
      malformed_packets_crash [of "lit ''dw''" no_faults "[]" "[36, 35, 76, 8, 0, 0, 0, 0, 104]" demo_server "lit ''net''" 0 0] n demo_known by (simp add: rd_def)
qed

end
