(* ===== verification/LogClient.thy ===== *)
theory LogClient
  imports LogDaemon
begin

text \<open>
  \<open>src/src/log/socket.c\<close> and \<open>log.c\<close>: what a program does to log a message. Sockets are
  descriptors with the address they are bound to; the datagrams sent on them are kept with it. The
  formatted message is an argument, as are the time and the outcomes of the calls. The spin locks
  around the table have no effect in one thread and are left out. \<open>None\<close> is undefined behaviour.
\<close>

section \<open>State\<close>

record local_logger =
  lo_group :: "byte list"
  lo_fd :: int

text \<open>
  \<open>lh_init\<close>, \<open>lh_heads\<close> and \<open>lh_funname\<close> are \<open>lhead\<close>; the kernel's part is the bound sockets, what
  was sent, and the file system that \<open>check_dir\<close> works on. The error number is the last one set.
\<close>

record log_head =
  lh_funname :: "byte list"
  lh_init :: bool
  lh_heads :: "nat \<Rightarrow> local_logger list"
  lh_socks :: "int \<Rightarrow> byte list option"
  lh_out :: "(byte list \<times> byte list) list"
  lh_fs :: fsys
  lh_errno :: int

text \<open>One attempt to connect: the socket's descriptor or -1, and whether \<open>bind\<close> and \<open>connect\<close> succeed; the error where one fails.\<close>

record conn_try =
  ct_socket :: int
  ct_bind :: bool
  ct_connect :: bool
  ct_errno :: int

definition ECONNREFUSED :: int where "ECONNREFUSED = 111"
definition EBADF :: int where "EBADF = 9"

section \<open>Operations\<close>

text \<open>
  \<open>connect_logd\<close>. \<open>sun_path\<close> holds 108 bytes, \<open>snprintf\<close> cuts the text. The socket is not closed
  where the directory cannot be made. A program name of 64 characters or more was copied without
  its terminator, so printing it reads on behind the array.
\<close>

definition connect_logd :: "conn_try \<Rightarrow> byte list \<Rightarrow> byte list \<Rightarrow> log_head \<Rightarrow> (int \<times> log_head) option" where
  "connect_logd t program grp h =
     (let fd = ct_socket t in
      if fd < 0 then Some (- 1, h\<lparr>lh_errno := ct_errno t\<rparr>)
      else if 64 \<le> length program then None
      else
        let dir = take 107 (CLIENT_DIR @ program);
            (ret, fs) = check_dir dir (lh_fs h); h = h\<lparr>lh_fs := fs\<rparr> in
        if ret < 0 then Some (- 1, h\<lparr>lh_errno := ct_errno t\<rparr>)
        else
          let path = take 107 (CLIENT_DIR @ program @ [47] @ grp) in
          if \<not> ct_bind t then Some (- 1, h\<lparr>lh_errno := ct_errno t\<rparr>)
          else if \<not> ct_connect t then Some (- 1, h\<lparr>lh_errno := ct_errno t\<rparr>)
          else Some (fd, h\<lparr>lh_socks := (lh_socks h)(fd := Some path)\<rparr>))"

definition ANON_GROUP :: "byte list" where "ANON_GROUP = lit ''%$''"

definition group_name :: "byte list option \<Rightarrow> byte list" where
  "group_name g = (case g of None \<Rightarrow> ANON_GROUP | Some g \<Rightarrow> g)"

text \<open>Groups are compared, and kept, up to 64 characters.\<close>

definition same_group :: "byte list \<Rightarrow> local_logger \<Rightarrow> bool" where
  "same_group grp l \<longleftrightarrow> take 64 (lo_group l) = take 64 grp"

definition get_logd_connection :: "bool \<Rightarrow> conn_try \<Rightarrow> byte list option \<Rightarrow> log_head \<Rightarrow> (int \<times> log_head) option" where
  "get_logd_connection mem t g h =
     (if \<not> lh_init h then Some (- 1, h)
      else do {
        let grp = group_name g;
        key \<leftarrow> group_hash grp;
        case List.find (same_group grp) (lh_heads h key) of
          Some l \<Rightarrow> Some (lo_fd l, h)
        | None \<Rightarrow>
            if \<not> mem then Some (- ENOMEM, h\<lparr>lh_errno := ENOMEM\<rparr>)
            else do {
              (fd, h) \<leftarrow> connect_logd t (lh_funname h) grp h;
              if fd < 0 then Some (- 1, h)
              else Some (fd, h\<lparr>lh_heads := (lh_heads h)(key := \<lparr>lo_group = take 64 grp, lo_fd = fd\<rparr> # lh_heads h key)\<rparr>) } })"

text \<open>The loop of \<open>send\<close> calls: the datagrams, and the error where one fails.\<close>

fun send_dgrams :: "write_ev list \<Rightarrow> byte list \<Rightarrow> byte list list \<times> int option" where
  "send_dgrams ws [] = ([], None)"
| "send_dgrams [] (b # bs) = ([b # bs], None)"
| "send_dgrams (Write_error e # ws) (b # bs) = (if e = EINTR then send_dgrams ws (b # bs) else ([], Some e))"
| "send_dgrams (Wrote n # ws) (b # bs) =
     (let k = min n (length (b # bs)); (ds, e) = send_dgrams ws (drop k (b # bs)) in (take k (b # bs) # ds, e))"

fun set_fd :: "byte list \<Rightarrow> int \<Rightarrow> local_logger list \<Rightarrow> local_logger list" where
  "set_fd grp fd [] = []"
| "set_fd grp fd (l # ls) = (if same_group grp l then l\<lparr>lo_fd := fd\<rparr> # ls else l # set_fd grp fd ls)"

text \<open>The end of \<open>send_log\<close> behind \<open>failed\<close>: the table is read whether it was made or not.\<close>

definition send_failed :: "conn_try \<Rightarrow> byte list option \<Rightarrow> int \<Rightarrow> log_head \<Rightarrow> (int \<times> log_head) option" where
  "send_failed t g fd h =
     (if lh_errno h = ENOMEM then Some (- 1, h)
      else do {
        let h = (if 0 \<le> fd then h\<lparr>lh_socks := (lh_socks h)(fd := None)\<rparr> else h);
        let grp = group_name g;
        key \<leftarrow> group_hash grp;
        if \<not> lh_init h then None
        else case List.find (same_group grp) (lh_heads h key) of
            None \<Rightarrow> Some (0, h)
          | Some l \<Rightarrow> do {
              (fd, h) \<leftarrow> connect_logd t (lh_funname h) grp h;
              Some (0, h\<lparr>lh_heads := (lh_heads h)(key := set_fd grp fd (lh_heads h key))\<rparr>) } })"

record send_env =
  se_malloc :: bool
  se_first :: conn_try
  se_again :: conn_try
  se_sends :: "write_ev list"

definition send_log :: "send_env \<Rightarrow> byte list option \<Rightarrow> byte list \<Rightarrow> log_head \<Rightarrow> (int \<times> log_head) option" where
  "send_log env g data h = do {
     (fd, h) \<leftarrow> get_logd_connection (se_malloc env) (se_first env) g h;
     if fd < 0 then send_failed (se_again env) g fd h
     else case lh_socks h fd of
         None \<Rightarrow> if data = [] then Some (0, h) else send_failed (se_again env) g fd (h\<lparr>lh_errno := EBADF\<rparr>)
       | Some path \<Rightarrow>
           let (ds, e) = send_dgrams (se_sends env) data; h = h\<lparr>lh_out := lh_out h @ map (\<lambda>d. (path, d)) ds\<rparr> in
           (case e of None \<Rightarrow> Some (0, h) | Some e \<Rightarrow> send_failed (se_again env) g fd (h\<lparr>lh_errno := e\<rparr>)) }"

definition init_local_logger :: "bool \<Rightarrow> byte list \<Rightarrow> log_head \<Rightarrow> (int \<times> log_head) option" where
  "init_local_logger mem program h =
     (let name = rev (takeWhile (\<lambda>c. c \<noteq> 47) (rev program)) in
      if \<not> mem then Some (- ENOMEM, h\<lparr>lh_funname := name\<rparr>)
      else Some (0, h\<lparr>lh_funname := name, lh_heads := (\<lambda>_. []), lh_init := True\<rparr>))"

section \<open>\<open>log.c\<close>\<close>

definition le32_bytes :: "u32 \<Rightarrow> byte list" where
  "le32_bytes w = [ucast w, ucast (drop_bit 8 w), ucast (drop_bit 16 w), ucast (drop_bit 24 w)]"

definition fill_header :: "int \<Rightarrow> int \<Rightarrow> byte list" where
  "fill_header now level = [36, 35, 76, word_of_int level AND 15] @ le32_bytes (word_of_int now)"

text \<open>
  \<open>rc_log_default_callback\<close>: \<open>msg\<close> is the formatted message. \<open>vsnprintf\<close> cuts what does not fit but
  returns the full length, and that many bytes of \<open>line\<close> are sent.
\<close>

definition rc_log_default_callback :: "send_env \<Rightarrow> int \<Rightarrow> byte list option \<Rightarrow> int \<Rightarrow> byte list \<Rightarrow> log_head \<Rightarrow> log_head option" where
  "rc_log_default_callback env now g level msg h =
     (if RCLOG_MAX_PACKET_SIZE < 8 + length msg then None
      else do {
        (ret, h) \<leftarrow> send_log env g (fill_header now level @
           (if length msg < RCLOG_MAX_PACKET_SIZE - 8 then msg else take (RCLOG_MAX_PACKET_SIZE - 9) msg @ [0])) h;
        Some h })"


section \<open>Packets\<close>

lemma le32_join: "ucast (ucast w :: byte) OR push_bit 8 (ucast (ucast (drop_bit 8 w) :: byte)) OR push_bit 16 (ucast (ucast (drop_bit 16 w) :: byte))
    OR push_bit 24 (ucast (ucast (drop_bit 24 w) :: byte)) = (w :: u32)" (is "?l = w")
proof (rule bit_word_eqI)
  fix n assume n: "n < LENGTH(32)"
  consider "n < 8" | "8 \<le> n \<and> n < 16" | "16 \<le> n \<and> n < 24" | "24 \<le> n" by linarith
  then show "bit ?l n = bit w n"
    by cases (use n in \<open>auto simp: bit_simps\<close>)
qed

lemma low_level:
  assumes "0 \<le> level" and "level < 8"
  shows "unat (word_of_int level AND 15 :: byte) = nat level"
proof -
  have "list_all (\<lambda>l. unat (word_of_int (int l) AND 15 :: byte) = l) [0..<8]" by code_simp
  then have "\<forall>l \<in> set [0..<8]. unat (word_of_int (int l) AND 15 :: byte) = l" by (simp only: list_all_iff)
  from bspec [OF this, of "nat level"] show ?thesis using assms by simp
qed

lemma fill_header_parts:
  "length (fill_header now level) = 8" "rd (fill_header now level @ msg) 0 = Some 36" "rd (fill_header now level @ msg) 1 = Some 35"
  "rd (fill_header now level @ msg) 2 = Some 76" "rd (fill_header now level @ msg) 3 = Some (word_of_int level AND 15)"
  "le32_of (fill_header now level @ msg) 4 = Some (sint (word_of_int now :: u32))"
  using le32_join [of "word_of_int now"] by (simp_all add: fill_header_def le32_bytes_def rd_def le32_of_def eval_nat_numeral)

lemma log_line_header:
  assumes "0 \<le> level" and "level < 8" and "length (line_head (sint (word_of_int now :: u32)) program grp (levelstr ! nat level)) + length msg \<le> RCLOG_MAX_PACKET_SIZE + 64"
  shows "log_line program grp (fill_header now level @ msg) = Some (level, line_head (sint (word_of_int now :: u32)) program grp (levelstr ! nat level) @ msg)"
proof -
  have l: "length levelstr = 8" by (simp add: levelstr_def)
  then have m: "min (nat level) (length levelstr) = nat level" "rd levelstr (nat level) = Some (levelstr ! nat level)" using assms(2) by (simp_all add: rd_def)
  show ?thesis
    unfolding log_line_def fill_header_parts Option.bind.bind_lunit low_level [OF assms(1,2)] Let_def m using assms fill_header_parts(1) [of now level] by simp
qed


section \<open>Sending\<close>

lemma send_dgrams_all: "data \<noteq> [] \<Longrightarrow> send_dgrams [] data = ([data], None)"
  by (cases data) simp_all

text \<open>The logger of a group is there and its socket is open.\<close>

definition joined :: "log_head \<Rightarrow> byte list \<Rightarrow> int \<Rightarrow> byte list \<Rightarrow> bool" where
  "joined h grp fd path \<longleftrightarrow> lh_init h \<and> 0 \<le> fd \<and> lh_socks h fd = Some path
     \<and> (\<exists>key l. group_hash grp = Some key \<and> List.find (same_group grp) (lh_heads h key) = Some l \<and> lo_fd l = fd)"

lemma group_hash_total: "grp \<noteq> [] \<Longrightarrow> \<exists>k. group_hash grp = Some k"
  by (cases grp) (auto simp: group_hash_def cs_at_def)

lemma connect_logd_ok:
  assumes "0 \<le> ct_socket t" and "ct_bind t" and "ct_connect t" and "fst (check_dir (take 107 (CLIENT_DIR @ program)) (lh_fs h)) = 0" and "length program < 64"
  shows "connect_logd t program grp h = Some (ct_socket t, h\<lparr>lh_fs := snd (check_dir (take 107 (CLIENT_DIR @ program)) (lh_fs h)),
     lh_socks := (lh_socks h)(ct_socket t := Some (take 107 (CLIENT_DIR @ program @ [47] @ grp)))\<rparr>)"
  using assms by (cases "check_dir (take 107 (CLIENT_DIR @ program)) (lh_fs h)") (simp add: connect_logd_def Let_def)

lemma send_log_joined:
  assumes "joined h grp fd path" and "data \<noteq> []" and "se_sends env = []"
  shows "send_log env (Some grp) data h = Some (0, h\<lparr>lh_out := lh_out h @ [(path, data)]\<rparr>)"
proof -
  obtain key l where "group_hash grp = Some key" "List.find (same_group grp) (lh_heads h key) = Some l" "lo_fd l = fd" "lh_init h" "0 \<le> fd" "lh_socks h fd = Some path"
    using assms(1) by (auto simp: joined_def)
  then show ?thesis using assms(2,3) send_dgrams_all [OF assms(2)] by (simp add: send_log_def get_logd_connection_def group_name_def)
qed

lemma find_set_fd: "List.find (same_group grp) ls = Some l \<Longrightarrow> List.find (same_group grp) (set_fd grp fd ls) = Some (l\<lparr>lo_fd := fd\<rparr>)"
  by (induction ls) (auto simp: same_group_def)

section \<open>Properties\<close>

text \<open>
  C13. From \<open>rclog\<close> to the log file. A message of at most 1527 characters, logged at a level of the
  table in a program whose logger is connected, is sent as one datagram from the address that names
  program and group; the daemon that receives it puts the line with the sender's time, the names, the
  level and the message behind the text of the log.
\<close>

theorem rclog_reaches_log:
  assumes "joined h grp fd (client_path program grp)" and "se_sends env = []" and "0 \<le> level" and "level < 8" and "length msg < 1528"
    and "line = line_head (sint (word_of_int now :: u32)) program grp (levelstr ! nat level) @ msg" and "length line \<le> RCLOG_MAX_PACKET_SIZE + 64"
    and "name_ok program" and "program \<noteq> []" and "length grp < 64" and "known s program grp c file"
    and "ls_sends s = []" and "\<forall>u \<in> set (ls_uhead s). ls_mem s u \<noteq> None"
    and "lc_mem (ls_files s) file = Some f" and "logging (ls_files s) f d" and "lc_num (ls_files s) < MAX_LOGFILES"
    and "fl_name f \<notin> set (f_dirs (lc_fs (ls_files s)))" and "numbered (fl_name f) (fl_index f) \<notin> set (f_dirs (lc_fs (ls_files s)))"
    and "int (length (d @ line)) < LOGFILE_MAXSIZE"
  shows "\<exists>h' buf s' f'. rc_log_default_callback env now (Some grp) level msg h = Some h' \<and> lh_out h' = lh_out h @ [(client_path program grp, buf)]
    \<and> parse_packet penv (client_path program grp) buf s = Some (0, s') \<and> lc_mem (ls_files s') file = Some f' \<and> logging (ls_files s') f' (d @ line)
    \<and> ls_sent s' = ls_sent s @ concat (map (passed s program grp level line) (ls_uhead s))"
proof -
  let ?buf = "fill_header now level @ msg"
  have ne: "?buf \<noteq> []" by (simp add: fill_header_def)
  have room: "\<not> RCLOG_MAX_PACKET_SIZE < 8 + length msg" "length msg < RCLOG_MAX_PACKET_SIZE - 8" using assms(5) by (simp_all add: RCLOG_MAX_PACKET_SIZE_def)
  have sent: "rc_log_default_callback env now (Some grp) level msg h = Some (h\<lparr>lh_out := lh_out h @ [(client_path program grp, ?buf)]\<rparr>)"
    using room send_log_joined [OF assms(1) ne assms(2)] by (simp add: rc_log_default_callback_def)
  have line: "log_line program grp ?buf = Some (level, line)"
    unfolding assms(6) by (rule log_line_header) (use assms(3,4,6,7) in simp_all)
  from log_packet_ok [OF assms(8-11) fill_header_parts(2-4) line assms(12-18), of penv]
  obtain s' f' where "parse_packet penv (client_path program grp) ?buf s = Some (0, s')" "lc_mem (ls_files s') file = Some f'" "logging (ls_files s') f' (d @ line)"
    "ls_sent s' = ls_sent s @ concat (map (passed s program grp level line) (ls_uhead s))"
    unfolding if_P [OF assms(19)] by blast
  then show ?thesis using sent by (intro exI [of _ "h\<lparr>lh_out := lh_out h @ [(client_path program grp, ?buf)]\<rparr>"] exI [of _ ?buf] exI [of _ s'] exI [of _ f']) simp
qed

definition demo_try :: conn_try where "demo_try = \<lparr>ct_socket = 7, ct_bind = True, ct_connect = True, ct_errno = 0\<rparr>"

definition demo_env :: "write_ev list \<Rightarrow> send_env" where "demo_env ws = \<lparr>se_malloc = True, se_first = demo_try, se_again = demo_try, se_sends = ws\<rparr>"

definition demo_head :: log_head where
  "demo_head = \<lparr>lh_funname = lit ''dw'', lh_init = True, lh_heads = (\<lambda>_. [\<lparr>lo_group = lit ''net'', lo_fd = 4\<rparr>]),
     lh_socks = (\<lambda>_. None)(4 := Some (client_path (lit ''dw'') (lit ''net''))), lh_out = [], lh_fs = (net_fs [])\<lparr>f_dirs := [CLIENT_DIR @ lit ''dw'']\<rparr>, lh_errno = 0\<rparr>"

lemma demo_joined: "joined demo_head (lit ''net'') 4 (client_path (lit ''dw'') (lit ''net''))"
  using group_hash_total [of "lit ''net''"] by (auto simp: joined_def demo_head_def same_group_def lit_def)

theorem rclog_reaches_log_witness:
  "\<exists>h' buf s' f'. rc_log_default_callback (demo_env []) 1500 (Some (lit ''net'')) 6 (lit ''hi'') demo_head = Some h'
    \<and> lh_out h' = [(client_path (lit ''dw'') (lit ''net''), buf)] \<and> parse_packet no_faults (client_path (lit ''dw'') (lit ''net'')) buf demo_server = Some (0, s')
    \<and> lc_mem (ls_files s') 0 = Some f' \<and> logging (ls_files s') f' ([65] @ lit ''[1.500][dw][net][INFO]hi'')"
proof -
  let ?line = "lit ''[1.500][dw][net][INFO]hi''"
  have n: "name_ok (lit ''dw'')" "lit ''dw'' \<noteq> []" "length (lit ''net'') < 64" by (simp_all add: lit_def name_ok_def LOGFILTER_MAXSTRLEN_def)
  have e: "se_sends (demo_env []) = []" "(0 :: int) \<le> 6" "(6 :: int) < 8" "length (lit ''hi'') < 1528" by (simp_all add: demo_env_def lit_def)
  have l: "?line = line_head (sint (word_of_int 1500 :: u32)) (lit ''dw'') (lit ''net'') (levelstr ! nat 6) @ lit ''hi''" by code_simp
  have ll: "length ?line \<le> RCLOG_MAX_PACKET_SIZE + 64" by (simp add: lit_def RCLOG_MAX_PACKET_SIZE_def)
  have w: "ls_sends demo_server = []" "\<forall>u \<in> set (ls_uhead demo_server). ls_mem demo_server u \<noteq> None" by (simp_all add: demo_server_def)
  have small: "int (length ([65] @ ?line)) < LOGFILE_MAXSIZE" by (simp add: lit_def LOGFILE_MAXSIZE_def)
  have out: "lh_out demo_head = []" by (simp add: demo_head_def)
  from rclog_reaches_log [OF demo_joined e l ll n demo_known w demo_files(2,1,3-5) small, of no_faults]
  show ?thesis unfolding out by auto
qed

text \<open>
  A message that cannot be sent is lost, although \<open>send_log\<close> reports success: the socket is
  closed and the group's logger gets a new one, on which the next message goes out.
\<close>

theorem send_log_reconnects:
  assumes "joined h grp fd path" and "data \<noteq> []" and "se_sends env = [Write_error e]" and "e \<noteq> EINTR" and "e \<noteq> ENOMEM"
    and "se_again env = t" and "0 \<le> ct_socket t" and "ct_bind t" and "ct_connect t" and "length (lh_funname h) < 64"
    and "fst (check_dir (take 107 (CLIENT_DIR @ lh_funname h)) (lh_fs h)) = 0"
    and "dat2 \<noteq> []" and "se_sends env' = []"
  shows "\<exists>h' h''. send_log env (Some grp) data h = Some (0, h') \<and> lh_out h' = lh_out h
    \<and> send_log env' (Some grp) dat2 h' = Some (0, h'') \<and> lh_out h'' = lh_out h @ [(take 107 (client_path (lh_funname h) grp), dat2)]"
proof -
  obtain key l where k: "group_hash grp = Some key" "List.find (same_group grp) (lh_heads h key) = Some l" "lo_fd l = fd" "lh_init h" "0 \<le> fd" "lh_socks h fd = Some path"
    using assms(1) by (auto simp: joined_def)
  obtain b bs where data: "data = b # bs" using assms(2) by (cases data) auto
  let ?h1 = "h\<lparr>lh_errno := e, lh_socks := (lh_socks h)(fd := None)\<rparr>" let ?dir = "take 107 (CLIENT_DIR @ lh_funname h)"
  let ?h2 = "?h1\<lparr>lh_fs := snd (check_dir ?dir (lh_fs h)), lh_socks := ((lh_socks h)(fd := None))(ct_socket t := Some (take 107 (client_path (lh_funname h) grp)))\<rparr>"
  let ?h' = "?h2\<lparr>lh_heads := (lh_heads h)(key := set_fd grp (ct_socket t) (lh_heads h key))\<rparr>"
  have con: "connect_logd t (lh_funname h) grp ?h1 = Some (ct_socket t, ?h2)"
    using connect_logd_ok [OF assms(7-9), of "lh_funname h" ?h1 grp] assms(10,11) by (simp add: client_path_def)
  have h0: "h\<lparr>lh_out := lh_out h @ map (\<lambda>d. (path, d)) [], lh_errno := e\<rparr> = h\<lparr>lh_errno := e\<rparr>" by (cases h) simp
  have fail: "send_failed t (Some grp) fd (h\<lparr>lh_errno := e\<rparr>) = Some (0, ?h')"
    using k assms(5) con by (simp add: send_failed_def group_name_def)
  have run: "send_log env (Some grp) data h = Some (0, ?h')"
    using k data assms(3,4,6) fail h0 by (simp add: send_log_def get_logd_connection_def group_name_def)
  have "joined ?h' grp (ct_socket t) (take 107 (client_path (lh_funname h) grp))"
    using k find_set_fd [OF k(2), of "ct_socket t"] assms(7) by (auto simp: joined_def)
  note again = send_log_joined [OF this assms(12,13)]
  have same: "lh_out ?h' = lh_out h" by simp
  show ?thesis
    by (rule exI [where x = ?h'], rule exI [where x = "?h'\<lparr>lh_out := lh_out ?h' @ [(take 107 (client_path (lh_funname h) grp), dat2)]\<rparr>"])
      (intro conjI run same again, simp)
qed

theorem send_log_reconnects_witness:
  "\<exists>h' h''. send_log (demo_env [Write_error ECONNREFUSED]) (Some (lit ''net'')) [1] demo_head = Some (0, h') \<and> lh_out h' = []
    \<and> send_log (demo_env []) (Some (lit ''net'')) [2] h' = Some (0, h'') \<and> lh_out h'' = [(client_path (lit ''dw'') (lit ''net''), [2])]"
proof -
  have e: "se_sends (demo_env [Write_error ECONNREFUSED]) = [Write_error ECONNREFUSED]" "ECONNREFUSED \<noteq> EINTR" "ECONNREFUSED \<noteq> ENOMEM"
    "se_again (demo_env [Write_error ECONNREFUSED]) = demo_try" "0 \<le> ct_socket demo_try" "ct_bind demo_try" "ct_connect demo_try" "length (lh_funname demo_head) < 64"
    by (simp_all add: demo_env_def demo_try_def demo_head_def lit_def) (simp_all add: ECONNREFUSED_def EINTR_def ENOMEM_def)
  have f: "lh_funname demo_head = lit ''dw''" "lh_out demo_head = []" "take 107 (CLIENT_DIR @ lit ''dw'') = CLIENT_DIR @ lit ''dw''"
    "take 107 (client_path (lit ''dw'') (lit ''net'')) = client_path (lit ''dw'') (lit ''net'')"
    by (simp_all add: demo_head_def CLIENT_DIR_def client_path_def lit_def)
  have c: "fst (check_dir (take 107 (CLIENT_DIR @ lh_funname demo_head)) (lh_fs demo_head)) = 0"
    unfolding f by (simp add: check_dir_def on_disk_def demo_head_def net_fs_def outcome_def)
  from send_log_reconnects [OF demo_joined _ e c, of "[1]" "[2]" "demo_env []"] show ?thesis unfolding f by (simp add: demo_env_def)
qed

text \<open>
  Two ways to crash the program that logs: a call before \<open>init_local_logger\<close> reads the table that
  is not there, unless the last error was \<open>ENOMEM\<close>; and a message of more than 1528 characters sends
  bytes from behind the buffer.
\<close>

theorem rclog_crashes:
  "(\<not> lh_init h \<and> lh_errno h \<noteq> ENOMEM \<longrightarrow> send_log env g data h = None)
   \<and> (1528 < length msg \<longrightarrow> rc_log_default_callback env now g level msg h = None)"
proof (intro conjI impI)
  assume "\<not> lh_init h \<and> lh_errno h \<noteq> ENOMEM"
  then show "send_log env g data h = None" by (simp add: send_log_def get_logd_connection_def send_failed_def)
qed (simp add: rc_log_default_callback_def RCLOG_MAX_PACKET_SIZE_def)

theorem rclog_crashes_witness:
  "send_log (demo_env []) (Some (lit ''net'')) [1] (demo_head\<lparr>lh_init := False\<rparr>) = None
   \<and> rc_log_default_callback (demo_env []) 0 None 6 (replicate 1529 120) demo_head = None"
  using rclog_crashes [of "demo_head\<lparr>lh_init := False\<rparr>" "demo_env []" "Some (lit ''net'')" "[1]" "[]" 0 6]
    rclog_crashes [of demo_head "demo_env []" None "[]" "replicate 1529 120" 0 6] by (simp add: demo_head_def ENOMEM_def)

end
