(* ===== verification/LogMain.thy ===== *)
theory LogMain
  imports MainLoop LogClient
begin

text \<open>
  The frame of \<open>src/src/log/logd.c\<close>: starting the daemon and its loop, and the other side of the
  program, which asks a running daemon for its log lines and prints them.
\<close>

section \<open>The daemon\<close>

text \<open>
  The state is the server and whether the process has left through \<open>exit_logd\<close>, after which nothing
  happens any more. An event is its flags and what \<open>recvfrom\<close> returns.
\<close>

record logd =
  ld_server :: log_server
  ld_exited :: bool

type_synonym logd_turn = "(bool \<times> bool \<times> rx list) list"

fun logd_dispatch :: "logd_turn \<Rightarrow> logd \<Rightarrow> logd option" where
  "logd_dispatch [] s = Some s"
| "logd_dispatch ((inn, hup, rs) # es) s =
     (if ld_exited s then Some s
      else do { (ex, ret, sv) \<leftarrow> serverfn inn hup rs (ld_server s); logd_dispatch es (s\<lparr>ld_server := sv, ld_exited := ex\<rparr>) })"

text \<open>The loop has no timers; \<open>epoll_wait\<close> waits 100 ms each time.\<close>

definition logd_timers :: "logd_turn \<Rightarrow> logd \<Rightarrow> (u32 \<times> logd) option" where "logd_timers x s = Some (100, s)"

definition event_loop :: "bool \<Rightarrow> bool \<Rightarrow> bool \<Rightarrow> logd_turn wait list \<Rightarrow> logd \<Rightarrow> logd run option" where
  "event_loop create_ok mem_ok add_ok ws s =
     (if \<not> create_ok \<or> \<not> mem_ok \<or> \<not> add_ok then Some (Exited (- 1) s) else main_loop logd_dispatch logd_timers ws 100 s)"

record start_env =
  st_heads :: bool
  st_socket :: bool
  st_bind :: bool
  st_strdup :: bool
  st_init :: "bool \<times> bool \<times> bool \<times> dir_entry list"
  st_loop :: "bool \<times> bool \<times> bool"

definition start_logd :: "start_env \<Rightarrow> byte list \<Rightarrow> fsys \<Rightarrow> logd_turn wait list \<Rightarrow> (int + logd run) option" where
  "start_logd env logpath fs ws =
     (if \<not> st_heads env then Some (Inl (- ENOMEM))
      else if \<not> st_socket env \<or> \<not> st_bind env \<or> \<not> st_strdup env then Some (Inl (- 1))
      else case st_init env of (mem, chdir_ok, opened, es) \<Rightarrow> do {
        (ret, files) \<leftarrow> init_logfile mem logpath chdir_ok opened es fs;
        if ret < 0 then Some (Inl (- 1))
        else do {
          files \<leftarrow> files;
          let s = \<lparr>ld_server = \<lparr>ls_heads = (\<lambda>_. []), ls_uhead = [], ls_mem = (\<lambda>_. None), ls_new = 0, ls_files = files, ls_sent = [], ls_sends = []\<rparr>, ld_exited = False\<rparr>;
          case st_loop env of (create_ok, mem_ok, add_ok) \<Rightarrow> map_option Inr (event_loop create_ok mem_ok add_ok ws s) } })"

section \<open>The watcher\<close>

text \<open>
  \<open>get_log_runtime\<close>. The request is sent in full, or not; the lines that come back are received into
  the block of 1536 bytes that held it, each with a zero put behind it. What \<open>poll\<close> and \<open>recv\<close>
  return is a script: the lines and errors.
\<close>

datatype watch_ev = Poll_error int | Recv_error int | Recv_end | Recv_line "byte list"

fun send_request :: "write_ev list \<Rightarrow> byte list \<Rightarrow> bool" where
  "send_request ws [] = True"
| "send_request [] (b # bs) = True"
| "send_request (Write_error e # ws) (b # bs) = (if e = EINTR \<or> e = EAGAIN then send_request ws (b # bs) else False)"
| "send_request (Wrote n # ws) (b # bs) = send_request ws (drop (min n (length (b # bs))) (b # bs))"

text \<open>The loop over \<open>poll\<close> and \<open>recv\<close>; the result is what was printed and the return value where there is one.\<close>

fun watch_loop :: "watch_ev list \<Rightarrow> byte list \<Rightarrow> (byte list \<times> int option) option" where
  "watch_loop [] buf = Some ([], None)"
| "watch_loop (Poll_error e # es) buf = (if e = EINTR \<or> e = EAGAIN then watch_loop es buf else Some ([], Some (- 1)))"
| "watch_loop (Recv_error e # es) buf = (if e \<noteq> EAGAIN \<and> e \<noteq> EINTR then Some ([], Some (- 1)) else watch_loop es buf)"
| "watch_loop (Recv_end # es) buf = Some ([], Some (- 1))"
| "watch_loop (Recv_line line # es) buf =
     (let got = take RCLOG_MAX_PACKET_SIZE line in
      if got = [] then Some ([], Some (- 1))
      else do {
        buf \<leftarrow> mem_write buf 0 got;
        buf \<leftarrow> wr buf (length got) 0;
        (out, r) \<leftarrow> watch_loop es buf;
        Some (takeWhile (\<lambda>c. c \<noteq> 0) buf @ out, r) })"

definition get_log_runtime :: "conn_try \<Rightarrow> log_head \<Rightarrow> write_ev list \<Rightarrow> watch_ev list \<Rightarrow> byte list \<Rightarrow> byte list \<Rightarrow> (byte list \<times> int option) option" where
  "get_log_runtime t h ws es request buf = do {
     (fd, h) \<leftarrow> connect_logd t (lit ''logd'') (lit ''watch'') h;
     if fd < 0 then Some ([], Some (- 1))
     else if \<not> send_request ws request then Some ([], Some (- 1))
     else watch_loop es buf }"

section \<open>Properties\<close>

lemma wr_behind:
  assumes "length line < length buf" and "0 \<notin> set line"
  shows "\<exists>buf'. mem_write buf 0 line = Some buf' \<and> wr buf' (length line) 0 = Some (buf'[length line := 0]) \<and> length buf' = length buf
    \<and> takeWhile (\<lambda>c. c \<noteq> 0) (buf'[length line := 0]) = line"
proof -
  have "(blit buf 0 line)[length line := 0] = line @ 0 # drop (Suc (length line)) buf"
    using assms(1) by (simp add: blit_def list_update_append Cons_nth_drop_Suc [symmetric])
  moreover have "takeWhile (\<lambda>c. c \<noteq> 0) (line @ 0 # xs) = line" for xs
    by (subst takeWhile_append2) (use assms(2) in auto)
  ultimately show ?thesis using assms(1) by (simp add: mem_write_def wr_def)
qed

lemma watch_loop_prints:
  assumes "length buf = RCLOG_MAX_PACKET_SIZE" and "\<forall>l \<in> set ls. l \<noteq> [] \<and> 0 \<notin> set l \<and> length l < RCLOG_MAX_PACKET_SIZE"
  shows "watch_loop (map Recv_line ls) buf = Some (concat ls, None)"
  using assms
proof (induction ls arbitrary: buf)
  case (Cons l ls)
  then obtain buf' where b: "mem_write buf 0 l = Some buf'" "wr buf' (length l) 0 = Some (buf'[length l := 0])" "length (buf'[length l := 0]) = RCLOG_MAX_PACKET_SIZE"
      "takeWhile (\<lambda>c. c \<noteq> 0) (buf'[length l := 0]) = l"
    using wr_behind [of l buf] by auto
  then show ?case using Cons.IH [OF b(3)] Cons.prems(2) b by simp
qed simp

text \<open>
  C37. The lines that a watcher prints are those the daemon sent, as long as each is shorter than a
  packet; a line that fills the packet makes it write a zero behind its buffer. The daemon does build
  such lines, up to 64 characters longer than a packet.
\<close>

theorem watcher_prints_lines:
  assumes "length buf = RCLOG_MAX_PACKET_SIZE" and "connect_logd t (lit ''logd'') (lit ''watch'') h = Some (fd, h')" and "0 \<le> fd" and "send_request ws request"
    and "\<forall>l \<in> set ls. l \<noteq> [] \<and> 0 \<notin> set l \<and> length l < RCLOG_MAX_PACKET_SIZE" and "RCLOG_MAX_PACKET_SIZE \<le> length long"
  shows "get_log_runtime t h ws (map Recv_line ls) request buf = Some (concat ls, None)
    \<and> get_log_runtime t h ws (Recv_line long # es) request buf = None"
proof -
  have l: "length (take RCLOG_MAX_PACKET_SIZE long) = length buf" using assms(1,6) by simp
  have "(case mem_write buf 0 (take RCLOG_MAX_PACKET_SIZE long) of None \<Rightarrow> None | Some buf \<Rightarrow> wr buf (length (take RCLOG_MAX_PACKET_SIZE long)) 0) = None"
    unfolding l by (auto simp: mem_write_def wr_def blit_def l split: option.split)
  moreover have "take RCLOG_MAX_PACKET_SIZE long \<noteq> []" using assms(6) by (auto simp: RCLOG_MAX_PACKET_SIZE_def)
  ultimately have "watch_loop (Recv_line long # es) buf = None" by (auto simp: Let_def bind_eq_None_conv split: option.splits)
  then show ?thesis using watch_loop_prints [OF assms(1,5)] assms(2-4) by (simp add: get_log_runtime_def)
qed


definition watch_head :: log_head where
  "watch_head = demo_head\<lparr>lh_fs := (net_fs [])\<lparr>f_dirs := [CLIENT_DIR @ lit ''logd'']\<rparr>\<rparr>"

theorem watcher_prints_lines_witness:
  "get_log_runtime demo_try watch_head [Write_error EAGAIN] (map Recv_line [lit ''ab'', lit ''c'']) [36, 35, 82, 0xf0] (replicate RCLOG_MAX_PACKET_SIZE 0) = Some (lit ''abc'', None)
   \<and> get_log_runtime demo_try watch_head [Write_error EAGAIN] (Recv_line (replicate RCLOG_MAX_PACKET_SIZE 65) # []) [36, 35, 82, 0xf0] (replicate RCLOG_MAX_PACKET_SIZE 0) = None"
proof -
  have d: "take 107 (CLIENT_DIR @ lit ''logd'') = CLIENT_DIR @ lit ''logd''" by (simp add: CLIENT_DIR_def lit_def)
  have c: "fst (check_dir (take 107 (CLIENT_DIR @ lit ''logd'')) (lh_fs watch_head)) = 0"
    unfolding d by (simp add: check_dir_def on_disk_def watch_head_def net_fs_def outcome_def)
  have t: "0 \<le> ct_socket demo_try" "ct_bind demo_try" "ct_connect demo_try" "length (lit ''logd'') < 64" by (simp_all add: demo_try_def lit_def)
  note con = connect_logd_ok [OF t(1-3) c t(4), of "lit ''watch''"]
  have l: "\<forall>l \<in> set [lit ''ab'', lit ''c'']. l \<noteq> [] \<and> 0 \<notin> set l \<and> length l < RCLOG_MAX_PACKET_SIZE" by (simp add: lit_def RCLOG_MAX_PACKET_SIZE_def)
  have b: "length (replicate RCLOG_MAX_PACKET_SIZE (0 :: byte)) = RCLOG_MAX_PACKET_SIZE" "RCLOG_MAX_PACKET_SIZE \<le> length (replicate RCLOG_MAX_PACKET_SIZE (65 :: byte))" by simp_all
  have r: "send_request [Write_error EAGAIN] [36, 35, 82, 0xf0]" by simp
  have e: "concat [lit ''ab'', lit ''c''] = lit ''abc''" by (simp add: lit_def)
  from watcher_prints_lines [OF b(1) con t(1) r l b(2), of "[]"] show ?thesis unfolding e .
qed

end
