(* ===== verification/DList.thy ===== *)
theory DList
  imports Prelude
begin

text \<open>
  \<open>src/include/list.h\<close>, first half: circular doubly linked lists threaded through
  \<open>struct list_head\<close> members. The store is a map from addresses to \<open>list_head\<close> objects;
  every operation is the sequence of assignments of the source, undefined where one goes
  through a pointer to no object.

  The abstraction is \<open>clist h l xs\<close>: from the head \<open>l\<close> the ring visits the entries \<open>xs\<close>,
  forwards along \<open>next\<close> and backwards along \<open>prev\<close>. Each operation is shown to be the list
  function its comment promises, and to leave every object outside the lists it was given as
  it was.
\<close>

section \<open>The store\<close>

type_synonym addr = nat

definition NULL :: addr where "NULL = 0"

record list_head =
  lh_next :: addr
  lh_prev :: addr

type_synonym lheap = "addr \<rightharpoonup> list_head"

definition nx :: "lheap \<Rightarrow> addr \<Rightarrow> addr option" where "nx h p = map_option lh_next (h p)"
definition pv :: "lheap \<Rightarrow> addr \<Rightarrow> addr option" where "pv h p = map_option lh_prev (h p)"

definition set_next :: "lheap \<Rightarrow> addr \<Rightarrow> addr \<Rightarrow> lheap option" where
  "set_next h p v = map_option (\<lambda>n. h(p \<mapsto> n\<lparr>lh_next := v\<rparr>)) (h p)"

definition set_prev :: "lheap \<Rightarrow> addr \<Rightarrow> addr \<Rightarrow> lheap option" where
  "set_prev h p v = map_option (\<lambda>n. h(p \<mapsto> n\<lparr>lh_prev := v\<rparr>)) (h p)"

section \<open>Operations\<close>

definition INIT_LIST_HEAD :: "lheap \<Rightarrow> addr \<Rightarrow> lheap option" where
  "INIT_LIST_HEAD h list = do { h \<leftarrow> set_next h list list; set_prev h list list }"

definition list_add_between :: "lheap \<Rightarrow> addr \<Rightarrow> addr \<Rightarrow> addr \<Rightarrow> lheap option" where
  "list_add_between h newlist prev nxt = do {
     h \<leftarrow> set_prev h nxt newlist;
     h \<leftarrow> set_next h newlist nxt;
     h \<leftarrow> set_prev h newlist prev;
     set_next h prev newlist }"

definition list_add :: "lheap \<Rightarrow> addr \<Rightarrow> addr \<Rightarrow> lheap option" where
  "list_add h newlist head = do { n \<leftarrow> nx h head; list_add_between h newlist head n }"

definition list_add_tail :: "lheap \<Rightarrow> addr \<Rightarrow> addr \<Rightarrow> lheap option" where
  "list_add_tail h newlist head = do { p \<leftarrow> pv h head; list_add_between h newlist p head }"

definition list_del_between :: "lheap \<Rightarrow> addr \<Rightarrow> addr \<Rightarrow> lheap option" where
  "list_del_between h prev nxt = do { h \<leftarrow> set_prev h nxt prev; set_next h prev nxt }"

definition list_del_entry :: "lheap \<Rightarrow> addr \<Rightarrow> lheap option" where
  "list_del_entry h entry = do { p \<leftarrow> pv h entry; n \<leftarrow> nx h entry; list_del_between h p n }"

definition list_del :: "lheap \<Rightarrow> addr \<Rightarrow> lheap option" where
  "list_del h entry = do {
     p \<leftarrow> pv h entry; n \<leftarrow> nx h entry;
     h \<leftarrow> list_del_between h p n;
     h \<leftarrow> set_next h entry NULL;
     set_prev h entry NULL }"

definition list_replace :: "lheap \<Rightarrow> addr \<Rightarrow> addr \<Rightarrow> lheap option" where
  "list_replace h old newlist = do {
     n \<leftarrow> nx h old; h \<leftarrow> set_next h newlist n;
     n \<leftarrow> nx h newlist; h \<leftarrow> set_prev h n newlist;
     p \<leftarrow> pv h old; h \<leftarrow> set_prev h newlist p;
     p \<leftarrow> pv h newlist; set_next h p newlist }"

definition list_replace_init :: "lheap \<Rightarrow> addr \<Rightarrow> addr \<Rightarrow> lheap option" where
  "list_replace_init h old newlist = do { h \<leftarrow> list_replace h old newlist; INIT_LIST_HEAD h old }"

definition list_del_init :: "lheap \<Rightarrow> addr \<Rightarrow> lheap option" where
  "list_del_init h entry = do { h \<leftarrow> list_del_entry h entry; INIT_LIST_HEAD h entry }"

definition list_move :: "lheap \<Rightarrow> addr \<Rightarrow> addr \<Rightarrow> lheap option" where
  "list_move h list head = do { h \<leftarrow> list_del_entry h list; list_add h list head }"

definition list_move_tail :: "lheap \<Rightarrow> addr \<Rightarrow> addr \<Rightarrow> lheap option" where
  "list_move_tail h list head = do { h \<leftarrow> list_del_entry h list; list_add_tail h list head }"

definition list_is_last :: "lheap \<Rightarrow> addr \<Rightarrow> addr \<Rightarrow> bool option" where
  "list_is_last h list head = do { n \<leftarrow> nx h list; Some (n = head) }"

definition list_empty :: "lheap \<Rightarrow> addr \<Rightarrow> bool option" where
  "list_empty h head = do { n \<leftarrow> nx h head; Some (n = head) }"

definition list_empty_careful :: "lheap \<Rightarrow> addr \<Rightarrow> bool option" where
  "list_empty_careful h head = do {
     n \<leftarrow> nx h head;
     if n = head then do { p \<leftarrow> pv h head; Some (n = p) } else Some False }"

definition list_rotate_left :: "lheap \<Rightarrow> addr \<Rightarrow> lheap option" where
  "list_rotate_left h head = do {
     e \<leftarrow> list_empty h head;
     if \<not> e then do { first \<leftarrow> nx h head; list_move_tail h first head } else Some h }"

definition list_is_singular :: "lheap \<Rightarrow> addr \<Rightarrow> bool option" where
  "list_is_singular h head = do {
     e \<leftarrow> list_empty h head;
     if \<not> e then do { n \<leftarrow> nx h head; p \<leftarrow> pv h head; Some (n = p) } else Some False }"

definition list_cut_raw :: "lheap \<Rightarrow> addr \<Rightarrow> addr \<Rightarrow> addr \<Rightarrow> lheap option" where
  "list_cut_raw h list head entry = do {
     newlist_first \<leftarrow> nx h entry;
     n \<leftarrow> nx h head; h \<leftarrow> set_next h list n;
     n \<leftarrow> nx h list; h \<leftarrow> set_prev h n list;
     h \<leftarrow> set_prev h list entry;
     h \<leftarrow> set_next h entry list;
     h \<leftarrow> set_next h head newlist_first;
     set_prev h newlist_first head }"

definition list_cut_position :: "lheap \<Rightarrow> addr \<Rightarrow> addr \<Rightarrow> addr \<Rightarrow> lheap option" where
  "list_cut_position h list head entry = do {
     e \<leftarrow> list_empty h head;
     if e then Some h
     else do {
       s \<leftarrow> list_is_singular h head;
       n \<leftarrow> nx h head;
       if s \<and> n \<noteq> entry \<and> head \<noteq> entry then Some h
       else if entry = head then INIT_LIST_HEAD h list
       else list_cut_raw h list head entry } }"

definition list_splice_between :: "lheap \<Rightarrow> addr \<Rightarrow> addr \<Rightarrow> addr \<Rightarrow> lheap option" where
  "list_splice_between h list prev nxt = do {
     first \<leftarrow> nx h list;
     last \<leftarrow> pv h list;
     h \<leftarrow> set_prev h first prev;
     h \<leftarrow> set_next h prev first;
     h \<leftarrow> set_next h last nxt;
     set_prev h nxt last }"

definition list_splice :: "lheap \<Rightarrow> addr \<Rightarrow> addr \<Rightarrow> lheap option" where
  "list_splice h list head = do {
     e \<leftarrow> list_empty h list;
     if \<not> e then do { n \<leftarrow> nx h head; list_splice_between h list head n } else Some h }"

definition list_splice_tail :: "lheap \<Rightarrow> addr \<Rightarrow> addr \<Rightarrow> lheap option" where
  "list_splice_tail h list head = do {
     e \<leftarrow> list_empty h list;
     if \<not> e then do { p \<leftarrow> pv h head; list_splice_between h list p head } else Some h }"

definition list_splice_init :: "lheap \<Rightarrow> addr \<Rightarrow> addr \<Rightarrow> lheap option" where
  "list_splice_init h list head = do {
     e \<leftarrow> list_empty h list;
     if \<not> e then do {
       n \<leftarrow> nx h head; h \<leftarrow> list_splice_between h list head n; INIT_LIST_HEAD h list }
     else Some h }"

definition list_splice_tail_init :: "lheap \<Rightarrow> addr \<Rightarrow> addr \<Rightarrow> lheap option" where
  "list_splice_tail_init h list head = do {
     e \<leftarrow> list_empty h list;
     if \<not> e then do {
       p \<leftarrow> pv h head; h \<leftarrow> list_splice_between h list p head; INIT_LIST_HEAD h list }
     else Some h }"

text \<open>
  The traversal macros, as the sequence of cursor positions at which the body runs, with a
  body that may change the store: \<open>list_for_each\<close> reads \<open>pos->next\<close> after the body,
  \<open>list_for_each_safe\<close> before it. Fuel bounds the rounds; \<open>None\<close> also when it is used up.
\<close>

fun walk :: "(lheap \<Rightarrow> addr \<Rightarrow> addr option) \<Rightarrow> nat \<Rightarrow> (addr \<Rightarrow> lheap \<Rightarrow> lheap option) \<Rightarrow> addr
   \<Rightarrow> addr \<Rightarrow> lheap \<Rightarrow> (addr list \<times> lheap) option" where
  "walk step 0 body pos head h = None"
| "walk step (Suc fuel) body pos head h =
     (if pos = head then Some ([], h)
      else do {
        h \<leftarrow> body pos h;
        pos' \<leftarrow> step h pos;
        (ps, h) \<leftarrow> walk step fuel body pos' head h;
        Some (pos # ps, h) })"

definition list_for_each :: "nat \<Rightarrow> (addr \<Rightarrow> lheap \<Rightarrow> lheap option) \<Rightarrow> addr \<Rightarrow> lheap
   \<Rightarrow> (addr list \<times> lheap) option" where
  "list_for_each fuel body head h = do { pos \<leftarrow> nx h head; walk nx fuel body pos head h }"

definition list_for_each_prev :: "nat \<Rightarrow> (addr \<Rightarrow> lheap \<Rightarrow> lheap option) \<Rightarrow> addr \<Rightarrow> lheap
   \<Rightarrow> (addr list \<times> lheap) option" where
  "list_for_each_prev fuel body head h = do { pos \<leftarrow> pv h head; walk pv fuel body pos head h }"

fun walk_safe :: "(lheap \<Rightarrow> addr \<Rightarrow> addr option) \<Rightarrow> nat \<Rightarrow> (addr \<Rightarrow> lheap \<Rightarrow> lheap option) \<Rightarrow> addr
   \<Rightarrow> addr \<Rightarrow> addr \<Rightarrow> lheap \<Rightarrow> (addr list \<times> lheap) option" where
  "walk_safe step 0 body pos n head h = None"
| "walk_safe step (Suc fuel) body pos n head h =
     (if pos = head then Some ([], h)
      else do {
        h \<leftarrow> body pos h;
        n' \<leftarrow> step h n;
        (ps, h) \<leftarrow> walk_safe step fuel body n n' head h;
        Some (pos # ps, h) })"

definition list_for_each_safe :: "nat \<Rightarrow> (addr \<Rightarrow> lheap \<Rightarrow> lheap option) \<Rightarrow> addr \<Rightarrow> lheap
   \<Rightarrow> (addr list \<times> lheap) option" where
  "list_for_each_safe fuel body head h = do {
     pos \<leftarrow> nx h head; n \<leftarrow> nx h pos; walk_safe nx fuel body pos n head h }"

definition list_for_each_prev_safe :: "nat \<Rightarrow> (addr \<Rightarrow> lheap \<Rightarrow> lheap option) \<Rightarrow> addr \<Rightarrow> lheap
   \<Rightarrow> (addr list \<times> lheap) option" where
  "list_for_each_prev_safe fuel body head h = do {
     pos \<leftarrow> pv h head; n \<leftarrow> pv h pos; walk_safe pv fuel body pos n head h }"

section \<open>The abstraction\<close>

fun seg :: "lheap \<Rightarrow> addr \<Rightarrow> addr list \<Rightarrow> addr \<Rightarrow> bool" where
  "seg h p [] q \<longleftrightarrow> nx h p = Some q \<and> pv h q = Some p"
| "seg h p (x # xs) q \<longleftrightarrow> nx h p = Some x \<and> pv h x = Some p \<and> seg h x xs q"

definition clist :: "lheap \<Rightarrow> addr \<Rightarrow> addr list \<Rightarrow> bool" where
  "clist h l xs \<longleftrightarrow> distinct (l # xs) \<and> seg h l xs l"

lemma seg_append [simp]: "seg h p (xs @ y # ys) q \<longleftrightarrow> seg h p xs y \<and> seg h y ys q"
  by (induction xs arbitrary: p) auto

lemma seg_frame:
  assumes "seg h p xs q" and "\<And>a. a \<in> set (p # xs) \<Longrightarrow> nx h' a = nx h a"
    and "\<And>a. a \<in> set (xs @ [q]) \<Longrightarrow> pv h' a = pv h a"
  shows "seg h' p xs q"
  using assms by (induction xs arbitrary: p) auto

lemma seg_next: "seg h p xs q \<Longrightarrow> nx h p = Some (hd (xs @ [q]))"
  by (cases xs) auto

lemma seg_prev: "seg h p xs q \<Longrightarrow> pv h q = Some (last (p # xs))"
  by (induction xs arbitrary: p) auto

lemma nx_dom: "nx h p = Some q \<Longrightarrow> p \<in> dom h" by (auto simp: nx_def)
lemma pv_dom: "pv h p = Some q \<Longrightarrow> p \<in> dom h" by (auto simp: pv_def)

lemma seg_dom: "seg h p xs q \<Longrightarrow> set (p # xs @ [q]) \<subseteq> dom h"
  by (induction xs arbitrary: p) (auto dest: nx_dom pv_dom)

text \<open>Assignments, as equations on the two link maps.\<close>

definition upn :: "lheap \<Rightarrow> addr \<Rightarrow> addr \<Rightarrow> lheap" where
  "upn h p v = h(p \<mapsto> (the (h p))\<lparr>lh_next := v\<rparr>)"

definition upp :: "lheap \<Rightarrow> addr \<Rightarrow> addr \<Rightarrow> lheap" where
  "upp h p v = h(p \<mapsto> (the (h p))\<lparr>lh_prev := v\<rparr>)"

lemma set_next_eq [run_simps]: "p \<in> dom h \<Longrightarrow> set_next h p v = Some (upn h p v)"
  by (auto simp: set_next_def upn_def)

lemma set_prev_eq [run_simps]: "p \<in> dom h \<Longrightarrow> set_prev h p v = Some (upp h p v)"
  by (auto simp: set_prev_def upp_def)

lemma up_simps [simp]:
  "nx (upn h p v) = (nx h)(p \<mapsto> v)"
  "p \<in> dom h \<Longrightarrow> pv (upn h p v) = pv h"
  "pv (upp h p v) = (pv h)(p \<mapsto> v)"
  "p \<in> dom h \<Longrightarrow> nx (upp h p v) = nx h"
  "p \<in> dom h \<Longrightarrow> dom (upn h p v) = dom h"
  "p \<in> dom h \<Longrightarrow> dom (upp h p v) = dom h"
  "a \<noteq> p \<Longrightarrow> upn h p v a = h a"
  "a \<noteq> p \<Longrightarrow> upp h p v a = h a"
  by (auto simp: upn_def upp_def nx_def pv_def fun_eq_iff)

definition same_outside :: "addr set \<Rightarrow> lheap \<Rightarrow> lheap \<Rightarrow> bool" where
  "same_outside X h h' \<longleftrightarrow> dom h' = dom h \<and> (\<forall>a. a \<notin> X \<longrightarrow> h' a = h a)"

lemma same_outsideI: "dom h' = dom h \<Longrightarrow> (\<And>a. a \<notin> X \<Longrightarrow> h' a = h a) \<Longrightarrow> same_outside X h h'"
  by (simp add: same_outside_def)

text \<open>A list none of whose objects an operation touched is still the same list.\<close>

lemma clist_frame:
  assumes "clist h l xs" and "same_outside X h h'" and "X \<inter> set (l # xs) = {}"
  shows "clist h' l xs"
proof -
  have "h' a = h a" if "a \<in> set (l # xs)" for a
    using assms(2,3) that unfolding same_outside_def by blast
  then show ?thesis
    using assms(1) unfolding clist_def
    by (auto intro!: seg_frame [where h = h] simp: nx_def pv_def)
qed

lemma clist_dom: "clist h l xs \<Longrightarrow> set (l # xs) \<subseteq> dom h"
  using seg_dom by (force simp: clist_def)

lemma clist_next: "clist h l xs \<Longrightarrow> nx h l = Some (hd (xs @ [l]))"
  by (auto simp: clist_def dest: seg_next)

lemma clist_prev: "clist h l xs \<Longrightarrow> pv h l = Some (last (l # xs))"
  by (auto simp: clist_def dest: seg_prev)

lemma clist_entry:
  assumes "clist h l (as @ x # bs)"
  shows "nx h x = Some (hd (bs @ [l]))" and "pv h x = Some (last (l # as))"
  using assms by (auto simp: clist_def dest: seg_next seg_prev)

lemma list_empty_iff: "clist h l xs \<Longrightarrow> list_empty h l = Some (xs = [])"
  by (cases xs) (auto simp: list_empty_def clist_next clist_def)

lemma list_add_between_eq:
  assumes "{p, n, new} \<subseteq> dom h"
  shows "\<exists>h'. list_add_between h new p n = Some h' \<and> nx h' = (nx h)(new \<mapsto> n, p \<mapsto> new)
    \<and> pv h' = (pv h)(n \<mapsto> new, new \<mapsto> p) \<and> same_outside {p, n, new} h h'"
  using assms by (simp add: list_add_between_def run_simps same_outside_def del: domIff)

lemma list_del_between_eq:
  assumes "{p, n} \<subseteq> dom h"
  shows "\<exists>h'. list_del_between h p n = Some h' \<and> nx h' = (nx h)(p \<mapsto> n)
    \<and> pv h' = (pv h)(n \<mapsto> p) \<and> same_outside {p, n} h h'"
  using assms by (simp add: list_del_between_def run_simps same_outside_def)

lemma INIT_LIST_HEAD_eq:
  assumes "l \<in> dom h"
  shows "\<exists>h'. INIT_LIST_HEAD h l = Some h' \<and> clist h' l [] \<and> nx h' = (nx h)(l \<mapsto> l)
    \<and> pv h' = (pv h)(l \<mapsto> l) \<and> same_outside {l} h h'"
  using assms by (simp add: INIT_LIST_HEAD_def run_simps same_outside_def clist_def)

text \<open>A run keeps its middle when its last link, or its first, is turned to another node.\<close>

lemma seg_retarget:
  assumes "seg h p as c" and "nx h' (last (p # as)) = Some x" and "pv h' x = Some (last (p # as))"
    and "\<And>a. a \<in> set (butlast (p # as)) \<Longrightarrow> nx h' a = nx h a"
    and "\<And>a. a \<in> set as \<Longrightarrow> pv h' a = pv h a"
  shows "seg h' p as x"
  using assms by (induction as arbitrary: p) (auto split: if_splits)

lemma seg_resource:
  assumes "seg h p bs q" and "nx h' x = Some (hd (bs @ [q]))" and "pv h' (hd (bs @ [q])) = Some x"
    and "\<And>a. a \<in> set bs \<Longrightarrow> nx h' a = nx h a"
    and "\<And>a. a \<in> set (tl (bs @ [q])) \<Longrightarrow> pv h' a = pv h a"
  shows "seg h' x bs q"
  using assms by (cases bs) (auto intro: seg_frame [where h = h])

lemma seg_split: "seg h p (as @ bs) q \<Longrightarrow> seg h p as (hd (bs @ [q])) \<and> seg h (last (p # as)) bs q"
proof (cases bs)
  case Nil
  assume "seg h p (as @ bs) q"
  with Nil show ?thesis using seg_next seg_prev by (induction as arbitrary: p) auto
next
  case (Cons b bs')
  assume "seg h p (as @ bs) q"
  with Cons have "seg h p as b" "seg h b bs' q" by simp_all
  then show ?thesis using Cons by (cases as rule: rev_cases) auto
qed

lemma distinct_last_butlast: "distinct xs \<Longrightarrow> a \<in> set (butlast xs) \<Longrightarrow> a \<noteq> last xs"
  by (cases xs rule: rev_cases) auto

lemma seg_append_last:
  "seg h p as x \<Longrightarrow> seg h x bs q \<Longrightarrow> seg h p (as @ x # bs) q"
  by simp

text \<open>Insertion of a node at any place of a ring, and removal of one.\<close>

lemma clist_insert:
  assumes "clist h l (as @ bs)" and "x \<notin> set (l # as @ bs)"
    and "nx h' = (nx h)(x \<mapsto> hd (bs @ [l]), last (l # as) \<mapsto> x)"
    and "pv h' = (pv h)(hd (bs @ [l]) \<mapsto> x, x \<mapsto> last (l # as))"
  shows "clist h' l (as @ x # bs)"
proof -
  have d: "distinct (l # as @ bs)" and s: "seg h l (as @ bs) l"
    using assms(1) by (auto simp: clist_def)
  have dl: "distinct (l # as)" and dr: "distinct (bs @ [l])" using d by auto
  have nb: "a \<noteq> last (l # as)" if "a \<in> set (butlast (l # as))" for a
    using dl that by (rule distinct_last_butlast)
  have tb: "a \<noteq> hd (bs @ [l])" if "a \<in> set (tl (bs @ [l]))" for a
    using dr that by (cases bs) auto
  have lx: "last (l # as) \<noteq> x" "hd (bs @ [l]) \<noteq> x"
    using assms(2) last_in_set [of "l # as"] hd_in_set [of "bs @ [l]"] by auto
  have "seg h' l as x"
    using seg_split [OF s, THEN conjunct1]
  proof (rule seg_retarget)
    show "nx h' a = nx h a" if "a \<in> set (butlast (l # as))" for a
      using nb [OF that] in_set_butlastD [OF that] assms(2) by (auto simp: assms(3))
    show "pv h' a = pv h a" if "a \<in> set as" for a
      using that d assms(2) by (cases bs) (auto simp: assms(4))
  qed (use lx in \<open>simp_all add: assms(3,4)\<close>)
  moreover have "seg h' x bs l"
    using seg_split [OF s, THEN conjunct2]
  proof (rule seg_resource)
    show "nx h' a = nx h a" if "a \<in> set bs" for a
      using that d assms(2) last_in_set [of "l # as"] by (auto simp: assms(3))
    show "pv h' a = pv h a" if "a \<in> set (tl (bs @ [l]))" for a
      using tb [OF that] list.set_sel(2) [OF _ that] assms(2) by (auto simp: assms(4))
  qed (use lx in \<open>simp_all add: assms(3,4)\<close>)
  ultimately show ?thesis using d assms(2) by (simp add: clist_def)
qed

lemma clist_remove:
  assumes "clist h l (as @ x # bs)"
    and "nx h' = (nx h)(last (l # as) \<mapsto> hd (bs @ [l]))"
    and "pv h' = (pv h)(hd (bs @ [l]) \<mapsto> last (l # as))"
  shows "clist h' l (as @ bs)"
proof -
  have d: "distinct (l # as @ x # bs)" and s: "seg h l as x" "seg h x bs l"
    using assms(1) by (auto simp: clist_def)
  show ?thesis
  proof (cases bs)
    case Nil
    have "seg h' l as l"
      using s(1) by (rule seg_retarget)
       (use d Nil in \<open>auto simp: assms(2,3) dest: in_set_butlastD distinct_last_butlast split: if_splits\<close>)
    then show ?thesis using d Nil by (simp add: clist_def)
  next
    case (Cons b bs')
    have "seg h' l as b"
      using s(1) by (rule seg_retarget)
       (use d Cons in \<open>auto simp: assms(2,3) dest: in_set_butlastD distinct_last_butlast split: if_splits\<close>)
    moreover have "last (l # as) \<notin> set (b # bs')"
      using d Cons by (cases as rule: rev_cases) auto
    then have "seg h' b bs' l"
      using s(2) Cons d
      by (auto intro!: seg_frame [where h = h] simp: assms(2,3))
    ultimately show ?thesis using d Cons by (simp add: clist_def)
  qed
qed

lemma clist_splice:
  assumes "clist h m (as @ bs)" and "clist h l xs" and "xs \<noteq> []"
    and "set (m # as @ bs) \<inter> set (l # xs) = {}"
    and "nx h' = (nx h)(last (m # as) \<mapsto> hd xs, last xs \<mapsto> hd (bs @ [m]))"
    and "pv h' = (pv h)(hd xs \<mapsto> last (m # as), hd (bs @ [m]) \<mapsto> last xs)"
  shows "clist h' m (as @ xs @ bs)"
proof -
  obtain x xs' where xs: "xs = x # xs'" using assms(3) by (cases xs) auto
  have d: "distinct (m # as @ bs)" "distinct (l # xs)" and s: "seg h m (as @ bs) m" "seg h l xs l"
    using assms(1,2) by (auto simp: clist_def)
  have lm: "last (m # as) \<in> set (m # as)" "last (m # as) \<notin> set bs"
    using d(1) by (rule_tac [1] last_in_set, simp, cases as rule: rev_cases, auto)
  have lx: "last xs \<in> set xs" using assms(3) by simp
  have hm: "hd (bs @ [m]) \<in> set (m # bs)" by (cases bs) auto
  have "seg h' m as x"
    using seg_split [OF s(1), THEN conjunct1]
  proof (rule seg_retarget)
    show "nx h' a = nx h a" if "a \<in> set (butlast (m # as))" for a
      using distinct_last_butlast [of "m # as", OF _ that] in_set_butlastD [OF that] d assms(4) lx
      by (auto simp: assms(5))
    show "pv h' a = pv h a" if "a \<in> set as" for a
      using that d assms(4) hm by (auto simp: assms(6) xs)
    show "nx h' (last (m # as)) = Some x" using lm lx assms(4) by (auto simp: assms(5) xs)
    show "pv h' x = Some (last (m # as))" using hm assms(4) by (auto simp: assms(6) xs)
  qed
  moreover have "seg h' x xs' (hd (bs @ [m]))"
  proof (rule seg_retarget)
    show "seg h x xs' l" using s(2) by (simp add: xs)
    show "nx h' a = nx h a" if "a \<in> set (butlast (x # xs'))" for a
      using distinct_last_butlast [of "x # xs'", OF _ that] in_set_butlastD [OF that] d assms(4) lm
      by (auto simp: assms(5) xs)
    show "pv h' a = pv h a" if "a \<in> set xs'" for a
      using that d assms(4) hm by (auto simp: assms(6) xs)
  qed (simp_all add: assms(5,6) xs)
  moreover have "seg h' (last (x # xs')) bs m"
    using seg_split [OF s(1), THEN conjunct2]
  proof (rule seg_resource)
    show "nx h' a = nx h a" if "a \<in> set bs" for a
    proof -
      have "a \<noteq> last (m # as)" "a \<noteq> last xs" using that lm(2) lx assms(4) by auto
      then show ?thesis by (simp add: assms(5))
    qed
    show "pv h' a = pv h a" if "a \<in> set (tl (bs @ [m]))" for a
      using that d assms(4) by (cases bs) (auto simp: assms(6) xs)
  qed (simp_all add: assms(5,6) xs)
  ultimately have "seg h' m (as @ xs @ bs) m"
    by (cases bs; cases xs' rule: rev_cases) (simp_all add: xs)
  then show ?thesis using d assms(4) by (auto simp: clist_def)
qed

section \<open>The operations\<close>

lemma same_outside_trans:
  "same_outside X h h' \<Longrightarrow> same_outside Y h' h'' \<Longrightarrow> same_outside (X \<union> Y) h h''"
  by (simp add: same_outside_def)

lemma same_outside_mono: "same_outside X h h' \<Longrightarrow> X \<subseteq> Y \<Longrightarrow> same_outside Y h h'"
  by (auto simp: same_outside_def)

lemma same_outside_dom: "same_outside X h h' \<Longrightarrow> dom h' = dom h"
  by (simp add: same_outside_def)

lemma list_add_correct:
  assumes "clist h l xs" and "x \<in> dom h" and "x \<notin> set (l # xs)"
  shows "\<exists>h'. list_add h x l = Some h' \<and> clist h' l (x # xs) \<and> same_outside (set (x # l # xs)) h h'"
proof -
  let ?n = "hd (xs @ [l])"
  have n: "?n \<in> set (l # xs)" by (cases xs) auto
  have dom: "{l, ?n, x} \<subseteq> dom h" using clist_dom [OF assms(1)] n assms(2) by auto
  obtain h' where h': "list_add_between h x l ?n = Some h'"
    "nx h' = (nx h)(x \<mapsto> ?n, l \<mapsto> x)" "pv h' = (pv h)(?n \<mapsto> x, x \<mapsto> l)" "same_outside {l, ?n, x} h h'"
    using list_add_between_eq [OF dom] by blast
  have "clist h' l ([] @ x # xs)"
    by (rule clist_insert [where h = h]) (use assms h' in simp_all)
  moreover have "list_add h x l = Some h'"
    using h'(1) clist_next [OF assms(1)] by (simp add: list_add_def)
  moreover have "same_outside (set (x # l # xs)) h h'"
    using h'(4) n by (auto simp: same_outside_def)
  ultimately show ?thesis by auto
qed

lemma list_add_tail_correct:
  assumes "clist h l xs" and "x \<in> dom h" and "x \<notin> set (l # xs)"
  shows "\<exists>h'. list_add_tail h x l = Some h' \<and> clist h' l (xs @ [x]) \<and> same_outside (set (x # l # xs)) h h'"
proof -
  let ?p = "last (l # xs)"
  have p: "?p \<in> set (l # xs)" by (rule last_in_set) simp
  have dom: "{?p, l, x} \<subseteq> dom h" using clist_dom [OF assms(1)] p assms(2) by auto
  obtain h' where h': "list_add_between h x ?p l = Some h'"
    "nx h' = (nx h)(x \<mapsto> l, ?p \<mapsto> x)" "pv h' = (pv h)(l \<mapsto> x, x \<mapsto> ?p)" "same_outside {?p, l, x} h h'"
    using list_add_between_eq [OF dom] by blast
  have "clist h' l (xs @ x # [])"
    by (rule clist_insert [where h = h]) (use assms h' in simp_all)
  moreover have "list_add_tail h x l = Some h'"
    using h'(1) clist_prev [OF assms(1)] by (simp add: list_add_tail_def)
  moreover have "same_outside (set (x # l # xs)) h h'"
    by (rule same_outside_mono [OF h'(4)]) (use p in \<open>auto simp del: last.simps\<close>)
  ultimately show ?thesis by auto
qed

lemma list_del_entry_correct:
  assumes "clist h l (as @ x # bs)"
  shows "\<exists>h'. list_del_entry h x = Some h' \<and> clist h' l (as @ bs)
    \<and> same_outside (set (l # as @ bs)) h h'"
proof -
  let ?p = "last (l # as)" and ?n = "hd (bs @ [l])"
  have pn: "?p \<in> set (l # as)" "?n \<in> set (l # bs)" by (rule last_in_set, simp, cases bs, auto)
  have dom: "{?p, ?n} \<subseteq> dom h" using clist_dom [OF assms] pn by auto
  obtain h' where h': "list_del_between h ?p ?n = Some h'" "nx h' = (nx h)(?p \<mapsto> ?n)"
    "pv h' = (pv h)(?n \<mapsto> ?p)" "same_outside {?p, ?n} h h'"
    using list_del_between_eq [OF dom] by blast
  have "clist h' l (as @ bs)" using assms h'(2,3) by (rule clist_remove)
  moreover have "list_del_entry h x = Some h'"
    using h'(1) clist_entry [OF assms] by (simp add: list_del_entry_def)
  moreover have "same_outside (set (l # as @ bs)) h h'"
    by (rule same_outside_mono [OF h'(4)]) (use pn in \<open>auto simp del: last.simps\<close>)
  ultimately show ?thesis by blast
qed

lemma list_del_entry_then:
  "list_del h x = do { h \<leftarrow> list_del_entry h x; h \<leftarrow> set_next h x NULL; set_prev h x NULL }"
  by (simp add: list_del_def list_del_entry_def)

lemma list_del_correct:
  assumes "clist h l (as @ x # bs)"
  shows "\<exists>h'. list_del h x = Some h' \<and> clist h' l (as @ bs) \<and> nx h' x = Some NULL \<and> pv h' x = Some NULL
    \<and> same_outside (set (l # as @ x # bs)) h h'"
proof -
  obtain h1 where h1: "list_del_entry h x = Some h1" "clist h1 l (as @ bs)"
    "same_outside (set (l # as @ bs)) h h1"
    using list_del_entry_correct [OF assms] by blast
  have x: "x \<in> dom h1" using clist_dom [OF assms] same_outside_dom [OF h1(3)] by auto
  define h' where "h' = upp (upn h1 x NULL) x NULL"
  have out: "same_outside {x} h1 h'"
    using x by (simp add: h'_def same_outside_def)
  have "list_del h x = Some h'"
    using h1(1) x by (simp add: list_del_entry_then h'_def run_simps del: domIff)
  moreover have "clist h' l (as @ bs)"
    using h1(2) out by (rule clist_frame) (use assms in \<open>auto simp: clist_def\<close>)
  moreover have "nx h' x = Some NULL" "pv h' x = Some NULL" using x by (simp_all add: h'_def)
  moreover have "same_outside (set (l # as @ x # bs)) h h'"
    by (rule same_outside_mono [OF same_outside_trans [OF h1(3) out]]) auto
  ultimately show ?thesis by blast
qed

lemma list_del_init_correct:
  assumes "clist h l (as @ x # bs)"
  shows "\<exists>h'. list_del_init h x = Some h' \<and> clist h' l (as @ bs) \<and> clist h' x []
    \<and> same_outside (set (l # as @ x # bs)) h h'"
proof -
  obtain h1 where h1: "list_del_entry h x = Some h1" "clist h1 l (as @ bs)"
    "same_outside (set (l # as @ bs)) h h1"
    using list_del_entry_correct [OF assms] by blast
  have x: "x \<in> dom h1" using clist_dom [OF assms] same_outside_dom [OF h1(3)] by auto
  obtain h' where h': "INIT_LIST_HEAD h1 x = Some h'" "clist h' x []" "same_outside {x} h1 h'"
    using INIT_LIST_HEAD_eq [OF x] by blast
  have "clist h' l (as @ bs)"
    using h1(2) h'(3) by (rule clist_frame) (use assms in \<open>auto simp: clist_def\<close>)
  moreover have "same_outside (set (l # as @ x # bs)) h h'"
    by (rule same_outside_mono [OF same_outside_trans [OF h1(3) h'(3)]]) auto
  ultimately show ?thesis using h1(1) h' by (simp add: list_del_init_def)
qed

lemma list_move_tail_same:
  assumes "clist h l (as @ x # bs)"
  shows "\<exists>h'. list_move_tail h x l = Some h' \<and> clist h' l (as @ bs @ [x])
    \<and> same_outside (set (l # as @ x # bs)) h h'"
proof -
  obtain h1 where h1: "list_del_entry h x = Some h1" "clist h1 l (as @ bs)"
    "same_outside (set (l # as @ bs)) h h1"
    using list_del_entry_correct [OF assms] by blast
  have x: "x \<in> dom h1" using clist_dom [OF assms] same_outside_dom [OF h1(3)] by auto
  have "x \<notin> set (l # as @ bs)" using assms by (auto simp: clist_def)
  then obtain h' where h': "list_add_tail h1 x l = Some h'" "clist h' l ((as @ bs) @ [x])"
    "same_outside (set (x # l # as @ bs)) h1 h'"
    using list_add_tail_correct [OF h1(2) x] by blast
  have "same_outside (set (l # as @ x # bs)) h h'"
    by (rule same_outside_mono [OF same_outside_trans [OF h1(3) h'(3)]]) auto
  then show ?thesis using h1(1) h' by (simp add: list_move_tail_def)
qed

lemma list_move_correct:
  assumes "clist h l (as @ x # bs)" and "clist h m ys" and "set (m # ys) \<inter> set (l # as @ x # bs) = {}"
  shows "\<exists>h'. list_move h x m = Some h' \<and> clist h' l (as @ bs) \<and> clist h' m (x # ys)"
    and "\<exists>h'. list_move_tail h x m = Some h' \<and> clist h' l (as @ bs) \<and> clist h' m (ys @ [x])"
proof -
  obtain h1 where h1: "list_del_entry h x = Some h1" "clist h1 l (as @ bs)"
    "same_outside (set (l # as @ bs)) h h1"
    using list_del_entry_correct [OF assms(1)] by blast
  have x: "x \<in> dom h1" using clist_dom [OF assms(1)] same_outside_dom [OF h1(3)] by auto
  have m: "clist h1 m ys" using assms(2) h1(3) by (rule clist_frame) (use assms(3) in auto)
  have fresh: "x \<notin> set (m # ys)" using assms(3) by auto
  have apart: "set (x # m # ys) \<inter> set (l # as @ bs) = {}" using assms(1,3) by (auto simp: clist_def)
  obtain h2 where h2: "list_add h1 x m = Some h2" "clist h2 m (x # ys)" "same_outside (set (x # m # ys)) h1 h2"
    using list_add_correct [OF m x fresh] by blast
  have "clist h2 l (as @ bs)" using h1(2) h2(3) apart by (rule clist_frame)
  then show "\<exists>h'. list_move h x m = Some h' \<and> clist h' l (as @ bs) \<and> clist h' m (x # ys)"
    using h1 h2 by (simp add: list_move_def)
  obtain h3 where h3: "list_add_tail h1 x m = Some h3" "clist h3 m (ys @ [x])" "same_outside (set (x # m # ys)) h1 h3"
    using list_add_tail_correct [OF m x fresh] by blast
  have "clist h3 l (as @ bs)" using h1(2) h3(3) apart by (rule clist_frame)
  then show "\<exists>h'. list_move_tail h x m = Some h' \<and> clist h' l (as @ bs) \<and> clist h' m (ys @ [x])"
    using h1 h3 by (simp add: list_move_tail_def)
qed

lemma list_replace_correct:
  assumes "clist h l (as @ x # bs)" and "y \<in> dom h" and "y \<notin> set (l # as @ x # bs)"
  shows "\<exists>h'. list_replace h x y = Some h' \<and> clist h' l (as @ y # bs)
    \<and> same_outside (set (y # l # as @ bs)) h h'"
proof -
  let ?p = "last (l # as)" and ?n = "hd (bs @ [l])"
  have pn: "?p \<in> set (l # as)" "?n \<in> set (l # bs)" by (rule last_in_set, simp, cases bs, auto)
  have dom: "?p \<in> dom h" "?n \<in> dom h" "x \<in> dom h" "y \<in> dom h"
    using clist_dom [OF assms(1)] pn assms(2) by auto
  have ne: "y \<noteq> ?p" "y \<noteq> ?n" "x \<noteq> ?p" "x \<noteq> ?n" "x \<noteq> y"
    using pn assms by (auto simp: clist_def)
  define h0 where "h0 = upn (upp h ?n ?p) ?p ?n"
  have h0: "clist h0 l (as @ bs)"
    using assms(1) by (rule clist_remove) (use dom in \<open>simp_all add: h0_def\<close>)
  define h' where "h' = upn (upp (upp (upn h y ?n) ?n y) y ?p) ?p y"
  have run: "list_replace h x y = Some h'"
    using dom ne clist_entry [OF assms(1)]
    by (simp add: list_replace_def run_simps h'_def del: domIff last.simps)
  have "clist h' l (as @ y # bs)"
    using h0
  proof (rule clist_insert)
    show "y \<notin> set (l # as @ bs)" using assms(3) by auto
    show "nx h' = (nx h0)(y \<mapsto> ?n, ?p \<mapsto> y)" "pv h' = (pv h0)(?n \<mapsto> y, y \<mapsto> ?p)"
      using dom ne by (simp_all add: h'_def h0_def fun_eq_iff del: domIff last.simps)
  qed
  moreover have "same_outside (set (y # l # as @ bs)) h h'"
  proof (rule same_outside_mono)
    show "same_outside {?p, ?n, y} h h'"
      using dom by (simp add: same_outside_def h'_def del: domIff last.simps)
  qed (use pn in \<open>auto simp del: last.simps\<close>)
  ultimately show ?thesis using run by blast
qed

lemma list_splice_between_eq:
  assumes "{first, lst, p, n} \<subseteq> dom h" and "nx h l = Some first" and "pv h l = Some lst"
  shows "\<exists>h'. list_splice_between h l p n = Some h' \<and> nx h' = (nx h)(p \<mapsto> first, lst \<mapsto> n)
    \<and> pv h' = (pv h)(first \<mapsto> p, n \<mapsto> lst) \<and> same_outside {first, lst, p, n} h h'"
  using assms by (simp add: list_splice_between_def run_simps same_outside_def)

lemma splice_at:
  assumes "clist h m (as @ bs)" and "clist h l xs" and "xs \<noteq> []"
    and "set (m # as @ bs) \<inter> set (l # xs) = {}"
  shows "\<exists>h'. list_splice_between h l (last (m # as)) (hd (bs @ [m])) = Some h'
    \<and> clist h' m (as @ xs @ bs) \<and> same_outside (set (m # as @ bs @ xs)) h h'"
proof -
  let ?p = "last (m # as)" and ?n = "hd (bs @ [m])"
  have pn: "?p \<in> set (m # as)" "?n \<in> set (m # bs)" "hd xs \<in> set xs" "last xs \<in> set xs"
    using assms(3) by (rule_tac [1] last_in_set, simp_all, cases bs, simp_all)
  have "{hd xs, last xs, ?p, ?n} \<subseteq> dom h"
    using clist_dom [OF assms(1)] clist_dom [OF assms(2)] pn by auto
  then obtain h' where h': "list_splice_between h l ?p ?n = Some h'"
    "nx h' = (nx h)(?p \<mapsto> hd xs, last xs \<mapsto> ?n)" "pv h' = (pv h)(hd xs \<mapsto> ?p, ?n \<mapsto> last xs)"
    "same_outside {hd xs, last xs, ?p, ?n} h h'"
    using list_splice_between_eq [of "hd xs" "last xs" ?p ?n h l] clist_next [OF assms(2)]
      clist_prev [OF assms(2)] assms(3) by auto
  have "clist h' m (as @ xs @ bs)"
    using assms h'(2,3) by (rule clist_splice)
  moreover have "same_outside (set (m # as @ bs @ xs)) h h'"
    by (rule same_outside_mono [OF h'(4)]) (use pn in \<open>auto simp del: last.simps\<close>)
  ultimately show ?thesis using h'(1) by blast
qed

lemma list_splice_correct:
  assumes "clist h m ys" and "clist h l xs" and "set (m # ys) \<inter> set (l # xs) = {}"
  shows "\<exists>h'. list_splice h l m = Some h' \<and> clist h' m (xs @ ys) \<and> same_outside (set (m # ys @ xs)) h h'"
    and "\<exists>h'. list_splice_tail h l m = Some h' \<and> clist h' m (ys @ xs) \<and> same_outside (set (m # ys @ xs)) h h'"
proof -
  note e = list_empty_iff [OF assms(2)]
  show "\<exists>h'. list_splice h l m = Some h' \<and> clist h' m (xs @ ys) \<and> same_outside (set (m # ys @ xs)) h h'"
  proof (cases "xs = []")
    case True
    then show ?thesis using e assms by (simp add: list_splice_def same_outside_def)
  next
    case False
    then show ?thesis
      using e splice_at [of h m "[]" ys l xs] assms clist_next [OF assms(1)]
      by (simp add: list_splice_def Un_ac)
  qed
  show "\<exists>h'. list_splice_tail h l m = Some h' \<and> clist h' m (ys @ xs) \<and> same_outside (set (m # ys @ xs)) h h'"
  proof (cases "xs = []")
    case True
    then show ?thesis using e assms by (simp add: list_splice_tail_def same_outside_def)
  next
    case False
    then show ?thesis
      using e splice_at [of h m ys "[]" l xs] assms clist_prev [OF assms(1)]
      by (simp add: list_splice_tail_def Un_ac del: last.simps)
  qed
qed

lemma list_splice_init_correct:
  assumes "clist h m ys" and "clist h l xs" and "set (m # ys) \<inter> set (l # xs) = {}"
  shows "\<exists>h'. list_splice_init h l m = Some h' \<and> clist h' m (xs @ ys) \<and> clist h' l []"
    and "\<exists>h'. list_splice_tail_init h l m = Some h' \<and> clist h' m (ys @ xs) \<and> clist h' l []"
proof -
  have fin: "\<exists>h2. INIT_LIST_HEAD h1 l = Some h2 \<and> clist h2 m zs \<and> clist h2 l []"
    if "clist h1 m zs" "same_outside (set (m # ys @ xs)) h h1" "set zs = set xs \<union> set ys" for h1 zs
  proof -
    have "l \<in> dom h1" using clist_dom [OF assms(2)] same_outside_dom [OF that(2)] by auto
    then obtain h2 where h2: "INIT_LIST_HEAD h1 l = Some h2" "clist h2 l []" "same_outside {l} h1 h2"
      using INIT_LIST_HEAD_eq by blast
    have "clist h2 m zs" using that(1) h2(3)
      by (rule clist_frame) (use assms(2,3) that(3) in \<open>auto simp: clist_def\<close>)
    with h2 show ?thesis by blast
  qed
  have init: "list_splice_init h l m = (if xs = [] then Some h else Option.bind (list_splice h l m) (\<lambda>h. INIT_LIST_HEAD h l))"
    "list_splice_tail_init h l m = (if xs = [] then Some h else Option.bind (list_splice_tail h l m) (\<lambda>h. INIT_LIST_HEAD h l))"
    using list_empty_iff [OF assms(2)]
    by (simp_all add: list_splice_init_def list_splice_tail_init_def list_splice_def list_splice_tail_def)
  show "\<exists>h'. list_splice_init h l m = Some h' \<and> clist h' m (xs @ ys) \<and> clist h' l []"
    using list_splice_correct(1) [OF assms] fin [of _ "xs @ ys"] assms init
    by (cases "xs = []") fastforce+
  show "\<exists>h'. list_splice_tail_init h l m = Some h' \<and> clist h' m (ys @ xs) \<and> clist h' l []"
    using list_splice_correct(2) [OF assms] fin [of _ "ys @ xs"] assms init
    by (cases "xs = []") fastforce+
qed

lemma list_is_singular_iff: "clist h l xs \<Longrightarrow> list_is_singular h l = Some (length xs = 1)"
proof (cases xs rule: remdups_adj.cases)
  case (3 x y zs)
  assume c: "clist h l xs"
  have "last (y # zs) \<in> set (y # zs)" by (rule last_in_set) simp
  then have "x \<noteq> last (y # zs)" using c 3 by (auto simp: clist_def simp del: last.simps)
  then show ?thesis
    using 3 clist_next [OF c] clist_prev [OF c] list_empty_iff [OF c] by (simp add: list_is_singular_def)
qed (simp_all add: list_is_singular_def list_empty_iff clist_next clist_prev)

lemma list_cut_raw_correct:
  assumes "clist h l (as @ x # bs)" and "m \<in> dom h" and "m \<notin> set (l # as @ x # bs)"
  shows "\<exists>h'. list_cut_raw h m l x = Some h' \<and> clist h' m (as @ [x]) \<and> clist h' l bs
    \<and> same_outside (set (m # l # as @ x # bs)) h h'"
proof -
  let ?f = "hd (as @ [x])" and ?n = "hd (bs @ [l])"
  have d: "distinct (l # as @ x # bs)" and s: "seg h l as x" "seg h x bs l"
    using assms(1) by (auto simp: clist_def)
  have fn: "?f \<in> set (as @ [x])" "?n \<in> set (bs @ [l])" by (rule hd_in_set, simp)+
  have dom: "?f \<in> dom h" "?n \<in> dom h" "l \<in> dom h" "x \<in> dom h" "m \<in> dom h"
    using clist_dom [OF assms(1)] fn assms(2) by (auto simp del: hd_append)
  have ne: "m \<noteq> ?f" "m \<noteq> ?n" "m \<noteq> l" "m \<noteq> x" "l \<noteq> x" "l \<noteq> ?f" "x \<noteq> ?n" "?f \<noteq> ?n"
    using fn d assms(3) by (auto simp del: hd_append)
  define h' where "h' = upp (upn (upn (upp (upp (upn h m ?f) ?f m) m x) x m) l ?n) ?n l"
  have run: "list_cut_raw h m l x = Some h'"
    using dom ne seg_next [OF s(1)] seg_next [OF s(2)]
    by (simp add: list_cut_raw_def run_simps h'_def del: domIff hd_append)
  have nx': "nx h' = (nx h)(m \<mapsto> ?f, x \<mapsto> m, l \<mapsto> ?n)"
    and pv': "pv h' = (pv h)(?f \<mapsto> m, m \<mapsto> x, ?n \<mapsto> l)"
    using dom ne by (simp_all add: h'_def fun_eq_iff del: domIff hd_append)
  have tn: "a \<noteq> ?n \<and> a \<in> set (bs @ [l])" if "a \<in> set (tl (bs @ [l]))" for a
    using that d by (cases bs) auto
  have tf: "a \<noteq> ?f \<and> a \<in> set (as @ [x])" if "a \<in> set (tl (as @ [x]))" for a
    using that d by (cases as) auto
  have "seg h' l bs l"
    using s(2)
  proof (rule seg_resource)
    show "nx h' a = nx h a" if "a \<in> set bs" for a
      using that d assms(3) by (auto simp: nx')
    show "pv h' a = pv h a" if "a \<in> set (tl (bs @ [l]))" for a
      using tn [OF that] fn(1) d assms(3) by (auto simp: pv' simp del: hd_append)
  qed (use ne in \<open>simp_all add: nx' pv' del: hd_append\<close>)
  moreover have "seg h' m as x"
    using s(1)
  proof (rule seg_resource)
    show "nx h' a = nx h a" if "a \<in> set as" for a
      using that d assms(3) by (auto simp: nx')
    show "pv h' a = pv h a" if "a \<in> set (tl (as @ [x]))" for a
      using tf [OF that] fn(2) d assms(3) by (auto simp: pv' simp del: hd_append)
  qed (use ne in \<open>simp_all add: nx' pv' del: hd_append\<close>)
  moreover have "seg h' x [] m" using ne by (simp add: nx' pv')
  ultimately have "clist h' m (as @ [x])" "clist h' l bs"
    using d assms(3) by (simp_all add: clist_def)
  moreover have "same_outside (set (m # l # as @ x # bs)) h h'"
  proof (rule same_outside_mono)
    show "same_outside {?f, ?n, l, x, m} h h'"
      using dom by (simp add: same_outside_def h'_def del: domIff hd_append)
  qed (use fn in \<open>auto simp del: hd_append\<close>)
  ultimately show ?thesis using run by blast
qed

lemma list_cut_position_correct:
  assumes "clist h l (as @ x # bs)" and "m \<in> dom h" and "m \<notin> set (l # as @ x # bs)"
  shows "\<exists>h'. list_cut_position h m l x = Some h' \<and> clist h' m (as @ [x]) \<and> clist h' l bs
    \<and> same_outside (set (m # l # as @ x # bs)) h h'"
proof -
  have "x \<noteq> l" using assms(1) by (auto simp: clist_def)
  moreover have "nx h l \<noteq> Some x \<longrightarrow> length (as @ x # bs) \<noteq> 1"
    using clist_next [OF assms(1)] by (cases as) auto
  ultimately have "list_cut_position h m l x = list_cut_raw h m l x"
    using list_empty_iff [OF assms(1)] list_is_singular_iff [OF assms(1)] clist_next [OF assms(1)]
    by (auto simp: list_cut_position_def)
  with list_cut_raw_correct [OF assms] show ?thesis by simp
qed

lemma list_rotate_left_correct:
  assumes "clist h l xs"
  shows "\<exists>h'. list_rotate_left h l = Some h' \<and> clist h' l (rotate1 xs)"
proof (cases xs)
  case Nil
  then show ?thesis using assms list_empty_iff [OF assms] by (simp add: list_rotate_left_def)
next
  case (Cons x ys)
  then show ?thesis
    using assms list_empty_iff [OF assms] clist_next [OF assms] list_move_tail_same [of h l "[]" x ys]
    by (auto simp: list_rotate_left_def)
qed

lemma walk_forward:
  assumes "seg h p xs l" and "l \<notin> set xs" and "length xs < fuel"
  shows "\<exists>pos. nx h p = Some pos \<and> walk nx fuel (\<lambda>_ h. Some h) pos l h = Some (xs, h)"
  using assms
proof (induction xs arbitrary: p fuel)
  case Nil
  then show ?case by (cases fuel) auto
next
  case (Cons x xs)
  then obtain f where f: "fuel = Suc f" "length xs < f" by (cases fuel) auto
  with Cons show ?case by fastforce
qed

lemma walk_backward:
  assumes "seg h l xs p" and "l \<notin> set xs" and "length xs < fuel"
  shows "\<exists>pos. pv h p = Some pos \<and> walk pv fuel (\<lambda>_ h. Some h) pos l h = Some (rev xs, h)"
  using assms
proof (induction xs arbitrary: p fuel rule: rev_induct)
  case Nil
  then show ?case by (cases fuel) auto
next
  case (snoc x xs)
  then obtain f where f: "fuel = Suc f" "length xs < f" by (cases fuel) auto
  with snoc show ?case by fastforce
qed

lemma walk_safe_del:
  assumes "clist h l xs" and "length xs < fuel" and "nx h l = Some pos" and "nx h pos = Some n"
  shows "\<exists>h'. walk_safe nx fuel (\<lambda>p h. list_del h p) pos n l h = Some (xs, h') \<and> clist h' l []"
  using assms
proof (induction xs arbitrary: h pos n fuel)
  case Nil
  then have "pos = l" by (simp add: clist_def)
  with Nil show ?case by (cases fuel) auto
next
  case (Cons x xs)
  then obtain f where f: "fuel = Suc f" "length xs < f" by (cases fuel) auto
  have pos: "pos = x" and n: "n = hd (xs @ [l])" and ne: "x \<noteq> l"
    using Cons.prems clist_next [OF Cons.prems(1)] clist_entry(1) [of h l "[]" x xs]
    by (auto simp: clist_def)
  obtain h1 where h1: "list_del h x = Some h1" "clist h1 l xs"
    using list_del_correct [of h l "[]" x xs] Cons.prems(1) by auto
  have nl: "nx h1 l = Some n" using clist_next [OF h1(2)] n by simp
  moreover have "n \<in> dom h1" using clist_dom [OF h1(2)] n by (cases xs) auto
  then obtain n' where n': "nx h1 n = Some n'" by (auto simp: nx_def)
  ultimately obtain h' where "walk_safe nx f (\<lambda>p h. list_del h p) n n' l h1 = Some (xs, h')" "clist h' l []"
    using Cons.IH [OF h1(2) f(2)] by blast
  then show ?case using f(1) pos ne h1(1) n' by simp
qed

section \<open>Properties\<close>

text \<open>
  C29. Insertion: on a well-formed list, \<open>list_add\<close> puts the new entry at the front and
  \<open>list_add_tail\<close> at the back, both without undefined behaviour, and neither touches an
  object other than the list's own and the new entry.
\<close>

theorem list_add_refines_cons_snoc:
  assumes "clist h l xs" and "x \<in> dom h" and "x \<notin> set (l # xs)"
  shows "(\<exists>h'. list_add h x l = Some h' \<and> clist h' l (x # xs) \<and> same_outside (set (x # l # xs)) h h')
    \<and> (\<exists>h'. list_add_tail h x l = Some h' \<and> clist h' l (xs @ [x]) \<and> same_outside (set (x # l # xs)) h h')"
  using list_add_correct [OF assms] list_add_tail_correct [OF assms] by blast

text \<open>A store with two lists and a free node: 10 heads 1, 2; 20 heads 3; 4 is unlinked.\<close>

definition sample_heap :: lheap where
  "sample_heap = [10 \<mapsto> \<lparr>lh_next = 1, lh_prev = 2\<rparr>, 1 \<mapsto> \<lparr>lh_next = 2, lh_prev = 10\<rparr>,
     2 \<mapsto> \<lparr>lh_next = 10, lh_prev = 1\<rparr>, 20 \<mapsto> \<lparr>lh_next = 3, lh_prev = 3\<rparr>,
     3 \<mapsto> \<lparr>lh_next = 20, lh_prev = 20\<rparr>, 4 \<mapsto> \<lparr>lh_next = 0, lh_prev = 0\<rparr>]"

lemma sample_heap: "clist sample_heap 10 [1, 2]" "clist sample_heap 20 [3]" "4 \<in> dom sample_heap"
  by (simp_all add: sample_heap_def clist_def nx_def pv_def)

theorem list_add_refines_cons_snoc_witness:
  "(\<exists>h'. list_add sample_heap 4 10 = Some h' \<and> clist h' 10 [4, 1, 2] \<and> same_outside (set [4, 10, 1, 2]) sample_heap h')
    \<and> (\<exists>h'. list_add_tail sample_heap 4 10 = Some h' \<and> clist h' 10 ([1, 2] @ [4]) \<and> same_outside (set [4, 10, 1, 2]) sample_heap h')"
  by (rule list_add_refines_cons_snoc) (use sample_heap in simp_all)

text \<open>
  Removal: \<open>list_del\<close> takes the entry out, wherever it stands, and leaves both its
  links null; \<open>list_del_init\<close> leaves it an empty list of its own; \<open>list_move\<close> and
  \<open>list_move_tail\<close> put it at the front or the back of another list; \<open>list_replace\<close> puts
  another node in its place.
\<close>

theorem list_del_move_replace:
  assumes "clist h l (as @ x # bs)" and "clist h m ys" and "set (m # ys) \<inter> set (l # as @ x # bs) = {}"
    and "y \<in> dom h" and "y \<notin> set (l # as @ x # bs)"
  shows "(\<exists>h'. list_del h x = Some h' \<and> clist h' l (as @ bs) \<and> nx h' x = Some NULL \<and> pv h' x = Some NULL)
    \<and> (\<exists>h'. list_del_init h x = Some h' \<and> clist h' l (as @ bs) \<and> clist h' x [])
    \<and> (\<exists>h'. list_move h x m = Some h' \<and> clist h' l (as @ bs) \<and> clist h' m (x # ys))
    \<and> (\<exists>h'. list_move_tail h x m = Some h' \<and> clist h' l (as @ bs) \<and> clist h' m (ys @ [x]))
    \<and> (\<exists>h'. list_replace h x y = Some h' \<and> clist h' l (as @ y # bs))"
  using list_del_correct [OF assms(1)] list_del_init_correct [OF assms(1)]
    list_move_correct [OF assms(1-3)] list_replace_correct [OF assms(1,4,5)]
  by (intro conjI) blast+

theorem list_del_move_replace_witness:
  "(\<exists>h'. list_del sample_heap 1 = Some h' \<and> clist h' 10 ([] @ [2]) \<and> nx h' 1 = Some NULL \<and> pv h' 1 = Some NULL)
    \<and> (\<exists>h'. list_del_init sample_heap 1 = Some h' \<and> clist h' 10 ([] @ [2]) \<and> clist h' 1 [])
    \<and> (\<exists>h'. list_move sample_heap 1 20 = Some h' \<and> clist h' 10 ([] @ [2]) \<and> clist h' 20 [1, 3])
    \<and> (\<exists>h'. list_move_tail sample_heap 1 20 = Some h' \<and> clist h' 10 ([] @ [2]) \<and> clist h' 20 ([3] @ [1]))
    \<and> (\<exists>h'. list_replace sample_heap 1 4 = Some h' \<and> clist h' 10 ([] @ 4 # [2]))"
  by (rule list_del_move_replace) (use sample_heap in simp_all)

text \<open>
  Joining and cutting: the four splices concatenate two disjoint lists in the order
  their comments say (the \<open>_init\<close> forms leave the spliced head empty), and
  \<open>list_cut_position\<close> moves the entries up to and including the given one to the new head.
\<close>

theorem list_splice_and_cut:
  assumes "clist h m ys" and "clist h l (as @ x # bs)" and "set (m # ys) \<inter> set (l # as @ x # bs) = {}"
    and "k \<in> dom h" and "k \<notin> set (l # as @ x # bs)"
  shows "(\<exists>h'. list_splice h l m = Some h' \<and> clist h' m ((as @ x # bs) @ ys))
    \<and> (\<exists>h'. list_splice_tail h l m = Some h' \<and> clist h' m (ys @ as @ x # bs))
    \<and> (\<exists>h'. list_splice_init h l m = Some h' \<and> clist h' m ((as @ x # bs) @ ys) \<and> clist h' l [])
    \<and> (\<exists>h'. list_splice_tail_init h l m = Some h' \<and> clist h' m (ys @ as @ x # bs) \<and> clist h' l [])
    \<and> (\<exists>h'. list_cut_position h k l x = Some h' \<and> clist h' k (as @ [x]) \<and> clist h' l bs)"
  using list_splice_correct [OF assms(1-3)] list_splice_init_correct [OF assms(1-3)]
    list_cut_position_correct [OF assms(2,4,5)]
  by (intro conjI) blast+

theorem list_splice_and_cut_witness:
  "(\<exists>h'. list_splice sample_heap 10 20 = Some h' \<and> clist h' 20 (([1] @ 2 # []) @ [3]))
    \<and> (\<exists>h'. list_splice_tail sample_heap 10 20 = Some h' \<and> clist h' 20 ([3] @ [1] @ 2 # []))
    \<and> (\<exists>h'. list_splice_init sample_heap 10 20 = Some h' \<and> clist h' 20 (([1] @ 2 # []) @ [3]) \<and> clist h' 10 [])
    \<and> (\<exists>h'. list_splice_tail_init sample_heap 10 20 = Some h' \<and> clist h' 20 ([3] @ [1] @ 2 # []) \<and> clist h' 10 [])
    \<and> (\<exists>h'. list_cut_position sample_heap 4 10 2 = Some h' \<and> clist h' 4 ([1] @ [2]) \<and> clist h' 10 [])"
  by (rule list_splice_and_cut) (use sample_heap in simp_all)

text \<open>
  Queries and traversals: the emptiness tests, \<open>list_is_singular\<close> and
  \<open>list_is_last\<close> decide what they say; \<open>list_for_each\<close> visits the entries in order and
  \<open>list_for_each_prev\<close> in reverse; \<open>list_for_each_safe\<close> with a body that deletes the
  current entry still visits every entry once, in order, and leaves the list empty;
  \<open>list_rotate_left\<close> moves the first entry to the end.
\<close>

theorem list_traversals:
  assumes "clist h l xs" and "length xs < fuel"
  shows "list_empty h l = Some (xs = []) \<and> list_empty_careful h l = Some (xs = [])
    \<and> list_is_singular h l = Some (length xs = 1)
    \<and> (\<forall>x. x \<in> set xs \<longrightarrow> list_is_last h x l = Some (x = last xs))
    \<and> list_for_each fuel (\<lambda>_ h. Some h) l h = Some (xs, h)
    \<and> list_for_each_prev fuel (\<lambda>_ h. Some h) l h = Some (rev xs, h)
    \<and> (\<exists>h'. list_for_each_safe fuel (\<lambda>p h. list_del h p) l h = Some (xs, h') \<and> clist h' l [])
    \<and> (\<exists>h'. list_rotate_left h l = Some h' \<and> clist h' l (rotate1 xs))"
proof (intro conjI allI impI)
  have s: "seg h l xs l" "l \<notin> set xs" using assms(1) by (auto simp: clist_def)
  show "list_empty h l = Some (xs = [])" "list_is_singular h l = Some (length xs = 1)"
    using assms(1) by (simp_all add: list_empty_iff list_is_singular_iff)
  show "list_empty_careful h l = Some (xs = [])"
    using assms(1) clist_next [OF assms(1)] clist_prev [OF assms(1)]
    by (cases xs) (auto simp: list_empty_careful_def clist_def)
  show "list_for_each fuel (\<lambda>_ h. Some h) l h = Some (xs, h)"
    using walk_forward [OF s assms(2)] by (auto simp: list_for_each_def)
  show "list_for_each_prev fuel (\<lambda>_ h. Some h) l h = Some (rev xs, h)"
    using walk_backward [OF s assms(2)] by (auto simp: list_for_each_prev_def)
  have n: "nx h l = Some (hd (xs @ [l]))" using clist_next [OF assms(1)] .
  moreover have "hd (xs @ [l]) \<in> dom h" using clist_dom [OF assms(1)] by (cases xs) auto
  then obtain n' where n': "nx h (hd (xs @ [l])) = Some n'" by (auto simp: nx_def)
  ultimately show "\<exists>h'. list_for_each_safe fuel (\<lambda>p h. list_del h p) l h = Some (xs, h') \<and> clist h' l []"
    using walk_safe_del [OF assms n n'] by (simp add: list_for_each_safe_def)
  show "\<exists>h'. list_rotate_left h l = Some h' \<and> clist h' l (rotate1 xs)"
    using assms(1) by (rule list_rotate_left_correct)
next
  fix x assume "x \<in> set xs"
  then obtain as bs where xs: "xs = as @ x # bs" by (auto simp: in_set_conv_decomp)
  then have "nx h x = Some (hd (bs @ [l]))" "distinct (l # as @ x # bs)"
    using clist_entry(1) assms(1) by (auto simp: clist_def)
  then show "list_is_last h x l = Some (x = last xs)"
  proof (cases bs)
    case (Cons b cs)
    have "last (b # cs) \<in> set (b # cs)" by (rule last_in_set) simp
    then have "x \<noteq> last (b # cs)" using \<open>distinct (l # as @ x # bs)\<close> Cons by (auto simp del: last.simps)
    then show ?thesis
      using \<open>nx h x = _\<close> \<open>distinct (l # as @ x # bs)\<close> xs Cons by (auto simp: list_is_last_def)
  qed (use xs \<open>nx h x = _\<close> in \<open>simp add: list_is_last_def\<close>)
qed

theorem list_traversals_witness:
  "list_for_each 3 (\<lambda>_ h. Some h) 10 sample_heap = Some ([1, 2], sample_heap)
   \<and> list_for_each_prev 3 (\<lambda>_ h. Some h) 10 sample_heap = Some (rev [1, 2], sample_heap)"
  using list_traversals [OF sample_heap(1), of 3] by simp

end
