(* ===== verification/HList.thy ===== *)
theory HList
  imports DList
begin

text \<open>
  \<open>src/include/list.h\<close>, second half: the singly headed \<open>hlist\<close>. \<open>pprev\<close> is a
  pointer to a pointer: it names the cell that holds the pointer to the node, the \<open>first\<close> of a
  head or the \<open>next\<close> of a node, so the model has a type of such cells.

  \<open>hlist st a xs\<close>: the head at \<open>a\<close> starts the null-terminated chain \<open>xs\<close>, and every node's
  \<open>pprev\<close> is the cell that points to it.
\<close>

section \<open>The store\<close>

datatype cell = Null_cell | First addr | Next addr

record hlist_node =
  hn_next :: addr
  hn_pprev :: cell

record hstore =
  hnodes :: "addr \<rightharpoonup> hlist_node"
  hheads :: "addr \<rightharpoonup> addr"

text \<open>\<open>*c\<close> and \<open>*c = v\<close>.\<close>

fun deref :: "hstore \<Rightarrow> cell \<Rightarrow> addr option" where
  "deref st Null_cell = None"
| "deref st (First a) = hheads st a"
| "deref st (Next p) = map_option hn_next (hnodes st p)"

fun assign :: "hstore \<Rightarrow> cell \<Rightarrow> addr \<Rightarrow> hstore option" where
  "assign st Null_cell v = None"
| "assign st (First a) v = (if hheads st a = None then None else Some (st\<lparr>hheads := (hheads st)(a \<mapsto> v)\<rparr>))"
| "assign st (Next p) v =
     map_option (\<lambda>n. st\<lparr>hnodes := (hnodes st)(p \<mapsto> n\<lparr>hn_next := v\<rparr>)\<rparr>) (hnodes st p)"

definition pprev :: "hstore \<Rightarrow> addr \<Rightarrow> cell option" where
  "pprev st p = map_option hn_pprev (hnodes st p)"

definition set_pprev :: "hstore \<Rightarrow> addr \<Rightarrow> cell \<Rightarrow> hstore option" where
  "set_pprev st p c = map_option (\<lambda>n. st\<lparr>hnodes := (hnodes st)(p \<mapsto> n\<lparr>hn_pprev := c\<rparr>)\<rparr>) (hnodes st p)"

section \<open>Operations\<close>

definition INIT_HLIST_HEAD :: "hstore \<Rightarrow> addr \<Rightarrow> hstore option" where
  "INIT_HLIST_HEAD st a = assign st (First a) NULL"

definition INIT_HLIST_NODE :: "hstore \<Rightarrow> addr \<Rightarrow> hstore option" where
  "INIT_HLIST_NODE st n = do { st \<leftarrow> assign st (Next n) NULL; set_pprev st n Null_cell }"

definition hlist_unhashed :: "hstore \<Rightarrow> addr \<Rightarrow> bool option" where
  "hlist_unhashed st n = do { c \<leftarrow> pprev st n; Some (c = Null_cell) }"

definition hlist_empty :: "hstore \<Rightarrow> addr \<Rightarrow> bool option" where
  "hlist_empty st a = do { f \<leftarrow> deref st (First a); Some (f = NULL) }"

definition hlist_del_raw :: "hstore \<Rightarrow> addr \<Rightarrow> hstore option" where
  "hlist_del_raw st n = do {
     nxt \<leftarrow> deref st (Next n);
     c \<leftarrow> pprev st n;
     st \<leftarrow> assign st c nxt;
     if nxt \<noteq> NULL then set_pprev st nxt c else Some st }"

definition hlist_del :: "hstore \<Rightarrow> addr \<Rightarrow> hstore option" where
  "hlist_del st n = do {
     st \<leftarrow> hlist_del_raw st n;
     st \<leftarrow> assign st (Next n) NULL;
     set_pprev st n Null_cell }"

definition hlist_del_init :: "hstore \<Rightarrow> addr \<Rightarrow> hstore option" where
  "hlist_del_init st n = do {
     u \<leftarrow> hlist_unhashed st n;
     if \<not> u then do { st \<leftarrow> hlist_del_raw st n; INIT_HLIST_NODE st n } else Some st }"

definition hlist_add_head :: "hstore \<Rightarrow> addr \<Rightarrow> addr \<Rightarrow> hstore option" where
  "hlist_add_head st n a = do {
     first \<leftarrow> deref st (First a);
     st \<leftarrow> assign st (Next n) first;
     st \<leftarrow> (if first \<noteq> NULL then set_pprev st first (Next n) else Some st);
     st \<leftarrow> assign st (First a) n;
     set_pprev st n (First a) }"

definition hlist_add_before :: "hstore \<Rightarrow> addr \<Rightarrow> addr \<Rightarrow> hstore option" where
  "hlist_add_before st n nxt = do {
     c \<leftarrow> pprev st nxt;
     st \<leftarrow> set_pprev st n c;
     st \<leftarrow> assign st (Next n) nxt;
     st \<leftarrow> set_pprev st nxt (Next n);
     c \<leftarrow> pprev st n;
     assign st c n }"

definition hlist_add_after :: "hstore \<Rightarrow> addr \<Rightarrow> addr \<Rightarrow> hstore option" where
  "hlist_add_after st n nxt = do {
     v \<leftarrow> deref st (Next n);
     st \<leftarrow> assign st (Next nxt) v;
     st \<leftarrow> assign st (Next n) nxt;
     st \<leftarrow> set_pprev st nxt (Next n);
     v \<leftarrow> deref st (Next nxt);
     if v \<noteq> NULL then set_pprev st v (Next nxt) else Some st }"

definition hlist_add_fake :: "hstore \<Rightarrow> addr \<Rightarrow> hstore option" where
  "hlist_add_fake st n = set_pprev st n (Next n)"

definition hlist_move_list :: "hstore \<Rightarrow> addr \<Rightarrow> addr \<Rightarrow> hstore option" where
  "hlist_move_list st old newnode = do {
     f \<leftarrow> deref st (First old);
     st \<leftarrow> assign st (First newnode) f;
     f \<leftarrow> deref st (First newnode);
     st \<leftarrow> (if f \<noteq> NULL then set_pprev st f (First newnode) else Some st);
     assign st (First old) NULL }"

text \<open>\<open>hlist_for_each\<close> and \<open>hlist_for_each_safe\<close> with a body that may change the store.\<close>

fun hwalk :: "nat \<Rightarrow> (addr \<Rightarrow> hstore \<Rightarrow> hstore option) \<Rightarrow> addr \<Rightarrow> hstore \<Rightarrow> (addr list \<times> hstore) option"
where
  "hwalk 0 body pos st = None"
| "hwalk (Suc fuel) body pos st =
     (if pos = NULL then Some ([], st)
      else do {
        st \<leftarrow> body pos st;
        pos' \<leftarrow> deref st (Next pos);
        (ps, st) \<leftarrow> hwalk fuel body pos' st;
        Some (pos # ps, st) })"

definition hlist_for_each :: "nat \<Rightarrow> (addr \<Rightarrow> hstore \<Rightarrow> hstore option) \<Rightarrow> addr \<Rightarrow> hstore
   \<Rightarrow> (addr list \<times> hstore) option" where
  "hlist_for_each fuel body a st = do { pos \<leftarrow> deref st (First a); hwalk fuel body pos st }"

fun hwalk_safe :: "nat \<Rightarrow> (addr \<Rightarrow> hstore \<Rightarrow> hstore option) \<Rightarrow> addr \<Rightarrow> hstore \<Rightarrow> (addr list \<times> hstore) option"
where
  "hwalk_safe 0 body pos st = None"
| "hwalk_safe (Suc fuel) body pos st =
     (if pos = NULL then Some ([], st)
      else do {
        n \<leftarrow> deref st (Next pos);
        st \<leftarrow> body pos st;
        (ps, st) \<leftarrow> hwalk_safe fuel body n st;
        Some (pos # ps, st) })"

definition hlist_for_each_safe :: "nat \<Rightarrow> (addr \<Rightarrow> hstore \<Rightarrow> hstore option) \<Rightarrow> addr \<Rightarrow> hstore
   \<Rightarrow> (addr list \<times> hstore) option" where
  "hlist_for_each_safe fuel body a st = do { pos \<leftarrow> deref st (First a); hwalk_safe fuel body pos st }"

section \<open>The abstraction\<close>

fun hseg :: "hstore \<Rightarrow> cell \<Rightarrow> addr list \<Rightarrow> addr \<Rightarrow> bool" where
  "hseg st c [] v \<longleftrightarrow> deref st c = Some v"
| "hseg st c (x # xs) v \<longleftrightarrow> deref st c = Some x \<and> x \<noteq> NULL \<and> pprev st x = Some c \<and> hseg st (Next x) xs v"

definition hlist :: "hstore \<Rightarrow> addr \<Rightarrow> addr list \<Rightarrow> bool" where
  "hlist st a xs \<longleftrightarrow> distinct xs \<and> hseg st (First a) xs NULL"

text \<open>The cell in which a chain from \<open>c\<close> through \<open>xs\<close> ends.\<close>

fun end_cell :: "cell \<Rightarrow> addr list \<Rightarrow> cell" where
  "end_cell c [] = c"
| "end_cell c (x # xs) = end_cell (Next x) xs"

lemma end_cell_last: "end_cell c xs = (if xs = [] then c else Next (last xs))"
  by (induction c xs rule: end_cell.induct) auto

lemma hseg_append:
  "hseg st c (xs @ y # ys) v \<longleftrightarrow> hseg st c xs y \<and> y \<noteq> NULL \<and> pprev st y = Some (end_cell c xs)
     \<and> hseg st (Next y) ys v"
  by (induction xs arbitrary: c) auto

lemma hseg_frame:
  assumes "hseg st c xs v" and "\<And>d. d \<in> set (c # map Next xs) \<Longrightarrow> deref st' d = deref st d"
    and "\<And>x. x \<in> set xs \<Longrightarrow> pprev st' x = pprev st x"
  shows "hseg st' c xs v"
  using assms by (induction xs arbitrary: c) auto

text \<open>The chain up to a cell whose content changes.\<close>

lemma hseg_retarget:
  assumes "hseg st c xs u" and "distinct (c # map Next xs)" and "deref st' (end_cell c xs) = Some v"
    and "\<And>d. d \<in> set (c # map Next xs) \<Longrightarrow> d \<noteq> end_cell c xs \<Longrightarrow> deref st' d = deref st d"
    and "\<And>x. x \<in> set xs \<Longrightarrow> pprev st' x = pprev st x"
  shows "hseg st' c xs v"
  using assms
proof (induction xs arbitrary: c)
  case (Cons x xs)
  have "c \<noteq> end_cell c (x # xs)"
    using Cons.prems(2) last_in_set [of "x # xs"] by (auto simp: end_cell_last)
  with Cons show ?case by auto
qed simp

lemma hseg_end: "hseg st c xs v \<Longrightarrow> deref st (end_cell c xs) = Some v"
  by (induction xs arbitrary: c) auto

lemma deref_dom: "deref st (Next p) = Some v \<Longrightarrow> p \<in> dom (hnodes st)"
  by auto

text \<open>Assignments as equations on cells and back pointers.\<close>

definition upc :: "hstore \<Rightarrow> cell \<Rightarrow> addr \<Rightarrow> hstore" where
  "upc st c v =
     (case c of
        Null_cell \<Rightarrow> st
      | First a \<Rightarrow> st\<lparr>hheads := (hheads st)(a \<mapsto> v)\<rparr>
      | Next p \<Rightarrow> st\<lparr>hnodes := (hnodes st)(p \<mapsto> (the (hnodes st p))\<lparr>hn_next := v\<rparr>)\<rparr>)"

definition upr :: "hstore \<Rightarrow> addr \<Rightarrow> cell \<Rightarrow> hstore" where
  "upr st p c = st\<lparr>hnodes := (hnodes st)(p \<mapsto> (the (hnodes st p))\<lparr>hn_pprev := c\<rparr>)\<rparr>"

definition cells :: "hstore \<Rightarrow> cell set" where "cells st = {c. deref st c \<noteq> None}"

lemma Next_cells: "Next p \<in> cells st \<longleftrightarrow> hnodes st p \<noteq> None"
  and First_cells: "First a \<in> cells st \<longleftrightarrow> hheads st a \<noteq> None"
  by (simp_all add: cells_def)

lemma deref_cells: "deref st c = Some v \<Longrightarrow> c \<in> cells st"
  by (simp add: cells_def)

lemma pprev_cells: "pprev st p = Some v \<Longrightarrow> Next p \<in> cells st"
  by (auto simp: pprev_def Next_cells)

lemma assign_eq [run_simps]: "c \<in> cells st \<Longrightarrow> assign st c v = Some (upc st c v)"
  by (cases c) (auto simp: cells_def upc_def)

lemma set_pprev_eq [run_simps]: "Next p \<in> cells st \<Longrightarrow> set_pprev st p c = Some (upr st p c)"
  by (auto simp: set_pprev_def upr_def Next_cells)

lemma deref_upc: "c \<in> cells st \<Longrightarrow> deref (upc st c v) d = (if d = c then Some v else deref st d)"
  by (cases c; cases d) (auto simp: cells_def upc_def)

lemma cells_upc [simp]: "c \<in> cells st \<Longrightarrow> cells (upc st c v) = cells st"
  by (auto simp: cells_def [of "upc st c v"] deref_upc) (auto simp: cells_def)

lemma pprev_upc [simp]: "c \<in> cells st \<Longrightarrow> pprev (upc st c v) p = pprev st p"
  by (cases c) (auto simp: cells_def upc_def pprev_def)

lemma deref_upr [simp]: "Next p \<in> cells st \<Longrightarrow> deref (upr st p c) d = deref st d"
  by (cases d) (auto simp: upr_def Next_cells)

lemma cells_upr [simp]: "Next p \<in> cells st \<Longrightarrow> cells (upr st p c) = cells st"
  by (simp add: cells_def)

lemma pprev_upr: "Next p \<in> cells st \<Longrightarrow> pprev (upr st p c) q = (if q = p then Some c else pprev st q)"
  by (auto simp: upr_def pprev_def Next_cells)

declare deref.simps [simp del] assign.simps [simp del]

lemmas hstore_simps = run_simps deref_upc pprev_upr

section \<open>The operations\<close>

lemma hlist_first: "hlist st a xs \<Longrightarrow> deref st (First a) = Some (hd (xs @ [NULL]))"
  by (cases xs) (auto simp: hlist_def)

lemma hseg_cells: "hseg st c xs v \<Longrightarrow> set (c # map Next xs) \<subseteq> cells st"
  by (induction xs arbitrary: c) (auto dest: deref_cells)

lemma hseg_NULL: "hseg st c xs v \<Longrightarrow> NULL \<notin> set xs"
  by (induction xs arbitrary: c) auto

text \<open>Putting \<open>n\<close> between the cell that ends \<open>as\<close> and the rest of the chain.\<close>

lemma hlist_insert:
  assumes "hlist st a (as @ bs)" and "n \<notin> set (as @ bs)" and "n \<noteq> NULL"
    and "\<And>d. deref st' d = (if d = end_cell (First a) as then Some n
            else if d = Next n then Some (hd (bs @ [NULL])) else deref st d)"
    and "\<And>p. p \<noteq> NULL \<Longrightarrow> pprev st' p = (if p = n then Some (end_cell (First a) as)
            else if p = hd (bs @ [NULL]) then Some (Next n) else pprev st p)"
  shows "hlist st' a (as @ n # bs)"
proof -
  let ?c = "end_cell (First a) as"
  have d: "distinct (as @ bs)" using assms(1) by (simp add: hlist_def)
  have s: "hseg st (First a) as (hd (bs @ [NULL]))" and
    s2: "bs \<noteq> [] \<Longrightarrow> hseg st (Next (hd bs)) (tl bs) NULL" and nz: "NULL \<notin> set (as @ bs)"
    using assms(1) hseg_NULL by (cases bs; force simp: hlist_def hseg_append)+
  have ne: "Next n \<noteq> ?c" using assms(2) by (auto simp: end_cell_last)
  have left: "hseg st' (First a) as n"
    using s
  proof (rule hseg_retarget)
    show "distinct (First a # map Next as)" using d by (auto simp: distinct_map inj_on_def)
    show "deref st' d = deref st d" if "d \<in> set (First a # map Next as)" "d \<noteq> ?c" for d
      using that assms(2) by (auto simp: assms(4))
    show "pprev st' x = pprev st x" if "x \<in> set as" for x
    proof -
      have "x \<noteq> NULL" "x \<noteq> n" "x \<noteq> hd (bs @ [NULL])"
        using that nz assms(2) d by (auto, cases bs, auto)
      then show ?thesis by (simp add: assms(5))
    qed
  qed (simp add: assms(4))
  show ?thesis
  proof (cases bs)
    case Nil
    then show ?thesis
      using left d assms(2,3) ne by (simp add: hlist_def hseg_append assms(4,5))
  next
    case (Cons b bs')
    have "hseg st' (Next b) bs' NULL"
    proof (rule hseg_frame [where st = st])
      show "hseg st (Next b) bs' NULL" using s2 Cons by simp
      have "as \<noteq> [] \<Longrightarrow> last as \<notin> set bs" using d last_in_set [of as] by (simp, blast)
      then have "Next x \<noteq> ?c" if "x \<in> set bs" for x
        using that by (auto simp: end_cell_last)
      then show "deref st' d = deref st d" if "d \<in> set (Next b # map Next bs')" for d
        using that assms(2) Cons by (auto simp: assms(4))
      show "pprev st' x = pprev st x" if "x \<in> set bs'" for x
        using that assms(2) Cons d nz by (subst assms(5)) auto
    qed
    moreover have "b \<noteq> NULL" "b \<noteq> n" using nz Cons assms(2) by auto
    ultimately show ?thesis
      using left d assms(2,3) ne Cons by (simp add: hlist_def hseg_append assms(4,5))
  qed
qed

text \<open>Taking \<open>n\<close> out.\<close>

lemma hlist_remove:
  assumes "hlist st a (as @ n # bs)"
    and "\<And>d. d \<noteq> Next n \<Longrightarrow> deref st' d = (if d = end_cell (First a) as then Some (hd (bs @ [NULL])) else deref st d)"
    and "\<And>p. p \<noteq> n \<Longrightarrow> p \<noteq> NULL \<Longrightarrow> pprev st' p = (if p = hd (bs @ [NULL]) then Some (end_cell (First a) as) else pprev st p)"
  shows "hlist st' a (as @ bs)"
proof -
  let ?c = "end_cell (First a) as"
  have d: "distinct (as @ n # bs)" using assms(1) by (simp add: hlist_def)
  have s: "hseg st (First a) as n" "hseg st (Next n) bs NULL"
    using assms(1) by (auto simp: hlist_def hseg_append)
  have nz: "NULL \<notin> set (as @ n # bs)"
    using assms(1) hseg_NULL by (force simp: hlist_def)
  have last: "last as \<notin> set bs" "last as \<noteq> n" if "as \<noteq> []"
    using d last_in_set [OF that] by (simp_all, blast, blast)
  have ne: "?c \<noteq> Next n" using d last by (auto simp: end_cell_last)
  have left: "hseg st' (First a) as (hd (bs @ [NULL]))"
    using s(1)
  proof (rule hseg_retarget)
    show "distinct (First a # map Next as)" using d by (auto simp: distinct_map inj_on_def)
    show "deref st' d = deref st d" if "d \<in> set (First a # map Next as)" "d \<noteq> ?c" for d
      using that d by (subst assms(2)) auto
    show "pprev st' x = pprev st x" if "x \<in> set as" for x
    proof -
      have "x \<noteq> NULL" "x \<noteq> n" "x \<noteq> hd (bs @ [NULL])"
        using that nz d by (auto, cases bs, auto)
      then show ?thesis by (simp add: assms(3))
    qed
  qed (use ne in \<open>simp add: assms(2)\<close>)
  show ?thesis
  proof (cases bs)
    case (Cons b bs')
    have "hseg st' (Next b) bs' NULL"
    proof (rule hseg_frame [where st = st])
      show "hseg st (Next b) bs' NULL" using s(2) Cons by simp
      have "?c \<notin> set (map Next bs)" using last by (auto simp: end_cell_last)
      then have "d \<noteq> ?c" if "d \<in> set (Next b # map Next bs')" for d
        using that Cons by (simp del: set_map) blast
      then show "deref st' d = deref st d" if "d \<in> set (Next b # map Next bs')" for d
        using that Cons d by (subst assms(2)) auto
      show "pprev st' x = pprev st x" if "x \<in> set bs'" for x
        using that Cons d nz by (subst assms(3)) auto
    qed
    moreover have "b \<noteq> NULL" "b \<noteq> n" using nz Cons d by auto
    ultimately show ?thesis
      using left d Cons by (simp add: hlist_def hseg_append assms(3))
  qed (use left d in \<open>simp add: hlist_def\<close>)
qed

lemma hlist_cells:
  assumes "hlist st a xs"
  shows "First a \<in> cells st" and "x \<in> set xs \<Longrightarrow> Next x \<in> cells st" and "NULL \<notin> set xs"
  using hseg_cells [of st "First a" xs NULL] hseg_NULL [of st "First a" xs NULL] assms
  by (auto simp: hlist_def)

lemma hlist_at:
  assumes "hlist st a (as @ x # bs)"
  shows "deref st (Next x) = Some (hd (bs @ [NULL]))" and "pprev st x = Some (end_cell (First a) as)"
    and "end_cell (First a) as \<in> cells st" and "Next x \<noteq> end_cell (First a) as"
    and "hd (bs @ [NULL]) \<noteq> NULL \<Longrightarrow> Next (hd (bs @ [NULL])) \<in> cells st" and "hd (bs @ [NULL]) \<noteq> x"
    and "x \<noteq> NULL"
proof -
  have s: "hseg st (First a) as x" "hseg st (Next x) bs NULL" "pprev st x = Some (end_cell (First a) as)" "x \<noteq> NULL"
    and d: "distinct (as @ x # bs)" using assms by (auto simp: hlist_def hseg_append)
  show "deref st (Next x) = Some (hd (bs @ [NULL]))" using s(2) by (cases bs) auto
  show "pprev st x = Some (end_cell (First a) as)" "x \<noteq> NULL" by fact+
  show "end_cell (First a) as \<in> cells st" using hseg_end [OF s(1)] by (rule deref_cells)
  show "Next x \<noteq> end_cell (First a) as"
    using d last_in_set [of as] by (auto simp: end_cell_last)
  show "hd (bs @ [NULL]) \<noteq> NULL \<Longrightarrow> Next (hd (bs @ [NULL])) \<in> cells st"
    using hlist_cells(2) [OF assms] by (cases bs) auto
  show "hd (bs @ [NULL]) \<noteq> x" using d s(4) by (cases bs) auto
qed

lemma hlist_del_raw_correct:
  assumes "hlist st a (as @ x # bs)"
  shows "\<exists>st'. hlist_del_raw st x = Some st' \<and> hlist st' a (as @ bs) \<and> cells st' = cells st"
proof -
  note at = hlist_at [OF assms]
  let ?c = "end_cell (First a) as" and ?n = "hd (bs @ [NULL])"
  define st' where "st' = (if ?n \<noteq> NULL then upr (upc st ?c ?n) ?n ?c else upc st ?c ?n)"
  have run: "hlist_del_raw st x = Some st'"
    using at by (simp add: hlist_del_raw_def hstore_simps st'_def)
  have "hlist st' a (as @ bs)"
    using assms by (rule hlist_remove) (use at in \<open>simp_all add: st'_def hstore_simps\<close>)
  moreover have "cells st' = cells st" using at by (simp add: st'_def)
  ultimately show ?thesis using run by blast
qed

lemma hlist_frame:
  assumes "hlist st a xs" and "\<And>d. d \<in> set (First a # map Next xs) \<Longrightarrow> deref st' d = deref st d"
    and "\<And>x. x \<in> set xs \<Longrightarrow> pprev st' x = pprev st x"
  shows "hlist st' a xs"
  using assms hseg_frame [where st' = st'] unfolding hlist_def by blast

lemma clear_node:
  assumes "hlist st a xs" and "x \<notin> set xs" and "Next x \<in> cells st"
  shows "\<exists>st'. INIT_HLIST_NODE st x = Some st' \<and> hlist st' a xs \<and> deref st' (Next x) = Some NULL
    \<and> pprev st' x = Some Null_cell"
proof -
  define st' where "st' = upr (upc st (Next x) NULL) x Null_cell"
  have "INIT_HLIST_NODE st x = Some st'"
    using assms(3) by (simp add: INIT_HLIST_NODE_def hstore_simps st'_def)
  moreover have "hlist st' a xs"
    using assms(1) by (rule hlist_frame) (use assms(2,3) in \<open>auto simp: st'_def hstore_simps\<close>)
  moreover have "deref st' (Next x) = Some NULL" "pprev st' x = Some Null_cell"
    using assms(3) by (simp_all add: st'_def hstore_simps)
  ultimately show ?thesis by blast
qed

lemma hlist_del_correct:
  assumes "hlist st a (as @ x # bs)"
  shows "\<exists>st'. hlist_del st x = Some st' \<and> hlist st' a (as @ bs) \<and> hlist_unhashed st' x = Some True
    \<and> deref st' (Next x) = Some NULL"
    and "hlist_del_init st x = hlist_del st x"
proof -
  obtain st1 where st1: "hlist_del_raw st x = Some st1" "hlist st1 a (as @ bs)" "cells st1 = cells st"
    using hlist_del_raw_correct [OF assms] by blast
  have "x \<notin> set (as @ bs)" using assms by (auto simp: hlist_def)
  moreover have "Next x \<in> cells st1" using st1(3) hlist_cells(2) [OF assms, of x] by simp
  ultimately obtain st' where st': "INIT_HLIST_NODE st1 x = Some st'" "hlist st' a (as @ bs)"
    "deref st' (Next x) = Some NULL" "pprev st' x = Some Null_cell"
    using clear_node [OF st1(2)] by blast
  have run: "hlist_del st x = Some st'"
    using st1(1) st'(1) by (simp add: hlist_del_def INIT_HLIST_NODE_def)
  then show "\<exists>st'. hlist_del st x = Some st' \<and> hlist st' a (as @ bs) \<and> hlist_unhashed st' x = Some True
    \<and> deref st' (Next x) = Some NULL"
    using st' by (simp add: hlist_unhashed_def)
  have "end_cell (First a) as \<noteq> Null_cell" by (simp add: end_cell_last)
  then show "hlist_del_init st x = hlist_del st x"
    using st1(1) st'(1) run hlist_at(2) [OF assms] by (simp add: hlist_del_init_def hlist_unhashed_def)
qed

lemma hlist_add_head_correct:
  assumes "hlist st a xs" and "n \<notin> set xs" and "n \<noteq> NULL" and "Next n \<in> cells st"
  shows "\<exists>st'. hlist_add_head st n a = Some st' \<and> hlist st' a (n # xs)"
proof -
  let ?f = "hd (xs @ [NULL])"
  have f: "deref st (First a) = Some ?f" using assms(1) by (rule hlist_first)
  have fc: "First a \<in> cells st" using f by (rule deref_cells)
  have nf: "?f \<noteq> NULL \<Longrightarrow> Next ?f \<in> cells st" "?f \<noteq> n"
    using hlist_cells(2) [OF assms(1)] assms(2,3) by (cases xs; auto)+
  define st1 where "st1 = upc st (Next n) ?f"
  define st2 where "st2 = (if ?f \<noteq> NULL then upr st1 ?f (Next n) else st1)"
  define st' where "st' = upr (upc st2 (First a) n) n (First a)"
  have c: "cells st1 = cells st" "cells st2 = cells st"
    using assms(4) nf(1) by (auto simp: st1_def st2_def)
  have run: "hlist_add_head st n a = Some st'"
    using f assms(4) fc nf c by (simp add: hlist_add_head_def hstore_simps st'_def st2_def st1_def)
  have "hlist st' a ([] @ n # xs)"
    by (rule hlist_insert [where st = st]) (use assms fc nf c in \<open>simp_all add: st'_def st2_def st1_def hstore_simps\<close>)
  then show ?thesis using run by simp
qed

lemma hlist_add_before_correct:
  assumes "hlist st a (as @ x # bs)" and "n \<notin> set (as @ x # bs)" and "n \<noteq> NULL" and "Next n \<in> cells st"
  shows "\<exists>st'. hlist_add_before st n x = Some st' \<and> hlist st' a (as @ n # x # bs)"
proof -
  note at = hlist_at [OF assms(1)]
  let ?c = "end_cell (First a) as"
  have xc: "Next x \<in> cells st" using hlist_cells(2) [OF assms(1)] by simp
  have ne: "n \<noteq> x" "?c \<noteq> Next n" using assms(2) by (auto simp: end_cell_last)
  define st' where "st' = upc (upr (upc (upr st n ?c) (Next n) x) x (Next n)) ?c n"
  have run: "hlist_add_before st n x = Some st'"
    using at assms(4) xc ne by (simp add: hlist_add_before_def hstore_simps st'_def)
  have "hlist st' a (as @ n # x # bs)"
    by (rule hlist_insert [where st = st]) (use assms at xc ne in \<open>simp_all add: st'_def hstore_simps\<close>)
  then show ?thesis using run by blast
qed

lemma hlist_add_after_correct:
  assumes "hlist st a (as @ x # bs)" and "n \<notin> set (as @ x # bs)" and "n \<noteq> NULL" and "Next n \<in> cells st"
  shows "\<exists>st'. hlist_add_after st x n = Some st' \<and> hlist st' a (as @ x # n # bs)"
proof -
  note at = hlist_at [OF assms(1)]
  let ?n = "hd (bs @ [NULL])"
  have xc: "Next x \<in> cells st" using hlist_cells(2) [OF assms(1)] by simp
  have ne: "n \<noteq> x" "?n \<noteq> n" using assms(2,3) by (auto, cases bs, auto)
  define st1 where "st1 = upr (upc (upc st (Next n) ?n) (Next x) n) n (Next x)"
  define st' where "st' = (if ?n \<noteq> NULL then upr st1 ?n (Next n) else st1)"
  have c: "cells st1 = cells st" using assms(4) xc by (simp add: st1_def)
  have run: "hlist_add_after st x n = Some st'"
    using at assms(4) xc ne c by (simp add: hlist_add_after_def hstore_simps st'_def st1_def)
  have "hlist st' a ((as @ [x]) @ n # bs)"
    by (rule hlist_insert [where st = st])
      (use assms at xc ne c in \<open>simp_all add: st'_def st1_def hstore_simps end_cell_last\<close>)
  then show ?thesis using run by auto
qed

lemma hlist_move_list_correct:
  assumes "hlist st a xs" and "First b \<in> cells st" and "b \<noteq> a"
  shows "\<exists>st'. hlist_move_list st a b = Some st' \<and> hlist st' b xs \<and> hlist st' a []"
proof -
  let ?f = "hd (xs @ [NULL])"
  have f: "deref st (First a) = Some ?f" using assms(1) by (rule hlist_first)
  have fc: "First a \<in> cells st" using f by (rule deref_cells)
  have nf: "?f \<noteq> NULL \<Longrightarrow> Next ?f \<in> cells st"
    using hlist_cells(2) [OF assms(1)] by (cases xs) auto
  define st1 where "st1 = upc st (First b) ?f"
  define st2 where "st2 = (if ?f \<noteq> NULL then upr st1 ?f (First b) else st1)"
  define st' where "st' = upc st2 (First a) NULL"
  have c: "cells st1 = cells st" "cells st2 = cells st"
    using assms(2) nf by (auto simp: st1_def st2_def)
  have run: "hlist_move_list st a b = Some st'"
    using f assms(2) fc nf c by (simp add: hlist_move_list_def hstore_simps st'_def st2_def st1_def)
  have "hlist st' a []" using fc c by (simp add: hlist_def st'_def hstore_simps)
  moreover have "hlist st' b xs"
  proof (cases xs)
    case Nil
    then show ?thesis using assms fc c by (simp add: hlist_def st'_def st2_def st1_def hstore_simps)
  next
    case (Cons x ys)
    have "hseg st (Next x) ys NULL" "x \<noteq> NULL" using assms(1) Cons by (auto simp: hlist_def)
    moreover have "distinct (x # ys)" using assms(1) Cons by (simp add: hlist_def)
    moreover have "hseg st' (Next x) ys NULL"
      using \<open>hseg st (Next x) ys NULL\<close>
      by (rule hseg_frame) (use assms fc c nf Cons \<open>distinct (x # ys)\<close> in \<open>auto simp: st'_def st2_def st1_def hstore_simps\<close>)
    ultimately show ?thesis
      using assms fc c nf Cons by (simp add: hlist_def st'_def st2_def st1_def hstore_simps)
  qed
  ultimately show ?thesis using run by blast
qed

lemma hwalk_visits:
  assumes "hseg st c xs NULL" and "length xs < fuel"
  shows "\<exists>pos. deref st c = Some pos \<and> hwalk fuel (\<lambda>_ st. Some st) pos st = Some (xs, st)"
  using assms
proof (induction xs arbitrary: c fuel)
  case Nil
  then show ?case by (cases fuel) auto
next
  case (Cons x xs)
  then obtain f where f: "fuel = Suc f" "length xs < f" by (cases fuel) auto
  with Cons show ?case by fastforce
qed

lemma hwalk_safe_del:
  assumes "hlist st a xs" and "length xs < fuel"
  shows "\<exists>st'. hwalk_safe fuel (\<lambda>p st. hlist_del st p) (hd (xs @ [NULL])) st = Some (xs, st') \<and> hlist st' a []"
  using assms
proof (induction xs arbitrary: st fuel)
  case Nil
  then show ?case by (cases fuel) auto
next
  case (Cons x xs)
  then obtain f where f: "fuel = Suc f" "length xs < f" by (cases fuel) auto
  obtain st1 where st1: "hlist_del st x = Some st1" "hlist st1 a xs"
    using hlist_del_correct(1) [of st a "[]" x xs] Cons.prems(1) by auto
  with Cons.IH [OF st1(2) f(2)] hlist_at [of st a "[]" x xs] Cons.prems(1) f(1) show ?case
    by auto
qed

section \<open>Properties\<close>

text \<open>
  The hlist operations on a well-formed chain: \<open>hlist_add_head\<close>, \<open>_before\<close> and
  \<open>_after\<close> insert at the head, before and after a given entry; \<open>hlist_del\<close> and
  \<open>hlist_del_init\<close> remove an entry from any place without knowing its head and leave it
  unhashed; \<open>hlist_move_list\<close> hands the whole chain to another head. Nothing is
  undefined and every back pointer stays right.
\<close>

theorem hlist_operations:
  assumes "hlist st a (as @ x # bs)" and "n \<notin> set (as @ x # bs)" and "n \<noteq> NULL" and "Next n \<in> cells st"
    and "First b \<in> cells st" and "b \<noteq> a"
  shows "(\<exists>st'. hlist_add_head st n a = Some st' \<and> hlist st' a (n # as @ x # bs))
    \<and> (\<exists>st'. hlist_add_before st n x = Some st' \<and> hlist st' a (as @ n # x # bs))
    \<and> (\<exists>st'. hlist_add_after st x n = Some st' \<and> hlist st' a (as @ x # n # bs))
    \<and> (\<exists>st'. hlist_del st x = Some st' \<and> hlist_del_init st x = Some st' \<and> hlist st' a (as @ bs)
         \<and> hlist_unhashed st' x = Some True)
    \<and> (\<exists>st'. hlist_move_list st a b = Some st' \<and> hlist st' b (as @ x # bs) \<and> hlist_empty st' a = Some True)"
proof (intro conjI)
  show "\<exists>st'. hlist_add_head st n a = Some st' \<and> hlist st' a (n # as @ x # bs)"
    using assms by (intro hlist_add_head_correct)
  show "\<exists>st'. hlist_add_before st n x = Some st' \<and> hlist st' a (as @ n # x # bs)"
    using assms by (intro hlist_add_before_correct)
  show "\<exists>st'. hlist_add_after st x n = Some st' \<and> hlist st' a (as @ x # n # bs)"
    using assms by (intro hlist_add_after_correct)
  show "\<exists>st'. hlist_del st x = Some st' \<and> hlist_del_init st x = Some st' \<and> hlist st' a (as @ bs)
         \<and> hlist_unhashed st' x = Some True"
    using hlist_del_correct [OF assms(1)] by auto
  show "\<exists>st'. hlist_move_list st a b = Some st' \<and> hlist st' b (as @ x # bs) \<and> hlist_empty st' a = Some True"
    using hlist_move_list_correct [OF assms(1,5,6)] by (auto simp: hlist_empty_def hlist_def)
qed

definition sample_hstore :: hstore where
  "sample_hstore = \<lparr>hnodes = [1 \<mapsto> \<lparr>hn_next = 2, hn_pprev = First 10\<rparr>, 2 \<mapsto> \<lparr>hn_next = 0, hn_pprev = Next 1\<rparr>,
     3 \<mapsto> \<lparr>hn_next = 0, hn_pprev = Null_cell\<rparr>], hheads = [10 \<mapsto> 1, 20 \<mapsto> 0]\<rparr>"

lemma sample_hstore: "hlist sample_hstore 10 [1, 2]" "Next 3 \<in> cells sample_hstore" "First 20 \<in> cells sample_hstore"
  by (simp_all add: sample_hstore_def hlist_def deref.simps pprev_def NULL_def cells_def)

theorem hlist_operations_witness:
  "(\<exists>st'. hlist_add_head sample_hstore 3 10 = Some st' \<and> hlist st' 10 (3 # [1] @ 2 # []))
    \<and> (\<exists>st'. hlist_add_before sample_hstore 3 2 = Some st' \<and> hlist st' 10 ([1] @ 3 # 2 # []))
    \<and> (\<exists>st'. hlist_add_after sample_hstore 2 3 = Some st' \<and> hlist st' 10 ([1] @ 2 # 3 # []))
    \<and> (\<exists>st'. hlist_del sample_hstore 2 = Some st' \<and> hlist_del_init sample_hstore 2 = Some st' \<and> hlist st' 10 ([1] @ [])
         \<and> hlist_unhashed st' 2 = Some True)
    \<and> (\<exists>st'. hlist_move_list sample_hstore 10 20 = Some st' \<and> hlist st' 20 ([1] @ 2 # []) \<and> hlist_empty st' 10 = Some True)"
  by (rule hlist_operations) (use sample_hstore in \<open>simp_all add: NULL_def\<close>)

text \<open>
  Traversals of a chain end and visit every node once in order, also when the body of
  \<open>hlist_for_each_safe\<close> deletes each node it visits, which empties the chain; and after
  \<open>hlist_add_fake\<close> a node that is on no list can be deleted.
\<close>

theorem hlist_traversals:
  assumes "hlist st a xs" and "length xs < fuel" and "n \<noteq> NULL" and "Next n \<in> cells st" and "n \<notin> set xs"
  shows "hlist_for_each fuel (\<lambda>_ st. Some st) a st = Some (xs, st)
    \<and> hlist_empty st a = Some (xs = [])
    \<and> (\<exists>st'. hlist_for_each_safe fuel (\<lambda>p st. hlist_del st p) a st = Some (xs, st') \<and> hlist st' a [])
    \<and> (deref st (Next n) = Some NULL \<longrightarrow>
        (\<exists>st' st''. hlist_add_fake st n = Some st' \<and> hlist_unhashed st' n = Some False
           \<and> hlist_del st' n = Some st'' \<and> hlist_unhashed st'' n = Some True \<and> hlist st'' a xs))"
proof (intro conjI impI)
  note first = hlist_first [OF assms(1)]
  show "hlist_for_each fuel (\<lambda>_ st. Some st) a st = Some (xs, st)"
    using hwalk_visits [of st "First a" xs fuel] assms by (auto simp: hlist_for_each_def hlist_def)
  show "hlist_empty st a = Some (xs = [])"
    using first hlist_cells(3) [OF assms(1)] by (cases xs) (auto simp: hlist_empty_def)
  show "\<exists>st'. hlist_for_each_safe fuel (\<lambda>p st. hlist_del st p) a st = Some (xs, st') \<and> hlist st' a []"
    using hwalk_safe_del [OF assms(1,2)] first by (simp add: hlist_for_each_safe_def)
  assume "deref st (Next n) = Some NULL"
  define st' where "st' = upr st n (Next n)"
  define st'' where "st'' = upr (upc (upc st' (Next n) NULL) (Next n) NULL) n Null_cell"
  have c: "cells st' = cells st" using assms(4) by (simp add: st'_def)
  have "hlist_add_fake st n = Some st'" "hlist_unhashed st' n = Some False"
    using assms(4) by (simp_all add: hlist_add_fake_def hlist_unhashed_def st'_def hstore_simps)
  moreover have "hlist_del st' n = Some st''"
    using assms(4) c \<open>deref st (Next n) = Some NULL\<close>
    by (simp add: hlist_del_def hlist_del_raw_def hstore_simps st''_def) (simp add: st'_def hstore_simps)
  moreover have "hlist_unhashed st'' n = Some True"
    using assms(4) c by (simp add: hlist_unhashed_def st''_def hstore_simps)
  moreover have "hlist st'' a xs"
    using assms(1) by (rule hlist_frame) (use assms(4,5) c in \<open>auto simp: st''_def st'_def hstore_simps\<close>)
  ultimately show "\<exists>st' st''. hlist_add_fake st n = Some st' \<and> hlist_unhashed st' n = Some False
           \<and> hlist_del st' n = Some st'' \<and> hlist_unhashed st'' n = Some True \<and> hlist st'' a xs" by blast
qed

theorem hlist_traversals_witness:
  "hlist_for_each 3 (\<lambda>_ st. Some st) 10 sample_hstore = Some ([1, 2], sample_hstore)"
  using hlist_traversals [OF sample_hstore(1), of 3 3] sample_hstore by (simp add: NULL_def)

end
