(* ===== verification/Bits.thy ===== *)
theory Bits
  imports Prelude
begin


text \<open>
  \<open>src/src/bits.h\<close>: single-bit operations on arrays of \<open>unsigned long\<close> and bit searches in
  a word. The ARM functions are C code and are modelled for any word width; the x86-64 ones are
  single instructions (\<open>bt\<close>, \<open>bts\<close>, \<open>btr\<close>, \<open>btc\<close>, \<open>bsf\<close>, \<open>bsr\<close>),
  modelled by what the instruction does to the little-endian bit string at the address. Bit
  numbers are not negative.
\<close>

section \<open>Masks\<close>

definition BIT :: "nat \<Rightarrow> ulong" where "BIT nr = push_bit nr 1"

definition BIT_MASK :: "nat \<Rightarrow> 'a::len word" where "BIT_MASK nr = push_bit (nr mod LENGTH('a)) 1"

definition BIT_WORD :: "'a::len word list \<Rightarrow> nat \<Rightarrow> nat" where "BIT_WORD addr nr = nr div LENGTH('a)"

text \<open>Bit \<open>i\<close> of an array of words.\<close>

definition tbit :: "'a::len word list \<Rightarrow> nat \<Rightarrow> bool" where
  "tbit m i = bit (m ! (i div LENGTH('a))) (i mod LENGTH('a))"

section \<open>The C functions (ARM)\<close>

definition arm_set_bit :: "nat \<Rightarrow> 'a::len word list \<Rightarrow> 'a word list option" where
  "arm_set_bit nr addr = do { p \<leftarrow> rd addr (BIT_WORD addr nr); wr addr (BIT_WORD addr nr) (p OR BIT_MASK nr) }"

definition arm_clear_bit :: "nat \<Rightarrow> 'a::len word list \<Rightarrow> 'a word list option" where
  "arm_clear_bit nr addr = do { p \<leftarrow> rd addr (BIT_WORD addr nr); wr addr (BIT_WORD addr nr) (p AND NOT (BIT_MASK nr)) }"

definition arm_change_bit :: "nat \<Rightarrow> 'a::len word list \<Rightarrow> 'a word list option" where
  "arm_change_bit nr addr = do { p \<leftarrow> rd addr (BIT_WORD addr nr); wr addr (BIT_WORD addr nr) (p XOR BIT_MASK nr) }"

definition arm_test_and_set_bit :: "nat \<Rightarrow> 'a::len word list \<Rightarrow> (int \<times> 'a word list) option" where
  "arm_test_and_set_bit nr addr = do {
     old \<leftarrow> rd addr (BIT_WORD addr nr);
     addr \<leftarrow> wr addr (BIT_WORD addr nr) (old OR BIT_MASK nr);
     Some (of_bool (old AND BIT_MASK nr \<noteq> 0), addr) }"

definition arm_test_and_clear_bit :: "nat \<Rightarrow> 'a::len word list \<Rightarrow> (int \<times> 'a word list) option" where
  "arm_test_and_clear_bit nr addr = do {
     old \<leftarrow> rd addr (BIT_WORD addr nr);
     addr \<leftarrow> wr addr (BIT_WORD addr nr) (old AND NOT (BIT_MASK nr));
     Some (of_bool (old AND BIT_MASK nr \<noteq> 0), addr) }"

definition arm_test_and_change_bit :: "nat \<Rightarrow> 'a::len word list \<Rightarrow> (int \<times> 'a word list) option" where
  "arm_test_and_change_bit nr addr = do {
     old \<leftarrow> rd addr (BIT_WORD addr nr);
     addr \<leftarrow> wr addr (BIT_WORD addr nr) (old XOR BIT_MASK nr);
     Some (of_bool (old AND BIT_MASK nr \<noteq> 0), addr) }"

definition arm_test_bit :: "nat \<Rightarrow> 'a::len word list \<Rightarrow> int option" where
  "arm_test_bit nr addr = do {
     w \<leftarrow> rd addr (BIT_WORD addr nr);
     Some (uint (1 AND drop_bit (nr mod LENGTH('a)) w)) }"

text \<open>\<open>constant_fls\<close>: one conditional shift per halving.\<close>

definition fls_step :: "u32 \<Rightarrow> nat \<Rightarrow> u32 \<times> int \<Rightarrow> u32 \<times> int" where
  "fls_step msk k = (\<lambda>(x, r). if x AND msk = 0 then (push_bit k x, r - int k) else (x, r))"

definition constant_fls :: "u32 \<Rightarrow> int" where
  "constant_fls x =
     (if x = 0 then 0
      else snd (fls_step 0x80000000 1 (fls_step 0xc0000000 2 (fls_step 0xf0000000 4
        (fls_step 0xff000000 8 (fls_step 0xffff0000 16 (x, 32)))))))"

text \<open>\<open>clz\<close> counts leading zeros, 32 for 0.\<close>

definition clz :: "u32 \<Rightarrow> nat" where "clz x = length (takeWhile (\<lambda>k. \<not> bit x k) (rev [0..<32]))"

definition arm_fls :: "u32 \<Rightarrow> int" where "arm_fls x = 32 - int (clz x)"

definition arm_ffs :: "u32 \<Rightarrow> int" where "arm_ffs x = arm_fls (x AND (- x))"

definition arm_ffs0 :: "u32 \<Rightarrow> int" where "arm_ffs0 x = arm_ffs x - 1"

definition arm_ffz :: "u32 \<Rightarrow> int" where "arm_ffz x = arm_ffs0 (NOT x)"

section \<open>The instructions (x86-64)\<close>

text \<open>\<open>bsf\<close> leaves its destination undefined for 0; \<open>bsr\<close> leaves it unchanged.\<close>

definition bsf :: "ulong \<Rightarrow> nat option" where "bsf w = find (bit w) [0..<64]"

definition bsr :: "u32 \<Rightarrow> nat option" where "bsr w = find (bit w) (rev [0..<32])"

definition ffs0 :: "ulong \<Rightarrow> nat option" where "ffs0 word = bsf word"

definition ffz :: "ulong \<Rightarrow> nat option" where "ffz word = bsf (NOT word)"

definition fls :: "u32 \<Rightarrow> int" where
  "fls x = (let r = (case bsr x of None \<Rightarrow> - 1 | Some k \<Rightarrow> int k) in r + 1)"

definition u32_at :: "ulong list \<Rightarrow> nat \<Rightarrow> u32 option" where
  "u32_at addr k = do { w \<leftarrow> rd addr (k div 2); Some (ucast (drop_bit (32 * (k mod 2)) w)) }"

definition constant_test_bit :: "nat \<Rightarrow> ulong list \<Rightarrow> bool option" where
  "constant_test_bit nr addr = do {
     p \<leftarrow> u32_at addr (nr div 32);
     Some (push_bit (nr mod 32) 1 AND (ucast p :: ulong) \<noteq> 0) }"

definition variable_test_bit :: "nat \<Rightarrow> ulong list \<Rightarrow> bool option" where
  "variable_test_bit nr addr = do { p \<leftarrow> u32_at addr (nr div 32); Some (bit p (nr mod 32)) }"

text \<open>The flag says whether the compiler knows the bit number.\<close>

definition test_bit :: "bool \<Rightarrow> nat \<Rightarrow> ulong list \<Rightarrow> bool option" where
  "test_bit const nr addr = (if const then constant_test_bit nr addr else variable_test_bit nr addr)"

definition bt_op :: "(ulong \<Rightarrow> nat \<Rightarrow> ulong) \<Rightarrow> nat \<Rightarrow> ulong list \<Rightarrow> (bool \<times> ulong list) option" where
  "bt_op f nr addr = do {
     w \<leftarrow> rd addr (nr div 64);
     addr' \<leftarrow> wr addr (nr div 64) (f w (nr mod 64));
     Some (bit w (nr mod 64), addr') }"

definition bts :: "nat \<Rightarrow> ulong list \<Rightarrow> (bool \<times> ulong list) option" where
  "bts = bt_op (\<lambda>w k. Bit_Operations.set_bit k w)"
definition btr :: "nat \<Rightarrow> ulong list \<Rightarrow> (bool \<times> ulong list) option" where
  "btr = bt_op (\<lambda>w k. unset_bit k w)"
definition btc :: "nat \<Rightarrow> ulong list \<Rightarrow> (bool \<times> ulong list) option" where
  "btc = bt_op (\<lambda>w k. flip_bit k w)"

definition set_bit :: "nat \<Rightarrow> ulong list \<Rightarrow> ulong list option" where
  "set_bit nr addr = map_option snd (bts nr addr)"
definition clear_bit :: "nat \<Rightarrow> ulong list \<Rightarrow> ulong list option" where
  "clear_bit nr addr = map_option snd (btr nr addr)"
definition change_bit :: "nat \<Rightarrow> ulong list \<Rightarrow> ulong list option" where
  "change_bit nr addr = map_option snd (btc nr addr)"

text \<open>\<open>sbb r, r\<close> turns the carry flag into 0 or -1.\<close>

definition sbb :: "bool \<times> ulong list \<Rightarrow> int \<times> ulong list" where "sbb = (\<lambda>(c, m). (if c then - 1 else 0, m))"

definition test_and_set_bit :: "nat \<Rightarrow> ulong list \<Rightarrow> (int \<times> ulong list) option" where
  "test_and_set_bit nr addr = map_option sbb (bts nr addr)"
definition test_and_clear_bit :: "nat \<Rightarrow> ulong list \<Rightarrow> (int \<times> ulong list) option" where
  "test_and_clear_bit nr addr = map_option sbb (btr nr addr)"
definition test_and_change_bit :: "nat \<Rightarrow> ulong list \<Rightarrow> (int \<times> ulong list) option" where
  "test_and_change_bit nr addr = map_option sbb (btc nr addr)"

section \<open>What they do to the bits\<close>

lemma word_eq_bits: "w = v \<longleftrightarrow> (\<forall>n < LENGTH('a). bit w n = bit v n)" for w v :: "'a::len word"
  by (auto intro: bit_word_eqI)

lemma same_pos: "i div n = j div n \<Longrightarrow> i mod n = j mod n \<Longrightarrow> i = (j :: nat)"
  by (metis div_mult_mod_eq)

lemma word_index: "nr < n * length m \<Longrightarrow> 0 < n \<Longrightarrow> nr div n < length m"
  by (simp add: less_mult_imp_div_less mult.commute)

lemma tbit_update:
  fixes m :: "'a::len word list"
  assumes "nr < LENGTH('a) * length m" and "\<And>k. k < LENGTH('a) \<Longrightarrow> bit v k = (if k = nr mod LENGTH('a) then b else bit (m ! (nr div LENGTH('a))) k)"
  shows "tbit (m[nr div LENGTH('a) := v]) = (tbit m)(nr := b)"
proof
  fix i
  have l: "nr div LENGTH('a) < length m" using assms(1) by (rule word_index) simp
  show "tbit (m[nr div LENGTH('a) := v]) i = ((tbit m)(nr := b)) i"
    using assms(2) [of "i mod LENGTH('a)"] l same_pos [of i "LENGTH('a)" nr]
    by (cases "i div LENGTH('a) = nr div LENGTH('a)") (auto simp: tbit_def)
qed

lemma bit_BIT_MASK [bit_simps]: "bit (BIT_MASK nr :: 'a::len word) k \<longleftrightarrow> k = nr mod LENGTH('a)"
  by (auto simp: BIT_MASK_def bit_simps)

lemma and_BIT_MASK: "w AND BIT_MASK nr \<noteq> 0 \<longleftrightarrow> bit w (nr mod LENGTH('a))" for w :: "'a::len word"
  by (auto simp: word_eq_bits bit_simps dest: bit_imp_le_length)

lemmas bit_op_defs = bt_op_def bts_def btr_def btc_def set_bit_def clear_bit_def change_bit_def sbb_def
  test_and_set_bit_def test_and_clear_bit_def test_and_change_bit_def

lemma set_bit_tbit:
  assumes "nr < 64 * length m"
  shows "\<exists>m'. set_bit nr m = Some m' \<and> length m' = length m \<and> tbit m' = (tbit m)(nr := True)"
proof -
  have "tbit (m[nr div LENGTH(64) := Bit_Operations.set_bit (nr mod 64) (m ! (nr div 64))]) = (tbit m)(nr := True)"
    by (rule tbit_update) (use assms in \<open>auto simp: bit_simps\<close>)
  then show ?thesis using word_index [OF assms] by (auto simp: bit_op_defs rd_eq wr_eq)
qed

lemma clear_bit_tbit:
  assumes "nr < 64 * length m"
  shows "\<exists>m'. clear_bit nr m = Some m' \<and> length m' = length m \<and> tbit m' = (tbit m)(nr := False)"
proof -
  have "tbit (m[nr div LENGTH(64) := unset_bit (nr mod 64) (m ! (nr div 64))]) = (tbit m)(nr := False)"
    by (rule tbit_update) (use assms in \<open>auto simp: bit_simps\<close>)
  then show ?thesis using word_index [OF assms] by (auto simp: bit_op_defs rd_eq wr_eq)
qed

lemma change_bit_tbit:
  assumes "nr < 64 * length m"
  shows "\<exists>m'. change_bit nr m = Some m' \<and> length m' = length m \<and> tbit m' = (tbit m)(nr := \<not> tbit m nr)"
proof -
  have "tbit (m[nr div LENGTH(64) := flip_bit (nr mod 64) (m ! (nr div 64))]) = (tbit m)(nr := \<not> tbit m nr)"
    by (rule tbit_update) (use assms in \<open>auto simp: bit_simps tbit_def\<close>)
  then show ?thesis using word_index [OF assms] by (auto simp: bit_op_defs rd_eq wr_eq)
qed

lemma test_bit_tbit:
  assumes "nr < 64 * length m"
  shows "test_bit c nr m = Some (tbit m nr)"
proof -
  have w: "nr div 32 div 2 = nr div 64" "32 * (nr div 32 mod 2) + nr mod 32 = nr mod 64"
    by (simp add: div_mult2_eq [symmetric]) (metis mod_mult2_eq mult_2_right numeral_Bit0 add.commute mult.commute mod_mult2_eq [of nr 32 2, simplified])
  have l: "nr div 64 < length m" using word_index [OF assms] by simp
  have u: "u32_at m (nr div 32) = Some (ucast (drop_bit (32 * (nr div 32 mod 2)) (m ! (nr div 64))))"
    using l w by (simp add: u32_at_def rd_eq)
  have b: "bit (drop_bit (32 * (nr div 32 mod 2)) (m ! (nr div 64))) (nr mod 32) = tbit m nr"
    using w by (simp add: tbit_def bit_simps)
  have "(push_bit (nr mod 32) 1 AND (ucast (p :: u32) :: ulong) \<noteq> 0) = bit p (nr mod 32)" for p
    by (auto simp: word_eq_bits bit_simps dest: bit_imp_le_length)
  then show ?thesis
    using u b by (auto simp: test_bit_def constant_test_bit_def variable_test_bit_def bit_simps)
qed

text \<open>The ARM functions, at the width of the array.\<close>

lemmas arm_defs = arm_set_bit_def arm_clear_bit_def arm_change_bit_def arm_test_bit_def
  arm_test_and_set_bit_def arm_test_and_clear_bit_def arm_test_and_change_bit_def

lemma arm_bit_tbit:
  fixes m :: "'a::len word list"
  assumes "nr < LENGTH('a) * length m"
  shows "\<exists>m'. arm_set_bit nr m = Some m' \<and> arm_test_and_set_bit nr m = Some (of_bool (tbit m nr), m')
      \<and> length m' = length m \<and> tbit m' = (tbit m)(nr := True)"
    and "\<exists>m'. arm_clear_bit nr m = Some m' \<and> arm_test_and_clear_bit nr m = Some (of_bool (tbit m nr), m')
      \<and> length m' = length m \<and> tbit m' = (tbit m)(nr := False)"
    and "\<exists>m'. arm_change_bit nr m = Some m' \<and> arm_test_and_change_bit nr m = Some (of_bool (tbit m nr), m')
      \<and> length m' = length m \<and> tbit m' = (tbit m)(nr := \<not> tbit m nr)"
    and "arm_test_bit nr m = Some (of_bool (tbit m nr))"
proof -
  have l: "BIT_WORD m nr < length m" using word_index [OF assms] by (simp add: BIT_WORD_def)
  note u = tbit_update [OF assms, folded BIT_WORD_def [of m nr]]
  have t: "bit (m ! BIT_WORD m nr) (nr mod LENGTH('a)) = tbit m nr" by (simp add: tbit_def BIT_WORD_def)
  let ?w = "m ! BIT_WORD m nr" and ?M = "BIT_MASK nr :: 'a word"
  have "tbit (m[BIT_WORD m nr := ?w OR ?M]) = (tbit m)(nr := True)" by (rule u) (auto simp: bit_simps)
  then show "\<exists>m'. arm_set_bit nr m = Some m' \<and> arm_test_and_set_bit nr m = Some (of_bool (tbit m nr), m')
      \<and> length m' = length m \<and> tbit m' = (tbit m)(nr := True)"
    using l t by (simp add: arm_defs rd_eq wr_eq and_BIT_MASK)
  have "tbit (m[BIT_WORD m nr := ?w AND NOT ?M]) = (tbit m)(nr := False)" by (rule u) (auto simp: bit_simps)
  then show "\<exists>m'. arm_clear_bit nr m = Some m' \<and> arm_test_and_clear_bit nr m = Some (of_bool (tbit m nr), m')
      \<and> length m' = length m \<and> tbit m' = (tbit m)(nr := False)"
    using l t by (simp add: arm_defs rd_eq wr_eq and_BIT_MASK)
  have "tbit (m[BIT_WORD m nr := ?w XOR ?M]) = (tbit m)(nr := \<not> tbit m nr)" by (rule u) (auto simp: bit_simps t)
  then show "\<exists>m'. arm_change_bit nr m = Some m' \<and> arm_test_and_change_bit nr m = Some (of_bool (tbit m nr), m')
      \<and> length m' = length m \<and> tbit m' = (tbit m)(nr := \<not> tbit m nr)"
    using l t by (simp add: arm_defs rd_eq wr_eq and_BIT_MASK)
  have "1 AND drop_bit (nr mod LENGTH('a)) ?w = of_bool (tbit m nr)"
    using t by (auto simp: one_and_eq bit_iff_odd_drop_bit mod_2_eq_odd)
  then show "arm_test_bit nr m = Some (of_bool (tbit m nr))" using l by (simp add: arm_defs rd_eq)
qed

section \<open>Searches in a word\<close>

lemma find_upt_Some: "find P [0..<n] = Some k \<longleftrightarrow> k < n \<and> P k \<and> (\<forall>j < k. \<not> P j)"
  by (auto simp: find_Some_iff)

lemma find_down_Some: "find P (rev [0..<n]) = Some k \<longleftrightarrow> k < n \<and> P k \<and> (\<forall>j. k < j \<longrightarrow> j < n \<longrightarrow> \<not> P j)"
  by (induction n) (auto simp: less_Suc_eq)

lemma ffs0_Some: "ffs0 w = Some k \<longleftrightarrow> k < 64 \<and> bit w k \<and> (\<forall>j < k. \<not> bit w j)"
  by (simp add: ffs0_def bsf_def find_upt_Some)

lemma ffz_Some: "ffz w = Some k \<longleftrightarrow> k < 64 \<and> \<not> bit w k \<and> (\<forall>j < k. bit w j)"
  by (auto simp: ffz_def bsf_def find_upt_Some bit_simps)

lemma ffs0_None: "ffs0 w = None \<longleftrightarrow> w = 0"
  by (simp add: ffs0_def bsf_def find_None_iff word_eq_bits [of w 0])

lemma ffz_None: "ffz w = None \<longleftrightarrow> w = - 1"
  by (simp add: ffz_def bsf_def find_None_iff word_eq_bits [of w "- 1"] bit_simps)

definition top_bit :: "u32 \<Rightarrow> nat \<Rightarrow> bool" where
  "top_bit x k \<longleftrightarrow> k < 32 \<and> bit x k \<and> (\<forall>j. k < j \<longrightarrow> j < 32 \<longrightarrow> \<not> bit x j)"

lemma top_bit_exists: "x \<noteq> 0 \<Longrightarrow> \<exists>k. top_bit x k"
proof -
  assume "x \<noteq> 0"
  then have "find (bit x) (rev [0..<32]) \<noteq> None" by (simp add: find_None_iff word_eq_bits [of x 0])
  then show ?thesis unfolding top_bit_def using find_down_Some [of "bit x" 32] by (metis not_None_eq)
qed

lemma fls_top: "top_bit x k \<Longrightarrow> fls x = int k + 1"
  using find_down_Some [of "bit x" 32 k] by (simp add: fls_def bsr_def top_bit_def)

lemma fls_0: "fls 0 = 0"
proof -
  have "find (bit (0 :: u32)) (rev [0..<32]) = None" by (simp add: find_None_iff)
  then show ?thesis by (simp add: fls_def bsr_def del: upt.simps)
qed

lemma takeWhile_down: "k < n \<Longrightarrow> P k \<Longrightarrow> (\<And>j. k < j \<Longrightarrow> j < n \<Longrightarrow> \<not> P j)
  \<Longrightarrow> length (takeWhile (\<lambda>j. \<not> P j) (rev [0..<n])) = n - Suc k"
  by (induction n) (auto simp: less_Suc_eq)

lemma arm_fls_eq: "arm_fls x = fls x"
proof (cases "x = 0")
  case True
  then show ?thesis by (simp add: arm_fls_def clz_def fls_0 takeWhile_eq_all_conv [THEN iffD2] flip: upt_rec)
next
  case False
  then obtain k where k: "top_bit x k" using top_bit_exists by blast
  then have "clz x = 32 - Suc k"
    unfolding clz_def by (intro takeWhile_down) (auto simp: top_bit_def)
  then show ?thesis using fls_top [OF k] k by (simp add: arm_fls_def top_bit_def)
qed

text \<open>Invariant of the halving steps: the top bit of the shifted word, shifted back.\<close>

lemma fls_step_top:
  assumes "top_bit x k" and "\<And>j. j < 32 \<Longrightarrow> bit msk j \<longleftrightarrow> 32 - n \<le> j" and "n < 32" and "32 - 2 * n \<le> k"
  shows "\<exists>x' k' r'. fls_step msk n (x, r) = (x', r') \<and> top_bit x' k' \<and> r' + int k' = r + int k \<and> 32 - n \<le> k'"
proof (cases "x AND msk = 0")
  case True
  have "k < 32 - n"
  proof (rule ccontr)
    assume "\<not> k < 32 - n"
    then have "bit (x AND msk) k" using assms by (simp add: bit_simps top_bit_def)
    then show False using True by simp
  qed
  then have "top_bit (push_bit n x) (k + n)" using assms(1,3) by (auto simp: top_bit_def bit_simps)
  then show ?thesis using True assms(3,4) by (simp add: fls_step_def) (intro exI [of _ "k + n"], simp)
next
  case False
  then obtain j where "j < 32" "bit x j" "bit msk j" by (auto simp: word_eq_bits [of _ 0] bit_simps)
  then have "32 - n \<le> k" using assms(1,2) unfolding top_bit_def by (metis le_trans not_le_imp_less less_imp_le)
  then show ?thesis using False assms(1) by (auto simp: fls_step_def)
qed

lemma constant_fls_eq: "constant_fls x = fls x"
proof (cases "x = 0")
  case True
  then show ?thesis by (simp add: constant_fls_def fls_0)
next
  case False
  have m: "bit (0xffff0000 :: u32) j \<longleftrightarrow> 32 - 16 \<le> j" "bit (0xff000000 :: u32) j \<longleftrightarrow> 32 - 8 \<le> j"
    "bit (0xf0000000 :: u32) j \<longleftrightarrow> 32 - 4 \<le> j" "bit (0xc0000000 :: u32) j \<longleftrightarrow> 32 - 2 \<le> j"
    "bit (0x80000000 :: u32) j \<longleftrightarrow> 32 - 1 \<le> j" if "j < 32" for j
  proof -
    have "\<forall>j \<in> set [0..<32]. (bit (0xffff0000 :: u32) j \<longleftrightarrow> 32 - 16 \<le> j) \<and> (bit (0xff000000 :: u32) j \<longleftrightarrow> 32 - 8 \<le> j)
      \<and> (bit (0xf0000000 :: u32) j \<longleftrightarrow> 32 - 4 \<le> j) \<and> (bit (0xc0000000 :: u32) j \<longleftrightarrow> 32 - 2 \<le> j)
      \<and> (bit (0x80000000 :: u32) j \<longleftrightarrow> 32 - 1 \<le> j)"
      by code_simp
    then show "bit (0xffff0000 :: u32) j \<longleftrightarrow> 32 - 16 \<le> j" "bit (0xff000000 :: u32) j \<longleftrightarrow> 32 - 8 \<le> j"
      "bit (0xf0000000 :: u32) j \<longleftrightarrow> 32 - 4 \<le> j" "bit (0xc0000000 :: u32) j \<longleftrightarrow> 32 - 2 \<le> j"
      "bit (0x80000000 :: u32) j \<longleftrightarrow> 32 - 1 \<le> j"
      using that by auto
  qed
  obtain k where k: "top_bit x k" using top_bit_exists [OF False] by blast
  obtain x1 k1 r1 where 1: "fls_step 0xffff0000 16 (x, 32) = (x1, r1)" "top_bit x1 k1" "r1 + int k1 = 32 + int k" "16 \<le> k1"
    using fls_step_top [OF k m(1), of 32] by auto
  obtain x2 k2 r2 where 2: "fls_step 0xff000000 8 (x1, r1) = (x2, r2)" "top_bit x2 k2" "r2 + int k2 = r1 + int k1" "24 \<le> k2"
    using fls_step_top [OF 1(2) m(2), of r1] 1(4) by auto
  obtain x3 k3 r3 where 3: "fls_step 0xf0000000 4 (x2, r2) = (x3, r3)" "top_bit x3 k3" "r3 + int k3 = r2 + int k2" "28 \<le> k3"
    using fls_step_top [OF 2(2) m(3), of r2] 2(4) by auto
  obtain x4 k4 r4 where 4: "fls_step 0xc0000000 2 (x3, r3) = (x4, r4)" "top_bit x4 k4" "r4 + int k4 = r3 + int k3" "30 \<le> k4"
    using fls_step_top [OF 3(2) m(4), of r3] 3(4) by auto
  obtain x5 k5 r5 where 5: "fls_step 0x80000000 1 (x4, r4) = (x5, r5)" "top_bit x5 k5" "r5 + int k5 = r4 + int k4" "31 \<le> k5"
    using fls_step_top [OF 4(2) m(5), of r4] 4(4) by auto
  have "k5 = 31" using 5(2,4) by (simp add: top_bit_def)
  then have "r5 = int k + 1" using 1(3) 2(3) 3(3) 4(3) 5(3) by simp
  then show ?thesis using False 1(1) 2(1) 3(1) 4(1) 5(1) fls_top [OF k] by (simp add: constant_fls_def)
qed

text \<open>\<open>x & -x\<close> isolates the lowest set bit.\<close>

lemma isolate_lowest:
  fixes x :: "'a::len word"
  assumes "k < LENGTH('a)" and "bit x k" and "\<And>j. j < k \<Longrightarrow> \<not> bit x j"
  shows "x AND (- x) = push_bit k 1"
proof -
  define y where "y = drop_bit k x"
  have x: "x = push_bit k y"
  proof (rule bit_word_eqI)
    fix n assume "n < LENGTH('a)"
    then show "bit x n \<longleftrightarrow> bit (push_bit k y) n"
      using assms(3) [of n] by (cases "k \<le> n") (auto simp: y_def bit_simps)
  qed
  have odd: "bit y 0" using assms(2) by (simp add: y_def bit_simps)
  have "NOT y AND 1 = 0" by (rule bit_word_eqI) (use odd in \<open>auto simp: bit_simps bit_1_iff\<close>)
  then have "NOT y + 1 = NOT y OR 1" by (rule disjunctive_add_eq_or)
  moreover have "- y = NOT y + 1" by (simp add: minus_eq_not_plus_1)
  moreover have "y AND (NOT y OR 1) = 1" by (rule bit_word_eqI) (use odd in \<open>auto simp: bit_simps bit_1_iff\<close>)
  ultimately have "y AND - y = 1" by simp
  moreover have "- x = push_bit k (- y)" by (simp add: x push_bit_eq_mult)
  ultimately show ?thesis by (metis push_bit_and x)
qed

lemma arm_ffs_lowest:
  assumes "k < 32" and "bit x k" and "\<And>j. j < k \<Longrightarrow> \<not> bit x j"
  shows "arm_ffs x = int k + 1"
proof -
  have "x AND (- x) = push_bit k 1" by (rule isolate_lowest) (use assms in auto)
  then have "top_bit (x AND - x) k" using assms(1) by (auto simp: top_bit_def bit_simps)
  then show ?thesis by (simp add: arm_ffs_def arm_fls_eq fls_top)
qed

section \<open>Properties\<close>

text \<open>
  The bit operations change exactly the one bit of the array that is asked for, inside
  its word, and report its old value; the single instructions of x86-64 and the C code of ARM
  do the same (their results differ as integers: -1 and 1 for true).
\<close>

theorem bit_operations_agree:
  fixes m :: "ulong list"
  assumes "nr < 64 * length m"
  shows "set_bit nr m = arm_set_bit nr m \<and> clear_bit nr m = arm_clear_bit nr m \<and> change_bit nr m = arm_change_bit nr m
    \<and> (\<exists>a b c. set_bit nr m = Some a \<and> tbit a = (tbit m)(nr := True) \<and> length a = length m
        \<and> clear_bit nr m = Some b \<and> tbit b = (tbit m)(nr := False) \<and> length b = length m
        \<and> change_bit nr m = Some c \<and> tbit c = (tbit m)(nr := \<not> tbit m nr) \<and> length c = length m
        \<and> test_and_set_bit nr m = Some (- of_bool (tbit m nr), a) \<and> arm_test_and_set_bit nr m = Some (of_bool (tbit m nr), a)
        \<and> test_and_clear_bit nr m = Some (- of_bool (tbit m nr), b) \<and> arm_test_and_clear_bit nr m = Some (of_bool (tbit m nr), b)
        \<and> test_and_change_bit nr m = Some (- of_bool (tbit m nr), c) \<and> arm_test_and_change_bit nr m = Some (of_bool (tbit m nr), c))
    \<and> test_bit const nr m = Some (tbit m nr) \<and> arm_test_bit nr m = Some (of_bool (tbit m nr))"
proof -
  have l: "nr div 64 < length m" using word_index [OF assms] by simp
  let ?i = "nr div 64" and ?k = "nr mod 64"
  have w: "Bit_Operations.set_bit ?k (m ! ?i) = m ! ?i OR BIT_MASK nr" "unset_bit ?k (m ! ?i) = m ! ?i AND NOT (BIT_MASK nr)"
    "flip_bit ?k (m ! ?i) = m ! ?i XOR BIT_MASK nr"
    by (rule bit_word_eqI; auto simp: bit_simps)+
  have x86: "bts nr m = Some (tbit m nr, m[?i := m ! ?i OR BIT_MASK nr])"
    "btr nr m = Some (tbit m nr, m[?i := m ! ?i AND NOT (BIT_MASK nr)])"
    "btc nr m = Some (tbit m nr, m[?i := m ! ?i XOR BIT_MASK nr])"
    using l w by (simp_all add: bts_def btr_def btc_def bt_op_def rd_eq wr_eq tbit_def)
  have arm: "arm_set_bit nr m = Some (m[?i := m ! ?i OR BIT_MASK nr])" "arm_clear_bit nr m = Some (m[?i := m ! ?i AND NOT (BIT_MASK nr)])"
    "arm_change_bit nr m = Some (m[?i := m ! ?i XOR BIT_MASK nr])"
    using l by (simp_all add: arm_defs BIT_WORD_def rd_eq wr_eq)
  have sb: "sbb (b, m') = (- of_bool b, m')" for b m' by (simp add: sbb_def)
  obtain a b c where "arm_set_bit nr m = Some a" "arm_test_and_set_bit nr m = Some (of_bool (tbit m nr), a)"
    "length a = length m" "tbit a = (tbit m)(nr := True)"
    "arm_clear_bit nr m = Some b" "arm_test_and_clear_bit nr m = Some (of_bool (tbit m nr), b)"
    "length b = length m" "tbit b = (tbit m)(nr := False)"
    "arm_change_bit nr m = Some c" "arm_test_and_change_bit nr m = Some (of_bool (tbit m nr), c)"
    "length c = length m" "tbit c = (tbit m)(nr := \<not> tbit m nr)"
    using arm_bit_tbit [of nr m] assms by auto
  then show ?thesis
    using x86 arm sb test_bit_tbit [OF assms, of const] arm_bit_tbit(4) [of nr m] assms
    by (simp add: set_bit_def clear_bit_def change_bit_def test_and_set_bit_def test_and_clear_bit_def test_and_change_bit_def)
qed

theorem bit_operations_agree_witness:
  "set_bit 65 [0, 4] = arm_set_bit 65 [0, 4] \<and> test_bit False 66 [0, 4] = Some True"
  using bit_operations_agree [of 65 "[0, 4]" False] bit_operations_agree [of 66 "[0, 4]" False]
  by (simp add: tbit_def)

text \<open>
  The searches inside a word agree on both platforms and are what their names say:
  \<open>fls\<close> is one more than the number of the highest set bit and 0 for 0, by the instruction, by
  \<open>clz\<close> and by the halving code for constants; \<open>__ffs\<close> is the number of the lowest set bit.
\<close>

theorem word_searches_agree:
  "arm_fls x = fls x \<and> constant_fls x = fls x \<and> fls 0 = 0
    \<and> (x \<noteq> 0 \<longrightarrow> (\<exists>k < 32. fls x = int k + 1 \<and> bit x k \<and> (\<forall>j. k < j \<longrightarrow> \<not> bit x j)))
    \<and> (x \<noteq> 0 \<longrightarrow> (\<exists>k < 32. arm_ffs0 x = int k \<and> ffs0 (ucast x) = Some k \<and> bit x k \<and> (\<forall>j < k. \<not> bit x j)))
    \<and> (x \<noteq> - 1 \<longrightarrow> (\<exists>k < 32. arm_ffz x = int k \<and> \<not> bit x k \<and> (\<forall>j < k. bit x j)))
    \<and> (ffs0 0 = None)"
proof (intro conjI impI)
  show "arm_fls x = fls x" by (rule arm_fls_eq)
  show "constant_fls x = fls x" by (rule constant_fls_eq)
  show "fls 0 = 0" by (rule fls_0)
  show "ffs0 0 = None" by (simp add: ffs0_None)
  show "\<exists>k < 32. fls x = int k + 1 \<and> bit x k \<and> (\<forall>j. k < j \<longrightarrow> \<not> bit x j)" if nz: "x \<noteq> 0"
  proof -
    obtain k where "top_bit x k" using top_bit_exists [OF nz] by blast
    then show ?thesis using fls_top [of x k] bit_imp_le_length [of x] by (intro exI [of _ k]) (auto simp: top_bit_def)
  qed
  have low: "\<exists>k < 32. arm_ffs0 y = int k \<and> ffs0 (ucast y) = Some k \<and> bit y k \<and> (\<forall>j < k. \<not> bit y j)" if nz: "y \<noteq> 0" for y :: u32
  proof -
    obtain j where "bit y j" "j < 32" using nz by (auto simp: word_eq_bits [of y])
    then have "bit (ucast y :: ulong) j" by (simp add: bit_simps)
    then have "(ucast y :: ulong) \<noteq> 0" by auto
    then obtain k where k: "ffs0 (ucast y) = Some k" using ffs0_None by (metis not_None_eq)
    then have b: "bit y k" "\<forall>j < k. \<not> bit y j" by (auto simp: ffs0_Some bit_simps)
    moreover have "k < 32" using b(1) bit_imp_le_length by fastforce
    ultimately show ?thesis using k arm_ffs_lowest [of k y] by (auto simp: arm_ffs0_def)
  qed
  show "\<exists>k < 32. arm_ffs0 x = int k \<and> ffs0 (ucast x) = Some k \<and> bit x k \<and> (\<forall>j < k. \<not> bit x j)" if "x \<noteq> 0"
    using low [OF that] .
  show "\<exists>k < 32. arm_ffz x = int k \<and> \<not> bit x k \<and> (\<forall>j < k. bit x j)" if "x \<noteq> - 1"
  proof -
    have "NOT x \<noteq> 0" using that by (metis bit.double_compl bit.compl_zero)
    then show ?thesis using low [of "NOT x"] by (force simp: arm_ffz_def bit_simps)
  qed
qed

theorem word_searches_agree_witness:
  "\<exists>k < 32. fls 80 = int k + 1 \<and> bit (80 :: u32) k"
  using word_searches_agree [of 80] by auto

end
