(* ===== verification/FindBit.thy ===== *)
theory FindBit
  imports Bits
begin

text \<open>
  \<open>src/src/find_next_bit.c\<close>: searches for set and clear bits in an array of words. Sizes and
  offsets are natural numbers (no sum in the code exceeds the size given); \<open>goto\<close> targets are
  definitions of their own. \<open>size & ~63\<close> is not zero just when \<open>size\<close> is at least 64.
\<close>

section \<open>Set bits\<close>

definition found_middle :: "nat \<Rightarrow> ulong \<Rightarrow> nat option" where
  "found_middle result tmp = do { k \<leftarrow> ffs0 tmp; Some (result + k) }"

definition found_first :: "nat \<Rightarrow> nat \<Rightarrow> ulong \<Rightarrow> nat option" where
  "found_first result sz tmp =
     (let tmp = tmp AND drop_bit (64 - sz) (- 1) in
      if tmp = 0 then Some (result + sz) else found_middle result tmp)"

function find_loop :: "ulong list \<Rightarrow> nat \<Rightarrow> nat \<Rightarrow> nat \<Rightarrow> nat option" where
  "find_loop addr p result sz =
     (if 64 \<le> sz then do {
        tmp \<leftarrow> rd addr p;
        if tmp \<noteq> 0 then found_middle result tmp else find_loop addr (p + 1) (result + 64) (sz - 64) }
      else if sz = 0 then Some result
      else do { tmp \<leftarrow> rd addr p; found_first result sz tmp })"
  by pat_completeness auto
termination
  by (relation "measure (\<lambda>(addr, p, result, sz). sz)") auto

declare find_loop.simps [simp del]

definition find_next_bit :: "ulong list \<Rightarrow> nat \<Rightarrow> nat \<Rightarrow> nat option" where
  "find_next_bit addr sz offset =
     (let p = offset div 64; result = offset - offset mod 64 in
      if sz \<le> offset then Some sz
      else
        let sz = sz - result; offset = offset mod 64 in
        if offset \<noteq> 0 then do {
          tmp \<leftarrow> rd addr p;
          let tmp = tmp AND push_bit offset (- 1);
          if sz < 64 then found_first result sz tmp
          else if tmp \<noteq> 0 then found_middle result tmp
          else find_loop addr (p + 1) (result + 64) (sz - 64) }
        else find_loop addr p result sz)"

definition find_first_bit :: "ulong list \<Rightarrow> nat \<Rightarrow> nat option" where
  "find_first_bit addr sz = find_loop addr 0 0 sz"

section \<open>Clear bits\<close>

definition found_middle_zero :: "nat \<Rightarrow> ulong \<Rightarrow> nat option" where
  "found_middle_zero result tmp = do { k \<leftarrow> ffz tmp; Some (result + k) }"

definition found_first_zero :: "nat \<Rightarrow> nat \<Rightarrow> ulong \<Rightarrow> nat option" where
  "found_first_zero result sz tmp =
     (let tmp = tmp OR push_bit sz (- 1) in
      if tmp = - 1 then Some (result + sz) else found_middle_zero result tmp)"

function find_zero_loop :: "ulong list \<Rightarrow> nat \<Rightarrow> nat \<Rightarrow> nat \<Rightarrow> nat option" where
  "find_zero_loop addr p result sz =
     (if 64 \<le> sz then do {
        tmp \<leftarrow> rd addr p;
        if NOT tmp \<noteq> 0 then found_middle_zero result tmp else find_zero_loop addr (p + 1) (result + 64) (sz - 64) }
      else if sz = 0 then Some result
      else do { tmp \<leftarrow> rd addr p; found_first_zero result sz tmp })"
  by pat_completeness auto
termination
  by (relation "measure (\<lambda>(addr, p, result, sz). sz)") auto

declare find_zero_loop.simps [simp del]

definition find_next_zero_bit :: "ulong list \<Rightarrow> nat \<Rightarrow> nat \<Rightarrow> nat option" where
  "find_next_zero_bit addr sz offset =
     (let p = offset div 64; result = offset - offset mod 64 in
      if sz \<le> offset then Some sz
      else
        let sz = sz - result; offset = offset mod 64 in
        if offset \<noteq> 0 then do {
          tmp \<leftarrow> rd addr p;
          let tmp = tmp OR drop_bit (64 - offset) (- 1);
          if sz < 64 then found_first_zero result sz tmp
          else if NOT tmp \<noteq> 0 then found_middle_zero result tmp
          else find_zero_loop addr (p + 1) (result + 64) (sz - 64) }
        else find_zero_loop addr p result sz)"

definition find_first_zero_bit :: "ulong list \<Rightarrow> nat \<Rightarrow> nat option" where
  "find_first_zero_bit addr sz = find_zero_loop addr 0 0 sz"

section \<open>The byte-swapping versions\<close>

text \<open>
  \<open>__BIG_ENDIAN\<close> is a number that \<open><endian.h>\<close> defines on every platform, so this part is
  compiled on little-endian machines too.
\<close>

definition bswap_64 :: "ulong \<Rightarrow> ulong" where
  "bswap_64 x = foldr (\<lambda>k acc. push_bit (8 * (7 - k)) (take_bit 8 (drop_bit (8 * k) x)) OR acc) [0..<8] 0"

definition ext2_swab :: "ulong \<Rightarrow> ulong" where "ext2_swab y = bswap_64 y"

definition ext2_swabp :: "ulong list \<Rightarrow> nat \<Rightarrow> ulong option" where
  "ext2_swabp addr p = map_option bswap_64 (rd addr p)"

function find_le_loop :: "ulong list \<Rightarrow> nat \<Rightarrow> nat \<Rightarrow> nat \<Rightarrow> nat option" where
  "find_le_loop addr p result sz =
     (if 64 \<le> sz then do {
        tmp \<leftarrow> rd addr p;
        if tmp \<noteq> 0 then found_middle result (ext2_swab tmp) else find_le_loop addr (p + 1) (result + 64) (sz - 64) }
      else if sz = 0 then Some result
      else do { tmp \<leftarrow> ext2_swabp addr p; found_first result sz tmp })"
  by pat_completeness auto
termination
  by (relation "measure (\<lambda>(addr, p, result, sz). sz)") auto

declare find_le_loop.simps [simp del]

definition find_next_bit_le :: "ulong list \<Rightarrow> nat \<Rightarrow> nat \<Rightarrow> nat option" where
  "find_next_bit_le addr sz offset =
     (let p = 0; result = offset - offset mod 64 in
      if sz \<le> offset then Some sz
      else
        let p = p + offset div 64; sz = sz - result; offset = offset mod 64 in
        if offset \<noteq> 0 then do {
          tmp \<leftarrow> ext2_swabp addr p;
          let tmp = tmp AND push_bit offset (- 1);
          if sz < 64 then found_first result sz tmp
          else if tmp \<noteq> 0 then found_middle result tmp
          else find_le_loop addr (p + 1) (result + 64) (sz - 64) }
        else find_le_loop addr p result sz)"

function find_zero_le_loop :: "ulong list \<Rightarrow> nat \<Rightarrow> nat \<Rightarrow> nat \<Rightarrow> nat option" where
  "find_zero_le_loop addr p result sz =
     (if 64 \<le> sz then do {
        tmp \<leftarrow> rd addr p;
        if NOT tmp \<noteq> 0 then found_middle_zero result (ext2_swab tmp)
        else find_zero_le_loop addr (p + 1) (result + 64) (sz - 64) }
      else if sz = 0 then Some result
      else do { tmp \<leftarrow> ext2_swabp addr p; found_first_zero result sz tmp })"
  by pat_completeness auto
termination
  by (relation "measure (\<lambda>(addr, p, result, sz). sz)") auto

declare find_zero_le_loop.simps [simp del]

definition find_next_zero_bit_le :: "ulong list \<Rightarrow> nat \<Rightarrow> nat \<Rightarrow> nat option" where
  "find_next_zero_bit_le addr sz offset =
     (let p = 0; result = offset - offset mod 64 in
      if sz \<le> offset then Some sz
      else
        let p = p + offset div 64; sz = sz - result; offset = offset mod 64 in
        if offset \<noteq> 0 then do {
          tmp \<leftarrow> ext2_swabp addr p;
          let tmp = tmp OR drop_bit (64 - offset) (- 1);
          if sz < 64 then found_first_zero result sz tmp
          else if NOT tmp \<noteq> 0 then found_middle_zero result tmp
          else find_zero_le_loop addr (p + 1) (result + 64) (sz - 64) }
        else find_zero_le_loop addr p result sz)"

section \<open>The next position with a property\<close>

function next_pos :: "(nat \<Rightarrow> bool) \<Rightarrow> nat \<Rightarrow> nat \<Rightarrow> nat" where
  "next_pos P sz off = (if sz \<le> off then sz else if P off then off else next_pos P sz (Suc off))"
  by pat_completeness auto
termination
  by (relation "measure (\<lambda>(P, sz, off). sz - off)") auto

declare next_pos.simps [simp del]

lemma next_pos_le: "next_pos P sz off \<le> sz"
  by (induction P sz off rule: next_pos.induct) (subst next_pos.simps, auto)

lemma next_pos_bounds: "next_pos P sz off < sz \<Longrightarrow> off \<le> next_pos P sz off \<and> P (next_pos P sz off)"
proof (induction P sz off rule: next_pos.induct)
  case (1 P sz off)
  then show ?case by (cases "sz \<le> off"; cases "P off") (auto simp: next_pos.simps [of P sz off])
qed

lemma next_pos_none: "off \<le> i \<Longrightarrow> i < next_pos P sz off \<Longrightarrow> i < sz \<Longrightarrow> \<not> P i"
proof (induction P sz off rule: next_pos.induct)
  case (1 P sz off)
  then show ?case by (cases "P off"; cases "i = off") (auto simp: next_pos.simps [of P sz off])
qed

lemma next_pos_eqI:
  assumes "off \<le> r" and "r \<le> sz" and "\<And>i. off \<le> i \<Longrightarrow> i < r \<Longrightarrow> \<not> P i" and "r < sz \<Longrightarrow> P r"
  shows "next_pos P sz off = r"
  using assms
proof (induction P sz off rule: next_pos.induct)
  case (1 P sz off)
  then show ?case by (subst next_pos.simps, cases "off = r") auto
qed

lemma next_pos_skip:
  assumes "off \<le> m" and "m \<le> sz" and "\<And>i. off \<le> i \<Longrightarrow> i < m \<Longrightarrow> \<not> P i"
  shows "next_pos P sz off = next_pos P sz m"
  using assms
proof (induction P sz off rule: next_pos.induct)
  case (1 P sz off)
  then show ?case by (cases "off = m") (simp, subst next_pos.simps, auto)
qed

lemma next_pos_empty: "sz \<le> off \<Longrightarrow> next_pos P sz off = sz"
  by (simp add: next_pos.simps)

lemma next_pos_cong: "(\<And>i. i < sz \<Longrightarrow> P i = Q i) \<Longrightarrow> next_pos P sz off = next_pos Q sz off"
proof (induction P sz off rule: next_pos.induct)
  case (1 P sz off)
  then show ?case by (cases "sz \<le> off") (simp_all add: next_pos.simps [of _ sz off])
qed

section \<open>Correctness of the search for set bits\<close>

lemma tbit_word: "k < 64 \<Longrightarrow> tbit addr (64 * p + k) = bit (addr ! p) k" for addr :: "ulong list"
  by (simp add: tbit_def)

lemma found_middle_next:
  fixes addr :: "ulong list"
  assumes "tmp \<noteq> 0" and "\<And>k. k < 64 \<Longrightarrow> bit tmp k \<longleftrightarrow> bit (addr ! p) k \<and> off \<le> 64 * p + k \<and> 64 * p + k < sz"
    and "64 * p \<le> off \<or> off \<le> 64 * p"
    and "\<And>i. off \<le> i \<Longrightarrow> i < 64 * p \<Longrightarrow> \<not> tbit addr i"
  shows "found_middle (64 * p) tmp = Some (next_pos (tbit addr) sz off)"
proof -
  obtain k where "ffs0 tmp = Some k" using assms(1) ffs0_None by (metis not_None_eq)
  then have k: "k < 64" "bit tmp k" "\<And>j. j < k \<Longrightarrow> \<not> bit tmp j" by (auto simp: ffs0_Some)
  have b: "bit (addr ! p) k" "off \<le> 64 * p + k" "64 * p + k < sz" using assms(2) k by auto
  have "next_pos (tbit addr) sz off = 64 * p + k"
  proof (rule next_pos_eqI)
    fix i assume i: "off \<le> i" "i < 64 * p + k"
    show "\<not> tbit addr i"
    proof (cases "i < 64 * p")
      case True
      then show ?thesis using assms(4) i by blast
    next
      case False
      then obtain j where j: "i = 64 * p + j" "j < k" using i by (metis le_Suc_ex nat_add_left_cancel_less not_less)
      then have "\<not> bit (addr ! p) j" using k(1,3) assms(2) [of j] i b by auto
      then show ?thesis using j k(1) tbit_word [of j addr p] by simp
    qed
  qed (use b k in \<open>auto simp: tbit_word\<close>)
  then show ?thesis using \<open>ffs0 tmp = Some k\<close> by (simp add: found_middle_def)
qed

lemma found_first_next:
  fixes addr :: "ulong list"
  assumes "0 < n" and "n < 64" and "sz = 64 * p + n" and "off \<le> sz"
    and "\<And>k. k < 64 \<Longrightarrow> bit tmp k \<longleftrightarrow> bit (addr ! p) k \<and> off \<le> 64 * p + k"
    and "\<And>i. off \<le> i \<Longrightarrow> i < 64 * p \<Longrightarrow> \<not> tbit addr i"
  shows "found_first (64 * p) n tmp = Some (next_pos (tbit addr) sz off)"
proof -
  let ?t = "tmp AND drop_bit (64 - n) (- 1)"
  have t: "bit ?t k \<longleftrightarrow> bit (addr ! p) k \<and> off \<le> 64 * p + k \<and> 64 * p + k < sz" if "k < 64" for k
    using assms(1-3) assms(5) [OF that] that by (auto simp: bit_simps)
  show ?thesis
  proof (cases "?t = 0")
    case True
    have "next_pos (tbit addr) sz off = sz"
    proof (rule next_pos_eqI)
      fix i assume i: "off \<le> i" "i < sz"
      show "\<not> tbit addr i"
      proof (cases "i < 64 * p")
        case False
        then obtain j where j: "i = 64 * p + j" "j < 64" using i assms(2,3)
          by (metis le_Suc_ex nat_add_left_cancel_less not_less order.strict_trans)
        then show ?thesis using t [of j] True i tbit_word [of j addr p] assms(3) by simp
      qed (use assms(6) i in blast)
    qed (use assms(4) in auto)
    then show ?thesis using True assms(3) by (simp add: found_first_def)
  next
    case False
    then show ?thesis
      using found_middle_next [of ?t addr p off sz] t assms(6) by (simp add: found_first_def linorder_linear)
  qed
qed

lemma find_loop_next:
  assumes "sz + 64 * p \<le> 64 * length addr" and "off \<le> sz + 64 * p"
    and "\<And>i. off \<le> i \<Longrightarrow> i < 64 * p \<Longrightarrow> \<not> tbit addr i" and "off \<le> 64 * p"
  shows "find_loop addr p (64 * p) sz = Some (next_pos (tbit addr) (sz + 64 * p) off)"
  using assms
proof (induction sz arbitrary: p rule: less_induct)
  case (less sz)
  show ?case
  proof (cases "64 \<le> sz")
    case True
    then have p: "p < length addr" using less.prems(1) by simp
    show ?thesis
    proof (cases "addr ! p = 0")
      case z: True
      have "find_loop addr (Suc p) (64 * Suc p) (sz - 64) = Some (next_pos (tbit addr) (sz - 64 + 64 * Suc p) off)"
      proof (rule less.IH)
        fix i assume i: "off \<le> i" "i < 64 * Suc p"
        show "\<not> tbit addr i"
        proof (cases "i < 64 * p")
          case False
          then obtain j where j: "i = 64 * p + j" "j < 64" using i
            by (metis le_Suc_ex nat_add_left_cancel_less not_less mult_Suc_right add.commute)
          then show ?thesis using z by (simp add: tbit_word)
        qed (use less.prems(3) i in blast)
      qed (use True less.prems in auto)
      then show ?thesis using True p z by (subst find_loop.simps) (simp add: rd_eq algebra_simps)
    next
      case nz: False
      have "found_middle (64 * p) (addr ! p) = Some (next_pos (tbit addr) (sz + 64 * p) off)"
        by (rule found_middle_next) (use nz less.prems True in auto)
      then show ?thesis using True p nz by (subst find_loop.simps) (simp add: rd_eq)
    qed
  next
    case False
    show ?thesis
    proof (cases "sz = 0")
      case True
      have "next_pos (tbit addr) (64 * p) off = 64 * p" by (rule next_pos_eqI) (use less.prems in auto)
      then show ?thesis using True by (subst find_loop.simps) simp
    next
      case nz: False
      have "found_first (64 * p) sz (addr ! p) = Some (next_pos (tbit addr) (sz + 64 * p) off)"
        by (rule found_first_next) (use nz False less.prems in auto)
      moreover have "p < length addr" using less.prems(1) nz by simp
      ultimately show ?thesis using nz False by (subst find_loop.simps) (simp add: rd_eq)
    qed
  qed
qed

lemma find_next_bit_correct:
  assumes "sz \<le> 64 * length addr"
  shows "find_next_bit addr sz offset = Some (next_pos (tbit addr) sz offset)"
proof (cases "sz \<le> offset")
  case True
  then show ?thesis by (simp add: find_next_bit_def Let_def next_pos_empty)
next
  case False
  let ?p = "offset div 64" and ?o = "offset mod 64"
  have o: "offset = 64 * ?p + ?o" "?o < 64" by simp_all
  have r: "offset - offset mod 64 = 64 * ?p" by (simp add: minus_mod_eq_mult_div)
  have p: "?p < length addr" using False assms by (simp add: less_mult_imp_div_less mult.commute)
  show ?thesis
  proof (cases "?o = 0")
    case True
    have "find_loop addr ?p (64 * ?p) (sz - 64 * ?p) = Some (next_pos (tbit addr) (sz - 64 * ?p + 64 * ?p) offset)"
      by (rule find_loop_next) (use False assms o(1) True in auto)
    moreover have "64 * ?p \<le> sz" using False o(1) by linarith
    ultimately show ?thesis using False True r by (simp add: find_next_bit_def Let_def)
  next
    case nz: False
    let ?t = "addr ! ?p AND push_bit ?o (- 1)"
    have t: "bit ?t k \<longleftrightarrow> bit (addr ! ?p) k \<and> offset \<le> 64 * ?p + k" if "k < 64" for k
    proof -
      have "offset \<le> 64 * ?p + k \<longleftrightarrow> ?o \<le> k" using o by linarith
      then show ?thesis using that by (auto simp: bit_simps)
    qed
    show ?thesis
    proof (cases "sz - 64 * ?p < 64")
      case True
      have "found_first (64 * ?p) (sz - 64 * ?p) ?t = Some (next_pos (tbit addr) sz offset)"
        by (rule found_first_next) (use False True t o in auto)
      then show ?thesis using False nz True r p by (simp add: find_next_bit_def Let_def rd_eq)
    next
      case big: False
      show ?thesis
      proof (cases "?t = 0")
        case True
        have sz: "sz - 64 * ?p - 64 + 64 * Suc ?p = sz" using big by simp
        have "next_pos (tbit addr) sz offset = next_pos (tbit addr) sz (64 * Suc ?p)"
        proof (rule next_pos_skip)
          fix i assume i: "offset \<le> i" "i < 64 * Suc ?p"
          then obtain j where j: "i = 64 * ?p + j" "j < 64" using o
            by (metis le_add1 le_Suc_ex le_trans nat_add_left_cancel_less mult_Suc_right add.commute)
          then show "\<not> tbit addr i" using t [of j] True i by (simp add: tbit_word)
        qed (use big o in auto)
        moreover have "find_loop addr (Suc ?p) (64 * Suc ?p) (sz - 64 * ?p - 64)
            = Some (next_pos (tbit addr) (sz - 64 * ?p - 64 + 64 * Suc ?p) (64 * Suc ?p))"
          by (rule find_loop_next) (use sz assms in auto)
        ultimately show ?thesis using False nz big True r p sz
          by (simp add: find_next_bit_def Let_def rd_eq algebra_simps)
      next
        case tnz: False
        have "found_middle (64 * ?p) ?t = Some (next_pos (tbit addr) sz offset)"
          by (rule found_middle_next) (use tnz t big o in auto)
        then show ?thesis using False nz big tnz r p by (simp add: find_next_bit_def Let_def rd_eq)
      qed
    qed
  qed
qed

section \<open>Clear bits are the set bits of the complement\<close>

lemma rd_map: "rd (map f xs) p = map_option f (rd xs p)"
  by (simp add: rd_def)

lemma found_middle_zero_eq: "found_middle_zero result tmp = found_middle result (NOT tmp)"
  by (simp add: found_middle_zero_def found_middle_def ffz_def ffs0_def)

lemma NOT_eq_0: "NOT w = 0 \<longleftrightarrow> w = - 1" for w :: ulong
  by (metis bit.double_compl bit.compl_zero)

lemma found_first_zero_eq:
  assumes "0 < n" and "n < 64"
  shows "found_first_zero result n tmp = found_first result n (NOT tmp)"
proof -
  have "NOT (tmp OR push_bit n (- 1)) = NOT tmp AND drop_bit (64 - n) (- 1)"
    by (rule bit_word_eqI) (use assms in \<open>auto simp: bit_simps\<close>)
  then show ?thesis
    using NOT_eq_0 [of "tmp OR push_bit n (- 1)"]
    by (simp add: found_first_zero_def found_first_def found_middle_zero_eq Let_def)
qed

lemma find_zero_loop_eq: "find_zero_loop addr p result sz = find_loop (map NOT addr) p result sz"
proof (induction sz arbitrary: p result rule: less_induct)
  case (less sz)
  then show ?case
    by (subst find_zero_loop.simps, subst find_loop.simps)
      (auto simp: rd_map found_middle_zero_eq found_first_zero_eq split: Option.bind_split)
qed

lemma find_next_zero_bit_eq: "find_next_zero_bit addr sz offset = find_next_bit (map NOT addr) sz offset"
proof -
  have m: "NOT (w OR drop_bit (64 - offset mod 64) (- 1)) = NOT w AND push_bit (offset mod 64) (- 1)"
    if "offset mod 64 \<noteq> 0" for w :: ulong
    by (rule bit_word_eqI) (use that in \<open>auto simp: bit_simps\<close>)
  have p: "0 < sz - (offset - offset mod 64)" if "\<not> sz \<le> offset" using that by auto
  show ?thesis
  proof (cases "rd addr (offset div 64)")
    case None
    then show ?thesis
      by (simp add: find_next_zero_bit_def find_next_bit_def Let_def find_zero_loop_eq rd_map)
  next
    case (Some w)
    show ?thesis
      unfolding find_next_zero_bit_def find_next_bit_def Let_def find_zero_loop_eq rd_map Some
      using p m [of w] by (simp add: found_first_zero_eq found_middle_zero_eq)
  qed
qed

lemma tbit_map_NOT: "i < 64 * length addr \<Longrightarrow> tbit (map NOT addr) i \<longleftrightarrow> \<not> tbit addr i" for addr :: "ulong list"
  using word_index [of i 64 addr] by (simp add: tbit_def bit_simps)

lemma find_next_zero_bit_correct:
  assumes "sz \<le> 64 * length addr"
  shows "find_next_zero_bit addr sz offset = Some (next_pos (\<lambda>i. \<not> tbit addr i) sz offset)"
proof -
  have "next_pos (tbit (map NOT addr)) sz offset = next_pos (\<lambda>i. \<not> tbit addr i) sz offset"
    by (rule next_pos_cong) (use assms tbit_map_NOT in auto)
  then show ?thesis using find_next_bit_correct [of sz "map NOT addr" offset] assms by (simp add: find_next_zero_bit_eq)
qed

lemma find_first_bit_eq: "find_first_bit addr sz = find_next_bit addr sz 0"
  by (simp add: find_first_bit_def find_next_bit_def Let_def find_loop.simps [of addr 0 0 0])

lemma find_first_zero_bit_eq: "find_first_zero_bit addr sz = find_next_zero_bit addr sz 0"
  by (simp add: find_first_zero_bit_def find_next_zero_bit_def Let_def find_zero_loop.simps [of addr 0 0 0])

section \<open>The byte-swapping versions\<close>

lemma bit_bswap: "bit (bswap_64 x) i \<longleftrightarrow> i < 64 \<and> bit x (8 * (7 - i div 8) + i mod 8)"
proof (cases "i < 64")
  case True
  then have "\<forall>i \<in> set [0..<64]. bit (bswap_64 x) i \<longleftrightarrow> bit x (8 * (7 - i div 8) + i mod 8)"
    by (simp add: bswap_64_def bit_simps upt_rec) (simp add: eval_nat_numeral)
  then show ?thesis using True by simp
next
  case False
  then show ?thesis using bit_imp_le_length [of "bswap_64 x" i] by auto
qed

lemma bswap_bswap: "bswap_64 (bswap_64 x) = x"
proof (rule bit_word_eqI)
  fix i assume i: "i < LENGTH(64)"
  have q: "i div 8 < 8" using i by simp
  have d: "(8 * (7 - i div 8) + i mod 8) div 8 = 7 - i div 8" "(8 * (7 - i div 8) + i mod 8) mod 8 = i mod 8" by simp_all
  have "8 * (7 - (7 - i div 8)) + i mod 8 = i" "8 * (7 - i div 8) + i mod 8 < 64" using q by simp_all
  then have "8 * (7 - (8 * (7 - i div 8) + i mod 8) div 8) + (8 * (7 - i div 8) + i mod 8) mod 8 = i"
    "8 * (7 - i div 8) + i mod 8 < 64" unfolding d by blast+
  then show "bit (bswap_64 (bswap_64 x)) i = bit x i" using i by (simp add: bit_bswap)
qed

lemma bswap_0: "bswap_64 w = 0 \<longleftrightarrow> w = 0"
proof -
  have "bswap_64 0 = 0" by (rule bit_word_eqI) (simp add: bit_bswap)
  then show ?thesis by (metis bswap_bswap)
qed

lemma bswap_NOT: "bswap_64 (NOT w) = NOT (bswap_64 w)"
proof (rule bit_word_eqI)
  fix i assume i: "i < LENGTH(64)"
  then have "8 * (7 - i div 8) + i mod 8 < 64" by simp
  then show "bit (bswap_64 (NOT w)) i = bit (NOT (bswap_64 w)) i" using i by (simp add: bit_bswap bit_simps)
qed

lemma find_le_loop_eq: "find_le_loop addr p result sz = find_loop (map bswap_64 addr) p result sz"
proof (induction sz arbitrary: p result rule: less_induct)
  case (less sz)
  then show ?case
    by (subst find_le_loop.simps, subst find_loop.simps)
      (auto simp: rd_map ext2_swabp_def ext2_swab_def bswap_0 split: Option.bind_split)
qed

lemma find_next_bit_le_eq: "find_next_bit_le addr sz offset = find_next_bit (map bswap_64 addr) sz offset"
  unfolding find_next_bit_le_def find_next_bit_def Let_def find_le_loop_eq rd_map ext2_swabp_def add_0_left by simp

lemma find_zero_le_loop_eq: "find_zero_le_loop addr p result sz = find_zero_loop (map bswap_64 addr) p result sz"
proof (induction sz arbitrary: p result rule: less_induct)
  case (less sz)
  have z: "bswap_64 w = - 1 \<longleftrightarrow> w = - 1" for w
    using bswap_0 [of "NOT w"] by (metis bswap_NOT NOT_eq_0)
  show ?case
    using less
    by (subst find_zero_le_loop.simps, subst find_zero_loop.simps)
      (auto simp: rd_map ext2_swabp_def ext2_swab_def z NOT_eq_0 split: Option.bind_split)
qed

lemma find_next_zero_bit_le_eq: "find_next_zero_bit_le addr sz offset = find_next_zero_bit (map bswap_64 addr) sz offset"
  unfolding find_next_zero_bit_le_def find_next_zero_bit_def Let_def find_zero_le_loop_eq rd_map ext2_swabp_def add_0_left by simp

section \<open>Properties\<close>

text \<open>
  The searches return the first position at or after the offset whose bit is set (or
  clear), and the size when there is none below it, without reading outside the array; the
  "first" searches are the "next" searches from 0.
\<close>

theorem find_next_bit_least:
  assumes "sz \<le> 64 * length addr"
  shows "find_next_bit addr sz offset = Some (next_pos (tbit addr) sz offset)
    \<and> find_next_zero_bit addr sz offset = Some (next_pos (\<lambda>i. \<not> tbit addr i) sz offset)
    \<and> find_first_bit addr sz = Some (next_pos (tbit addr) sz 0)
    \<and> find_first_zero_bit addr sz = Some (next_pos (\<lambda>i. \<not> tbit addr i) sz 0)
    \<and> (\<forall>P r. next_pos P sz offset = r \<longrightarrow> r \<le> sz \<and> (r < sz \<longrightarrow> offset \<le> r \<and> P r) \<and> (\<forall>i. offset \<le> i \<longrightarrow> i < r \<longrightarrow> i < sz \<longrightarrow> \<not> P i))"
  using find_next_bit_correct [OF assms] find_next_zero_bit_correct [OF assms] next_pos_le next_pos_bounds next_pos_none
  by (simp add: find_first_bit_eq find_first_zero_bit_eq) blast

theorem find_next_bit_least_witness:
  "find_next_bit [0, 32] 128 3 = Some (next_pos (tbit [0, 32 :: ulong]) 128 3)"
proof -
  have "128 \<le> 64 * length [0 :: ulong, 32]" by simp
  from find_next_bit_least [OF this, of 3] show ?thesis by (rule conjunct1)
qed

text \<open>
  The little-endian searches look at the words with their bytes reversed. They are
  compiled wherever \<open>__BIG_ENDIAN\<close> is a macro, which glibc's \<open>endian.h\<close> makes it on every
  machine; on a little-endian one they answer differently from \<open>find_next_bit\<close>, whose bit order
  already is the little-endian one.
\<close>

theorem find_next_bit_le_swaps_bytes:
  "find_next_bit_le addr sz offset = find_next_bit (map bswap_64 addr) sz offset
    \<and> find_next_zero_bit_le addr sz offset = find_next_zero_bit (map bswap_64 addr) sz offset
    \<and> find_next_bit_le [1] 64 0 = Some 56 \<and> find_next_bit [1] 64 0 = Some 0"
proof (intro conjI)
  show "find_next_bit_le [1] 64 0 = Some 56"
  proof -
    have "next_pos (tbit (map bswap_64 [1])) 64 0 = 56"
      by (rule next_pos_eqI) (auto simp: tbit_def bit_bswap bit_1_iff)
    then show ?thesis using find_next_bit_correct [of 64 "map bswap_64 [1]" 0] by (simp add: find_next_bit_le_eq)
  qed
  show "find_next_bit [1] 64 0 = Some 0"
  proof -
    have "next_pos (tbit [1 :: ulong]) 64 0 = 0" by (rule next_pos_eqI) (auto simp: tbit_def)
    then show ?thesis using find_next_bit_correct [of 64 "[1]" 0] by simp
  qed
qed (simp_all add: find_next_bit_le_eq find_next_zero_bit_le_eq)

end
