(* ===== verification/Hweight.thy ===== *)
theory Hweight
  imports Bits
begin

text \<open>
  \<open>src/src/hweight.c\<close>, \<open>hweight.h\<close> and the \<open>hweight\<close> macros of \<open>bitmap.h\<close>: counting the
  set bits of a word by adding neighbouring fields in parallel. The flag \<open>fast\<close> is
  \<open>ARCH_HAS_FAST_MULTIPLIER\<close> (set on x86-64).
\<close>

section \<open>The code\<close>

definition sw_hweight32 :: "bool \<Rightarrow> u32 \<Rightarrow> u32" where
  "sw_hweight32 fast w =
     (if fast then
        let w = w - (drop_bit 1 w AND 0x55555555);
            w = (w AND 0x33333333) + (drop_bit 2 w AND 0x33333333);
            w = (w + drop_bit 4 w) AND 0x0f0f0f0f
        in drop_bit 24 (w * 0x01010101)
      else
        let res = w - (drop_bit 1 w AND 0x55555555);
            res = (res AND 0x33333333) + (drop_bit 2 res AND 0x33333333);
            res = (res + drop_bit 4 res) AND 0x0F0F0F0F;
            res = res + drop_bit 8 res
        in (res + drop_bit 16 res) AND 0x000000FF)"

definition sw_hweight16 :: "u32 \<Rightarrow> u32" where
  "sw_hweight16 w =
     (let res = w - (drop_bit 1 w AND 0x5555);
          res = (res AND 0x3333) + (drop_bit 2 res AND 0x3333);
          res = (res + drop_bit 4 res) AND 0x0F0F
      in (res + drop_bit 8 res) AND 0x00FF)"

definition sw_hweight8 :: "u32 \<Rightarrow> u32" where
  "sw_hweight8 w =
     (let res = w - (drop_bit 1 w AND 0x55);
          res = (res AND 0x33) + (drop_bit 2 res AND 0x33)
      in (res + drop_bit 4 res) AND 0x0F)"

text \<open>The argument \<open>b64\<close> is \<open>__BITS_PER_LONG == 64\<close>.\<close>

definition sw_hweight64 :: "bool \<Rightarrow> bool \<Rightarrow> ulong \<Rightarrow> ulong" where
  "sw_hweight64 b64 fast w =
     (if \<not> b64 then ucast (sw_hweight32 fast (ucast (drop_bit 32 w)) + sw_hweight32 fast (ucast w))
      else if fast then
        let w = w - (drop_bit 1 w AND 0x5555555555555555);
            w = (w AND 0x3333333333333333) + (drop_bit 2 w AND 0x3333333333333333);
            w = (w + drop_bit 4 w) AND 0x0f0f0f0f0f0f0f0f
        in drop_bit 56 (w * 0x0101010101010101)
      else
        let res = w - (drop_bit 1 w AND 0x5555555555555555);
            res = (res AND 0x3333333333333333) + (drop_bit 2 res AND 0x3333333333333333);
            res = (res + drop_bit 4 res) AND 0x0F0F0F0F0F0F0F0F;
            res = res + drop_bit 8 res;
            res = res + drop_bit 16 res
        in (res + drop_bit 32 res) AND 0x00000000000000FF)"

definition arch_hweight32 :: "u32 \<Rightarrow> u32" where "arch_hweight32 w = sw_hweight32 True w"
definition arch_hweight16 :: "u32 \<Rightarrow> u32" where "arch_hweight16 w = sw_hweight16 w"
definition arch_hweight8 :: "u32 \<Rightarrow> u32" where "arch_hweight8 w = sw_hweight8 w"
definition arch_hweight64 :: "ulong \<Rightarrow> ulong" where "arch_hweight64 w = sw_hweight64 True True w"

text \<open>The compile-time versions: one test per bit.\<close>

definition const_hweight8 :: "ulong \<Rightarrow> ulong" where
  "const_hweight8 w =
     of_bool (w AND push_bit 0 1 \<noteq> 0) + of_bool (w AND push_bit 1 1 \<noteq> 0) + of_bool (w AND push_bit 2 1 \<noteq> 0)
     + of_bool (w AND push_bit 3 1 \<noteq> 0) + of_bool (w AND push_bit 4 1 \<noteq> 0) + of_bool (w AND push_bit 5 1 \<noteq> 0)
     + of_bool (w AND push_bit 6 1 \<noteq> 0) + of_bool (w AND push_bit 7 1 \<noteq> 0)"

definition const_hweight16 :: "ulong \<Rightarrow> ulong" where
  "const_hweight16 w = const_hweight8 w + const_hweight8 (drop_bit 8 w)"
definition const_hweight32 :: "ulong \<Rightarrow> ulong" where
  "const_hweight32 w = const_hweight16 w + const_hweight16 (drop_bit 16 w)"
definition const_hweight64 :: "ulong \<Rightarrow> ulong" where
  "const_hweight64 w = const_hweight32 w + const_hweight32 (drop_bit 32 w)"

definition hweight64 :: "bool \<Rightarrow> ulong \<Rightarrow> ulong" where
  "hweight64 const w = (if const then const_hweight64 w else arch_hweight64 w)"

definition hweight32 :: "bool \<Rightarrow> u32 \<Rightarrow> ulong" where
  "hweight32 const w = (if const then const_hweight32 (ucast w) else ucast (arch_hweight32 w))"

definition hweight_long :: "ulong \<Rightarrow> ulong" where "hweight_long w = hweight64 False w"

section \<open>The number of set bits\<close>

definition popcount :: "'a::len word \<Rightarrow> nat" where
  "popcount w = length (filter (bit w) [0..<LENGTH('a)])"

text \<open>Numbers by their digits of \<open>k\<close> bits, the masks of every other digit, and the sums of pairs.\<close>

fun num :: "nat \<Rightarrow> nat list \<Rightarrow> nat" where
  "num k [] = 0"
| "num k (d # ds) = d + 2 ^ k * num k ds"

fun msk :: "nat \<Rightarrow> nat \<Rightarrow> nat" where
  "msk k 0 = 0"
| "msk k (Suc n) = (2 ^ k - 1) + 2 ^ k * (2 ^ k * msk k n)"

fun evens :: "'a list \<Rightarrow> 'a list" where
  "evens [] = []"
| "evens [a] = [a]"
| "evens (a # b # r) = a # evens r"

definition pairs :: "nat list \<Rightarrow> nat list" where
  "pairs ds = map2 (+) (evens ds) (evens (tl ds))"

lemma and_split:
  fixes a c x y :: nat
  assumes "a < 2 ^ m" and "c < 2 ^ m"
  shows "(a + 2 ^ m * x) AND (c + 2 ^ m * y) = (a AND c) + 2 ^ m * (x AND y)"
proof -
  let ?X = "a + 2 ^ m * x" and ?Y = "c + 2 ^ m * y"
  have "take_bit m ?X = a" "drop_bit m ?X = x" "take_bit m ?Y = c" "drop_bit m ?Y = y"
    using assms by (simp_all add: take_bit_eq_mod drop_bit_eq_div)
  then have "take_bit m (?X AND ?Y) = a AND c" "drop_bit m (?X AND ?Y) = x AND y" by simp_all
  moreover have "z = take_bit m z + 2 ^ m * drop_bit m z" for z :: nat
    by (simp add: take_bit_eq_mod drop_bit_eq_div)
  ultimately show ?thesis by metis
qed

lemma num_lt: "(\<forall>d \<in> set ds. d < 2 ^ k) \<Longrightarrow> num k ds < 2 ^ (k * length ds)"
proof (induction ds)
  case (Cons d ds)
  then have "d < 2 ^ k" "num k ds + 1 \<le> 2 ^ (k * length ds)" by auto
  then have "d + 2 ^ k * num k ds < 2 ^ k * (num k ds + 1)" by simp
  also have "\<dots> \<le> 2 ^ k * 2 ^ (k * length ds)" using \<open>num k ds + 1 \<le> _\<close> by (rule mult_le_mono2)
  finally show ?case by (simp add: power_add)
qed simp

lemma num_drop: "(\<forall>d \<in> set ds. d < 2 ^ k) \<Longrightarrow> drop_bit k (num k ds) = num k (tl ds)"
  by (cases ds) (simp_all add: drop_bit_eq_div)

lemma pw2: "(2 :: nat) ^ (2 * k) = 2 ^ k * 2 ^ k"
  by (simp add: mult_2 power_add)

lemma and_low: "d < 2 ^ k \<Longrightarrow> d AND (2 ^ k - 1) = (d :: nat)"
  using take_bit_eq_mask [of k d] by (simp add: mask_eq_exp_minus_1 take_bit_nat_eq_self)

lemma num_and_msk:
  "(\<forall>d \<in> set ds. d < 2 ^ k) \<Longrightarrow> length ds \<le> 2 * n \<Longrightarrow> num k ds AND msk k n = num (2 * k) (evens ds)"
proof (induction ds arbitrary: n rule: evens.induct)
  case (2 d)
  then obtain n' where "n = Suc n'" by (cases n) auto
  moreover have "(d + 2 ^ k * 0) AND ((2 ^ k - 1) + 2 ^ k * (2 ^ k * msk k n')) = (d AND (2 ^ k - 1)) + 2 ^ k * (0 AND 2 ^ k * msk k n')"
    by (rule and_split) (use 2 in auto)
  ultimately show ?case using 2 and_low [of d k] by simp
next
  case (3 a b r)
  then obtain n' where n: "n = Suc n'" "length r \<le> 2 * n'" by (cases n) auto
  have ih: "num k r AND msk k n' = num (2 * k) (evens r)" using 3 n by simp
  have "(a + 2 ^ k * (b + 2 ^ k * num k r)) AND ((2 ^ k - 1) + 2 ^ k * (2 ^ k * msk k n'))
      = (a AND (2 ^ k - 1)) + 2 ^ k * ((b + 2 ^ k * num k r) AND (2 ^ k * msk k n'))"
    by (rule and_split) (use 3 in auto)
  moreover have "(b + 2 ^ k * num k r) AND (0 + 2 ^ k * msk k n') = (b AND 0) + 2 ^ k * (num k r AND msk k n')"
    by (rule and_split) (use 3 in auto)
  ultimately show ?case using n(1) ih and_low [of a k] 3 by (simp add: pw2)
qed simp

lemma num_add: "length as = length bs \<Longrightarrow> num k as + num k bs = num k (map2 (+) as bs)"
proof (induction as bs rule: list_induct2)
  case (Cons a as b bs)
  then have "num k (map2 (+) (a # as) (b # bs)) = (a + b) + 2 ^ k * (num k as + num k bs)" by simp
  then show ?case by (simp add: distrib_left)
qed simp

lemma num_evens: "even (length ds) \<Longrightarrow> num k ds = num (2 * k) (evens ds) + 2 ^ k * num (2 * k) (evens (tl ds))"
proof (induction ds rule: evens.induct)
  case (3 a b r)
  have e: "evens (b # r) = b # evens (tl r)" using 3(2) by (cases r) auto
  have ih: "num k r = num (2 * k) (evens r) + 2 ^ k * num (2 * k) (evens (tl r))" using 3 by simp
  show ?case unfolding evens.simps list.sel e num.simps(2) ih by (simp add: distrib_left pw2)
qed auto

lemma length_evens: "length (evens ds) = (length ds + 1) div 2"
  by (induction ds rule: evens.induct) auto

lemma evens_tl_length: "even (length ds) \<Longrightarrow> length (evens (tl ds)) = length (evens ds)"
  by (cases ds) (auto simp: length_evens)

lemma length_pairs: "even (length ds) \<Longrightarrow> length (pairs ds) = length ds div 2"
  by (simp add: pairs_def evens_tl_length) (auto simp: length_evens)

lemma pairs_simps [simp]: "pairs [] = []" "pairs (a # b # r) = (a + b) # pairs r"
  by (simp_all add: pairs_def) (cases r; simp)

lemma pairs_sum: "even (length ds) \<Longrightarrow> sum_list (pairs ds) = sum_list ds"
  by (induction ds rule: evens.induct) auto

lemma pairs_bound: "even (length ds) \<Longrightarrow> \<forall>d \<in> set ds. d \<le> m \<Longrightarrow> \<forall>d \<in> set (pairs ds). d \<le> 2 * m"
  by (induction ds rule: evens.induct) auto

lemma pairs_shift: "even (length ds) \<Longrightarrow> evens (map2 (+) ds (tl ds @ [0])) = pairs ds"
proof (induction ds rule: evens.induct)
  case (3 a b r)
  then show ?case by (cases r) auto
qed auto

lemma num_snoc0: "num k (ds @ [0]) = num k ds"
  by (induction ds) auto

lemma num_less_len: "(\<forall>d \<in> set ds. d < 2 ^ k) \<Longrightarrow> k * length ds \<le> n \<Longrightarrow> num k ds < 2 ^ n"
  by (meson num_lt less_le_trans power_increasing one_le_numeral)

lemma set_tl: "d \<in> set (tl ds) \<Longrightarrow> d \<in> set ds"
  by (cases ds) auto

lemma unat_and: "unat (a AND b) = unat a AND unat b" for a b :: "'a::len word"
  by (simp add: unsigned_and_eq)

lemma unat_drop: "unat (drop_bit n a) = drop_bit n (unat a)" for a :: "'a::len word"
  by (simp add: unsigned_drop_bit_eq take_bit_nat_eq_self [OF unsigned_less])

lemma unat_drop_div: "unat (drop_bit n a) = unat a div 2 ^ n" for a :: "'a::len word"
  unfolding unat_drop by (rule drop_bit_eq_div)

lemma unat_plus: "unat a + unat b < 2 ^ LENGTH('a) \<Longrightarrow> unat (a + b) = unat a + unat b" for a b :: "'a::len word"
  by (simp add: unat_word_ariths(1))

lemma swar_step1:
  fixes w m :: "'a::len word"
  assumes "unat w = num 1 ds" and "length ds = 2 * n" and "\<forall>d \<in> set ds. d < 2" and "unat m = msk 1 n"
  shows "unat (w - (drop_bit 1 w AND m)) = num 2 (pairs ds)"
proof -
  have d: "unat (drop_bit 1 w AND m) = num 2 (evens (tl ds))"
    using num_drop [of ds 1] num_and_msk [of "tl ds" 1 n] assms by (auto simp: unat_and unat_drop dest: set_tl)
  have w: "unat w = num 2 (evens ds) + 2 * num 2 (evens (tl ds))"
    using num_evens [of ds 1] assms by (simp add: pw2)
  have "unat (w - (drop_bit 1 w AND m)) = num 2 (evens ds) + num 2 (evens (tl ds))"
    using w d by (subst unat_sub) (simp_all add: word_le_nat_alt)
  then show ?thesis
    using num_add [of "evens ds" "evens (tl ds)" 2] evens_tl_length [of ds] assms(2) by (simp add: pairs_def)
qed

lemma swar_step2:
  fixes w m :: "'a::len word"
  assumes "unat w = num k ds" and "length ds = 2 * n" and "\<forall>d \<in> set ds. d < 2 ^ k" and "unat m = msk k n"
    and "\<forall>d \<in> set (pairs ds). d < 2 ^ (2 * k)" and "2 * k * n \<le> LENGTH('a)"
  shows "unat ((w AND m) + (drop_bit k w AND m)) = num (2 * k) (pairs ds)"
proof -
  have e: "unat (w AND m) = num (2 * k) (evens ds)"
    using num_and_msk [of ds k n] assms by (simp add: unat_and)
  have d: "unat (drop_bit k w AND m) = num (2 * k) (evens (tl ds))"
    using num_drop [of ds k] num_and_msk [of "tl ds" k n] assms by (auto simp: unat_and unat_drop dest: set_tl)
  have sum: "num (2 * k) (evens ds) + num (2 * k) (evens (tl ds)) = num (2 * k) (pairs ds)"
    using num_add [of "evens ds" "evens (tl ds)"] evens_tl_length [of ds] assms(2) by (simp add: pairs_def)
  have "num (2 * k) (pairs ds) < 2 ^ LENGTH('a)"
    by (rule num_less_len) (use assms length_pairs [of ds] in auto)
  then show ?thesis using e d sum by (simp add: unat_plus)
qed

lemma swar_step3:
  fixes w m :: "'a::len word"
  assumes "unat w = num k ds" and "length ds = 2 * n" and "\<forall>d \<in> set ds. d + d < 2 ^ k \<and> (\<forall>e \<in> set ds. d + e < 2 ^ k)" and "unat m = msk k n"
    and "2 * k * n \<le> LENGTH('a)"
  shows "unat ((w + drop_bit k w) AND m) = num (2 * k) (pairs ds)"
proof -
  let ?es = "map2 (+) ds (tl ds @ [0])"
  have dl: "\<forall>d \<in> set ds. d < 2 ^ k" using assms(3) by fastforce
  have d: "unat (drop_bit k w) = num k (tl ds @ [0])"
    using num_drop [OF dl] assms(1) by (simp add: unat_drop num_snoc0)
  have len: "length (tl ds @ [0]) = length ds \<or> ds = []" by (cases ds) auto
  have el: "\<forall>d \<in> set ?es. d < 2 ^ k"
    using assms(3) dl by (fastforce dest!: set_zip_leftD set_zip_rightD dest: set_tl elim!: in_set_zipE)
  have sum: "num k ds + num k (tl ds @ [0]) = num k ?es"
    using len num_add [of ds "tl ds @ [0]" k] by auto
  have "num k ?es < 2 ^ LENGTH('a)"
    by (rule num_less_len [OF el]) (use len assms(2,5) in auto)
  then have "unat (w + drop_bit k w) = num k ?es" using assms(1) d sum by (simp add: unat_plus)
  then have "unat ((w + drop_bit k w) AND m) = num (2 * k) (evens ?es)"
    using num_and_msk [OF el, of n] len assms(2,4) by (auto simp: unat_and)
  then show ?thesis using pairs_shift [of ds] assms(2) by simp
qed

lemma pairs_bounds:
  assumes "length ds = 8 * n" and "\<forall>d \<in> set ds. d < 2"
  shows "length (pairs ds) = 4 * n" "length (pairs (pairs ds)) = 2 * n" "length (pairs (pairs (pairs ds))) = n"
    "\<forall>d \<in> set (pairs ds). d \<le> 2" "\<forall>d \<in> set (pairs (pairs ds)). d \<le> 4" "\<forall>d \<in> set (pairs (pairs (pairs ds))). d \<le> 8"
    "sum_list (pairs (pairs (pairs ds))) = sum_list ds"
proof -
  show l: "length (pairs ds) = 4 * n" "length (pairs (pairs ds)) = 2 * n" "length (pairs (pairs (pairs ds))) = n"
    using assms(1) by (simp_all add: length_pairs)
  have "\<forall>d \<in> set ds. d \<le> 1" using assms(2) by auto
  then show b2: "\<forall>d \<in> set (pairs ds). d \<le> 2" using pairs_bound [of ds 1] assms(1) by simp
  then show b4: "\<forall>d \<in> set (pairs (pairs ds)). d \<le> 4" using pairs_bound [of "pairs ds" 2] l by simp
  then show "\<forall>d \<in> set (pairs (pairs (pairs ds))). d \<le> 8" using pairs_bound [of "pairs (pairs ds)" 4] l by simp
  show "sum_list (pairs (pairs (pairs ds))) = sum_list ds" using assms(1) l by (simp add: pairs_sum)
qed

text \<open>The first three steps leave the number of set bits of each byte in that byte.\<close>

lemma swar_bytes:
  fixes w m1 m2 m4 :: "'a::len word"
  assumes "unat w = num 1 ds" and "length ds = 8 * n" and "\<forall>d \<in> set ds. d < 2" and "8 * n \<le> LENGTH('a)"
    and "unat m1 = msk 1 (4 * n)" and "unat m2 = msk 2 (2 * n)" and "unat m4 = msk 4 n"
    and "a = w - (drop_bit 1 w AND m1)" and "b = (a AND m2) + (drop_bit 2 a AND m2)" and "c = (b + drop_bit 4 b) AND m4"
  shows "unat b = num 4 (pairs (pairs ds)) \<and> unat c = num 8 (pairs (pairs (pairs ds)))"
proof -
  note p = pairs_bounds [OF assms(2,3)]
  have a: "unat a = num 2 (pairs ds)"
    unfolding assms(8) by (rule swar_step1 [OF assms(1) _ assms(3,5)]) (use assms(2) in simp)
  have b: "unat b = num 4 (pairs (pairs ds))"
    using swar_step2 [OF a _ _ assms(6)] p(1,4,5) assms(4) unfolding assms(9) by (fastforce simp: less_eq_Suc_le)
  have small: "d + e < 2 ^ 4" if "d \<in> set (pairs (pairs ds))" "e \<in> set (pairs (pairs ds))" for d e
  proof -
    have "d \<le> 4" "e \<le> 4" using p(5) that by auto
    then show ?thesis by simp
  qed
  have "unat ((b + drop_bit 4 b) AND m4) = num (2 * 4) (pairs (pairs (pairs ds)))"
    by (rule swar_step3 [OF b p(2) _ assms(7)]) (use small assms(4) in auto)
  then have "unat c = num 8 (pairs (pairs (pairs ds)))" unfolding assms(10) by simp
  then show ?thesis using b by blast
qed

lemma unat_bits: "unat w = num 1 (map (\<lambda>i. of_bool (bit w i)) [0..<LENGTH('a)])" for w :: "'a::len word"
proof -
  have "horner_sum of_bool 2 bs = num 1 (map of_bool bs)" for bs :: "bool list"
    by (induction bs) simp_all
  moreover have "horner_sum of_bool 2 (map (bit (unat w)) [0..<LENGTH('a)]) = unat w"
    by (simp add: horner_sum_bit_eq_take_bit take_bit_nat_eq_self [OF unsigned_less])
  moreover have "map (bit (unat w)) [0..<LENGTH('a)] = map (bit w) [0..<LENGTH('a)]" by (simp add: bit_simps)
  ultimately show ?thesis by (metis (no_types, lifting) map_map comp_def map_eq_conv)
qed

lemma popcount_sum: "popcount w = sum_list (map (\<lambda>i. of_bool (bit w i)) [0..<LENGTH('a)])" for w :: "'a::len word"
  by (simp add: popcount_def sum_list_map_filter' [symmetric] of_bool_def sum_list_triv cong: map_cong)

lemma msk_numeral: "msk k (numeral n) = (2 ^ k - 1) + 2 ^ k * (2 ^ k * msk k (pred_numeral n))"
  by (simp add: numeral_eq_Suc)

lemma masks:
  "unat (0x55 :: u32) = msk 1 4" "unat (0x33 :: u32) = msk 2 2" "unat (0x0F :: u32) = msk 4 1"
  "unat (0x5555 :: u32) = msk 1 8" "unat (0x3333 :: u32) = msk 2 4" "unat (0x0F0F :: u32) = msk 4 2"
  "unat (0x55555555 :: u32) = msk 1 16" "unat (0x33333333 :: u32) = msk 2 8" "unat (0x0F0F0F0F :: u32) = msk 4 4"
  "unat (0x5555555555555555 :: ulong) = msk 1 32" "unat (0x3333333333333333 :: ulong) = msk 2 16"
  "unat (0x0F0F0F0F0F0F0F0F :: ulong) = msk 4 8"
  by (simp_all add: msk_numeral)

lemma low_byte_word: "unat x = t + 256 * r \<Longrightarrow> t < 256 \<Longrightarrow> unat (x AND 0xFF) = t" for x :: "'a::len word"
proof -
  assume h: "unat x = t + 256 * r" "t < 256"
  have "x AND 0xFF = take_bit 8 x" by (simp add: take_bit_eq_mask mask_eq_exp_minus_1)
  then have "unat (x AND 0xFF) = take_bit 8 (unat x)" by (simp add: unsigned_take_bit_eq)
  then show ?thesis using h by (simp add: take_bit_eq_mod)
qed

lemma sum_bits:
  fixes w :: "'a::len word"
  assumes "ds = map (\<lambda>i. of_bool (bit w i)) [0..<LENGTH('a)]"
  shows "\<forall>d \<in> set ds. d < (2 :: nat)" "length ds = LENGTH('a)" "sum_list ds = popcount w"
  using assms by (simp_all add: popcount_sum)

lemma hweight32_popcount: "unat (sw_hweight32 fast w) = popcount w"
proof -
  define ds where "ds = map (\<lambda>i. of_bool (bit w i) :: nat) [0..<LENGTH(32)]"
  define a where "a = w - (drop_bit 1 w AND 0x55555555)"
  define b where "b = (a AND 0x33333333) + (drop_bit 2 a AND 0x33333333)"
  define c where "c = (b + drop_bit 4 b) AND 0x0F0F0F0F"
  note d = sum_bits [OF ds_def]
  have c: "unat c = num 8 (pairs (pairs (pairs ds)))"
    using swar_bytes [of w ds 4 "0x55555555" "0x33333333" "0x0F0F0F0F" a b c] d unat_bits [of w] masks
    by (simp add: ds_def a_def b_def c_def)
  have p: "length (pairs (pairs (pairs ds))) = 4" "\<forall>x \<in> set (pairs (pairs (pairs ds))). x \<le> 8"
    "sum_list (pairs (pairs (pairs ds))) = popcount w"
    using pairs_bounds [of ds 4] d by simp_all
  then obtain d0 d1 d2 d3 where e: "pairs (pairs (pairs ds)) = [d0, d1, d2, d3]"
    by (auto simp: length_Suc_conv eval_nat_numeral)
  then have le: "d0 \<le> 8" "d1 \<le> 8" "d2 \<le> 8" "d3 \<le> 8" and s: "d0 + d1 + d2 + d3 = popcount w" using p by auto
  have cv: "unat c = d0 + 256 * (d1 + 256 * (d2 + 256 * d3))" using c e by simp
  show ?thesis
  proof (cases fast)
    case True
    have "unat (c * 0x01010101) = (d0 + 256 * (d1 + 256 * (d2 + 256 * d3))) * 0x01010101 mod 2 ^ 32"
      by (simp add: unat_word_ariths(2) cv)
    also have "(d0 + 256 * (d1 + 256 * (d2 + 256 * d3))) * 0x01010101
      = (d0 + 256 * (d0 + d1) + 65536 * (d0 + d1 + d2) + 2 ^ 24 * (d0 + d1 + d2 + d3))
        + 2 ^ 32 * ((d1 + d2 + d3) + 256 * (d2 + d3) + 65536 * d3)"
      by (simp add: algebra_simps)
    also have "\<dots> mod 2 ^ 32 = d0 + 256 * (d0 + d1) + 65536 * (d0 + d1 + d2) + 2 ^ 24 * (d0 + d1 + d2 + d3)"
      using le by (subst mod_mult_self2) simp
    finally have N: "unat (c * 0x01010101) = d0 + 256 * (d0 + d1) + 65536 * (d0 + d1 + d2) + 2 ^ 24 * (d0 + d1 + d2 + d3)" .
    have "d0 + 256 * (d0 + d1) + 65536 * (d0 + d1 + d2) < 2 ^ 24" using le by simp
    then have "unat (drop_bit 24 (c * 0x01010101)) = d0 + d1 + d2 + d3"
      unfolding unat_drop N by (simp add: drop_bit_eq_div)
    then show ?thesis using True s by (simp add: sw_hweight32_def Let_def a_def b_def c_def)
  next
    case False
    define e1 where "e1 = c + drop_bit 8 c"
    have "unat (drop_bit 8 c) = d1 + 256 * (d2 + 256 * d3)" using cv le by (simp add: unat_drop_div)
    then have e1: "unat e1 = (d0 + d1) + 256 * ((d1 + d2) + 256 * ((d2 + d3) + 256 * d3))"
      using cv le by (simp add: e1_def unat_plus)
    then have "unat (drop_bit 16 e1) = (d2 + d3) + 256 * d3" using le by (simp add: unat_drop_div)
    then have "unat (e1 + drop_bit 16 e1) = (d0 + d1 + d2 + d3) + 256 * ((d1 + d2 + d3) + 256 * ((d2 + d3) + 256 * d3))"
      using e1 le by (simp add: unat_plus)
    then have "unat ((e1 + drop_bit 16 e1) AND 0xFF) = d0 + d1 + d2 + d3"
      by (rule low_byte_word) (use le in simp)
    then show ?thesis using False s by (simp add: sw_hweight32_def Let_def a_def b_def c_def e1_def)
  qed
qed

lemma small_bits:
  fixes x :: "'a::len word"
  assumes "LENGTH('a) \<le> 32"
  shows "unat (ucast x :: u32) = num 1 (map (\<lambda>i. of_bool (bit x i)) [0..<LENGTH('a)])"
proof -
  have "unat x < 2 ^ 32" by (rule less_le_trans [OF unsigned_less power_increasing]) (use assms in simp_all)
  then have "unat (ucast x :: u32) = unat x" by (simp add: unsigned_ucast_eq take_bit_nat_eq_self)
  then show ?thesis using unat_bits [of x] by simp
qed

lemma hweight8_popcount: "unat (sw_hweight8 (ucast x)) = popcount x" for x :: byte
proof -
  define ds where "ds = map (\<lambda>i. of_bool (bit x i) :: nat) [0..<LENGTH(8)]"
  define w :: u32 where "w = ucast x"
  define a where "a = w - (drop_bit 1 w AND 0x55)"
  define b where "b = (a AND 0x33) + (drop_bit 2 a AND 0x33)"
  define c where "c = (b + drop_bit 4 b) AND 0x0F"
  note d = sum_bits [OF ds_def]
  have "unat w = num 1 ds" using small_bits [of x] by (simp add: w_def ds_def)
  then have c: "unat c = num 8 (pairs (pairs (pairs ds)))"
    using swar_bytes [of w ds 1 "0x55" "0x33" "0x0F" a b c] d masks by (simp add: a_def b_def c_def)
  obtain d0 where "pairs (pairs (pairs ds)) = [d0]" "d0 = popcount x"
    using pairs_bounds [of ds 1] d by (auto simp: length_Suc_conv)
  then show ?thesis using c by (simp add: sw_hweight8_def Let_def a_def b_def c_def w_def)
qed

lemma hweight16_popcount: "unat (sw_hweight16 (ucast x)) = popcount x" for x :: u16
proof -
  define ds where "ds = map (\<lambda>i. of_bool (bit x i) :: nat) [0..<LENGTH(16)]"
  define w :: u32 where "w = ucast x"
  define a where "a = w - (drop_bit 1 w AND 0x5555)"
  define b where "b = (a AND 0x3333) + (drop_bit 2 a AND 0x3333)"
  define c where "c = (b + drop_bit 4 b) AND 0x0F0F"
  note d = sum_bits [OF ds_def]
  have "unat w = num 1 ds" using small_bits [of x] by (simp add: w_def ds_def)
  then have c: "unat c = num 8 (pairs (pairs (pairs ds)))"
    using swar_bytes [of w ds 2 "0x5555" "0x3333" "0x0F0F" a b c] d masks by (simp add: a_def b_def c_def)
  have "length (pairs (pairs (pairs ds))) = 2" using pairs_bounds [of ds 2] d by simp
  then obtain d0 d1 where e: "pairs (pairs (pairs ds)) = [d0, d1]"
    by (auto simp: length_Suc_conv eval_nat_numeral)
  then have le: "d0 \<le> 8" "d1 \<le> 8" "d0 + d1 = popcount x" using pairs_bounds [of ds 2] d by auto
  have cv: "unat c = d0 + 256 * d1" using c e by simp
  then have "unat (c + drop_bit 8 c) = (d0 + d1) + 256 * d1" using le by (simp add: unat_plus unat_drop_div)
  then have "unat ((c + drop_bit 8 c) AND 0xFF) = d0 + d1" by (rule low_byte_word) (use le in simp)
  then show ?thesis using le by (simp add: sw_hweight16_def Let_def a_def b_def c_def w_def)
qed

lemma hweight64_popcount: "unat (sw_hweight64 True fast w) = popcount w"
proof -
  define ds where "ds = map (\<lambda>i. of_bool (bit w i) :: nat) [0..<LENGTH(64)]"
  define a where "a = w - (drop_bit 1 w AND 0x5555555555555555)"
  define b where "b = (a AND 0x3333333333333333) + (drop_bit 2 a AND 0x3333333333333333)"
  define c where "c = (b + drop_bit 4 b) AND 0x0F0F0F0F0F0F0F0F"
  note d = sum_bits [OF ds_def]
  have c: "unat c = num 8 (pairs (pairs (pairs ds)))"
    using swar_bytes [of w ds 8 "0x5555555555555555" "0x3333333333333333" "0x0F0F0F0F0F0F0F0F" a b c] d unat_bits [of w] masks
    by (simp add: ds_def a_def b_def c_def)
  have "length (pairs (pairs (pairs ds))) = 8" using pairs_bounds [of ds 8] d by simp
  then obtain d0 d1 d2 d3 d4 d5 d6 d7 where e: "pairs (pairs (pairs ds)) = [d0, d1, d2, d3, d4, d5, d6, d7]"
    by (auto simp: length_Suc_conv eval_nat_numeral)
  then have le: "d0 \<le> 8" "d1 \<le> 8" "d2 \<le> 8" "d3 \<le> 8" "d4 \<le> 8" "d5 \<le> 8" "d6 \<le> 8" "d7 \<le> 8"
    and s: "d0 + d1 + d2 + d3 + d4 + d5 + d6 + d7 = popcount w"
    using pairs_bounds [of ds 8] d by auto
  have cv: "unat c = d0 + 256 * (d1 + 256 * (d2 + 256 * (d3 + 256 * (d4 + 256 * (d5 + 256 * (d6 + 256 * d7))))))"
    using c e by simp
  show ?thesis
  proof (cases fast)
    case True
    define low where "low = d0 + 2 ^ 8 * (d0 + d1) + 2 ^ 16 * (d0 + d1 + d2) + 2 ^ 24 * (d0 + d1 + d2 + d3)
      + 2 ^ 32 * (d0 + d1 + d2 + d3 + d4) + 2 ^ 40 * (d0 + d1 + d2 + d3 + d4 + d5) + 2 ^ 48 * (d0 + d1 + d2 + d3 + d4 + d5 + d6)"
    define high where "high = (d1 + d2 + d3 + d4 + d5 + d6 + d7) + 2 ^ 8 * (d2 + d3 + d4 + d5 + d6 + d7)
      + 2 ^ 16 * (d3 + d4 + d5 + d6 + d7) + 2 ^ 24 * (d4 + d5 + d6 + d7) + 2 ^ 32 * (d5 + d6 + d7) + 2 ^ 40 * (d6 + d7) + 2 ^ 48 * d7"
    have lo: "low < 2 ^ 56" using le by (simp add: low_def)
    have "unat c * 0x0101010101010101 = (low + 2 ^ 56 * popcount w) + 2 ^ 64 * high"
      by (simp add: cv low_def high_def s [symmetric] algebra_simps)
    moreover have "low + 2 ^ 56 * popcount w < 2 ^ 64" using lo le by (simp add: s [symmetric])
    ultimately have N: "unat (c * 0x0101010101010101) = low + 2 ^ 56 * popcount w"
      by (simp add: unat_word_ariths(2))
    have "unat (drop_bit 56 (c * 0x0101010101010101)) = popcount w"
      unfolding unat_drop_div N using lo by simp
    then show ?thesis using True by (simp add: sw_hweight64_def Let_def a_def b_def c_def)
  next
    case False
    define e1 where "e1 = c + drop_bit 8 c"
    define e2 where "e2 = e1 + drop_bit 16 e1"
    have "unat (drop_bit 8 c) = d1 + 256 * (d2 + 256 * (d3 + 256 * (d4 + 256 * (d5 + 256 * (d6 + 256 * d7)))))"
      using cv le by (simp add: unat_drop_div)
    then have e1: "unat e1 = (d0 + d1) + 256 * ((d1 + d2) + 256 * ((d2 + d3) + 256 * ((d3 + d4)
      + 256 * ((d4 + d5) + 256 * ((d5 + d6) + 256 * ((d6 + d7) + 256 * d7))))))"
      using cv le by (simp add: e1_def unat_plus)
    then have "unat (drop_bit 16 e1) = (d2 + d3) + 256 * ((d3 + d4) + 256 * ((d4 + d5) + 256 * ((d5 + d6) + 256 * ((d6 + d7) + 256 * d7))))"
      using le by (simp add: unat_drop_div)
    then have e2: "unat e2 = (d0 + d1 + d2 + d3) + 256 * ((d1 + d2 + d3 + d4) + 256 * ((d2 + d3 + d4 + d5)
      + 256 * ((d3 + d4 + d5 + d6) + 256 * ((d4 + d5 + d6 + d7) + 256 * ((d5 + d6 + d7) + 256 * ((d6 + d7) + 256 * d7))))))"
      using e1 le by (simp add: e2_def unat_plus)
    then have "unat (drop_bit 32 e2) = (d4 + d5 + d6 + d7) + 256 * ((d5 + d6 + d7) + 256 * ((d6 + d7) + 256 * d7))"
      using le by (simp add: unat_drop_div)
    then have "unat (e2 + drop_bit 32 e2) = popcount w + 256 * ((d1 + d2 + d3 + d4 + d5 + d6 + d7) + 256 * ((d2 + d3 + d4 + d5 + d6 + d7)
      + 256 * ((d3 + d4 + d5 + d6 + d7) + 256 * ((d4 + d5 + d6 + d7) + 256 * ((d5 + d6 + d7) + 256 * ((d6 + d7) + 256 * d7))))))"
      using e2 le by (simp add: unat_plus s [symmetric])
    then have "unat ((e2 + drop_bit 32 e2) AND 0xFF) = popcount w"
      by (rule low_byte_word) (use le s in simp)
    then show ?thesis using False by (simp add: sw_hweight64_def Let_def a_def b_def c_def e1_def e2_def)
  qed
qed

text \<open>Sums of bits over ranges, for the versions that split the word.\<close>

definition bits_upto :: "'a::len word \<Rightarrow> nat \<Rightarrow> nat" where
  "bits_upto w n = sum_list (map (\<lambda>i. of_bool (bit w i)) [0..<n])"

lemma bits_upto_add: "bits_upto w (n + m) = bits_upto w n + bits_upto (drop_bit n w) m"
proof -
  have "map (\<lambda>i. of_bool (bit w i) :: nat) [n..<n + m] = map (\<lambda>i. of_bool (bit w (n + i))) [0..<m]"
    by (rule nth_equalityI) simp_all
  then show ?thesis by (simp add: bits_upto_def upt_add_eq_append [of 0 n m] bit_simps)
qed

lemma popcount_upto: "popcount w = bits_upto w LENGTH('a)" for w :: "'a::len word"
  by (simp add: bits_upto_def popcount_sum)

lemma popcount_halves: "popcount w = popcount (ucast w :: u32) + popcount (ucast (drop_bit 32 w) :: u32)" for w :: ulong
proof -
  have "bits_upto (ucast v :: u32) 32 = bits_upto v 32" for v :: ulong
    unfolding bits_upto_def by (intro arg_cong [where f = sum_list] map_cong refl) (simp add: bit_simps)
  then show ?thesis using bits_upto_add [of w 32 32] by (simp add: popcount_upto)
qed

lemma const_hweight_upto: "const_hweight8 w = of_nat (bits_upto w 8)" "const_hweight16 w = of_nat (bits_upto w 16)"
  "const_hweight32 w = of_nat (bits_upto w 32)" "const_hweight64 w = of_nat (bits_upto w 64)"
proof -
  have t: "(w AND push_bit k 1 \<noteq> 0) = bit w k" if "k < 64" for k and w :: ulong
    using that by (auto simp: word_eq_bits [of _ 0] bit_simps)
  have n: "0 < (64 :: nat)" "1 < (64 :: nat)" "2 < (64 :: nat)" "3 < (64 :: nat)" "4 < (64 :: nat)" "5 < (64 :: nat)"
    "6 < (64 :: nat)" "7 < (64 :: nat)" by simp_all
  have u: "[0..<8] = [0, 1, 2, 3, 4, 5, 6, 7 :: nat]" by (simp add: upt_rec)
  have c8: "const_hweight8 w = of_nat (bits_upto w 8)" for w
    unfolding const_hweight8_def n [THEN t] bits_upto_def u list.map sum_list.Cons sum_list.Nil
      of_nat_add of_nat_of_bool by (simp only: ac_simps semiring_1_class.of_nat_simps(1) add_0_right add_0_left)
  then show "const_hweight8 w = of_nat (bits_upto w 8)" .
  have c16: "const_hweight16 w = of_nat (bits_upto w 16)" for w
    using c8 bits_upto_add [of w 8 8] by (simp add: const_hweight16_def)
  then show "const_hweight16 w = of_nat (bits_upto w 16)" .
  have c32: "const_hweight32 w = of_nat (bits_upto w 32)" for w
    using c16 bits_upto_add [of w 16 16] by (simp add: const_hweight32_def)
  then show "const_hweight32 w = of_nat (bits_upto w 32)" .
  show "const_hweight64 w = of_nat (bits_upto w 64)"
    using c32 bits_upto_add [of w 32 32] by (simp add: const_hweight64_def)
qed

lemma popcount_le: "popcount w \<le> LENGTH('a)" for w :: "'a::len word"
  unfolding popcount_def by (rule order_trans [OF length_filter_le]) simp

text \<open>
  Every version of the population count, table-free additions in parallel with or
  without the fast multiplication, the 32-bit halves, and the compile-time macros, counts the
  set bits of the word.
\<close>

theorem hweight_counts_set_bits:
  "unat (sw_hweight64 b64 fast w) = popcount w \<and> unat (sw_hweight32 fast v) = popcount v
    \<and> unat (sw_hweight16 (ucast (h :: u16))) = popcount h \<and> unat (sw_hweight8 (ucast (b :: byte))) = popcount b
    \<and> unat (const_hweight64 w) = popcount w \<and> unat (hweight64 const w) = popcount w \<and> unat (hweight_long w) = popcount w"
proof (intro conjI)
  have p: "popcount w < 2 ^ 64" using popcount_le [of w] by simp
  show s64: "unat (sw_hweight64 b64 fast w) = popcount w" for b64 fast
  proof (cases b64)
    case False
    let ?a = "sw_hweight32 fast (ucast (drop_bit 32 w))" and ?b = "sw_hweight32 fast (ucast w)"
    have "unat (?a + ?b) = popcount w"
      using popcount_le [of "ucast w :: u32"] popcount_le [of "ucast (drop_bit 32 w) :: u32"]
      by (simp add: unat_plus hweight32_popcount popcount_halves [of w])
    then show ?thesis using False p by (simp add: sw_hweight64_def unsigned_ucast_eq take_bit_nat_eq_self)
  qed (simp add: hweight64_popcount)
  show c: "unat (const_hweight64 w) = popcount w"
    using p by (simp add: const_hweight_upto popcount_upto unat_of_nat)
  show "unat (hweight64 const w) = popcount w" using s64 c by (simp add: hweight64_def arch_hweight64_def)
  show "unat (hweight_long w) = popcount w" using s64 by (simp add: hweight_long_def hweight64_def arch_hweight64_def)
qed (simp_all add: hweight32_popcount hweight16_popcount hweight8_popcount)

end
