(* ===== verification/Bitmap.thy ===== *)
theory Bitmap
  imports FindBit Hweight
begin

text \<open>
  \<open>src/src/bitmap.c\<close> and \<open>bitmap.h\<close>, first part: masks, whole-bitmap operations and tests.

  A bitmap is an array of words; the arrays are objects of a store and named by numbers, so
  that a destination may be one of the sources. Sizes in bits are natural numbers. The flag
  \<open>const\<close> of the inline functions says whether the compiler knows the size. What a bitmap
  means is the set \<open>bset n m\<close> of its set bits below \<open>n\<close>.
\<close>

type_synonym bms = "nat \<Rightarrow> ulong list"

section \<open>Masks\<close>

definition BITS_TO_LONGS :: "nat \<Rightarrow> nat" where "BITS_TO_LONGS n = (n + 64 - 1) div 64"

definition FIRST_WORD_MASK :: "nat \<Rightarrow> ulong" where "FIRST_WORD_MASK start = push_bit (start mod 64) (- 1)"

definition LAST_WORD_MASK :: "nat \<Rightarrow> ulong" where
  "LAST_WORD_MASK nbits = (if nbits mod 64 \<noteq> 0 then push_bit (nbits mod 64) 1 - 1 else - 1)"

definition small_const_nbits :: "bool \<Rightarrow> nat \<Rightarrow> bool" where "small_const_nbits const nbits \<longleftrightarrow> const \<and> nbits \<le> 64"

definition bm_wr :: "bms \<Rightarrow> nat \<Rightarrow> nat \<Rightarrow> ulong \<Rightarrow> bms option" where
  "bm_wr st d k v = map_option (\<lambda>xs. st(d := xs)) (wr (st d) k v)"

definition bm_fill :: "bms \<Rightarrow> nat \<Rightarrow> nat \<Rightarrow> ulong list \<Rightarrow> bms option" where
  "bm_fill st d k ws = map_option (\<lambda>xs. st(d := xs)) (mem_write (st d) k ws)"

section \<open>Tests\<close>

definition bitmap_empty_words :: "ulong list \<Rightarrow> nat \<Rightarrow> bool option" where
  "bitmap_empty_words bitmap bits = do {
     let lim = bits div 64;
     hit \<leftarrow> any_range 0 lim (\<lambda>k. do { w \<leftarrow> rd bitmap k; Some (w \<noteq> 0) });
     if hit then Some False
     else if bits mod 64 \<noteq> 0 then do { w \<leftarrow> rd bitmap lim; Some (\<not> w AND LAST_WORD_MASK bits \<noteq> 0) }
     else Some True }"

definition bitmap_full_words :: "ulong list \<Rightarrow> nat \<Rightarrow> bool option" where
  "bitmap_full_words bitmap bits = do {
     let lim = bits div 64;
     hit \<leftarrow> any_range 0 lim (\<lambda>k. do { w \<leftarrow> rd bitmap k; Some (NOT w \<noteq> 0) });
     if hit then Some False
     else if bits mod 64 \<noteq> 0 then do { w \<leftarrow> rd bitmap lim; Some (\<not> NOT w AND LAST_WORD_MASK bits \<noteq> 0) }
     else Some True }"

definition bitmap_equal_words :: "ulong list \<Rightarrow> ulong list \<Rightarrow> nat \<Rightarrow> bool option" where
  "bitmap_equal_words bitmap1 bitmap2 bits = do {
     let lim = bits div 64;
     hit \<leftarrow> any_range 0 lim (\<lambda>k. do { a \<leftarrow> rd bitmap1 k; b \<leftarrow> rd bitmap2 k; Some (a \<noteq> b) });
     if hit then Some False
     else if bits mod 64 \<noteq> 0 then do { a \<leftarrow> rd bitmap1 lim; b \<leftarrow> rd bitmap2 lim; Some (\<not> (a XOR b) AND LAST_WORD_MASK bits \<noteq> 0) }
     else Some True }"

definition bitmap_intersects_words :: "ulong list \<Rightarrow> ulong list \<Rightarrow> nat \<Rightarrow> bool option" where
  "bitmap_intersects_words bitmap1 bitmap2 bits = do {
     let lim = bits div 64;
     hit \<leftarrow> any_range 0 lim (\<lambda>k. do { a \<leftarrow> rd bitmap1 k; b \<leftarrow> rd bitmap2 k; Some (a AND b \<noteq> 0) });
     if hit then Some True
     else if bits mod 64 \<noteq> 0 then do { a \<leftarrow> rd bitmap1 lim; b \<leftarrow> rd bitmap2 lim; Some ((a AND b) AND LAST_WORD_MASK bits \<noteq> 0) }
     else Some False }"

definition bitmap_subset_words :: "ulong list \<Rightarrow> ulong list \<Rightarrow> nat \<Rightarrow> bool option" where
  "bitmap_subset_words bitmap1 bitmap2 bits = do {
     let lim = bits div 64;
     hit \<leftarrow> any_range 0 lim (\<lambda>k. do { a \<leftarrow> rd bitmap1 k; b \<leftarrow> rd bitmap2 k; Some (a AND NOT b \<noteq> 0) });
     if hit then Some False
     else if bits mod 64 \<noteq> 0 then do { a \<leftarrow> rd bitmap1 lim; b \<leftarrow> rd bitmap2 lim; Some (\<not> (a AND NOT b) AND LAST_WORD_MASK bits \<noteq> 0) }
     else Some True }"

definition bitmap_weight_words :: "ulong list \<Rightarrow> nat \<Rightarrow> nat option" where
  "bitmap_weight_words bitmap bits = do {
     let lim = bits div 64;
     w \<leftarrow> for_range 0 lim (\<lambda>k w. do { v \<leftarrow> rd bitmap k; Some (w + unat (hweight_long v)) }) 0;
     if bits mod 64 \<noteq> 0 then do { v \<leftarrow> rd bitmap lim; Some (w + unat (hweight_long (v AND LAST_WORD_MASK bits))) }
     else Some w }"

definition bitmap_empty :: "bool \<Rightarrow> ulong list \<Rightarrow> nat \<Rightarrow> bool option" where
  "bitmap_empty const src nbits =
     (if small_const_nbits const nbits then do { a \<leftarrow> rd src 0; Some (\<not> a AND LAST_WORD_MASK nbits \<noteq> 0) }
      else bitmap_empty_words src nbits)"

definition bitmap_full :: "bool \<Rightarrow> ulong list \<Rightarrow> nat \<Rightarrow> bool option" where
  "bitmap_full const src nbits =
     (if small_const_nbits const nbits then do { a \<leftarrow> rd src 0; Some (\<not> NOT a AND LAST_WORD_MASK nbits \<noteq> 0) }
      else bitmap_full_words src nbits)"

definition bitmap_equal :: "bool \<Rightarrow> ulong list \<Rightarrow> ulong list \<Rightarrow> nat \<Rightarrow> bool option" where
  "bitmap_equal const src1 src2 nbits =
     (if small_const_nbits const nbits
      then do { a \<leftarrow> rd src1 0; b \<leftarrow> rd src2 0; Some (\<not> (a XOR b) AND LAST_WORD_MASK nbits \<noteq> 0) }
      else bitmap_equal_words src1 src2 nbits)"

definition bitmap_intersects :: "bool \<Rightarrow> ulong list \<Rightarrow> ulong list \<Rightarrow> nat \<Rightarrow> bool option" where
  "bitmap_intersects const src1 src2 nbits =
     (if small_const_nbits const nbits
      then do { a \<leftarrow> rd src1 0; b \<leftarrow> rd src2 0; Some ((a AND b) AND LAST_WORD_MASK nbits \<noteq> 0) }
      else bitmap_intersects_words src1 src2 nbits)"

definition bitmap_subset :: "bool \<Rightarrow> ulong list \<Rightarrow> ulong list \<Rightarrow> nat \<Rightarrow> bool option" where
  "bitmap_subset const src1 src2 nbits =
     (if small_const_nbits const nbits
      then do { a \<leftarrow> rd src1 0; b \<leftarrow> rd src2 0; Some (\<not> (a AND NOT b) AND LAST_WORD_MASK nbits \<noteq> 0) }
      else bitmap_subset_words src1 src2 nbits)"

definition bitmap_weight :: "bool \<Rightarrow> ulong list \<Rightarrow> nat \<Rightarrow> nat option" where
  "bitmap_weight const src nbits =
     (if small_const_nbits const nbits then do { a \<leftarrow> rd src 0; Some (unat (hweight_long (a AND LAST_WORD_MASK nbits))) }
      else bitmap_weight_words src nbits)"

section \<open>Whole-bitmap operations\<close>

definition bitmap_zero :: "bool \<Rightarrow> bms \<Rightarrow> nat \<Rightarrow> nat \<Rightarrow> bms option" where
  "bitmap_zero const st dst nbits =
     (if small_const_nbits const nbits then bm_wr st dst 0 0
      else bm_fill st dst 0 (replicate (BITS_TO_LONGS nbits) 0))"

text \<open>With a size of 0 that the compiler does not know, \<open>nlongs - 1\<close> wraps around.\<close>

definition bitmap_fill :: "bool \<Rightarrow> bms \<Rightarrow> nat \<Rightarrow> nat \<Rightarrow> bms option" where
  "bitmap_fill const st dst nbits = do {
     let nlongs = BITS_TO_LONGS nbits;
     (if nlongs = 0 then None else Some ());
     st \<leftarrow> (if \<not> small_const_nbits const nbits then bm_fill st dst 0 (replicate (nlongs - 1) (- 1)) else Some st);
     bm_wr st dst (nlongs - 1) (LAST_WORD_MASK nbits) }"

definition bitmap_copy :: "bool \<Rightarrow> bms \<Rightarrow> nat \<Rightarrow> nat \<Rightarrow> nat \<Rightarrow> bms option" where
  "bitmap_copy const st dst src nbits =
     (if small_const_nbits const nbits then do { a \<leftarrow> rd (st src) 0; bm_wr st dst 0 a }
      else do { ws \<leftarrow> mem_read (st src) 0 (BITS_TO_LONGS nbits); bm_fill st dst 0 ws })"

definition bitmap_complement_words :: "bms \<Rightarrow> nat \<Rightarrow> nat \<Rightarrow> nat \<Rightarrow> bms option" where
  "bitmap_complement_words st dst src bits = do {
     let lim = bits div 64;
     st \<leftarrow> for_range 0 lim (\<lambda>k st. do { a \<leftarrow> rd (st src) k; bm_wr st dst k (NOT a) }) st;
     if bits mod 64 \<noteq> 0 then do { a \<leftarrow> rd (st src) lim; bm_wr st dst lim (NOT a AND LAST_WORD_MASK bits) }
     else Some st }"

definition bitmap_and_words :: "bms \<Rightarrow> nat \<Rightarrow> nat \<Rightarrow> nat \<Rightarrow> nat \<Rightarrow> (bool \<times> bms) option" where
  "bitmap_and_words st dst b1 b2 bits = do {
     (result, st) \<leftarrow> for_range 0 (BITS_TO_LONGS bits) (\<lambda>k (result, st). do {
       a \<leftarrow> rd (st b1) k; b \<leftarrow> rd (st b2) k; st \<leftarrow> bm_wr st dst k (a AND b); Some (result OR (a AND b), st) }) (0 :: ulong, st);
     Some (result \<noteq> 0, st) }"

definition bitmap_or_words :: "bms \<Rightarrow> nat \<Rightarrow> nat \<Rightarrow> nat \<Rightarrow> nat \<Rightarrow> bms option" where
  "bitmap_or_words st dst b1 b2 bits =
     for_range 0 (BITS_TO_LONGS bits) (\<lambda>k st. do { a \<leftarrow> rd (st b1) k; b \<leftarrow> rd (st b2) k; bm_wr st dst k (a OR b) }) st"

definition bitmap_xor_words :: "bms \<Rightarrow> nat \<Rightarrow> nat \<Rightarrow> nat \<Rightarrow> nat \<Rightarrow> bms option" where
  "bitmap_xor_words st dst b1 b2 bits =
     for_range 0 (BITS_TO_LONGS bits) (\<lambda>k st. do { a \<leftarrow> rd (st b1) k; b \<leftarrow> rd (st b2) k; bm_wr st dst k (a XOR b) }) st"

definition bitmap_andnot_words :: "bms \<Rightarrow> nat \<Rightarrow> nat \<Rightarrow> nat \<Rightarrow> nat \<Rightarrow> (bool \<times> bms) option" where
  "bitmap_andnot_words st dst b1 b2 bits = do {
     (result, st) \<leftarrow> for_range 0 (BITS_TO_LONGS bits) (\<lambda>k (result, st). do {
       a \<leftarrow> rd (st b1) k; b \<leftarrow> rd (st b2) k; st \<leftarrow> bm_wr st dst k (a AND NOT b); Some (result OR (a AND NOT b), st) }) (0 :: ulong, st);
     Some (result \<noteq> 0, st) }"

definition bitmap_and :: "bool \<Rightarrow> bms \<Rightarrow> nat \<Rightarrow> nat \<Rightarrow> nat \<Rightarrow> nat \<Rightarrow> (bool \<times> bms) option" where
  "bitmap_and const st dst src1 src2 nbits =
     (if small_const_nbits const nbits
      then do { a \<leftarrow> rd (st src1) 0; b \<leftarrow> rd (st src2) 0; st \<leftarrow> bm_wr st dst 0 (a AND b); Some (a AND b \<noteq> 0, st) }
      else bitmap_and_words st dst src1 src2 nbits)"

definition bitmap_or :: "bool \<Rightarrow> bms \<Rightarrow> nat \<Rightarrow> nat \<Rightarrow> nat \<Rightarrow> nat \<Rightarrow> bms option" where
  "bitmap_or const st dst src1 src2 nbits =
     (if small_const_nbits const nbits then do { a \<leftarrow> rd (st src1) 0; b \<leftarrow> rd (st src2) 0; bm_wr st dst 0 (a OR b) }
      else bitmap_or_words st dst src1 src2 nbits)"

definition bitmap_xor :: "bool \<Rightarrow> bms \<Rightarrow> nat \<Rightarrow> nat \<Rightarrow> nat \<Rightarrow> nat \<Rightarrow> bms option" where
  "bitmap_xor const st dst src1 src2 nbits =
     (if small_const_nbits const nbits then do { a \<leftarrow> rd (st src1) 0; b \<leftarrow> rd (st src2) 0; bm_wr st dst 0 (a XOR b) }
      else bitmap_xor_words st dst src1 src2 nbits)"

definition bitmap_andnot :: "bool \<Rightarrow> bms \<Rightarrow> nat \<Rightarrow> nat \<Rightarrow> nat \<Rightarrow> nat \<Rightarrow> (bool \<times> bms) option" where
  "bitmap_andnot const st dst src1 src2 nbits =
     (if small_const_nbits const nbits
      then do { a \<leftarrow> rd (st src1) 0; b \<leftarrow> rd (st src2) 0; st \<leftarrow> bm_wr st dst 0 (a AND NOT b); Some (a AND NOT b \<noteq> 0, st) }
      else bitmap_andnot_words st dst src1 src2 nbits)"

definition bitmap_complement :: "bool \<Rightarrow> bms \<Rightarrow> nat \<Rightarrow> nat \<Rightarrow> nat \<Rightarrow> bms option" where
  "bitmap_complement const st dst src nbits =
     (if small_const_nbits const nbits then do { a \<leftarrow> rd (st src) 0; bm_wr st dst 0 (NOT a AND LAST_WORD_MASK nbits) }
      else bitmap_complement_words st dst src nbits)"

section \<open>The sets bitmaps stand for\<close>

definition bset :: "nat \<Rightarrow> ulong list \<Rightarrow> nat set" where "bset n m = {i. i < n \<and> tbit m i}"

lemma bset_iff [simp]: "i \<in> bset n m \<longleftrightarrow> i < n \<and> tbit m i" by (simp add: bset_def)

lemma finite_bset [simp]: "finite (bset n m)" by (rule finite_subset [of _ "{..<n}"]) auto

lemma BITS_TO_LONGS_le: "BITS_TO_LONGS n \<le> l \<longleftrightarrow> n \<le> 64 * l"
  unfolding BITS_TO_LONGS_def by (simp add: less_eq_div_iff_mult_less_eq) linarith

lemma BITS_TO_LONGS_eq: "BITS_TO_LONGS n = n div 64 + (if n mod 64 = 0 then 0 else 1)"
proof -
  have "n + 63 = 64 * (n div 64) + (n mod 64 + 63)" by simp
  then have "(n + 63) div 64 = n div 64 + (n mod 64 + 63) div 64" by (metis div_mult_self4 numeral_neq_zero zero_neq_numeral)
  moreover have "(n mod 64 + 63) div 64 = (if n mod 64 = 0 then 0 else 1)"
    using mod_less_divisor [of 64 n] by (auto simp: div_nat_eqI)
  ultimately show ?thesis by (simp add: BITS_TO_LONGS_def)
qed

lemma bit_LAST [bit_simps]: "bit (LAST_WORD_MASK n) k \<longleftrightarrow> k < 64 \<and> (n mod 64 = 0 \<or> k < n mod 64)"
  by (auto simp: LAST_WORD_MASK_def mask_eq_exp_minus_1 [symmetric] push_bit_of_1 bit_simps dest: bit_imp_le_length)

lemma bit_FIRST [bit_simps]: "bit (FIRST_WORD_MASK n) k \<longleftrightarrow> k < 64 \<and> n mod 64 \<le> k"
  by (auto simp: FIRST_WORD_MASK_def bit_simps)

lemma nonzero_bits: "w \<noteq> 0 \<longleftrightarrow> (\<exists>k < 64. bit w k)" for w :: ulong
  using word_eq_bits [of w 0] by auto

lemma xor_eq_0: "a XOR b = 0 \<longleftrightarrow> a = b" for a b :: ulong
  by (auto simp: word_eq_bits bit_simps)

lemma nonzero_masked: "w AND LAST_WORD_MASK n \<noteq> 0 \<longleftrightarrow> (\<exists>k < 64. bit w k \<and> (n mod 64 = 0 \<or> k < n mod 64))"
  by (auto simp: nonzero_bits bit_simps)

text \<open>Some bit of the words \<open>g 0\<close>, \<open>g 1\<close>, \<open>\<dots>\<close> is set below \<open>bits\<close>.\<close>

lemma some_bit_words:
  fixes g :: "nat \<Rightarrow> ulong"
  assumes "\<And>k. k < BITS_TO_LONGS bits \<Longrightarrow> t k \<longleftrightarrow> g k \<noteq> 0"
  shows "(\<exists>i < bits. bit (g (i div 64)) (i mod 64)) \<longleftrightarrow>
    (\<exists>k. 0 \<le> k \<and> k < bits div 64 \<and> t k) \<or> bits mod 64 \<noteq> 0 \<and> g (bits div 64) AND LAST_WORD_MASK bits \<noteq> 0"
    (is "?L \<longleftrightarrow> ?A \<or> ?B")
proof
  assume ?L
  then obtain i where i: "i < bits" "bit (g (i div 64)) (i mod 64)" by blast
  show "?A \<or> ?B"
  proof (cases "i div 64 < bits div 64")
    case True
    then have "g (i div 64) \<noteq> 0" using i(2) by auto
    then show ?thesis using True assms [of "i div 64"] by (auto simp: BITS_TO_LONGS_eq)
  next
    case False
    then have "i div 64 = bits div 64" using i(1) div_le_mono [of i bits 64] by simp
    moreover from this have "i mod 64 < bits mod 64" using i(1) by (metis div_mult_mod_eq nat_add_left_cancel_less)
    ultimately show ?thesis using i(2) by (auto simp: nonzero_masked intro!: exI [of _ "i mod 64"])
  qed
next
  assume "?A \<or> ?B"
  then show ?L
  proof
    assume ?A
    then obtain k where k: "k < bits div 64" "g k \<noteq> 0" using assms by (auto simp: BITS_TO_LONGS_eq)
    then obtain j where j: "j < 64" "bit (g k) j" by (auto simp: nonzero_bits)
    have "64 * k + j < 64 * Suc k" using j by simp
    also have "\<dots> \<le> 64 * (bits div 64)" using k(1) by (intro mult_le_mono2) simp
    also have "\<dots> \<le> bits" by simp
    finally show ?L using j by (intro exI [of _ "64 * k + j"]) simp
  next
    assume ?B
    then obtain j where j: "j < 64" "bit (g (bits div 64)) j" "j < bits mod 64" by (auto simp: nonzero_masked)
    have "64 * (bits div 64) + j < bits" using j(3) by (metis mult_div_mod_eq nat_add_left_cancel_less)
    then show ?L using j by (intro exI [of _ "64 * (bits div 64) + j"]) simp
  qed
qed

lemma words_in: "bits \<le> 64 * length m \<Longrightarrow> k < BITS_TO_LONGS bits \<Longrightarrow> k < length m"
  using BITS_TO_LONGS_le [of bits "length m"] by simp

lemma lim_in: "bits \<le> 64 * length m \<Longrightarrow> k < bits div 64 \<or> k = bits div 64 \<and> bits mod 64 \<noteq> 0 \<Longrightarrow> k < length m"
  using words_in [of bits m k] by (auto simp: BITS_TO_LONGS_eq split: if_splits)

lemma scan_words:
  assumes "\<And>k. k < BITS_TO_LONGS bits \<Longrightarrow> p k = Some (t k) \<and> (t k \<longleftrightarrow> g k \<noteq> 0)"
    and "bits mod 64 \<noteq> 0 \<Longrightarrow> q = Some (if g (bits div 64) AND LAST_WORD_MASK bits \<noteq> 0 then a else b)"
  shows "do { hit \<leftarrow> any_range 0 (bits div 64) p; if hit then Some a else if bits mod 64 \<noteq> 0 then q else Some b }
    = Some (if \<exists>i < bits. bit (g (i div 64)) (i mod 64) then a else b)"
proof -
  have any: "any_range 0 (bits div 64) p = Some (\<exists>k. 0 \<le> k \<and> k < bits div 64 \<and> t k)"
    by (rule any_range_eq) (use assms(1) in \<open>auto simp: BITS_TO_LONGS_eq\<close>)
  have iff: "(\<exists>i < bits. bit (g (i div 64)) (i mod 64)) \<longleftrightarrow>
    (\<exists>k. 0 \<le> k \<and> k < bits div 64 \<and> t k) \<or> bits mod 64 \<noteq> 0 \<and> g (bits div 64) AND LAST_WORD_MASK bits \<noteq> 0"
    by (rule some_bit_words) (use assms(1) in blast)
  show ?thesis
    unfolding any iff using assms(2) by (cases "bits mod 64 = 0") auto
qed

lemma bitmap_tests_words:
  assumes "bits \<le> 64 * length m" and "bits \<le> 64 * length m'"
  shows "bitmap_empty_words m bits = Some (bset bits m = {})"
    and "bitmap_full_words m bits = Some (bset bits m = {..<bits})"
    and "bitmap_equal_words m m' bits = Some (bset bits m = bset bits m')"
    and "bitmap_intersects_words m m' bits = Some (bset bits m \<inter> bset bits m' \<noteq> {})"
    and "bitmap_subset_words m m' bits = Some (bset bits m \<subseteq> bset bits m')"
proof -
  note l = words_in [OF assms(1)] words_in [OF assms(2)]
  have lim: "bits mod 64 \<noteq> 0 \<Longrightarrow> bits div 64 < BITS_TO_LONGS bits" by (simp add: BITS_TO_LONGS_eq)
  show "bitmap_empty_words m bits = Some (bset bits m = {})"
    unfolding bitmap_empty_words_def Let_def
    by (subst scan_words [where g = "\<lambda>k. m ! k" and t = "\<lambda>k. m ! k \<noteq> 0"])
      (use l lim in \<open>auto simp: rd_eq bset_def tbit_def\<close>)
  show "bitmap_full_words m bits = Some (bset bits m = {..<bits})"
    unfolding bitmap_full_words_def Let_def
    by (subst scan_words [where g = "\<lambda>k. NOT (m ! k)" and t = "\<lambda>k. NOT (m ! k) \<noteq> 0"])
      (use l lim in \<open>auto simp: rd_eq bset_def tbit_def bit_simps\<close>)
  show "bitmap_equal_words m m' bits = Some (bset bits m = bset bits m')"
    unfolding bitmap_equal_words_def Let_def
    by (subst scan_words [where g = "\<lambda>k. m ! k XOR m' ! k" and t = "\<lambda>k. m ! k \<noteq> m' ! k"])
      (use l lim in \<open>auto simp: rd_eq bset_def tbit_def bit_simps xor_eq_0\<close>)
  show "bitmap_intersects_words m m' bits = Some (bset bits m \<inter> bset bits m' \<noteq> {})"
    unfolding bitmap_intersects_words_def Let_def
    by (subst scan_words [where g = "\<lambda>k. m ! k AND m' ! k" and t = "\<lambda>k. m ! k AND m' ! k \<noteq> 0"])
      (use l lim in \<open>auto simp: rd_eq bset_def tbit_def bit_simps\<close>)
  show "bitmap_subset_words m m' bits = Some (bset bits m \<subseteq> bset bits m')"
    unfolding bitmap_subset_words_def Let_def
    by (subst scan_words [where g = "\<lambda>k. m ! k AND NOT (m' ! k)" and t = "\<lambda>k. m ! k AND NOT (m' ! k) \<noteq> 0"])
      (use l lim in \<open>auto simp: rd_eq bset_def tbit_def bit_simps\<close>)
qed

section \<open>The weight\<close>

lemma popcount_card: "popcount w = card {j. j < 64 \<and> bit w j}" for w :: ulong
proof -
  have "popcount w = card (set (filter (bit w) [0..<64]))"
    unfolding popcount_def by (subst distinct_card) simp_all
  moreover have "set (filter (bit w) [0..<64]) = {j. j < 64 \<and> bit w j}" by auto
  ultimately show ?thesis by simp
qed

lemma card_bset_extend:
  assumes "n \<le> 64"
  shows "card (bset (64 * k + n) m) = card (bset (64 * k) m) + card {j. j < n \<and> bit (m ! k) j}"
proof -
  have "bset (64 * k + n) m = bset (64 * k) m \<union> (\<lambda>j. 64 * k + j) ` {j. j < n \<and> bit (m ! k) j}" (is "?A = ?B \<union> ?C")
  proof (rule set_eqI)
    fix i
    show "i \<in> ?A \<longleftrightarrow> i \<in> ?B \<union> ?C"
    proof (cases "i < 64 * k")
      case True
      then show ?thesis by auto
    next
      case False
      then obtain j where j: "i = 64 * k + j" by (metis le_Suc_ex not_less)
      show ?thesis
      proof (cases "j < n")
        case True
        then show ?thesis using j assms tbit_word [of j m k] by auto
      next
        case False
        then show ?thesis using j by auto
      qed
    qed
  qed
  moreover have "?B \<inter> ?C = {}" by auto
  moreover have "card ?C = card {j. j < n \<and> bit (m ! k) j}" by (rule card_image) (simp add: inj_on_def)
  moreover have "finite ?C" by simp
  ultimately show ?thesis by (simp add: card_Un_disjoint)
qed

lemma unat_hweight_long: "unat (hweight_long w) = card {j. j < 64 \<and> bit w j}"
  using hweight64_popcount [of True w] by (simp add: hweight_long_def hweight64_def arch_hweight64_def popcount_card)

lemma bitmap_weight_words_card:
  assumes "bits \<le> 64 * length m"
  shows "bitmap_weight_words m bits = Some (card (bset bits m))"
proof -
  let ?lim = "bits div 64"
  note l = words_in [OF assms]
  have "\<exists>w. for_range 0 ?lim (\<lambda>k w. do { v \<leftarrow> rd m k; Some (w + unat (hweight_long v)) }) 0 = Some w \<and> w = card (bset (64 * ?lim) m)"
  proof (rule for_range_rule)
    fix k w assume "k < ?lim" "w = card (bset (64 * k) m)"
    then show "\<exists>w'. do { v \<leftarrow> rd m k; Some (w + unat (hweight_long v)) } = Some w' \<and> w' = card (bset (64 * Suc k) m)"
      using l [of k] card_bset_extend [of 64 k m] by (simp add: rd_eq BITS_TO_LONGS_eq unat_hweight_long add.commute)
  qed (simp_all add: bset_def)
  then have loop: "for_range 0 ?lim (\<lambda>k w. do { v \<leftarrow> rd m k; Some (w + unat (hweight_long v)) }) 0 = Some (card (bset (64 * ?lim) m))"
    by simp
  show ?thesis
  proof (cases "bits mod 64 = 0")
    case True
    then have "64 * ?lim = bits" by auto
    then show ?thesis using loop True by (simp add: bitmap_weight_words_def Let_def)
  next
    case False
    have "bits = 64 * ?lim + bits mod 64" by simp
    then have c: "card (bset bits m) = card (bset (64 * ?lim) m) + card {j. j < bits mod 64 \<and> bit (m ! ?lim) j}"
      using card_bset_extend [of "bits mod 64" ?lim m] by (metis mod_less_divisor less_imp_le zero_less_numeral)
    have "{j. j < 64 \<and> bit (m ! ?lim AND LAST_WORD_MASK bits) j} = {j. j < bits mod 64 \<and> bit (m ! ?lim) j}"
      using False by (auto simp: bit_simps intro: less_trans [OF _ mod_less_divisor])
    moreover have "?lim < length m" using l [of ?lim] False by (simp add: BITS_TO_LONGS_eq)
    ultimately show ?thesis
      using loop False c unat_hweight_long [of "m ! ?lim AND LAST_WORD_MASK bits"]
      by (simp add: bitmap_weight_words_def Let_def rd_eq)
  qed
qed

lemma or_zero: "a OR b = 0 \<longleftrightarrow> a = 0 \<and> b = 0" for a b :: ulong
  by (auto simp: word_eq_bits bit_simps)

section \<open>Word by word\<close>

lemma bm_wr_eq: "k < length (st d) \<Longrightarrow> bm_wr st d k v = Some (st(d := (st d)[k := v]))"
  by (simp add: bm_wr_def wr_eq)

lemma bm_fill_eq: "k + length ws \<le> length (st d) \<Longrightarrow> bm_fill st d k ws = Some (st(d := blit (st d) k ws))"
  by (simp add: bm_fill_def mem_write_eq)

text \<open>
  A loop that stores at word \<open>k\<close> a value \<open>f k\<close> computed from words not yet overwritten, going
  up from 0, leaves those values in the first words; the store is otherwise as it was.
\<close>

definition with_words :: "bms \<Rightarrow> nat \<Rightarrow> nat \<Rightarrow> (nat \<Rightarrow> ulong) \<Rightarrow> bms" where
  "with_words st d n f = st(d := map f [0..<n] @ drop n (st d))"

lemma with_words_0 [simp]: "with_words st d 0 f = st" by (simp add: with_words_def)

lemma with_words_step:
  assumes "k < length (st d)"
  shows "bm_wr (with_words st d k f) d k (f k) = Some (with_words st d (Suc k) f)"
proof -
  have "k < length (with_words st d k f d)" using assms by (simp add: with_words_def)
  moreover have "(map f [0..<k] @ drop k (st d))[k := f k] = map f [0..<Suc k] @ drop (Suc k) (st d)"
    using assms by (simp add: list_update_append Cons_nth_drop_Suc [symmetric])
  ultimately show ?thesis by (simp add: bm_wr_eq) (simp add: with_words_def)
qed

lemma with_words_nth: "k \<le> j \<Longrightarrow> j < length (st p) \<Longrightarrow> k \<le> length (st d) \<Longrightarrow> with_words st d k f p ! j = st p ! j"
  by (simp add: with_words_def nth_append)

lemma with_words_length [simp]: "k \<le> length (st d) \<Longrightarrow> length (with_words st d k f p) = length (st p)"
  by (simp add: with_words_def)

lemma with_words_at: "j < n \<Longrightarrow> with_words st d n f d ! j = f j"
  by (simp add: with_words_def nth_append)

lemma words_loop:
  assumes "n \<le> length (st d)"
    and "\<And>k s. k < n \<Longrightarrow> s = with_words st d k f \<Longrightarrow> body k s = bm_wr s d k (f k)"
  shows "for_range 0 n body st = Some (with_words st d n f)"
proof -
  have "\<exists>s. for_range 0 n body st = Some s \<and> s = with_words st d n f"
  proof (rule for_range_rule)
    fix k s assume "k < n" "s = with_words st d k f"
    then show "\<exists>s'. body k s = Some s' \<and> s' = with_words st d (Suc k) f"
      using assms with_words_step [of k st d f] by simp
  qed simp_all
  then show ?thesis by simp
qed

lemma two_source_loop:
  assumes "bits \<le> 64 * length (st d)" and "bits \<le> 64 * length (st b1)" and "bits \<le> 64 * length (st b2)"
  shows "for_range 0 (BITS_TO_LONGS bits) (\<lambda>k st. do { a \<leftarrow> rd (st b1) k; b \<leftarrow> rd (st b2) k; bm_wr st d k (g a b) }) st
    = Some (with_words st d (BITS_TO_LONGS bits) (\<lambda>k. g (st b1 ! k) (st b2 ! k)))"
proof (rule words_loop)
  show n: "BITS_TO_LONGS bits \<le> length (st d)" using assms(1) by (simp add: BITS_TO_LONGS_le)
  fix k s assume k: "k < BITS_TO_LONGS bits" "s = with_words st d k (\<lambda>k. g (st b1 ! k) (st b2 ! k))"
  then have "k < length (st b1)" "k < length (st b2)" "k \<le> length (st d)" using words_in assms n by auto
  then show "do { a \<leftarrow> rd (s b1) k; b \<leftarrow> rd (s b2) k; bm_wr s d k (g a b) } = bm_wr s d k (g (st b1 ! k) (st b2 ! k))"
    using k(2) by (simp add: rd_eq with_words_nth)
qed

lemma two_source_loop_acc:
  assumes "bits \<le> 64 * length (st d)" and "bits \<le> 64 * length (st b1)" and "bits \<le> 64 * length (st b2)"
  shows "\<exists>r. for_range 0 (BITS_TO_LONGS bits) (\<lambda>k (r, st). do { a \<leftarrow> rd (st b1) k; b \<leftarrow> rd (st b2) k;
      st \<leftarrow> bm_wr st d k (g a b); Some (r OR g a b, st) }) (0 :: ulong, st)
    = Some (r, with_words st d (BITS_TO_LONGS bits) (\<lambda>k. g (st b1 ! k) (st b2 ! k)))
    \<and> (r \<noteq> 0 \<longleftrightarrow> (\<exists>k < BITS_TO_LONGS bits. g (st b1 ! k) (st b2 ! k) \<noteq> 0))"
proof -
  let ?n = "BITS_TO_LONGS bits" and ?f = "\<lambda>k. g (st b1 ! k) (st b2 ! k)"
  have n: "?n \<le> length (st d)" using assms(1) by (simp add: BITS_TO_LONGS_le)
  have "\<exists>rs. for_range 0 ?n (\<lambda>k (r, st). do { a \<leftarrow> rd (st b1) k; b \<leftarrow> rd (st b2) k;
      st \<leftarrow> bm_wr st d k (g a b); Some (r OR g a b, st) }) (0, st) = Some rs
    \<and> (snd rs = with_words st d ?n ?f \<and> (fst rs \<noteq> 0 \<longleftrightarrow> (\<exists>k < ?n. ?f k \<noteq> 0)))"
  proof (rule for_range_rule)
    fix k and rs :: "ulong \<times> bms"
    assume k: "k < ?n" "snd rs = with_words st d k ?f \<and> (fst rs \<noteq> 0 \<longleftrightarrow> (\<exists>j < k. ?f j \<noteq> 0))"
    obtain r s where rs: "rs = (r, s)" by (cases rs)
    have len: "k < length (st b1)" "k < length (st b2)" "k < length (st d)" using k words_in assms n by auto
    have "r OR ?f k \<noteq> 0 \<longleftrightarrow> (\<exists>j < Suc k. ?f j \<noteq> 0)"
      using k rs by (auto simp: less_Suc_eq or_zero)
    then show "\<exists>rs'. (\<lambda>(r, st). do { a \<leftarrow> rd (st b1) k; b \<leftarrow> rd (st b2) k; st \<leftarrow> bm_wr st d k (g a b); Some (r OR g a b, st) }) rs = Some rs'
      \<and> (snd rs' = with_words st d (Suc k) ?f \<and> (fst rs' \<noteq> 0 \<longleftrightarrow> (\<exists>j < Suc k. ?f j \<noteq> 0)))"
      using k rs len with_words_step [of k st d ?f] by (simp add: rd_eq with_words_nth)
  qed simp_all
  then show ?thesis by auto
qed

lemma tbit_with_words: "i < 64 * n \<Longrightarrow> tbit (with_words st d n f d) i \<longleftrightarrow> bit (f (i div 64)) (i mod 64)"
  by (simp add: tbit_def with_words_at less_mult_imp_div_less mult.commute)

lemma below_words: "i < bits \<Longrightarrow> i < 64 * BITS_TO_LONGS bits"
  using BITS_TO_LONGS_le [of bits "BITS_TO_LONGS bits"] by simp

section \<open>The operations as functions on words\<close>

lemma small_one: "small_const_nbits c n \<Longrightarrow> 0 < n \<Longrightarrow> BITS_TO_LONGS n = 1"
  by (auto simp: small_const_nbits_def BITS_TO_LONGS_def intro: div_nat_eqI)

lemma write_first: "0 < length (st d) \<Longrightarrow> bm_wr st d 0 v = Some (with_words st d (Suc 0) (\<lambda>k. v))"
  using with_words_step [of 0 st d "\<lambda>k. v"] by simp

lemma with_words_cong: "(\<And>k. k < n \<Longrightarrow> f k = g k) \<Longrightarrow> with_words st d n f = with_words st d n g"
proof -
  assume "\<And>k. k < n \<Longrightarrow> f k = g k"
  then have "map f [0..<n] = map g [0..<n]" by simp
  then show ?thesis unfolding with_words_def by (rule arg_cong)
qed

lemma first_word: "0 < n \<Longrightarrow> n \<le> 64 * length m \<Longrightarrow> m \<noteq> []" by auto

lemma bitmap_or_words_eq:
  assumes "0 < n" and "n \<le> 64 * length (st d)" and "n \<le> 64 * length (st s1)" and "n \<le> 64 * length (st s2)"
  shows "bitmap_or c st d s1 s2 n = Some (with_words st d (BITS_TO_LONGS n) (\<lambda>k. st s1 ! k OR st s2 ! k))"
    and "bitmap_xor c st d s1 s2 n = Some (with_words st d (BITS_TO_LONGS n) (\<lambda>k. st s1 ! k XOR st s2 ! k))"
    and "\<exists>r. bitmap_and c st d s1 s2 n = Some (r, with_words st d (BITS_TO_LONGS n) (\<lambda>k. st s1 ! k AND st s2 ! k))
      \<and> (r \<longleftrightarrow> (\<exists>k < BITS_TO_LONGS n. st s1 ! k AND st s2 ! k \<noteq> 0))"
    and "\<exists>r. bitmap_andnot c st d s1 s2 n = Some (r, with_words st d (BITS_TO_LONGS n) (\<lambda>k. st s1 ! k AND NOT (st s2 ! k)))
      \<and> (r \<longleftrightarrow> (\<exists>k < BITS_TO_LONGS n. st s1 ! k AND NOT (st s2 ! k) \<noteq> 0))"
proof -
  note loop = two_source_loop [where g = "(OR)", OF assms(2-4)] two_source_loop [where g = "(XOR)", OF assms(2-4)]
  note acc = two_source_loop_acc [where g = "(AND)", OF assms(2-4)] two_source_loop_acc [where g = "\<lambda>a b. a AND NOT b", OF assms(2-4)]
  have ne: "0 < length (st d)" "0 < length (st s1)" "0 < length (st s2)" using assms by (auto dest: first_word)
  note first = write_first [of st d, OF ne(1)] rd_eq [OF ne(2)] rd_eq [OF ne(3)]
  have cong: "with_words st d (Suc 0) (\<lambda>k. g (st s1 ! 0) (st s2 ! 0)) = with_words st d (Suc 0) (\<lambda>k. g (st s1 ! k) (st s2 ! k))"
    for g by (rule with_words_cong) simp
  show "bitmap_or c st d s1 s2 n = Some (with_words st d (BITS_TO_LONGS n) (\<lambda>k. st s1 ! k OR st s2 ! k))"
    using loop(1) first small_one [of c n] assms(1) cong [of "(OR)"] by (simp add: bitmap_or_def bitmap_or_words_def)
  show "bitmap_xor c st d s1 s2 n = Some (with_words st d (BITS_TO_LONGS n) (\<lambda>k. st s1 ! k XOR st s2 ! k))"
    using loop(2) first small_one [of c n] assms(1) cong [of "(XOR)"] by (simp add: bitmap_xor_def bitmap_xor_words_def)
  show "\<exists>r. bitmap_and c st d s1 s2 n = Some (r, with_words st d (BITS_TO_LONGS n) (\<lambda>k. st s1 ! k AND st s2 ! k))
      \<and> (r \<longleftrightarrow> (\<exists>k < BITS_TO_LONGS n. st s1 ! k AND st s2 ! k \<noteq> 0))"
    using acc(1) first small_one [of c n] assms(1) cong [of "(AND)"] by (auto simp: bitmap_and_def bitmap_and_words_def)
  show "\<exists>r. bitmap_andnot c st d s1 s2 n = Some (r, with_words st d (BITS_TO_LONGS n) (\<lambda>k. st s1 ! k AND NOT (st s2 ! k)))
      \<and> (r \<longleftrightarrow> (\<exists>k < BITS_TO_LONGS n. st s1 ! k AND NOT (st s2 ! k) \<noteq> 0))"
    using acc(2) first small_one [of c n] assms(1) cong [of "\<lambda>a b. a AND NOT b"] by (auto simp: bitmap_andnot_def bitmap_andnot_words_def)
qed

lemma blit_words: "length ws \<le> length (st d) \<Longrightarrow> st(d := blit (st d) 0 ws) = with_words st d (length ws) (\<lambda>k. ws ! k)"
  by (simp add: with_words_def blit_def map_nth)

lemma bitmap_zero_eq:
  assumes "0 < n \<or> \<not> c" and "n \<le> 64 * length (st d)"
  shows "bitmap_zero c st d n = Some (with_words st d (BITS_TO_LONGS n) (\<lambda>k. 0))"
proof (cases "small_const_nbits c n")
  case True
  then have "0 < n" using assms(1) by (auto simp: small_const_nbits_def)
  then show ?thesis using True write_first [of st d 0] small_one [of c n] first_word [of n "st d"] assms by (simp add: bitmap_zero_def)
next
  case False
  have n: "BITS_TO_LONGS n \<le> length (st d)" using assms(2) by (simp add: BITS_TO_LONGS_le)
  have "with_words st d (BITS_TO_LONGS n) (\<lambda>k. replicate (BITS_TO_LONGS n) 0 ! k) = with_words st d (BITS_TO_LONGS n) (\<lambda>k. 0)"
    by (rule with_words_cong) simp
  then show ?thesis
    using False n blit_words [of "replicate (BITS_TO_LONGS n) 0" st d] by (simp add: bitmap_zero_def bm_fill_eq)
qed

lemma bitmap_copy_eq:
  assumes "0 < n" and "n \<le> 64 * length (st d)" and "n \<le> 64 * length (st p)"
  shows "bitmap_copy c st d p n = Some (with_words st d (BITS_TO_LONGS n) (\<lambda>k. st p ! k))"
proof (cases "small_const_nbits c n")
  case True
  have "with_words st d (Suc 0) (\<lambda>k. st p ! 0) = with_words st d (Suc 0) (\<lambda>k. st p ! k)" by (rule with_words_cong) simp
  then show ?thesis
    using True write_first [of st d "st p ! 0"] small_one [of c n] first_word [of n "st d"] first_word [of n "st p"] assms
    by (simp add: bitmap_copy_def rd_eq)
next
  case False
  have n: "BITS_TO_LONGS n \<le> length (st d)" "BITS_TO_LONGS n \<le> length (st p)" using assms by (simp_all add: BITS_TO_LONGS_le)
  have "with_words st d (BITS_TO_LONGS n) (\<lambda>k. take (BITS_TO_LONGS n) (st p) ! k) = with_words st d (BITS_TO_LONGS n) (\<lambda>k. st p ! k)"
    by (rule with_words_cong) simp
  then show ?thesis
    using False n blit_words [of "take (BITS_TO_LONGS n) (st p)" st d] by (simp add: bitmap_copy_def bm_fill_eq mem_read_eq min_absorb2)
qed

lemma bitmap_fill_eq:
  assumes "0 < n" and "n \<le> 64 * length (st d)"
  shows "bitmap_fill c st d n = Some (with_words st d (BITS_TO_LONGS n) (\<lambda>k. if k = BITS_TO_LONGS n - 1 then LAST_WORD_MASK n else - 1))"
proof -
  let ?n = "BITS_TO_LONGS n"
  have n: "?n \<le> length (st d)" "0 < ?n" using assms BITS_TO_LONGS_le [of n 0] by (simp_all add: BITS_TO_LONGS_le)
  define st1 where "st1 = with_words st d (?n - 1) (\<lambda>k. - 1)"
  have "(if \<not> small_const_nbits c n then bm_fill st d 0 (replicate (?n - 1) (- 1)) else Some st) = Some st1"
  proof (cases "small_const_nbits c n")
    case True
    then show ?thesis using small_one [of c n] assms by (simp add: st1_def)
  next
    case False
    have "with_words st d (?n - 1) (\<lambda>k. replicate (?n - 1) (- 1) ! k) = st1" unfolding st1_def by (rule with_words_cong) simp
    then show ?thesis using False n blit_words [of "replicate (?n - 1) (- 1)" st d] by (simp add: bm_fill_eq)
  qed
  moreover have "st1 = with_words st d (?n - 1) (\<lambda>k. if k = ?n - 1 then LAST_WORD_MASK n else - 1)"
    unfolding st1_def by (rule with_words_cong) simp
  then have "bm_wr st1 d (?n - 1) (LAST_WORD_MASK n) = Some (with_words st d ?n (\<lambda>k. if k = ?n - 1 then LAST_WORD_MASK n else - 1))"
    using with_words_step [of "?n - 1" st d "\<lambda>k. if k = ?n - 1 then LAST_WORD_MASK n else - 1"] n by simp
  ultimately show ?thesis using n(2) by (simp add: bitmap_fill_def Let_def)
qed

lemma bitmap_complement_eq:
  assumes "0 < n" and "n \<le> 64 * length (st d)" and "n \<le> 64 * length (st p)"
  shows "bitmap_complement c st d p n = Some (with_words st d (BITS_TO_LONGS n)
    (\<lambda>k. if k = n div 64 then NOT (st p ! k) AND LAST_WORD_MASK n else NOT (st p ! k)))"
    (is "_ = Some (with_words st d ?n ?f)")
proof (cases "small_const_nbits c n")
  case True
  have one: "BITS_TO_LONGS n = Suc 0" using small_one [OF True assms(1)] by simp
  have "NOT (st p ! 0) AND LAST_WORD_MASK n = ?f 0"
  proof (cases "n div 64 = 0")
    case False
    then have "n = 64" using True by (auto simp: small_const_nbits_def div_greater_zero_iff)
    then show ?thesis by (simp add: LAST_WORD_MASK_def)
  qed simp
  then have "with_words st d (Suc 0) (\<lambda>k. NOT (st p ! 0) AND LAST_WORD_MASK n) = with_words st d (Suc 0) ?f"
    by (intro with_words_cong) (simp only: less_Suc0)
  then show ?thesis
    using True one write_first [of st d "NOT (st p ! 0) AND LAST_WORD_MASK n"] first_word [of n "st d"] first_word [of n "st p"] assms
    by (simp add: bitmap_complement_def rd_eq)
next
  case False
  let ?lim = "n div 64"
  have loop: "for_range 0 ?lim (\<lambda>k st. do { a \<leftarrow> rd (st p) k; bm_wr st d k (NOT a) }) st = Some (with_words st d ?lim ?f)"
  proof (rule words_loop)
    show le: "?lim \<le> length (st d)" using assms(2) by simp
    fix k s assume k: "k < ?lim" "s = with_words st d k ?f"
    then have "k < length (st p)" "k \<le> length (st d)" using assms le by auto
    then show "do { a \<leftarrow> rd (s p) k; bm_wr s d k (NOT a) } = bm_wr s d k (?f k)" using k by (simp add: rd_eq with_words_nth)
  qed
  show ?thesis
  proof (cases "n mod 64 = 0")
    case True
    then show ?thesis using False loop by (simp add: bitmap_complement_def bitmap_complement_words_def Let_def BITS_TO_LONGS_eq)
  next
    case nz: False
    have len: "?lim < length (st d)" "?lim < length (st p)"
      using nz words_in [OF assms(2), of ?lim] words_in [OF assms(3), of ?lim] by (simp_all add: BITS_TO_LONGS_eq)
    then have "rd (with_words st d ?lim ?f p) ?lim = Some (st p ! ?lim)" by (simp add: rd_eq with_words_nth)
    moreover have "bm_wr (with_words st d ?lim ?f) d ?lim (NOT (st p ! ?lim) AND LAST_WORD_MASK n) = Some (with_words st d (Suc ?lim) ?f)"
      using with_words_step [of ?lim st d ?f] len by simp
    ultimately show ?thesis
      using False nz loop by (simp add: bitmap_complement_def bitmap_complement_words_def Let_def BITS_TO_LONGS_eq)
  qed
qed

section \<open>Properties\<close>

text \<open>The object \<open>d\<close> now stands for the set, the others are as they were.\<close>

definition holds_set :: "nat \<Rightarrow> bms \<Rightarrow> nat \<Rightarrow> bms \<Rightarrow> nat set \<Rightarrow> bool" where
  "holds_set n st d st' S \<longleftrightarrow> bset n (st' d) = S \<and> length (st' d) = length (st d) \<and> (\<forall>p. p \<noteq> d \<longrightarrow> st' p = st p)"

lemma holds_set_words:
  assumes "n \<le> 64 * length (st d)" and "\<And>i. i < n \<Longrightarrow> bit (f (i div 64)) (i mod 64) \<longleftrightarrow> i \<in> S" and "S \<subseteq> {..<n}"
  shows "holds_set n st d (with_words st d (BITS_TO_LONGS n) f) S"
proof -
  have "tbit (with_words st d (BITS_TO_LONGS n) f d) i \<longleftrightarrow> i \<in> S" if "i < n" for i
    using tbit_with_words [OF below_words [OF that], of st d f] assms(2) that by blast
  then have "bset n (with_words st d (BITS_TO_LONGS n) f d) = S" using assms(3) by (auto simp: bset_def)
  moreover have "BITS_TO_LONGS n \<le> length (st d)" using assms(1) by (simp add: BITS_TO_LONGS_le)
  ultimately show ?thesis by (simp add: holds_set_def) (simp add: with_words_def)
qed

text \<open>
  The tests answer for the sets of bits below the size, whatever the unused bits of the
  last word are, and the weight is the number of elements; with a size the compiler knows and
  without.
\<close>

theorem bitmap_tests_on_sets:
  assumes "0 < n" and "n \<le> 64 * length m" and "n \<le> 64 * length m'"
  shows "bitmap_empty c m n = Some (bset n m = {}) \<and> bitmap_full c m n = Some (bset n m = {..<n})
    \<and> bitmap_equal c m m' n = Some (bset n m = bset n m') \<and> bitmap_intersects c m m' n = Some (bset n m \<inter> bset n m' \<noteq> {})
    \<and> bitmap_subset c m m' n = Some (bset n m \<subseteq> bset n m') \<and> bitmap_weight c m n = Some (card (bset n m))"
proof (cases "small_const_nbits c n")
  case False
  then show ?thesis
    using bitmap_tests_words [OF assms(2,3)] bitmap_weight_words_card [OF assms(2)]
    by (simp add: bitmap_empty_def bitmap_full_def bitmap_equal_def bitmap_intersects_def bitmap_subset_def bitmap_weight_def)
next
  case True
  then have n: "n \<le> 64" by (simp add: small_const_nbits_def)
  have ne: "0 < length m" "0 < length m'" using assms by auto
  note r = rd_eq [OF ne(1)] rd_eq [OF ne(2)]
  have mk: "n mod 64 = 0 \<or> j < n mod 64 \<longleftrightarrow> j < n" if "j < 64" for j
    using that n assms(1) by (cases "n = 64") auto
  have some: "w AND LAST_WORD_MASK n \<noteq> 0 \<longleftrightarrow> (\<exists>i < n. bit w i)" for w
    unfolding nonzero_masked using mk n by (meson less_le_trans)
  have t: "tbit w i = bit (w ! 0) i" if "i < n" for w :: "ulong list" and i
    using that n by (simp add: tbit_def)
  have in1: "i \<in> bset n w \<longleftrightarrow> i < n \<and> bit (w ! 0) i" for w i using t by auto
  have weight: "unat (hweight_long (m ! 0 AND LAST_WORD_MASK n)) = card (bset n m)"
  proof -
    have "bit (m ! 0 AND LAST_WORD_MASK n) j \<longleftrightarrow> j \<in> bset n m" if "j < 64" for j
      using mk [OF that] that n by (auto simp: bit_simps in1 simp del: bset_iff)
    then have "{j. j < 64 \<and> bit (m ! 0 AND LAST_WORD_MASK n) j} = bset n m" using n by (auto simp del: bset_iff simp: in1)
    then show ?thesis by (simp add: unat_hweight_long)
  qed
  show ?thesis
    unfolding bitmap_empty_def bitmap_full_def bitmap_equal_def bitmap_intersects_def bitmap_subset_def bitmap_weight_def
    using True r weight by (simp add: some set_eq_iff subset_iff in1 bit_simps del: bset_iff) (use n in \<open>auto dest: less_le_trans\<close>)
qed

theorem bitmap_tests_on_sets_witness:
  "bitmap_weight False [5, 1] 65 = Some (card (bset 65 [5, 1]))"
  using bitmap_tests_on_sets [of 65 "[5, 1]" "[5, 1]" False] by simp

text \<open>
  C11. The whole-bitmap operations compute the set operations on the bits below the size and
  touch no other object; the destination may be one of the sources. The result of
  \<open>bitmap_and\<close> and \<open>bitmap_andnot\<close> says whether any bit of the words is set, unused bits of
  the last word included, although the comment at the top of \<open>bitmap.c\<close> says these are
  filtered out of every result.
\<close>

theorem bitmap_operations_on_sets:
  assumes "0 < n" and "n \<le> 64 * length (st d)" and "n \<le> 64 * length (st p)" and "n \<le> 64 * length (st q)"
  shows "(\<exists>st'. bitmap_zero c st d n = Some st' \<and> holds_set n st d st' {})
    \<and> (\<exists>st'. bitmap_fill c st d n = Some st' \<and> holds_set n st d st' {..<n})
    \<and> (\<exists>st'. bitmap_copy c st d p n = Some st' \<and> holds_set n st d st' (bset n (st p)))
    \<and> (\<exists>st'. bitmap_complement c st d p n = Some st' \<and> holds_set n st d st' ({..<n} - bset n (st p)))
    \<and> (\<exists>st'. bitmap_or c st d p q n = Some st' \<and> holds_set n st d st' (bset n (st p) \<union> bset n (st q)))
    \<and> (\<exists>st'. bitmap_xor c st d p q n = Some st' \<and> holds_set n st d st' (bset n (st p) - bset n (st q) \<union> (bset n (st q) - bset n (st p))))
    \<and> (\<exists>r st'. bitmap_and c st d p q n = Some (r, st') \<and> holds_set n st d st' (bset n (st p) \<inter> bset n (st q))
         \<and> (r \<longleftrightarrow> bset (64 * BITS_TO_LONGS n) (st p) \<inter> bset (64 * BITS_TO_LONGS n) (st q) \<noteq> {}))
    \<and> (\<exists>r st'. bitmap_andnot c st d p q n = Some (r, st') \<and> holds_set n st d st' (bset n (st p) - bset n (st q))
         \<and> (r \<longleftrightarrow> bset (64 * BITS_TO_LONGS n) (st p) - bset (64 * BITS_TO_LONGS n) (st q) \<noteq> {}))"
proof (intro conjI)
  note w = bitmap_or_words_eq [OF assms, of c]
  have any: "(\<exists>k < BITS_TO_LONGS n. g k \<noteq> 0) \<longleftrightarrow> (\<exists>i < 64 * BITS_TO_LONGS n. bit (g (i div 64)) (i mod 64))" for g :: "nat \<Rightarrow> ulong"
    using some_bit_words [of "64 * BITS_TO_LONGS n" "\<lambda>k. g k \<noteq> 0" g] by auto
  show "\<exists>st'. bitmap_zero c st d n = Some st' \<and> holds_set n st d st' {}"
    using bitmap_zero_eq [of n c st d] assms by (auto intro!: holds_set_words)
  show "\<exists>st'. bitmap_fill c st d n = Some st' \<and> holds_set n st d st' {..<n}"
  proof -
    have "bit (if i div 64 = BITS_TO_LONGS n - 1 then LAST_WORD_MASK n else - 1) (i mod 64)" if "i < n" for i
    proof -
      have "i mod 64 < n mod 64" if "n mod 64 \<noteq> 0" "i div 64 = n div 64"
        using that \<open>i < n\<close> by (metis div_mult_mod_eq nat_add_left_cancel_less)
      then show ?thesis by (auto simp: bit_simps BITS_TO_LONGS_eq)
    qed
    then show ?thesis using bitmap_fill_eq [of n st d c] assms by (auto intro!: holds_set_words)
  qed
  show "\<exists>st'. bitmap_copy c st d p n = Some st' \<and> holds_set n st d st' (bset n (st p))"
    using bitmap_copy_eq [of n st d p c] assms by (auto intro!: holds_set_words simp: tbit_def)
  show "\<exists>st'. bitmap_complement c st d p n = Some st' \<and> holds_set n st d st' ({..<n} - bset n (st p))"
  proof -
    have "bit (if i div 64 = n div 64 then NOT (st p ! (i div 64)) AND LAST_WORD_MASK n else NOT (st p ! (i div 64))) (i mod 64)
        \<longleftrightarrow> i \<in> {..<n} - bset n (st p)" if "i < n" for i
    proof -
      have "n mod 64 = 0 \<or> i mod 64 < n mod 64" if "i div 64 = n div 64"
        using that \<open>i < n\<close> by (metis div_mult_mod_eq nat_add_left_cancel_less)
      then show ?thesis using that by (auto simp: bit_simps tbit_def)
    qed
    then show ?thesis using bitmap_complement_eq [of n st d p c] assms by (auto intro!: holds_set_words)
  qed
  show "\<exists>st'. bitmap_or c st d p q n = Some st' \<and> holds_set n st d st' (bset n (st p) \<union> bset n (st q))"
    using w(1) assms by (auto intro!: holds_set_words simp: tbit_def bit_simps)
  show "\<exists>st'. bitmap_xor c st d p q n = Some st' \<and> holds_set n st d st' (bset n (st p) - bset n (st q) \<union> (bset n (st q) - bset n (st p)))"
    using w(2) assms by (auto intro!: holds_set_words simp: tbit_def bit_simps)
  show "\<exists>r st'. bitmap_and c st d p q n = Some (r, st') \<and> holds_set n st d st' (bset n (st p) \<inter> bset n (st q))
         \<and> (r \<longleftrightarrow> bset (64 * BITS_TO_LONGS n) (st p) \<inter> bset (64 * BITS_TO_LONGS n) (st q) \<noteq> {})"
  proof -
    obtain r where r: "bitmap_and c st d p q n = Some (r, with_words st d (BITS_TO_LONGS n) (\<lambda>k. st p ! k AND st q ! k))"
      "r \<longleftrightarrow> (\<exists>k < BITS_TO_LONGS n. st p ! k AND st q ! k \<noteq> 0)" using w(3) by blast
    have "holds_set n st d (with_words st d (BITS_TO_LONGS n) (\<lambda>k. st p ! k AND st q ! k)) (bset n (st p) \<inter> bset n (st q))"
      using assms by (auto intro!: holds_set_words simp: tbit_def bit_simps)
    moreover have "r \<longleftrightarrow> bset (64 * BITS_TO_LONGS n) (st p) \<inter> bset (64 * BITS_TO_LONGS n) (st q) \<noteq> {}"
      unfolding r(2) any by (auto simp: bset_def tbit_def bit_simps)
    ultimately show ?thesis using r(1) by blast
  qed
  show "\<exists>r st'. bitmap_andnot c st d p q n = Some (r, st') \<and> holds_set n st d st' (bset n (st p) - bset n (st q))
         \<and> (r \<longleftrightarrow> bset (64 * BITS_TO_LONGS n) (st p) - bset (64 * BITS_TO_LONGS n) (st q) \<noteq> {})"
  proof -
    obtain r where r: "bitmap_andnot c st d p q n = Some (r, with_words st d (BITS_TO_LONGS n) (\<lambda>k. st p ! k AND NOT (st q ! k)))"
      "r \<longleftrightarrow> (\<exists>k < BITS_TO_LONGS n. st p ! k AND NOT (st q ! k) \<noteq> 0)" using w(4) by blast
    have "holds_set n st d (with_words st d (BITS_TO_LONGS n) (\<lambda>k. st p ! k AND NOT (st q ! k))) (bset n (st p) - bset n (st q))"
      using assms by (auto intro!: holds_set_words simp: tbit_def bit_simps)
    moreover have "r \<longleftrightarrow> bset (64 * BITS_TO_LONGS n) (st p) - bset (64 * BITS_TO_LONGS n) (st q) \<noteq> {}"
      unfolding r(2) any by (auto simp: bset_def tbit_def bit_simps)
    ultimately show ?thesis using r(1) by blast
  qed
qed

theorem bitmap_operations_on_sets_witness:
  "\<exists>r st'. bitmap_and False (\<lambda>p. [2]) 0 1 2 1 = Some (r, st') \<and> r \<and> bset 1 (st' 0) = {}"
proof -
  have "1 \<in> bset (64 * BITS_TO_LONGS 1) [2] \<inter> bset (64 * BITS_TO_LONGS 1) [2]"
    by (simp add: BITS_TO_LONGS_def tbit_def)
  moreover have "bset 1 [2] \<inter> bset 1 [2] = {}" by (auto simp: tbit_def)
  ultimately show ?thesis
    using bitmap_operations_on_sets [of 1 "\<lambda>p. [2]" 0 1 2 False] unfolding holds_set_def by fastforce
qed

end
