(* ===== verification/BitmapArea.thy ===== *)
theory BitmapArea
  imports Bitmap
begin

text \<open>
  \<open>src/src/bitmap.c\<close>: setting and clearing a span of bits, the search for a free area and
  the regions of a power of two. Positions and lengths are natural numbers, as the callers use
  them; they stay far below the range of the C types.
\<close>

section \<open>Spans\<close>

text \<open>\<open>bitmap_set\<close> and \<open>bitmap_clear\<close> differ in the operator that applies the mask.\<close>

partial_function (option) span_loop :: "(ulong \<Rightarrow> ulong \<Rightarrow> ulong) \<Rightarrow> ulong list \<Rightarrow> nat \<Rightarrow> nat \<Rightarrow> nat \<Rightarrow> ulong
    \<Rightarrow> (ulong list \<times> nat \<times> nat \<times> ulong) option" where
  "span_loop f m p nr bits_to_set mask_to_set =
     (if bits_to_set \<le> nr then do {
        w \<leftarrow> rd m p;
        m \<leftarrow> wr m p (f w mask_to_set);
        span_loop f m (p + 1) (nr - bits_to_set) 64 (- 1) }
      else Some (m, p, nr, mask_to_set))"

definition span_op :: "(ulong \<Rightarrow> ulong \<Rightarrow> ulong) \<Rightarrow> ulong list \<Rightarrow> nat \<Rightarrow> nat \<Rightarrow> ulong list option" where
  "span_op f m start nr = do {
     let sz = start + nr;
     (m, p, nr, mask_to_set) \<leftarrow> span_loop f m (start div 64) nr (64 - start mod 64) (FIRST_WORD_MASK start);
     if nr \<noteq> 0 then do { w \<leftarrow> rd m p; wr m p (f w (mask_to_set AND LAST_WORD_MASK sz)) }
     else Some m }"

definition bitmap_set :: "ulong list \<Rightarrow> nat \<Rightarrow> nat \<Rightarrow> ulong list option" where
  "bitmap_set m start nr = span_op (OR) m start nr"

definition bitmap_clear :: "ulong list \<Rightarrow> nat \<Rightarrow> nat \<Rightarrow> ulong list option" where
  "bitmap_clear m start nr = span_op (\<lambda>w k. w AND NOT k) m start nr"

section \<open>Free areas\<close>

definition align_mask :: "nat \<Rightarrow> nat \<Rightarrow> nat" where "align_mask x m = (x + m) - ((x + m) AND m)"

partial_function (option) bitmap_find_next_zero_area :: "ulong list \<Rightarrow> nat \<Rightarrow> nat \<Rightarrow> nat \<Rightarrow> nat \<Rightarrow> nat option" where
  "bitmap_find_next_zero_area m sz start nr almask = do {
     ind \<leftarrow> find_next_zero_bit m sz start;
     let ind = align_mask ind almask;
     let fin = ind + nr;
     if sz < fin then Some fin
     else do {
       i \<leftarrow> find_next_bit m fin ind;
       if i < fin then bitmap_find_next_zero_area m sz (i + 1) nr almask
       else Some ind } }"

section \<open>Regions\<close>

datatype reg_op_kind = REG_OP_ISFREE | REG_OP_ALLOC | REG_OP_RELEASE

definition reg_mask :: "nat \<Rightarrow> nat \<Rightarrow> ulong" where
  "reg_mask nbitsinlong offset = (let mk = push_bit (nbitsinlong - 1) 1; mk = mk + (mk - 1) in push_bit offset mk)"

definition reg_op :: "ulong list \<Rightarrow> nat \<Rightarrow> nat \<Rightarrow> reg_op_kind \<Rightarrow> (int \<times> ulong list) option" where
  "reg_op m pos order kind = do {
     let nbits_reg = push_bit order 1;
     let ind = pos div 64;
     let offset = pos - ind * 64;
     let nlongs_reg = BITS_TO_LONGS nbits_reg;
     let nbitsinlong = min nbits_reg 64;
     let mk = reg_mask nbitsinlong offset;
     case kind of
       REG_OP_ISFREE \<Rightarrow> do {
         hit \<leftarrow> any_range 0 nlongs_reg (\<lambda>i. do { w \<leftarrow> rd m (ind + i); Some (w AND mk \<noteq> 0) });
         Some (if hit then 0 else 1, m) }
     | REG_OP_ALLOC \<Rightarrow> do {
         m \<leftarrow> for_range 0 nlongs_reg (\<lambda>i m. do { w \<leftarrow> rd m (ind + i); wr m (ind + i) (w OR mk) }) m;
         Some (0, m) }
     | REG_OP_RELEASE \<Rightarrow> do {
         m \<leftarrow> for_range 0 nlongs_reg (\<lambda>i m. do { w \<leftarrow> rd m (ind + i); wr m (ind + i) (w AND NOT mk) }) m;
         Some (0, m) } }"

lemma region_shrinks: "pos + 2 ^ order \<le> bits \<Longrightarrow> bits - (pos + 2 ^ order) < bits - (pos :: nat)"
proof -
  assume le: "pos + 2 ^ order \<le> bits"
  have "0 < (2 :: nat) ^ order" by simp
  with le show ?thesis by linarith
qed

function find_free_loop :: "ulong list \<Rightarrow> nat \<Rightarrow> nat \<Rightarrow> nat \<Rightarrow> (int \<times> ulong list) option" where
  "find_free_loop m bits order pos =
     (let fin = pos + push_bit order 1 in
      if fin \<le> bits then do {
        (free, m1) \<leftarrow> reg_op m pos order REG_OP_ISFREE;
        if free = 0 then find_free_loop m bits order fin
        else do { (r, m) \<leftarrow> reg_op m pos order REG_OP_ALLOC; Some (int pos, m) } }
      else Some (- ENOMEM, m))"
  by pat_completeness auto
termination
  by (relation "measure (\<lambda>(m, bits, order, pos). bits - pos)") (auto simp: push_bit_eq_mult region_shrinks)

declare find_free_loop.simps [simp del]

definition bitmap_find_free_region :: "ulong list \<Rightarrow> nat \<Rightarrow> nat \<Rightarrow> (int \<times> ulong list) option" where
  "bitmap_find_free_region m bits order = find_free_loop m bits order 0"

definition bitmap_release_region :: "ulong list \<Rightarrow> nat \<Rightarrow> nat \<Rightarrow> ulong list option" where
  "bitmap_release_region m pos order = map_option snd (reg_op m pos order REG_OP_RELEASE)"

definition bitmap_allocate_region :: "ulong list \<Rightarrow> nat \<Rightarrow> nat \<Rightarrow> (int \<times> ulong list) option" where
  "bitmap_allocate_region m pos order = do {
     (free, m1) \<leftarrow> reg_op m pos order REG_OP_ISFREE;
     if free = 0 then Some (- EBUSY, m)
     else do { (r, m) \<leftarrow> reg_op m pos order REG_OP_ALLOC; Some (0, m) } }"

text \<open>\<open>htole64\<close> on a little-endian machine; a size that is no multiple of 64 loses its tail.\<close>

definition htole64 :: "ulong \<Rightarrow> ulong" where "htole64 w = w"

definition bitmap_copy_le :: "bms \<Rightarrow> nat \<Rightarrow> nat \<Rightarrow> nat \<Rightarrow> bms option" where
  "bitmap_copy_le st dst src nbits =
     for_range 0 (nbits div 64) (\<lambda>i st. do { w \<leftarrow> rd (st src) i; bm_wr st dst i (htole64 w) }) st"

section \<open>Filling the bits a mask selects\<close>

text \<open>\<open>f\<close> gives the bits of the mask the value \<open>v\<close> and keeps the others.\<close>

definition fills :: "(ulong \<Rightarrow> ulong \<Rightarrow> ulong) \<Rightarrow> bool \<Rightarrow> bool" where
  "fills f v \<longleftrightarrow> (\<forall>w mk j. j < 64 \<longrightarrow> (bit (f w mk) j \<longleftrightarrow> (if bit mk j then v else bit w j)))"

lemma fills_or: "fills (OR) True" by (auto simp: fills_def bit_simps)

lemma fills_andnot: "fills (\<lambda>w k. w AND NOT k) False" by (auto simp: fills_def bit_simps)

lemma fillsD: "fills f v \<Longrightarrow> j < 64 \<Longrightarrow> bit (f w mk) j \<longleftrightarrow> (if bit mk j then v else bit w j)"
  by (simp add: fills_def)

lemma tbit_word_update: "p < length m \<Longrightarrow> tbit (m[p := w]) i \<longleftrightarrow> (if i div 64 = p then bit w (i mod 64) else tbit m i)" for m :: "ulong list"
  by (simp add: tbit_def nth_list_update)

lemma word_range: "i div 64 = p \<longleftrightarrow> 64 * p \<le> i \<and> i < 64 * p + 64" for i p :: nat
  by (auto simp: div_nat_eqI)

lemma span_word:
  assumes "fills f v" and "p < length m" and "\<And>j. j < 64 \<Longrightarrow> bit mk j \<longleftrightarrow> a \<le> j \<and> j < b" and "b \<le> 64"
  shows "tbit (m[p := f (m ! p) mk]) i \<longleftrightarrow> (if 64 * p + a \<le> i \<and> i < 64 * p + b then v else tbit m i)"
proof (cases "i div 64 = p")
  case True
  then have "i = 64 * p + i mod 64" by (metis mult_div_mod_eq)
  then have "64 * p + a \<le> i \<and> i < 64 * p + b \<longleftrightarrow> a \<le> i mod 64 \<and> i mod 64 < b" by linarith
  then show ?thesis
    using True fillsD [OF assms(1), of "i mod 64"] assms(2,3) by (simp add: tbit_word_update) (simp add: tbit_def)
next
  case False
  then show ?thesis using assms(2,4) by (auto simp: tbit_word_update word_range)
qed

lemma span_loop_fills:
  assumes "fills f v" and "s < 64" and "\<And>j. j < 64 \<Longrightarrow> bit mk j \<longleftrightarrow> s \<le> j" and "64 * p + s + nr \<le> 64 * length m"
  shows "\<exists>m' p' s' nr' mk'. span_loop f m p nr (64 - s) mk = Some (m', p', nr', mk') \<and> length m' = length m
    \<and> 64 * p' + s' + nr' = 64 * p + s + nr \<and> s' + nr' < 64 \<and> (\<forall>j < 64. bit mk' j \<longleftrightarrow> s' \<le> j)
    \<and> (\<forall>i. tbit m' i \<longleftrightarrow> (if 64 * p + s \<le> i \<and> i < 64 * p' + s' then v else tbit m i)) \<and> 64 * p + s \<le> 64 * p' + s'"
  using assms(2-4)
proof (induction nr arbitrary: m p s mk rule: less_induct)
  case (less nr)
  show ?case
  proof (cases "64 - s \<le> nr")
    case False
    then have "span_loop f m p nr (64 - s) mk = Some (m, p, nr, mk)" by (simp add: span_loop.simps)
    then show ?thesis using False less.prems
      by (intro exI [of _ m] exI [of _ p] exI [of _ s] exI [of _ nr] exI [of _ mk]) auto
  next
    case True
    have p: "p < length m" using True less.prems by simp
    let ?m = "m[p := f (m ! p) mk]"
    have "\<exists>m' p' s' nr' mk'. span_loop f ?m (Suc p) (nr - (64 - s)) (64 - 0) (- 1) = Some (m', p', nr', mk') \<and> length m' = length ?m
      \<and> 64 * p' + s' + nr' = 64 * Suc p + 0 + (nr - (64 - s)) \<and> s' + nr' < 64 \<and> (\<forall>j < 64. bit mk' j \<longleftrightarrow> s' \<le> j)
      \<and> (\<forall>i. tbit m' i \<longleftrightarrow> (if 64 * Suc p + 0 \<le> i \<and> i < 64 * p' + s' then v else tbit ?m i)) \<and> 64 * Suc p + 0 \<le> 64 * p' + s'"
      by (rule less.IH) (use True less.prems in auto)
    then obtain m' p' s' nr' mk' where r: "span_loop f ?m (Suc p) (nr - (64 - s)) 64 (- 1) = Some (m', p', nr', mk')"
        "length m' = length m" "64 * p' + s' + nr' = 64 * Suc p + (nr - (64 - s))" "s' + nr' < 64" "\<forall>j < 64. bit mk' j \<longleftrightarrow> s' \<le> j"
        "\<And>i. tbit m' i \<longleftrightarrow> (if 64 * Suc p \<le> i \<and> i < 64 * p' + s' then v else tbit ?m i)" "64 * Suc p \<le> 64 * p' + s'"
      by auto
    have w: "tbit ?m i \<longleftrightarrow> (if 64 * p + s \<le> i \<and> i < 64 * p + 64 then v else tbit m i)" for i
      by (rule span_word [OF assms(1) p]) (use less.prems in auto)
    have "span_loop f m p nr (64 - s) mk = Some (m', p', nr', mk')"
      using True p r(1) by (subst span_loop.simps) (simp add: rd_eq wr_eq)
    moreover have "tbit m' i \<longleftrightarrow> (if 64 * p + s \<le> i \<and> i < 64 * p' + s' then v else tbit m i)" for i
      unfolding r(6) w using r(7) less.prems(1) by auto
    moreover have "64 * p' + s' + nr' = 64 * p + s + nr" using r(3) True less.prems(1) by simp
    ultimately show ?thesis using r(2,4,5,7) less.prems(1) by fastforce
  qed
qed

lemma span_op_fills:
  assumes "fills f v" and "start + nr \<le> 64 * length m"
  shows "\<exists>m'. span_op f m start nr = Some m' \<and> length m' = length m
    \<and> (\<forall>i. tbit m' i \<longleftrightarrow> (if start \<le> i \<and> i < start + nr then v else tbit m i))"
proof -
  have s: "64 * (start div 64) + start mod 64 = start" by simp
  have "\<exists>m' p' s' nr' mk'. span_loop f m (start div 64) nr (64 - start mod 64) (FIRST_WORD_MASK start) = Some (m', p', nr', mk')
    \<and> length m' = length m \<and> 64 * p' + s' + nr' = 64 * (start div 64) + start mod 64 + nr \<and> s' + nr' < 64 \<and> (\<forall>j < 64. bit mk' j \<longleftrightarrow> s' \<le> j)
    \<and> (\<forall>i. tbit m' i \<longleftrightarrow> (if 64 * (start div 64) + start mod 64 \<le> i \<and> i < 64 * p' + s' then v else tbit m i))
    \<and> 64 * (start div 64) + start mod 64 \<le> 64 * p' + s'"
    by (rule span_loop_fills [OF assms(1)]) (use assms(2) in \<open>auto simp: bit_FIRST\<close>)
  then obtain m' p' s' nr' mk' where r: "span_loop f m (start div 64) nr (64 - start mod 64) (FIRST_WORD_MASK start) = Some (m', p', nr', mk')"
      "length m' = length m" "64 * p' + s' + nr' = start + nr" "s' + nr' < 64" "\<forall>j < 64. bit mk' j \<longleftrightarrow> s' \<le> j"
      "\<And>i. tbit m' i \<longleftrightarrow> (if start \<le> i \<and> i < 64 * p' + s' then v else tbit m i)" "start \<le> 64 * p' + s'"
    unfolding s by auto
  show ?thesis
  proof (cases "nr' = 0")
    case True
    then show ?thesis using r by (simp add: span_op_def Let_def)
  next
    case False
    let ?mk = "mk' AND LAST_WORD_MASK (start + nr)"
    have e: "(start + nr) mod 64 = s' + nr'" using r(3,4) by (metis add.assoc mod_less mod_mult_self4)
    have mk: "bit ?mk j \<longleftrightarrow> s' \<le> j \<and> j < s' + nr'" if "j < 64" for j
      using that r(5) False e by (auto simp: bit_simps)
    have p: "p' < length m'" using assms(2) r(2,3) False by simp
    have "span_op f m start nr = Some (m'[p' := f (m' ! p') ?mk])"
      using False r(1) p by (simp add: span_op_def Let_def rd_eq wr_eq)
    moreover have "tbit (m'[p' := f (m' ! p') ?mk]) i \<longleftrightarrow> (if start \<le> i \<and> i < start + nr then v else tbit m i)" for i
      using span_word [OF assms(1) p mk, of i] r(3,4,6,7) by auto
    ultimately show ?thesis using r(2) by simp
  qed
qed


section \<open>The search for an area\<close>

text \<open>An aligned run of \<open>nr\<close> clear bits inside the bitmap.\<close>

definition free_area :: "ulong list \<Rightarrow> nat \<Rightarrow> nat \<Rightarrow> nat \<Rightarrow> nat \<Rightarrow> bool" where
  "free_area m sz nr k a \<longleftrightarrow> 2 ^ k dvd a \<and> a + nr \<le> sz \<and> (\<forall>i. a \<le> i \<longrightarrow> i < a + nr \<longrightarrow> \<not> tbit m i)"

lemma align_mask_eq: "align_mask x (mask k) = 2 ^ k * ((x + (mask k)) div 2 ^ k)"
proof -
  have "(x + (mask k)) AND (mask k) = (x + (mask k)) mod 2 ^ k"
    by (simp add: take_bit_eq_mask [symmetric] take_bit_eq_mod)
  then show ?thesis by (simp add: align_mask_def minus_mod_eq_mult_div)
qed

lemma align_mask_least:
  shows "x \<le> align_mask x (mask k)" and "2 ^ k dvd align_mask x (mask k)"
    and "2 ^ k dvd a \<Longrightarrow> x \<le> a \<Longrightarrow> align_mask x (mask k) \<le> a"
proof -
  let ?p = "2 ^ k :: nat"
  have p: "0 < ?p" and mk: "mask k + 1 = ?p" by (simp_all add: mask_eq_exp_minus_1)
  have d: "?p * ((x + (mask k)) div ?p) + (x + (mask k)) mod ?p = x + (mask k)" by simp
  have "(x + (mask k)) mod ?p < ?p" using p by (rule mod_less_divisor)
  with d mk show "x \<le> align_mask x (mask k)" unfolding align_mask_eq by linarith
  show "?p dvd align_mask x (mask k)" unfolding align_mask_eq by simp
  assume "?p dvd a" and x: "x \<le> a"
  then obtain c where c: "a = ?p * c" by (auto elim: dvdE)
  have "x + mask k < ?p * Suc c" using x mk unfolding c by simp
  then have "(x + (mask k)) div ?p < Suc c" using p by (simp add: less_mult_imp_div_less mult.commute)
  then have "?p * ((x + (mask k)) div ?p) \<le> ?p * c" by (intro mult_le_mono2) simp
  then show "align_mask x (mask k) \<le> a" unfolding align_mask_eq c .
qed

lemma find_area_correct:
  assumes "sz \<le> 64 * length m" and "0 < nr"
  shows "\<exists>r. bitmap_find_next_zero_area m sz start nr (mask k) = Some r \<and>
    (r + nr \<le> sz \<and> start \<le> r \<and> free_area m sz nr k r \<and> (\<forall>a. start \<le> a \<longrightarrow> free_area m sz nr k a \<longrightarrow> r \<le> a)
     \<or> sz < r \<and> (\<forall>a. start \<le> a \<longrightarrow> \<not> free_area m sz nr k a))"
proof (induction "sz - start" arbitrary: start rule: less_induct)
  case less
  let ?z = "next_pos (\<lambda>i. \<not> tbit m i) sz start"
  let ?al = "align_mask ?z (mask k)"
  have z: "find_next_zero_bit m sz start = Some ?z" by (rule find_next_zero_bit_correct [OF assms(1)])
  have below: "?al \<le> a" if "start \<le> a" "free_area m sz nr k a" for a
  proof -
    have a: "2 ^ k dvd a" "a < sz" "\<not> tbit m a" using that(2) assms(2) by (auto simp: free_area_def)
    have "?z \<le> a"
    proof (rule ccontr)
      assume "\<not> ?z \<le> a"
      then show False using next_pos_none [OF that(1), of "\<lambda>i. \<not> tbit m i" sz] a by simp
    qed
    then show ?thesis using align_mask_least(3) a(1) by blast
  qed
  have zl: "?z \<le> ?al" by (rule align_mask_least(1))
  show ?case
  proof (cases "sz < ?al + nr")
    case True
    have "bitmap_find_next_zero_area m sz start nr (mask k) = Some (?al + nr)"
      using True by (subst bitmap_find_next_zero_area.simps) (simp add: z Let_def)
    moreover have "\<not> free_area m sz nr k a" if "start \<le> a" for a
      using below [OF that] True by (auto simp: free_area_def)
    ultimately show ?thesis using True by blast
  next
    case False
    let ?i = "next_pos (tbit m) (?al + nr) ?al"
    have "?z < sz" using False zl assms(2) by simp
    then have sz: "start \<le> ?z" using next_pos_bounds by blast
    have i: "find_next_bit m (?al + nr) ?al = Some ?i"
      by (rule find_next_bit_correct) (use False assms(1) in simp)
    show ?thesis
    proof (cases "?i < ?al + nr")
      case True
      then have b: "?al \<le> ?i" "tbit m ?i" using next_pos_bounds by blast+
      have run: "bitmap_find_next_zero_area m sz start nr (mask k) = bitmap_find_next_zero_area m sz (?i + 1) nr (mask k)"
        using False True by (subst bitmap_find_next_zero_area.simps) (simp add: z i Let_def)
      have "sz - (?i + 1) < sz - start" using b(1) sz zl True False by linarith
      note IH = less [OF this]
      have skip: "?i + 1 \<le> a" if "start \<le> a" "free_area m sz nr k a" for a
      proof (rule ccontr)
        assume "\<not> ?i + 1 \<le> a"
        then show False using below [OF that] that(2) True b(2) by (auto simp: free_area_def)
      qed
      have st: "start \<le> ?i + 1" using b(1) sz zl by linarith
      show ?thesis unfolding run using IH skip st by (meson order_trans)
    next
      case nf: False
      have "bitmap_find_next_zero_area m sz start nr (mask k) = Some ?al"
        using False nf by (subst bitmap_find_next_zero_area.simps) (simp add: z i Let_def)
      moreover have "free_area m sz nr k ?al"
        using False nf align_mask_least(2) next_pos_none [of ?al _ "tbit m" "?al + nr"] next_pos_le [of "tbit m" "?al + nr" ?al]
        by (auto simp: free_area_def)
      ultimately show ?thesis using below False sz zl by (meson le_trans not_less)
    qed
  qed
qed

section \<open>Regions\<close>

lemma bit_reg_mask:
  assumes "0 < n" and "n \<le> 64" and "j < 64"
  shows "bit (reg_mask n off) j \<longleftrightarrow> off \<le> j \<and> j < off + n"
proof -
  have "push_bit (n - 1) 1 + (push_bit (n - 1) 1 - 1) = (mask n :: ulong)"
  proof -
    obtain k where k: "n = Suc k" using assms(1) by (cases n) auto
    have "mask (Suc k) = (2 * 2 ^ k - 1 :: ulong)" by (simp add: mask_eq_exp_minus_1)
    then show ?thesis unfolding k by (simp add: push_bit_of_1)
  qed
  then show ?thesis using assms by (auto simp: reg_mask_def Let_def bit_simps)
qed

definition mask_words :: "(ulong \<Rightarrow> ulong \<Rightarrow> ulong) \<Rightarrow> ulong list \<Rightarrow> nat \<Rightarrow> nat \<Rightarrow> ulong \<Rightarrow> ulong list" where
  "mask_words f m p n mk = map (\<lambda>q. if p \<le> q \<and> q < p + n then f (m ! q) mk else m ! q) [0..<length m]"

lemma mask_words_loop:
  assumes "p + n \<le> length m"
  shows "for_range 0 n (\<lambda>i m. do { w \<leftarrow> rd m (p + i); wr m (p + i) (f w mk) }) m = Some (mask_words f m p n mk)"
proof -
  have "\<exists>s. for_range 0 n (\<lambda>i m. do { w \<leftarrow> rd m (p + i); wr m (p + i) (f w mk) }) m = Some s \<and> s = mask_words f m p n mk"
  proof (rule for_range_rule)
    show "m = mask_words f m p 0 mk" by (intro nth_equalityI) (auto simp: mask_words_def)
    fix i s assume i: "i < n" "s = mask_words f m p i mk"
    have len: "p + i < length s" using i assms by (simp add: mask_words_def)
    have "s ! (p + i) = m ! (p + i)" using i assms by (simp add: mask_words_def)
    moreover have "s[p + i := f (m ! (p + i)) mk] = mask_words f m p (Suc i) mk"
      using i assms by (intro nth_equalityI) (auto simp: mask_words_def nth_list_update)
    ultimately show "\<exists>s'. do { w \<leftarrow> rd s (p + i); wr s (p + i) (f w mk) } = Some s' \<and> s' = mask_words f m p (Suc i) mk"
      using len by (simp add: rd_eq wr_eq)
  qed simp
  then show ?thesis by simp
qed

text \<open>A region that starts at a multiple of its size lies in one word or covers whole words.\<close>

lemma region_shape:
  fixes pos :: nat
  assumes "2 ^ k dvd pos"
  shows "pos mod 64 + min (2 ^ k) 64 \<le> 64" and "64 * BITS_TO_LONGS (2 ^ k) = 2 ^ k \<and> pos mod 64 = 0 \<or> BITS_TO_LONGS (2 ^ k) = 1 \<and> 2 ^ k \<le> (64 :: nat)"
proof -
  have "(pos mod 64 + min (2 ^ k) 64 \<le> 64) \<and> (64 * BITS_TO_LONGS (2 ^ k) = 2 ^ k \<and> pos mod 64 = 0 \<or> BITS_TO_LONGS (2 ^ k) = 1 \<and> 2 ^ k \<le> (64 :: nat))"
  proof (cases "6 \<le> k")
    case True
    then obtain j where j: "k = 6 + j" using le_Suc_ex by blast
    then have p: "(2 :: nat) ^ k = 64 * 2 ^ j" by (simp add: power_add)
    then have "64 dvd pos" using assms by (metis dvd_mult_left)
    moreover have "BITS_TO_LONGS (2 ^ k) = 2 ^ j" unfolding BITS_TO_LONGS_eq p by simp
    ultimately show ?thesis using p by simp
  next
    case False
    then obtain j where j: "6 = k + j" "0 < j" by (metis add_diff_inverse_nat less_imp_le not_less zero_less_diff)
    have p: "(64 :: nat) = 2 ^ k * 2 ^ j" using j(1) by (simp add: power_add [symmetric])
    have le: "(2 :: nat) ^ k \<le> 64" unfolding p by simp
    have "pos mod 64 mod 2 ^ k = 0" using assms p by (metis dvd_eq_mod_eq_0 dvd_triv_left mod_mod_cancel)
    then obtain c where c: "pos mod 64 = 2 ^ k * c" by (metis dvd_eq_mod_eq_0 dvdE)
    have "2 ^ k * c < (2 :: nat) ^ k * 2 ^ j" using c p by (metis mod_less_divisor zero_less_numeral)
    then have "Suc c \<le> 2 ^ j" by simp
    then have "2 ^ k * Suc c \<le> (2 :: nat) ^ k * 2 ^ j" by (rule mult_le_mono2)
    then have "pos mod 64 + 2 ^ k \<le> 64" using c p by simp
    moreover have "BITS_TO_LONGS (2 ^ k) = 1"
      using le by (auto simp: BITS_TO_LONGS_def intro: div_nat_eqI)
    ultimately show ?thesis using le by simp
  qed
  then show "pos mod 64 + min (2 ^ k) 64 \<le> 64" and "64 * BITS_TO_LONGS (2 ^ k) = 2 ^ k \<and> pos mod 64 = 0 \<or> BITS_TO_LONGS (2 ^ k) = 1 \<and> 2 ^ k \<le> (64 :: nat)"
    by blast+
qed

text \<open>The words the region spans and the bits the mask selects in them are the region.\<close>

lemma region_bits:
  assumes "2 ^ k dvd pos"
  shows "pos div 64 \<le> i div 64 \<and> i div 64 < pos div 64 + BITS_TO_LONGS (2 ^ k) \<and> bit (reg_mask (min (2 ^ k) 64) (pos mod 64)) (i mod 64)
    \<longleftrightarrow> pos \<le> i \<and> i < pos + 2 ^ k"
proof -
  let ?o = "pos mod 64" and ?n = "min (2 ^ k) (64 :: nat)" and ?q = "pos div 64"
  have mk: "bit (reg_mask ?n ?o) (i mod 64) \<longleftrightarrow> ?o \<le> i mod 64 \<and> i mod 64 < ?o + ?n"
    by (rule bit_reg_mask) simp_all
  have p: "pos = 64 * ?q + ?o" and i: "i = 64 * (i div 64) + i mod 64" and im: "i mod 64 < 64" by simp_all
  from region_shape(2) [OF assms] show ?thesis
  proof
    assume a: "64 * BITS_TO_LONGS (2 ^ k) = 2 ^ k \<and> ?o = 0"
    have "0 < BITS_TO_LONGS (2 ^ k)" using a by (metis gr0I mult_0_right power_not_zero zero_neq_numeral)
    then have n: "?n = 64" using a by simp
    have "?q \<le> i div 64 \<longleftrightarrow> pos \<le> i" using p i im a by (metis add.right_neutral div_le_mono le_add1 mult_le_mono2 nonzero_mult_div_cancel_left order_trans zero_neq_numeral)
    moreover have "i div 64 < ?q + BITS_TO_LONGS (2 ^ k) \<longleftrightarrow> i < 64 * (?q + BITS_TO_LONGS (2 ^ k))"
      by (simp add: less_mult_imp_div_less mult.commute div_less_iff_less_mult)
    moreover have "64 * (?q + BITS_TO_LONGS (2 ^ k)) = pos + 2 ^ k" using a p by (simp add: distrib_left)
    ultimately show ?thesis using mk a n im by auto
  next
    assume a: "BITS_TO_LONGS (2 ^ k) = 1 \<and> 2 ^ k \<le> (64 :: nat)"
    then have n: "?n = 2 ^ k" by simp
    have le: "?o + 2 ^ k \<le> 64" using region_shape(1) [OF assms] n by simp
    show ?thesis
    proof (cases "i div 64 = ?q")
      case True
      then have "pos \<le> i \<longleftrightarrow> ?o \<le> i mod 64" "i < pos + 2 ^ k \<longleftrightarrow> i mod 64 < ?o + 2 ^ k" using p i by linarith+
      then show ?thesis using True mk a n by simp
    next
      case False
      have "\<not> (pos \<le> i \<and> i < pos + 2 ^ k)"
      proof
        assume "pos \<le> i \<and> i < pos + 2 ^ k"
        then have "64 * ?q \<le> i \<and> i < 64 * ?q + 64" using p le by linarith
        then show False using False by (simp add: word_range)
      qed
      then show ?thesis using False a by auto
    qed
  qed
qed


lemma region_words:
  assumes "2 ^ k dvd pos" and "pos + 2 ^ k \<le> 64 * length m"
  shows "pos div 64 + BITS_TO_LONGS (2 ^ k) \<le> length m"
proof (rule ccontr)
  assume "\<not> ?thesis"
  then have l: "length m < pos div 64 + BITS_TO_LONGS (2 ^ k)" by simp
  have pos: "pos < 64 * length m" using assms(2) by (metis add_lessD1 le_neq_implies_less less_add_same_cancel1 less_le_trans zero_less_numeral zero_less_power)
  then have "pos div 64 < length m" by (simp add: div_less_iff_less_mult mult.commute)
  with l region_shape(2) [OF assms(1)] have a: "64 * BITS_TO_LONGS (2 ^ k) = 2 ^ k" "pos mod 64 = 0" by auto
  have "64 * length m < 64 * (pos div 64 + BITS_TO_LONGS (2 ^ k))" using l by simp
  also have "\<dots> = pos + 2 ^ k" using a by (auto simp: distrib_left)
  finally show False using assms(2) by simp
qed

lemma reg_op_args: "pos - pos div 64 * 64 = pos mod 64" "push_bit k 1 = (2 :: nat) ^ k" for pos :: nat
  by (simp_all add: minus_div_mult_eq_mod push_bit_of_1)

lemma reg_op_free:
  assumes "2 ^ k dvd pos" and "pos + 2 ^ k \<le> 64 * length m"
  shows "reg_op m pos k REG_OP_ISFREE = Some (if \<forall>i. pos \<le> i \<longrightarrow> i < pos + 2 ^ k \<longrightarrow> \<not> tbit m i then 1 else 0, m)"
proof -
  let ?n = "BITS_TO_LONGS (2 ^ k)" and ?mk = "reg_mask (min (2 ^ k) 64) (pos mod 64)" and ?q = "pos div 64"
  have any: "any_range 0 ?n (\<lambda>i. do { w \<leftarrow> rd m (?q + i); Some (w AND ?mk \<noteq> 0) }) = Some (\<exists>i. 0 \<le> i \<and> i < ?n \<and> m ! (?q + i) AND ?mk \<noteq> 0)"
    by (rule any_range_eq) (use region_words [OF assms] in \<open>simp add: rd_eq\<close>)
  have "(\<exists>i. 0 \<le> i \<and> i < ?n \<and> m ! (?q + i) AND ?mk \<noteq> 0) \<longleftrightarrow> (\<exists>i. pos \<le> i \<and> i < pos + 2 ^ k \<and> tbit m i)" (is "?L \<longleftrightarrow> ?R")
  proof
    assume ?L
    then obtain i j where i: "i < ?n" "j < 64" "bit (m ! (?q + i)) j" "bit ?mk j" by (auto simp: nonzero_bits bit_simps)
    then have "tbit m (64 * (?q + i) + j)" using tbit_word by blast
    moreover have "pos \<le> 64 * (?q + i) + j \<and> 64 * (?q + i) + j < pos + 2 ^ k"
    proof -
      have e: "(64 * (?q + i) + j) div 64 = ?q + i" "(64 * (?q + i) + j) mod 64 = j"
        using i(2) by (simp_all only: mod_mult_self4 mod_less div_mult_self4 div_less)
      show ?thesis using region_bits [OF assms(1), of "64 * (?q + i) + j"] i unfolding e by linarith
    qed
    ultimately show ?R by blast
  next
    assume ?R
    then obtain i where i: "pos \<le> i" "i < pos + 2 ^ k" "tbit m i" by blast
    then have w: "?q \<le> i div 64" "i div 64 < ?q + ?n" "bit ?mk (i mod 64)" using region_bits [OF assms(1), of i] by blast+
    then have "bit (m ! (?q + (i div 64 - ?q)) AND ?mk) (i mod 64)" using i(3) by (simp add: bit_simps tbit_def)
    then show ?L using w(1,2) by (intro exI [of _ "i div 64 - ?q"]) auto
  qed
  then show ?thesis unfolding reg_op_def Let_def reg_op_args reg_op_kind.case any Option.bind.simps by auto
qed

lemma mask_words_region:
  assumes "2 ^ k dvd pos" and "fills f v" and "i < 64 * length m"
  shows "tbit (mask_words f m (pos div 64) (BITS_TO_LONGS (2 ^ k)) (reg_mask (min (2 ^ k) 64) (pos mod 64))) i
    \<longleftrightarrow> (if pos \<le> i \<and> i < pos + 2 ^ k then v else tbit m i)"
proof -
  have "i div 64 < length m" using assms(3) by (simp add: div_less_iff_less_mult mult.commute)
  then show ?thesis
    using region_bits [OF assms(1), of i] fillsD [OF assms(2), of "i mod 64"]
    by (auto simp: tbit_def mask_words_def)
qed

lemma reg_op_change:
  assumes "2 ^ k dvd pos" and "pos + 2 ^ k \<le> 64 * length m"
  shows "\<exists>m'. reg_op m pos k REG_OP_ALLOC = Some (0, m') \<and> length m' = length m
      \<and> (\<forall>i < 64 * length m. tbit m' i \<longleftrightarrow> tbit m i \<or> pos \<le> i \<and> i < pos + 2 ^ k)"
    and "\<exists>m'. reg_op m pos k REG_OP_RELEASE = Some (0, m') \<and> length m' = length m
      \<and> (\<forall>i < 64 * length m. tbit m' i \<longleftrightarrow> tbit m i \<and> \<not> (pos \<le> i \<and> i < pos + 2 ^ k))"
proof -
  let ?n = "BITS_TO_LONGS (2 ^ k)" and ?mk = "reg_mask (min (2 ^ k) 64) (pos mod 64)" and ?q = "pos div 64"
  note loop = mask_words_loop [OF region_words [OF assms], where mk = ?mk]
  have len: "length (mask_words f m ?q ?n ?mk) = length m" for f by (simp add: mask_words_def)
  have "reg_op m pos k REG_OP_ALLOC = Some (0, mask_words (OR) m ?q ?n ?mk)"
    unfolding reg_op_def Let_def reg_op_args reg_op_kind.case loop Option.bind.simps ..
  then show "\<exists>m'. reg_op m pos k REG_OP_ALLOC = Some (0, m') \<and> length m' = length m
      \<and> (\<forall>i < 64 * length m. tbit m' i \<longleftrightarrow> tbit m i \<or> pos \<le> i \<and> i < pos + 2 ^ k)"
    using mask_words_region [OF assms(1) fills_or] len by auto
  have "reg_op m pos k REG_OP_RELEASE = Some (0, mask_words (\<lambda>w k. w AND NOT k) m ?q ?n ?mk)"
    unfolding reg_op_def Let_def reg_op_args reg_op_kind.case loop [of "\<lambda>w k. w AND NOT k"] Option.bind.simps ..
  then show "\<exists>m'. reg_op m pos k REG_OP_RELEASE = Some (0, m') \<and> length m' = length m
      \<and> (\<forall>i < 64 * length m. tbit m' i \<longleftrightarrow> tbit m i \<and> \<not> (pos \<le> i \<and> i < pos + 2 ^ k))"
    using mask_words_region [OF assms(1) fills_andnot] len by auto
qed

lemma find_free_loop_correct:
  assumes "bits \<le> 64 * length m" and "2 ^ k dvd pos" and "\<And>a. free_area m bits (2 ^ k) k a \<Longrightarrow> pos \<le> a"
  shows "\<exists>r m'. find_free_loop m bits k pos = Some (r, m') \<and> length m' = length m \<and>
    (r = - ENOMEM \<and> m' = m \<and> (\<forall>a. \<not> free_area m bits (2 ^ k) k a)
     \<or> (\<exists>a. r = int a \<and> free_area m bits (2 ^ k) k a \<and> (\<forall>b. free_area m bits (2 ^ k) k b \<longrightarrow> a \<le> b)
          \<and> (\<forall>i < 64 * length m. tbit m' i \<longleftrightarrow> tbit m i \<or> a \<le> i \<and> i < a + 2 ^ k)))"
  using assms(2,3)
proof (induction "bits - pos" arbitrary: pos rule: less_induct)
  case less
  show ?case
  proof (cases "pos + 2 ^ k \<le> bits")
    case False
    then have "\<not> free_area m bits (2 ^ k) k a" for a using less.prems(2) [of a] by (auto simp: free_area_def)
    then show ?thesis using False by (subst find_free_loop.simps) (simp add: push_bit_of_1)
  next
    case True
    then have in_m: "pos + 2 ^ k \<le> 64 * length m" using assms(1) by simp
    note free = reg_op_free [OF less.prems(1) in_m]
    show ?thesis
    proof (cases "\<forall>i. pos \<le> i \<longrightarrow> i < pos + 2 ^ k \<longrightarrow> \<not> tbit m i")
      case yes: True
      obtain m' where m': "reg_op m pos k REG_OP_ALLOC = Some (0, m')" "length m' = length m"
        "\<forall>i < 64 * length m. tbit m' i \<longleftrightarrow> tbit m i \<or> pos \<le> i \<and> i < pos + 2 ^ k" using reg_op_change(1) [OF less.prems(1) in_m] by blast
      have "find_free_loop m bits k pos = Some (int pos, m')"
        using True yes free m'(1) by (subst find_free_loop.simps) (simp add: push_bit_of_1 Let_def)
      moreover have "free_area m bits (2 ^ k) k pos" using yes True less.prems(1) by (simp add: free_area_def)
      ultimately show ?thesis using m'(2,3) less.prems(2) by blast
    next
      case no: False
      have run: "find_free_loop m bits k pos = find_free_loop m bits k (pos + 2 ^ k)"
        using True no free by (subst find_free_loop.simps) (auto simp: push_bit_of_1 Let_def)
      have d: "2 ^ k dvd pos + 2 ^ k" using less.prems(1) by simp
      have later: "pos + 2 ^ k \<le> a" if a: "free_area m bits (2 ^ k) k a" for a
      proof (rule ccontr)
        assume n: "\<not> pos + 2 ^ k \<le> a"
        have "2 ^ k dvd a - pos" using a less.prems(1) by (simp add: free_area_def dvd_diff_nat)
        moreover have "a - pos < 2 ^ k" using n less.prems(2) [OF a] by linarith
        ultimately have "a = pos" using less.prems(2) [OF a] by (metis dvd_imp_le eq_iff le_zero_eq not_less diff_is_0_eq zero_less_iff_neq_zero)
        then show False using a no by (auto simp: free_area_def)
      qed
      show ?thesis unfolding run by (rule less.hyps [OF region_shrinks [OF True] d later])
    qed
  qed
qed

section \<open>Properties\<close>

text \<open>
  \<open>bitmap_set\<close> and \<open>bitmap_clear\<close> change exactly the bits of the span, whatever words it
  starts and ends in; \<open>bitmap_find_next_zero_area\<close> always returns, with the lowest aligned run
  of clear bits from the start on, or with a position behind the bitmap when there is none.
\<close>

theorem bitmap_spans_and_areas:
  assumes "start + nr \<le> 64 * length m" and "sz \<le> 64 * length m" and "0 < nr"
  shows "(\<exists>m'. bitmap_set m start nr = Some m' \<and> length m' = length m \<and> (\<forall>i. tbit m' i \<longleftrightarrow> tbit m i \<or> start \<le> i \<and> i < start + nr))
    \<and> (\<exists>m'. bitmap_clear m start nr = Some m' \<and> length m' = length m \<and> (\<forall>i. tbit m' i \<longleftrightarrow> tbit m i \<and> \<not> (start \<le> i \<and> i < start + nr)))
    \<and> (\<exists>r. bitmap_find_next_zero_area m sz start nr (mask k) = Some r \<and>
        (r + nr \<le> sz \<and> start \<le> r \<and> free_area m sz nr k r \<and> (\<forall>a. start \<le> a \<longrightarrow> free_area m sz nr k a \<longrightarrow> r \<le> a)
         \<or> sz < r \<and> (\<forall>a. start \<le> a \<longrightarrow> \<not> free_area m sz nr k a)))"
proof (intro conjI)
  show "\<exists>m'. bitmap_set m start nr = Some m' \<and> length m' = length m \<and> (\<forall>i. tbit m' i \<longleftrightarrow> tbit m i \<or> start \<le> i \<and> i < start + nr)"
    using span_op_fills [OF fills_or assms(1)] unfolding bitmap_set_def by fastforce
  show "\<exists>m'. bitmap_clear m start nr = Some m' \<and> length m' = length m \<and> (\<forall>i. tbit m' i \<longleftrightarrow> tbit m i \<and> \<not> (start \<le> i \<and> i < start + nr))"
    using span_op_fills [OF fills_andnot assms(1)] unfolding bitmap_clear_def by fastforce
qed (rule find_area_correct [OF assms(2,3)])

theorem bitmap_spans_and_areas_witness:
  "\<exists>m'. bitmap_set [0, 0] 60 10 = Some m' \<and> (\<forall>i. tbit m' i \<longleftrightarrow> tbit [0, 0 :: ulong] i \<or> 60 \<le> i \<and> i < 70)"
  using bitmap_spans_and_areas [of 60 10 "[0, 0]" 128 0] by auto

text \<open>
  \<open>bitmap_find_free_region\<close> takes the lowest free region of the order, sets exactly its
  bits and returns its position, or leaves the bitmap alone and returns \<open>-ENOMEM\<close>;
  \<open>bitmap_allocate_region\<close> sets a given region if it is free and else returns \<open>-EBUSY\<close>;
  \<open>bitmap_release_region\<close> clears it.
\<close>

theorem bitmap_regions_first_fit:
  assumes "bits \<le> 64 * length m" and "2 ^ k dvd pos" and "pos + 2 ^ k \<le> bits"
  shows "(\<exists>r m'. bitmap_find_free_region m bits k = Some (r, m') \<and> length m' = length m \<and>
      (r = - ENOMEM \<and> m' = m \<and> (\<forall>a. \<not> free_area m bits (2 ^ k) k a)
       \<or> (\<exists>a. r = int a \<and> free_area m bits (2 ^ k) k a \<and> (\<forall>b. free_area m bits (2 ^ k) k b \<longrightarrow> a \<le> b)
            \<and> (\<forall>i < 64 * length m. tbit m' i \<longleftrightarrow> tbit m i \<or> a \<le> i \<and> i < a + 2 ^ k))))
    \<and> (\<exists>r m'. bitmap_allocate_region m pos k = Some (r, m') \<and> length m' = length m \<and>
        (if free_area m bits (2 ^ k) k pos then r = 0 \<and> (\<forall>i < 64 * length m. tbit m' i \<longleftrightarrow> tbit m i \<or> pos \<le> i \<and> i < pos + 2 ^ k)
         else r = - EBUSY \<and> m' = m))
    \<and> (\<exists>m'. bitmap_release_region m pos k = Some m' \<and> length m' = length m
        \<and> (\<forall>i < 64 * length m. tbit m' i \<longleftrightarrow> tbit m i \<and> \<not> (pos \<le> i \<and> i < pos + 2 ^ k)))"
proof (intro conjI)
  have in_m: "pos + 2 ^ k \<le> 64 * length m" using assms by simp
  note free = reg_op_free [OF assms(2) in_m]
  show "\<exists>r m'. bitmap_find_free_region m bits k = Some (r, m') \<and> length m' = length m \<and>
      (r = - ENOMEM \<and> m' = m \<and> (\<forall>a. \<not> free_area m bits (2 ^ k) k a)
       \<or> (\<exists>a. r = int a \<and> free_area m bits (2 ^ k) k a \<and> (\<forall>b. free_area m bits (2 ^ k) k b \<longrightarrow> a \<le> b)
            \<and> (\<forall>i < 64 * length m. tbit m' i \<longleftrightarrow> tbit m i \<or> a \<le> i \<and> i < a + 2 ^ k)))"
    unfolding bitmap_find_free_region_def by (rule find_free_loop_correct [OF assms(1)]) simp_all
  obtain m' where m': "reg_op m pos k REG_OP_ALLOC = Some (0, m')" "length m' = length m"
    "\<forall>i < 64 * length m. tbit m' i \<longleftrightarrow> tbit m i \<or> pos \<le> i \<and> i < pos + 2 ^ k" using reg_op_change(1) [OF assms(2) in_m] by blast
  show "\<exists>r m'. bitmap_allocate_region m pos k = Some (r, m') \<and> length m' = length m \<and>
        (if free_area m bits (2 ^ k) k pos then r = 0 \<and> (\<forall>i < 64 * length m. tbit m' i \<longleftrightarrow> tbit m i \<or> pos \<le> i \<and> i < pos + 2 ^ k)
         else r = - EBUSY \<and> m' = m)"
    using m' free assms by (auto simp: bitmap_allocate_region_def free_area_def)
  show "\<exists>m'. bitmap_release_region m pos k = Some m' \<and> length m' = length m
        \<and> (\<forall>i < 64 * length m. tbit m' i \<longleftrightarrow> tbit m i \<and> \<not> (pos \<le> i \<and> i < pos + 2 ^ k))"
    using reg_op_change(2) [OF assms(2) in_m] by (auto simp: bitmap_release_region_def)
qed

theorem bitmap_regions_first_fit_witness:
  "\<exists>r m'. bitmap_find_free_region [3, 0] 128 1 = Some (r, m') \<and> r \<noteq> - ENOMEM"
proof -
  have "free_area [3, 0] 128 (2 ^ 1) 1 64"
    by (auto simp: free_area_def tbit_def nth_Cons' dest: div_le_mono [of 64 _ 64])
  moreover have "(2 :: nat) ^ 1 dvd 64" by simp
  ultimately show ?thesis
    using bitmap_regions_first_fit [of 128 "[3, 0]" 1 64] by (fastforce simp: ENOMEM_def)
qed

end
