(* ===== verification/BitmapShift.thy ===== *)
theory BitmapShift
  imports Bitmap
begin

text \<open>
  \<open>src/src/bitmap.c\<close>: the shifts. Source and destination may be the same object
  (\<open>__bitmap_parse\<close> shifts in place). Where the shift is a whole number of words the code
  also shifts a zero by 64, which C leaves undefined and the model takes to be 0; a shift by more
  words than the bitmap has would clear memory before it.
\<close>

section \<open>Code\<close>

definition shr_word :: "ulong list \<Rightarrow> nat \<Rightarrow> nat \<Rightarrow> nat \<Rightarrow> nat \<Rightarrow> nat \<Rightarrow> ulong option" where
  "shr_word src lim left off rm k = do {
     let lowmask = push_bit left 1 - 1;
     upper \<leftarrow> (if rm = 0 \<or> lim \<le> off + k + 1 then Some 0
       else do { u \<leftarrow> rd src (off + k + 1); Some (if off + k + 1 = lim - 1 \<and> left \<noteq> 0 then u AND lowmask else u) });
     lower \<leftarrow> rd src (off + k);
     let lower = (if left \<noteq> 0 \<and> off + k = lim - 1 then lower AND lowmask else lower);
     Some (push_bit (64 - rm) upper OR drop_bit rm lower) }"

definition bitmap_shift_right_words :: "bms \<Rightarrow> nat \<Rightarrow> nat \<Rightarrow> nat \<Rightarrow> nat \<Rightarrow> bms option" where
  "bitmap_shift_right_words st dst src shift bits = do {
     let lim = BITS_TO_LONGS bits;
     let left = bits mod 64;
     let off = shift div 64;
     let rm = shift mod 64;
     let lowmask = push_bit left 1 - 1;
     st \<leftarrow> for_range 0 (lim - off) (\<lambda>k st. do {
       w \<leftarrow> shr_word (st src) lim left off rm k;
       bm_wr st dst k (if left \<noteq> 0 \<and> k = lim - 1 then w AND lowmask else w) }) st;
     if off = 0 then Some st
     else if off \<le> lim then bm_fill st dst (lim - off) (replicate off 0)
     else None }"

definition shl_word :: "ulong list \<Rightarrow> nat \<Rightarrow> nat \<Rightarrow> nat \<Rightarrow> nat \<Rightarrow> nat \<Rightarrow> ulong option" where
  "shl_word src lim left off rm k = do {
     lower \<leftarrow> (if rm \<noteq> 0 \<and> 0 < k then rd src (k - 1) else Some 0);
     upper \<leftarrow> rd src k;
     let upper = (if left \<noteq> 0 \<and> k = lim - 1 then upper AND (push_bit left 1 - 1) else upper);
     Some (drop_bit (64 - rm) lower OR push_bit rm upper) }"

definition bitmap_shift_left_words :: "bms \<Rightarrow> nat \<Rightarrow> nat \<Rightarrow> nat \<Rightarrow> nat \<Rightarrow> bms option" where
  "bitmap_shift_left_words st dst src shift bits = do {
     let lim = BITS_TO_LONGS bits;
     let left = bits mod 64;
     let off = shift div 64;
     let rm = shift mod 64;
     st \<leftarrow> for_down (lim - off) (\<lambda>k st. do {
       w \<leftarrow> shl_word (st src) lim left off rm k;
       bm_wr st dst (k + off) (if left \<noteq> 0 \<and> k + off = lim - 1 then w AND (push_bit left 1 - 1) else w) }) st;
     if off = 0 then Some st else bm_fill st dst 0 (replicate off 0) }"

definition bitmap_shift_right :: "bool \<Rightarrow> bms \<Rightarrow> nat \<Rightarrow> nat \<Rightarrow> nat \<Rightarrow> nat \<Rightarrow> bms option" where
  "bitmap_shift_right const st dst src n nbits =
     (if small_const_nbits const nbits then (if n < 64 then do { a \<leftarrow> rd (st src) 0; bm_wr st dst 0 (drop_bit n a) } else None)
      else bitmap_shift_right_words st dst src n nbits)"

definition bitmap_shift_left :: "bool \<Rightarrow> bms \<Rightarrow> nat \<Rightarrow> nat \<Rightarrow> nat \<Rightarrow> nat \<Rightarrow> bms option" where
  "bitmap_shift_left const st dst src n nbits =
     (if small_const_nbits const nbits then (if n < 64 then do { a \<leftarrow> rd (st src) 0; bm_wr st dst 0 (push_bit n a AND LAST_WORD_MASK nbits) } else None)
      else bitmap_shift_left_words st dst src n nbits)"

section \<open>The words of a shifted bitmap\<close>

text \<open>Word \<open>q\<close> of the bitmap with the bits from \<open>bits\<close> on cleared.\<close>

definition cut_word :: "nat \<Rightarrow> ulong list \<Rightarrow> nat \<Rightarrow> ulong" where
  "cut_word bits m q = (if BITS_TO_LONGS bits \<le> q then 0
     else if bits mod 64 \<noteq> 0 \<and> q = BITS_TO_LONGS bits - 1 then m ! q AND (push_bit (bits mod 64) 1 - 1) else m ! q)"

lemma bit_low_mask: "bit (push_bit n 1 - 1 :: ulong) j \<longleftrightarrow> j < 64 \<and> j < n"
  by (simp add: push_bit_of_1 mask_eq_exp_minus_1 [symmetric] bit_simps)

lemma bit_low_mask_exp: "bit (2 ^ n - 1 :: ulong) j \<longleftrightarrow> j < 64 \<and> j < n"
  by (simp add: mask_eq_exp_minus_1 [symmetric] bit_simps)

lemma bit_cut_word: "j < 64 \<Longrightarrow> bit (cut_word bits m q) j \<longleftrightarrow> 64 * q + j < bits \<and> bit (m ! q) j"
proof -
  assume j: "j < 64"
  have b: "bits = 64 * (bits div 64) + bits mod 64" by simp
  have "BITS_TO_LONGS bits \<le> q \<or> bits mod 64 \<noteq> 0 \<and> q = bits div 64 \<or> q < bits div 64"
    by (auto simp: BITS_TO_LONGS_eq)
  then consider "BITS_TO_LONGS bits \<le> q" | "bits mod 64 \<noteq> 0" "q = bits div 64" | "q < bits div 64" by blast
  then show ?thesis
  proof cases
    case 1
    then have "bits \<le> 64 * q" by (simp add: BITS_TO_LONGS_le)
    then show ?thesis using 1 by (simp add: cut_word_def)
  next
    case 2
    then have "64 * q + j < bits \<longleftrightarrow> j < bits mod 64" using b by linarith
    then show ?thesis using 2 j by (auto simp: cut_word_def BITS_TO_LONGS_eq bit_simps bit_low_mask_exp)
  next
    case 3
    then have "64 * Suc q \<le> 64 * (bits div 64)" by (intro mult_le_mono2) simp
    then have "64 * q + j < bits" using j b by simp
    moreover have "cut_word bits m q = m ! q" using 3 by (auto simp: cut_word_def BITS_TO_LONGS_eq)
    ultimately show ?thesis by simp
  qed
qed

definition shr_value :: "nat \<Rightarrow> ulong list \<Rightarrow> nat \<Rightarrow> nat \<Rightarrow> ulong" where
  "shr_value bits m shift k =
     push_bit (64 - shift mod 64) (if shift mod 64 = 0 then 0 else cut_word bits m (shift div 64 + k + 1))
     OR drop_bit (shift mod 64) (cut_word bits m (shift div 64 + k))"

lemma bit_shr_value: "j < 64 \<Longrightarrow> bit (shr_value bits m shift k) j \<longleftrightarrow> 64 * k + j + shift < bits \<and> tbit m (64 * k + j + shift)"
proof -
  assume j: "j < 64"
  let ?o = "shift div 64" and ?r = "shift mod 64"
  have s: "shift = 64 * ?o + ?r" "?r < 64" by simp_all
  show ?thesis
  proof (cases "?r + j < 64")
    case True
    have p: "64 * k + j + shift = 64 * (?o + k) + (?r + j)" using s by simp
    have "bit (shr_value bits m shift k) j \<longleftrightarrow> bit (cut_word bits m (?o + k)) (?r + j)"
      using True j by (auto simp: shr_value_def bit_simps)
    then show ?thesis using bit_cut_word [OF True] tbit_word [OF True, of m "?o + k"] unfolding p by (simp add: add.commute)
  next
    case False
    let ?j = "j + ?r - 64"
    have r: "?r \<noteq> 0" "?j < 64" using False j s by auto
    have p: "64 * k + j + shift = 64 * (?o + k + 1) + ?j" using s False by simp
    have "bit (shr_value bits m shift k) j \<longleftrightarrow> bit (cut_word bits m (?o + k + 1)) ?j"
      using False j r by (auto simp: shr_value_def bit_simps dest: bit_imp_le_length)
    then show ?thesis using bit_cut_word [OF r(2)] tbit_word [OF r(2), of m "?o + k + 1"] unfolding p by simp
  qed
qed

definition shl_value :: "nat \<Rightarrow> ulong list \<Rightarrow> nat \<Rightarrow> nat \<Rightarrow> ulong" where
  "shl_value bits m shift k =
     drop_bit (64 - shift mod 64) (if shift mod 64 \<noteq> 0 \<and> 0 < k then m ! (k - 1) else 0)
     OR push_bit (shift mod 64) (cut_word bits m k)"

lemma bit_shl_value:
  assumes "j < 64" and "k < BITS_TO_LONGS bits"
  shows "bit (shl_value bits m shift k) j \<longleftrightarrow> shift mod 64 \<le> 64 * k + j \<and> 64 * k + j - shift mod 64 < bits \<and> tbit m (64 * k + j - shift mod 64)"
proof -
  let ?r = "shift mod 64"
  have r: "?r < 64" by simp
  have b: "64 * k < bits" using assms(2) BITS_TO_LONGS_le [of bits k] by simp
  show ?thesis
  proof (cases "?r \<le> j")
    case True
    have p: "64 * k + j - ?r = 64 * k + (j - ?r)" "j - ?r < 64" using True assms(1) by auto
    have "bit (shl_value bits m shift k) j \<longleftrightarrow> bit (cut_word bits m k) (j - ?r)"
      using True assms(1) r by (auto simp: shl_value_def bit_simps dest: bit_imp_le_length)
    then show ?thesis using bit_cut_word [OF p(2)] tbit_word [OF p(2), of m k] True unfolding p(1) by simp
  next
    case False
    show ?thesis
    proof (cases "k = 0")
      case True
      then show ?thesis using False by (simp add: shl_value_def bit_simps)
    next
      case kp: False
      then obtain k' where k': "k = Suc k'" by (cases k) auto
      have p: "64 * k + j - ?r = 64 * k' + (64 + j - ?r)" "64 + j - ?r < 64" using False r k' by auto
      have "bit (shl_value bits m shift k) j \<longleftrightarrow> bit (m ! k') (64 + j - ?r)"
        using False kp k' assms(1) r by (auto simp: shl_value_def bit_simps dest: bit_imp_le_length)
      moreover have "64 * k' + (64 + j - ?r) < bits" using b k' p(2) by simp
      moreover have "?r \<le> 64 * k + j" using r k' by simp
      ultimately show ?thesis using tbit_word [OF p(2), of m k'] unfolding p(1) by simp
    qed
  qed
qed

section \<open>Correctness\<close>

lemma shr_word_eq:
  assumes "bits \<le> 64 * length m" and "shift div 64 + k < BITS_TO_LONGS bits"
    and "\<And>q. k \<le> q \<Longrightarrow> q < length m \<Longrightarrow> m' ! q = m ! q" and "length m' = length m"
  shows "shr_word m' (BITS_TO_LONGS bits) (bits mod 64) (shift div 64) (shift mod 64) k = Some (shr_value bits m shift k)"
proof -
  let ?lim = "BITS_TO_LONGS bits" and ?o = "shift div 64"
  note l = words_in [OF assms(1)]
  have lo: "?o + k < length m" using l assms(2) by simp
  then have lower: "rd m' (?o + k) = Some (m ! (?o + k))" using assms(3,4) by (simp add: rd_eq)
  have upper: "rd m' (Suc (?o + k)) = Some (m ! Suc (?o + k))" if "Suc (?o + k) < ?lim"
    using l [OF that] assms(3,4) by (simp add: rd_eq)
  show ?thesis
    using lower upper assms(2) by (auto simp: shr_word_def Let_def shr_value_def cut_word_def)
qed

lemma shl_word_eq:
  assumes "bits \<le> 64 * length m" and "k < BITS_TO_LONGS bits"
    and "\<And>q. q \<le> k \<Longrightarrow> m' ! q = m ! q" and "length m' = length m"
  shows "shl_word m' (BITS_TO_LONGS bits) (bits mod 64) off (shift mod 64) k = Some (shl_value bits m shift k)"
proof -
  have k: "k < length m" using words_in [OF assms(1,2)] .
  then have "rd m' k = Some (m ! k)" "0 < k \<Longrightarrow> rd m' (k - 1) = Some (m ! (k - 1))"
    using assms(3,4) by (simp_all add: rd_eq)
  then show ?thesis using assms(2) by (auto simp: shl_word_def Let_def shl_value_def cut_word_def)
qed

lemma mask_last:
  fixes w :: ulong
  assumes "j < 64" and "k < BITS_TO_LONGS bits"
  shows "bit (if bits mod 64 \<noteq> 0 \<and> k = BITS_TO_LONGS bits - 1 then w AND (push_bit (bits mod 64) 1 - 1) else w) j
    \<longleftrightarrow> bit w j \<and> 64 * k + j < bits"
proof -
  have "replicate (Suc k) w ! k = w" by (rule nth_replicate) simp
  then show ?thesis
    using bit_cut_word [OF assms(1), of bits "replicate (Suc k) w" k] assms(2)
    by (auto simp: cut_word_def simp del: replicate_Suc split: if_splits)
qed

lemma bitmap_shift_right_words_eq:
  assumes "bits \<le> 64 * length (st d)" and "bits \<le> 64 * length (st p)" and "shift div 64 \<le> BITS_TO_LONGS bits"
  shows "\<exists>f. bitmap_shift_right_words st d p shift bits = Some (with_words st d (BITS_TO_LONGS bits) f)
    \<and> (\<forall>i < 64 * BITS_TO_LONGS bits. bit (f (i div 64)) (i mod 64) \<longleftrightarrow> i + shift < bits \<and> tbit (st p) (i + shift))"
proof -
  let ?lim = "BITS_TO_LONGS bits" and ?o = "shift div 64" and ?left = "bits mod 64"
  define f where "f k = (if ?left \<noteq> 0 \<and> k = ?lim - 1 then shr_value bits (st p) shift k AND (push_bit ?left 1 - 1)
    else shr_value bits (st p) shift k)" for k
  have n: "?lim \<le> length (st d)" using assms(1) by (simp add: BITS_TO_LONGS_le)
  have loop: "for_range 0 (?lim - ?o) (\<lambda>k st. do {
       w \<leftarrow> shr_word (st p) ?lim ?left ?o (shift mod 64) k;
       bm_wr st d k (if ?left \<noteq> 0 \<and> k = ?lim - 1 then w AND (push_bit ?left 1 - 1) else w) }) st = Some (with_words st d (?lim - ?o) f)"
  proof (rule words_loop)
    fix k s assume k: "k < ?lim - ?o" "s = with_words st d k f"
    have "shr_word (s p) ?lim ?left ?o (shift mod 64) k = Some (shr_value bits (st p) shift k)"
      by (rule shr_word_eq [OF assms(2)]) (use k n in \<open>auto simp: with_words_nth\<close>)
    then show "do { w \<leftarrow> shr_word (s p) ?lim ?left ?o (shift mod 64) k;
        bm_wr s d k (if ?left \<noteq> 0 \<and> k = ?lim - 1 then w AND (push_bit ?left 1 - 1) else w) } = bm_wr s d k (f k)"
      by (simp add: f_def)
  qed (use n in simp)
  define g where "g q = (if q < ?lim - ?o then f q else 0)" for q
  have "(if ?o = 0 then Some (with_words st d (?lim - ?o) f)
     else if ?o \<le> ?lim then bm_fill (with_words st d (?lim - ?o) f) d (?lim - ?o) (replicate ?o 0) else None)
     = Some (with_words st d ?lim g)"
  proof (cases "?o = 0")
    case True
    have "with_words st d ?lim f = with_words st d ?lim g" by (rule with_words_cong) (simp add: g_def True)
    then show ?thesis using True by simp
  next
    case False
    have "blit (with_words st d (?lim - ?o) f d) (?lim - ?o) (replicate ?o 0) = map g [0..<?lim] @ drop ?lim (st d)"
    proof -
      have a: "?lim - ?o + ?o = ?lim" using assms(3) by simp
      then have "[0..<?lim] = [0..<?lim - ?o] @ [?lim - ?o..<?lim]" by (metis upt_add_eq_append zero_le)
      moreover have "map g [?lim - ?o..<?lim] = replicate ?o 0"
        using a by (intro nth_equalityI) (auto simp: g_def)
      moreover have "map g [0..<?lim - ?o] = map f [0..<?lim - ?o]" by (simp add: g_def)
      ultimately show ?thesis using a n by (simp add: blit_def with_words_def)
    qed
    moreover have "?lim - ?o + length (replicate ?o (0 :: ulong)) \<le> length (with_words st d (?lim - ?o) f d)" using assms(3) n by simp
    ultimately show ?thesis using False assms(3) by (simp add: bm_fill_eq) (simp add: with_words_def)
  qed
  then have "bitmap_shift_right_words st d p shift bits = Some (with_words st d ?lim g)"
    unfolding bitmap_shift_right_words_def Let_def loop Option.bind.simps .
  moreover have "bit (g (i div 64)) (i mod 64) \<longleftrightarrow> i + shift < bits \<and> tbit (st p) (i + shift)" if i: "i < 64 * ?lim" for i
  proof -
    have q: "i div 64 < ?lim" using i by (simp add: less_mult_imp_div_less mult.commute)
    have s: "64 * (i div 64) + i mod 64 = i" by simp
    have v: "bit (shr_value bits (st p) shift (i div 64)) (i mod 64) \<longleftrightarrow> i + shift < bits \<and> tbit (st p) (i + shift)"
      using bit_shr_value [of "i mod 64" bits "st p" shift "i div 64"] by simp
    show ?thesis
    proof (cases "i div 64 < ?lim - ?o")
      case True
      have "bit (f (i div 64)) (i mod 64) \<longleftrightarrow> bit (shr_value bits (st p) shift (i div 64)) (i mod 64) \<and> i < bits"
        unfolding f_def using mask_last [of "i mod 64" "i div 64" bits "shr_value bits (st p) shift (i div 64)"] q by simp
      then show ?thesis using v True by (auto simp: g_def)
    next
      case False
      then have "?lim \<le> i div 64 + ?o" by simp
      then have "bits \<le> 64 * (i div 64 + ?o)" using BITS_TO_LONGS_le by blast
      also have "\<dots> \<le> i + shift" using s by (simp add: add_mono mult.commute distrib_left)
      finally show ?thesis using False by (simp add: g_def)
    qed
  qed
  ultimately show ?thesis by blast
qed


lemma rebase: "i = 64 * (a + k) + b \<Longrightarrow> s = 64 * a + r \<Longrightarrow> (s \<le> i \<longleftrightarrow> r \<le> 64 * k + b) \<and> 64 * k + b - r = i - s" for i :: nat
  by (simp add: distrib_left)

definition upper_words :: "bms \<Rightarrow> nat \<Rightarrow> nat \<Rightarrow> nat \<Rightarrow> (nat \<Rightarrow> ulong) \<Rightarrow> bms" where
  "upper_words st d lim q f = st(d := take q (st d) @ map f [q..<lim] @ drop lim (st d))"

lemma upper_words_step:
  assumes "q < lim" and "lim \<le> length (st d)"
  shows "bm_wr (upper_words st d lim (Suc q) f) d q (f q) = Some (upper_words st d lim q f)"
proof -
  have "(take (Suc q) (st d) @ map f [Suc q..<lim] @ drop lim (st d))[q := f q]
    = take q (st d) @ map f [q..<lim] @ drop lim (st d)"
    using assms by (simp add: take_Suc_conv_app_nth upt_conv_Cons [of q lim] list_update_append)
  then show ?thesis using assms by (simp add: bm_wr_eq upper_words_def)
qed

lemma upper_words_nth: "j < q \<Longrightarrow> q \<le> length (st d) \<Longrightarrow> upper_words st d lim q f p ! j = st p ! j"
  by (simp add: upper_words_def nth_append)

lemma upper_words_length [simp]: "q \<le> lim \<Longrightarrow> lim \<le> length (st d) \<Longrightarrow> length (upper_words st d lim q f p) = length (st p)"
  by (simp add: upper_words_def)

lemma upper_words_zeroed:
  assumes "q \<le> lim" and "lim \<le> length (st d)"
  shows "bm_fill (upper_words st d lim q f) d 0 (replicate q 0) = Some (with_words st d lim (\<lambda>j. if j < q then 0 else f j))"
proof -
  have "[0..<lim] = [0..<q] @ [q..<lim]" using assms(1) upt_add_eq_append [of 0 q "lim - q"] by simp
  moreover have "map (\<lambda>j. if j < q then 0 else f j) [0..<q] = replicate q 0" by (intro nth_equalityI) auto
  moreover have "map (\<lambda>j. if j < q then 0 else f j) [q..<lim] = map f [q..<lim]" by simp
  ultimately have "blit (upper_words st d lim q f d) 0 (replicate q 0) = map (\<lambda>j. if j < q then 0 else f j) [0..<lim] @ drop lim (st d)"
    using assms by (simp add: blit_def upper_words_def)
  then show ?thesis using assms by (simp add: bm_fill_eq) (simp add: with_words_def upper_words_def)
qed

lemma bitmap_shift_left_words_eq:
  assumes "bits \<le> 64 * length (st d)" and "bits \<le> 64 * length (st p)" and "shift div 64 \<le> BITS_TO_LONGS bits"
  shows "\<exists>f. bitmap_shift_left_words st d p shift bits = Some (with_words st d (BITS_TO_LONGS bits) f)
    \<and> (\<forall>i < 64 * BITS_TO_LONGS bits. bit (f (i div 64)) (i mod 64) \<longleftrightarrow> i < bits \<and> shift \<le> i \<and> tbit (st p) (i - shift))"
proof -
  let ?lim = "BITS_TO_LONGS bits" and ?o = "shift div 64" and ?left = "bits mod 64"
  define f where "f q = (if ?left \<noteq> 0 \<and> q = ?lim - 1 then shl_value bits (st p) shift (q - ?o) AND (push_bit ?left 1 - 1)
    else shl_value bits (st p) shift (q - ?o))" for q
  have n: "?lim \<le> length (st d)" using assms(1) by (simp add: BITS_TO_LONGS_le)
  let ?body = "\<lambda>k st. do {
       w \<leftarrow> shl_word (st p) ?lim ?left ?o (shift mod 64) k;
       bm_wr st d (k + ?o) (if ?left \<noteq> 0 \<and> k + ?o = ?lim - 1 then w AND (push_bit ?left 1 - 1) else w) }"
  have "\<exists>s. for_down (?lim - ?o) ?body st = Some s \<and> s = upper_words st d ?lim (0 + ?o) f"
  proof (rule for_down_rule [where P = "\<lambda>k s. s = upper_words st d ?lim (k + ?o) f"])
    show "st = upper_words st d ?lim (?lim - ?o + ?o) f" using assms(3) n by (simp add: upper_words_def)
  next
    fix k s assume k: "k < ?lim - ?o" "s = upper_words st d ?lim (Suc k + ?o) f"
    have "shl_word (s p) ?lim ?left ?o (shift mod 64) k = Some (shl_value bits (st p) shift k)"
      by (rule shl_word_eq [OF assms(2)]) (use k n in \<open>auto simp: upper_words_nth\<close>)
    moreover have "(if ?left \<noteq> 0 \<and> k + ?o = ?lim - 1 then shl_value bits (st p) shift k AND (push_bit ?left 1 - 1)
        else shl_value bits (st p) shift k) = f (k + ?o)" unfolding f_def add_diff_cancel_right' ..
    moreover have "bm_wr s d (k + ?o) (f (k + ?o)) = Some (upper_words st d ?lim (k + ?o) f)"
      using k upper_words_step [of "k + ?o" ?lim st d f] n by simp
    ultimately show "\<exists>s'. ?body k s = Some s' \<and> s' = upper_words st d ?lim (k + ?o) f"
      by (simp only: Option.bind.simps) blast
  qed
  then have loop: "for_down (?lim - ?o) ?body st = Some (upper_words st d ?lim ?o f)" by simp
  have "(if ?o = 0 then Some (upper_words st d ?lim ?o f) else bm_fill (upper_words st d ?lim ?o f) d 0 (replicate ?o 0))
    = Some (with_words st d ?lim (\<lambda>q. if q < ?o then 0 else f q))"
    using upper_words_zeroed [where st = st and d = d and f = f, OF assms(3) n] by (simp add: upper_words_def with_words_def)
  then have run: "bitmap_shift_left_words st d p shift bits = Some (with_words st d ?lim (\<lambda>q. if q < ?o then 0 else f q))"
    unfolding bitmap_shift_left_words_def Let_def loop Option.bind.simps .
  have "bit (if i div 64 < ?o then 0 else f (i div 64)) (i mod 64) \<longleftrightarrow> i < bits \<and> shift \<le> i \<and> tbit (st p) (i - shift)"
    if i: "i < 64 * ?lim" for i
  proof (cases "i div 64 < ?o")
    case True
    then have "\<not> shift \<le> i" using div_le_mono [of shift i 64] by linarith
    then show ?thesis using True by simp
  next
    case False
    then obtain k where k: "i div 64 = ?o + k" using le_Suc_ex not_less by blast
    have q: "i div 64 < ?lim" using i by (simp add: less_mult_imp_div_less mult.commute)
    have i': "i = 64 * (?o + k) + i mod 64" using k by (metis mult_div_mod_eq)
    have s: "shift = 64 * ?o + shift mod 64" by simp
    have v: "bit (shl_value bits (st p) shift k) (i mod 64) \<longleftrightarrow> shift mod 64 \<le> 64 * k + i mod 64
        \<and> 64 * k + i mod 64 - shift mod 64 < bits \<and> tbit (st p) (64 * k + i mod 64 - shift mod 64)"
      by (rule bit_shl_value) (use q k in auto)
    have e: "shift \<le> i \<longleftrightarrow> shift mod 64 \<le> 64 * k + i mod 64" "64 * k + i mod 64 - shift mod 64 = i - shift"
      using rebase [OF i' s] by simp_all
    have "bit (f (i div 64)) (i mod 64) \<longleftrightarrow> bit (shl_value bits (st p) shift k) (i mod 64) \<and> i < bits"
    proof -
      have dk: "i div 64 - ?o = k" and j: "i mod 64 < 64" using k by simp_all
      show ?thesis
        using mask_last [OF j q, of "shl_value bits (st p) shift k"] unfolding f_def dk mult_div_mod_eq .
    qed
    then show ?thesis using v False unfolding e by auto
  qed
  then show ?thesis using run by blast
qed


section \<open>Properties\<close>

text \<open>
  Shifting by at most the size of the bitmap moves every member of the set and drops those
  that leave it; the destination may be the source. \<open>bitmap_shift_right\<close> with a small size
  the compiler knows shifts the unused bits of the word in, so there the source must not have
  any.
\<close>

theorem bitmap_shifts_on_sets:
  assumes "0 < n" and "n \<le> 64 * length (st d)" and "n \<le> 64 * length (st p)" and "sh \<le> n" and "c \<longrightarrow> sh < 64"
    and "small_const_nbits c n \<longrightarrow> bset 64 (st p) \<subseteq> {..<n}"
  shows "(\<exists>st'. bitmap_shift_right c st d p sh n = Some st' \<and> holds_set n st d st' {i. i + sh \<in> bset n (st p)})
    \<and> (\<exists>st'. bitmap_shift_left c st d p sh n = Some st' \<and> holds_set n st d st' {i. i < n \<and> sh \<le> i \<and> i - sh \<in> bset n (st p)})"
proof (cases "small_const_nbits c n")
  case True
  then have c: c and n64: "n \<le> 64" by (simp_all add: small_const_nbits_def)
  have one: "BITS_TO_LONGS n = Suc 0" using small_one [OF True assms(1)] by simp
  note ne = first_word [OF assms(1,2)] first_word [OF assms(1,3)]
  have b: "tbit (st p) i \<longleftrightarrow> bit (st p ! 0) i" if "i < 64" for i using that by (simp add: tbit_def)
  have top: "i < n" if "bit (st p ! 0) i" for i
    using bit_imp_le_length [OF that] that b [of i] assms(6) True by (auto simp: bset_def)
  have r: "bit (drop_bit sh (st p ! 0)) (i mod 64) \<longleftrightarrow> i \<in> {i. i + sh \<in> bset n (st p)}" if "i < n" for i
    using that n64 b [of "i + sh"] top [of "i + sh"] by (auto simp: bit_simps add.commute)
  have mk: "n mod 64 = 0 \<or> i < n mod 64" if "i < n" for i using that n64 by (cases "n = 64") auto
  have l: "bit (push_bit sh (st p ! 0) AND LAST_WORD_MASK n) (i mod 64) \<longleftrightarrow> i \<in> {i. i < n \<and> sh \<le> i \<and> i - sh \<in> bset n (st p)}" if "i < n" for i
    using that n64 b [of "i - sh"] mk [OF that] by (auto simp: bit_simps)
  have sh: "sh < 64" using assms(5) c by simp
  have "bitmap_shift_right c st d p sh n = Some (with_words st d (BITS_TO_LONGS n) (\<lambda>k. drop_bit sh (st p ! 0)))"
    using True sh ne one by (simp add: bitmap_shift_right_def rd_eq write_first)
  moreover have "bitmap_shift_left c st d p sh n = Some (with_words st d (BITS_TO_LONGS n) (\<lambda>k. push_bit sh (st p ! 0) AND LAST_WORD_MASK n))"
    using True sh ne one by (simp add: bitmap_shift_left_def rd_eq write_first)
  ultimately show ?thesis
    by (auto intro!: holds_set_words [where st = st and d = d, OF assms(2)] simp: r l simp del: bset_iff) (auto simp: bset_def)
next
  case False
  have off: "sh div 64 \<le> BITS_TO_LONGS n" using div_le_mono [OF assms(4), of 64] by (simp add: BITS_TO_LONGS_eq)
  obtain f g where
    r: "bitmap_shift_right_words st d p sh n = Some (with_words st d (BITS_TO_LONGS n) f)"
       "\<And>i. i < 64 * BITS_TO_LONGS n \<Longrightarrow> bit (f (i div 64)) (i mod 64) \<longleftrightarrow> i + sh < n \<and> tbit (st p) (i + sh)" and
    l: "bitmap_shift_left_words st d p sh n = Some (with_words st d (BITS_TO_LONGS n) g)"
       "\<And>i. i < 64 * BITS_TO_LONGS n \<Longrightarrow> bit (g (i div 64)) (i mod 64) \<longleftrightarrow> i < n \<and> sh \<le> i \<and> tbit (st p) (i - sh)"
    using bitmap_shift_right_words_eq [of n st d p sh] bitmap_shift_left_words_eq [of n st d p sh] assms(2,3) off by blast
  have "holds_set n st d (with_words st d (BITS_TO_LONGS n) f) {i. i + sh \<in> bset n (st p)}"
    by (rule holds_set_words [where st = st and d = d, OF assms(2)]) (auto simp: r(2) below_words)
  moreover have "holds_set n st d (with_words st d (BITS_TO_LONGS n) g) {i. i < n \<and> sh \<le> i \<and> i - sh \<in> bset n (st p)}"
    by (rule holds_set_words [where st = st and d = d, OF assms(2)]) (auto simp: l(2) below_words)
  ultimately show ?thesis using r(1) l(1) False by (simp add: bitmap_shift_right_def bitmap_shift_left_def)
qed

theorem bitmap_shifts_on_sets_witness:
  "\<exists>st'. bitmap_shift_left False (\<lambda>p. [1, 0]) 0 0 65 70 = Some st' \<and> bset 70 (st' 0) = {65}"
proof -
  have t: "tbit [1, 0 :: ulong] j \<longleftrightarrow> j = 0" if "j < 70" for j
  proof (cases "j < 64")
    case True
    then show ?thesis by (simp add: tbit_def bit_1_iff)
  next
    case False
    then have "j div 64 = 1" using that by (intro div_nat_eqI) auto
    then show ?thesis using False by (auto simp: tbit_def)
  qed
  have "{i. i < 70 \<and> 65 \<le> i \<and> i - 65 \<in> bset 70 [1, 0 :: ulong]} = {65}"
    using t by (auto simp: bset_def)
  then show ?thesis
    using bitmap_shifts_on_sets [of 70 "\<lambda>p. [1, 0]" 0 0 65 False] unfolding holds_set_def
    by (auto simp: small_const_nbits_def simp del: bset_iff)
qed

end
