(* ===== verification/BitmapHex.thy ===== *)
theory BitmapHex
  imports BitmapShift CLib
begin

text \<open>
  \<open>src/src/bitmap.c\<close>: printing a bitmap in hexadecimal and parsing it back. Text is a list of
  bytes; character classes are those of the C locale. A call of \<open>snprintf\<close> gets the size the
  code computes, at the width of its type.
\<close>

section \<open>Code\<close>

definition CHUNKSZ :: nat where "CHUNKSZ = 32"

definition ALIGN :: "nat \<Rightarrow> nat \<Rightarrow> nat" where "ALIGN x a = (x + (a - 1)) - ((x + (a - 1)) AND (a - 1))"

definition snprintf_chunk :: "ulong list \<Rightarrow> nat \<Rightarrow> nat \<Rightarrow> byte list \<times> nat \<times> nat \<times> byte list \<Rightarrow> (byte list \<times> nat \<times> nat \<times> byte list) option" where
  "snprintf_chunk maskp buflen i = (\<lambda>(buf, len, chunksz, sep). do {
     let chunkmask = (ucast (push_bit chunksz 1 - 1 :: ulong) :: u32);
     w \<leftarrow> rd maskp (i div 64);
     let val = drop_bit (i mod 64) w AND ucast chunkmask;
     (buf, k) \<leftarrow> c_snprintf buf len (unat (of_nat buflen - of_nat len :: u32)) (sep @ fmt_hex ((chunksz + 3) div 4) (unat val));
     Some (buf, len + k, CHUNKSZ, [44]) })"

definition bitmap_snprintf :: "byte list \<Rightarrow> nat \<Rightarrow> ulong list \<Rightarrow> nat \<Rightarrow> (byte list \<times> nat) option" where
  "bitmap_snprintf buf buflen maskp nmaskbits = do {
     let chunksz = (let c = nmaskbits AND (CHUNKSZ - 1) in if c = 0 then CHUNKSZ else c);
     (buf, len, chunksz, sep) \<leftarrow> for_down (ALIGN nmaskbits CHUNKSZ div CHUNKSZ)
       (\<lambda>k. snprintf_chunk maskp buflen (k * CHUNKSZ)) (buf, 0, chunksz, []);
     Some (buf, len) }"

definition hex_to_bin :: "byte \<Rightarrow> int" where
  "hex_to_bin ch =
     (if 48 \<le> ch \<and> ch \<le> 57 then uint ch - 48
      else let ch = tolower ch in if 97 \<le> ch \<and> ch \<le> 102 then uint ch - 97 + 10 else - 1)"

fun next_chunk :: "nat \<Rightarrow> byte list \<Rightarrow> byte \<Rightarrow> nat \<Rightarrow> u32 \<Rightarrow> nat
    \<Rightarrow> (int + nat \<times> byte list \<times> byte \<times> nat \<times> u32 \<times> nat) option" where
  "next_chunk 0 buf c totaldigits chunk ndigits = Some (Inr (0, buf, c, totaldigits, chunk, ndigits))"
| "next_chunk (Suc buflen) [] c totaldigits chunk ndigits = None"
| "next_chunk (Suc buflen) (c # buf) old_c totaldigits chunk ndigits =
     (if isspace c then next_chunk buflen buf c totaldigits chunk ndigits
      else if totaldigits \<noteq> 0 \<and> c \<noteq> 0 \<and> isspace old_c then Some (Inl (- EINVAL))
      else if c = 0 \<or> c = 44 then Some (Inr (buflen, buf, c, totaldigits, chunk, ndigits))
      else if \<not> isxdigit c then Some (Inl (- EINVAL))
      else if chunk AND NOT (push_bit (32 - 4) 1 - 1) \<noteq> 0 then Some (Inl (- EOVERFLOW))
      else next_chunk buflen buf c (totaldigits + 1) (push_bit 4 chunk OR word_of_int (hex_to_bin c)) (ndigits + 1))"

partial_function (option) parse_loop :: "bms \<Rightarrow> nat \<Rightarrow> nat \<Rightarrow> nat \<Rightarrow> byte list \<Rightarrow> byte \<Rightarrow> nat \<Rightarrow> nat \<Rightarrow> nat \<Rightarrow> (int \<times> bms) option" where
  "parse_loop st maskp nmaskbits buflen buf c totaldigits nchunks nbits = do {
     r \<leftarrow> next_chunk buflen buf c totaldigits 0 0;
     case r of
       Inl e \<Rightarrow> Some (e, st)
     | Inr (buflen, buf, c, totaldigits, chunk, ndigits) \<Rightarrow>
         if ndigits = 0 then Some (- EINVAL, st)
         else if nchunks = 0 \<and> chunk = 0 then
           (if buflen \<noteq> 0 \<and> c = 44 then parse_loop st maskp nmaskbits buflen buf c totaldigits nchunks nbits else Some (0, st))
         else do {
           st \<leftarrow> bitmap_shift_left_words st maskp maskp CHUNKSZ nmaskbits;
           w \<leftarrow> rd (st maskp) 0;
           st \<leftarrow> bm_wr st maskp 0 (w OR ucast chunk);
           let nbits' = nbits + (if nchunks + 1 = 1 then nat (fls chunk) else CHUNKSZ);
           if nmaskbits < nbits' then Some (- EOVERFLOW, st)
           else if buflen \<noteq> 0 \<and> c = 44 then parse_loop st maskp nmaskbits buflen buf c totaldigits (nchunks + 1) nbits'
           else Some (0, st) } }"

definition bitmap_parse :: "bms \<Rightarrow> byte list \<Rightarrow> nat \<Rightarrow> nat \<Rightarrow> nat \<Rightarrow> (int \<times> bms) option" where
  "bitmap_parse st buf buflen maskp nmaskbits = do {
     st \<leftarrow> bitmap_zero False st maskp nmaskbits;
     parse_loop st maskp nmaskbits buflen buf 0 0 0 0 }"

definition bitmap_parse_user :: "bms \<Rightarrow> byte list \<Rightarrow> nat \<Rightarrow> nat \<Rightarrow> nat \<Rightarrow> (int \<times> bms) option" where
  "bitmap_parse_user st ubuf ulen maskp nmaskbits = bitmap_parse st ubuf ulen maskp nmaskbits"

section \<open>Hexadecimal digits\<close>

definition hex_val :: "byte \<Rightarrow> nat" where "hex_val c = nat (hex_to_bin c)"

definition hex_num :: "nat \<Rightarrow> byte list \<Rightarrow> nat" where "hex_num a ds = foldl (\<lambda>a c. 16 * a + hex_val c) a ds"

lemma hex_num_simps [simp]: "hex_num a [] = a" "hex_num a (c # ds) = hex_num (16 * a + hex_val c) ds" "hex_num a (ds @ es) = hex_num (hex_num a ds) es"
  by (simp_all add: hex_num_def)

lemma xdigit_facts:
  assumes "isxdigit c"
  shows "\<not> isspace c" "c \<noteq> 0" "c \<noteq> 44" "0 \<le> hex_to_bin c" "hex_to_bin c < 16"
proof -
  have "isxdigit c \<longrightarrow> \<not> isspace c \<and> c \<noteq> 0 \<and> c \<noteq> 44 \<and> 0 \<le> hex_to_bin c \<and> hex_to_bin c < 16"
    by (rule byte_cases) code_simp
  then show "\<not> isspace c" "c \<noteq> 0" "c \<noteq> 44" "0 \<le> hex_to_bin c" "hex_to_bin c < 16" using assms by simp_all
qed

lemma hex_val_less: "isxdigit c \<Longrightarrow> hex_val c < 16"
  using xdigit_facts(4,5) [of c] by (simp add: hex_val_def nat_less_iff)

lemma hex_digit_char:
  assumes "d < 16"
  shows "isxdigit (if d < 10 then 48 + of_nat d else 87 + of_nat d) \<and> hex_val (if d < 10 then 48 + of_nat d else 87 + of_nat d) = d"
proof -
  have "list_all (\<lambda>d. isxdigit (if d < 10 then 48 + of_nat d else 87 + of_nat d) \<and> hex_val (if d < 10 then 48 + of_nat d else 87 + of_nat d) = d) [0..<16]"
    by code_simp
  then show ?thesis using assms by (simp add: list_all_iff)
qed


lemma bit_below: "a < 2 ^ k \<Longrightarrow> bit a n \<Longrightarrow> n < k" for a :: nat
  by (metis bit_take_bit_iff take_bit_nat_eq_self)

lemma bit_shift_add:
  fixes a v :: nat
  assumes "v < 2 ^ k"
  shows "bit (a * 2 ^ k + v) i \<longleftrightarrow> (if i < k then bit v i else bit a (i - k))"
proof (cases "i < k")
  case True
  have "take_bit k (a * 2 ^ k + v) = v" using assms by (simp add: take_bit_eq_mod)
  then show ?thesis using True by (metis bit_take_bit_iff)
next
  case False
  then obtain j where j: "i = k + j" by (metis le_Suc_ex not_less)
  have "(a * 2 ^ k + v) div 2 ^ i = (a * 2 ^ k + v) div 2 ^ k div 2 ^ j" unfolding j by (simp add: power_add div_mult2_eq)
  also have "(a * 2 ^ k + v) div 2 ^ k = a" using assms by simp
  finally show ?thesis using j by (simp add: bit_iff_odd)
qed

lemma chunk_or:
  assumes "v < 16"
  shows "push_bit 4 (of_nat a) OR of_nat v = (of_nat (16 * a + v) :: u32)"
proof -
  have b: "n < 4" if "bit v n" for n using bit_below [of v 4 n] assms that by simp
  have "push_bit 4 (of_nat a) AND of_nat v = (0 :: u32)"
    by (intro bit_word_eqI) (auto simp: bit_simps dest!: b)
  then have "push_bit 4 (of_nat a) OR of_nat v = push_bit 4 (of_nat a) + (of_nat v :: u32)"
    by (simp add: disjunctive_add_eq_or)
  then show ?thesis by (simp add: push_bit_eq_mult)
qed

lemma chunk_room: "a < 2 ^ 28 \<Longrightarrow> of_nat a AND NOT (push_bit (32 - 4) 1 - 1) = (0 :: u32)"
proof (rule bit_word_eqI)
  fix n assume a: "a < 2 ^ 28" and n: "n < LENGTH(32)"
  have pb: "bit (push_bit (32 - 4) 1 - 1 :: u32) n \<longleftrightarrow> n < 28" using n by (simp only: push_bit_of_1 mask_eq_exp_minus_1 [symmetric]) (simp add: bit_mask_iff)
  have "bit (of_nat a :: u32) n \<longrightarrow> n < 28" using bit_below [OF a, of n] by (simp add: bit_of_nat_iff)
  then show "bit (of_nat a AND NOT (push_bit (32 - 4) 1 - 1) :: u32) n \<longleftrightarrow> bit (0 :: u32) n"
    unfolding bit_and_iff bit_not_iff pb by simp
qed

lemma next_chunk_digits:
  assumes "list_all isxdigit ds" and "length ds \<le> 8" and "a < 16 ^ (8 - length ds)" and "td = 0 \<or> \<not> isspace c"
  shows "next_chunk (length ds + k) (ds @ rest) c td (of_nat a) nd
    = next_chunk k rest (if ds = [] then c else last ds) (td + length ds) (of_nat (hex_num a ds)) (nd + length ds)"
  using assms
proof (induction ds arbitrary: c td a nd)
  case Nil
  then show ?case by simp
next
  case (Cons d ds)
  then have d: "isxdigit d" by simp
  have small: "a < 2 ^ 28"
  proof -
    have "(16 :: nat) ^ (8 - length (d # ds)) \<le> 16 ^ 7" by (rule power_increasing) simp_all
    then show ?thesis using Cons.prems(3) by simp
  qed
  have v: "word_of_int (hex_to_bin d) = (of_nat (hex_val d) :: u32)"
    using xdigit_facts(4) [OF d] by (simp add: hex_val_def)
  have step: "push_bit 4 (of_nat a) OR word_of_int (hex_to_bin d) = (of_nat (16 * a + hex_val d) :: u32)"
    unfolding v by (rule chunk_or [OF hex_val_less [OF d]])
  have "16 * a + hex_val d < 16 ^ (8 - length ds)"
  proof -
    have "8 - length ds = Suc (8 - length (d # ds))" using Cons.prems(2) by simp
    then have "(16 :: nat) ^ (8 - length ds) = 16 * 16 ^ (8 - length (d # ds))" by (simp only: power_Suc)
    then show ?thesis using Cons.prems(3) hex_val_less [OF d] by linarith
  qed
  then have IH: "next_chunk (length ds + k) (ds @ rest) d (Suc td) (of_nat (16 * a + hex_val d)) (Suc nd)
    = next_chunk k rest (if ds = [] then d else last ds) (Suc td + length ds) (of_nat (hex_num (16 * a + hex_val d) ds)) (Suc nd + length ds)"
    by (intro Cons.IH) (use Cons.prems xdigit_facts(1) [OF d] in auto)
  have "next_chunk (length (d # ds) + k) ((d # ds) @ rest) c td (of_nat a) nd
    = next_chunk (length ds + k) (ds @ rest) d (Suc td) (of_nat (16 * a + hex_val d)) (Suc nd)"
    using xdigit_facts(1-3) [OF d] d Cons.prems(4) step chunk_room [OF small] by auto
  then show ?case using IH by simp
qed

lemma hex_num_less: "list_all isxdigit ds \<Longrightarrow> hex_num a ds < (a + 1) * 16 ^ length ds"
proof (induction ds arbitrary: a)
  case Nil
  then show ?case by simp
next
  case (Cons d ds)
  then have "hex_num (16 * a + hex_val d) ds < (16 * a + hex_val d + 1) * 16 ^ length ds" by simp
  also have "\<dots> \<le> (16 * (a + 1)) * 16 ^ length ds"
    using hex_val_less [of d] Cons.prems by (intro mult_le_mono1) simp
  finally show ?case by (simp add: algebra_simps)
qed

section \<open>Parsing\<close>

fun join_chunks :: "byte list list \<Rightarrow> byte list" where
  "join_chunks [] = []"
| "join_chunks [c] = c"
| "join_chunks (c # cs) = c @ 44 # join_chunks cs"

definition chunk_ok :: "byte list \<Rightarrow> bool" where "chunk_ok ds \<longleftrightarrow> ds \<noteq> [] \<and> length ds \<le> 8 \<and> list_all isxdigit ds"

lemma chunk_less: "chunk_ok ds \<Longrightarrow> hex_num 0 ds < 2 ^ 32"
proof -
  assume ok: "chunk_ok ds"
  have "hex_num 0 ds < 16 ^ length ds" using hex_num_less [of ds 0] ok by (simp add: chunk_ok_def)
  also have "\<dots> \<le> 16 ^ 8" by (rule power_increasing) (use ok in \<open>simp_all add: chunk_ok_def\<close>)
  finally show ?thesis by simp
qed

lemma next_chunk_join:
  assumes "chunk_ok ds" and "td = 0 \<or> \<not> isspace c"
  shows "\<exists>c' td'. next_chunk (length (join_chunks (ds # cs))) (join_chunks (ds # cs)) c td 0 0
      = Some (Inr (length (join_chunks cs), join_chunks cs, c', td', of_nat (hex_num 0 ds), length ds))
    \<and> (cs \<noteq> [] \<longrightarrow> c' = 44) \<and> \<not> isspace c'"
proof -
  have l: "isxdigit (last ds)" using assms(1) by (simp add: chunk_ok_def list_all_iff)
  have n44: "\<not> isspace 44" by code_simp
  have digits: "next_chunk (length ds + k) (ds @ rest) c td 0 0 = next_chunk k rest (last ds) (td + length ds) (of_nat (hex_num 0 ds)) (length ds)" for k rest
    using next_chunk_digits [of ds 0 td c k rest 0] assms by (simp add: chunk_ok_def)
  show ?thesis
  proof (cases cs)
    case Nil
    then show ?thesis using digits [of 0 "[]"] xdigit_facts [OF l] by auto
  next
    case (Cons d cs')
    have "next_chunk (length ds + Suc (length (join_chunks cs))) (ds @ 44 # join_chunks cs) c td 0 0
      = Some (Inr (length (join_chunks cs), join_chunks cs, 44, td + length ds, of_nat (hex_num 0 ds), length ds))"
      unfolding digits using xdigit_facts(1) [OF l] n44 by simp
    then show ?thesis using Cons n44 by (simp del: next_chunk.simps)
  qed
qed


lemma fls_nat:
  assumes "0 < v" and "v < 2 ^ 32"
  shows "\<exists>k. fls (of_nat v) = int k + 1 \<and> 2 ^ k \<le> v \<and> v < 2 ^ Suc k"
proof -
  have ne: "of_nat v \<noteq> (0 :: u32)"
    using assms by (auto simp: word_of_nat_eq_0_iff dest: dvd_imp_le)
  then obtain k where k: "top_bit (of_nat v) k" using top_bit_exists by blast
  then have b: "bit v k" and t: "\<And>j. k < j \<Longrightarrow> j < 32 \<Longrightarrow> \<not> bit v j" by (auto simp: top_bit_def bit_of_nat_iff)
  have "2 ^ k \<le> v" using bit_below [of v k k] b by (meson less_irrefl not_less)
  moreover have "v < 2 ^ Suc k"
  proof -
    have "take_bit (Suc k) v = v"
    proof (rule bit_eqI)
      fix n show "bit (take_bit (Suc k) v) n \<longleftrightarrow> bit v n"
        using t [of n] bit_below [OF assms(2), of n] by (auto simp: bit_take_bit_iff less_Suc_eq_le intro: leI)
    qed
    then show ?thesis by (metis take_bit_nat_less_exp)
  qed
  ultimately show ?thesis using fls_top [OF k] by blast
qed

text \<open>The bitmap holds the bits of a number.\<close>

definition holds_num :: "nat \<Rightarrow> bms \<Rightarrow> nat \<Rightarrow> bms \<Rightarrow> nat \<Rightarrow> bool" where
  "holds_num n st p s N \<longleftrightarrow> holds_set n st p s {i. i < n \<and> bit N i}"

lemma shift_or_chunk:
  assumes "0 < n" and "n \<le> 64 * length (st p)" and "holds_num n st p s N" and "v < 2 ^ 32"
  shows "\<exists>s1 w s2. bitmap_shift_left_words s p p 32 n = Some s1 \<and> rd (s1 p) 0 = Some w
    \<and> bm_wr s1 p 0 (w OR ucast (of_nat v :: u32)) = Some s2 \<and> holds_num n st p s2 (N * 2 ^ 32 + v)"
proof -
  have len: "length (s p) = length (st p)" and set: "\<And>i. i < n \<Longrightarrow> tbit (s p) i \<longleftrightarrow> bit N i" and fr: "\<And>q. q \<noteq> p \<Longrightarrow> s q = st q"
    using assms(3) by (auto simp: holds_num_def holds_set_def set_eq_iff)
  have n': "n \<le> 64 * length (s p)" using assms(2) len by simp
  obtain f where f: "bitmap_shift_left_words s p p 32 n = Some (with_words s p (BITS_TO_LONGS n) f)"
      "\<And>i. i < 64 * BITS_TO_LONGS n \<Longrightarrow> bit (f (i div 64)) (i mod 64) \<longleftrightarrow> i < n \<and> 32 \<le> i \<and> tbit (s p) (i - 32)"
    using bitmap_shift_left_words_eq [where st = s and d = p, OF n' n', of 32] by auto
  let ?s1 = "with_words s p (BITS_TO_LONGS n) f"
  have L: "BITS_TO_LONGS n \<le> length (s p)" "0 < BITS_TO_LONGS n" using n' assms(1) BITS_TO_LONGS_le [of n 0] by (simp_all add: BITS_TO_LONGS_le)
  have l1: "length (?s1 p) = length (s p)" using L by simp
  have ne: "0 < length (?s1 p)" using L l1 by linarith
  let ?w = "?s1 p ! 0 OR ucast (of_nat v :: u32)"
  let ?s2 = "?s1(p := (?s1 p)[0 := ?w])"
  have "tbit (?s2 p) i \<longleftrightarrow> bit (N * 2 ^ 32 + v) i" if i: "i < n" for i
  proof -
    have t1: "tbit (?s1 p) i \<longleftrightarrow> 32 \<le> i \<and> bit N (i - 32)"
      using tbit_with_words [OF below_words [OF i], of s p f] f(2) [OF below_words [OF i]] i set [of "i - 32"] by auto
    have v: "bit v j \<Longrightarrow> j < 32" for j by (rule bit_below [OF assms(4)])
    show ?thesis
    proof (cases "i < 64")
      case True
      then have "tbit (?s2 p) i \<longleftrightarrow> bit ?w i" using ne by (simp add: tbit_def)
      also have "\<dots> \<longleftrightarrow> tbit (?s1 p) i \<or> bit v i" using True v [of i] by (auto simp: tbit_def bit_simps bit_of_nat_iff)
      finally show ?thesis using t1 v [of i] bit_shift_add [OF assms(4), of N i] by auto
    next
      case False
      then have "tbit (?s2 p) i \<longleftrightarrow> tbit (?s1 p) i" using ne by (simp add: tbit_def nth_list_update)
      then show ?thesis using t1 False bit_shift_add [OF assms(4), of N i] by simp
    qed
  qed
  then have "bset n (?s2 p) = {i. i < n \<and> bit (N * 2 ^ 32 + v) i}" by (auto simp: bset_def)
  moreover have "?s2 q = st q" if "q \<noteq> p" for q using that fr by (simp add: with_words_def)
  moreover have "length (?s2 p) = length (st p)" using l1 len by simp
  ultimately have "holds_num n st p ?s2 (N * 2 ^ 32 + v)" by (simp add: holds_num_def holds_set_def)
  moreover have "rd (?s1 p) 0 = Some (?s1 p ! 0)" "bm_wr ?s1 p 0 ?w = Some ?s2" using ne by (simp_all add: rd_eq bm_wr_eq)
  ultimately show ?thesis using f(1) by blast
qed

definition chunks_num :: "nat \<Rightarrow> byte list list \<Rightarrow> nat" where
  "chunks_num N cs = foldl (\<lambda>N ds. N * 2 ^ 32 + hex_num 0 ds) N cs"

lemma chunks_num_simps [simp]: "chunks_num N [] = N" "chunks_num N (ds # cs) = chunks_num (N * 2 ^ 32 + hex_num 0 ds) cs"
  by (simp_all add: chunks_num_def)

lemma chunks_num_ge: "N \<le> chunks_num N cs"
proof (induction cs arbitrary: N)
  case (Cons ds cs)
  have "N \<le> N * 2 ^ 32 + hex_num 0 ds" by simp
  then show ?case using Cons [of "N * 2 ^ 32 + hex_num 0 ds"] by (simp only: chunks_num_simps)
qed simp

lemma bits_grow:
  fixes N v :: nat
  assumes "0 < b" and "2 ^ (b - 1) \<le> N" and "N < 2 ^ b" and "v < 2 ^ 32"
  shows "2 ^ (b + 32 - 1) \<le> N * 2 ^ 32 + v \<and> N * 2 ^ 32 + v < 2 ^ (b + 32)"
proof
  obtain k where k: "b = Suc k" using assms(1) by (cases b) auto
  have "(2 :: nat) ^ (b + 32 - 1) = 2 ^ k * 2 ^ 32" unfolding k by (simp add: power_add)
  also have "\<dots> \<le> N * 2 ^ 32" by (rule mult_le_mono1) (use assms(2) k in simp)
  finally show "2 ^ (b + 32 - 1) \<le> N * 2 ^ 32 + v" by linarith
  have "N * 2 ^ 32 + v < (N + 1) * 2 ^ 32" using assms(4) by simp
  also have "\<dots> \<le> 2 ^ b * 2 ^ 32" by (rule mult_le_mono1) (use assms(3) in simp)
  finally show "N * 2 ^ 32 + v < 2 ^ (b + 32)" by (simp only: power_add)
qed

lemma parse_loop_chunks:
  assumes "0 < n" and "n \<le> 64 * length (st p)" and "cs \<noteq> []" and "list_all chunk_ok cs" and "td = 0 \<or> \<not> isspace c"
    and "holds_num n st p s N" and "if nch = 0 then N = 0 \<and> nb = 0 else 0 < nb \<and> nb \<le> n \<and> 2 ^ (nb - 1) \<le> N \<and> N < 2 ^ nb"
  shows "\<exists>s'. parse_loop s p n (length (join_chunks cs)) (join_chunks cs) c td nch nb
      = Some (if chunks_num N cs < 2 ^ n then 0 else - EOVERFLOW, s')
    \<and> (chunks_num N cs < 2 ^ n \<longrightarrow> holds_num n st p s' (chunks_num N cs)) \<and> (\<forall>q. q \<noteq> p \<longrightarrow> s' q = st q)"
  using assms(3-7)
proof (induction cs arbitrary: s c td nch nb N)
  case Nil
  then show ?case by simp
next
  case (Cons ds cs)
  let ?v = "hex_num 0 ds" and ?J = "join_chunks (ds # cs)"
  have ok: "chunk_ok ds" "list_all chunk_ok cs" using Cons.prems by simp_all
  have v: "?v < 2 ^ 32" by (rule chunk_less [OF ok(1)])
  obtain c' td' where nxt: "next_chunk (length ?J) ?J c td 0 0
      = Some (Inr (length (join_chunks cs), join_chunks cs, c', td', of_nat ?v, length ds))"
    and c': "cs \<noteq> [] \<longrightarrow> c' = 44" "\<not> isspace c'" using next_chunk_join [OF ok(1) Cons.prems(3), of cs] by blast
  have nd: "length ds \<noteq> 0" using ok(1) by (simp add: chunk_ok_def)
  have v0: "of_nat ?v = (0 :: u32) \<longleftrightarrow> ?v = 0" using v by (auto simp: word_of_nat_eq_0_iff dest: dvd_imp_le)
  have len: "length (join_chunks cs) \<noteq> 0 \<longleftrightarrow> cs \<noteq> []" using ok(2) by (cases cs rule: join_chunks.cases) (auto simp: chunk_ok_def)
  have fr: "\<forall>q. q \<noteq> p \<longrightarrow> s q = st q" using Cons.prems(4) by (simp add: holds_num_def holds_set_def)
  show ?case
  proof (cases "nch = 0 \<and> ?v = 0")
    case True
    then have N: "N = 0" "nb = 0" "N * 2 ^ 32 + ?v = 0" using Cons.prems(5) by simp_all
    show ?thesis
    proof (cases "cs = []")
      case last: True
      have "parse_loop s p n (length ?J) ?J c td nch nb = Some (0, s)"
        by (subst parse_loop.simps, unfold nxt) (use nd in \<open>simp add: True v0 last\<close>)
      then show ?thesis using last N Cons.prems(4) fr by simp
    next
      case False
      have run: "parse_loop s p n (length ?J) ?J c td nch nb = parse_loop s p n (length (join_chunks cs)) (join_chunks cs) c' td' nch nb"
        using False len c'(1) by (subst parse_loop.simps) (simp add: nxt nd True v0 del: next_chunk.simps join_chunks.simps length_0_conv)
      show ?thesis
        unfolding run chunks_num_simps N(3)
        by (rule Cons.IH) (use False ok c'(2) Cons.prems N True in auto)
    qed
  next
    case False
    obtain s1 w s2 where sh: "bitmap_shift_left_words s p p 32 n = Some s1" "rd (s1 p) 0 = Some w"
        "bm_wr s1 p 0 (w OR ucast (of_nat ?v :: u32)) = Some s2" "holds_num n st p s2 (N * 2 ^ 32 + ?v)"
      using shift_or_chunk [OF assms(1,2) Cons.prems(4) v] by blast
    let ?N = "N * 2 ^ 32 + ?v" and ?nb = "nb + (if nch + 1 = 1 then nat (fls (of_nat ?v)) else CHUNKSZ)"
    have nb: "0 < ?nb \<and> 2 ^ (?nb - 1) \<le> ?N \<and> ?N < 2 ^ ?nb"
    proof (cases "nch = 0")
      case True
      then obtain k where "fls (of_nat ?v) = int k + 1" "2 ^ k \<le> ?v" "?v < 2 ^ Suc k" using fls_nat [of ?v] False v by auto
      then show ?thesis using True Cons.prems(5) by (simp add: nat_add_distrib)
    next
      case nz: False
      then show ?thesis using bits_grow [of nb N ?v] Cons.prems(5) v by (simp add: CHUNKSZ_def)
    qed
    have fr2: "\<forall>q. q \<noteq> p \<longrightarrow> s2 q = st q" using sh(4) by (simp add: holds_num_def holds_set_def)
    have step: "parse_loop s p n (length ?J) ?J c td nch nb = (if n < ?nb then Some (- EOVERFLOW, s2)
      else if cs \<noteq> [] then parse_loop s2 p n (length (join_chunks cs)) (join_chunks cs) c' td' (nch + 1) ?nb else Some (0, s2))"
      using sh False nd v0 len c'(1) by (subst parse_loop.simps) (auto simp: nxt CHUNKSZ_def Let_def simp del: next_chunk.simps join_chunks.simps)
    show ?thesis
    proof (cases "n < ?nb")
      case True
      have "2 ^ n \<le> (2 :: nat) ^ (?nb - 1)" by (rule power_increasing) (use True in simp_all)
      also have "\<dots> \<le> ?N" using nb by simp
      also have "\<dots> \<le> chunks_num ?N cs" by (rule chunks_num_ge)
      finally show ?thesis using True fr2 unfolding step by simp
    next
      case fits: False
      show ?thesis
      proof (cases "cs = []")
        case True
        have "(2 :: nat) ^ ?nb \<le> 2 ^ n" by (rule power_increasing) (use fits in simp_all)
        then have "?N < 2 ^ n" using nb by linarith
        then show ?thesis using True fits fr2 sh(4) unfolding step by simp
      next
        case more: False
        have "\<exists>s'. parse_loop s2 p n (length (join_chunks cs)) (join_chunks cs) c' td' (nch + 1) ?nb
            = Some (if chunks_num ?N cs < 2 ^ n then 0 else - EOVERFLOW, s')
          \<and> (chunks_num ?N cs < 2 ^ n \<longrightarrow> holds_num n st p s' (chunks_num ?N cs)) \<and> (\<forall>q. q \<noteq> p \<longrightarrow> s' q = st q)"
          by (rule Cons.IH) (use more ok c'(2) sh(4) nb fits in auto)
        then show ?thesis using more fits unfolding step by simp
      qed
    qed
  qed
qed


section \<open>Printing\<close>

lemma hex_rev_num: "hex_num 0 (rev (hex_rev w v)) = v mod 16 ^ w"
proof (induction w arbitrary: v)
  case (Suc w)
  have "hex_val (if v mod 16 < 10 then 48 + of_nat (v mod 16) else 87 + of_nat (v mod 16)) = v mod 16"
    using hex_digit_char [of "v mod 16"] by simp
  then show ?case using Suc [of "v div 16"] mod_mult2_eq [of v 16 "16 ^ w"] by (simp add: Let_def add.commute)
qed simp

lemma hex_rev_xdigit: "list_all isxdigit (hex_rev w v)"
proof (induction w arbitrary: v)
  case (Suc w)
  then show ?case using hex_digit_char [of "v mod 16"] by (simp add: Let_def)
qed simp

lemma length_hex_rev [simp]: "length (hex_rev w v) = w"
  by (induction w arbitrary: v) (simp_all add: Let_def)

lemma hex_len_le: "v < 16 ^ w \<Longrightarrow> 0 < w \<Longrightarrow> hex_len v \<le> w"
proof (induction w arbitrary: v)
  case (Suc w)
  show ?case
  proof (cases "v < 16")
    case True
    then show ?thesis by (subst hex_len.simps) simp
  next
    case False
    then have "0 < w" using Suc.prems(1) by (cases w) auto
    moreover have "v div 16 < 16 ^ w" using Suc.prems(1) by (simp add: div_less_iff_less_mult mult.commute)
    ultimately have "hex_len (v div 16) \<le> w" by (intro Suc.IH)
    then show ?thesis using False by (subst hex_len.simps) simp
  qed
qed simp

lemma fmt_hex_facts:
  assumes "0 < w" and "v < 16 ^ w"
  shows "length (fmt_hex w v) = w" "list_all isxdigit (fmt_hex w v)" "hex_num 0 (fmt_hex w v) = v"
proof -
  have "max w (hex_len v) = w" using hex_len_le [OF assms(2,1)] by simp
  then show "length (fmt_hex w v) = w" "list_all isxdigit (fmt_hex w v)" "hex_num 0 (fmt_hex w v) = v"
    using hex_rev_num [of w v] hex_rev_xdigit [of w v] assms(2) by (simp_all add: fmt_hex_def list_all_iff)
qed

definition nchunks_of :: "nat \<Rightarrow> nat" where "nchunks_of n = (n + 31) div 32"

definition chunk_bits :: "nat \<Rightarrow> nat \<Rightarrow> nat" where
  "chunk_bits n k = (if Suc k = nchunks_of n \<and> n mod 32 \<noteq> 0 then n mod 32 else 32)"

definition chunk_val :: "ulong list \<Rightarrow> nat \<Rightarrow> nat \<Rightarrow> nat" where
  "chunk_val m n k = unat (drop_bit (k * 32 mod 64) (m ! (k * 32 div 64)) AND ucast (ucast (push_bit (chunk_bits n k) 1 - 1 :: ulong) :: u32))"

definition chunk_text :: "ulong list \<Rightarrow> nat \<Rightarrow> nat \<Rightarrow> byte list" where
  "chunk_text m n k = fmt_hex ((chunk_bits n k + 3) div 4) (chunk_val m n k)"

text \<open>The text of the chunks from the top one down to \<open>k\<close>.\<close>

definition text_from :: "ulong list \<Rightarrow> nat \<Rightarrow> nat \<Rightarrow> byte list" where
  "text_from m n k = join_chunks (map (chunk_text m n) (rev [k..<nchunks_of n]))"

lemma nchunks_eq: "nchunks_of n = n div 32 + (if n mod 32 = 0 then 0 else 1)"
proof -
  have "n + 31 = n mod 32 + 31 + 32 * (n div 32)" by simp
  then have "(n + 31) div 32 = n div 32 + (n mod 32 + 31) div 32" by (metis div_mult_self2 zero_neq_numeral)
  moreover have "(n mod 32 + 31) div 32 = (if n mod 32 = 0 then 0 else 1)"
    using mod_less_divisor [of 32 n] by (auto intro: div_nat_eqI)
  ultimately show ?thesis by (simp add: nchunks_of_def)
qed

lemma ALIGN_chunks: "ALIGN n CHUNKSZ div CHUNKSZ = nchunks_of n"
proof -
  have "(n + 31) AND 31 = (n + 31) mod 32"
    using take_bit_eq_mask [of 5 "n + 31"] by (simp add: take_bit_eq_mod mask_eq_exp_minus_1)
  then show ?thesis by (simp add: ALIGN_def CHUNKSZ_def nchunks_of_def minus_mod_eq_mult_div)
qed

lemma first_chunk_bits: "(let c = n AND (CHUNKSZ - 1) in if c = 0 then CHUNKSZ else c) = (if n mod 32 = 0 then 32 else n mod 32)"
proof -
  have "n AND 31 = n mod 32" using take_bit_eq_mask [of 5 n] by (simp add: take_bit_eq_mod mask_eq_exp_minus_1)
  then show ?thesis by (simp add: CHUNKSZ_def Let_def)
qed

lemma chunk_bits_bounds: "0 < chunk_bits n k" "chunk_bits n k \<le> 32"
  by (auto simp: chunk_bits_def intro: less_imp_le)

text \<open>Position \<open>i\<close> of the bitmap is bit \<open>i mod 32\<close> of chunk \<open>i div 32\<close>.\<close>

lemma in_chunk: "i div 32 < nchunks_of n \<and> i mod 32 < chunk_bits n (i div 32) \<longleftrightarrow> i < n"
proof -
  have i: "i = 32 * (i div 32) + i mod 32" and n: "n = 32 * (n div 32) + n mod 32" by simp_all
  show ?thesis
  proof (cases "i div 32 < n div 32")
    case True
    then have "i < n" by (metis div_le_mono not_less)
    moreover have "i mod 32 < chunk_bits n (i div 32)" using True by (auto simp: chunk_bits_def nchunks_eq)
    ultimately show ?thesis using True by (simp add: nchunks_eq)
  next
    case False
    show ?thesis
    proof (cases "i div 32 = n div 32")
      case True
      then have "i < n \<longleftrightarrow> i mod 32 < n mod 32" using i n by (metis nat_add_left_cancel_less)
      moreover have "n div 32 < nchunks_of n \<longleftrightarrow> n mod 32 \<noteq> 0" by (simp add: nchunks_eq)
      moreover have "n mod 32 \<noteq> 0 \<Longrightarrow> chunk_bits n (n div 32) = n mod 32" by (simp add: chunk_bits_def nchunks_eq)
      ultimately show ?thesis unfolding True by force
    next
      case neq: False
      then have "\<not> i < n" using False by (meson div_le_mono le_neq_implies_less less_imp_le)
      then show ?thesis using False neq by (simp add: nchunks_eq)
    qed
  qed
qed

lemma bit_unat: "bit (unat w) i \<longleftrightarrow> bit w i"
  by (simp add: bit_unsigned_iff)

lemma bit_chunk_val: "bit (chunk_val m n k) i \<longleftrightarrow> i < chunk_bits n k \<and> tbit m (32 * k + i)"
proof (cases "i < 32")
  case True
  let ?o = "k * 32 mod 64" and ?q = "k * 32 div 64"
  have o: "?o = 32 * (k mod 2)" using mult_mod_right [of 32 k 2] by (simp add: mult.commute)
  then have oi: "?o + i < 64" using True by (cases "k mod 2 = 0") auto
  have mk: "bit (ucast (ucast (push_bit (chunk_bits n k) 1 - 1 :: ulong) :: u32) :: ulong) i \<longleftrightarrow> i < chunk_bits n k"
    using True by (simp add: bit_simps bit_low_mask_exp)
  have "bit (chunk_val m n k) i \<longleftrightarrow> bit (m ! ?q) (?o + i) \<and> i < chunk_bits n k"
    unfolding chunk_val_def bit_unat bit_and_iff bit_drop_bit_eq comp_def mk ..
  also have "bit (m ! ?q) (?o + i) \<longleftrightarrow> tbit m (64 * ?q + (?o + i))" using oi by (simp add: tbit_word)
  also have "64 * ?q + (?o + i) = 32 * k + i" by (metis add.assoc mult.commute mult_div_mod_eq)
  finally show ?thesis by blast
next
  case False
  then have "\<not> bit (ucast (ucast (push_bit (chunk_bits n k) 1 - 1 :: ulong) :: u32) :: ulong) i" by (simp add: bit_simps)
  then have "\<not> bit (chunk_val m n k) i" unfolding chunk_val_def bit_unat bit_and_iff by blast
  then show ?thesis using False chunk_bits_bounds(2) [of n k] by simp
qed

lemma bits_less: "(\<And>i. bit a i \<Longrightarrow> i < k) \<Longrightarrow> a < 2 ^ k" for a :: nat
proof -
  assume b: "\<And>i. bit a i \<Longrightarrow> i < k"
  have "take_bit k a = a" by (rule bit_eqI) (use b in \<open>auto simp: bit_take_bit_iff\<close>)
  then show ?thesis by (metis take_bit_nat_less_exp)
qed

lemma chunk_text_facts: "chunk_ok (chunk_text m n k)" "hex_num 0 (chunk_text m n k) = chunk_val m n k"
proof -
  let ?w = "(chunk_bits n k + 3) div 4"
  have w: "0 < ?w" "?w \<le> 8" "chunk_bits n k \<le> 4 * ?w" using chunk_bits_bounds [of n k] by auto
  have "chunk_val m n k < 2 ^ chunk_bits n k" by (rule bits_less) (simp add: bit_chunk_val)
  also have "\<dots> \<le> 2 ^ (4 * ?w)" by (rule power_increasing [OF w(3)]) simp
  also have "(2 :: nat) ^ (4 * ?w) = 16 ^ ?w" by (simp add: power_mult)
  finally have v: "chunk_val m n k < 16 ^ ?w" .
  show "chunk_ok (chunk_text m n k)" "hex_num 0 (chunk_text m n k) = chunk_val m n k"
    using fmt_hex_facts [OF w(1) v] w by (auto simp: chunk_ok_def chunk_text_def)
qed

lemma bit_chunks_num:
  assumes "\<And>j. j < K \<Longrightarrow> hex_num 0 (g j) < 2 ^ 32"
  shows "bit (chunks_num N (map g (rev [0..<K]))) i \<longleftrightarrow> (if i < 32 * K then bit (hex_num 0 (g (i div 32))) (i mod 32) else bit N (i - 32 * K))"
  using assms
proof (induction K arbitrary: N)
  case (Suc K)
  then have IH: "bit (chunks_num (N * 2 ^ 32 + hex_num 0 (g K)) (map g (rev [0..<K]))) i
    \<longleftrightarrow> (if i < 32 * K then bit (hex_num 0 (g (i div 32))) (i mod 32) else bit (N * 2 ^ 32 + hex_num 0 (g K)) (i - 32 * K))"
    by simp
  have top: "bit (N * 2 ^ 32 + hex_num 0 (g K)) j \<longleftrightarrow> (if j < 32 then bit (hex_num 0 (g K)) j else bit N (j - 32))" for j
    by (rule bit_shift_add) (use Suc.prems in simp)
  have "i div 32 = K \<and> i mod 32 = i - 32 * K" if "\<not> i < 32 * K" "i - 32 * K < 32"
  proof -
    have "i div 32 = K" using that by (intro div_nat_eqI) auto
    then show ?thesis using minus_mult_div_eq_mod [of i 32] by simp
  qed
  then show ?case using IH top [of "i - 32 * K"] by (simp add: diff_diff_add add.commute) (auto simp: not_less)
qed simp

lemma text_num:
  "bit (chunks_num 0 (map (chunk_text m n) (rev [0..<nchunks_of n]))) i \<longleftrightarrow> i < n \<and> tbit m i"
proof -
  have "bit (chunks_num 0 (map (chunk_text m n) (rev [0..<nchunks_of n]))) i
    \<longleftrightarrow> i < 32 * nchunks_of n \<and> bit (chunk_val m n (i div 32)) (i mod 32)"
    by (subst bit_chunks_num [OF chunk_less [OF chunk_text_facts(1)]]) (simp add: chunk_text_facts(2))
  also have "i < 32 * nchunks_of n \<longleftrightarrow> i div 32 < nchunks_of n" by (simp add: div_less_iff_less_mult mult.commute)
  finally show ?thesis using in_chunk [of i n] by (auto simp: bit_chunk_val)
qed


lemma join_snoc: "cs \<noteq> [] \<Longrightarrow> join_chunks (cs @ [c]) = join_chunks cs @ 44 # c"
proof (induction cs rule: join_chunks.induct)
  case (3 c' d cs)
  then show ?case by simp
qed simp_all

lemma text_from_step:
  assumes "k < nchunks_of n"
  shows "text_from m n k = text_from m n (Suc k) @ (if Suc k = nchunks_of n then [] else [44]) @ chunk_text m n k"
proof (cases "Suc k = nchunks_of n")
  case True
  then have "[k..<nchunks_of n] = [k]" using assms by (metis upt_rec upt_conv_Nil order_refl lessI)
  then show ?thesis using True by (simp add: text_from_def)
next
  case False
  then have "[k..<nchunks_of n] = k # [Suc k..<nchunks_of n]" "[Suc k..<nchunks_of n] \<noteq> []" using assms by (simp_all add: upt_conv_Cons)
  then show ?thesis using False by (simp add: text_from_def join_snoc)
qed

lemma text_from_top: "text_from m n (nchunks_of n) = []"
  by (simp add: text_from_def)

lemma text_from_mono: "k \<le> j \<Longrightarrow> j \<le> nchunks_of n \<Longrightarrow> length (text_from m n j) \<le> length (text_from m n k)"
proof (induction k rule: inc_induct)
  case (step k)
  then show ?case using text_from_step [of k n m] by simp
qed simp

lemma snprintf_chunk_eq:
  assumes "n \<le> 64 * length m" and "k < nchunks_of n" and "buflen < 2 ^ 32"
  shows "snprintf_chunk m buflen (k * CHUNKSZ) (buf, len, chunk_bits n k, sep) = do {
    (buf, l) \<leftarrow> c_snprintf buf len (unat (of_nat buflen - of_nat len :: u32)) (sep @ chunk_text m n k);
    Some (buf, len + l, 32, [44]) }"
proof -
  have "k * 32 < n" using assms(2) in_chunk [of "k * 32" n] chunk_bits_bounds(1) [of n k] by simp
  then have "k * 32 div 64 < length m" using assms(1) by (intro div_less_iff_less_mult [THEN iffD2]) simp_all
  then show ?thesis by (simp only: snprintf_chunk_def prod.case CHUNKSZ_def rd_eq Let_def chunk_text_def chunk_val_def Option.bind.simps)
qed

definition sep_at :: "nat \<Rightarrow> nat \<Rightarrow> byte list" where "sep_at n k = (if k = nchunks_of n then [] else [44])"
definition bits_at :: "nat \<Rightarrow> nat \<Rightarrow> nat" where
  "bits_at n k = (if k = nchunks_of n then (if n mod 32 = 0 then 32 else n mod 32) else 32)"

lemma bits_at_Suc: "bits_at n (Suc k) = chunk_bits n k"
  by (simp add: bits_at_def chunk_bits_def)

lemma blit_extend: "length T + length S + 1 \<le> length buf \<Longrightarrow> blit (blit buf 0 (T @ [x])) (length T) (S @ [x]) = blit buf 0 (T @ S @ [x])"
  by (simp add: blit_def add.commute)

lemma unat_of_small: "x < 2 ^ 32 \<Longrightarrow> unat (of_nat x :: u32) = x"
  by (simp add: unsigned_of_nat take_bit_nat_eq_self)

lemma unat_room: "len \<le> buflen \<Longrightarrow> buflen < 2 ^ 32 \<Longrightarrow> unat (of_nat buflen - of_nat len :: u32) = buflen - len"
proof -
  assume a: "len \<le> buflen" "buflen < 2 ^ 32"
  have "of_nat buflen - of_nat len = (of_nat (buflen - len) :: u32)" using a(1) by (simp add: of_nat_diff)
  moreover have "buflen - len < 2 ^ 32" using a(2) by simp
  ultimately show ?thesis by (simp only: unat_of_small)
qed

lemma snprintf_loop:
  assumes "n \<le> 64 * length m" and "length (text_from m n 0) < buflen" and "buflen \<le> length buf" and "buflen < 2 ^ 32"
  shows "\<exists>s. for_down (nchunks_of n) (\<lambda>k. snprintf_chunk m buflen (k * CHUNKSZ)) (buf, 0, bits_at n (nchunks_of n), []) = Some s
    \<and> s = (if 0 = nchunks_of n then buf else blit buf 0 (text_from m n 0 @ [0]), length (text_from m n 0), bits_at n 0, sep_at n 0)"
proof (rule for_down_rule [where P = "\<lambda>k s. s = (if k = nchunks_of n then buf else blit buf 0 (text_from m n k @ [0]), length (text_from m n k), bits_at n k, sep_at n k)"])
  show "(buf, 0, bits_at n (nchunks_of n), []) = (if nchunks_of n = nchunks_of n then buf else blit buf 0 (text_from m n (nchunks_of n) @ [0]),
      length (text_from m n (nchunks_of n)), bits_at n (nchunks_of n), sep_at n (nchunks_of n))"
    by (simp add: text_from_top sep_at_def)
next
  fix k s
  let ?T = "text_from m n (Suc k)" and ?S = "sep_at n (Suc k) @ chunk_text m n k"
  let ?buf = "if Suc k = nchunks_of n then buf else blit buf 0 (?T @ [0])"
  assume k: "k < nchunks_of n" and s: "s = (?buf, length ?T, bits_at n (Suc k), sep_at n (Suc k))"
  have T: "text_from m n k = ?T @ ?S" using text_from_step [OF k, of m] by (simp add: sep_at_def)
  have fit: "length ?T + length ?S < buflen" using text_from_mono [of 0 k n m] k assms(2) T by simp
  have room: "unat (of_nat buflen - of_nat (length ?T) :: u32) = buflen - length ?T" using fit assms(4) by (intro unat_room) simp_all
  have "length ?buf = length buf" using fit assms(3) by simp
  then have "c_snprintf ?buf (length ?T) (buflen - length ?T) ?S = Some (blit ?buf (length ?T) (?S @ [0]), length ?S)"
    using fit assms(3) by (simp add: c_snprintf_def mem_write_eq)
  moreover have "blit ?buf (length ?T) (?S @ [0]) = blit buf 0 (text_from m n k @ [0])"
  proof (cases "Suc k = nchunks_of n")
    case True
    then have "?T = []" using text_from_top [of m n] by simp
    then show ?thesis using True T by simp
  next
    case False
    then show ?thesis using fit assms(3) T blit_extend [of ?T ?S buf 0] by simp
  qed
  ultimately have "snprintf_chunk m buflen (k * CHUNKSZ) s = Some (blit buf 0 (text_from m n k @ [0]), length ?T + length ?S, 32, [44])"
    unfolding s bits_at_Suc snprintf_chunk_eq [OF assms(1) k assms(4)] room by simp
  moreover have "bits_at n k = 32" "sep_at n k = [44]" using k by (simp_all add: bits_at_def sep_at_def)
  ultimately show "\<exists>s'. snprintf_chunk m buflen (k * CHUNKSZ) s = Some s'
      \<and> s' = (if k = nchunks_of n then buf else blit buf 0 (text_from m n k @ [0]), length (text_from m n k), bits_at n k, sep_at n k)"
    using k T by simp
qed

lemma bitmap_snprintf_eq:
  assumes "0 < n" and "n \<le> 64 * length m" and "length (text_from m n 0) < buflen" and "buflen \<le> length buf" and "buflen < 2 ^ 32"
  shows "bitmap_snprintf buf buflen m n = Some (blit buf 0 (text_from m n 0 @ [0]), length (text_from m n 0))"
proof -
  have K: "nchunks_of n \<noteq> 0" using assms(1) by (auto simp: nchunks_eq split: if_splits)
  have "for_down (nchunks_of n) (\<lambda>k. snprintf_chunk m buflen (k * CHUNKSZ)) (buf, 0, bits_at n (nchunks_of n), [])
    = Some (blit buf 0 (text_from m n 0 @ [0]), length (text_from m n 0), bits_at n 0, sep_at n 0)"
    using snprintf_loop [OF assms(2-5)] K by auto
  then show ?thesis
    unfolding bitmap_snprintf_def ALIGN_chunks first_chunk_bits by (simp add: bits_at_def)
qed

lemma for_down_partial:
  assumes "for_down n f s = Some t" and "P n s" and "\<And>k s s'. k < n \<Longrightarrow> P (Suc k) s \<Longrightarrow> f k s = Some s' \<Longrightarrow> P k s'"
  shows "P 0 t"
  using assms
proof (induction n arbitrary: s)
  case (Suc n)
  then obtain s' where s': "f n s = Some s'" "for_down n f s' = Some t" by (auto split: Option.bind_splits)
  have "P n s'" using Suc.prems(2,3) s'(1) by blast
  then show ?case by (rule Suc.IH [OF s'(2)]) (use Suc.prems(3) in auto)
qed simp

section \<open>Properties\<close>

lemma chunks_text_ok: "list_all chunk_ok (map (chunk_text m n) ks)"
  by (simp add: list_all_iff chunk_text_facts)

lemma bitmap_parse_text:
  assumes "0 < n" and "n \<le> 64 * length (st p)" and "cs \<noteq> []" and "list_all chunk_ok cs"
  shows "\<exists>st'. bitmap_parse st (join_chunks cs) (length (join_chunks cs)) p n = Some (if chunks_num 0 cs < 2 ^ n then 0 else - EOVERFLOW, st')
    \<and> (chunks_num 0 cs < 2 ^ n \<longrightarrow> holds_set n st p st' {i. bit (chunks_num 0 cs) i}) \<and> (\<forall>q. q \<noteq> p \<longrightarrow> st' q = st q)"
proof -
  obtain s0 where z: "bitmap_zero False st p n = Some s0" "holds_set n st p s0 {}"
    using bitmap_zero_eq [of n False st p] assms(1,2) holds_set_words [where st = st and d = p and f = "\<lambda>k. 0" and S = "{}", OF assms(2)] by auto
  then have "holds_num n st p s0 0" by (simp add: holds_num_def)
  then have "\<exists>s'. parse_loop s0 p n (length (join_chunks cs)) (join_chunks cs) 0 0 0 0 = Some (if chunks_num 0 cs < 2 ^ n then 0 else - EOVERFLOW, s')
    \<and> (chunks_num 0 cs < 2 ^ n \<longrightarrow> holds_num n st p s' (chunks_num 0 cs)) \<and> (\<forall>q. q \<noteq> p \<longrightarrow> s' q = st q)"
    by (intro parse_loop_chunks [where st = st and p = p, OF assms]) simp_all
  then obtain s' where s': "parse_loop s0 p n (length (join_chunks cs)) (join_chunks cs) 0 0 0 0 = Some (if chunks_num 0 cs < 2 ^ n then 0 else - EOVERFLOW, s')"
      "chunks_num 0 cs < 2 ^ n \<longrightarrow> holds_num n st p s' (chunks_num 0 cs)" "\<forall>q. q \<noteq> p \<longrightarrow> s' q = st q"
    by blast
  have "{i. i < n \<and> bit (chunks_num 0 cs) i} = {i. bit (chunks_num 0 cs) i}" if "chunks_num 0 cs < 2 ^ n"
    using bit_below [OF that] by blast
  then show ?thesis using s' z(1) by (auto simp: bitmap_parse_def holds_num_def)
qed

text \<open>
  \<open>bitmap_parse\<close> reads comma-separated chunks of up to eight hexadecimal digits as one
  number, 32 bits for each chunk, and the bitmap becomes the set of its bits; a number that needs
  more bits than the bitmap has is refused with \<open>-EOVERFLOW\<close>, whatever zero chunks it starts with.
\<close>

theorem bitmap_parse_reads_number:
  assumes "0 < n" and "n \<le> 64 * length (st p)" and "cs \<noteq> []" and "list_all chunk_ok cs"
  shows "\<exists>st'. bitmap_parse_user st (join_chunks cs) (length (join_chunks cs)) p n = Some (if chunks_num 0 cs < 2 ^ n then 0 else - EOVERFLOW, st')
    \<and> (chunks_num 0 cs < 2 ^ n \<longrightarrow> holds_set n st p st' {i. bit (chunks_num 0 cs) i}) \<and> (\<forall>q. q \<noteq> p \<longrightarrow> st' q = st q)"
  unfolding bitmap_parse_user_def by (rule bitmap_parse_text [where st = st and p = p, OF assms])

theorem bitmap_parse_reads_number_witness:
  "\<exists>st'. bitmap_parse_user (\<lambda>q. [0]) [49, 44, 48] 3 0 32 = Some (- EOVERFLOW, st')"
proof -
  have "hex_num 0 [49] = 1" "hex_num 0 [48] = 0" by code_simp+
  then have c: "chunks_num 0 [[49], [48]] = 2 ^ 32" unfolding chunks_num_simps by simp
  have "list_all chunk_ok [[49], [48]]" by code_simp
  from bitmap_parse_reads_number [of 32 "\<lambda>q. [0]" 0 "[[49], [48]]"] this c show ?thesis by (auto simp: numeral_3_eq_3)
qed

text \<open>
  C12. What \<open>bitmap_snprintf\<close> prints, \<open>bitmap_parse\<close> reads back: given room for the text and the
  final NUL the printer writes both at the start of the buffer and nothing else and returns the
  length of the text, and parsing that text gives the same set.
\<close>

theorem bitmap_text_roundtrip:
  assumes "0 < n" and "n \<le> 64 * length m" and "n \<le> 64 * length (st p)"
    and "length (text_from m n 0) < buflen" and "buflen \<le> length buf" and "buflen < 2 ^ 32"
  shows "\<exists>buf' len. bitmap_snprintf buf buflen m n = Some (buf', len) \<and> buf' = blit buf 0 (take len buf' @ [0])
    \<and> (\<exists>st'. bitmap_parse st (take len buf') len p n = Some (0, st') \<and> holds_set n st p st' (bset n m))"
proof -
  let ?T = "text_from m n 0" and ?cs = "map (chunk_text m n) (rev [0..<nchunks_of n])"
  let ?buf = "blit buf 0 (?T @ [0])"
  have run: "bitmap_snprintf buf buflen m n = Some (?buf, length ?T)" using assms(1,2,4-6) by (rule bitmap_snprintf_eq)
  have t: "take (length ?T) ?buf = ?T" by (simp add: blit_def)
  have K: "nchunks_of n \<noteq> 0" using assms(1) by (auto simp: nchunks_eq split: if_splits)
  have "chunks_num 0 ?cs < 2 ^ n" by (rule bits_less) (simp add: text_num)
  moreover have "{i. bit (chunks_num 0 ?cs) i} = bset n m" by (auto simp: text_num)
  ultimately have "\<exists>st'. bitmap_parse st (join_chunks ?cs) (length (join_chunks ?cs)) p n = Some (0, st') \<and> holds_set n st p st' (bset n m)"
    using bitmap_parse_text [where st = st and p = p and cs = ?cs, OF assms(1,3) _ chunks_text_ok] K by auto
  then have "\<exists>st'. bitmap_parse st (take (length ?T) ?buf) (length ?T) p n = Some (0, st') \<and> holds_set n st p st' (bset n m)"
    unfolding t by (simp only: text_from_def)
  moreover have "?buf = blit buf 0 (take (length ?T) ?buf @ [0])" unfolding t ..
  ultimately show ?thesis using run by blast
qed

theorem bitmap_text_roundtrip_witness:
  "\<exists>buf' len. bitmap_snprintf (replicate 4 1) 4 [10] 5 = Some (buf', len)"
proof -
  have "text_from [10] 5 0 = [48, 97]" by code_simp
  then show ?thesis using bitmap_text_roundtrip [of 5 "[10]" "\<lambda>q. [0]" 0 4 "replicate 4 1"] by auto
qed

text \<open>
  With a buffer that the text without its last chunk already overruns, \<open>bitmap_snprintf\<close>
  writes behind the buffer: the size it hands to \<open>snprintf\<close> is computed in unsigned arithmetic
  and wraps around. \<open>None\<close> is the access outside the object.
\<close>

theorem bitmap_snprintf_small_buffer:
  assumes "0 < n" and "n \<le> 64 * length m" and "length buf < length (text_from m n 1)" and "length (text_from m n 1) < 2 ^ 32"
  shows "bitmap_snprintf buf (length buf) m n = None"
proof -
  let ?P = "\<lambda>k (b, len, cs, sep). length b = length buf \<and> len = length (text_from m n k) \<and> cs = bits_at n k \<and> sep = sep_at n k \<and> 0 < k"
  have K: "1 < nchunks_of n"
  proof (rule ccontr)
    assume "\<not> ?thesis"
    then have "text_from m n 1 = []" by (simp add: text_from_def)
    then show False using assms(3) by simp
  qed
  have "for_down (nchunks_of n) (\<lambda>k. snprintf_chunk m (length buf) (k * CHUNKSZ)) (buf, 0, bits_at n (nchunks_of n), []) \<noteq> Some t" for t
  proof
    assume r: "for_down (nchunks_of n) (\<lambda>k. snprintf_chunk m (length buf) (k * CHUNKSZ)) (buf, 0, bits_at n (nchunks_of n), []) = Some t"
    have "?P 0 t"
    proof (rule for_down_partial [where P = ?P, OF r])
      show "?P (nchunks_of n) (buf, 0, bits_at n (nchunks_of n), [])" using K by (simp add: text_from_top sep_at_def)
    next
      fix k s s'
      assume k: "k < nchunks_of n" and P: "?P (Suc k) s" and s': "snprintf_chunk m (length buf) (k * CHUNKSZ) s = Some s'"
      obtain b where s: "s = (b, length (text_from m n (Suc k)), chunk_bits n k, sep_at n (Suc k))" and b: "length b = length buf"
        using P by (cases s) (auto simp: bits_at_Suc)
      have small: "length buf < 2 ^ 32" using assms(3,4) by simp
      obtain b' l where w: "c_snprintf b (length (text_from m n (Suc k))) (unat (of_nat (length buf) - of_nat (length (text_from m n (Suc k))) :: u32))
          (sep_at n (Suc k) @ chunk_text m n k) = Some (b', l)" and e: "s' = (b', length (text_from m n (Suc k)) + l, 32, [44])"
        using s' unfolding s snprintf_chunk_eq [OF assms(2) k small] by (auto split: Option.bind_splits)
      have l: "l = length (sep_at n (Suc k) @ chunk_text m n k)"
        using w by (auto simp: c_snprintf_def split: if_splits Option.bind_splits)
      have "length b' = length b"
        using w by (auto simp: c_snprintf_def simp del: take_append split: if_splits Option.bind_splits dest: mem_write_length)
      then have lb: "length b' = length buf" using b by simp
      have "k \<noteq> 0"
      proof
        assume k0: "k = 0"
        let ?r = "of_nat (length buf) - of_nat (length (text_from m n 1)) :: u32"
        have "?r \<noteq> 0"
        proof
          assume "?r = 0"
          then have "(of_nat (length buf) :: u32) = of_nat (length (text_from m n 1))" by simp
          then have "length buf = length (text_from m n 1)" using small assms(4) by (metis unat_of_small)
          then show False using assms(3) by simp
        qed
        then have "unat ?r \<noteq> 0" by (simp add: unat_eq_zero)
        then show False using w assms(3) b unfolding k0 by (auto simp: c_snprintf_def mem_write_def split: if_splits)
      qed
      moreover have "length (text_from m n k) = length (text_from m n (Suc k)) + l"
        using text_from_step [OF k, of m] l by (simp add: sep_at_def)
      ultimately show "?P k s'" using e lb k by (simp add: bits_at_def sep_at_def)
    qed
    then show False by (cases t) simp
  qed
  then have "for_down (nchunks_of n) (\<lambda>k. snprintf_chunk m (length buf) (k * CHUNKSZ)) (buf, 0, bits_at n (nchunks_of n), []) = None" using not_None_eq by blast
  then show ?thesis unfolding bitmap_snprintf_def ALIGN_chunks first_chunk_bits by (simp add: bits_at_def)
qed

theorem bitmap_snprintf_small_buffer_witness: "bitmap_snprintf [0, 0, 0, 0] 4 [0] 64 = None"
proof -
  have "text_from [0] 64 1 = replicate 8 48" by code_simp
  then have "bitmap_snprintf [0, 0, 0, 0] (length [0, 0, 0, 0 :: byte]) [0] 64 = None"
    by (intro bitmap_snprintf_small_buffer) simp_all
  moreover have "length [0, 0, 0, 0 :: byte] = 4" by simp
  ultimately show ?thesis by (simp only:)
qed

end
