(* ===== verification/BitmapMap.thy ===== *)
theory BitmapMap
  imports Bitmap
begin

text \<open>
  \<open>src/src/bitmap.c\<close>: positions and ordinals of set bits and the functions that map the members
  of one bitmap to another (remap, bitremap, onto, fold). The loop of \<open>for_each_set_bit\<close>
  (\<open>src/src/bits.h\<close>) is the combinator \<open>for_bits\<close>; \<open>get\<close> picks the words it searches out of
  the state of the loop. The size is not a constant in these functions.
\<close>

section \<open>Code\<close>

partial_function (option) for_bits :: "('s \<Rightarrow> ulong list) \<Rightarrow> nat \<Rightarrow> (nat \<Rightarrow> 's \<Rightarrow> 's option) \<Rightarrow> nat \<Rightarrow> 's \<Rightarrow> 's option" where
  "for_bits get sz body i s =
     (if i < sz then do {
        s \<leftarrow> body i s;
        i \<leftarrow> find_next_bit (get s) sz (i + 1);
        for_bits get sz body i s }
      else Some s)"

definition for_each_set_bit :: "('s \<Rightarrow> ulong list) \<Rightarrow> nat \<Rightarrow> (nat \<Rightarrow> 's \<Rightarrow> 's option) \<Rightarrow> 's \<Rightarrow> 's option" where
  "for_each_set_bit get sz body s = do { i \<leftarrow> find_first_bit (get s) sz; for_bits get sz body i s }"

partial_function (option) pos_to_ord_loop :: "ulong list \<Rightarrow> nat \<Rightarrow> nat \<Rightarrow> nat \<Rightarrow> int \<Rightarrow> (nat \<times> int) option" where
  "pos_to_ord_loop buf pos bits i ord =
     (if i < pos then do { i \<leftarrow> find_next_bit buf bits (i + 1); pos_to_ord_loop buf pos bits i (ord + 1) }
      else Some (i, ord))"

text \<open>\<open>BUG_ON\<close> (\<open>src/include/common.h\<close>) prints a message where its condition holds and goes on.\<close>

definition bitmap_pos_to_ord :: "ulong list \<Rightarrow> int \<Rightarrow> nat \<Rightarrow> int option" where
  "bitmap_pos_to_ord buf pos bits =
     (if pos < 0 \<or> int bits \<le> pos then Some (- 1)
      else do {
        set \<leftarrow> test_bit False (nat pos) buf;
        if \<not> set then Some (- 1)
        else do {
          i \<leftarrow> find_first_bit buf bits;
          (i, ord) \<leftarrow> pos_to_ord_loop buf (nat pos) bits i 0;
          Some ord } })"

partial_function (option) ord_to_pos_loop :: "ulong list \<Rightarrow> nat \<Rightarrow> nat \<Rightarrow> int \<Rightarrow> (nat \<times> int) option" where
  "ord_to_pos_loop buf bits i ord =
     (if i < bits \<and> 0 < ord then do { i' \<leftarrow> find_next_bit buf bits (i + 1); ord_to_pos_loop buf bits i' (ord - 1) }
      else Some (i, ord))"

definition bitmap_ord_to_pos :: "ulong list \<Rightarrow> int \<Rightarrow> nat \<Rightarrow> nat option" where
  "bitmap_ord_to_pos buf ord bits =
     (if 0 \<le> ord \<and> ord < int bits then do {
        i \<leftarrow> find_first_bit buf bits;
        (i, ord) \<leftarrow> ord_to_pos_loop buf bits i ord;
        Some (if i < bits \<and> ord = 0 then i else 0) }
      else Some 0)"

definition bm_set_bit :: "bms \<Rightarrow> nat \<Rightarrow> nat \<Rightarrow> bms option" where
  "bm_set_bit st nr dst = map_option (\<lambda>m. st(dst := m)) (set_bit nr (st dst))"

definition bitmap_bitremap :: "nat \<Rightarrow> ulong list \<Rightarrow> ulong list \<Rightarrow> nat \<Rightarrow> nat option" where
  "bitmap_bitremap oldbit old new bits = do {
     w \<leftarrow> bitmap_weight False new bits;
     n \<leftarrow> bitmap_pos_to_ord old (int oldbit) bits;
     if n < 0 \<or> w = 0 then Some oldbit else bitmap_ord_to_pos new (n mod int w) bits }"

definition bitmap_remap :: "bms \<Rightarrow> nat \<Rightarrow> nat \<Rightarrow> nat \<Rightarrow> nat \<Rightarrow> nat \<Rightarrow> bms option" where
  "bitmap_remap st dst src old new bits =
     (if dst = src then Some st
      else do {
        st \<leftarrow> bitmap_zero False st dst bits;
        w \<leftarrow> bitmap_weight False (st new) bits;
        for_each_set_bit (\<lambda>st. st src) bits (\<lambda>oldbit st. do {
          n \<leftarrow> bitmap_pos_to_ord (st old) (int oldbit) bits;
          if n < 0 \<or> w = 0 then bm_set_bit st oldbit dst
          else do {
            pos \<leftarrow> bitmap_ord_to_pos (st new) (n mod int w) bits;
            bm_set_bit st pos dst } }) st })"

definition bitmap_onto :: "bms \<Rightarrow> nat \<Rightarrow> nat \<Rightarrow> nat \<Rightarrow> nat \<Rightarrow> bms option" where
  "bitmap_onto st dst orig relmap bits =
     (if dst = orig then Some st
      else do {
        st \<leftarrow> bitmap_zero False st dst bits;
        (m, st) \<leftarrow> for_each_set_bit (\<lambda>(m, st). st relmap) bits (\<lambda>n (m, st). do {
          hit \<leftarrow> test_bit False m (st orig);
          st \<leftarrow> (if hit then bm_set_bit st n dst else Some st);
          Some (m + 1, st) }) (0, st);
        Some st })"

definition bitmap_fold :: "bms \<Rightarrow> nat \<Rightarrow> nat \<Rightarrow> nat \<Rightarrow> nat \<Rightarrow> bms option" where
  "bitmap_fold st dst orig sz bits =
     (if dst = orig then Some st
      else do {
        st \<leftarrow> bitmap_zero False st dst bits;
        for_each_set_bit (\<lambda>st. st orig) bits (\<lambda>oldbit st.
          if sz = 0 then None else bm_set_bit st (oldbit mod sz) dst) st })"

section \<open>The list of set positions\<close>

definition positions :: "ulong list \<Rightarrow> nat \<Rightarrow> nat list" where "positions m n = filter (tbit m) [0..<n]"

lemma set_positions [simp]: "set (positions m n) = bset n m"
  by (auto simp: positions_def)

lemma length_positions: "length (positions m n) = card (bset n m)"
  by (metis distinct_card distinct_filter distinct_upt positions_def set_positions)

lemma positions_Suc: "positions m (Suc n) = positions m n @ (if tbit m n then [n] else [])"
  by (simp add: positions_def)

lemma positions_gap: "a \<le> b \<Longrightarrow> (\<And>i. a \<le> i \<Longrightarrow> i < b \<Longrightarrow> \<not> tbit m i) \<Longrightarrow> positions m b = positions m a"
proof -
  assume ab: "a \<le> b" and gap: "\<And>i. a \<le> i \<Longrightarrow> i < b \<Longrightarrow> \<not> tbit m i"
  have "[0..<b] = [0..<a] @ [a..<b]" using ab upt_add_eq_append [of 0 a "b - a"] by simp
  moreover have "filter (tbit m) [a..<b] = []" using gap by simp
  ultimately show ?thesis by (simp add: positions_def)
qed

lemma positions_next: "off \<le> sz \<Longrightarrow> positions m (next_pos (tbit m) sz off) = positions m off"
  using next_pos_none [of off _ "tbit m" sz] next_pos_le [of "tbit m" sz off] next_pos_bounds [of "tbit m" sz off]
  by (cases "next_pos (tbit m) sz off < sz") (auto intro!: positions_gap)

lemma positions_split: "i < n \<Longrightarrow> tbit m i \<Longrightarrow> \<exists>r. positions m n = positions m i @ i # r"
proof -
  assume i: "i < n" "tbit m i"
  then have "[0..<n] = [0..<i] @ i # [Suc i..<n]" by (metis le_add1 add_diff_inverse_nat less_imp_le not_less upt_add_eq_append upt_conv_Cons le0)
  then show ?thesis using i(2) by (simp add: positions_def)
qed

text \<open>The ordinal of a position, and the position of an ordinal.\<close>

lemma positions_nth: "i < n \<Longrightarrow> tbit m i \<Longrightarrow> positions m n ! card (bset i m) = i"
  using positions_split [of i n m] length_positions [of m i] by (metis nth_append_length)

lemma positions_bound: "k < card (bset n m) \<Longrightarrow> positions m n ! k < n \<and> tbit m (positions m n ! k)"
  using nth_mem [of k "positions m n"] by (auto simp: length_positions)

lemma positions_rank:
  assumes "k < card (bset n m)"
  shows "card (bset (positions m n ! k) m) = k"
proof -
  let ?i = "positions m n ! k"
  have i: "?i < n" "tbit m ?i" using positions_bound [OF assms] by auto
  have "card (bset ?i m) < card (bset n m)" using i by (intro psubset_card_mono) (auto simp: bset_def)
  moreover have "distinct (positions m n)" by (simp add: positions_def)
  moreover have "positions m n ! card (bset ?i m) = ?i" using i by (rule positions_nth)
  ultimately show ?thesis using assms by (metis length_positions nth_eq_iff_index_eq)
qed

lemma bset_Suc: "tbit m i \<Longrightarrow> card (bset (Suc i) m) = Suc (card (bset i m))"
  using length_positions [of m "Suc i"] by (simp add: positions_Suc length_positions)

lemma bset_next: "off \<le> sz \<Longrightarrow> card (bset (next_pos (tbit m) sz off) m) = card (bset off m)"
  using positions_next [of off sz m] by (metis length_positions)

section \<open>The loop over the set bits\<close>

lemma for_bits_rule:
  assumes len: "sz \<le> 64 * length m" and "off \<le> sz" and "Q (positions m off) s" and get: "\<And>l s. Q l s \<Longrightarrow> get s = m"
    and step: "\<And>i s. i < sz \<Longrightarrow> tbit m i \<Longrightarrow> Q (positions m i) s \<Longrightarrow> \<exists>s'. body i s = Some s' \<and> Q (positions m i @ [i]) s'"
  shows "\<exists>s'. for_bits get sz body (next_pos (tbit m) sz off) s = Some s' \<and> Q (positions m sz) s'"
  using assms(2,3)
proof (induction "sz - off" arbitrary: off s rule: less_induct)
  case less
  let ?i = "next_pos (tbit m) sz off"
  show ?case
  proof (cases "?i < sz")
    case True
    then have i: "off \<le> ?i" "tbit m ?i" using next_pos_bounds by blast+
    have "Q (positions m ?i) s" using less.prems by (simp add: positions_next)
    then obtain s' where s': "body ?i s = Some s'" "Q (positions m (Suc ?i)) s'" using step [OF True i(2)] i(2) by (auto simp: positions_Suc)
    have "find_next_bit (get s') sz (?i + 1) = Some (next_pos (tbit m) sz (Suc ?i))"
      using find_next_bit_correct [OF len, of "Suc ?i"] get [OF s'(2)] by simp
    then have "for_bits get sz body ?i s = for_bits get sz body (next_pos (tbit m) sz (Suc ?i)) s'"
      using True s'(1) by (subst for_bits.simps) simp
    moreover have "\<exists>t. for_bits get sz body (next_pos (tbit m) sz (Suc ?i)) s' = Some t \<and> Q (positions m sz) t"
      by (rule less.hyps) (use i True s' in auto)
    ultimately show ?thesis by simp
  next
    case False
    then have "?i = sz" using next_pos_le [of "tbit m" sz off] by simp
    moreover have "Q (positions m ?i) s" using less.prems by (simp add: positions_next)
    ultimately show ?thesis by (subst for_bits.simps) simp
  qed
qed

lemma for_each_set_bit_rule:
  assumes "sz \<le> 64 * length m" and "Q [] s" and get: "\<And>l s. Q l s \<Longrightarrow> get s = m"
    and "\<And>i s. i < sz \<Longrightarrow> tbit m i \<Longrightarrow> Q (positions m i) s \<Longrightarrow> \<exists>s'. body i s = Some s' \<and> Q (positions m i @ [i]) s'"
  shows "\<exists>s'. for_each_set_bit get sz body s = Some s' \<and> Q (positions m sz) s'"
proof -
  have "find_first_bit (get s) sz = Some (next_pos (tbit m) sz 0)"
    using find_next_bit_correct [OF assms(1), of 0] get [OF assms(2)] by (simp add: find_first_bit_eq)
  moreover have "Q (positions m 0) s" using assms(2) by (simp add: positions_def)
  then have "\<exists>s'. for_bits get sz body (next_pos (tbit m) sz 0) s = Some s' \<and> Q (positions m sz) s'"
    using assms by (intro for_bits_rule [where Q = Q]) auto
  ultimately show ?thesis by (simp add: for_each_set_bit_def)
qed

section \<open>Ordinals\<close>

lemma pos_to_ord_loop_correct:
  assumes "bits \<le> 64 * length buf" and "pos < bits" and "tbit buf pos" and "off \<le> pos"
  shows "pos_to_ord_loop buf pos bits (next_pos (tbit buf) bits off) (int (card (bset off buf))) = Some (pos, int (card (bset pos buf)))"
  using assms(4)
proof (induction "pos - off" arbitrary: off rule: less_induct)
  case less
  let ?i = "next_pos (tbit buf) bits off"
  have le: "?i \<le> pos"
  proof (rule ccontr)
    assume "\<not> ?i \<le> pos"
    then show False using next_pos_none [OF less.prems, of "tbit buf" bits] assms(2,3) by simp
  qed
  have c: "card (bset ?i buf) = card (bset off buf)" using less.prems assms(2) by (intro bset_next) simp
  show ?case
  proof (cases "?i < pos")
    case True
    then have i: "off \<le> ?i" "tbit buf ?i" using next_pos_bounds [of "tbit buf" bits off] assms(2) by auto
    have "find_next_bit buf bits (?i + 1) = Some (next_pos (tbit buf) bits (Suc ?i))"
      using find_next_bit_correct [OF assms(1), of "Suc ?i"] by simp
    moreover have "int (card (bset off buf)) + 1 = int (card (bset (Suc ?i) buf))" using bset_Suc [OF i(2)] c by simp
    moreover have "pos_to_ord_loop buf pos bits (next_pos (tbit buf) bits (Suc ?i)) (int (card (bset (Suc ?i) buf))) = Some (pos, int (card (bset pos buf)))"
      by (rule less.hyps) (use i True in auto)
    ultimately show ?thesis using True by (subst pos_to_ord_loop.simps) simp
  next
    case False
    then have "?i = pos" using le by simp
    then show ?thesis using c by (subst pos_to_ord_loop.simps) simp
  qed
qed

lemma bitmap_pos_to_ord_correct:
  assumes "bits \<le> 64 * length buf"
  shows "bitmap_pos_to_ord buf (int pos) bits = Some (if pos \<in> bset bits buf then int (card (bset pos buf)) else - 1)"
proof (cases "pos < bits")
  case True
  then have t: "test_bit False pos buf = Some (tbit buf pos)" using assms by (intro test_bit_tbit) simp
  have "find_first_bit buf bits = Some (next_pos (tbit buf) bits 0)"
    using find_next_bit_correct [OF assms, of 0] by (simp add: find_first_bit_eq)
  moreover have "tbit buf pos \<Longrightarrow> pos_to_ord_loop buf pos bits (next_pos (tbit buf) bits 0) 0 = Some (pos, int (card (bset pos buf)))"
    using pos_to_ord_loop_correct [OF assms True _ le0] by (simp add: bset_def)
  ultimately show ?thesis using True t by (simp add: bitmap_pos_to_ord_def)
qed (simp add: bitmap_pos_to_ord_def)

lemma ord_to_pos_loop_correct:
  assumes "bits \<le> 64 * length buf" and "off \<le> bits" and "card (bset off buf) \<le> k"
  shows "\<exists>i ord. ord_to_pos_loop buf bits (next_pos (tbit buf) bits off) (int k - int (card (bset off buf))) = Some (i, ord)
    \<and> (if i < bits \<and> ord = 0 then k < card (bset bits buf) \<and> i = positions buf bits ! k else card (bset bits buf) \<le> k)"
  using assms(2,3)
proof (induction "bits - off" arbitrary: off rule: less_induct)
  case less
  let ?i = "next_pos (tbit buf) bits off"
  have c: "card (bset ?i buf) = card (bset off buf)" using less.prems by (intro bset_next)
  show ?case
  proof (cases "?i < bits")
    case False
    then have "?i = bits" using next_pos_le [of "tbit buf" bits off] by simp
    then show ?thesis using c less.prems by (subst ord_to_pos_loop.simps) simp
  next
    case True
    then have i: "off \<le> ?i" "tbit buf ?i" using next_pos_bounds by blast+
    show ?thesis
    proof (cases "card (bset off buf) = k")
      case eq: True
      have "card (bset ?i buf) < card (bset bits buf)" using i True by (intro psubset_card_mono) (auto simp: bset_def)
      then show ?thesis using eq c True positions_nth [OF True i(2)] by (subst ord_to_pos_loop.simps) simp
    next
      case False
      have "find_next_bit buf bits (?i + 1) = Some (next_pos (tbit buf) bits (Suc ?i))"
        using find_next_bit_correct [OF assms(1), of "Suc ?i"] by simp
      moreover have "int k - int (card (bset off buf)) - 1 = int k - int (card (bset (Suc ?i) buf))" using bset_Suc [OF i(2)] c by simp
      moreover have "\<exists>j ord. ord_to_pos_loop buf bits (next_pos (tbit buf) bits (Suc ?i)) (int k - int (card (bset (Suc ?i) buf))) = Some (j, ord)
        \<and> (if j < bits \<and> ord = 0 then k < card (bset bits buf) \<and> j = positions buf bits ! k else card (bset bits buf) \<le> k)"
        by (rule less.hyps) (use i True False less.prems bset_Suc [OF i(2)] c in auto)
      moreover have "ord_to_pos_loop buf bits ?i (int k - int (card (bset off buf)))
        = do { i' \<leftarrow> find_next_bit buf bits (?i + 1); ord_to_pos_loop buf bits i' (int k - int (card (bset off buf)) - 1) }"
        using True False less.prems by (subst ord_to_pos_loop.simps) simp
      ultimately show ?thesis by (simp only: Option.bind.simps)
    qed
  qed
qed

lemma card_bset_le: "card (bset n m) \<le> n"
  using card_mono [of "{..<n}" "bset n m"] by (auto simp: bset_def)

lemma bitmap_ord_to_pos_correct:
  assumes "bits \<le> 64 * length buf"
  shows "bitmap_ord_to_pos buf (int k) bits = Some (if k < card (bset bits buf) then positions buf bits ! k else 0)"
proof (cases "k < bits")
  case True
  have "find_first_bit buf bits = Some (next_pos (tbit buf) bits 0)"
    using find_next_bit_correct [OF assms, of 0] by (simp add: find_first_bit_eq)
  moreover obtain i ord where "ord_to_pos_loop buf bits (next_pos (tbit buf) bits 0) (int k) = Some (i, ord)"
    "if i < bits \<and> ord = 0 then k < card (bset bits buf) \<and> i = positions buf bits ! k else card (bset bits buf) \<le> k"
    using ord_to_pos_loop_correct [OF assms le0, of k] by (auto simp: bset_def)
  ultimately show ?thesis using True by (auto simp: bitmap_ord_to_pos_def split: if_splits)
next
  case False
  then show ?thesis using card_bset_le [of bits buf] by (simp add: bitmap_ord_to_pos_def)
qed


section \<open>The maps\<close>

text \<open>Where one position goes: by its ordinal in \<open>old\<close> to that ordinal in \<open>new\<close>, wrapping around.\<close>

definition remap_pos :: "ulong list \<Rightarrow> ulong list \<Rightarrow> nat \<Rightarrow> nat \<Rightarrow> nat" where
  "remap_pos old new bits b = (if b \<in> bset bits old \<and> bset bits new \<noteq> {}
     then positions new bits ! (card (bset b old) mod card (bset bits new)) else b)"

lemma rank_mod: "bset n m \<noteq> {} \<Longrightarrow> k mod card (bset n m) < card (bset n m)"
  by (rule mod_less_divisor) (simp add: card_gt_0_iff)

lemma remap_pos_less: "b < bits \<Longrightarrow> remap_pos old new bits b < bits"
  using positions_bound [OF rank_mod] by (auto simp: remap_pos_def simp del: bset_iff)

lemma weight_card: "bits \<le> 64 * length m \<Longrightarrow> bitmap_weight False m bits = Some (card (bset bits m))"
  using bitmap_weight_words_card by (simp add: bitmap_weight_def small_const_nbits_def)

lemma remap_step:
  assumes "bits \<le> 64 * length old" and "bits \<le> 64 * length new"
  shows "do { n \<leftarrow> bitmap_pos_to_ord old (int b) bits;
      if n < 0 \<or> card (bset bits new) = 0 then f b else do { pos \<leftarrow> bitmap_ord_to_pos new (n mod int (card (bset bits new))) bits; f pos } }
    = f (remap_pos old new bits b)"
proof (cases "b \<in> bset bits old \<and> bset bits new \<noteq> {}")
  case True
  let ?k = "card (bset b old) mod card (bset bits new)"
  have lt: "?k < card (bset bits new)" using True by (intro rank_mod) simp
  have ord: "bitmap_ord_to_pos new (int ?k) bits = Some (positions new bits ! ?k)"
    using bitmap_ord_to_pos_correct [OF assms(2), of ?k] unfolding if_P [OF lt] .
  have "card (bset bits new) \<noteq> 0" using True by simp
  moreover have "int (card (bset b old)) mod int (card (bset bits new)) = int ?k" by (simp add: zmod_int)
  ultimately show ?thesis
    using True bitmap_pos_to_ord_correct [OF assms(1), of b] ord
    by (simp add: remap_pos_def)
next
  case False
  then show ?thesis using bitmap_pos_to_ord_correct [OF assms(1), of b] by (auto simp: remap_pos_def)
qed

lemma bitmap_bitremap_eq:
  assumes "bits \<le> 64 * length old" and "bits \<le> 64 * length new"
  shows "bitmap_bitremap b old new bits = Some (remap_pos old new bits b)"
  using remap_step [OF assms, of b Some] unfolding bitmap_bitremap_def weight_card [OF assms(2)] Option.bind_runit by simp

lemma zero_holds:
  assumes "bits \<le> 64 * length (st d)"
  shows "\<exists>st'. bitmap_zero False st d bits = Some st' \<and> holds_set bits st d st' {}"
  using bitmap_zero_eq [of bits False st d] assms by (auto intro!: holds_set_words)

lemma holds_set_add:
  assumes "holds_set bits st d s S" and "bits \<le> 64 * length (st d)" and "i < bits"
  shows "\<exists>s'. bm_set_bit s i d = Some s' \<and> holds_set bits st d s' (insert i S)"
proof -
  have "i < 64 * length (s d)" using assms by (simp add: holds_set_def)
  then obtain m where m: "set_bit i (s d) = Some m" "length m = length (s d)" "tbit m = (tbit (s d))(i := True)"
    using set_bit_tbit by blast
  then have "bset bits m = insert i (bset bits (s d))" using assms(3) by (auto simp: bset_def)
  then show ?thesis using m assms(1) by (auto simp: bm_set_bit_def holds_set_def)
qed

lemma holds_set_other: "holds_set n st d s S \<Longrightarrow> p \<noteq> d \<Longrightarrow> s p = st p"
  by (simp add: holds_set_def)

lemma bitmap_remap_holds:
  assumes "d \<noteq> p" and "d \<noteq> old" and "d \<noteq> new"
    and "bits \<le> 64 * length (st d)" and "bits \<le> 64 * length (st p)" and "bits \<le> 64 * length (st old)" and "bits \<le> 64 * length (st new)"
  shows "\<exists>st'. bitmap_remap st d p old new bits = Some st' \<and> holds_set bits st d st' (remap_pos (st old) (st new) bits ` bset bits (st p))"
proof -
  let ?f = "remap_pos (st old) (st new) bits"
  obtain s0 where z: "bitmap_zero False st d bits = Some s0" "holds_set bits st d s0 {}" using zero_holds [where st = st and d = d, OF assms(4)] by blast
  note frame = holds_set_other [where st = st and d = d]
  let ?body = "\<lambda>oldbit s. do {
          n \<leftarrow> bitmap_pos_to_ord (s old) (int oldbit) bits;
          if n < 0 \<or> card (bset bits (st new)) = 0 then bm_set_bit s oldbit d
          else do {
            pos \<leftarrow> bitmap_ord_to_pos (s new) (n mod int (card (bset bits (st new)))) bits;
            bm_set_bit s pos d } }"
  have "\<exists>s'. for_each_set_bit (\<lambda>s. s p) bits ?body s0 = Some s' \<and> holds_set bits st d s' (?f ` set (positions (st p) bits))"
  proof (rule for_each_set_bit_rule [where Q = "\<lambda>l s. holds_set bits st d s (?f ` set l)", OF assms(5)])
    fix i s assume i: "i < bits" and s: "holds_set bits st d s (?f ` set (positions (st p) i))"
    have o: "s old = st old" "s new = st new" using frame [OF s] assms(2,3) by auto
    have "?body i s = bm_set_bit s (?f i) d"
      using remap_step [OF assms(6,7), of i "\<lambda>b. bm_set_bit s b d"] unfolding o .
    then show "\<exists>s'. ?body i s = Some s' \<and> holds_set bits st d s' (?f ` set (positions (st p) i @ [i]))"
      using holds_set_add [OF s assms(4) remap_pos_less [OF i]] by simp
  qed (use z assms(1) frame in auto)
  then show ?thesis
    using z(1) weight_card [OF assms(7)] frame [OF z(2), of new] assms(1,3) by (simp add: bitmap_remap_def)
qed

lemma bitmap_onto_holds:
  assumes "d \<noteq> orig" and "d \<noteq> rel"
    and "bits \<le> 64 * length (st d)" and "bits \<le> 64 * length (st orig)" and "bits \<le> 64 * length (st rel)"
  shows "\<exists>st'. bitmap_onto st d orig rel bits = Some st'
    \<and> holds_set bits st d st' {positions (st rel) bits ! k | k. k < card (bset bits (st rel)) \<and> k \<in> bset bits (st orig)}"
proof -
  let ?S = "\<lambda>n. {positions (st rel) bits ! k | k. k < n \<and> k \<in> bset bits (st orig)}"
  let ?Q = "\<lambda>l (m, s). m = length l \<and> holds_set bits st d s (?S (length l))"
  obtain s0 where z: "bitmap_zero False st d bits = Some s0" "holds_set bits st d s0 {}" using zero_holds [where st = st and d = d, OF assms(3)] by blast
  note frame = holds_set_other [where st = st and d = d]
  let ?body = "\<lambda>n (m, s). do {
          hit \<leftarrow> test_bit False m (s orig);
          s \<leftarrow> (if hit then bm_set_bit s n d else Some s);
          Some (m + 1, s) }"
  have get: "(\<lambda>(m, s). s rel) ms = st rel" if "?Q l ms" for l ms
    using that frame [of bits "snd ms" _ rel] assms(2) by (cases ms) auto
  have "\<exists>s'. for_each_set_bit (\<lambda>(m, s). s rel) bits ?body (0, s0) = Some s' \<and> ?Q (positions (st rel) bits) s'"
  proof (rule for_each_set_bit_rule [where Q = ?Q, OF assms(5)])
    fix i ms assume i: "i < bits" "tbit (st rel) i" and Q: "?Q (positions (st rel) i) ms"
    obtain m s where ms: "ms = (m, s)" by (cases ms)
    with Q have m: "m = card (bset i (st rel))" and s: "holds_set bits st d s (?S m)" by (auto simp: length_positions)
    have mb: "m < bits" using m i(1) card_bset_le [of i "st rel"] by simp
    then have t: "test_bit False m (s orig) = Some (tbit (st orig) m)"
      using test_bit_tbit [of m "st orig" False] assms(4) frame [OF s] assms(1) by simp
    have nth: "positions (st rel) bits ! m = i" using positions_nth [OF i] m by simp
    have "?S (Suc m) = (if tbit (st orig) m then insert i (?S m) else ?S m)"
      using nth mb by (auto simp: less_Suc_eq)
    then have "\<exists>s'. (if tbit (st orig) m then bm_set_bit s i d else Some s) = Some s' \<and> holds_set bits st d s' (?S (Suc m))"
      using holds_set_add [OF s assms(3) i(1)] s by auto
    then obtain s' where "(if tbit (st orig) m then bm_set_bit s i d else Some s) = Some s'" "holds_set bits st d s' (?S (Suc m))" by blast
    then have "?body i ms = Some (Suc m, s') \<and> holds_set bits st d s' (?S (Suc m))" using ms t by (simp del: not_None_eq)
    then show "\<exists>s'. ?body i ms = Some s' \<and> ?Q (positions (st rel) i @ [i]) s'" using m by (auto simp: length_positions)
  qed (use z in simp, rule get)
  then show ?thesis using z(1) assms(1) by (auto simp: bitmap_onto_def length_positions)
qed

lemma bitmap_fold_holds:
  assumes "d \<noteq> orig" and "0 < sz" and "bits \<le> 64 * length (st d)" and "bits \<le> 64 * length (st orig)"
  shows "\<exists>st'. bitmap_fold st d orig sz bits = Some st' \<and> holds_set bits st d st' ((\<lambda>i. i mod sz) ` bset bits (st orig))"
proof -
  obtain s0 where z: "bitmap_zero False st d bits = Some s0" "holds_set bits st d s0 {}" using zero_holds [where st = st and d = d, OF assms(3)] by blast
  let ?body = "\<lambda>i s. if sz = 0 then None else bm_set_bit s (i mod sz) d"
  have "\<exists>s'. for_each_set_bit (\<lambda>s. s orig) bits ?body s0 = Some s' \<and> holds_set bits st d s' ((\<lambda>i. i mod sz) ` set (positions (st orig) bits))"
  proof (rule for_each_set_bit_rule [where Q = "\<lambda>l s. holds_set bits st d s ((\<lambda>i. i mod sz) ` set l)", OF assms(4)])
    fix i s assume i: "i < bits" and s: "holds_set bits st d s ((\<lambda>i. i mod sz) ` set (positions (st orig) i))"
    have "i mod sz < bits" using i by (meson le_less_trans mod_less_eq_dividend)
    then show "\<exists>s'. ?body i s = Some s' \<and> holds_set bits st d s' ((\<lambda>i. i mod sz) ` set (positions (st orig) i @ [i]))"
      using holds_set_add [OF s assms(3)] assms(2) by simp
  qed (use z assms(1) holds_set_other [where st = st and d = d] in auto)
  then show ?thesis using z(1) assms(1) by (simp add: bitmap_fold_def)
qed

section \<open>Properties\<close>

text \<open>
  \<open>bitmap_remap\<close> sends every member of the source to the position that has, among the
  members of \<open>new\<close>, the ordinal it has among those of \<open>old\<close>, modulo their number, and keeps what
  is not in \<open>old\<close>; \<open>bitmap_bitremap\<close> does so for one position; \<open>bitmap_onto\<close> keeps the members
  of \<open>relmap\<close> whose ordinal is in the source; \<open>bitmap_fold\<close> takes every member modulo the size.
  The destination is overwritten and nothing else; where it is the source the functions return
  without doing anything.
\<close>

theorem bitmap_maps_on_sets:
  assumes "d \<noteq> p" and "d \<noteq> old" and "d \<noteq> new" and "0 < sz"
    and "n \<le> 64 * length (st d)" and "n \<le> 64 * length (st p)" and "n \<le> 64 * length (st old)" and "n \<le> 64 * length (st new)"
  shows "(\<exists>st'. bitmap_remap st d p old new n = Some st' \<and> holds_set n st d st' (remap_pos (st old) (st new) n ` bset n (st p)))
    \<and> bitmap_bitremap b (st old) (st new) n = Some (remap_pos (st old) (st new) n b)
    \<and> (\<exists>st'. bitmap_onto st d p new n = Some st'
        \<and> holds_set n st d st' {positions (st new) n ! k | k. k < card (bset n (st new)) \<and> k \<in> bset n (st p)})
    \<and> (\<exists>st'. bitmap_fold st d p sz n = Some st' \<and> holds_set n st d st' ((\<lambda>i. i mod sz) ` bset n (st p)))
    \<and> bitmap_remap st p p old new n = Some st \<and> bitmap_onto st p p new n = Some st \<and> bitmap_fold st p p sz n = Some st"
proof (intro conjI)
  show "bitmap_remap st p p old new n = Some st" "bitmap_onto st p p new n = Some st" "bitmap_fold st p p sz n = Some st"
    by (simp_all add: bitmap_remap_def bitmap_onto_def bitmap_fold_def)
qed (fact bitmap_remap_holds [where st = st and d = d, OF assms(1-3,5-8)] bitmap_bitremap_eq [OF assms(7,8)]
    bitmap_onto_holds [where st = st and d = d, OF assms(1,3,5,6,8)] bitmap_fold_holds [where st = st and d = d, OF assms(1,4,5,6)])+

theorem bitmap_maps_on_sets_witness:
  "\<exists>st'. bitmap_fold (\<lambda>p. [32]) 0 1 3 64 = Some st' \<and> bset 64 (st' 0) = {2}"
proof -
  have "tbit [32 :: ulong] i \<longleftrightarrow> i = 5" if "i < 64" for i
  proof -
    have "bit (push_bit 5 1 :: ulong) i \<longleftrightarrow> i = 5" using that by (auto simp: bit_push_bit_iff bit_1_iff simp del: push_bit_of_1)
    then show ?thesis using that by (simp add: tbit_def)
  qed
  then have "bset 64 [32] = {5}" by (auto simp: bset_def)
  then show ?thesis
    using bitmap_maps_on_sets [of 0 1 2 3 3 64 "\<lambda>p. [32]" 0] by (auto simp: holds_set_def simp del: bset_iff)
qed

text \<open>
  \<open>bitmap_pos_to_ord\<close> and \<open>bitmap_ord_to_pos\<close> are inverse to each other: the ordinal of a
  member is the number of members below it, and every ordinal below the weight is that of the
  position it gives. A position that is no member gives -1, an ordinal that is too large 0.
\<close>

theorem bitmap_ord_pos_inverse:
  assumes "n \<le> 64 * length m"
  shows "bitmap_pos_to_ord m (int i) n = Some (if i \<in> bset n m then int (card (bset i m)) else - 1)
    \<and> (i \<in> bset n m \<longrightarrow> bitmap_ord_to_pos m (int (card (bset i m))) n = Some i)
    \<and> (\<exists>i. bitmap_ord_to_pos m (int k) n = Some i \<and> (if k < card (bset n m) then i \<in> bset n m \<and> bitmap_pos_to_ord m (int i) n = Some (int k) else i = 0))"
proof (intro conjI impI)
  show "bitmap_pos_to_ord m (int i) n = Some (if i \<in> bset n m then int (card (bset i m)) else - 1)"
    by (rule bitmap_pos_to_ord_correct [OF assms])
  assume i: "i \<in> bset n m"
  have "card (bset i m) < card (bset n m)" using i by (intro psubset_card_mono) (auto simp: bset_def)
  then show "bitmap_ord_to_pos m (int (card (bset i m))) n = Some i"
    using i positions_nth [of i n m] bitmap_ord_to_pos_correct [OF assms] by simp
next
  show "\<exists>i. bitmap_ord_to_pos m (int k) n = Some i \<and> (if k < card (bset n m) then i \<in> bset n m \<and> bitmap_pos_to_ord m (int i) n = Some (int k) else i = 0)"
    using bitmap_ord_to_pos_correct [OF assms, of k] bitmap_pos_to_ord_correct [OF assms, of "positions m n ! k"]
      positions_bound [of k n m] positions_rank [of k n m] by auto
qed

theorem bitmap_ord_pos_inverse_witness: "bitmap_pos_to_ord [5] 1 64 = Some (- 1)"
proof -
  have "\<not> tbit [5 :: ulong] 1" by (simp add: tbit_def bit_iff_odd)
  then show ?thesis using bitmap_ord_pos_inverse [of 64 "[5]" 1] by simp
qed

end
