(* ===== verification/BitmapList.thy ===== *)
theory BitmapList
  imports BitmapHex BitmapMap
begin

text \<open>
  \<open>src/src/bitmap.c\<close>: printing a bitmap as a list of decimal ranges and parsing such a list.
\<close>

section \<open>Code\<close>

text \<open>The size handed to \<open>snprintf\<close> is an \<open>int\<close> made a \<open>size_t\<close>.\<close>

definition emit_size :: "nat \<Rightarrow> nat \<Rightarrow> nat" where
  "emit_size buflen len = unat (word_of_int (int buflen - int len) :: ulong)"

definition bscnl_emit :: "byte list \<Rightarrow> nat \<Rightarrow> nat \<Rightarrow> nat \<Rightarrow> nat \<Rightarrow> (byte list \<times> nat) option" where
  "bscnl_emit buf buflen rbot rtop len = do {
     (buf, k) \<leftarrow> (if 0 < len then c_snprintf buf len (emit_size buflen len) [44] else Some (buf, 0));
     let len = len + k;
     (buf, k) \<leftarrow> (if rbot = rtop then c_snprintf buf len (emit_size buflen len) (dec rbot)
                  else c_snprintf buf len (emit_size buflen len) (dec rbot @ 45 # dec rtop));
     Some (buf, len + k) }"

partial_function (option) scnlist_loop :: "byte list \<Rightarrow> nat \<Rightarrow> ulong list \<Rightarrow> nat \<Rightarrow> nat \<Rightarrow> nat \<Rightarrow> nat \<Rightarrow> (byte list \<times> nat) option" where
  "scnlist_loop buf buflen maskp nmaskbits cur rbot len =
     (if cur < nmaskbits then do {
        let rtop = cur;
        cur \<leftarrow> find_next_bit maskp nmaskbits (cur + 1);
        if nmaskbits \<le> cur \<or> rtop + 1 < cur then do {
          (buf, len) \<leftarrow> bscnl_emit buf buflen rbot rtop len;
          scnlist_loop buf buflen maskp nmaskbits cur cur len }
        else scnlist_loop buf buflen maskp nmaskbits cur rbot len }
      else Some (buf, len))"

definition bitmap_scnlistprintf :: "byte list \<Rightarrow> nat \<Rightarrow> ulong list \<Rightarrow> nat \<Rightarrow> (byte list \<times> nat) option" where
  "bitmap_scnlistprintf buf buflen maskp nmaskbits =
     (if buflen = 0 then Some (buf, 0)
      else do {
        buf \<leftarrow> wr buf 0 0;
        cur \<leftarrow> find_first_bit maskp nmaskbits;
        scnlist_loop buf buflen maskp nmaskbits cur cur 0 })"

fun next_range :: "nat \<Rightarrow> byte list \<Rightarrow> byte \<Rightarrow> nat \<Rightarrow> u32 \<Rightarrow> u32 \<Rightarrow> bool \<Rightarrow> bool
    \<Rightarrow> (int + nat \<times> byte list \<times> byte \<times> nat \<times> u32 \<times> u32) option" where
  "next_range 0 buf c totaldigits a b exp_digit in_range = Some (Inr (0, buf, c, totaldigits, a, b))"
| "next_range (Suc buflen) [] c totaldigits a b exp_digit in_range = None"
| "next_range (Suc buflen) (c # buf) old_c totaldigits a b exp_digit in_range =
     (if isspace c then next_range buflen buf c totaldigits a b exp_digit in_range
      else if totaldigits \<noteq> 0 \<and> c \<noteq> 0 \<and> isspace old_c then Some (Inl (- EINVAL))
      else if c = 0 \<or> c = 44 then Some (Inr (buflen, buf, c, totaldigits, a, b))
      else if c = 45 then
        (if exp_digit \<or> in_range then Some (Inl (- EINVAL)) else next_range buflen buf c totaldigits a 0 True True)
      else if \<not> isdigit c then Some (Inl (- EINVAL))
      else let b = b * 10 + ucast (c - 48) in
           next_range buflen buf c (totaldigits + 1) (if \<not> in_range then b else a) b False in_range)"

text \<open>\<open>set_bit\<close> takes an \<open>int\<close>: from bit \<open>2 ^ 31\<close> on the number is negative and the access is outside
  of every bitmap.\<close>

partial_function (option) set_range :: "bms \<Rightarrow> nat \<Rightarrow> u32 \<Rightarrow> u32 \<Rightarrow> bms option" where
  "set_range st maskp a b =
     (if a \<le> b then do {
        st \<leftarrow> (if sint a < 0 then None else bm_set_bit st (unat a) maskp);
        set_range st maskp (a + 1) b }
      else Some st)"

partial_function (option) parselist_loop :: "bms \<Rightarrow> nat \<Rightarrow> nat \<Rightarrow> nat \<Rightarrow> byte list \<Rightarrow> byte \<Rightarrow> nat \<Rightarrow> (int \<times> bms) option" where
  "parselist_loop st maskp nmaskbits buflen buf c totaldigits = do {
     r \<leftarrow> next_range buflen buf c totaldigits 0 0 True False;
     case r of
       Inl e \<Rightarrow> Some (e, st)
     | Inr (buflen, buf, c, totaldigits, a, b) \<Rightarrow>
         if \<not> a \<le> b then Some (- EINVAL, st)
         else if int nmaskbits \<le> sint b then Some (- ERANGE, st)
         else do {
           st \<leftarrow> set_range st maskp a b;
           if buflen \<noteq> 0 \<and> c = 44 then parselist_loop st maskp nmaskbits buflen buf c totaldigits else Some (0, st) } }"

definition bitmap_parselist_raw :: "bms \<Rightarrow> byte list \<Rightarrow> nat \<Rightarrow> nat \<Rightarrow> nat \<Rightarrow> (int \<times> bms) option" where
  "bitmap_parselist_raw st buf buflen maskp nmaskbits = do {
     st \<leftarrow> bitmap_zero False st maskp nmaskbits;
     parselist_loop st maskp nmaskbits buflen buf 0 0 }"

text \<open>The text ends at the first newline, or else at the NUL; there must be one.\<close>

definition bitmap_parselist :: "bms \<Rightarrow> byte list \<Rightarrow> nat \<Rightarrow> nat \<Rightarrow> (int \<times> bms) option" where
  "bitmap_parselist st bp maskp nmaskbits =
     (if 0 \<notin> set bp then None
      else let s = takeWhile (\<lambda>c. c \<noteq> 0) bp; len = length (takeWhile (\<lambda>c. c \<noteq> 10) s) in
        bitmap_parselist_raw st bp len maskp nmaskbits)"

definition bitmap_parselist_user :: "bms \<Rightarrow> byte list \<Rightarrow> nat \<Rightarrow> nat \<Rightarrow> nat \<Rightarrow> (int \<times> bms) option" where
  "bitmap_parselist_user st ubuf ulen maskp nmaskbits = bitmap_parselist_raw st ubuf ulen maskp nmaskbits"

lemma next_range_digits:
  assumes "list_all isdigit ds" and "ds \<noteq> []" and "td = 0 \<or> \<not> isspace c"
  shows "next_range (length ds + k) (ds @ rest) c td a (of_nat x) e r
    = next_range k rest (last ds) (td + length ds) (if r then a else of_nat (dec_num x ds)) (of_nat (dec_num x ds)) False r"
  using assms
proof (induction ds arbitrary: c td a x e)
  case Nil
  then show ?case by simp
next
  case (Cons d ds)
  then have d: "isdigit d" by simp
  note f = digit_facts [OF d]
  have step: "next_range (length (d # ds) + k) ((d # ds) @ rest) c td a (of_nat x) e r
    = next_range (length ds + k) (ds @ rest) d (td + 1) (if r then a else of_nat (10 * x + unat (d - 48))) (of_nat (10 * x + unat (d - 48))) False r"
    using f d Cons.prems(3) by (auto simp: Let_def mult.commute)
  show ?case
  proof (cases ds)
    case Nil
    then show ?thesis unfolding step by simp
  next
    case (Cons d' ds')
    then show ?thesis
      unfolding step using Cons.IH [of "td + 1" d "if r then a else of_nat (10 * x + unat (d - 48))" "10 * x + unat (d - 48)" False]
        Cons.prems f(1) by auto
  qed
qed


section \<open>Parsing\<close>

definition range_text :: "nat \<times> nat \<Rightarrow> byte list" where
  "range_text = (\<lambda>(lo, hi). if lo = hi then dec lo else dec lo @ 45 # dec hi)"

definition ranges_text :: "(nat \<times> nat) list \<Rightarrow> byte list" where "ranges_text rs = join_chunks (map range_text rs)"

lemma next_range_text:
  assumes "td = 0 \<or> \<not> isspace c" and "lo \<le> hi"
  shows "\<exists>c' td' r. next_range (length (range_text (lo, hi)) + k) (range_text (lo, hi) @ rest) c td 0 0 True False
    = next_range k rest c' td' (of_nat lo) (of_nat hi) False r \<and> \<not> isspace c'"
proof -
  have d: "list_all isdigit (dec v)" "dec v \<noteq> []" "dec_num 0 (dec v) = v" for v using dec_facts by auto
  have l: "\<not> isspace (last (dec v))" for v using digit_facts(1) d(1,2) by (metis last_in_set list_all_iff)
  have first: "next_range (length (dec lo) + k) (dec lo @ rest) c td 0 0 True False
    = next_range k rest (last (dec lo)) (td + length (dec lo)) (of_nat lo) (of_nat lo) False False" for k rest
    using next_range_digits [where td = td and c = c and ds = "dec lo" and k = k and rest = rest and a = 0 and x = 0 and e = True and r = False]
      assms(1) d [of lo] by simp
  show ?thesis
  proof (cases "lo = hi")
    case True
    then show ?thesis using first [of k rest] l [of lo] by (auto simp: range_text_def)
  next
    case False
    have sp: "\<not> isspace 45" "\<not> isdigit 45" by code_simp+
    have "length (range_text (lo, hi)) + k = length (dec lo) + Suc (length (dec hi) + k)"
      "range_text (lo, hi) @ rest = dec lo @ 45 # dec hi @ rest" using False by (simp_all add: range_text_def)
    then have "next_range (length (range_text (lo, hi)) + k) (range_text (lo, hi) @ rest) c td 0 0 True False
      = next_range (length (dec hi) + k) (dec hi @ rest) 45 (td + length (dec lo)) (of_nat lo) 0 True True"
      using first [of "Suc (length (dec hi) + k)" "45 # dec hi @ rest"] l [of lo] sp by (simp add: add.assoc)
    also have "\<dots> = next_range k rest (last (dec hi)) (td + length (dec lo) + length (dec hi)) (of_nat lo) (of_nat hi) False True"
      using next_range_digits [where td = "td + length (dec lo)" and c = 45 and ds = "dec hi" and k = k and rest = rest and a = "of_nat lo" and x = 0 and e = True and r = True]
        sp d [of hi] by simp
    finally show ?thesis using l [of hi] by blast
  qed
qed

lemma next_range_join:
  assumes "td = 0 \<or> \<not> isspace c" and "lo \<le> hi"
  shows "\<exists>c' td'. next_range (length (ranges_text ((lo, hi) # rs))) (ranges_text ((lo, hi) # rs)) c td 0 0 True False
      = Some (Inr (length (ranges_text rs), ranges_text rs, c', td', of_nat lo, of_nat hi))
    \<and> (rs \<noteq> [] \<longrightarrow> c' = 44) \<and> \<not> isspace c'"
proof (cases rs)
  case Nil
  have e: "ranges_text [(lo, hi)] = range_text (lo, hi) @ []" "ranges_text [] = []" by (simp_all add: ranges_text_def)
  then have l: "length (ranges_text [(lo, hi)]) = length (range_text (lo, hi)) + 0" by simp
  show ?thesis unfolding Nil l e using next_range_text [OF assms, of 0 "[]"] by auto
next
  case (Cons q rs')
  have e: "ranges_text ((lo, hi) # rs) = range_text (lo, hi) @ 44 # ranges_text rs" using Cons by (simp add: ranges_text_def)
  then have l: "length (ranges_text ((lo, hi) # rs)) = length (range_text (lo, hi)) + Suc (length (ranges_text rs))" by simp
  have n44: "\<not> isspace 44" by code_simp
  show ?thesis unfolding l e using next_range_text [OF assms, of "Suc (length (ranges_text rs))" "44 # ranges_text rs"] n44 by auto
qed

lemma sint_small: "x < 2 ^ 31 \<Longrightarrow> sint (of_nat x :: u32) = int x"
  by (simp add: signed_of_nat signed_take_bit_int_eq_self)

lemma le_small: "x < 2 ^ 32 \<Longrightarrow> y < 2 ^ 32 \<Longrightarrow> of_nat x \<le> (of_nat y :: u32) \<longleftrightarrow> x \<le> y"
  by (simp add: word_le_nat_alt unat_of_small)

lemma set_range_holds:
  assumes "hi < n" and "n < 2 ^ 31" and "n \<le> 64 * length (st p)" and "lo \<le> Suc hi" and "holds_set n st p s S"
  shows "\<exists>s'. set_range s p (of_nat lo) (of_nat hi) = Some s' \<and> holds_set n st p s' (S \<union> {lo..hi})"
  using assms(4,5)
proof (induction "Suc hi - lo" arbitrary: lo s S)
  case 0
  then have "\<not> (of_nat lo :: u32) \<le> of_nat hi" using assms(1,2) le_small [of lo hi] by simp
  then show ?case using 0 by (subst set_range.simps) simp
next
  case (Suc k)
  then have lo: "lo \<le> hi" by simp
  obtain s1 where s1: "bm_set_bit s lo p = Some s1" "holds_set n st p s1 (insert lo S)"
    using holds_set_add [where st = st and d = p, OF Suc.prems(2) assms(3), of lo] lo assms(1) by auto
  have "\<exists>s'. set_range s1 p (of_nat (Suc lo)) (of_nat hi) = Some s' \<and> holds_set n st p s' (insert lo S \<union> {Suc lo..hi})"
    by (rule Suc.hyps(1)) (use Suc lo s1 in auto)
  moreover have "insert lo S \<union> {Suc lo..hi} = S \<union> {lo..hi}" using lo by auto
  moreover have "set_range s p (of_nat lo) (of_nat hi) = set_range s1 p (of_nat (Suc lo)) (of_nat hi)"
    using lo assms(1,2) s1(1) by (subst set_range.simps) (simp add: le_small sint_small unat_of_small add.commute)
  ultimately show ?case by simp
qed

lemma ranges_text_Nil: "length (ranges_text rs) \<noteq> 0 \<longleftrightarrow> rs \<noteq> []"
proof (cases rs rule: list.exhaust)
  case (Cons q rs')
  then show ?thesis using dec_facts by (cases q; cases rs') (auto simp: ranges_text_def range_text_def)
qed (simp add: ranges_text_def)

lemma parselist_loop_ranges:
  assumes "n < 2 ^ 31" and "n \<le> 64 * length (st p)" and "rs \<noteq> []" and "\<forall>(lo, hi) \<in> set rs. lo \<le> hi \<and> hi < n"
    and "td = 0 \<or> \<not> isspace c" and "holds_set n st p s S"
  shows "\<exists>s'. parselist_loop s p n (length (ranges_text rs)) (ranges_text rs) c td = Some (0, s')
    \<and> holds_set n st p s' (S \<union> (\<Union>(lo, hi) \<in> set rs. {lo..hi}))"
  using assms(3-6)
proof (induction rs arbitrary: s c td S)
  case Nil
  then show ?case by simp
next
  case (Cons q rs)
  obtain lo hi where q: "q = (lo, hi)" by (cases q)
  then have r: "lo \<le> hi" "hi < n" using Cons.prems by auto
  obtain c' td' where nx: "next_range (length (ranges_text (q # rs))) (ranges_text (q # rs)) c td 0 0 True False
      = Some (Inr (length (ranges_text rs), ranges_text rs, c', td', of_nat lo, of_nat hi))"
    and c': "rs \<noteq> [] \<longrightarrow> c' = 44" "\<not> isspace c'" using next_range_join [OF Cons.prems(3) r(1), of rs] unfolding q by blast
  obtain s1 where s1: "set_range s p (of_nat lo) (of_nat hi) = Some s1" "holds_set n st p s1 (S \<union> {lo..hi})"
    using set_range_holds [where st = st and p = p, OF r(2) assms(1,2) _ Cons.prems(4), of lo] r by auto
  have run: "parselist_loop s p n (length (ranges_text (q # rs))) (ranges_text (q # rs)) c td
    = (if rs \<noteq> [] then parselist_loop s1 p n (length (ranges_text rs)) (ranges_text rs) c' td' else Some (0, s1))"
    using r assms(1) s1(1) c'(1) ranges_text_Nil [of rs]
    by (subst parselist_loop.simps, unfold nx) (auto simp: le_small sint_small)
  show ?case
  proof (cases "rs = []")
    case True
    then show ?thesis using s1(2) q unfolding run by simp
  next
    case False
    have "\<exists>s'. parselist_loop s1 p n (length (ranges_text rs)) (ranges_text rs) c' td' = Some (0, s')
      \<and> holds_set n st p s' (S \<union> {lo..hi} \<union> (\<Union>(lo, hi) \<in> set rs. {lo..hi}))"
      by (rule Cons.IH) (use False Cons.prems c'(2) s1(2) in auto)
    then show ?thesis using False q unfolding run by (simp add: Un_assoc)
  qed
qed


section \<open>Printing\<close>

text \<open>The maximal runs of an ascending list.\<close>

fun runs :: "nat list \<Rightarrow> (nat \<times> nat) list" where
  "runs [] = []"
| "runs (x # xs) = (case runs xs of [] \<Rightarrow> [(x, x)] | (a, b) # rs \<Rightarrow> if a = Suc x then (x, b) # rs else (x, x) # (a, b) # rs)"

lemma runs_union: "(\<Union>(lo, hi) \<in> set (runs xs). {lo..hi}) = set xs \<and> (\<forall>(lo, hi) \<in> set (runs xs). lo \<le> hi)"
proof (induction xs)
  case (Cons x xs)
  then show ?case
  proof (cases "runs xs")
    case (Cons q rs)
    obtain a b where q: "q = (a, b)" by (cases q)
    have "a \<le> b" using Cons.IH Cons q by simp
    then have "{x..b} = insert x {a..b}" if "a = Suc x" using that by auto
    then show ?thesis using Cons.IH Cons q \<open>a \<le> b\<close> by auto
  qed auto
qed simp

lemma runs_head: "runs (x # xs) = (a, b) # rs \<Longrightarrow> a = x"
  by (auto split: list.splits prod.splits if_splits)

lemma runs_Cons: "\<exists>b rs. runs (x # xs) = (x, b) # rs"
  by (cases "runs xs") (auto split: prod.splits)

definition extend :: "nat \<Rightarrow> (nat \<times> nat) list \<Rightarrow> (nat \<times> nat) list" where
  "extend lo rs = (case rs of [] \<Rightarrow> [] | (a, b) # rs \<Rightarrow> (lo, b) # rs)"

definition runs_from :: "ulong list \<Rightarrow> nat \<Rightarrow> nat \<Rightarrow> (nat \<times> nat) list" where "runs_from m n i = runs (filter (tbit m) [i..<n])"

lemma filter_next:
  assumes "off \<le> n"
  shows "filter (tbit m) [off..<n] = (let i = next_pos (tbit m) n off in if i < n then i # filter (tbit m) [Suc i..<n] else [])"
proof -
  let ?i = "next_pos (tbit m) n off"
  have i: "off \<le> ?i" "?i \<le> n" using assms next_pos_le [of "tbit m" n off] next_pos_bounds [of "tbit m" n off] by (cases "?i < n"; auto)+
  then have "[off..<n] = [off..<?i] @ [?i..<n]" using upt_add_eq_append [of off ?i "n - ?i"] by simp
  moreover have "filter (tbit m) [off..<?i] = []" using next_pos_none [of off _ "tbit m" n] i by (auto simp: filter_empty_conv)
  moreover have "?i < n \<Longrightarrow> tbit m ?i" using next_pos_bounds by blast
  ultimately show ?thesis by (auto simp: Let_def upt_conv_Cons)
qed

lemma runs_from_step:
  assumes "cur < n" and "tbit m cur"
  shows "runs_from m n cur = (let i = next_pos (tbit m) n (Suc cur) in
    if n \<le> i then [(cur, cur)] else if cur + 1 < i then (cur, cur) # runs_from m n i else extend cur (runs_from m n i))"
    and "extend cur (runs_from m n cur) = runs_from m n cur"
proof -
  let ?i = "next_pos (tbit m) n (Suc cur)"
  have e: "filter (tbit m) [cur..<n] = cur # filter (tbit m) [Suc cur..<n]" using assms by (simp add: upt_conv_Cons)
  have f: "filter (tbit m) [Suc cur..<n] = (if ?i < n then filter (tbit m) [?i..<n] else [])"
    using filter_next [of "Suc cur" n m] assms(1) next_pos_bounds [of "tbit m" n "Suc cur"] by (auto simp: Let_def upt_conv_Cons)
  show "runs_from m n cur = (let i = next_pos (tbit m) n (Suc cur) in
    if n \<le> i then [(cur, cur)] else if cur + 1 < i then (cur, cur) # runs_from m n i else extend cur (runs_from m n i))"
  proof (cases "?i < n")
    case True
    then have i: "Suc cur \<le> ?i" "tbit m ?i" using next_pos_bounds by blast+
    have g: "filter (tbit m) [?i..<n] = ?i # filter (tbit m) [Suc ?i..<n]" using i True by (simp add: upt_conv_Cons)
    obtain b rs where r: "runs (filter (tbit m) [?i..<n]) = (?i, b) # rs" unfolding g using runs_Cons by blast
    have "runs_from m n cur = (if ?i = Suc cur then (cur, b) # rs else (cur, cur) # (?i, b) # rs)"
      unfolding runs_from_def e runs.simps f if_P [OF True] r by simp
    moreover have R: "runs_from m n ?i = (?i, b) # rs" unfolding runs_from_def r ..
    ultimately show ?thesis unfolding Let_def R extend_def using True i(1) by simp
  next
    case False
    then show ?thesis by (simp add: runs_from_def e f)
  qed
  show "extend cur (runs_from m n cur) = runs_from m n cur"
    using runs_head [of cur "filter (tbit m) [Suc cur..<n]"] unfolding runs_from_def e
    by (cases "runs (cur # filter (tbit m) [Suc cur..<n])") (auto simp: extend_def)
qed

lemma ranges_text_snoc:
  "ranges_text (rs @ [r]) = ranges_text rs @ (if rs = [] then [] else [44]) @ range_text r"
  using join_snoc [of "map range_text rs" "range_text r"] by (simp add: ranges_text_def)

lemma ranges_text_mono: "length (ranges_text rs) \<le> length (ranges_text (rs @ rs'))"
proof (induction rs' rule: rev_induct)
  case (snoc r rs')
  then show ?case using ranges_text_snoc [of "rs @ rs'" r] by simp
qed simp

lemma emit_size: "len \<le> buflen \<Longrightarrow> buflen < 2 ^ 31 \<Longrightarrow> emit_size buflen len = buflen - len"
proof -
  assume a: "len \<le> buflen" "buflen < 2 ^ 31"
  have "word_of_int (int buflen - int len) = (of_nat (buflen - len) :: ulong)"
    using a(1) by (metis of_int_of_nat_eq of_nat_diff)
  moreover have "buflen - len < 2 ^ LENGTH(64)" using a(2) by simp
  then have "take_bit LENGTH(64) (buflen - len) = buflen - len" by (rule take_bit_nat_eq_self)
  ultimately show ?thesis unfolding emit_size_def by (simp only: unsigned_of_nat of_nat_id)
qed

text \<open>The buffer holds a text and its NUL at the start.\<close>

lemma snprintf_extend:
  assumes "length T + length S < buflen" and "buflen \<le> length buf" and "buflen < 2 ^ 31"
  shows "c_snprintf (blit buf 0 (T @ [0])) (length T) (emit_size buflen (length T)) S = Some (blit buf 0 (T @ S @ [0]), length S)"
proof -
  have "emit_size buflen (length T) = buflen - length T" using assms by (intro emit_size) simp_all
  moreover have "length (blit buf 0 (T @ [0])) = length buf" using assms by simp
  ultimately show ?thesis
    using assms blit_extend [of T S buf 0] by (simp add: c_snprintf_def mem_write_eq)
qed

lemma bscnl_emit_eq:
  assumes "lo \<le> hi" and "length (ranges_text (rs @ [(lo, hi)])) < buflen" and "buflen \<le> length buf" and "buflen < 2 ^ 31"
  shows "bscnl_emit (blit buf 0 (ranges_text rs @ [0])) buflen lo hi (length (ranges_text rs))
    = Some (blit buf 0 (ranges_text (rs @ [(lo, hi)]) @ [0]), length (ranges_text (rs @ [(lo, hi)])))"
proof -
  let ?T = "ranges_text rs" and ?sep = "if rs = [] then [] else [44 :: byte]"
  have len: "length ?T + length ?sep + length (range_text (lo, hi)) < buflen" using assms(2) by (simp add: ranges_text_snoc)
  have first: "(if 0 < length ?T then c_snprintf (blit buf 0 (?T @ [0])) (length ?T) (emit_size buflen (length ?T)) [44] else Some (blit buf 0 (?T @ [0]), 0))
    = Some (blit buf 0 ((?T @ ?sep) @ [0]), length ?sep)"
    using snprintf_extend [of ?T "[44]" buflen buf] len assms(3,4) ranges_text_Nil [of rs] by auto
  have "(if lo = hi then c_snprintf b l s (dec lo) else c_snprintf b l s (dec lo @ 45 # dec hi)) = c_snprintf b l s (range_text (lo, hi))" for b l s
    by (simp add: range_text_def)
  moreover have "c_snprintf (blit buf 0 ((?T @ ?sep) @ [0])) (length ?T + length ?sep) (emit_size buflen (length ?T + length ?sep)) (range_text (lo, hi))
    = Some (blit buf 0 ((?T @ ?sep) @ range_text (lo, hi) @ [0]), length (range_text (lo, hi)))"
    using snprintf_extend [of "?T @ ?sep" "range_text (lo, hi)" buflen buf] len assms(3,4) by (simp only: length_append add.assoc)
  ultimately show ?thesis
    unfolding bscnl_emit_def first Let_def by (simp add: ranges_text_snoc add.assoc)
qed

lemma scnlist_loop_eq:
  assumes "n \<le> 64 * length m" and "buflen \<le> length buf" and "buflen < 2 ^ 31" and "cur < n" and "tbit m cur" and "lo \<le> cur"
    and "length (ranges_text (rs @ extend lo (runs_from m n cur))) < buflen"
  shows "scnlist_loop (blit buf 0 (ranges_text rs @ [0])) buflen m n cur lo (length (ranges_text rs))
    = Some (blit buf 0 (ranges_text (rs @ extend lo (runs_from m n cur)) @ [0]), length (ranges_text (rs @ extend lo (runs_from m n cur))))"
  using assms(4-7)
proof (induction "n - cur" arbitrary: cur lo rs rule: less_induct)
  case less
  let ?i = "next_pos (tbit m) n (Suc cur)"
  have i: "find_next_bit m n (cur + 1) = Some ?i" using find_next_bit_correct [OF assms(1), of "Suc cur"] by simp
  note step = runs_from_step(1) [OF less.prems(1,2), unfolded Let_def]
  consider "n \<le> ?i" | "?i < n" "cur + 1 < ?i" "tbit m ?i" | "?i < n" "?i = Suc cur" "tbit m ?i"
    using next_pos_bounds [of "tbit m" n "Suc cur"] by fastforce
  then show ?case
  proof cases
    case 1
    have fin: "?i = n" using 1 next_pos_le [of "tbit m" n "Suc cur"] by simp
    have x: "extend lo (runs_from m n cur) = [(lo, cur)]" using step 1 by (simp add: extend_def)
    then have "bscnl_emit (blit buf 0 (ranges_text rs @ [0])) buflen lo cur (length (ranges_text rs))
      = Some (blit buf 0 (ranges_text (rs @ [(lo, cur)]) @ [0]), length (ranges_text (rs @ [(lo, cur)])))"
      using less.prems by (intro bscnl_emit_eq assms(2,3)) simp_all
    then show ?thesis using less.prems(1) i fin x
      by (subst scnlist_loop.simps) (simp add: Let_def scnlist_loop.simps [of _ _ _ _ n])
  next
    case 2
    let ?R = "runs_from m n ?i"
    have x: "extend lo (runs_from m n cur) = (lo, cur) # ?R" using step 2 by (simp add: extend_def)
    have e: "extend ?i ?R = ?R" using 2 by (intro runs_from_step(2))
    have len: "length (ranges_text (rs @ [(lo, cur)])) < buflen"
      using ranges_text_mono [of "rs @ [(lo, cur)]" ?R] less.prems(4) x by simp
    have emit: "bscnl_emit (blit buf 0 (ranges_text rs @ [0])) buflen lo cur (length (ranges_text rs))
      = Some (blit buf 0 (ranges_text (rs @ [(lo, cur)]) @ [0]), length (ranges_text (rs @ [(lo, cur)])))"
      using less.prems(3) by (intro bscnl_emit_eq assms(2,3) len)
    have "scnlist_loop (blit buf 0 (ranges_text (rs @ [(lo, cur)]) @ [0])) buflen m n ?i ?i (length (ranges_text (rs @ [(lo, cur)])))
      = Some (blit buf 0 (ranges_text ((rs @ [(lo, cur)]) @ extend ?i ?R) @ [0]), length (ranges_text ((rs @ [(lo, cur)]) @ extend ?i ?R)))"
      by (rule less.hyps) (use 2 less.prems(4) x e in auto)
    then show ?thesis using less.prems(1) i 2 x e emit by (subst scnlist_loop.simps) (simp add: Let_def)
  next
    case 3
    have x: "extend lo (runs_from m n cur) = extend lo (runs_from m n ?i)"
      using step 3 by (simp add: extend_def split: list.splits prod.splits)
    have "scnlist_loop (blit buf 0 (ranges_text rs @ [0])) buflen m n ?i lo (length (ranges_text rs))
      = Some (blit buf 0 (ranges_text (rs @ extend lo (runs_from m n ?i)) @ [0]), length (ranges_text (rs @ extend lo (runs_from m n ?i))))"
      by (rule less.hyps) (use 3 less.prems(3,4) x in auto)
    then show ?thesis using less.prems(1) i 3 x by (subst scnlist_loop.simps) (simp add: Let_def)
  qed
qed

definition list_text :: "ulong list \<Rightarrow> nat \<Rightarrow> byte list" where "list_text m n = ranges_text (runs (positions m n))"

lemma bitmap_scnlistprintf_eq:
  assumes "n \<le> 64 * length m" and "length (list_text m n) < buflen" and "buflen \<le> length buf" and "buflen < 2 ^ 31"
  shows "bitmap_scnlistprintf buf buflen m n = Some (blit buf 0 (list_text m n @ [0]), length (list_text m n))"
proof -
  let ?i = "next_pos (tbit m) n 0"
  have i: "find_first_bit m n = Some ?i" using find_next_bit_correct [OF assms(1), of 0] by (simp add: find_first_bit_eq)
  obtain x xs where b: "buf = x # xs" using assms(2,3) by (cases buf) auto
  then have w: "wr buf 0 0 = Some (blit buf 0 (ranges_text [] @ [0]))" by (simp add: wr_def blit_def ranges_text_def)
  have "scnlist_loop (blit buf 0 (ranges_text [] @ [0])) buflen m n ?i ?i (length (ranges_text []))
    = Some (blit buf 0 (list_text m n @ [0]), length (list_text m n))"
  proof (cases "?i < n")
    case True
    then have t: "tbit m ?i" using next_pos_bounds by blast
    have "positions m n = filter (tbit m) [?i..<n]"
      using filter_next [where off = 0 and n = n and m = m] True t by (simp add: positions_def Let_def upt_conv_Cons)
    then have e: "list_text m n = ranges_text ([] @ extend ?i (runs_from m n ?i))"
      using runs_from_step(2) [OF True t] by (simp add: list_text_def runs_from_def)
    show ?thesis
      unfolding e by (rule scnlist_loop_eq) (use assms True t e in auto)
  next
    case False
    then have "positions m n = []" using filter_next [where off = 0 and n = n and m = m] by (simp add: positions_def Let_def)
    then have "list_text m n = ranges_text []" by (simp add: list_text_def)
    then show ?thesis using False by (subst scnlist_loop.simps) (simp add: ranges_text_def)
  qed
  then show ?thesis using assms(2) i w by (simp add: bitmap_scnlistprintf_def ranges_text_def)
qed

section \<open>Properties\<close>

lemma parselist_zero:
  assumes "n \<le> 64 * length (st p)"
  obtains s0 where "bitmap_zero False st p n = Some s0" "holds_set n st p s0 {}"
  using zero_holds [where st = st and d = p, OF assms] by blast

lemma parselist_ranges:
  assumes "n < 2 ^ 31" and "n \<le> 64 * length (st p)" and "rs \<noteq> []" and "\<forall>(lo, hi) \<in> set rs. lo \<le> hi \<and> hi < n"
  shows "\<exists>st'. bitmap_parselist_raw st (ranges_text rs) (length (ranges_text rs)) p n = Some (0, st')
    \<and> holds_set n st p st' (\<Union>(lo, hi) \<in> set rs. {lo..hi})"
proof -
  obtain s0 where z: "bitmap_zero False st p n = Some s0" "holds_set n st p s0 {}" by (rule parselist_zero [where st = st and p = p, OF assms(2)])
  show ?thesis
    using parselist_loop_ranges [where st = st and p = p, OF assms _ z(2), of 0 0] z(1) by (simp add: bitmap_parselist_raw_def)
qed

lemma parselist_empty:
  assumes "0 < n" and "n < 2 ^ 31" and "n \<le> 64 * length (st p)"
  shows "\<exists>st'. bitmap_parselist_raw st buf 0 p n = Some (0, st') \<and> holds_set n st p st' {0}"
proof -
  obtain s0 where z: "bitmap_zero False st p n = Some s0" "holds_set n st p s0 {}" by (rule parselist_zero [where st = st and p = p, OF assms(3)])
  obtain s1 where "set_range s0 p (of_nat 0) (of_nat 0) = Some s1" "holds_set n st p s1 ({} \<union> {0..0})"
    using set_range_holds [where st = st and p = p, OF assms(1-3) _ z(2), of 0] by auto
  then show ?thesis using z(1) assms(1) by (auto simp: bitmap_parselist_raw_def parselist_loop.simps)
qed

text \<open>
  C28. The list \<open>bitmap_scnlistprintf\<close> prints is read back by \<open>bitmap_parselist_user\<close> as the same
  set: it consists of the maximal runs, and given room for the text and the final NUL it is
  written at the start of the buffer. The one exception is the empty set, which is printed as
  the empty text, and that is read as the set of bit 0.
\<close>

theorem bitmap_list_roundtrip:
  assumes "0 < n" and "n < 2 ^ 31" and "n \<le> 64 * length m" and "n \<le> 64 * length (st p)"
    and "length (list_text m n) < buflen" and "buflen \<le> length buf" and "buflen < 2 ^ 31"
  shows "\<exists>buf' len. bitmap_scnlistprintf buf buflen m n = Some (buf', len) \<and> buf' = blit buf 0 (take len buf' @ [0])
    \<and> (\<exists>st'. bitmap_parselist_user st (take len buf') len p n = Some (0, st')
        \<and> holds_set n st p st' (if bset n m = {} then {0} else bset n m))"
proof -
  let ?T = "list_text m n" and ?rs = "runs (positions m n)"
  let ?buf = "blit buf 0 (?T @ [0])"
  have t: "take (length ?T) ?buf = ?T" by (simp add: blit_def)
  have "\<exists>st'. bitmap_parselist_raw st ?T (length ?T) p n = Some (0, st') \<and> holds_set n st p st' (if bset n m = {} then {0} else bset n m)"
  proof (cases "bset n m = {}")
    case True
    then have "?T = []" using set_positions [of m n] by (simp add: list_text_def ranges_text_def del: set_positions)
    then show ?thesis using parselist_empty [where st = st and p = p, OF assms(1,2,4)] True by simp
  next
    case False
    have u: "(\<Union>(lo, hi) \<in> set ?rs. {lo..hi}) = bset n m" and le: "\<forall>(lo, hi) \<in> set ?rs. lo \<le> hi" using runs_union [of "positions m n"] by auto
    then have ne: "?rs \<noteq> []" using False by auto
    have "\<forall>(lo, hi) \<in> set ?rs. lo \<le> hi \<and> hi < n"
    proof (clarify)
      fix lo hi assume r: "(lo, hi) \<in> set ?rs"
      then have "lo \<le> hi" using le by auto
      then have "hi \<in> (\<Union>(lo, hi) \<in> set ?rs. {lo..hi})" by (intro UN_I [OF r]) simp
      then show "lo \<le> hi \<and> hi < n" using \<open>lo \<le> hi\<close> unfolding u by simp
    qed
    then show ?thesis
      using parselist_ranges [where st = st and p = p, OF assms(2,4) ne] False unfolding u list_text_def by simp
  qed
  moreover have "?buf = blit buf 0 (take (length ?T) ?buf @ [0])" unfolding t ..
  ultimately show ?thesis
    using bitmap_scnlistprintf_eq [OF assms(3,5-7)] t unfolding bitmap_parselist_user_def by metis
qed

theorem bitmap_list_roundtrip_witness:
  "\<exists>buf' len. bitmap_scnlistprintf (replicate 4 1) 4 [7] 64 = Some (buf', len)"
proof -
  have "list_text [7] 64 = [48, 45, 50]" by code_simp
  then show ?thesis using bitmap_list_roundtrip [of 64 "[7]" "\<lambda>q. [0]" 0 4 "replicate 4 1"] by auto
qed

text \<open>
  What \<open>bitmap_parselist_user\<close> does with one number: below the size it sets that bit; from the
  size on, below \<open>2 ^ 31\<close>, it returns \<open>-ERANGE\<close> and leaves the bitmap empty; from \<open>2 ^ 31\<close> on the check, made on
  an \<open>int\<close>, lets the number through and the access is outside of the bitmap. The empty text sets bit 0.
\<close>

theorem bitmap_parselist_range_check:
  assumes "0 < n" and "n < 2 ^ 31" and "n \<le> 64 * length (st p)" and "v < 2 ^ 32"
  shows "(v < n \<longrightarrow> (\<exists>st'. bitmap_parselist_user st (dec v) (length (dec v)) p n = Some (0, st') \<and> holds_set n st p st' {v}))
    \<and> (n \<le> v \<and> v < 2 ^ 31 \<longrightarrow> (\<exists>st'. bitmap_parselist_user st (dec v) (length (dec v)) p n = Some (- ERANGE, st') \<and> holds_set n st p st' {}))
    \<and> (2 ^ 31 \<le> v \<longrightarrow> bitmap_parselist_user st (dec v) (length (dec v)) p n = None)
    \<and> (\<exists>st'. bitmap_parselist_user st [] 0 p n = Some (0, st') \<and> holds_set n st p st' {0})"
proof -
  obtain s0 where z: "bitmap_zero False st p n = Some s0" "holds_set n st p s0 {}" by (rule parselist_zero [where st = st and p = p, OF assms(3)])
  have t: "ranges_text [(v, v)] = dec v" "ranges_text [] = []" by (simp_all add: ranges_text_def range_text_def)
  obtain c td where nx: "next_range (length (dec v)) (dec v) 0 0 0 0 True False = Some (Inr (0, [], c, td, of_nat v, of_nat v))"
    using next_range_join [of 0 0 v v "[]"] unfolding t by auto
  have run: "bitmap_parselist_user st (dec v) (length (dec v)) p n = (if int n \<le> sint (of_nat v :: u32) then Some (- ERANGE, s0)
    else do { s \<leftarrow> set_range s0 p (of_nat v) (of_nat v); Some (0, s) })"
    unfolding bitmap_parselist_user_def bitmap_parselist_raw_def z(1) Option.bind.simps by (subst parselist_loop.simps, unfold nx) simp
  have "v < n \<longrightarrow> (\<exists>st'. bitmap_parselist_user st (dec v) (length (dec v)) p n = Some (0, st') \<and> holds_set n st p st' {v})"
    using parselist_ranges [where st = st and p = p and rs = "[(v, v)]", OF assms(2,3)] unfolding t bitmap_parselist_user_def by auto
  moreover have "n \<le> v \<and> v < 2 ^ 31 \<longrightarrow> (\<exists>st'. bitmap_parselist_user st (dec v) (length (dec v)) p n = Some (- ERANGE, st') \<and> holds_set n st p st' {})"
    using z(2) unfolding run by (auto simp: sint_small)
  moreover have "bitmap_parselist_user st (dec v) (length (dec v)) p n = None" if v: "2 ^ 31 \<le> v"
  proof -
    have "bit (int v) 31"
    proof -
      have "v div 2 ^ 31 = 1" using v assms(4) by (intro div_nat_eqI) simp_all
      then have "int v div 2 ^ 31 = 1" by (metis of_nat_1 of_nat_numeral of_nat_power zdiv_int)
      then show ?thesis unfolding bit_iff_odd by simp
    qed
    then have "sint (of_nat v :: u32) < 0" by (simp add: signed_of_nat signed_take_bit_negative_iff)
    then show ?thesis unfolding run by (subst set_range.simps) simp
  qed
  ultimately show ?thesis using parselist_empty [where st = st and p = p, OF assms(1-3)] by (simp add: bitmap_parselist_user_def)
qed

theorem bitmap_parselist_range_check_witness:
  "\<exists>st'. bitmap_parselist_user (\<lambda>q. [0]) (dec 64) (length (dec 64)) 0 64 = Some (- ERANGE, st')"
  using bitmap_parselist_range_check [of 64 "\<lambda>q. [0]" 0 64] by auto

end
