(* ===== verification/Har.thy ===== *)
theory Har
  imports LogHash
begin

text \<open>
  \<open>src/tools/har.c\<close>: the tool that takes the first video segment out of a recorded browser session.
  The decoder writes into a buffer, a list of its bytes; a write outside it is \<open>None\<close>. The library
  that parses the session file is a record of the functions the tool calls.
\<close>

section \<open>\<open>base64_decode\<close>\<close>

definition base64_table :: "byte list" where
  "base64_table =
    [65, 66, 67, 68, 69, 70, 71, 72, 73, 74, 75, 76, 77, 78, 79, 80,
     81, 82, 83, 84, 85, 86, 87, 88, 89, 90, 97, 98, 99, 100, 101, 102,
     103, 104, 105, 106, 107, 108, 109, 110, 111, 112, 113, 114, 115, 116, 117, 118,
     119, 120, 121, 122, 48, 49, 50, 51, 52, 53, 54, 55, 56, 57, 43, 47]"

datatype b64_char = B64_code byte | B64_skip | B64_bad

definition b64_class :: "byte \<Rightarrow> b64_char" where
  "b64_class c =
     (if 65 \<le> c \<and> c \<le> 90 then B64_code (c - 65)
      else if 97 \<le> c \<and> c \<le> 122 then B64_code (c - 97 + 26)
      else if 48 \<le> c \<and> c \<le> 57 then B64_code (c - 48 + 52)
      else if c = 43 \<or> c = 95 then B64_code 62
      else if c = 47 \<or> c = 45 then B64_code 63
      else if c = 61 then B64_code 0
      else if c \<in> {0, 10, 13, 9} then B64_skip
      else B64_bad)"

text \<open>The inner switch: \<open>pre\<close> bits of the next byte are still to come. It returns the place of the output and the bits left.\<close>

definition b64_put :: "byte \<Rightarrow> nat \<Rightarrow> nat \<Rightarrow> byte list \<Rightarrow> (nat \<times> nat \<times> byte list) option" where
  "b64_put code pre out buf =
     (if pre = 0 then do { buf \<leftarrow> wr buf out (push_bit 2 code); Some (out, 6, buf) }
      else if pre = 2 then do { b \<leftarrow> rd buf out; buf \<leftarrow> wr buf out (b OR code); Some (out + 1, 0, buf) }
      else if pre = 4 then do {
        b \<leftarrow> rd buf out; buf \<leftarrow> wr buf out (b OR drop_bit 2 (code AND 0x3c));
        buf \<leftarrow> wr buf (out + 1) (push_bit 6 (code AND 0x03)); Some (out + 1, 2, buf) }
      else do {
        b \<leftarrow> rd buf out; buf \<leftarrow> wr buf out (b OR drop_bit 4 (code AND 0x30));
        buf \<leftarrow> wr buf (out + 1) (push_bit 4 (code AND 0x0f)); Some (out + 1, 4, buf) })"

text \<open>The loop. The first component is the final place of the output, or \<open>None\<close> where the function returns -1.\<close>

fun b64_loop :: "byte list \<Rightarrow> nat \<Rightarrow> nat \<Rightarrow> nat \<Rightarrow> byte list \<Rightarrow> (nat option \<times> byte list) option" where
  "b64_loop [] mx pre out buf = Some (Some out, buf)"
| "b64_loop (c # cs) mx pre out buf =
     (case b64_class c of
        B64_bad \<Rightarrow> Some (None, buf)
      | B64_skip \<Rightarrow> b64_loop cs mx pre out buf
      | B64_code code \<Rightarrow>
          if mx \<le> out then Some (None, buf)
          else do { (out, pre, buf) \<leftarrow> b64_put code pre out buf; b64_loop cs mx pre out buf })"

definition base64_decode :: "byte list \<Rightarrow> byte list \<Rightarrow> nat \<Rightarrow> (int \<times> byte list) option" where
  "base64_decode base64 buf max_size = do {
     (r, buf) \<leftarrow> b64_loop base64 max_size 0 0 buf;
     Some (case r of None \<Rightarrow> - 1 | Some out \<Rightarrow> int (out + 1), buf) }"

section \<open>\<open>decode_har\<close>\<close>

definition HAR_BUFFER_SIZE :: nat where "HAR_BUFFER_SIZE = 8 * 1024 * 1024"

datatype jtype = Jint | Jstring | Jother

text \<open>json-c: the objects are of any type; a null pointer is \<open>None\<close>, as an object and as a result.\<close>

record 'j json_c =
  json_object_from_file :: "'j option"
  json_object_object_get :: "'j option \<Rightarrow> string \<Rightarrow> 'j option"
  json_object_get_type :: "'j \<Rightarrow> jtype"
  json_object_get_array :: "'j option \<Rightarrow> 'j option list option"
  json_object_get_string :: "'j \<Rightarrow> byte list"

text \<open>The four bytes in front of the segment, and \<open>fwrite\<close> with its success as an argument.\<close>

definition ts_header :: "byte list" where "ts_header = [0, 0, 1, 0xBA]"

text \<open>\<open>detect_box\<close>: the first four bytes as a number, which is printed.\<close>

definition detect_box :: "byte list \<Rightarrow> u32 option" where
  "detect_box buf = do {
     a \<leftarrow> rd buf 0; b \<leftarrow> rd buf 1; c \<leftarrow> rd buf 2; d \<leftarrow> rd buf 3;
     Some (ucast a OR push_bit 8 (ucast b) OR push_bit 16 (ucast c) OR push_bit 24 (ucast d)) }"

text \<open>The text of an entry whose content has all three fields with their types and is a video segment.\<close>

definition segment_text :: "'j json_c \<Rightarrow> 'j option \<Rightarrow> byte list option" where
  "segment_text j entry =
     (let request = json_object_object_get j entry ''request''; response = json_object_object_get j entry ''response'' in
      if request = None \<or> response = None then None
      else
        let content = json_object_object_get j response ''content'' in
        if content = None then None
        else
          case (json_object_object_get j content ''size'', json_object_object_get j content ''mimeType'', json_object_object_get j content ''text'') of
            (Some sizeobj, Some typeobj, Some textobj) \<Rightarrow>
              if json_object_get_type j sizeobj = Jint \<and> json_object_get_type j typeobj = Jstring \<and> json_object_get_type j textobj = Jstring
                 \<and> json_object_get_string j typeobj = lit ''video/mp2t''
              then Some (json_object_get_string j textobj) else None
          | _ \<Rightarrow> None)"

text \<open>The loop over the entries; the result is what is written. \<open>ok1\<close> and \<open>ok2\<close> are the outcomes of the two calls of \<open>fwrite\<close>.\<close>

fun har_entries :: "'j json_c \<Rightarrow> bool \<Rightarrow> bool \<Rightarrow> 'j option list \<Rightarrow> byte list \<Rightarrow> byte list option" where
  "har_entries j ok1 ok2 [] buf = Some []"
| "har_entries j ok1 ok2 (entry # es) buf =
     (case segment_text j entry of
        None \<Rightarrow> har_entries j ok1 ok2 es buf
      | Some s \<Rightarrow> do {
          (len, buf) \<leftarrow> base64_decode s buf HAR_BUFFER_SIZE;
          if len > 0 then
            (if \<not> ok1 then Some []
             else do {
               bs \<leftarrow> mem_read buf 0 (nat len);
               if \<not> ok2 then Some ts_header else do { _ \<leftarrow> detect_box buf; Some (ts_header @ bs) } })
          else har_entries j ok1 ok2 es buf })"

text \<open>\<open>buf\<close> is the fresh block, \<open>ctx\<close> whether the context could be made. The result is the return value and the output file.\<close>

definition decode_har :: "'j json_c \<Rightarrow> byte list option \<Rightarrow> bool \<Rightarrow> bool \<Rightarrow> bool \<Rightarrow> (int \<times> byte list) option" where
  "decode_har j buf ctx ok1 ok2 =
     (case buf of
        None \<Rightarrow> Some (- 1, [])
      | Some buf \<Rightarrow>
          if \<not> ctx then Some (0, [])
          else case json_object_from_file j of
              None \<Rightarrow> Some (0, [])
            | Some root \<Rightarrow>
                let log = json_object_object_get j (Some root) ''log'' in
                if log = None then Some (0, [])
                else case json_object_get_array j (json_object_object_get j log ''entries'') of
                    None \<Rightarrow> Some (0, [])
                  | Some list \<Rightarrow> do { out \<leftarrow> har_entries j ok1 ok2 list buf; Some (0, out) })"


section \<open>Base64\<close>

text \<open>
  The encoding: the characters of the table, where those for 62 and 63 may be others, in groups of
  four, the last one filled up with \<open>=\<close>.
\<close>

definition b64_digit :: "byte \<Rightarrow> byte \<Rightarrow> byte \<Rightarrow> byte" where
  "b64_digit c62 c63 v = (if v = 62 then c62 else if v = 63 then c63 else base64_table ! unat v)"

definition b64_group :: "byte \<Rightarrow> byte \<Rightarrow> byte \<Rightarrow> byte list" where
  "b64_group a b c = [drop_bit 2 a, push_bit 4 (a AND 3) OR drop_bit 4 b, push_bit 2 (b AND 15) OR drop_bit 6 c, c AND 63]"

fun b64_encode :: "byte \<Rightarrow> byte \<Rightarrow> byte list \<Rightarrow> byte list" where
  "b64_encode c62 c63 [] = []"
| "b64_encode c62 c63 [a] = map (b64_digit c62 c63) (take 2 (b64_group a 0 0)) @ [61, 61]"
| "b64_encode c62 c63 [a, b] = map (b64_digit c62 c63) (take 3 (b64_group a b 0)) @ [61]"
| "b64_encode c62 c63 (a # b # c # ds) = map (b64_digit c62 c63) (b64_group a b c) @ b64_encode c62 c63 ds"

lemma b64_digit_class:
  assumes "v < 64" and "c62 = 43 \<or> c62 = 95" and "c63 = 47 \<or> c63 = 45"
  shows "b64_class (b64_digit c62 c63 v) = B64_code v"
proof -
  have table: "map (\<lambda>c. b64_class c) (take 62 base64_table) = map (\<lambda>n. B64_code (of_nat n)) [0..<62]" by code_simp
  have w62: "v = 62 \<longleftrightarrow> unat v = 62" "v = 63 \<longleftrightarrow> unat v = 63" by (simp_all add: word_unat_eq_iff)
  have l: "length base64_table = 64" by (simp add: base64_table_def)
  from arg_cong [OF table, of "\<lambda>xs. xs ! unat v"] have "v \<noteq> 62 \<Longrightarrow> v \<noteq> 63 \<Longrightarrow> b64_class (base64_table ! unat v) = B64_code v"
    using assms(1) l by (auto simp: word_less_nat_alt w62)
  moreover have "b64_class c62 = B64_code 62" "b64_class c63 = B64_code 63" using assms(2,3) by (auto simp: b64_class_def)
  ultimately show ?thesis by (simp add: b64_digit_def)
qed

lemma b64_join:
  "push_bit 2 (drop_bit 2 a) OR drop_bit 4 ((push_bit 4 (a AND 3) OR drop_bit 4 b) AND 0x30) = (a :: byte)"
  "push_bit 4 ((push_bit 4 (a AND 3) OR drop_bit 4 b) AND 0x0f) OR drop_bit 2 ((push_bit 2 (b AND 15) OR drop_bit 6 c) AND 0x3c) = (b :: byte)"
  "push_bit 6 ((push_bit 2 (b AND 15) OR drop_bit 6 c) AND 0x03) OR (c AND 63) = (c :: byte)"
  by (rule bit_word_eqI; drule byte_bits; simp only: insert_iff empty_iff; elim disjE FalseE; auto simp: bit_simps)+

lemma b64_small: "drop_bit 2 a < (64 :: byte)" "push_bit 4 (a AND 3) OR drop_bit 4 b < (64 :: byte)" "push_bit 2 (b AND 15) OR drop_bit 6 c < (64 :: byte)" "c AND 63 < (64 :: byte)"
proof -
  have six: "w < 64" if "\<And>n. n < 8 \<Longrightarrow> 6 \<le> n \<Longrightarrow> \<not> bit w n" for w :: byte
  proof -
    have "take_bit 6 w = w" by (rule bit_word_eqI) (use that not_less in \<open>auto simp: bit_simps\<close>)
    then have "w = w AND mask 6" by (simp add: take_bit_eq_mask)
    also have "\<dots> < 2 ^ 6" by (rule and_mask_less') simp
    finally show ?thesis by simp
  qed
  have n67: "n < 8 \<Longrightarrow> 6 \<le> n \<Longrightarrow> n = 6 \<or> n = 7" for n :: nat by auto
  show "drop_bit 2 a < (64 :: byte)" "push_bit 4 (a AND 3) OR drop_bit 4 b < (64 :: byte)" "push_bit 2 (b AND 15) OR drop_bit 6 c < (64 :: byte)" "c AND 63 < (64 :: byte)"
    by (rule six; drule (1) n67; auto simp: bit_simps dest: bit_imp_le_length)+
qed


lemma b64_loop_skips: "b64_loop cs mx pre out buf = b64_loop (filter (\<lambda>c. b64_class c \<noteq> B64_skip) cs) mx pre out buf"
proof (induction cs mx pre out buf rule: b64_loop.induct)
  case (2 c cs mx pre out buf)
  show ?case
  proof (cases "b64_class c")
    case (B64_code x)
    then show ?thesis using 2 by (cases "b64_put x pre out buf") auto
  qed (use 2 in simp_all)
qed simp

text \<open>The characters that are passed over are NUL, tab, line feed and carriage return; others end the decoding.\<close>

lemma b64_skip_chars: "b64_class c = B64_skip \<longleftrightarrow> c \<in> {0, 9, 10, 13}"
proof
  assume "c \<in> {0, 9, 10, 13}"
  then show "b64_class c = B64_skip" by (auto simp: b64_class_def)
qed (auto simp: b64_class_def split: if_splits)

lemma b64_table_letters:
  assumes "a \<le> c" and "c \<le> b" and "\<forall>n \<in> set [unat a..<Suc (unat b)]. (of_nat n :: byte) \<in> set base64_table"
  shows "c \<in> set base64_table"
proof -
  have "unat c \<in> set [unat a..<Suc (unat b)]" using assms(1,2) unfolding word_le_nat_alt set_upt atLeastLessThan_iff less_Suc_eq_le ..
  with assms(3) have "(of_nat (unat c) :: byte) \<in> set base64_table" by blast
  then show ?thesis by simp
qed

lemma b64_table_has:
  "65 \<le> c \<Longrightarrow> c \<le> 90 \<Longrightarrow> c \<in> set base64_table" "97 \<le> c \<Longrightarrow> c \<le> 122 \<Longrightarrow> c \<in> set base64_table"
  "48 \<le> c \<Longrightarrow> c \<le> 57 \<Longrightarrow> c \<in> set base64_table" "c = 43 \<or> c = 47 \<Longrightarrow> c \<in> set base64_table"
  by (erule (1) b64_table_letters, simp add: base64_table_def upt_rec)+ (auto simp: base64_table_def)

lemma b64_bad_chars: "c \<notin> set base64_table \<union> {95, 45, 61} \<union> {0, 9, 10, 13} \<Longrightarrow> b64_class c = B64_bad"
  using b64_table_has [of c] by (auto simp: b64_class_def)

lemma b64_loop_bad:
  assumes "b64_loop (s1 @ s2) mx pre out buf = Some (Some r, buf1)" and "b64_class c = B64_bad"
  shows "\<exists>buf'. b64_loop (s1 @ c # s2) mx pre out buf = Some (None, buf')"
  using assms
proof (induction s1 arbitrary: pre out buf)
  case (Cons x s1)
  then show ?case by (cases "b64_class x") (auto split: if_splits bind_splits)
qed simp

lemma blit_three:
  assumes "out + 3 \<le> length buf"
  shows "buf[out := a, Suc out := b, Suc (Suc out) := c] = blit buf out [a, b, c]"
proof (rule nth_equalityI)
  fix i assume "i < length (buf[out := a, Suc out := b, Suc (Suc out) := c])"
  then show "buf[out := a, Suc out := b, Suc (Suc out) := c] ! i = blit buf out [a, b, c] ! i"
    using assms by (auto simp: blit_def nth_append nth_list_update nth_Cons split: nat.split) (rule arg_cong [where f = "(!) buf"], arith)
qed (use assms in \<open>simp add: blit_def\<close>)

lemma plus_3: "out + 3 = Suc (Suc (Suc out))" by simp

lemma b64_loop_group:
  assumes "b64_class w = B64_code p" and "b64_class x = B64_code q" and "b64_class y = B64_code r" and "b64_class z = B64_code t"
    and "out + 3 \<le> mx" and "mx \<le> length buf"
  shows "b64_loop (w # x # y # z # cs) mx 0 out buf = b64_loop cs mx 0 (out + 3)
    (blit buf out [push_bit 2 p OR drop_bit 4 (q AND 0x30), push_bit 4 (q AND 0x0f) OR drop_bit 2 (r AND 0x3c), push_bit 6 (r AND 0x03) OR t])"
  using assms by (simp add: b64_put_def rd_def wr_def plus_3 flip: blit_three)

text \<open>A group made of three bytes is read back as those bytes.\<close>

lemma b64_group_nth:
  "b64_group a b c ! 0 = drop_bit 2 a" "b64_group a b c ! 1 = push_bit 4 (a AND 3) OR drop_bit 4 b"
  "b64_group a b c ! 2 = push_bit 2 (b AND 15) OR drop_bit 6 c" "b64_group a b c ! 3 = c AND 63"
  by (simp_all add: b64_group_def)

lemma b64_group_list:
  "b64_group a b c = [b64_group a b c ! 0, b64_group a b c ! 1, b64_group a b c ! 2, b64_group a b c ! 3]"
  "take 2 (b64_group a b c) = [b64_group a b c ! 0, b64_group a b c ! 1]"
  "take 3 (b64_group a b c) = [b64_group a b c ! 0, b64_group a b c ! 1, b64_group a b c ! 2]"
  by (simp_all add: b64_group_def eval_nat_numeral)

lemma b64_group_pad: "b64_group a 0 0 ! 2 = 0" "b64_group a b 0 ! 3 = 0"
  by (simp_all add: b64_group_def)

lemma b64_group_small: "b64_group a b c ! 0 < 64" "b64_group a b c ! 1 < 64" "b64_group a b c ! 2 < 64" "b64_group a b c ! 3 < 64"
  unfolding b64_group_nth by (rule b64_small)+

lemma b64_loop_bytes:
  assumes "b64_class w = B64_code (b64_group a b c ! 0)" and "b64_class x = B64_code (b64_group a b c ! 1)"
    and "b64_class y = B64_code (b64_group a b c ! 2)" and "b64_class z = B64_code (b64_group a b c ! 3)"
    and "out + 3 \<le> mx" and "mx \<le> length buf"
  shows "b64_loop (w # x # y # z # cs) mx 0 out buf = b64_loop cs mx 0 (out + 3) (blit buf out [a, b, c])"
  unfolding b64_loop_group [OF assms] unfolding b64_group_nth b64_join ..

definition padded :: "byte list \<Rightarrow> byte list" where
  "padded ds = ds @ replicate ((3 - length ds mod 3) mod 3) 0"

lemma padded_simps [simp]:
  "padded [] = []" "padded [a] = [a, 0, 0]" "padded [a, b] = [a, b, 0]" "padded (a # b # c # ds) = a # b # c # padded ds"
  by (simp_all add: padded_def numeral_2_eq_2)

lemma length_padded: "length (padded ds) = 3 * ((length ds + 2) div 3)"
proof -
  obtain q where "length ds = 3 * q \<or> length ds = 3 * q + 1 \<or> length ds = 3 * q + 2"
    by (metis mod_mult_div_eq mult.commute add.commute add_0 mod_less_divisor less_Suc_eq less_zeroE numeral_3_eq_3 numeral_2_eq_2 One_nat_def zero_less_Suc)
  moreover have "(3 * q + 1) mod 3 = 1" "(3 * q + 2) mod 3 = 2" "(3 * q + 1 + 2) div 3 = q + 1" "(3 * q + 2 + 2) div 3 = q + 1" "(3 * q + 2) div 3 = q" by presburger+
  ultimately show ?thesis by (auto simp: padded_def)
qed

lemma b64_loop_encode:
  assumes "c62 = 43 \<or> c62 = 95" and "c63 = 47 \<or> c63 = 45" and "out + length (padded ds) \<le> mx" and "mx \<le> length buf"
  shows "b64_loop (b64_encode c62 c63 ds) mx 0 out buf = Some (Some (out + length (padded ds)), blit buf out (padded ds))"
  using assms
proof (induction c62 c63 ds arbitrary: out buf rule: b64_encode.induct)
  case (2 c62 c63 a)
  note d = b64_digit_class [OF b64_group_small(1) 2(1,2)] b64_digit_class [OF b64_group_small(2) 2(1,2)]
  have "b64_class 61 = B64_code (b64_group a 0 0 ! 2)" "b64_class 61 = B64_code (b64_group a 0 0 ! 3)"
    unfolding b64_group_pad by (simp_all add: b64_class_def)
  from b64_loop_bytes [OF d this, of out mx buf "[]"] show ?case
    using 2(3,4) by (simp add: b64_group_list(2) del: b64_loop.simps(2)) 
next
  case (3 c62 c63 a b)
  note d = b64_digit_class [OF b64_group_small(1) 3(1,2)] b64_digit_class [OF b64_group_small(2) 3(1,2)] b64_digit_class [OF b64_group_small(3) 3(1,2)]
  have "b64_class 61 = B64_code (b64_group a b 0 ! 3)" unfolding b64_group_pad by (simp add: b64_class_def)
  from b64_loop_bytes [OF d this, of out mx buf "[]"] show ?case
    using 3(3,4) by (simp add: b64_group_list(3) del: b64_loop.simps(2))
next
  case (4 c62 c63 a b c ds)
  note d = b64_digit_class [OF b64_group_small(1) 4(2,3)] b64_digit_class [OF b64_group_small(2) 4(2,3)]
    b64_digit_class [OF b64_group_small(3) 4(2,3)] b64_digit_class [OF b64_group_small(4) 4(2,3)]
  have "b64_loop (b64_encode c62 c63 (a # b # c # ds)) mx 0 out buf = b64_loop (b64_encode c62 c63 ds) mx 0 (out + 3) (blit buf out [a, b, c])"
    unfolding b64_encode.simps by (subst b64_group_list(1)) (use b64_loop_bytes [OF d, of out mx buf] 4(4,5) in \<open>simp del: b64_loop.simps(2)\<close>)
  also have "\<dots> = Some (Some (out + 3 + length (padded ds)), blit (blit buf out [a, b, c]) (out + 3) (padded ds))"
    by (rule 4(1) [OF 4(2,3)]) (use 4(4,5) in simp_all)
  finally show ?case using blit_append [of out "[a, b, c]" "padded ds" buf] 4(4,5) by (simp add: add.assoc plus_3)
qed simp


lemma base64_decode_encode:
  assumes "filter (\<lambda>c. b64_class c \<noteq> B64_skip) s = b64_encode c62 c63 ds" and "c62 = 43 \<or> c62 = 95" and "c63 = 47 \<or> c63 = 45"
    and "length (padded ds) \<le> mx" and "mx \<le> length buf"
  shows "base64_decode s buf mx = Some (int (length (padded ds)) + 1, blit buf 0 (padded ds))"
  using b64_loop_encode [OF assms(2,3), of 0 ds mx buf] assms(4,5)
  unfolding base64_decode_def b64_loop_skips [of s] assms(1) by simp

lemma b64_loop_overruns:
  assumes "c62 = 43 \<or> c62 = 95" and "c63 = 47 \<or> c63 = 45" and "out \<le> length buf" and "(length buf - out) mod 3 \<noteq> 0" and "3 * ((length buf - out) div 3 + 1) \<le> length ds"
  shows "b64_loop (b64_encode c62 c63 ds) (length buf) 0 out buf = None"
  using assms
proof (induction c62 c63 ds arbitrary: out buf rule: b64_encode.induct)
  case (4 c62 c63 a b c ds)
  note d = b64_digit_class [OF b64_group_small(1) 4(2,3)] b64_digit_class [OF b64_group_small(2) 4(2,3)]
    b64_digit_class [OF b64_group_small(3) 4(2,3)] b64_digit_class [OF b64_group_small(4) 4(2,3)]
  have e: "b64_encode c62 c63 (a # b # c # ds) = map (b64_digit c62 c63) [b64_group a b c ! 0, b64_group a b c ! 1, b64_group a b c ! 2, b64_group a b c ! 3] @ b64_encode c62 c63 ds"
    unfolding b64_encode.simps by (subst b64_group_list(1)) (rule refl)
  consider "length buf = out + 1" | "length buf = out + 2" | "out + 3 \<le> length buf" using 4(4,5) by (cases "length buf - out"; simp) linarith
  then show ?case
  proof cases
    case 3
    have "b64_loop (b64_encode c62 c63 (a # b # c # ds)) (length buf) 0 out buf = b64_loop (b64_encode c62 c63 ds) (length buf) 0 (out + 3) (blit buf out [a, b, c])"
      unfolding e using b64_loop_bytes [OF d 3 order_refl] by (simp del: b64_loop.simps(2))
    moreover have "(length buf - out) mod 3 = (length buf - (out + 3)) mod 3" "(length buf - out) div 3 = (length buf - (out + 3)) div 3 + 1"
      using 3 by (simp_all add: le_mod_geq le_div_geq)
    ultimately show ?thesis using 4(1) [OF 4(2,3), of "out + 3" "blit buf out [a, b, c]"] 3 4(5,6) by simp
  qed (use d e in \<open>simp_all add: b64_put_def rd_def wr_def\<close>)
qed simp_all

section \<open>Properties\<close>

text \<open>
  C31. \<open>base64_decode\<close> reads back what base64 encodes, with any NUL, tab, line feed and carriage return
  characters (0, 9, 10, 13) in between, and no others: put any other character that is neither in
  the table nor one of \<open>_\<close>, \<open>-\<close> and \<open>=\<close> anywhere into the text, a blank for one, and the result is -1.
  The last group is filled with zeros. The characters for 62 are \<open>+\<close> and \<open>_\<close>, those for 63 \<open>/\<close> and \<open>-\<close>.
  The length it returns is one more than the groups hold, and no account is taken of the padding.
\<close>

theorem base64_decode_reads_back:
  assumes "filter (\<lambda>x. x \<notin> {0, 9, 10, 13}) (s1 @ s2) = b64_encode c62 c63 ds" and "c62 = 43 \<or> c62 = 95" and "c63 = 47 \<or> c63 = 45"
    and "3 * ((length ds + 2) div 3) \<le> mx" and "mx \<le> length buf"
    and "c \<notin> set base64_table \<union> {95, 45, 61} \<union> {0, 9, 10, 13}"
  shows "(\<exists>buf'. base64_decode (s1 @ s2) buf mx = Some (int (3 * ((length ds + 2) div 3)) + 1, buf') \<and> length buf' = length buf
      \<and> take (length ds) buf' = ds \<and> drop (3 * ((length ds + 2) div 3)) buf' = drop (3 * ((length ds + 2) div 3)) buf)
    \<and> (\<exists>buf'. base64_decode (s1 @ c # s2) buf mx = Some (- 1, buf'))"
proof
  have f: "filter (\<lambda>c. b64_class c \<noteq> B64_skip) (s1 @ s2) = b64_encode c62 c63 ds" using assms(1) unfolding b64_skip_chars .
  have l: "length (padded ds) \<le> mx" using assms(4) unfolding length_padded .
  have "take (length ds) (blit buf 0 (padded ds)) = ds" by (simp add: blit_def padded_def)
  then show "\<exists>buf'. base64_decode (s1 @ s2) buf mx = Some (int (3 * ((length ds + 2) div 3)) + 1, buf') \<and> length buf' = length buf
      \<and> take (length ds) buf' = ds \<and> drop (3 * ((length ds + 2) div 3)) buf' = drop (3 * ((length ds + 2) div 3)) buf"
    using base64_decode_encode [OF f assms(2,3) l assms(5)] l assms(5)
    unfolding length_padded [symmetric] by (intro exI [of _ "blit buf 0 (padded ds)"]) (simp add: blit_def)
  have "b64_loop (s1 @ s2) mx 0 0 buf = Some (Some (length (padded ds)), blit buf 0 (padded ds))"
    using b64_loop_encode [OF assms(2,3), of 0 ds mx buf] l assms(5) unfolding b64_loop_skips [of "s1 @ s2"] f by simp
  from b64_loop_bad [OF this b64_bad_chars [OF assms(6)]]
  show "\<exists>buf'. base64_decode (s1 @ c # s2) buf mx = Some (- 1, buf')" by (auto simp: base64_decode_def)
qed

theorem base64_decode_reads_back_witness:
  "(\<exists>buf'. base64_decode (lit ''QUJD'' @ [13, 10] @ lit ''-w=='') (replicate 7 9) 7 = Some (7, buf') \<and> take 4 buf' = [65, 66, 67, 255] \<and> drop 6 buf' = [9])
   \<and> (\<exists>buf'. base64_decode (lit ''QUJD'' @ 32 # [13, 10] @ lit ''-w=='') (replicate 7 9) 7 = Some (- 1, buf'))"
proof -
  have e: "filter (\<lambda>x. x \<notin> {0, 9, 10, 13}) (lit ''QUJD'' @ [13, 10] @ lit ''-w=='') = b64_encode 95 45 [65, 66, 67, 255]" by code_simp
  have l: "3 * ((length [65, 66, 67, 255 :: byte] + 2) div 3) \<le> (7 :: nat)" "7 \<le> length (replicate 7 (9 :: byte))" by simp_all
  have c: "32 \<notin> set base64_table \<union> {95, 45, 61} \<union> {0, 9, 10, 13}" by code_simp
  have four: "length [65, 66, 67, 255 :: byte] = 4" "3 * ((4 + 2) div 3) = (6 :: nat)" by simp_all
  from base64_decode_reads_back [OF e _ _ l c] show ?thesis unfolding four by auto
qed

text \<open>
  The tool writes the four bytes of a pack header, the data of the first video segment of the
  session and its padding, and one byte more that the decoder never wrote.
\<close>

theorem decode_har_writes_segment:
  assumes "json_object_from_file j = Some root" and "json_object_object_get j (Some root) ''log'' = Some log"
    and "json_object_get_array j (json_object_object_get j (Some log) ''entries'') = Some (before @ entry # rest)"
    and "\<forall>e \<in> set before. segment_text j e = None" and "segment_text j entry = Some s"
    and "filter (\<lambda>c. b64_class c \<noteq> B64_skip) s = b64_encode 43 47 ds" and "length buf = HAR_BUFFER_SIZE" and "3 * ((length ds + 2) div 3) < HAR_BUFFER_SIZE"
  shows "decode_har j (Some buf) True True True
    = Some (0, ts_header @ ds @ replicate ((3 - length ds mod 3) mod 3) 0 @ [buf ! (3 * ((length ds + 2) div 3))])"
proof -
  let ?n = "length (padded ds)"
  have skip: "har_entries j True True (before @ entry # rest) buf = har_entries j True True (entry # rest) buf"
    using assms(4) by (induction before) auto
  have l: "length (padded ds) \<le> HAR_BUFFER_SIZE" using assms(8) unfolding length_padded by simp
  note dec = base64_decode_encode [OF assms(6) _ _ l order_eq_refl [OF assms(7) [symmetric]]]
  have len: "4 \<le> length (blit buf 0 (padded ds))" "?n < length (blit buf 0 (padded ds))"
    using l assms(7,8) unfolding length_padded [symmetric] by (simp_all add: HAR_BUFFER_SIZE_def)
  have bs: "take (Suc ?n) (blit buf 0 (padded ds)) = padded ds @ [buf ! ?n]"
    using l assms(7,8) unfolding length_padded [symmetric] by (simp add: blit_def take_Suc_conv_app_nth)
  have "\<exists>d. detect_box xs = Some d" if "4 \<le> length xs" for xs
    using that unfolding detect_box_def rd_def by (cases xs; cases "tl xs"; cases "tl (tl xs)"; auto simp: Suc_le_eq)
  then obtain d where "detect_box (blit buf 0 (padded ds)) = Some d" using len(1) by blast
  then have "har_entries j True True (entry # rest) buf = Some (ts_header @ padded ds @ [buf ! ?n])"
    using dec assms(5) len bs by (simp add: mem_read_def nat_add_distrib)
  then show ?thesis using assms(1-3) skip unfolding length_padded [symmetric] by (simp add: decode_har_def) (simp add: padded_def)
qed

definition demo_json :: "nat json_c" where
  "demo_json = \<lparr>json_object_from_file = Some 0,
     json_object_object_get = (\<lambda>obj key. case obj of None \<Rightarrow> None | Some k \<Rightarrow>
       map_of [((0, ''log''), 1), ((1, ''entries''), 2), ((3, ''request''), 4), ((3, ''response''), 5), ((5, ''content''), 6),
         ((6, ''size''), 7), ((6, ''mimeType''), 8), ((6, ''text''), 9)] (k, key)),
     json_object_get_type = (\<lambda>k. if k = 7 then Jint else if k = 8 \<or> k = 9 then Jstring else Jother),
     json_object_get_array = (\<lambda>obj. if obj = Some 2 then Some [None, Some 3] else None),
     json_object_get_string = (\<lambda>k. if k = 8 then lit ''video/mp2t'' else lit ''QUJD'')\<rparr>"

theorem decode_har_writes_segment_witness:
  "decode_har demo_json (Some (replicate HAR_BUFFER_SIZE 7)) True True True = Some (0, [0, 0, 1, 0xBA, 65, 66, 67, 7])"
proof -
  have j: "json_object_from_file demo_json = Some 0" "json_object_object_get demo_json (Some 0) ''log'' = Some 1"
    "json_object_get_array demo_json (json_object_object_get demo_json (Some 1) ''entries'') = Some ([None] @ Some 3 # [])"
    "\<forall>e \<in> set [None]. segment_text demo_json e = None" "segment_text demo_json (Some 3) = Some (lit ''QUJD'')"
    by (simp_all add: demo_json_def segment_text_def Let_def)
  have e: "filter (\<lambda>c. b64_class c \<noteq> B64_skip) (lit ''QUJD'') = b64_encode 43 47 [65, 66, 67]" by code_simp
  have n: "3 * ((length [65, 66, 67 :: byte] + 2) div 3) = (3 :: nat)" "replicate ((3 - length [65, 66, 67 :: byte] mod 3) mod 3) (0 :: byte) = []" by simp_all
  have h: "(3 :: nat) < HAR_BUFFER_SIZE" by (simp add: HAR_BUFFER_SIZE_def)
  from decode_har_writes_segment [OF j e, of "replicate HAR_BUFFER_SIZE 7"] h show ?thesis
    unfolding n by (simp only: length_replicate nth_replicate) (simp add: ts_header_def)
qed

text \<open>
  \<open>base64_decode\<close> checks the place of the byte it finishes, not that of the next one it starts: where
  the size of the output is no multiple of three, as the 8 MB of the tool, a longer text is written one
  byte behind the buffer.
\<close>

theorem base64_decode_overruns:
  assumes "length buf mod 3 \<noteq> 0" and "3 * (length buf div 3 + 1) \<le> length ds"
  shows "base64_decode (b64_encode 43 47 ds) buf (length buf) = None"
  using b64_loop_overruns [of 43 47 0 buf ds] assms by (simp add: base64_decode_def)

theorem base64_decode_overruns_witness: "base64_decode (lit ''QUJD'') [0, 0] 2 = None"
proof -
  have "lit ''QUJD'' = b64_encode 43 47 [65, 66, 67]" by code_simp
  moreover have "length [0, 0 :: byte] = 2" by simp
  ultimately show ?thesis using base64_decode_overruns [of "[0, 0]" "[65, 66, 67]"] by (simp only:) simp
qed

end
