(* ===== verification/FromBin.thy ===== *)
theory FromBin
  imports LogFile BitmapHex
begin

text \<open>
  \<open>src/tools/frombin.c\<close>: the tool that turns a binary file into the text of a C array. The outcomes
  of \<open>read\<close> and \<open>write\<close> are scripts, the output file is the list of its bytes with the position at
  its end.
\<close>

section \<open>The program\<close>

datatype bin_ev = Bin_read "byte list" | Bin_error int

definition LINE_SIZE :: nat where "LINE_SIZE = 32"

text \<open>\<open>write_all\<close>: what was written, whether all of it, and the outcomes left.\<close>

fun write_all :: "write_ev list \<Rightarrow> byte list \<Rightarrow> byte list \<times> bool \<times> write_ev list" where
  "write_all ws [] = ([], True, ws)"
| "write_all [] (b # bs) = (b # bs, True, [])"
| "write_all (Write_error e # ws) (b # bs) = (if e = EINTR \<or> e = EAGAIN then write_all ws (b # bs) else ([], False, ws))"
| "write_all (Wrote n # ws) (b # bs) =
     (let k = min n (length (b # bs)); (w, ok, ws) = write_all ws (drop k (b # bs)) in (take k (b # bs) @ w, ok, ws))"

definition hex_item :: "byte \<Rightarrow> byte list" where "hex_item b = lit ''0x'' @ fmt_hex 2 (unat b) @ lit '',''"

text \<open>The inner \<open>for\<close> loop: the items of one line, printed into \<open>out_buf\<close> from \<open>len\<close> on.\<close>

fun print_items :: "byte list \<Rightarrow> byte list \<Rightarrow> nat \<Rightarrow> (byte list \<times> nat) option" where
  "print_items [] out_buf len = Some (out_buf, len)"
| "print_items (b # bs) out_buf len = do {
     (out_buf, n) \<leftarrow> c_snprintf out_buf len (length out_buf - len) (hex_item b);
     print_items bs out_buf (len + n) }"

text \<open>The loop over the lines of one block that was read. It returns whether the writing went on, the buffer, the file and the outcomes left.\<close>

function emit_lines :: "byte list \<Rightarrow> byte list \<Rightarrow> byte list \<Rightarrow> write_ev list \<Rightarrow> (bool \<times> byte list \<times> byte list \<times> write_ev list) option" where
  "emit_lines bs out_buf out ws =
     (if bs = [] then Some (True, out_buf, out, ws)
      else do {
        (out_buf, len) \<leftarrow> print_items (take LINE_SIZE bs) out_buf 0;
        (out_buf, n) \<leftarrow> c_snprintf out_buf len (length out_buf - len) [10];
        line \<leftarrow> mem_read out_buf 0 (len + n);
        let (w, ok, ws) = write_all ws line;
        if \<not> ok then Some (False, out_buf, out @ w, ws)
        else emit_lines (drop LINE_SIZE bs) out_buf (out @ w) ws })"
  by pat_completeness auto
termination by (relation "measure (\<lambda>(bs, _). length bs)") (auto simp: LINE_SIZE_def)

declare emit_lines.simps [simp del]

fun bin_loop :: "bin_ev list \<Rightarrow> byte list \<Rightarrow> byte list \<Rightarrow> write_ev list \<Rightarrow> (bool \<times> byte list \<times> byte list \<times> write_ev list) option" where
  "bin_loop [] out_buf out ws = Some (True, out_buf, out, ws)"
| "bin_loop (Bin_error e # evs) out_buf out ws =
     (if e = EINTR \<or> e = EAGAIN then bin_loop evs out_buf out ws else Some (True, out_buf, out, ws))"
| "bin_loop (Bin_read bs # evs) out_buf out ws =
     (if bs = [] then Some (True, out_buf, out, ws)
      else do {
        (ok, out_buf, out, ws) \<leftarrow> emit_lines bs out_buf out ws;
        if ok then bin_loop evs out_buf out ws else Some (False, out_buf, out, ws) })"

definition array_head :: "byte list" where "array_head = lit ''static unsigned char chinese_font[] = {'' @ [10]"
definition array_tail :: "byte list" where "array_tail = [10] @ lit ''};'' @ [10]"

text \<open>The last two bytes of the file are overwritten: \<open>lseek\<close> goes back and the new text is as long or longer.\<close>

definition frombin :: "int \<Rightarrow> bool \<Rightarrow> bool \<Rightarrow> bool \<Rightarrow> bin_ev list \<Rightarrow> write_ev list \<Rightarrow> byte list \<Rightarrow> (int \<times> byte list) option" where
  "frombin argc in_ok out_ok seek_ok evs ws out_buf =
     (if argc < 3 \<or> \<not> in_ok \<or> \<not> out_ok then Some (- EINVAL, [])
      else do {
        (out_buf, len) \<leftarrow> c_snprintf out_buf 0 (length out_buf) array_head;
        head \<leftarrow> mem_read out_buf 0 len;
        let (out, ok, ws) = write_all ws head;
        if \<not> ok then Some (- EIO, out)
        else do {
          (ok, out_buf, out, ws) \<leftarrow> bin_loop evs out_buf out ws;
          if \<not> ok \<or> \<not> seek_ok \<or> length out < 2 then Some (- EIO, out)
          else do {
            (out_buf, len) \<leftarrow> c_snprintf out_buf 0 (length out_buf) array_tail;
            end_text \<leftarrow> mem_read out_buf 0 len;
            let pos = length out - 2;
            let (w, ok, ws) = write_all ws end_text;
            let out = take pos out @ w @ drop (pos + length w) out;
            Some (if ok then 0 else - EIO, out) } } })"

section \<open>The text\<close>

lemma write_all_soft:
  "(\<forall>e. Write_error e \<in> set ws \<longrightarrow> e = EINTR \<or> e = EAGAIN) \<Longrightarrow>
   \<exists>ws'. write_all ws bs = (bs, True, ws') \<and> set ws' \<subseteq> set ws"
proof (induction ws bs rule: write_all.induct)
  case (4 n ws b bs)
  then have "\<exists>ws'. write_all ws (drop (min n (length (b # bs))) (b # bs)) = (drop (min n (length (b # bs))) (b # bs), True, ws') \<and> set ws' \<subseteq> set ws" by auto
  then obtain ws' where "write_all ws (drop (min n (length (b # bs))) (b # bs)) = (drop (min n (length (b # bs))) (b # bs), True, ws')" "set ws' \<subseteq> set ws" by blast
  then show ?case by (simp only: write_all.simps Let_def prod.case append_take_drop_id) auto
qed auto

lemma hex_item_parts: "\<exists>h l. hex_item b = [48, 120, h, l, 44] \<and> isxdigit h \<and> isxdigit l \<and> hex_num 0 [h, l] = unat b"
proof -
  have "unat b < 16 ^ 2" using unsigned_less [of b] by simp
  from fmt_hex_facts [OF _ this] have f: "length (fmt_hex 2 (unat b)) = 2" "list_all isxdigit (fmt_hex 2 (unat b))" "hex_num 0 (fmt_hex 2 (unat b)) = unat b" by simp_all
  then obtain h l where "fmt_hex 2 (unat b) = [h, l]" by (auto simp: length_Suc_conv numeral_2_eq_2)
  then show ?thesis using f by (auto simp: hex_item_def lit_def)
qed

lemma length_hex_item [simp]: "length (hex_item b) = 5"
  using hex_item_parts [of b] by auto

lemma length_hex_items [simp]: "length (concat (map hex_item bs)) = 5 * length bs"
  by (induction bs) simp_all

definition line_text :: "byte list \<Rightarrow> byte list" where "line_text bs = concat (map hex_item bs) @ [10]"

lemma print_items_text:
  "len + 5 * length bs < length buf \<Longrightarrow> \<exists>buf'. print_items bs buf len = Some (buf', len + 5 * length bs) \<and> length buf' = length buf
     \<and> take (len + 5 * length bs) buf' = take len buf @ concat (map hex_item bs)"
proof (induction bs arbitrary: buf len)
  case (Cons b bs)
  let ?buf = "blit buf len (hex_item b @ [0])"
  have s: "c_snprintf buf len (length buf - len) (hex_item b) = Some (?buf, 5)"
    using Cons.prems by (simp add: c_snprintf_def mem_write_def)
  have "length ?buf = length buf" using Cons.prems by simp
  moreover have "take (len + 5) ?buf = take len buf @ hex_item b"
    using Cons.prems by (simp add: blit_def)
  ultimately show ?case using s Cons.IH [of "len + 5" ?buf] Cons.prems by (auto simp: add.assoc)
qed simp

text \<open>A block is printed in lines of at most 32 bytes.\<close>

function chop :: "'a list \<Rightarrow> 'a list list" where
  "chop xs = (if xs = [] then [] else take LINE_SIZE xs # chop (drop LINE_SIZE xs))"
  by pat_completeness auto
termination by (relation "measure length") (auto simp: LINE_SIZE_def)

declare chop.simps [simp del]

lemma chop_facts: "concat (chop xs) = xs \<and> [] \<notin> set (chop xs)"
proof (induction xs rule: chop.induct)
  case (1 xs)
  then show ?case by (subst (1 2) chop.simps) (auto simp: LINE_SIZE_def)
qed

definition soft :: "write_ev list \<Rightarrow> bool" where
  "soft ws \<longleftrightarrow> (\<forall>e. Write_error e \<in> set ws \<longrightarrow> e = EINTR \<or> e = EAGAIN)"

lemma write_all_ok:
  assumes "soft ws"
  obtains ws' where "write_all ws bs = (bs, True, ws')" and "soft ws'"
  using write_all_soft [of ws bs] assms unfolding soft_def by blast

lemma emit_lines_text:
  "soft ws \<Longrightarrow> length buf = 256 \<Longrightarrow>
   \<exists>buf' ws'. emit_lines bs buf out ws = Some (True, buf', out @ concat (map line_text (chop bs)), ws') \<and> length buf' = 256 \<and> soft ws'"
proof (induction bs buf out ws rule: emit_lines.induct)
  case (1 bs buf out ws)
  show ?case
  proof (cases "bs = []")
    case True
    then show ?thesis using 1 by (simp add: emit_lines.simps chop.simps)
  next
    case False
    let ?l = "take LINE_SIZE bs" let ?n = "5 * length ?l"
    have n: "?n \<le> 160" by (simp add: LINE_SIZE_def)
    obtain b1 where b1: "print_items ?l buf 0 = Some (b1, ?n)" "length b1 = 256" "take ?n b1 = concat (map hex_item ?l)"
      using print_items_text [of 0 ?l buf] n 1(3) by auto
    let ?b2 = "blit b1 ?n [10, 0]"
    have b2: "c_snprintf b1 ?n (length b1 - ?n) [10] = Some (?b2, 1)" "length ?b2 = 256" using n b1(2) by (simp_all add: c_snprintf_def mem_write_def)
    have line: "mem_read ?b2 0 (?n + 1) = Some (line_text ?l)"
      using n b1(2,3) by (simp add: mem_read_def line_text_def blit_def)
    obtain ws' where ws': "write_all ws (line_text ?l) = (line_text ?l, True, ws')" "soft ws'" using write_all_ok [OF 1(2)] .
    have "\<exists>buf' ws''. emit_lines (drop LINE_SIZE bs) ?b2 (out @ line_text ?l) ws' =
        Some (True, buf', (out @ line_text ?l) @ concat (map line_text (chop (drop LINE_SIZE bs))), ws'') \<and> length buf' = 256 \<and> soft ws''"
      by (rule 1(1) [OF False b1(1) refl b2(1) refl line ws'(1) [symmetric] refl refl]) (use ws' b2 in simp_all)
    then show ?thesis
      unfolding emit_lines.simps [of bs] chop.simps [of bs] using False b1(1) b2(1) line ws'(1) by simp
  qed
qed


text \<open>What is read until the end, or until an error.\<close>

fun read_data :: "bin_ev list \<Rightarrow> byte list" where
  "read_data [] = []"
| "read_data (Bin_error e # evs) = (if e = EINTR \<or> e = EAGAIN then read_data evs else [])"
| "read_data (Bin_read bs # evs) = (if bs = [] then [] else bs @ read_data evs)"

lemma bin_loop_text:
  "soft ws \<Longrightarrow> length buf = 256 \<Longrightarrow>
   \<exists>buf' ws' ls. bin_loop evs buf out ws = Some (True, buf', out @ concat (map line_text ls), ws') \<and> length buf' = 256 \<and> soft ws'
     \<and> concat ls = read_data evs \<and> [] \<notin> set ls"
proof (induction evs buf out ws rule: bin_loop.induct)
  case (1 buf out ws)
  then show ?case by (intro exI [of _ buf] exI [of _ ws] exI [of _ "[]"]) simp
next
  case (2 e evs buf out ws)
  then show ?case by (cases "e = EINTR \<or> e = EAGAIN") (simp_all, intro exI [of _ "[]"], simp)
next
  case (3 bs evs buf out ws)
  show ?case
  proof (cases "bs = []")
    case True
    then show ?thesis using 3 by (intro exI [of _ buf] exI [of _ ws] exI [of _ "[]"]) simp
  next
    case False
    from emit_lines_text [OF 3(2,3), of bs out] obtain b1 ws1 where
      e: "emit_lines bs buf out ws = Some (True, b1, out @ concat (map line_text (chop bs)), ws1)" "length b1 = 256" "soft ws1" by blast
    from 3(1) [OF False e(1) refl refl refl TrueI e(3,2)] obtain b2 ws2 ls where
      "bin_loop evs b1 (out @ concat (map line_text (chop bs))) ws1 = Some (True, b2, (out @ concat (map line_text (chop bs))) @ concat (map line_text ls), ws2)"
      "length b2 = 256" "soft ws2" "concat ls = read_data evs" "[] \<notin> set ls" by blast
    then show ?thesis using e(1) False chop_facts [of bs]
      by (intro exI [of _ b2] exI [of _ ws2] exI [of _ "chop bs @ ls"]) simp
  qed
qed

section \<open>Reading the array\<close>

text \<open>
  The initialiser of the array as a C compiler reads it: bytes in hexadecimal with commas between
  them, line ends where there may be white space, up to the closing brace.
\<close>

function c_items :: "byte list \<Rightarrow> byte list option" where
  "c_items s =
     (case s of
        z # x # h # l # r \<Rightarrow>
          if z = 48 \<and> x = 120 \<and> isxdigit h \<and> isxdigit l then
            if take 1 r = [44] then map_option ((#) (of_nat (hex_num 0 [h, l]))) (c_items (dropWhile (\<lambda>c. c = 10) (drop 1 r)))
            else if take 3 r = [10, 125, 59] then Some [of_nat (hex_num 0 [h, l])]
            else None
          else None
      | _ \<Rightarrow> None)"
  by pat_completeness auto
termination
  by (relation "measure length") (auto simp: less_Suc_eq_le intro: order_trans [OF length_dropWhile_le])

declare c_items.simps [simp del]

definition c_array :: "byte list \<Rightarrow> byte list option" where
  "c_array s = (case dropWhile (\<lambda>c. c \<noteq> 123) s of [] \<Rightarrow> None | _ # r \<Rightarrow> c_items (dropWhile (\<lambda>c. c = 10) r))"

lemma c_items_item: "c_items (hex_item b @ r) = map_option ((#) b) (c_items (dropWhile (\<lambda>c. c = 10) r))"
  using hex_item_parts [of b] by (auto simp: c_items.simps [of "48 # _"] simp del: hex_num_simps)

lemma c_items_last: "c_items (butlast (hex_item b) @ array_tail) = Some [b]"
  using hex_item_parts [of b] by (auto simp: c_items.simps [of "48 # _"] array_tail_def lit_def simp del: hex_num_simps)

lemma skip_item: "dropWhile (\<lambda>c. c = 10) (hex_item b @ r) = hex_item b @ r" "dropWhile (\<lambda>c. c = 10) (butlast (hex_item b) @ r) = butlast (hex_item b) @ r"
  using hex_item_parts [of b] by auto

lemma c_items_line: "bs \<noteq> [] \<Longrightarrow> c_items (line_text bs @ r) = map_option ((@) bs) (c_items (dropWhile (\<lambda>c. c = 10) r))"
proof (induction bs)
  case (Cons b bs)
  show ?case
  proof (cases bs)
    case Nil
    then show ?thesis by (simp add: line_text_def c_items_item)
  next
    case (Cons c cs)
    then have "dropWhile (\<lambda>c. c = 10) (line_text bs @ r) = line_text bs @ r" by (simp add: line_text_def skip_item)
    moreover have "line_text (b # bs) @ r = hex_item b @ line_text bs @ r" by (simp add: line_text_def)
    ultimately show ?thesis using Cons.IH Cons by (simp add: c_items_item option.map_comp o_def)
  qed
qed simp


lemma c_items_last_line: "c_items (concat (map hex_item bs) @ butlast (hex_item b) @ array_tail) = Some (bs @ [b])"
proof (induction bs)
  case Nil
  show ?case by (simp add: c_items_last)
next
  case (Cons c bs)
  have "dropWhile (\<lambda>c. c = 10) (concat (map hex_item bs) @ butlast (hex_item b) @ array_tail) = concat (map hex_item bs) @ butlast (hex_item b) @ array_tail"
    by (cases bs) (simp_all add: skip_item)
  then show ?case using Cons.IH by (simp add: c_items_item)
qed

lemma c_items_lines:
  "[] \<notin> set ls \<Longrightarrow> c_items (concat (map line_text ls) @ concat (map hex_item bs) @ butlast (hex_item b) @ array_tail) = Some (concat ls @ bs @ [b])
    \<and> dropWhile (\<lambda>c. c = 10) (concat (map line_text ls) @ concat (map hex_item bs) @ butlast (hex_item b) @ array_tail)
      = concat (map line_text ls) @ concat (map hex_item bs) @ butlast (hex_item b) @ array_tail"
proof (induction ls)
  case Nil
  have "dropWhile (\<lambda>c. c = 10) (concat (map hex_item bs) @ butlast (hex_item b) @ array_tail) = concat (map hex_item bs) @ butlast (hex_item b) @ array_tail"
    by (cases bs) (simp_all add: skip_item)
  then show ?case using c_items_last_line [of bs b] by simp
next
  case (Cons l ls)
  moreover have "dropWhile (\<lambda>c. c = 10) (line_text l @ r) = line_text l @ r" for r using Cons.prems by (cases l) (auto simp: line_text_def skip_item)
  moreover have "l \<noteq> []" using Cons.prems by auto
  ultimately show ?case by (simp add: c_items_line)
qed

lemma drop_last_comma: "take (length (x @ line_text (bs @ [b])) - 2) (x @ line_text (bs @ [b])) = x @ concat (map hex_item bs) @ butlast (hex_item b)"
proof -
  have "hex_item b = butlast (hex_item b) @ [44]" using hex_item_parts [of b] by auto
  then obtain y where y: "hex_item b = y @ [44]" "y = butlast (hex_item b)" by blast
  have "x @ line_text (bs @ [b]) = (x @ concat (map hex_item bs) @ y) @ [44, 10]" by (simp add: line_text_def y(1))
  then show ?thesis unfolding y(2) [symmetric] by simp
qed

lemma array_head_read: "c_array (array_head @ r) = c_items (dropWhile (\<lambda>c. c = 10) r)" "2 \<le> length array_head" "length array_head < 256"
  by (simp_all add: c_array_def array_head_def lit_def)

lemma frombin_run:
  assumes "soft ws" and "length out_buf = 256" and "3 \<le> argc"
  shows "\<exists>ls. frombin argc True True True evs ws out_buf =
      Some (0, take (length array_head + length (concat (map line_text ls)) - 2) (array_head @ concat (map line_text ls)) @ array_tail)
    \<and> concat ls = read_data evs \<and> [] \<notin> set ls"
proof -
  let ?b1 = "blit out_buf 0 (array_head @ [0])"
  have b1: "c_snprintf out_buf 0 (length out_buf) array_head = Some (?b1, length array_head)" "length ?b1 = 256"
    using array_head_read(3) assms(2) by (simp_all add: c_snprintf_def mem_write_def)
  have h: "mem_read ?b1 0 (length array_head) = Some array_head" using array_head_read(3) assms(2) by (simp add: mem_read_def blit_def)
  obtain ws1 where w1: "write_all ws array_head = (array_head, True, ws1)" "soft ws1" using write_all_ok [OF assms(1)] .
  obtain b2 ws2 ls where loop: "bin_loop evs ?b1 array_head ws1 = Some (True, b2, array_head @ concat (map line_text ls), ws2)" "length b2 = 256" "soft ws2"
    and ls: "concat ls = read_data evs" "[] \<notin> set ls"
    using bin_loop_text [OF w1(2) b1(2), of evs array_head] by blast
  let ?b3 = "blit b2 0 (array_tail @ [0])"
  have t: "length array_tail = 4" by (simp add: array_tail_def lit_def)
  then have b3: "c_snprintf b2 0 (length b2) array_tail = Some (?b3, 4)" "mem_read ?b3 0 4 = Some array_tail"
    using loop(2) by (simp_all add: c_snprintf_def mem_write_def mem_read_def blit_def)
  obtain ws3 where w3: "write_all ws2 array_tail = (array_tail, True, ws3)" "soft ws3" using write_all_ok [OF loop(3)] .
  have "\<not> length (array_head @ concat (map line_text ls)) < 2" using array_head_read(2) by simp
  then have "frombin argc True True True evs ws out_buf =
      Some (0, take (length array_head + length (concat (map line_text ls)) - 2) (array_head @ concat (map line_text ls)) @ array_tail)"
    using assms(3) t b1(1) h w1(1) loop(1) b3 w3(1) by (simp add: frombin_def del: take_append)
  then show ?thesis using ls by blast
qed

section \<open>Properties\<close>

text \<open>
  C30. The text that the tool writes is a C array of the bytes it read, in whatever pieces these were
  read and the text was written.
\<close>

theorem frombin_roundtrip:
  assumes "soft ws" and "length out_buf = 256" and "3 \<le> argc" and "read_data evs \<noteq> []"
  shows "\<exists>out. frombin argc True True True evs ws out_buf = Some (0, out) \<and> c_array out = Some (read_data evs)"
proof -
  obtain ls where ls: "frombin argc True True True evs ws out_buf =
      Some (0, take (length array_head + length (concat (map line_text ls)) - 2) (array_head @ concat (map line_text ls)) @ array_tail)"
    "concat ls = read_data evs" "[] \<notin> set ls"
    using frombin_run [OF assms(1-3), of evs] by blast
  then obtain ks l where k: "ls = ks @ [l]" using assms(4) by (cases ls rule: rev_cases) auto
  then obtain bs b where l: "l = bs @ [b]" using ls(3) by (cases l rule: rev_cases) auto
  let ?x = "array_head @ concat (map line_text ks)"
  have "take (length array_head + length (concat (map line_text ls)) - 2) (array_head @ concat (map line_text ls)) = ?x @ concat (map hex_item bs) @ butlast (hex_item b)"
    using drop_last_comma [of ?x bs b] unfolding k l by simp
  moreover have "c_items (concat (map line_text ks) @ concat (map hex_item bs) @ butlast (hex_item b) @ array_tail) = Some (read_data evs)"
    using c_items_lines [of ks bs b] ls(2,3) unfolding k l by auto
  ultimately show ?thesis using ls(1) c_items_lines [of ks bs b] ls(3) unfolding k by (simp add: array_head_read(1))
qed


theorem frombin_roundtrip_witness:
  "\<exists>out. frombin 3 True True True [Bin_read [0, 255], Bin_error EINTR, Bin_read [16]] [Wrote 7, Write_error EAGAIN] (replicate 256 0) = Some (0, out)
    \<and> c_array out = Some [0, 255, 16]"
proof -
  have "soft [Wrote 7, Write_error EAGAIN]" by (simp add: soft_def)
  from frombin_roundtrip [OF this, of "replicate 256 0" 3 "[Bin_read [0, 255], Bin_error EINTR, Bin_read [16]]"] show ?thesis by simp
qed

text \<open>
  An empty file, or one whose first read fails, gives a text that is no C array: going back two
  characters takes away the opening brace. The result is still 0, and so is that of a file whose
  reading fails in the middle.
\<close>

theorem frombin_empty:
  assumes "soft ws" and "length out_buf = 256" and "3 \<le> argc" and "read_data evs = []"
  shows "\<exists>out. frombin argc True True True evs ws out_buf = Some (0, out) \<and> c_array out = None"
proof -
  obtain ls where ls: "frombin argc True True True evs ws out_buf =
      Some (0, take (length array_head + length (concat (map line_text ls)) - 2) (array_head @ concat (map line_text ls)) @ array_tail)"
    "concat ls = read_data evs" "[] \<notin> set ls"
    using frombin_run [OF assms(1-3), of evs] by blast
  then have "ls = []" using assms(4) by (cases ls) auto
  moreover have "c_array (take (length array_head - 2) array_head @ array_tail) = None" by (simp add: c_array_def array_head_def array_tail_def lit_def)
  ultimately show ?thesis using ls(1) by simp
qed

theorem frombin_empty_witness:
  "\<exists>out. frombin 3 True True True [] [] (replicate 256 0) = Some (0, out) \<and> c_array out = None"
  using frombin_empty [of "[]" "replicate 256 0" 3 "[]"] by (simp add: soft_def)

end
