(* ===== verification/I2cDev.thy ===== *)
theory I2cDev
  imports LogHash
begin

text \<open>
  \<open>src/src/hw/example_i2c.c\<close>: messages on an I2C bus through the kernel's device files, and the table
  of open devices that contexts share. \<open>ioctl(I2C_RDWR)\<close>, which is the kernel, the bus and the chip on
  it, is the argument \<open>xfer\<close>: it takes the messages and its own state and yields what was read or an
  error. The mutex has no effect in one thread and is left out.
\<close>

section \<open>Messages\<close>

datatype i2c_msg = I2c_write (msg_addr: int) (msg_data: "byte list") | I2c_read (msg_addr: int) (msg_len: nat)

datatype i2c_result = I2c_ok "byte list" | I2c_error int

type_synonym 'b i2c_bus = "i2c_msg list \<Rightarrow> 'b \<Rightarrow> i2c_result \<times> 'b"

text \<open>The \<open>do\<close> loop around \<open>ioctl\<close>, which may run for ever.\<close>

partial_function (option) ioctl_loop :: "'b i2c_bus \<Rightarrow> i2c_msg list \<Rightarrow> 'b \<Rightarrow> (i2c_result \<times> 'b) option" where
  "ioctl_loop xfer msgs w =
     (case xfer msgs w of
        (I2c_error e, w) \<Rightarrow> if e = EINTR then ioctl_loop xfer msgs w else Some (I2c_error e, w)
      | (I2c_ok bs, w) \<Rightarrow> Some (I2c_ok bs, w))"

text \<open>The length field of a message has 16 bits.\<close>

definition msg_size :: "int \<Rightarrow> nat" where "msg_size sz = unat (word_of_int sz :: u16)"

definition i2c_write_data :: "'b i2c_bus \<Rightarrow> int \<Rightarrow> byte list \<Rightarrow> int \<Rightarrow> 'b \<Rightarrow> (int \<times> 'b) option" where
  "i2c_write_data xfer addr buf sz w = do {
     bs \<leftarrow> mem_read buf 0 (msg_size sz);
     (r, w) \<leftarrow> ioctl_loop xfer [I2c_write addr bs] w;
     Some (case r of I2c_ok _ \<Rightarrow> 0 | I2c_error _ \<Rightarrow> - 1, w) }"

definition i2c_read_data :: "'b i2c_bus \<Rightarrow> int \<Rightarrow> byte list \<Rightarrow> int \<Rightarrow> 'b \<Rightarrow> (int \<times> byte list \<times> 'b) option" where
  "i2c_read_data xfer addr buf sz w = do {
     (r, w) \<leftarrow> ioctl_loop xfer [I2c_read addr (msg_size sz)] w;
     case r of
       I2c_ok bs \<Rightarrow> do { buf \<leftarrow> mem_write buf 0 (take (msg_size sz) bs); Some (0, buf, w) }
     | I2c_error _ \<Rightarrow> Some (- 1, buf, w) }"

text \<open>A negative size is converted to a large unsigned number by the comparison, so it is refused.\<close>

definition i2c_write_reg :: "'b i2c_bus \<Rightarrow> int \<Rightarrow> byte \<Rightarrow> byte list \<Rightarrow> int \<Rightarrow> 'b \<Rightarrow> (int \<times> 'b) option" where
  "i2c_write_reg xfer addr reg buf sz w =
     (if sz < 0 \<or> 64 \<le> sz then Some (- 1, w)
      else do {
        bs \<leftarrow> mem_read buf 0 (nat sz);
        (r, w) \<leftarrow> ioctl_loop xfer [I2c_write addr (reg # bs)] w;
        Some (case r of I2c_ok _ \<Rightarrow> 0 | I2c_error _ \<Rightarrow> - 1, w) })"

definition i2c_read_reg :: "'b i2c_bus \<Rightarrow> int \<Rightarrow> byte \<Rightarrow> byte list \<Rightarrow> int \<Rightarrow> 'b \<Rightarrow> (int \<times> byte list \<times> 'b) option" where
  "i2c_read_reg xfer addr reg buf sz w = do {
     (r, w) \<leftarrow> ioctl_loop xfer [I2c_write addr [reg], I2c_read addr (msg_size sz)] w;
     case r of
       I2c_ok bs \<Rightarrow> do { buf \<leftarrow> mem_write buf 0 (take (msg_size sz) bs); Some (0, buf, w) }
     | I2c_error _ \<Rightarrow> Some (- 1, buf, w) }"

section \<open>The table of devices\<close>

definition MAX_I2CDEVS :: nat where "MAX_I2CDEVS = 16"

record i2c_private =
  i2cdev :: "byte list"
  pv_fd :: int
  pv_users :: int

text \<open>The table, the descriptors that are open, and the contexts handed out that are not destroyed yet.\<close>

record i2c_devs =
  i2cdevs :: "i2c_private option list"
  dv_open :: "int list"
  dv_ctxs :: "(int \<times> int) list"

text \<open>What the calls meet: whether \<open>calloc\<close> and \<open>malloc\<close> succeed, and the result of \<open>open\<close>.\<close>

record i2c_env =
  ie_calloc :: bool
  ie_open :: int
  ie_malloc :: bool

definition named :: "byte list \<Rightarrow> i2c_private option \<Rightarrow> bool" where
  "named name s = (case s of None \<Rightarrow> False | Some p \<Rightarrow> i2cdev p = name)"

definition with_fd :: "int \<Rightarrow> i2c_private option \<Rightarrow> bool" where
  "with_fd fd s = (case s of None \<Rightarrow> False | Some p \<Rightarrow> pv_fd p = fd)"

text \<open>The first slot that satisfies a test, as the search loops find it.\<close>

fun first_slot :: "('a \<Rightarrow> bool) \<Rightarrow> 'a list \<Rightarrow> nat option" where
  "first_slot t [] = None"
| "first_slot t (s # ss) = (if t s then Some 0 else map_option Suc (first_slot t ss))"

definition add_i2cdevs :: "i2c_env \<Rightarrow> byte list \<Rightarrow> i2c_devs \<Rightarrow> (int \<times> i2c_devs) option" where
  "add_i2cdevs env name s =
     (case first_slot (named name) (i2cdevs s) of
        Some i \<Rightarrow> do {
          slot \<leftarrow> rd (i2cdevs s) i; p \<leftarrow> slot;
          Some (pv_fd p, s\<lparr>i2cdevs := (i2cdevs s)[i := Some (p\<lparr>pv_users := pv_users p + 1\<rparr>)]\<rparr>) }
      | None \<Rightarrow>
          (case first_slot (\<lambda>s. s = None) (i2cdevs s) of
             None \<Rightarrow> Some (- ENOMEM, s)
           | Some i \<Rightarrow>
               if \<not> ie_calloc env then Some (- ENOMEM, s)
               else if 16 \<le> length name then Some (- EINVAL, s)
               else if ie_open env < 0 then Some (ie_open env, s)
               else Some (ie_open env, s\<lparr>i2cdevs := (i2cdevs s)[i := Some \<lparr>i2cdev = name, pv_fd = ie_open env, pv_users = 1\<rparr>],
                                         dv_open := ie_open env # dv_open s\<rparr>)))"

definition del_i2cdevs :: "int \<Rightarrow> i2c_devs \<Rightarrow> i2c_devs option" where
  "del_i2cdevs fd s =
     (case first_slot (with_fd fd) (i2cdevs s) of
        None \<Rightarrow> Some s
      | Some i \<Rightarrow> do {
          slot \<leftarrow> rd (i2cdevs s) i; p \<leftarrow> slot;
          let p = p\<lparr>pv_users := pv_users p - 1\<rparr>;
          Some (if pv_users p \<le> 0 then s\<lparr>i2cdevs := (i2cdevs s)[i := None], dv_open := remove1 (pv_fd p) (dv_open s)\<rparr>
                else s\<lparr>i2cdevs := (i2cdevs s)[i := Some p]\<rparr>) })"

text \<open>\<open>init_i2c_context\<close> returns the context, which is its descriptor and address, or the null pointer.\<close>

definition init_i2c_context :: "i2c_env \<Rightarrow> byte list \<Rightarrow> int \<Rightarrow> i2c_devs \<Rightarrow> ((int \<times> int) option \<times> i2c_devs) option" where
  "init_i2c_context env name addr s = do {
     (fd, s) \<leftarrow> add_i2cdevs env name s;
     if fd < 0 then Some (None, s)
     else if \<not> ie_malloc env then do { s \<leftarrow> del_i2cdevs fd s; Some (None, s) }
     else Some (Some (fd, addr), s\<lparr>dv_ctxs := (fd, addr) # dv_ctxs s\<rparr>) }"

definition free_i2c_context :: "int \<times> int \<Rightarrow> i2c_devs \<Rightarrow> i2c_devs option" where
  "free_i2c_context ctx s =
     (if ctx \<notin> set (dv_ctxs s) then None
      else do { s \<leftarrow> del_i2cdevs (fst ctx) s; Some (s\<lparr>dv_ctxs := remove1 ctx (dv_ctxs s)\<rparr>) })"

definition i2c_start :: i2c_devs where
  "i2c_start = \<lparr>i2cdevs = replicate MAX_I2CDEVS None, dv_open = [], dv_ctxs = []\<rparr>"

text \<open>The system: contexts are made and destroyed in any order; the kernel hands out descriptors that are not open.\<close>

inductive i2c_reach :: "i2c_devs \<Rightarrow> bool" where
  start: "i2c_reach i2c_start"
| init: "i2c_reach s \<Longrightarrow> ie_open env \<notin> set (dv_open s) \<Longrightarrow> init_i2c_context env name addr s = Some (c, s') \<Longrightarrow> i2c_reach s'"
| free: "i2c_reach s \<Longrightarrow> free_i2c_context ctx s = Some s' \<Longrightarrow> i2c_reach s'"

section \<open>Lemmas\<close>

lemma first_slot_Some: "first_slot t ss = Some i \<Longrightarrow> i < length ss \<and> t (ss ! i)"
  by (induction ss arbitrary: i) (auto split: if_splits)

lemma first_slot_None: "first_slot t ss = None \<Longrightarrow> s \<in> set ss \<Longrightarrow> \<not> t s"
  by (induction ss) (auto split: if_splits)

definition users_of :: "int \<Rightarrow> i2c_devs \<Rightarrow> nat" where
  "users_of fd s = length (filter (\<lambda>c. fst c = fd) (dv_ctxs s))"

text \<open>The devices of the table, in the order of their slots.\<close>

fun devs :: "i2c_private option list \<Rightarrow> i2c_private list" where
  "devs [] = []"
| "devs (None # ss) = devs ss"
| "devs (Some p # ss) = p # devs ss"

lemma devs_append [simp]: "devs (ss @ ts) = devs ss @ devs ts"
  by (induction ss rule: devs.induct) simp_all

lemma set_devs: "p \<in> set (devs ss) \<longleftrightarrow> Some p \<in> set ss"
  by (induction ss rule: devs.induct) auto

text \<open>
  The invariant: the table has 16 slots, no two devices have the same name or descriptor, each is
  counted as often as \<open>cnt\<close> says and at least once, and the open descriptors are those of the table.
\<close>

definition dev_ok :: "(int \<Rightarrow> nat) \<Rightarrow> i2c_private option list \<Rightarrow> int list \<Rightarrow> bool" where
  "dev_ok cnt ss fds \<longleftrightarrow> length ss = MAX_I2CDEVS \<and> distinct fds \<and> distinct (map i2cdev (devs ss)) \<and> distinct (map pv_fd (devs ss))
     \<and> (\<forall>p \<in> set (devs ss). pv_users p = int (cnt (pv_fd p)) \<and> 0 < cnt (pv_fd p) \<and> 0 \<le> pv_fd p)
     \<and> set fds = pv_fd ` set (devs ss) \<and> (\<forall>fd. fd \<notin> set fds \<longrightarrow> cnt fd = 0)"

definition dev_inv :: "i2c_devs \<Rightarrow> bool" where
  "dev_inv s \<longleftrightarrow> dev_ok (\<lambda>fd. users_of fd s) (i2cdevs s) (dv_open s)"

lemma slot_split:
  assumes "i < length ss"
  obtains xs ys where "ss = xs @ ss ! i # ys" and "\<And>x. ss[i := x] = xs @ x # ys"
  using assms id_take_nth_drop [OF assms] upd_conv_take_nth_drop [OF assms] that by blast

text \<open>A device with another number of users, a new device, and no device any more.\<close>

lemma dev_ok_change:
  assumes "dev_ok cnt ss fds" and "i < length ss" and "ss ! i = Some p" and "0 < u"
  shows "dev_ok (cnt(pv_fd p := u)) (ss[i := Some (p\<lparr>pv_users := int u\<rparr>)]) fds"
proof -
  obtain xs ys where s: "ss = xs @ Some p # ys" "ss[i := Some (p\<lparr>pv_users := int u\<rparr>)] = xs @ Some (p\<lparr>pv_users := int u\<rparr>) # ys"
    using slot_split [OF assms(2)] assms(3) by metis
  then have "pv_fd q \<noteq> pv_fd p" if "q \<in> set (devs xs) \<union> set (devs ys)" for q using assms(1) that by (auto simp: dev_ok_def image_iff)
  then show ?thesis using assms(1,4) unfolding s(2) by (auto simp: dev_ok_def s(1))
qed

lemma dev_ok_new:
  assumes "dev_ok cnt ss fds" and "i < length ss" and "ss ! i = None" and "fd \<notin> set fds" and "0 \<le> fd" and "first_slot (named name) ss = None"
  shows "dev_ok (cnt(fd := 1)) (ss[i := Some \<lparr>i2cdev = name, pv_fd = fd, pv_users = 1\<rparr>]) (fd # fds)"
proof -
  let ?p = "\<lparr>i2cdev = name, pv_fd = fd, pv_users = 1\<rparr>"
  obtain xs ys where s: "ss = xs @ None # ys" "ss[i := Some ?p] = xs @ Some ?p # ys"
    using slot_split [OF assms(2)] assms(3) by metis
  have "i2cdev q \<noteq> name" if "q \<in> set (devs ss)" for q
    using first_slot_None [OF assms(6), of "Some q"] that by (auto simp: named_def set_devs)
  then show ?thesis using assms(1,4,5) s by (auto simp: dev_ok_def)
qed

lemma dev_ok_gone:
  assumes "dev_ok cnt ss fds" and "i < length ss" and "ss ! i = Some p"
  shows "dev_ok (cnt(pv_fd p := 0)) (ss[i := None]) (remove1 (pv_fd p) fds)"
proof -
  obtain xs ys where s: "ss = xs @ Some p # ys" "ss[i := None] = xs @ None # ys"
    using slot_split [OF assms(2)] assms(3) by metis
  then have "pv_fd q \<noteq> pv_fd p" if "q \<in> set (devs xs) \<union> set (devs ys)" for q using assms(1) that by (auto simp: dev_ok_def image_iff)
  then show ?thesis using assms(1) unfolding s(2) by (auto simp: dev_ok_def s(1))
qed

section \<open>Operations keep the invariant\<close>

lemma add_i2cdevs_keeps:
  assumes "dev_ok cnt (i2cdevs s) (dv_open s)" and "ie_open env \<notin> set (dv_open s)"
  obtains fd s' where "add_i2cdevs env name s = Some (fd, s')" and "dv_ctxs s' = dv_ctxs s"
    and "fd < 0 \<Longrightarrow> s' = s" and "0 \<le> fd \<Longrightarrow> dev_ok (cnt(fd := cnt fd + 1)) (i2cdevs s') (dv_open s')"
proof (cases "first_slot (named name) (i2cdevs s)")
  case (Some i)
  then obtain p where p: "i < length (i2cdevs s)" "i2cdevs s ! i = Some p"
    using first_slot_Some [OF Some] by (auto simp: named_def split: option.splits)
  have "p \<in> set (devs (i2cdevs s))" unfolding set_devs using p by (metis nth_mem)
  then have u: "pv_users p + 1 = int (cnt (pv_fd p) + 1)" "0 \<le> pv_fd p" using assms(1) by (auto simp: dev_ok_def)
  have "add_i2cdevs env name s = Some (pv_fd p, s\<lparr>i2cdevs := (i2cdevs s)[i := Some (p\<lparr>pv_users := int (cnt (pv_fd p) + 1)\<rparr>)]\<rparr>)"
    using Some p u(1) by (simp add: add_i2cdevs_def rd_def add.commute)
  then show thesis by (rule that) (use dev_ok_change [OF assms(1) p, of "cnt (pv_fd p) + 1"] u(2) in simp_all)
next
  case None
  show thesis
  proof (cases "first_slot (\<lambda>s. s = None) (i2cdevs s)")
    case n: None
    have "add_i2cdevs env name s = Some (- ENOMEM, s)" unfolding add_i2cdevs_def None n by simp
    then show thesis by (rule that) (simp_all add: ENOMEM_def)
  next
    case (Some i)
    note f = first_slot_Some [OF Some]
    have z: "cnt (ie_open env) = 0" using assms by (simp add: dev_ok_def)
    note run = add_i2cdevs_def [of env name s, unfolded None Some option.case]
    show thesis
    proof (cases "ie_calloc env \<and> length name < 16 \<and> 0 \<le> ie_open env")
      case False
      define e where "e = (if \<not> ie_calloc env then - ENOMEM else if 16 \<le> length name then - EINVAL else ie_open env)"
      have "add_i2cdevs env name s = Some (e, s)" unfolding run e_def using False by auto
      then show thesis by (rule that) (use False in \<open>auto simp: e_def ENOMEM_def EINVAL_def split: if_splits\<close>)
    next
      case True
      then have "add_i2cdevs env name s = Some (ie_open env, s\<lparr>i2cdevs := (i2cdevs s)[i := Some \<lparr>i2cdev = name, pv_fd = ie_open env, pv_users = 1\<rparr>],
          dv_open := ie_open env # dv_open s\<rparr>)"
        unfolding run by simp
      then show thesis by (rule that) (use True z f dev_ok_new [OF assms(1) _ _ assms(2) _ None] in simp_all)
    qed
  qed
qed

lemma del_i2cdevs_keeps:
  assumes "dev_ok cnt (i2cdevs s) (dv_open s)" and "0 < cnt fd"
  obtains s' where "del_i2cdevs fd s = Some s'" and "dv_ctxs s' = dv_ctxs s" and "dev_ok (cnt(fd := cnt fd - 1)) (i2cdevs s') (dv_open s')"
proof -
  have "fd \<in> set (dv_open s)" using assms unfolding dev_ok_def by (metis less_irrefl)
  then obtain q where q: "Some q \<in> set (i2cdevs s)" "pv_fd q = fd" using assms(1) by (auto simp: dev_ok_def set_devs)
  then obtain i where i: "first_slot (with_fd fd) (i2cdevs s) = Some i"
    using first_slot_None [of "with_fd fd" "i2cdevs s" "Some q"] by (cases "first_slot (with_fd fd) (i2cdevs s)") (auto simp: with_fd_def)
  then obtain p where p: "i < length (i2cdevs s)" "i2cdevs s ! i = Some p" "pv_fd p = fd"
    using first_slot_Some [OF i] by (auto simp: with_fd_def split: option.splits)
  have "p \<in> set (devs (i2cdevs s))" unfolding set_devs using p by (metis nth_mem)
  then have u: "pv_users p = int (cnt fd)" using assms(1) p(3) by (auto simp: dev_ok_def)
  show thesis
  proof (cases "cnt fd = 1")
    case True
    then have "del_i2cdevs fd s = Some (s\<lparr>i2cdevs := (i2cdevs s)[i := None], dv_open := remove1 fd (dv_open s)\<rparr>)"
      using i p u by (simp add: del_i2cdevs_def rd_def)
    then show thesis by (rule that) (use dev_ok_gone [OF assms(1) p(1,2)] p(3) True in simp_all)
  next
    case False
    then have "int (cnt fd) - 1 = int (cnt fd - 1)" "0 < cnt fd - 1" using assms(2) by auto
    then have "del_i2cdevs fd s = Some (s\<lparr>i2cdevs := (i2cdevs s)[i := Some (p\<lparr>pv_users := int (cnt fd - 1)\<rparr>)]\<rparr>)"
      using i p u by (simp add: del_i2cdevs_def rd_def)
    then show thesis by (rule that) (use dev_ok_change [OF assms(1) p(1,2), of "cnt fd - 1"] \<open>0 < cnt fd - 1\<close> p(3) in simp_all)
  qed
qed


lemma users_of_insert: "users_of x (t\<lparr>dv_ctxs := (fd, addr) # dv_ctxs s\<rparr>) = ((\<lambda>x. users_of x s)(fd := users_of fd s + 1)) x"
  by (simp add: users_of_def)

lemma users_of_remove:
  assumes "c \<in> set (dv_ctxs s)"
  shows "users_of x (s\<lparr>dv_ctxs := remove1 c (dv_ctxs s)\<rparr>) = ((\<lambda>x. users_of x s)(fst c := users_of (fst c) s - 1)) x" "0 < users_of (fst c) s"
proof -
  obtain xs ys where "dv_ctxs s = xs @ c # ys" "c \<notin> set xs" using split_list_first [OF assms] by blast
  then show "users_of x (s\<lparr>dv_ctxs := remove1 c (dv_ctxs s)\<rparr>) = ((\<lambda>x. users_of x s)(fst c := users_of (fst c) s - 1)) x" "0 < users_of (fst c) s"
    by (simp_all add: users_of_def remove1_append)
qed

lemma users_of_cong: "dv_ctxs s' = dv_ctxs s \<Longrightarrow> users_of x s' = users_of x s"
  by (simp add: users_of_def)

lemma init_i2c_context_keeps:
  assumes "dev_inv s" and "ie_open env \<notin> set (dv_open s)"
  shows "\<exists>c s'. init_i2c_context env name addr s = Some (c, s') \<and> dev_inv s'"
proof -
  obtain fd t where t: "add_i2cdevs env name s = Some (fd, t)" "dv_ctxs t = dv_ctxs s" "fd < 0 \<Longrightarrow> t = s"
    "0 \<le> fd \<Longrightarrow> dev_ok ((\<lambda>x. users_of x s)(fd := users_of fd s + 1)) (i2cdevs t) (dv_open t)"
    using add_i2cdevs_keeps [OF assms(1) [unfolded dev_inv_def] assms(2)] by blast
  consider "fd < 0" | "0 \<le> fd" "\<not> ie_malloc env" | "0 \<le> fd" "ie_malloc env" by linarith
  then show ?thesis
  proof cases
    case 1
    then show ?thesis using t assms(1) by (simp add: init_i2c_context_def)
  next
    case 2
    have e: "((\<lambda>x. users_of x s)(fd := users_of fd s + 1))(fd := ((\<lambda>x. users_of x s)(fd := users_of fd s + 1)) fd - 1) = (\<lambda>x. users_of x s)" by auto
    from del_i2cdevs_keeps [OF t(4) [OF 2(1)], of fd, unfolded e] obtain u where
      "del_i2cdevs fd t = Some u" "dv_ctxs u = dv_ctxs t" "dev_ok (\<lambda>x. users_of x s) (i2cdevs u) (dv_open u)"
      by auto
    then show ?thesis using 2 t(1,2) by (simp add: init_i2c_context_def dev_inv_def users_of_cong [of u s])
  next
    case 3
    then show ?thesis using t unfolding init_i2c_context_def dev_inv_def by (simp add: users_of_insert fun_upd_def)
  qed
qed

lemma free_i2c_context_keeps:
  assumes "dev_inv s" and "c \<in> set (dv_ctxs s)"
  shows "\<exists>s'. free_i2c_context c s = Some s' \<and> dev_inv s'"
proof -
  from del_i2cdevs_keeps [OF assms(1) [unfolded dev_inv_def] users_of_remove(2) [OF assms(2)]] obtain t where t:
    "del_i2cdevs (fst c) s = Some t" "dv_ctxs t = dv_ctxs s" "dev_ok ((\<lambda>x. users_of x s)(fst c := users_of (fst c) s - 1)) (i2cdevs t) (dv_open t)" by blast
  have "users_of x (t\<lparr>dv_ctxs := remove1 c (dv_ctxs t)\<rparr>) = ((\<lambda>x. users_of x s)(fst c := users_of (fst c) s - 1)) x" for x
    using users_of_remove(1) [of c t x] assms(2) t(2) by (simp add: users_of_cong [of t s])
  then show ?thesis using t assms(2) by (simp add: free_i2c_context_def dev_inv_def fun_upd_def)
qed

lemma i2c_start_inv: "dev_inv i2c_start"
proof -
  have "devs (replicate n None) = []" for n by (induction n) simp_all
  then show ?thesis by (simp add: dev_inv_def dev_ok_def i2c_start_def users_of_def)
qed

lemma i2c_reach_inv: "i2c_reach s \<Longrightarrow> dev_inv s"
proof (induction rule: i2c_reach.induct)
  case (init s env name addr c s')
  then show ?case using init_i2c_context_keeps [of s env name addr] by auto
next
  case (free s ctx s')
  then show ?case using free_i2c_context_keeps [of s ctx] by (auto simp: free_i2c_context_def split: if_splits)
qed (rule i2c_start_inv)

section \<open>Properties\<close>

text \<open>
  C25. However contexts are made and destroyed, and whatever fails on the way, every device file is open
  at most once, under one descriptor, exactly as long as a context uses it; its user count is the
  number of its contexts, and making or destroying one more never goes wrong.
\<close>

theorem i2c_devices_shared:
  assumes "i2c_reach s"
  shows "set (dv_open s) = fst ` set (dv_ctxs s) \<and> distinct (dv_open s) \<and> distinct (map i2cdev (devs (i2cdevs s)))
    \<and> (\<forall>p \<in> set (devs (i2cdevs s)). pv_users p = int (users_of (pv_fd p) s))
    \<and> (\<forall>env name addr. ie_open env \<notin> set (dv_open s) \<longrightarrow> init_i2c_context env name addr s \<noteq> None)
    \<and> (\<forall>c \<in> set (dv_ctxs s). free_i2c_context c s \<noteq> None)"
proof -
  have inv: "dev_inv s" using assms by (rule i2c_reach_inv)
  have "fd \<in> set (dv_open s) \<longleftrightarrow> 0 < users_of fd s" for fd using inv by (auto simp: dev_inv_def dev_ok_def)
  moreover have "0 < users_of fd s \<longleftrightarrow> fd \<in> fst ` set (dv_ctxs s)" for fd by (auto simp: users_of_def filter_empty_conv)
  ultimately have "set (dv_open s) = fst ` set (dv_ctxs s)" by blast
  then show ?thesis using inv init_i2c_context_keeps [OF inv] free_i2c_context_keeps [OF inv] by (fastforce simp: dev_inv_def dev_ok_def)
qed


definition demo_dev :: "int \<Rightarrow> i2c_env" where "demo_dev fd = \<lparr>ie_calloc = True, ie_open = fd, ie_malloc = True\<rparr>"

theorem i2c_devices_shared_witness:
  "\<exists>s. i2c_reach s \<and> dv_ctxs s = [(5, 81), (5, 80)] \<and> set (dv_open s) = {5}"
proof -
  define s1 where "s1 = \<lparr>i2cdevs = Some \<lparr>i2cdev = lit ''/dev/i2c-2'', pv_fd = 5, pv_users = 1\<rparr> # replicate 15 None, dv_open = [5], dv_ctxs = [(5, 80)]\<rparr>"
  define s2 where "s2 = \<lparr>i2cdevs = Some \<lparr>i2cdev = lit ''/dev/i2c-2'', pv_fd = 5, pv_users = 2\<rparr> # replicate 15 None, dv_open = [5], dv_ctxs = [(5, 81), (5, 80)]\<rparr>"
  have r: "replicate MAX_I2CDEVS None = None # replicate 15 None" by (simp add: MAX_I2CDEVS_def eval_nat_numeral)
  have n: "first_slot (named name) (replicate k None) = None" for name k by (induction k) (simp_all add: named_def)
  have "init_i2c_context (demo_dev 5) (lit ''/dev/i2c-2'') 80 i2c_start = Some (Some (5, 80), s1)"
    by (simp add: init_i2c_context_def add_i2cdevs_def i2c_start_def r n named_def demo_dev_def lit_def s1_def)
  then have s1: "i2c_reach s1" by (intro i2c_reach.init [OF i2c_reach.start, of "demo_dev 5"]) (simp_all add: i2c_start_def)
  have "init_i2c_context (demo_dev 6) (lit ''/dev/i2c-2'') 81 s1 = Some (Some (5, 81), s2)"
    by (simp add: init_i2c_context_def add_i2cdevs_def named_def demo_dev_def s1_def s2_def rd_def)
  from i2c_reach.init [OF s1 _ this] have "i2c_reach s2" by (simp add: demo_dev_def s1_def)
  from i2c_devices_shared [OF this] show ?thesis using \<open>i2c_reach s2\<close> by (intro exI [of _ s2]) (simp add: s2_def)
qed

end
