(* ===== verification/Rtc.thy ===== *)
theory Rtc
  imports I2cDev
begin

text \<open>
  \<open>src/src/hardware/example_i2c.c\<close>: the real-time clock behind an I2C bus. The program's globals are
  a record; the bus is the argument \<open>xfer\<close> as in \<open>I2cDev\<close>, here called once for each message.
\<close>

section \<open>The driver\<close>

record calendar =
  sec :: byte
  minute :: byte
  hour :: byte
  day :: byte
  month :: byte
  year :: byte
  weekday :: byte

record rtc =
  watchdog_enabled :: int
  HYM8563_init_ok :: bool

definition HYM_ADDR :: int where "HYM_ADDR = 0xA2 div 2"
definition TIMER_TIMEOUT :: byte where "TIMER_TIMEOUT = 30"

definition CAM_I2C_Write :: "'b i2c_bus \<Rightarrow> int \<Rightarrow> byte \<Rightarrow> byte list \<Rightarrow> int \<Rightarrow> 'b \<Rightarrow> (int \<times> 'b) option" where
  "CAM_I2C_Write xfer addr reg buf sz w =
     (if sz < 0 \<or> 64 \<le> sz then Some (- 1, w)
      else do {
        bs \<leftarrow> mem_read buf 0 (nat sz);
        let (r, w) = xfer [I2c_write addr (reg # bs)] w;
        Some (case r of I2c_ok _ \<Rightarrow> 0 | I2c_error _ \<Rightarrow> - 1, w) })"

definition CAM_I2C_Read :: "'b i2c_bus \<Rightarrow> int \<Rightarrow> byte \<Rightarrow> byte list \<Rightarrow> int \<Rightarrow> 'b \<Rightarrow> (int \<times> byte list \<times> 'b) option" where
  "CAM_I2C_Read xfer addr reg buf sz w =
     (case xfer [I2c_write addr [reg], I2c_read addr (msg_size sz)] w of
        (I2c_ok bs, w) \<Rightarrow> do { buf \<leftarrow> mem_write buf 0 (take (msg_size sz) bs); Some (0, buf, w) }
      | (I2c_error _, w) \<Rightarrow> Some (- 1, buf, w))"

text \<open>\<open>opened\<close> is whether the device file could be opened.\<close>

definition HYM8563_Init :: "'b i2c_bus \<Rightarrow> bool \<Rightarrow> rtc \<Rightarrow> 'b \<Rightarrow> (int \<times> rtc \<times> 'b) option" where
  "HYM8563_Init xfer opened g w =
     (let g = g\<lparr>HYM8563_init_ok := False\<rparr> in
      if opened then do {
        let g = g\<lparr>HYM8563_init_ok := True\<rparr>;
        (_, w) \<leftarrow> CAM_I2C_Write xfer HYM_ADDR 0x0D [0x80] 1 w;
        Some (0, g, w) }
      else Some (- 1, g, w))"

function bcd_loop :: "byte \<Rightarrow> byte \<Rightarrow> byte \<times> byte" where
  "bcd_loop high v = (if 10 \<le> v then bcd_loop (high + 1) (v - 10) else (high, v))"
  by pat_completeness auto
termination
  by (relation "measure (\<lambda>(_, v). unat v)") (auto simp: word_le_nat_alt unat_sub)

declare bcd_loop.simps [simp del]

definition ByteToBcd2 :: "byte \<Rightarrow> byte" where
  "ByteToBcd2 v = (let (bcdhigh, v) = bcd_loop 0 v in push_bit 4 bcdhigh OR v)"

definition Bcd2ToByte :: "byte \<Rightarrow> byte" where
  "Bcd2ToByte v = drop_bit 4 (v AND 0xF0) * 10 + (v AND 0x0F)"

definition HYM8536_GetDateTime :: "'b i2c_bus \<Rightarrow> rtc \<Rightarrow> calendar \<Rightarrow> 'b \<Rightarrow> (int \<times> calendar \<times> 'b) option" where
  "HYM8536_GetDateTime xfer g t w =
     (if \<not> HYM8563_init_ok g then Some (- 1, t, w)
      else do {
        (_, buf, w) \<leftarrow> CAM_I2C_Read xfer HYM_ADDR 0x02 (replicate 7 0) 7 w;
        Some (0, t\<lparr>sec := Bcd2ToByte (buf ! 0 AND 0x7F), minute := Bcd2ToByte (buf ! 1 AND 0x7F), hour := Bcd2ToByte (buf ! 2 AND 0x3F),
                   day := Bcd2ToByte (buf ! 3 AND 0x3F), weekday := Bcd2ToByte (buf ! 4 AND 0x07), month := Bcd2ToByte (buf ! 5 AND 0x1F),
                   year := Bcd2ToByte (buf ! 6 AND 0xFF)\<rparr>, w) })"

definition HYM8536_SetDateTime :: "'b i2c_bus \<Rightarrow> rtc \<Rightarrow> calendar \<Rightarrow> 'b \<Rightarrow> (int \<times> 'b) option" where
  "HYM8536_SetDateTime xfer g t w =
     (if \<not> HYM8563_init_ok g then Some (- 1, w)
      else do {
        let buf = [ByteToBcd2 (sec t), ByteToBcd2 (minute t), ByteToBcd2 (hour t), ByteToBcd2 (day t), ByteToBcd2 (weekday t),
                   ByteToBcd2 (month t), ByteToBcd2 (year t)];
        (_, w) \<leftarrow> CAM_I2C_Write xfer HYM_ADDR 0x02 buf 7 w;
        Some (0, w) })"

definition HYM8563_EnableWatchdog :: "'b i2c_bus \<Rightarrow> int \<Rightarrow> rtc \<Rightarrow> 'b \<Rightarrow> (rtc \<times> 'b) option" where
  "HYM8563_EnableWatchdog xfer b g w =
     (if \<not> HYM8563_init_ok g then Some (g, w)
      else do {
        let g = g\<lparr>watchdog_enabled := b\<rparr>;
        let data = (if b \<noteq> 0 then [0x11, 0x83, TIMER_TIMEOUT] else [0, 0, 0]);
        w \<leftarrow> for_range 0 3 (\<lambda>i w. do {
          (_, w) \<leftarrow> CAM_I2C_Write xfer HYM_ADDR ([0x01, 0x0E, 0x0F] ! i) (drop i data) 1 w; Some w }) w;
        Some (g, w) })"

definition HYM8563_FeedWatchdog :: "'b i2c_bus \<Rightarrow> rtc \<Rightarrow> 'b \<Rightarrow> 'b option" where
  "HYM8563_FeedWatchdog xfer g w =
     (if watchdog_enabled g = 0 \<or> \<not> HYM8563_init_ok g then Some w
      else do { (_, w) \<leftarrow> CAM_I2C_Write xfer HYM_ADDR 0x0f [TIMER_TIMEOUT] 1 w; Some w })"


section \<open>Binary coded decimals\<close>

lemma small_byte:
  assumes "list_all (\<lambda>n. P (of_nat n :: byte)) [0..<k]" and "v < of_nat k" and "k < 256"
  shows "P v"
proof -
  have "unat v < k" using assms(2,3) by (simp add: word_less_nat_alt unat_of_nat)
  moreover have "\<forall>n \<in> set [0..<k]. P (of_nat n)" using assms(1) unfolding list_all_iff .
  ultimately have "P (of_nat (unat v))" by (metis atLeast_upt lessThan_iff)
  then show ?thesis by simp
qed

lemma bcd_masks:
  "v < 80 \<Longrightarrow> ByteToBcd2 v AND 0x7F = ByteToBcd2 v" "v < 40 \<Longrightarrow> ByteToBcd2 v AND 0x3F = ByteToBcd2 v"
  "v < 8 \<Longrightarrow> ByteToBcd2 v AND 0x07 = ByteToBcd2 v" "v < 20 \<Longrightarrow> ByteToBcd2 v AND 0x1F = ByteToBcd2 v"
  "v < 100 \<Longrightarrow> Bcd2ToByte (ByteToBcd2 v) = v"
  subgoal by (rule small_byte [where P = "\<lambda>v. ByteToBcd2 v AND 0x7F = ByteToBcd2 v" and k = 80]) (code_simp, simp_all)
  subgoal by (rule small_byte [where P = "\<lambda>v. ByteToBcd2 v AND 0x3F = ByteToBcd2 v" and k = 40]) (code_simp, simp_all)
  subgoal by (rule small_byte [where P = "\<lambda>v. ByteToBcd2 v AND 0x07 = ByteToBcd2 v" and k = 8]) (code_simp, simp_all)
  subgoal by (rule small_byte [where P = "\<lambda>v. ByteToBcd2 v AND 0x1F = ByteToBcd2 v" and k = 20]) (code_simp, simp_all)
  subgoal by (rule small_byte [where P = "\<lambda>v. Bcd2ToByte (ByteToBcd2 v) = v" and k = 100]) (code_simp, simp_all)
  done


section \<open>Properties\<close>

definition rtc_masks :: "byte list" where "rtc_masks = [0x7F, 0x7F, 0x3F, 0x3F, 0x07, 0x1F, 0xFF]"

definition valid_calendar :: "calendar \<Rightarrow> bool" where
  "valid_calendar t \<longleftrightarrow> sec t < 60 \<and> minute t < 60 \<and> hour t < 24 \<and> day t < 32 \<and> weekday t < 7 \<and> month t < 13 \<and> year t < 100"

definition calendar_bytes :: "calendar \<Rightarrow> byte list" where
  "calendar_bytes t = [sec t, minute t, hour t, day t, weekday t, month t, year t]"

text \<open>
  What the chip promises: seven registers that were written from number 2 on are read back, except
  for the bits outside the masks, which the chip uses for flags.
\<close>

definition keeps_time :: "'b i2c_bus \<Rightarrow> 'b \<Rightarrow> bool" where
  "keeps_time xfer w \<longleftrightarrow> (\<forall>bs. length bs = 7 \<longrightarrow>
     (\<exists>r w' bs' w''. xfer [I2c_write HYM_ADDR (2 # bs)] w = (I2c_ok r, w') \<and> xfer [I2c_write HYM_ADDR [2], I2c_read HYM_ADDR 7] w' = (I2c_ok bs', w'')
       \<and> length bs' = 7 \<and> (\<forall>i < 7. bs' ! i AND rtc_masks ! i = bs ! i AND rtc_masks ! i)))"

lemma get_put_time: "length bs = 7 \<Longrightarrow> msg_size 7 = 7 \<and> mem_write (replicate 7 0) 0 (take 7 bs) = Some bs"
  by (simp add: msg_size_def mem_write_def blit_def)

text \<open>C35. A date and time that was set is read back from the clock.\<close>

theorem rtc_set_get:
  assumes "HYM8563_init_ok g" and "keeps_time xfer w" and "valid_calendar t"
  shows "\<exists>w' w''. HYM8536_SetDateTime xfer g t w = Some (0, w') \<and> HYM8536_GetDateTime xfer g t0 w' = Some (0, t, w'')"
proof -
  let ?bs = "map ByteToBcd2 (calendar_bytes t)"
  have "length ?bs = 7" by (simp add: calendar_bytes_def)
  then obtain r w' bs w'' where k: "xfer [I2c_write HYM_ADDR (2 # ?bs)] w = (I2c_ok r, w')" "xfer [I2c_write HYM_ADDR [2], I2c_read HYM_ADDR 7] w' = (I2c_ok bs, w'')"
    "length bs = 7" "\<forall>i < 7. bs ! i AND rtc_masks ! i = ?bs ! i AND rtc_masks ! i"
    using assms(2) unfolding keeps_time_def by blast
  have "\<forall>i \<in> {0, 1, 2, 3, 4, 5, 6}. bs ! i AND rtc_masks ! i = ?bs ! i AND rtc_masks ! i" using k(4) by auto
  then have m: "bs ! 0 AND 0x7F = ByteToBcd2 (sec t) AND 0x7F" "bs ! 1 AND 0x7F = ByteToBcd2 (minute t) AND 0x7F"
    "bs ! 2 AND 0x3F = ByteToBcd2 (hour t) AND 0x3F" "bs ! 3 AND 0x3F = ByteToBcd2 (day t) AND 0x3F" "bs ! 4 AND 0x07 = ByteToBcd2 (weekday t) AND 0x07"
    "bs ! 5 AND 0x1F = ByteToBcd2 (month t) AND 0x1F" "bs ! 6 AND 0xFF = ByteToBcd2 (year t) AND 0xFF"
    by (simp_all add: rtc_masks_def calendar_bytes_def)
  have v: "sec t < 80" "minute t < 80" "hour t < 40" "day t < 40" "weekday t < 8" "month t < 20"
    "sec t < 100" "minute t < 100" "hour t < 100" "day t < 100" "weekday t < 100" "month t < 100" "year t < 100"
    using assms(3) by (auto simp: valid_calendar_def word_less_nat_alt)
  have full: "ByteToBcd2 (year t) AND 0xFF = ByteToBcd2 (year t)" by (rule bit_word_eqI; drule byte_bits; auto simp: bit_simps)
  note f = m(1) [unfolded bcd_masks(1) [OF v(1)]] m(2) [unfolded bcd_masks(1) [OF v(2)]] m(3) [unfolded bcd_masks(2) [OF v(3)]] m(4) [unfolded bcd_masks(2) [OF v(4)]]
    m(5) [unfolded bcd_masks(3) [OF v(5)]] m(6) [unfolded bcd_masks(4) [OF v(6)]] m(7) [unfolded full]
  have set: "HYM8536_SetDateTime xfer g t w = Some (0, w')"
    using k(1) assms(1) by (simp add: HYM8536_SetDateTime_def CAM_I2C_Write_def mem_read_def calendar_bytes_def)
  have "CAM_I2C_Read xfer HYM_ADDR 2 (replicate 7 0) 7 w' = Some (0, bs, w'')"
    using get_put_time [OF k(3)] k(2) by (simp only: CAM_I2C_Read_def) simp
  then have "HYM8536_GetDateTime xfer g t0 w' = Some (0, t, w'')"
    using assms(1) unfolding HYM8536_GetDateTime_def by (simp only: f bcd_masks(5) [OF v(7)] bcd_masks(5) [OF v(8)] bcd_masks(5) [OF v(9)] bcd_masks(5) [OF v(10)]
      bcd_masks(5) [OF v(11)] bcd_masks(5) [OF v(12)] bcd_masks(5) [OF v(13)] Option.bind.bind_lunit prod.case) simp
  then show ?thesis using set by blast
qed

text \<open>
  Errors of the bus are not reported: when every message fails, setting the time and reading it
  both return 0, and the time read is all zeros.
\<close>

theorem rtc_errors_hidden:
  assumes "HYM8563_init_ok g" and "\<And>msgs w. \<exists>e. fst (xfer msgs w) = I2c_error e"
  shows "\<exists>w' w''. HYM8536_SetDateTime xfer g t w = Some (0, w') \<and> HYM8536_GetDateTime xfer g t0 w' = Some (0, \<lparr>sec = 0, minute = 0, hour = 0, day = 0, month = 0, year = 0, weekday = 0\<rparr>, w'')"
proof -
  have e: "\<exists>e w'. xfer msgs w = (I2c_error e, w')" for msgs w using assms(2) [of msgs w] by (cases "xfer msgs w") auto
  obtain w' where set: "HYM8536_SetDateTime xfer g t w = Some (0, w')"
    using e [of "[I2c_write HYM_ADDR (2 # map ByteToBcd2 (calendar_bytes t))]" w] assms(1)
    by (auto simp: HYM8536_SetDateTime_def CAM_I2C_Write_def mem_read_def calendar_bytes_def)
  obtain w'' where "CAM_I2C_Read xfer HYM_ADDR 2 (replicate 7 0) 7 w' = Some (- 1, replicate 7 0, w'')"
    using e [of "[I2c_write HYM_ADDR [2], I2c_read HYM_ADDR (msg_size 7)]" w'] by (auto simp: CAM_I2C_Read_def)
  then have "HYM8536_GetDateTime xfer g t0 w' = Some (0, \<lparr>sec = 0, minute = 0, hour = 0, day = 0, month = 0, year = 0, weekday = 0\<rparr>, w'')"
    using assms(1) by (cases t0) (simp add: HYM8536_GetDateTime_def Bcd2ToByte_def)
  then show ?thesis using set by blast
qed


definition chip :: "(byte \<Rightarrow> byte) i2c_bus" where
  "chip msgs w =
     (case msgs of
        [I2c_write a (r # bs)] \<Rightarrow> (I2c_ok [], \<lambda>k. if r \<le> k \<and> unat (k - r) < length bs then bs ! unat (k - r) else w k)
      | [I2c_write a [r], I2c_read b n] \<Rightarrow> (I2c_ok (map (\<lambda>i. w (r + of_nat i)) [0..<n]), w)
      | _ \<Rightarrow> (I2c_error EIO, w))"

lemma chip_keeps_time: "keeps_time chip w"
  unfolding keeps_time_def
proof (intro allI impI)
  fix bs :: "byte list" assume l: "length bs = 7"
  define w' where "w' = (\<lambda>k :: byte. if 2 \<le> k \<and> unat (k - 2) < length bs then bs ! unat (k - 2) else w k)"
  have "w' (2 + of_nat i) = bs ! i" if "i < 7" for i
  proof -
    have "(2 :: byte) \<le> 2 + of_nat i" using that by (simp add: word_le_nat_alt unat_word_ariths unat_of_nat)
    then show ?thesis using that l by (simp add: w'_def unat_of_nat)
  qed
  moreover have "chip [I2c_write HYM_ADDR (2 # bs)] w = (I2c_ok [], w')" unfolding w'_def by (cases bs) (simp_all add: chip_def cong: if_cong)
  moreover have "chip [I2c_write HYM_ADDR [2], I2c_read HYM_ADDR 7] w' = (I2c_ok (map (\<lambda>i. w' (2 + of_nat i)) [0..<7]), w')" by (simp add: chip_def)
  ultimately show "\<exists>r w' bs' w''. chip [I2c_write HYM_ADDR (2 # bs)] w = (I2c_ok r, w') \<and> chip [I2c_write HYM_ADDR [2], I2c_read HYM_ADDR 7] w' = (I2c_ok bs', w'')
       \<and> length bs' = 7 \<and> (\<forall>i < 7. bs' ! i AND rtc_masks ! i = bs ! i AND rtc_masks ! i)"
    by (intro exI conjI) (assumption, assumption, simp_all)
qed

definition demo_cal :: calendar where
  "demo_cal = \<lparr>sec = 0, minute = 16, hour = 17, day = 2, month = 8, year = 18, weekday = 4\<rparr>"

theorem rtc_set_get_witness:
  "\<exists>w' w''. HYM8536_SetDateTime chip \<lparr>watchdog_enabled = 0, HYM8563_init_ok = True\<rparr> demo_cal (\<lambda>_. 0) = Some (0, w')
    \<and> HYM8536_GetDateTime chip \<lparr>watchdog_enabled = 0, HYM8563_init_ok = True\<rparr> (demo_cal\<lparr>year := 0\<rparr>) w' = Some (0, demo_cal, w'')"
  by (rule rtc_set_get [OF _ chip_keeps_time]) (simp_all add: valid_calendar_def demo_cal_def)

theorem rtc_errors_hidden_witness:
  "\<exists>w' w''. HYM8536_SetDateTime (\<lambda>msgs w. (I2c_error EIO, w)) \<lparr>watchdog_enabled = 0, HYM8563_init_ok = True\<rparr> demo_cal () = Some (0, w')
    \<and> HYM8536_GetDateTime (\<lambda>msgs w. (I2c_error EIO, w)) \<lparr>watchdog_enabled = 0, HYM8563_init_ok = True\<rparr> demo_cal w'
      = Some (0, \<lparr>sec = 0, minute = 0, hour = 0, day = 0, month = 0, year = 0, weekday = 0\<rparr>, w'')"
  by (rule rtc_errors_hidden) simp_all

end
