(* ===== verification/GpioI2c.thy ===== *)
theory GpioI2c
  imports Prelude
begin

text \<open>
  \<open>src/src/hw/gpio_i2c.c\<close>: an I2C master that drives the two lines of the bus through GPIO pins. The
  pins are hardware: what the program does to them is a trace, and \<open>gpio_status\<close> is the argument
  \<open>gpio\<close>, the level of a pin after a trace. The short delays between the steps have no effect here.
\<close>

section \<open>Pins\<close>

datatype pin_ev = Drive nat bool | Release nat | Wait_ms

type_synonym trace = "pin_ev list"
type_synonym gpio_in = "trace \<Rightarrow> nat \<Rightarrow> bool"

definition SDA :: nat where "SDA = 6"
definition SCL :: nat where "SCL = 7"

text \<open>
  \<open>SET_VALUE\<close> makes two calls, \<open>gpio_tlmm_config\<close> (an output) and \<open>gpio_set_val\<close> (its level). Nothing is
  read between the two, so they are one event of the trace: the pin is driven to a level.
\<close>

definition SET_HIGH :: "nat \<Rightarrow> trace \<Rightarrow> trace" where "SET_HIGH gpio tr = tr @ [Drive gpio True]"
definition SET_LOW :: "nat \<Rightarrow> trace \<Rightarrow> trace" where "SET_LOW gpio tr = tr @ [Drive gpio False]"
definition GPIO_DIRECTION_INPUT :: "nat \<Rightarrow> trace \<Rightarrow> trace" where "GPIO_DIRECTION_INPUT gpio tr = tr @ [Release gpio]"

section \<open>The master\<close>

definition I2C_Start :: "trace \<Rightarrow> trace" where
  "I2C_Start tr = SET_LOW SCL (SET_LOW SDA (SET_HIGH SDA (SET_HIGH SCL tr)))"

definition I2C_SendACK :: "byte \<Rightarrow> trace \<Rightarrow> trace" where
  "I2C_SendACK ack tr = (let tr = (if ack = 1 then SET_HIGH SDA tr else SET_LOW SDA tr) in SET_LOW SCL (SET_HIGH SCL tr))"

definition I2C_Stop :: "trace \<Rightarrow> trace" where
  "I2C_Stop tr = SET_HIGH SDA (SET_HIGH SCL (SET_LOW SDA tr))"

text \<open>Waiting while the slave holds the clock; the time left is what later waits of the same byte have.\<close>

function wait_clock :: "gpio_in \<Rightarrow> trace \<Rightarrow> int \<Rightarrow> trace \<times> int" where
  "wait_clock gpio tr timeout =
     (if \<not> gpio tr SCL \<and> 0 \<le> timeout then wait_clock gpio (tr @ [Wait_ms]) (timeout - 1000) else (tr, timeout))"
  by pat_completeness auto
termination by (relation "measure (\<lambda>(_, _, timeout). nat (timeout + 1000))") auto

declare wait_clock.simps [simp del]

primrec send_bits :: "nat \<Rightarrow> gpio_in \<Rightarrow> byte \<Rightarrow> trace \<Rightarrow> int \<Rightarrow> trace \<times> int" where
  "send_bits 0 gpio dat tr timeout = (tr, timeout)"
| "send_bits (Suc n) gpio dat tr timeout =
     (let tr = (if dat AND 0x80 \<noteq> 0 then SET_HIGH SDA tr else SET_LOW SDA tr);
          (tr, timeout) = wait_clock gpio (GPIO_DIRECTION_INPUT SCL tr) timeout in
      send_bits n gpio (push_bit 1 dat) (SET_LOW SCL (SET_HIGH SCL tr)) timeout)"

definition I2C_SendByteWaitClockStretch :: "gpio_in \<Rightarrow> byte \<Rightarrow> trace \<Rightarrow> int \<times> trace" where
  "I2C_SendByteWaitClockStretch gpio dat tr =
     (let (tr, timeout) = send_bits 8 gpio dat tr (100 * 1000);
          (tr, timeout) = wait_clock gpio (GPIO_DIRECTION_INPUT SCL (GPIO_DIRECTION_INPUT SDA tr)) timeout;
          tr = SET_HIGH SCL tr; CY = gpio tr SDA; tr = SET_LOW SCL tr in
      (if \<not> CY then 0 else - 1, tr))"

primrec recv_bits :: "nat \<Rightarrow> gpio_in \<Rightarrow> byte \<Rightarrow> trace \<Rightarrow> int \<Rightarrow> byte \<times> trace" where
  "recv_bits 0 gpio dat tr timeout = (dat, tr)"
| "recv_bits (Suc n) gpio dat tr timeout =
     (let dat = push_bit 1 dat; (tr, timeout) = wait_clock gpio (GPIO_DIRECTION_INPUT SCL tr) timeout;
          tr = SET_HIGH SCL tr; dat = (if gpio tr SDA then dat OR 1 else dat OR 0) in
      recv_bits n gpio dat (SET_LOW SCL tr) timeout)"

definition I2C_RecvByte_ClockStretch :: "gpio_in \<Rightarrow> trace \<Rightarrow> byte \<times> trace" where
  "I2C_RecvByte_ClockStretch gpio tr = recv_bits 8 gpio 0 (GPIO_DIRECTION_INPUT SDA tr) (100 * 1000)"

definition writeI2C_ClockStretch :: "gpio_in \<Rightarrow> byte \<Rightarrow> byte \<Rightarrow> byte \<Rightarrow> trace \<Rightarrow> int \<times> trace" where
  "writeI2C_ClockStretch gpio dev_address REG_Address REG_data tr =
     (let (ret, tr) = I2C_SendByteWaitClockStretch gpio dev_address (I2C_Start tr) in
      if ret < 0 then (ret, I2C_Stop tr)
      else let (ret, tr) = I2C_SendByteWaitClockStretch gpio REG_Address tr in
        if ret < 0 then (ret, I2C_Stop tr)
        else let (ret, tr) = I2C_SendByteWaitClockStretch gpio REG_data tr in (ret, I2C_Stop tr))"

text \<open>The loop that receives \<open>left\<close> more bytes into \<open>buf\<close> from \<open>i\<close> on.\<close>

primrec read_loop :: "nat \<Rightarrow> gpio_in \<Rightarrow> nat \<Rightarrow> byte list \<Rightarrow> trace \<Rightarrow> (byte list \<times> trace) option" where
  "read_loop 0 gpio i buf tr = Some (buf, tr)"
| "read_loop (Suc left) gpio i buf tr = do {
     let (b, tr) = I2C_RecvByte_ClockStretch gpio tr;
     buf \<leftarrow> wr buf i b;
     read_loop left gpio (i + 1) buf (if left \<noteq> 0 then I2C_SendACK 0 tr else I2C_SendACK 1 tr) }"

definition readI2C_ClockStretch :: "gpio_in \<Rightarrow> byte \<Rightarrow> byte \<Rightarrow> byte list \<Rightarrow> int \<Rightarrow> trace \<Rightarrow> (int \<times> byte list \<times> trace) option" where
  "readI2C_ClockStretch gpio dev_address REG_Address buf n tr =
     (let (ret, tr) = I2C_SendByteWaitClockStretch gpio dev_address (I2C_Start tr) in
      if ret < 0 then Some (ret, buf, I2C_Stop tr)
      else let (ret, tr) = I2C_SendByteWaitClockStretch gpio REG_Address tr in
        if ret < 0 then Some (ret, buf, I2C_Stop tr)
        else let (ret, tr) = I2C_SendByteWaitClockStretch gpio (dev_address OR 0x01) (I2C_Start tr) in
          if ret < 0 then Some (ret, buf, I2C_Stop tr)
          else do { (buf, tr) \<leftarrow> read_loop (nat n) gpio 0 buf tr; Some (ret, buf, I2C_Stop tr) })"

text \<open>\<open>restore_i2c\<close> clocks a slave that holds the data line; \<open>test_i2c\<close> calls it where the line is low.\<close>

definition restore_i2c :: "gpio_in \<Rightarrow> trace \<Rightarrow> int \<times> trace" where
  "restore_i2c gpio tr =
     (let tr = ((\<lambda>tr. SET_HIGH SDA (SET_HIGH SCL (SET_LOW SDA (SET_LOW SCL tr)))) ^^ 9) tr; tr = GPIO_DIRECTION_INPUT SDA tr in
      (if \<not> gpio tr SDA then - 1 else 0, tr))"

definition test_i2c :: "gpio_in \<Rightarrow> trace \<Rightarrow> trace" where
  "test_i2c gpio tr = (let tr = GPIO_DIRECTION_INPUT SDA tr in if \<not> gpio tr SDA then snd (restore_i2c gpio tr) else tr)"

section \<open>The bus\<close>

text \<open>
  What is on the bus: starts, stops and bits. A line that is released is high, as far as the master
  goes. The data line may only change while the clock is low, or the change is a start or a stop; a bit
  is what the data line holds when the clock rises.
\<close>

datatype symbol = Start | Stop | Bit bool

record bus =
  scl :: bool
  sda :: bool
  released :: bool
  syms :: "symbol list"

definition set_scl :: "bool \<Rightarrow> bus \<Rightarrow> bus" where
  "set_scl v m = m\<lparr>scl := v, syms := (if \<not> scl m \<and> v then syms m @ [Bit (sda m)] else syms m)\<rparr>"

definition set_sda :: "bool \<Rightarrow> bus \<Rightarrow> bus" where
  "set_sda v m = m\<lparr>sda := v, syms := (if scl m \<and> sda m \<and> \<not> v then syms m @ [Start] else if scl m \<and> \<not> sda m \<and> v then syms m @ [Stop] else syms m)\<rparr>"

fun bus_step :: "pin_ev \<Rightarrow> bus \<Rightarrow> bus" where
  "bus_step (Drive p v) m = (if p = SCL then set_scl v m else if p = SDA then (set_sda v m)\<lparr>released := False\<rparr> else m)"
| "bus_step (Release p) m = (if p = SCL then set_scl True m else if p = SDA then (set_sda True m)\<lparr>released := True\<rparr> else m)"
| "bus_step Wait_ms m = m"

definition bus_of :: "trace \<Rightarrow> bus" where
  "bus_of tr = fold bus_step tr \<lparr>scl = True, sda = True, released = True, syms = []\<rparr>"

text \<open>The data line as the slave sees and drives it: its level, while the master has released it, depends on what was on the bus.\<close>

definition obeys :: "gpio_in \<Rightarrow> (symbol list \<Rightarrow> bool) \<Rightarrow> bool" where
  "obeys gpio slave \<longleftrightarrow> (\<forall>tr. released (bus_of tr) \<longrightarrow> gpio tr SDA = slave (syms (bus_of tr)))"

section \<open>Transactions on the bus\<close>

text \<open>A byte on the bus, the highest bit first, and the released bit in which the slave acknowledges.\<close>

definition bits_of :: "byte \<Rightarrow> bool list" where "bits_of b = map (bit b) (rev [0..<8])"

definition byte_syms :: "byte \<Rightarrow> symbol list" where "byte_syms b = map Bit (bits_of b) @ [Bit True]"

fun send_spec :: "(symbol list \<Rightarrow> bool) \<Rightarrow> byte list \<Rightarrow> symbol list \<Rightarrow> int \<times> symbol list" where
  "send_spec slave [] ss = (0, ss)"
| "send_spec slave (b # bs) ss =
     (let ss = ss @ byte_syms b in if slave ss then (- 1, ss) else send_spec slave bs ss)"

definition bits_in :: "(symbol list \<Rightarrow> bool) \<Rightarrow> symbol list \<Rightarrow> bool list" where
  "bits_in slave ss = map (\<lambda>i. slave (ss @ replicate (i + 1) (Bit True))) [0..<8]"

fun recv_spec :: "nat \<Rightarrow> (symbol list \<Rightarrow> bool) \<Rightarrow> symbol list \<Rightarrow> bool list list \<times> symbol list" where
  "recv_spec 0 slave ss = ([], ss)"
| "recv_spec (Suc n) slave ss =
     (let (bs, ss') = recv_spec n slave (ss @ replicate 8 (Bit True) @ [Bit (n = 0)]) in (bits_in slave ss # bs, ss'))"


section \<open>Lemmas\<close>

lemma bus_of_append: "bus_of (tr @ xs) = fold bus_step xs (bus_of tr)"
  by (simp add: bus_of_def)

lemma pins_differ [simp]: "SDA \<noteq> SCL" by (simp add: SDA_def SCL_def)

lemma bus_of_moves [simp]:
  "bus_of (SET_HIGH SCL tr) = set_scl True (bus_of tr)" "bus_of (SET_LOW SCL tr) = set_scl False (bus_of tr)"
  "bus_of (GPIO_DIRECTION_INPUT SCL tr) = set_scl True (bus_of tr)"
  "bus_of (SET_HIGH SDA tr) = (set_sda True (bus_of tr))\<lparr>released := False\<rparr>" "bus_of (SET_LOW SDA tr) = (set_sda False (bus_of tr))\<lparr>released := False\<rparr>"
  "bus_of (GPIO_DIRECTION_INPUT SDA tr) = (set_sda True (bus_of tr))\<lparr>released := True\<rparr>"
  using pins_differ by (simp_all add: SET_HIGH_def SET_LOW_def GPIO_DIRECTION_INPUT_def bus_of_append)

lemma line_moves [simp]:
  "scl (set_scl v m) = v" "sda (set_scl v m) = sda m" "released (set_scl v m) = released m"
  "syms (set_scl v m) = (if \<not> scl m \<and> v then syms m @ [Bit (sda m)] else syms m)"
  "scl (set_sda v m) = scl m" "sda (set_sda v m) = v" "released (set_sda v m) = released m"
  "syms (set_sda v m) = (if scl m \<and> sda m \<and> \<not> v then syms m @ [Start] else if scl m \<and> \<not> sda m \<and> v then syms m @ [Stop] else syms m)"
  by (simp_all add: set_scl_def set_sda_def)

lemma bus_of_wait [simp]: "bus_of (fst (wait_clock gpio tr timeout)) = bus_of tr"
proof (induction gpio tr timeout rule: wait_clock.induct)
  case (1 gpio tr timeout)
  then show ?case by (subst wait_clock.simps) (simp add: bus_of_append)
qed

lemma top_bit: "dat AND 0x80 \<noteq> (0 :: byte) \<longleftrightarrow> bit dat 7"
proof -
  have "dat AND 0x80 = (if bit dat 7 then 0x80 else 0)" by (rule bit_word_eqI; drule byte_bits; auto simp: bit_simps)
  then show ?thesis by simp
qed

lemma shift_in:
  "bit (push_bit 1 d :: byte) (Suc k) \<longleftrightarrow> k < 7 \<and> bit d k"
  "bit (if v then push_bit 1 d OR 1 else push_bit 1 d OR 0 :: byte) 0 \<longleftrightarrow> v"
  "k < 7 \<Longrightarrow> bit (if v then push_bit 1 d OR 1 else push_bit 1 d OR 0 :: byte) (Suc k) = bit d k"
  by (cases v; simp only: if_True if_False bit_push_bit_iff bit_or_iff bit_1_iff; auto simp: bit_0 dest: bit_imp_le_length)+

lemma send_bits_bus:
  assumes "n \<le> 8" and "\<not> scl (bus_of tr)"
  shows "\<not> scl (bus_of (fst (send_bits n gpio dat tr timeout)))
    \<and> syms (bus_of (fst (send_bits n gpio dat tr timeout))) = syms (bus_of tr) @ map Bit (map (\<lambda>i. bit dat (7 - i)) [0..<n])"
  using assms
proof (induction n arbitrary: dat tr timeout)
  case (Suc n)
  let ?tr1 = "if dat AND 0x80 \<noteq> 0 then SET_HIGH SDA tr else SET_LOW SDA tr"
  obtain tr2 t2 where w: "wait_clock gpio (GPIO_DIRECTION_INPUT SCL ?tr1) timeout = (tr2, t2)" by fastforce
  have b2: "bus_of tr2 = bus_of (GPIO_DIRECTION_INPUT SCL ?tr1)" using bus_of_wait [of gpio "GPIO_DIRECTION_INPUT SCL ?tr1" timeout] unfolding w by simp
  have s2: "syms (bus_of (SET_LOW SCL (SET_HIGH SCL tr2))) = syms (bus_of tr) @ [Bit (bit dat 7)]" "\<not> scl (bus_of (SET_LOW SCL (SET_HIGH SCL tr2)))"
    using Suc.prems(2) b2 top_bit [of dat] by (cases "bit dat 7"; simp)+
  have shift: "map (\<lambda>i. bit dat (7 - i)) [0..<Suc n] = bit dat 7 # map (\<lambda>i. bit (push_bit 1 dat) (7 - i)) [0..<n]"
  proof -
    have u: "[0..<Suc n] = 0 # map Suc [0..<n]" by (simp add: map_Suc_upt upt_conv_Cons del: upt_Suc)
    have "map (\<lambda>i. bit dat (7 - Suc i)) [0..<n] = map (\<lambda>i. bit (push_bit 1 dat) (7 - i)) [0..<n]"
    proof (rule map_cong [OF refl])
      fix i assume "i \<in> set [0..<n]"
      then have "7 - i = Suc (7 - Suc i)" "7 - Suc i < 7" using Suc.prems(1) by auto
      then show "bit dat (7 - Suc i) = bit (push_bit 1 dat) (7 - i)" using shift_in(1) [of dat "7 - Suc i"] by simp
    qed
    then show ?thesis unfolding u by (simp only: list.map map_map o_def diff_zero)
  qed
  have "send_bits (Suc n) gpio dat tr timeout = send_bits n gpio (push_bit 1 dat) (SET_LOW SCL (SET_HIGH SCL tr2)) t2"
    using w by (simp add: Let_def)
  then show ?case using Suc.IH [OF _ s2(2), of "push_bit 1 dat" t2] Suc.prems(1) s2(1) unfolding shift by simp
qed simp

lemma bits_of_eq: "bits_of b = map (\<lambda>i. bit b (7 - i)) [0..<8]"
proof -
  have "rev [0..<8] = map (\<lambda>i. 7 - i) [0..<8 :: nat]" by code_simp
  then show ?thesis by (simp only: bits_of_def map_map o_def)
qed

lemma send_byte_bus:
  assumes "obeys gpio slave" and "\<not> scl (bus_of tr)"
  obtains tr' where "I2C_SendByteWaitClockStretch gpio dat tr = (if slave (syms (bus_of tr) @ byte_syms dat) then - 1 else 0, tr')"
    and "bus_of tr' = \<lparr>scl = False, sda = True, released = True, syms = syms (bus_of tr) @ byte_syms dat\<rparr>"
proof -
  obtain tr1 t1 where s: "send_bits 8 gpio dat tr (100 * 1000) = (tr1, t1)" by fastforce
  have b1: "\<not> scl (bus_of tr1)" "syms (bus_of tr1) = syms (bus_of tr) @ map Bit (bits_of dat)"
    using send_bits_bus [OF _ assms(2), of 8 gpio dat "100 * 1000"] s unfolding bits_of_eq by simp_all
  obtain tr2 t2 where w: "wait_clock gpio (GPIO_DIRECTION_INPUT SCL (GPIO_DIRECTION_INPUT SDA tr1)) t1 = (tr2, t2)" by fastforce
  have b2: "bus_of tr2 = bus_of (GPIO_DIRECTION_INPUT SCL (GPIO_DIRECTION_INPUT SDA tr1))"
    using bus_of_wait [of gpio "GPIO_DIRECTION_INPUT SCL (GPIO_DIRECTION_INPUT SDA tr1)" t1] unfolding w by simp
  let ?tr3 = "SET_HIGH SCL tr2"
  have b3: "released (bus_of ?tr3)" "syms (bus_of ?tr3) = syms (bus_of tr) @ byte_syms dat"
    using b1 b2 by (simp_all add: byte_syms_def)
  have r: "gpio ?tr3 SDA = slave (syms (bus_of tr) @ byte_syms dat)" using assms(1) b3 unfolding obeys_def by metis
  have "bus_of (SET_LOW SCL ?tr3) = \<lparr>scl = False, sda = True, released = True, syms = syms (bus_of tr) @ byte_syms dat\<rparr>"
    using b1 b2 by (intro bus.equality) (simp_all add: byte_syms_def)
  moreover have "I2C_SendByteWaitClockStretch gpio dat tr = (if slave (syms (bus_of tr) @ byte_syms dat) then - 1 else 0, SET_LOW SCL ?tr3)"
    using s w r by (simp add: I2C_SendByteWaitClockStretch_def Let_def)
  ultimately show thesis by (rule that [rotated])
qed

lemma recv_bits_bus:
  assumes "obeys gpio slave" and "\<not> scl (bus_of tr)" and "sda (bus_of tr)" and "released (bus_of tr)" and "n \<le> 8"
  shows "\<exists>b tr'. recv_bits n gpio dat tr timeout = (b, tr')
    \<and> bus_of tr' = \<lparr>scl = False, sda = True, released = True, syms = syms (bus_of tr) @ replicate n (Bit True)\<rparr>
    \<and> (\<forall>j < 8. bit b j = (if j < n then slave (syms (bus_of tr) @ replicate (n - j) (Bit True)) else bit dat (j - n)))"
  using assms(2-5)
proof (induction n arbitrary: dat tr timeout)
  case 0
  then show ?case by (cases "bus_of tr") simp
next
  case (Suc n)
  obtain tr2 t2 where w: "wait_clock gpio (GPIO_DIRECTION_INPUT SCL tr) timeout = (tr2, t2)" by fastforce
  have b2: "bus_of tr2 = bus_of (GPIO_DIRECTION_INPUT SCL tr)" using bus_of_wait [of gpio "GPIO_DIRECTION_INPUT SCL tr" timeout] unfolding w by simp
  let ?tr3 = "SET_HIGH SCL tr2" let ?ss = "syms (bus_of tr)"
  have b3: "released (bus_of ?tr3)" "syms (bus_of ?tr3) = ?ss @ [Bit True]" using b2 Suc.prems by simp_all
  have r: "gpio ?tr3 SDA = slave (?ss @ [Bit True])" using assms(1) b3 unfolding obeys_def by metis
  let ?d = "if slave (?ss @ [Bit True]) then push_bit 1 dat OR 1 else push_bit 1 dat OR 0"
  have b4: "\<not> scl (bus_of (SET_LOW SCL ?tr3))" "sda (bus_of (SET_LOW SCL ?tr3))" "released (bus_of (SET_LOW SCL ?tr3))" "syms (bus_of (SET_LOW SCL ?tr3)) = ?ss @ [Bit True]"
    using b2 Suc.prems by simp_all
  from Suc.IH [OF b4(1-3), of ?d t2] Suc.prems(4) obtain b tr' where
    i: "recv_bits n gpio ?d (SET_LOW SCL ?tr3) t2 = (b, tr')"
    "bus_of tr' = \<lparr>scl = False, sda = True, released = True, syms = (?ss @ [Bit True]) @ replicate n (Bit True)\<rparr>"
    "\<forall>j < 8. bit b j = (if j < n then slave ((?ss @ [Bit True]) @ replicate (n - j) (Bit True)) else bit ?d (j - n))"
    unfolding b4(4) by auto
  have "bit b j = (if j < Suc n then slave (?ss @ replicate (Suc n - j) (Bit True)) else bit dat (j - Suc n))" if "j < 8" for j
  proof -
    consider "j < n" | "j = n" | "n < j" by linarith
    then show ?thesis
    proof cases
      case 1
      then show ?thesis using i(3) that by (simp add: Suc_diff_le)
    next
      case 2
      then have "bit b j = bit ?d 0" using i(3) that by simp
      then show ?thesis using 2 unfolding shift_in(2) by simp
    next
      case 3
      then have "j - n = Suc (j - Suc n)" by simp
      then have "bit b j = bit ?d (Suc (j - Suc n))" using i(3) that 3 by simp
      then show ?thesis using 3 that shift_in(3) [of "j - Suc n"] by simp
    qed
  qed
  moreover have "recv_bits (Suc n) gpio dat tr timeout = (b, tr')" by (simp only: recv_bits.simps Let_def w prod.case r i(1))
  ultimately show ?case using i(2) by simp
qed

lemma recv_byte_bus:
  assumes "obeys gpio slave" and "\<not> scl (bus_of tr)"
  obtains b tr' where "I2C_RecvByte_ClockStretch gpio tr = (b, tr')" and "bits_of b = bits_in slave (syms (bus_of tr))"
    and "bus_of tr' = \<lparr>scl = False, sda = True, released = True, syms = syms (bus_of tr) @ replicate 8 (Bit True)\<rparr>"
proof -
  let ?tr = "GPIO_DIRECTION_INPUT SDA tr"
  have s: "syms (bus_of ?tr) = syms (bus_of tr)" using assms(2) by simp
  obtain b tr' where r: "recv_bits 8 gpio 0 ?tr (100 * 1000) = (b, tr')"
    "bus_of tr' = \<lparr>scl = False, sda = True, released = True, syms = syms (bus_of ?tr) @ replicate 8 (Bit True)\<rparr>"
    "\<forall>j < 8. bit b j = (if j < 8 then slave (syms (bus_of ?tr) @ replicate (8 - j) (Bit True)) else bit 0 (j - 8))"
    using recv_bits_bus [OF assms(1), of ?tr 8 0 "100 * 1000"] assms(2) by auto
  have "bits_of b = bits_in slave (syms (bus_of tr))"
    unfolding bits_of_eq bits_in_def
  proof (rule map_cong [OF refl])
    fix i assume "i \<in> set [0..<8 :: nat]"
    then have "i < 8" "7 - i < 8" "8 - (7 - i) = i + 1" by auto
    then show "bit b (7 - i) = slave (syms (bus_of tr) @ replicate (i + 1) (Bit True))" using r(3) s by simp
  qed
  then show thesis using that r s by (simp add: I2C_RecvByte_ClockStretch_def)
qed


lemma start_bus:
  assumes "scl (bus_of tr) \<and> sda (bus_of tr) \<or> \<not> scl (bus_of tr) \<and> sda (bus_of tr)"
  shows "\<not> scl (bus_of (I2C_Start tr))" "syms (bus_of (I2C_Start tr)) = syms (bus_of tr) @ (if scl (bus_of tr) then [] else [Bit True]) @ [Start]"
  using assms by (auto simp: I2C_Start_def)

lemma stop_bus:
  assumes "\<not> scl (bus_of tr)"
  shows "syms (bus_of (I2C_Stop tr)) = syms (bus_of tr) @ [Bit False, Stop]" "scl (bus_of (I2C_Stop tr))" "sda (bus_of (I2C_Stop tr))"
  using assms by (simp_all add: I2C_Stop_def)

lemma read_loop_bus:
  assumes "obeys gpio slave" and "\<not> scl (bus_of tr)" and "i + n \<le> length buf"
  shows "\<exists>ds tr'. read_loop n gpio i buf tr = Some (blit buf i ds, tr') \<and> length ds = n
    \<and> recv_spec n slave (syms (bus_of tr)) = (map bits_of ds, syms (bus_of tr')) \<and> \<not> scl (bus_of tr')"
  using assms(2,3)
proof (induction n arbitrary: i buf tr)
  case (Suc n)
  obtain b tr1 where r: "I2C_RecvByte_ClockStretch gpio tr = (b, tr1)" "bits_of b = bits_in slave (syms (bus_of tr))"
    "bus_of tr1 = \<lparr>scl = False, sda = True, released = True, syms = syms (bus_of tr) @ replicate 8 (Bit True)\<rparr>"
    using recv_byte_bus [OF assms(1) Suc.prems(1)] .
  let ?tr2 = "if n \<noteq> 0 then I2C_SendACK 0 tr1 else I2C_SendACK 1 tr1"
  have a: "\<not> scl (bus_of ?tr2)" "syms (bus_of ?tr2) = syms (bus_of tr) @ replicate 8 (Bit True) @ [Bit (n = 0)]"
    by (auto simp: I2C_SendACK_def r(3))
  have l: "i + 1 + n \<le> length (buf[i := b])" using Suc.prems(2) by simp
  from Suc.IH [OF a(1) l] obtain ds tr' where i: "read_loop n gpio (i + 1) (buf[i := b]) ?tr2 = Some (blit (buf[i := b]) (i + 1) ds, tr')" "length ds = n"
    "recv_spec n slave (syms (bus_of ?tr2)) = (map bits_of ds, syms (bus_of tr'))" "\<not> scl (bus_of tr')" by blast
  have "buf[i := b] = blit buf i [b]" using Suc.prems(2) by (simp add: blit_def upd_conv_take_nth_drop)
  then have "blit (buf[i := b]) (i + 1) ds = blit buf i (b # ds)" using blit_append [of i "[b]" ds buf] i(2) Suc.prems(2) by simp
  moreover have "wr buf i b = Some (buf[i := b])" using Suc.prems(2) by (simp add: wr_def)
  ultimately have "read_loop (Suc n) gpio i buf tr = Some (blit buf i (b # ds), tr')" using r(1) i(1) by (simp del: if_not_P)
  moreover have "recv_spec (Suc n) slave (syms (bus_of tr)) = (map bits_of (b # ds), syms (bus_of tr'))"
    using i(3) unfolding a(2) by (simp add: r(2))
  ultimately show ?case using i(2,4) by (intro exI [of _ "b # ds"] exI [of _ tr']) simp
qed simp

section \<open>Properties\<close>

text \<open>
  C27. Writing a register. Whatever the slave does with the clock, the bus carries a start, the
  device's address, the register and the value with their acknowledge bits up to the first byte that the
  slave does not acknowledge, and a stop, and no other start or stop; the result is 0 where all three are
  acknowledged and -1 otherwise.
\<close>

theorem writeI2C_on_bus:
  assumes "obeys gpio slave" and "scl (bus_of tr)" and "sda (bus_of tr)"
  shows "case writeI2C_ClockStretch gpio dev reg dat tr of (ret, tr') \<Rightarrow>
      (case send_spec slave [dev, reg, dat] (syms (bus_of tr) @ [Start]) of (r, ss) \<Rightarrow> ret = r \<and> syms (bus_of tr') = ss @ [Bit False, Stop])
      \<and> scl (bus_of tr') \<and> sda (bus_of tr')"
proof -
  let ?s0 = "syms (bus_of tr) @ [Start]"
  have st: "\<not> scl (bus_of (I2C_Start tr))" "syms (bus_of (I2C_Start tr)) = ?s0" using start_bus [of tr] assms(2,3) by simp_all
  obtain t1 where t1: "I2C_SendByteWaitClockStretch gpio dev (I2C_Start tr) = (if slave (?s0 @ byte_syms dev) then - 1 else 0, t1)"
    "bus_of t1 = \<lparr>scl = False, sda = True, released = True, syms = ?s0 @ byte_syms dev\<rparr>"
    using send_byte_bus [OF assms(1) st(1), of dev] unfolding st(2) .
  have n1: "\<not> scl (bus_of t1)" by (simp add: t1(2))
  obtain t2 where t2: "I2C_SendByteWaitClockStretch gpio reg t1 = (if slave ((?s0 @ byte_syms dev) @ byte_syms reg) then - 1 else 0, t2)"
    "bus_of t2 = \<lparr>scl = False, sda = True, released = True, syms = (?s0 @ byte_syms dev) @ byte_syms reg\<rparr>"
    using send_byte_bus [OF assms(1) n1, of reg] unfolding t1(2) by auto
  have n2: "\<not> scl (bus_of t2)" by (simp add: t2(2))
  obtain t3 where t3: "I2C_SendByteWaitClockStretch gpio dat t2 = (if slave (((?s0 @ byte_syms dev) @ byte_syms reg) @ byte_syms dat) then - 1 else 0, t3)"
    "bus_of t3 = \<lparr>scl = False, sda = True, released = True, syms = ((?s0 @ byte_syms dev) @ byte_syms reg) @ byte_syms dat\<rparr>"
    using send_byte_bus [OF assms(1) n2, of dat] unfolding t2(2) by auto
  have n3: "\<not> scl (bus_of t3)" by (simp add: t3(2))
  show ?thesis
    using stop_bus [OF n1] stop_bus [OF n2] stop_bus [OF n3] t1 t2 t3 by (simp add: writeI2C_ClockStretch_def Let_def)
qed

definition quiet_gpio :: gpio_in where "quiet_gpio tr p \<longleftrightarrow> p = SCL"

lemma quiet_gpio_obeys: "obeys quiet_gpio (\<lambda>_. False)"
  by (simp add: obeys_def quiet_gpio_def)

lemma bus_of_Nil: "bus_of [] = \<lparr>scl = True, sda = True, released = True, syms = []\<rparr>"
  by (simp add: bus_of_def)

theorem writeI2C_on_bus_witness:
  "case writeI2C_ClockStretch quiet_gpio 0xA2 0x0D 0x80 [] of (ret, tr') \<Rightarrow>
     ret = 0 \<and> syms (bus_of tr') = [Start] @ byte_syms 0xA2 @ byte_syms 0x0D @ byte_syms 0x80 @ [Bit False, Stop]"
  using writeI2C_on_bus [OF quiet_gpio_obeys, of "[]" "0xA2" "0x0D" "0x80"] by (auto simp: bus_of_Nil Let_def split: prod.splits)

text \<open>
  C26. Reading. After the device and the register, a repeated start and the device with its read bit,
  the bytes that the slave puts on the bus are received, each but the last acknowledged, and they are what
  ends up in the buffer.
\<close>

theorem readI2C_on_bus:
  assumes "obeys gpio slave" and "scl (bus_of tr)" and "sda (bus_of tr)" and "n \<le> length buf"
    and "send_spec slave [dev, reg] (syms (bus_of tr) @ [Start]) = (0, s1)" and "send_spec slave [dev OR 1] (s1 @ [Bit True, Start]) = (0, s2)"
    and "recv_spec n slave s2 = (bss, s3)"
  shows "\<exists>ds tr'. readI2C_ClockStretch gpio dev reg buf (int n) tr = Some (0, ds @ drop n buf, tr') \<and> map bits_of ds = bss
    \<and> syms (bus_of tr') = s3 @ [Bit False, Stop]"
proof -
  let ?s0 = "syms (bus_of tr) @ [Start]"
  have st: "\<not> scl (bus_of (I2C_Start tr))" "syms (bus_of (I2C_Start tr)) = ?s0" using start_bus [of tr] assms(2,3) by simp_all
  have a: "\<not> slave (?s0 @ byte_syms dev)" "\<not> slave ((?s0 @ byte_syms dev) @ byte_syms reg)" "s1 = (?s0 @ byte_syms dev) @ byte_syms reg"
    "\<not> slave ((s1 @ [Bit True, Start]) @ byte_syms (dev OR 1))" "s2 = (s1 @ [Bit True, Start]) @ byte_syms (dev OR 1)"
    using assms(5,6) by (auto simp: Let_def split: if_splits)
  obtain t1 where t1: "I2C_SendByteWaitClockStretch gpio dev (I2C_Start tr) = (0, t1)" "bus_of t1 = \<lparr>scl = False, sda = True, released = True, syms = ?s0 @ byte_syms dev\<rparr>"
    using send_byte_bus [OF assms(1) st(1), of dev] a(1) unfolding st(2) by auto
  have n1: "\<not> scl (bus_of t1)" by (simp add: t1(2))
  obtain t2 where t2: "I2C_SendByteWaitClockStretch gpio reg t1 = (0, t2)" "bus_of t2 = \<lparr>scl = False, sda = True, released = True, syms = s1\<rparr>"
    using send_byte_bus [OF assms(1) n1, of reg] a(2,3) unfolding t1(2) by auto
  have n2: "\<not> scl (bus_of (I2C_Start t2))" "syms (bus_of (I2C_Start t2)) = s1 @ [Bit True, Start]" using start_bus [of t2] by (simp_all add: t2(2))
  obtain t3 where t3: "I2C_SendByteWaitClockStretch gpio (dev OR 1) (I2C_Start t2) = (0, t3)" "bus_of t3 = \<lparr>scl = False, sda = True, released = True, syms = s2\<rparr>"
    using send_byte_bus [OF assms(1) n2(1), of "dev OR 1"] a(4,5) unfolding n2(2) by auto
  have n3: "\<not> scl (bus_of t3)" "0 + n \<le> length buf" using assms(4) by (simp_all add: t3(2))
  from read_loop_bus [OF assms(1) n3] obtain ds t4 where t4: "read_loop n gpio 0 buf t3 = Some (blit buf 0 ds, t4)" "length ds = n"
    "recv_spec n slave (syms (bus_of t3)) = (map bits_of ds, syms (bus_of t4))" "\<not> scl (bus_of t4)" by blast
  have "map bits_of ds = bss" "syms (bus_of t4) = s3" using t4(3) assms(7) by (simp_all add: t3(2))
  moreover have "readI2C_ClockStretch gpio dev reg buf (int n) tr = Some (0, ds @ drop n buf, I2C_Stop t4)"
    using t1(1) t2(1) t3(1) t4(1,2) by (simp add: readI2C_ClockStretch_def blit_def)
  ultimately show ?thesis using stop_bus [OF t4(4)] by (intro exI [of _ ds] exI [of _ "I2C_Stop t4"]) simp
qed


theorem readI2C_on_bus_witness:
  "\<exists>ds tr'. readI2C_ClockStretch quiet_gpio 0xA2 2 [9, 9] (int 1) [] = Some (0, ds @ [9], tr') \<and> map bits_of ds = [replicate 8 False]"
proof -
  let ?s1 = "([Start] @ byte_syms 0xA2) @ byte_syms 2"
  let ?s2 = "(?s1 @ [Bit True, Start]) @ byte_syms (0xA2 OR 1)"
  have e: "send_spec (\<lambda>_. False) [0xA2, 2] (syms (bus_of []) @ [Start]) = (0, ?s1)" "send_spec (\<lambda>_. False) [0xA2 OR 1] (?s1 @ [Bit True, Start]) = (0, ?s2)"
    by (simp_all add: bus_of_Nil Let_def del: append_assoc)
  have b: "bits_in (\<lambda>_. False) ss = replicate 8 False" for ss by (simp add: bits_in_def upt_rec eval_nat_numeral)
  have r: "recv_spec 1 (\<lambda>_. False) ?s2 = ([replicate 8 False], ?s2 @ replicate 8 (Bit True) @ [Bit True])"
    unfolding One_nat_def recv_spec.simps by (simp add: b)
  have n: "1 \<le> length [9, 9 :: byte]" by simp
  have i: "scl (bus_of [])" "sda (bus_of [])" by (simp_all add: bus_of_Nil)
  from readI2C_on_bus [OF quiet_gpio_obeys i n e r] show ?thesis by auto
qed

end
