(* ===== verification/Edid.thy ===== *)
theory Edid
  imports LogHash
begin

text \<open>
  \<open>src/src/edid.c\<close> and \<open>edid.h\<close>: the tool that prints the display data of a monitor. A block is a list
  of 128 bytes and the fields are at the offsets of the packed structures; what is printed is a list of
  lines with their values.
\<close>

section \<open>The program\<close>

definition EDID_LENGTH :: nat where "EDID_LENGTH = 128"

definition edid_header :: "byte list" where "edid_header = [0x00, 0xff, 0xff, 0xff, 0xff, 0xff, 0xff, 0x00]"

definition drm_edid_header_is_valid :: "byte list \<Rightarrow> nat option" where
  "drm_edid_header_is_valid ed =
     for_range 0 (length edid_header) (\<lambda>i score. do { a \<leftarrow> rd ed i; b \<leftarrow> rd edid_header i; Some (if a = b then score + 1 else score) }) 0"

definition edid_block_compute_checksum :: "byte list \<Rightarrow> byte option" where
  "edid_block_compute_checksum block = do {
     csum \<leftarrow> for_range 0 (EDID_LENGTH - 1) (\<lambda>i csum. do { b \<leftarrow> rd block i; Some (csum + b) }) 0;
     Some (0x100 - csum) }"

text \<open>\<open>detailed_pixel_timing\<close>: the values printed, as they are joined from their bytes.\<close>

record pixel_timing =
  pixel_clock :: u16
  hactive :: u32
  vactive :: u32
  hblank :: u32
  vblank :: u32
  hsync_offset :: u32
  hsync_pulse :: u32
  vsync_offset :: u32
  vsync_pulse :: u32
  width_mm :: u32
  height_mm :: u32
  misc :: byte

definition hi4 :: "byte \<Rightarrow> byte \<Rightarrow> u32" where "hi4 lo hi = ucast lo OR push_bit 4 (ucast hi AND 0xf0)"
definition lo4 :: "byte \<Rightarrow> byte \<Rightarrow> u32" where "lo4 lo hi = ucast lo OR push_bit 8 (ucast hi AND 0x0f)"

definition hs_offset :: "byte \<Rightarrow> byte \<Rightarrow> u32" where "hs_offset lo hi = ucast lo OR push_bit 2 (ucast hi AND 0xc0)"
definition hs_pulse :: "byte \<Rightarrow> byte \<Rightarrow> u32" where "hs_pulse lo hi = ucast lo OR push_bit 4 (ucast hi AND 0x30)"
definition vs_offset :: "byte \<Rightarrow> byte \<Rightarrow> u32" where "vs_offset lo hi = drop_bit 4 (ucast lo) OR push_bit 2 (ucast hi AND 0x0c)"
definition vs_pulse :: "byte \<Rightarrow> byte \<Rightarrow> u32" where "vs_pulse lo hi = (ucast lo AND 0x0f) OR push_bit 4 (ucast hi AND 0x03)"

definition pixel_data :: "u16 \<Rightarrow> byte list \<Rightarrow> pixel_timing option" where
  "pixel_data clk pt = do {
     hactive_lo \<leftarrow> rd pt 0; hblank_lo \<leftarrow> rd pt 1; hactive_hblank_hi \<leftarrow> rd pt 2;
     vactive_lo \<leftarrow> rd pt 3; vblank_lo \<leftarrow> rd pt 4; vactive_vblank_hi \<leftarrow> rd pt 5;
     hsync_offset_lo \<leftarrow> rd pt 6; hsync_pulse_width_lo \<leftarrow> rd pt 7;
     vsync_lo \<leftarrow> rd pt 8; sync_hi \<leftarrow> rd pt 9;
     width_mm_lo \<leftarrow> rd pt 10; height_mm_lo \<leftarrow> rd pt 11; width_height_mm_hi \<leftarrow> rd pt 12;
     m \<leftarrow> rd pt 15;
     Some \<lparr>pixel_clock = clk, hactive = hi4 hactive_lo hactive_hblank_hi, vactive = hi4 vactive_lo vactive_vblank_hi,
       hblank = lo4 hblank_lo hactive_hblank_hi, vblank = lo4 vblank_lo vactive_vblank_hi,
       hsync_offset = hs_offset hsync_offset_lo sync_hi, hsync_pulse = hs_pulse hsync_pulse_width_lo sync_hi,
       vsync_offset = vs_offset vsync_lo sync_hi, vsync_pulse = vs_pulse vsync_lo sync_hi,
       width_mm = hi4 width_mm_lo width_height_mm_hi, height_mm = lo4 height_mm_lo width_height_mm_hi, misc = m\<rparr> }"

datatype edid_line =
    Header nat byte byte
  | Crc byte byte
  | Pixel nat pixel_timing
  | Non_pixel nat byte
  | Monitor_name "byte list"
  | Monitor_range "byte list"
  | Finish_one

text \<open>One descriptor of 18 bytes.\<close>

definition print_timing :: "nat \<Rightarrow> byte list \<Rightarrow> edid_line list option" where
  "print_timing i dt = do {
     c0 \<leftarrow> rd dt 0; c1 \<leftarrow> rd dt 1;
     if le16_of c0 c1 \<noteq> 0 then do { pt \<leftarrow> pixel_data (le16_of c0 c1) (drop 2 dt); Some [Pixel i pt] }
     else do {
       type \<leftarrow> rd dt 3;
       if type = 0xfc then do { str \<leftarrow> mem_read dt 5 13; Some [Non_pixel i type, Monitor_name (takeWhile (\<lambda>c. c \<noteq> 0) str)] }
       else if type = 0xfd then do { range \<leftarrow> mem_read dt 5 6; Some [Non_pixel i type, Monitor_range range] }
       else Some [Non_pixel i type] } }"

fun print_timings :: "nat list \<Rightarrow> (nat \<Rightarrow> nat) \<Rightarrow> byte list \<Rightarrow> edid_line list option" where
  "print_timings [] at ed = Some []"
| "print_timings (i # is) at ed = do {
     dt \<leftarrow> mem_read ed (at i) 18;
     l \<leftarrow> print_timing i dt;
     ls \<leftarrow> print_timings is at ed;
     Some (l @ ls) }"

text \<open>The number of descriptors of an extension block; the division of C rounds towards zero, and a loop up to a negative number does not run.\<close>

definition ext_timings :: "byte \<Rightarrow> nat" where "ext_timings d = (127 - unat d) div 18"

definition print_block :: "bool \<Rightarrow> byte list \<Rightarrow> edid_line list option" where
  "print_block first ed =
     (if first then do {
        score \<leftarrow> drm_edid_header_is_valid ed;
        version \<leftarrow> rd ed 18; revision \<leftarrow> rd ed 19; checksum \<leftarrow> rd ed 127;
        crc \<leftarrow> edid_block_compute_checksum ed;
        ls \<leftarrow> print_timings [0..<4] (\<lambda>i. 54 + 18 * i) ed;
        Some ([Header score version revision, Crc checksum crc] @ ls @ [Finish_one]) }
      else do {
        d \<leftarrow> rd ed 2;
        ls \<leftarrow> print_timings [0..<ext_timings d] (\<lambda>i. unat d + 18 * i) ed;
        Some (ls @ [Finish_one]) })"

text \<open>The loop around \<open>fread\<close>: whole blocks as long as there are any.\<close>

function print_file :: "bool \<Rightarrow> byte list \<Rightarrow> edid_line list option" where
  "print_file first s =
     (if length s < EDID_LENGTH then Some []
      else do { l \<leftarrow> print_block first (take EDID_LENGTH s); ls \<leftarrow> print_file False (drop EDID_LENGTH s); Some (l @ ls) })"
  by pat_completeness auto
termination by (relation "measure (\<lambda>(_, s). length s)") (auto simp: EDID_LENGTH_def)

declare print_file.simps [simp del]

section \<open>Lemmas\<close>

lemma for_range_sum:
  "length block = n + m \<Longrightarrow> for_range 0 n (\<lambda>i csum. do { b \<leftarrow> rd block i; Some (csum + b) }) (c :: byte) = Some (c + sum_list (take n block))"
proof -
  assume l: "length block = n + m"
  have "for_range 0 n (\<lambda>i csum. do { b \<leftarrow> rd block i; Some (csum + b) }) c = Some (fold (\<lambda>i csum. csum + block ! i) [0..<n] c)"
    by (rule for_range_cong_fold) (use l in \<open>simp add: rd_def\<close>)
  also have "fold (\<lambda>i csum. csum + block ! i) [0..<n] c = c + sum_list (take n block)"
    using l by (induction n arbitrary: m) (simp_all add: take_Suc_conv_app_nth)
  finally show ?thesis .
qed

text \<open>The layout of a descriptor, from its values.\<close>

definition timing_ok :: "pixel_timing \<Rightarrow> bool" where
  "timing_ok t \<longleftrightarrow> pixel_clock t \<noteq> 0 \<and> hactive t < 4096 \<and> vactive t < 4096 \<and> hblank t < 4096 \<and> vblank t < 4096
     \<and> hsync_offset t < 1024 \<and> hsync_pulse t < 1024 \<and> vsync_offset t < 64 \<and> vsync_pulse t < 64 \<and> width_mm t < 4096 \<and> height_mm t < 4096"

definition hi_byte :: "u32 \<Rightarrow> u32 \<Rightarrow> byte" where "hi_byte a b = push_bit 4 (ucast (drop_bit 8 a)) OR (ucast (drop_bit 8 b) AND 15)"

definition vs_byte :: "u32 \<Rightarrow> u32 \<Rightarrow> byte" where "vs_byte c d = push_bit 4 (ucast c) OR (ucast d AND 15)"

definition sync_byte :: "u32 \<Rightarrow> u32 \<Rightarrow> u32 \<Rightarrow> u32 \<Rightarrow> byte" where
  "sync_byte a b c d = push_bit 6 (ucast (drop_bit 8 a)) OR (push_bit 4 (ucast (drop_bit 8 b)) AND 0x30)
     OR (push_bit 2 (ucast (drop_bit 4 c)) AND 0x0c) OR (ucast (drop_bit 4 d) AND 3)"

definition timing_bytes :: "pixel_timing \<Rightarrow> byte \<Rightarrow> byte \<Rightarrow> byte list" where
  "timing_bytes t hborder vborder = le16_bytes (pixel_clock t) @
     [ucast (hactive t), ucast (hblank t), hi_byte (hactive t) (hblank t),
      ucast (vactive t), ucast (vblank t), hi_byte (vactive t) (vblank t),
      ucast (hsync_offset t), ucast (hsync_pulse t),
      vs_byte (vsync_offset t) (vsync_pulse t), sync_byte (hsync_offset t) (hsync_pulse t) (vsync_offset t) (vsync_pulse t),
      ucast (width_mm t), ucast (height_mm t), hi_byte (width_mm t) (height_mm t),
      hborder, vborder, misc t]"

lemma small_word_bits: "(w :: u32) < 2 ^ k \<Longrightarrow> k \<le> n \<Longrightarrow> \<not> bit w n"
proof -
  assume "w < 2 ^ k" "k \<le> n"
  then have "bit (w AND mask k) n = bit w n" by (simp only: less_mask_eq)
  then show ?thesis using \<open>k \<le> n\<close> by (simp add: bit_simps)
qed

lemma word12_eqI:
  fixes a b :: u32
  assumes "bit a 0 = bit b 0" and "bit a 1 = bit b 1" and "bit a 2 = bit b 2" and "bit a 3 = bit b 3" and "bit a 4 = bit b 4" and "bit a 5 = bit b 5" and "bit a 6 = bit b 6" and "bit a 7 = bit b 7" and "bit a 8 = bit b 8" and "bit a 9 = bit b 9" and "bit a 10 = bit b 10" and "bit a 11 = bit b 11"
    and "\<And>n. 12 \<le> n \<Longrightarrow> n < 32 \<Longrightarrow> bit a n = bit b n"
  shows "a = b"
proof (rule bit_word_eqI)
  fix n assume n: "n < LENGTH(32)"
  have "list_all (\<lambda>k. bit a k = bit b k) [0..<12]" using assms(1-12) by (simp add: upt_rec eval_nat_numeral)
  then show "bit a n = bit b n" using assms(13) n by (cases "n < 12") (auto simp: list_all_iff)
qed

lemma const_bits: "12 \<le> n \<Longrightarrow> \<not> bit (3840 :: u32) n" "12 \<le> n \<Longrightarrow> \<not> bit (768 :: u32) n" "12 \<le> n \<Longrightarrow> \<not> bit (48 :: u32) n" "12 \<le> n \<Longrightarrow> \<not> bit (15 :: u32) n"
  by (rule small_word_bits [of _ 12]; simp)+

lemma const_bits_int: "12 \<le> n \<Longrightarrow> \<not> bit (3840 :: int) n" "12 \<le> n \<Longrightarrow> \<not> bit (768 :: int) n" "12 \<le> n \<Longrightarrow> \<not> bit (48 :: int) n"
proof -
  have t: "\<not> bit x n" if "take_bit 12 x = x" "12 \<le> n" for x :: int using that by (metis bit_take_bit_iff not_less)
  show "12 \<le> n \<Longrightarrow> \<not> bit (3840 :: int) n" "12 \<le> n \<Longrightarrow> \<not> bit (768 :: int) n" "12 \<le> n \<Longrightarrow> \<not> bit (48 :: int) n"
    by (rule t; simp)+
qed

lemma bits_below: "(a :: u32) < 2 ^ k \<Longrightarrow> k \<le> n \<Longrightarrow> bit a n = False"
  using small_word_bits by blast

lemmas field_bits = bit_simps const_bits const_bits_int

lemma joins:
  "a < 4096 \<Longrightarrow> hi4 (ucast a) (hi_byte a b) = a" "b < 4096 \<Longrightarrow> lo4 (ucast b) (hi_byte a b) = b"
  "a < 1024 \<Longrightarrow> hs_offset (ucast a) (sync_byte a b c d) = a" "b < 1024 \<Longrightarrow> hs_pulse (ucast b) (sync_byte a b c d) = b"
  "c < 64 \<Longrightarrow> vs_offset (vs_byte c d) (sync_byte a b c d) = c" "d < 64 \<Longrightarrow> vs_pulse (vs_byte c d) (sync_byte a b c d) = d"
  for a b c d :: u32
  subgoal by (rule word12_eqI) (simp_all add: hi4_def lo4_def hi_byte_def hs_offset_def hs_pulse_def vs_offset_def vs_pulse_def vs_byte_def sync_byte_def field_bits
    bits_below [of a 12, simplified] bits_below [of b 12, simplified] bits_below [of a 10, simplified] bits_below [of b 10, simplified] bits_below [of c 6, simplified] bits_below [of d 6, simplified])
  subgoal by (rule word12_eqI) (simp_all add: hi4_def lo4_def hi_byte_def hs_offset_def hs_pulse_def vs_offset_def vs_pulse_def vs_byte_def sync_byte_def field_bits
    bits_below [of a 12, simplified] bits_below [of b 12, simplified] bits_below [of a 10, simplified] bits_below [of b 10, simplified] bits_below [of c 6, simplified] bits_below [of d 6, simplified])
  subgoal by (rule word12_eqI) (simp_all add: hi4_def lo4_def hi_byte_def hs_offset_def hs_pulse_def vs_offset_def vs_pulse_def vs_byte_def sync_byte_def field_bits
    bits_below [of a 12, simplified] bits_below [of b 12, simplified] bits_below [of a 10, simplified] bits_below [of b 10, simplified] bits_below [of c 6, simplified] bits_below [of d 6, simplified])
  subgoal by (rule word12_eqI) (simp_all add: hi4_def lo4_def hi_byte_def hs_offset_def hs_pulse_def vs_offset_def vs_pulse_def vs_byte_def sync_byte_def field_bits
    bits_below [of a 12, simplified] bits_below [of b 12, simplified] bits_below [of a 10, simplified] bits_below [of b 10, simplified] bits_below [of c 6, simplified] bits_below [of d 6, simplified])
  subgoal by (rule word12_eqI) (simp_all add: hi4_def lo4_def hi_byte_def hs_offset_def hs_pulse_def vs_offset_def vs_pulse_def vs_byte_def sync_byte_def field_bits
    bits_below [of a 12, simplified] bits_below [of b 12, simplified] bits_below [of a 10, simplified] bits_below [of b 10, simplified] bits_below [of c 6, simplified] bits_below [of d 6, simplified])
  subgoal by (rule word12_eqI) (simp_all add: hi4_def lo4_def hi_byte_def hs_offset_def hs_pulse_def vs_offset_def vs_pulse_def vs_byte_def sync_byte_def field_bits
    bits_below [of a 12, simplified] bits_below [of b 12, simplified] bits_below [of a 10, simplified] bits_below [of b 10, simplified] bits_below [of c 6, simplified] bits_below [of d 6, simplified])
  done

section \<open>Properties\<close>

text \<open>
  The values of a detailed timing are printed as they were laid out: every split field of the 18
  bytes is put together in its place.
\<close>

theorem timing_roundtrip:
  assumes "timing_ok t"
  shows "print_timing i (timing_bytes t hborder vborder) = Some [Pixel i t]"
proof -
  have c: "le16_of (ucast (pixel_clock t)) (ucast (drop_bit 8 (pixel_clock t))) = pixel_clock t" "pixel_clock t \<noteq> 0"
    using assms by (simp_all add: timing_ok_def)
  note ok = assms [unfolded timing_ok_def]
  have d: "pixel_data (pixel_clock t) (drop 2 (timing_bytes t hborder vborder)) = Some t"
    using ok by (cases t) (simp add: pixel_data_def timing_bytes_def le16_bytes_def rd_def joins)
  show ?thesis using c d by (simp add: print_timing_def timing_bytes_def le16_bytes_def rd_def)
qed


definition demo_timing :: pixel_timing where
  "demo_timing = \<lparr>pixel_clock = 14850, hactive = 1920, vactive = 1080, hblank = 280, vblank = 45, hsync_offset = 88, hsync_pulse = 44,
     vsync_offset = 4, vsync_pulse = 5, width_mm = 531, height_mm = 299, misc = 0x1e\<rparr>"

theorem timing_roundtrip_witness: "print_timing 0 (timing_bytes demo_timing 0 0) = Some [Pixel 0 demo_timing]"
  by (rule timing_roundtrip) (simp add: timing_ok_def demo_timing_def)

text \<open>
  The checksum that the tool prints beside the block's own is the byte that makes the sum of all
  128 bytes zero: the two are equal exactly for the blocks whose sum is zero.
\<close>

theorem edid_checksum:
  assumes "length ed = EDID_LENGTH"
  shows "\<exists>c. edid_block_compute_checksum ed = Some c \<and> (c = ed ! 127 \<longleftrightarrow> sum_list ed = 0)"
proof -
  have l: "length ed = (EDID_LENGTH - 1) + 1" "127 < length ed" using assms by (simp_all add: EDID_LENGTH_def)
  have "ed = take 127 ed @ [ed ! 127]" using take_Suc_conv_app_nth [OF l(2)] assms by (simp add: EDID_LENGTH_def)
  then have "sum_list ed = sum_list (take 127 ed) + ed ! 127" by (metis sum_list.append sum_list.Cons sum_list.Nil add.right_neutral)
  moreover have "edid_block_compute_checksum ed = Some (0x100 - sum_list (take 127 ed))"
    using for_range_sum [OF l(1), of 0] by (simp add: edid_block_compute_checksum_def EDID_LENGTH_def)
  moreover have "(0x100 :: byte) - x = y \<longleftrightarrow> x + y = 0" for x y
  proof -
    have "(0x100 :: byte) = 0" by simp
    then show ?thesis by (metis add.commute diff_0 neg_eq_iff_add_eq_0)
  qed
  ultimately show ?thesis by (intro exI [of _ "0x100 - sum_list (take 127 ed)"] conjI) (assumption, simp only:)
qed

theorem edid_checksum_witness: "\<exists>c. edid_block_compute_checksum (1 # replicate 126 0 @ [255]) = Some c \<and> c = 255"
proof -
  have "length (1 # replicate 126 0 @ [255 :: byte]) = EDID_LENGTH" by (simp add: EDID_LENGTH_def)
  moreover have "(1 # replicate 126 0 @ [255 :: byte]) ! 127 = 255" by (simp add: nth_append)
  moreover have "sum_list (1 # replicate 126 0 @ [255 :: byte]) = 0" by (simp add: sum_list_replicate)
  ultimately show ?thesis using edid_checksum [of "1 # replicate 126 0 @ [255]"] by auto
qed

lemma print_timing_total: "length dt = 18 \<Longrightarrow> print_timing i dt \<noteq> None"
  by (auto simp: print_timing_def pixel_data_def rd_def mem_read_def)

lemma print_timings_total: "length ed = 128 \<Longrightarrow> \<forall>i \<in> set is. at i + 18 \<le> 128 \<Longrightarrow> print_timings is at ed \<noteq> None"
proof (induction "is")
  case (Cons i "is")
  have "length (take 18 (drop (at i) ed)) = 18" using Cons.prems by auto
  then have "mem_read ed (at i) 18 = Some (take 18 (drop (at i) ed))" "print_timing i (take 18 (drop (at i) ed)) \<noteq> None"
    using Cons.prems print_timing_total [of "take 18 (drop (at i) ed)" i] by (simp_all add: mem_read_def)
  then show ?case using Cons by auto
qed simp

lemma for_range_score: "length ed = 128 \<Longrightarrow> drm_edid_header_is_valid ed \<noteq> None"
proof -
  assume l: "length ed = 128"
  have "\<exists>s. drm_edid_header_is_valid ed = Some s \<and> True"
    unfolding drm_edid_header_is_valid_def by (rule for_range_rule) (use l in \<open>auto simp: rd_def edid_header_def\<close>)
  then show ?thesis by auto
qed

lemma print_block_total: "length ed = 128 \<Longrightarrow> print_block first ed \<noteq> None"
proof -
  assume l: "length ed = 128"
  have "18 * i + (unat d + 18) \<le> 128" if "i < ext_timings d" for i d
  proof -
    have "18 * (i + 1) \<le> 18 * ((127 - unat d) div 18)" using that by (simp add: ext_timings_def)
    also have "\<dots> \<le> 127 - unat d" by simp
    finally show ?thesis by simp
  qed
  then have "print_timings [0..<ext_timings (ed ! 2)] (\<lambda>i. unat (ed ! 2) + 18 * i) ed \<noteq> None" using print_timings_total [OF l] by (simp add: ac_simps)
  moreover have "print_timings [0..<4] (\<lambda>i. 54 + 18 * i) ed \<noteq> None" by (rule print_timings_total [OF l]) auto
  moreover have "drm_edid_header_is_valid ed \<noteq> None" using for_range_score [OF l] .
  moreover have "edid_block_compute_checksum ed \<noteq> None" using for_range_sum [of ed 127 1 0] l by (simp add: edid_block_compute_checksum_def EDID_LENGTH_def)
  ultimately show ?thesis using l by (auto simp: print_block_def rd_def)
qed

text \<open>
  C36. Whatever the file holds, the tool reads inside the block it has: the place that an extension
  block names for its timings, and their number, never lead behind its 128 bytes.
\<close>

theorem edid_stays_inside: "\<exists>ls. print_file first s = Some ls"
proof (induction first s rule: print_file.induct)
  case (1 first s)
  show ?case
  proof (cases "length s < EDID_LENGTH")
    case True
    then show ?thesis by (simp add: print_file.simps)
  next
    case False
    then have "length (take EDID_LENGTH s) = 128" by (simp add: EDID_LENGTH_def)
    then obtain l where l: "print_block first (take EDID_LENGTH s) = Some l" using print_block_total by blast
    from 1 [OF False l] obtain ls where "print_file False (drop EDID_LENGTH s) = Some ls" by blast
    then show ?thesis using False l by (subst print_file.simps) simp
  qed
qed

end
