(* ===== verification/Gpio.thy ===== *)
theory Gpio
  imports LogHash
begin

text \<open>
  \<open>src/src/hw/example_gpio.c\<close>: GPIO pins and their interrupts through the files below
  \<open>/sys/class/gpio\<close>; and where \<open>src/src/hardware/example_gpio.c\<close>, an older copy of it with a
  \<open>main\<close>, differs. The kernel is an argument: a record of its calls over a state of its own. The mutex
  has no effect on what one call does; the two threads are interleaved call by call.
\<close>

section \<open>The files of a pin\<close>

record 'k sysfs =
  sy_access :: "byte list \<Rightarrow> nat \<Rightarrow> 'k \<Rightarrow> bool"
  sy_open :: "byte list \<Rightarrow> bool \<Rightarrow> 'k \<Rightarrow> int \<times> 'k"
  sy_write :: "int \<Rightarrow> byte list \<Rightarrow> 'k \<Rightarrow> (int + nat) \<times> 'k"
  sy_read :: "int \<Rightarrow> nat \<Rightarrow> 'k \<Rightarrow> (int + byte list) \<times> 'k"
  sy_rewind :: "int \<Rightarrow> 'k \<Rightarrow> 'k"
  sy_close :: "int \<Rightarrow> 'k \<Rightarrow> 'k"

definition R_OK :: nat where "R_OK = 4"
definition W_OK :: nat where "W_OK = 2"
definition X_OK :: nat where "X_OK = 1"

text \<open>The two loops that repeat an interrupted call; they may run for ever.\<close>

partial_function (option) sys_write :: "'k sysfs \<Rightarrow> int \<Rightarrow> byte list \<Rightarrow> 'k \<Rightarrow> ((int + nat) \<times> 'k) option" where
  "sys_write K fd bs k =
     (case sy_write K fd bs k of
        (Inl e, k) \<Rightarrow> if e = EINTR then sys_write K fd bs k else Some (Inl e, k)
      | (Inr n, k) \<Rightarrow> Some (Inr n, k))"

partial_function (option) sys_read :: "'k sysfs \<Rightarrow> int \<Rightarrow> nat \<Rightarrow> 'k \<Rightarrow> ((int + byte list) \<times> 'k) option" where
  "sys_read K fd n k =
     (case sy_read K fd n k of
        (Inl e, k) \<Rightarrow> if e = EINTR then sys_read K fd n k else Some (Inl e, k)
      | (Inr bs, k) \<Rightarrow> Some (Inr (take n bs), k))"

definition write_str :: "'k sysfs \<Rightarrow> byte list \<Rightarrow> byte list \<Rightarrow> 'k \<Rightarrow> (int \<times> 'k) option" where
  "write_str K buf path k =
     (case sy_open K path True k of (fd, k) \<Rightarrow>
        if fd < 0 then Some (fd, k)
        else do {
          (r, k) \<leftarrow> sys_write K fd buf k;
          let k = sy_close K fd k;
          Some (case r of Inl e \<Rightarrow> - 1 | Inr n \<Rightarrow> 0, k) })"

definition read_str :: "'k sysfs \<Rightarrow> byte list \<Rightarrow> block \<Rightarrow> 'k \<Rightarrow> (int \<times> block \<times> 'k) option" where
  "read_str K path buf k =
     (case sy_open K path False k of (fd, k) \<Rightarrow>
        if fd < 0 then Some (fd, buf, k)
        else do {
          (r, k) \<leftarrow> sys_read K fd (length buf - 1) k;
          let k = sy_close K fd k;
          case r of
            Inl e \<Rightarrow> Some (- 1, buf, k)
          | Inr bs \<Rightarrow> do { buf \<leftarrow> mem_write buf 0 (map Some bs); buf \<leftarrow> wrc buf (length bs) 0; Some (0, buf, k) } })"

text \<open>A path is made by \<open>snprintf\<close> into 64 bytes.\<close>

definition gpio_path :: "int \<Rightarrow> byte list \<Rightarrow> byte list" where
  "gpio_path gpio leaf = take 63 (lit ''/sys/class/gpio/gpio'' @ fmt_int gpio @ leaf)"

definition is_gpio_ok :: "'k sysfs \<Rightarrow> int \<Rightarrow> 'k \<Rightarrow> bool" where
  "is_gpio_ok K gpio k \<longleftrightarrow>
     sy_access K (gpio_path gpio []) (R_OK + W_OK + X_OK) k
     \<and> sy_access K (gpio_path gpio (lit ''/direction'')) (R_OK + W_OK) k
     \<and> sy_access K (gpio_path gpio (lit ''/value'')) R_OK k
     \<and> sy_access K (gpio_path gpio (lit ''/edge'')) (R_OK + W_OK) k"

definition GPIO_DIRECTION_IN :: int where "GPIO_DIRECTION_IN = 0"
definition GPIO_DIRECTION_OUT :: int where "GPIO_DIRECTION_OUT = 1"

definition request_gpio :: "'k sysfs \<Rightarrow> int \<Rightarrow> int \<Rightarrow> 'k \<Rightarrow> (int \<times> 'k) option" where
  "request_gpio K gpio dir k = do {
     let strdir = (if dir = GPIO_DIRECTION_OUT then lit ''out'' else lit ''in'');
     (ok, k) \<leftarrow> if is_gpio_ok K gpio k then Some (True, k)
                else do {
                  (ret, k) \<leftarrow> write_str K (take 15 (fmt_int gpio)) (lit ''/sys/class/gpio/export'') k;
                  Some (\<not> (ret < 0 \<or> \<not> is_gpio_ok K gpio k), k) };
     if \<not> ok then Some (- 1, k) else write_str K strdir (gpio_path gpio (lit ''/direction'')) k }"

definition gpio_set_value :: "'k sysfs \<Rightarrow> int \<Rightarrow> int \<Rightarrow> 'k \<Rightarrow> (int \<times> 'k) option" where
  "gpio_set_value K gpio v k = write_str K (if v \<noteq> 0 then lit ''1'' else lit ''0'') (gpio_path gpio (lit ''/value'')) k"

definition gpio_direction_output :: "'k sysfs \<Rightarrow> int \<Rightarrow> int \<Rightarrow> 'k \<Rightarrow> (int \<times> 'k) option" where
  "gpio_direction_output K gpio v k = do {
     (ret, k) \<leftarrow> write_str K (lit ''out'') (gpio_path gpio (lit ''/direction'')) k;
     if ret < 0 then Some (ret, k)
     else write_str K (if v \<noteq> 0 then lit ''1'' else lit ''0'') (gpio_path gpio (lit ''/value'')) k }"

text \<open>The result of \<open>strtol\<close> is returned as an \<open>int\<close>.\<close>

definition value_of :: "block \<Rightarrow> int option" where
  "value_of buf = do { (v, e) \<leftarrow> c_strtoll (rdc buf) 0; Some (sint (word_of_int v :: u32)) }"

definition gpio_get_value :: "'k sysfs \<Rightarrow> int \<Rightarrow> 'k \<Rightarrow> (int \<times> 'k) option" where
  "gpio_get_value K gpio k = do {
     (ret, buf, k) \<leftarrow> read_str K (gpio_path gpio (lit ''/value'')) (replicate 8 None) k;
     if ret < 0 then Some (- 1, k) else do { v \<leftarrow> value_of buf; Some (v, k) } }"

definition gpio_direction_input :: "'k sysfs \<Rightarrow> int \<Rightarrow> 'k \<Rightarrow> (int \<times> 'k) option" where
  "gpio_direction_input K gpio k = do {
     (ret, k) \<leftarrow> write_str K (lit ''in'') (gpio_path gpio (lit ''/direction'')) k;
     if ret < 0 then Some (ret, k)
     else do {
       (ret, buf, k) \<leftarrow> read_str K (gpio_path gpio (lit ''/value'')) (replicate 8 None) k;
       if ret < 0 then Some (- 1, k) else do { v \<leftarrow> value_of buf; Some (v, k) } } }"

section \<open>Interrupts\<close>

record gpio_irq_context =
  gi_func :: nat
  gi_arg :: nat
  gi_gpio :: int
  gi_fd :: int

text \<open>
  The state of the module: the kernel, whether the thread runs, the interest list of \<open>epoll\<close>, whose
  entries lead through an \<open>epoll_context\<close> to the context of the interrupt, the contexts in memory, the
  list of them, the number of lost blocks of memory, and the calls made to the client's functions.
\<close>

record 'k gpio_irqs =
  ir_kernel :: 'k
  ir_initialized :: bool
  ir_epfd :: int
  ir_watch :: "int \<Rightarrow> nat option"
  ir_mem :: "nat \<Rightarrow> gpio_irq_context option"
  ir_head :: "nat list"
  ir_lost :: nat
  ir_calls :: "(nat \<times> int \<times> nat \<times> int) list"

text \<open>What the calls of a request meet.\<close>

record irq_env =
  re_epoll :: int
  re_thread :: int
  re_epctx :: bool
  re_gctx :: "nat option"
  re_add :: bool

definition trigger_type :: "byte list list" where
  "trigger_type = [lit ''none'', lit ''falling'', lit ''rising'', lit ''both'']"

definition GPIO_IRQ_NONE :: nat where "GPIO_IRQ_NONE = 0"

definition irq_thread_start :: "irq_env \<Rightarrow> 'k gpio_irqs \<Rightarrow> int \<times> 'k gpio_irqs" where
  "irq_thread_start env s =
     (if ir_initialized s then (0, s)
      else let s = s\<lparr>ir_epfd := re_epoll env\<rparr> in
        if re_epoll env < 0 then (re_epoll env, s)
        else if re_thread env < 0 then (- ENOMEM, s)
        else (0, s\<lparr>ir_initialized := True\<rparr>))"

definition irq_register :: "'k sysfs \<Rightarrow> irq_env \<Rightarrow> int \<Rightarrow> nat \<Rightarrow> nat \<Rightarrow> int \<Rightarrow> 'k gpio_irqs \<Rightarrow> int \<times> 'k gpio_irqs" where
  "irq_register K env gpio cb arg fd s =
     (let closed = s\<lparr>ir_kernel := sy_close K fd (ir_kernel s)\<rparr> in
      case re_gctx env of
        None \<Rightarrow> (- ENOMEM, closed\<lparr>ir_lost := ir_lost s + (if re_epctx env then 1 else 0)\<rparr>)
      | Some a \<Rightarrow>
          if \<not> re_epctx env then (- ENOMEM, closed\<lparr>ir_lost := ir_lost s + 1\<rparr>)
          else if \<not> re_add env then (- ENOMEM, closed)
          else (0, s\<lparr>ir_mem := (ir_mem s)(a \<mapsto> \<lparr>gi_func = cb, gi_arg = arg, gi_gpio = gpio, gi_fd = fd\<rparr>),
                     ir_watch := (ir_watch s)(fd \<mapsto> a), ir_head := a # ir_head s\<rparr>))"

definition request_gpio_irq :: "'k sysfs \<Rightarrow> irq_env \<Rightarrow> int \<Rightarrow> int \<Rightarrow> nat \<Rightarrow> nat \<Rightarrow> 'k gpio_irqs \<Rightarrow> (int \<times> 'k gpio_irqs) option" where
  "request_gpio_irq K env gpio type cb arg s =
     (case irq_thread_start env s of (ret, s) \<Rightarrow>
        if ret < 0 then Some (ret, s)
        else if \<not> is_gpio_ok K gpio (ir_kernel s) then Some (- EBUSY, s)
        else if type \<le> 0 \<or> int (length trigger_type) \<le> type then Some (- EINVAL, s)
        else do {
          trigger \<leftarrow> rd trigger_type (nat type);
          (ret, k) \<leftarrow> write_str K trigger (gpio_path gpio (lit ''/edge'')) (ir_kernel s);
          if ret < 0 then Some (- EIO, s\<lparr>ir_kernel := k\<rparr>)
          else case sy_open K (gpio_path gpio (lit ''/value'')) False k of (fd, k) \<Rightarrow>
            if fd < 0 then Some (- EIO, s\<lparr>ir_kernel := k\<rparr>)
            else do {
              (r, k) \<leftarrow> sys_read K fd 64 k;
              case r of
                Inl e \<Rightarrow> Some (- EIO, s\<lparr>ir_kernel := sy_close K fd k\<rparr>)
              | Inr bs \<Rightarrow> Some (irq_register K env gpio cb arg fd (s\<lparr>ir_kernel := k\<rparr>)) } })"

text \<open>The context of a pin that the list has first.\<close>

fun find_irq :: "(nat \<Rightarrow> gpio_irq_context option) \<Rightarrow> int \<Rightarrow> nat list \<Rightarrow> nat option option" where
  "find_irq m gpio [] = Some None"
| "find_irq m gpio (a # as) = do { g \<leftarrow> m a; if gi_gpio g = gpio then Some (Some a) else find_irq m gpio as }"

definition release_irq :: "'k sysfs \<Rightarrow> bool \<Rightarrow> int \<Rightarrow> 'k gpio_irqs \<Rightarrow> (int \<times> 'k gpio_irqs) option" where
  "release_irq K closes gpio s = do {
     r \<leftarrow> find_irq (ir_mem s) gpio (ir_head s);
     case r of
       None \<Rightarrow> Some (- EINVAL, s)
     | Some a \<Rightarrow> do {
         g \<leftarrow> ir_mem s a;
         trigger \<leftarrow> rd trigger_type GPIO_IRQ_NONE;
         (ret, k) \<leftarrow> write_str K trigger (gpio_path gpio (lit ''/edge'')) (ir_kernel s);
         let k = (if closes then sy_close K (gi_fd g) k else k);
         Some (0, s\<lparr>ir_head := remove1 a (ir_head s), ir_watch := (ir_watch s)(gi_fd g := None),
                    ir_kernel := k, ir_mem := (ir_mem s)(a := None)\<rparr>) } }"

definition free_gpio_irq :: "'k sysfs \<Rightarrow> int \<Rightarrow> 'k gpio_irqs \<Rightarrow> (int \<times> 'k gpio_irqs) option" where
  "free_gpio_irq K = release_irq K True"

text \<open>The copy under \<open>hardware\<close> does not close the descriptor.\<close>

definition hw_free_gpio_irq :: "'k sysfs \<Rightarrow> int \<Rightarrow> 'k gpio_irqs \<Rightarrow> (int \<times> 'k gpio_irqs) option" where
  "hw_free_gpio_irq K = release_irq K False"

definition gpio_epoll_cb :: "'k sysfs \<Rightarrow> bool \<Rightarrow> nat \<Rightarrow> 'k gpio_irqs \<Rightarrow> (int \<times> 'k gpio_irqs) option" where
  "gpio_epoll_cb K pri a s = do {
     g \<leftarrow> ir_mem s a;
     if \<not> pri then Some (0, s)
     else do {
       (r, k) \<leftarrow> sys_read K (gi_fd g) 7 (sy_rewind K (gi_fd g) (ir_kernel s));
       let s = s\<lparr>ir_kernel := k\<rparr>;
       case r of
         Inl e \<Rightarrow> Some (- 1, s)
       | Inr bs \<Rightarrow> do {
           buf \<leftarrow> mem_write (replicate 8 None) 0 (map Some bs);
           buf \<leftarrow> wrc buf (length bs) 0;
           v \<leftarrow> value_of buf;
           Some (0, s\<lparr>ir_calls := ir_calls s @ [(gi_func g, gi_gpio g, gi_arg g, v)]\<rparr>) } } }"

text \<open>The thread: what \<open>epoll_wait\<close> returns is a script of errors and of arrays of events.\<close>

datatype irq_wait = Irq_error int | Irq_events "(bool \<times> nat) list"

fun dispatch_irqs :: "'k sysfs \<Rightarrow> (bool \<times> nat) list \<Rightarrow> 'k gpio_irqs \<Rightarrow> 'k gpio_irqs option" where
  "dispatch_irqs K [] s = Some s"
| "dispatch_irqs K ((pri, a) # es) s = do { (ret, s) \<leftarrow> gpio_epoll_cb K pri a s; dispatch_irqs K es s }"

fun irq_loop :: "'k sysfs \<Rightarrow> irq_wait list \<Rightarrow> 'k gpio_irqs \<Rightarrow> (int option \<times> 'k gpio_irqs) option" where
  "irq_loop K [] s = Some (None, s)"
| "irq_loop K (Irq_error e # ws) s = (if e = EINTR then irq_loop K ws s else Some (Some (- 1), s))"
| "irq_loop K (Irq_events es # ws) s = do { s \<leftarrow> dispatch_irqs K es s; irq_loop K ws s }"

definition epoll_event_loop :: "'k sysfs \<Rightarrow> bool \<Rightarrow> int \<Rightarrow> irq_wait list \<Rightarrow> 'k gpio_irqs \<Rightarrow> (int option \<times> 'k gpio_irqs) option" where
  "epoll_event_loop K mem_ok maxevent ws s =
     (if maxevent \<le> 0 \<or> 65536 < maxevent then Some (Some (- EINVAL), s)
      else if \<not> mem_ok then Some (Some (- ENOMEM), s)
      else irq_loop K ws s)"

text \<open>The end of \<open>main\<close> of the copy: each \<open>s\<close> typed frees the next pin; \<open>i\<close> is compared behind the increment.\<close>

definition inpinlist :: "int list" where "inpinlist = [25, 42, 12, 13]"

fun close_pins :: "'k sysfs \<Rightarrow> nat \<Rightarrow> byte list \<Rightarrow> 'k gpio_irqs \<Rightarrow> (int option \<times> 'k gpio_irqs) option" where
  "close_pins K i [] s = Some (None, s)"
| "close_pins K i (c # cs) s =
     (if c = 115 then do {
        gpio \<leftarrow> rd inpinlist i;
        (ret, s) \<leftarrow> hw_free_gpio_irq K gpio s;
        if length inpinlist < i + 1 then Some (Some 0, s) else close_pins K (i + 1) cs s }
      else close_pins K i cs s)"

section \<open>The kernel\<close>

text \<open>
  What is relied on: an interrupted call is repeated only so often, \<open>open\<close> returns a descriptor that
  is not open yet, and only \<open>open\<close> and \<open>close\<close> change which are.
\<close>

definition kernel_laws :: "'k sysfs \<Rightarrow> ('k \<Rightarrow> int set) \<Rightarrow> bool" where
  "kernel_laws K opened \<longleftrightarrow>
     (\<forall>fd bs k. \<exists>r k'. sys_write K fd bs k = Some (r, k')) \<and> (\<forall>fd n k. \<exists>r k'. sys_read K fd n k = Some (r, k'))
     \<and> (\<forall>fd bs k. opened (snd (sy_write K fd bs k)) = opened k) \<and> (\<forall>fd n k. opened (snd (sy_read K fd n k)) = opened k)
     \<and> (\<forall>fd k. opened (sy_rewind K fd k) = opened k) \<and> (\<forall>fd k. opened (sy_close K fd k) = opened k - {fd})
     \<and> (\<forall>p w k fd k'. sy_open K p w k = (fd, k') \<longrightarrow> (if fd < 0 then opened k' = opened k else fd \<notin> opened k \<and> opened k' = insert fd (opened k)))"

lemma kernel_fds:
  assumes "kernel_laws K opened"
  shows "opened (snd (sy_write K fd bs k)) = opened k" and "opened (snd (sy_read K fd n k)) = opened k"
    and "opened (sy_rewind K fd k) = opened k" and "opened (sy_close K fd k) = opened k - {fd}"
    and "\<exists>r k'. sys_write K fd bs k = Some (r, k')" and "\<exists>r k'. sys_read K fd n k = Some (r, k')"
    and "sy_open K p w k = (fd, k') \<Longrightarrow> (if fd < 0 then opened k' = opened k else fd \<notin> opened k \<and> opened k' = insert fd (opened k))"
  using assms unfolding kernel_laws_def by - (elim conjE, drule spec, drule spec, (drule spec)?, assumption | elim conjE, iprover)+

lemma retry_cases:
  "(case r of Inl e \<Rightarrow> if e = EINTR then again else Some (Inl e, k1) | Inr n \<Rightarrow> Some (Inr (f n), k1)) = Some y
    \<Longrightarrow> again = Some y \<or> y = (case r of Inl e \<Rightarrow> Inl e | Inr n \<Rightarrow> Inr (f n), k1)"
  by (cases r) (simp_all split: if_split_asm)

lemma sys_write_opened:
  assumes "kernel_laws K opened" and "sys_write K fd bs k = Some (r, k')"
  shows "opened k' = opened k"
proof -
  have "kernel_laws K opened \<longrightarrow> opened (snd (r, k')) = opened k"
  proof (rule sys_write.raw_induct [where P = "\<lambda>K fd bs k y. kernel_laws K opened \<longrightarrow> opened (snd y) = opened k", OF _ assms(2)])
    fix go K fd bs k and y :: "(int + nat) \<times> 'a"
    assume go: "\<And>K fd bs k y. go K fd bs k = Some y \<Longrightarrow> kernel_laws K opened \<longrightarrow> opened (snd y) = opened k"
      and run: "(case sy_write K fd bs k of (Inl e, k) \<Rightarrow> if e = EINTR then go K fd bs k else Some (Inl e, k) | (Inr n, k) \<Rightarrow> Some (Inr n, k)) = Some y"
    obtain r k1 where k1: "sy_write K fd bs k = (r, k1)" by fastforce
    have "go K fd bs k1 = Some y \<or> y = (case r of Inl e \<Rightarrow> Inl e | Inr n \<Rightarrow> Inr (id n), k1)"
      by (rule retry_cases) (use run in \<open>unfold k1 prod.case id_apply\<close>)
    then consider "go K fd bs k1 = Some y" | "snd y = k1" by (elim disjE) simp_all
    then show "kernel_laws K opened \<longrightarrow> opened (snd y) = opened k"
    proof cases
      case 1
      then show ?thesis using go [OF 1] kernel_fds(1) [of K opened fd bs k] unfolding k1 snd_conv by argo
    next
      case 2
      then show ?thesis using kernel_fds(1) [of K opened fd bs k] unfolding k1 by simp
    qed
  qed
  then show ?thesis using assms(1) by simp
qed

lemma sys_read_opened:
  assumes "kernel_laws K opened" and "sys_read K fd n k = Some (r, k')"
  shows "opened k' = opened k" and "r = Inr bs \<Longrightarrow> length bs \<le> n"
proof -
  have "(kernel_laws K opened \<longrightarrow> opened (snd (r, k')) = opened k) \<and> (\<forall>bs. fst (r, k') = Inr bs \<longrightarrow> length bs \<le> n)"
  proof (rule sys_read.raw_induct [where P = "\<lambda>K fd n k y. (kernel_laws K opened \<longrightarrow> opened (snd y) = opened k) \<and> (\<forall>bs. fst y = Inr bs \<longrightarrow> length bs \<le> n)", OF _ assms(2)])
    fix go K fd n k and y :: "(int + byte list) \<times> 'a"
    assume go: "\<And>K fd n k y. go K fd n k = Some y \<Longrightarrow> (kernel_laws K opened \<longrightarrow> opened (snd y) = opened k) \<and> (\<forall>bs. fst y = Inr bs \<longrightarrow> length bs \<le> n)"
      and run: "(case sy_read K fd n k of (Inl e, k) \<Rightarrow> if e = EINTR then go K fd n k else Some (Inl e, k) | (Inr bs, k) \<Rightarrow> Some (Inr (take n bs), k)) = Some y"
    obtain r k1 where k1: "sy_read K fd n k = (r, k1)" by fastforce
    have "go K fd n k1 = Some y \<or> y = (case r of Inl e \<Rightarrow> Inl e | Inr bs \<Rightarrow> Inr (take n bs), k1)"
      by (rule retry_cases) (use run in \<open>unfold k1 prod.case\<close>)
    then consider "go K fd n k1 = Some y" | "snd y = k1" "\<forall>bs. fst y = Inr bs \<longrightarrow> length bs \<le> n"
      by (elim disjE) (auto split: sum.splits)
    then show "(kernel_laws K opened \<longrightarrow> opened (snd y) = opened k) \<and> (\<forall>bs. fst y = Inr bs \<longrightarrow> length bs \<le> n)"
    proof cases
      case 1
      then show ?thesis using go [OF 1] kernel_fds(2) [of K opened fd n k] unfolding k1 snd_conv by argo
    next
      case 2
      then show ?thesis using kernel_fds(2) [of K opened fd n k] unfolding k1 by simp
    qed
  qed
  then show "opened k' = opened k" and "r = Inr bs \<Longrightarrow> length bs \<le> n" using assms(1) by simp_all
qed

lemma write_str_runs:
  assumes "kernel_laws K opened"
  shows "\<exists>ret k'. write_str K buf path k = Some (ret, k') \<and> opened k' = opened k"
proof -
  obtain fd k1 where o: "sy_open K path True k = (fd, k1)" by fastforce
  obtain r k2 where w: "sys_write K fd buf k1 = Some (r, k2)" using kernel_fds(5) [OF assms] by blast
  show ?thesis using kernel_fds(7) [OF assms o] sys_write_opened [OF assms w] kernel_fds(4) [OF assms, of fd k2] o w by (cases "fd < 0") (auto simp: write_str_def)
qed

text \<open>A number is read from any text that ends with a zero.\<close>

lemma skip_isspace_total:
  assumes "p \<le> z" and "g z = Some 0" and "\<forall>i. p \<le> i \<and> i < z \<longrightarrow> g i \<noteq> None"
  shows "\<exists>q. skip_isspace g p = Some q \<and> p \<le> q \<and> q \<le> z"
  using assms
proof (induction "z - p" arbitrary: p)
  case 0
  then have "p = z" by simp
  then show ?case using 0 by (simp add: skip_isspace.simps [of g z] isspace_def)
next
  case (Suc n)
  then obtain c where c: "g p = Some c" "p < z" by (cases "g p") auto
  have "\<exists>q. skip_isspace g (p + 1) = Some q \<and> p + 1 \<le> q \<and> q \<le> z" using Suc c by simp
  then show ?case using c by (auto simp: skip_isspace.simps [of g p])
qed

lemma digits_total:
  assumes "base \<le> 36" and "p \<le> z" and "g z = Some 0" and "\<forall>i. p \<le> i \<and> i < z \<longrightarrow> g i \<noteq> None"
  shows "\<exists>r. digits g base p acc = Some r"
  using assms
proof (induction "z - p" arbitrary: p acc)
  case 0
  then have "p = z" by simp
  then show ?case using 0 by (simp add: digits.simps [of g base z] digit_in_def isdigit_def tolower_def Let_def)
next
  case (Suc n)
  then obtain c where c: "g p = Some c" "p < z" by (cases "g p") auto
  have "\<exists>r. digits g base (p + 1) a = Some r" for a using Suc c by simp
  then show ?case using c by (simp add: digits.simps [of g base p] split: option.split)
qed

lemma c_strto_total:
  assumes "p \<le> z" and "g z = Some 0" and "\<forall>i. p \<le> i \<and> i < z \<longrightarrow> g i \<noteq> None"
  shows "\<exists>neg v e. c_strto g p = Some (neg, v, e)"
proof -
  have rd: "\<exists>c. g i = Some c \<and> (c \<noteq> 0 \<longrightarrow> i < z)" if "p \<le> i" "i \<le> z" for i using assms that by (cases "i = z") auto
  have dg: "\<exists>v e. digits g b i a = Some (v, e)" if "b \<le> 36" "p \<le> i" "i \<le> z" for b i a
    using digits_total [of b i z g a] assms that by fastforce
  obtain q where q: "skip_isspace g p = Some q" "p \<le> q" "q \<le> z" using skip_isspace_total [OF assms] by blast
  obtain c where c: "g q = Some c" "c \<noteq> 0 \<longrightarrow> q < z" using rd q by blast
  define r where "r = (if c = 45 \<or> c = 43 then q + 1 else q)"
  have r: "p \<le> r" "r \<le> z" using q c by (auto simp: r_def)
  obtain d where d: "g r = Some d" "d \<noteq> 0 \<longrightarrow> r < z" using rd r by blast
  note run = c_strto_def [of g p, unfolded q(1) Option.bind.simps c(1) Let_def, folded r_def, unfolded d(1) Option.bind.simps]
  show ?thesis
  proof (cases "d = 48")
    case False
    then show ?thesis unfolding run using dg [OF _ r, of 10 0] by auto
  next
    case True
    then have r1: "r + 1 \<le> z" using d(2) by simp
    obtain x where x: "g (r + 1) = Some x" "x \<noteq> 0 \<longrightarrow> r + 1 < z" using rd [of "r + 1"] r r1 by auto
    show ?thesis
    proof (cases "tolower x = 120")
      case False
      then show ?thesis unfolding run using True x(1) dg [OF _ r, of 8 0] by auto
    next
      case t: True
      have "x \<noteq> 0" using t by (auto simp: tolower_def)
      then have r2: "r + 2 \<le> z" using x(2) by simp
      obtain y where "g (r + 2) = Some y" using rd [of "r + 2"] r r2 by auto
      then show ?thesis unfolding run using True t x(1) dg [of 16 "r + 2" 0] r r2 by auto
    qed
  qed
qed

lemma value_of_total:
  assumes "length bs < length buf" and "mem_write buf 0 (map Some bs) = Some b" and "wrc b (length bs) 0 = Some b'"
  shows "\<exists>v. value_of b' = Some v"
proof -
  have b: "b = map Some bs @ drop (length bs) buf" "b' = b[length bs := Some 0]" using assms by (auto simp: mem_write_def blit_def wrc_def wr_def split: if_splits)
  have "rdc b' (length bs) = Some 0" using assms(1) unfolding b by (simp add: rdc_def rd_def)
  moreover have "\<forall>i. 0 \<le> i \<and> i < length bs \<longrightarrow> rdc b' i \<noteq> None" using assms(1) unfolding b by (auto simp: rdc_def rd_def nth_append)
  ultimately obtain neg v e where "c_strto (rdc b') 0 = Some (neg, v, e)" using c_strto_total [of 0 "length bs" "rdc b'"] by blast
  then show ?thesis by (simp add: value_of_def c_strtoll_def)
qed

section \<open>The registry of interrupts\<close>

text \<open>
  The invariant: the list, the contexts in memory and the interest list of \<open>epoll\<close> are the same set of
  interrupts, each with an open descriptor of its own.
\<close>

definition irqs_ok :: "('k \<Rightarrow> int set) \<Rightarrow> 'k gpio_irqs \<Rightarrow> bool" where
  "irqs_ok opened s \<longleftrightarrow> distinct (ir_head s) \<and> dom (ir_mem s) = set (ir_head s)
     \<and> (\<forall>a g. ir_mem s a = Some g \<longrightarrow> ir_watch s (gi_fd g) = Some a \<and> gi_fd g \<in> opened (ir_kernel s))
     \<and> (\<forall>fd a. ir_watch s fd = Some a \<longrightarrow> (\<exists>g. ir_mem s a = Some g \<and> gi_fd g = fd))"

text \<open>The system: the client's thread makes and frees interrupts while the other thread waits, and handles one event after the other.\<close>

inductive irq_reach :: "'k sysfs \<Rightarrow> 'k gpio_irqs \<Rightarrow> (bool \<times> nat) list \<Rightarrow> bool" for K where
  start: "irq_reach K \<lparr>ir_kernel = k, ir_initialized = False, ir_epfd = 0, ir_watch = (\<lambda>_. None), ir_mem = (\<lambda>_. None), ir_head = [], ir_lost = 0, ir_calls = []\<rparr> []"
| request: "irq_reach K s es \<Longrightarrow> (\<And>a. re_gctx env = Some a \<Longrightarrow> ir_mem s a = None) \<Longrightarrow> request_gpio_irq K env gpio type cb arg s = Some (r, s') \<Longrightarrow> irq_reach K s' es"
| free: "irq_reach K s es \<Longrightarrow> free_gpio_irq K gpio s = Some (r, s') \<Longrightarrow> irq_reach K s' es"
| wait: "irq_reach K s [] \<Longrightarrow> (\<And>pri a. (pri, a) \<in> set es \<Longrightarrow> a \<in> ran (ir_watch s)) \<Longrightarrow> irq_reach K s es"
| handle: "irq_reach K s ((pri, a) # es) \<Longrightarrow> gpio_epoll_cb K pri a s = Some (r, s') \<Longrightarrow> irq_reach K s' es"

text \<open>Other descriptors may come and go.\<close>

lemma irqs_ok_kernel:
  assumes "irqs_ok opened s" and "opened (ir_kernel s) \<subseteq> opened k"
  shows "irqs_ok opened (s\<lparr>ir_kernel := k, ir_initialized := i, ir_epfd := e, ir_lost := n, ir_calls := cs\<rparr>)"
  using assms unfolding irqs_ok_def by auto

lemma irqs_ok_register:
  assumes "irqs_ok opened s" and "ir_mem s a = None" and "fd \<notin> opened (ir_kernel s)" and "opened k = insert fd (opened (ir_kernel s))" and "gi_fd g = fd"
  shows "irqs_ok opened (s\<lparr>ir_kernel := k, ir_mem := (ir_mem s)(a \<mapsto> g), ir_watch := (ir_watch s)(fd \<mapsto> a), ir_head := a # ir_head s\<rparr>)"
proof -
  have a: "a \<notin> set (ir_head s)" using assms(1,2) unfolding irqs_ok_def by blast
  have w: "ir_watch s f \<noteq> Some a" for f using assms(1,2) unfolding irqs_ok_def by fastforce
  have "gi_fd h \<noteq> fd" if "ir_mem s b = Some h" for b h using assms(1,3) that unfolding irqs_ok_def by blast
  then show ?thesis using assms a w unfolding irqs_ok_def by auto
qed

lemma irqs_ok_release:
  assumes "irqs_ok opened s" and "ir_mem s a = Some g" and "opened k = opened (ir_kernel s) - {gi_fd g}"
  shows "irqs_ok opened (s\<lparr>ir_head := remove1 a (ir_head s), ir_watch := (ir_watch s)(gi_fd g := None), ir_kernel := k, ir_mem := (ir_mem s)(a := None)\<rparr>)"
proof -
  have "gi_fd h \<noteq> gi_fd g" if "ir_mem s b = Some h" "b \<noteq> a" for b h using assms(1,2) that unfolding irqs_ok_def by (metis option.inject)
  moreover have "f = gi_fd g" if "ir_watch s f = Some a" for f using assms(1,2) that unfolding irqs_ok_def by fastforce
  ultimately show ?thesis using assms unfolding irqs_ok_def by auto
qed

text \<open>A request fails and changes nothing but the kernel's state, or registers an interrupt.\<close>

definition failed_request :: "('k \<Rightarrow> int set) \<Rightarrow> 'k gpio_irqs \<Rightarrow> int \<Rightarrow> 'k gpio_irqs \<Rightarrow> bool" where
  "failed_request opened s r s' \<longleftrightarrow> r < 0 \<and> (\<exists>k i e n. opened k = opened (ir_kernel s) \<and> s' = s\<lparr>ir_kernel := k, ir_initialized := i, ir_epfd := e, ir_lost := n\<rparr>)"

definition new_irq :: "('k \<Rightarrow> int set) \<Rightarrow> irq_env \<Rightarrow> int \<Rightarrow> nat \<Rightarrow> nat \<Rightarrow> 'k gpio_irqs \<Rightarrow> int \<Rightarrow> 'k gpio_irqs \<Rightarrow> bool" where
  "new_irq opened env gpio cb arg s r s' \<longleftrightarrow> r = 0 \<and> (\<exists>k e fd a. re_gctx env = Some a \<and> 0 \<le> fd \<and> fd \<notin> opened (ir_kernel s) \<and> opened k = insert fd (opened (ir_kernel s))
     \<and> s' = s\<lparr>ir_kernel := k, ir_initialized := True, ir_epfd := e, ir_mem := (ir_mem s)(a \<mapsto> \<lparr>gi_func = cb, gi_arg = arg, gi_gpio = gpio, gi_fd = fd\<rparr>),
              ir_watch := (ir_watch s)(fd \<mapsto> a), ir_head := a # ir_head s\<rparr>)"

lemma irq_register_outcome:
  assumes "kernel_laws K opened" and "0 \<le> fd" and "fd \<notin> opened (ir_kernel s)" and "opened k = insert fd (opened (ir_kernel s))" and "irq_register K env gpio cb arg fd (s\<lparr>ir_kernel := k, ir_initialized := True, ir_epfd := e\<rparr>) = (r, s')"
  shows "failed_request opened s r s' \<or> new_irq opened env gpio cb arg s r s'"
proof -
  have c: "opened (sy_close K fd k) = opened (ir_kernel s)" using kernel_fds(4) [OF assms(1), of fd k] assms(3,4) by simp
  show ?thesis
  proof (cases "re_epctx env \<and> re_add env \<and> re_gctx env \<noteq> None")
    case True
    then obtain a where a: "re_gctx env = Some a" by blast
    have "new_irq opened env gpio cb arg s r s'"
      unfolding new_irq_def
      by (intro conjI, use True assms(5) in \<open>simp add: irq_register_def a\<close>, rule exI [where x = k], rule exI [where x = e], rule exI [where x = fd], rule exI [where x = a])
         (use True assms in \<open>simp add: irq_register_def a\<close>)
    then show ?thesis ..
  next
    case False
    define n where "n = (if re_gctx env = None then ir_lost s + (if re_epctx env then 1 else 0) else if re_epctx env then ir_lost s else ir_lost s + 1)"
    have "r = - ENOMEM \<and> s' = s\<lparr>ir_kernel := sy_close K fd k, ir_initialized := True, ir_epfd := e, ir_lost := n\<rparr>"
      using assms(5) False by (cases s) (auto simp: irq_register_def n_def Let_def split: option.splits if_splits)
    then show ?thesis unfolding failed_request_def using c by (auto simp: ENOMEM_def)
  qed
qed

lemma failed_requestI: "r < 0 \<Longrightarrow> opened k = opened (ir_kernel s) \<Longrightarrow> failed_request opened s r (s\<lparr>ir_kernel := k, ir_initialized := i, ir_epfd := e\<rparr>)"
  unfolding failed_request_def
  by (intro conjI, assumption, rule exI [where x = k], rule exI [where x = i], rule exI [where x = e], rule exI [where x = "ir_lost s"]) (cases s; simp)

lemma request_outcome:
  assumes "kernel_laws K opened"
  shows "\<exists>r s'. request_gpio_irq K env gpio type cb arg s = Some (r, s') \<and> (failed_request opened s r s' \<or> new_irq opened env gpio cb arg s r s')"
proof -
  obtain r0 s0 where t: "irq_thread_start env s = (r0, s0)" by fastforce
  have keep: "s\<lparr>ir_kernel := ir_kernel s, ir_initialized := ir_initialized s, ir_epfd := e\<rparr> = s\<lparr>ir_epfd := e\<rparr>" for e by (cases s) simp
  define e where "e = (if ir_initialized s then ir_epfd s else re_epoll env)"
  have s0: "(\<exists>i. s0 = s\<lparr>ir_kernel := ir_kernel s, ir_initialized := i, ir_epfd := e\<rparr>) \<and> (0 \<le> r0 \<longrightarrow> s0 = s\<lparr>ir_kernel := ir_kernel s, ir_initialized := True, ir_epfd := e\<rparr>)"
    using t unfolding irq_thread_start_def e_def by (cases s) (auto simp: Let_def ENOMEM_def split: if_splits)
  show ?thesis
  proof (cases "r0 < 0")
    case True
    then show ?thesis using t s0 failed_requestI [of r0 opened "ir_kernel s" s e] unfolding request_gpio_irq_def by auto
  next
    case False
    then have s1: "s0 = s\<lparr>ir_kernel := ir_kernel s, ir_initialized := True, ir_epfd := e\<rparr>" using s0 by simp
    have norm: "s0\<lparr>ir_kernel := k\<rparr> = s\<lparr>ir_kernel := k, ir_initialized := True, ir_epfd := e\<rparr>" for k unfolding s1 by (cases s) simp
    have fails: "failed_request opened s x (s0\<lparr>ir_kernel := k\<rparr>)" if "x < 0" "opened k = opened (ir_kernel s)" for x k
      using failed_requestI [where r = x and opened = opened and k = k and s = s and i = True and e = e, OF that] unfolding norm .
    have same: "s0\<lparr>ir_kernel := ir_kernel s\<rparr> = s0" unfolding s1 by simp
    note run = request_gpio_irq_def [of K env gpio type cb arg s, unfolded t prod.case]
    show ?thesis
    proof (cases "is_gpio_ok K gpio (ir_kernel s0) \<and> 0 < type \<and> type < 4")
      case bad: False
      then have "\<exists>x < 0. request_gpio_irq K env gpio type cb arg s = Some (x, s0)"
        unfolding run using False by (auto simp: trigger_type_def EBUSY_def EINVAL_def)
      then show ?thesis using fails [of _ "ir_kernel s"] same by auto
    next
      case True
      have "length trigger_type = 4" by (simp add: trigger_type_def)
      then obtain tr where tr: "rd trigger_type (nat type) = Some tr" using rd_eq [of "nat type" trigger_type] True by auto
      obtain ret k1 where w: "write_str K tr (gpio_path gpio (lit ''/edge'')) (ir_kernel s) = Some (ret, k1)" "opened k1 = opened (ir_kernel s)"
        using write_str_runs [OF assms] by blast
      obtain fd k2 where o: "sy_open K (gpio_path gpio (lit ''/value'')) False k1 = (fd, k2)" by fastforce
      obtain rr k3 where rd: "sys_read K fd 64 k2 = Some (rr, k3)" using kernel_fds(6) [OF assms] by blast
      have run2: "request_gpio_irq K env gpio type cb arg s =
         (if ret < 0 then Some (- EIO, s0\<lparr>ir_kernel := k1\<rparr>) else if fd < 0 then Some (- EIO, s0\<lparr>ir_kernel := k2\<rparr>)
          else case rr of Inl e \<Rightarrow> Some (- EIO, s0\<lparr>ir_kernel := sy_close K fd k3\<rparr>) | Inr bs \<Rightarrow> Some (irq_register K env gpio cb arg fd (s0\<lparr>ir_kernel := k3\<rparr>)))"
        unfolding run using False True tr w(1) o rd by (simp add: s1 trigger_type_def)
      have io: "- EIO < 0" by (simp add: EIO_def)
      note op = kernel_fds(7) [OF assms o] sys_read_opened(1) [OF assms rd]
      consider "ret < 0" | "0 \<le> ret" "fd < 0" | e where "0 \<le> ret" "0 \<le> fd" "rr = Inl e" | bs where "0 \<le> ret" "0 \<le> fd" "rr = Inr bs" by (cases rr) force+
      then show ?thesis
      proof cases
        case 1
        then show ?thesis unfolding run2 using fails [OF io w(2)] by simp
      next
        case 2
        then show ?thesis unfolding run2 using fails [OF io, of k2] op(1) w(2) by simp
      next
        case 3
        have "opened (sy_close K fd k3) = opened (ir_kernel s)" using kernel_fds(4) [OF assms, of fd k3] op w(2) 3(2) by simp
        then show ?thesis unfolding run2 using fails [OF io] 3 by simp
      next
        case 4
        obtain r s' where r: "irq_register K env gpio cb arg fd (s0\<lparr>ir_kernel := k3\<rparr>) = (r, s')" by fastforce
        have "failed_request opened s r s' \<or> new_irq opened env gpio cb arg s r s'"
          by (rule irq_register_outcome [OF assms 4(2), of s k3 env gpio cb arg e r s']) (use op w(2) 4(2) r in \<open>simp_all add: norm\<close>)
        then show ?thesis unfolding run2 using 4 r by simp
      qed
    qed
  qed
qed

lemma find_irq_result:
  assumes "set as \<subseteq> dom m"
  shows "\<exists>r. find_irq m gpio as = Some r \<and> (\<forall>a. r = Some a \<longrightarrow> a \<in> set as \<and> (\<exists>g. m a = Some g \<and> gi_gpio g = gpio))"
  using assms by (induction as) auto

text \<open>A pin without an interrupt is refused; otherwise one interrupt goes.\<close>

lemma release_outcome:
  assumes "kernel_laws K opened" and "irqs_ok opened s"
  shows "\<exists>r s'. release_irq K closes gpio s = Some (r, s') \<and> (find_irq (ir_mem s) gpio (ir_head s) = Some None \<and> r = - EINVAL \<and> s' = s \<or> r = 0 \<and> (\<exists>a g k. find_irq (ir_mem s) gpio (ir_head s) = Some (Some a) \<and> ir_mem s a = Some g
     \<and> opened k = (if closes then opened (ir_kernel s) - {gi_fd g} else opened (ir_kernel s))
     \<and> s' = s\<lparr>ir_head := remove1 a (ir_head s), ir_watch := (ir_watch s)(gi_fd g := None), ir_kernel := k, ir_mem := (ir_mem s)(a := None)\<rparr>))"
proof -
  have "set (ir_head s) \<subseteq> dom (ir_mem s)" using assms(2) by (simp add: irqs_ok_def)
  from find_irq_result [OF this, of gpio] obtain r where r: "find_irq (ir_mem s) gpio (ir_head s) = Some r" "\<forall>a. r = Some a \<longrightarrow> (\<exists>g. ir_mem s a = Some g)"
    by blast
  show ?thesis
  proof (cases r)
    case None
    then show ?thesis using r(1) by (simp add: release_irq_def)
  next
    case (Some a)
    obtain g where g: "ir_mem s a = Some g" using r(2) Some by blast
    obtain ret k where w: "write_str K (lit ''none'') (gpio_path gpio (lit ''/edge'')) (ir_kernel s) = Some (ret, k)" "opened k = opened (ir_kernel s)"
      using write_str_runs [OF assms(1)] by blast
    have tr: "rd trigger_type GPIO_IRQ_NONE = Some (lit ''none'')" by (simp add: rd_def trigger_type_def GPIO_IRQ_NONE_def)
    define k' where "k' = (if closes then sy_close K (gi_fd g) k else k)"
    have "opened k' = (if closes then opened (ir_kernel s) - {gi_fd g} else opened (ir_kernel s))"
      using kernel_fds(4) [OF assms(1), of "gi_fd g" k] w(2) by (simp add: k'_def)
    moreover have "release_irq K closes gpio s = Some (0, s\<lparr>ir_head := remove1 a (ir_head s), ir_watch := (ir_watch s)(gi_fd g := None), ir_kernel := k', ir_mem := (ir_mem s)(a := None)\<rparr>)"
      using r(1) Some g w(1) tr by (simp add: release_irq_def k'_def)
    ultimately show ?thesis using r(1) Some g by blast
  qed
qed

lemma callback_outcome:
  assumes "kernel_laws K opened" and "ir_mem s a = Some g"
  shows "\<exists>r s' k cs. gpio_epoll_cb K pri a s = Some (r, s') \<and> opened k = opened (ir_kernel s) \<and> s' = s\<lparr>ir_kernel := k, ir_calls := cs\<rparr>"
proof (cases pri)
  case False
  then have "gpio_epoll_cb K pri a s = Some (0, s\<lparr>ir_kernel := ir_kernel s, ir_calls := ir_calls s\<rparr>)" using assms(2) by (cases s) (simp add: gpio_epoll_cb_def)
  then show ?thesis by blast
next
  case True
  obtain r k where rd: "sys_read K (gi_fd g) 7 (sy_rewind K (gi_fd g) (ir_kernel s)) = Some (r, k)" using kernel_fds(6) [OF assms(1)] by blast
  have k: "opened k = opened (ir_kernel s)" using sys_read_opened(1) [OF assms(1) rd] kernel_fds(3) [OF assms(1), of "gi_fd g" "ir_kernel s"] by simp
  show ?thesis
  proof (cases r)
    case (Inl e)
    then have "gpio_epoll_cb K pri a s = Some (- 1, s\<lparr>ir_kernel := k, ir_calls := ir_calls s\<rparr>)" using assms(2) rd True by (cases s) (simp add: gpio_epoll_cb_def)
    then show ?thesis using k by blast
  next
    case (Inr bs)
    then have l: "length bs \<le> 7" using sys_read_opened(2) [OF assms(1) rd] by blast
    obtain b b' where b: "mem_write (replicate 8 None) 0 (map Some bs) = Some b" "wrc b (length bs) 0 = Some b'"
      using l by (simp add: mem_write_def wrc_def wr_def)
    obtain v where "value_of b' = Some v" using value_of_total [OF _ b] l by auto
    then have "gpio_epoll_cb K pri a s = Some (0, s\<lparr>ir_kernel := k, ir_calls := ir_calls s @ [(gi_func g, gi_gpio g, gi_arg g, v)]\<rparr>)"
      using assms(2) rd True Inr b by (simp add: gpio_epoll_cb_def)
    then show ?thesis using k by blast
  qed
qed

lemma irq_reach_ok:
  assumes "kernel_laws K opened" and "irq_reach K s es"
  shows "irqs_ok opened s"
  using assms(2)
proof (induction rule: irq_reach.induct)
  case (start k)
  then show ?case by (simp add: irqs_ok_def)
next
  case (request s es env gpio type cb arg r s')
  from request_outcome [OF assms(1), of env gpio type cb arg s] request.hyps(3)
  consider "failed_request opened s r s'" | "new_irq opened env gpio cb arg s r s'" by auto
  then show ?case
  proof cases
    case 1
    then obtain k i e n where k: "opened k = opened (ir_kernel s)" "s' = s\<lparr>ir_kernel := k, ir_initialized := i, ir_epfd := e, ir_lost := n\<rparr>" unfolding failed_request_def by blast
    show ?thesis using irqs_ok_kernel [OF request.IH, of k "ir_calls s" n e i] k by (cases s) simp
  next
    case 2
    then obtain k e fd a where k: "re_gctx env = Some a" "fd \<notin> opened (ir_kernel s)" "opened k = insert fd (opened (ir_kernel s))"
      "s' = s\<lparr>ir_kernel := k, ir_initialized := True, ir_epfd := e, ir_mem := (ir_mem s)(a \<mapsto> \<lparr>gi_func = cb, gi_arg = arg, gi_gpio = gpio, gi_fd = fd\<rparr>),
              ir_watch := (ir_watch s)(fd \<mapsto> a), ir_head := a # ir_head s\<rparr>" unfolding new_irq_def by blast
    have "irqs_ok opened (s\<lparr>ir_kernel := k, ir_mem := (ir_mem s)(a \<mapsto> \<lparr>gi_func = cb, gi_arg = arg, gi_gpio = gpio, gi_fd = fd\<rparr>), ir_watch := (ir_watch s)(fd \<mapsto> a), ir_head := a # ir_head s\<rparr>)"
      by (rule irqs_ok_register [OF request.IH]) (use k request.hyps(2) in simp_all)
    then show ?thesis unfolding k(4) irqs_ok_def by simp
  qed
next
  case (free s es gpio r s')
  then show ?case using release_outcome [OF assms(1) free.IH, of True gpio] irqs_ok_release [OF free.IH] unfolding free_gpio_irq_def by fastforce
next
  case (handle s pri a es r s')
  obtain g where "ir_mem s a = Some g" using handle.hyps(2) by (cases "ir_mem s a") (auto simp: gpio_epoll_cb_def)
  from callback_outcome [OF assms(1) this, of pri] handle.hyps(2)
  obtain k cs where k: "opened k = opened (ir_kernel s)" "s' = s\<lparr>ir_kernel := k, ir_calls := cs\<rparr>" by auto
  show ?case using irqs_ok_kernel [OF handle.IH, of k cs "ir_lost s" "ir_epfd s" "ir_initialized s"] k by (cases s) simp
qed

section \<open>A kernel\<close>

text \<open>For the witnesses: pins that are always there and high; the state is the list of open descriptors.\<close>

definition high_pins :: "int list sysfs" where
  "high_pins = \<lparr>sy_access = (\<lambda>p m k. True), sy_open = (\<lambda>p w k. let fd = 1 + foldr max k 2 in (fd, fd # k)), sy_write = (\<lambda>fd bs k. (Inr (length bs), k)),
     sy_read = (\<lambda>fd n k. (Inr [49, 10], k)), sy_rewind = (\<lambda>fd k. k), sy_close = (\<lambda>fd k. removeAll fd k)\<rparr>"

lemma foldr_max_less: "fd \<in> set k \<Longrightarrow> fd < 1 + foldr max k (2 :: int)" "2 \<le> foldr max k (2 :: int)"
  by (induction k) auto

lemma high_pins_laws: "kernel_laws high_pins set"
proof -
  have "\<not> 1 + foldr max k 2 < (0 :: int)" and "1 + foldr max k 2 \<notin> set k" for k using foldr_max_less(1) [of "1 + foldr max k 2" k] foldr_max_less(2) [where k = k] by auto
  then show ?thesis unfolding kernel_laws_def by (auto simp: high_pins_def sys_write.simps sys_read.simps Let_def)
qed

definition no_irqs :: "int list gpio_irqs" where
  "no_irqs = \<lparr>ir_kernel = [], ir_initialized = False, ir_epfd = 0, ir_watch = (\<lambda>_. None), ir_mem = (\<lambda>_. None), ir_head = [], ir_lost = 0, ir_calls = []\<rparr>"

lemma no_irqs_ok: "irqs_ok set no_irqs" and no_irqs_reach: "irq_reach high_pins no_irqs []"
  by (simp add: irqs_ok_def no_irqs_def) (simp only: no_irqs_def irq_reach.start)

definition some_irq :: irq_env where
  "some_irq = \<lparr>re_epoll = 5, re_thread = 0, re_epctx = True, re_gctx = Some 40, re_add = True\<rparr>"

definition one_irq :: "int list gpio_irqs" where
  "one_irq = \<lparr>ir_kernel = [3], ir_initialized = True, ir_epfd = 5, ir_watch = [3 \<mapsto> 40], ir_mem = [40 \<mapsto> \<lparr>gi_func = 7, gi_arg = 8, gi_gpio = 25, gi_fd = 3\<rparr>],
     ir_head = [40], ir_lost = 0, ir_calls = []\<rparr>"

lemma one_irq: "request_gpio_irq high_pins some_irq 25 2 7 8 no_irqs = Some (0, one_irq)"
  by (simp add: request_gpio_irq_def irq_thread_start_def some_irq_def no_irqs_def high_pins_def is_gpio_ok_def trigger_type_def rd_def write_str_def sys_write.simps sys_read.simps
    irq_register_def one_irq_def Let_def)

lemma one_irq_reach: "irq_reach high_pins one_irq []"
  by (rule irq_reach.request [OF no_irqs_reach _ one_irq]) (simp add: no_irqs_def)

section \<open>Properties\<close>

text \<open>
  C24. The registry stays consistent however the client's thread and the event thread are interleaved:
  the list, the contexts in memory and the descriptors that \<open>epoll\<close> watches are the same interrupts. So
  every event of a watched descriptor can be handled.
\<close>

theorem irq_registry_consistent:
  assumes "kernel_laws K opened" and "irq_reach K s es"
  shows "irqs_ok opened s \<and> (\<forall>fd a pri. ir_watch s fd = Some a \<longrightarrow> (\<exists>r s'. gpio_epoll_cb K pri a s = Some (r, s')))"
proof -
  note ok = irq_reach_ok [OF assms]
  then have "\<exists>g. ir_mem s a = Some g" if "ir_watch s fd = Some a" for fd a using that unfolding irqs_ok_def by blast
  then show ?thesis using ok callback_outcome [OF assms(1)] by blast
qed

theorem irq_registry_consistent_witness: "irqs_ok set one_irq \<and> (\<exists>r s'. gpio_epoll_cb high_pins True 40 one_irq = Some (r, s'))"
  using irq_registry_consistent [OF high_pins_laws one_irq_reach] by (simp add: one_irq_def)

text \<open>
  Freeing an interrupt that was just requested takes back everything: the list, the interest list,
  the memory, and the descriptor. The copy of the module under \<open>hardware\<close> leaves the descriptor open.
\<close>

theorem irq_request_free:
  assumes "kernel_laws K opened" and "irqs_ok opened s" and "\<forall>a. re_gctx env = Some a \<longrightarrow> ir_mem s a = None"
    and "request_gpio_irq K env gpio type cb arg s = Some (0, s1)"
  shows "\<exists>s2 s3 fd. free_gpio_irq K gpio s1 = Some (0, s2) \<and> hw_free_gpio_irq K gpio s1 = Some (0, s3)
    \<and> ir_head s2 = ir_head s \<and> ir_watch s2 = ir_watch s \<and> ir_mem s2 = ir_mem s \<and> opened (ir_kernel s2) = opened (ir_kernel s)
    \<and> ir_head s3 = ir_head s \<and> fd \<notin> opened (ir_kernel s) \<and> opened (ir_kernel s3) = insert fd (opened (ir_kernel s))"
proof -
  have "new_irq opened env gpio cb arg s 0 s1" using request_outcome [OF assms(1), of env gpio type cb arg s] assms(4) by (auto simp: failed_request_def)
  then obtain k e fd a where k: "re_gctx env = Some a" "fd \<notin> opened (ir_kernel s)" "opened k = insert fd (opened (ir_kernel s))"
    "s1 = s\<lparr>ir_kernel := k, ir_initialized := True, ir_epfd := e, ir_mem := (ir_mem s)(a \<mapsto> \<lparr>gi_func = cb, gi_arg = arg, gi_gpio = gpio, gi_fd = fd\<rparr>),
            ir_watch := (ir_watch s)(fd \<mapsto> a), ir_head := a # ir_head s\<rparr>" unfolding new_irq_def by blast
  have m: "ir_mem s a = None" "ir_watch s fd = None" using assms(2,3) k(1,2) unfolding irqs_ok_def by (auto, metis option.exhaust)
  have ok: "irqs_ok opened s1"
    using irqs_ok_register [OF assms(2) m(1) k(2,3), of "\<lparr>gi_func = cb, gi_arg = arg, gi_gpio = gpio, gi_fd = fd\<rparr>"] unfolding k(4) irqs_ok_def by simp
  have f: "find_irq (ir_mem s1) gpio (ir_head s1) = Some (Some a)" by (simp add: k(4))
  have w: "(ir_watch s)(fd := None) = ir_watch s" "(ir_mem s)(a := None) = ir_mem s" using m by auto
  obtain s2 where "free_gpio_irq K gpio s1 = Some (0, s2)" "ir_head s2 = ir_head s" "ir_watch s2 = ir_watch s" "ir_mem s2 = ir_mem s" "opened (ir_kernel s2) = opened (ir_kernel s)"
    using release_outcome [OF assms(1) ok, of True gpio] f k(2,3) w by (auto simp: free_gpio_irq_def k(4) EINVAL_def)
  moreover obtain s3 where "hw_free_gpio_irq K gpio s1 = Some (0, s3)" "ir_head s3 = ir_head s" "opened (ir_kernel s3) = insert fd (opened (ir_kernel s))"
    using release_outcome [OF assms(1) ok, of False gpio] f k(2,3) w by (auto simp: hw_free_gpio_irq_def k(4) EINVAL_def)
  ultimately show ?thesis using k(2) by blast
qed

theorem irq_request_free_witness:
  "\<exists>s2 s3 fd. free_gpio_irq high_pins 25 one_irq = Some (0, s2) \<and> hw_free_gpio_irq high_pins 25 one_irq = Some (0, s3)
    \<and> ir_head s2 = ir_head no_irqs \<and> ir_watch s2 = ir_watch no_irqs \<and> ir_mem s2 = ir_mem no_irqs \<and> set (ir_kernel s2) = set (ir_kernel no_irqs)
    \<and> ir_head s3 = ir_head no_irqs \<and> fd \<notin> set (ir_kernel no_irqs) \<and> set (ir_kernel s3) = insert fd (set (ir_kernel no_irqs))"
  by (rule irq_request_free [OF high_pins_laws no_irqs_ok _ one_irq]) (simp add: no_irqs_def)

text \<open>
  An interrupt that is freed while the other thread holds an event of it is still called: the
  context is used after it was freed.
\<close>

theorem irq_freed_while_pending:
  assumes "kernel_laws K opened" and "irq_reach K s []" and "find_irq (ir_mem s) gpio (ir_head s) = Some (Some a)"
  shows "irq_reach K s [(pri, a)] \<and> (\<exists>s'. free_gpio_irq K gpio s = Some (0, s') \<and> irq_reach K s' [(pri, a)] \<and> gpio_epoll_cb K pri a s' = None)"
proof -
  note ok = irq_reach_ok [OF assms(1,2)]
  from release_outcome [OF assms(1) ok, of True gpio] assms(3)
  obtain s' g where s': "free_gpio_irq K gpio s = Some (0, s')" "ir_mem s a = Some g" "ir_mem s' a = None"
    by (auto simp: free_gpio_irq_def)
  have r: "irq_reach K s [(pri, a)]" by (rule irq_reach.wait [OF assms(2)]) (use ok s'(2) in \<open>auto simp: irqs_ok_def ran_def\<close>)
  have "gpio_epoll_cb K pri a s' = None" using s'(3) by (simp add: gpio_epoll_cb_def)
  then show ?thesis using r irq_reach.free [OF r s'(1)] s'(1) by blast
qed

theorem irq_freed_while_pending_witness:
  "irq_reach high_pins one_irq [(True, 40)] \<and> (\<exists>s'. free_gpio_irq high_pins 25 one_irq = Some (0, s') \<and> irq_reach high_pins s' [(True, 40)] \<and> gpio_epoll_cb high_pins True 40 s' = None)"
  by (rule irq_freed_while_pending [OF high_pins_laws one_irq_reach]) (simp add: one_irq_def)

lemma hw_free_outcome:
  assumes "kernel_laws K opened" and "irqs_ok opened s"
  shows "\<exists>r s'. hw_free_gpio_irq K gpio s = Some (r, s') \<and> irqs_ok opened s'"
proof -
  have hide: "irqs_ok opened (s\<lparr>ir_head := remove1 a (ir_head s), ir_watch := (ir_watch s)(gi_fd g := None), ir_kernel := k, ir_mem := (ir_mem s)(a := None)\<rparr>)"
    if m: "ir_mem s a = Some g" and k: "opened k = opened (ir_kernel s)" for a g k
  proof -
    have "gi_fd h \<noteq> gi_fd g" if "ir_mem s b = Some h" "b \<noteq> a" for b h using assms(2) m that unfolding irqs_ok_def by (metis option.inject)
    moreover have "f = gi_fd g" if "ir_watch s f = Some a" for f using assms(2) m that unfolding irqs_ok_def by fastforce
    ultimately show ?thesis using assms(2) m k unfolding irqs_ok_def by auto
  qed
  show ?thesis using release_outcome [OF assms, of False gpio] hide assms(2) unfolding hw_free_gpio_irq_def by fastforce
qed

text \<open>
  The copy's \<open>main\<close> frees its four pins and then reads a fifth from behind the array.
\<close>

theorem close_pins_reads_behind:
  assumes "kernel_laws K opened" and "irqs_ok opened s"
  shows "close_pins K 0 (replicate 5 115) s = None"
proof -
  have "i + n = 4 \<Longrightarrow> irqs_ok opened s \<Longrightarrow> close_pins K i (replicate (Suc n) 115) s = None" for i n s
  proof (induction n arbitrary: i s)
    case 0
    then have "i = 4" by simp
    then show ?case by (simp add: rd_def inpinlist_def)
  next
    case (Suc n)
    have "\<exists>p. rd inpinlist i = Some p" using Suc.prems(1) by (simp add: rd_def inpinlist_def)
    then obtain p where p: "rd inpinlist i = Some p" ..
    obtain r s' where s': "hw_free_gpio_irq K p s = Some (r, s')" "irqs_ok opened s'" using hw_free_outcome [OF assms(1) Suc.prems(2), of p] by auto
    have "close_pins K i (115 # replicate (Suc n) 115) s = close_pins K (i + 1) (replicate (Suc n) 115) s'"
      by (subst close_pins.simps) (use p s'(1) Suc.prems(1) in \<open>simp add: inpinlist_def\<close>)
    then show ?case using Suc.IH [OF _ s'(2), of "i + 1"] Suc.prems(1) by simp
  qed
  from this [of 0 4, OF _ assms(2)] show ?thesis by (simp only: eval_nat_numeral)
qed

theorem close_pins_reads_behind_witness: "close_pins high_pins 0 (replicate 5 115) one_irq = None"
  by (rule close_pins_reads_behind [OF high_pins_laws irq_reach_ok [OF high_pins_laws one_irq_reach]])

section \<open>Levels of pins\<close>

text \<open>A file that is opened, written with all of \<open>bs\<close> or read once, and closed; a write that fails.\<close>

definition writes :: "'k sysfs \<Rightarrow> byte list \<Rightarrow> byte list \<Rightarrow> 'k \<Rightarrow> 'k \<Rightarrow> bool" where
  "writes K path bs k k' \<longleftrightarrow> (\<exists>fd k1 k2. 0 \<le> fd \<and> sy_open K path True k = (fd, k1) \<and> sy_write K fd bs k1 = (Inr (length bs), k2) \<and> k' = sy_close K fd k2)"

definition write_fails :: "'k sysfs \<Rightarrow> byte list \<Rightarrow> byte list \<Rightarrow> int \<Rightarrow> 'k \<Rightarrow> 'k \<Rightarrow> bool" where
  "write_fails K path bs e k k' \<longleftrightarrow> (\<exists>fd k1 k2. 0 \<le> fd \<and> sy_open K path True k = (fd, k1) \<and> sy_write K fd bs k1 = (Inl e, k2) \<and> k' = sy_close K fd k2)"

definition reads :: "'k sysfs \<Rightarrow> byte list \<Rightarrow> byte list \<Rightarrow> 'k \<Rightarrow> 'k \<Rightarrow> bool" where
  "reads K path bs k k' \<longleftrightarrow> (\<exists>fd k1 k2. 0 \<le> fd \<and> sy_open K path False k = (fd, k1)
     \<and> (\<forall>n. length bs \<le> n \<longrightarrow> sy_read K fd n k1 = (Inr bs, k2)) \<and> k' = sy_close K fd k2)"

text \<open>
  What the kernel's documentation of the GPIO files (\<open>Documentation/gpio/sysfs\<close>) says of one pin, and
  nothing else: it is an assumption on the driver, not code. \<open>exported\<close> tells whether the pin is exported,
  \<open>level\<close> is its level where it is an output. A pin that is not exported has no directory, and
  writing its number to \<open>export\<close> exports it; of an exported pin the same write fails with \<open>EBUSY\<close>.
  An exported pin has its directory and the files \<open>direction\<close> and \<open>value\<close>, and \<open>edge\<close> exactly
  if it can interrupt. Writing \<open>out\<close> to \<open>direction\<close> makes it an output that is low, writing \<open>0\<close>
  or \<open>1\<close> to the \<open>value\<close> of an output sets its level, and reading the \<open>value\<close> of an output gives the
  level as a digit and a newline. Nothing is said of the level of an input, of the direction a pin has
  when it is exported, or of other pins.
\<close>

definition pin_file :: "int \<Rightarrow> byte list \<Rightarrow> byte list" where
  "pin_file g leaf = lit ''/sys/class/gpio/gpio'' @ fmt_int g @ leaf"

definition documented_pin :: "'k sysfs \<Rightarrow> int \<Rightarrow> bool \<Rightarrow> ('k \<Rightarrow> bool) \<Rightarrow> ('k \<Rightarrow> bool option) \<Rightarrow> bool" where
  "documented_pin K g irq exported level \<longleftrightarrow>
     (\<forall>k m. \<not> exported k \<longrightarrow> \<not> sy_access K (pin_file g []) m k)
     \<and> (\<forall>k. \<not> exported k \<longrightarrow> (\<exists>k'. writes K (lit ''/sys/class/gpio/export'') (fmt_int g) k k' \<and> exported k'))
     \<and> (\<forall>k. exported k \<longrightarrow> (\<exists>k'. write_fails K (lit ''/sys/class/gpio/export'') (fmt_int g) EBUSY k k' \<and> exported k' \<and> level k' = level k))
     \<and> (\<forall>k m. exported k \<longrightarrow> sy_access K (pin_file g []) m k \<and> sy_access K (pin_file g (lit ''/direction'')) m k
          \<and> sy_access K (pin_file g (lit ''/value'')) m k \<and> (sy_access K (pin_file g (lit ''/edge'')) m k \<longleftrightarrow> irq))
     \<and> (\<forall>k. exported k \<longrightarrow> (\<exists>k'. writes K (pin_file g (lit ''/direction'')) (lit ''out'') k k' \<and> exported k' \<and> level k' = Some False))
     \<and> (\<forall>k. exported k \<and> level k \<noteq> None \<longrightarrow>
          (\<exists>k'. writes K (pin_file g (lit ''/value'')) (lit ''0'') k k' \<and> exported k' \<and> level k' = Some False)
          \<and> (\<exists>k'. writes K (pin_file g (lit ''/value'')) (lit ''1'') k k' \<and> exported k' \<and> level k' = Some True))
     \<and> (\<forall>k l. exported k \<and> level k = Some l \<longrightarrow>
          (\<exists>k'. reads K (pin_file g (lit ''/value'')) [if l then 49 else 48, 10] k k' \<and> exported k' \<and> level k' = level k))"

lemma documented_pinD:
  assumes "documented_pin K g irq exported level"
  shows "\<not> exported k \<Longrightarrow> \<not> sy_access K (pin_file g []) m k"
    and "\<not> exported k \<Longrightarrow> \<exists>k'. writes K (lit ''/sys/class/gpio/export'') (fmt_int g) k k' \<and> exported k'"
    and "exported k \<Longrightarrow> \<exists>k'. write_fails K (lit ''/sys/class/gpio/export'') (fmt_int g) EBUSY k k' \<and> exported k' \<and> level k' = level k"
    and "exported k \<Longrightarrow> sy_access K (pin_file g []) m k \<and> sy_access K (pin_file g (lit ''/direction'')) m k
          \<and> sy_access K (pin_file g (lit ''/value'')) m k \<and> (sy_access K (pin_file g (lit ''/edge'')) m k \<longleftrightarrow> irq)"
    and "exported k \<Longrightarrow> \<exists>k'. writes K (pin_file g (lit ''/direction'')) (lit ''out'') k k' \<and> exported k' \<and> level k' = Some False"
    and "exported k \<Longrightarrow> level k = Some l \<Longrightarrow> \<exists>k'. writes K (pin_file g (lit ''/value'')) (lit ''0'') k k' \<and> exported k' \<and> level k' = Some False"
    and "exported k \<Longrightarrow> level k = Some l \<Longrightarrow> \<exists>k'. writes K (pin_file g (lit ''/value'')) (lit ''1'') k k' \<and> exported k' \<and> level k' = Some True"
    and "exported k \<Longrightarrow> level k = Some l \<Longrightarrow> \<exists>k'. reads K (pin_file g (lit ''/value'')) [if l then 49 else 48, 10] k k' \<and> exported k' \<and> level k' = level k"
  using assms unfolding documented_pin_def by (elim conjE; simp)+

text \<open>The buffers of the code hold the names of all pins.\<close>

lemma length_dec: "v < 10 ^ n \<Longrightarrow> 0 < n \<Longrightarrow> length (dec v) \<le> n"
proof (induction n arbitrary: v)
  case (Suc n)
  show ?case
  proof (cases "v < 10")
    case False
    then have "0 < n" using Suc.prems(1) by (cases n) auto
    moreover have "v div 10 < 10 ^ n" using Suc.prems(1) by (simp add: div_less_iff_less_mult mult.commute)
    ultimately have "length (dec (v div 10)) \<le> n" by (rule Suc.IH [rotated])
    then show ?thesis using False by (subst dec.simps) simp
  qed (subst dec.simps, simp)
qed simp

lemma length_fmt_int: "0 \<le> g \<Longrightarrow> g < 2 ^ 31 \<Longrightarrow> length (fmt_int g) \<le> 10"
  using length_dec [of "nat g" 10] by (simp add: fmt_int_def)

lemma gpio_path_file:
  assumes "0 \<le> g" and "g < 2 ^ 31" and "length leaf \<le> 10"
  shows "gpio_path g leaf = pin_file g leaf"
  using length_fmt_int [OF assms(1,2)] assms(3) by (simp add: gpio_path_def pin_file_def lit_def)

lemma write_str_writes: "writes K path bs k k' \<Longrightarrow> write_str K bs path k = Some (0, k')"
  by (auto simp: writes_def write_str_def sys_write.simps)

lemma write_str_fails: "write_fails K path bs e k k' \<Longrightarrow> e \<noteq> EINTR \<Longrightarrow> write_str K bs path k = Some (- 1, k')"
  by (auto simp: write_fails_def write_str_def sys_write.simps)

lemma get_value_reads:
  assumes "reads K (gpio_path g (lit ''/value'')) [if v then 49 else 48, 10] k k'"
  shows "gpio_get_value K g k = Some (if v then 1 else 0, k')"
proof -
  have d: "dec 1 = [49]" "dec 0 = [48]" by (subst dec.simps, simp)+
  have "text_at (rdc (Some 49 # Some 10 # buf)) 0 (dec 1 @ [10])" "text_at (rdc (Some 48 # Some 10 # buf)) 0 (dec 0 @ [10])" for buf
    unfolding d by (simp_all add: rdc_def rd_def)
  then have "value_of (Some 49 # Some 10 # buf) = Some 1" "value_of (Some 48 # Some 10 # buf) = Some 0" for buf
    using c_strtoll_dec [of _ 0 False 1 10] c_strtoll_dec [of _ 0 False 0 10] by (simp_all add: value_of_def isdigit_def tolower_def)
  then show ?thesis using assms by (cases v) (auto simp: reads_def gpio_get_value_def read_str_def sys_read.simps mem_write_def blit_def wrc_def wr_def eval_nat_numeral)
qed

text \<open>
  C38. On a pin whose files behave as the kernel documents them, and that can interrupt: requested as an
  output, exported before or not, it is an output that is low; the level that is set then is the level that is read
  back, and the same holds for \<open>gpio_direction_output\<close>, which sets direction and level. A pin that
  cannot interrupt has no file \<open>edge\<close>; the request of such a pin fails, also as an output.
\<close>

theorem gpio_output_reads_back:
  assumes "0 \<le> g" and "g < 2 ^ 31" and "documented_pin K g irq exported level"
  shows "(irq \<longrightarrow> (\<exists>k1 k2 k3 k4 k5. request_gpio K g GPIO_DIRECTION_OUT k = Some (0, k1) \<and> level k1 = Some False
      \<and> gpio_set_value K g v k1 = Some (0, k2) \<and> level k2 = Some (v \<noteq> 0) \<and> gpio_get_value K g k2 = Some (if v \<noteq> 0 then 1 else 0, k3)
      \<and> gpio_direction_output K g v k1 = Some (0, k4) \<and> level k4 = Some (v \<noteq> 0) \<and> gpio_get_value K g k4 = Some (if v \<noteq> 0 then 1 else 0, k5)))
    \<and> (\<not> irq \<longrightarrow> (\<exists>k1. request_gpio K g GPIO_DIRECTION_OUT k = Some (- 1, k1)))"
proof -
  note doc = documented_pinD [OF assms(3)]
  have ps: "gpio_path g [] = pin_file g []" "gpio_path g (lit ''/direction'') = pin_file g (lit ''/direction'')"
    "gpio_path g (lit ''/value'') = pin_file g (lit ''/value'')" "gpio_path g (lit ''/edge'') = pin_file g (lit ''/edge'')"
    using gpio_path_file [OF assms(1,2)] by (simp_all add: lit_def)
  have num: "take 15 (fmt_int g) = fmt_int g" using length_fmt_int [OF assms(1,2)] by simp
  have ok: "is_gpio_ok K g k \<longleftrightarrow> exported k \<and> irq" for k
    using doc(1) [of k] doc(4) [of k] unfolding is_gpio_ok_def ps by blast
  have busy: "EBUSY \<noteq> EINTR" by (simp add: EBUSY_def EINTR_def)
  have to_level: "\<exists>k'. write_str K (if v \<noteq> 0 then lit ''1'' else lit ''0'') (gpio_path g (lit ''/value'')) k = Some (0, k') \<and> exported k' \<and> level k' = Some (v \<noteq> 0)"
    if ex: "exported k" "level k = Some l" for k l
  proof -
    obtain k' where w: "writes K (pin_file g (lit ''/value'')) (if v \<noteq> 0 then lit ''1'' else lit ''0'') k k'" "exported k'" "level k' = Some (v \<noteq> 0)"
    proof (cases "v = 0")
      case True
      then have e: "(v \<noteq> 0) = False" by simp
      show thesis using doc(6) [OF ex] by (elim exE conjE, intro that) (simp_all only: e if_False)
    next
      case False
      then have e: "(v \<noteq> 0) = True" by simp
      show thesis using doc(7) [OF ex] by (elim exE conjE, intro that) (simp_all only: e if_True)
    qed
    show ?thesis unfolding ps by (rule exI [where x = k'], intro conjI write_str_writes w)
  qed
  have to_out: "\<exists>k'. write_str K (lit ''out'') (gpio_path g (lit ''/direction'')) k = Some (0, k') \<and> exported k' \<and> level k' = Some False"
    if "exported k" for k
    using doc(5) [OF that] unfolding ps by (elim exE conjE, intro exI conjI write_str_writes)
  have digit: "\<exists>k'. gpio_get_value K g k = Some (if l then 1 else 0, k')" if "exported k" "level k = Some l" for k l
    using doc(8) [OF that] by (elim exE conjE, intro exI get_value_reads) (simp only: ps)
  obtain ret k0 where out: "if exported k then ret = - 1 \<and> exported k0 else ret = 0 \<and> exported k0"
    "write_str K (fmt_int g) (lit ''/sys/class/gpio/export'') k = Some (ret, k0)"
  proof (cases "exported k")
    case True
    obtain k0 where w: "write_fails K (lit ''/sys/class/gpio/export'') (fmt_int g) EBUSY k k0" and e0: "exported k0"
      using doc(3) [OF True] by (elim exE conjE)
    show thesis by (rule that [OF _ write_str_fails [OF w busy]]) (simp add: True e0)
  next
    case False
    obtain k0 where w: "writes K (lit ''/sys/class/gpio/export'') (fmt_int g) k k0" and e0: "exported k0"
      using doc(2) [OF False] by (elim exE conjE)
    show thesis by (rule that [OF _ write_str_writes [OF w]]) (simp add: False e0)
  qed
  show ?thesis
  proof (cases irq)
    case False
    then have "request_gpio K g GPIO_DIRECTION_OUT k = Some (- 1, k0)"
      using out(2) ok by (simp add: request_gpio_def num)
    then show ?thesis using False by blast
  next
    case True
    let ?k = "if exported k then k else k0"
    have e: "exported ?k" using out(1) by (simp split: if_splits)
    have "request_gpio K g GPIO_DIRECTION_OUT k = write_str K (lit ''out'') (gpio_path g (lit ''/direction'')) ?k"
      using True out ok by (simp add: request_gpio_def num GPIO_DIRECTION_OUT_def)
    then obtain k1 where k1: "request_gpio K g GPIO_DIRECTION_OUT k = Some (0, k1)" "exported k1" "level k1 = Some False"
      using to_out [OF e] by auto
    obtain k2 where k2: "gpio_set_value K g v k1 = Some (0, k2)" "exported k2" "level k2 = Some (v \<noteq> 0)"
      using to_level [OF k1(2,3)] unfolding gpio_set_value_def by blast
    obtain k3 where k3: "gpio_get_value K g k2 = Some (if v \<noteq> 0 then 1 else 0, k3)" using digit [OF k2(2,3)] by blast
    obtain ka where ka: "write_str K (lit ''out'') (gpio_path g (lit ''/direction'')) k1 = Some (0, ka)" "exported ka" "level ka = Some False"
      using to_out [OF k1(2)] by blast
    obtain k4 where k4: "gpio_direction_output K g v k1 = Some (0, k4)" "exported k4" "level k4 = Some (v \<noteq> 0)"
      using to_level [OF ka(2,3)] ka(1) by (auto simp: gpio_direction_output_def)
    obtain k5 where "gpio_get_value K g k4 = Some (if v \<noteq> 0 then 1 else 0, k5)" using digit [OF k4(2,3)] by blast
    then show ?thesis using True k1 k2 k3 k4 by blast
  qed
qed

text \<open>
  A chip with one pin, number 6, that can interrupt. The state is the pin (whether it is an output, and its level; an
  exported pin starts as an input, which is high here) and the file that is open.
\<close>

definition one_pin :: "((bool \<times> bool) option \<times> byte list) sysfs" where
  "one_pin = \<lparr>sy_access = (\<lambda>p m k. fst k \<noteq> None), sy_open = (\<lambda>p w k. (3, (fst k, p))),
     sy_write = (\<lambda>fd bs k.
        if snd k = lit ''/sys/class/gpio/export'' then
          (if fst k = None then (Inr (length bs), (Some (False, True), [])) else (Inl EBUSY, (fst k, [])))
        else (Inr (length bs), (map_option (\<lambda>(d, v). if snd k = pin_file 6 (lit ''/direction'') then (bs = lit ''out'', False) else (d, bs = lit ''1'')) (fst k), []))),
     sy_read = (\<lambda>fd n k. (Inr (case fst k of Some (d, True) \<Rightarrow> [49, 10] | _ \<Rightarrow> [48, 10]), k)), sy_rewind = (\<lambda>fd k. k), sy_close = (\<lambda>fd k. k)\<rparr>"

definition pin_6 :: "(bool \<times> bool) option \<times> byte list \<Rightarrow> bool option" where
  "pin_6 k = (case fst k of Some (True, l) \<Rightarrow> Some l | _ \<Rightarrow> None)"

lemma paths_6: "pin_file 6 (lit ''/value'') \<noteq> pin_file 6 (lit ''/direction'')" "pin_file 6 leaf \<noteq> lit ''/sys/class/gpio/export''"
  "lit ''0'' \<noteq> lit ''1''" "lit ''0'' \<noteq> lit ''out''" "lit ''1'' \<noteq> lit ''out''"
  by (simp_all add: pin_file_def lit_def fmt_int_def dec.simps [of 6])

lemma one_pin_files:
  "writes one_pin path bs k k' \<longleftrightarrow> sy_write one_pin 3 bs (fst k, path) = (Inr (length bs), k')"
  "write_fails one_pin path bs e k k' \<longleftrightarrow> sy_write one_pin 3 bs (fst k, path) = (Inl e, k')"
  "reads one_pin path bs k k' \<longleftrightarrow> bs = (case fst k of Some (d, True) \<Rightarrow> [49, 10] | _ \<Rightarrow> [48, 10]) \<and> k' = (fst k, path)"
  by (auto simp: writes_def write_fails_def reads_def one_pin_def)

lemma one_pin_write:
  "sy_write one_pin 3 bs (p, path) =
     (if path = lit ''/sys/class/gpio/export'' then (if p = None then (Inr (length bs), (Some (False, True), [])) else (Inl EBUSY, (p, [])))
      else (Inr (length bs), (map_option (\<lambda>(d, v). if path = pin_file 6 (lit ''/direction'') then (bs = lit ''out'', False) else (d, bs = lit ''1'')) p, [])))"
  by (simp add: one_pin_def)

lemma one_pin_documented: "documented_pin one_pin 6 True (\<lambda>k. fst k \<noteq> None) pin_6"
proof -
  have acc: "sy_access one_pin p m k \<longleftrightarrow> fst k \<noteq> None" for p m k by (simp add: one_pin_def)
  have lev: "pin_6 k = Some l \<longleftrightarrow> fst k = Some (True, l)" for k l by (auto simp: pin_6_def split: option.splits bool.splits)
  show ?thesis unfolding documented_pin_def one_pin_files one_pin_write acc
    by (auto simp: paths_6 pin_6_def split: option.splits bool.splits)
qed

theorem gpio_output_reads_back_witness:
  "\<exists>k1 k2 k3. request_gpio one_pin 6 GPIO_DIRECTION_OUT (None, []) = Some (0, k1) \<and> pin_6 k1 = Some False
    \<and> gpio_set_value one_pin 6 1 k1 = Some (0, k2) \<and> pin_6 k2 = Some True \<and> gpio_get_value one_pin 6 k2 = Some (1, k3)"
proof -
  have "(0 :: int) \<le> 6" "(6 :: int) < 2 ^ 31" "(1 :: int) \<noteq> 0" by simp_all
  from gpio_output_reads_back [OF this(1,2) one_pin_documented, of "(None, [])" 1, THEN conjunct1] this(3) show ?thesis
    by simp blast
qed

end
