(* ===== verification/Hwreg.thy ===== *)
theory Hwreg
  imports CLib
begin

text \<open>
  \<open>src/src/hardware/hwreg.c\<close>: reads and writes registers through \<open>/dev/mem\<close>. The registers are an
  argument, a record of reading and writing a physical address over a state of its own. What is printed
  is a value. The mapping is \<open>map_len\<close> bytes from the page \<open>pfn\<close>; an access behind it is \<open>None\<close>.
\<close>

record 'd regs =
  rg_read :: "nat \<Rightarrow> 'd \<Rightarrow> u32 \<times> 'd"
  rg_write :: "nat \<Rightarrow> u32 \<Rightarrow> 'd \<Rightarrow> 'd"

definition PAGE_SIZE :: u32 where "PAGE_SIZE = 0x1000"

datatype reg_cmd = Reg_usage | Reg_read u32 u32 | Reg_write u32 u32

text \<open>The arguments behind the program's name, without their terminators.\<close>

definition read_size :: "byte list list \<Rightarrow> u32 option" where
  "read_size as = do {
     sz \<leftarrow> (case as of [] \<Rightarrow> Some 0 | b # bs \<Rightarrow> do { (v, e) \<leftarrow> c_strtoull (rd (b @ [0])) 0; Some (ucast v) });
     Some (if sz < 4 then 4 else (sz + 3) AND NOT 3) }"

fun reg_args :: "byte list list \<Rightarrow> reg_cmd option" where
  "reg_args [] = Some Reg_usage"
| "reg_args (a # as) = do {
     (v, e) \<leftarrow> c_strtoull (rd (a @ [0])) 0;
     c \<leftarrow> rd (a @ [0]) e;
     if c \<noteq> 61 then do { sz \<leftarrow> read_size as; Some (Reg_read (ucast v) sz) }
     else do {
       c \<leftarrow> rd (a @ [0]) (e + 1);
       if c = 0 then Some Reg_usage
       else do { (w, e) \<leftarrow> c_strtoull (rd (a @ [0])) (e + 1); Some (Reg_write (ucast v) (ucast w)) } } }"

definition page_of :: "u32 \<Rightarrow> u32" where "page_of offset = offset AND NOT (PAGE_SIZE - 1)"
definition map_len :: "u32 \<Rightarrow> u32" where "map_len sz = (sz + PAGE_SIZE * 2) AND NOT (PAGE_SIZE - 1)"

datatype reg_out = Usage | Row u32 | Item u32 | Result u32 u32

text \<open>The access to the word at \<open>k\<close> bytes into the mapping of \<open>len\<close> bytes.\<close>

definition reg_get :: "'d regs \<Rightarrow> u32 \<Rightarrow> u32 \<Rightarrow> nat \<Rightarrow> 'd \<Rightarrow> (u32 \<times> 'd) option" where
  "reg_get R page len k d = (if k + 4 \<le> unat len then Some (rg_read R (unat page + k) d) else None)"

definition reg_put :: "'d regs \<Rightarrow> u32 \<Rightarrow> u32 \<Rightarrow> nat \<Rightarrow> u32 \<Rightarrow> 'd \<Rightarrow> 'd option" where
  "reg_put R page len k v d = (if k + 4 \<le> unat len then Some (rg_write R (unat page + k) v d) else None)"

definition print_word :: "'d regs \<Rightarrow> u32 \<Rightarrow> u32 \<Rightarrow> u32 \<Rightarrow> nat \<Rightarrow> reg_out list \<times> 'd \<Rightarrow> (reg_out list \<times> 'd) option" where
  "print_word R page len off i s = do {
     (v, d) \<leftarrow> reg_get R page len (unat off + i * 4) (snd s);
     Some (fst s @ (if i mod 4 = 0 then [Row (page + off + of_nat i * 4)] else []) @ [Item v], d) }"

definition hwreg :: "'d regs \<Rightarrow> bool \<Rightarrow> byte list list \<Rightarrow> 'd \<Rightarrow> (reg_out list \<times> 'd) option" where
  "hwreg R mapped args d = do {
     cmd \<leftarrow> reg_args args;
     case cmd of
       Reg_usage \<Rightarrow> Some ([Usage], d)
     | Reg_read offset sz \<Rightarrow>
         if \<not> mapped \<or> map_len sz = 0 then Some ([Usage], d)
         else for_range 0 (unat (sz div 4)) (print_word R (page_of offset) (map_len sz) (offset AND (PAGE_SIZE - 1))) ([], d)
     | Reg_write offset v \<Rightarrow>
         if \<not> mapped then Some ([Usage], d)
         else do {
           let off = offset AND (PAGE_SIZE - 1);
           d \<leftarrow> reg_put R (page_of offset) (map_len 0) (unat off) v d;
           (r, d) \<leftarrow> reg_get R (page_of offset) (map_len 0) (unat off) d;
           Some ([Result (page_of offset + off) r], d) } }"

section \<open>Lemmas\<close>

lemma for_range_None: "a \<le> i \<Longrightarrow> i < b \<Longrightarrow> (\<And>s. f i s = None) \<Longrightarrow> for_range a b f s = None"
proof (induction "i - a" arbitrary: a s)
  case 0
  then show ?case by (simp add: for_range_step)
next
  case (Suc n)
  then have "for_range (Suc a) b f s' = None" for s' by simp
  then show ?case using Suc by (cases "f a s") (simp_all add: for_range_step)
qed

lemma u32_less: "unat (w :: u32) < 2 ^ 32" using unsigned_less [of w, where ?'a = nat] by simp

lemma page_mask: "PAGE_SIZE - 1 = mask 12" by (simp add: PAGE_SIZE_def mask_eq_exp_minus_1)

lemma unat_page: "unat (w AND NOT (PAGE_SIZE - 1)) = unat w div 4096 * 4096"
proof -
  have "w AND NOT (PAGE_SIZE - 1) = push_bit 12 (drop_bit 12 w)" by (rule bit_word_eqI) (auto simp: bit_simps page_mask)
  moreover have "unat w div 4096 * 4096 < 2 ^ 32" using u32_less [of w] div_times_less_eq_dividend [of "unat w" 4096] by linarith
  moreover have "unat (push_bit 12 (drop_bit 12 w)) = take_bit 32 (push_bit 12 (drop_bit 12 (unat w)))" by (simp only: unsigned_push_bit_eq unsigned_drop_bit_eq) (simp add: take_bit_nat_eq_self [OF u32_less])
  ultimately show ?thesis by (simp add: push_bit_eq_mult drop_bit_eq_div take_bit_eq_mod)
qed

lemma unat_offset: "unat (w AND (PAGE_SIZE - 1)) = unat w mod 4096"
proof -
  have "w AND (PAGE_SIZE - 1) = take_bit 12 w" by (simp only: take_bit_eq_mask page_mask)
  then have "unat (w AND (PAGE_SIZE - 1)) = take_bit 12 (unat w)" by (simp only: unsigned_take_bit_eq)
  then show ?thesis by (simp add: take_bit_eq_mod)
qed

lemma page_plus_offset: "page_of w + (w AND (PAGE_SIZE - 1)) = w"
  unfolding page_of_def
  using u32_less [of w] by (simp add: unat_page unat_offset word_unat_eq_iff unat_word_ariths)

lemma map_len_covers:
  assumes "unat sz \<le> 2 ^ 32 - 0x2001"
  shows "unat sz + 0x1000 < unat (map_len sz)"
proof -
  have "unat (sz + PAGE_SIZE * 2) = unat sz + 0x2000" using assms by (simp add: PAGE_SIZE_def unat_word_ariths)
  then show ?thesis unfolding map_len_def unat_page by linarith
qed

lemma map_len_short:
  assumes "2 ^ 32 - 0x2000 \<le> unat sz"
  shows "unat (map_len sz) \<le> 0x1000"
proof -
  have "unat sz < 2 ^ 32" by (rule u32_less)
  then have "unat (sz + PAGE_SIZE * 2) = unat sz + 0x2000 - 2 ^ 32" using assms by (simp add: PAGE_SIZE_def unat_word_ariths mod_if)
  then show ?thesis unfolding map_len_def unat_page using \<open>unat sz < 2 ^ 32\<close> by simp
qed

lemma strtoull_dec_word: "v < 2 ^ 32 \<Longrightarrow> ucast (of_nat v :: ulong) = (of_nat v :: u32)"
  by (simp add: word_unat_eq_iff unsigned_ucast_eq unsigned_of_nat take_bit_nat_eq_self)

lemma reg_args_read:
  assumes "v < 2 ^ 32" and "n < 2 ^ 32"
  shows "reg_args [dec v, dec n] = Some (Reg_read (of_nat v) (if (of_nat n :: u32) < 4 then 4 else (of_nat n + 3) AND NOT 3))"
proof -
  have n: "\<not> isdigit 0" "tolower 0 \<noteq> 120" by (simp_all add: isdigit_def tolower_def)
  have s: "c_strtoull (rd (dec m @ [0])) 0 = Some (of_nat m, length (dec m))" if "m < 2 ^ 32" for m
    using c_strtoull_dec [OF _ n, of "rd (dec m @ [0])" 0 m] text_at_rd [of "[]" "dec m @ [0]" "[]"] that by simp
  show ?thesis using s [OF assms(1)] s [OF assms(2)] assms by (simp add: read_size_def rd_def strtoull_dec_word)
qed

lemma reg_args_write:
  assumes "v < 2 ^ 32" and "w < 2 ^ 32"
  shows "reg_args [dec v @ 61 # dec w] = Some (Reg_write (of_nat v) (of_nat w))"
proof -
  let ?g = "rd (dec v @ 61 # dec w @ [0])"
  have n: "\<not> isdigit 0" "tolower 0 \<noteq> 120" "\<not> isdigit 61" "tolower 61 \<noteq> 120" by (simp_all add: isdigit_def tolower_def)
  have s: "c_strtoull ?g 0 = Some (of_nat v, length (dec v))"
    using c_strtoull_dec [OF _ n(3,4), of ?g 0 v] text_at_rd [of "[]" "dec v @ [61]" "dec w @ [0]"] assms(1) by simp
  have t: "c_strtoull ?g (length (dec v) + 1) = Some (of_nat w, length (dec v) + 1 + length (dec w))"
    using c_strtoull_dec [OF _ n(1,2), of ?g "length (dec v) + 1" w] text_at_rd [of "dec v @ [61]" "dec w @ [0]" "[]"] assms(2) by simp
  obtain c cs where c: "dec w = c # cs" "isdigit c" using dec_facts [of w] by (cases "dec w") auto
  then have "?g (length (dec v)) = Some 61" "?g (length (dec v) + 1) = Some c" "c \<noteq> 0" by (auto simp: rd_def nth_append isdigit_def)
  then show ?thesis using s t assms by (simp add: strtoull_dec_word)
qed

section \<open>Properties\<close>

text \<open>The lines for the words from an address on, four to a row.\<close>

definition dump_words :: "(nat \<Rightarrow> u32) \<Rightarrow> u32 \<Rightarrow> nat \<Rightarrow> reg_out list" where
  "dump_words f offset n = concat (map (\<lambda>i. (if i mod 4 = 0 then [Row (offset + of_nat i * 4)] else []) @ [Item (f (unat offset + i * 4))]) [0..<n])"

text \<open>
  C39. Reading prints the words from the offset on, for every size that leaves room for two pages in 32
  bits: the mapping covers every access. A size above that makes the length of the mapping wrap around,
  and the reads run out of it or nothing is mapped.
\<close>

theorem hwreg_reads:
  assumes "reg_args args = Some (Reg_read offset sz)" and "\<And>a. rg_read R a d = (f a, d)"
  shows "if unat sz \<le> 2 ^ 32 - 0x2001 then hwreg R True args d = Some (dump_words f offset (unat sz div 4), d)
    else hwreg R True args d \<in> {None, Some ([Usage], d)}"
proof (cases "unat sz \<le> 2 ^ 32 - 0x2001")
  case True
  let ?off = "offset AND (PAGE_SIZE - 1)"
  have off: "unat ?off < 0x1000" and addr: "unat (page_of offset) + unat ?off = unat offset"
    unfolding unat_offset page_of_def unat_page by simp_all
  note len = map_len_covers [OF True]
  have n: "unat (sz div 4) = unat sz div 4" by (simp add: unat_div)
  have "\<exists>s'. for_range 0 (unat sz div 4) (print_word R (page_of offset) (map_len sz) ?off) ([], d) = Some s' \<and> s' = (dump_words f offset (unat sz div 4), d)"
  proof (rule for_range_rule)
    fix k s assume k: "k < unat sz div 4" "s = (dump_words f offset k, d)"
    have "k * 4 + 4 \<le> unat sz" using k(1) by linarith
    then have "unat ?off + k * 4 + 4 \<le> unat (map_len sz)" using len off by linarith
    then show "\<exists>s'. print_word R (page_of offset) (map_len sz) ?off k s = Some s' \<and> s' = (dump_words f offset (Suc k), d)"
      using k(2) assms(2) addr page_plus_offset [of offset] by (simp add: print_word_def reg_get_def dump_words_def add.assoc [symmetric])
  qed (simp_all add: dump_words_def)
  moreover have "map_len sz \<noteq> 0" using len by force
  ultimately show ?thesis using True assms(1) n by (simp add: hwreg_def)
next
  case False
  then have len: "unat (map_len sz) \<le> 0x1000" using map_len_short by simp
  have n: "unat (sz div 4) = unat sz div 4" by (simp add: unat_div)
  have "for_range 0 (unat sz div 4) (print_word R (page_of offset) (map_len sz) (offset AND (PAGE_SIZE - 1))) s = None" for s
    by (rule for_range_None [where i = 1024]) (use False len in \<open>simp_all add: print_word_def reg_get_def\<close>)
  then show ?thesis using False assms(1) n by (simp add: hwreg_def)
qed

text \<open>A register file that keeps what is written.\<close>

definition plain_regs :: "(nat \<Rightarrow> u32) regs" where
  "plain_regs = \<lparr>rg_read = (\<lambda>a d. (d a, d)), rg_write = (\<lambda>a v d. d(a := v))\<rparr>"

theorem hwreg_reads_witness:
  "if unat (8 :: u32) \<le> 2 ^ 32 - 0x2001 then hwreg plain_regs True [dec 4100, dec 8] (\<lambda>a. 7) = Some (dump_words (\<lambda>a. 7) 4100 (unat (8 :: u32) div 4), \<lambda>a. 7)
    else hwreg plain_regs True [dec 4100, dec 8] (\<lambda>a. 7) \<in> {None, Some ([Usage], \<lambda>a. 7)}"
proof (rule hwreg_reads)
  have "(11 :: u32) AND NOT 3 = 8" by code_simp
  then show "reg_args [dec 4100, dec 8] = Some (Reg_read 4100 8)" using reg_args_read [of 4100 8] by simp
qed (simp add: plain_regs_def)

text \<open>
  Writing \<open>offset=value\<close> stores the value at the offset, whatever its place in its page, and prints
  what the register then holds.
\<close>

theorem hwreg_writes:
  assumes "v < 2 ^ 32" and "w < 2 ^ 32"
  shows "hwreg R True [dec v @ 61 # dec w] d = (case rg_read R v (rg_write R v (of_nat w) d) of (r, d) \<Rightarrow> Some ([Result (of_nat v) r], d))"
proof -
  let ?x = "of_nat v :: u32"
  have v: "unat ?x = v" using assms(1) by (simp add: unsigned_of_nat take_bit_nat_eq_self)
  have "unat (map_len 0) = 0x2000" unfolding map_len_def unat_page by (simp add: PAGE_SIZE_def)
  moreover have "unat (?x AND (PAGE_SIZE - 1)) < 0x1000" and "unat (page_of ?x) + unat (?x AND (PAGE_SIZE - 1)) = v"
    using v unfolding unat_offset page_of_def unat_page by simp_all
  ultimately show ?thesis
    using reg_args_write [OF assms] page_plus_offset [of ?x] by (simp add: hwreg_def reg_put_def reg_get_def Let_def split: prod.split)
qed

theorem hwreg_writes_witness: "hwreg plain_regs True [dec 8191 @ 61 # dec 5] (\<lambda>a. 0) = Some ([Result 8191 5], (\<lambda>a. 0)(8191 := 5))"
  using hwreg_writes [of 8191 5 plain_regs "\<lambda>a. 0"] by (simp add: plain_regs_def)

end
