(* ===== verification/LowPower.thy ===== *)
theory LowPower
  imports LogHash
begin

text \<open>
  \<open>src/src/hardware/low_power_consume_app.c\<close>: a client that sleeps between the messages of its server.
  The calls of the vendor's library and of the socket are a trace; what the kernel returns is a script,
  and \<open>None\<close> is a call that has not returned when its script ends.
\<close>

section \<open>The timer\<close>

record itimerspec =
  it_sec :: int
  it_nsec :: int

text \<open>\<open>start_timer\<close> sets the interval and the first value to the same time.\<close>

definition timer_value :: "int \<Rightarrow> itimerspec" where
  "timer_value ms = \<lparr>it_sec = ms div 1000, it_nsec = (ms mod 1000) * 1000\<rparr>"

datatype power_ev = Wake_lock nat | Wake_unlock nat | Send "byte list" | Timer itimerspec | Message "byte list" nat nat | Close_socket

definition WAKELOCK_TIMER :: nat where "WAKELOCK_TIMER = 0"
definition WAKELOCK_SOCK :: nat where "WAKELOCK_SOCK = 1"

definition keepalive :: "byte list" where "keepalive = lit ''TEST0000068C0KTH+keepalive''"

definition timer_thread :: "power_ev list" where
  "timer_thread = [Wake_lock WAKELOCK_TIMER, Send keepalive, Timer (timer_value (9 * 60 * 1000)), Wake_unlock WAKELOCK_TIMER]"

section \<open>Connecting\<close>

datatype sock_poll = Poll_failed int | Poll_idle | Poll_done int

text \<open>The wait for a connection under way: before each \<open>poll\<close> the clock is read. The result is the return value, or that the time is over.\<close>

fun wait_connect :: "ulong \<Rightarrow> (ulong \<times> sock_poll) list \<Rightarrow> int option option" where
  "wait_connect start [] = None"
| "wait_connect start ((now, p) # ts) =
     (if \<not> now < start + 5000 then Some None
      else case p of
          Poll_failed e \<Rightarrow> if e = EINTR then wait_connect start ts else Some (Some (- 1))
        | Poll_done e \<Rightarrow> Some (Some (if e = 0 then 0 else - 1))
        | Poll_idle \<Rightarrow> wait_connect start ts)"

text \<open>Every call of \<open>connect\<close>: its error or 0, the clock behind it, and what the wait meets.\<close>

definition EINPROGRESS :: int where "EINPROGRESS = 115"

fun connect_server :: "(int \<times> ulong \<times> (ulong \<times> sock_poll) list) list \<Rightarrow> int option" where
  "connect_server [] = None"
| "connect_server ((e, start, ts) # cs) =
     (if e = 0 then Some 0
      else if e = EINTR then connect_server cs
      else if e = EAGAIN \<or> e = EINPROGRESS then
        do { r \<leftarrow> wait_connect start ts; case r of None \<Rightarrow> connect_server cs | Some ret \<Rightarrow> Some ret }
      else Some (- 1))"

text \<open>
  The loop over the addresses: for each, what \<open>socket\<close> returns and what its connection meets. The state
  is the return value, the global \<open>sockfd\<close>, and the descriptors that were closed.
\<close>

fun try_addresses :: "(int \<times> (int \<times> ulong \<times> (ulong \<times> sock_poll) list) list) list \<Rightarrow> int \<Rightarrow> int \<Rightarrow> int list \<Rightarrow> (int \<times> int \<times> int list) option" where
  "try_addresses [] ret sockfd closed = Some (ret, sockfd, closed)"
| "try_addresses ((fd, cs) # as) ret sockfd closed =
     (if fd < 0 then try_addresses as ret fd closed
      else do {
        ret \<leftarrow> connect_server cs;
        if ret = 0 then Some (ret, fd, closed) else try_addresses as ret (- 1) (closed @ [fd]) })"

definition tcp_client :: "int \<Rightarrow> (int \<times> (int \<times> ulong \<times> (ulong \<times> sock_poll) list) list) list \<Rightarrow> (int \<times> int \<times> int list) option" where
  "tcp_client resolved as =
     (if resolved < 0 then Some (- 1, 0, [])
      else do {
        (ret, sockfd, closed) \<leftarrow> try_addresses as resolved 0 [];
        Some (if sockfd < 0 then - 1 else ret, sockfd, closed) })"

section \<open>Receiving\<close>

text \<open>\<open>strstr\<close> on a text up to its terminator.\<close>

fun contains :: "byte list \<Rightarrow> byte list \<Rightarrow> bool" where
  "contains pat [] \<longleftrightarrow> pat = []"
| "contains pat (c # s) \<longleftrightarrow> take (length pat) (c # s) = pat \<or> contains pat s"

datatype recv_poll = Rp_none | Rp_data "byte list" | Rp_error int | Rp_hup | Rp_other

text \<open>
  The endless loop of \<open>client_rev_process\<close>: the lock is given up while \<open>poll\<close> waits. The trace and the
  counters; whether the process has left through \<open>exit\<close>.
\<close>

definition power_nap :: "power_ev list" where "power_nap = [Wake_unlock WAKELOCK_SOCK, Wake_lock WAKELOCK_SOCK]"

fun recv_turns :: "recv_poll list \<Rightarrow> nat \<Rightarrow> nat \<Rightarrow> power_ev list \<times> nat \<times> nat \<times> bool" where
  "recv_turns [] hb wp = ([], hb, wp, False)"
| "recv_turns (p # ps) hb wp =
     (case p of
        Rp_data bs \<Rightarrow>
          let buf = take 1023 bs in
          if buf = [] then (power_nap @ [Close_socket], hb, wp, True)
          else
            let s = takeWhile (\<lambda>c. c \<noteq> 0) buf;
                hb' = (if contains (lit ''R2D_HB_R'') s then hb + 1 else hb);
                wp' = (if \<not> contains (lit ''R2D_HB_R'') s \<and> contains (lit ''R2D_WKUP'') s then wp + 1 else wp) in
            (case recv_turns ps hb' wp' of (tr, r) \<Rightarrow> (power_nap @ Message s hb' wp' # tr, r))
      | Rp_error e \<Rightarrow>
          if e \<noteq> EINTR then (power_nap @ [Close_socket], hb, wp, True)
          else (case recv_turns ps hb wp of (tr, r) \<Rightarrow> (power_nap @ tr, r))
      | Rp_hup \<Rightarrow> (power_nap @ [Close_socket], hb, wp, True)
      | _ \<Rightarrow> (case recv_turns ps hb wp of (tr, r) \<Rightarrow> (power_nap @ tr, r)))"

text \<open>
  \<open>client_rev_process\<close>: the keepalive message, of which \<open>sent\<close> bytes are taken, the timer, the loop.
  The result is whether it returned, left, or still runs.
\<close>

datatype rev_end = Returned | Left | Still_running

definition client_rev_process :: "int \<Rightarrow> bool \<Rightarrow> recv_poll list \<Rightarrow> power_ev list \<times> rev_end" where
  "client_rev_process sent timer_ok ps =
     (if sent \<noteq> int (length keepalive) then ([Send keepalive], Returned)
      else if \<not> timer_ok then ([Send keepalive], Left)
      else case recv_turns ps 0 0 of (tr, hb, wp, ex) \<Rightarrow>
        ([Send keepalive, Timer (timer_value (20 * 1000))] @ tr, if ex then Left else Still_running))"

section \<open>Properties\<close>

text \<open>
  Replays the lock of the socket: it is given up only while it is held and taken only while it is not,
  and messages are handled and the socket is closed only while it is held. The result is whether it is
  held at the end.
\<close>

fun replay :: "bool \<Rightarrow> power_ev list \<Rightarrow> bool option" where
  "replay h [] = Some h"
| "replay h (Wake_unlock l # tr) = (if l \<noteq> WAKELOCK_SOCK then replay h tr else if h then replay False tr else None)"
| "replay h (Wake_lock l # tr) = (if l \<noteq> WAKELOCK_SOCK then replay h tr else if \<not> h then replay True tr else None)"
| "replay h (Message s a b # tr) = (if h then replay h tr else None)"
| "replay h (Close_socket # tr) = (if h then replay h tr else None)"
| "replay h (Send s # tr) = replay h tr"
| "replay h (Timer v # tr) = replay h tr"

lemma replay_nap:
  "replay True (fst (case x of (tr, r) \<Rightarrow> (power_nap @ tr, r))) = replay True (fst x)"
  "replay True (fst (case x of (tr, r) \<Rightarrow> (power_nap @ Message s a b # tr, r))) = replay True (fst x)"
  "replay True (power_nap @ [Close_socket]) = Some True"
  by (cases x; simp add: power_nap_def)+

lemma recv_turns_lock: "replay True (fst (recv_turns ps hb wp)) = Some True"
proof (induction ps arbitrary: hb wp)
  case (Cons p ps)
  then show ?case by (cases p) (simp_all add: replay_nap Let_def)
qed simp

text \<open>
  The device may only sleep while the client waits: whatever the server sends, the wake lock of the
  socket is given up around each \<open>poll\<close> only, and is held for every message, for closing the socket, and
  at the end.
\<close>

theorem sleeps_only_in_poll: "replay True (fst (client_rev_process sent timer_ok ps)) = Some True"
  using recv_turns_lock [of ps 0 0] by (auto simp: client_rev_process_def split: prod.splits)

text \<open>
  The counters count packets, not messages: two heartbeats that arrive together count once, and one
  that arrives in two pieces does not count, as the socket is a stream.
\<close>

theorem heartbeats_are_miscounted:
  "fst (snd (recv_turns [Rp_data (lit ''R2D_HB_R''), Rp_data (lit ''R2D_HB_R'')] 0 0)) = 2
   \<and> fst (snd (recv_turns [Rp_data (lit ''R2D_HB_RR2D_HB_R'')] 0 0)) = 1
   \<and> fst (snd (recv_turns [Rp_data (lit ''R2D_''), Rp_data (lit ''HB_RR2D_HB''), Rp_data (lit ''_R'')] 0 0)) = 0"
  by (simp add: lit_def Let_def)

text \<open>An address fails that has no socket, or whose connection ends with an error.\<close>

definition fails :: "int \<times> (int \<times> ulong \<times> (ulong \<times> sock_poll) list) list \<Rightarrow> bool" where
  "fails a \<longleftrightarrow> fst a < 0 \<or> (\<exists>r. connect_server (snd a) = Some r \<and> r \<noteq> 0)"

lemma try_addresses_skip:
  "\<forall>a \<in> set as. fails a \<Longrightarrow> \<exists>ret' fd'. try_addresses (as @ bs) ret fd closed = try_addresses bs ret' fd' (closed @ filter (\<lambda>fd. 0 \<le> fd) (map fst as)) \<and> (as \<noteq> [] \<longrightarrow> fd' < 0)"
proof (induction as arbitrary: ret fd closed)
  case (Cons a as)
  obtain f cs where a: "a = (f, cs)" by (cases a)
  have ih: "\<exists>ret' fd'. try_addresses (as @ bs) r g c = try_addresses bs ret' fd' (c @ filter (\<lambda>fd. 0 \<le> fd) (map fst as)) \<and> (as \<noteq> [] \<longrightarrow> fd' < 0)" for r g c
    by (rule Cons.IH) (use Cons.prems in simp)
  show ?case
  proof (cases "f < 0")
    case True
    then show ?thesis using ih [of ret f closed] by (cases "as = []") (auto simp: a intro: exI [of _ f])
  next
    case False
    then obtain r where "connect_server cs = Some r" "r \<noteq> 0" using Cons.prems by (auto simp: a fails_def)
    then have e: "try_addresses ((a # as) @ bs) ret fd closed = try_addresses (as @ bs) r (- 1) (closed @ [f])" using False by (simp add: a)
    show ?thesis
    proof (cases "as = []")
      case True
      then show ?thesis unfolding e using False by (intro exI [of _ r] exI [of _ "- 1"]) (simp add: a)
    next
      case False
      then show ?thesis unfolding e using ih [of r "- 1" "closed @ [f]"] \<open>\<not> f < 0\<close> by (simp add: a)
    qed
  qed
qed auto

text \<open>
  The client takes the first address that connects; the sockets of those before are closed, and no
  other. Where none connects it fails, with every socket closed.
\<close>

theorem tcp_client_takes_first:
  assumes "\<forall>a \<in> set as. fails a" and "0 \<le> fd" and "connect_server cs = Some 0" and "as \<noteq> []"
  shows "tcp_client 0 (as @ (fd, cs) # bs) = Some (0, fd, filter (\<lambda>fd. 0 \<le> fd) (map fst as))
    \<and> (\<exists>fd'. tcp_client 0 as = Some (- 1, fd', filter (\<lambda>fd. 0 \<le> fd) (map fst as)) \<and> fd' < 0)"
  using try_addresses_skip [OF assms(1), of "(fd, cs) # bs" 0 0 "[]"] try_addresses_skip [OF assms(1), of "[]" 0 0 "[]"] assms(2-4)
  by (auto simp: tcp_client_def)

theorem tcp_client_takes_first_witness:
  "tcp_client 0 ([(4, [(EINPROGRESS, 100, [(200, Poll_failed EINTR), (300, Poll_idle), (400, Poll_done 111)])]), (- 1, [])] @ (5, [(EINTR, 0, []), (0, 0, [])]) # []) = Some (0, 5, [4])
    \<and> (\<exists>fd'. tcp_client 0 [(4, [(EINPROGRESS, 100, [(200, Poll_failed EINTR), (300, Poll_idle), (400, Poll_done 111)])]), (- 1, [])] = Some (- 1, fd', [4]) \<and> fd' < 0)"
proof -
  let ?as = "[(4, [(EINPROGRESS, 100, [(200, Poll_failed EINTR), (300, Poll_idle), (400, Poll_done 111)])]), (- 1, [])]"
  have f: "\<forall>a \<in> set ?as. fails a" by (simp add: fails_def EINPROGRESS_def EINTR_def EAGAIN_def)
  have c: "connect_server [(EINTR, 0, []), (0, 0, [])] = Some 0" by (simp add: EINTR_def)
  have m: "filter (\<lambda>fd. 0 \<le> fd) (map fst ?as) = [4 :: int]" by simp
  show ?thesis using tcp_client_takes_first [OF f _ c, of 5 "[]"] unfolding m by simp
qed

end
