(* ===== verification/Reserve.thy ===== *)
theory Reserve
  imports Prelude
begin

text \<open>
  \<open>src/src/reserve.c\<close>: \<open>reverse_buffer\<close>, which uses two instructions of the ARM processor: \<open>RBIT\<close>
  reverses the bits of a word and \<open>REV\<close> its bytes. Together they reverse the bits of every byte.
\<close>

definition RBIT :: "u32 \<Rightarrow> u32" where "RBIT w = horner_sum of_bool 2 (map (\<lambda>i. bit w (31 - i)) [0..<32])"

definition REV :: "u32 \<Rightarrow> u32" where
  "REV w = push_bit 24 (w AND 0xff) OR push_bit 8 (w AND 0xff00) OR (drop_bit 8 w AND 0xff00) OR drop_bit 24 w"

definition reverse_step :: "u32 list \<Rightarrow> nat \<Rightarrow> u32 list \<Rightarrow> u32 list option" where
  "reverse_step src i dest = do { temp \<leftarrow> rd src i; wr dest i (REV (RBIT temp)) }"

definition reverse_buffer :: "u32 list \<Rightarrow> int \<Rightarrow> u32 list \<Rightarrow> u32 list option" where
  "reverse_buffer src sz dest = for_range 0 (nat sz) (reverse_step src) dest"

lemma bit_RBIT: "bit (RBIT w) n \<longleftrightarrow> n < 32 \<and> bit w (31 - n)"
  unfolding RBIT_def by (simp add: bit_horner_sum_bit_word_iff) auto

text \<open>Bit \<open>n\<close> of the result is bit \<open>7 - n mod 8\<close> of the same byte.\<close>

lemma bit_REV_RBIT: "n < 32 \<Longrightarrow> bit (REV (RBIT w)) n \<longleftrightarrow> bit w (8 * (n div 8) + 7 - n mod 8)"
proof -
  assume n: "n < 32"
  have "\<forall>n \<in> set [0..<32]. bit (REV (RBIT w)) n \<longleftrightarrow> bit w (8 * (n div 8) + 7 - n mod 8)"
    by (simp add: REV_def bit_RBIT bit_simps upt_conv_Cons)
  then show ?thesis using n by simp
qed

lemma reverse_word_twice: "REV (RBIT (REV (RBIT w))) = w"
proof (rule bit_word_eqI)
  fix n assume "n < LENGTH(32)"
  then have n: "n < 32" by simp
  define q r where "q = n div 8" and "r = n mod 8"
  have r: "r < 8" and q: "q < 4" and nq: "n = 8 * q + r" using n by (auto simp: q_def r_def)
  have e: "8 * q + 7 - r = 8 * q + (7 - r)" using r by simp
  have "(8 * q + s) div 8 = q \<and> (8 * q + s) mod 8 = s" if "s < 8" for s :: nat using that by simp
  from this [of "7 - r"] have "(8 * q + (7 - r)) div 8 = q" "(8 * q + (7 - r)) mod 8 = 7 - r" by simp_all
  then have m: "8 * (n div 8) + 7 - n mod 8 < 32" "8 * ((8 * (n div 8) + 7 - n mod 8) div 8) + 7 - (8 * (n div 8) + 7 - n mod 8) mod 8 = n"
    using q r nq unfolding q_def [symmetric] r_def [symmetric] e by simp_all
  show "bit (REV (RBIT (REV (RBIT w)))) n \<longleftrightarrow> bit w n" using bit_REV_RBIT [OF n] bit_REV_RBIT [OF m(1)] m(2) by simp
qed

lemma reverse_buffer_result:
  assumes "0 \<le> sz" and "nat sz \<le> length src" and "nat sz \<le> length dest"
  shows "reverse_buffer src sz dest = Some (map (\<lambda>w. REV (RBIT w)) (take (nat sz) src) @ drop (nat sz) dest)"
proof -
  let ?f = "\<lambda>w. REV (RBIT w)"
  have "\<exists>d. for_range 0 (nat sz) (reverse_step src) dest = Some d \<and> d = map ?f (take (nat sz) src) @ drop (nat sz) dest"
  proof (rule for_range_rule)
    fix k s assume k: "k < nat sz" "s = map ?f (take k src) @ drop k dest"
    then have "wr s k (?f (src ! k)) = Some (map ?f (take (Suc k) src) @ drop (Suc k) dest)"
      using assms by (simp add: wr_def list_update_append take_Suc_conv_app_nth Cons_nth_drop_Suc [symmetric])
    then show "\<exists>s'. reverse_step src k s = Some s' \<and> s' = map ?f (take (Suc k) src) @ drop (Suc k) dest"
      using k(1) assms(2) by (simp add: reverse_step_def rd_eq)
  qed simp_all
  then show ?thesis by (simp add: reverse_buffer_def)
qed

section \<open>Properties\<close>

text \<open>
  Every byte of the buffer has its bits reversed and stays where it is; reversing the result gives
  the source back, and nothing behind \<open>size\<close> words is written.
\<close>

theorem reverse_buffer_roundtrip:
  assumes "0 \<le> sz" and "nat sz \<le> length src" and "length dest = nat sz" and "length dest' = nat sz"
  shows "\<exists>d. reverse_buffer src sz dest = Some d \<and> reverse_buffer d sz dest' = Some (take (nat sz) src)
    \<and> (\<forall>i < nat sz. \<forall>n < 32. bit (d ! i) n \<longleftrightarrow> bit (src ! i) (8 * (n div 8) + 7 - n mod 8))"
proof -
  let ?d = "map (\<lambda>w. REV (RBIT w)) (take (nat sz) src)"
  have "reverse_buffer src sz dest = Some ?d" using reverse_buffer_result [OF assms(1,2), of dest] assms(3) by simp
  moreover have "reverse_buffer ?d sz dest' = Some (take (nat sz) src)"
    using reverse_buffer_result [OF assms(1), of ?d dest'] assms(2,4) by (simp add: reverse_word_twice comp_def)
  ultimately show ?thesis using assms(2) bit_REV_RBIT by (intro exI [where x = ?d]) simp
qed

theorem reverse_buffer_roundtrip_witness:
  "\<exists>d. reverse_buffer [1, 0x80FF] 2 [0, 0] = Some d \<and> reverse_buffer d 2 [0, 0] = Some (take (nat 2) [1, 0x80FF])
    \<and> (\<forall>i < nat 2. \<forall>n < 32. bit (d ! i) n \<longleftrightarrow> bit ([1, 0x80FF :: u32] ! i) (8 * (n div 8) + 7 - n mod 8))"
  by (rule reverse_buffer_roundtrip) simp_all

end
