(* ===== verification/Spec2Isabelle.thy ===== *)
theory Spec2Isabelle
  imports RecordDump Client LogMain DList HList Timer BitmapArea BitmapList Har FromBin Rtc GpioI2c Edid Gpio Hwreg LowPower Reserve
begin

text \<open>
  A model of the C code of the \<open>download\<close> repository and the theorems that make it correct. The
  repository holds a recovery server and its client, which exchange framed packets over TCP; a log
  daemon with its client library; a tool that queries a dump of a database; the containers and bit
  operations all of them are built on, taken over from the Linux kernel; and small programs for the
  hardware of an embedded board. Paths begin with the directory \<open>src\<close> that holds the repository, and
  functions keep their names.

  The programs and how they fit together.

  \<^item> \<open>src/src/server/main.c\<close> and \<open>src/src/client/main.c\<close> are event loops: \<open>epoll_wait\<close>, the callbacks of the
    events, \<open>process_timer\<close>. The server (\<open>src/src/server/server.c\<close>) accepts clients and hands on the
    packets of each; the client (\<open>src/src/client/client.c\<close>) is a state machine that connects, reads
    packets and connects again after a failure, driven by a timer. Both read packets with
    \<open>dw_get_packet\<close> (\<open>src/src/packet.c\<close>), which reads through a channel (\<open>src/src/io.c\<close>) and checks headers
    with a CRC (\<open>src/src/crc8.c\<close>). Timers (\<open>src/src/timer.c\<close>) live in a timer queue (\<open>src/src/timerqueue.c\<close>),
    which is a red-black tree (\<open>src/src/rbtree.c\<close>).
  \<^item> A program logs through \<open>src/src/log/log.c\<close> and \<open>src/src/log/socket.c\<close>, one datagram for each line. The
    daemon (\<open>src/src/log/logd.c\<close>) writes it to a rotating file (\<open>src/src/log/file.c\<close>) and sends it to the
    watchers whose filter lets it pass. The same program, started otherwise, is a watcher.
  \<^item> \<open>src/src/record/record.c\<close> reads a table from the text of a database dump, sorts and hashes its
    records and answers queries.
  \<^item> \<open>src/src/edid.c\<close>, \<open>src/tools/har.c\<close> and \<open>src/tools/frombin.c\<close> are tools on files; \<open>src/src/hw\<close> and
    \<open>src/src/hardware\<close> drive I2C, GPIO, a real-time clock and registers.

  Conventions. A run of C code is a function of the state and yields an option: \<open>None\<close> is undefined
  behaviour (an access outside an object, a pointer to no object, a pointer that was never set) or,
  for a \<open>partial_function\<close>, a loop that does not end. Errors of the code are values: return values keep
  their sign and their \<open>errno\<close>, null pointers are \<open>None\<close> inside the result. Machine integers are words
  of their width, and a conversion between \<open>int\<close> and \<open>size_t\<close> is written out where a value can get
  lost. Bytes are 8-bit words, text is a list of bytes. Memory is explicit where the code depends on
  it: heaps of nodes for the linked structures, checked reads and writes (\<open>rd\<close>, \<open>wr\<close>, \<open>mem_read\<close>,
  \<open>mem_write\<close>) for buffers, maps from addresses to objects where objects are freed. What the kernel
  and the C library do is an argument: a script of events or outcomes, a record of the results of the
  calls a function makes, or, for devices, a record of functions over a state of their own with their
  documented behaviour as a named hypothesis. A script that ends leaves the call it feeds waiting.
  Output is a value. Messages that are only printed are left out.

  The theories, in the order of their dependence.

  \<^item> \<open>Prelude\<close>: the C types, \<open>errno\<close>, checked memory, the counted loops \<open>for_range\<close>, \<open>for_down\<close> and
    \<open>any_range\<close> with total-correctness rules, the collections \<open>run_simps\<close> and \<open>loop_rules\<close>.
    \<open>CLib\<close>: what is used of the C library: character classes, \<open>snprintf\<close>, C strings, \<open>malloc\<close> by a
    list of outcomes, \<open>strtol\<close> and \<open>strtoull\<close> with base 0.
  \<^item> \<open>Crc8\<close> (\<open>src/src/crc8.c\<close>): the table computes the bit-serial CRC. \<open>SocketIO\<close> (\<open>src/src/io.c\<close>, \<open>io.h\<close>): the
    channel; the locale \<open>io_reader\<close> is what the packet layer needs of a channel, interpreted by
    \<open>read_socket\<close>. \<open>Packet\<close> (\<open>src/src/packet.c\<close>, \<open>packet.h\<close>, \<open>protocol.h\<close>): \<open>dw_get_packet\<close> refines
    \<open>deframe\<close>, a parser of the whole stream, for every way the stream is cut into pieces: packets come
    out in order, and without a packet it reports its last read (\<open>reads_until\<close>), the bytes received
    holding none. What \<open>dw_write_command_data\<close> writes is read back.
  \<^item> \<open>DList\<close>, \<open>HList\<close> (\<open>src/include/list.h\<close>): operations on rings and hash chains refine operations on
    lists, with frames; traversals have fuel, and fuel above the length is enough.
  \<^item> \<open>RbTree\<close>, \<open>RbTrees\<close>, \<open>RbHeap\<close>, \<open>RbInsert\<close>, \<open>RbUnlink\<close>, \<open>RbErase\<close>, \<open>RbWalk\<close> (\<open>src/src/rbtree.c\<close>,
    \<open>src/include/rbtree.h\<close>, \<open>rbtree_augmented.h\<close>): pointer code over a heap, the trees it stands for,
    insertion and deletion keep the red-black invariant and the order, walks, replacement, height.
    \<open>TimerQueue\<close> (\<open>src/src/timerqueue.c\<close>): refines ordered insertion; the locale \<open>timer_queue\<close>, which
    \<open>Timer\<close> (\<open>src/src/timer.c\<close>) rests on, is interpreted here. \<open>process_timer\<close> fires every timer that is
    due, once and in order, and returns.
  \<^item> \<open>Bits\<close>, \<open>Hweight\<close>, \<open>FindBit\<close>, \<open>Bitmap\<close>, \<open>BitmapShift\<close>, \<open>BitmapMap\<close>, \<open>BitmapArea\<close>, \<open>BitmapHex\<close>,
    \<open>BitmapList\<close> (\<open>src/src/bits.h\<close>, \<open>hweight.c\<close>, \<open>find_next_bit.c\<close>, \<open>bitmap.c\<close>, \<open>bitmap.h\<close>): words and
    arrays of words against sets of numbers; the two text formats parse back what is printed.
  \<^item> \<open>RecordSort\<close>, \<open>RecordData\<close>, \<open>RecordParse\<close>, \<open>RecordRead\<close>, \<open>RecordTable\<close>, \<open>RecordQuery\<close>,
    \<open>RecordDump\<close> (\<open>src/src/record/record.c\<close>, \<open>record.h\<close>): the sorts, the parser of the dump, which
    rows it reads back (\<open>rows_read\<close>: after a row whose last column is read too, the next row is
    skipped), the type invariant of every record read under all outcomes of \<open>malloc\<close>, the hash table
    and its invariant, queries, printing, and \<open>record_main\<close>, the program. The fields \<open>cn\<close> and \<open>title\<close>
    of a context, which \<open>calloc\<close> and \<open>malloc\<close> may leave unset, are the record \<open>titles\<close>.
  \<^item> \<open>Server\<close>, \<open>Client\<close>, \<open>MainLoop\<close>: the callbacks over the packet layer and the timers, the invariant
    of the server under every interleaving of arrivals and batches of events (\<open>server_step\<close>), the
    phases of the client and their refinement, reconnection; the two programs as a whole, whose loop
    is the locale \<open>event_program\<close>, interpreted by both. What these theorems assume of the world is
    named: no peer sends a header with a valid CRC that announces more than a packet holds (\<open>sane\<close>,
    inside \<open>batch_ok\<close>; \<open>sane_stream\<close>, inside \<open>client_turn_ok\<close>), and the allocation of a channel, whose
    failure the code does not survive, succeeds (\<open>ne_ioc\<close>, \<open>conn_ok\<close>). What such a header does to a
    server in any reachable state is a theorem of its own.
  \<^item> \<open>LogHash\<close>, \<open>LogFilter\<close>, \<open>LogFile\<close>, \<open>LogDaemon\<close>, \<open>LogClient\<close>, \<open>LogMain\<close> (\<open>src/src/log\<close>): hashing,
    filters as rules, log files over a file system with rotation and cleaning (\<open>find_rounds\<close> counts the
    rounds of the search for the oldest log, which tells a search that goes on for ever from undefined behaviour), delivery of a packet,
    the client library whose datagram the daemon turns into a line, starting the daemon, the watcher.
  \<^item> \<open>Har\<close>, \<open>FromBin\<close>, \<open>Edid\<close>: the tools, with the round trips of their formats. \<open>I2cDev\<close>, \<open>Rtc\<close>,
    \<open>GpioI2c\<close>, \<open>Gpio\<close>, \<open>Hwreg\<close>, \<open>LowPower\<close>, \<open>Reserve\<close> (\<open>src/src/hw\<close>, \<open>src/src/hardware\<close>, \<open>src/src/reserve.c\<close>): the
    table of shared devices, the clock, the bit-banged bus as traces of its lines, the registry of
    GPIO interrupts under two threads (\<open>irq_reach\<close>), a pin of the kernel's GPIO files
    (\<open>documented_pin\<close>, the assumption on \<open>sysfs\<close>), register access, a client that sleeps, bytes
    with their bits reversed.

  Bounds, fuel and termination. Loops of the code that end are total functions where their measure is
  in the arguments. Fuel stands in three places. The traversals of \<open>list.h\<close> have bodies that may relink
  the list; more fuel than the list is long is enough (\<open>DList\<close>, \<open>HList\<close>).
  \<open>dw_get_packet\<close> goes round once for each false start of a packet; one more than the bytes cached
  and still to come is enough (\<open>get_packet_correct\<close>). \<open>recv_loop\<close> goes round once for each packet;
  one more than the packets that \<open>frames\<close> finds in the stream is enough, which is what \<open>handle_client\<close>
  and the client give it. Loops that the code may run for ever are \<open>partial_function\<close>s or read a
  script; that they return is a theorem where it holds (sending in \<open>SocketIO\<close>, \<open>process_timer\<close> in
  \<open>Timer\<close>, the programs in \<open>MainLoop\<close>) and refuted where it does not (cleaning in \<open>LogFile\<close>, long
  program names in \<open>LogFilter\<close>). Packets have at most 1292 bytes and the cache has room
  for 16 of them; the hash tables have the sizes of the sources; addresses are 64-bit words.

  Where the code goes wrong, the theorem says so: an oversized header makes the receiver write behind
  its packet object (\<open>Packet\<close>, \<open>Server\<close>), a long rule stops the daemon (\<open>LogFilter\<close>), a missing dump file
  makes the query tool read fields that were never set and free what it finds there (\<open>RecordDump\<close>), the
    search for the oldest log goes on for ever (\<open>LogFile\<close>), and others. Simplifications of single
    functions (the stack of \<open>quick_sort\<close>, the two calls behind \<open>SET_VALUE\<close>, \<open>signal\<close> in the client's
    \<open>main\<close>) are stated where the functions are.

  Not modelled: the C++ program under \<open>src/src/track\<close>; \<open>src/src/findbit.S\<close>, which is assembler, and the
  inline assembler of \<open>bits.h\<close> other than what its functions are documented to do; the parts of
  \<open>src/src/hardware/example_gpio.c\<close> that are the same text as \<open>src/src/hw/example_gpio.c\<close>; the structures and
  command codes of \<open>protocol.h\<close> and the constants of \<open>edid.h\<close> that no code uses; argument handling and
  usage messages of the \<open>main\<close> functions; mutexes and spin locks, which have no effect on what one
  call does; build files, documents and scripts.
\<close>

end
